(* ===== verification/Prelude.thy ===== *)
theory Prelude
  imports Main "HOL-Library.Word" "HOL-Library.Monad_Syntax"
begin

text \<open>
  Shared vocabulary of the development: the C integer types of the 32-bit target as words, a
  byte-addressed memory, byte buffers (C arrays) with range reads and writes, and the generic
  facts on lists, words and options that the component theories use.  The collection
  \<open>buf_simps\<close> gathers the facts about ranges of a buffer.
\<close>

unbundle bit_operations_syntax

named_theorems buf_simps

type_synonym u8 = "8 word"
type_synonym u16 = "16 word"
type_synonym u32 = "32 word"
type_synonym mem = "u32 \<Rightarrow> u8"
type_synonym bytes = "u8 list"

section \<open>Byte memory\<close>

text \<open>\<open>mem_read m a n\<close> is what \<open>memcpy(dst, a, n)\<close> copies out of \<open>m\<close>, and \<open>mem_write m a bs\<close>
  is \<open>m\<close> after the bytes \<open>bs\<close> have been stored from address \<open>a\<close> on.\<close>

definition mem_read :: "mem \<Rightarrow> u32 \<Rightarrow> nat \<Rightarrow> bytes" where
  "mem_read m a n = map (\<lambda>i. m (a + of_nat i)) [0..<n]"

definition mem_write :: "mem \<Rightarrow> u32 \<Rightarrow> bytes \<Rightarrow> mem" where
  "mem_write m a bs = (\<lambda>x. if unat (x - a) < length bs then bs ! unat (x - a) else m x)"

text \<open>Evaluation compares the offset as an integer, so that it never counts up to an address.\<close>

lemma mem_write_code [code]:
  "mem_write m a bs = (\<lambda>x. let d = uint (x - a) in if d < int (length bs) then bs ! nat d else m x)"
proof (rule ext)
  fix x
  define k where "k = unat (x - a)"
  have "uint (x - a) = int k" unfolding k_def by (rule uint_nat)
  then show "mem_write m a bs x = (let d = uint (x - a) in if d < int (length bs) then bs ! nat d else m x)"
    unfolding mem_write_def Let_def k_def [symmetric] by simp
qed

lemma length_mem_read [simp]: "length (mem_read m a n) = n"
  by (simp add: mem_read_def)

lemma nth_mem_read [simp]: "i < n \<Longrightarrow> mem_read m a n ! i = m (a + of_nat i)"
  by (simp add: mem_read_def)

lemma mem_read_cong: "(\<And>i. i < n \<Longrightarrow> m (a + of_nat i) = m' (a + of_nat i)) \<Longrightarrow> mem_read m a n = mem_read m' a n"
  by (simp add: mem_read_def)

lemma mem_write_append:
  assumes "length xs + length ys \<le> 2 ^ 32"
  shows "mem_write (mem_write m a xs) (a + of_nat (length xs)) ys = mem_write m a (xs @ ys)"
proof
  fix x :: u32
  let ?d = "x - a"
  have e: "x - (a + of_nat (length xs)) = ?d - of_nat (length xs)" by simp
  show "mem_write (mem_write m a xs) (a + of_nat (length xs)) ys x = mem_write m a (xs @ ys) x"
  proof (cases "length xs \<le> unat ?d")
    case True
    have "length xs < 2 ^ 32" using True unsigned_less [of ?d, where ?'a = nat] by simp
    then have "unat (of_nat (length xs) :: u32) = length xs"
      by (simp add: unat_of_nat)
    with True have "unat (?d - of_nat (length xs)) = unat ?d - length xs"
      by (simp add: unat_sub word_le_nat_alt)
    with True show ?thesis by (auto simp: mem_write_def e nth_append)
  next
    case False
    show ?thesis
    proof (cases "length xs < 2 ^ 32")
      case True
      then have n: "unat (of_nat (length xs) :: u32) = length xs"
        by (simp add: unat_of_nat)
      have "unat (?d - of_nat (length xs)) = unat ?d + 2 ^ 32 - length xs"
        using False n by (simp add: unat_sub_if_size word_size word_le_nat_alt)
      with False assms show ?thesis by (auto simp: mem_write_def e nth_append)
    next
      case False
      with assms have "ys = []" by (cases ys) auto
      then show ?thesis by (simp add: mem_write_def)
    qed
  qed
qed

section \<open>Buffers\<close>

text \<open>A C array of fixed size is a list; a range write keeps its length.\<close>

definition buf_write :: "'a list \<Rightarrow> nat \<Rightarrow> 'a list \<Rightarrow> 'a list" where
  "buf_write b off xs = take off b @ xs @ drop (off + length xs) b"

definition buf_read :: "'a list \<Rightarrow> nat \<Rightarrow> nat \<Rightarrow> 'a list" where
  "buf_read b off n = take n (drop off b)"

lemma length_buf_write [buf_simps]:
  "off + length xs \<le> length b \<Longrightarrow> length (buf_write b off xs) = length b"
  by (simp add: buf_write_def)

lemma length_buf_read [buf_simps]: "off + n \<le> length b \<Longrightarrow> length (buf_read b off n) = n"
  by (simp add: buf_read_def)

lemma nth_buf_write [buf_simps]:
  "off + length xs \<le> length b \<Longrightarrow> i < length b \<Longrightarrow>
   buf_write b off xs ! i = (if off \<le> i \<and> i < off + length xs then xs ! (i - off) else b ! i)"
  by (auto simp: buf_write_def nth_append min_def)

lemma nth_buf_read [buf_simps]: "off + n \<le> length b \<Longrightarrow> i < n \<Longrightarrow> buf_read b off n ! i = b ! (off + i)"
  by (simp add: buf_read_def)

lemma buf_read_all [buf_simps]: "length b = n \<Longrightarrow> buf_read b 0 n = b"
  by (simp add: buf_read_def)

lemma buf_write_all [buf_simps]: "length xs = length b \<Longrightarrow> buf_write b 0 xs = xs"
  by (simp add: buf_write_def)

lemma buf_read_write_same [buf_simps]:
  "off + length xs \<le> length b \<Longrightarrow> buf_read (buf_write b off xs) off (length xs) = xs"
  by (simp add: buf_read_def buf_write_def)

lemma buf_write_Nil [buf_simps]: "buf_write b off [] = b"
  by (simp add: buf_write_def)

lemma buf_write_Cons [buf_simps]:
  "off < length b \<Longrightarrow> buf_write b off (x # xs) = buf_write (b[off := x]) (Suc off) xs"
  by (simp add: buf_write_def upd_conv_take_nth_drop add.commute)

section \<open>Words\<close>

lemma unat_add_no_wrap: "unat a + n < 2 ^ LENGTH('a::len) \<Longrightarrow> unat ((a :: 'a word) + of_nat n) = unat a + n"
  by (simp add: unat_word_ariths unat_of_nat)

lemma unat_add_nat: "unat a + n < 2 ^ 32 \<Longrightarrow> unat ((a :: u32) + of_nat n) = unat a + n"
  by (simp add: unat_word_ariths unat_of_nat)

lemma unat_of_nat32: "n < 2 ^ 32 \<Longrightarrow> unat (of_nat n :: u32) = n"
  by (simp add: unat_of_nat)

lemma unat_sub_le: "b \<le> (a :: 'a::len word) \<Longrightarrow> unat (a - b) = unat a - unat b"
  by (simp add: unat_sub word_le_nat_alt)

lemma and_not_mask_eq: "(x :: 'a::len word) AND NOT (mask n) = push_bit n (drop_bit n x)"
  by (rule bit_word_eqI) (auto simp: bit_and_iff bit_not_iff bit_mask_iff bit_push_bit_iff bit_drop_bit_eq)

lemma unat_and_mask: "unat ((x :: 'a::len word) AND mask n) = unat x mod 2 ^ n"
proof -
  have "unat (take_bit n x) = take_bit n (unat x)"
    by (rule unsigned_take_bit_eq)
  then show ?thesis
    by (simp only: take_bit_eq_mask [symmetric] take_bit_nat_def)
qed

lemma unat_and_not_mask: "unat ((x :: 'a::len word) AND NOT (mask n)) = unat x div 2 ^ n * 2 ^ n"
proof -
  have "unat x div 2 ^ n * 2 ^ n < 2 ^ LENGTH('a)"
    by (metis div_times_less_eq_dividend le_less_trans unsigned_less)
  moreover have "unat (push_bit n (drop_bit n x)) = take_bit LENGTH('a) (push_bit n (unat (drop_bit n x)))"
    by (rule unsigned_push_bit_eq)
  moreover have "push_bit n (unat (drop_bit n x)) = unat x div 2 ^ n * 2 ^ n"
    by (simp only: push_bit_nat_def unat_drop_bit_eq drop_bit_nat_def)
  ultimately show ?thesis
    by (simp add: and_not_mask_eq take_bit_nat_eq_self)
qed

lemma sint32_unat: "sint (w :: u32) = (if unat w < 2 ^ 31 then int (unat w) else int (unat w) - 2 ^ 32)"
proof -
  have b: "0 \<le> uint w" "uint w < 2 ^ 32" using unsigned_less [of w, where ?'a = int] by simp_all
  have "sint w = (uint w + 2 ^ 31) mod 2 ^ 32 - 2 ^ 31"
    by (simp add: sint_uint signed_take_bit_eq_take_bit_shift take_bit_eq_mod)
  moreover have iw: "int (unat w) = uint w" by simp
  moreover have "(uint w + 2 ^ 31) mod 2 ^ 32 = (if uint w < 2 ^ 31 then uint w + 2 ^ 31 else uint w - 2 ^ 31)"
  proof (cases "uint w < 2 ^ 31")
    case True then show ?thesis using b by (simp add: mod_pos_pos_trivial)
  next
    case False
    then have "(uint w + 2 ^ 31) mod 2 ^ 32 = (uint w - 2 ^ 31 + 2 ^ 32) mod 2 ^ 32" by (simp add: add.commute)
    also have "\<dots> = (uint w - 2 ^ 31) mod 2 ^ 32" by (rule mod_add_self2)
    also have "\<dots> = uint w - 2 ^ 31" using b False by (simp add: mod_pos_pos_trivial)
    finally show ?thesis using False by simp
  qed
  moreover have "unat w < 2147483648 \<longleftrightarrow> uint w < 2147483648"
    using iw by linarith
  ultimately show ?thesis by simp
qed

lemma word_add_sub_cancel: "(a :: 'a::len word) + (b - a) = b"
  by simp


section \<open>Memory and buffers together\<close>

text \<open>Writing back a block of memory in which a range has been replaced writes the range only.\<close>

lemma mem_write_merge:
  assumes "off + length xs \<le> n" and "n \<le> 2 ^ 32"
  shows "mem_write m a (buf_write (mem_read m a n) off xs) = mem_write m (a + of_nat off) xs"
proof
  fix x :: u32
  let ?d = "x - a"
  have e: "x - (a + of_nat off) = ?d - of_nat off" by simp
  have len: "length (buf_write (mem_read m a n) off xs) = n"
    using assms by (simp add: length_buf_write)
  show "mem_write m a (buf_write (mem_read m a n) off xs) x = mem_write m (a + of_nat off) xs x"
  proof (cases "xs = []")
    case True
    then show ?thesis
      by (auto simp: mem_write_def buf_write_Nil)
  next
    case False
    with assms have o: "off < 2 ^ 32" by (cases xs) auto
    then have uo: "unat (of_nat off :: u32) = off" by (simp add: unat_of_nat)
    show ?thesis
    proof (cases "off \<le> unat ?d")
      case True
      with uo have s: "unat (?d - of_nat off) = unat ?d - off"
        by (simp add: unat_sub word_le_nat_alt)
      show ?thesis
      proof (cases "unat ?d < n")
        case True
        then show ?thesis
          using assms \<open>off \<le> unat ?d\<close> s
          by (auto simp: mem_write_def len e nth_buf_write)
      next
        case False
        then show ?thesis
          using assms \<open>off \<le> unat ?d\<close> s by (auto simp: mem_write_def len e)
      qed
    next
      case False
      have s: "unat (?d - of_nat off) = unat ?d + 2 ^ 32 - off"
        using False uo by (simp add: unat_sub_if_size word_size word_le_nat_alt)
      with False assms show ?thesis
        by (auto simp: mem_write_def len e nth_buf_write)
    qed
  qed
qed

lemma mem_read_write_same: "length xs \<le> 2 ^ 32 \<Longrightarrow> mem_read (mem_write m a xs) a (length xs) = xs"
  by (rule nth_equalityI) (auto simp: mem_write_def unat_of_nat)

lemma mem_read_append:
  "mem_read m a (n + k) = mem_read m a n @ mem_read m (a + of_nat n) k"
  by (rule nth_equalityI) (auto simp: nth_append algebra_simps of_nat_diff)

lemma buf_write_append:
  "p + length xs + length ys \<le> length b \<Longrightarrow>
   buf_write (buf_write b p xs) (p + length xs) ys = buf_write b p (xs @ ys)"
  by (rule nth_equalityI) (auto simp: length_buf_write nth_buf_write nth_append)

lemma concat_slices:
  "(i + k) * 512 \<le> length src \<Longrightarrow>
   concat (map (\<lambda>j. buf_read src (j * 512) 512) [i..<i + k]) = buf_read src (i * 512) (k * 512)"
proof (induction k arbitrary: i)
  case 0
  then show ?case by (simp add: buf_read_def)
next
  case (Suc k)
  have "concat (map (\<lambda>j. buf_read src (j * 512) 512) [i..<i + Suc k]) =
      buf_read src (i * 512) 512 @ concat (map (\<lambda>j. buf_read src (j * 512) 512) [Suc i..<Suc i + k])"
    by (simp add: upt_conv_Cons del: upt_Suc)
  also have "\<dots> = buf_read src (i * 512) 512 @ buf_read src (Suc i * 512) (k * 512)"
    using Suc.IH [of "Suc i"] Suc.prems by (simp del: upt_Suc)
  also have "\<dots> = buf_read src (i * 512) (Suc k * 512)"
    using take_add [of 512 "k * 512" "drop (i * 512) src"] by (simp add: buf_read_def add.commute)
  finally show ?case .
qed

end
