(* ===== verification/RaFlash.thy ===== *)
theory RaFlash
  imports Prelude
begin

text \<open>
  The internal flash driver of the RA8D1 build: \<open>ports/renesas-ra/ra/ra_flash.c\<close> (sector geometry,
  the byte loops \<open>lmemset\<close>, \<open>lmemcpy\<close>, \<open>lmemcmp\<close>, and \<open>internal_flash_*\<close>) and
  \<open>ports/renesas-ra/flash.c\<close>.  The flash sequencer behind \<open>R_FLASH_HP_Write\<close> and
  \<open>R_FLASH_HP_Erase\<close> is hardware: it is the record \<open>flash_hw\<close>, an argument of every definition
  that uses it, and \<open>flash_hw_ok\<close> states its documented behaviour on the file-system area.  The
  event flags \<open>g_b_flash_event_*\<close> are only ever written, so they are not part of the state, and
  the interrupt masking around the FSP calls has no effect on the values computed.
\<close>

section \<open>Sector geometry\<close>

definition REGION1_SECTOR_SIZE :: u32 where "REGION1_SECTOR_SIZE = 0x8000"
definition REGION0_SECTOR_SIZE :: u32 where "REGION0_SECTOR_SIZE = 0x2000"

definition sector_size :: "u32 \<Rightarrow> u32" where
  "sector_size addr = (if addr < 0x00010000 then REGION0_SECTOR_SIZE else REGION1_SECTOR_SIZE)"

definition sector_start :: "u32 \<Rightarrow> u32" where
  "sector_start addr =
     (if addr < 0x00010000 then addr AND NOT (REGION0_SECTOR_SIZE - 1)
      else addr AND NOT (REGION1_SECTOR_SIZE - 1))"

definition sector_index :: "u32 \<Rightarrow> u32" where
  "sector_index addr =
     (if addr < 0x00010000 then (addr - 0x00000000) div REGION0_SECTOR_SIZE
      else ((addr - 0x00010000) div REGION1_SECTOR_SIZE) + REGION0_SECTOR_SIZE)"

text \<open>The programming unit of \<open>internal_flash_writex\<close>: \<open>FLASH_SECTOR_SIZE\<close> of \<open>ra_flash.h\<close>.\<close>

definition FLASH_BUF_SIZE :: u32 where "FLASH_BUF_SIZE = 2048"
definition FLASH_BUF_OFF_MASK :: u32 where "FLASH_BUF_OFF_MASK = FLASH_BUF_SIZE - 1"
definition FLASH_BUF_ADDR_MASK :: u32 where "FLASH_BUF_ADDR_MASK = NOT FLASH_BUF_OFF_MASK"

text \<open>The file-system area \<open>FLASH_FS\<close> that the linker script \<open>ra8d1_ek.ld\<close> reserves.\<close>

definition FS_START :: u32 where "FS_START = 0x021E0000"
definition FS_LEN :: u32 where "FS_LEN = 0x00020000"

definition in_fs :: "u32 \<Rightarrow> bool" where
  "in_fs x = (FS_START \<le> x \<and> x < FS_START + FS_LEN)"

lemma unat_sector_start:
  "unat (sector_start x) =
     (if unat x < 0x10000 then unat x div 0x2000 * 0x2000 else unat x div 0x8000 * 0x8000)"
  using unat_and_not_mask [of x 13] unat_and_not_mask [of x 15]
  by (simp add: sector_start_def REGION0_SECTOR_SIZE_def REGION1_SECTOR_SIZE_def mask_eq_exp_minus_1
      word_less_nat_alt)

lemma unat_sector_index:
  "unat (sector_index x) =
     (if unat x < 0x10000 then unat x div 0x2000 else (unat x - 0x10000) div 0x8000 + 0x2000)"
proof (cases "unat x < 0x10000")
  case True
  then show ?thesis
    by (simp add: sector_index_def REGION0_SECTOR_SIZE_def word_less_nat_alt unat_div)
next
  case False
  then have d: "unat (x - 0x10000) = unat x - 0x10000"
    by (simp add: unat_sub word_le_nat_alt)
  have "unat x < 2 ^ 32" using unsigned_less [of x, where ?'a = nat] by simp
  then have "(unat x - 0x10000) div 0x8000 + 0x2000 < 2 ^ 32" by (simp add: div_less_mono)
  with False d show ?thesis
    by (simp add: sector_index_def REGION0_SECTOR_SIZE_def REGION1_SECTOR_SIZE_def word_less_nat_alt
        unat_word_ariths unat_div)
qed

lemma sector_index_eq_iff: "sector_index x = sector_index y \<longleftrightarrow> sector_start x = sector_start y"
proof -
  have shift: "(a - 65536) div 32768 = a div 32768 - 2" if "\<not> a < 65536" for a :: nat
    using that le_add_diff_inverse [of 65536 a] div_add1_eq [of "a - 65536" 65536 32768] by simp
  have big: "2 \<le> a div 32768" if "\<not> a < 65536" for a :: nat
    using that div_le_mono [of 65536 a 32768] by simp
  have small: "a div 8192 < 8" if "a < 65536" for a :: nat
    using that div_less_mono [of a 65536 8192] by simp
  show ?thesis
    unfolding word_unat_eq_iff unat_sector_index unat_sector_start
    using small [of "unat x"] small [of "unat y"] big [of "unat x"] big [of "unat y"]
    by (auto simp: shift)
qed

lemma sector_index_0: "sector_index x = 0 \<longleftrightarrow> unat x < 0x2000"
proof -
  have "sector_index x = 0 \<longleftrightarrow> unat (sector_index x) = 0" by (simp add: unat_eq_zero)
  then show ?thesis by (auto simp: unat_sector_index)
qed

lemma in_fs_unat: "in_fs x \<longleftrightarrow> 0x021E0000 \<le> unat x \<and> unat x < 0x02200000"
  by (simp add: in_fs_def FS_START_def FS_LEN_def word_le_nat_alt word_less_nat_alt)

section \<open>Byte loops\<close>

fun lmemset :: "bytes \<Rightarrow> nat \<Rightarrow> u8 \<Rightarrow> nat \<Rightarrow> bytes" where
  "lmemset d p c 0 = d"
| "lmemset d p c (Suc len) = lmemset (d[p := c]) (Suc p) c len"

fun lmemcpy :: "bytes \<Rightarrow> nat \<Rightarrow> (nat \<Rightarrow> u8) \<Rightarrow> nat \<Rightarrow> nat \<Rightarrow> bytes" where
  "lmemcpy d p s q 0 = d"
| "lmemcpy d p s q (Suc len) = lmemcpy (d[p := s q]) (Suc p) s (Suc q) len"

fun lmemcmp :: "(nat \<Rightarrow> u8) \<Rightarrow> nat \<Rightarrow> (nat \<Rightarrow> u8) \<Rightarrow> nat \<Rightarrow> nat \<Rightarrow> int" where
  "lmemcmp a p b q 0 = 0"
| "lmemcmp a p b q (Suc len) =
     (if a p \<noteq> b q then (if a p < b q then -1 else 1)
      else lmemcmp a (Suc p) b (Suc q) len)"

lemma lmemcpy_eq: "p + n \<le> length d \<Longrightarrow> lmemcpy d p s q n = buf_write d p (map s [q..<q + n])"
proof (induction n arbitrary: d p q)
  case 0
  then show ?case by (simp add: buf_write_Nil)
next
  case (Suc n)
  have "map s [q..<q + Suc n] = s q # map s [Suc q..<Suc q + n]"
    by (simp add: upt_conv_Cons del: upt_Suc)
  with Suc show ?case by (simp add: buf_write_Cons)
qed

lemma lmemset_eq: "p + n \<le> length d \<Longrightarrow> lmemset d p c n = buf_write d p (replicate n c)"
  by (induction n arbitrary: d p) (simp_all add: buf_write_Nil buf_write_Cons)

lemma lmemcmp_zero_iff: "lmemcmp a p b q n = 0 \<longleftrightarrow> (\<forall>i < n. a (p + i) = b (q + i))"
  by (induction n arbitrary: p q) (auto simp: less_Suc_eq_0_disj)

section \<open>The flash sequencer\<close>

record flash_hw =
  hw_erase :: "u32 \<Rightarrow> u32 \<Rightarrow> mem \<Rightarrow> bool \<times> mem"  \<comment> \<open>\<open>R_FLASH_HP_Erase(addr, num_blocks)\<close>\<close>
  hw_write :: "bytes \<Rightarrow> u32 \<Rightarrow> u32 \<Rightarrow> mem \<Rightarrow> bool \<times> mem"  \<comment> \<open>\<open>R_FLASH_HP_Write(src, addr, n)\<close>\<close>

text \<open>Documented behaviour on the file-system area: erasing one block succeeds and turns exactly
  that block into \<open>0xff\<close>; programming an aligned, blank unit succeeds and stores the data.\<close>

definition flash_hw_ok :: "flash_hw \<Rightarrow> bool" where
  "flash_hw_ok hw \<longleftrightarrow>
     (\<forall>a m. in_fs a \<longrightarrow>
        hw_erase hw a 1 m = (True, \<lambda>x. if sector_start x = sector_start a then 0xff else m x)) \<and>
     (\<forall>b a m. in_fs a \<longrightarrow> a AND FLASH_BUF_OFF_MASK = 0 \<longrightarrow> length b = 2048 \<longrightarrow>
        (\<forall>i < 2048. m (a + of_nat i) = 0xff) \<longrightarrow>
        hw_write hw b a FLASH_BUF_SIZE m = (True, mem_write m a b))"

section \<open>Programming and erasing\<close>

text \<open>The \<open>count\<close> of one round: up to the end of the unit, or all that is left.\<close>

definition round_count :: "u32 \<Rightarrow> u32 \<Rightarrow> u32" where
  "round_count nbytes offset =
     (if nbytes + offset > FLASH_BUF_SIZE then FLASH_BUF_SIZE - offset else nbytes)"

partial_function (option) writex_loop ::
  "flash_hw \<Rightarrow> bytes \<Rightarrow> bool \<Rightarrow> u32 \<Rightarrow> mem \<Rightarrow> bytes \<Rightarrow> u32 \<Rightarrow> u32 \<Rightarrow> u32 \<Rightarrow> nat \<Rightarrow> (bool \<times> mem) option" where
  "writex_loop hw src inc endaddr m fb startaddr offset nbytes p =
     (if startaddr < endaddr then
        let fb1 = lmemcpy fb 0 (\<lambda>i. m (startaddr + of_nat i)) 0 (unat FLASH_BUF_SIZE);
            count = round_count nbytes offset;
            nbytes' = (if nbytes + offset > FLASH_BUF_SIZE then nbytes - count else nbytes);
            fb2 = (if inc then lmemcpy fb1 (unat offset) (\<lambda>i. src ! i) p (unat count)
                   else lmemset fb1 (unat offset) (src ! p) (unat count));
            flash_addr = startaddr AND FLASH_BUF_ADDR_MASK;
            r = hw_write hw fb2 flash_addr FLASH_BUF_SIZE m
        in if \<not> fst r then Some (False, snd r)
           else if inc \<and> lmemcmp (\<lambda>i. snd r (startaddr + offset + of_nat i)) 0
                             (\<lambda>i. fb2 ! i) (unat offset) (unat count) \<noteq> 0
           then Some (False, snd r)
           else writex_loop hw src inc endaddr (snd r) fb2 (startaddr + FLASH_BUF_SIZE) 0 nbytes'
                  (p + unat count)
      else Some (True, m))"

text \<open>\<open>flash_buf\<close> is static, but each round overwrites all of it before reading it, so it starts
  as zeros here.\<close>

definition internal_flash_writex ::
  "flash_hw \<Rightarrow> mem \<Rightarrow> u32 \<Rightarrow> u32 \<Rightarrow> bytes \<Rightarrow> bool \<Rightarrow> (bool \<times> mem) option" where
  "internal_flash_writex hw m addr nbytes src inc =
     writex_loop hw src inc (addr + nbytes) m (replicate (unat FLASH_BUF_SIZE) 0)
       (addr AND FLASH_BUF_ADDR_MASK) (addr AND FLASH_BUF_OFF_MASK) nbytes 0"

definition internal_flash_write :: "flash_hw \<Rightarrow> mem \<Rightarrow> u32 \<Rightarrow> u32 \<Rightarrow> bytes \<Rightarrow> (bool \<times> mem) option" where
  "internal_flash_write hw m addr nbytes src = internal_flash_writex hw m addr nbytes src True"

definition internal_flash_eraseblock :: "flash_hw \<Rightarrow> mem \<Rightarrow> u32 \<Rightarrow> bool \<times> mem" where
  "internal_flash_eraseblock hw m addr =
     (let r = hw_erase hw addr 1 m;
          error_code = (if fst r then 0 else 1 :: u32)
      in (error_code = 0, snd r))"

text \<open>\<open>flash.c\<close>: the count of \<open>flash_erase\<close> is only tested against zero, and \<open>flash_write\<close> hands
  its \<open>num_word32\<close> on as a number of bytes.\<close>

definition flash_get_sector_info :: "u32 \<Rightarrow> u32 \<times> u32 \<times> u32" where
  "flash_get_sector_info addr = (sector_index addr, sector_start addr, sector_size addr)"

definition flash_erase :: "flash_hw \<Rightarrow> mem \<Rightarrow> u32 \<Rightarrow> u32 \<Rightarrow> bool \<times> mem" where
  "flash_erase hw m flash_dest num_word32 =
     (if num_word32 = 0 then (True, m) else internal_flash_eraseblock hw m flash_dest)"

definition flash_write :: "flash_hw \<Rightarrow> mem \<Rightarrow> u32 \<Rightarrow> bytes \<Rightarrow> u32 \<Rightarrow> (bool \<times> mem) option" where
  "flash_write hw m flash_dest src num_word32 = internal_flash_write hw m flash_dest num_word32 src"


section \<open>Programming is correct\<close>

lemma hw_write_ok:
  "flash_hw_ok hw \<Longrightarrow> in_fs a \<Longrightarrow> unat a mod 2048 = 0 \<Longrightarrow> length b = 2048 \<Longrightarrow>
   (\<forall>i < 2048. m (a + of_nat i) = 0xff) \<Longrightarrow>
   hw_write hw b a FLASH_BUF_SIZE m = (True, mem_write m a b)"
  using unat_and_mask [of a 11]
  by (simp add: flash_hw_ok_def FLASH_BUF_OFF_MASK_def FLASH_BUF_SIZE_def mask_eq_exp_minus_1
      unat_eq_zero [symmetric])

lemma buf_addr_mask: "unat (a AND FLASH_BUF_ADDR_MASK) = unat a div 2048 * 2048"
  using unat_and_not_mask [of a 11]
  by (simp add: FLASH_BUF_ADDR_MASK_def FLASH_BUF_OFF_MASK_def FLASH_BUF_SIZE_def mask_eq_exp_minus_1)

lemma buf_off_mask: "unat (a AND FLASH_BUF_OFF_MASK) = unat a mod 2048"
  using unat_and_mask [of a 11]
  by (simp add: FLASH_BUF_OFF_MASK_def FLASH_BUF_SIZE_def mask_eq_exp_minus_1)

text \<open>One round of the loop: the unit is read, patched, programmed and verified.\<close>

lemma writex_round:
  assumes hw: "flash_hw_ok hw" and fs: "in_fs start" and al: "unat start mod 2048 = 0"
    and blank: "\<forall>i < 2048. m (start + of_nat i) = 0xff"
    and fb: "length fb = 2048" and less: "start < endaddr"
    and c: "unat off + unat (round_count nb off) \<le> 2048"
    and src: "p + unat (round_count nb off) \<le> length src"
  shows "writex_loop hw src True endaddr m fb start off nb p =
     (let c = round_count nb off;
          fb2 = buf_write (mem_read m start 2048) (unat off) (take (unat c) (drop p src))
      in writex_loop hw src True endaddr (mem_write m (start + off) (take (unat c) (drop p src))) fb2
           (start + FLASH_BUF_SIZE) 0 (if nb + off > FLASH_BUF_SIZE then nb - c else nb) (p + unat c))"
proof -
  let ?c = "round_count nb off"
  let ?xs = "take (unat ?c) (drop p src)"
  let ?fb2 = "buf_write (mem_read m start 2048) (unat off) ?xs"
  have lxs: "length ?xs = unat ?c" using src by simp
  have lfb2: "length ?fb2 = 2048" using c lxs by (simp add: length_buf_write)
  have seg: "map ((!) src) [p..<p + unat ?c] = ?xs"
    using src by (intro nth_equalityI) auto
  have fb1: "lmemcpy fb 0 (\<lambda>i. m (start + of_nat i)) 0 (unat FLASH_BUF_SIZE) = mem_read m start 2048"
    using fb by (simp add: lmemcpy_eq FLASH_BUF_SIZE_def buf_write_all mem_read_def)
  have fb2: "lmemcpy (mem_read m start 2048) (unat off) ((!) src) p (unat ?c) = ?fb2"
    using c seg by (simp add: lmemcpy_eq)
  have addr: "start AND FLASH_BUF_ADDR_MASK = start"
    using al by (simp add: word_unat_eq_iff buf_addr_mask minus_mod_eq_div_mult [symmetric])
  have merged: "mem_write m start ?fb2 = mem_write m (start + off) ?xs"
    using mem_write_merge [of "unat off" ?xs 2048 m start] c lxs by simp
  have wr: "hw_write hw ?fb2 start FLASH_BUF_SIZE m = (True, mem_write m (start + off) ?xs)"
    using hw_write_ok [OF hw fs al lfb2 blank] merged by simp
  have verify: "lmemcmp (\<lambda>i. mem_write m (start + off) ?xs (start + off + of_nat i)) 0
      ((!) ?fb2) (unat off) (unat ?c) = 0"
    unfolding lmemcmp_zero_iff
  proof (intro allI impI)
    fix i assume i: "i < unat ?c"
    have "mem_read (mem_write m (start + off) ?xs) (start + off) (length ?xs) ! i = ?xs ! i"
      using mem_read_write_same [of ?xs] lxs c by simp
    with i lxs have "mem_write m (start + off) ?xs (start + off + of_nat i) = ?xs ! i" by simp
    moreover have "?fb2 ! (unat off + i) = ?xs ! i"
      using i c lxs by (simp add: nth_buf_write)
    ultimately show "mem_write m (start + off) ?xs (start + off + of_nat (0 + i)) = ?fb2 ! (unat off + i)"
      by simp
  qed
  show ?thesis
    using less
    by (subst writex_loop.simps)
       (simp add: Let_def fb1 fb2 addr wr verify)
qed

lemma writex_loop_stop: "\<not> start < endaddr \<Longrightarrow>
   writex_loop hw src True endaddr m fb start off nb p = Some (True, m)"
  by (subst writex_loop.simps) simp

lemma writex_loop_ok:
  assumes "flash_hw_ok hw" "unat start mod 2048 = 0" "unat off < 2048" "0 < unat nb"
    and "unat start + unat off + unat nb = unat endaddr"
    and "0x021E0000 \<le> unat start" "unat endaddr \<le> 0x02200000"
    and "p + unat nb \<le> length src" "length fb = 2048"
    and "\<forall>x. unat start \<le> unat x \<and> unat x < (unat endaddr + 2047) div 2048 * 2048 \<longrightarrow> m x = 0xff"
  shows "writex_loop hw src True endaddr m fb start off nb p =
     Some (True, mem_write m (start + off) (take (unat nb) (drop p src)))"
  using assms
proof (induction "unat nb" arbitrary: start off nb p m fb rule: less_induct)
  case less
  note al = less.prems(2) and off = less.prems(3) and nb = less.prems(4) and fin = less.prems(5)
    and lo = less.prems(6) and hi = less.prems(7) and src = less.prems(8) and blank = less.prems(10)
  have st: "unat start < unat endaddr" using fin nb by simp
  then have lt: "start < endaddr" by (simp add: word_less_nat_alt)
  have fs: "in_fs start" using st lo hi by (simp add: in_fs_unat)
  have up: "unat start + 2048 \<le> (unat endaddr + 2047) div 2048 * 2048"
  proof -
    have "unat start div 2048 + 1 \<le> (unat endaddr + 2047) div 2048"
      using al st by (simp add: less_eq_div_iff_mult_less_eq minus_mod_eq_div_mult [symmetric])
    then have "(unat start div 2048 + 1) * 2048 \<le> (unat endaddr + 2047) div 2048 * 2048"
      by (rule mult_le_mono1)
    with al show ?thesis by (simp add: minus_mod_eq_div_mult [symmetric])
  qed
  have blk: "\<forall>i < 2048. m (start + of_nat i) = 0xff"
  proof (intro allI impI)
    fix i :: nat assume i: "i < 2048"
    have "unat start + i < 2 ^ 32" using st hi i by simp
    then have "unat (start + of_nat i) = unat start + i" by (rule unat_add_nat)
    with blank up i show "m (start + of_nat i) = 0xff" by simp
  qed
  have sum: "unat (nb + off) = unat nb + unat off"
    using fin hi by (simp add: unat_word_ariths)
  have s2: "unat (start + FLASH_BUF_SIZE) = unat start + 2048"
    using st hi unat_add_nat [of start 2048] by (simp add: FLASH_BUF_SIZE_def)
  have sub: "unat (FLASH_BUF_SIZE - off) = 2048 - unat off"
    using off by (simp add: FLASH_BUF_SIZE_def unat_sub word_le_nat_alt)
  let ?c = "round_count nb off"
  have c: "unat ?c = (if 2048 < unat nb + unat off then 2048 - unat off else unat nb)"
    using sum sub by (simp add: round_count_def word_less_nat_alt FLASH_BUF_SIZE_def)
  have cle: "unat off + unat ?c \<le> 2048" and csrc: "p + unat ?c \<le> length src"
    using c off src by (auto split: if_splits)
  let ?m = "mem_write m (start + off) (take (unat ?c) (drop p src))"
  let ?fb = "buf_write (mem_read m start 2048) (unat off) (take (unat ?c) (drop p src))"
  note round = writex_round [OF less.prems(1) fs al blk less.prems(9) lt cle csrc, unfolded Let_def]
  show ?case
  proof (cases "2048 < unat nb + unat off")
    case False
    then have ns: "\<not> nb + off > FLASH_BUF_SIZE"
      using sum by (simp add: word_less_nat_alt FLASH_BUF_SIZE_def)
    have "\<not> start + FLASH_BUF_SIZE < endaddr"
      using False fin s2 by (simp add: word_less_nat_alt)
    with ns c False show ?thesis
      by (simp add: round writex_loop_stop)
  next
    case True
    then have sp: "nb + off > FLASH_BUF_SIZE"
      using sum by (simp add: word_less_nat_alt FLASH_BUF_SIZE_def)
    have cv: "unat ?c = 2048 - unat off" using c True by simp
    have nb': "unat (nb - ?c) = unat nb - unat ?c"
      using cv True off by (simp add: unat_sub word_le_nat_alt)
    have keep: "?m x = m x" if "unat start + 2048 \<le> unat x" for x
    proof -
      have "unat (start + off) = unat start + unat off"
        using fin hi nb by (simp add: unat_word_ariths)
      with that off have "unat (x - (start + off)) = unat x - (unat start + unat off)"
        by (simp add: unat_sub word_le_nat_alt)
      with that cv off show ?thesis by (auto simp: mem_write_def)
    qed
    have "writex_loop hw src True endaddr ?m ?fb (start + FLASH_BUF_SIZE) 0 (nb - ?c) (p + unat ?c) =
       Some (True, mem_write ?m (start + FLASH_BUF_SIZE + 0) (take (unat (nb - ?c)) (drop (p + unat ?c) src)))"
    proof (rule less.hyps)
      show "unat (nb - ?c) < unat nb" using nb' cv off nb by simp
      show "unat (start + FLASH_BUF_SIZE) mod 2048 = 0" using s2 al by simp
      show "0 < unat (nb - ?c)" using nb' cv True off by simp
      show "unat (start + FLASH_BUF_SIZE) + unat 0 + unat (nb - ?c) = unat endaddr"
        using s2 nb' cv True fin off by simp
      show "p + unat ?c + unat (nb - ?c) \<le> length src" using nb' src cv True off by simp
      show "length ?fb = 2048" using cle csrc by (simp add: length_buf_write)
      show "\<forall>x. unat (start + FLASH_BUF_SIZE) \<le> unat x \<and> unat x < (unat endaddr + 2047) div 2048 * 2048
          \<longrightarrow> ?m x = 0xff"
        using keep blank s2 by auto
    qed (use less.prems s2 in auto)
    moreover have "mem_write ?m (start + FLASH_BUF_SIZE) (take (unat nb - unat ?c) (drop (p + unat ?c) src)) =
        mem_write m (start + off) (take (unat nb) (drop p src))"
    proof -
      have a: "start + FLASH_BUF_SIZE = start + off + of_nat (length (take (unat ?c) (drop p src)))"
      proof -
        have "of_nat (unat ?c) = FLASH_BUF_SIZE - off" using sp by (simp add: round_count_def)
        with csrc show ?thesis by simp
      qed
      have app: "take (unat ?c) (drop p src) @ take (unat nb - unat ?c) (drop (p + unat ?c) src) =
          take (unat nb) (drop p src)"
        using cv True off take_add [of "unat ?c" "unat nb - unat ?c" "drop p src"]
        by (simp add: add.commute)
      have "length (take (unat ?c) (drop p src)) +
          length (take (unat nb - unat ?c) (drop (p + unat ?c) src)) \<le> 2 ^ 32"
        using fin hi cv True by simp
      from mem_write_append [OF this, of m "start + off", folded a, unfolded app] show ?thesis .
    qed
    ultimately show ?thesis using sp nb' by (simp add: round)
  qed
qed

lemma flash_write_ok:
  assumes "flash_hw_ok hw" "0 < unat n" "0x021E0000 \<le> unat addr" "unat addr + unat n \<le> 0x02200000"
    and "unat n \<le> length src"
    and "\<forall>x. unat addr div 2048 * 2048 \<le> unat x \<and> unat x < (unat addr + unat n + 2047) div 2048 * 2048
           \<longrightarrow> m x = 0xff"
  shows "flash_write hw m addr src n = Some (True, mem_write m addr (take (unat n) src))"
proof -
  have e: "unat (addr + n) = unat addr + unat n"
    using assms(4) by (simp add: unat_word_ariths)
  have st: "unat (addr AND FLASH_BUF_ADDR_MASK) + unat (addr AND FLASH_BUF_OFF_MASK) = unat addr"
    by (simp add: buf_addr_mask buf_off_mask)
  then have sum: "(addr AND FLASH_BUF_ADDR_MASK) + (addr AND FLASH_BUF_OFF_MASK) = addr"
    using unsigned_less [of addr, where ?'a = nat] by (simp add: word_unat_eq_iff unat_word_ariths)
  have lo: "0x021E0000 \<le> unat (addr AND FLASH_BUF_ADDR_MASK)"
    using div_le_mono [OF assms(3), of 2048] by (simp add: buf_addr_mask)
  have "writex_loop hw src True (addr + n) m (replicate (unat FLASH_BUF_SIZE) 0)
      (addr AND FLASH_BUF_ADDR_MASK) (addr AND FLASH_BUF_OFF_MASK) n 0 =
      Some (True, mem_write m ((addr AND FLASH_BUF_ADDR_MASK) + (addr AND FLASH_BUF_OFF_MASK))
        (take (unat n) (drop 0 src)))"
    by (rule writex_loop_ok)
       (use assms e st lo in \<open>simp_all add: buf_addr_mask buf_off_mask FLASH_BUF_SIZE_def\<close>)
  then show ?thesis
    by (simp add: flash_write_def internal_flash_write_def internal_flash_writex_def sum)
qed

text \<open>Whatever the sequencer answers, the loop returns as long as it stays clear of the last unit
  of the address space.\<close>

lemma writex_loop_returns:
  assumes "unat endaddr \<le> 2 ^ 32 - 2048"
  shows "writex_loop hw src inc endaddr m fb start off nb p \<noteq> None"
  using assms
proof (induction "unat endaddr - unat start" arbitrary: start off nb p m fb rule: less_induct)
  case less
  show ?case
  proof (cases "start < endaddr")
    case False
    then show ?thesis by (subst writex_loop.simps) simp
  next
    case True
    then have "unat start < unat endaddr" by (simp add: word_less_nat_alt)
    moreover have "unat (start + FLASH_BUF_SIZE) = unat start + 2048"
      using calculation less.prems unat_add_nat [of start 2048] by (simp add: FLASH_BUF_SIZE_def)
    ultimately have IH: "writex_loop hw src inc endaddr m' fb' (start + FLASH_BUF_SIZE) off' nb' p' \<noteq> None"
      for m' fb' off' nb' p'
      using less.hyps less.prems by simp
    show ?thesis
      using True IH by (subst writex_loop.simps) (simp add: Let_def del: not_None_eq)
  qed
qed

lemma flash_write_returns:
  assumes "unat dest + unat n \<le> 2 ^ 32 - 2048"
  shows "flash_write hw m dest src n \<noteq> None"
proof -
  have "unat (dest + n) \<le> 2 ^ 32 - 2048" using assms by (simp add: unat_word_ariths)
  then show ?thesis
    unfolding flash_write_def internal_flash_write_def internal_flash_writex_def
    by (rule writex_loop_returns)
qed

lemma flash_erase_ok:
  "flash_hw_ok hw \<Longrightarrow> in_fs a \<Longrightarrow> n \<noteq> 0 \<Longrightarrow>
   flash_erase hw m a n = (True, \<lambda>x. if sector_start x = sector_start a then 0xff else m x)"
  by (simp add: flash_erase_def internal_flash_eraseblock_def flash_hw_ok_def)

text \<open>A concrete sequencer with the documented behaviour: ideal erase and overwrite.\<close>

definition ideal_hw :: flash_hw where
  "ideal_hw = \<lparr>hw_erase = (\<lambda>a n m. (True, \<lambda>x. if sector_start x = sector_start a then 0xff else m x)),
     hw_write = (\<lambda>b a n m. (True, mem_write m a b))\<rparr>"

lemma ideal_hw_ok: "flash_hw_ok ideal_hw"
  by (simp add: flash_hw_ok_def ideal_hw_def)

end
