(* ===== verification/FlashBdev.thy ===== *)
theory FlashBdev
  imports RaFlash
begin

text \<open>
  The flash block device of \<open>ports/renesas-ra/flashbdev.c\<close>: 512-byte blocks over flash sectors of
  32 KiB, with a one-sector RAM cache that is written back lazily.  The static variables of the
  file are the fields of the record \<open>bdev\<close>; \<open>rom\<close> is the flash itself and \<open>tick\<close> what
  \<open>HAL_GetTick()\<close> returns.  A result \<open>None\<close> is a run of the C code that leaves its memory (a
  \<open>memcpy\<close> past the end of \<open>flash_cache_mem\<close>) or does not return.  The board has one flash
  segment, so \<open>FLASH_MEM_SEG2_NUM_BLOCKS\<close> is 0.
\<close>

definition FLASH_BLOCK_SIZE :: u32 where "FLASH_BLOCK_SIZE = 512"
definition FLASH_SECTOR_SIZE_MAX :: u32 where "FLASH_SECTOR_SIZE_MAX = 0x8000"
definition FLASH_MEM_SEG1_START_ADDR :: u32 where "FLASH_MEM_SEG1_START_ADDR = FS_START"
definition FLASH_MEM_SEG1_NUM_BLOCKS :: u32 where "FLASH_MEM_SEG1_NUM_BLOCKS = FS_LEN div 512"
definition FLASH_MEM_SEG2_START_ADDR :: u32 where "FLASH_MEM_SEG2_START_ADDR = 0"
definition FLASH_MEM_SEG2_NUM_BLOCKS :: u32 where "FLASH_MEM_SEG2_NUM_BLOCKS = 0"

definition FLASH_FLAG_DIRTY :: u8 where "FLASH_FLAG_DIRTY = 1"
definition FLASH_FLAG_FORCE_WRITE :: u8 where "FLASH_FLAG_FORCE_WRITE = 2"
definition FLASH_FLAG_ERASED :: u8 where "FLASH_FLAG_ERASED = 4"

definition BDEV_IOCTL_INIT :: u32 where "BDEV_IOCTL_INIT = 1"
definition BDEV_IOCTL_SYNC :: u32 where "BDEV_IOCTL_SYNC = 3"
definition BDEV_IOCTL_NUM_BLOCKS :: u32 where "BDEV_IOCTL_NUM_BLOCKS = 4"
definition BDEV_IOCTL_IRQ_HANDLER :: u32 where "BDEV_IOCTL_IRQ_HANDLER = 7"

lemmas bdev_consts = FLASH_BLOCK_SIZE_def FLASH_SECTOR_SIZE_MAX_def FLASH_MEM_SEG1_START_ADDR_def
  FLASH_MEM_SEG1_NUM_BLOCKS_def FLASH_MEM_SEG2_START_ADDR_def FLASH_MEM_SEG2_NUM_BLOCKS_def
  FLASH_FLAG_DIRTY_def FLASH_FLAG_FORCE_WRITE_def FLASH_FLAG_ERASED_def
  BDEV_IOCTL_INIT_def BDEV_IOCTL_SYNC_def BDEV_IOCTL_NUM_BLOCKS_def BDEV_IOCTL_IRQ_HANDLER_def

record bdev =
  rom :: mem
  flash_cache_mem :: bytes
  flash_flags :: u8
  flash_cache_sector_id :: u32
  flash_cache_sector_start :: u32
  flash_cache_sector_size :: u32
  flash_tick_counter_last_write :: u32
  tick :: u32
  led1 :: bool

section \<open>Operations\<close>

text \<open>\<open>long\<close> is 32 bits wide here; the tick difference is read as a signed number.\<close>

definition ticks_since_write :: "bdev \<Rightarrow> int" where
  "ticks_since_write s = sint (tick s - flash_tick_counter_last_write s)"

definition flash_bdev_irq_handler :: "flash_hw \<Rightarrow> bdev \<Rightarrow> bdev option" where
  "flash_bdev_irq_handler hw s =
     (if flash_flags s AND FLASH_FLAG_DIRTY = 0 then Some s
      else
        let s1 = (if flash_flags s AND FLASH_FLAG_ERASED = 0
                  then s\<lparr>rom := snd (flash_erase hw (rom s) (flash_cache_sector_start s) (flash_cache_sector_size s)),
                         flash_flags := flash_flags s OR FLASH_FLAG_ERASED\<rparr>
                  else s)
        in if flash_flags s1 AND FLASH_FLAG_FORCE_WRITE \<noteq> 0 \<or> ticks_since_write s1 \<ge> 3000
           then do {
             r \<leftarrow> flash_write hw (rom s1) (flash_cache_sector_start s1) (flash_cache_mem s1) (flash_cache_sector_size s1);
             Some (s1\<lparr>flash_tick_counter_last_write := 0x7fffffff, rom := snd r, flash_flags := 0, led1 := False\<rparr>)
           }
           else Some s1)"

definition flash_bdev_ioctl :: "flash_hw \<Rightarrow> bdev \<Rightarrow> u32 \<Rightarrow> (u32 \<times> bdev) option" where
  "flash_bdev_ioctl hw s op =
     (if op = BDEV_IOCTL_INIT then
        Some (0, s\<lparr>flash_flags := 0, flash_cache_sector_id := 0, flash_tick_counter_last_write := 0\<rparr>)
      else if op = BDEV_IOCTL_NUM_BLOCKS then
        Some (FLASH_MEM_SEG1_NUM_BLOCKS + FLASH_MEM_SEG2_NUM_BLOCKS, s)
      else if op = BDEV_IOCTL_IRQ_HANDLER then do { s' \<leftarrow> flash_bdev_irq_handler hw s; Some (0, s') }
      else if op = BDEV_IOCTL_SYNC then
        (if flash_flags s AND FLASH_FLAG_DIRTY \<noteq> 0
         then do { s' \<leftarrow> flash_bdev_irq_handler hw (s\<lparr>flash_flags := flash_flags s OR FLASH_FLAG_FORCE_WRITE\<rparr>);
                   Some (0, s') }
         else Some (0, s))
      else Some (-1, s))"

text \<open>The address inside \<open>flash_cache_mem\<close> is returned as its index.\<close>

definition flash_cache_get_addr_for_write :: "flash_hw \<Rightarrow> bdev \<Rightarrow> u32 \<Rightarrow> (nat \<times> bdev) option" where
  "flash_cache_get_addr_for_write hw s flash_addr =
     (let (flash_sector_id, flash_sector_start, size0) = flash_get_sector_info flash_addr;
          flash_sector_size = (if size0 > FLASH_SECTOR_SIZE_MAX then FLASH_SECTOR_SIZE_MAX else size0)
      in do {
        s1 \<leftarrow> (if flash_cache_sector_id s \<noteq> flash_sector_id then do {
                 (_, s0) \<leftarrow> flash_bdev_ioctl hw s BDEV_IOCTL_SYNC;
                 Some (s0\<lparr>flash_cache_mem := buf_write (flash_cache_mem s0) 0
                            (mem_read (rom s0) flash_sector_start (unat flash_sector_size)),
                          flash_cache_sector_id := flash_sector_id,
                          flash_cache_sector_start := flash_sector_start,
                          flash_cache_sector_size := flash_sector_size\<rparr>) }
               else Some s);
        Some (unat (flash_addr - flash_sector_start),
              s1\<lparr>flash_flags := flash_flags s1 OR FLASH_FLAG_DIRTY, led1 := True,
                 flash_tick_counter_last_write := tick s1\<rparr>)
      })"

definition flash_cache_commit :: "flash_hw \<Rightarrow> bdev \<Rightarrow> bdev option" where
  "flash_cache_commit hw s =
     (if flash_flags s AND FLASH_FLAG_DIRTY \<noteq> 0 \<and> ticks_since_write s > 1000
      then flash_bdev_irq_handler hw s else Some s)"

datatype src_ptr = InCache nat | InFlash u32

definition flash_cache_get_addr_for_read :: "bdev \<Rightarrow> u32 \<Rightarrow> src_ptr" where
  "flash_cache_get_addr_for_read s flash_addr =
     (let (flash_sector_id, flash_sector_start, _) = flash_get_sector_info flash_addr
      in if flash_cache_sector_id s = flash_sector_id then InCache (unat (flash_addr - flash_sector_start))
         else InFlash flash_addr)"

text \<open>\<open>memcpy\<close> out of and into the places these two functions point at.\<close>

fun copy_from :: "bdev \<Rightarrow> src_ptr \<Rightarrow> nat \<Rightarrow> bytes option" where
  "copy_from s (InCache i) n =
     (if i + n \<le> length (flash_cache_mem s) then Some (buf_read (flash_cache_mem s) i n) else None)"
| "copy_from s (InFlash a) n = Some (mem_read (rom s) a n)"

definition copy_to_cache :: "bdev \<Rightarrow> nat \<Rightarrow> bytes \<Rightarrow> bdev option" where
  "copy_to_cache s i bs =
     (if i + length bs \<le> length (flash_cache_mem s)
      then Some (s\<lparr>flash_cache_mem := buf_write (flash_cache_mem s) i bs\<rparr>) else None)"

definition convert_block_to_flash_addr :: "u32 \<Rightarrow> u32" where
  "convert_block_to_flash_addr block =
     (if block < FLASH_MEM_SEG1_NUM_BLOCKS then FLASH_MEM_SEG1_START_ADDR + block * FLASH_BLOCK_SIZE
      else if block < FLASH_MEM_SEG1_NUM_BLOCKS + FLASH_MEM_SEG2_NUM_BLOCKS
      then FLASH_MEM_SEG2_START_ADDR + (block - FLASH_MEM_SEG1_NUM_BLOCKS) * FLASH_BLOCK_SIZE
      else -1)"

definition flash_bdev_readblock :: "bdev \<Rightarrow> bytes \<Rightarrow> u32 \<Rightarrow> (bool \<times> bytes) option" where
  "flash_bdev_readblock s dest block =
     (let flash_addr = convert_block_to_flash_addr block
      in if flash_addr = -1 then Some (False, dest)
         else do {
           bs \<leftarrow> copy_from s (flash_cache_get_addr_for_read s flash_addr) (unat FLASH_BLOCK_SIZE);
           Some (True, bs)
         })"

definition flash_bdev_writeblock :: "flash_hw \<Rightarrow> bdev \<Rightarrow> bytes \<Rightarrow> u32 \<Rightarrow> (bool \<times> bdev) option" where
  "flash_bdev_writeblock hw s src block =
     (let flash_addr = convert_block_to_flash_addr block
      in if flash_addr = -1 then Some (False, s)
         else do {
           (i, s1) \<leftarrow> flash_cache_get_addr_for_write hw s flash_addr;
           s2 \<leftarrow> copy_to_cache s1 i (take (unat FLASH_BLOCK_SIZE) src);
           Some (True, s2)
         })"

text \<open>The loops of the extended protocol; \<open>MIN\<close> is taken on \<open>uint32_t\<close>, so an \<open>offset\<close> beyond a
  block wraps in \<open>FLASH_BLOCK_SIZE - offset\<close>.\<close>

definition ext_chunk :: "u32 \<Rightarrow> u32 \<Rightarrow> u32" where
  "ext_chunk offset len = min len (FLASH_BLOCK_SIZE - offset)"

lemma ext_chunk_le: "unat (ext_chunk offset len) \<le> unat len"
  by (simp add: ext_chunk_def min_def word_le_nat_alt)

lemma ext_chunk_pos: "len \<noteq> 0 \<Longrightarrow> 0 < unat (ext_chunk 0 len)"
  by (simp add: ext_chunk_def min_def FLASH_BLOCK_SIZE_def unat_gt_0)

lemma ext_chunk_decreases:
  "len \<noteq> 0 \<Longrightarrow> 2 * unat (len - ext_chunk offset len) < 2 * unat len + (if offset = 0 then 0 else 1)"
  using ext_chunk_le [of offset len] ext_chunk_pos [of len]
  by (auto simp: unat_sub word_le_nat_alt)

function flash_bdev_readblocks_ext ::
  "bdev \<Rightarrow> bytes \<Rightarrow> nat \<Rightarrow> u32 \<Rightarrow> u32 \<Rightarrow> u32 \<Rightarrow> (u32 \<times> bytes) option" where
  "flash_bdev_readblocks_ext s dest d block offset len =
     (if len = 0 then Some (0, dest)
      else let l = ext_chunk offset len; flash_addr = convert_block_to_flash_addr block
           in if flash_addr = -1 then Some (-1, dest)
              else case copy_from s (flash_cache_get_addr_for_read s (flash_addr + offset)) (unat l) of
                     None \<Rightarrow> None
                   | Some bs \<Rightarrow> flash_bdev_readblocks_ext s (buf_write dest d bs) (d + unat l) (block + 1) 0 (len - l))"
  by pat_completeness auto
termination
  by (relation "measure (\<lambda>(s, dest, d, block, offset, len). 2 * unat len + (if offset = 0 then 0 else 1))")
     (simp, simp only: in_measure split_conv, drule ext_chunk_decreases, simp split: if_splits)

function flash_bdev_writeblocks_ext ::
  "flash_hw \<Rightarrow> bdev \<Rightarrow> bytes \<Rightarrow> nat \<Rightarrow> u32 \<Rightarrow> u32 \<Rightarrow> u32 \<Rightarrow> (u32 \<times> bdev) option" where
  "flash_bdev_writeblocks_ext hw s src p block offset len =
     (if len = 0 then Some (0, s)
      else let l = ext_chunk offset len; flash_addr = convert_block_to_flash_addr block
           in if flash_addr = -1 then Some (-1, s)
              else case flash_cache_get_addr_for_write hw s (flash_addr + offset) of
                     None \<Rightarrow> None
                   | Some (i, s1) \<Rightarrow>
                       (case copy_to_cache s1 i (buf_read src p (unat l)) of
                          None \<Rightarrow> None
                        | Some s2 \<Rightarrow> flash_bdev_writeblocks_ext hw s2 src (p + unat l) (block + 1) 0 (len - l)))"
  by pat_completeness auto
termination
  by (relation "measure (\<lambda>(hw, s, src, p, block, offset, len). 2 * unat len + (if offset = 0 then 0 else 1))")
     (simp, simp only: in_measure split_conv, drule ext_chunk_decreases, simp split: if_splits)

declare flash_bdev_readblocks_ext.simps [simp del]
declare flash_bdev_writeblocks_ext.simps [simp del]


section \<open>Sectors of the file-system area\<close>

lemma fs_sector_start: "in_fs x \<Longrightarrow> unat (sector_start x) = unat x div 0x8000 * 0x8000"
  by (simp add: in_fs_unat unat_sector_start)

lemma in_fs_sector_start: "in_fs x \<Longrightarrow> in_fs (sector_start x)"
  using div_le_mono [of "0x021E0000" "unat x" "0x8000"]
    less_mult_imp_div_less [of "unat x" 1088 "0x8000"]
  by (simp add: in_fs_unat unat_sector_start)

lemma sector_start_idem: "in_fs x \<Longrightarrow> sector_start (sector_start x) = sector_start x"
  using in_fs_sector_start [of x] by (simp add: word_unat_eq_iff fs_sector_start)

lemma fs_offset: "in_fs x \<Longrightarrow> unat (x - sector_start x) = unat x mod 0x8000"
  using fs_sector_start [of x] div_times_less_eq_dividend [of "unat x" "0x8000"]
  by (simp add: unat_sub word_le_nat_alt minus_div_mult_eq_mod)

lemma fs_sector_size: "in_fs x \<Longrightarrow> sector_size x = 0x8000"
  by (simp add: in_fs_unat sector_size_def word_less_nat_alt REGION1_SECTOR_SIZE_def)

lemma fs_sector_index_nonzero: "in_fs x \<Longrightarrow> sector_index x \<noteq> 0"
  by (simp add: in_fs_unat sector_index_0)

lemma same_sector_in_fs: "in_fs a \<Longrightarrow> sector_start x = sector_start a \<Longrightarrow> in_fs x"
proof -
  assume a: "in_fs a" and e: "sector_start x = sector_start a"
  have lo: "0x021E0000 \<le> unat (sector_start x)" "unat (sector_start x) + 0x8000 \<le> 0x02200000"
  proof -
    have "unat (sector_start a) = unat a div 0x8000 * 0x8000" by (rule fs_sector_start [OF a])
    moreover have "0x021E0000 div 0x8000 \<le> unat a div 0x8000" "unat a div 0x8000 < 0x02200000 div 0x8000"
      using a div_le_mono [of "0x021E0000" "unat a" "0x8000"]
      by (simp_all add: in_fs_unat div_less_iff_less_mult)
    ultimately show "0x021E0000 \<le> unat (sector_start x)" "unat (sector_start x) + 0x8000 \<le> 0x02200000"
      using e by simp_all
  qed
  moreover have "unat x = unat x div 0x8000 * 0x8000 + unat x mod 0x8000" by simp
  moreover have "unat x mod 0x8000 < 0x8000" by simp
  ultimately show "in_fs x"
    unfolding in_fs_unat unat_sector_start by (auto split: if_splits)
qed

lemma same_sector_iff:
  assumes "in_fs st" "sector_start st = st"
  shows "sector_start x = st \<longleftrightarrow> unat (x - st) < 0x8000"
proof
  assume "sector_start x = st"
  moreover from this assms have "in_fs x" using same_sector_in_fs [of st x] by simp
  ultimately show "unat (x - st) < 0x8000" using fs_offset [of x] by simp
next
  assume d: "unat (x - st) < 0x8000"
  have al: "unat st = unat st div 0x8000 * 0x8000" using assms fs_sector_start [of st] by simp
  have "unat st < 0x02200000" using assms by (simp add: in_fs_unat)
  with d have "unat x = unat st + unat (x - st)"
    using unat_add_nat [of st "unat (x - st)"] by simp
  moreover from this have "unat x div 0x8000 = unat st div 0x8000"
    using al d div_mult_self3 [of "0x8000" "unat st div 0x8000" "unat (x - st)"]
    by (metis add.right_neutral div_less div_mult_self3 zero_neq_numeral)
  ultimately show "sector_start x = st"
    using al assms by (simp add: word_unat_eq_iff unat_sector_start in_fs_unat)
qed

lemma flash_program_sector:
  assumes "flash_hw_ok hw" "in_fs st" "sector_start st = st" "length c = 0x8000"
    and "\<forall>x. sector_start x = st \<longrightarrow> m x = 0xff"
  shows "flash_write hw m st c 0x8000 =
     Some (True, \<lambda>x. if sector_start x = st then c ! unat (x - st) else m x)"
proof -
  have al: "unat st = unat st div 0x8000 * 0x8000" using assms fs_sector_start [of st] by simp
  have hi: "unat st + 0x8000 \<le> 0x02200000"
  proof -
    have "unat st div 0x8000 < 0x02200000 div 0x8000"
      using assms(2) by (simp add: in_fs_unat div_less_iff_less_mult)
    with al show ?thesis by linarith
  qed
  have "flash_write hw m st c 0x8000 = Some (True, mem_write m st (take (unat (0x8000 :: u32)) c))"
  proof (rule flash_write_ok [OF assms(1)])
    show "\<forall>x. unat st div 2048 * 2048 \<le> unat x \<and> unat x < (unat st + unat (0x8000 :: u32) + 2047) div 2048 * 2048
        \<longrightarrow> m x = 0xff"
    proof (intro allI impI)
      fix x :: u32 assume h: "unat st div 2048 * 2048 \<le> unat x \<and> unat x < (unat st + unat (0x8000 :: u32) + 2047) div 2048 * 2048"
      define q where "q = unat st div 0x8000 * 16"
      have q: "unat st = 2048 * q" using al by (simp add: q_def)
      have "(2048 * q + 32768 + 2047) div 2048 = q + 16" by simp
      with h q have "unat st \<le> unat x" "unat x < unat st + 0x8000" by simp_all
      then have "unat (x - st) < 0x8000" by (simp add: unat_sub word_le_nat_alt)
      with assms show "m x = 0xff" by (simp add: same_sector_iff)
    qed
  qed (use assms hi in \<open>simp_all add: in_fs_unat\<close>)
  moreover have "mem_write m st (take (unat (0x8000 :: u32)) c) =
      (\<lambda>x. if sector_start x = st then c ! unat (x - st) else m x)"
    using assms by (auto simp: mem_write_def fun_eq_iff same_sector_iff)
  ultimately show ?thesis by simp
qed


section \<open>Abstraction and invariant\<close>

text \<open>The contents a reader of the device sees: the cached sector from the cache, all other
  addresses from the flash.\<close>

definition bdev_view :: "bdev \<Rightarrow> mem" where
  "bdev_view s x = (if flash_cache_sector_id s = sector_index x
                    then flash_cache_mem s ! unat (x - sector_start x) else rom s x)"

definition cache_addressed :: "bdev \<Rightarrow> bool" where
  "cache_addressed s \<longleftrightarrow>
     in_fs (flash_cache_sector_start s) \<and>
     sector_start (flash_cache_sector_start s) = flash_cache_sector_start s \<and>
     flash_cache_sector_id s = sector_index (flash_cache_sector_start s) \<and>
     flash_cache_sector_size s = 0x8000"

definition bdev_inv :: "bdev \<Rightarrow> bool" where
  "bdev_inv s \<longleftrightarrow>
     length (flash_cache_mem s) = 0x8000 \<and>
     flash_flags s \<in> {0, 1, 5} \<and>
     (flash_cache_sector_id s = 0 \<longrightarrow> flash_flags s = 0) \<and>
     (flash_cache_sector_id s \<noteq> 0 \<longrightarrow> cache_addressed s) \<and>
     (flash_flags s = 0 \<longrightarrow> (\<forall>x. in_fs x \<longrightarrow> rom s x = bdev_view s x)) \<and>
     (flash_flags s = 5 \<longrightarrow> (\<forall>x. sector_start x = flash_cache_sector_start s \<longrightarrow> rom s x = 0xff))"

lemma view_in_cache:
  "cache_addressed s \<Longrightarrow>
   bdev_view s x = (if sector_start x = flash_cache_sector_start s
                    then flash_cache_mem s ! unat (x - flash_cache_sector_start s) else rom s x)"
  by (auto simp: bdev_view_def cache_addressed_def sector_index_eq_iff)

lemmas flag_simps = FLASH_FLAG_DIRTY_def FLASH_FLAG_ERASED_def FLASH_FLAG_FORCE_WRITE_def

text \<open>Writing the sector back: what is left when the flush of \<open>flash_bdev_irq_handler\<close> runs.\<close>

definition flushed :: "bdev \<Rightarrow> bdev" where
  "flushed s = s\<lparr>rom := bdev_view s, flash_tick_counter_last_write := 0x7fffffff, flash_flags := 0, led1 := False\<rparr>"

definition erased :: "bdev \<Rightarrow> bdev" where
  "erased s = s\<lparr>rom := (\<lambda>x. if sector_start x = flash_cache_sector_start s then 0xff else rom s x),
               flash_flags := flash_flags s OR FLASH_FLAG_ERASED\<rparr>"

lemma irq_handler_erased:
  assumes hw: "flash_hw_ok hw" and ca: "cache_addressed s" and len: "length (flash_cache_mem s) = 0x8000"
    and fl: "flash_flags s \<in> {1, 3}"
  shows "flash_bdev_irq_handler hw s =
     (if flash_flags s = 3 \<or> ticks_since_write s \<ge> 3000
      then Some (flushed s) else Some (erased s))"
proof -
  let ?st = "flash_cache_sector_start s"
  have st: "in_fs ?st" "sector_start ?st = ?st" "flash_cache_sector_size s = 0x8000"
    using ca by (simp_all add: cache_addressed_def)
  let ?m = "\<lambda>x. if sector_start x = ?st then 0xff else rom s x"
  have er: "flash_erase hw (rom s) ?st 0x8000 = (True, ?m)"
    using flash_erase_ok [OF hw st(1)] st by simp
  have wr: "flash_write hw ?m ?st (flash_cache_mem s) 0x8000 =
      Some (True, \<lambda>x. if sector_start x = ?st then flash_cache_mem s ! unat (x - ?st) else ?m x)"
    by (rule flash_program_sector [OF hw st(1,2) len]) simp
  have "(\<lambda>x. if sector_start x = ?st then flash_cache_mem s ! unat (x - ?st) else ?m x) = bdev_view s"
    by (simp add: fun_eq_iff view_in_cache [OF ca])
  with er wr st fl show ?thesis
    by (auto simp: flash_bdev_irq_handler_def flag_simps flushed_def erased_def Let_def ticks_since_write_def)
qed

lemma irq_handler_blank:
  assumes hw: "flash_hw_ok hw" and ca: "cache_addressed s" and len: "length (flash_cache_mem s) = 0x8000"
    and fl: "flash_flags s \<in> {5, 7}"
    and blank: "\<forall>x. sector_start x = flash_cache_sector_start s \<longrightarrow> rom s x = 0xff"
  shows "flash_bdev_irq_handler hw s =
     (if flash_flags s = 7 \<or> ticks_since_write s \<ge> 3000 then Some (flushed s) else Some s)"
proof -
  let ?st = "flash_cache_sector_start s"
  have st: "in_fs ?st" "sector_start ?st = ?st" "flash_cache_sector_size s = 0x8000"
    using ca by (simp_all add: cache_addressed_def)
  have wr: "flash_write hw (rom s) ?st (flash_cache_mem s) 0x8000 = Some (True, bdev_view s)"
    using flash_program_sector [OF hw st(1,2) len blank] by (simp add: view_in_cache [OF ca, abs_def])
  show ?thesis
    using wr st fl by (auto simp: flash_bdev_irq_handler_def flag_simps flushed_def Let_def)
qed

lemma irq_handler_clean: "flash_flags s = 0 \<Longrightarrow> flash_bdev_irq_handler hw s = Some s"
  by (simp add: flash_bdev_irq_handler_def)

lemma flushed_simps [simp]:
  "flash_flags (flushed s) = 0" "rom (flushed s) = bdev_view s" "tick (flushed s) = tick s"
  "flash_cache_mem (flushed s) = flash_cache_mem s"
  by (simp_all add: flushed_def)

lemma view_flushed [simp]: "bdev_view (flushed s) = bdev_view s"
  by (simp add: flushed_def bdev_view_def fun_eq_iff)

lemma view_erased: "cache_addressed s \<Longrightarrow> bdev_view (erased s) = bdev_view s"
  by (auto simp: erased_def bdev_view_def fun_eq_iff cache_addressed_def sector_index_eq_iff)

lemma inv_flushed: "bdev_inv s \<Longrightarrow> bdev_inv (flushed s)"
  by (auto simp: bdev_inv_def flushed_def cache_addressed_def bdev_view_def)

lemma inv_erased: "bdev_inv s \<Longrightarrow> flash_flags s = 1 \<Longrightarrow> bdev_inv (erased s)"
  by (auto simp: bdev_inv_def erased_def cache_addressed_def flag_simps)

text \<open>Every way through the interrupt handler keeps the invariant and what readers see.\<close>

lemma irq_handler_inv:
  assumes hw: "flash_hw_ok hw" and inv: "bdev_inv s"
  shows "\<exists>s'. flash_bdev_irq_handler hw s = Some s' \<and> bdev_inv s' \<and> bdev_view s' = bdev_view s
     \<and> (ticks_since_write s \<ge> 3000 \<longrightarrow> flash_flags s' = 0)"
proof -
  have len: "length (flash_cache_mem s) = 0x8000" using inv by (simp add: bdev_inv_def)
  consider "flash_flags s = 0" | "flash_flags s = 1" | "flash_flags s = 5"
    using inv by (auto simp: bdev_inv_def)
  then show ?thesis
  proof cases
    case 1
    then show ?thesis using inv by (simp add: irq_handler_clean)
  next
    case 2
    then have ca: "cache_addressed s" using inv by (auto simp: bdev_inv_def)
    show ?thesis
      using irq_handler_erased [OF hw ca len] 2 inv_flushed [OF inv] inv_erased [OF inv 2] view_erased [OF ca]
      by auto
  next
    case 3
    then have ca: "cache_addressed s" using inv by (auto simp: bdev_inv_def)
    have blank: "\<forall>x. sector_start x = flash_cache_sector_start s \<longrightarrow> rom s x = 0xff"
      using inv 3 by (simp add: bdev_inv_def)
    show ?thesis
      using irq_handler_blank [OF hw ca len _ blank] 3 inv_flushed [OF inv] inv
      by auto
  qed
qed

lemma ioctl_sync:
  assumes hw: "flash_hw_ok hw" and inv: "bdev_inv s"
  shows "\<exists>s'. flash_bdev_ioctl hw s BDEV_IOCTL_SYNC = Some (0, s') \<and> bdev_inv s' \<and>
     bdev_view s' = bdev_view s \<and> flash_flags s' = 0 \<and> tick s' = tick s \<and>
     (\<forall>x. in_fs x \<longrightarrow> rom s' x = bdev_view s x)"
proof (cases "flash_flags s = 0")
  case True
  then show ?thesis using inv by (simp add: flash_bdev_ioctl_def bdev_consts bdev_inv_def)
next
  case False
  let ?s = "s\<lparr>flash_flags := flash_flags s OR FLASH_FLAG_FORCE_WRITE\<rparr>"
  have len: "length (flash_cache_mem ?s) = 0x8000" using inv by (simp add: bdev_inv_def)
  have ca: "cache_addressed ?s" using inv False by (auto simp: bdev_inv_def cache_addressed_def)
  have fl: "flash_flags s = 1 \<or> flash_flags s = 5" using inv False by (auto simp: bdev_inv_def)
  have v: "bdev_view ?s = bdev_view s" by (simp add: bdev_view_def fun_eq_iff)
  have "flash_bdev_irq_handler hw ?s = Some (flushed ?s)"
    using fl
  proof
    assume "flash_flags s = 1"
    then show ?thesis using irq_handler_erased [OF hw ca len] by (simp add: flag_simps)
  next
    assume f: "flash_flags s = 5"
    then have "\<forall>x. sector_start x = flash_cache_sector_start ?s \<longrightarrow> rom ?s x = 0xff"
      using inv by (simp add: bdev_inv_def)
    from irq_handler_blank [OF hw ca len _ this] f show ?thesis by (simp add: flag_simps)
  qed
  moreover have "flushed ?s = flushed s" by (simp add: flushed_def v)
  ultimately have "flash_bdev_ioctl hw s BDEV_IOCTL_SYNC = Some (0, flushed s)"
    using fl by (auto simp: flash_bdev_ioctl_def bdev_consts)
  then show ?thesis using inv_flushed [OF inv] by simp
qed

section \<open>Writing through the cache\<close>

text \<open>The state in which \<open>memcpy\<close> into the cache may run for address \<open>a\<close>.\<close>

definition cache_ready :: "bdev \<Rightarrow> u32 \<Rightarrow> bool" where
  "cache_ready s a \<longleftrightarrow> bdev_inv s \<and> flash_flags s \<noteq> 0 \<and> flash_cache_sector_id s = sector_index a"

lemma get_addr_for_write_ok:
  assumes hw: "flash_hw_ok hw" and inv: "bdev_inv s" and a: "in_fs a"
  shows "\<exists>s'. flash_cache_get_addr_for_write hw s a = Some (unat a mod 0x8000, s') \<and> cache_ready s' a \<and>
     (\<forall>x. in_fs x \<longrightarrow> bdev_view s' x = bdev_view s x)"
proof (cases "flash_cache_sector_id s = sector_index a")
  case True
  let ?s = "s\<lparr>flash_flags := flash_flags s OR FLASH_FLAG_DIRTY, led1 := True,
              flash_tick_counter_last_write := tick s\<rparr>"
  have "cache_ready ?s a"
    using inv True fs_sector_index_nonzero [OF a]
    by (auto simp: cache_ready_def bdev_inv_def cache_addressed_def flag_simps)
  moreover have "flash_cache_get_addr_for_write hw s a = Some (unat a mod 0x8000, ?s)"
    using True fs_offset [OF a]
    by (simp add: flash_cache_get_addr_for_write_def flash_get_sector_info_def)
  moreover have "bdev_view ?s = bdev_view s" by (simp add: bdev_view_def fun_eq_iff)
  ultimately show ?thesis by auto
next
  case False
  obtain s0 where s0: "flash_bdev_ioctl hw s BDEV_IOCTL_SYNC = Some (0, s0)" "bdev_inv s0"
      "bdev_view s0 = bdev_view s" "flash_flags s0 = 0" "\<forall>x. in_fs x \<longrightarrow> rom s0 x = bdev_view s x"
    using ioctl_sync [OF hw inv] by blast
  let ?c = "mem_read (rom s0) (sector_start a) 0x8000"
  let ?s = "s0\<lparr>flash_cache_mem := ?c, flash_cache_sector_id := sector_index a,
      flash_cache_sector_start := sector_start a, flash_cache_sector_size := 0x8000,
      flash_flags := 1, led1 := True, flash_tick_counter_last_write := tick s0\<rparr>"
  have len: "length (flash_cache_mem s0) = 0x8000" using s0 by (simp add: bdev_inv_def)
  have eq: "flash_cache_get_addr_for_write hw s a = Some (unat a mod 0x8000, ?s)"
    using False s0 fs_offset [OF a] fs_sector_size [OF a] len
    by (simp add: flash_cache_get_addr_for_write_def flash_get_sector_info_def bdev_consts buf_write_all)
  have ca: "cache_addressed ?s"
    using a in_fs_sector_start [OF a] sector_start_idem [OF a]
    by (simp add: cache_addressed_def sector_index_eq_iff)
  then have "cache_ready ?s a"
    using fs_sector_index_nonzero [OF a] by (simp add: cache_ready_def bdev_inv_def)
  moreover have "bdev_view ?s x = bdev_view s x" if x: "in_fs x" for x
  proof (cases "sector_start x = sector_start a")
    case True
    then have "unat (x - sector_start a) < 0x8000" using fs_offset [OF x] by simp
    then show ?thesis using True s0 x by (simp add: view_in_cache [OF ca])
  next
    case False
    then show ?thesis using s0 x by (simp add: view_in_cache [OF ca])
  qed
  ultimately show ?thesis using eq by blast
qed

lemma copy_to_cache_ok:
  assumes r: "cache_ready s a" and a: "in_fs a" and fit: "unat a mod 0x8000 + length bs \<le> 0x8000"
  shows "\<exists>s'. copy_to_cache s (unat a mod 0x8000) bs = Some s' \<and> bdev_inv s' \<and>
     (\<forall>x. in_fs x \<longrightarrow> bdev_view s' x = mem_write (bdev_view s) a bs x)"
proof -
  let ?o = "unat a mod 0x8000"
  let ?s = "s\<lparr>flash_cache_mem := buf_write (flash_cache_mem s) ?o bs\<rparr>"
  have len: "length (flash_cache_mem s) = 0x8000" using r by (simp add: cache_ready_def bdev_inv_def)
  have nz: "flash_cache_sector_id s \<noteq> 0" using r fs_sector_index_nonzero [OF a] by (simp add: cache_ready_def)
  have ca: "cache_addressed s" using r nz by (simp add: cache_ready_def bdev_inv_def)
  have st: "flash_cache_sector_start s = sector_start a"
    using r ca by (simp add: cache_ready_def cache_addressed_def sector_index_eq_iff)
  have ca': "cache_addressed ?s" using ca by (simp add: cache_addressed_def)
  have inv: "bdev_inv ?s"
    using r ca' nz fit len by (auto simp: cache_ready_def bdev_inv_def length_buf_write)
  have view: "bdev_view ?s x = mem_write (bdev_view s) a bs x" if x: "in_fs x" for x
  proof (cases "sector_start x = sector_start a")
    case True
    have ox: "unat (x - sector_start a) = unat x mod 0x8000" using fs_offset [OF x] True by simp
    have "unat x div 0x8000 * 0x8000 = unat a div 0x8000 * 0x8000"
      using True fs_sector_start [OF x] fs_sector_start [OF a] by simp
    then have d: "unat x div 0x8000 = unat a div 0x8000" by simp
    have ux: "unat x = unat a div 0x8000 * 0x8000 + unat x mod 0x8000" by (simp flip: d)
    have ua: "unat a = unat a div 0x8000 * 0x8000 + ?o" by simp
    show ?thesis
    proof (cases "?o \<le> unat x mod 0x8000")
      case True
      then have "unat a \<le> unat x" using ux ua by linarith
      then have "unat (x - a) = unat x - unat a" by (simp add: unat_sub word_le_nat_alt)
      then have "unat (x - a) = unat x mod 0x8000 - ?o" using ux ua by linarith
      then show ?thesis
        using True ox \<open>sector_start x = sector_start a\<close> fit len st
        by (auto simp: view_in_cache [OF ca] view_in_cache [OF ca'] mem_write_def nth_buf_write)
    next
      case False
      then have "unat x < unat a" using ux ua by linarith
      then have "unat (x - a) = unat x + 4294967296 - unat a"
        by (simp add: unat_sub_if_size word_size word_le_nat_alt)
      moreover have "unat a < 0x02200000" "length bs \<le> 0x8000" using a fit by (simp_all add: in_fs_unat)
      ultimately have "\<not> unat (x - a) < length bs" by linarith
      then show ?thesis
        using False ox \<open>sector_start x = sector_start a\<close> fit len st
        by (auto simp: view_in_cache [OF ca] view_in_cache [OF ca'] mem_write_def nth_buf_write)
    qed
  next
    case False
    have "\<not> unat (x - a) < length bs"
    proof
      assume "unat (x - a) < length bs"
      then have b: "unat (x - a) < 0x8000 - ?o" using fit by simp
      have "unat (x - a) < 0x8000" "unat a < 0x02200000" using a b by (linarith, simp add: in_fs_unat)
      then have "unat a + unat (x - a) < 2 ^ 32" by simp
      then have "unat x = unat a + unat (x - a)" using unat_add_nat [of a "unat (x - a)"] by simp
      then have "unat x = unat a div 0x8000 * 0x8000 + (?o + unat (x - a))" by simp
      moreover have "?o + unat (x - a) < 0x8000" using b by simp
      ultimately have "unat x div 0x8000 = unat a div 0x8000"
        by (metis add.right_neutral div_less div_mult_self3 zero_neq_numeral)
      with False show False
        using fs_sector_start [OF x] fs_sector_start [OF a] by (simp add: word_unat_eq_iff)
    qed
    then show ?thesis
      using False st by (simp add: view_in_cache [OF ca] view_in_cache [OF ca'] mem_write_def)
  qed
  show ?thesis using inv view fit len by (auto simp: copy_to_cache_def)
qed

section \<open>Blocks\<close>

text \<open>The address of a block, and the block as the device's user sees it.\<close>

definition block_addr :: "u32 \<Rightarrow> u32" where
  "block_addr b = FS_START + b * 512"

definition block_view :: "bdev \<Rightarrow> u32 \<Rightarrow> bytes" where
  "block_view s b = mem_read (bdev_view s) (block_addr b) 512"

lemma unat_block_addr: "b < 256 \<Longrightarrow> unat (block_addr b) = 0x021E0000 + unat b * 512"
  by (simp add: block_addr_def FS_START_def unat_word_ariths word_less_nat_alt)

lemma block_addr_byte:
  "b < 256 \<Longrightarrow> i < 512 \<Longrightarrow> unat (block_addr b + of_nat i) = 0x021E0000 + unat b * 512 + i"
  using unat_add_nat [of "block_addr b" i] by (simp add: unat_block_addr word_less_nat_alt)

lemma in_fs_block: "b < 256 \<Longrightarrow> i < 512 \<Longrightarrow> in_fs (block_addr b + of_nat i)"
  by (simp add: in_fs_unat block_addr_byte word_less_nat_alt)

lemma block_offset: "b < 256 \<Longrightarrow> unat (block_addr b) mod 0x8000 = unat b mod 64 * 512"
proof -
  assume "b < 256"
  then have "unat (block_addr b) = 512 * (1084 * 64 + unat b)" by (simp add: unat_block_addr)
  then have "unat (block_addr b) mod 0x8000 = 512 * ((1084 * 64 + unat b) mod 64)"
    using mult_mod_right [of 512 "1084 * 64 + unat b" 64] by simp
  moreover have "(1084 * 64 + unat b) mod 64 = unat b mod 64" by (simp only: mod_mult_self3)
  ultimately show ?thesis by simp
qed

lemma block_fits: "b < 256 \<Longrightarrow> n \<le> 512 \<Longrightarrow> unat (block_addr b) mod 0x8000 + n \<le> 0x8000"
proof -
  assume "b < 256" "n \<le> 512"
  moreover have "unat b mod 64 \<le> 63" using pos_mod_bound [of 64 "int (unat b)"] by linarith
  ultimately show ?thesis by (simp add: block_offset)
qed

lemma convert_block: "convert_block_to_flash_addr b = (if b < 256 then block_addr b else -1)"
  by (simp add: convert_block_to_flash_addr_def bdev_consts FS_LEN_def block_addr_def)

lemma block_addr_not_bad: "b < 256 \<Longrightarrow> block_addr b \<noteq> -1"
  using unat_block_addr [of b] by (auto simp: word_less_nat_alt unsigned_minus_1_eq_mask mask_eq_exp_minus_1)

lemma length_block_view [simp]: "length (block_view s b) = 512"
  by (simp add: block_view_def)

lemma block_view_cong: "b < 256 \<Longrightarrow> (\<forall>x. in_fs x \<longrightarrow> bdev_view s' x = bdev_view s x) \<Longrightarrow> block_view s' b = block_view s b"
  unfolding block_view_def by (rule mem_read_cong) (simp add: in_fs_block)

text \<open>A read comes from the cache or from the flash; either way it is the view.\<close>

lemma copy_from_view:
  assumes inv: "bdev_inv s" and a: "in_fs a" and fit: "unat a mod 0x8000 + n \<le> 0x8000"
  shows "copy_from s (flash_cache_get_addr_for_read s a) n = Some (mem_read (bdev_view s) a n)"
proof -
  have len: "length (flash_cache_mem s) = 0x8000" using inv by (simp add: bdev_inv_def)
  have byte: "sector_start (a + of_nat i) = sector_start a"
      "unat (a + of_nat i - sector_start a) = unat a mod 0x8000 + i" if i: "i < n" for i
  proof -
    have "unat a + i < 2 ^ 32" using a i fit by (simp add: in_fs_unat)
    then have u: "unat (a + of_nat i) = unat a + i" by (rule unat_add_nat)
    have ua: "unat a = unat a div 0x8000 * 0x8000 + unat a mod 0x8000" by simp
    have "unat (sector_start a) = unat a div 0x8000 * 0x8000" by (rule fs_sector_start [OF a])
    then have ss: "unat (sector_start a) + (unat a mod 0x8000 + i) = unat (a + of_nat i)"
      using u ua by linarith
    then have "sector_start a \<le> a + of_nat i" by (simp add: word_le_nat_alt)
    then show d: "unat (a + of_nat i - sector_start a) = unat a mod 0x8000 + i"
      using ss by (simp add: unat_sub)
    show "sector_start (a + of_nat i) = sector_start a"
      using same_sector_iff [of "sector_start a" "a + of_nat i"] d i fit
        in_fs_sector_start [OF a] sector_start_idem [OF a] by simp
  qed
  have idx: "sector_index (a + of_nat i) = sector_index a" if "i < n" for i
    using byte(1) [OF that] by (simp add: sector_index_eq_iff)
  show ?thesis
  proof (cases "flash_cache_sector_id s = sector_index a")
    case True
    have "buf_read (flash_cache_mem s) (unat a mod 0x8000) n = mem_read (bdev_view s) a n"
      by (rule nth_equalityI)
         (use len fit True byte in \<open>simp_all add: length_buf_read nth_buf_read bdev_view_def sector_index_eq_iff\<close>)
    then show ?thesis
      using True len fit fs_offset [OF a]
      by (simp add: flash_cache_get_addr_for_read_def flash_get_sector_info_def)
  next
    case False
    then have "mem_read (rom s) a n = mem_read (bdev_view s) a n"
      using idx by (intro mem_read_cong) (simp add: bdev_view_def)
    with False show ?thesis
      by (simp add: flash_cache_get_addr_for_read_def flash_get_sector_info_def)
  qed
qed

lemma readblock_ok:
  "bdev_inv s \<Longrightarrow> b < 256 \<Longrightarrow> flash_bdev_readblock s dest b = Some (True, block_view s b)"
  using copy_from_view [of s "block_addr b" 512] in_fs_block [of b 0] block_fits [of b 512]
  by (simp add: flash_bdev_readblock_def convert_block block_addr_not_bad block_view_def FLASH_BLOCK_SIZE_def)

lemma readblock_bad: "\<not> b < 256 \<Longrightarrow> flash_bdev_readblock s dest b = Some (False, dest)"
  by (simp add: flash_bdev_readblock_def convert_block)

lemma writeblock_bad: "\<not> b < 256 \<Longrightarrow> flash_bdev_writeblock hw s src b = Some (False, s)"
  by (simp add: flash_bdev_writeblock_def convert_block)

lemma write_range_ok:
  assumes hw: "flash_hw_ok hw" and inv: "bdev_inv s" and a: "in_fs a"
    and fit: "unat a mod 0x8000 + length bs \<le> 0x8000"
  shows "\<exists>i s1 s2. flash_cache_get_addr_for_write hw s a = Some (i, s1) \<and> copy_to_cache s1 i bs = Some s2 \<and>
     bdev_inv s2 \<and> (\<forall>x. in_fs x \<longrightarrow> bdev_view s2 x = mem_write (bdev_view s) a bs x)"
proof -
  obtain s1 where s1: "flash_cache_get_addr_for_write hw s a = Some (unat a mod 0x8000, s1)"
      "cache_ready s1 a" "\<forall>x. in_fs x \<longrightarrow> bdev_view s1 x = bdev_view s x"
    using get_addr_for_write_ok [OF hw inv a] by blast
  obtain s2 where s2: "copy_to_cache s1 (unat a mod 0x8000) bs = Some s2" "bdev_inv s2"
      "\<forall>x. in_fs x \<longrightarrow> bdev_view s2 x = mem_write (bdev_view s1) a bs x"
    using copy_to_cache_ok [OF s1(2) a fit] by blast
  have "\<forall>x. in_fs x \<longrightarrow> bdev_view s2 x = mem_write (bdev_view s) a bs x"
    using s1(3) s2(3) by (simp add: mem_write_def)
  with s1(1) s2 show ?thesis by blast
qed

lemma writeblock_view:
  assumes hw: "flash_hw_ok hw" and inv: "bdev_inv s" and b: "b < 256" and len: "length src = 512"
  shows "\<exists>s'. flash_bdev_writeblock hw s src b = Some (True, s') \<and> bdev_inv s' \<and>
     (\<forall>x. in_fs x \<longrightarrow> bdev_view s' x = mem_write (bdev_view s) (block_addr b) src x)"
  using write_range_ok [OF hw inv, of "block_addr b" src] in_fs_block [OF b, of 0] block_fits [OF b, of 512] b len
  by (auto simp: flash_bdev_writeblock_def convert_block block_addr_not_bad FLASH_BLOCK_SIZE_def)

lemma mem_write_block:
  assumes "b < 256" "c < 256" "length src = 512"
  shows "mem_read (mem_write m (block_addr b) src) (block_addr c) 512 =
     (if c = b then src else mem_read m (block_addr c) 512)"
proof (cases "c = b")
  case True
  then show ?thesis using mem_read_write_same [of src m "block_addr b"] assms by simp
next
  case False
  have "\<not> unat (block_addr c + of_nat i - block_addr b) < 512" if i: "i < 512" for i
  proof
    assume lt: "unat (block_addr c + of_nat i - block_addr b) < 512"
    let ?d = "unat (block_addr c + of_nat i - block_addr b)"
    have "unat (block_addr b + of_nat ?d) = unat (block_addr c + of_nat i)" by simp
    then have "unat b * 512 + ?d = unat c * 512 + i"
      using block_addr_byte [OF assms(1) lt] block_addr_byte [OF assms(2) i] by simp
    moreover have "unat b = (unat b * 512 + ?d) div 512" "unat c = (unat c * 512 + i) div 512"
      using lt i by simp_all
    ultimately have "unat b = unat c" by simp
    with False show False by (simp add: word_unat_eq_iff)
  qed
  then have "mem_read (mem_write m (block_addr b) src) (block_addr c) 512 = mem_read m (block_addr c) 512"
    using assms by (intro mem_read_cong) (simp add: mem_write_def)
  with False show ?thesis by simp
qed

lemma writeblock_ok:
  assumes hw: "flash_hw_ok hw" and inv: "bdev_inv s" and b: "b < 256" and len: "length src = 512"
  shows "\<exists>s'. flash_bdev_writeblock hw s src b = Some (True, s') \<and> bdev_inv s' \<and>
     (\<forall>c. c < 256 \<longrightarrow> block_view s' c = (if c = b then src else block_view s c))"
proof -
  obtain s' where s': "flash_bdev_writeblock hw s src b = Some (True, s')" "bdev_inv s'"
      "\<forall>x. in_fs x \<longrightarrow> bdev_view s' x = mem_write (bdev_view s) (block_addr b) src x"
    using writeblock_view [OF assms] by blast
  have "block_view s' c = (if c = b then src else block_view s c)" if c: "c < 256" for c
  proof -
    have "block_view s' c = mem_read (mem_write (bdev_view s) (block_addr b) src) (block_addr c) 512"
      unfolding block_view_def by (rule mem_read_cong) (simp add: s'(3) in_fs_block c)
    then show ?thesis using mem_write_block [OF b c len] by (simp add: block_view_def)
  qed
  with s' show ?thesis by blast
qed


section \<open>The extended protocol\<close>

lemma ext_chunk_nat: "unat offset < 512 \<Longrightarrow> unat (ext_chunk offset len) = min (unat len) (512 - unat offset)"
  by (simp add: ext_chunk_def min_def FLASH_BLOCK_SIZE_def word_le_nat_alt unat_sub)

lemma block_addr_next: "block_addr (b + 1) = block_addr b + 512"
  by (simp add: block_addr_def algebra_simps)

text \<open>One round: the chunk lies inside block \<open>b\<close>, and the next round starts at the next block.\<close>

lemma ext_round:
  fixes b offset len :: u32
  assumes b: "b < 256" and o: "unat offset < 512"
  defines "l \<equiv> ext_chunk offset len"
  shows "in_fs (block_addr b + offset) \<and> unat (block_addr b + offset) mod 0x8000 + unat l \<le> 0x8000"
    and "unat l = unat len \<or> block_addr b + offset + l = block_addr (b + 1)"
proof -
  have l: "unat l = min (unat len) (512 - unat offset)" using o by (simp add: l_def ext_chunk_nat)
  have a: "unat (block_addr b + offset) = 0x021E0000 + unat b * 512 + unat offset"
    using block_addr_byte [OF b, of "unat offset"] o by simp
  have fs: "in_fs (block_addr b + offset)" using in_fs_block [OF b, of "unat offset"] o by simp
  have "unat (block_addr b) mod 0x8000 + 512 \<le> 0x8000" using block_fits [OF b, of 512] by simp
  moreover have "unat (block_addr b + offset) = unat (block_addr b) + unat offset"
    using a b by (simp add: unat_block_addr)
  ultimately have "unat (block_addr b + offset) mod 0x8000 = unat (block_addr b) mod 0x8000 + unat offset"
    using o by (simp add: mod_add_left_eq [symmetric, of "unat (block_addr b)"] del: mod_add_left_eq)
  then show "in_fs (block_addr b + offset) \<and> unat (block_addr b + offset) mod 0x8000 + unat l \<le> 0x8000"
    using fs l o block_fits [OF b, of 512] by simp
  show "unat l = unat len \<or> block_addr b + offset + l = block_addr (b + 1)"
  proof (cases "unat len \<le> 512 - unat offset")
    case True then show ?thesis using l by simp
  next
    case False
    then have "unat (offset + l) = 512" using l o by (simp add: unat_word_ariths)
    then have "offset + l = 512" by (simp add: word_unat_eq_iff)
    then have "block_addr b + (offset + l) = block_addr (b + 1)" using block_addr_next by simp
    then show ?thesis by (simp add: add.assoc)
  qed
qed

lemma readblocks_ext_ok:
  assumes "bdev_inv s" "unat offset < 512"
    and "unat block * 512 + unat offset + unat len \<le> 256 * 512" "d + unat len \<le> length dest"
  shows "flash_bdev_readblocks_ext s dest d block offset len =
     Some (0, buf_write dest d (mem_read (bdev_view s) (block_addr block + offset) (unat len)))"
  using assms
proof (induction s dest d block offset len rule: flash_bdev_readblocks_ext.induct)
  case (1 s dest d block offset len)
  note inv = "1.prems"(1) and o = "1.prems"(2) and range = "1.prems"(3) and fit = "1.prems"(4)
  show ?case
  proof (cases "len = 0")
    case True
    then show ?thesis
      by (subst flash_bdev_readblocks_ext.simps) (simp add: mem_read_def buf_write_Nil)
  next
    case False
    then have ln: "0 < unat len" by (simp add: unat_gt_0)
    then have b: "block < 256" using range by (simp add: word_less_nat_alt)
    let ?l = "ext_chunk offset len"
    let ?a = "block_addr block + offset"
    have l: "unat ?l = min (unat len) (512 - unat offset)" using o by (rule ext_chunk_nat)
    note r = ext_round(1) [OF b o, of len, THEN conjunct1] ext_round(1) [OF b o, of len, THEN conjunct2]
      ext_round(2) [OF b o, of len]
    have cp: "copy_from s (flash_cache_get_addr_for_read s ?a) (unat ?l) = Some (mem_read (bdev_view s) ?a (unat ?l))"
      by (rule copy_from_view [OF inv r(1,2)])
    have ll: "unat (len - ?l) = unat len - unat ?l" using ext_chunk_le by (simp add: unat_sub word_le_nat_alt)
    have b1: "unat (block + 1) = unat block + 1" using b by (simp add: unat_word_ariths word_less_nat_alt)
    let ?d = "buf_write dest d (mem_read (bdev_view s) ?a (unat ?l))"
    have ld: "length ?d = length dest" using fit l by (simp add: length_buf_write)
    have step: "flash_bdev_readblocks_ext s dest d block offset len =
        flash_bdev_readblocks_ext s ?d (d + unat ?l) (block + 1) 0 (len - ?l)"
      using False b cp
      by (simp add: flash_bdev_readblocks_ext.simps [of s dest d block offset len] Let_def convert_block block_addr_not_bad)
    also have "\<dots> = Some (0, buf_write ?d (d + unat ?l)
        (mem_read (bdev_view s) (block_addr (block + 1) + 0) (unat (len - ?l))))"
    proof (rule "1.IH" [OF False refl refl _ _ inv])
      show "convert_block_to_flash_addr block \<noteq> - 1" using b by (simp add: convert_block block_addr_not_bad)
      show "copy_from s (flash_cache_get_addr_for_read s (convert_block_to_flash_addr block + offset)) (unat ?l) =
          Some (mem_read (bdev_view s) ?a (unat ?l))" using b cp by (simp add: convert_block)
      show "unat (block + 1) * 512 + unat (0 :: u32) + unat (len - ?l) \<le> 256 * 512"
        using range l ll b1 o by (cases "unat len \<le> 512 - unat offset") (use b in \<open>simp_all add: word_less_nat_alt\<close>)
      show "d + unat ?l + unat (len - ?l) \<le> length ?d" using fit ll l ld by simp
    qed simp
    also have "\<dots> = Some (0, buf_write dest d (mem_read (bdev_view s) ?a (unat len)))"
    proof (cases "unat ?l = unat len")
      case True
      then show ?thesis using ll by (simp add: mem_read_def buf_write_Nil)
    next
      case False
      with r(3) have nx: "block_addr (block + 1) = ?a + of_nat (unat ?l)" by simp
      have "mem_read (bdev_view s) ?a (unat len) =
          mem_read (bdev_view s) ?a (unat ?l) @ mem_read (bdev_view s) (block_addr (block + 1)) (unat len - unat ?l)"
        using mem_read_append [of "bdev_view s" ?a "unat ?l" "unat len - unat ?l"] l by (simp add: nx)
      then show ?thesis
        using buf_write_append [of d "mem_read (bdev_view s) ?a (unat ?l)"
            "mem_read (bdev_view s) (block_addr (block + 1)) (unat len - unat ?l)" dest] fit ll l by simp
    qed
    finally show ?thesis .
  qed
qed

lemma writeblocks_ext_ok:
  assumes "flash_hw_ok hw" "bdev_inv s" "unat offset < 512"
    and "unat block * 512 + unat offset + unat len \<le> 256 * 512" "p + unat len \<le> length src"
  shows "\<exists>s'. flash_bdev_writeblocks_ext hw s src p block offset len = Some (0, s') \<and> bdev_inv s' \<and>
     (\<forall>x. in_fs x \<longrightarrow> bdev_view s' x =
        mem_write (bdev_view s) (block_addr block + offset) (buf_read src p (unat len)) x)"
  using assms
proof (induction hw s src p block offset len rule: flash_bdev_writeblocks_ext.induct)
  case (1 hw s src p block offset len)
  note hw = "1.prems"(1) and inv = "1.prems"(2) and o = "1.prems"(3) and range = "1.prems"(4) and fit = "1.prems"(5)
  show ?case
  proof (cases "len = 0")
    case True
    with inv show ?thesis
      by (subst flash_bdev_writeblocks_ext.simps) (simp add: mem_write_def buf_read_def)
  next
    case False
    then have ln: "0 < unat len" by (simp add: unat_gt_0)
    then have b: "block < 256" using range by (simp add: word_less_nat_alt)
    let ?l = "ext_chunk offset len"
    let ?a = "block_addr block + offset"
    let ?bs = "buf_read src p (unat ?l)"
    have l: "unat ?l = min (unat len) (512 - unat offset)" using o by (rule ext_chunk_nat)
    note r = ext_round(1) [OF b o, of len, THEN conjunct1] ext_round(1) [OF b o, of len, THEN conjunct2]
      ext_round(2) [OF b o, of len]
    have lbs: "length ?bs = unat ?l" using fit l by (simp add: length_buf_read)
    obtain i s1 s2 where w: "flash_cache_get_addr_for_write hw s ?a = Some (i, s1)"
        "copy_to_cache s1 i ?bs = Some s2" "bdev_inv s2"
        "\<forall>x. in_fs x \<longrightarrow> bdev_view s2 x = mem_write (bdev_view s) ?a ?bs x"
      using write_range_ok [OF hw inv r(1), of ?bs] r(2) lbs by metis
    have ll: "unat (len - ?l) = unat len - unat ?l" using ext_chunk_le by (simp add: unat_sub word_le_nat_alt)
    have b1: "unat (block + 1) = unat block + 1" using b by (simp add: unat_word_ariths word_less_nat_alt)
    have cv: "convert_block_to_flash_addr block = block_addr block" using b by (simp add: convert_block)
    have step: "flash_bdev_writeblocks_ext hw s src p block offset len =
        flash_bdev_writeblocks_ext hw s2 src (p + unat ?l) (block + 1) 0 (len - ?l)"
      using False b w
      by (subst flash_bdev_writeblocks_ext.simps) (simp add: Let_def cv block_addr_not_bad)
    have rest: "\<exists>s'. flash_bdev_writeblocks_ext hw s2 src (p + unat ?l) (block + 1) 0 (len - ?l) = Some (0, s') \<and>
        bdev_inv s' \<and> (\<forall>x. in_fs x \<longrightarrow> bdev_view s' x = mem_write (bdev_view s2) (block_addr (block + 1) + 0)
           (buf_read src (p + unat ?l) (unat (len - ?l))) x)"
    proof (rule "1.IH" [OF False refl refl _ _ refl _ hw w(3)])
      show "convert_block_to_flash_addr block \<noteq> - 1" using b by (simp add: cv block_addr_not_bad)
      show "flash_cache_get_addr_for_write hw s (convert_block_to_flash_addr block + offset) = Some (i, s1)"
        using w by (simp add: cv)
      show "copy_to_cache s1 i ?bs = Some s2" by (rule w(2))
      show "unat (block + 1) * 512 + unat (0 :: u32) + unat (len - ?l) \<le> 256 * 512"
        using range l ll b1 o by (cases "unat len \<le> 512 - unat offset") (use b in \<open>simp_all add: word_less_nat_alt\<close>)
      show "p + unat ?l + unat (len - ?l) \<le> length src" using fit ll l by simp
    qed simp
    then obtain s' where s': "flash_bdev_writeblocks_ext hw s src p block offset len = Some (0, s')" "bdev_inv s'"
        "\<forall>x. in_fs x \<longrightarrow> bdev_view s' x = mem_write (bdev_view s2) (block_addr (block + 1))
           (buf_read src (p + unat ?l) (unat (len - ?l))) x"
      using step by auto
    have "mem_write (mem_write (bdev_view s) ?a ?bs) (block_addr (block + 1)) (buf_read src (p + unat ?l) (unat (len - ?l))) =
        mem_write (bdev_view s) ?a (buf_read src p (unat len))"
    proof (cases "unat ?l = unat len")
      case True
      then show ?thesis using ll by (simp add: mem_write_def buf_read_def)
    next
      case False
      with r(3) lbs have nx: "block_addr (block + 1) = ?a + of_nat (length ?bs)" by simp
      have app: "?bs @ buf_read src (p + unat ?l) (unat (len - ?l)) = buf_read src p (unat len)"
        using take_add [of "unat ?l" "unat len - unat ?l" "drop p src"] ll l
        by (simp add: buf_read_def add.commute)
      have "length ?bs + length (buf_read src (p + unat ?l) (unat (len - ?l))) \<le> 2 ^ 32"
        using range ext_chunk_le [of offset len] by (simp add: buf_read_def ll)
      from mem_write_append [OF this, of "bdev_view s" ?a, folded nx, unfolded app] show ?thesis .
    qed
    moreover have "mem_write (bdev_view s2) a bs x = mem_write (mem_write (bdev_view s) ?a ?bs) a bs x"
      if "in_fs x" for a bs x using w(4) that by (simp add: mem_write_def)
    ultimately show ?thesis using s' by simp
  qed
qed

section \<open>Failing hardware\<close>

text \<open>A sequencer whose erase works but whose programming fails and leaves the flash alone.\<close>

definition hw_write_fails :: "flash_hw \<Rightarrow> bool" where
  "hw_write_fails hw \<longleftrightarrow>
     (\<forall>a m. in_fs a \<longrightarrow> hw_erase hw a 1 m = (True, \<lambda>x. if sector_start x = sector_start a then 0xff else m x)) \<and>
     (\<forall>b a n m. hw_write hw b a n m = (False, m))"

definition broken_hw :: flash_hw where
  "broken_hw = \<lparr>hw_erase = (\<lambda>a n m. (True, \<lambda>x. if sector_start x = sector_start a then 0xff else m x)),
     hw_write = (\<lambda>b a n m. (False, m))\<rparr>"

lemma broken_hw_fails: "hw_write_fails broken_hw"
  by (simp add: hw_write_fails_def broken_hw_def)

lemma writex_first_failure:
  "hw_write_fails hw \<Longrightarrow> start < endaddr \<Longrightarrow>
   writex_loop hw src True endaddr m fb start off nb p = Some (False, m)"
  by (subst writex_loop.simps) (simp add: hw_write_fails_def Let_def)

lemma flash_write_failure:
  assumes "hw_write_fails hw" "in_fs st" "sector_start st = st"
  shows "flash_write hw m st c 0x8000 = Some (False, m)"
proof -
  have "unat (st + 0x8000) = unat st + 0x8000"
    using assms(2) by (simp add: in_fs_unat unat_word_ariths)
  moreover have "unat (st AND FLASH_BUF_ADDR_MASK) \<le> unat st" by (simp add: buf_addr_mask)
  ultimately have "st AND FLASH_BUF_ADDR_MASK < st + 0x8000" by (simp add: word_less_nat_alt)
  then show ?thesis
    by (simp add: flash_write_def internal_flash_write_def internal_flash_writex_def
        writex_first_failure [OF assms(1)])
qed

lemma sync_failure:
  assumes hw: "hw_write_fails hw" and inv: "bdev_inv s" and d: "flash_flags s \<noteq> 0"
  shows "\<exists>s'. flash_bdev_ioctl hw s BDEV_IOCTL_SYNC = Some (0, s') \<and> flash_flags s' = 0 \<and>
     (\<forall>x. sector_start x = flash_cache_sector_start s \<longrightarrow> rom s' x = 0xff)"
proof -
  have ca: "cache_addressed s" using inv d by (auto simp: bdev_inv_def)
  then have st: "in_fs (flash_cache_sector_start s)"
      "sector_start (flash_cache_sector_start s) = flash_cache_sector_start s"
      "flash_cache_sector_size s = 0x8000"
    by (simp_all add: cache_addressed_def)
  have er: "flash_erase hw (rom s) (flash_cache_sector_start s) 0x8000 =
      (True, \<lambda>x. if sector_start x = flash_cache_sector_start s then 0xff else rom s x)"
    using hw st by (simp add: hw_write_fails_def flash_erase_def internal_flash_eraseblock_def)
  have fl: "flash_flags s = 1 \<or> flash_flags s = 5" using inv d by (auto simp: bdev_inv_def)
  then show ?thesis
  proof
    assume "flash_flags s = 1"
    then show ?thesis
      using st er flash_write_failure [OF hw st(1,2)]
      by (simp add: flash_bdev_ioctl_def flash_bdev_irq_handler_def bdev_consts Let_def)
  next
    assume "flash_flags s = 5"
    moreover from this have "\<forall>x. sector_start x = flash_cache_sector_start s \<longrightarrow> rom s x = 0xff"
      using inv by (simp add: bdev_inv_def)
    ultimately show ?thesis
      using st flash_write_failure [OF hw st(1,2)]
      by (simp add: flash_bdev_ioctl_def flash_bdev_irq_handler_def bdev_consts Let_def)
  qed
qed

end
