(* ===== verification/Storage.thy ===== *)
theory Storage
  imports FlashBdev
begin

text \<open>
  The storage layer of \<open>ports/renesas-ra/storage.c\<close>: the emulated partition table in block 0,
  block reads and writes on top of a block device, and the Python object \<open>Flash\<close>.  The macros
  \<open>MICROPY_HW_BDEV_IOCTL\<close>, \<open>MICROPY_HW_BDEV_READBLOCK\<close>, \<open>MICROPY_HW_BDEV_WRITEBLOCK\<close> and the
  extended ones are the fields of the record \<open>bdev_ops\<close>; on this board they are the functions of
  \<open>FlashBdev\<close> (\<open>flash_ops\<close>).  What the layer relies on is the locale \<open>block_device\<close>, and
  \<open>flash_ops\<close> is an interpretation of it.
\<close>

definition FLASH_PART1_START_BLOCK :: u32 where "FLASH_PART1_START_BLOCK = 0x100"
definition MP_EIO :: int where "MP_EIO = 5"

record 's bdev_ops =
  bd_ioctl :: "'s \<Rightarrow> u32 \<Rightarrow> (u32 \<times> 's) option"
  bd_readblock :: "'s \<Rightarrow> bytes \<Rightarrow> u32 \<Rightarrow> (bool \<times> bytes) option"
  bd_writeblock :: "'s \<Rightarrow> bytes \<Rightarrow> u32 \<Rightarrow> (bool \<times> 's) option"
  bd_readblocks_ext :: "('s \<Rightarrow> bytes \<Rightarrow> u32 \<Rightarrow> u32 \<Rightarrow> (u32 \<times> bytes) option) option"
  bd_writeblocks_ext :: "('s \<Rightarrow> bytes \<Rightarrow> u32 \<Rightarrow> u32 \<Rightarrow> (u32 \<times> 's) option) option"

record 's storage =
  storage_is_initialised :: bool
  dev :: 's

section \<open>Block operations\<close>

definition storage_init :: "'s bdev_ops \<Rightarrow> 's storage \<Rightarrow> 's storage option" where
  "storage_init ops st =
     (if \<not> storage_is_initialised st
      then do { (_, d) \<leftarrow> bd_ioctl ops (dev st) BDEV_IOCTL_INIT;
                Some (st\<lparr>storage_is_initialised := True, dev := d\<rparr>) }
      else Some st)"

definition storage_get_block_size :: u32 where "storage_get_block_size = FLASH_BLOCK_SIZE"

definition storage_get_block_count :: "'s bdev_ops \<Rightarrow> 's \<Rightarrow> u32 option" where
  "storage_get_block_count ops d =
     do { (n, _) \<leftarrow> bd_ioctl ops d BDEV_IOCTL_NUM_BLOCKS; Some (FLASH_PART1_START_BLOCK + n) }"

definition storage_irq_handler :: "'s bdev_ops \<Rightarrow> 's \<Rightarrow> 's option" where
  "storage_irq_handler ops d = do { (_, d') \<leftarrow> bd_ioctl ops d BDEV_IOCTL_IRQ_HANDLER; Some d' }"

definition storage_flush :: "'s bdev_ops \<Rightarrow> 's \<Rightarrow> 's option" where
  "storage_flush ops d = do { (_, d') \<leftarrow> bd_ioctl ops d BDEV_IOCTL_SYNC; Some d' }"

text \<open>One 16-byte entry of the partition table, written from index \<open>b\<close> of the buffer.\<close>

definition build_partition :: "bytes \<Rightarrow> nat \<Rightarrow> u8 \<Rightarrow> u8 \<Rightarrow> u32 \<Rightarrow> u32 \<Rightarrow> bytes" where
  "build_partition buf b boot typ start_block num_blocks =
     (let buf = buf[b := boot];
          chs = (if num_blocks = 0 then 0 else 0xff);
          buf = buf[b + 1 := chs, b + 2 := chs, b + 3 := chs];
          buf = buf[b + 4 := typ];
          buf = buf[b + 5 := chs, b + 6 := chs, b + 7 := chs];
          buf = buf[b + 8 := ucast start_block, b + 9 := ucast (drop_bit 8 start_block),
                    b + 10 := ucast (drop_bit 16 start_block), b + 11 := ucast (drop_bit 24 start_block)]
      in buf[b + 12 := ucast num_blocks, b + 13 := ucast (drop_bit 8 num_blocks),
             b + 14 := ucast (drop_bit 16 num_blocks), b + 15 := ucast (drop_bit 24 num_blocks)])"

definition storage_read_block :: "'s bdev_ops \<Rightarrow> 's \<Rightarrow> bytes \<Rightarrow> u32 \<Rightarrow> (bool \<times> bytes) option" where
  "storage_read_block ops d dest block =
     (if block = 0 then do {
        (n, _) \<leftarrow> bd_ioctl ops d BDEV_IOCTL_NUM_BLOCKS;
        let dest = buf_write dest 0 (replicate 446 0);
        let dest = build_partition dest 446 0 0x01 FLASH_PART1_START_BLOCK n;
        let dest = build_partition dest 462 0 0 0 0;
        let dest = build_partition dest 478 0 0 0 0;
        let dest = build_partition dest 494 0 0 0 0;
        Some (True, dest[510 := 0x55, 511 := 0xaa])
      }
      else if FLASH_PART1_START_BLOCK \<le> block then do {
        (n, _) \<leftarrow> bd_ioctl ops d BDEV_IOCTL_NUM_BLOCKS;
        if block < FLASH_PART1_START_BLOCK + n
        then bd_readblock ops d dest (block - FLASH_PART1_START_BLOCK)
        else Some (False, dest)
      }
      else Some (False, dest))"

definition storage_write_block :: "'s bdev_ops \<Rightarrow> 's \<Rightarrow> bytes \<Rightarrow> u32 \<Rightarrow> (bool \<times> 's) option" where
  "storage_write_block ops d src block =
     (if block = 0 then Some (True, d)
      else if FLASH_PART1_START_BLOCK \<le> block then do {
        (n, _) \<leftarrow> bd_ioctl ops d BDEV_IOCTL_NUM_BLOCKS;
        if block < FLASH_PART1_START_BLOCK + n
        then bd_writeblock ops d src (block - FLASH_PART1_START_BLOCK)
        else Some (False, d)
      }
      else Some (False, d))"

text \<open>The loops: \<open>i\<close> is the loop variable and \<open>k\<close> the rounds left, \<open>num_blocks - i\<close>.\<close>

fun read_blocks_loop :: "'s bdev_ops \<Rightarrow> 's \<Rightarrow> bytes \<Rightarrow> u32 \<Rightarrow> nat \<Rightarrow> nat \<Rightarrow> (int \<times> bytes) option" where
  "read_blocks_loop ops d dest block_num i 0 = Some (0, dest)"
| "read_blocks_loop ops d dest block_num i (Suc k) =
     (case storage_read_block ops d (buf_read dest (i * 512) 512) (block_num + of_nat i) of
        None \<Rightarrow> None
      | Some (ok, b) \<Rightarrow>
          if \<not> ok then Some (- MP_EIO, buf_write dest (i * 512) b)
          else read_blocks_loop ops d (buf_write dest (i * 512) b) block_num (Suc i) k)"

fun write_blocks_loop :: "'s bdev_ops \<Rightarrow> 's \<Rightarrow> bytes \<Rightarrow> u32 \<Rightarrow> nat \<Rightarrow> nat \<Rightarrow> (int \<times> 's) option" where
  "write_blocks_loop ops d src block_num i 0 = Some (0, d)"
| "write_blocks_loop ops d src block_num i (Suc k) =
     (case storage_write_block ops d (buf_read src (i * 512) 512) (block_num + of_nat i) of
        None \<Rightarrow> None
      | Some (ok, d') \<Rightarrow>
          if \<not> ok then Some (- MP_EIO, d')
          else write_blocks_loop ops d' src block_num (Suc i) k)"

definition storage_read_blocks :: "'s bdev_ops \<Rightarrow> 's \<Rightarrow> bytes \<Rightarrow> u32 \<Rightarrow> u32 \<Rightarrow> (int \<times> bytes) option" where
  "storage_read_blocks ops d dest block_num num_blocks =
     read_blocks_loop ops d dest block_num 0 (unat num_blocks)"

definition storage_write_blocks :: "'s bdev_ops \<Rightarrow> 's \<Rightarrow> bytes \<Rightarrow> u32 \<Rightarrow> u32 \<Rightarrow> (int \<times> 's) option" where
  "storage_write_blocks ops d src block_num num_blocks =
     write_blocks_loop ops d src block_num 0 (unat num_blocks)"

section \<open>The Flash object\<close>

text \<open>\<open>whole\<close> is the test \<open>self == &pyb_flash_obj\<close>.\<close>

record pyb_flash_obj_t =
  whole :: bool
  start :: u32
  len :: u32

definition pyb_flash_obj :: pyb_flash_obj_t where
  "pyb_flash_obj = \<lparr>whole = True, start = - (FLASH_PART1_START_BLOCK * FLASH_BLOCK_SIZE), len = 0\<rparr>"

datatype flash_error = ValueError

text \<open>Arguments \<open>start\<close> and \<open>len\<close> are \<open>mp_int_t\<close> (two's complement), \<open>bl_len\<close> is unsigned, and C
  compares the two as unsigned numbers.\<close>

definition pyb_flash_make_new ::
  "'s bdev_ops \<Rightarrow> 's \<Rightarrow> u32 \<Rightarrow> u32 \<Rightarrow> (flash_error + pyb_flash_obj_t) option" where
  "pyb_flash_make_new ops d a_start a_len =
     (if a_start = -1 \<and> a_len = -1 then Some (Inr pyb_flash_obj)
      else do {
        count \<leftarrow> storage_get_block_count ops d;
        let bl_len = (count - FLASH_PART1_START_BLOCK) * FLASH_BLOCK_SIZE;
        if a_start \<noteq> -1 \<and> \<not> (0 \<le> sint a_start \<and> a_start < bl_len \<and> sint a_start mod 512 = 0)
        then Some (Inl ValueError)
        else do {
          let st = (if a_start = -1 then 0 else a_start);
          if a_len \<noteq> -1 \<and> \<not> (0 < sint a_len \<and> st + a_len \<le> bl_len \<and> sint a_len mod 512 = 0)
          then Some (Inl ValueError)
          else Some (Inr \<lparr>whole = False, start = st, len = (if a_len = -1 then bl_len - st else a_len)\<rparr>)
        }
      })"

text \<open>C division truncates towards zero.\<close>

definition c_div :: "int \<Rightarrow> int \<Rightarrow> int" where
  "c_div a b = sgn a * sgn b * (\<bar>a\<bar> div \<bar>b\<bar>)"

definition flash_first_block :: "pyb_flash_obj_t \<Rightarrow> u32 \<Rightarrow> u32" where
  "flash_first_block self block_num =
     block_num + (FLASH_PART1_START_BLOCK + of_int (c_div (sint (start self)) 512))"

text \<open>\<open>off = None\<close> is the call with three arguments.\<close>

definition pyb_flash_readblocks ::
  "'s bdev_ops \<Rightarrow> 's \<Rightarrow> pyb_flash_obj_t \<Rightarrow> u32 \<Rightarrow> bytes \<Rightarrow> u32 option \<Rightarrow> (int \<times> bytes) option" where
  "pyb_flash_readblocks ops d self block_num buf off =
     (case off of
        None \<Rightarrow> storage_read_blocks ops d buf (flash_first_block self block_num) (of_nat (length buf div 512))
      | Some offset \<Rightarrow>
          (case bd_readblocks_ext ops of
             Some rd \<Rightarrow>
               if \<not> whole self
               then do { (r, b) \<leftarrow> rd d buf (block_num + start self div 512) offset; Some (sint r, b) }
               else Some (- MP_EIO, buf)
           | None \<Rightarrow> Some (- MP_EIO, buf)))"

definition pyb_flash_writeblocks ::
  "'s bdev_ops \<Rightarrow> 's \<Rightarrow> pyb_flash_obj_t \<Rightarrow> u32 \<Rightarrow> bytes \<Rightarrow> u32 option \<Rightarrow> (int \<times> 's) option" where
  "pyb_flash_writeblocks ops d self block_num buf off =
     (case off of
        None \<Rightarrow> storage_write_blocks ops d buf (flash_first_block self block_num) (of_nat (length buf div 512))
      | Some offset \<Rightarrow>
          (case bd_writeblocks_ext ops of
             Some wr \<Rightarrow>
               if \<not> whole self
               then do { (r, d') \<leftarrow> wr d buf (block_num + start self div 512) offset; Some (sint r, d') }
               else Some (- MP_EIO, d)
           | None \<Rightarrow> Some (- MP_EIO, d)))"

text \<open>\<open>None\<close> inside is \<open>mp_const_none\<close>, the answer to an unknown command.\<close>

definition pyb_flash_ioctl ::
  "'s bdev_ops \<Rightarrow> 's storage \<Rightarrow> pyb_flash_obj_t \<Rightarrow> int \<Rightarrow> int \<Rightarrow> (int option \<times> 's storage) option" where
  "pyb_flash_ioctl ops st self cmd arg =
     (if cmd = 1 then do {
        st' \<leftarrow> storage_init ops st;
        Some (Some (if arg = 1 \<and> whole self then -1 else 0), st')
      }
      else if cmd = 2 \<or> cmd = 3 then do {
        d \<leftarrow> storage_flush ops (dev st); Some (Some 0, st\<lparr>dev := d\<rparr>)
      }
      else if cmd = 4 then
        (if whole self then do { n \<leftarrow> storage_get_block_count ops (dev st); Some (Some (uint n), st) }
         else Some (Some (uint (len self div 512)), st))
      else if cmd = 5 then Some (Some (uint FLASH_BLOCK_SIZE), st)
      else if cmd = 6 then Some (Some 0, st)
      else Some (None, st))"

text \<open>The board's block device.  The extended operations are compiled in only when littlefs is.\<close>

definition flash_ops :: "flash_hw \<Rightarrow> bool \<Rightarrow> bdev bdev_ops" where
  "flash_ops hw lfs =
     \<lparr>bd_ioctl = flash_bdev_ioctl hw,
      bd_readblock = flash_bdev_readblock,
      bd_writeblock = flash_bdev_writeblock hw,
      bd_readblocks_ext = (if lfs then Some (\<lambda>s dest block offset.
        flash_bdev_readblocks_ext s dest 0 block offset (of_nat (length dest))) else None),
      bd_writeblocks_ext = (if lfs then Some (\<lambda>s src block offset.
        flash_bdev_writeblocks_ext hw s src 0 block offset (of_nat (length src))) else None)\<rparr>"


section \<open>What the layer relies on\<close>

text \<open>A block device with \<open>n\<close> blocks: reading a block gives its contents \<open>blk\<close>, writing one
  replaces it and no other, blocks beyond the end are refused, and a sync changes no contents.\<close>

locale block_device =
  fixes ops :: "'s bdev_ops" and inv :: "'s \<Rightarrow> bool" and n :: u32 and blk :: "'s \<Rightarrow> u32 \<Rightarrow> bytes"
  assumes num_blocks: "bd_ioctl ops s BDEV_IOCTL_NUM_BLOCKS = Some (n, s)"
    and size_bound: "unat n + 256 < 2 ^ 32"
    and blk_length: "length (blk s b) = 512"
    and read_ok: "inv s \<Longrightarrow> b < n \<Longrightarrow> bd_readblock ops s dest b = Some (True, blk s b)"
    and write_ok: "inv s \<Longrightarrow> b < n \<Longrightarrow> length src = 512 \<Longrightarrow>
      \<exists>s'. bd_writeblock ops s src b = Some (True, s') \<and> inv s' \<and>
        (\<forall>c. c < n \<longrightarrow> blk s' c = (if c = b then src else blk s c))"
    and sync_ok: "inv s \<Longrightarrow> \<exists>s'. bd_ioctl ops s BDEV_IOCTL_SYNC = Some (0, s') \<and> inv s' \<and>
        (\<forall>c. c < n \<longrightarrow> blk s' c = blk s c)"
begin

lemma part_end: "unat (FLASH_PART1_START_BLOCK + n) = 256 + unat n"
  using size_bound by (simp add: FLASH_PART1_START_BLOCK_def unat_word_ariths)

lemma block_count: "storage_get_block_count ops s = Some (FLASH_PART1_START_BLOCK + n)"
  by (simp add: storage_get_block_count_def num_blocks)

lemma flush_ok: "inv s \<Longrightarrow> \<exists>s'. storage_flush ops s = Some s' \<and> inv s' \<and> (\<forall>c. c < n \<longrightarrow> blk s' c = blk s c)"
  using sync_ok [of s] by (auto simp: storage_flush_def)

text \<open>Block \<open>b\<close> of the storage is block \<open>b - 0x100\<close> of the device.\<close>

lemma part_block:
  assumes "0x100 \<le> unat b" "unat b < 256 + unat n"
  shows "b \<noteq> 0" "FLASH_PART1_START_BLOCK \<le> b" "b < FLASH_PART1_START_BLOCK + n"
    "b - FLASH_PART1_START_BLOCK < n" "unat (b - FLASH_PART1_START_BLOCK) = unat b - 256"
proof -
  show le: "FLASH_PART1_START_BLOCK \<le> b" using assms by (simp add: FLASH_PART1_START_BLOCK_def word_le_nat_alt)
  then show u: "unat (b - FLASH_PART1_START_BLOCK) = unat b - 256"
    by (simp add: unat_sub) (simp add: FLASH_PART1_START_BLOCK_def)
  show "b \<noteq> 0" using assms by auto
  show "b < FLASH_PART1_START_BLOCK + n" using assms part_end by (simp add: word_less_nat_alt)
  show "b - FLASH_PART1_START_BLOCK < n" using assms u by (simp add: word_less_nat_alt)
qed

lemma read_part:
  assumes "inv s" "0x100 \<le> unat b" "unat b < 256 + unat n"
  shows "storage_read_block ops s dest b = Some (True, blk s (b - FLASH_PART1_START_BLOCK))"
  using assms part_block [OF assms(2,3)] by (simp add: storage_read_block_def num_blocks read_ok)

lemma write_part:
  assumes "inv s" "0x100 \<le> unat b" "unat b < 256 + unat n" "length src = 512"
  shows "\<exists>s'. storage_write_block ops s src b = Some (True, s') \<and> inv s' \<and>
     (\<forall>c. c < n \<longrightarrow> blk s' c = (if c = b - FLASH_PART1_START_BLOCK then src else blk s c))"
  using assms part_block [OF assms(2,3)] write_ok [of s "b - FLASH_PART1_START_BLOCK" src]
  by (simp add: storage_write_block_def num_blocks)

lemma out_of_range:
  assumes "b \<noteq> 0" "unat b < 0x100 \<or> 256 + unat n \<le> unat b"
  shows "storage_read_block ops s dest b = Some (False, dest)"
    and "storage_write_block ops s src b = Some (False, s)"
proof -
  have "\<not> FLASH_PART1_START_BLOCK \<le> b \<or> \<not> b < FLASH_PART1_START_BLOCK + n"
    using assms(2) part_end by (auto simp: word_le_nat_alt word_less_nat_alt) (simp add: FLASH_PART1_START_BLOCK_def)
  then show "storage_read_block ops s dest b = Some (False, dest)"
    and "storage_write_block ops s src b = Some (False, s)"
    using assms(1) by (auto simp: storage_read_block_def storage_write_block_def num_blocks)
qed

text \<open>The data of a run of storage blocks.\<close>

definition run_data :: "'s \<Rightarrow> u32 \<Rightarrow> nat \<Rightarrow> nat \<Rightarrow> bytes" where
  "run_data s b i k = concat (map (\<lambda>j. blk s (b + of_nat j - FLASH_PART1_START_BLOCK)) [i..<i + k])"

lemma length_run_data: "length (run_data s b i k) = k * 512"
  by (simp add: run_data_def length_concat blk_length comp_def sum_list_triv)

lemma run_data_Suc: "run_data s b i (Suc k) = blk s (b + of_nat i - FLASH_PART1_START_BLOCK) @ run_data s b (Suc i) k"
  by (simp add: run_data_def upt_conv_Cons del: upt_Suc)

lemma run_index:
  fixes b :: u32
  assumes "unat b + i < 2 ^ 32" shows "unat (b + of_nat i) = unat b + i"
  using assms by (rule unat_add_nat)

lemma read_blocks_loop_ok:
  assumes "inv s" "0x100 \<le> unat b" "unat b + i + k \<le> 256 + unat n" "(i + k) * 512 \<le> length dest"
  shows "read_blocks_loop ops s dest b i k = Some (0, buf_write dest (i * 512) (run_data s b i k))"
  using assms
proof (induction k arbitrary: i dest)
  case 0
  then show ?case by (simp add: run_data_def buf_write_Nil)
next
  case (Suc k)
  have u: "unat (b + of_nat i) = unat b + i" using Suc.prems size_bound by (intro run_index) simp
  let ?b = "blk s (b + of_nat i - FLASH_PART1_START_BLOCK)"
  have rd: "storage_read_block ops s (buf_read dest (i * 512) 512) (b + of_nat i) = Some (True, ?b)"
    using Suc.prems u by (intro read_part) simp_all
  let ?d = "buf_write dest (i * 512) ?b"
  have "read_blocks_loop ops s dest b i (Suc k) = read_blocks_loop ops s ?d b (Suc i) k"
    by (simp add: rd)
  also have "\<dots> = Some (0, buf_write ?d (Suc i * 512) (run_data s b (Suc i) k))"
    using Suc.prems by (intro Suc.IH) (simp_all add: length_buf_write blk_length)
  also have "buf_write ?d (Suc i * 512) (run_data s b (Suc i) k) =
      buf_write dest (i * 512) (run_data s b i (Suc k))"
    using buf_write_append [of "i * 512" ?b "run_data s b (Suc i) k" dest] Suc.prems
    by (simp add: run_data_Suc blk_length length_run_data algebra_simps)
  finally show ?case .
qed

lemma write_blocks_loop_ok:
  assumes "inv s" "0x100 \<le> unat b" "unat b + i + k \<le> 256 + unat n" "(i + k) * 512 \<le> length src"
  shows "\<exists>s'. write_blocks_loop ops s src b i k = Some (0, s') \<and> inv s' \<and>
     (\<forall>c. c < n \<longrightarrow> blk s' c =
        (if unat b + i \<le> 256 + unat c \<and> 256 + unat c < unat b + i + k
         then buf_read src ((256 + unat c - unat b) * 512) 512 else blk s c))"
  using assms
proof (induction k arbitrary: i s)
  case 0
  then show ?case by auto
next
  case (Suc k)
  have u: "unat (b + of_nat i) = unat b + i" using Suc.prems size_bound by (intro run_index) simp
  let ?x = "buf_read src (i * 512) 512"
  let ?b = "b + of_nat i - FLASH_PART1_START_BLOCK"
  have ub: "unat ?b = unat b + i - 256"
    using part_block(5) [of "b + of_nat i"] u Suc.prems by simp
  obtain s1 where s1: "storage_write_block ops s ?x (b + of_nat i) = Some (True, s1)" "inv s1"
      "\<forall>c. c < n \<longrightarrow> blk s1 c = (if c = ?b then ?x else blk s c)"
    using write_part [of s "b + of_nat i" ?x] Suc.prems u by (auto simp: length_buf_read)
  obtain s2 where s2: "write_blocks_loop ops s1 src b (Suc i) k = Some (0, s2)" "inv s2"
      "\<forall>c. c < n \<longrightarrow> blk s2 c =
        (if unat b + Suc i \<le> 256 + unat c \<and> 256 + unat c < unat b + Suc i + k
         then buf_read src ((256 + unat c - unat b) * 512) 512 else blk s1 c)"
    using Suc.IH [of s1 "Suc i"] Suc.prems s1(2) by auto
  have "blk s2 c = (if unat b + i \<le> 256 + unat c \<and> 256 + unat c < unat b + i + Suc k
         then buf_read src ((256 + unat c - unat b) * 512) 512 else blk s c)" if c: "c < n" for c
  proof (cases "c = ?b")
    case True
    then have "256 + unat c = unat b + i" using ub Suc.prems by simp
    then show ?thesis using s1(3) s2(3) c True by auto
  next
    case False
    then have "256 + unat c \<noteq> unat b + i" using ub by (auto simp: word_unat_eq_iff)
    then show ?thesis using s1(3) s2(3) c False by auto
  qed
  then show ?case using s1(1) s2(1,2) by auto
qed

text \<open>What has been written is read back.\<close>

lemma write_read_blocks:
  assumes "inv s" "0x100 \<le> unat b" "unat b + k \<le> 256 + unat n" "length src = k * 512" "length dest = k * 512"
  shows "\<exists>s'. storage_write_blocks ops s src b (of_nat k) = Some (0, s') \<and> inv s' \<and>
     storage_read_blocks ops s' dest b (of_nat k) = Some (0, src)"
proof -
  have k: "unat (of_nat k :: u32) = k" using assms(3) size_bound by (simp add: unat_of_nat)
  obtain s' where s': "write_blocks_loop ops s src b 0 k = Some (0, s')" "inv s'"
     "\<forall>c. c < n \<longrightarrow> blk s' c = (if unat b \<le> 256 + unat c \<and> 256 + unat c < unat b + k
         then buf_read src ((256 + unat c - unat b) * 512) 512 else blk s c)"
    using write_blocks_loop_ok [of s b 0 k src] assms by auto
  have "run_data s' b 0 k = concat (map (\<lambda>j. buf_read src (j * 512) 512) [0..<0 + k])"
    unfolding run_data_def
  proof (intro arg_cong [where f = concat] map_cong refl)
    fix j assume "j \<in> set [0..<0 + k]"
    then have j: "j < k" by simp
    then have u: "unat (b + of_nat j) = unat b + j"
      using assms(3) size_bound by (intro run_index) simp
    show "blk s' (b + of_nat j - FLASH_PART1_START_BLOCK) = buf_read src (j * 512) 512"
      using s'(3) part_block(4,5) [of "b + of_nat j"] u j assms(2,3) by simp
  qed
  also have "\<dots> = src" using concat_slices [of 0 k src] assms(4) by (simp add: buf_read_def)
  finally have "run_data s' b 0 k = src" .
  then have "read_blocks_loop ops s' dest b 0 k = Some (0, src)"
    using read_blocks_loop_ok [of s' b 0 k dest] s'(2) assms by (simp add: buf_write_all)
  with s' show ?thesis by (simp add: storage_write_blocks_def storage_read_blocks_def k)
qed

text \<open>A run that leaves the partition is refused, after its blocks inside have been written.\<close>

lemma write_blocks_loop_split:
  "write_blocks_loop ops s src b i (k + m) =
     (case write_blocks_loop ops s src b i k of
        None \<Rightarrow> None | Some (r, s') \<Rightarrow> if r = 0 then write_blocks_loop ops s' src b (i + k) m else Some (r, s'))"
  by (induction k arbitrary: i s) (auto split: option.splits simp: MP_EIO_def)

lemma write_blocks_past_end:
  assumes "inv s" "0x100 \<le> unat b" "unat b + k = 256 + unat n" "(k + Suc m) * 512 \<le> length src"
    and "k + Suc m < 2 ^ 32"
  shows "\<exists>s'. storage_write_blocks ops s src b (of_nat (k + Suc m)) = Some (- MP_EIO, s') \<and> inv s' \<and>
     (\<forall>c. c < n \<longrightarrow> blk s' c = (if unat b \<le> 256 + unat c
         then buf_read src ((256 + unat c - unat b) * 512) 512 else blk s c))"
proof -
  obtain s' where s': "write_blocks_loop ops s src b 0 k = Some (0, s')" "inv s'"
     "\<forall>c. c < n \<longrightarrow> blk s' c = (if unat b \<le> 256 + unat c \<and> 256 + unat c < unat b + k
         then buf_read src ((256 + unat c - unat b) * 512) 512 else blk s c)"
    using write_blocks_loop_ok [of s b 0 k src] assms by auto
  have u: "unat (b + of_nat k) = unat b + k" using assms(3) size_bound by (intro run_index) simp
  then have "storage_write_block ops s' x (b + of_nat k) = Some (False, s')" for x
    using assms(3) by (intro out_of_range(2)) (auto simp: unat_eq_zero [symmetric])
  then have "write_blocks_loop ops s' src b k (Suc m) = Some (- MP_EIO, s')" by simp
  then have "write_blocks_loop ops s src b 0 (k + Suc m) = Some (- MP_EIO, s')"
    using write_blocks_loop_split [of s src b 0 k "Suc m"] s'(1) by simp
  moreover have "unat (of_nat (k + Suc m) :: u32) = k + Suc m"
    using assms(5) by (simp add: unat_of_nat del: of_nat_Suc of_nat_add)
  moreover have "blk s' c = (if unat b \<le> 256 + unat c
      then buf_read src ((256 + unat c - unat b) * 512) 512 else blk s c)" if "c < n" for c
    using s'(3) that assms(3) by (simp add: word_less_nat_alt)
  ultimately show ?thesis using s'(2) by (simp add: storage_write_blocks_def del: of_nat_Suc of_nat_add)
qed

end

section \<open>The board's device provides it\<close>

interpretation fb: block_device "flash_ops hw lfs" "\<lambda>s. flash_hw_ok hw \<and> bdev_inv s" 256 block_view
  for hw lfs
proof unfold_locales
  fix s :: bdev
  show "bd_ioctl (flash_ops hw lfs) s BDEV_IOCTL_NUM_BLOCKS = Some (256, s)"
    by (simp add: flash_ops_def flash_bdev_ioctl_def bdev_consts FS_LEN_def)
next
  show "unat (256 :: u32) + 256 < 2 ^ 32" by simp
next
  fix s :: bdev and b :: u32 show "length (block_view s b) = 512" by simp
next
  fix s :: bdev and b :: u32 and dest
  assume "flash_hw_ok hw \<and> bdev_inv s" "b < 256"
  then show "bd_readblock (flash_ops hw lfs) s dest b = Some (True, block_view s b)"
    by (simp add: flash_ops_def readblock_ok)
next
  fix s :: bdev and b :: u32 and src :: bytes
  assume "flash_hw_ok hw \<and> bdev_inv s" "b < 256" "length (src :: bytes) = 512"
  then show "\<exists>s'. bd_writeblock (flash_ops hw lfs) s src b = Some (True, s') \<and> (flash_hw_ok hw \<and> bdev_inv s') \<and>
      (\<forall>c. c < 256 \<longrightarrow> block_view s' c = (if c = b then src else block_view s c))"
    using writeblock_ok [of hw s b src] by (auto simp: flash_ops_def)
next
  fix s :: bdev assume h: "flash_hw_ok hw \<and> bdev_inv s"
  then obtain s' where "flash_bdev_ioctl hw s BDEV_IOCTL_SYNC = Some (0, s')" "bdev_inv s'"
      "bdev_view s' = bdev_view s"
    using ioctl_sync [of hw s] by blast
  then show "\<exists>s'. bd_ioctl (flash_ops hw lfs) s BDEV_IOCTL_SYNC = Some (0, s') \<and> (flash_hw_ok hw \<and> bdev_inv s') \<and>
      (\<forall>c. c < 256 \<longrightarrow> block_view s' c = block_view s c)"
    using h by (auto simp: flash_ops_def block_view_def)
qed

section \<open>The partition table\<close>

definition le32 :: "bytes \<Rightarrow> nat \<Rightarrow> u32" where
  "le32 b i = ucast (b ! i) OR push_bit 8 (ucast (b ! (i + 1))) OR
     push_bit 16 (ucast (b ! (i + 2))) OR push_bit 24 (ucast (b ! (i + 3)))"

lemma le32_split:
  "(ucast (ucast w :: u8) :: u32) OR push_bit 8 (ucast (ucast (drop_bit 8 w) :: u8)) OR
   push_bit 16 (ucast (ucast (drop_bit 16 w) :: u8)) OR push_bit 24 (ucast (ucast (drop_bit 24 w) :: u8)) = w"
proof (rule bit_word_eqI)
  fix k assume "k < LENGTH(32)"
  then consider "k < 8" | "8 \<le> k" "k < 16" | "16 \<le> k" "k < 24" | "24 \<le> k" "k < 32" by fastforce
  then show "bit (ucast (ucast w :: u8) OR push_bit 8 (ucast (ucast (drop_bit 8 w) :: u8)) OR
     push_bit 16 (ucast (ucast (drop_bit 16 w) :: u8)) OR push_bit 24 (ucast (ucast (drop_bit 24 w) :: u8)) :: u32) k
     = bit w k"
    by cases (auto simp: bit_simps)
qed

lemma length_build_partition [simp]: "length (build_partition b p boot typ st n) = length b"
  by (simp add: build_partition_def Let_def)

lemma nth_build_partition_other:
  "i < p \<or> p + 16 \<le> i \<Longrightarrow> build_partition b p boot typ st n ! i = b ! i"
  by (auto simp: build_partition_def Let_def nth_list_update)

lemma nth_build_partition:
  assumes "p + 16 \<le> length b"
  shows "build_partition b p boot typ st n ! p = boot"
    "build_partition b p boot typ st n ! (p + 4) = typ"
    "le32 (build_partition b p boot typ st n) (p + 8) = st"
    "le32 (build_partition b p boot typ st n) (p + 12) = n"
  using assms le32_split [of st] le32_split [of n]
  by (simp_all add: build_partition_def Let_def le32_def nth_list_update)

lemma build_partition_zero:
  assumes "p + 16 \<le> length b" "p \<le> i" "i < p + 16"
  shows "build_partition b p 0 0 0 0 ! i = 0"
proof -
  obtain k where k: "i = p + k" "k < 16" using assms by (metis le_add_diff_inverse nat_add_left_cancel_less)
  then have "k = 0 \<or> k = 1 \<or> k = 2 \<or> k = 3 \<or> k = 4 \<or> k = 5 \<or> k = 6 \<or> k = 7 \<or> k = 8 \<or> k = 9 \<or>
      k = 10 \<or> k = 11 \<or> k = 12 \<or> k = 13 \<or> k = 14 \<or> k = 15" by presburger
  then show ?thesis
    using k(1) assms by (auto simp: build_partition_def Let_def nth_list_update)
qed

lemma le32_cong:
  assumes "\<And>k. k < 4 \<Longrightarrow> b ! (i + k) = c ! (i + k)"
  shows "le32 b i = le32 c i"
  using assms [of 0] assms [of 1] assms [of 2] assms [of 3] by (simp add: le32_def)

text \<open>What a reader finds in block 0: a valid MBR with one FAT12 partition covering the device.\<close>

definition is_mbr :: "bytes \<Rightarrow> u32 \<Rightarrow> bool" where
  "is_mbr b n \<longleftrightarrow> length b = 512 \<and> b ! 510 = 0x55 \<and> b ! 511 = 0xaa \<and>
     (\<forall>i < 446. b ! i = 0) \<and> (\<forall>i. 462 \<le> i \<and> i < 510 \<longrightarrow> b ! i = 0) \<and>
     b ! 446 = 0 \<and> b ! 450 = 1 \<and> le32 b 454 = FLASH_PART1_START_BLOCK \<and> le32 b 458 = n"

lemma read_mbr:
  assumes "bd_ioctl ops d BDEV_IOCTL_NUM_BLOCKS = Some (n, d')" "length dest = 512"
  shows "\<exists>b. storage_read_block ops d dest 0 = Some (True, b) \<and> is_mbr b n"
proof -
  let ?d0 = "buf_write dest 0 (replicate 446 0)"
  let ?d1 = "build_partition ?d0 446 0 0x01 FLASH_PART1_START_BLOCK n"
  let ?d2 = "build_partition ?d1 462 0 0 0 0"
  let ?d3 = "build_partition ?d2 478 0 0 0 0"
  let ?d4 = "build_partition ?d3 494 0 0 0 0"
  let ?b = "?d4[510 := 0x55, 511 := 0xaa]"
  have l: "length ?d0 = 512" using assms(2) by (simp add: length_buf_write)
  have low: "?b ! i = ?d1 ! i" if "i < 462" for i
    using that by (simp add: nth_list_update nth_build_partition_other)
  have zero: "?b ! i = 0" if "462 \<le> i" "i < 510" for i
  proof -
    consider "i < 478" | "478 \<le> i" "i < 494" | "494 \<le> i" by linarith
    then show ?thesis
      by cases (use that l in \<open>simp_all add: nth_list_update nth_build_partition_other build_partition_zero\<close>)
  qed
  have e: "?d1 ! 446 = 0" "?d1 ! 450 = 1" "le32 ?d1 454 = FLASH_PART1_START_BLOCK" "le32 ?d1 458 = n"
    using nth_build_partition [of 446 ?d0 0 1 FLASH_PART1_START_BLOCK n] l by simp_all
  have "?b ! i = 0" if "i < 446" for i
    using that low [of i] assms(2) by (simp add: nth_build_partition_other nth_buf_write)
  moreover have "le32 ?b 454 = le32 ?d1 454" "le32 ?b 458 = le32 ?d1 458"
    by (rule le32_cong, rule low, simp)+
  moreover have "?b ! 446 = 0" "?b ! 450 = 1" using low [of 446] low [of 450] e by simp_all
  ultimately have "is_mbr ?b n" using e zero l by (simp add: is_mbr_def)
  moreover have "storage_read_block ops d dest 0 = Some (True, ?b)"
    using assms(1) by (simp add: storage_read_block_def Let_def)
  ultimately show ?thesis by blast
qed

section \<open>Flash objects\<close>

lemma make_new_bounds:
  assumes "pyb_flash_make_new (flash_ops hw lfs) s a l = Some (Inr obj)" "\<not> whole obj"
  shows "unat (start obj) mod 512 = 0" "unat (len obj) mod 512 = 0"
    "unat (start obj) + unat (len obj) \<le> 256 * 512" "0 < unat (len obj)"
proof -
  let ?st = "if a = -1 then 0 else a"
  let ?bl = "131072 :: u32"
  have cnt: "(FLASH_PART1_START_BLOCK + 256 - FLASH_PART1_START_BLOCK) * FLASH_BLOCK_SIZE = ?bl"
    by (simp add: FLASH_BLOCK_SIZE_def)
  have nd: "\<not> (a = -1 \<and> l = -1)"
    using assms by (auto simp: pyb_flash_make_new_def pyb_flash_obj_def)
  have a: "a = -1 \<or> (0 \<le> sint a \<and> a < ?bl \<and> sint a mod 512 = 0)"
   and l: "l = -1 \<or> (0 < sint l \<and> ?st + l \<le> ?bl \<and> sint l mod 512 = 0)"
   and obj: "start obj = ?st" "len obj = (if l = -1 then ?bl - ?st else l)"
    using assms nd cnt
    by (auto simp: pyb_flash_make_new_def fb.block_count Let_def split: if_splits)
  have m512: "sint w mod 512 = 0 \<longleftrightarrow> unat w mod 512 = 0" if "0 \<le> sint w" for w :: u32
    using that zmod_int [of "unat w" 512] unsigned_less [of w, where ?'a = int] by (auto simp: sint32_unat split: if_splits)
  have st: "unat ?st mod 512 = 0" "unat ?st < 131072"
    using a m512 [of a] by (auto simp: word_less_nat_alt mod_eq_0_iff_dvd)
  have le: "unat (?bl - ?st) = 131072 - unat ?st" using st(2) by (simp add: unat_sub word_le_nat_alt)
  have len: "unat (len obj) mod 512 = 0 \<and> unat ?st + unat (len obj) \<le> 131072 \<and> 0 < unat (len obj)"
  proof (cases "l = -1")
    case True
    have "(131072 - unat ?st) mod 512 = 0"
      using st dvd_diff_nat [of 512 131072 "unat ?st"] by (simp add: mod_eq_0_iff_dvd)
    then show ?thesis using True obj le st by simp
  next
    case False
    with l have l': "0 < sint l" "?st + l \<le> ?bl" "sint l mod 512 = 0" by auto
    have ul: "uint l < 4294967296" using unsigned_less [of l, where ?'a = int] by simp
    then have "unat l < 2 ^ 31" using l'(1) by (auto simp: sint32_unat split: if_splits)
    then have "unat (?st + l) = unat ?st + unat l" using st(2) by (simp add: unat_word_ariths)
    moreover have "0 < unat l" using l'(1) by (simp add: unat_gt_0) auto
    ultimately show ?thesis
      using False obj l' m512 [of l] \<open>unat l < 2 ^ 31\<close> ul by (auto simp: word_le_nat_alt sint32_unat mod_eq_0_iff_dvd)
  qed
  show "unat (start obj) mod 512 = 0" using st obj by simp
  show "unat (len obj) mod 512 = 0" using len by simp
  show "unat (start obj) + unat (len obj) \<le> 256 * 512" using len obj by simp
  show "0 < unat (len obj)" using len by simp
qed

text \<open>The storage block a block number of an object stands for, and what a write through the object does to
  the device: the length of the object plays no part.\<close>

lemma first_block_in_range:
  assumes "unat (start obj) < 131072" "unat k < 256"
  shows "unat (flash_first_block obj k) = 256 + unat (start obj) div 512 + unat k"
proof -
  have si: "sint (start obj) = int (unat (start obj))" using assms(1) by (simp add: sint32_unat)
  have "c_div (sint (start obj)) 512 = int (unat (start obj) div 512)"
    unfolding c_div_def si by (cases "start obj = 0") (auto simp: sgn_if zdiv_int)
  then have "flash_first_block obj k = k + (256 + of_nat (unat (start obj) div 512))"
    by (simp add: flash_first_block_def FLASH_PART1_START_BLOCK_def)
  also have "\<dots> = of_nat (unat k + (256 + unat (start obj) div 512))" by simp
  finally have "unat (flash_first_block obj k) = (unat k + (256 + unat (start obj) div 512)) mod 2 ^ 32"
    by (simp only: unat_of_nat) simp
  moreover have "unat (start obj) div 512 < 256" using assms(1) by (simp add: div_less_iff_less_mult)
  ultimately show ?thesis using assms(2) by simp
qed

definition object_write :: "(u32 \<Rightarrow> bytes) \<Rightarrow> pyb_flash_obj_t \<Rightarrow> u32 \<Rightarrow> nat \<Rightarrow> bytes \<Rightarrow> u32 \<Rightarrow> bytes" where
  "object_write view obj k m buf c =
     (let first = unat (start obj) div 512 + unat k
      in if first \<le> unat c \<and> unat c < first + m then buf_read buf ((unat c - first) * 512) 512 else view c)"

lemma flash_obj_write_read:
  assumes hw: "flash_hw_ok hw" and inv: "bdev_inv s"
    and obj: "pyb_flash_make_new (flash_ops hw lfs) s0 a l = Some (Inr obj)" "\<not> whole obj"
    and buf: "length buf = m * 512" "0 < m" and fit: "unat (start obj) div 512 + unat k + m \<le> 256"
    and dest: "length dest = length buf"
  shows "\<exists>s'. pyb_flash_writeblocks (flash_ops hw lfs) s obj k buf None = Some (0, s') \<and> bdev_inv s' \<and>
     pyb_flash_readblocks (flash_ops hw lfs) s' obj k dest None = Some (0, buf) \<and>
     (\<forall>c < 256. block_view s' c = object_write (block_view s) obj k m buf c)"
proof -
  note b = make_new_bounds [OF obj]
  let ?b = "flash_first_block obj k"
  have u: "unat ?b = 256 + unat (start obj) div 512 + unat k"
    by (rule first_block_in_range) (use b(3,4) fit buf(2) in simp_all)
  then have r: "unat ?b + m \<le> 256 + unat (256 :: u32)" using fit by simp
  have m: "unat (of_nat m :: u32) = m" using r by (simp add: unat_of_nat)
  obtain s' where s': "write_blocks_loop (flash_ops hw lfs) s buf ?b 0 m = Some (0, s')" "bdev_inv s'"
     "\<forall>c. c < 256 \<longrightarrow> block_view s' c = (if unat ?b \<le> 256 + unat c \<and> 256 + unat c < unat ?b + m
         then buf_read buf ((256 + unat c - unat ?b) * 512) 512 else block_view s c)"
    using fb.write_blocks_loop_ok [of hw s ?b 0 m buf lfs] hw inv u r buf by auto
  obtain s'' where s'': "storage_write_blocks (flash_ops hw lfs) s buf ?b (of_nat m) = Some (0, s'')"
     "storage_read_blocks (flash_ops hw lfs) s'' dest ?b (of_nat m) = Some (0, buf)"
    using fb.write_read_blocks [of hw s ?b m buf dest lfs] hw inv u r buf dest by auto
  have "s'' = s'" using s''(1) s'(1) by (simp add: storage_write_blocks_def m)
  moreover have "length buf div 512 = m" using buf by simp
  ultimately have "pyb_flash_writeblocks (flash_ops hw lfs) s obj k buf None = Some (0, s')"
    "pyb_flash_readblocks (flash_ops hw lfs) s' obj k dest None = Some (0, buf)"
    using s'' dest by (simp_all add: pyb_flash_writeblocks_def pyb_flash_readblocks_def)
  moreover have "block_view s' c = object_write (block_view s) obj k m buf c" if "c < 256" for c
  proof -
    have "(unat ?b \<le> 256 + unat c \<and> 256 + unat c < unat ?b + m) =
        (unat (start obj) div 512 + unat k \<le> unat c \<and> unat c < unat (start obj) div 512 + unat k + m)"
      and "256 + unat c - unat ?b = unat c - (unat (start obj) div 512 + unat k)" unfolding u by linarith+
    then show ?thesis using s'(3) that by (simp add: object_write_def Let_def)
  qed
  ultimately show ?thesis using s'(2) by blast
qed

end
