(* ===== verification/StorageProps.thy ===== *)
theory StorageProps
  imports Storage
begin

text \<open>
  Executions of the storage stack and its properties.  An execution interleaves block writes with
  what runs behind the caller's back: the interrupt handler, \<open>flash_cache_commit\<close> from the delay
  loop, explicit syncs and the passing of time.  The specification is a plain disk, a map from
  block numbers to contents.  The section ends with the properties of the storage components.
\<close>

section \<open>Executions\<close>

datatype dev_event = WriteBlock u32 bytes | SyncDev | IrqTick | Commit | Wait u32

fun dev_step :: "flash_hw \<Rightarrow> bdev \<Rightarrow> dev_event \<Rightarrow> bdev option" where
  "dev_step hw s (WriteBlock b src) = map_option snd (flash_bdev_writeblock hw s src b)"
| "dev_step hw s SyncDev = map_option snd (flash_bdev_ioctl hw s BDEV_IOCTL_SYNC)"
| "dev_step hw s IrqTick = map_option snd (flash_bdev_ioctl hw s BDEV_IOCTL_IRQ_HANDLER)"
| "dev_step hw s Commit = flash_cache_commit hw s"
| "dev_step hw s (Wait t) = Some (s\<lparr>tick := tick s + t\<rparr>)"

fun dev_run :: "flash_hw \<Rightarrow> bdev \<Rightarrow> dev_event list \<Rightarrow> bdev option" where
  "dev_run hw s [] = Some s"
| "dev_run hw s (e # es) = (case dev_step hw s e of None \<Rightarrow> None | Some s' \<Rightarrow> dev_run hw s' es)"

text \<open>The disk of the specification.\<close>

fun disk_step :: "(u32 \<Rightarrow> bytes) \<Rightarrow> dev_event \<Rightarrow> (u32 \<Rightarrow> bytes)" where
  "disk_step d (WriteBlock b src) = (if b < 256 then d(b := src) else d)"
| "disk_step d _ = d"

fun event_ok :: "dev_event \<Rightarrow> bool" where
  "event_ok (WriteBlock b src) = (length src = 512)"
| "event_ok _ = True"

lemma bdev_inv_tick: "bdev_inv (s\<lparr>tick := t\<rparr>) = bdev_inv s"
  by (simp add: bdev_inv_def cache_addressed_def bdev_view_def)

lemma bdev_view_tick: "bdev_view (s\<lparr>tick := t\<rparr>) = bdev_view s"
  by (simp add: bdev_view_def fun_eq_iff)

lemma dev_step_ok:
  assumes hw: "flash_hw_ok hw" and inv: "bdev_inv s" and ok: "event_ok e"
  shows "\<exists>s'. dev_step hw s e = Some s' \<and> bdev_inv s' \<and>
     (\<forall>b < 256. block_view s' b = disk_step (block_view s) e b)"
proof (cases e)
  case (WriteBlock b src)
  then show ?thesis
    using writeblock_ok [OF hw inv, of b src] writeblock_bad [of b hw s src] inv ok
    by (cases "b < 256") auto
next
  case SyncDev
  then show ?thesis using ioctl_sync [OF hw inv] by (auto simp: block_view_def)
next
  case IrqTick
  obtain s' where "flash_bdev_irq_handler hw s = Some s'" "bdev_inv s'" "bdev_view s' = bdev_view s"
    using irq_handler_inv [OF hw inv] by blast
  with IrqTick show ?thesis by (auto simp: flash_bdev_ioctl_def bdev_consts block_view_def)
next
  case Commit
  obtain s' where "flash_bdev_irq_handler hw s = Some s'" "bdev_inv s'" "bdev_view s' = bdev_view s"
    using irq_handler_inv [OF hw inv] by blast
  with Commit inv show ?thesis by (auto simp: flash_cache_commit_def block_view_def)
next
  case (Wait t)
  with inv show ?thesis by (simp add: bdev_inv_tick bdev_view_tick block_view_def)
qed

lemma disk_step_cong:
  "(\<forall>b < 256. d b = d' b) \<Longrightarrow> (\<forall>b < 256. disk_step d e b = disk_step d' e b)"
  by (cases e) auto

lemma disk_run_cong:
  "(\<forall>b < 256. d b = d' b) \<Longrightarrow> (\<forall>b < 256. foldl disk_step d es b = foldl disk_step d' es b)"
proof (induction es arbitrary: d d')
  case Nil
  then show ?case by simp
next
  case (Cons e es)
  from Cons.IH [OF disk_step_cong [OF Cons.prems]] show ?case by simp
qed

lemma dev_run_ok:
  assumes hw: "flash_hw_ok hw" and inv: "bdev_inv s" and ok: "\<forall>e \<in> set es. event_ok e"
  shows "\<exists>s'. dev_run hw s es = Some s' \<and> bdev_inv s' \<and>
     (\<forall>b < 256. block_view s' b = foldl disk_step (block_view s) es b)"
  using inv ok
proof (induction es arbitrary: s)
  case Nil
  then show ?case by simp
next
  case (Cons e es)
  obtain s1 where s1: "dev_step hw s e = Some s1" "bdev_inv s1"
      "\<forall>b < 256. block_view s1 b = disk_step (block_view s) e b"
    using dev_step_ok [OF hw Cons.prems(1), of e] Cons.prems(2) by auto
  obtain s2 where s2: "dev_run hw s1 es = Some s2" "bdev_inv s2"
      "\<forall>b < 256. block_view s2 b = foldl disk_step (block_view s1) es b"
    using Cons.IH [OF s1(2)] Cons.prems(2) by auto
  have "\<forall>b < 256. block_view s2 b = foldl disk_step (block_view s) (e # es) b"
    using s2(3) disk_run_cong [OF s1(3), of es] by simp
  with s1 s2 show ?case by auto
qed

section \<open>Concrete states\<close>

text \<open>The state after \<open>BDEV_IOCTL_INIT\<close> on a blank chip, and a state with a dirty cache.\<close>

definition bdev0 :: bdev where
  "bdev0 = \<lparr>rom = (\<lambda>_. 0xff), flash_cache_mem = replicate 0x8000 0, flash_flags = 0,
     flash_cache_sector_id = 0, flash_cache_sector_start = 0, flash_cache_sector_size = 0,
     flash_tick_counter_last_write = 0, tick = 0, led1 = False\<rparr>"

definition bdev_dirty :: bdev where
  "bdev_dirty = bdev0\<lparr>flash_flags := 1, flash_cache_sector_id := sector_index FS_START,
     flash_cache_sector_start := FS_START, flash_cache_sector_size := 0x8000, tick := 2000\<rparr>"

lemma bdev0_inv: "bdev_inv bdev0"
proof -
  have "sector_index x \<noteq> 0" if "in_fs x" for x by (rule fs_sector_index_nonzero [OF that])
  then show ?thesis by (auto simp: bdev_inv_def bdev0_def bdev_view_def)
qed

lemma fs_start_facts: "in_fs FS_START" "sector_start FS_START = FS_START"
  by (simp_all add: in_fs_def FS_START_def FS_LEN_def sector_start_def REGION1_SECTOR_SIZE_def)

lemma bdev_dirty_inv: "bdev_inv bdev_dirty" "cache_addressed bdev_dirty"
  using fs_start_facts fs_sector_index_nonzero [OF fs_start_facts(1)]
  by (simp_all add: bdev_inv_def cache_addressed_def bdev_dirty_def bdev0_def)


section \<open>Properties\<close>

text \<open>C33: every interleaving of block writes with the interrupt handler, cache commits, syncs and
  waiting runs to its end, and afterwards reading any block of the device returns what a plain
  disk would hold.\<close>

theorem flash_run_refines_disk:
  assumes "flash_hw_ok hw" "bdev_inv s" "\<forall>e \<in> set es. event_ok e"
  shows "\<exists>s'. dev_run hw s es = Some s' \<and> bdev_inv s' \<and>
     (\<forall>b < 256. \<forall>dest. flash_bdev_readblock s' dest b = Some (True, foldl disk_step (block_view s) es b))"
  using dev_run_ok [OF assms] by (auto simp: readblock_ok)

lemma flash_run_refines_disk_witness:
  "\<exists>s'. dev_run ideal_hw bdev0 [WriteBlock 3 (replicate 512 7), Commit, WriteBlock 70 (replicate 512 9), IrqTick] = Some s' \<and>
     flash_bdev_readblock s' [] 3 = Some (True, replicate 512 7)"
proof -
  let ?es = "[WriteBlock 3 (replicate 512 7), Commit, WriteBlock 70 (replicate 512 9), IrqTick]"
  have "\<forall>e \<in> set ?es. event_ok e" by simp
  from flash_run_refines_disk [OF ideal_hw_ok bdev0_inv this] obtain s' where
    "dev_run ideal_hw bdev0 ?es = Some s'"
    "\<forall>b < 256. \<forall>dest. flash_bdev_readblock s' dest b = Some (True, foldl disk_step (block_view bdev0) ?es b)"
    by blast
  then show ?thesis by (intro exI [of _ s']) simp
qed

text \<open>C34: \<open>BDEV_IOCTL_SYNC\<close> makes the device durable: it returns 0, the cache is clean, every byte of
  the file-system area in flash equals what readers saw before, and readers see the same after.\<close>

theorem flash_sync_durable:
  assumes "flash_hw_ok hw" "bdev_inv s"
  shows "\<exists>s'. flash_bdev_ioctl hw s BDEV_IOCTL_SYNC = Some (0, s') \<and> flash_flags s' = 0 \<and>
     (\<forall>x. in_fs x \<longrightarrow> rom s' x = bdev_view s x \<and> bdev_view s' x = bdev_view s x)"
  using ioctl_sync [OF assms] by auto

lemma flash_sync_durable_witness:
  "\<exists>s'. flash_bdev_ioctl ideal_hw bdev_dirty BDEV_IOCTL_SYNC = Some (0, s') \<and>
     rom s' FS_START = flash_cache_mem bdev_dirty ! 0"
proof -
  have "bdev_view bdev_dirty FS_START = flash_cache_mem bdev_dirty ! 0"
    using fs_start_facts(2) by (simp add: bdev_view_def bdev_dirty_def)
  then show ?thesis
    using flash_sync_durable [OF ideal_hw_ok bdev_dirty_inv(1)] fs_start_facts(1) by auto
qed

text \<open>Once 3000 ticks have passed since the last write, a run of the interrupt handler alone
  persists everything; it never needs the caller to sync.\<close>

lemma flash_idle_flush:
  assumes "flash_hw_ok hw" "bdev_inv s" "ticks_since_write s \<ge> 3000"
  shows "\<exists>s'. flash_bdev_irq_handler hw s = Some s' \<and> flash_flags s' = 0 \<and>
     (\<forall>x. in_fs x \<longrightarrow> rom s' x = bdev_view s x)"
  using irq_handler_inv [OF assms(1,2)] assms(3) by (auto simp: bdev_inv_def)

lemma flash_idle_flush_witness:
  "\<exists>s'. flash_bdev_irq_handler ideal_hw (bdev_dirty\<lparr>tick := 3000\<rparr>) = Some s' \<and> flash_flags s' = 0"
proof -
  have "bdev_inv (bdev_dirty\<lparr>tick := 3000\<rparr>)" by (simp add: bdev_inv_tick bdev_dirty_inv)
  moreover have "ticks_since_write (bdev_dirty\<lparr>tick := 3000\<rparr>) \<ge> 3000"
    by (simp add: ticks_since_write_def bdev_dirty_def bdev0_def)
  ultimately show ?thesis using flash_idle_flush [OF ideal_hw_ok] by blast
qed

text \<open>Between 1001 and 2999 ticks after a write, \<open>flash_cache_commit\<close> erases the sector and does
  not program it: the whole sector is blank in flash while the only copy is in RAM.  Readers still
  see the data, but a power loss in this window loses all 64 blocks of the sector.\<close>

lemma flash_commit_erases_first:
  assumes "flash_hw_ok hw" "bdev_inv s" "flash_flags s = 1"
    and "1000 < ticks_since_write s" "ticks_since_write s < 3000"
  shows "\<exists>s'. flash_cache_commit hw s = Some s' \<and> flash_flags s' = 5 \<and>
     (\<forall>x. sector_start x = flash_cache_sector_start s \<longrightarrow> rom s' x = 0xff) \<and> bdev_view s' = bdev_view s"
proof -
  have ca: "cache_addressed s" and lm: "length (flash_cache_mem s) = 0x8000"
    using assms by (auto simp: bdev_inv_def)
  have "flash_cache_commit hw s = Some (erased s)"
    using irq_handler_erased [OF assms(1) ca lm] assms(3-5)
    by (simp add: flash_cache_commit_def flag_simps)
  then show ?thesis using view_erased [OF ca] assms(3) by (simp add: erased_def flag_simps)
qed

lemma flash_commit_erases_first_witness:
  "\<exists>s'. flash_cache_commit ideal_hw bdev_dirty = Some s' \<and> rom s' FS_START = 0xff"
proof -
  have "1000 < ticks_since_write bdev_dirty" "ticks_since_write bdev_dirty < 3000" "flash_flags bdev_dirty = 1"
    by (simp_all add: ticks_since_write_def bdev_dirty_def bdev0_def)
  from flash_commit_erases_first [OF ideal_hw_ok bdev_dirty_inv(1) this(3,1,2)] show ?thesis
    using fs_start_facts(2) by (auto simp: bdev_dirty_def)
qed

text \<open>C39: when the sequencer fails to program, the sync still returns 0 and marks the cache clean,
  although the sector in flash is blank: the results of \<open>flash_erase\<close> and \<open>flash_write\<close> are dropped.\<close>

theorem flash_sync_hides_failure:
  assumes "hw_write_fails hw" "bdev_inv s" "flash_flags s \<noteq> 0"
  shows "\<exists>s'. flash_bdev_ioctl hw s BDEV_IOCTL_SYNC = Some (0, s') \<and> flash_flags s' = 0 \<and>
     (\<forall>x. sector_start x = flash_cache_sector_start s \<longrightarrow> rom s' x = 0xff)"
  using sync_failure [OF assms] .

lemma flash_sync_hides_failure_witness:
  "\<exists>s'. flash_bdev_ioctl broken_hw bdev_dirty BDEV_IOCTL_SYNC = Some (0, s') \<and> rom s' FS_START = 0xff"
proof -
  have "flash_flags bdev_dirty \<noteq> 0" by (simp add: bdev_dirty_def)
  from flash_sync_hides_failure [OF broken_hw_fails bdev_dirty_inv(1) this] show ?thesis
    using fs_start_facts(2) by (auto simp: bdev_dirty_def)
qed

text \<open>C35: \<open>flash_write\<close> programs any byte range of blank flash, aligned or not: exactly the given bytes
  change, every unit passes the read-back comparison, and the call returns true.\<close>

theorem flash_write_programs_range:
  assumes "flash_hw_ok hw" "0 < unat n" "FS_START \<le> addr" "unat addr + unat n \<le> 0x02200000"
    and "unat n \<le> length src"
    and "\<forall>x. unat addr div 2048 * 2048 \<le> unat x \<and> unat x < (unat addr + unat n + 2047) div 2048 * 2048
           \<longrightarrow> m x = 0xff"
  shows "flash_write hw m addr src n = Some (True, mem_write m addr (take (unat n) src))"
  by (rule flash_write_ok) (use assms in \<open>simp_all add: FS_START_def word_le_nat_alt\<close>)

lemma flash_write_programs_range_witness:
  "flash_write ideal_hw (\<lambda>_. 0xff) 0x021E0064 (replicate 5000 1) 5000 =
     Some (True, mem_write (\<lambda>_. 0xff) 0x021E0064 (replicate 5000 1))"
  using flash_write_programs_range [OF ideal_hw_ok, of 5000 "0x021E0064" "replicate 5000 1" "\<lambda>_. 0xff"]
  by (simp add: FS_START_def)

text \<open>Extended writes then reads of any byte range of the device, across blocks and sectors, return
  the bytes written and disturb no byte outside the range.\<close>

lemma flash_ext_roundtrip:
  assumes "flash_hw_ok hw" "bdev_inv s" "unat offset < 512"
    and "unat block * 512 + unat offset + unat n \<le> 256 * 512"
    and "length src = unat n" "length dest = unat n"
  shows "\<exists>s'. flash_bdev_writeblocks_ext hw s src 0 block offset n = Some (0, s') \<and> bdev_inv s' \<and>
     flash_bdev_readblocks_ext s' dest 0 block offset n = Some (0, src) \<and>
     (\<forall>x. in_fs x \<longrightarrow> \<not> unat (x - (block_addr block + offset)) < unat n \<longrightarrow> bdev_view s' x = bdev_view s x)"
proof -
  let ?a = "block_addr block + offset"
  obtain s' where s': "flash_bdev_writeblocks_ext hw s src 0 block offset n = Some (0, s')" "bdev_inv s'"
      "\<forall>x. in_fs x \<longrightarrow> bdev_view s' x = mem_write (bdev_view s) ?a src x"
    using writeblocks_ext_ok [OF assms(1-4), of 0 src] assms(5) by (auto simp: buf_read_all)
  have "mem_read (bdev_view s') ?a (unat n) = mem_read (mem_write (bdev_view s) ?a src) ?a (unat n)"
  proof (rule mem_read_cong)
    fix i assume i: "i < unat n"
    have "unat (block_addr block) = 0x021E0000 + unat block * 512"
      using assms(4) i by (intro unat_block_addr) (simp add: word_less_nat_alt)
    moreover have "unat (block_addr block + offset) = unat (block_addr block) + unat offset"
      using calculation assms(4) unat_add_nat [of "block_addr block" "unat offset"] by simp
    ultimately have "unat (?a + of_nat i) = 0x021E0000 + unat block * 512 + unat offset + i"
      using assms(4) i unat_add_nat [of ?a i] by simp
    then have "in_fs (?a + of_nat i)" using assms(4) i by (simp add: in_fs_unat)
    then show "bdev_view s' (?a + of_nat i) = mem_write (bdev_view s) ?a src (?a + of_nat i)" using s'(3) by simp
  qed
  then have "mem_read (bdev_view s') ?a (unat n) = src"
    using mem_read_write_same [of src "bdev_view s" ?a] assms(4,5) by simp
  moreover have "flash_bdev_readblocks_ext s' dest 0 block offset n =
      Some (0, buf_write dest 0 (mem_read (bdev_view s') ?a (unat n)))"
    using readblocks_ext_ok [OF s'(2) assms(3,4), of 0 dest] assms(6) by simp
  ultimately have "flash_bdev_readblocks_ext s' dest 0 block offset n = Some (0, src)"
    using assms(5,6) by (simp add: buf_write_all)
  with s' assms(5) show ?thesis by (auto simp: mem_write_def)
qed

lemma flash_ext_roundtrip_witness:
  "\<exists>s'. flash_bdev_writeblocks_ext ideal_hw bdev0 (replicate 1000 5) 0 63 100 1000 = Some (0, s') \<and>
     flash_bdev_readblocks_ext s' (replicate 1000 0) 0 63 100 1000 = Some (0, replicate 1000 5)"
  using flash_ext_roundtrip [OF ideal_hw_ok bdev0_inv, of 100 63 1000 "replicate 1000 5" "replicate 1000 0"]
  by auto

text \<open>What \<open>storage_write_blocks\<close> stores in the partition, \<open>storage_read_blocks\<close> returns.\<close>

lemma storage_write_read:
  assumes "flash_hw_ok hw" "bdev_inv s" "256 \<le> unat b" "unat b + k \<le> 512"
    and "length src = k * 512" "length dest = k * 512"
  shows "\<exists>s'. storage_write_blocks (flash_ops hw lfs) s src b (of_nat k) = Some (0, s') \<and> bdev_inv s' \<and>
     storage_read_blocks (flash_ops hw lfs) s' dest b (of_nat k) = Some (0, src)"
  using fb.write_read_blocks [of hw s b k src dest lfs] assms by auto

lemma storage_write_read_witness:
  "\<exists>s'. storage_write_blocks (flash_ops ideal_hw False) bdev0 (replicate 1024 6) 300 2 = Some (0, s') \<and>
     storage_read_blocks (flash_ops ideal_hw False) s' (replicate 1024 0) 300 2 = Some (0, replicate 1024 6)"
  using storage_write_read [OF ideal_hw_ok bdev0_inv, of 300 2 "replicate 1024 6" "replicate 1024 0" False]
  by auto

text \<open>C36: a \<open>Flash(start, len)\<close> object that the constructor accepts is block-aligned and inside the
  device.  A write of whole blocks through it, as long as it ends inside the device, succeeds, is read
  back through the object, and changes exactly the blocks that are counted from its start.  So no block
  outside the object changes when the write ends inside it; but its length is not checked, and a write
  that begins behind the end of the object succeeds and overwrites the blocks that follow.\<close>

theorem flash_object_blocks:
  assumes "flash_hw_ok hw" "bdev_inv s"
    and "pyb_flash_make_new (flash_ops hw lfs) s0 a l = Some (Inr obj)" "\<not> whole obj"
    and "length buf = m * 512" "0 < m" "unat (start obj) div 512 + unat k + m \<le> 256" "length dest = length buf"
  shows "unat (start obj) mod 512 = 0 \<and> unat (start obj) + unat (len obj) \<le> 256 * 512 \<and>
     (\<exists>s'. pyb_flash_writeblocks (flash_ops hw lfs) s obj k buf None = Some (0, s') \<and> bdev_inv s' \<and>
       pyb_flash_readblocks (flash_ops hw lfs) s' obj k dest None = Some (0, buf) \<and>
       (\<forall>c < 256. block_view s' c = object_write (block_view s) obj k m buf c) \<and>
       (unat k * 512 + length buf \<le> unat (len obj) \<longrightarrow>
         (\<forall>c < 256. unat c < unat (start obj) div 512 \<or> (unat (start obj) + unat (len obj)) div 512 \<le> unat c \<longrightarrow>
           block_view s' c = block_view s c)) \<and>
       (unat (len obj) \<le> unat k * 512 \<longrightarrow>
         (\<forall>c < 256. unat (start obj) div 512 + unat k = unat c \<longrightarrow>
           (unat (start obj) + unat (len obj)) div 512 \<le> unat c \<and> block_view s' c = take 512 buf)))"
proof -
  note b = make_new_bounds [OF assms(3,4)]
  obtain s' where s': "pyb_flash_writeblocks (flash_ops hw lfs) s obj k buf None = Some (0, s')" "bdev_inv s'"
    "pyb_flash_readblocks (flash_ops hw lfs) s' obj k dest None = Some (0, buf)"
    "\<forall>c < 256. block_view s' c = object_write (block_view s) obj k m buf c"
    using flash_obj_write_read [OF assms] by blast
  have e: "(unat (start obj) + unat (len obj)) div 512 = unat (start obj) div 512 + unat (len obj) div 512"
    using b(1) by (intro div_plus_div_distrib_dvd_left) (simp add: mod_eq_0_iff_dvd)
  have ld: "unat (len obj) = unat (len obj) div 512 * 512" using b(2) by (simp add: minus_mod_eq_div_mult [symmetric])
  have "block_view s' c = block_view s c" if "c < 256" "unat k * 512 + length buf \<le> unat (len obj)"
      "unat c < unat (start obj) div 512 \<or> (unat (start obj) + unat (len obj)) div 512 \<le> unat c" for c
  proof -
    have "unat k + m \<le> unat (len obj) div 512" using that(2) assms(5) ld by linarith
    then show ?thesis using s'(4) that(1,3) unfolding e object_write_def Let_def by auto
  qed
  moreover have "(unat (start obj) + unat (len obj)) div 512 \<le> unat c \<and> block_view s' c = take 512 buf"
    if "c < 256" "unat (len obj) \<le> unat k * 512" "unat (start obj) div 512 + unat k = unat c" for c
  proof -
    have "unat (len obj) div 512 \<le> unat k" using that(2) ld by linarith
    moreover have "block_view s' c = object_write (block_view s) obj k m buf c" using s'(4) that(1) by blast
    ultimately show ?thesis using that(3) assms(6) unfolding e object_write_def Let_def by (simp add: buf_read_def)
  qed
  ultimately show ?thesis using s' b(1,3) by (intro conjI exI [of _ s']) blast+
qed

theorem flash_object_blocks_witness:
  "\<exists>s'. pyb_flash_writeblocks (flash_ops ideal_hw False) bdev0 \<lparr>whole = False, start = 1024, len = 2048\<rparr> 5 (replicate 512 4) None
     = Some (0, s') \<and> block_view s' 7 = replicate 512 4 \<and> block_view s' 8 = block_view bdev0 8"
proof -
  have "pyb_flash_make_new (flash_ops ideal_hw False) bdev0 1024 2048 = Some (Inr \<lparr>whole = False, start = 1024, len = 2048\<rparr>)"
    by (simp add: pyb_flash_make_new_def fb.block_count FLASH_BLOCK_SIZE_def)
  from flash_object_blocks [OF ideal_hw_ok bdev0_inv this, of "replicate 512 4" 1 5 "replicate 512 0"] show ?thesis
    by (auto simp: object_write_def buf_read_def)
qed

end
