(* ===== verification/Objects.thy ===== *)
theory Objects
  imports Prelude
begin

text \<open>
  What \<open>py/map.c\<close> and its clients know of a Python object: the machine word \<open>mp_obj_t\<close>
  (representation A of \<open>py/obj.h\<close>) with its two reserved values, and what the object's type
  answers, which is dispatched at run time and may be user code: equality, hash, being an exact
  \<open>str\<close>.  These answers, and whether an allocation succeeds, are the record \<open>obj_env\<close>; the laws the
  hash tables rely on are \<open>env_ok\<close>.  The second half is linear probing over the key column of a
  table, the search that maps and sets share, with the invariant that makes it complete.
\<close>

section \<open>Objects\<close>

type_synonym mp_obj_t = u32

definition MP_OBJ_NULL :: mp_obj_t where "MP_OBJ_NULL = 0"
definition MP_OBJ_SENTINEL :: mp_obj_t where "MP_OBJ_SENTINEL = 4"

definition mp_obj_is_qstr :: "mp_obj_t \<Rightarrow> bool" where
  "mp_obj_is_qstr obj \<longleftrightarrow> obj AND 7 = 2"

definition MP_OBJ_QSTR_VALUE :: "mp_obj_t \<Rightarrow> u32" where
  "MP_OBJ_QSTR_VALUE obj = drop_bit 3 obj"

text \<open>A key column entry that is in use: \<open>mp_map_slot_is_filled\<close> and \<open>mp_set_slot_is_filled\<close>.\<close>

definition slot_is_filled :: "mp_obj_t \<Rightarrow> bool" where
  "slot_is_filled k \<longleftrightarrow> k \<noteq> MP_OBJ_NULL \<and> k \<noteq> MP_OBJ_SENTINEL"

lemma slot_unfilled [simp]: "\<not> slot_is_filled MP_OBJ_NULL" "\<not> slot_is_filled MP_OBJ_SENTINEL"
  by (simp_all add: slot_is_filled_def)

lemma filled_not_null: "slot_is_filled k \<Longrightarrow> k \<noteq> MP_OBJ_NULL"
  by (simp add: slot_is_filled_def)

record obj_env =
  is_exact_str :: "mp_obj_t \<Rightarrow> bool"          \<comment> \<open>\<open>mp_obj_is_exact_type(obj, &mp_type_str)\<close>\<close>
  obj_equal :: "mp_obj_t \<Rightarrow> mp_obj_t \<Rightarrow> bool" \<comment> \<open>\<open>mp_obj_equal\<close>\<close>
  obj_hash :: "mp_obj_t \<Rightarrow> u32"               \<comment> \<open>\<open>MP_OBJ_SMALL_INT_VALUE(mp_unary_op(MP_UNARY_OP_HASH, obj))\<close>\<close>
  qstr_hash :: "u32 \<Rightarrow> u32"                    \<comment> \<open>\<open>qstr_hash\<close>\<close>
  m_new_ok :: "nat \<Rightarrow> bool"                    \<comment> \<open>an allocation of this many elements succeeds\<close>

text \<open>Two keys are the same for a table when they are the same object or compare equal.\<close>

definition same :: "obj_env \<Rightarrow> mp_obj_t \<Rightarrow> mp_obj_t \<Rightarrow> bool" where
  "same E a b \<longleftrightarrow> a = b \<or> obj_equal E a b"

text \<open>The hash, with the fast path for interned strings.\<close>

definition map_hash :: "obj_env \<Rightarrow> mp_obj_t \<Rightarrow> u32" where
  "map_hash E index =
     (if mp_obj_is_qstr index then qstr_hash E (MP_OBJ_QSTR_VALUE index) else obj_hash E index)"

text \<open>The contract on keys: equality is symmetric and transitive, equal objects have equal hashes,
  the interned hash is the object's hash, interned strings are equal only when identical, and an
  object that is neither interned nor an exact \<open>str\<close> equals no interned string.\<close>

definition env_ok :: "obj_env \<Rightarrow> bool" where
  "env_ok E \<longleftrightarrow>
     (\<forall>a b. obj_equal E a b \<longrightarrow> obj_equal E b a) \<and>
     (\<forall>a b c. obj_equal E a b \<longrightarrow> obj_equal E b c \<longrightarrow> same E a c) \<and>
     (\<forall>a b. obj_equal E a b \<longrightarrow> obj_hash E a = obj_hash E b) \<and>
     (\<forall>a. mp_obj_is_qstr a \<longrightarrow> qstr_hash E (MP_OBJ_QSTR_VALUE a) = obj_hash E a) \<and>
     (\<forall>a b. mp_obj_is_qstr a \<longrightarrow> mp_obj_is_qstr b \<longrightarrow> obj_equal E a b \<longrightarrow> a = b) \<and>
     (\<forall>a b. mp_obj_is_qstr a \<longrightarrow> \<not> mp_obj_is_qstr b \<longrightarrow> \<not> is_exact_str E b \<longrightarrow> \<not> obj_equal E a b)"

lemma same_refl [simp]: "same E a a"
  by (simp add: same_def)

lemma same_sym: "env_ok E \<Longrightarrow> same E a b \<Longrightarrow> same E b a"
  by (auto simp: env_ok_def same_def)

lemma same_sym_iff: "env_ok E \<Longrightarrow> same E a b = same E b a"
  using same_sym by blast

lemma same_trans: "env_ok E \<Longrightarrow> same E a b \<Longrightarrow> same E b c \<Longrightarrow> same E a c"
  unfolding env_ok_def same_def by metis

lemma same_hash:
  assumes "env_ok E" "same E a b"
  shows "obj_hash E a = obj_hash E b"
  using assms by (auto simp: env_ok_def same_def)

lemma map_hash_eq: "env_ok E \<Longrightarrow> map_hash E k = obj_hash E k"
  by (simp add: env_ok_def map_hash_def)

text \<open>An environment that satisfies the contract: objects are equal when identical.\<close>

definition ptr_env :: obj_env where
  "ptr_env = \<lparr>is_exact_str = (\<lambda>_. False), obj_equal = (\<lambda>a b. a = b), obj_hash = (\<lambda>k. drop_bit 3 k),
     qstr_hash = (\<lambda>q. q), m_new_ok = (\<lambda>_. True)\<rparr>"

lemma ptr_env_ok: "env_ok ptr_env"
  by (auto simp: env_ok_def ptr_env_def same_def MP_OBJ_QSTR_VALUE_def)

section \<open>Sizes of a table\<close>

definition hash_allocation_sizes :: "nat list" where
  "hash_allocation_sizes =
    [0, 2, 4, 6, 8, 10, 12,
     17, 23, 29, 37, 47, 59, 73,
     97, 127, 167, 223, 293, 389, 521, 691, 919, 1223, 1627, 2161,
     3229, 4831, 7243, 10861, 16273, 24407, 36607, 54907]"

definition get_hash_alloc_greater_or_equal_to :: "nat \<Rightarrow> nat" where
  "get_hash_alloc_greater_or_equal_to x =
     (case find (\<lambda>s. s \<ge> x) hash_allocation_sizes of
        Some s \<Rightarrow> s
      | None \<Rightarrow> (x + x div 2) OR 1)"

lemma or_1_ge: "(x :: nat) \<le> x OR 1"
  by (metis or_nat_def le_nat_iff of_nat_0_le_iff of_nat_1 OR_lower int_ops(2) zero_le_one or_greater_eq)

lemma get_hash_alloc_ge: "x \<le> get_hash_alloc_greater_or_equal_to x"
proof (cases "find (\<lambda>s. s \<ge> x) hash_allocation_sizes")
  case None
  have "x \<le> x + x div 2" by simp
  also have "\<dots> \<le> (x + x div 2) OR 1" by (rule or_1_ge)
  finally show ?thesis using None by (simp add: get_hash_alloc_greater_or_equal_to_def)
next
  case (Some s)
  then have "x \<le> s" by (auto simp: find_Some_iff)
  with Some show ?thesis by (simp add: get_hash_alloc_greater_or_equal_to_def)
qed

section \<open>Linear probing\<close>

text \<open>One turn around the key column from \<open>pos\<close>, \<open>k\<close> slots to go.  \<open>avail\<close> is the first deleted slot
  seen.  The outcome: the slot of a matching key; an empty slot reached, with the slot to insert at;
  back at the start, with the slot to insert at, if any; or a slot outside the array.\<close>

datatype probe_result = ProbeFound nat | ProbeNull nat | ProbeFull "nat option" | ProbeBad

fun probe :: "(mp_obj_t \<Rightarrow> bool) \<Rightarrow> mp_obj_t list \<Rightarrow> nat \<Rightarrow> nat \<Rightarrow> nat \<Rightarrow> nat option \<Rightarrow> probe_result" where
  "probe eq ks n pos 0 avail = ProbeFull avail"
| "probe eq ks n pos (Suc k) avail =
     (if length ks \<le> pos then ProbeBad
      else if ks ! pos = MP_OBJ_NULL then ProbeNull (case avail of None \<Rightarrow> pos | Some a \<Rightarrow> a)
      else if ks ! pos = MP_OBJ_SENTINEL
      then probe eq ks n ((pos + 1) mod n) k (case avail of None \<Rightarrow> Some pos | Some a \<Rightarrow> Some a)
      else if eq (ks ! pos) then ProbeFound pos
      else probe eq ks n ((pos + 1) mod n) k avail)"

text \<open>The key a deleted slot gets: empty when the next slot is empty, else the sentinel.\<close>

definition deleted_key :: "mp_obj_t list \<Rightarrow> nat \<Rightarrow> nat \<Rightarrow> mp_obj_t" where
  "deleted_key ks n pos = (if ks ! ((pos + 1) mod n) = MP_OBJ_NULL then MP_OBJ_NULL else MP_OBJ_SENTINEL)"

lemma deleted_key_unfilled [simp]: "\<not> slot_is_filled (deleted_key ks n pos)"
  by (simp add: deleted_key_def)

text \<open>Every key is reached from its hash without passing an empty slot.\<close>

definition chain_ok :: "(mp_obj_t \<Rightarrow> nat) \<Rightarrow> mp_obj_t list \<Rightarrow> bool" where
  "chain_ok h ks \<longleftrightarrow>
     (\<forall>p < length ks. slot_is_filled (ks ! p) \<longrightarrow>
        (\<exists>d < length ks. p = (h (ks ! p) + d) mod length ks \<and>
           (\<forall>l < d. ks ! ((h (ks ! p) + l) mod length ks) \<noteq> MP_OBJ_NULL)))"

text \<open>Passing the slot at distance \<open>l\<close> from \<open>s\<close>.\<close>

definition passes :: "(mp_obj_t \<Rightarrow> bool) \<Rightarrow> mp_obj_t list \<Rightarrow> nat \<Rightarrow> nat \<Rightarrow> bool" where
  "passes eq ks s l \<longleftrightarrow>
     ks ! ((s + l) mod length ks) \<noteq> MP_OBJ_NULL \<and>
     \<not> (slot_is_filled (ks ! ((s + l) mod length ks)) \<and> eq (ks ! ((s + l) mod length ks)))"

definition slot_at :: "mp_obj_t list \<Rightarrow> nat \<Rightarrow> nat \<Rightarrow> nat" where
  "slot_at ks s l = (s + l) mod length ks"

definition free_upto :: "mp_obj_t list \<Rightarrow> nat \<Rightarrow> nat \<Rightarrow> nat \<Rightarrow> bool" where
  "free_upto ks s j a \<longleftrightarrow> (\<exists>l < j. a = slot_at ks s l \<and> \<not> slot_is_filled (ks ! a))"

fun probe_post :: "(mp_obj_t \<Rightarrow> bool) \<Rightarrow> mp_obj_t list \<Rightarrow> nat \<Rightarrow> probe_result \<Rightarrow> bool" where
  "probe_post eq ks s ProbeBad = False"
| "probe_post eq ks s (ProbeFound p) = (p < length ks \<and> slot_is_filled (ks ! p) \<and> eq (ks ! p))"
| "probe_post eq ks s (ProbeNull a) =
     (\<exists>j < length ks. ks ! slot_at ks s j = MP_OBJ_NULL \<and> (\<forall>l < j. passes eq ks s l) \<and> free_upto ks s (Suc j) a)"
| "probe_post eq ks s (ProbeFull r) =
     ((\<forall>l < length ks. passes eq ks s l) \<and>
      (case r of None \<Rightarrow> \<forall>l < length ks. slot_is_filled (ks ! slot_at ks s l)
       | Some a \<Rightarrow> free_upto ks s (length ks) a))"

text \<open>What \<open>avail\<close> means after \<open>i\<close> slots.\<close>

definition avail_ok :: "mp_obj_t list \<Rightarrow> nat \<Rightarrow> nat \<Rightarrow> nat option \<Rightarrow> bool" where
  "avail_ok ks s i avail \<longleftrightarrow>
     (case avail of None \<Rightarrow> \<forall>l < i. slot_is_filled (ks ! slot_at ks s l) | Some a \<Rightarrow> free_upto ks s i a)"

lemma free_upto_mono: "free_upto ks s i a \<Longrightarrow> i \<le> j \<Longrightarrow> free_upto ks s j a"
  unfolding free_upto_def using less_le_trans by blast

lemma avail_ok_filled: "avail_ok ks s i avail \<Longrightarrow> slot_is_filled (ks ! slot_at ks s i) \<Longrightarrow> avail_ok ks s (Suc i) avail"
  using free_upto_mono [of ks s i _ "Suc i"] by (cases avail) (auto simp: avail_ok_def less_Suc_eq)

lemma avail_ok_free:
  "avail_ok ks s i avail \<Longrightarrow> \<not> slot_is_filled (ks ! slot_at ks s i) \<Longrightarrow>
   avail_ok ks s (Suc i) (case avail of None \<Rightarrow> Some (slot_at ks s i) | Some a \<Rightarrow> Some a)"
  by (auto simp: avail_ok_def free_upto_def less_Suc_eq split: option.splits)

lemma avail_ok_choose:
  "avail_ok ks s i avail \<Longrightarrow> \<not> slot_is_filled (ks ! slot_at ks s i) \<Longrightarrow>
   free_upto ks s (Suc i) (case avail of None \<Rightarrow> slot_at ks s i | Some a \<Rightarrow> a)"
  by (auto simp: avail_ok_def free_upto_def less_Suc_eq split: option.splits)

lemma probe_spec_gen:
  assumes "i + k = length ks" "0 < length ks" "avail_ok ks s i avail" "\<forall>l < i. passes eq ks s l"
  shows "probe_post eq ks s (probe eq ks (length ks) (slot_at ks s i) k avail)"
  using assms
proof (induction k arbitrary: i avail)
  case 0
  then show ?case by (auto simp: avail_ok_def)
next
  case (Suc k)
  let ?p = "slot_at ks s i"
  have p: "?p < length ks" "Suc ?p mod length ks = slot_at ks s (Suc i)" "i < length ks"
    using Suc.prems by (simp_all add: mod_Suc_eq slot_at_def)
  have IH: "avail_ok ks s (Suc i) av \<Longrightarrow> passes eq ks s i \<Longrightarrow>
      probe_post eq ks s (probe eq ks (length ks) (slot_at ks s (Suc i)) k av)" for av
    using Suc.IH [of "Suc i" av] Suc.prems by (simp add: less_Suc_eq)
  show ?case
  proof (cases "slot_is_filled (ks ! ?p)")
    case True
    show ?thesis
    proof (cases "eq (ks ! ?p)")
      case True
      then show ?thesis using p \<open>slot_is_filled (ks ! ?p)\<close> by (simp add: slot_is_filled_def)
    next
      case False
      then have "passes eq ks s i" using True by (simp add: passes_def filled_not_null slot_at_def [symmetric])
      from IH [OF avail_ok_filled [OF Suc.prems(3) True] this] False True p
      show ?thesis by (simp add: slot_is_filled_def)
    qed
  next
    case free: False
    show ?thesis
    proof (cases "ks ! ?p = MP_OBJ_NULL")
      case True
      then show ?thesis
        using p Suc.prems(4) avail_ok_choose [OF Suc.prems(3) free] by auto
    next
      case False
      then have "passes eq ks s i" using free by (simp add: passes_def slot_at_def [symmetric])
      from IH [OF avail_ok_free [OF Suc.prems(3) free] this] False free p
      show ?thesis by (simp add: slot_is_filled_def)
    qed
  qed
qed

lemma probe_spec:
  assumes "0 < length ks"
  shows "probe_post eq ks s (probe eq ks (length ks) (s mod length ks) (length ks) None)"
  using probe_spec_gen [where i = 0 and k = "length ks" and ks = ks and avail = None and s = s and eq = eq] assms by (simp add: avail_ok_def slot_at_def)

section \<open>Completeness of the search\<close>

text \<open>A present key cannot be passed: the search meets it before any empty slot.\<close>

lemma chain_found:
  assumes "chain_ok h ks" "p < length ks" "slot_is_filled (ks ! p)" "eq (ks ! p)" "h (ks ! p) = s"
  shows "\<exists>q. probe eq ks (length ks) (s mod length ks) (length ks) None = ProbeFound q"
proof -
  obtain d where d: "d < length ks" "p = slot_at ks s d" "\<forall>l < d. ks ! slot_at ks s l \<noteq> MP_OBJ_NULL"
    using assms by (auto simp: chain_ok_def slot_at_def)
  have np: "\<not> passes eq ks s d" using assms d by (simp add: passes_def slot_at_def)
  have "0 < length ks" using assms(2) by auto
  note post = probe_spec [OF this, of eq s]
  show ?thesis
  proof (cases "probe eq ks (length ks) (s mod length ks) (length ks) None")
    case (ProbeNull a)
    then obtain j where "ks ! slot_at ks s j = MP_OBJ_NULL" "\<forall>l < j. passes eq ks s l" using post by auto
    then have "j < d \<or> j = d" using np by (metis linorder_neqE_nat)
    then show ?thesis using d(3) \<open>ks ! slot_at ks s j = MP_OBJ_NULL\<close> assms(3) d(2) by auto
  qed (use post np d in auto)
qed

lemma free_upto_lt: "free_upto ks s j a \<Longrightarrow> 0 < length ks \<Longrightarrow> a < length ks \<and> \<not> slot_is_filled (ks ! a)"
  by (auto simp: free_upto_def slot_at_def)

text \<open>A key stored in a slot that its search reaches is found again, and so are all others.\<close>

lemma chain_insert:
  assumes "chain_ok h ks" "0 < length ks" "slot_is_filled k" "j < length ks"
    and "free_upto ks (h k) (Suc j) a" "\<forall>l < j. ks ! slot_at ks (h k) l \<noteq> MP_OBJ_NULL"
  shows "chain_ok h (ks[a := k])"
  unfolding chain_ok_def
proof (intro allI impI)
  fix p assume p: "p < length (ks[a := k])" "slot_is_filled (ks[a := k] ! p)"
  have keep: "ks ! x \<noteq> MP_OBJ_NULL \<Longrightarrow> ks[a := k] ! x \<noteq> MP_OBJ_NULL" for x
    using assms(3) by (cases "a < length ks") (auto simp: nth_list_update filled_not_null not_less list_update_beyond)
  show "\<exists>d < length (ks[a := k]). p = (h (ks[a := k] ! p) + d) mod length (ks[a := k]) \<and>
      (\<forall>l < d. ks[a := k] ! ((h (ks[a := k] ! p) + l) mod length (ks[a := k])) \<noteq> MP_OBJ_NULL)"
  proof (cases "p = a")
    case True
    from assms(5) obtain l where l: "l < Suc j" "a = slot_at ks (h k) l" by (auto simp: free_upto_def)
    have "\<forall>l' < l. ks[a := k] ! slot_at ks (h k) l' \<noteq> MP_OBJ_NULL" using l(1) assms(6) keep by auto
    then show ?thesis using True l assms(4) p by (intro exI [of _ l]) (auto simp: slot_at_def)
  next
    case False
    with assms(1) p obtain d where "d < length ks" "p = (h (ks ! p) + d) mod length ks"
      "\<forall>l < d. ks ! ((h (ks ! p) + l) mod length ks) \<noteq> MP_OBJ_NULL"
      by (auto simp: chain_ok_def)
    then show ?thesis using False keep by (intro exI [of _ d]) auto
  qed
qed

lemma chain_remove:
  assumes "chain_ok h ks" "p < length ks"
  shows "chain_ok h (ks[p := deleted_key ks (length ks) p])"
  unfolding chain_ok_def
proof (intro allI impI)
  let ?n = "length ks" and ?dk = "deleted_key ks (length ks) p"
  fix q assume q: "q < length (ks[p := ?dk])" "slot_is_filled (ks[p := ?dk] ! q)"
  then have ne: "q \<noteq> p" by auto
  let ?s = "h (ks ! q)"
  from assms(1) q ne obtain d where d: "d < ?n" "q = slot_at ks ?s d" "\<forall>l < d. ks ! slot_at ks ?s l \<noteq> MP_OBJ_NULL"
    by (auto simp: chain_ok_def slot_at_def)
  have "ks[p := ?dk] ! slot_at ks ?s l \<noteq> MP_OBJ_NULL" if l: "l < d" for l
  proof (cases "slot_at ks ?s l = p")
    case True
    then have nx: "(p + 1) mod ?n = slot_at ks ?s (Suc l)" by (auto simp: slot_at_def mod_Suc_eq)
    have "ks ! slot_at ks ?s (Suc l) \<noteq> MP_OBJ_NULL"
    proof (cases "Suc l = d")
      case True
      then show ?thesis using d(2) q ne by (auto simp: filled_not_null)
    next
      case False
      then show ?thesis using d(3) l by auto
    qed
    then have "?dk = MP_OBJ_SENTINEL" using nx by (simp add: deleted_key_def)
    then show ?thesis using True assms(2) by (simp add: MP_OBJ_SENTINEL_def MP_OBJ_NULL_def)
  next
    case False
    then show ?thesis using d(3) l by simp
  qed
  then show "\<exists>d < length (ks[p := ?dk]). q = (h (ks[p := ?dk] ! q) + d) mod length (ks[p := ?dk]) \<and>
      (\<forall>l < d. ks[p := ?dk] ! ((h (ks[p := ?dk] ! q) + l) mod length (ks[p := ?dk])) \<noteq> MP_OBJ_NULL)"
    using d ne by (intro exI [of _ d]) (auto simp: slot_at_def)
qed

text \<open>The outcome for an absent key: there is a slot to insert at, unless every slot is in use.\<close>

lemma probe_absent:
  assumes "0 < length ks" "\<forall>p < length ks. slot_is_filled (ks ! p) \<longrightarrow> \<not> eq (ks ! p)"
  shows "(\<exists>a j. probe eq ks (length ks) (s mod length ks) (length ks) None = ProbeNull a \<and>
            j < length ks \<and> free_upto ks s (Suc j) a \<and> (\<forall>l < j. ks ! slot_at ks s l \<noteq> MP_OBJ_NULL)) \<or>
         (\<exists>a. probe eq ks (length ks) (s mod length ks) (length ks) None = ProbeFull (Some a) \<and>
            free_upto ks s (length ks) a \<and> (\<forall>l < length ks. ks ! slot_at ks s l \<noteq> MP_OBJ_NULL)) \<or>
         (probe eq ks (length ks) (s mod length ks) (length ks) None = ProbeFull None \<and>
            (\<forall>l < length ks. slot_is_filled (ks ! slot_at ks s l)))"
proof (cases "probe eq ks (length ks) (s mod length ks) (length ks) None")
  case (ProbeFound p)
  with probe_spec [OF assms(1), of eq s] assms(2) show ?thesis by auto
next
  case (ProbeNull a)
  with probe_spec [OF assms(1), of eq s] show ?thesis by (auto simp: passes_def slot_at_def)
next
  case (ProbeFull r)
  with probe_spec [OF assms(1), of eq s] show ?thesis
    by (cases r) (auto simp: passes_def slot_at_def)
qed (use probe_spec [OF assms(1), of eq s] in simp)

text \<open>All slots of a turn in use means the whole column is.\<close>

lemma slot_at_onto: "p < length ks \<Longrightarrow> \<exists>l < length ks. p = slot_at ks s l"
proof -
  assume p: "p < length ks"
  let ?n = "length ks"
  let ?l = "(p + (?n - s mod ?n)) mod ?n"
  have "(s + ?l) mod ?n = (s mod ?n + (p + (?n - s mod ?n))) mod ?n"
    by (simp add: mod_add_left_eq mod_add_right_eq)
  also have "s mod ?n + (p + (?n - s mod ?n)) = p + ?n"
    using p mod_less_divisor [of ?n s] by linarith
  finally have "(s + ?l) mod ?n = p" using p by simp
  moreover have "?l < ?n" using p by (intro mod_less_divisor) auto
  ultimately show ?thesis by (metis slot_at_def)
qed

end
