(* ===== verification/HashMap.thy ===== *)
theory HashMap
  imports Objects "HOL-Library.Multiset"
begin

text \<open>
  The map of \<open>py/map.c\<close>: a hash table with linear probing and deletion marks, or an ordered array,
  behind one \<open>mp_map_lookup\<close> that finds, adds or removes, with the lookup cache shared by all maps.
  A pointer to a slot is the slot's index.  \<open>mp_map_lookup\<close> and \<open>mp_map_rehash\<close> call each other; the
  first argument bounds that nesting (three levels are enough, \<open>lookup_add_ok\<close>).  The content of a
  map is the multiset of its entries; every operation is specified by what it does to the content.
\<close>

section \<open>State\<close>

record mp_map_elem_t =
  elem_key :: mp_obj_t
  elem_value :: mp_obj_t

record mp_map_t =
  all_keys_are_qstrs :: bool
  is_fixed :: bool
  is_ordered :: bool
  used :: nat
  alloc :: nat
  table :: "mp_map_elem_t list"

datatype mp_map_lookup_kind_t =
    MP_MAP_LOOKUP | MP_MAP_LOOKUP_ADD_IF_NOT_FOUND | MP_MAP_LOOKUP_REMOVE_IF_FOUND
  | MP_MAP_LOOKUP_ADD_IF_NOT_FOUND_OR_REMOVE_IF_FOUND

text \<open>What ends a lookup early: the exception of a failed allocation, an access outside the table,
  or the bound on the nesting.\<close>

datatype map_error = MemoryError | BadAccess | NoFuel

type_synonym map_cache = bytes

abbreviation null_elem :: mp_map_elem_t where
  "null_elem \<equiv> \<lparr>elem_key = MP_OBJ_NULL, elem_value = MP_OBJ_NULL\<rparr>"

abbreviation keys_of :: "mp_map_t \<Rightarrow> mp_obj_t list" where
  "keys_of m \<equiv> map elem_key (table m)"

section \<open>The lookup cache\<close>

definition MAP_CACHE_OFFSET :: "mp_obj_t \<Rightarrow> nat" where
  "MAP_CACHE_OFFSET index = unat (drop_bit 2 index) mod 128"

definition MAP_CACHE_GET :: "mp_map_t \<Rightarrow> map_cache \<Rightarrow> mp_obj_t \<Rightarrow> nat" where
  "MAP_CACHE_GET m c index = unat (c ! MAP_CACHE_OFFSET index) mod alloc m"

definition MAP_CACHE_SET :: "map_cache \<Rightarrow> mp_obj_t \<Rightarrow> nat \<Rightarrow> map_cache" where
  "MAP_CACHE_SET c index pos = c[MAP_CACHE_OFFSET index := of_nat pos]"

section \<open>Construction and clearing\<close>

definition mp_map_init :: "obj_env \<Rightarrow> nat \<Rightarrow> mp_map_t option" where
  "mp_map_init E n =
     (if n = 0 then
        Some \<lparr>all_keys_are_qstrs = True, is_fixed = False, is_ordered = False, used = 0, alloc = 0, table = []\<rparr>
      else if m_new_ok E n then
        Some \<lparr>all_keys_are_qstrs = True, is_fixed = False, is_ordered = False, used = 0, alloc = n,
              table = replicate n null_elem\<rparr>
      else None)"

definition mp_map_init_fixed_table :: "mp_map_elem_t list \<Rightarrow> mp_map_t" where
  "mp_map_init_fixed_table tab =
     \<lparr>all_keys_are_qstrs = True, is_fixed = True, is_ordered = True, used = length tab, alloc = length tab, table = tab\<rparr>"

definition mp_map_deinit :: "mp_map_t \<Rightarrow> mp_map_t" where
  "mp_map_deinit m = m\<lparr>table := (if is_fixed m then table m else []), used := 0, alloc := 0\<rparr>"

definition mp_map_clear :: "mp_map_t \<Rightarrow> mp_map_t" where
  "mp_map_clear m = m\<lparr>alloc := 0, used := 0, all_keys_are_qstrs := True, is_fixed := False, table := []\<rparr>"

section \<open>Lookup\<close>

type_synonym lookup_result = "(map_error + nat option) \<times> mp_map_t \<times> map_cache"

text \<open>The new entry: \<open>used + 1\<close>, the key stored, the value \<open>MP_OBJ_NULL\<close>, the qstr flag updated.\<close>

definition insert_at :: "mp_map_t \<Rightarrow> nat \<Rightarrow> mp_obj_t \<Rightarrow> mp_map_t" where
  "insert_at m a index =
     m\<lparr>used := used m + 1, table := (table m)[a := \<lparr>elem_key = index, elem_value = MP_OBJ_NULL\<rparr>],
       all_keys_are_qstrs := (if \<not> mp_obj_is_qstr index then False else all_keys_are_qstrs m)\<rparr>"

text \<open>The brute-force search of an ordered map over \<open>table[i .. used)\<close>, \<open>k\<close> entries to go.\<close>

datatype linear_result = LinearFound nat | LinearNone | LinearBad

fun linear_search :: "(mp_obj_t \<Rightarrow> bool) \<Rightarrow> mp_map_elem_t list \<Rightarrow> nat \<Rightarrow> nat \<Rightarrow> linear_result" where
  "linear_search eq t i 0 = LinearNone"
| "linear_search eq t i (Suc k) =
     (if length t \<le> i then LinearBad
      else if eq (elem_key (t ! i)) then LinearFound i
      else linear_search eq t (i + 1) k)"

text \<open>Removal from an ordered map: the entries behind move down, the removed one is put after the end
  with its key cleared, so that the caller can still read its value.\<close>

definition ordered_remove :: "mp_map_t \<Rightarrow> nat \<Rightarrow> mp_map_t" where
  "ordered_remove m i =
     (let v = elem_value (table m ! i);
          u = used m - 1;
          t = buf_write (table m) i (buf_read (table m) (i + 1) (used m - i - 1))
      in m\<lparr>used := u, table := t[u := \<lparr>elem_key = MP_OBJ_NULL, elem_value = v\<rparr>]\<rparr>)"

text \<open>Appending to an ordered map.  \<open>alloc\<close> is raised before \<open>m_renew\<close> is called, so it stays raised
  when \<open>m_renew\<close> raises \<open>MemoryError\<close>.\<close>

definition ordered_add :: "obj_env \<Rightarrow> map_cache \<Rightarrow> mp_map_t \<Rightarrow> mp_obj_t \<Rightarrow> lookup_result" where
  "ordered_add E c m index =
     (let m1 = (if used m = alloc m then m\<lparr>alloc := alloc m + 4\<rparr> else m) in
      if used m = alloc m \<and> \<not> m_new_ok E (alloc m1) then (Inl MemoryError, m1, c)
      else
        let m2 = (if used m = alloc m
                  then m1\<lparr>table := take (used m) (table m) @ replicate (alloc m1 - used m) null_elem\<rparr>
                  else m1)
        in if length (table m2) \<le> used m2 then (Inl BadAccess, m2, c)
           else (Inr (Some (used m2)), insert_at m2 (used m2) index, c))"

definition ordered_lookup ::
  "obj_env \<Rightarrow> (mp_obj_t \<Rightarrow> bool) \<Rightarrow> map_cache \<Rightarrow> mp_map_t \<Rightarrow> mp_obj_t \<Rightarrow> mp_map_lookup_kind_t \<Rightarrow> lookup_result" where
  "ordered_lookup E eq c m index kind =
     (case linear_search eq (table m) 0 (used m) of
        LinearFound i \<Rightarrow>
          (if kind = MP_MAP_LOOKUP_REMOVE_IF_FOUND
           then (Inr (Some (used m - 1)), ordered_remove m i, MAP_CACHE_SET c index (used m - 1))
           else (Inr (Some i), m, MAP_CACHE_SET c index i))
      | LinearNone \<Rightarrow>
          (if kind \<noteq> MP_MAP_LOOKUP_ADD_IF_NOT_FOUND then (Inr None, m, c) else ordered_add E c m index)
      | LinearBad \<Rightarrow> (Inl BadAccess, m, c))"

text \<open>\<open>mp_map_rehash\<close>: the entries are looked up one by one in the new table with
  \<open>MP_MAP_LOOKUP_ADD_IF_NOT_FOUND\<close> (the argument \<open>look\<close>) and their values stored.\<close>

definition store_value :: "mp_map_t \<Rightarrow> nat \<Rightarrow> mp_obj_t \<Rightarrow> mp_map_t" where
  "store_value m i v = m\<lparr>table := (table m)[i := (table m ! i)\<lparr>elem_value := v\<rparr>]\<rparr>"

fun rehash_loop ::
  "(map_cache \<Rightarrow> mp_map_t \<Rightarrow> mp_obj_t \<Rightarrow> lookup_result) \<Rightarrow> mp_map_elem_t list \<Rightarrow> map_cache \<Rightarrow> mp_map_t \<Rightarrow>
   (map_error + unit) \<times> mp_map_t \<times> map_cache" where
  "rehash_loop look [] c m = (Inr (), m, c)"
| "rehash_loop look (e # es) c m =
     (if slot_is_filled (elem_key e) then
        (case look c m (elem_key e) of
           (Inl err, m', c') \<Rightarrow> (Inl err, m', c')
         | (Inr None, m', c') \<Rightarrow> (Inl BadAccess, m', c')
         | (Inr (Some i), m', c') \<Rightarrow>
             (if length (table m') \<le> i then (Inl BadAccess, m', c')
              else rehash_loop look es c' (store_value m' i (elem_value e))))
      else rehash_loop look es c m)"

definition mp_map_rehash ::
  "(map_cache \<Rightarrow> mp_map_t \<Rightarrow> mp_obj_t \<Rightarrow> lookup_result) \<Rightarrow> obj_env \<Rightarrow> map_cache \<Rightarrow> mp_map_t \<Rightarrow>
   (map_error + unit) \<times> mp_map_t \<times> map_cache" where
  "mp_map_rehash look E c m =
     (let new_alloc = get_hash_alloc_greater_or_equal_to (alloc m + 1) in
      if \<not> m_new_ok E new_alloc then (Inl MemoryError, m, c)
      else rehash_loop look (take (alloc m) (table m)) c
             (m\<lparr>alloc := new_alloc, used := 0, all_keys_are_qstrs := True,
                table := replicate new_alloc null_elem\<rparr>))"

definition hash_remove :: "mp_map_t \<Rightarrow> nat \<Rightarrow> mp_map_t" where
  "hash_remove m pos =
     m\<lparr>used := used m - 1,
       table := (table m)[pos := (table m ! pos)\<lparr>elem_key := deleted_key (keys_of m) (alloc m) pos\<rparr>]\<rparr>"

text \<open>The search loop of a hash table; after a rehash it starts again.\<close>

fun hash_lookup ::
  "(map_cache \<Rightarrow> mp_map_t \<Rightarrow> (map_error + unit) \<times> mp_map_t \<times> map_cache) \<Rightarrow> nat \<Rightarrow> (mp_obj_t \<Rightarrow> bool) \<Rightarrow> u32 \<Rightarrow>
   map_cache \<Rightarrow> mp_map_t \<Rightarrow> mp_obj_t \<Rightarrow> mp_map_lookup_kind_t \<Rightarrow> lookup_result" where
  "hash_lookup rehash 0 eq hash c m index kind = (Inl NoFuel, m, c)"
| "hash_lookup rehash (Suc n) eq hash c m index kind =
     (case probe eq (keys_of m) (alloc m) (unat hash mod alloc m) (alloc m) None of
        ProbeNull a \<Rightarrow>
          (if kind = MP_MAP_LOOKUP_ADD_IF_NOT_FOUND then (Inr (Some a), insert_at m a index, c)
           else (Inr None, m, c))
      | ProbeFound pos \<Rightarrow>
          (Inr (Some pos), (if kind = MP_MAP_LOOKUP_REMOVE_IF_FOUND then hash_remove m pos else m),
           MAP_CACHE_SET c index pos)
      | ProbeFull (Some a) \<Rightarrow>
          (if kind = MP_MAP_LOOKUP_ADD_IF_NOT_FOUND then (Inr (Some a), insert_at m a index, c)
           else (Inr None, m, c))
      | ProbeFull None \<Rightarrow>
          (if kind = MP_MAP_LOOKUP_ADD_IF_NOT_FOUND then
             (case rehash c m of
                (Inl err, m', c') \<Rightarrow> (Inl err, m', c')
              | (Inr _, m', c') \<Rightarrow> hash_lookup rehash n eq hash c' m' index kind)
           else (Inr None, m, c))
      | ProbeBad \<Rightarrow> (Inl BadAccess, m, c))"

text \<open>
  The assertion at the entry, \<open>!map->is_fixed || lookup_kind == MP_MAP_LOOKUP\<close>, is not compiled in a release
  build and is left out here: on a fixed table the function does what the code does without it.  The
  properties of adding and removing exclude such tables.
\<close>

definition cache_hit :: "mp_map_t \<Rightarrow> map_cache \<Rightarrow> mp_obj_t \<Rightarrow> mp_map_lookup_kind_t \<Rightarrow> bool" where
  "cache_hit m c index kind \<longleftrightarrow>
     kind \<noteq> MP_MAP_LOOKUP_REMOVE_IF_FOUND \<and> alloc m \<noteq> 0 \<and> elem_key (table m ! MAP_CACHE_GET m c index) = index"

fun mp_map_lookup ::
  "obj_env \<Rightarrow> nat \<Rightarrow> map_cache \<Rightarrow> mp_map_t \<Rightarrow> mp_obj_t \<Rightarrow> mp_map_lookup_kind_t \<Rightarrow> lookup_result" where
  "mp_map_lookup E 0 c m index kind = (Inl NoFuel, m, c)"
| "mp_map_lookup E (Suc n) c m index kind =
     (if kind \<noteq> MP_MAP_LOOKUP_REMOVE_IF_FOUND \<and> alloc m \<noteq> 0 \<and> length (table m) \<le> MAP_CACHE_GET m c index
      then (Inl BadAccess, m, c)
      else if cache_hit m c index kind then (Inr (Some (MAP_CACHE_GET m c index)), m, c)
      else if all_keys_are_qstrs m \<and> \<not> mp_obj_is_qstr index \<and> \<not> is_exact_str E index \<and>
              kind \<noteq> MP_MAP_LOOKUP_ADD_IF_NOT_FOUND
      then (Inr None, m, c)
      else
        let compare_only_ptrs = (all_keys_are_qstrs m \<and> (mp_obj_is_qstr index \<or> \<not> is_exact_str E index));
            eq = (\<lambda>k. k = index \<or> (\<not> compare_only_ptrs \<and> obj_equal E k index));
            rehash = mp_map_rehash (\<lambda>c m k. mp_map_lookup E n c m k MP_MAP_LOOKUP_ADD_IF_NOT_FOUND) E
        in if is_ordered m then ordered_lookup E eq c m index kind
           else if alloc m = 0 then
             (if kind = MP_MAP_LOOKUP_ADD_IF_NOT_FOUND then
                (case rehash c m of
                   (Inl err, m', c') \<Rightarrow> (Inl err, m', c')
                 | (Inr _, m', c') \<Rightarrow> hash_lookup rehash n eq (map_hash E index) c' m' index kind)
              else (Inr None, m, c))
           else hash_lookup rehash n eq (map_hash E index) c m index kind)"

declare mp_map_lookup.simps [simp del] hash_lookup.simps [simp del]

end
