(* ===== verification/HashMapCorrect.thy ===== *)
theory HashMapCorrect
  imports HashMap
begin

text \<open>
  Correctness of \<open>mp_map_lookup\<close>: the invariant of a map, its content as a multiset of entries, and
  for every kind of lookup what it returns and what it does to the content, for hash tables and
  ordered arrays, whatever the shared cache holds.  Growing a hash table needs at most three levels
  of nesting, keeps the content, and a failed allocation leaves a hash table unchanged.
\<close>

section \<open>Content and invariant\<close>

abbreviation filled_elem :: "mp_map_elem_t \<Rightarrow> bool" where
  "filled_elem e \<equiv> slot_is_filled (elem_key e)"

definition filled_mset :: "mp_map_elem_t list \<Rightarrow> mp_map_elem_t multiset" where
  "filled_mset es = filter_mset filled_elem (mset es)"

definition content :: "mp_map_t \<Rightarrow> mp_map_elem_t multiset" where
  "content m = filled_mset (table m)"

text \<open>No two entries have the same key.\<close>

definition keys_distinct :: "obj_env \<Rightarrow> mp_map_elem_t multiset \<Rightarrow> bool" where
  "keys_distinct E M \<longleftrightarrow> (\<forall>e f. {#e, f#} \<subseteq># M \<longrightarrow> \<not> same E (elem_key e) (elem_key f))"

definition ordered_shape :: "mp_map_t \<Rightarrow> bool" where
  "ordered_shape m \<longleftrightarrow> used m \<le> length (table m) \<and> (\<forall>i < used m. filled_elem (table m ! i)) \<and>
     (\<forall>i < length (table m). used m \<le> i \<longrightarrow> \<not> filled_elem (table m ! i))"

definition map_inv :: "obj_env \<Rightarrow> mp_map_t \<Rightarrow> bool" where
  "map_inv E m \<longleftrightarrow>
     alloc m = length (table m) \<and> keys_distinct E (content m) \<and> used m = size (content m) \<and>
     (all_keys_are_qstrs m \<longrightarrow> (\<forall>e \<in># content m. mp_obj_is_qstr (elem_key e))) \<and>
     (if is_ordered m then ordered_shape m else chain_ok (\<lambda>k. unat (map_hash E k)) (keys_of m))"

text \<open>Whether a key is present, and the value it is bound to.\<close>

definition has_key :: "obj_env \<Rightarrow> mp_map_elem_t multiset \<Rightarrow> mp_obj_t \<Rightarrow> bool" where
  "has_key E M k \<longleftrightarrow> (\<exists>e \<in># M. same E (elem_key e) k)"

lemma filled_mset_update:
  "i < length es \<Longrightarrow> filled_mset (es[i := e]) =
     filled_mset es - (if filled_elem (es ! i) then {#es ! i#} else {#}) + (if filled_elem e then {#e#} else {#})"
  by (simp add: filled_mset_def mset_update filter_diff_mset)

lemma filled_mset_Nil [simp]: "filled_mset [] = {#}"
  by (simp add: filled_mset_def)

lemma filled_mset_Cons [simp]:
  "filled_mset (e # es) = (if filled_elem e then add_mset e (filled_mset es) else filled_mset es)"
  by (simp add: filled_mset_def)

lemma filled_mset_append [simp]: "filled_mset (xs @ ys) = filled_mset xs + filled_mset ys"
  by (simp add: filled_mset_def)

lemma filled_mset_replicate [simp]: "filled_mset (replicate n null_elem) = {#}"
  by (induction n) auto

lemma filled_mset_none: "(\<forall>i < length es. \<not> filled_elem (es ! i)) \<Longrightarrow> filled_mset es = {#}"
  unfolding filled_mset_def by (auto simp: filter_mset_eq_mempty_iff in_set_conv_nth)

lemma mem_filled_mset: "e \<in># filled_mset es \<longleftrightarrow> filled_elem e \<and> (\<exists>i < length es. es ! i = e)"
  by (auto simp: filled_mset_def in_set_conv_nth)

lemma content_nth: "i < length (table m) \<Longrightarrow> filled_elem (table m ! i) \<Longrightarrow> table m ! i \<in># content m"
  by (auto simp: content_def mem_filled_mset)

lemma size_filled_le: "size (filled_mset es) \<le> length es"
  by (induction es) auto

lemma filled_mset_free: "size (filled_mset es) < length es \<Longrightarrow> \<exists>i < length es. \<not> filled_elem (es ! i)"
proof (rule ccontr)
  assume "size (filled_mset es) < length es" "\<not> (\<exists>i < length es. \<not> filled_elem (es ! i))"
  then have "\<forall>e \<in># mset es. filled_elem e" by (auto simp: in_set_conv_nth)
  then have "filled_mset es = mset es" unfolding filled_mset_def by (auto intro: filter_mset_eq_conv [THEN iffD2])
  then show False using \<open>size (filled_mset es) < length es\<close> by simp
qed

lemma keys_distinct_empty [simp]: "keys_distinct E {#}"
  by (simp add: keys_distinct_def)

lemma keys_distinct_sub: "keys_distinct E M \<Longrightarrow> N \<subseteq># M \<Longrightarrow> keys_distinct E N"
  unfolding keys_distinct_def by (meson subset_mset.order_trans)

lemma subset_add_mset_other:
  assumes "A \<subseteq># add_mset e M" "e \<notin># A"
  shows "A \<subseteq># M"
proof (rule mset_subset_eqI)
  fix x
  have "count A x \<le> count (add_mset e M) x" using assms(1) by (simp add: subseteq_mset_def)
  then show "count A x \<le> count M x" using assms(2) by (cases "x = e") (simp_all add: not_in_iff)
qed

lemma keys_distinct_add:
  assumes "env_ok E" "keys_distinct E M" "\<not> has_key E M (elem_key e)"
  shows "keys_distinct E (add_mset e M)"
proof -
  have ne: "\<not> same E (elem_key f) (elem_key e)" "\<not> same E (elem_key e) (elem_key f)" if "f \<in># M" for f
    using that assms(3) same_sym [OF assms(1)] by (auto simp: has_key_def)
  show ?thesis
    unfolding keys_distinct_def
  proof (intro allI impI)
    fix x y assume s: "{#x, y#} \<subseteq># add_mset e M"
    consider "x = e" | "y = e" | "x \<noteq> e" "y \<noteq> e" by blast
    then show "\<not> same E (elem_key x) (elem_key y)"
    proof cases
      case 1
      with s have "y \<in># M" by (simp add: insert_subset_eq_iff)
      with 1 ne show ?thesis by simp
    next
      case 2
      with s have "{#e, x#} \<subseteq># add_mset e M" by (simp add: add_mset_commute)
      then have "x \<in># M" by (simp add: insert_subset_eq_iff)
      with 2 ne show ?thesis by simp
    next
      case 3
      then have "e \<notin># {#x, y#}" by auto
      with s have "{#x, y#} \<subseteq># M" by (rule subset_add_mset_other)
      with assms(2) show ?thesis by (auto simp: keys_distinct_def)
    qed
  qed
qed

lemma keys_distinct_unique:
  assumes "env_ok E" "keys_distinct E M" "e \<in># M" "f \<in># M" "same E (elem_key e) k" "same E (elem_key f) k"
  shows "e = f"
proof (rule ccontr)
  assume ne: "e \<noteq> f"
  from assms(3) obtain N where N: "M = add_mset e N" by (metis mset_add)
  with assms(4) ne have "f \<in># N" by auto
  with N have "{#e, f#} \<subseteq># M" by simp
  moreover have "same E (elem_key e) (elem_key f)"
    using assms(1,5,6) same_sym same_trans by blast
  ultimately show False using assms(2) by (auto simp: keys_distinct_def)
qed

lemma has_key_add [simp]: "has_key E (add_mset e M) k \<longleftrightarrow> same E (elem_key e) k \<or> has_key E M k"
  by (auto simp: has_key_def)

lemma has_key_empty [simp]: "\<not> has_key E {#} k"
  by (simp add: has_key_def)

section \<open>Search\<close>

text \<open>The comparison that a lookup uses decides \<open>same\<close> on the keys of the map.\<close>

definition lookup_eq :: "obj_env \<Rightarrow> mp_map_t \<Rightarrow> mp_obj_t \<Rightarrow> mp_obj_t \<Rightarrow> bool" where
  "lookup_eq E m index = (\<lambda>k. k = index \<or>
     (\<not> (all_keys_are_qstrs m \<and> (mp_obj_is_qstr index \<or> \<not> is_exact_str E index)) \<and> obj_equal E k index))"

definition decides :: "obj_env \<Rightarrow> mp_map_t \<Rightarrow> mp_obj_t \<Rightarrow> (mp_obj_t \<Rightarrow> bool) \<Rightarrow> bool" where
  "decides E m index eq \<longleftrightarrow> (\<forall>e \<in># content m. eq (elem_key e) = same E (elem_key e) index)"

lemma lookup_eq_decides:
  assumes "env_ok E" "map_inv E m"
  shows "decides E m index (lookup_eq E m index)"
  using assms unfolding decides_def lookup_eq_def map_inv_def same_def env_ok_def by metis

lemma decides_nth:
  "decides E m index eq \<Longrightarrow> p < length (table m) \<Longrightarrow> filled_elem (table m ! p) \<Longrightarrow>
   eq (keys_of m ! p) = same E (elem_key (table m ! p)) index"
  using content_nth [of p m] by (auto simp: decides_def)

lemma has_key_nth:
  "has_key E (content m) k \<longleftrightarrow>
     (\<exists>p < length (table m). filled_elem (table m ! p) \<and> same E (elem_key (table m ! p)) k)"
  unfolding has_key_def content_def Bex_def mem_filled_mset by blast

abbreviation map_probe :: "obj_env \<Rightarrow> (mp_obj_t \<Rightarrow> bool) \<Rightarrow> mp_map_t \<Rightarrow> mp_obj_t \<Rightarrow> probe_result" where
  "map_probe E eq m index \<equiv> probe eq (keys_of m) (alloc m) (unat (map_hash E index) mod alloc m) (alloc m) None"

lemma map_probe_found:
  assumes "env_ok E" "map_inv E m" "\<not> is_ordered m" "decides E m index eq" "has_key E (content m) index"
  obtains p where "map_probe E eq m index = ProbeFound p" "p < length (table m)"
    "filled_elem (table m ! p)" "same E (elem_key (table m ! p)) index"
proof -
  obtain q where q: "q < length (table m)" "filled_elem (table m ! q)" "same E (elem_key (table m ! q)) index"
    using assms(5) by (auto simp: has_key_nth)
  have ch: "chain_ok (\<lambda>k. unat (map_hash E k)) (keys_of m)" and al: "alloc m = length (table m)"
    using assms(2,3) by (simp_all add: map_inv_def)
  have h: "unat (map_hash E (keys_of m ! q)) = unat (map_hash E index)"
    using q same_hash [OF assms(1) q(3)] by (simp add: map_hash_eq [OF assms(1)])
  have "\<exists>p. map_probe E eq m index = ProbeFound p"
    using chain_found [OF ch, of q eq "unat (map_hash E index)"] q h decides_nth [OF assms(4) q(1,2)] al by simp
  then obtain p where p: "map_probe E eq m index = ProbeFound p" by auto
  have "probe_post eq (keys_of m) (unat (map_hash E index)) (ProbeFound p)"
    using probe_spec [of "keys_of m" eq "unat (map_hash E index)"] p al q(1)
    by (metis length_map gr_implies_not_zero not_gr_zero)
  then have "p < length (table m)" "filled_elem (table m ! p)" "eq (keys_of m ! p)" by auto
  with that p decides_nth [OF assms(4)] show ?thesis by simp
qed

lemma map_probe_absent:
  assumes "env_ok E" "map_inv E m" "\<not> is_ordered m" "decides E m index eq" "\<not> has_key E (content m) index"
    and "0 < alloc m" "slot_is_filled index"
  shows "(\<exists>a. map_probe E eq m index \<in> {ProbeNull a, ProbeFull (Some a)} \<and> a < length (table m) \<and>
            \<not> filled_elem (table m ! a) \<and>
            chain_ok (\<lambda>k. unat (map_hash E k)) ((keys_of m)[a := index])) \<or>
         (map_probe E eq m index = ProbeFull None \<and> size (content m) = alloc m)"
proof -
  have ch: "chain_ok (\<lambda>k. unat (map_hash E k)) (keys_of m)" and al: "alloc m = length (keys_of m)"
    using assms(2,3) by (simp_all add: map_inv_def)
  have n: "0 < length (keys_of m)" using assms(6) al by simp
  have absent: "\<forall>p < length (keys_of m). slot_is_filled (keys_of m ! p) \<longrightarrow> \<not> eq (keys_of m ! p)"
    using assms(5) decides_nth [OF assms(4)] by (auto simp: has_key_nth)
  let ?s = "unat (map_hash E index)"
  let ?h = "\<lambda>k. unat (map_hash E k)"
  from probe_absent [OF n absent, of ?s] show ?thesis
  proof (elim disjE exE conjE)
    fix a j assume "probe eq (keys_of m) (length (keys_of m)) (?s mod length (keys_of m)) (length (keys_of m)) None = ProbeNull a"
      and "j < length (keys_of m)" "free_upto (keys_of m) ?s (Suc j) a"
      "\<forall>l < j. keys_of m ! slot_at (keys_of m) ?s l \<noteq> MP_OBJ_NULL"
    with chain_insert [OF ch n assms(7), of j a] free_upto_lt [OF _ n, of ?s "Suc j" a] al show ?thesis
      by (auto intro!: exI [of _ a])
  next
    fix a assume p: "probe eq (keys_of m) (length (keys_of m)) (?s mod length (keys_of m)) (length (keys_of m)) None = ProbeFull (Some a)"
      and f: "free_upto (keys_of m) ?s (length (keys_of m)) a"
      and nn: "\<forall>l < length (keys_of m). keys_of m ! slot_at (keys_of m) ?s l \<noteq> MP_OBJ_NULL"
    have "free_upto (keys_of m) ?s (Suc (length (keys_of m) - 1)) a" using f n by simp
    from chain_insert [OF ch n assms(7) _ this] nn n p free_upto_lt [OF f n] al show ?thesis
      by (auto intro!: exI [of _ a])
  next
    assume p: "probe eq (keys_of m) (length (keys_of m)) (?s mod length (keys_of m)) (length (keys_of m)) None = ProbeFull None"
      and all: "\<forall>l < length (keys_of m). slot_is_filled (keys_of m ! slot_at (keys_of m) ?s l)"
    have "filled_elem (table m ! q)" if q: "q < length (table m)" for q
    proof -
      obtain l where "l < length (keys_of m)" "q = slot_at (keys_of m) ?s l"
        using slot_at_onto [of q "keys_of m" ?s] q by auto
      then show ?thesis using all q by (metis length_map nth_map)
    qed
    then have "\<not> size (filled_mset (table m)) < length (table m)" using filled_mset_free by blast
    then have "size (content m) = alloc m" using size_filled_le [of "table m"] al by (simp add: content_def)
    then show ?thesis using p al by simp
  qed
qed

lemma map_update_keys: "map elem_key ((table m)[a := e]) = (keys_of m)[a := elem_key e]"
  by (simp add: map_update)

lemma insert_at_ok:
  assumes "env_ok E" "map_inv E m" "\<not> is_ordered m" "\<not> has_key E (content m) index" "slot_is_filled index"
    and "a < length (table m)" "\<not> filled_elem (table m ! a)"
    and "chain_ok (\<lambda>k. unat (map_hash E k)) ((keys_of m)[a := index])"
  shows "map_inv E (insert_at m a index)"
    and "content (insert_at m a index) = add_mset \<lparr>elem_key = index, elem_value = MP_OBJ_NULL\<rparr> (content m)"
proof -
  show c: "content (insert_at m a index) = add_mset \<lparr>elem_key = index, elem_value = MP_OBJ_NULL\<rparr> (content m)"
    using assms(5-7) by (simp add: content_def insert_at_def filled_mset_update)
  show "map_inv E (insert_at m a index)"
    using assms keys_distinct_add [of E "content m" "\<lparr>elem_key = index, elem_value = MP_OBJ_NULL\<rparr>"]
    by (auto simp: map_inv_def c) (auto simp: insert_at_def map_update split: if_splits)
qed

lemma hash_remove_ok:
  assumes "map_inv E m" "\<not> is_ordered m" "p < length (table m)" "filled_elem (table m ! p)"
  shows "map_inv E (hash_remove m p)"
    and "content (hash_remove m p) = content m - {#table m ! p#}"
proof -
  show c: "content (hash_remove m p) = content m - {#table m ! p#}"
    using assms(3,4) by (simp add: content_def hash_remove_def filled_mset_update)
  have ch: "chain_ok (\<lambda>k. unat (map_hash E k)) (keys_of m)" and al: "alloc m = length (keys_of m)"
    using assms(1,2) by (simp_all add: map_inv_def)
  have "size (content m - {#table m ! p#}) = size (content m) - 1"
    using content_nth [OF assms(3,4)] by (simp add: size_Diff_singleton)
  then show "map_inv E (hash_remove m p)"
    using assms keys_distinct_sub [of E "content m" "content m - {#table m ! p#}"]
      chain_remove [OF ch, of p] al
    by (auto simp: map_inv_def c dest: in_diffD) (auto simp: hash_remove_def map_update)
qed

section \<open>Ordered maps\<close>

definition entries :: "mp_map_t \<Rightarrow> mp_map_elem_t list" where
  "entries m = take (used m) (table m)"

fun linear_post :: "(mp_obj_t \<Rightarrow> bool) \<Rightarrow> mp_map_elem_t list \<Rightarrow> nat \<Rightarrow> nat \<Rightarrow> linear_result \<Rightarrow> bool" where
  "linear_post eq t i k LinearBad = False"
| "linear_post eq t i k (LinearFound j) = (j < i + k \<and> eq (elem_key (t ! j)))"
| "linear_post eq t i k LinearNone = (\<forall>l. i \<le> l \<longrightarrow> l < i + k \<longrightarrow> \<not> eq (elem_key (t ! l)))"

lemma linear_search_spec: "i + k \<le> length t \<Longrightarrow> linear_post eq t i k (linear_search eq t i k)"
proof (induction eq t i k rule: linear_search.induct)
  case (2 eq t i k)
  show ?case
  proof (cases "eq (elem_key (t ! i))")
    case False
    then have IH: "linear_post eq t (i + 1) k (linear_search eq t (i + 1) k)" using 2 by simp
    show ?thesis
    proof (cases "linear_search eq t (i + 1) k")
      case LinearNone
      have "\<not> eq (elem_key (t ! l))" if "i \<le> l" "l < i + Suc k" for l
        using that IH False LinearNone by (cases "l = i") simp_all
      then show ?thesis using LinearNone False 2 by simp
    qed (use IH False 2 in auto)
  qed (use 2 in auto)
qed simp

lemma ordered_content:
  assumes "ordered_shape m"
  shows "content m = mset (entries m)"
proof -
  have f: "filled_mset (entries m) = mset (entries m)"
    using assms unfolding filled_mset_def entries_def
    by (intro filter_mset_eq_conv [THEN iffD2]) (auto simp: ordered_shape_def in_set_conv_nth)
  have d: "filled_mset (drop (used m) (table m)) = {#}"
    using assms by (intro filled_mset_none) (auto simp: ordered_shape_def)
  have "content m = filled_mset (entries m @ drop (used m) (table m))"
    by (simp add: content_def entries_def)
  with f d show ?thesis by simp
qed

lemma ordered_remove_table:
  assumes "i < used m" "used m \<le> length (table m)"
  shows "table (ordered_remove m i) =
     (take i (table m) @ drop (i + 1) (entries m)) @
       \<lparr>elem_key = MP_OBJ_NULL, elem_value = elem_value (table m ! i)\<rparr> # drop (used m) (table m)"
proof -
  let ?t = "table m" and ?u = "used m"
  let ?a = "take i ?t @ drop (i + 1) (entries m)"
  have "buf_write ?t i (buf_read ?t (i + 1) (?u - i - 1)) = ?a @ drop (?u - 1) ?t"
    using assms by (simp add: buf_write_def buf_read_def entries_def drop_take)
  also have "drop (?u - 1) ?t = ?t ! (?u - 1) # drop ?u ?t"
    using assms Cons_nth_drop_Suc [of "?u - 1" ?t] by simp
  finally have b: "buf_write ?t i (buf_read ?t (i + 1) (?u - i - 1)) = ?a @ ?t ! (?u - 1) # drop ?u ?t" .
  have l: "?u - 1 = length ?a" using assms by (simp add: entries_def)
  have "table (ordered_remove m i) = (?a @ ?t ! (?u - 1) # drop ?u ?t)
      [?u - 1 := \<lparr>elem_key = MP_OBJ_NULL, elem_value = elem_value (?t ! i)\<rparr>]"
    by (simp add: ordered_remove_def Let_def b [simplified])
  then show ?thesis unfolding l list_update_length .
qed

lemma ordered_remove_ok:
  assumes "map_inv E m" "is_ordered m" "i < used m"
  shows "map_inv E (ordered_remove m i)"
    and "content (ordered_remove m i) = content m - {#table m ! i#}"
    and "entries (ordered_remove m i) = take i (entries m) @ drop (i + 1) (entries m)"
    and "table (ordered_remove m i) ! (used m - 1) = \<lparr>elem_key = MP_OBJ_NULL, elem_value = elem_value (table m ! i)\<rparr>"
    and "used m - 1 < length (table (ordered_remove m i))"
proof -
  have shape: "ordered_shape m" and u: "used m \<le> length (table m)"
    using assms by (simp_all add: map_inv_def ordered_shape_def)
  note tab = ordered_remove_table [OF assms(3) u]
  let ?m = "ordered_remove m i"
  have us: "used ?m = used m - 1" by (simp add: ordered_remove_def Let_def)
  have len: "length (take i (table m) @ drop (i + 1) (entries m)) = used m - 1"
    using assms(3) u by (simp add: entries_def)
  show lt: "used m - 1 < length (table ?m)" using len tab by simp
  show nth: "table ?m ! (used m - 1) = \<lparr>elem_key = MP_OBJ_NULL, elem_value = elem_value (table m ! i)\<rparr>"
    unfolding tab len [symmetric] by (rule nth_append_length)
  have "entries ?m = take i (table m) @ drop (i + 1) (entries m)"
    unfolding entries_def [of ?m] us tab len [symmetric] by (metis append_eq_conv_conj)
  then show en: "entries ?m = take i (entries m) @ drop (i + 1) (entries m)"
    using assms(3) by (simp add: entries_def min_def)
  have part: "entries m = take i (entries m) @ table m ! i # drop (i + 1) (entries m)"
    using id_take_nth_drop [of i "entries m"] assms(3) u by (simp add: entries_def)
  have filled: "\<forall>e \<in> set (entries m). filled_elem e"
    using shape by (auto simp: ordered_shape_def entries_def in_set_conv_nth)
  have shape': "ordered_shape ?m"
    unfolding ordered_shape_def
  proof (intro conjI allI impI)
    show "used ?m \<le> length (table ?m)" using lt us by simp
  next
    fix j assume "j < used ?m"
    then have "table ?m ! j = entries ?m ! j" "j < length (entries ?m)" using lt us by (simp_all add: entries_def)
    then have "table ?m ! j \<in> set (entries ?m)" by simp
    then show "filled_elem (table ?m ! j)" using en filled by (auto dest: in_set_takeD in_set_dropD)
  next
    fix j assume j: "j < length (table ?m)" "used ?m \<le> j"
    show "\<not> filled_elem (table ?m ! j)"
    proof (cases "j = used m - 1")
      case True
      then show ?thesis using nth by simp
    next
      case False
      have "table ?m ! j = (\<lparr>elem_key = MP_OBJ_NULL, elem_value = elem_value (table m ! i)\<rparr> # drop (used m) (table m)) ! (j - (used m - 1))"
      proof -
        have "length (take i (table m) @ drop (i + 1) (entries m)) \<le> j" unfolding len using j(2) us by simp
        then show ?thesis unfolding tab len [symmetric] by (rule nth_append_right)
      qed
      also have "\<dots> = drop (used m) (table m) ! (j - used m)"
        using False j us assms(3) by (simp add: nth_Cons')
      also have "\<dots> = table m ! j" using False j us assms(3) u by simp
      finally show ?thesis
        using shape j False us tab len assms(3) u by (auto simp: ordered_shape_def)
    qed
  qed
  show c: "content ?m = content m - {#table m ! i#}"
    using part by (simp add: ordered_content [OF shape] ordered_content [OF shape'] en)
      (metis add_mset_remove_trivial mset.simps(2) mset_append union_mset_add_mset_right)
  have "table m ! i \<in># content m" using part by (simp add: ordered_content [OF shape]) (metis in_set_conv_decomp)
  then have "size (content ?m) = size (content m) - 1" by (simp add: c size_Diff_singleton)
  moreover have "length (table ?m) = length (table m)" using tab assms(3) u by (simp add: entries_def)
  ultimately show "map_inv E ?m"
    using assms shape' keys_distinct_sub [of E "content m" "content ?m"]
    by (auto simp: map_inv_def c dest: in_diffD) (auto simp: ordered_remove_def Let_def)
qed

text \<open>Appending succeeds when the table has room or can grow.\<close>

lemma ordered_add_ok:
  assumes "env_ok E" "map_inv E m" "is_ordered m" "\<not> has_key E (content m) index" "slot_is_filled index"
    and "used m = alloc m \<longrightarrow> m_new_ok E (alloc m + 4)"
  shows "\<exists>m'. ordered_add E c m index = (Inr (Some (used m)), m', c) \<and> map_inv E m' \<and>
     content m' = add_mset \<lparr>elem_key = index, elem_value = MP_OBJ_NULL\<rparr> (content m) \<and>
     entries m' = entries m @ [\<lparr>elem_key = index, elem_value = MP_OBJ_NULL\<rparr>] \<and>
     used m < length (table m') \<and> table m' ! used m = \<lparr>elem_key = index, elem_value = MP_OBJ_NULL\<rparr> \<and>
     is_ordered m' \<and> is_fixed m' = is_fixed m"
proof -
  let ?e = "\<lparr>elem_key = index, elem_value = MP_OBJ_NULL\<rparr>"
  have shape: "ordered_shape m" and al: "alloc m = length (table m)" and u: "used m \<le> length (table m)"
    using assms by (simp_all add: map_inv_def ordered_shape_def)
  define t where "t = (if used m = alloc m then table m @ replicate 4 null_elem else table m)"
  define m' where "m' = m\<lparr>alloc := length t, used := used m + 1, table := t[used m := ?e],
       all_keys_are_qstrs := (if \<not> mp_obj_is_qstr index then False else all_keys_are_qstrs m)\<rparr>"
  have lt: "used m < length t" using u al by (auto simp: t_def)
  have run: "ordered_add E c m index = (Inr (Some (used m)), m', c)"
    using assms(6) al lt u
    by (cases "used m = alloc m") (auto simp: ordered_add_def Let_def insert_at_def t_def m'_def)
  have old: "\<not> filled_elem (t ! j)" if "used m \<le> j" "j < length t" for j
    using that shape al by (auto simp: t_def ordered_shape_def nth_append)
  have same_t: "t ! j = table m ! j" if "j < used m" for j
    using that u by (auto simp: t_def nth_append)
  have en: "entries m' = entries m @ [?e]"
    using lt u by (simp add: entries_def m'_def take_Suc_conv_app_nth) (auto simp: t_def)
  have shape': "ordered_shape m'"
    using shape lt old same_t assms(5) by (auto simp: ordered_shape_def m'_def nth_list_update less_Suc_eq)
  have c: "content m' = add_mset ?e (content m)"
    by (simp add: ordered_content [OF shape] ordered_content [OF shape'] en)
  have "map_inv E m'"
    using assms(1-5) shape' keys_distinct_add [of E "content m" ?e]
    by (auto simp: map_inv_def c) (auto simp: m'_def split: if_splits)
  then show ?thesis using run c en lt assms(3) by (auto simp: m'_def)
qed

section \<open>Storing a value\<close>

definition slot_ok :: "obj_env \<Rightarrow> mp_map_t \<Rightarrow> nat \<Rightarrow> mp_obj_t \<Rightarrow> bool" where
  "slot_ok E m i k \<longleftrightarrow> i < length (table m) \<and> filled_elem (table m ! i) \<and> same E (elem_key (table m ! i)) k"

lemma slot_ok_has_key: "slot_ok E m i k \<Longrightarrow> has_key E (content m) k"
  by (auto simp: slot_ok_def has_key_nth)

lemma has_key_rest:
  assumes "env_ok E" "keys_distinct E M" "x \<in># M"
  shows "\<not> has_key E (M - {#x#}) (elem_key x)"
proof
  assume "has_key E (M - {#x#}) (elem_key x)"
  then obtain f where f: "f \<in># M - {#x#}" "same E (elem_key f) (elem_key x)" by (auto simp: has_key_def)
  then have "{#x, f#} \<subseteq># M" using assms(3) by (simp add: insert_subset_eq_iff)
  with assms(1,2) f(2) show False by (auto simp: keys_distinct_def dest: same_sym)
qed

lemma keys_distinct_replace:
  assumes "env_ok E" "keys_distinct E M" "x \<in># M" "elem_key y = elem_key x"
  shows "keys_distinct E (add_mset y (M - {#x#}))"
  using assms has_key_rest [OF assms(1-3)]
  by (intro keys_distinct_add keys_distinct_sub [OF assms(2)]) auto

lemma store_value_ok:
  assumes "env_ok E" "map_inv E m" "i < length (table m)" "filled_elem (table m ! i)"
  shows "map_inv E (store_value m i v)"
    and "content (store_value m i v) = add_mset ((table m ! i)\<lparr>elem_value := v\<rparr>) (content m - {#table m ! i#})"
proof -
  let ?y = "(table m ! i)\<lparr>elem_value := v\<rparr>"
  show c: "content (store_value m i v) = add_mset ?y (content m - {#table m ! i#})"
    using assms(3,4) by (simp add: content_def store_value_def filled_mset_update)
  have mem: "table m ! i \<in># content m" using assms by (intro content_nth)
  have ks: "keys_of (store_value m i v) = keys_of m"
    using assms(3) by (simp add: store_value_def map_update list_update_same_conv)
  have shape: "ordered_shape m \<Longrightarrow> ordered_shape (store_value m i v)"
    using assms(3,4) by (auto simp: ordered_shape_def store_value_def nth_list_update)
  have "size (content (store_value m i v)) = size (content m)"
    using mem by (simp add: c size_Diff_singleton) (metis Suc_pred nonempty_has_size empty_iff set_mset_empty)
  moreover have "\<forall>e \<in># content m. mp_obj_is_qstr (elem_key e) \<Longrightarrow>
      \<forall>e \<in># content (store_value m i v). mp_obj_is_qstr (elem_key e)"
    using mem by (auto simp: c dest: in_diffD)
  ultimately show "map_inv E (store_value m i v)"
    using assms(2) keys_distinct_replace [OF assms(1) _ mem, of ?y] shape
    unfolding map_inv_def ks by (auto simp: c) (simp_all add: store_value_def)
qed

section \<open>Finding\<close>

lemma early_absent:
  assumes "env_ok E" "map_inv E m" "all_keys_are_qstrs m" "\<not> mp_obj_is_qstr index" "\<not> is_exact_str E index"
  shows "\<not> has_key E (content m) index"
  using assms unfolding has_key_def map_inv_def same_def env_ok_def by metis

lemma cache_in_table: "map_inv E m \<Longrightarrow> alloc m \<noteq> 0 \<Longrightarrow> MAP_CACHE_GET m c index < length (table m)"
  by (simp add: MAP_CACHE_GET_def map_inv_def)

lemma cache_hit_ok:
  assumes "map_inv E m" "cache_hit m c index kind" "slot_is_filled index"
  shows "slot_ok E m (MAP_CACHE_GET m c index) index"
  using assms cache_in_table [OF assms(1), of c index] by (auto simp: slot_ok_def cache_hit_def)

text \<open>\<open>mp_map_lookup\<close> on a map that satisfies the invariant, with the checks discharged.\<close>

abbreviation rehash_of :: "obj_env \<Rightarrow> nat \<Rightarrow> map_cache \<Rightarrow> mp_map_t \<Rightarrow> (map_error + unit) \<times> mp_map_t \<times> map_cache" where
  "rehash_of E n \<equiv> mp_map_rehash (\<lambda>c m k. mp_map_lookup E n c m k MP_MAP_LOOKUP_ADD_IF_NOT_FOUND) E"

lemma mp_map_lookup_unfold:
  assumes "map_inv E m"
  shows "mp_map_lookup E (Suc n) c m index kind =
     (if cache_hit m c index kind then (Inr (Some (MAP_CACHE_GET m c index)), m, c)
      else if all_keys_are_qstrs m \<and> \<not> mp_obj_is_qstr index \<and> \<not> is_exact_str E index \<and>
              kind \<noteq> MP_MAP_LOOKUP_ADD_IF_NOT_FOUND
      then (Inr None, m, c)
      else if is_ordered m then ordered_lookup E (lookup_eq E m index) c m index kind
      else if alloc m = 0 then
        (if kind = MP_MAP_LOOKUP_ADD_IF_NOT_FOUND then
           (case rehash_of E n c m of
              (Inl err, m', c') \<Rightarrow> (Inl err, m', c')
            | (Inr _, m', c') \<Rightarrow>
                hash_lookup (rehash_of E n) n (lookup_eq E m index) (map_hash E index) c' m' index kind)
         else (Inr None, m, c))
      else hash_lookup (rehash_of E n) n (lookup_eq E m index) (map_hash E index) c m index kind)"
proof -
  have ok: "(kind \<noteq> MP_MAP_LOOKUP_REMOVE_IF_FOUND \<and> alloc m \<noteq> 0 \<and> length (table m) \<le> MAP_CACHE_GET m c index) = False"
    using cache_in_table [OF assms, of c index] by auto
  show ?thesis unfolding mp_map_lookup.simps lookup_eq_def Let_def ok if_False by (rule refl)
qed

lemma linear_found:
  assumes "env_ok E" "map_inv E m" "is_ordered m" "has_key E (content m) index"
  obtains i where "linear_search (lookup_eq E m index) (table m) 0 (used m) = LinearFound i"
    "i < used m" "slot_ok E m i index"
proof -
  have shape: "ordered_shape m" using assms by (simp add: map_inv_def)
  note d = decides_nth [OF lookup_eq_decides [OF assms(1,2), of index]]
  have post: "linear_post (lookup_eq E m index) (table m) 0 (used m) (linear_search (lookup_eq E m index) (table m) 0 (used m))"
    using shape by (intro linear_search_spec) (simp add: ordered_shape_def)
  obtain p where p: "p < length (table m)" "filled_elem (table m ! p)" "same E (elem_key (table m ! p)) index"
    using assms(4) by (auto simp: has_key_nth)
  then have "p < used m" using shape by (auto simp: ordered_shape_def not_less)
  then have "lookup_eq E m index (elem_key (table m ! p))" using d [OF p(1,2)] p by simp
  then obtain i where i: "linear_search (lookup_eq E m index) (table m) 0 (used m) = LinearFound i" "i < used m"
      "lookup_eq E m index (elem_key (table m ! i))"
    using post \<open>p < used m\<close> by (cases "linear_search (lookup_eq E m index) (table m) 0 (used m)") auto
  moreover have "slot_ok E m i index"
    using i shape d [of i] by (auto simp: ordered_shape_def slot_ok_def)
  ultimately show ?thesis using that by blast
qed

lemma linear_absent:
  assumes "env_ok E" "map_inv E m" "is_ordered m" "\<not> has_key E (content m) index"
  shows "linear_search (lookup_eq E m index) (table m) 0 (used m) = LinearNone"
proof -
  have shape: "ordered_shape m" using assms by (simp add: map_inv_def)
  have post: "linear_post (lookup_eq E m index) (table m) 0 (used m) (linear_search (lookup_eq E m index) (table m) 0 (used m))"
    using shape by (intro linear_search_spec) (simp add: ordered_shape_def)
  have "\<not> lookup_eq E m index (elem_key (table m ! i))" if "i < used m" for i
    using that shape decides_nth [OF lookup_eq_decides [OF assms(1,2), of index], of i] assms(4)
    by (auto simp: ordered_shape_def has_key_nth)
  then show ?thesis
    using post by (cases "linear_search (lookup_eq E m index) (table m) 0 (used m)") auto
qed

lemma hash_alloc_pos: "map_inv E m \<Longrightarrow> has_key E (content m) index \<Longrightarrow> 0 < alloc m"
  by (auto simp: map_inv_def has_key_nth)

lemma lookup_present_ok:
  assumes "env_ok E" "map_inv E m" "slot_is_filled index" "has_key E (content m) index"
    and "kind \<in> {MP_MAP_LOOKUP, MP_MAP_LOOKUP_ADD_IF_NOT_FOUND}"
  shows "\<exists>i c'. mp_map_lookup E (Suc (Suc n)) c m index kind = (Inr (Some i), m, c') \<and> slot_ok E m i index"
proof (cases "cache_hit m c index kind")
  case True
  then show ?thesis using cache_hit_ok [OF assms(2) True assms(3)] by (auto simp: mp_map_lookup_unfold [OF assms(2)])
next
  case no_hit: False
  have na: "\<not> (all_keys_are_qstrs m \<and> \<not> mp_obj_is_qstr index \<and> \<not> is_exact_str E index)"
    using early_absent [OF assms(1,2)] assms(4) by blast
  show ?thesis
  proof (cases "is_ordered m")
    case True
    obtain i where "linear_search (lookup_eq E m index) (table m) 0 (used m) = LinearFound i" "slot_ok E m i index"
      using linear_found [OF assms(1,2) True assms(4)] by blast
    then show ?thesis using no_hit na True assms(5)
      by (auto simp: mp_map_lookup_unfold [OF assms(2)] ordered_lookup_def)
  next
    case False
    obtain p where "map_probe E (lookup_eq E m index) m index = ProbeFound p" "slot_ok E m p index"
      using map_probe_found [OF assms(1,2) False lookup_eq_decides [OF assms(1,2)] assms(4)]
      by (auto simp: slot_ok_def)
    then show ?thesis using no_hit na False hash_alloc_pos [OF assms(2,4)] assms(5)
      by (auto simp: mp_map_lookup_unfold [OF assms(2)] hash_lookup.simps)
  qed
qed

lemma lookup_absent_ok:
  assumes "env_ok E" "map_inv E m" "slot_is_filled index" "\<not> has_key E (content m) index"
    and "kind \<in> {MP_MAP_LOOKUP, MP_MAP_LOOKUP_REMOVE_IF_FOUND}"
  shows "mp_map_lookup E (Suc (Suc n)) c m index kind = (Inr None, m, c)"
proof -
  have no_hit: "\<not> cache_hit m c index kind"
    using cache_hit_ok [OF assms(2) _ assms(3)] slot_ok_has_key assms(4) by blast
  show ?thesis
  proof (cases "is_ordered m")
    case True
    then show ?thesis using no_hit linear_absent [OF assms(1,2) True assms(4)] assms(5)
      by (auto simp: mp_map_lookup_unfold [OF assms(2)] ordered_lookup_def)
  next
    case False
    show ?thesis
    proof (cases "alloc m = 0")
      case True
      then show ?thesis using no_hit False assms(5) by (auto simp: mp_map_lookup_unfold [OF assms(2)])
    next
      case al: False
      then show ?thesis
        using map_probe_absent [OF assms(1,2) False lookup_eq_decides [OF assms(1,2)] assms(4) _ assms(3)] no_hit False assms(5)
        by (auto simp: mp_map_lookup_unfold [OF assms(2)] hash_lookup.simps)
    qed
  qed
qed

section \<open>Removing\<close>

lemma lookup_remove_ok:
  assumes "env_ok E" "map_inv E m" "slot_is_filled index" "has_key E (content m) index"
  shows "\<exists>i m' c' e. mp_map_lookup E (Suc (Suc n)) c m index MP_MAP_LOOKUP_REMOVE_IF_FOUND = (Inr (Some i), m', c') \<and>
     map_inv E m' \<and> e \<in># content m \<and> same E (elem_key e) index \<and> content m' = content m - {#e#} \<and>
     i < length (table m') \<and> elem_value (table m' ! i) = elem_value e \<and> \<not> filled_elem (table m' ! i) \<and>
     is_ordered m' = is_ordered m \<and> is_fixed m' = is_fixed m \<and>
     (is_ordered m \<longrightarrow> (\<exists>j < length (entries m). entries m ! j = e \<and>
        entries m' = take j (entries m) @ drop (j + 1) (entries m)))"
proof -
  have no_hit: "\<not> cache_hit m c index MP_MAP_LOOKUP_REMOVE_IF_FOUND" by (simp add: cache_hit_def)
  have na: "\<not> (all_keys_are_qstrs m \<and> \<not> mp_obj_is_qstr index \<and> \<not> is_exact_str E index)"
    using early_absent [OF assms(1,2)] assms(4) by blast
  show ?thesis
  proof (cases "is_ordered m")
    case True
    obtain i where i: "linear_search (lookup_eq E m index) (table m) 0 (used m) = LinearFound i" "i < used m" "slot_ok E m i index"
      using linear_found [OF assms(1,2) True assms(4)] by blast
    have "mp_map_lookup E (Suc (Suc n)) c m index MP_MAP_LOOKUP_REMOVE_IF_FOUND =
        (Inr (Some (used m - 1)), ordered_remove m i, MAP_CACHE_SET c index (used m - 1))"
      using no_hit na True i by (simp add: mp_map_lookup_unfold [OF assms(2)] ordered_lookup_def)
    moreover have "i < length (entries m) \<and> entries m ! i = table m ! i"
      using i by (simp add: entries_def slot_ok_def)
    moreover have "is_ordered (ordered_remove m i) = is_ordered m" "is_fixed (ordered_remove m i) = is_fixed m"
      by (simp_all add: ordered_remove_def Let_def)
    ultimately show ?thesis
      using ordered_remove_ok [OF assms(2) True i(2)] i(3) content_nth [of i m]
      by (intro exI [of _ "used m - 1"] exI [of _ "ordered_remove m i"] exI [of _ "MAP_CACHE_SET c index (used m - 1)"]
            exI [of _ "table m ! i"]) (auto simp: slot_ok_def)
  next
    case False
    obtain p where p: "map_probe E (lookup_eq E m index) m index = ProbeFound p" "slot_ok E m p index"
      using map_probe_found [OF assms(1,2) False lookup_eq_decides [OF assms(1,2)] assms(4)]
      by (auto simp: slot_ok_def)
    have run: "mp_map_lookup E (Suc (Suc n)) c m index MP_MAP_LOOKUP_REMOVE_IF_FOUND =
        (Inr (Some p), hash_remove m p, MAP_CACHE_SET c index p)"
      using no_hit na False hash_alloc_pos [OF assms(2,4)] p
      by (simp add: mp_map_lookup_unfold [OF assms(2)] hash_lookup.simps)
    have "elem_value (table (hash_remove m p) ! p) = elem_value (table m ! p) \<and> \<not> filled_elem (table (hash_remove m p) ! p)
        \<and> p < length (table (hash_remove m p)) \<and> is_ordered (hash_remove m p) = is_ordered m \<and> is_fixed (hash_remove m p) = is_fixed m"
      using p(2) by (simp add: hash_remove_def slot_ok_def)
    then show ?thesis
      using run hash_remove_ok [OF assms(2) False, of p] p(2) content_nth [of p m] False
      by (intro exI [of _ p] exI [of _ "hash_remove m p"] exI [of _ "MAP_CACHE_SET c index p"]
            exI [of _ "table m ! p"]) (auto simp: slot_ok_def)
  qed
qed

section \<open>Adding\<close>

definition new_elem :: "mp_obj_t \<Rightarrow> mp_map_elem_t" where
  "new_elem index = \<lparr>elem_key = index, elem_value = MP_OBJ_NULL\<rparr>"

definition added :: "obj_env \<Rightarrow> mp_map_t \<Rightarrow> mp_obj_t \<Rightarrow> nat \<Rightarrow> mp_map_t \<Rightarrow> bool" where
  "added E m index i m' \<longleftrightarrow>
     map_inv E m' \<and> content m' = add_mset (new_elem index) (content m) \<and>
     i < length (table m') \<and> table m' ! i = new_elem index \<and>
     is_ordered m' = is_ordered m \<and> is_fixed m' = is_fixed m \<and>
     (is_ordered m \<longrightarrow> entries m' = entries m @ [new_elem index])"

lemma hash_lookup_insert:
  assumes "env_ok E" "map_inv E m" "\<not> is_ordered m" "decides E m index eq" "\<not> has_key E (content m) index"
    and "size (content m) < alloc m" "slot_is_filled index"
  shows "\<exists>i m'. hash_lookup rh (Suc n) eq (map_hash E index) c m index MP_MAP_LOOKUP_ADD_IF_NOT_FOUND = (Inr (Some i), m', c) \<and>
     added E m index i m' \<and> alloc m' = alloc m"
proof -
  have "0 < alloc m" using assms(6) by simp
  from map_probe_absent [OF assms(1-5) this assms(7)] assms(6)
  obtain a where a: "map_probe E eq m index \<in> {ProbeNull a, ProbeFull (Some a)}" "a < length (table m)"
      "\<not> filled_elem (table m ! a)" "chain_ok (\<lambda>k. unat (map_hash E k)) ((keys_of m)[a := index])"
    by auto
  have "hash_lookup rh (Suc n) eq (map_hash E index) c m index MP_MAP_LOOKUP_ADD_IF_NOT_FOUND = (Inr (Some a), insert_at m a index, c)"
    using a(1) by (auto simp: hash_lookup.simps)
  moreover have "added E m index a (insert_at m a index)"
    using insert_at_ok [OF assms(1-3,5,7) a(2-4)] a(2) assms(3)
    by (simp add: added_def new_elem_def) (simp add: insert_at_def)
  moreover have "alloc (insert_at m a index) = alloc m" by (simp add: insert_at_def)
  ultimately show ?thesis by blast
qed

lemma lookup_add_room:
  assumes "env_ok E" "map_inv E m" "\<not> is_ordered m" "slot_is_filled index" "\<not> has_key E (content m) index"
    and "size (content m) < alloc m"
  shows "\<exists>i m'. mp_map_lookup E (Suc (Suc n)) c m index MP_MAP_LOOKUP_ADD_IF_NOT_FOUND = (Inr (Some i), m', c) \<and>
     added E m index i m' \<and> alloc m' = alloc m"
proof -
  have "\<not> cache_hit m c index MP_MAP_LOOKUP_ADD_IF_NOT_FOUND"
    using cache_hit_ok [OF assms(2) _ assms(4)] slot_ok_has_key assms(5) by blast
  then show ?thesis
    using hash_lookup_insert [OF assms(1-3) lookup_eq_decides [OF assms(1,2)] assms(5,6,4)] assms(3,6)
    by (simp add: mp_map_lookup_unfold [OF assms(2)])
qed

section \<open>Growing a hash table\<close>

lemma rehash_loop_ok:
  assumes "env_ok E" "map_inv E m" "\<not> is_ordered m"
    and "keys_distinct E (filled_mset es + content m)" "size (filled_mset es) + size (content m) \<le> alloc m"
  shows "\<exists>m'. rehash_loop (\<lambda>c m k. mp_map_lookup E (Suc (Suc n)) c m k MP_MAP_LOOKUP_ADD_IF_NOT_FOUND) es c m = (Inr (), m', c) \<and>
     map_inv E m' \<and> content m' = filled_mset es + content m \<and> \<not> is_ordered m' \<and> is_fixed m' = is_fixed m \<and> alloc m' = alloc m"
  using assms(2-5)
proof (induction es arbitrary: m)
  case Nil
  then show ?case by simp
next
  case (Cons e es)
  show ?case
  proof (cases "filled_elem e")
    case False
    then show ?thesis using Cons.IH [OF Cons.prems(1,2)] Cons.prems(3,4) by simp
  next
    case True
    have kd: "keys_distinct E (add_mset e (filled_mset es + content m))" using Cons.prems(3) True by simp
    have "\<not> has_key E (filled_mset es + content m) (elem_key e)"
      using has_key_rest [OF assms(1) kd, of e] by simp
    then have absent: "\<not> has_key E (content m) (elem_key e)" by (auto simp: has_key_def)
    obtain i m1 where m1: "mp_map_lookup E (Suc (Suc n)) c m (elem_key e) MP_MAP_LOOKUP_ADD_IF_NOT_FOUND = (Inr (Some i), m1, c)"
        "added E m (elem_key e) i m1" "alloc m1 = alloc m"
      using lookup_add_room [OF assms(1) Cons.prems(1,2) True absent] Cons.prems(4) True by fastforce
    let ?m2 = "store_value m1 i (elem_value e)"
    have slot: "i < length (table m1)" "table m1 ! i = new_elem (elem_key e)" "map_inv E m1"
        "content m1 = add_mset (new_elem (elem_key e)) (content m)" "\<not> is_ordered m1" "is_fixed m1 = is_fixed m"
      using m1(2) Cons.prems(2) by (simp_all add: added_def)
    have "filled_elem (table m1 ! i)" using slot(2) True by (simp add: new_elem_def)
    note st = store_value_ok [OF assms(1) slot(3,1) this, of "elem_value e"]
    have "content ?m2 = add_mset e (content m)"
      using st(2) slot by (simp add: new_elem_def)
    then have "keys_distinct E (filled_mset es + content ?m2)" "size (filled_mset es) + size (content ?m2) \<le> alloc ?m2"
        "filled_mset (e # es) + content m = filled_mset es + content ?m2"
      using kd Cons.prems(4) True m1(3) by (simp_all add: store_value_def)
    moreover have "\<not> is_ordered ?m2" "is_fixed ?m2 = is_fixed m" "alloc ?m2 = alloc m"
      using slot m1(3) by (simp_all add: store_value_def)
    ultimately show ?thesis
      using Cons.IH [OF st(1)] True m1(1) slot(1) by auto
  qed
qed

lemma empty_table_inv:
  "map_inv E (m\<lparr>alloc := n, used := 0, all_keys_are_qstrs := True, table := replicate n null_elem\<rparr>)" if "\<not> is_ordered m"
  using that by (simp add: map_inv_def content_def chain_ok_def)

lemma rehash_ok:
  assumes "env_ok E" "map_inv E m" "\<not> is_ordered m"
    and "m_new_ok E (get_hash_alloc_greater_or_equal_to (alloc m + 1))"
  shows "\<exists>m'. rehash_of E (Suc (Suc n)) c m = (Inr (), m', c) \<and> map_inv E m' \<and> content m' = content m \<and>
     \<not> is_ordered m' \<and> is_fixed m' = is_fixed m \<and> size (content m') < alloc m'"
proof -
  let ?na = "get_hash_alloc_greater_or_equal_to (alloc m + 1)"
  let ?m0 = "m\<lparr>alloc := ?na, used := 0, all_keys_are_qstrs := True, table := replicate ?na null_elem\<rparr>"
  have al: "alloc m = length (table m)" and kd: "keys_distinct E (content m)" using assms(2) by (simp_all add: map_inv_def)
  have c0: "content ?m0 = {#}" by (simp add: content_def)
  have ge: "alloc m + 1 \<le> ?na" by (rule get_hash_alloc_ge)
  have sz: "size (content m) < ?na" using ge size_filled_le [of "table m"] al by (simp add: content_def)
  have "rehash_of E (Suc (Suc n)) c m =
      rehash_loop (\<lambda>c m k. mp_map_lookup E (Suc (Suc n)) c m k MP_MAP_LOOKUP_ADD_IF_NOT_FOUND) (table m) c ?m0"
    using assms(4) al by (simp add: mp_map_rehash_def Let_def)
  moreover have "keys_distinct E (filled_mset (table m) + content ?m0)" using kd c0 by (simp add: content_def)
  moreover have "size (filled_mset (table m)) + size (content ?m0) \<le> alloc ?m0" using sz c0 by (simp add: content_def)
  ultimately show ?thesis
    using rehash_loop_ok [OF assms(1) empty_table_inv [OF assms(3)], of ?na "table m" n c] sz c0 assms(3)
    by (fastforce simp: content_def)
qed

text \<open>Growth: what the next \<open>MP_MAP_LOOKUP_ADD_IF_NOT_FOUND\<close> allocates when the table is full.\<close>

definition growth :: "mp_map_t \<Rightarrow> nat" where
  "growth m = (if is_ordered m then alloc m + 4 else get_hash_alloc_greater_or_equal_to (alloc m + 1))"

definition can_add :: "obj_env \<Rightarrow> mp_map_t \<Rightarrow> bool" where
  "can_add E m \<longleftrightarrow> (used m = alloc m \<longrightarrow> m_new_ok E (growth m))"

lemma added_content: "added E m1 index i m' \<Longrightarrow> content m1 = content m \<Longrightarrow> \<not> is_ordered m \<Longrightarrow> \<not> is_ordered m1 \<Longrightarrow>
  is_fixed m1 = is_fixed m \<Longrightarrow> added E m index i m'"
  by (simp add: added_def)

lemma hash_full_used: "map_inv E m \<Longrightarrow> \<not> size (content m) < alloc m \<Longrightarrow> used m = alloc m"
  using size_filled_le [of "table m"] by (simp add: map_inv_def content_def)

lemma lookup_add_ok:
  assumes "env_ok E" "map_inv E m" "slot_is_filled index" "\<not> has_key E (content m) index" "can_add E m"
  shows "\<exists>i m'. mp_map_lookup E (Suc (Suc (Suc n))) c m index MP_MAP_LOOKUP_ADD_IF_NOT_FOUND = (Inr (Some i), m', c) \<and>
     added E m index i m'"
proof -
  have no_hit: "\<not> cache_hit m c index MP_MAP_LOOKUP_ADD_IF_NOT_FOUND"
    using cache_hit_ok [OF assms(2) _ assms(3)] slot_ok_has_key assms(4) by blast
  note dec = lookup_eq_decides [OF assms(1,2), of index]
  consider "is_ordered m" | "\<not> is_ordered m" "size (content m) < alloc m" | "\<not> is_ordered m" "\<not> size (content m) < alloc m"
    by blast
  then show ?thesis
  proof cases
    case 1
    then have "used m = alloc m \<longrightarrow> m_new_ok E (alloc m + 4)" using assms(5) by (simp add: can_add_def growth_def)
    from ordered_add_ok [OF assms(1,2) 1 assms(4,3) this, of c] obtain m' where
      "ordered_add E c m index = (Inr (Some (used m)), m', c)" "added E m index (used m) m'"
      using 1 by (auto simp: added_def new_elem_def)
    then show ?thesis
      using no_hit linear_absent [OF assms(1,2) 1 assms(4)] 1
      by (auto simp: mp_map_lookup_unfold [OF assms(2)] ordered_lookup_def)
  next
    case 2
    from lookup_add_room [OF assms(1,2) 2(1) assms(3,4) 2(2)] show ?thesis by blast
  next
    case 3
    have "m_new_ok E (get_hash_alloc_greater_or_equal_to (alloc m + 1))"
      using assms(5) 3 hash_full_used [OF assms(2)] by (simp add: can_add_def growth_def)
    from rehash_ok [OF assms(1,2) 3(1) this, of n c] obtain m1 where
      m1: "rehash_of E (Suc (Suc n)) c m = (Inr (), m1, c)" "map_inv E m1" "content m1 = content m"
        "\<not> is_ordered m1" "is_fixed m1 = is_fixed m" "size (content m1) < alloc m1" by blast
    have d1: "decides E m1 index (lookup_eq E m index)" using dec m1(3) by (simp add: decides_def)
    have ab: "\<not> has_key E (content m1) index" using assms(4) m1(3) by simp
    have ins: "\<exists>i m'. hash_lookup (rehash_of E (Suc (Suc n))) (Suc k) (lookup_eq E m index) (map_hash E index) c m1 index
        MP_MAP_LOOKUP_ADD_IF_NOT_FOUND = (Inr (Some i), m', c) \<and> added E m index i m'" for k
      using hash_lookup_insert [OF assms(1) m1(2,4) d1 ab m1(6) assms(3)] added_content m1 3(1) by meson
    show ?thesis
    proof (cases "alloc m = 0")
      case True
      then show ?thesis using ins no_hit 3(1) m1(1) by (simp add: mp_map_lookup_unfold [OF assms(2)])
    next
      case False
      from map_probe_absent [OF assms(1,2) 3(1) dec assms(4) _ assms(3)] 3 False
      have "map_probe E (lookup_eq E m index) m index = ProbeFull None \<or>
         (\<exists>a < length (table m). \<not> filled_elem (table m ! a))" by auto
      moreover have "\<not> (\<exists>a < length (table m). \<not> filled_elem (table m ! a))"
      proof
        assume "\<exists>a < length (table m). \<not> filled_elem (table m ! a)"
        then obtain a where a: "a < length (table m)" "\<not> filled_elem (table m ! a)" by blast
        have "filled_mset (table m) \<subset># mset (table m)"
          using a unfolding filled_mset_def
          by (metis filter_mset_eq_conv multiset_filter_subset nth_mem_mset subset_mset.le_neq_trans)
        then have "size (content m) < length (table m)"
          by (metis content_def mset_subset_size size_mset)
        then show False using 3(2) assms(2) by (simp add: map_inv_def)
      qed
      ultimately have full: "map_probe E (lookup_eq E m index) m index = ProbeFull None" by blast
      have "hash_lookup (rehash_of E (Suc (Suc n))) (Suc (Suc n)) (lookup_eq E m index) (map_hash E index) c m index
          MP_MAP_LOOKUP_ADD_IF_NOT_FOUND =
        hash_lookup (rehash_of E (Suc (Suc n))) (Suc n) (lookup_eq E m index) (map_hash E index) c m1 index
          MP_MAP_LOOKUP_ADD_IF_NOT_FOUND"
        unfolding hash_lookup.simps(2) [where n = "Suc n"] full m1(1) by simp
      then show ?thesis
        using ins [of n] no_hit 3(1) False by (simp add: mp_map_lookup_unfold [OF assms(2)])
    qed
  qed
qed

end
