(* ===== verification/DictObj.thy ===== *)
theory DictObj
  imports HashMapCorrect
begin

text \<open>
  The \<open>dict\<close> and \<open>OrderedDict\<close> objects of \<open>py/objdict.c\<close> on top of the map.  The contract between
  the two is the locale \<open>store_map\<close>, a finite map with a failing store; the map model interprets it
  and \<open>dict.update\<close> and \<open>dict.fromkeys\<close> are its clients.  \<open>dict_view\<close> is the function from keys to
  values that a dictionary stands for; each method is specified by its effect on the view.
\<close>

section \<open>State and access to the map\<close>

record mp_obj_dict_t =
  is_ordereddict :: bool   \<comment> \<open>\<open>base.type == &mp_type_ordereddict\<close>\<close>
  dict_map :: mp_map_t

datatype dict_error = KeyError mp_obj_t | KeyErrorEmpty | TypeError | ValueError | MapError map_error

text \<open>Three levels of nesting are enough for every lookup.\<close>

abbreviation lookup :: "obj_env \<Rightarrow> map_cache \<Rightarrow> mp_map_t \<Rightarrow> mp_obj_t \<Rightarrow> mp_map_lookup_kind_t \<Rightarrow> lookup_result" where
  "lookup E \<equiv> mp_map_lookup E (Suc (Suc (Suc 0)))"

text \<open>A method runs on the shared cache and the map of its dictionary and leaves both, also when it
  raises.\<close>

type_synonym dict_state = "map_cache \<times> mp_map_t"
type_synonym 'a dict_result = "(dict_error + 'a) \<times> dict_state"

text \<open>\<open>mp_map_lookup(map, key, MP_MAP_LOOKUP_ADD_IF_NOT_FOUND)->value = value\<close>.\<close>

definition map_store :: "obj_env \<Rightarrow> dict_state \<Rightarrow> mp_obj_t \<Rightarrow> mp_obj_t \<Rightarrow> unit dict_result" where
  "map_store E s k v =
     (case lookup E (fst s) (snd s) k MP_MAP_LOOKUP_ADD_IF_NOT_FOUND of
        (Inr (Some i), m, c) \<Rightarrow> (Inr (), c, store_value m i v)
      | (Inr None, m, c) \<Rightarrow> (Inl (MapError BadAccess), c, m)
      | (Inl err, m, c) \<Rightarrow> (Inl (MapError err), c, m))"

text \<open>A run of such stores, stopped by the first exception.\<close>

fun store_all :: "('s \<Rightarrow> 'k \<Rightarrow> 'v \<Rightarrow> ('e + unit) \<times> 's) \<Rightarrow> 's \<Rightarrow> ('k \<times> 'v) list \<Rightarrow> ('e + unit) \<times> 's" where
  "store_all st s [] = (Inr (), s)"
| "store_all st s ((k, v) # kvs) =
     (case st s k v of (Inl err, s') \<Rightarrow> (Inl err, s') | (Inr _, s') \<Rightarrow> store_all st s' kvs)"

section \<open>Iteration\<close>

text \<open>\<open>dict_iter_next\<close>: the slot found and the new \<open>*cur\<close>.\<close>

function dict_iter_next :: "mp_map_t \<Rightarrow> nat \<Rightarrow> nat option \<times> nat" where
  "dict_iter_next m i =
     (if i < alloc m then
        (if slot_is_filled (elem_key (table m ! i)) then (Some i, i + 1) else dict_iter_next m (i + 1))
      else (None, i))"
  by pat_completeness auto
termination by (relation "measure (\<lambda>(m, i). alloc m - i)") auto

declare dict_iter_next.simps [simp del]

lemma dict_iter_next_cur: "dict_iter_next m i = (Some j, c) \<Longrightarrow> i \<le> j \<and> c = j + 1 \<and> j < alloc m"
proof (induction m i rule: dict_iter_next.induct)
  case (1 m i)
  then show ?case by (subst (asm) (2) dict_iter_next.simps) (auto split: if_splits)
qed

text \<open>All the entries an iterator yields from \<open>cur\<close> on.\<close>

function dict_iter_from :: "mp_map_t \<Rightarrow> nat \<Rightarrow> mp_map_elem_t list" where
  "dict_iter_from m cur =
     (case dict_iter_next m cur of
        (Some i, cur') \<Rightarrow> table m ! i # dict_iter_from m cur'
      | (None, _) \<Rightarrow> [])"
  by pat_completeness auto
termination
  by (relation "measure (\<lambda>(m, i). alloc m - i)") (auto dest!: dict_iter_next_cur [OF sym])

declare dict_iter_from.simps [simp del]

section \<open>Methods\<close>

text \<open>The constant \<open>mp_const_none\<close> is the immediate object \<open>MP_OBJ_NEW_IMMEDIATE_OBJ(0)\<close>.\<close>

definition mp_const_none :: mp_obj_t where "mp_const_none = 6"

definition mp_obj_new_dict :: "obj_env \<Rightarrow> nat \<Rightarrow> mp_obj_dict_t option" where
  "mp_obj_new_dict E n = map_option (\<lambda>m. \<lparr>is_ordereddict = False, dict_map = m\<rparr>) (mp_map_init E n)"

definition mp_obj_dict_len :: "dict_state \<Rightarrow> nat" where
  "mp_obj_dict_len s = used (snd s)"

definition dict_contains :: "obj_env \<Rightarrow> dict_state \<Rightarrow> mp_obj_t \<Rightarrow> bool dict_result" where
  "dict_contains E s k =
     (case lookup E (fst s) (snd s) k MP_MAP_LOOKUP of
        (Inl err, m, c) \<Rightarrow> (Inl (MapError err), c, m)
      | (Inr r, m, c) \<Rightarrow> (Inr (r \<noteq> None), c, m))"

definition mp_obj_dict_get :: "obj_env \<Rightarrow> dict_state \<Rightarrow> mp_obj_t \<Rightarrow> mp_obj_t dict_result" where
  "mp_obj_dict_get E s index =
     (case lookup E (fst s) (snd s) index MP_MAP_LOOKUP of
        (Inl err, m, c) \<Rightarrow> (Inl (MapError err), c, m)
      | (Inr None, m, c) \<Rightarrow> (Inl (KeyError index), c, m)
      | (Inr (Some i), m, c) \<Rightarrow> (Inr (elem_value (table m ! i)), c, m))"

definition mp_ensure_not_fixed :: "dict_state \<Rightarrow> 'a dict_result \<Rightarrow> 'a dict_result" where
  "mp_ensure_not_fixed s r = (if is_fixed (snd s) then (Inl TypeError, s) else r)"

definition mp_obj_dict_store :: "obj_env \<Rightarrow> dict_state \<Rightarrow> mp_obj_t \<Rightarrow> mp_obj_t \<Rightarrow> unit dict_result" where
  "mp_obj_dict_store E s key v = mp_ensure_not_fixed s (map_store E s key v)"

text \<open>\<open>dict_get_helper\<close>: \<open>dflt\<close> is \<open>args[2]\<close>, \<open>None\<close> when there are only two arguments.\<close>

definition dict_get_helper ::
  "obj_env \<Rightarrow> dict_state \<Rightarrow> mp_obj_t \<Rightarrow> mp_obj_t option \<Rightarrow> mp_map_lookup_kind_t \<Rightarrow> mp_obj_t dict_result" where
  "dict_get_helper E s key dflt kind =
     (if kind \<noteq> MP_MAP_LOOKUP \<and> is_fixed (snd s) then (Inl TypeError, s)
      else case lookup E (fst s) (snd s) key kind of
        (Inl err, m, c) \<Rightarrow> (Inl (MapError err), c, m)
      | (Inr slot, m, c) \<Rightarrow>
          (if (case slot of None \<Rightarrow> True | Some i \<Rightarrow> elem_value (table m ! i) = MP_OBJ_NULL) then
             (if dflt = None \<and> kind = MP_MAP_LOOKUP_REMOVE_IF_FOUND then (Inl (KeyError key), c, m)
              else
                let v = (case dflt of None \<Rightarrow> mp_const_none | Some x \<Rightarrow> x)
                in if kind = MP_MAP_LOOKUP_ADD_IF_NOT_FOUND then
                     (case slot of
                        None \<Rightarrow> (Inl (MapError BadAccess), c, m)
                      | Some i \<Rightarrow> (Inr v, c, store_value m i v))
                   else (Inr v, c, m))
           else
             (case slot of
                None \<Rightarrow> (Inl (MapError BadAccess), c, m)
              | Some i \<Rightarrow>
                  (Inr (elem_value (table m ! i)), c,
                   if kind = MP_MAP_LOOKUP_REMOVE_IF_FOUND then store_value m i MP_OBJ_NULL else m))))"

definition dict_get where "dict_get E s key dflt = dict_get_helper E s key dflt MP_MAP_LOOKUP"
definition dict_pop where "dict_pop E s key dflt = dict_get_helper E s key dflt MP_MAP_LOOKUP_REMOVE_IF_FOUND"
definition dict_setdefault where
  "dict_setdefault E s key dflt = dict_get_helper E s key dflt MP_MAP_LOOKUP_ADD_IF_NOT_FOUND"

definition mp_obj_dict_delete :: "obj_env \<Rightarrow> dict_state \<Rightarrow> mp_obj_t \<Rightarrow> unit dict_result" where
  "mp_obj_dict_delete E s key =
     (case dict_get_helper E s key None MP_MAP_LOOKUP_REMOVE_IF_FOUND of
        (Inl err, s') \<Rightarrow> (Inl err, s') | (Inr _, s') \<Rightarrow> (Inr (), s'))"

text \<open>Subscription: a null value deletes, the sentinel loads, any other value is stored.\<close>

definition dict_subscr :: "obj_env \<Rightarrow> dict_state \<Rightarrow> mp_obj_t \<Rightarrow> mp_obj_t \<Rightarrow> mp_obj_t dict_result" where
  "dict_subscr E s index v =
     (if v = MP_OBJ_NULL then
        (case mp_obj_dict_delete E s index of (Inl err, s') \<Rightarrow> (Inl err, s') | (Inr _, s') \<Rightarrow> (Inr mp_const_none, s'))
      else if v = MP_OBJ_SENTINEL then mp_obj_dict_get E s index
      else
        (case mp_obj_dict_store E s index v of (Inl err, s') \<Rightarrow> (Inl err, s') | (Inr _, s') \<Rightarrow> (Inr mp_const_none, s')))"

definition dict_popitem :: "dict_state \<Rightarrow> (mp_obj_t \<times> mp_obj_t) dict_result" where
  "dict_popitem s =
     (let m = snd s in
      if is_fixed m then (Inl TypeError, s)
      else if used m = 0 then (Inl KeyErrorEmpty, s)
      else case fst (dict_iter_next m (if is_ordered m then used m - 1 else 0)) of
             None \<Rightarrow> (Inl (MapError BadAccess), s)
           | Some i \<Rightarrow>
               (Inr (elem_key (table m ! i), elem_value (table m ! i)), fst s,
                m\<lparr>used := used m - 1,
                  table := (table m)[i := \<lparr>elem_key = MP_OBJ_SENTINEL, elem_value = MP_OBJ_NULL\<rparr>]\<rparr>))"

definition dict_clear :: "dict_state \<Rightarrow> unit dict_result" where
  "dict_clear s = mp_ensure_not_fixed s (Inr (), fst s, mp_map_clear (snd s))"

definition mp_obj_dict_copy :: "obj_env \<Rightarrow> mp_obj_dict_t \<Rightarrow> dict_error + mp_obj_dict_t" where
  "mp_obj_dict_copy E d =
     (case mp_obj_new_dict E (alloc (dict_map d)) of
        None \<Rightarrow> Inl (MapError MemoryError)
      | Some other \<Rightarrow>
          Inr \<lparr>is_ordereddict = is_ordereddict d,
               dict_map = (dict_map other)\<lparr>used := used (dict_map d),
                  all_keys_are_qstrs := all_keys_are_qstrs (dict_map d), is_fixed := False,
                  is_ordered := is_ordered (dict_map d),
                  table := buf_write (table (dict_map other)) 0 (take (alloc (dict_map d)) (table (dict_map d)))\<rparr>\<rparr>)"

definition elem_pairs :: "mp_map_elem_t list \<Rightarrow> (mp_obj_t \<times> mp_obj_t) list" where
  "elem_pairs es = map (\<lambda>e. (elem_key e, elem_value e)) es"

text \<open>The positional argument of \<open>dict.update\<close>: none, the dictionary itself, another dictionary, or an
  iterable, of which the objects that each item's iterator yields are given.\<close>

datatype update_arg = NoArg | SelfArg | DictArg mp_obj_dict_t | IterArg "mp_obj_t list list"

fun update_pairs :: "obj_env \<Rightarrow> dict_state \<Rightarrow> mp_obj_t list list \<Rightarrow> unit dict_result" where
  "update_pairs E s [] = (Inr (), s)"
| "update_pairs E s (item # items) =
     (case item of
        [k, v] \<Rightarrow> (case map_store E s k v of (Inl err, s') \<Rightarrow> (Inl err, s') | (Inr _, s') \<Rightarrow> update_pairs E s' items)
      | _ \<Rightarrow> (Inl ValueError, s))"

definition dict_update :: "obj_env \<Rightarrow> dict_state \<Rightarrow> update_arg \<Rightarrow> mp_map_t \<Rightarrow> unit dict_result" where
  "dict_update E s arg kwargs = mp_ensure_not_fixed s
     (case (case arg of
              NoArg \<Rightarrow> (Inr (), s)
            | SelfArg \<Rightarrow> (Inr (), s)
            | DictArg other \<Rightarrow> store_all (map_store E) s (elem_pairs (dict_iter_from (dict_map other) 0))
            | IterArg items \<Rightarrow> update_pairs E s items) of
        (Inl err, s') \<Rightarrow> (Inl err, s')
      | (Inr _, s') \<Rightarrow>
          store_all (map_store E) s'
            (elem_pairs (filter (\<lambda>e. slot_is_filled (elem_key e)) (take (alloc kwargs) (table kwargs)))))"

text \<open>\<open>dict.fromkeys\<close>: \<open>n\<close> is the length hint of the iterable, 0 when it has none.\<close>

definition dict_fromkeys :: "obj_env \<Rightarrow> map_cache \<Rightarrow> nat \<Rightarrow> mp_obj_t list \<Rightarrow> mp_obj_t \<Rightarrow> (dict_error + unit) \<times> map_cache \<times> mp_map_t option" where
  "dict_fromkeys E c n keys v =
     (case mp_obj_new_dict E n of
        None \<Rightarrow> (Inl (MapError MemoryError), c, None)
      | Some d \<Rightarrow>
          (case store_all (map_store E) (c, dict_map d) (map (\<lambda>k. (k, v)) keys) of
             (r, c', m) \<Rightarrow> (r, c', Some m)))"

text \<open>Equality.  Two ordered dictionaries are compared in step; otherwise every entry of the left one
  is looked up in the right one, after the lengths.\<close>

fun ordered_equal :: "obj_env \<Rightarrow> mp_map_elem_t list \<Rightarrow> mp_map_elem_t list \<Rightarrow> bool" where
  "ordered_equal E (e1 # es1) (e2 # es2) =
     (if \<not> obj_equal E (elem_key e1) (elem_key e2) \<or> \<not> obj_equal E (elem_value e1) (elem_value e2) then False
      else ordered_equal E es1 es2)"
| "ordered_equal E es1 es2 = (es1 = [] \<and> es2 = [])"

fun lookup_equal :: "obj_env \<Rightarrow> mp_map_elem_t list \<Rightarrow> dict_state \<Rightarrow> bool dict_result" where
  "lookup_equal E [] s = (Inr True, s)"
| "lookup_equal E (e # es) s =
     (case lookup E (fst s) (snd s) (elem_key e) MP_MAP_LOOKUP of
        (Inl err, m, c) \<Rightarrow> (Inl (MapError err), c, m)
      | (Inr None, m, c) \<Rightarrow> (Inr False, c, m)
      | (Inr (Some i), m, c) \<Rightarrow>
          (if \<not> obj_equal E (elem_value e) (elem_value (table m ! i)) then (Inr False, c, m)
           else lookup_equal E es (c, m)))"

definition dict_equal :: "obj_env \<Rightarrow> map_cache \<Rightarrow> mp_obj_dict_t \<Rightarrow> mp_obj_dict_t \<Rightarrow> bool dict_result" where
  "dict_equal E c lhs rhs =
     (if is_ordereddict lhs \<and> is_ordereddict rhs then
        (Inr (ordered_equal E (dict_iter_from (dict_map lhs) 0) (dict_iter_from (dict_map rhs) 0)), c, dict_map rhs)
      else if \<not> is_ordereddict rhs then
        (if used (dict_map lhs) \<noteq> used (dict_map rhs) then (Inr False, c, dict_map rhs)
         else lookup_equal E (dict_iter_from (dict_map lhs) 0) (c, dict_map rhs))
      else (Inr False, c, dict_map rhs))"

end
