(* ===== verification/DictCorrect.thy ===== *)
theory DictCorrect
  imports DictObj
begin

text \<open>
  The dictionary as a finite map.  \<open>dict_view\<close> is the function from keys to values; the locale
  \<open>store_map\<close> is what a client of the map relies on while memory lasts, \<open>failing_map\<close> is the contract of
  stores that may fail and of deletions, and the map and dictionary models interpret them.
\<close>

section \<open>The contract of a finite map\<close>

definition upd_key :: "('k \<Rightarrow> 'k \<Rightarrow> bool) \<Rightarrow> ('k \<Rightarrow> 'v option) \<Rightarrow> 'k \<Rightarrow> 'v option \<Rightarrow> ('k \<Rightarrow> 'v option)" where
  "upd_key eqk f k v = (\<lambda>k'. if eqk k k' then v else f k')"

locale store_map =
  fixes inv :: "'s \<Rightarrow> bool" and okk :: "'k \<Rightarrow> bool" and okv :: "'v \<Rightarrow> bool"
    and eqk :: "'k \<Rightarrow> 'k \<Rightarrow> bool" and look :: "'s \<Rightarrow> 'k \<Rightarrow> 'v option"
    and put :: "'s \<Rightarrow> 'k \<Rightarrow> 'v \<Rightarrow> ('e + unit) \<times> 's"
  assumes put_ok: "inv s \<Longrightarrow> okk k \<Longrightarrow> okv v \<Longrightarrow>
    \<exists>s'. put s k v = (Inr (), s') \<and> inv s' \<and> look s' = upd_key eqk (look s) k (Some v)"
begin

lemma store_all_ok:
  assumes "inv s" "\<forall>(k, v) \<in> set kvs. okk k \<and> okv v"
  shows "\<exists>s'. store_all put s kvs = (Inr (), s') \<and> inv s' \<and>
    look s' = foldl (\<lambda>f (k, v). upd_key eqk f k (Some v)) (look s) kvs"
  using assms
proof (induction kvs arbitrary: s)
  case Nil
  then show ?case by simp
next
  case (Cons kv kvs)
  obtain k v where kv: "kv = (k, v)" by (cases kv)
  obtain s1 where s1: "put s k v = (Inr (), s1)" "inv s1" "look s1 = upd_key eqk (look s) k (Some v)"
    using put_ok [of s k v] Cons.prems kv by auto
  from Cons.IH [OF s1(2)] Cons.prems(2) s1(1,3) kv show ?case by auto
qed

end

text \<open>A run of stores and deletions, with what each returned.  A store carries the sizes that the allocator
  grants it.\<close>

datatype ('k, 'v) map_op = Put "nat \<Rightarrow> bool" 'k 'v | Del 'k

fun run_ops :: "((nat \<Rightarrow> bool) \<Rightarrow> 's \<Rightarrow> 'k \<Rightarrow> 'v \<Rightarrow> ('e + unit) \<times> 's) \<Rightarrow> ('s \<Rightarrow> 'k \<Rightarrow> ('e + unit) \<times> 's) \<Rightarrow> 's \<Rightarrow>
    ('k, 'v) map_op list \<Rightarrow> ('e + unit) list \<times> 's" where
  "run_ops put del s [] = ([], s)"
| "run_ops put del s (Put mem k v # ops) = (case put mem s k v of (r, s1) \<Rightarrow> apfst ((#) r) (run_ops put del s1 ops))"
| "run_ops put del s (Del k # ops) = (case del s k of (r, s1) \<Rightarrow> apfst ((#) r) (run_ops put del s1 ops))"

text \<open>The same run on a finite map: None when a result is wrong.  A store succeeds, or changes nothing and
  reports that some size was refused; a deletion succeeds when the key is bound.\<close>

fun spec_run :: "('k \<Rightarrow> 'k \<Rightarrow> bool) \<Rightarrow> 'e \<Rightarrow> ('k \<Rightarrow> 'e) \<Rightarrow> ('k \<Rightarrow> 'v option) \<Rightarrow> ('k, 'v) map_op list \<Rightarrow> ('e + unit) list \<Rightarrow>
    ('k \<Rightarrow> 'v option) option" where
  "spec_run eqk full missing f [] [] = Some f"
| "spec_run eqk full missing f (Put mem k v # ops) (r # rs) =
     (if r = Inr () then spec_run eqk full missing (upd_key eqk f k (Some v)) ops rs
      else if r = Inl full \<and> \<not> (\<forall>n. mem n) then spec_run eqk full missing f ops rs
      else None)"
| "spec_run eqk full missing f (Del k # ops) (r # rs) =
     (if r = (if f k = None then Inl (missing k) else Inr ()) then spec_run eqk full missing (upd_key eqk f k None) ops rs else None)"
| "spec_run eqk full missing f _ _ = None"

fun op_ok :: "('k \<Rightarrow> bool) \<Rightarrow> ('v \<Rightarrow> bool) \<Rightarrow> ('k, 'v) map_op \<Rightarrow> bool" where
  "op_ok okk okv (Put mem k v) = (okk k \<and> okv v)"
| "op_ok okk okv (Del k) = okk k"

text \<open>A map whose store may fail.  A failure is harmless when the map is \<open>safe\<close>.\<close>

locale failing_map =
  fixes inv :: "'s \<Rightarrow> bool" and safe :: "'s \<Rightarrow> bool" and okk :: "'k \<Rightarrow> bool" and okv :: "'v \<Rightarrow> bool"
    and eqk :: "'k \<Rightarrow> 'k \<Rightarrow> bool" and look :: "'s \<Rightarrow> 'k \<Rightarrow> 'v option" and full :: 'e and missing :: "'k \<Rightarrow> 'e"
    and put :: "(nat \<Rightarrow> bool) \<Rightarrow> 's \<Rightarrow> 'k \<Rightarrow> 'v \<Rightarrow> ('e + unit) \<times> 's" and del :: "'s \<Rightarrow> 'k \<Rightarrow> ('e + unit) \<times> 's"
  assumes put_stores: "inv s \<Longrightarrow> okk k \<Longrightarrow> okv v \<Longrightarrow>
    (\<exists>s'. put mem s k v = (Inr (), s') \<and> inv s' \<and> safe s' = safe s \<and> look s' = upd_key eqk (look s) k (Some v)) \<or>
    (\<exists>s'. put mem s k v = (Inl full, s') \<and> \<not> (\<forall>n. mem n) \<and> (safe s \<longrightarrow> inv s' \<and> safe s' \<and> look s' = look s))"
  and del_removes: "inv s \<Longrightarrow> okk k \<Longrightarrow>
    \<exists>s'. del s k = (if look s k = None then Inl (missing k) else Inr (), s') \<and> inv s' \<and> safe s' = safe s \<and>
      look s' = upd_key eqk (look s) k None"
begin

lemma run_ops_ok:
  assumes "inv s" "\<forall>x \<in> set ops. op_ok okk okv x" "run_ops put del s ops = (rs, s')" "safe s \<or> Inl full \<notin> set rs"
  shows "inv s' \<and> spec_run eqk full missing (look s) ops rs = Some (look s')"
  using assms
proof (induction ops arbitrary: s rs)
  case Nil
  then show ?case by auto
next
  case (Cons x ops)
  show ?case
  proof (cases x)
    case (Put mem k v)
    obtain r s1 where p: "put mem s k v = (r, s1)" by (cases "put mem s k v")
    obtain rs1 where rs: "rs = r # rs1" "run_ops put del s1 ops = (rs1, s')"
      using Cons.prems(3) by (cases "run_ops put del s1 ops") (auto simp: Put p)
    from put_stores [of s k v mem] Cons.prems(1,2) consider
        "r = Inr ()" "inv s1" "safe s1 = safe s" "look s1 = upd_key eqk (look s) k (Some v)"
      | "r = Inl full" "\<not> (\<forall>n. mem n)" "safe s \<longrightarrow> inv s1 \<and> safe s1 \<and> look s1 = look s"
      by (auto simp: Put p)
    then show ?thesis
    proof cases
      case 1
      then show ?thesis using Cons.IH [OF 1(2) _ rs(2)] Cons.prems(2,4) by (auto simp: Put rs(1))
    next
      case 2
      then have s1: "inv s1" "safe s1" "look s1 = look s" using Cons.prems(4) by (auto simp: rs(1))
      then show ?thesis using Cons.IH [OF s1(1) _ rs(2)] Cons.prems(2) 2 by (auto simp: Put rs(1))
    qed
  next
    case (Del k)
    obtain s1 where d: "del s k = (if look s k = None then Inl (missing k) else Inr (), s1)" "inv s1" "safe s1 = safe s"
      "look s1 = upd_key eqk (look s) k None" using del_removes [of s k] Cons.prems(1,2) by (auto simp: Del)
    obtain rs1 where rs: "rs = (if look s k = None then Inl (missing k) else Inr ()) # rs1" "run_ops put del s1 ops = (rs1, s')"
      using Cons.prems(3) d(1) by (cases "run_ops put del s1 ops") (auto simp: Del)
    show ?thesis using Cons.IH [OF d(2) _ rs(2)] Cons.prems(2,4) d(3,4) by (auto simp: Del rs(1))
  qed
qed

end

section \<open>The view of a map\<close>

definition dict_view :: "obj_env \<Rightarrow> mp_map_t \<Rightarrow> mp_obj_t \<Rightarrow> mp_obj_t option" where
  "dict_view E m k =
     map_option elem_value (find (\<lambda>e. slot_is_filled (elem_key e) \<and> same E (elem_key e) k) (table m))"

definition bound :: "obj_env \<Rightarrow> mp_map_elem_t multiset \<Rightarrow> mp_obj_t \<Rightarrow> mp_obj_t \<Rightarrow> bool" where
  "bound E M k v \<longleftrightarrow> (\<exists>e \<in># M. same E (elem_key e) k \<and> elem_value e = v)"

lemma bound_unique: "env_ok E \<Longrightarrow> keys_distinct E M \<Longrightarrow> bound E M k v \<Longrightarrow> bound E M k w \<Longrightarrow> v = w"
  unfolding bound_def using keys_distinct_unique by metis

lemma view_iff:
  assumes "env_ok E" "map_inv E m"
  shows "dict_view E m k = Some v \<longleftrightarrow> bound E (content m) k v"
proof -
  let ?P = "\<lambda>e. slot_is_filled (elem_key e) \<and> same E (elem_key e) k"
  have kd: "keys_distinct E (content m)" using assms(2) by (simp add: map_inv_def)
  have sound: "bound E (content m) k (elem_value e)" if f: "find ?P (table m) = Some e" for e
  proof -
    from f obtain i where "i < length (table m)" "?P (table m ! i)" "e = table m ! i" by (auto simp: find_Some_iff)
    then show ?thesis using content_nth [of i m] by (auto simp: bound_def)
  qed
  show ?thesis
  proof
    assume "dict_view E m k = Some v"
    then show "bound E (content m) k v" using sound by (auto simp: dict_view_def)
  next
    assume b: "bound E (content m) k v"
    then obtain e where "e \<in># content m" "same E (elem_key e) k" by (auto simp: bound_def)
    then have "\<exists>x \<in> set (table m). ?P x" by (auto simp: content_def filled_mset_def)
    then obtain e' where e': "find ?P (table m) = Some e'" by (cases "find ?P (table m)") (auto simp: find_None_iff)
    with sound b bound_unique [OF assms(1) kd] show "dict_view E m k = Some v" by (auto simp: dict_view_def)
  qed
qed

lemma view_None: "env_ok E \<Longrightarrow> map_inv E m \<Longrightarrow> dict_view E m k = None \<longleftrightarrow> \<not> has_key E (content m) k"
  using view_iff [of E m k] by (cases "dict_view E m k") (auto simp: bound_def has_key_def)

lemma view_content: "env_ok E \<Longrightarrow> map_inv E m \<Longrightarrow> map_inv E m' \<Longrightarrow> content m' = content m \<Longrightarrow> dict_view E m' = dict_view E m"
  by (rule ext) (metis view_iff not_Some_eq)

lemma slot_view: "env_ok E \<Longrightarrow> map_inv E m \<Longrightarrow> slot_ok E m i k \<Longrightarrow> dict_view E m k = Some (elem_value (table m ! i))"
  using content_nth [of i m] by (auto simp: view_iff slot_ok_def bound_def)

lemma bound_add:
  assumes "env_ok E" "\<not> has_key E M (elem_key e)"
  shows "bound E (add_mset e M) k v \<longleftrightarrow> (if same E (elem_key e) k then v = elem_value e else bound E M k v)"
proof -
  have "\<not> bound E M k v" if "same E (elem_key e) k"
    using that assms same_trans [OF assms(1)] same_sym [OF assms(1)] unfolding bound_def has_key_def by meson
  then show ?thesis by (auto simp: bound_def)
qed

lemma bound_remove:
  assumes "env_ok E" "keys_distinct E M" "e \<in># M"
  shows "bound E (M - {#e#}) k v \<longleftrightarrow> \<not> same E (elem_key e) k \<and> bound E M k v"
proof -
  have M: "M = add_mset e (M - {#e#})" using assms(3) by simp
  have "bound E M k v \<longleftrightarrow> (if same E (elem_key e) k then v = elem_value e else bound E (M - {#e#}) k v)"
    using bound_add [OF assms(1) has_key_rest [OF assms]] M by simp
  moreover have "\<not> bound E (M - {#e#}) k v" if "same E (elem_key e) k"
    using that has_key_rest [OF assms] same_trans [OF assms(1)] same_sym [OF assms(1)]
    unfolding bound_def has_key_def by meson
  ultimately show ?thesis by auto
qed

section \<open>Storing\<close>

definition values_ok :: "mp_map_t \<Rightarrow> bool" where
  "values_ok m \<longleftrightarrow> (\<forall>e \<in># content m. elem_value e \<noteq> MP_OBJ_NULL)"

text \<open>What a store does, whether the key was there or not.\<close>

lemma map_store_ok:
  assumes "env_ok E" "map_inv E m" "slot_is_filled k" "has_key E (content m) k \<or> can_add E m"
  shows "\<exists>c' m'. map_store E (c, m) k v = (Inr (), c', m') \<and> map_inv E m' \<and>
     is_fixed m' = is_fixed m \<and> is_ordered m' = is_ordered m \<and>
     dict_view E m' = upd_key (same E) (dict_view E m) k (Some v) \<and> (values_ok m \<and> v \<noteq> MP_OBJ_NULL \<longrightarrow> values_ok m')"
proof -
  have kd: "keys_distinct E (content m)" using assms(2) by (simp add: map_inv_def)
  have main: ?thesis if run: "lookup E c m k MP_MAP_LOOKUP_ADD_IF_NOT_FOUND = (Inr (Some i), m1, c')"
      and m': "map_inv E (store_value m1 i v)" "is_fixed m1 = is_fixed m" "is_ordered m1 = is_ordered m"
      and c': "content (store_value m1 i v) = add_mset e M" "elem_value e = v" "same E (elem_key e) k"
        "\<not> has_key E M (elem_key e)" and M: "\<And>k' x. \<not> same E k k' \<Longrightarrow> bound E M k' x = bound E (content m) k' x"
        "M \<subseteq># content m" for i m1 c' e M
  proof -
    have e_k: "same E (elem_key e) k' = same E k k'" for k'
      using c'(3) same_trans [OF assms(1)] same_sym [OF assms(1)] by blast
    have "dict_view E (store_value m1 i v) k' = upd_key (same E) (dict_view E m) k (Some v) k'" for k'
    proof -
      have "dict_view E (store_value m1 i v) k' = Some x \<longleftrightarrow> upd_key (same E) (dict_view E m) k (Some v) k' = Some x" for x
        using M(1) [of k' x] by (auto simp: view_iff [OF assms(1) m'(1)] c' bound_add [OF assms(1) c'(4)] e_k upd_key_def
            view_iff [OF assms(1,2)])
      then show ?thesis by (metis not_Some_eq)
    qed
    moreover have "values_ok m \<and> v \<noteq> MP_OBJ_NULL \<longrightarrow> values_ok (store_value m1 i v)"
      using M(2) c'(2) by (auto simp: values_ok_def c' dest: mset_subset_eqD)
    moreover have "is_fixed (store_value m1 i v) = is_fixed m" "is_ordered (store_value m1 i v) = is_ordered m"
      using m' by (simp_all add: store_value_def)
    ultimately show ?thesis using run m'(1) by (auto simp: map_store_def)
  qed
  show ?thesis
  proof (cases "has_key E (content m) k")
    case True
    obtain i c' where i: "lookup E c m k MP_MAP_LOOKUP_ADD_IF_NOT_FOUND = (Inr (Some i), m, c')" "slot_ok E m i k"
      using lookup_present_ok [OF assms(1-3) True, of MP_MAP_LOOKUP_ADD_IF_NOT_FOUND "Suc 0" c] by auto
    let ?e = "table m ! i"
    have s: "i < length (table m)" "filled_elem ?e" "same E (elem_key ?e) k" using i(2) by (simp_all add: slot_ok_def)
    note mem = content_nth [OF s(1,2)]
    show ?thesis
    proof (rule main [OF i(1) store_value_ok(1) [OF assms(1,2) s(1,2)] refl refl store_value_ok(2) [OF assms(1,2) s(1,2)]])
      fix k' x assume "\<not> same E k k'"
      then have "\<not> same E (elem_key ?e) k'" using s(3) same_trans [OF assms(1)] same_sym [OF assms(1)] by blast
      then show "bound E (content m - {#?e#}) k' x = bound E (content m) k' x"
        by (simp add: bound_remove [OF assms(1) kd mem])
    qed (use s has_key_rest [OF assms(1) kd mem] in simp_all)
  next
    case False
    then obtain i m1 where i: "lookup E c m k MP_MAP_LOOKUP_ADD_IF_NOT_FOUND = (Inr (Some i), m1, c)" "added E m k i m1"
      using lookup_add_ok [OF assms(1-3) False] assms(4) by blast
    have s: "i < length (table m1)" "filled_elem (table m1 ! i)" "map_inv E m1"
      using i(2) assms(3) by (simp_all add: added_def new_elem_def)
    have c': "content (store_value m1 i v) = add_mset \<lparr>elem_key = k, elem_value = v\<rparr> (content m)"
      using store_value_ok(2) [OF assms(1) s(3,1,2), of v] i(2) by (simp add: added_def new_elem_def)
    show ?thesis
      by (rule main [OF i(1) store_value_ok(1) [OF assms(1) s(3,1,2)] _ _ c'])
        (use i(2) False in \<open>simp_all add: added_def\<close>)
  qed
qed

section \<open>Deleting\<close>

lemma view_removed:
  assumes "env_ok E" "map_inv E m" "map_inv E m'" "e \<in># content m" "same E (elem_key e) k" "content m' = content m - {#e#}"
  shows "dict_view E m' = upd_key (same E) (dict_view E m) k None"
proof
  fix k'
  have kd: "keys_distinct E (content m)" using assms(2) by (simp add: map_inv_def)
  have e_k: "same E (elem_key e) k' = same E k k'"
    using assms(5) same_trans [OF assms(1)] same_sym [OF assms(1)] by blast
  have "dict_view E m' k' = Some x \<longleftrightarrow> upd_key (same E) (dict_view E m) k None k' = Some x" for x
    by (simp add: view_iff [OF assms(1,3)] assms(6) bound_remove [OF assms(1) kd assms(4)] e_k upd_key_def view_iff [OF assms(1,2)])
  then show "dict_view E m' k' = upd_key (same E) (dict_view E m) k None k'" by (metis not_Some_eq)
qed

text \<open>Clearing the value behind a deleted key changes nothing that counts.\<close>

lemma store_value_unfilled:
  assumes "map_inv E m" "i < length (table m)" "\<not> filled_elem (table m ! i)"
  shows "map_inv E (store_value m i v)" "content (store_value m i v) = content m"
proof -
  show c: "content (store_value m i v) = content m"
    using assms(2,3) by (simp add: content_def store_value_def filled_mset_update)
  have ks: "keys_of (store_value m i v) = keys_of m"
    using assms(2) by (simp add: store_value_def map_update list_update_same_conv)
  have shape: "ordered_shape m \<Longrightarrow> ordered_shape (store_value m i v)"
    using assms(2,3) by (auto simp: ordered_shape_def store_value_def nth_list_update)
  show "map_inv E (store_value m i v)"
    using assms(1) shape unfolding map_inv_def ks c by (auto simp: store_value_def)
qed

text \<open>\<open>dict.pop\<close> and deletion: the value is returned and the key is gone; an absent key raises
  \<open>KeyError\<close> or yields the default, and changes nothing.\<close>

lemma dict_pop_ok:
  assumes "env_ok E" "map_inv E m" "\<not> is_fixed m" "values_ok m" "slot_is_filled k"
  shows "\<exists>c' m'. dict_get_helper E (c, m) k dflt MP_MAP_LOOKUP_REMOVE_IF_FOUND =
      ((case dict_view E m k of Some v \<Rightarrow> Inr v
        | None \<Rightarrow> (case dflt of None \<Rightarrow> Inl (KeyError k) | Some v \<Rightarrow> Inr v)), c', m') \<and>
     map_inv E m' \<and> \<not> is_fixed m' \<and> values_ok m' \<and> is_ordered m' = is_ordered m \<and>
     dict_view E m' = upd_key (same E) (dict_view E m) k None"
proof (cases "has_key E (content m) k")
  case True
  from lookup_remove_ok [OF assms(1,2,5) True, of "Suc 0" c] obtain i m1 c' e where
    r: "lookup E c m k MP_MAP_LOOKUP_REMOVE_IF_FOUND = (Inr (Some i), m1, c')" "map_inv E m1" "e \<in># content m"
      "same E (elem_key e) k" "content m1 = content m - {#e#}" "i < length (table m1)"
      "elem_value (table m1 ! i) = elem_value e" "\<not> filled_elem (table m1 ! i)" "is_ordered m1 = is_ordered m"
      "is_fixed m1 = is_fixed m"
    by blast
  note sv = store_value_unfilled [OF r(2,6,8), of MP_OBJ_NULL]
  have v: "dict_view E m k = Some (elem_value e)" using r(3,4) by (auto simp: view_iff [OF assms(1,2)] bound_def)
  have nn: "elem_value e \<noteq> MP_OBJ_NULL" using assms(4) r(3) by (simp add: values_ok_def)
  have "content (store_value m1 i MP_OBJ_NULL) = content m - {#e#}" using sv(2) r(5) by simp
  from view_removed [OF assms(1,2) sv(1) r(3,4) this]
  have vw: "dict_view E (store_value m1 i MP_OBJ_NULL) = upd_key (same E) (dict_view E m) k None" .
  have "values_ok (store_value m1 i MP_OBJ_NULL)"
    using assms(4) r(5) unfolding values_ok_def sv(2) by (auto dest: in_diffD)
  then show ?thesis
    using r v nn sv(1) vw assms(3) by (auto simp: dict_get_helper_def store_value_def)
next
  case False
  have "upd_key (same E) (dict_view E m) k None = dict_view E m"
  proof
    fix k'
    show "upd_key (same E) (dict_view E m) k None k' = dict_view E m k'"
      using False view_None [OF assms(1,2), of k'] same_trans [OF assms(1)] same_sym [OF assms(1)]
      unfolding upd_key_def has_key_def by (metis (no_types))
  qed
  moreover have "dict_view E m k = None" using False view_None [OF assms(1,2)] by simp
  moreover have "lookup E c m k MP_MAP_LOOKUP_REMOVE_IF_FOUND = (Inr None, m, c)"
    using lookup_absent_ok [OF assms(1,2,5) False] by simp
  ultimately show ?thesis
    using assms by (cases dflt) (auto simp: dict_get_helper_def Let_def)
qed

section \<open>When memory runs out\<close>

text \<open>A hash table that is full and cannot grow raises \<open>MemoryError\<close> and stays as it was.\<close>

lemma hash_growth_fails:
  assumes "env_ok E" "map_inv E m" "\<not> is_ordered m" "slot_is_filled k" "\<not> has_key E (content m) k"
    and "used m = alloc m" "\<not> m_new_ok E (get_hash_alloc_greater_or_equal_to (alloc m + 1))"
  shows "mp_map_lookup E (Suc (Suc n)) c m k MP_MAP_LOOKUP_ADD_IF_NOT_FOUND = (Inl MemoryError, m, c)"
proof -
  have no_hit: "\<not> cache_hit m c k MP_MAP_LOOKUP_ADD_IF_NOT_FOUND"
    using cache_hit_ok [OF assms(2) _ assms(4)] slot_ok_has_key assms(5) by blast
  have rh: "rehash_of E n' c m = (Inl MemoryError, m, c)" for n' using assms(7) by (simp add: mp_map_rehash_def Let_def)
  show ?thesis
  proof (cases "alloc m = 0")
    case True
    then show ?thesis using no_hit assms(3) rh by (simp add: mp_map_lookup_unfold [OF assms(2)])
  next
    case False
    from map_probe_absent [OF assms(1-3) lookup_eq_decides [OF assms(1,2)] assms(5) _ assms(4)] False
    have "map_probe E (lookup_eq E m k) m k = ProbeFull None \<or> (\<exists>a < length (table m). \<not> filled_elem (table m ! a))" by auto
    moreover have "\<not> (\<exists>a < length (table m). \<not> filled_elem (table m ! a))"
    proof
      assume "\<exists>a < length (table m). \<not> filled_elem (table m ! a)"
      then obtain a where a: "a < length (table m)" "\<not> filled_elem (table m ! a)" by blast
      have "size (filled_mset ((table m)[a := new_elem k])) = size (content m) + 1"
        using a assms(4) by (simp add: filled_mset_update content_def new_elem_def)
      moreover have "size (filled_mset ((table m)[a := new_elem k])) \<le> length (table m)"
        using size_filled_le [of "(table m)[a := new_elem k]"] by simp
      ultimately show False using assms(2,6) by (simp add: map_inv_def)
    qed
    ultimately have full: "map_probe E (lookup_eq E m k) m k = ProbeFull None" by blast
    have "hash_lookup (rehash_of E (Suc n)) (Suc n) (lookup_eq E m k) (map_hash E k) c m k MP_MAP_LOOKUP_ADD_IF_NOT_FOUND
        = (Inl MemoryError, m, c)"
      unfolding hash_lookup.simps(2) full rh by simp
    then show ?thesis using False no_hit assms(3) by (simp add: mp_map_lookup_unfold [OF assms(2)])
  qed
qed

text \<open>An ordered array keeps the raised size.\<close>

lemma ordered_growth_fails:
  assumes "env_ok E" "map_inv E m" "is_ordered m" "slot_is_filled k" "\<not> has_key E (content m) k"
    and "used m = alloc m" "\<not> m_new_ok E (alloc m + 4)"
  shows "lookup E c m k MP_MAP_LOOKUP_ADD_IF_NOT_FOUND = (Inl MemoryError, m\<lparr>alloc := alloc m + 4\<rparr>, c)"
proof -
  have "\<not> cache_hit m c k MP_MAP_LOOKUP_ADD_IF_NOT_FOUND"
    using cache_hit_ok [OF assms(2) _ assms(4)] slot_ok_has_key assms(5) by blast
  then show ?thesis
    using linear_absent [OF assms(1-3,5)] assms(3,6,7)
    by (simp add: mp_map_lookup_unfold [OF assms(2)] ordered_lookup_def ordered_add_def Let_def)
qed

lemma map_store_fails:
  assumes "env_ok E" "map_inv E m" "slot_is_filled k" "\<not> has_key E (content m) k" "\<not> can_add E m"
  shows "\<exists>m'. map_store E (c, m) k v = (Inl (MapError MemoryError), c, m') \<and> (\<not> is_ordered m \<longrightarrow> m' = m)"
proof (cases "is_ordered m")
  case True
  then show ?thesis using ordered_growth_fails [OF assms(1,2) True assms(3,4)] assms(5) by (simp add: map_store_def can_add_def growth_def)
next
  case False
  then show ?thesis using hash_growth_fails [OF assms(1,2) False assms(3,4)] assms(5) by (simp add: map_store_def can_add_def growth_def)
qed

section \<open>The model provides the contract\<close>

text \<open>The allocator matters to nothing else.\<close>

lemma granting [simp]:
  "same (E\<lparr>m_new_ok := mem\<rparr>) = same E" "env_ok (E\<lparr>m_new_ok := mem\<rparr>) = env_ok E" "has_key (E\<lparr>m_new_ok := mem\<rparr>) = has_key E"
  "map_inv (E\<lparr>m_new_ok := mem\<rparr>) = map_inv E" "dict_view (E\<lparr>m_new_ok := mem\<rparr>) = dict_view E"
proof -
  show same: "same (E\<lparr>m_new_ok := mem\<rparr>) = same E" by (intro ext) (simp add: same_def)
  show "env_ok (E\<lparr>m_new_ok := mem\<rparr>) = env_ok E" by (simp add: env_ok_def same)
  show "has_key (E\<lparr>m_new_ok := mem\<rparr>) = has_key E" by (intro ext) (simp add: has_key_def same)
  have "keys_distinct (E\<lparr>m_new_ok := mem\<rparr>) = keys_distinct E" by (intro ext) (simp add: keys_distinct_def same)
  moreover have "map_hash (E\<lparr>m_new_ok := mem\<rparr>) = map_hash E" by (intro ext) (simp add: map_hash_def)
  ultimately show "map_inv (E\<lparr>m_new_ok := mem\<rparr>) = map_inv E" by (intro ext) (simp add: map_inv_def)
  show "dict_view (E\<lparr>m_new_ok := mem\<rparr>) = dict_view E" by (intro ext) (simp add: dict_view_def same)
qed

definition dict_ok :: "obj_env \<Rightarrow> dict_state \<Rightarrow> bool" where
  "dict_ok E s \<longleftrightarrow> env_ok E \<and> map_inv E (snd s) \<and> \<not> is_fixed (snd s) \<and> values_ok (snd s)"

interpretation dct: failing_map "dict_ok E" "\<lambda>s. \<not> is_ordered (snd s)" slot_is_filled "\<lambda>v. v \<noteq> MP_OBJ_NULL" "same E"
  "\<lambda>s. dict_view E (snd s)" "MapError MemoryError" KeyError "\<lambda>mem. mp_obj_dict_store (E\<lparr>m_new_ok := mem\<rparr>)" "mp_obj_dict_delete E" for E
proof
  fix s k v mem assume i: "dict_ok E s" and k: "slot_is_filled k" and v: "v \<noteq> MP_OBJ_NULL"
  let ?E = "E\<lparr>m_new_ok := mem\<rparr>"
  have ok: "env_ok ?E" "map_inv ?E (snd s)" using i by (simp_all add: dict_ok_def)
  have store: "mp_obj_dict_store ?E s k v = map_store ?E (fst s, snd s) k v"
    using i by (simp add: dict_ok_def mp_obj_dict_store_def mp_ensure_not_fixed_def)
  show "(\<exists>s'. mp_obj_dict_store ?E s k v = (Inr (), s') \<and> dict_ok E s' \<and> (\<not> is_ordered (snd s')) = (\<not> is_ordered (snd s)) \<and>
        dict_view E (snd s') = upd_key (same E) (dict_view E (snd s)) k (Some v)) \<or>
      (\<exists>s'. mp_obj_dict_store ?E s k v = (Inl (MapError MemoryError), s') \<and> \<not> (\<forall>n. mem n) \<and>
        (\<not> is_ordered (snd s) \<longrightarrow> dict_ok E s' \<and> \<not> is_ordered (snd s') \<and> dict_view E (snd s') = dict_view E (snd s)))"
  proof (cases "has_key ?E (content (snd s)) k \<or> can_add ?E (snd s)")
    case True
    from map_store_ok [OF ok k True, of "fst s" v] obtain c' m' where
      "map_store ?E (fst s, snd s) k v = (Inr (), c', m')" "map_inv E m'" "is_fixed m' = is_fixed (snd s)" "is_ordered m' = is_ordered (snd s)"
      "dict_view E m' = upd_key (same E) (dict_view E (snd s)) k (Some v)" "values_ok (snd s) \<and> v \<noteq> MP_OBJ_NULL \<longrightarrow> values_ok m'"
      by auto
    then show ?thesis using i v unfolding store by (intro disjI1 exI [of _ "(c', m')"]) (simp add: dict_ok_def)
  next
    case False
    then have n: "\<not> has_key ?E (content (snd s)) k" "\<not> can_add ?E (snd s)" by simp_all
    from map_store_fails [OF ok k n, of "fst s" v] obtain m' where
      "map_store ?E (fst s, snd s) k v = (Inl (MapError MemoryError), fst s, m')" "\<not> is_ordered (snd s) \<longrightarrow> m' = snd s" by blast
    moreover have "\<not> (\<forall>n. mem n)" using n(2) by (auto simp: can_add_def)
    ultimately show ?thesis using i unfolding store by (intro disjI2 exI [of _ "(fst s, m')"]) (simp add: dict_ok_def)
  qed
next
  fix s k assume i: "dict_ok E s" and k: "slot_is_filled k"
  with dict_pop_ok [of E "snd s" k "fst s" None]
  show "\<exists>s'. mp_obj_dict_delete E s k = (if dict_view E (snd s) k = None then Inl (KeyError k) else Inr (), s') \<and> dict_ok E s' \<and>
      (\<not> is_ordered (snd s')) = (\<not> is_ordered (snd s)) \<and> dict_view E (snd s') = upd_key (same E) (dict_view E (snd s)) k None"
    by (cases "dict_view E (snd s) k") (auto simp: dict_ok_def mp_obj_dict_delete_def)
qed

text \<open>While memory lasts.\<close>

definition mem_ok :: "obj_env \<Rightarrow> bool" where
  "mem_ok E \<longleftrightarrow> (\<forall>n. m_new_ok E n)"

definition dict_inv :: "obj_env \<Rightarrow> dict_state \<Rightarrow> bool" where
  "dict_inv E s \<longleftrightarrow> env_ok E \<and> mem_ok E \<and> map_inv E (snd s) \<and> \<not> is_fixed (snd s) \<and> values_ok (snd s)"

interpretation mp: store_map "dict_inv E" slot_is_filled "\<lambda>v. v \<noteq> MP_OBJ_NULL" "same E"
  "\<lambda>s. dict_view E (snd s)" "map_store E" for E
proof
  fix s k v assume i: "dict_inv E s" and k: "slot_is_filled k" and v: "v \<noteq> MP_OBJ_NULL"
  have "can_add E (snd s)" using i by (simp add: dict_inv_def mem_ok_def can_add_def)
  with map_store_ok [of E "snd s" k "fst s" v] i k v
  show "\<exists>s'. map_store E s k v = (Inr (), s') \<and> dict_inv E s' \<and>
      dict_view E (snd s') = upd_key (same E) (dict_view E (snd s)) k (Some v)"
    by (auto simp: dict_inv_def)
qed

end
