(* ===== verification/DictProps.thy ===== *)
theory DictProps
  imports DictCorrect
begin

text \<open>
  The rest of the dictionary methods (iteration, \<open>popitem\<close>, copy, equality) and the properties of
  maps and dictionaries, with the two ways a growth can fail.
\<close>

section \<open>Iteration\<close>

lemma iter_next_spec:
  "dict_iter_next m i = (case find (\<lambda>j. filled_elem (table m ! j)) [i ..< alloc m] of
     Some j \<Rightarrow> (Some j, j + 1) | None \<Rightarrow> (None, max i (alloc m)))"
proof (induction m i rule: dict_iter_next.induct)
  case (1 m i)
  then show ?case
    by (subst dict_iter_next.simps) (auto simp: upt_conv_Cons max_def split: option.splits)
qed

lemma iter_from_spec:
  "alloc m = length (table m) \<Longrightarrow> dict_iter_from m i = filter filled_elem (drop i (table m))"
proof (induction m i rule: dict_iter_from.induct)
  case (1 m i)
  show ?case
  proof (cases "find (\<lambda>j. filled_elem (table m ! j)) [i ..< alloc m]")
    case None
    then have "\<forall>j. i \<le> j \<longrightarrow> j < length (table m) \<longrightarrow> \<not> filled_elem (table m ! j)"
      using "1.prems" by (auto simp: find_None_iff)
    then have "filter filled_elem (drop i (table m)) = []"
      by (auto simp: filter_empty_conv in_set_conv_nth)
    then show ?thesis using None by (subst dict_iter_from.simps) (simp add: iter_next_spec)
  next
    case (Some j)
    then have j: "i \<le> j" "j < length (table m)" "filled_elem (table m ! j)"
        "\<forall>l. i \<le> l \<longrightarrow> l < j \<longrightarrow> \<not> filled_elem (table m ! l)"
      using "1.prems" by (auto simp: find_Some_iff) (metis add_diff_inverse_nat add_less_cancel_left leD less_diff_conv2 less_imp_le_nat)
    have "dict_iter_next m i = (Some j, j + 1)" using Some by (simp add: iter_next_spec)
    with "1.IH" "1.prems"
    have IH: "dict_iter_from m i = table m ! j # filter filled_elem (drop (j + 1) (table m))"
      by (subst dict_iter_from.simps) simp
    have "drop i (table m) = take (j - i) (drop i (table m)) @ drop j (table m)"
      using j by (metis append_take_drop_id drop_drop le_add_diff_inverse2)
    also have "drop j (table m) = table m ! j # drop (j + 1) (table m)" using j by (simp add: Cons_nth_drop_Suc)
    finally have split: "drop i (table m) = take (j - i) (drop i (table m)) @ table m ! j # drop (j + 1) (table m)" .
    have "filter filled_elem (take (j - i) (drop i (table m))) = []"
      using j by (auto simp: filter_empty_conv in_set_conv_nth)
    then have "filter filled_elem (drop i (table m)) = table m ! j # filter filled_elem (drop (j + 1) (table m))"
      using j(3) by (subst split) simp
    with IH show ?thesis by simp
  qed
qed

lemma iter_all: "map_inv E m \<Longrightarrow> mset (dict_iter_from m 0) = content m"
  using iter_from_spec [of m 0] by (simp add: map_inv_def content_def filled_mset_def)

section \<open>Popitem and copy\<close>

lemma chain_sentinel:
  assumes "chain_ok h ks"
  shows "chain_ok h (ks[p := MP_OBJ_SENTINEL])"
  unfolding chain_ok_def
proof (intro allI impI)
  fix q assume q: "q < length (ks[p := MP_OBJ_SENTINEL])" "slot_is_filled (ks[p := MP_OBJ_SENTINEL] ! q)"
  then have ne: "q \<noteq> p" by auto
  have keep: "ks ! x \<noteq> MP_OBJ_NULL \<Longrightarrow> ks[p := MP_OBJ_SENTINEL] ! x \<noteq> MP_OBJ_NULL" for x
    by (cases "p < length ks") (auto simp: nth_list_update MP_OBJ_SENTINEL_def MP_OBJ_NULL_def not_less list_update_beyond)
  from assms q ne obtain d where "d < length ks" "q = (h (ks ! q) + d) mod length ks"
    "\<forall>l < d. ks ! ((h (ks ! q) + l) mod length ks) \<noteq> MP_OBJ_NULL"
    by (auto simp: chain_ok_def)
  then show "\<exists>d < length (ks[p := MP_OBJ_SENTINEL]).
      q = (h (ks[p := MP_OBJ_SENTINEL] ! q) + d) mod length (ks[p := MP_OBJ_SENTINEL]) \<and>
      (\<forall>l < d. ks[p := MP_OBJ_SENTINEL] ! ((h (ks[p := MP_OBJ_SENTINEL] ! q) + l) mod length (ks[p := MP_OBJ_SENTINEL])) \<noteq> MP_OBJ_NULL)"
    using ne keep by (intro exI [of _ d]) auto
qed

definition popped :: "mp_map_t \<Rightarrow> nat \<Rightarrow> mp_map_t" where
  "popped m i = m\<lparr>used := used m - 1, table := (table m)[i := \<lparr>elem_key = MP_OBJ_SENTINEL, elem_value = MP_OBJ_NULL\<rparr>]\<rparr>"

lemma popped_ok:
  assumes "map_inv E m" "i < length (table m)" "filled_elem (table m ! i)" "is_ordered m \<longrightarrow> i = used m - 1"
  shows "map_inv E (popped m i)" "content (popped m i) = content m - {#table m ! i#}"
proof -
  show c: "content (popped m i) = content m - {#table m ! i#}"
    using assms(2,3) by (simp add: content_def popped_def filled_mset_update)
  have mem: "table m ! i \<in># content m" using assms(2,3) by (rule content_nth)
  have "size (content (popped m i)) = size (content m) - 1" using mem by (simp add: c size_Diff_singleton)
  moreover have "is_ordered m \<Longrightarrow> ordered_shape m \<Longrightarrow> ordered_shape (popped m i)"
    using assms(2-4) by (auto simp: ordered_shape_def popped_def nth_list_update)
  moreover have "chain_ok h (keys_of m) \<Longrightarrow> chain_ok h (keys_of (popped m i))" for h
    using chain_sentinel by (simp add: popped_def map_update)
  ultimately show "map_inv E (popped m i)"
    using assms(1) keys_distinct_sub [of E "content m" "content (popped m i)"]
    unfolding map_inv_def c by (auto dest: in_diffD) (auto simp: popped_def)
qed

lemma popitem_ok:
  assumes "env_ok E" "map_inv E m" "\<not> is_fixed m" "content m \<noteq> {#}"
  shows "\<exists>i < length (table m). dict_popitem (c, m) = (Inr (elem_key (table m ! i), elem_value (table m ! i)), c, popped m i) \<and>
     map_inv E (popped m i) \<and> table m ! i \<in># content m \<and> content (popped m i) = content m - {#table m ! i#} \<and>
     (is_ordered m \<longrightarrow> i = used m - 1)"
proof -
  have al: "alloc m = length (table m)" and us: "used m = size (content m)" using assms(2) by (simp_all add: map_inv_def)
  have u: "used m \<noteq> 0" using us assms(4) by simp
  let ?s = "if is_ordered m then used m - 1 else 0"
  have "\<exists>i. ?s \<le> i \<and> i < alloc m \<and> filled_elem (table m ! i) \<and> (is_ordered m \<longrightarrow> i = used m - 1) \<and>
      find (\<lambda>j. filled_elem (table m ! j)) [?s ..< alloc m] = Some i"
  proof (cases "is_ordered m")
    case True
    then have "ordered_shape m" using assms(2) by (simp add: map_inv_def)
    then have f: "used m - 1 < alloc m" "filled_elem (table m ! (used m - 1))" using u al by (auto simp: ordered_shape_def)
    then show ?thesis using True by (simp add: upt_conv_Cons)
  next
    case False
    obtain e where "e \<in># content m" using assms(4) by blast
    then obtain p where "p < alloc m" "filled_elem (table m ! p)" using al by (auto simp: content_def mem_filled_mset)
    then obtain i where "find (\<lambda>j. filled_elem (table m ! j)) [0 ..< alloc m] = Some i"
      by (cases "find (\<lambda>j. filled_elem (table m ! j)) [0 ..< alloc m]") (auto simp: find_None_iff)
    moreover from this have "i < alloc m" "filled_elem (table m ! i)" by (auto simp: find_Some_iff)
    ultimately show ?thesis using False by auto
  qed
  then obtain i where i: "i < alloc m" "filled_elem (table m ! i)" "is_ordered m \<longrightarrow> i = used m - 1"
      "find (\<lambda>j. filled_elem (table m ! j)) [?s ..< alloc m] = Some i" by blast
  have "dict_popitem (c, m) = (Inr (elem_key (table m ! i), elem_value (table m ! i)), c, popped m i)"
    using u assms(3) i(4) by (simp add: dict_popitem_def Let_def iter_next_spec popped_def)
  then show ?thesis
    using popped_ok [OF assms(2) _ i(2,3)] content_nth [of i m] i al by auto
qed

lemma copy_ok:
  assumes "env_ok E" "map_inv E (dict_map d)" "m_new_ok E (alloc (dict_map d)) \<or> alloc (dict_map d) = 0"
  shows "\<exists>d'. mp_obj_dict_copy E d = Inr d' \<and> map_inv E (dict_map d') \<and> \<not> is_fixed (dict_map d') \<and>
     table (dict_map d') = table (dict_map d) \<and> is_ordereddict d' = is_ordereddict d \<and>
     is_ordered (dict_map d') = is_ordered (dict_map d)"
proof -
  let ?m = "dict_map d"
  have al: "alloc ?m = length (table ?m)" using assms(2) by (simp add: map_inv_def)
  let ?m' = "\<lparr>all_keys_are_qstrs = all_keys_are_qstrs ?m, is_fixed = False, is_ordered = is_ordered ?m,
      used = used ?m, alloc = alloc ?m, table = table ?m\<rparr>"
  have "mp_obj_dict_copy E d = Inr \<lparr>is_ordereddict = is_ordereddict d, dict_map = ?m'\<rparr>"
    using assms(3) al by (auto simp: mp_obj_dict_copy_def mp_obj_new_dict_def mp_map_init_def buf_write_def)
  moreover have "map_inv E ?m'"
    using assms(2) by (auto simp: map_inv_def content_def ordered_shape_def)
  ultimately show ?thesis by simp
qed

section \<open>Equality\<close>

lemma keys_subset_size:
  assumes "env_ok E" "keys_distinct E L" "keys_distinct E R" "\<forall>e \<in># L. has_key E R (elem_key e)"
  shows "size L \<le> size R \<and> (size L = size R \<longrightarrow> (\<forall>f \<in># R. has_key E L (elem_key f)))"
  using assms(2-4)
proof (induction L arbitrary: R)
  case empty
  then show ?case by simp
next
  case (add e L)
  obtain f where f: "f \<in># R" "same E (elem_key f) (elem_key e)" using add.prems(3) by (auto simp: has_key_def)
  have R: "R = add_mset f (R - {#f#})" using f(1) by simp
  have kdL: "keys_distinct E L" using add.prems(1) by (rule keys_distinct_sub) simp
  have kdR: "keys_distinct E (R - {#f#})" using add.prems(2) by (rule keys_distinct_sub) simp
  have ne: "\<not> has_key E L (elem_key e)" using has_key_rest [OF assms(1) add.prems(1), of e] by simp
  have "\<forall>e' \<in># L. has_key E (R - {#f#}) (elem_key e')"
  proof
    fix e' assume e': "e' \<in># L"
    then have "has_key E R (elem_key e')" using add.prems(3) by simp
    moreover have "\<not> same E (elem_key f) (elem_key e')"
      using ne e' f(2) same_trans [OF assms(1)] same_sym [OF assms(1)] unfolding has_key_def by meson
    ultimately show "has_key E (R - {#f#}) (elem_key e')" by (subst (asm) R) simp
  qed
  from add.IH [OF kdL kdR this] have IH: "size L \<le> size (R - {#f#})"
    "size L = size (R - {#f#}) \<longrightarrow> (\<forall>g \<in># R - {#f#}. has_key E L (elem_key g))" by auto
  have sz: "size R = Suc (size (R - {#f#}))" by (subst R) simp
  show ?case
  proof (intro conjI impI ballI)
    show "size (add_mset e L) \<le> size R" using IH(1) sz by simp
  next
    fix g assume s: "size (add_mset e L) = size R" and g: "g \<in># R"
    have "g = f \<or> g \<in># R - {#f#}" using g by (subst (asm) R) auto
    then show "has_key E (add_mset e L) (elem_key g)"
      using IH(2) s sz f(2) same_sym [OF assms(1)] by auto
  qed
qed

lemma lookup_equal_ok:
  assumes "env_ok E" "map_inv E m" "\<forall>e \<in> set es. filled_elem e"
  shows "\<exists>c'. lookup_equal E es (c, m) =
     (Inr (\<forall>e \<in> set es. \<exists>v. dict_view E m (elem_key e) = Some v \<and> obj_equal E (elem_value e) v), c', m)"
  using assms(3)
proof (induction es arbitrary: c)
  case Nil
  then show ?case by simp
next
  case (Cons e es)
  have f: "filled_elem e" and fs: "\<forall>e \<in> set es. filled_elem e" using Cons.prems by simp_all
  show ?case
  proof (cases "has_key E (content m) (elem_key e)")
    case True
    obtain i c1 where i: "lookup E c m (elem_key e) MP_MAP_LOOKUP = (Inr (Some i), m, c1)" "slot_ok E m i (elem_key e)"
      using lookup_present_ok [OF assms(1,2) f True, of MP_MAP_LOOKUP "Suc 0" c] by auto
    have v: "dict_view E m (elem_key e) = Some (elem_value (table m ! i))" by (rule slot_view [OF assms(1,2) i(2)])
    from Cons.IH [OF fs, of c1] i v show ?thesis by auto
  next
    case False
    have "lookup E c m (elem_key e) MP_MAP_LOOKUP = (Inr None, m, c)"
      using lookup_absent_ok [OF assms(1,2) f False] by simp
    moreover have "dict_view E m (elem_key e) = None" using view_None [OF assms(1,2)] False by simp
    ultimately show ?thesis by auto
  qed
qed

text \<open>Two views agree when the same keys are bound, to equal values.\<close>

definition views_equal :: "obj_env \<Rightarrow> mp_map_t \<Rightarrow> mp_map_t \<Rightarrow> bool" where
  "views_equal E l r \<longleftrightarrow> (\<forall>k. slot_is_filled k \<longrightarrow> (case (dict_view E l k, dict_view E r k) of
      (None, None) \<Rightarrow> True | (Some v, Some w) \<Rightarrow> obj_equal E v w | _ \<Rightarrow> False))"

lemma has_key_view: "env_ok E \<Longrightarrow> map_inv E m \<Longrightarrow> has_key E (content m) k \<longleftrightarrow> (\<exists>v. dict_view E m k = Some v)"
  using view_None [of E m k] by auto

lemma has_key_cong: "env_ok E \<Longrightarrow> same E a b \<Longrightarrow> has_key E M a \<longleftrightarrow> has_key E M b"
  unfolding has_key_def using same_trans same_sym by blast

lemma bound_cong: "env_ok E \<Longrightarrow> same E a b \<Longrightarrow> bound E M a v \<longleftrightarrow> bound E M b v"
  unfolding bound_def using same_trans same_sym by blast

lemma view_cong:
  assumes "env_ok E" "map_inv E m" "same E a b"
  shows "dict_view E m a = dict_view E m b"
proof -
  have "dict_view E m a = Some v \<longleftrightarrow> dict_view E m b = Some v" for v
    by (simp add: view_iff [OF assms(1,2)] bound_cong [OF assms(1,3)])
  then show ?thesis by (metis not_Some_eq)
qed

lemma view_elem: "env_ok E \<Longrightarrow> map_inv E m \<Longrightarrow> e \<in># content m \<Longrightarrow> dict_view E m (elem_key e) = Some (elem_value e)"
  by (auto simp: view_iff bound_def intro!: bexI [of _ e])

lemma content_filled: "e \<in># content m \<Longrightarrow> filled_elem e"
  by (simp add: content_def filled_mset_def)

lemma same_keys_views_equal:
  assumes "env_ok E" "map_inv E l" "map_inv E r"
    and "\<forall>e \<in># content l. \<exists>v. dict_view E r (elem_key e) = Some v \<and> obj_equal E (elem_value e) v"
    and "\<forall>f \<in># content r. has_key E (content l) (elem_key f)"
  shows "views_equal E l r"
  unfolding views_equal_def
proof (intro allI impI)
  fix k
  show "case (dict_view E l k, dict_view E r k) of (None, None) \<Rightarrow> True | (Some v, Some w) \<Rightarrow> obj_equal E v w | _ \<Rightarrow> False"
  proof (cases "dict_view E l k")
    case None
    have "dict_view E r k = None"
    proof (rule ccontr)
      assume "dict_view E r k \<noteq> None"
      then obtain f where f: "f \<in># content r" "same E (elem_key f) k"
        using has_key_view [OF assms(1,3), of k] by (auto simp: has_key_def)
      then have "has_key E (content l) k" using assms(5) has_key_cong [OF assms(1) f(2)] by blast
      then show False using None has_key_view [OF assms(1,2), of k] by simp
    qed
    with None show ?thesis by simp
  next
    case (Some v)
    then obtain e where e: "e \<in># content l" "same E (elem_key e) k" "elem_value e = v"
      using view_iff [OF assms(1,2)] by (auto simp: bound_def)
    with assms(4) obtain w where "dict_view E r (elem_key e) = Some w" "obj_equal E v w" by blast
    then show ?thesis using Some view_cong [OF assms(1,3) e(2)] by simp
  qed
qed

lemma views_equal_elems:
  assumes "env_ok E" "map_inv E l" "map_inv E r" "views_equal E l r"
  shows "\<forall>e \<in># content l. \<exists>v. dict_view E r (elem_key e) = Some v \<and> obj_equal E (elem_value e) v"
    and "\<forall>f \<in># content r. has_key E (content l) (elem_key f)"
proof -
  have veq: "case (dict_view E l (elem_key e), dict_view E r (elem_key e)) of
      (None, None) \<Rightarrow> True | (Some v, Some w) \<Rightarrow> obj_equal E v w | _ \<Rightarrow> False" if "filled_elem e" for e
    using assms(4) that by (simp add: views_equal_def)
  show "\<forall>e \<in># content l. \<exists>v. dict_view E r (elem_key e) = Some v \<and> obj_equal E (elem_value e) v"
    using veq content_filled view_elem [OF assms(1,2)] by (fastforce split: option.splits)
  show "\<forall>f \<in># content r. has_key E (content l) (elem_key f)"
    using veq content_filled view_elem [OF assms(1,3)] has_key_view [OF assms(1,2)] by (fastforce split: option.splits)
qed

lemma dict_equal_ok:
  assumes "env_ok E" "map_inv E (dict_map l)" "map_inv E (dict_map r)" "\<not> is_ordereddict r"
  shows "\<exists>c'. dict_equal E c l r = (Inr (views_equal E (dict_map l) (dict_map r)), c', dict_map r)"
proof -
  let ?l = "dict_map l" and ?r = "dict_map r"
  let ?found = "\<forall>e \<in># content ?l. \<exists>v. dict_view E ?r (elem_key e) = Some v \<and> obj_equal E (elem_value e) v"
  have ul: "used ?l = size (content ?l)" "keys_distinct E (content ?l)" and ur: "used ?r = size (content ?r)" "keys_distinct E (content ?r)"
    using assms(2,3) by (simp_all add: map_inv_def)
  have sub: "\<forall>e \<in># content ?l. has_key E (content ?r) (elem_key e)" if ?found
    using that has_key_view [OF assms(1,3)] by blast
  have "size (content ?l) = size (content ?r) \<and> ?found \<longleftrightarrow> views_equal E ?l ?r"
  proof
    assume a: "size (content ?l) = size (content ?r) \<and> ?found"
    then show "views_equal E ?l ?r"
      using keys_subset_size [OF assms(1) ul(2) ur(2) sub] by (intro same_keys_views_equal [OF assms(1-3)]) simp_all
  next
    assume "views_equal E ?l ?r"
    note el = views_equal_elems [OF assms(1-3) this]
    show "size (content ?l) = size (content ?r) \<and> ?found"
      using keys_subset_size [OF assms(1) ul(2) ur(2) sub [OF el(1)]] keys_subset_size [OF assms(1) ur(2) ul(2) el(2)] el(1)
      by simp
  qed
  moreover have ms: "set (dict_iter_from ?l 0) = set_mset (content ?l)"
    using iter_all [OF assms(2)] by (metis set_mset_mset)
  moreover have "\<forall>e \<in> set (dict_iter_from ?l 0). filled_elem e" using ms content_filled by auto
  from lookup_equal_ok [OF assms(1,3) this, of c] obtain c' where
    "lookup_equal E (dict_iter_from ?l 0) (c, ?r) = (Inr ?found, c', ?r)"
    unfolding ms by blast
  ultimately show ?thesis using assms(4) ul(1) ur(1) by (auto simp: dict_equal_def)
qed

text \<open>Two ordered dictionaries are compared in step.\<close>

lemma iter_entries:
  assumes "map_inv E m" "is_ordered m"
  shows "dict_iter_from m 0 = entries m"
proof -
  have sh: "ordered_shape m" "alloc m = length (table m)" using assms by (simp_all add: map_inv_def)
  have "filter filled_elem (drop (used m) (table m)) = []"
    using sh by (auto simp: filter_empty_conv in_set_conv_nth ordered_shape_def)
  moreover have "filter filled_elem (take (used m) (table m)) = take (used m) (table m)"
    using sh by (auto simp: filter_id_conv in_set_conv_nth ordered_shape_def)
  ultimately have "filter filled_elem (take (used m) (table m) @ drop (used m) (table m)) = take (used m) (table m)"
    unfolding filter_append by simp
  then show ?thesis using iter_from_spec [OF sh(2), of 0] by (simp add: entries_def)
qed

lemma ordered_equal_all2:
  "ordered_equal E es fs = list_all2 (\<lambda>e f. obj_equal E (elem_key e) (elem_key f) \<and> obj_equal E (elem_value e) (elem_value f)) es fs"
  by (induction E es fs rule: ordered_equal.induct) auto

section \<open>Update\<close>

abbreviation put_all :: "obj_env \<Rightarrow> (mp_obj_t \<Rightarrow> mp_obj_t option) \<Rightarrow> (mp_obj_t \<times> mp_obj_t) list \<Rightarrow> (mp_obj_t \<Rightarrow> mp_obj_t option)" where
  "put_all E \<equiv> foldl (\<lambda>f (k, v). upd_key (same E) f k (Some v))"

lemma put_all_bound:
  assumes "env_ok E" "keys_distinct E (mset es)"
  shows "put_all E f (elem_pairs es) k = Some v \<longleftrightarrow> bound E (mset es) k v \<or> (\<not> has_key E (mset es) k \<and> f k = Some v)"
  using assms(2)
proof (induction es rule: rev_induct)
  case Nil
  then show ?case by (simp add: elem_pairs_def bound_def)
next
  case (snoc e es)
  have kd: "keys_distinct E (mset es)" using snoc.prems by (rule keys_distinct_sub) simp
  have ne: "\<not> has_key E (mset es) (elem_key e)" using has_key_rest [OF assms(1) snoc.prems, of e] by simp
  have "put_all E f (elem_pairs (es @ [e])) k =
      (if same E (elem_key e) k then Some (elem_value e) else put_all E f (elem_pairs es) k)"
    by (simp add: elem_pairs_def upd_key_def)
  then show ?case using snoc.IH [OF kd] bound_add [OF assms(1) ne, of k v] by auto
qed

section \<open>Concrete maps\<close>

text \<open>The dictionary \<open>{8: 16, 16: 24}\<close> built by the code, over objects equal when identical.\<close>

definition cache0 :: map_cache where "cache0 = replicate 128 0"

definition empty_map :: mp_map_t where
  "empty_map = \<lparr>all_keys_are_qstrs = True, is_fixed = False, is_ordered = False, used = 0, alloc = 0, table = []\<rparr>"

definition empty_ordered :: mp_map_t where
  "empty_ordered = empty_map\<lparr>is_ordered := True\<rparr>"

lemma init_empty: "mp_map_init E 0 = Some empty_map"
  by (simp add: mp_map_init_def empty_map_def)

lemma empty_map_ok: "map_inv E empty_map" "map_inv E empty_ordered" "content empty_map = {#}" "content empty_ordered = {#}"
  by (simp_all add: map_inv_def content_def empty_map_def empty_ordered_def chain_ok_def ordered_shape_def)

lemma empty_dict_inv: "dict_inv ptr_env (cache0, empty_map)" "dict_inv ptr_env (cache0, empty_ordered)"
  using ptr_env_ok empty_map_ok(1,2) [of ptr_env] empty_map_ok(3,4)
  by (simp_all add: dict_inv_def mem_ok_def values_ok_def) (simp_all add: ptr_env_def empty_map_def empty_ordered_def)

lemma empty_dict_ok: "dict_ok ptr_env (cache0, empty_map)" "dict_ok ptr_env (cache0, empty_ordered)"
  using empty_dict_inv by (simp_all add: dict_inv_def dict_ok_def)

lemma small_keys [simp]: "slot_is_filled 8" "slot_is_filled 16" "slot_is_filled 10"
  by (simp_all add: slot_is_filled_def MP_OBJ_NULL_def MP_OBJ_SENTINEL_def)


section \<open>Properties\<close>

text \<open>C3: \<open>mp_map_lookup\<close> with \<open>MP_MAP_LOOKUP\<close> is exact, for hash tables and ordered maps and whatever
  the shared lookup cache holds: it returns a slot exactly when the key is present, that slot
  holds the key's value, and the map is unchanged.\<close>

theorem map_lookup_exact:
  assumes "env_ok E" "map_inv E m" "slot_is_filled k"
  shows "\<exists>r c'. mp_map_lookup E (Suc (Suc n)) c m k MP_MAP_LOOKUP = (Inr r, m, c') \<and>
     (case r of None \<Rightarrow> dict_view E m k = None
      | Some i \<Rightarrow> i < length (table m) \<and> dict_view E m k = Some (elem_value (table m ! i)))"
proof (cases "has_key E (content m) k")
  case True
  from lookup_present_ok [OF assms True, of MP_MAP_LOOKUP n c] slot_view [OF assms(1,2)] show ?thesis
    by (fastforce simp: slot_ok_def)
next
  case False
  from lookup_absent_ok [OF assms False, of MP_MAP_LOOKUP n c] view_None [OF assms(1,2)] False show ?thesis by auto
qed

lemma map_lookup_exact_witness:
  "\<exists>c'. mp_map_lookup ptr_env (Suc (Suc 0)) cache0 empty_map 8 MP_MAP_LOOKUP = (Inr None, empty_map, c')"
  using map_lookup_exact [OF ptr_env_ok empty_map_ok(1), of 8 0 cache0]
  by (auto simp: empty_map_def split: option.splits)



text \<open>C22: removing a present key returns a slot whose value can still be read and takes exactly that
  entry out; every other key stays found, and an ordered map keeps the order of the rest.  The map is
  not a fixed table, which the code asserts.\<close>

theorem map_remove_exact:
  assumes "env_ok E" "map_inv E m" "\<not> is_fixed m" "slot_is_filled k" "dict_view E m k = Some v"
  shows "\<exists>i m' c'. mp_map_lookup E (Suc (Suc n)) c m k MP_MAP_LOOKUP_REMOVE_IF_FOUND = (Inr (Some i), m', c') \<and>
     map_inv E m' \<and> elem_value (table m' ! i) = v \<and> used m' + 1 = used m \<and>
     dict_view E m' = upd_key (same E) (dict_view E m) k None \<and>
     (is_ordered m \<longrightarrow> (\<exists>j < used m. entries m' = take j (entries m) @ drop (j + 1) (entries m)))"
proof -
  have hk: "has_key E (content m) k" using view_None [OF assms(1,2), of k] assms(5) by auto
  obtain i m' c' e where r: "mp_map_lookup E (Suc (Suc n)) c m k MP_MAP_LOOKUP_REMOVE_IF_FOUND = (Inr (Some i), m', c')"
      "map_inv E m'" "e \<in># content m" "same E (elem_key e) k" "content m' = content m - {#e#}"
      "elem_value (table m' ! i) = elem_value e"
      "is_ordered m \<longrightarrow> (\<exists>j < length (entries m). entries m ! j = e \<and> entries m' = take j (entries m) @ drop (j + 1) (entries m))"
    using lookup_remove_ok [OF assms(1,2,4) hk, of n c] by blast
  have "elem_value e = v"
    using view_elem [OF assms(1,2) r(3)] view_cong [OF assms(1,2) r(4)] assms(5) by simp
  moreover have "used m' + 1 = used m"
  proof -
    have "content m = add_mset e (content m')" using r(3,5) by simp
    then show ?thesis using assms(2) r(2) by (simp add: map_inv_def)
  qed
  moreover have "length (entries m) \<le> used m" by (simp add: entries_def)
  ultimately show ?thesis
    using r view_removed [OF assms(1,2) r(2-5)] by (fastforce dest: less_le_trans)
qed

lemma map_remove_exact_witness:
  "\<exists>i m' c'. mp_map_lookup ptr_env (Suc (Suc 0)) cache0 (empty_ordered\<lparr>used := 1, alloc := 1, table := [\<lparr>elem_key = 10, elem_value = 16\<rparr>]\<rparr>) 10
     MP_MAP_LOOKUP_REMOVE_IF_FOUND = (Inr (Some i), m', c') \<and> elem_value (table m' ! i) = 16 \<and> used m' = 0"
proof -
  let ?m = "empty_ordered\<lparr>used := 1, alloc := 1, table := [\<lparr>elem_key = 10, elem_value = 16\<rparr>]\<rparr>"
  have "map_inv ptr_env ?m"
    by (simp add: map_inv_def empty_ordered_def empty_map_def content_def ordered_shape_def keys_distinct_def
        insert_subset_eq_iff mp_obj_is_qstr_def)
  moreover have "dict_view ptr_env ?m 10 = Some 16" "\<not> is_fixed ?m" "used ?m = 1"
    by (simp_all add: dict_view_def empty_ordered_def empty_map_def)
  ultimately show ?thesis
    using map_remove_exact [OF ptr_env_ok _ _ small_keys(3), of ?m 16 0 cache0] by fastforce
qed

text \<open>When a hash table is full and the larger table cannot be allocated, the addition raises
  \<open>MemoryError\<close> and leaves the map as it was.\<close>

lemma map_growth_failure_safe:
  assumes "env_ok E" "map_inv E m" "\<not> is_ordered m" "slot_is_filled k" "dict_view E m k = None"
    and "used m = alloc m" "\<not> m_new_ok E (get_hash_alloc_greater_or_equal_to (alloc m + 1))"
  shows "mp_map_lookup E (Suc (Suc n)) c m k MP_MAP_LOOKUP_ADD_IF_NOT_FOUND = (Inl MemoryError, m, c)"
  using hash_growth_fails [OF assms(1-4) _ assms(6,7)] view_None [OF assms(1,2)] assms(5) by simp

definition no_mem_env :: obj_env where "no_mem_env = ptr_env\<lparr>m_new_ok := (\<lambda>_. False)\<rparr>"

lemma no_mem_env_ok: "env_ok no_mem_env"
  using ptr_env_ok by (simp add: env_ok_def no_mem_env_def same_def)

lemma map_growth_failure_safe_witness:
  "mp_map_lookup no_mem_env (Suc (Suc 0)) cache0 empty_map 8 MP_MAP_LOOKUP_ADD_IF_NOT_FOUND = (Inl MemoryError, empty_map, cache0)"
  by (rule map_growth_failure_safe [OF no_mem_env_ok empty_map_ok(1)])
    (simp_all add: empty_map_def dict_view_def no_mem_env_def)

text \<open>C24: an ordered map is not safe against the same failure: \<open>alloc\<close> is raised before the
  allocation, so after the \<open>MemoryError\<close> it exceeds the table, and the next addition of any new key
  accesses memory behind the table, even when memory is available again.\<close>

theorem ordered_growth_failure_corrupts:
  assumes "env_ok E" "map_inv E m" "is_ordered m" "slot_is_filled k" "dict_view E m k = None"
    and "used m = alloc m" "\<not> m_new_ok E (alloc m + 4)"
    and "env_ok E'" "map_inv E' m" "slot_is_filled k'" "dict_view E' m k' = None"
  shows "lookup E c m k MP_MAP_LOOKUP_ADD_IF_NOT_FOUND = (Inl MemoryError, m\<lparr>alloc := alloc m + 4\<rparr>, c) \<and>
     fst (lookup E' c' (m\<lparr>alloc := alloc m + 4\<rparr>) k' MP_MAP_LOOKUP_ADD_IF_NOT_FOUND) = Inl BadAccess"
proof -
  let ?m = "m\<lparr>alloc := alloc m + 4\<rparr>"
  have al: "alloc m = length (table m)" using assms(2) by (simp add: map_inv_def)
  have nk: "\<not> has_key E (content m) k" using view_None [OF assms(1,2)] assms(5) by simp
  have nk': "\<not> has_key E' (content m) k'" using view_None [OF assms(8,9)] assms(11) by simp
  have 1: "lookup E c m k MP_MAP_LOOKUP_ADD_IF_NOT_FOUND = (Inl MemoryError, ?m, c)"
    by (rule ordered_growth_fails [OF assms(1-4) nk assms(6,7)])
  have nocache: "\<not> cache_hit ?m c' k' MP_MAP_LOOKUP_ADD_IF_NOT_FOUND" if "MAP_CACHE_GET ?m c' k' < length (table m)"
  proof
    assume "cache_hit ?m c' k' MP_MAP_LOOKUP_ADD_IF_NOT_FOUND"
    then have key: "elem_key (table m ! MAP_CACHE_GET ?m c' k') = k'" by (simp add: cache_hit_def)
    have "\<exists>p < length (table m). filled_elem (table m ! p) \<and> same E' (elem_key (table m ! p)) k'"
      using that by (intro exI [of _ "MAP_CACHE_GET ?m c' k'"]) (simp add: key assms(10))
    then show False using nk' by (simp only: has_key_nth not_True_eq_False)
  qed
  have "linear_search (lookup_eq E' m k') (table m) 0 (used m) = LinearNone"
    by (rule linear_absent [OF assms(8,9,3) nk'])
  then have "fst (ordered_lookup E' (lookup_eq E' m k') c' ?m k' MP_MAP_LOOKUP_ADD_IF_NOT_FOUND) = Inl BadAccess"
    using al assms(6) by (simp add: ordered_lookup_def ordered_add_def Let_def)
  then have "fst (lookup E' c' ?m k' MP_MAP_LOOKUP_ADD_IF_NOT_FOUND) = Inl BadAccess"
    using nocache assms(3) unfolding mp_map_lookup.simps(2) lookup_eq_def Let_def by (auto simp: not_le)
  with 1 show ?thesis by simp
qed

lemma ordered_growth_failure_corrupts_witness:
  "lookup no_mem_env cache0 empty_ordered 8 MP_MAP_LOOKUP_ADD_IF_NOT_FOUND = (Inl MemoryError, empty_ordered\<lparr>alloc := 4\<rparr>, cache0) \<and>
   fst (lookup ptr_env cache0 (empty_ordered\<lparr>alloc := 4\<rparr>) 16 MP_MAP_LOOKUP_ADD_IF_NOT_FOUND) = Inl BadAccess"
proof -
  have "dict_view E empty_ordered k = None" for E k by (simp add: dict_view_def empty_ordered_def empty_map_def)
  from ordered_growth_failure_corrupts [OF no_mem_env_ok empty_map_ok(2) _ small_keys(1) this _ _ ptr_env_ok empty_map_ok(2) small_keys(2) this]
  show ?thesis by (simp add: no_mem_env_def) (simp add: empty_ordered_def empty_map_def)
qed

text \<open>C2: a dictionary is a finite map, whatever allocations are refused: in any sequence of stores and
  deletions every store binds its key or, only when the allocator refused it, raises \<open>MemoryError\<close> and
  changes nothing; a deletion raises \<open>KeyError\<close> exactly for an unbound key; and reading any key after it
  gives what the sequence says, or \<open>KeyError\<close>.  For an \<open>OrderedDict\<close> this holds until the first
  \<open>MemoryError\<close>, which damages it (\<open>ordered_growth_failure_corrupts\<close>).\<close>

theorem dict_run_refines_map:
  fixes ops :: "(mp_obj_t, mp_obj_t) map_op list"
  assumes "dict_ok E s" "\<forall>x \<in> set ops. op_ok slot_is_filled (\<lambda>v. v \<noteq> MP_OBJ_NULL) x" "slot_is_filled k"
    and "run_ops (\<lambda>mem. mp_obj_dict_store (E\<lparr>m_new_ok := mem\<rparr>)) (mp_obj_dict_delete E) s ops = (rs, s')"
    and "is_ordered (snd s) \<Longrightarrow> Inl (MapError MemoryError) \<notin> set rs"
  shows "\<exists>f. spec_run (same E) (MapError MemoryError) KeyError (dict_view E (snd s)) ops rs = Some f \<and>
     fst (mp_obj_dict_get E s' k) = (case f k of None \<Rightarrow> Inl (KeyError k) | Some v \<Rightarrow> Inr v)"
proof -
  have r: "dict_ok E s'" "spec_run (same E) (MapError MemoryError) KeyError (dict_view E (snd s)) ops rs = Some (dict_view E (snd s'))"
    using dct.run_ops_ok [OF assms(1,2,4)] assms(5) by auto
  then have ok: "env_ok E" "map_inv E (snd s')" by (simp_all add: dict_ok_def)
  have "fst (mp_obj_dict_get E s' k) = (case dict_view E (snd s') k of None \<Rightarrow> Inl (KeyError k) | Some v \<Rightarrow> Inr v)"
  proof (cases "has_key E (content (snd s')) k")
    case True
    from lookup_present_ok [OF ok assms(3) True, of MP_MAP_LOOKUP "Suc 0" "fst s'"] obtain i c' where
      "lookup E (fst s') (snd s') k MP_MAP_LOOKUP = (Inr (Some i), snd s', c')" "slot_ok E (snd s') i k" by auto
    with slot_view [OF ok this(2)] show ?thesis by (simp add: mp_obj_dict_get_def)
  next
    case False
    then have "dict_view E (snd s') k = None" using view_None [OF ok] by blast
    with lookup_absent_ok [OF ok assms(3) False, of MP_MAP_LOOKUP "Suc 0" "fst s'"]
    show ?thesis by (simp add: mp_obj_dict_get_def)
  qed
  then show ?thesis using r(2) by blast
qed

text \<open>The allocator below grants tables of fewer than 100 entries.\<close>

lemma dict_run_refines_map_witness:
  "\<exists>rs s'. run_ops (\<lambda>mem. mp_obj_dict_store (ptr_env\<lparr>m_new_ok := mem\<rparr>)) (mp_obj_dict_delete ptr_env) (cache0, empty_map)
      [Put (\<lambda>n. n < 100) 8 3, Del 16, Del 8] = (rs, s') \<and>
     (\<exists>f. spec_run (same ptr_env) (MapError MemoryError) KeyError Map.empty [Put (\<lambda>n. n < 100) 8 3, Del 16, Del 8] rs = Some f \<and>
       fst (mp_obj_dict_get ptr_env s' 8) = (case f 8 of None \<Rightarrow> Inl (KeyError 8) | Some v \<Rightarrow> Inr v))"
proof -
  have v: "dict_view ptr_env empty_map = Map.empty" by (rule ext) (simp add: dict_view_def empty_map_def)
  obtain rs s' where r: "run_ops (\<lambda>mem. mp_obj_dict_store (ptr_env\<lparr>m_new_ok := mem\<rparr>)) (mp_obj_dict_delete ptr_env) (cache0, empty_map)
      [Put (\<lambda>n. n < 100) 8 3, Del 16, Del 8] = (rs, s')" by (rule prod.exhaust)
  have "\<not> is_ordered (snd (cache0, empty_map))" by (simp add: empty_map_def)
  from dict_run_refines_map [OF empty_dict_ok(1) _ small_keys(1) r] this show ?thesis
    unfolding snd_conv v using r by (simp add: MP_OBJ_NULL_def)
qed

text \<open>\<open>dict.update(other)\<close> returns and merges: every key of the other dictionary gets its value
  there, and every other key keeps its own.\<close>

lemma dict_update_merges:
  assumes "dict_inv E s" "map_inv E (dict_map other)" "values_ok (dict_map other)"
  shows "\<exists>s'. dict_update E s (DictArg other) empty_map = (Inr (), s') \<and> dict_inv E s' \<and>
     (\<forall>k. dict_view E (snd s') k =
        (case dict_view E (dict_map other) k of Some v \<Rightarrow> Some v | None \<Rightarrow> dict_view E (snd s) k))"
proof -
  let ?m = "dict_map other" and ?es = "dict_iter_from (dict_map other) 0"
  have ok: "env_ok E" "\<not> is_fixed (snd s)" using assms(1) by (simp_all add: dict_inv_def)
  have ms: "mset ?es = content ?m" by (rule iter_all [OF assms(2)])
  then have mem: "e \<in> set ?es \<Longrightarrow> e \<in># content ?m" for e by (metis set_mset_mset)
  have "\<forall>(k, v) \<in> set (elem_pairs ?es). slot_is_filled k \<and> v \<noteq> MP_OBJ_NULL"
    using mem content_filled assms(3) by (auto simp: elem_pairs_def values_ok_def)
  from mp.store_all_ok [OF assms(1) this] obtain s' where
    s': "store_all (map_store E) s (elem_pairs ?es) = (Inr (), s')" "dict_inv E s'"
      "dict_view E (snd s') = put_all E (dict_view E (snd s)) (elem_pairs ?es)" by (elim exE conjE) (rule that)
  have kd: "keys_distinct E (mset ?es)" using assms(2) ms by (simp add: map_inv_def)
  have "dict_view E (snd s') k = (case dict_view E ?m k of Some v \<Rightarrow> Some v | None \<Rightarrow> dict_view E (snd s) k)" for k
  proof (cases "dict_view E ?m k")
    case (Some v)
    then have "bound E (mset ?es) k v" using view_iff [OF ok(1) assms(2)] ms by simp
    then show ?thesis using Some put_all_bound [OF ok(1) kd] s'(3) by simp
  next
    case None
    then have nk: "\<not> has_key E (mset ?es) k" using view_None [OF ok(1) assms(2)] ms by simp
    then have "\<not> bound E (mset ?es) k v" for v by (auto simp: bound_def has_key_def)
    with nk have "put_all E (dict_view E (snd s)) (elem_pairs ?es) k = Some v \<longleftrightarrow> dict_view E (snd s) k = Some v" for v
      using put_all_bound [OF ok(1) kd] by simp
    then have "put_all E (dict_view E (snd s)) (elem_pairs ?es) k = dict_view E (snd s) k"
      by (cases "dict_view E (snd s) k"; cases "put_all E (dict_view E (snd s)) (elem_pairs ?es) k") auto
    then show ?thesis using None s'(3) by simp
  qed
  moreover have "elem_pairs [] = []" by (simp add: elem_pairs_def)
  then have "dict_update E s (DictArg other) empty_map = (Inr (), s')"
    using s'(1) ok(2) by (simp add: dict_update_def mp_ensure_not_fixed_def empty_map_def)
  ultimately show ?thesis using s'(2) by blast
qed

lemma dict_update_merges_witness:
  "\<exists>s'. dict_update ptr_env (cache0, empty_map) (DictArg \<lparr>is_ordereddict = False, dict_map = empty_map\<rparr>) empty_map = (Inr (), s') \<and>
     dict_view ptr_env (snd s') 8 = None"
proof -
  have "values_ok empty_map" by (simp add: values_ok_def empty_map_ok)
  with dict_update_merges [OF empty_dict_inv(1), of "\<lparr>is_ordereddict = False, dict_map = empty_map\<rparr>"] empty_map_ok
  show ?thesis by (auto simp: dict_view_def empty_map_def)
qed

text \<open>\<open>dict.popitem()\<close> on a dictionary that is not empty returns an entry and removes exactly it;
  on an ordered dictionary it is the entry inserted last.\<close>

lemma dict_popitem_takes_one:
  assumes "dict_inv E (c, m)" "used m \<noteq> 0"
  shows "\<exists>k v m'. dict_popitem (c, m) = (Inr (k, v), c, m') \<and> dict_inv E (c, m') \<and>
     dict_view E m k = Some v \<and> dict_view E m' = upd_key (same E) (dict_view E m) k None \<and>
     (is_ordered m \<longrightarrow> last (entries m) = \<lparr>elem_key = k, elem_value = v\<rparr> \<and> entries m' = butlast (entries m))"
proof -
  have ok: "env_ok E" "map_inv E m" "\<not> is_fixed m" "values_ok m" "mem_ok E" using assms(1) by (simp_all add: dict_inv_def)
  have "content m \<noteq> {#}" using ok(2) assms(2) by (auto simp: map_inv_def)
  from popitem_ok [OF ok(1-3) this, of c] obtain i where i: "i < length (table m)"
      "dict_popitem (c, m) = (Inr (elem_key (table m ! i), elem_value (table m ! i)), c, popped m i)"
      "map_inv E (popped m i)" "table m ! i \<in># content m" "content (popped m i) = content m - {#table m ! i#}"
      "is_ordered m \<longrightarrow> i = used m - 1" by blast
  let ?e = "table m ! i"
  have v: "dict_view E m (elem_key ?e) = Some (elem_value ?e)" by (rule view_elem [OF ok(1,2) i(4)])
  have rem: "dict_view E (popped m i) = upd_key (same E) (dict_view E m) (elem_key ?e) None"
    by (rule view_removed [OF ok(1,2) i(3,4) _ i(5)]) simp
  have di: "dict_inv E (c, popped m i)"
    using ok i(3,5) by (auto simp: dict_inv_def values_ok_def dest: in_diffD) (simp add: popped_def)
  have ord: "last (entries m) = \<lparr>elem_key = elem_key ?e, elem_value = elem_value ?e\<rparr> \<and>
      entries (popped m i) = butlast (entries m)" if o: "is_ordered m"
  proof -
    have u: "used m \<le> length (table m)" "i = used m - 1" using o ok(2) i(6) by (auto simp: map_inv_def ordered_shape_def)
    then have "last (entries m) = ?e" using assms(2) i(1)
      by (subst last_conv_nth) (auto simp: entries_def min_def)
    moreover have "entries (popped m i) = butlast (entries m)"
      using u assms(2) by (simp add: entries_def popped_def butlast_take)
    ultimately show ?thesis by simp
  qed
  show ?thesis using i(2) di v rem ord by blast
qed

text \<open>C32: \<open>==\<close> on two dictionaries of one type: two plain ones are equal exactly when they bind the same
  keys to equal values, whatever the order of insertion and the layout of the tables; two ordered ones
  exactly when their entries are equal one by one, in the order of insertion.\<close>

theorem dict_equality_exact:
  assumes "env_ok E" "map_inv E (dict_map l)" "map_inv E (dict_map r)" "is_ordereddict l = is_ordereddict r"
    and "is_ordereddict l \<Longrightarrow> is_ordered (dict_map l) \<and> is_ordered (dict_map r)"
  shows "\<exists>c'. dict_equal E c l r = (Inr (
      if is_ordereddict l then list_all2 (\<lambda>e f. obj_equal E (elem_key e) (elem_key f) \<and> obj_equal E (elem_value e) (elem_value f))
        (entries (dict_map l)) (entries (dict_map r))
      else views_equal E (dict_map l) (dict_map r)), c', dict_map r)"
proof (cases "is_ordereddict l")
  case True
  have "dict_iter_from (dict_map l) 0 = entries (dict_map l)" "dict_iter_from (dict_map r) 0 = entries (dict_map r)"
    using iter_entries assms(2,3,5) True by blast+
  then show ?thesis using True assms(4) by (simp add: dict_equal_def ordered_equal_all2)
next
  case False
  then show ?thesis using dict_equal_ok [OF assms(1-3), of c] assms(4) by simp
qed

lemma dict_equality_exact_witness:
  "\<exists>c'. dict_equal ptr_env cache0
       \<lparr>is_ordereddict = True, dict_map = empty_ordered\<lparr>used := 1, alloc := 1, table := [\<lparr>elem_key = 10, elem_value = 16\<rparr>]\<rparr>\<rparr>
       \<lparr>is_ordereddict = True, dict_map = empty_ordered\<lparr>used := 1, alloc := 1, table := [\<lparr>elem_key = 10, elem_value = 24\<rparr>]\<rparr>\<rparr>
     = (Inr False, c', empty_ordered\<lparr>used := 1, alloc := 1, table := [\<lparr>elem_key = 10, elem_value = 24\<rparr>]\<rparr>)"
proof -
  let ?m = "\<lambda>v. empty_ordered\<lparr>used := 1, alloc := 1, table := [\<lparr>elem_key = 10, elem_value = v\<rparr>]\<rparr>"
  have inv: "map_inv ptr_env (?m v)" if "v = 16 \<or> v = 24" for v
    using that by (auto simp: map_inv_def empty_ordered_def empty_map_def content_def ordered_shape_def keys_distinct_def
        insert_subset_eq_iff mp_obj_is_qstr_def)
  have "entries (?m v) = [\<lparr>elem_key = 10, elem_value = v\<rparr>]" "is_ordered (?m v)" for v
    by (simp_all add: entries_def empty_ordered_def empty_map_def)
  moreover have "\<not> obj_equal ptr_env 16 24" by (simp add: ptr_env_def)
  ultimately show ?thesis
    using dict_equality_exact [OF ptr_env_ok, of "\<lparr>is_ordereddict = True, dict_map = ?m 16\<rparr>"
      "\<lparr>is_ordereddict = True, dict_map = ?m 24\<rparr>" cache0] inv by simp
qed

end
