(* ===== verification/HashSet.thy ===== *)
theory HashSet
  imports HashMap
begin

text \<open>
  The hash set of \<open>py/map.c\<close>: the table of \<open>mp_set_t\<close> holds the elements themselves, with linear
  probing and deletion marks.  One \<open>mp_set_lookup\<close> finds, adds, removes or toggles.  As for maps,
  lookup and rehash call each other and the first argument bounds that nesting (three levels are
  enough, \<open>set_lookup_ok\<close>).  Elements are compared with \<open>mp_obj_equal\<close> alone, without the test for
  identical objects that maps have.
\<close>

section \<open>State\<close>

record mp_set_t =
  set_alloc :: nat
  set_used :: nat
  set_table :: "mp_obj_t list"

type_synonym set_result = "(map_error + mp_obj_t) \<times> mp_set_t"

definition mp_set_init :: "obj_env \<Rightarrow> nat \<Rightarrow> mp_set_t option" where
  "mp_set_init E n =
     (if m_new_ok E n then Some \<lparr>set_alloc = n, set_used = 0, set_table = replicate n MP_OBJ_NULL\<rparr> else None)"

definition mp_set_clear :: "mp_set_t \<Rightarrow> mp_set_t" where
  "mp_set_clear s = s\<lparr>set_alloc := 0, set_used := 0, set_table := []\<rparr>"

section \<open>Lookup\<close>

text \<open>The kinds are a set of two bits.\<close>

fun lookup_adds :: "mp_map_lookup_kind_t \<Rightarrow> bool" where
  "lookup_adds MP_MAP_LOOKUP = False"
| "lookup_adds MP_MAP_LOOKUP_ADD_IF_NOT_FOUND = True"
| "lookup_adds MP_MAP_LOOKUP_REMOVE_IF_FOUND = False"
| "lookup_adds MP_MAP_LOOKUP_ADD_IF_NOT_FOUND_OR_REMOVE_IF_FOUND = True"

fun lookup_removes :: "mp_map_lookup_kind_t \<Rightarrow> bool" where
  "lookup_removes MP_MAP_LOOKUP = False"
| "lookup_removes MP_MAP_LOOKUP_ADD_IF_NOT_FOUND = False"
| "lookup_removes MP_MAP_LOOKUP_REMOVE_IF_FOUND = True"
| "lookup_removes MP_MAP_LOOKUP_ADD_IF_NOT_FOUND_OR_REMOVE_IF_FOUND = True"

text \<open>The elements of the old table are looked up one by one in the new one (the argument \<open>look\<close>).\<close>

fun set_rehash_loop :: "(mp_set_t \<Rightarrow> mp_obj_t \<Rightarrow> set_result) \<Rightarrow> mp_obj_t list \<Rightarrow> mp_set_t \<Rightarrow> (map_error + unit) \<times> mp_set_t" where
  "set_rehash_loop look [] s = (Inr (), s)"
| "set_rehash_loop look (k # ks) s =
     (if slot_is_filled k then
        (case look s k of
           (Inl err, s') \<Rightarrow> (Inl err, s')
         | (Inr _, s') \<Rightarrow> set_rehash_loop look ks s')
      else set_rehash_loop look ks s)"

text \<open>\<open>alloc\<close> and \<open>used\<close> are set before \<open>m_new0\<close> is called, so they stay so when it raises
  \<open>MemoryError\<close>, with the table still the old one.\<close>

definition mp_set_rehash :: "(mp_set_t \<Rightarrow> mp_obj_t \<Rightarrow> set_result) \<Rightarrow> obj_env \<Rightarrow> mp_set_t \<Rightarrow> (map_error + unit) \<times> mp_set_t" where
  "mp_set_rehash look E s =
     (let new_alloc = get_hash_alloc_greater_or_equal_to (set_alloc s + 1);
          s1 = s\<lparr>set_alloc := new_alloc, set_used := 0\<rparr>
      in if \<not> m_new_ok E new_alloc then (Inl MemoryError, s1)
         else set_rehash_loop look (take (set_alloc s) (set_table s))
                (s1\<lparr>set_table := replicate new_alloc MP_OBJ_NULL\<rparr>))"

definition set_insert_at :: "mp_set_t \<Rightarrow> nat \<Rightarrow> mp_obj_t \<Rightarrow> mp_set_t" where
  "set_insert_at s a index = s\<lparr>set_used := set_used s + 1, set_table := (set_table s)[a := index]\<rparr>"

text \<open>Removal looks at the next slot, which must be inside the table.\<close>

definition set_remove_at :: "mp_set_t \<Rightarrow> nat \<Rightarrow> set_result" where
  "set_remove_at s pos =
     (if length (set_table s) \<le> (pos + 1) mod set_alloc s then (Inl BadAccess, s\<lparr>set_used := set_used s - 1\<rparr>)
      else (Inr (set_table s ! pos),
            s\<lparr>set_used := set_used s - 1,
              set_table := (set_table s)[pos := deleted_key (set_table s) (set_alloc s) pos]\<rparr>))"

text \<open>The search loop; after a rehash it starts again.\<close>

fun set_search ::
  "(mp_set_t \<Rightarrow> (map_error + unit) \<times> mp_set_t) \<Rightarrow> nat \<Rightarrow> obj_env \<Rightarrow> mp_set_t \<Rightarrow> mp_obj_t \<Rightarrow> mp_map_lookup_kind_t \<Rightarrow>
   set_result" where
  "set_search rehash 0 E s index kind = (Inl NoFuel, s)"
| "set_search rehash (Suc n) E s index kind =
     (case probe (\<lambda>elem. obj_equal E elem index) (set_table s) (set_alloc s)
             (unat (obj_hash E index) mod set_alloc s) (set_alloc s) None of
        ProbeNull a \<Rightarrow> (if lookup_adds kind then (Inr index, set_insert_at s a index) else (Inr MP_OBJ_NULL, s))
      | ProbeFound pos \<Rightarrow> (if lookup_removes kind then set_remove_at s pos else (Inr (set_table s ! pos), s))
      | ProbeFull (Some a) \<Rightarrow> (if lookup_adds kind then (Inr index, set_insert_at s a index) else (Inr MP_OBJ_NULL, s))
      | ProbeFull None \<Rightarrow>
          (if lookup_adds kind then
             (case rehash s of
                (Inl err, s') \<Rightarrow> (Inl err, s')
              | (Inr _, s') \<Rightarrow> set_search rehash n E s' index kind)
           else (Inr MP_OBJ_NULL, s))
      | ProbeBad \<Rightarrow> (Inl BadAccess, s))"

fun mp_set_lookup :: "obj_env \<Rightarrow> nat \<Rightarrow> mp_set_t \<Rightarrow> mp_obj_t \<Rightarrow> mp_map_lookup_kind_t \<Rightarrow> set_result" where
  "mp_set_lookup E 0 s index kind = (Inl NoFuel, s)"
| "mp_set_lookup E (Suc n) s index kind =
     (let rehash = mp_set_rehash (\<lambda>s k. mp_set_lookup E n s k MP_MAP_LOOKUP_ADD_IF_NOT_FOUND) E
      in if set_alloc s = 0 then
           (if lookup_adds kind then
              (case rehash s of
                 (Inl err, s') \<Rightarrow> (Inl err, s')
               | (Inr _, s') \<Rightarrow> set_search rehash n E s' index kind)
            else (Inr MP_OBJ_NULL, s))
         else set_search rehash n E s index kind)"

declare mp_set_lookup.simps [simp del] set_search.simps [simp del]

section \<open>The first element\<close>

text \<open>The first slot in use from \<open>pos\<close> on: None when there is none, and \<open>Some None\<close> for a read behind the
  table.\<close>

fun next_filled :: "mp_obj_t list \<Rightarrow> nat \<Rightarrow> nat \<Rightarrow> nat option option" where
  "next_filled ks pos 0 = None"
| "next_filled ks pos (Suc k) =
     (if length ks \<le> pos then Some None
      else if slot_is_filled (ks ! pos) then Some (Some pos)
      else next_filled ks (pos + 1) k)"

definition mp_set_remove_first :: "mp_set_t \<Rightarrow> set_result" where
  "mp_set_remove_first s =
     (case next_filled (set_table s) 0 (set_alloc s) of
        None \<Rightarrow> (Inr MP_OBJ_NULL, s)
      | Some None \<Rightarrow> (Inl BadAccess, s)
      | Some (Some pos) \<Rightarrow> set_remove_at s pos)"

end
