(* ===== verification/HashSetCorrect.thy ===== *)
theory HashSetCorrect
  imports HashSet
begin

text \<open>
  Correctness of \<open>mp_set_lookup\<close>: the invariant of a set, its elements as a multiset in which no two
  are equal, and what each kind of lookup returns and does to the elements.  Growing needs at most
  three levels of nesting and keeps the elements; a failed allocation during growth does not.
\<close>

section \<open>The contract on elements\<close>

text \<open>Equality of elements is symmetric and transitive, and equal elements have equal hashes.  It need
  not be reflexive: a float that is not a number equals nothing.\<close>

definition elem_env_ok :: "obj_env \<Rightarrow> bool" where
  "elem_env_ok E \<longleftrightarrow>
     (\<forall>a b. obj_equal E a b \<longrightarrow> obj_equal E b a) \<and>
     (\<forall>a b c. obj_equal E a b \<longrightarrow> obj_equal E b c \<longrightarrow> obj_equal E a c) \<and>
     (\<forall>a b. obj_equal E a b \<longrightarrow> obj_hash E a = obj_hash E b)"

lemma elem_sym: "elem_env_ok E \<Longrightarrow> obj_equal E a b \<Longrightarrow> obj_equal E b a"
  unfolding elem_env_ok_def by blast

lemma elem_trans: "elem_env_ok E \<Longrightarrow> obj_equal E a b \<Longrightarrow> obj_equal E b c \<Longrightarrow> obj_equal E a c"
  unfolding elem_env_ok_def by blast

lemma elem_hash: "elem_env_ok E \<Longrightarrow> obj_equal E a b \<Longrightarrow> obj_hash E a = obj_hash E b"
  unfolding elem_env_ok_def by blast

lemma ptr_env_elem_ok: "elem_env_ok ptr_env"
  by (simp add: elem_env_ok_def ptr_env_def)

section \<open>Elements and invariant\<close>

definition elems :: "mp_obj_t list \<Rightarrow> mp_obj_t multiset" where
  "elems ks = filter_mset slot_is_filled (mset ks)"

abbreviation elements :: "mp_set_t \<Rightarrow> mp_obj_t multiset" where
  "elements s \<equiv> elems (set_table s)"

text \<open>No two elements are equal.\<close>

definition apart :: "obj_env \<Rightarrow> mp_obj_t multiset \<Rightarrow> bool" where
  "apart E M \<longleftrightarrow> (\<forall>e \<in># M. \<forall>f \<in># M - {#e#}. \<not> obj_equal E e f)"

definition has_elem :: "obj_env \<Rightarrow> mp_obj_t multiset \<Rightarrow> mp_obj_t \<Rightarrow> bool" where
  "has_elem E M k \<longleftrightarrow> (\<exists>e \<in># M. obj_equal E e k)"

definition set_inv :: "obj_env \<Rightarrow> mp_set_t \<Rightarrow> bool" where
  "set_inv E s \<longleftrightarrow>
     set_alloc s = length (set_table s) \<and> set_used s = size (elements s) \<and> apart E (elements s) \<and>
     chain_ok (\<lambda>k. unat (obj_hash E k)) (set_table s)"

lemma elems_simps [simp]:
  "elems [] = {#}" "elems (k # ks) = (if slot_is_filled k then add_mset k (elems ks) else elems ks)"
  "elems (replicate n MP_OBJ_NULL) = {#}"
proof -
  show "elems (replicate n MP_OBJ_NULL) = {#}" by (induction n) (simp_all add: elems_def)
qed (simp_all add: elems_def)

lemma elems_update:
  "i < length ks \<Longrightarrow> elems (ks[i := k]) =
     elems ks - (if slot_is_filled (ks ! i) then {#ks ! i#} else {#}) + (if slot_is_filled k then {#k#} else {#})"
  by (simp add: elems_def mset_update filter_diff_mset)

lemma mem_elems: "e \<in># elems ks \<longleftrightarrow> slot_is_filled e \<and> (\<exists>i < length ks. ks ! i = e)"
  by (auto simp: elems_def in_set_conv_nth)

lemma size_elems_le: "size (elems ks) \<le> length ks"
  by (induction ks) auto

lemma all_filled_size: "(\<forall>i < length ks. slot_is_filled (ks ! i)) \<longleftrightarrow> size (elems ks) = length ks"
proof (induction ks)
  case (Cons k ks)
  then show ?case using size_elems_le [of ks] by (auto simp: less_Suc_eq_0_disj nth_Cons)
qed simp

lemma apart_empty [simp]: "apart E {#}"
  by (simp add: apart_def)

lemma apart_add:
  assumes "elem_env_ok E"
  shows "apart E (add_mset x M) \<longleftrightarrow> apart E M \<and> (\<forall>f \<in># M. \<not> obj_equal E x f)"
proof
  assume a: "apart E (add_mset x M)"
  have "\<not> obj_equal E e f" if "e \<in># M" "f \<in># M - {#e#}" for e f
  proof -
    from that(1) have "add_mset x M - {#e#} = add_mset x (M - {#e#})" by (simp add: multi_self_add_other_not_self)
    then show ?thesis using a that by (auto simp: apart_def)
  qed
  moreover have "\<not> obj_equal E x f" if "f \<in># M" for f
    using a that by (auto simp: apart_def)
  ultimately show "apart E M \<and> (\<forall>f \<in># M. \<not> obj_equal E x f)" by (simp add: apart_def)
next
  assume a: "apart E M \<and> (\<forall>f \<in># M. \<not> obj_equal E x f)"
  have "\<not> obj_equal E e f" if e: "e \<in># add_mset x M" and f: "f \<in># add_mset x M - {#e#}" for e f
  proof (cases "e = x")
    case True
    then show ?thesis using a f by simp
  next
    case False
    then have m: "e \<in># M" using e by simp
    then have "f = x \<or> f \<in># M - {#e#}" using f by auto
    then show ?thesis
    proof
      assume "f = x"
      then show ?thesis using a m elem_sym [OF assms] by blast
    next
      assume "f \<in># M - {#e#}"
      then show ?thesis using a m by (simp add: apart_def)
    qed
  qed
  then show "apart E (add_mset x M)" by (simp add: apart_def)
qed

lemma has_elem_simps [simp]:
  "\<not> has_elem E {#} k" "has_elem E (add_mset e M) k \<longleftrightarrow> obj_equal E e k \<or> has_elem E M k"
  "has_elem E (M + N) k \<longleftrightarrow> has_elem E M k \<or> has_elem E N k"
  by (auto simp: has_elem_def)

lemma has_elem_cong: "elem_env_ok E \<Longrightarrow> obj_equal E x k \<Longrightarrow> has_elem E M x = has_elem E M k"
  unfolding has_elem_def using elem_trans elem_sym by metis

text \<open>Taking an element away takes away exactly what equals it.\<close>

lemma has_elem_remove:
  assumes "elem_env_ok E" "apart E M" "e \<in># M" "obj_equal E e x"
  shows "has_elem E (M - {#e#}) k \<longleftrightarrow> has_elem E M k \<and> \<not> obj_equal E x k"
proof -
  obtain N where N: "M = add_mset e N" using assms(3) by (metis mset_add)
  have no: "\<not> obj_equal E e f" if "f \<in># N" for f
    using assms(1,2) that N by (simp add: apart_add)
  have "has_elem E N k \<Longrightarrow> \<not> obj_equal E x k"
  proof
    assume "has_elem E N k" and k: "obj_equal E x k"
    then obtain f where f: "f \<in># N" "obj_equal E f k" by (auto simp: has_elem_def)
    have "obj_equal E e k" using elem_trans [OF assms(1,4) k] .
    then have "obj_equal E e f" using elem_trans [OF assms(1)] elem_sym [OF assms(1) f(2)] by blast
    then show False using no f(1) by blast
  qed
  moreover have "obj_equal E e k \<longleftrightarrow> obj_equal E x k"
    using assms(1,4) elem_trans elem_sym by metis
  ultimately show ?thesis by (auto simp: N)
qed

section \<open>Search\<close>

abbreviation set_probe :: "obj_env \<Rightarrow> mp_set_t \<Rightarrow> mp_obj_t \<Rightarrow> probe_result" where
  "set_probe E s index \<equiv> probe (\<lambda>elem. obj_equal E elem index) (set_table s) (set_alloc s)
     (unat (obj_hash E index) mod set_alloc s) (set_alloc s) None"

lemma has_elem_nth:
  "has_elem E (elements s) k \<longleftrightarrow>
     (\<exists>p < length (set_table s). slot_is_filled (set_table s ! p) \<and> obj_equal E (set_table s ! p) k)"
  unfolding has_elem_def Bex_def mem_elems by blast

lemma set_probe_found:
  assumes "elem_env_ok E" "set_inv E s" "has_elem E (elements s) index"
  obtains p where "set_probe E s index = ProbeFound p" "p < length (set_table s)"
    "slot_is_filled (set_table s ! p)" "obj_equal E (set_table s ! p) index"
proof -
  obtain q where q: "q < length (set_table s)" "slot_is_filled (set_table s ! q)" "obj_equal E (set_table s ! q) index"
    using assms(3) by (auto simp: has_elem_nth)
  have ch: "chain_ok (\<lambda>k. unat (obj_hash E k)) (set_table s)" and al: "set_alloc s = length (set_table s)"
    using assms(2) by (simp_all add: set_inv_def)
  have h: "unat (obj_hash E (set_table s ! q)) = unat (obj_hash E index)"
    using elem_hash [OF assms(1) q(3)] by simp
  obtain p where p: "set_probe E s index = ProbeFound p"
    using chain_found [OF ch q(1,2), of "\<lambda>elem. obj_equal E elem index", OF q(3) h] al by auto
  have "0 < length (set_table s)" using q(1) by auto
  then have "probe_post (\<lambda>elem. obj_equal E elem index) (set_table s) (unat (obj_hash E index)) (ProbeFound p)"
    using probe_spec p al by metis
  with that p show ?thesis by simp
qed

lemma set_probe_absent:
  assumes "set_inv E s" "\<not> has_elem E (elements s) index" "0 < set_alloc s" "slot_is_filled index"
  shows "(\<exists>a. set_probe E s index \<in> {ProbeNull a, ProbeFull (Some a)} \<and> a < length (set_table s) \<and>
            \<not> slot_is_filled (set_table s ! a) \<and>
            chain_ok (\<lambda>k. unat (obj_hash E k)) ((set_table s)[a := index])) \<or>
         (set_probe E s index = ProbeFull None \<and> size (elements s) = set_alloc s)"
proof -
  let ?ks = "set_table s" and ?s = "unat (obj_hash E index)" and ?h = "\<lambda>k. unat (obj_hash E k)"
  have ch: "chain_ok ?h ?ks" and al: "set_alloc s = length ?ks"
    using assms(1) by (simp_all add: set_inv_def)
  have n: "0 < length ?ks" using assms(3) al by simp
  have absent: "\<forall>p < length ?ks. slot_is_filled (?ks ! p) \<longrightarrow> \<not> obj_equal E (?ks ! p) index"
    using assms(2) by (auto simp: has_elem_nth)
  from probe_absent [OF n absent, of ?s] show ?thesis
  proof (elim disjE exE conjE)
    fix a j assume p: "probe (\<lambda>elem. obj_equal E elem index) ?ks (length ?ks) (?s mod length ?ks) (length ?ks) None = ProbeNull a"
      and j: "j < length ?ks" "free_upto ?ks ?s (Suc j) a" "\<forall>l < j. ?ks ! slot_at ?ks ?s l \<noteq> MP_OBJ_NULL"
    have "chain_ok ?h (?ks[a := index])" by (rule chain_insert [OF ch n assms(4) j])
    then show ?thesis using p free_upto_lt [OF j(2) n] al by (intro disjI1 exI [of _ a]) simp
  next
    fix a assume p: "probe (\<lambda>elem. obj_equal E elem index) ?ks (length ?ks) (?s mod length ?ks) (length ?ks) None = ProbeFull (Some a)"
      and f: "free_upto ?ks ?s (length ?ks) a"
      and nn: "\<forall>l < length ?ks. ?ks ! slot_at ?ks ?s l \<noteq> MP_OBJ_NULL"
    have "free_upto ?ks ?s (Suc (length ?ks - 1)) a" using f n by simp
    from chain_insert [OF ch n assms(4) _ this] nn n
    have "chain_ok ?h (?ks[a := index])" by simp
    then show ?thesis using p free_upto_lt [OF f n] al by (intro disjI1 exI [of _ a]) simp
  next
    assume p: "probe (\<lambda>elem. obj_equal E elem index) ?ks (length ?ks) (?s mod length ?ks) (length ?ks) None = ProbeFull None"
      and all: "\<forall>l < length ?ks. slot_is_filled (?ks ! slot_at ?ks ?s l)"
    have "slot_is_filled (?ks ! q)" if "q < length ?ks" for q
      using slot_at_onto [OF that, of ?s] all by blast
    then show ?thesis using p al all_filled_size [of ?ks] by (intro disjI2) simp
  qed
qed

section \<open>Inserting and removing\<close>

lemma set_insert_at_ok:
  assumes "elem_env_ok E" "set_inv E s" "\<not> has_elem E (elements s) index" "slot_is_filled index"
    and "a < length (set_table s)" "\<not> slot_is_filled (set_table s ! a)"
    and "chain_ok (\<lambda>k. unat (obj_hash E k)) ((set_table s)[a := index])"
  shows "set_inv E (set_insert_at s a index)" "elements (set_insert_at s a index) = add_mset index (elements s)"
    "set_alloc (set_insert_at s a index) = set_alloc s"
proof -
  show e: "elements (set_insert_at s a index) = add_mset index (elements s)"
    using assms(4-6) by (simp add: set_insert_at_def elems_update)
  have "\<forall>f \<in># elements s. \<not> obj_equal E index f"
    using assms(3) elem_sym [OF assms(1)] by (auto simp: has_elem_def)
  then have "apart E (add_mset index (elements s))"
    using assms(2) by (simp add: apart_add [OF assms(1)] set_inv_def)
  then show "set_inv E (set_insert_at s a index)"
    using assms(2,7) unfolding set_inv_def e by (simp add: set_insert_at_def)
qed (simp add: set_insert_at_def)

lemma apart_remove:
  assumes "elem_env_ok E" "apart E M"
  shows "apart E (M - {#e#})"
proof (cases "e \<in># M")
  case True
  then obtain N where "M = add_mset e N" by (metis mset_add)
  then show ?thesis using assms by (simp add: apart_add)
qed (use assms in \<open>simp add: diff_single_trivial\<close>)

lemma set_remove_at_ok:
  assumes "elem_env_ok E" "set_inv E s" "p < length (set_table s)" "slot_is_filled (set_table s ! p)"
  shows "\<exists>s'. set_remove_at s p = (Inr (set_table s ! p), s') \<and> set_inv E s' \<and>
    elements s' = elements s - {#set_table s ! p#} \<and> set_table s ! p \<in># elements s \<and>
    set_table s' = (set_table s)[p := deleted_key (set_table s) (length (set_table s)) p]"
proof -
  let ?ks = "set_table s"
  have al: "set_alloc s = length ?ks" and ch: "chain_ok (\<lambda>k. unat (obj_hash E k)) ?ks"
    using assms(2) by (simp_all add: set_inv_def)
  let ?s' = "s\<lparr>set_used := set_used s - 1, set_table := ?ks[p := deleted_key ?ks (length ?ks) p]\<rparr>"
  have m: "?ks ! p \<in># elements s" using assms(3,4) by (auto simp: mem_elems)
  have e: "elements ?s' = elements s - {#?ks ! p#}"
    using assms(3,4) by (simp add: elems_update)
  have "size (elements s - {#?ks ! p#}) = size (elements s) - 1" using m by (simp add: size_Diff_singleton)
  then have "set_inv E ?s'"
    using assms(2) chain_remove [OF ch assms(3)] apart_remove [OF assms(1), of "elements s" "?ks ! p"]
    unfolding set_inv_def e by simp
  moreover have "(p + 1) mod length ?ks < length ?ks" using assms(3) by (intro mod_less_divisor) auto
  ultimately show ?thesis using e m al by (simp add: set_remove_at_def not_le)
qed

section \<open>Lookup\<close>

text \<open>What a lookup of each kind does to the elements.\<close>

definition set_step :: "obj_env \<Rightarrow> mp_map_lookup_kind_t \<Rightarrow> mp_obj_t \<Rightarrow> mp_obj_t multiset \<Rightarrow> mp_obj_t \<Rightarrow> mp_obj_t multiset \<Rightarrow> bool" where
  "set_step E kind index M r M' \<longleftrightarrow>
     (if has_elem E M index
      then r \<in># M \<and> obj_equal E r index \<and> M' = (if lookup_removes kind then M - {#r#} else M)
      else if lookup_adds kind then r = index \<and> M' = add_mset index M
      else r = MP_OBJ_NULL \<and> M' = M)"

lemma set_search_found:
  assumes "elem_env_ok E" "set_inv E s" "has_elem E (elements s) index"
  shows "\<exists>r s'. set_search rehash (Suc n) E s index kind = (Inr r, s') \<and> set_inv E s' \<and>
    set_step E kind index (elements s) r (elements s')"
proof -
  obtain p where p: "set_probe E s index = ProbeFound p" "p < length (set_table s)"
      "slot_is_filled (set_table s ! p)" "obj_equal E (set_table s ! p) index"
    by (rule set_probe_found [OF assms])
  obtain s' where s': "set_remove_at s p = (Inr (set_table s ! p), s')" "set_inv E s'"
      "elements s' = elements s - {#set_table s ! p#}" "set_table s ! p \<in># elements s"
    using set_remove_at_ok [OF assms(1,2) p(2,3)] by blast
  show ?thesis
    using p s' assms(2,3) by (cases "lookup_removes kind") (simp_all add: set_search.simps(2) set_step_def)
qed

lemma set_search_absent:
  assumes "elem_env_ok E" "set_inv E s" "\<not> has_elem E (elements s) index" "slot_is_filled index"
    and "0 < set_alloc s" "lookup_adds kind \<longrightarrow> size (elements s) < set_alloc s"
  shows "\<exists>r s'. set_search rehash (Suc n) E s index kind = (Inr r, s') \<and> set_inv E s' \<and>
    set_step E kind index (elements s) r (elements s') \<and> set_alloc s' = set_alloc s"
  using set_probe_absent [OF assms(2,3,5,4)]
proof (elim disjE exE conjE)
  fix a assume a: "set_probe E s index \<in> {ProbeNull a, ProbeFull (Some a)}" "a < length (set_table s)"
    "\<not> slot_is_filled (set_table s ! a)" "chain_ok (\<lambda>k. unat (obj_hash E k)) ((set_table s)[a := index])"
  note ins = set_insert_at_ok [OF assms(1-4) a(2-4)]
  from a(1) have "set_probe E s index = ProbeNull a \<or> set_probe E s index = ProbeFull (Some a)" by blast
  then show ?thesis
    using ins assms(2,3) by (elim disjE; cases "lookup_adds kind") (simp_all add: set_search.simps(2) set_step_def)
next
  assume "set_probe E s index = ProbeFull None" "size (elements s) = set_alloc s"
  then show ?thesis using assms(2,3,6) by (simp add: set_search.simps(2) set_step_def)
qed

section \<open>Growing\<close>

abbreviation set_rehash_of :: "obj_env \<Rightarrow> nat \<Rightarrow> mp_set_t \<Rightarrow> (map_error + unit) \<times> mp_set_t" where
  "set_rehash_of E n \<equiv> mp_set_rehash (\<lambda>s k. mp_set_lookup E n s k MP_MAP_LOOKUP_ADD_IF_NOT_FOUND) E"

lemma mp_set_lookup_search: "0 < set_alloc s \<Longrightarrow>
  mp_set_lookup E (Suc n) s index kind = set_search (set_rehash_of E n) n E s index kind"
  by (simp add: mp_set_lookup.simps(2))

lemma has_elem_apart:
  assumes "elem_env_ok E" "apart E (add_mset k M)"
  shows "\<not> has_elem E M k"
  using assms elem_sym [OF assms(1)] by (auto simp: apart_add has_elem_def)

lemma apart_union_left: "elem_env_ok E \<Longrightarrow> apart E (M + N) \<Longrightarrow> apart E N"
  by (induction M) (simp_all add: apart_add)

lemma set_rehash_loop_ok:
  assumes "elem_env_ok E" "set_inv E s" "apart E (elems ks + elements s)" "size (elems ks) + size (elements s) \<le> set_alloc s"
  shows "\<exists>s'. set_rehash_loop (\<lambda>s k. mp_set_lookup E (Suc (Suc n)) s k MP_MAP_LOOKUP_ADD_IF_NOT_FOUND) ks s = (Inr (), s') \<and>
    set_inv E s' \<and> elements s' = elems ks + elements s \<and> set_alloc s' = set_alloc s"
  using assms(2-)
proof (induction ks arbitrary: s)
  case (Cons k ks)
  show ?case
  proof (cases "slot_is_filled k")
    case True
    have ap: "apart E (add_mset k (elems ks + elements s))" and sz: "size (elems ks) + size (elements s) < set_alloc s"
      using Cons.prems True by simp_all
    have no: "\<not> has_elem E (elements s) k" using has_elem_apart [OF assms(1) ap] by simp
    have "0 < set_alloc s" "size (elements s) < set_alloc s" using sz by simp_all
    then obtain r s1 where s1: "set_search (set_rehash_of E (Suc n)) (Suc n) E s k MP_MAP_LOOKUP_ADD_IF_NOT_FOUND = (Inr r, s1)"
        "set_inv E s1" "set_step E MP_MAP_LOOKUP_ADD_IF_NOT_FOUND k (elements s) r (elements s1)" "set_alloc s1 = set_alloc s"
      using set_search_absent [OF assms(1) Cons.prems(1) no True, of MP_MAP_LOOKUP_ADD_IF_NOT_FOUND] by blast
    have e: "elements s1 = add_mset k (elements s)" using s1(3) no by (simp add: set_step_def)
    have "mp_set_lookup E (Suc (Suc n)) s k MP_MAP_LOOKUP_ADD_IF_NOT_FOUND = (Inr r, s1)"
      using s1(1) \<open>0 < set_alloc s\<close> by (simp add: mp_set_lookup_search)
    moreover from Cons.IH [OF s1(2)] ap sz obtain s' where
      "set_rehash_loop (\<lambda>s k. mp_set_lookup E (Suc (Suc n)) s k MP_MAP_LOOKUP_ADD_IF_NOT_FOUND) ks s1 = (Inr (), s')"
      "set_inv E s'" "elements s' = elems ks + elements s1" "set_alloc s' = set_alloc s"
      by (auto simp: e s1(4))
    ultimately show ?thesis using True by (simp add: e)
  qed (use Cons in simp)
qed simp

lemma set_rehash_ok:
  assumes "elem_env_ok E" "set_inv E s" "m_new_ok E (get_hash_alloc_greater_or_equal_to (set_alloc s + 1))"
  shows "\<exists>s'. set_rehash_of E (Suc (Suc n)) s = (Inr (), s') \<and> set_inv E s' \<and> elements s' = elements s \<and>
    size (elements s') < set_alloc s'"
proof -
  let ?na = "get_hash_alloc_greater_or_equal_to (set_alloc s + 1)"
  let ?s0 = "s\<lparr>set_alloc := ?na, set_used := 0, set_table := replicate ?na MP_OBJ_NULL\<rparr>"
  have al: "set_alloc s = length (set_table s)" using assms(2) by (simp add: set_inv_def)
  have sz: "size (elements s) < ?na"
    using size_elems_le [of "set_table s"] get_hash_alloc_ge [of "set_alloc s + 1"] al by simp
  have "set_inv E ?s0" by (simp add: set_inv_def chain_ok_def)
  moreover have "apart E (elements s + elements ?s0)" using assms(2) by (simp add: set_inv_def)
  ultimately obtain s' where s': "set_rehash_loop (\<lambda>s k. mp_set_lookup E (Suc (Suc n)) s k MP_MAP_LOOKUP_ADD_IF_NOT_FOUND)
        (set_table s) ?s0 = (Inr (), s')" "set_inv E s'" "elements s' = elements s" "set_alloc s' = ?na"
    using set_rehash_loop_ok [OF assms(1), of ?s0 "set_table s" n] sz by auto
  then show ?thesis using assms(3) al sz by (simp add: mp_set_rehash_def)
qed

text \<open>Whether a lookup has to grow the table, and can.\<close>

definition set_can_grow :: "obj_env \<Rightarrow> mp_set_t \<Rightarrow> bool" where
  "set_can_grow E s \<longleftrightarrow> m_new_ok E (get_hash_alloc_greater_or_equal_to (set_alloc s + 1))"

lemma set_lookup_ok:
  assumes "elem_env_ok E" "set_inv E s" "slot_is_filled index"
    and "lookup_adds kind \<and> \<not> has_elem E (elements s) index \<and> set_used s = set_alloc s \<longrightarrow> set_can_grow E s"
  shows "\<exists>r s'. mp_set_lookup E (Suc (Suc (Suc n))) s index kind = (Inr r, s') \<and> set_inv E s' \<and>
    set_step E kind index (elements s) r (elements s')"
proof (cases "has_elem E (elements s) index")
  case True
  then have "0 < set_alloc s" using assms(2) by (auto simp: set_inv_def has_elem_nth)
  then show ?thesis using set_search_found [OF assms(1,2) True] by (simp add: mp_set_lookup_search)
next
  case no: False
  show ?thesis
  proof (cases "lookup_adds kind \<and> set_used s = set_alloc s")
    case True
    then have grow: "m_new_ok E (get_hash_alloc_greater_or_equal_to (set_alloc s + 1))"
      using assms(4) no by (simp add: set_can_grow_def)
    obtain s1 where s1: "set_rehash_of E (Suc (Suc n)) s = (Inr (), s1)" "set_inv E s1"
        "elements s1 = elements s" "size (elements s1) < set_alloc s1"
      using set_rehash_ok [OF assms(1,2) grow] by blast
    have found: "\<exists>r s'. set_search rehash (Suc m) E s1 index kind = (Inr r, s') \<and> set_inv E s' \<and>
        set_step E kind index (elements s) r (elements s')" for rehash m
      using set_search_absent [OF assms(1) s1(2), of index kind] s1(3,4) no assms(3) by fastforce
    show ?thesis
    proof (cases "set_alloc s = 0")
      case True
      then show ?thesis
        using found \<open>lookup_adds kind \<and> set_used s = set_alloc s\<close> s1(1) by (simp add: mp_set_lookup.simps(2))
    next
      case False
      have "\<forall>i < length (set_table s). slot_is_filled (set_table s ! i)"
        using True assms(2) by (simp add: all_filled_size set_inv_def)
      then have "set_probe E s index = ProbeFull None"
        using set_probe_absent [OF assms(2) no _ assms(3)] False by blast
      then have "mp_set_lookup E (Suc (Suc (Suc n))) s index kind =
          set_search (set_rehash_of E (Suc (Suc n))) (Suc n) E s1 index kind"
        using True False s1(1) by (simp add: mp_set_lookup_search set_search.simps(2))
      then show ?thesis using found by simp
    qed
  next
    case room: False
    show ?thesis
    proof (cases "set_alloc s = 0")
      case True
      have "set_used s = 0" using True assms(2) size_elems_le [of "set_table s"] by (simp add: set_inv_def)
      then have "\<not> lookup_adds kind" using room True by simp
      then show ?thesis using True assms(2) no by (simp add: mp_set_lookup.simps(2) set_step_def)
    next
      case False
      have "lookup_adds kind \<longrightarrow> size (elements s) < set_alloc s"
        using room assms(2) size_elems_le [of "set_table s"] by (auto simp: set_inv_def)
      from set_search_absent [OF assms(1,2) no assms(3) _ this] False show ?thesis
        by (fastforce simp: mp_set_lookup_search)
    qed
  qed
qed

section \<open>A failed growth\<close>

text \<open>When the table is full and cannot grow, the set claims more slots than it has and no elements.\<close>

lemma set_growth_failure:
  assumes "elem_env_ok E" "set_inv E s" "slot_is_filled index" "lookup_adds kind" "\<not> has_elem E (elements s) index"
    and "set_used s = set_alloc s" "\<not> set_can_grow E s"
  shows "mp_set_lookup E (Suc (Suc (Suc n))) s index kind =
    (Inl MemoryError, s\<lparr>set_alloc := get_hash_alloc_greater_or_equal_to (set_alloc s + 1), set_used := 0\<rparr>)"
proof -
  have fail: "set_rehash_of E (Suc (Suc n)) s =
      (Inl MemoryError, s\<lparr>set_alloc := get_hash_alloc_greater_or_equal_to (set_alloc s + 1), set_used := 0\<rparr>)"
    using assms(7) by (simp add: mp_set_rehash_def set_can_grow_def Let_def)
  show ?thesis
  proof (cases "set_alloc s = 0")
    case True
    then show ?thesis using fail assms(4) by (simp add: mp_set_lookup.simps(2))
  next
    case False
    have "\<forall>i < length (set_table s). slot_is_filled (set_table s ! i)"
      using assms(2,6) by (simp add: all_filled_size set_inv_def)
    then have "set_probe E s index = ProbeFull None"
      using set_probe_absent [OF assms(2,5) _ assms(3)] False by blast
    then show ?thesis using fail assms(4) False by (simp add: mp_set_lookup_search set_search.simps(2))
  qed
qed

section \<open>The first element\<close>

lemma next_filled_ok:
  assumes "pos + k = length ks"
  shows "case next_filled ks pos k of
      None \<Rightarrow> \<forall>i. pos \<le> i \<and> i < length ks \<longrightarrow> \<not> slot_is_filled (ks ! i)
    | Some None \<Rightarrow> False
    | Some (Some p) \<Rightarrow> pos \<le> p \<and> p < length ks \<and> slot_is_filled (ks ! p) \<and>
        (\<forall>i. pos \<le> i \<and> i < p \<longrightarrow> \<not> slot_is_filled (ks ! i))"
  using assms
proof (induction k arbitrary: pos)
  case (Suc k)
  show ?case
  proof (cases "slot_is_filled (ks ! pos)")
    case False
    have "next_filled ks pos (Suc k) = next_filled ks (Suc pos) k" using Suc.prems False by simp
    then show ?thesis
      using Suc.IH [of "Suc pos"] Suc.prems False
      by (auto split: option.splits simp: Suc_le_eq) (metis le_neq_implies_less)+
  qed (use Suc.prems in auto)
qed auto

lemma elems_empty_iff: "elems ks = {#} \<longleftrightarrow> (\<forall>i < length ks. \<not> slot_is_filled (ks ! i))"
  by (auto simp: elems_def filter_mset_eq_mempty_iff in_set_conv_nth)

lemma remove_first_ok:
  assumes "elem_env_ok E" "set_inv E s"
  shows "\<exists>r s'. mp_set_remove_first s = (Inr r, s') \<and> set_inv E s' \<and>
    (if elements s = {#} then r = MP_OBJ_NULL \<and> s' = s else r \<in># elements s \<and> elements s' = elements s - {#r#})"
proof -
  have al: "set_alloc s = length (set_table s)" using assms(2) by (simp add: set_inv_def)
  have n: "0 + set_alloc s = length (set_table s)" using al by simp
  show ?thesis
  proof (cases "next_filled (set_table s) 0 (set_alloc s)")
    case None
    then have "elements s = {#}" using next_filled_ok [OF n] by (simp add: elems_empty_iff)
    then show ?thesis using None assms(2) by (simp add: mp_set_remove_first_def)
  next
    case (Some x)
    then obtain p where p: "x = Some p" "p < length (set_table s)" "slot_is_filled (set_table s ! p)"
      using next_filled_ok [OF n] by (cases x) auto
    then show ?thesis
      using Some set_remove_at_ok [OF assms p(2,3)] by (fastforce simp: mp_set_remove_first_def)
  qed
qed

end
