(* ===== verification/SetObj.thy ===== *)
theory SetObj
  imports HashSetCorrect
begin

text \<open>
  The \<open>set\<close> and \<open>frozenset\<close> objects of \<open>py/objset.c\<close> on top of the hash set.  A method runs on the
  table of its object and leaves it, also when it raises.  The argument of a method may be the very
  object that the method changes, which is then iterated while it changes; such a loop is a
  \<open>partial_function\<close>, whose None means that it does not end.
\<close>

section \<open>State\<close>

record mp_obj_set_t =
  is_frozenset :: bool   \<comment> \<open>\<open>base.type == &mp_type_frozenset\<close>\<close>
  the_set :: mp_set_t

datatype set_error = KeyError mp_obj_t | PopFromEmpty | SetError map_error

text \<open>An argument: the object itself, another set, or an iterable, given by what it yields.\<close>

datatype set_arg = ArgSelf | ArgSet mp_obj_set_t | ArgIter "mp_obj_t list"

abbreviation set_look :: "obj_env \<Rightarrow> mp_set_t \<Rightarrow> mp_obj_t \<Rightarrow> mp_map_lookup_kind_t \<Rightarrow> set_result" where
  "set_look E \<equiv> mp_set_lookup E (Suc (Suc (Suc 0)))"

section \<open>Iteration\<close>

definition set_it_iternext :: "mp_set_t \<Rightarrow> nat \<Rightarrow> map_error + (mp_obj_t \<times> nat) option" where
  "set_it_iternext s cur =
     (case next_filled (set_table s) cur (set_alloc s - cur) of
        None \<Rightarrow> Inr None
      | Some None \<Rightarrow> Inl BadAccess
      | Some (Some i) \<Rightarrow> Inr (Some (set_table s ! i, i + 1)))"

text \<open>The body of a loop over an iterator works on a state and says whether to go on.\<close>

type_synonym 's set_body = "'s \<Rightarrow> mp_obj_t \<Rightarrow> (map_error + bool) \<times> 's"

text \<open>A loop over the elements of a set, which may depend on the state: \<open>src\<close> gives it.\<close>

partial_function (option) each_elem ::
  "('s \<Rightarrow> mp_set_t) \<Rightarrow> ('s \<Rightarrow> mp_obj_t \<Rightarrow> (map_error + bool) \<times> 's) \<Rightarrow> 's \<Rightarrow> nat \<Rightarrow> ((map_error + bool) \<times> 's) option" where
  "each_elem src body s cur =
     (case set_it_iternext (src s) cur of
        Inl err \<Rightarrow> Some (Inl err, s)
      | Inr None \<Rightarrow> Some (Inr True, s)
      | Inr (Some (k, cur')) \<Rightarrow>
          (case body s k of
             (Inl err, s') \<Rightarrow> Some (Inl err, s')
           | (Inr goes_on, s') \<Rightarrow> if goes_on then each_elem src body s' cur' else Some (Inr False, s')))"

declare each_elem.simps [code]

fun each_item :: "'s set_body \<Rightarrow> 's \<Rightarrow> mp_obj_t list \<Rightarrow> (map_error + bool) \<times> 's" where
  "each_item body s [] = (Inr True, s)"
| "each_item body s (k # ks) =
     (case body s k of
        (Inl err, s') \<Rightarrow> (Inl err, s')
      | (Inr goes_on, s') \<Rightarrow> if goes_on then each_item body s' ks else (Inr False, s'))"

definition over_arg :: "mp_set_t set_body \<Rightarrow> mp_set_t \<Rightarrow> set_arg \<Rightarrow> ((map_error + bool) \<times> mp_set_t) option" where
  "over_arg body s arg =
     (case arg of
        ArgSelf \<Rightarrow> each_elem (\<lambda>s. s) body s 0
      | ArgSet other \<Rightarrow> each_elem (\<lambda>_. the_set other) body s 0
      | ArgIter ks \<Rightarrow> Some (each_item body s ks))"

text \<open>A body that looks every object up with one kind.\<close>

definition look_up :: "obj_env \<Rightarrow> mp_map_lookup_kind_t \<Rightarrow> mp_set_t set_body" where
  "look_up E kind s k = (case set_look E s k kind of (Inl err, s') \<Rightarrow> (Inl err, s') | (Inr _, s') \<Rightarrow> (Inr True, s'))"

section \<open>Making sets\<close>

definition mp_obj_new_set :: "obj_env \<Rightarrow> mp_obj_t list \<Rightarrow> map_error + mp_obj_set_t" where
  "mp_obj_new_set E items =
     (case mp_set_init E (length items) of
        None \<Rightarrow> Inl MemoryError
      | Some s \<Rightarrow>
          (case each_item (look_up E MP_MAP_LOOKUP_ADD_IF_NOT_FOUND) s items of
             (Inl err, _) \<Rightarrow> Inl err
           | (Inr _, s') \<Rightarrow> Inr \<lparr>is_frozenset = False, the_set = s'\<rparr>))"

definition mp_obj_set_store :: "obj_env \<Rightarrow> mp_set_t \<Rightarrow> mp_obj_t \<Rightarrow> (map_error + unit) \<times> mp_set_t" where
  "mp_obj_set_store E s item =
     (case set_look E s item MP_MAP_LOOKUP_ADD_IF_NOT_FOUND of (Inl err, s') \<Rightarrow> (Inl err, s') | (Inr _, s') \<Rightarrow> (Inr (), s'))"

text \<open>The constructor with its optional iterable.\<close>

fun store_items :: "obj_env \<Rightarrow> mp_set_t \<Rightarrow> mp_obj_t list \<Rightarrow> (map_error + unit) \<times> mp_set_t" where
  "store_items E s [] = (Inr (), s)"
| "store_items E s (k # ks) =
     (case mp_obj_set_store E s k of (Inl err, s') \<Rightarrow> (Inl err, s') | (Inr _, s') \<Rightarrow> store_items E s' ks)"

definition set_make_new :: "obj_env \<Rightarrow> bool \<Rightarrow> mp_obj_t list option \<Rightarrow> map_error + mp_obj_set_t" where
  "set_make_new E frozen arg =
     (case mp_obj_new_set E [] of
        Inl err \<Rightarrow> Inl err
      | Inr o1 \<Rightarrow>
          (case arg of
             None \<Rightarrow> Inr (o1\<lparr>is_frozenset := frozen\<rparr>)
           | Some items \<Rightarrow>
               (case store_items E (the_set o1) items of
                  (Inl err, _) \<Rightarrow> Inl err
                | (Inr _, s) \<Rightarrow> Inr \<lparr>is_frozenset = frozen, the_set = s\<rparr>)))"

definition set_copy :: "obj_env \<Rightarrow> mp_obj_set_t \<Rightarrow> map_error + mp_obj_set_t" where
  "set_copy E self =
     (case mp_set_init E (set_alloc (the_set self)) of
        None \<Rightarrow> Inl MemoryError
      | Some s \<Rightarrow>
          Inr (self\<lparr>the_set := s\<lparr>set_used := set_used (the_set self),
            set_table := buf_write (set_table s) 0 (take (set_alloc (the_set self)) (set_table (the_set self)))\<rparr>\<rparr>))"

section \<open>Methods on one element\<close>

definition set_add :: "obj_env \<Rightarrow> mp_set_t \<Rightarrow> mp_obj_t \<Rightarrow> (map_error + unit) \<times> mp_set_t" where
  "set_add E s item =
     (case set_look E s item MP_MAP_LOOKUP_ADD_IF_NOT_FOUND of (Inl err, s') \<Rightarrow> (Inl err, s') | (Inr _, s') \<Rightarrow> (Inr (), s'))"

definition set_discard :: "obj_env \<Rightarrow> mp_set_t \<Rightarrow> mp_obj_t \<Rightarrow> (map_error + unit) \<times> mp_set_t" where
  "set_discard E s item =
     (case set_look E s item MP_MAP_LOOKUP_REMOVE_IF_FOUND of (Inl err, s') \<Rightarrow> (Inl err, s') | (Inr _, s') \<Rightarrow> (Inr (), s'))"

definition set_remove :: "obj_env \<Rightarrow> mp_set_t \<Rightarrow> mp_obj_t \<Rightarrow> (set_error + unit) \<times> mp_set_t" where
  "set_remove E s item =
     (case set_look E s item MP_MAP_LOOKUP_REMOVE_IF_FOUND of
        (Inl err, s') \<Rightarrow> (Inl (SetError err), s')
      | (Inr r, s') \<Rightarrow> (if r = MP_OBJ_NULL then Inl (KeyError item) else Inr (), s'))"

definition set_pop :: "mp_set_t \<Rightarrow> (set_error + mp_obj_t) \<times> mp_set_t" where
  "set_pop s =
     (case mp_set_remove_first s of
        (Inl err, s') \<Rightarrow> (Inl (SetError err), s')
      | (Inr r, s') \<Rightarrow> (if r = MP_OBJ_NULL then Inl PopFromEmpty else Inr r, s'))"

definition set_contains :: "obj_env \<Rightarrow> mp_set_t \<Rightarrow> mp_obj_t \<Rightarrow> map_error + bool" where
  "set_contains E s item =
     (case set_look E s item MP_MAP_LOOKUP of (Inl err, _) \<Rightarrow> Inl err | (Inr r, _) \<Rightarrow> Inr (r \<noteq> MP_OBJ_NULL))"

section \<open>Methods on another collection\<close>

type_synonym 'a set_method = "((map_error + 'a) \<times> mp_set_t) option"

text \<open>The argument of a method that works on a copy of its object.\<close>

definition for_copy :: "mp_obj_set_t \<Rightarrow> set_arg \<Rightarrow> set_arg" where
  "for_copy self arg = (case arg of ArgSelf \<Rightarrow> ArgSet self | _ \<Rightarrow> arg)"

definition on_copy :: "obj_env \<Rightarrow> mp_obj_set_t \<Rightarrow> (mp_set_t \<Rightarrow> ((map_error + bool) \<times> mp_set_t) option) \<Rightarrow> (map_error + mp_obj_set_t) option" where
  "on_copy E self f =
     (case set_copy E self of
        Inl err \<Rightarrow> Some (Inl err)
      | Inr c \<Rightarrow>
          map_option (\<lambda>(r, s). case r of Inl err \<Rightarrow> Inl err | Inr _ \<Rightarrow> Inr (c\<lparr>the_set := s\<rparr>)) (f (the_set c)))"

definition set_update_int :: "obj_env \<Rightarrow> mp_set_t \<Rightarrow> set_arg \<Rightarrow> bool set_method" where
  "set_update_int E s other = over_arg (look_up E MP_MAP_LOOKUP_ADD_IF_NOT_FOUND) s other"

definition set_union :: "obj_env \<Rightarrow> mp_obj_set_t \<Rightarrow> set_arg \<Rightarrow> (map_error + mp_obj_set_t) option" where
  "set_union E self other = on_copy E self (\<lambda>s. set_update_int E s (for_copy self other))"

definition set_symmetric_difference_update :: "obj_env \<Rightarrow> mp_set_t \<Rightarrow> set_arg \<Rightarrow> bool set_method" where
  "set_symmetric_difference_update E s other =
     over_arg (look_up E MP_MAP_LOOKUP_ADD_IF_NOT_FOUND_OR_REMOVE_IF_FOUND) s other"

definition set_symmetric_difference :: "obj_env \<Rightarrow> mp_obj_set_t \<Rightarrow> set_arg \<Rightarrow> (map_error + mp_obj_set_t) option" where
  "set_symmetric_difference E self other =
     on_copy E self (\<lambda>s. set_symmetric_difference_update E s (for_copy self other))"

text \<open>\<open>set_diff_int\<close> over its arguments; the object itself as an argument empties it.\<close>

fun set_diff_int :: "obj_env \<Rightarrow> mp_set_t \<Rightarrow> set_arg list \<Rightarrow> bool set_method" where
  "set_diff_int E s [] = Some (Inr True, s)"
| "set_diff_int E s (other # others) =
     (case (if other = ArgSelf then Some (Inr True, mp_set_clear s)
            else over_arg (look_up E MP_MAP_LOOKUP_REMOVE_IF_FOUND) s other) of
        None \<Rightarrow> None
      | Some (Inl err, s') \<Rightarrow> Some (Inl err, s')
      | Some (Inr _, s') \<Rightarrow> set_diff_int E s' others)"

definition set_diff :: "obj_env \<Rightarrow> mp_obj_set_t \<Rightarrow> set_arg list \<Rightarrow> (map_error + mp_obj_set_t) option" where
  "set_diff E self others = on_copy E self (\<lambda>s. set_diff_int E s (map (for_copy self) others))"

text \<open>Intersection collects into a new set what the other collection yields and the set contains.\<close>

definition keep_common :: "obj_env \<Rightarrow> mp_set_t \<Rightarrow> mp_set_t set_body" where
  "keep_common E self out k =
     (case set_look E self k MP_MAP_LOOKUP of
        (Inl err, _) \<Rightarrow> (Inl err, out)
      | (Inr r, _) \<Rightarrow>
          if r = MP_OBJ_NULL then (Inr True, out)
          else (case set_add E out k of (Inl err, out') \<Rightarrow> (Inl err, out') | (Inr _, out') \<Rightarrow> (Inr True, out')))"

definition set_intersect_out :: "obj_env \<Rightarrow> mp_set_t \<Rightarrow> set_arg \<Rightarrow> (map_error + mp_set_t) option" where
  "set_intersect_out E self other =
     (case mp_obj_new_set E [] of
        Inl err \<Rightarrow> Some (Inl err)
      | Inr out \<Rightarrow>
          map_option (\<lambda>(r, s). case r of Inl err \<Rightarrow> Inl err | Inr _ \<Rightarrow> Inr s) (over_arg (keep_common E self) (the_set out) other))"

definition set_intersect :: "obj_env \<Rightarrow> mp_obj_set_t \<Rightarrow> set_arg \<Rightarrow> (map_error + mp_obj_set_t) option" where
  "set_intersect E self other =
     (if other = ArgSelf then Some (set_copy E self)
      else map_option (\<lambda>r. case r of Inl err \<Rightarrow> Inl err | Inr s \<Rightarrow> Inr \<lparr>is_frozenset = False, the_set = s\<rparr>)
             (set_intersect_out E (the_set self) other))"

definition set_intersect_update :: "obj_env \<Rightarrow> mp_set_t \<Rightarrow> set_arg \<Rightarrow> unit set_method" where
  "set_intersect_update E s other =
     (if other = ArgSelf then Some (Inr (), s)
      else map_option (\<lambda>r. case r of Inl err \<Rightarrow> (Inl err, s) | Inr out \<Rightarrow> (Inr (), out)) (set_intersect_out E s other))"

section \<open>Comparison\<close>

text \<open>A body that stops at the first object that is, or is not, in a set.\<close>

definition stop_if :: "obj_env \<Rightarrow> mp_set_t \<Rightarrow> bool \<Rightarrow> mp_set_t set_body" where
  "stop_if E other present s k =
     (case set_look E other k MP_MAP_LOOKUP of
        (Inl err, _) \<Rightarrow> (Inl err, s)
      | (Inr r, _) \<Rightarrow> (Inr ((r \<noteq> MP_OBJ_NULL) \<noteq> present), s))"

definition set_isdisjoint :: "obj_env \<Rightarrow> mp_set_t \<Rightarrow> set_arg \<Rightarrow> (map_error + bool) option" where
  "set_isdisjoint E self other = map_option fst (over_arg (stop_if E self True) self other)"

definition set_issubset_internal :: "obj_env \<Rightarrow> mp_set_t \<Rightarrow> mp_set_t \<Rightarrow> bool \<Rightarrow> (map_error + bool) option" where
  "set_issubset_internal E self other proper =
     (if proper \<and> set_used self = set_used other then Some (Inr False)
      else map_option fst (each_elem (\<lambda>s. s) (stop_if E other False) self 0))"

text \<open>The method of the same name takes any iterable and makes a set of it first.\<close>

definition set_of_arg :: "obj_env \<Rightarrow> mp_set_t \<Rightarrow> set_arg \<Rightarrow> map_error + mp_set_t" where
  "set_of_arg E self arg =
     (case arg of
        ArgSelf \<Rightarrow> Inr self
      | ArgSet other \<Rightarrow> Inr (the_set other)
      | ArgIter ks \<Rightarrow> (case set_make_new E False (Some ks) of Inl err \<Rightarrow> Inl err | Inr other \<Rightarrow> Inr (the_set other)))"

definition set_issubset :: "obj_env \<Rightarrow> mp_set_t \<Rightarrow> set_arg \<Rightarrow> (map_error + bool) option" where
  "set_issubset E self arg =
     (case set_of_arg E self arg of Inl err \<Rightarrow> Some (Inl err) | Inr other \<Rightarrow> set_issubset_internal E self other False)"

definition set_issuperset :: "obj_env \<Rightarrow> mp_set_t \<Rightarrow> set_arg \<Rightarrow> (map_error + bool) option" where
  "set_issuperset E self arg =
     (case set_of_arg E self arg of Inl err \<Rightarrow> Some (Inl err) | Inr other \<Rightarrow> set_issubset_internal E other self False)"

definition set_equal :: "obj_env \<Rightarrow> mp_set_t \<Rightarrow> mp_set_t \<Rightarrow> (map_error + bool) option" where
  "set_equal E self other =
     (if set_used self \<noteq> set_used other then Some (Inr False) else set_issubset_internal E self other False)"

section \<open>Operators\<close>

text \<open>The hash of a frozen set: the address of its type and the hashes of its elements, added up.\<close>

definition frozenset_hash :: "obj_env \<Rightarrow> u32 \<Rightarrow> mp_set_t \<Rightarrow> u32" where
  "frozenset_hash E mp_type_frozenset s =
     foldl (\<lambda>hash k. if slot_is_filled k then hash + obj_hash E k else hash) mp_type_frozenset
       (take (set_alloc s) (set_table s))"

datatype set_op =
    SET_OR | SET_XOR | SET_AND | SET_SUBTRACT
  | SET_INPLACE_OR | SET_INPLACE_XOR | SET_INPLACE_AND | SET_INPLACE_SUBTRACT
  | SET_LESS | SET_MORE | SET_EQUAL | SET_LESS_EQUAL | SET_MORE_EQUAL

text \<open>The value of an operator: a new set, the left operand, a truth value, or \<open>MP_OBJ_NULL\<close>.\<close>

datatype set_value = NewSet mp_obj_set_t | SameSet | Truth bool | NotSupported

definition new_value :: "mp_obj_set_t \<Rightarrow> (map_error + mp_obj_set_t) option \<Rightarrow> ((map_error + set_value) \<times> mp_obj_set_t) option" where
  "new_value lhs r = map_option (\<lambda>x. (case x of Inl err \<Rightarrow> Inl err | Inr o1 \<Rightarrow> Inr (NewSet o1), lhs)) r"

definition changed_value :: "mp_obj_set_t \<Rightarrow> 'a set_method \<Rightarrow> ((map_error + set_value) \<times> mp_obj_set_t) option" where
  "changed_value lhs r = map_option (\<lambda>(x, s). (case x of Inl err \<Rightarrow> Inl err | Inr _ \<Rightarrow> Inr SameSet, lhs\<lparr>the_set := s\<rparr>)) r"

definition truth_value :: "mp_obj_set_t \<Rightarrow> (map_error + bool) option \<Rightarrow> ((map_error + set_value) \<times> mp_obj_set_t) option" where
  "truth_value lhs r = map_option (\<lambda>x. (case x of Inl err \<Rightarrow> Inl err | Inr b \<Rightarrow> Inr (Truth b), lhs)) r"

text \<open>For all operators the right operand must be a set.\<close>

fun is_set_arg :: "set_arg \<Rightarrow> bool" where
  "is_set_arg (ArgIter ks) = False"
| "is_set_arg _ = True"

definition right_set :: "mp_obj_set_t \<Rightarrow> set_arg \<Rightarrow> mp_set_t" where
  "right_set lhs rhs = (case rhs of ArgSet other \<Rightarrow> the_set other | _ \<Rightarrow> the_set lhs)"

definition set_binary_op :: "obj_env \<Rightarrow> set_op \<Rightarrow> mp_obj_set_t \<Rightarrow> set_arg \<Rightarrow> ((map_error + set_value) \<times> mp_obj_set_t) option" where
  "set_binary_op E op lhs rhs =
     (let update = \<not> is_frozenset lhs; l = the_set lhs; r = right_set lhs rhs
      in if \<not> is_set_arg rhs then Some (Inr NotSupported, lhs)
         else case op of
           SET_OR \<Rightarrow> new_value lhs (set_union E lhs rhs)
         | SET_XOR \<Rightarrow> new_value lhs (set_symmetric_difference E lhs rhs)
         | SET_AND \<Rightarrow> new_value lhs (set_intersect E lhs rhs)
         | SET_SUBTRACT \<Rightarrow> new_value lhs (set_diff E lhs [rhs])
         | SET_INPLACE_OR \<Rightarrow>
             if update then changed_value lhs (set_update_int E l rhs) else new_value lhs (set_union E lhs rhs)
         | SET_INPLACE_XOR \<Rightarrow>
             if update then changed_value lhs (set_symmetric_difference_update E l rhs)
             else new_value lhs (set_symmetric_difference E lhs rhs)
         | SET_INPLACE_AND \<Rightarrow>
             if update then changed_value lhs (set_intersect_update E l rhs) else new_value lhs (set_intersect E lhs rhs)
         | SET_INPLACE_SUBTRACT \<Rightarrow>
             if update then changed_value lhs (set_diff_int E l [rhs]) else new_value lhs (set_diff E lhs [rhs])
         | SET_LESS \<Rightarrow> truth_value lhs (set_issubset_internal E l r True)
         | SET_MORE \<Rightarrow> truth_value lhs (set_issubset_internal E r l True)
         | SET_EQUAL \<Rightarrow> truth_value lhs (set_equal E l r)
         | SET_LESS_EQUAL \<Rightarrow> truth_value lhs (set_issubset_internal E l r False)
         | SET_MORE_EQUAL \<Rightarrow> truth_value lhs (set_issubset_internal E r l False))"

end
