(* ===== verification/SetCorrect.thy ===== *)
theory SetCorrect
  imports SetObj
begin

text \<open>
  Set objects as mathematical sets: \<open>members\<close> are all objects that equal an element.  The locale
  \<open>total_body\<close> is what a loop over an iterator needs of its body, with the loops proved once; adding,
  removing, toggling and collecting common elements interpret it.
\<close>

section \<open>Loops over an iterator\<close>

locale total_body =
  fixes inv :: "'s \<Rightarrow> bool" and okk :: "mp_obj_t \<Rightarrow> bool" and view :: "'s \<Rightarrow> 'v"
    and effect :: "'v \<Rightarrow> mp_obj_t \<Rightarrow> 'v" and body :: "'s set_body"
  assumes body_ok: "inv s \<Longrightarrow> okk k \<Longrightarrow> \<exists>s'. body s k = (Inr True, s') \<and> inv s' \<and> view s' = effect (view s) k"
begin

lemma each_item_ok:
  assumes "inv s" "\<forall>k \<in> set ks. okk k"
  shows "\<exists>s'. each_item body s ks = (Inr True, s') \<and> inv s' \<and> view s' = foldl effect (view s) ks"
  using assms
proof (induction ks arbitrary: s)
  case (Cons k ks)
  obtain s1 where s1: "body s k = (Inr True, s1)" "inv s1" "view s1 = effect (view s) k"
    using body_ok [of s k] Cons.prems by auto
  from Cons.IH [OF s1(2)] Cons.prems(2) s1(1,3) show ?case by auto
qed simp

end

text \<open>Iterating a set that does not change yields its elements in the order of the table.\<close>

definition listed :: "mp_set_t \<Rightarrow> mp_obj_t list" where
  "listed s = filter slot_is_filled (set_table s)"

lemma mset_listed: "mset (listed s) = elements s"
  by (simp add: listed_def elems_def)

lemma filter_drop_skip:
  assumes "\<forall>i. cur \<le> i \<and> i < p \<longrightarrow> \<not> P (xs ! i)" "cur \<le> p" "p \<le> length xs"
  shows "filter P (drop cur xs) = filter P (drop p xs)"
proof -
  have "drop cur xs = take (p - cur) (drop cur xs) @ drop p xs"
    using assms(2) by (metis append_take_drop_id drop_drop le_add_diff_inverse2)
  moreover have "filter P (take (p - cur) (drop cur xs)) = []"
    using assms by (auto simp: filter_empty_conv in_set_conv_nth)
  ultimately show ?thesis by (metis append_Nil filter_append)
qed

lemma iternext_ok:
  assumes "set_alloc s = length (set_table s)" "cur \<le> length (set_table s)"
  shows "set_it_iternext s cur = Inr None \<and> filter slot_is_filled (drop cur (set_table s)) = [] \<and>
      (\<forall>i < length (set_table s). cur \<le> i \<longrightarrow> \<not> slot_is_filled (set_table s ! i)) \<or>
    (\<exists>p. set_it_iternext s cur = Inr (Some (set_table s ! p, p + 1)) \<and> cur \<le> p \<and> p < length (set_table s) \<and>
      slot_is_filled (set_table s ! p) \<and> (\<forall>i. cur \<le> i \<and> i < p \<longrightarrow> \<not> slot_is_filled (set_table s ! i)) \<and>
      filter slot_is_filled (drop cur (set_table s)) = set_table s ! p # filter slot_is_filled (drop (p + 1) (set_table s)))"
proof -
  let ?ks = "set_table s"
  have n: "cur + (set_alloc s - cur) = length ?ks" using assms by simp
  note nf = next_filled_ok [OF n]
  show ?thesis
  proof (cases "next_filled ?ks cur (set_alloc s - cur)")
    case None
    then have e: "\<forall>i. cur \<le> i \<and> i < length ?ks \<longrightarrow> \<not> slot_is_filled (?ks ! i)" using nf by simp
    then have "filter slot_is_filled (drop cur ?ks) = filter slot_is_filled (drop (length ?ks) ?ks)"
      using assms(2) by (intro filter_drop_skip) auto
    then show ?thesis using None e by (simp add: set_it_iternext_def)
  next
    case (Some x)
    then obtain p where p: "x = Some p" "cur \<le> p" "p < length ?ks" "slot_is_filled (?ks ! p)"
        "\<forall>i. cur \<le> i \<and> i < p \<longrightarrow> \<not> slot_is_filled (?ks ! i)"
      using nf by (cases x) auto
    have "filter slot_is_filled (drop cur ?ks) = filter slot_is_filled (drop p ?ks)"
      using p by (intro filter_drop_skip) auto
    also have "\<dots> = ?ks ! p # filter slot_is_filled (drop (p + 1) ?ks)"
      using p(3,4) by (simp add: Cons_nth_drop_Suc [symmetric])
    finally show ?thesis using Some p by (auto simp: set_it_iternext_def)
  qed
qed

lemma each_elem_unchanged:
  assumes "set_alloc other = length (set_table other)" "cur \<le> length (set_table other)"
    and "P s" "\<And>s. P s \<Longrightarrow> src s = other" "\<And>s k. P s \<Longrightarrow> P (snd (body s k))"
  shows "each_elem src body s cur = Some (each_item body s (filter slot_is_filled (drop cur (set_table other))))"
  using assms(2,3)
proof (induction "length (set_table other) - cur" arbitrary: s cur rule: less_induct)
  case less
  have src: "src s = other" by (rule assms(4) [OF less.prems(2)])
  from iternext_ok [OF assms(1) less.prems(1)] show ?case
  proof (elim disjE exE conjE)
    fix p assume p: "set_it_iternext other cur = Inr (Some (set_table other ! p, p + 1))" "cur \<le> p" "p < length (set_table other)"
      and f: "filter slot_is_filled (drop cur (set_table other)) =
        set_table other ! p # filter slot_is_filled (drop (p + 1) (set_table other))"
    let ?s = "snd (body s (set_table other ! p))"
    have IH: "each_elem src body ?s (Suc p) =
        Some (each_item body ?s (filter slot_is_filled (drop (Suc p) (set_table other))))"
      using p by (intro less.hyps assms(5) less.prems(2)) auto
    show ?case
      unfolding f by (subst each_elem.simps) (cases "body s (set_table other ! p)"; cases "fst (body s (set_table other ! p))"; insert IH; simp add: p(1) src)
  qed (subst each_elem.simps, simp add: src)
qed

lemma each_elem_set: "set_inv E other \<Longrightarrow> each_elem (\<lambda>_. other) body s 0 = Some (each_item body s (listed other))"
  using each_elem_unchanged [of other 0 "\<lambda>_. True" s "\<lambda>_. other" body] by (simp add: set_inv_def listed_def)

lemma each_elem_still:
  assumes "set_inv E s" "\<And>k. snd (body s k) = s"
  shows "each_elem (\<lambda>s. s) body s 0 = Some (each_item body s (listed s))"
  using each_elem_unchanged [of s 0 "\<lambda>s'. s' = s" s "\<lambda>s. s" body] assms by (simp add: set_inv_def listed_def)

section \<open>Members\<close>

definition cls :: "obj_env \<Rightarrow> mp_obj_t \<Rightarrow> mp_obj_t set" where
  "cls E k = {x. obj_equal E k x}"

definition members :: "obj_env \<Rightarrow> mp_set_t \<Rightarrow> mp_obj_t set" where
  "members E s = {x. has_elem E (elements s) x}"

lemma members_classes: "members E s = (\<Union>k \<in> set (listed s). cls E k)"
proof -
  have "set (listed s) = set_mset (elements s)" using mset_listed [of s] by (metis set_mset_mset)
  then show ?thesis by (auto simp: members_def cls_def has_elem_def)
qed

text \<open>Memory does not run out, and every object equals itself.\<close>

definition plain_env :: "obj_env \<Rightarrow> bool" where
  "plain_env E \<longleftrightarrow> elem_env_ok E \<and> (\<forall>n. m_new_ok E n) \<and> (\<forall>k. obj_equal E k k)"

lemma plain_envD [simp]: "plain_env E \<Longrightarrow> elem_env_ok E" "plain_env E \<Longrightarrow> m_new_ok E n" "plain_env E \<Longrightarrow> obj_equal E k k"
  unfolding plain_env_def by blast+

lemma ptr_env_plain: "plain_env ptr_env"
  unfolding plain_env_def using ptr_env_elem_ok by (simp add: ptr_env_def)

definition inv_in :: "obj_env \<Rightarrow> mp_set_t \<Rightarrow> bool" where
  "inv_in E s \<longleftrightarrow> plain_env E \<and> set_inv E s"

lemma inv_inD: "inv_in E s \<Longrightarrow> plain_env E" "inv_in E s \<Longrightarrow> set_inv E s"
  by (simp_all add: inv_in_def)

lemma look_exact:
  assumes "inv_in E s" "slot_is_filled k"
  shows "\<exists>r s'. set_look E s k kind = (Inr r, s') \<and> inv_in E s' \<and> set_step E kind k (elements s) r (elements s')"
  using set_lookup_ok [of E s k kind 0] assms by (auto simp: inv_in_def set_can_grow_def)

lemma step_members:
  assumes "plain_env E" "set_inv E s" "set_step E kind k (elements s) r (elements s')"
  shows "members E s' = (if k \<in> members E s then (if lookup_removes kind then members E s - cls E k else members E s)
    else if lookup_adds kind then cls E k \<union> members E s else members E s)"
proof (cases "has_elem E (elements s) k")
  case True
  have ap: "apart E (elements s)" using assms(2) by (simp add: set_inv_def)
  show ?thesis
    using True assms(3) has_elem_remove [OF plain_envD(1) [OF assms(1)] ap, of r k]
    by (auto simp: set_step_def members_def cls_def split: if_splits)
qed (use assms(3) in \<open>auto simp: set_step_def members_def cls_def\<close>)

lemma cls_sub:
  assumes "plain_env E" "k \<in> members E s"
  shows "cls E k \<subseteq> members E s"
  using assms has_elem_cong [OF plain_envD(1) [OF assms(1)], of k] by (auto simp: members_def cls_def)

lemma cls_disjoint:
  assumes "plain_env E" "k \<notin> members E s"
  shows "cls E k \<inter> members E s = {}"
  using assms has_elem_cong [OF plain_envD(1) [OF assms(1)], of k] by (auto simp: members_def cls_def)

text \<open>What looking every object up with a kind does to the members.\<close>

fun effect_of :: "obj_env \<Rightarrow> mp_map_lookup_kind_t \<Rightarrow> mp_obj_t set \<Rightarrow> mp_obj_t \<Rightarrow> mp_obj_t set" where
  "effect_of E MP_MAP_LOOKUP A k = A"
| "effect_of E MP_MAP_LOOKUP_ADD_IF_NOT_FOUND A k = A \<union> cls E k"
| "effect_of E MP_MAP_LOOKUP_REMOVE_IF_FOUND A k = A - cls E k"
| "effect_of E MP_MAP_LOOKUP_ADD_IF_NOT_FOUND_OR_REMOVE_IF_FOUND A k = (A - cls E k) \<union> (cls E k - A)"

lemma look_up_body:
  assumes "inv_in E s" "slot_is_filled k"
  shows "\<exists>s'. look_up E kind s k = (Inr True, s') \<and> inv_in E s' \<and> members E s' = effect_of E kind (members E s) k"
proof -
  obtain r s' where s': "set_look E s k kind = (Inr r, s')" "inv_in E s'" "set_step E kind k (elements s) r (elements s')"
    using look_exact [OF assms] by blast
  have p: "plain_env E" by (rule inv_inD(1) [OF assms(1)])
  note st = step_members [OF p inv_inD(2) [OF assms(1)] s'(3)]
  have "members E s' = effect_of E kind (members E s) k"
    using st cls_sub [OF p, of k s] cls_disjoint [OF p, of k s] by (cases kind) (auto split: if_splits)
  then show ?thesis using s' by (simp add: look_up_def)
qed

interpretation lu: total_body "inv_in E" slot_is_filled "members E" "effect_of E kind" "look_up E kind" for E kind
  by unfold_locales (rule look_up_body)

lemma fold_add: "foldl (effect_of E MP_MAP_LOOKUP_ADD_IF_NOT_FOUND) A ks = A \<union> (\<Union>k \<in> set ks. cls E k)"
  by (induction ks arbitrary: A) auto

lemma fold_remove: "foldl (effect_of E MP_MAP_LOOKUP_REMOVE_IF_FOUND) A ks = A - (\<Union>k \<in> set ks. cls E k)"
  by (induction ks arbitrary: A) auto

text \<open>Toggling: an object changes sides as often as something equal to it comes up.\<close>

lemma fold_toggle:
  "x \<in> foldl (effect_of E MP_MAP_LOOKUP_ADD_IF_NOT_FOUND_OR_REMOVE_IF_FOUND) A ks \<longleftrightarrow>
    (x \<in> A) \<noteq> odd (length (filter (\<lambda>k. x \<in> cls E k) ks))"
  by (induction ks arbitrary: A) auto

lemma filter_once:
  assumes "elem_env_ok E" "apart E (mset ks)"
  shows "length (filter (\<lambda>k. x \<in> cls E k) ks) = of_bool (x \<in> (\<Union>k \<in> set ks. cls E k))"
  using assms(2)
proof (induction ks)
  case (Cons k ks)
  have ap: "apart E (mset ks)" "\<forall>f \<in> set ks. \<not> obj_equal E k f"
    using Cons.prems by (simp_all add: apart_add [OF assms(1)])
  have "\<not> (x \<in> cls E k \<and> x \<in> cls E f)" if "f \<in> set ks" for f
    using ap(2) that elem_trans [OF assms(1)] elem_sym [OF assms(1)] unfolding cls_def by blast
  then show ?case using Cons.IH [OF ap(1)] by auto
qed simp

lemma toggle_set:
  assumes "elem_env_ok E" "set_inv E s"
  shows "foldl (effect_of E MP_MAP_LOOKUP_ADD_IF_NOT_FOUND_OR_REMOVE_IF_FOUND) A (listed s) =
    (A - members E s) \<union> (members E s - A)"
proof -
  have "apart E (mset (listed s))" using assms(2) by (simp add: mset_listed set_inv_def)
  note once = filter_once [OF assms(1) this, folded members_classes]
  have "x \<in> foldl (effect_of E MP_MAP_LOOKUP_ADD_IF_NOT_FOUND_OR_REMOVE_IF_FOUND) A (listed s) \<longleftrightarrow>
      (x \<in> A) \<noteq> (x \<in> members E s)" for x
    unfolding fold_toggle once by simp
  then show ?thesis by blast
qed

lemma listed_filled: "\<forall>k \<in> set (listed s). slot_is_filled k"
  by (simp add: listed_def)

section \<open>Making and copying\<close>

lemma set_inv_empty: "set_inv E \<lparr>set_alloc = n, set_used = 0, set_table = replicate n MP_OBJ_NULL\<rparr>"
  by (simp add: set_inv_def chain_ok_def)

lemma members_empty: "members E \<lparr>set_alloc = n, set_used = 0, set_table = replicate n MP_OBJ_NULL\<rparr> = {}"
  by (simp add: members_def)

lemma new_set_ok:
  assumes "plain_env E" "\<forall>k \<in> set items. slot_is_filled k"
  shows "\<exists>o1. mp_obj_new_set E items = Inr o1 \<and> \<not> is_frozenset o1 \<and> inv_in E (the_set o1) \<and>
    members E (the_set o1) = (\<Union>k \<in> set items. cls E k)"
proof -
  let ?s = "\<lparr>set_alloc = length items, set_used = 0, set_table = replicate (length items) MP_OBJ_NULL\<rparr>"
  have "inv_in E ?s" using assms(1) set_inv_empty by (simp add: inv_in_def)
  from lu.each_item_ok [OF this assms(2), of MP_MAP_LOOKUP_ADD_IF_NOT_FOUND] obtain s' where
    "each_item (look_up E MP_MAP_LOOKUP_ADD_IF_NOT_FOUND) ?s items = (Inr True, s')" "inv_in E s'"
    "members E s' = (\<Union>k \<in> set items. cls E k)"
    by (auto simp: fold_add members_empty)
  then show ?thesis using assms(1) by (simp add: mp_obj_new_set_def mp_set_init_def)
qed

lemma set_copy_ok:
  assumes "plain_env E" "set_inv E (the_set o1)"
  shows "set_copy E o1 = Inr o1"
proof -
  have "set_alloc (the_set o1) = length (set_table (the_set o1))" using assms(2) by (simp add: set_inv_def)
  then show ?thesis
    using assms(1) by (simp add: set_copy_def mp_set_init_def buf_write_def)
qed

section \<open>Loops over an argument\<close>

fun arg_ok :: "obj_env \<Rightarrow> set_arg \<Rightarrow> bool" where
  "arg_ok E ArgSelf = True"
| "arg_ok E (ArgSet other) = set_inv E (the_set other)"
| "arg_ok E (ArgIter ks) = (\<forall>k \<in> set ks. slot_is_filled k)"

text \<open>The objects an argument yields, as long as it does not change.\<close>

fun yielded :: "mp_set_t \<Rightarrow> set_arg \<Rightarrow> mp_obj_t list" where
  "yielded s ArgSelf = listed s"
| "yielded s (ArgSet other) = listed (the_set other)"
| "yielded s (ArgIter ks) = ks"

lemma yielded_filled: "arg_ok E arg \<Longrightarrow> \<forall>k \<in> set (yielded s arg). slot_is_filled k"
  by (cases arg) (simp_all add: listed_filled)

lemma over_other: "arg_ok E arg \<Longrightarrow> arg \<noteq> ArgSelf \<Longrightarrow> over_arg body s arg = Some (each_item body s (yielded s0 arg))"
  by (cases arg) (simp_all add: over_arg_def each_elem_set)

lemma over_look_up:
  assumes "inv_in E s" "arg_ok E arg" "arg \<noteq> ArgSelf"
  shows "\<exists>s'. over_arg (look_up E kind) s arg = Some (Inr True, s') \<and> inv_in E s' \<and>
    members E s' = foldl (effect_of E kind) (members E s) (yielded s0 arg)"
  using lu.each_item_ok [OF assms(1) yielded_filled [OF assms(2), of s0], of kind] over_other [OF assms(2,3), of _ s s0] by auto

text \<open>Lookups while the set itself is iterated: every element is found where it is.\<close>

lemma apart_index:
  assumes "elem_env_ok E" "apart E (elems ks)" "i < length ks" "j < length ks" "slot_is_filled (ks ! i)" "slot_is_filled (ks ! j)"
    and "obj_equal E (ks ! i) (ks ! j)"
  shows "i = j"
proof (rule ccontr)
  assume ne: "i \<noteq> j"
  have m: "ks ! i \<in># elems ks" using assms(3,5) by (auto simp: mem_elems)
  have "elems (ks[i := MP_OBJ_NULL]) = elems ks - {#ks ! i#}" using assms(3,5) by (simp add: elems_update)
  moreover have "ks ! j \<in># elems (ks[i := MP_OBJ_NULL])"
    using assms(4,6) ne by (auto simp: mem_elems intro!: exI [of _ j])
  ultimately show False using assms(2,7) m by (auto simp: apart_def)
qed

lemma probe_self:
  assumes "plain_env E" "set_inv E s" "p < length (set_table s)" "slot_is_filled (set_table s ! p)"
  shows "set_probe E s (set_table s ! p) = ProbeFound p"
proof -
  have env: "elem_env_ok E" and refl: "obj_equal E (set_table s ! p) (set_table s ! p)" using assms(1) by simp_all
  have "has_elem E (elements s) (set_table s ! p)" using assms(3,4) refl by (auto simp: has_elem_nth)
  then obtain q where q: "set_probe E s (set_table s ! p) = ProbeFound q" "q < length (set_table s)"
      "slot_is_filled (set_table s ! q)" "obj_equal E (set_table s ! q) (set_table s ! p)"
    using set_probe_found [OF env assms(2)] by metis
  moreover have "apart E (elements s)" using assms(2) by (simp add: set_inv_def)
  ultimately show ?thesis using apart_index [OF env _ q(2) assms(3) q(3) assms(4) q(4)] by simp
qed

lemma look_self:
  assumes "plain_env E" "set_inv E s" "p < length (set_table s)" "slot_is_filled (set_table s ! p)"
  shows "set_look E s (set_table s ! p) kind =
    (if lookup_removes kind then set_remove_at s p else (Inr (set_table s ! p), s))"
proof -
  have "0 < set_alloc s" using assms(2,3) by (auto simp: set_inv_def)
  then show ?thesis
    using probe_self [OF assms] by (simp add: mp_set_lookup_search set_search.simps(2))
qed

lemma self_update:
  assumes "plain_env E" "set_inv E s" "cur \<le> length (set_table s)"
  shows "each_elem (\<lambda>s. s) (look_up E MP_MAP_LOOKUP_ADD_IF_NOT_FOUND) s cur = Some (Inr True, s)"
  using assms(3)
proof (induction "length (set_table s) - cur" arbitrary: cur rule: less_induct)
  case less
  have al: "set_alloc s = length (set_table s)" using assms(2) by (simp add: set_inv_def)
  from iternext_ok [OF al less.prems] show ?case
  proof (elim disjE exE conjE)
    fix p assume p: "set_it_iternext s cur = Inr (Some (set_table s ! p, p + 1))" "cur \<le> p" "p < length (set_table s)"
      "slot_is_filled (set_table s ! p)"
    have "each_elem (\<lambda>s. s) (look_up E MP_MAP_LOOKUP_ADD_IF_NOT_FOUND) s (Suc p) = Some (Inr True, s)"
      using p by (intro less.hyps) auto
    then show ?case
      using p look_self [OF assms(1,2) p(3,4), of MP_MAP_LOOKUP_ADD_IF_NOT_FOUND]
      by (subst each_elem.simps) (simp add: look_up_def)
  qed (subst each_elem.simps, simp)
qed

lemma self_toggle:
  assumes "plain_env E" "set_inv E s" "cur \<le> length (set_table s)"
    and "\<forall>i < cur. \<not> slot_is_filled (set_table s ! i)"
  shows "\<exists>s'. each_elem (\<lambda>s. s) (look_up E MP_MAP_LOOKUP_ADD_IF_NOT_FOUND_OR_REMOVE_IF_FOUND) s cur = Some (Inr True, s') \<and>
    set_inv E s' \<and> elements s' = {#}"
  using assms(2-)
proof (induction "length (set_table s) - cur" arbitrary: s cur rule: less_induct)
  case less
  have al: "set_alloc s = length (set_table s)" using less.prems(1) by (simp add: set_inv_def)
  from iternext_ok [OF al less.prems(2)] show ?case
  proof (elim disjE exE conjE)
    assume n: "set_it_iternext s cur = Inr None" "\<forall>i < length (set_table s). cur \<le> i \<longrightarrow> \<not> slot_is_filled (set_table s ! i)"
    have "elements s = {#}" using n(2) less.prems(3) by (simp add: elems_empty_iff) (meson linorder_not_less)
    then show ?case using n(1) less.prems(1) by (subst each_elem.simps) simp
  next
    fix p assume p: "set_it_iternext s cur = Inr (Some (set_table s ! p, p + 1))" "cur \<le> p" "p < length (set_table s)"
      "slot_is_filled (set_table s ! p)" "\<forall>i. cur \<le> i \<and> i < p \<longrightarrow> \<not> slot_is_filled (set_table s ! i)"
    obtain s1 where s1: "set_remove_at s p = (Inr (set_table s ! p), s1)" "set_inv E s1"
        "set_table s1 = (set_table s)[p := deleted_key (set_table s) (length (set_table s)) p]"
      using set_remove_at_ok [OF plain_envD(1) [OF assms(1)] less.prems(1) p(3,4)] by blast
    have "\<forall>i < Suc p. \<not> slot_is_filled (set_table s1 ! i)"
    proof (intro allI impI)
      fix i assume "i < Suc p"
      then consider "i = p" | "i < cur" | "cur \<le> i" "i < p" by linarith
      then show "\<not> slot_is_filled (set_table s1 ! i)"
        using s1(3) p(2,3,5) less.prems(3) by cases (auto simp: nth_list_update)
    qed
    moreover have "length (set_table s1) - Suc p < length (set_table s) - cur" "Suc p \<le> length (set_table s1)"
      using p s1(3) by simp_all
    ultimately obtain s' where "each_elem (\<lambda>s. s) (look_up E MP_MAP_LOOKUP_ADD_IF_NOT_FOUND_OR_REMOVE_IF_FOUND) s1 (Suc p) =
        Some (Inr True, s')" "set_inv E s'" "elements s' = {#}"
      using less.hyps [OF _ s1(2)] by blast
    then show ?case
      using p(1) s1(1) look_self [OF assms(1) less.prems(1) p(3,4), of MP_MAP_LOOKUP_ADD_IF_NOT_FOUND_OR_REMOVE_IF_FOUND]
      by (subst each_elem.simps) (simp add: look_up_def)
  qed
qed

section \<open>Methods on another collection\<close>

definition arg_members :: "obj_env \<Rightarrow> mp_set_t \<Rightarrow> set_arg \<Rightarrow> mp_obj_t set" where
  "arg_members E s arg = (\<Union>k \<in> set (yielded s arg). cls E k)"

lemma arg_members_simps [simp]:
  "arg_members E s ArgSelf = members E s" "arg_members E s (ArgSet other) = members E (the_set other)"
  by (simp_all add: arg_members_def members_classes)

lemma for_copy_simps [simp]:
  "for_copy self arg \<noteq> ArgSelf" "yielded s (for_copy self arg) = yielded (the_set self) arg \<or> arg \<noteq> ArgSelf"
  "set_inv E (the_set self) \<Longrightarrow> arg_ok E arg \<Longrightarrow> arg_ok E (for_copy self arg)"
  by (cases arg; simp add: for_copy_def)+

lemma yielded_for_copy: "yielded s (for_copy self arg) = yielded (the_set self) arg"
  by (cases arg) (simp_all add: for_copy_def)

text \<open>A method on a copy that looks every object up with one kind.\<close>

lemma on_copy_ok:
  assumes "inv_in E (the_set self)" "arg_ok E arg"
  shows "\<exists>o1. on_copy E self (\<lambda>s. over_arg (look_up E kind) s (for_copy self arg)) = Some (Inr o1) \<and>
    inv_in E (the_set o1) \<and> is_frozenset o1 = is_frozenset self \<and>
    members E (the_set o1) = foldl (effect_of E kind) (members E (the_set self)) (yielded (the_set self) arg)"
proof -
  have a: "arg_ok E (for_copy self arg)" "for_copy self arg \<noteq> ArgSelf"
    using assms inv_inD(2) by (simp_all add: inv_in_def)
  obtain s' where s': "over_arg (look_up E kind) (the_set self) (for_copy self arg) = Some (Inr True, s')" "inv_in E s'"
      "members E s' = foldl (effect_of E kind) (members E (the_set self)) (yielded (the_set self) arg)"
    using over_look_up [OF assms(1) a, of kind "the_set self"] by (auto simp: yielded_for_copy)
  have "set_copy E self = Inr self" using set_copy_ok assms(1) by (simp add: inv_in_def)
  then show ?thesis using s' by (simp add: on_copy_def)
qed

lemma keep_common_body:
  assumes "inv_in E self" "inv_in E out" "slot_is_filled k"
  shows "\<exists>out'. keep_common E self out k = (Inr True, out') \<and> inv_in E out' \<and>
    members E out' = (if k \<in> members E self then members E out \<union> cls E k else members E out)"
proof -
  obtain r s' where l: "set_look E self k MP_MAP_LOOKUP = (Inr r, s')" "set_step E MP_MAP_LOOKUP k (elements self) r (elements s')"
    using look_exact [OF assms(1,3)] by blast
  have r: "r \<noteq> MP_OBJ_NULL \<longleftrightarrow> k \<in> members E self"
    using l(2) by (auto simp: set_step_def members_def mem_elems split: if_splits)
  obtain out' where "look_up E MP_MAP_LOOKUP_ADD_IF_NOT_FOUND out k = (Inr True, out')" "inv_in E out'"
      "members E out' = members E out \<union> cls E k"
    using look_up_body [OF assms(2,3), of MP_MAP_LOOKUP_ADD_IF_NOT_FOUND] by auto
  then show ?thesis
    using l(1) r assms(2) by (auto simp: keep_common_def set_add_def look_up_def split: sum.splits prod.splits)
qed

interpretation kc: total_body "\<lambda>out. inv_in E self \<and> inv_in E out" slot_is_filled "members E"
  "\<lambda>A k. if k \<in> members E self then A \<union> cls E k else A" "keep_common E self" for E self
  by unfold_locales (use keep_common_body in blast)

lemma fold_common:
  assumes "plain_env E"
  shows "foldl (\<lambda>A k. if k \<in> members E self then A \<union> cls E k else A) A ks =
    A \<union> (members E self \<inter> (\<Union>k \<in> set ks. cls E k))"
proof (induction ks arbitrary: A)
  case (Cons k ks)
  then show ?case using cls_sub [OF assms, of k self] cls_disjoint [OF assms, of k self] by auto
qed simp

lemma intersect_out_ok:
  assumes "inv_in E self" "arg_ok E arg" "arg \<noteq> ArgSelf"
  shows "\<exists>out. set_intersect_out E self arg = Some (Inr out) \<and> inv_in E out \<and>
    members E out = members E self \<inter> arg_members E self arg"
proof -
  obtain o1 where o1: "mp_obj_new_set E [] = Inr o1" "inv_in E (the_set o1)" "members E (the_set o1) = {}"
    using new_set_ok [of E "[]"] inv_inD(1) [OF assms(1)] by auto
  have "inv_in E self \<and> inv_in E (the_set o1)" using o1(2) assms(1) by simp
  from kc.each_item_ok [OF this yielded_filled [OF assms(2), of self]] obtain out where
    "each_item (keep_common E self) (the_set o1) (yielded self arg) = (Inr True, out)" "inv_in E out"
    "members E out = members E self \<inter> arg_members E self arg"
    by (auto simp: fold_common [OF inv_inD(1) [OF assms(1)]] o1(3) arg_members_def)
  then show ?thesis
    using o1(1) over_other [OF assms(2,3), of "keep_common E self" "the_set o1" self] by (simp add: set_intersect_out_def)
qed

section \<open>Comparison\<close>

lemma stop_if_step:
  assumes "inv_in E other" "slot_is_filled k"
  shows "stop_if E other present s k = (Inr ((k \<in> members E other) \<noteq> present), s)"
proof -
  obtain r s' where l: "set_look E other k MP_MAP_LOOKUP = (Inr r, s')" "set_step E MP_MAP_LOOKUP k (elements other) r (elements s')"
    using look_exact [OF assms] by blast
  have "r \<noteq> MP_OBJ_NULL \<longleftrightarrow> k \<in> members E other"
    using l(2) by (auto simp: set_step_def members_def mem_elems split: if_splits)
  then show ?thesis using l(1) by (simp add: stop_if_def)
qed

lemma stop_if_all:
  assumes "inv_in E other" "\<forall>k \<in> set ks. slot_is_filled k"
  shows "each_item (stop_if E other present) s ks = (Inr (\<forall>k \<in> set ks. (k \<in> members E other) \<noteq> present), s)"
  using assms(2) by (induction ks) (auto simp: stop_if_step [OF assms(1)])

lemma stop_if_still [simp]: "snd (stop_if E other present s k) = s"
  by (simp add: stop_if_def split: sum.splits prod.splits)

lemma isdisjoint_ok:
  assumes "inv_in E self" "arg_ok E arg"
  shows "set_isdisjoint E self arg = Some (Inr (members E self \<inter> arg_members E self arg = {}))"
proof -
  have e: "over_arg (stop_if E self True) self arg = Some (each_item (stop_if E self True) self (yielded self arg))"
    using over_other [OF assms(2), of _ self self] each_elem_still [OF inv_inD(2) [OF assms(1)], of "stop_if E self True"]
    by (cases "arg = ArgSelf") (simp_all add: over_arg_def)
  have "(\<forall>k \<in> set (yielded self arg). (k \<in> members E self) \<noteq> True) \<longleftrightarrow> members E self \<inter> arg_members E self arg = {}"
  proof -
    have p: "plain_env E" by (rule inv_inD(1) [OF assms(1)])
    have "k \<in> cls E k" for k using p by (simp add: cls_def)
    then show ?thesis
      using cls_disjoint [OF p, of _ self] by (fastforce simp: arg_members_def)
  qed
  then show ?thesis
    by (simp add: set_isdisjoint_def e stop_if_all [OF assms(1) yielded_filled [OF assms(2)]])
qed

text \<open>Elements that all have their equals among others: there are at most as many, and if as many, the
  others have their equals too, and the hashes add up to the same.\<close>

lemma covered_elements:
  assumes "elem_env_ok E" "apart E M" "apart E N" "\<forall>e \<in># M. has_elem E N e"
  shows "size M \<le> size N \<and> (size M = size N \<longrightarrow>
    (\<forall>f \<in># N. has_elem E M f) \<and> (\<Sum>e \<in># M. obj_hash E e) = (\<Sum>f \<in># N. obj_hash E f))"
  using assms(2-)
proof (induction M arbitrary: N)
  case (add x M)
  obtain f where f: "f \<in># N" "obj_equal E f x" using add.prems(3) by (auto simp: has_elem_def)
  then obtain N1 where N1: "N = add_mset f N1" by (metis mset_add)
  have ap: "apart E M" "\<forall>e \<in># M. \<not> obj_equal E x e" "apart E N1"
    using add.prems(1,2) by (simp_all add: apart_add [OF assms(1)] N1)
  have "\<forall>e \<in># M. has_elem E N1 e"
  proof
    fix e assume e: "e \<in># M"
    then have "has_elem E N e" using add.prems(3) by simp
    moreover have "\<not> obj_equal E f e"
      using elem_trans [OF assms(1) elem_sym [OF assms(1) f(2)], of e] ap(2) e by blast
    ultimately show "has_elem E N1 e" by (simp add: N1)
  qed
  with add.IH [OF ap(1,3)] show ?case
    using f(2) elem_hash [OF assms(1) f(2)] elem_sym [OF assms(1) f(2)] by (auto simp: N1)
qed (simp add: has_elem_def)

lemma subset_iff:
  assumes "plain_env E"
  shows "(\<forall>k \<in> set (listed a). k \<in> members E b) \<longleftrightarrow> members E a \<subseteq> members E b"
  using cls_sub [OF assms, of _ b] assms by (fastforce simp: members_classes [of E a] cls_def)

lemma covers:
  assumes "plain_env E" "set_inv E a" "set_inv E b" "members E a \<subseteq> members E b"
  shows "set_used a \<le> set_used b \<and> (set_used a = set_used b \<longleftrightarrow> members E a = members E b) \<and>
    (set_used a = set_used b \<longrightarrow> (\<Sum>e \<in># elements a. obj_hash E e) = (\<Sum>e \<in># elements b. obj_hash E e))"
proof -
  note env = plain_envD(1) [OF assms(1)]
  have ap: "apart E (elements a)" "apart E (elements b)" and u: "set_used a = size (elements a)" "set_used b = size (elements b)"
    using assms(2,3) by (simp_all add: set_inv_def)
  have el: "\<forall>e \<in># elements x. has_elem E (elements y) e" if "members E x \<subseteq> members E y" for x y
    using that plain_envD(3) [OF assms(1)] by (auto simp: members_def has_elem_def)
  note c = covered_elements [OF env ap el [OF assms(4)]]
  have "members E b \<subseteq> members E a" if "size (elements a) = size (elements b)"
  proof -
    have "\<forall>f \<in># elements b. f \<in> members E a" using c that by (simp add: members_def)
    then have "\<forall>k \<in> set (listed b). k \<in> members E a" using mset_listed [of b] by (metis set_mset_mset)
    then show ?thesis using subset_iff [OF assms(1), of b a] by simp
  qed
  moreover have "size (elements b) \<le> size (elements a)" if "members E a = members E b"
    using covered_elements [OF env ap(2,1)] el [of b a] that by simp
  ultimately show ?thesis using c assms(4) u by fastforce
qed

lemma issubset_ok:
  assumes "inv_in E self" "inv_in E other"
  shows "set_issubset_internal E self other proper =
    Some (Inr (if proper then members E self \<subset> members E other else members E self \<subseteq> members E other))"
proof -
  have p: "plain_env E" by (rule inv_inD(1) [OF assms(1)])
  have loop: "each_elem (\<lambda>s. s) (stop_if E other False) self 0 = Some (Inr (members E self \<subseteq> members E other), self)"
    using stop_if_all [OF assms(2) listed_filled, of False self self] subset_iff [OF p, of self other]
    by (simp add: each_elem_still [OF inv_inD(2) [OF assms(1)]])
  have "members E self \<subseteq> members E other \<longrightarrow> (set_used self = set_used other \<longleftrightarrow> members E self = members E other)"
    using covers [OF p inv_inD(2) [OF assms(1)] inv_inD(2) [OF assms(2)]] by blast
  moreover have "members E self \<noteq> members E other" if "set_used self \<noteq> set_used other"
    using covers [OF p inv_inD(2) [OF assms(1)] inv_inD(2) [OF assms(2)]] that by blast
  ultimately show ?thesis
    unfolding set_issubset_internal_def loop by (auto simp: psubset_eq)
qed

lemma set_equal_ok:
  assumes "inv_in E self" "inv_in E other"
  shows "set_equal E self other = Some (Inr (members E self = members E other))"
proof -
  note c = covers [OF inv_inD(1) [OF assms(1)] inv_inD(2) [OF assms(1)] inv_inD(2) [OF assms(2)]]
  show ?thesis using c by (auto simp: set_equal_def issubset_ok [OF assms])
qed

text \<open>The hash is the sum over the elements, in any order.\<close>

lemma hash_sum:
  "foldl (\<lambda>hash k. if slot_is_filled k then hash + obj_hash E k else hash) a ks = a + (\<Sum>e \<in># elems ks. obj_hash E e)"
  by (induction ks arbitrary: a) (simp_all add: ac_simps)

lemma frozenset_hash_ok: "set_inv E s \<Longrightarrow> frozenset_hash E a s = a + (\<Sum>e \<in># elements s. obj_hash E e)"
  by (simp add: frozenset_hash_def hash_sum set_inv_def)

lemma equal_hash:
  assumes "inv_in E a" "inv_in E b" "members E a = members E b"
  shows "frozenset_hash E addr a = frozenset_hash E addr b"
  using covers [OF inv_inD(1) [OF assms(1)] inv_inD(2) [OF assms(1)] inv_inD(2) [OF assms(2)]] assms(3)
  by (simp add: frozenset_hash_ok [OF inv_inD(2) [OF assms(1)]] frozenset_hash_ok [OF inv_inD(2) [OF assms(2)]])

end
