(* ===== verification/SetMemory.thy ===== *)
theory SetMemory
  imports SetCorrect
begin

text \<open>
  What a set operation does when memory may run out: the same as with plenty of memory, or it ends with a
  MemoryError.  So what holds with plenty of memory holds up to that error for every allocator.
\<close>

definition plenty :: "obj_env \<Rightarrow> obj_env" where
  "plenty E = E\<lparr>m_new_ok := (\<lambda>_. True)\<rparr>"

lemma plenty_simps [simp]:
  "obj_equal (plenty E) = obj_equal E" "obj_hash (plenty E) = obj_hash E" "m_new_ok (plenty E) n"
  by (simp_all add: plenty_def)

lemma plenty_same: "\<forall>n. m_new_ok E n \<Longrightarrow> plenty E = E"
  unfolding plenty_def by (simp add: fun_eq_iff)

lemma plenty_inv [simp]: "elem_env_ok (plenty E) = elem_env_ok E" "set_inv (plenty E) s = set_inv E s"
  "members (plenty E) s = members E s"
  by (simp_all add: elem_env_ok_def set_inv_def apart_def members_def has_elem_def)

text \<open>A result that is the other one or a MemoryError, with a state and without one.\<close>

definition short :: "(map_error + 'a) \<times> 's \<Rightarrow> (map_error + 'a) \<times> 's \<Rightarrow> bool" where
  "short r r' \<longleftrightarrow> r = r' \<or> fst r = Inl MemoryError"

definition short_val :: "map_error + 'a \<Rightarrow> map_error + 'a \<Rightarrow> bool" where
  "short_val r r' \<longleftrightarrow> r = r' \<or> r = Inl MemoryError"

lemma short_refl [simp]: "short r r" "short_val v v"
  by (simp_all add: short_def short_val_def)

lemma short_cases:
  assumes "short r r'"
  obtains (same) "r = r'" | (failed) s where "r = (Inl MemoryError, s)"
  using assms by (cases r) (auto simp: short_def)

text \<open>A step that stops at an error keeps the relation.\<close>

lemma short_bind:
  assumes "short r r'" "\<And>x s. r' = (Inr x, s) \<Longrightarrow> short (f x s) (f' x s)"
  shows "short (case r of (Inl err, s) \<Rightarrow> (Inl err, s) | (Inr x, s) \<Rightarrow> f x s)
    (case r' of (Inl err, s) \<Rightarrow> (Inl err, s) | (Inr x, s) \<Rightarrow> f' x s)"
  using assms(1)
proof (cases rule: short_cases)
  case same
  then show ?thesis using assms(2) by (auto split: prod.splits sum.splits)
qed (simp add: short_def)

section \<open>One lookup\<close>

lemma short_rehash_loop:
  assumes "\<And>s k. short (look s k) (look' s k)"
  shows "short (set_rehash_loop look ks s) (set_rehash_loop look' ks s)"
proof (induction ks arbitrary: s)
  case (Cons k ks)
  then show ?case by (auto intro!: short_bind assms)
qed simp

lemma short_rehash:
  assumes "\<And>s k. short (look s k) (look' s k)"
  shows "short (mp_set_rehash look E s) (mp_set_rehash look' (plenty E) s)"
  using short_rehash_loop [OF assms] by (simp add: mp_set_rehash_def Let_def) (simp add: short_def)

lemma short_search:
  assumes "\<And>s. short (rh s) (rh' s)"
  shows "short (set_search rh n E s index kind) (set_search rh' n (plenty E) s index kind)"
proof (induction n arbitrary: s)
  case 0
  then show ?case by (simp add: set_search.simps)
next
  case (Suc n)
  show ?case
    by (auto simp: set_search.simps intro!: short_bind [OF assms Suc.IH] split: probe_result.splits option.splits)
qed

lemma short_lookup: "short (mp_set_lookup E n s index kind) (mp_set_lookup (plenty E) n s index kind)"
proof (induction n arbitrary: s index kind)
  case 0
  then show ?case by (simp add: mp_set_lookup.simps)
next
  case (Suc n)
  note rh = short_rehash [OF Suc.IH, where E = E]
  show ?case by (auto simp: mp_set_lookup.simps Let_def intro!: short_bind [OF rh short_search [OF rh]] short_search [OF rh])
qed

section \<open>Loops\<close>

lemma short_each_item:
  assumes "\<And>s k. short (body s k) (body' s k)"
  shows "short (each_item body s ks) (each_item body' s ks)"
proof (induction ks arbitrary: s)
  case (Cons k ks)
  show ?case unfolding each_item.simps by (rule short_bind [OF assms]) (simp add: Cons.IH)
qed simp

lemma short_each_elem:
  assumes "\<And>s k. short (body s k) (body' s k)" "each_elem src body' s cur = Some r'"
  shows "\<exists>r. each_elem src body s cur = Some r \<and> short r r'"
proof -
  have "(\<forall>s k. short (body s k) (body' s k)) \<longrightarrow> (\<exists>r. each_elem src body s cur = Some r \<and> short r r')"
  proof (rule each_elem.raw_induct [where P = "\<lambda>src body' s cur r'. (\<forall>s k. short (body s k) (body' s k)) \<longrightarrow>
      (\<exists>r. each_elem src body s cur = Some r \<and> short r r')", OF _ assms(2)])
    fix loop and src :: "'a \<Rightarrow> mp_set_t" and body' s cur r'
    assume IH: "\<And>src body' s cur r'. loop src body' s cur = Some r' \<Longrightarrow> (\<forall>s k. short (body s k) (body' s k)) \<longrightarrow>
        (\<exists>r. each_elem src body s cur = Some r \<and> short r r')"
      and run: "(case set_it_iternext (src s) cur of
          Inl err \<Rightarrow> Some (Inl err, s)
        | Inr None \<Rightarrow> Some (Inr True, s)
        | Inr (Some (k, cur')) \<Rightarrow>
            (case body' s k of
               (Inl err, s') \<Rightarrow> Some (Inl err, s')
             | (Inr goes_on, s') \<Rightarrow> if goes_on then loop src body' s' cur' else Some (Inr False, s'))) = Some r'"
    show "(\<forall>s k. short (body s k) (body' s k)) \<longrightarrow> (\<exists>r. each_elem src body s cur = Some r \<and> short r r')"
    proof
      assume b: "\<forall>s k. short (body s k) (body' s k)"
      show "\<exists>r. each_elem src body s cur = Some r \<and> short r r'"
      proof (cases "\<exists>k cur'. set_it_iternext (src s) cur = Inr (Some (k, cur'))")
        case False
        then show ?thesis using run
          by (subst each_elem.simps) (auto split: sum.splits option.splits)
      next
        case True
        then obtain k cur' where k: "set_it_iternext (src s) cur = Inr (Some (k, cur'))" by blast
        have "short (body s k) (body' s k)" using b by blast
        then show ?thesis
        proof (cases rule: short_cases)
          case same
          then show ?thesis using run k b IH
            by (subst each_elem.simps) (auto split: sum.splits prod.splits if_splits)
        next
          case (failed s')
          then show ?thesis using k by (subst each_elem.simps) (simp add: short_def)
        qed
      qed
    qed
  qed
  with assms(1) show ?thesis by blast
qed

section \<open>Methods and operators\<close>

lemma short_look_up: "short (look_up E kind s k) (look_up (plenty E) kind s k)"
  unfolding look_up_def by (rule short_bind [OF short_lookup]) simp

lemma short_set_add: "short (set_add E s k) (set_add (plenty E) s k)"
  unfolding set_add_def by (rule short_bind [OF short_lookup]) simp

lemma short_keep_common: "short (keep_common E self out k) (keep_common (plenty E) self out k)"
proof -
  have a: "short (case set_add E out k of (Inl err, out') \<Rightarrow> (Inl err, out') | (Inr _, out') \<Rightarrow> (Inr True, out'))
      (case set_add (plenty E) out k of (Inl err, out') \<Rightarrow> (Inl err, out') | (Inr _, out') \<Rightarrow> (Inr True, out'))"
    by (rule short_bind [OF short_set_add]) simp
  show ?thesis using short_lookup [of E "Suc (Suc (Suc 0))" self k MP_MAP_LOOKUP]
  proof (cases rule: short_cases)
    case same
    then show ?thesis using a by (auto simp: keep_common_def split: prod.splits sum.splits)
  qed (simp add: keep_common_def short_def)
qed

lemma short_stop_if: "short (stop_if E other present s k) (stop_if (plenty E) other present s k)"
  using short_lookup [of E "Suc (Suc (Suc 0))" other k MP_MAP_LOOKUP]
proof (cases rule: short_cases)
  case same
  then show ?thesis by (simp add: stop_if_def)
qed (simp add: stop_if_def short_def)

text \<open>The same for what may not end.\<close>

definition spared :: "('a \<Rightarrow> 'a \<Rightarrow> bool) \<Rightarrow> 'a option \<Rightarrow> 'a option \<Rightarrow> bool" where
  "spared R r r' \<longleftrightarrow> (\<forall>y. r' = Some y \<longrightarrow> (\<exists>x. r = Some x \<and> R x y))"

lemma spared_Some [simp]: "spared R (Some x) (Some y) = R x y"
  by (simp add: spared_def)

lemma spared_map: "spared R r r' \<Longrightarrow> (\<And>x y. R x y \<Longrightarrow> R' (f x) (f y)) \<Longrightarrow> spared R' (map_option f r) (map_option f r')"
  by (auto simp: spared_def)

lemma spared_over_arg:
  assumes "\<And>s k. short (body s k) (body' s k)"
  shows "spared short (over_arg body s arg) (over_arg body' s arg)"
  using short_each_elem [OF assms] short_each_item [where body = body and body' = body', OF assms]
  by (cases arg) (auto simp: over_arg_def spared_def)

lemma short_copy: "short_val (set_copy E self) (set_copy (plenty E) self)"
  by (simp add: set_copy_def mp_set_init_def short_val_def)

lemma spared_on_copy:
  assumes "\<And>s. spared short (f s) (f' s)"
  shows "spared short_val (on_copy E self f) (on_copy (plenty E) self f')"
proof (cases "set_copy E self = set_copy (plenty E) self")
  case True
  show ?thesis
  proof (cases "set_copy (plenty E) self")
    case (Inr c)
    have "spared short_val (map_option (\<lambda>(r, s). case r of Inl err \<Rightarrow> Inl err | Inr _ \<Rightarrow> Inr (c\<lparr>the_set := s\<rparr>)) (f (the_set c)))
        (map_option (\<lambda>(r, s). case r of Inl err \<Rightarrow> Inl err | Inr _ \<Rightarrow> Inr (c\<lparr>the_set := s\<rparr>)) (f' (the_set c)))"
      by (rule spared_map [OF assms]) (auto simp: short_def short_val_def)
    then show ?thesis using True Inr by (simp add: on_copy_def)
  qed (simp add: True on_copy_def)
next
  case False
  then show ?thesis using short_copy [of E self] by (simp add: short_val_def on_copy_def spared_def)
qed

lemma spared_diff_int: "spared short (set_diff_int E s others) (set_diff_int (plenty E) s others)"
proof (induction others arbitrary: s)
  case (Cons other others)
  have "spared short (if other = ArgSelf then Some (Inr True, mp_set_clear s) else over_arg (look_up E MP_MAP_LOOKUP_REMOVE_IF_FOUND) s other)
      (if other = ArgSelf then Some (Inr True, mp_set_clear s) else over_arg (look_up (plenty E) MP_MAP_LOOKUP_REMOVE_IF_FOUND) s other)"
    using spared_over_arg [OF short_look_up] by simp
  then show ?case using Cons.IH
    by (cases "other = ArgSelf") (fastforce simp: spared_def short_def split: option.splits sum.splits prod.splits)+
qed simp

lemma short_new_set: "short_val (mp_obj_new_set E []) (mp_obj_new_set (plenty E) [])"
  by (simp add: mp_obj_new_set_def mp_set_init_def short_val_def)

lemma spared_intersect_out: "spared short_val (set_intersect_out E self other) (set_intersect_out (plenty E) self other)"
proof (cases "mp_obj_new_set E [] = mp_obj_new_set (plenty E) []")
  case True
  show ?thesis
  proof (cases "mp_obj_new_set (plenty E) []")
    case (Inr c)
    have "spared short_val (map_option (\<lambda>(r, s). case r of Inl err \<Rightarrow> Inl err | Inr _ \<Rightarrow> Inr s) (over_arg (keep_common E self) (the_set c) other))
        (map_option (\<lambda>(r, s). case r of Inl err \<Rightarrow> Inl err | Inr _ \<Rightarrow> Inr s) (over_arg (keep_common (plenty E) self) (the_set c) other))"
      by (rule spared_map [OF spared_over_arg [OF short_keep_common]]) (auto simp: short_def short_val_def)
    then show ?thesis using True Inr by (simp add: set_intersect_out_def)
  qed (simp add: True set_intersect_out_def)
next
  case False
  then show ?thesis using short_new_set [of E] by (simp add: short_val_def set_intersect_out_def spared_def)
qed

lemma spared_new: "spared short_val r r' \<Longrightarrow> spared short (new_value lhs r) (new_value lhs r')"
  unfolding new_value_def by (erule spared_map) (auto simp: short_val_def short_def)

lemma spared_changed: "spared short r r' \<Longrightarrow> spared short (changed_value lhs r) (changed_value lhs r')"
  unfolding changed_value_def by (erule spared_map) (auto simp: short_def)

lemma spared_truth: "spared short_val r r' \<Longrightarrow> spared short (truth_value lhs r) (truth_value lhs r')"
  unfolding truth_value_def by (erule spared_map) (auto simp: short_val_def short_def)

lemma spared_subset: "spared short_val (set_issubset_internal E a b proper) (set_issubset_internal (plenty E) a b proper)"
proof -
  have "spared short (each_elem (\<lambda>s. s) (stop_if E b False) a 0) (each_elem (\<lambda>s. s) (stop_if (plenty E) b False) a 0)"
    using short_each_elem [OF short_stop_if] by (auto simp: spared_def)
  from spared_map [OF this, of short_val fst] show ?thesis
    by (auto simp: set_issubset_internal_def short_def short_val_def)
qed

theorem spared_binary_op: "spared short (set_binary_op E op lhs rhs) (set_binary_op (plenty E) op lhs rhs)"
proof -
  note lu = spared_over_arg [OF short_look_up]
  have u: "spared short_val (set_union E lhs rhs) (set_union (plenty E) lhs rhs)"
    unfolding set_union_def set_update_int_def by (rule spared_on_copy [OF lu])
  have x: "spared short_val (set_symmetric_difference E lhs rhs) (set_symmetric_difference (plenty E) lhs rhs)"
    unfolding set_symmetric_difference_def set_symmetric_difference_update_def by (rule spared_on_copy [OF lu])
  have d: "spared short_val (set_diff E lhs [rhs]) (set_diff (plenty E) lhs [rhs])"
    unfolding set_diff_def by (rule spared_on_copy [OF spared_diff_int])
  have i: "spared short_val (set_intersect E lhs rhs) (set_intersect (plenty E) lhs rhs)"
  proof (cases "rhs = ArgSelf")
    case False
    have "spared short_val (map_option (\<lambda>r. case r of Inl err \<Rightarrow> Inl err | Inr s \<Rightarrow> Inr \<lparr>is_frozenset = False, the_set = s\<rparr>)
        (set_intersect_out E (the_set lhs) rhs))
      (map_option (\<lambda>r. case r of Inl err \<Rightarrow> Inl err | Inr s \<Rightarrow> Inr \<lparr>is_frozenset = False, the_set = s\<rparr>)
        (set_intersect_out (plenty E) (the_set lhs) rhs))"
      by (rule spared_map [OF spared_intersect_out]) (auto simp: short_val_def)
    then show ?thesis using False by (simp add: set_intersect_def)
  qed (simp add: set_intersect_def short_copy)
  have iu: "spared short (set_intersect_update E s rhs) (set_intersect_update (plenty E) s rhs)" for s
  proof (cases "rhs = ArgSelf")
    case False
    have "spared short (map_option (\<lambda>r. case r of Inl err \<Rightarrow> (Inl err, s) | Inr out \<Rightarrow> (Inr (), out)) (set_intersect_out E s rhs))
      (map_option (\<lambda>r. case r of Inl err \<Rightarrow> (Inl err, s) | Inr out \<Rightarrow> (Inr (), out)) (set_intersect_out (plenty E) s rhs))"
      by (rule spared_map [OF spared_intersect_out]) (auto simp: short_val_def short_def)
    then show ?thesis using False by (simp add: set_intersect_update_def)
  qed (simp add: set_intersect_update_def)
  have eq: "spared short_val (set_equal E a b) (set_equal (plenty E) a b)" for a b
    using spared_subset by (simp add: set_equal_def)
  have du: "spared short (set_diff_int E s [rhs]) (set_diff_int (plenty E) s [rhs])" for s by (rule spared_diff_int)
  have lu': "spared short (set_update_int E s rhs) (set_update_int (plenty E) s rhs)"
    "spared short (set_symmetric_difference_update E s rhs) (set_symmetric_difference_update (plenty E) s rhs)" for s
    unfolding set_update_int_def set_symmetric_difference_update_def by (rule lu)+
  note new = spared_new [OF u] spared_new [OF x] spared_new [OF d] spared_new [OF i]
  note changed = spared_changed [OF iu] spared_changed [OF du] spared_changed [OF lu'(1)] spared_changed [OF lu'(2)]
  note truth = spared_truth [OF spared_subset] spared_truth [OF eq]
  show ?thesis
    by (cases op) (simp_all add: set_binary_op_def Let_def new changed truth del: set_diff_int.simps)
qed

end
