(* ===== verification/SetProps.thy ===== *)
theory SetProps
  imports SetMemory
begin

text \<open>
  The properties of sets: one lookup, the operators as operations on mathematical sets, and what a
  failed growth leaves behind.
\<close>

section \<open>Lookup\<close>

text \<open>C17: a lookup on a well-formed set returns the element equal to the object asked for, or reports that
  there is none, and according to its kind leaves the elements as they are, adds the object, removes
  the element or does either of both; adding grows the table when it is full, whenever memory allows.
  In no case does it read or write outside the table, and three levels of nesting are enough.\<close>

theorem mp_set_lookup_exact:
  assumes "elem_env_ok E" "set_inv E s" "slot_is_filled index"
    and "set_used s = set_alloc s \<Longrightarrow> m_new_ok E (get_hash_alloc_greater_or_equal_to (set_alloc s + 1))"
  shows "\<exists>r s'. mp_set_lookup E 3 s index kind = (Inr r, s') \<and> set_inv E s' \<and>
    (if has_elem E (elements s) index
     then r \<in># elements s \<and> obj_equal E r index \<and>
       elements s' = (if lookup_removes kind then elements s - {#r#} else elements s)
     else if lookup_adds kind then r = index \<and> elements s' = add_mset index (elements s)
     else r = MP_OBJ_NULL \<and> elements s' = elements s)"
  using set_lookup_ok [OF assms(1-3), of kind 0] assms(4) unfolding set_step_def set_can_grow_def numeral_3_eq_3 by blast

definition small_set :: mp_set_t where
  "small_set = \<lparr>set_alloc = 2, set_used = 2, set_table = [16, 24]\<rparr>"

lemma small_set_inv: "set_inv ptr_env small_set"
proof -
  have "chain_ok (\<lambda>k. unat (obj_hash ptr_env k)) [16, 24]"
    unfolding chain_ok_def
  proof (intro allI impI exI [of _ 0])
    fix p :: nat assume "p < length [16 :: mp_obj_t, 24]"
    then consider "p = 0" | "p = 1" by force
    then show "0 < length [16 :: mp_obj_t, 24] \<and>
        p = (unat (obj_hash ptr_env ([16, 24] ! p)) + 0) mod length [16 :: mp_obj_t, 24] \<and>
        (\<forall>l < 0. [16, 24] ! ((unat (obj_hash ptr_env ([16, 24] ! p)) + l) mod length [16 :: mp_obj_t, 24]) \<noteq> MP_OBJ_NULL)"
      by cases (simp_all add: ptr_env_def numeral_2_eq_2 [symmetric])
  qed
  then show ?thesis
    by (simp add: set_inv_def small_set_def slot_is_filled_def MP_OBJ_NULL_def MP_OBJ_SENTINEL_def apart_def ptr_env_def)
qed

theorem mp_set_lookup_exact_witness:
  "\<exists>r s'. mp_set_lookup ptr_env 3 small_set 32 MP_MAP_LOOKUP_ADD_IF_NOT_FOUND = (Inr r, s') \<and> set_inv ptr_env s' \<and>
    r = 32 \<and> elements s' = {#16, 24, 32#}"
proof -
  have "\<not> has_elem ptr_env (elements small_set) 32" "elements small_set = {#16, 24#}"
    by (simp_all add: small_set_def ptr_env_def slot_is_filled_def MP_OBJ_NULL_def MP_OBJ_SENTINEL_def)
  then show ?thesis
    using mp_set_lookup_exact [OF ptr_env_elem_ok small_set_inv, of 32 MP_MAP_LOOKUP_ADD_IF_NOT_FOUND]
    by (simp add: slot_is_filled_def MP_OBJ_NULL_def MP_OBJ_SENTINEL_def ptr_env_def add_mset_commute)
qed

text \<open>When a set is full and the allocation for a larger table fails, the set is left with a size that
  its table does not have and without elements: it is no longer well formed, a later lookup may read
  behind the table, and everything that was in it is forgotten by \<open>len\<close>.\<close>

lemma set_growth_failure_corrupts:
  assumes "elem_env_ok E" "set_inv E s" "slot_is_filled index" "\<not> has_elem E (elements s) index"
    and "set_used s = set_alloc s" "0 < set_alloc s"
    and "\<not> m_new_ok E (get_hash_alloc_greater_or_equal_to (set_alloc s + 1))"
  shows "\<exists>s'. set_add E s index = (Inl MemoryError, s') \<and> set_table s' = set_table s \<and>
    length (set_table s') < set_alloc s' \<and> set_used s' = 0 \<and> elements s' \<noteq> {#} \<and> \<not> set_inv E s'"
proof -
  let ?s = "s\<lparr>set_alloc := get_hash_alloc_greater_or_equal_to (set_alloc s + 1), set_used := 0\<rparr>"
  have "set_look E s index MP_MAP_LOOKUP_ADD_IF_NOT_FOUND = (Inl MemoryError, ?s)"
    by (rule set_growth_failure) (use assms in \<open>simp_all add: set_can_grow_def\<close>)
  moreover have "length (set_table ?s) < set_alloc ?s"
    using get_hash_alloc_ge [of "set_alloc s + 1"] assms(2) by (simp add: set_inv_def)
  moreover have "elements s \<noteq> {#}"
  proof
    assume "elements s = {#}"
    then show False using assms(2,5,6) by (simp add: set_inv_def)
  qed
  ultimately show ?thesis by (auto simp: set_add_def set_inv_def)
qed

definition no_memory :: "obj_env \<Rightarrow> obj_env" where
  "no_memory E = E\<lparr>m_new_ok := (\<lambda>_. False)\<rparr>"

lemma no_memory_simps [simp]:
  "obj_equal (no_memory E) = obj_equal E" "obj_hash (no_memory E) = obj_hash E" "\<not> m_new_ok (no_memory E) n"
  by (simp_all add: no_memory_def)

lemma no_memory_inv [simp]: "elem_env_ok (no_memory E) = elem_env_ok E" "set_inv (no_memory E) s = set_inv E s"
  "has_elem (no_memory E) = has_elem E"
  by (simp_all add: elem_env_ok_def set_inv_def apart_def has_elem_def fun_eq_iff)

theorem set_growth_failure_corrupts_witness:
  "\<exists>s'. set_add (no_memory ptr_env) small_set 32 = (Inl MemoryError, s') \<and> set_used s' = 0 \<and> \<not> set_inv (no_memory ptr_env) s'"
proof -
  have env: "elem_env_ok (no_memory ptr_env)" using ptr_env_elem_ok by simp
  have inv: "set_inv (no_memory ptr_env) small_set" using small_set_inv by simp
  have "slot_is_filled 32" "\<not> has_elem (no_memory ptr_env) (elements small_set) 32"
    by (simp_all add: small_set_def ptr_env_def slot_is_filled_def MP_OBJ_NULL_def MP_OBJ_SENTINEL_def)
  moreover have "set_used small_set = set_alloc small_set" "0 < set_alloc small_set" by (simp_all add: small_set_def)
  ultimately show ?thesis
    using set_growth_failure_corrupts [OF env inv, of 32] no_memory_simps(3) by blast
qed

section \<open>Operators\<close>

datatype set_outcome = Members "mp_obj_t set" | TruthOf bool

fun set_spec :: "set_op \<Rightarrow> mp_obj_t set \<Rightarrow> mp_obj_t set \<Rightarrow> set_outcome" where
  "set_spec SET_OR A B = Members (A \<union> B)"
| "set_spec SET_XOR A B = Members ((A - B) \<union> (B - A))"
| "set_spec SET_AND A B = Members (A \<inter> B)"
| "set_spec SET_SUBTRACT A B = Members (A - B)"
| "set_spec SET_INPLACE_OR A B = Members (A \<union> B)"
| "set_spec SET_INPLACE_XOR A B = Members ((A - B) \<union> (B - A))"
| "set_spec SET_INPLACE_AND A B = Members (A \<inter> B)"
| "set_spec SET_INPLACE_SUBTRACT A B = Members (A - B)"
| "set_spec SET_LESS A B = TruthOf (A \<subset> B)"
| "set_spec SET_MORE A B = TruthOf (B \<subset> A)"
| "set_spec SET_EQUAL A B = TruthOf (A = B)"
| "set_spec SET_LESS_EQUAL A B = TruthOf (A \<subseteq> B)"
| "set_spec SET_MORE_EQUAL A B = TruthOf (B \<subseteq> A)"

fun set_inplace :: "set_op \<Rightarrow> bool" where
  "set_inplace op = (op \<in> {SET_INPLACE_OR, SET_INPLACE_XOR, SET_INPLACE_AND, SET_INPLACE_SUBTRACT})"

text \<open>A result meets an outcome: a truth value is that; members are those of a new set, with the left
  operand unchanged, or of the left operand when the operator works in place on a set.\<close>

fun set_meets :: "obj_env \<Rightarrow> set_op \<Rightarrow> mp_obj_set_t \<Rightarrow> set_outcome \<Rightarrow> set_value \<Rightarrow> mp_obj_set_t \<Rightarrow> bool" where
  "set_meets E op lhs (TruthOf b) v lhs' = (v = Truth b \<and> lhs' = lhs)"
| "set_meets E op lhs (Members C) v lhs' =
     (if set_inplace op \<and> \<not> is_frozenset lhs
      then v = SameSet \<and> set_inv E (the_set lhs') \<and> members E (the_set lhs') = C \<and> \<not> is_frozenset lhs'
      else (case v of
              NewSet o1 \<Rightarrow> set_inv E (the_set o1) \<and> members E (the_set o1) = C \<and> lhs' = lhs
            | _ \<Rightarrow> False))"

lemma set_new_ok:
  assumes "r = Some (Inr o1)" "inv_in E (the_set o1)" "members E (the_set o1) = C" "\<not> (set_inplace op \<and> \<not> is_frozenset lhs)"
  shows "\<exists>v lhs'. new_value lhs r = Some (Inr v, lhs') \<and> set_meets E op lhs (Members C) v lhs'"
  using assms inv_inD(2) [OF assms(2)] by (auto simp: new_value_def)

lemma set_changed_ok:
  assumes "r = Some (Inr x, s)" "inv_in E s" "members E s = C" "set_inplace op" "\<not> is_frozenset lhs"
  shows "\<exists>v lhs'. changed_value lhs r = Some (Inr v, lhs') \<and> set_meets E op lhs (Members C) v lhs'"
  using assms inv_inD(2) [OF assms(2)] by (auto simp: changed_value_def)

lemma set_truth_ok:
  assumes "r = Some (Inr b)"
  shows "\<exists>v lhs'. truth_value lhs r = Some (Inr v, lhs') \<and> set_meets E op lhs (TruthOf b) v lhs'"
  using assms by (auto simp: truth_value_def)

text \<open>The four operators that make a new set, and those that change the left operand.\<close>

lemma yielded_add: "foldl (effect_of E MP_MAP_LOOKUP_ADD_IF_NOT_FOUND) A (yielded s arg) = A \<union> arg_members E s arg"
  by (simp add: fold_add arg_members_def)

lemma yielded_remove: "foldl (effect_of E MP_MAP_LOOKUP_REMOVE_IF_FOUND) A (yielded s arg) = A - arg_members E s arg"
  by (simp add: fold_remove arg_members_def)

lemma yielded_toggle:
  assumes "inv_in E s" "arg_ok E arg" "is_set_arg arg"
  shows "foldl (effect_of E MP_MAP_LOOKUP_ADD_IF_NOT_FOUND_OR_REMOVE_IF_FOUND) A (yielded s arg) =
    (A - arg_members E s arg) \<union> (arg_members E s arg - A)"
  using assms toggle_set [OF plain_envD(1) [OF inv_inD(1) [OF assms(1)]]] inv_inD(2) [OF assms(1)] by (cases arg) simp_all

lemma union_ok:
  assumes "inv_in E (the_set self)" "arg_ok E arg"
  shows "\<exists>o1. set_union E self arg = Some (Inr o1) \<and> inv_in E (the_set o1) \<and>
    members E (the_set o1) = members E (the_set self) \<union> arg_members E (the_set self) arg"
  using on_copy_ok [OF assms, of MP_MAP_LOOKUP_ADD_IF_NOT_FOUND] unfolding set_union_def set_update_int_def yielded_add by blast

lemma symmetric_difference_ok:
  assumes "inv_in E (the_set self)" "arg_ok E arg" "is_set_arg arg"
  shows "\<exists>o1. set_symmetric_difference E self arg = Some (Inr o1) \<and> inv_in E (the_set o1) \<and>
    members E (the_set o1) = (members E (the_set self) - arg_members E (the_set self) arg) \<union>
      (arg_members E (the_set self) arg - members E (the_set self))"
  using on_copy_ok [OF assms(1,2), of MP_MAP_LOOKUP_ADD_IF_NOT_FOUND_OR_REMOVE_IF_FOUND]
  unfolding set_symmetric_difference_def set_symmetric_difference_update_def yielded_toggle [OF assms] by blast

lemma diff_ok:
  assumes "inv_in E (the_set self)" "arg_ok E arg"
  shows "\<exists>o1. set_diff E self [arg] = Some (Inr o1) \<and> inv_in E (the_set o1) \<and>
    members E (the_set o1) = members E (the_set self) - arg_members E (the_set self) arg"
proof -
  have step: "set_diff_int E s (map (for_copy self) [arg]) =
      (case over_arg (look_up E MP_MAP_LOOKUP_REMOVE_IF_FOUND) s (for_copy self arg) of
         None \<Rightarrow> None | Some (Inl err, s') \<Rightarrow> Some (Inl err, s') | Some (Inr _, s') \<Rightarrow> Some (Inr True, s'))" for s
    by (auto split: option.splits sum.splits prod.splits)
  obtain o1 where o1: "on_copy E self (\<lambda>s. over_arg (look_up E MP_MAP_LOOKUP_REMOVE_IF_FOUND) s (for_copy self arg)) = Some (Inr o1)"
      "inv_in E (the_set o1)" "members E (the_set o1) = members E (the_set self) - arg_members E (the_set self) arg"
    using on_copy_ok [OF assms, of MP_MAP_LOOKUP_REMOVE_IF_FOUND] unfolding yielded_remove by blast
  from o1(1) have "set_diff E self [arg] = Some (Inr o1)"
    unfolding set_diff_def step by (auto simp: on_copy_def split: sum.splits prod.splits option.splits)
  then show ?thesis using o1 by blast
qed

lemma intersect_ok:
  assumes "inv_in E (the_set self)" "arg_ok E arg"
  shows "\<exists>o1. set_intersect E self arg = Some (Inr o1) \<and> inv_in E (the_set o1) \<and>
    members E (the_set o1) = members E (the_set self) \<inter> arg_members E (the_set self) arg"
proof (cases "arg = ArgSelf")
  case True
  then show ?thesis
    using assms set_copy_ok [OF inv_inD(1) [OF assms(1)] inv_inD(2) [OF assms(1)]] by (simp add: set_intersect_def)
next
  case False
  then show ?thesis using intersect_out_ok [OF assms False] by (auto simp: set_intersect_def)
qed

lemma update_inplace_ok:
  assumes "inv_in E s" "arg_ok E arg"
  shows "\<exists>x s'. set_update_int E s arg = Some (Inr x, s') \<and> inv_in E s' \<and> members E s' = members E s \<union> arg_members E s arg"
proof (cases "arg = ArgSelf")
  case True
  then show ?thesis
    using self_update [OF inv_inD(1) [OF assms(1)] inv_inD(2) [OF assms(1)], of 0] assms(1)
    by (auto simp: set_update_int_def over_arg_def)
next
  case False
  then show ?thesis
    using over_look_up [OF assms False, of MP_MAP_LOOKUP_ADD_IF_NOT_FOUND s] unfolding set_update_int_def yielded_add by blast
qed

lemma toggle_inplace_ok:
  assumes "inv_in E s" "arg_ok E arg" "is_set_arg arg"
  shows "\<exists>x s'. set_symmetric_difference_update E s arg = Some (Inr x, s') \<and> inv_in E s' \<and>
    members E s' = (members E s - arg_members E s arg) \<union> (arg_members E s arg - members E s)"
proof (cases "arg = ArgSelf")
  case True
  then show ?thesis
    using self_toggle [OF inv_inD(1) [OF assms(1)] inv_inD(2) [OF assms(1)], of 0] inv_inD(1) [OF assms(1)]
    by (auto simp: set_symmetric_difference_update_def over_arg_def inv_in_def members_def)
next
  case False
  then show ?thesis
    using over_look_up [OF assms(1,2) False, of MP_MAP_LOOKUP_ADD_IF_NOT_FOUND_OR_REMOVE_IF_FOUND s]
    unfolding set_symmetric_difference_update_def yielded_toggle [OF assms] by blast
qed

lemma clear_ok: "inv_in E s \<Longrightarrow> inv_in E (mp_set_clear s) \<and> members E (mp_set_clear s) = {}"
  by (simp add: inv_in_def mp_set_clear_def set_inv_def members_def chain_ok_def)

lemma diff_inplace_ok:
  assumes "inv_in E s" "arg_ok E arg"
  shows "\<exists>x s'. set_diff_int E s [arg] = Some (Inr x, s') \<and> inv_in E s' \<and> members E s' = members E s - arg_members E s arg"
proof (cases "arg = ArgSelf")
  case True
  then show ?thesis using clear_ok [OF assms(1)] by auto
next
  case False
  obtain s' where "over_arg (look_up E MP_MAP_LOOKUP_REMOVE_IF_FOUND) s arg = Some (Inr True, s')" "inv_in E s'"
      "members E s' = members E s - arg_members E s arg"
    using over_look_up [OF assms False, of MP_MAP_LOOKUP_REMOVE_IF_FOUND s] unfolding yielded_remove by blast
  then show ?thesis using False by auto
qed

lemma intersect_inplace_ok:
  assumes "inv_in E s" "arg_ok E arg"
  shows "\<exists>x s'. set_intersect_update E s arg = Some (Inr x, s') \<and> inv_in E s' \<and> members E s' = members E s \<inter> arg_members E s arg"
proof (cases "arg = ArgSelf")
  case True
  then show ?thesis using assms(1) by (simp add: set_intersect_update_def)
next
  case False
  then show ?thesis using intersect_out_ok [OF assms False] by (auto simp: set_intersect_update_def)
qed

lemma right_set_ok:
  assumes "inv_in E (the_set lhs)" "arg_ok E rhs" "is_set_arg rhs"
  shows "inv_in E (right_set lhs rhs)" "arg_members E (the_set lhs) rhs = members E (right_set lhs rhs)"
  using assms inv_inD(1) [OF assms(1)] by (cases rhs; simp add: right_set_def inv_in_def)+

text \<open>One operator at a time.\<close>

lemma set_op_meets:
  assumes l: "inv_in E (the_set lhs)" and a: "arg_ok E rhs" "is_set_arg rhs"
  shows "\<exists>v lhs'. set_binary_op E op lhs rhs = Some (Inr v, lhs') \<and>
    set_meets E op lhs (set_spec op (members E (the_set lhs)) (members E (right_set lhs rhs))) v lhs'"
proof -
  note r = right_set_ok [OF l a]
  obtain o1 where u: "set_union E lhs rhs = Some (Inr o1)" "inv_in E (the_set o1)"
      "members E (the_set o1) = members E (the_set lhs) \<union> members E (right_set lhs rhs)"
    using union_ok [OF l a(1)] r(2) by auto
  obtain o2 where x: "set_symmetric_difference E lhs rhs = Some (Inr o2)" "inv_in E (the_set o2)"
      "members E (the_set o2) = (members E (the_set lhs) - members E (right_set lhs rhs)) \<union>
        (members E (right_set lhs rhs) - members E (the_set lhs))"
    using symmetric_difference_ok [OF l a] r(2) by auto
  obtain o3 where i: "set_intersect E lhs rhs = Some (Inr o3)" "inv_in E (the_set o3)"
      "members E (the_set o3) = members E (the_set lhs) \<inter> members E (right_set lhs rhs)"
    using intersect_ok [OF l a(1)] r(2) by auto
  obtain o4 where d: "set_diff E lhs [rhs] = Some (Inr o4)" "inv_in E (the_set o4)"
      "members E (the_set o4) = members E (the_set lhs) - members E (right_set lhs rhs)"
    using diff_ok [OF l a(1)] r(2) by auto
  note new = u x i d
  have inp: ?thesis if "set_inplace op"
  proof (cases "is_frozenset lhs")
    case True
    then show ?thesis
      using that a(2) inv_inD(2) [OF u(2)] inv_inD(2) [OF x(2)] inv_inD(2) [OF i(2)] inv_inD(2) [OF d(2)] new by (auto simp: set_binary_op_def new_value_def)
  next
    case False
    then show ?thesis
      using that a(2) update_inplace_ok [OF l a(1)] toggle_inplace_ok [OF l a] intersect_inplace_ok [OF l a(1)]
        diff_inplace_ok [OF l a(1)] r(2)
      by (auto simp: set_binary_op_def changed_value_def simp del: set_diff_int.simps dest: inv_inD(2))
  qed
  show ?thesis
    using inp new a(2) issubset_ok [OF l r(1)] issubset_ok [OF r(1) l] set_equal_ok [OF l r(1)]
    by (cases op) (simp_all add: set_binary_op_def new_value_def truth_value_def inv_inD(2))
qed

text \<open>The type of a new set is that of the left operand, but for the intersection with another object, which
  is a set and never a frozen set.\<close>

definition result_frozen :: "set_op \<Rightarrow> mp_obj_set_t \<Rightarrow> set_arg \<Rightarrow> bool" where
  "result_frozen op lhs rhs \<longleftrightarrow> is_frozenset lhs \<and> (op \<in> {SET_AND, SET_INPLACE_AND} \<longrightarrow> rhs = ArgSelf)"

lemma copy_type: "set_copy E self = Inr c \<Longrightarrow> is_frozenset c = is_frozenset self"
  by (auto simp: set_copy_def split: option.splits)

lemma on_copy_type: "on_copy E self f = Some (Inr o1) \<Longrightarrow> is_frozenset o1 = is_frozenset self"
proof -
  assume a: "on_copy E self f = Some (Inr o1)"
  then obtain c where c: "set_copy E self = Inr c" by (cases "set_copy E self") (auto simp: on_copy_def)
  then obtain r s where f: "f (the_set c) = Some (r, s)" using a by (auto simp: on_copy_def)
  show ?thesis using a copy_type [OF c] by (cases r) (auto simp: on_copy_def c f)
qed

lemma intersect_type: "set_intersect E self other = Some (Inr o1) \<Longrightarrow> is_frozenset o1 = (is_frozenset self \<and> other = ArgSelf)"
proof (cases "other = ArgSelf")
  case True
  assume "set_intersect E self other = Some (Inr o1)"
  then show ?thesis using True copy_type [of E self o1] by (simp add: set_intersect_def)
next
  case False
  assume a: "set_intersect E self other = Some (Inr o1)"
  then obtain z where z: "set_intersect_out E (the_set self) other = Some z" using False by (auto simp: set_intersect_def)
  show ?thesis using a False by (cases z) (auto simp: set_intersect_def z)
qed

lemma new_value_type:
  assumes "set_binary_op E op lhs rhs = Some (Inr (NewSet o1), lhs')"
  shows "is_frozenset o1 = result_frozen op lhs rhs"
proof -
  have n: "new_value lhs r = Some (Inr (NewSet o1), lhs') \<longleftrightarrow> r = Some (Inr o1) \<and> lhs' = lhs" for r
    by (cases r; cases "the r") (auto simp: new_value_def)
  have cu: "changed_value lhs r \<noteq> Some (Inr (NewSet o1), lhs')" for r :: "bool set_method"
    by (auto simp: changed_value_def split: sum.splits)
  have cv: "changed_value lhs r \<noteq> Some (Inr (NewSet o1), lhs')" for r :: "unit set_method"
    by (auto simp: changed_value_def split: sum.splits)
  have tr: "truth_value lhs r \<noteq> Some (Inr (NewSet o1), lhs')" for r
    by (auto simp: truth_value_def split: sum.splits)
  show ?thesis using assms intersect_type [of E lhs rhs o1] on_copy_type [of E lhs _ o1]
    by (cases op) (auto simp: set_binary_op_def Let_def n cu cv tr result_frozen_def set_union_def
        set_symmetric_difference_def set_diff_def simp del: set_diff_int.simps split: if_splits)
qed

text \<open>C16: the operators on sets and frozen sets are the operations on mathematical sets, whether they make a
  new set or change the left operand, also when both operands are one object that changes while it is
  iterated: every loop ends, the result is well formed and has exactly the right members, unless an
  allocation fails, which ends the operation with a MemoryError.  A new set has the type of the left
  operand, but the intersection with another object is always a set.  And the hashes of two frozen sets
  that compare equal are equal.  Every object is supposed to equal itself, which a float that is not a
  number does not.\<close>

theorem set_operators_algebra:
  assumes "elem_env_ok E" "\<forall>k. obj_equal E k k" "set_inv E (the_set lhs)"
    and "rhs = ArgSelf \<or> (\<exists>other. rhs = ArgSet other \<and> set_inv E (the_set other))"
  shows "(\<exists>r lhs'. set_binary_op E op lhs rhs = Some (r, lhs') \<and>
      (r = Inl MemoryError \<and> (\<exists>n. \<not> m_new_ok E n) \<or>
       (\<exists>v. r = Inr v \<and> (\<forall>o1. v = NewSet o1 \<longrightarrow> is_frozenset o1 = result_frozen op lhs rhs) \<and>
         set_meets E op lhs (set_spec op (members E (the_set lhs)) (members E (right_set lhs rhs))) v lhs'))) \<and>
    (set_binary_op E SET_EQUAL lhs rhs = Some (Inr (Truth True), lhs) \<longrightarrow>
      frozenset_hash E addr (the_set lhs) = frozenset_hash E addr (right_set lhs rhs))"
proof (rule conjI)
  let ?P = "plenty E"
  have p: "plain_env ?P" unfolding plain_env_def using assms(1,2) by (intro conjI allI) simp_all
  have l: "inv_in ?P (the_set lhs)" using p assms(3) by (simp add: inv_in_def)
  have a: "arg_ok ?P rhs" "is_set_arg rhs" using assms(4) by auto
  have meets: "set_meets ?P = set_meets E"
  proof (intro ext)
    fix op' l' out v s show "set_meets ?P op' l' out v s = set_meets E op' l' out v s"
      by (cases out) (simp_all split: set_value.split)
  qed
  obtain v s where R: "set_binary_op ?P op lhs rhs = Some (Inr v, s)"
    "set_meets E op lhs (set_spec op (members E (the_set lhs)) (members E (right_set lhs rhs))) v s"
    using set_op_meets [OF l a, of op] unfolding meets plenty_inv by blast
  obtain r lhs' where r: "set_binary_op E op lhs rhs = Some (r, lhs')" "short (r, lhs') (Inr v, s)"
    using spared_binary_op [of E op lhs rhs] unfolding R(1) spared_def by auto
  have t: "\<forall>o1. v = NewSet o1 \<longrightarrow> is_frozenset o1 = result_frozen op lhs rhs" using new_value_type R(1) by blast
  show "\<exists>r lhs'. set_binary_op E op lhs rhs = Some (r, lhs') \<and>
      (r = Inl MemoryError \<and> (\<exists>n. \<not> m_new_ok E n) \<or>
       (\<exists>v. r = Inr v \<and> (\<forall>o1. v = NewSet o1 \<longrightarrow> is_frozenset o1 = result_frozen op lhs rhs) \<and>
         set_meets E op lhs (set_spec op (members E (the_set lhs)) (members E (right_set lhs rhs))) v lhs'))"
  proof (cases "r = Inl MemoryError")
    case True
    have "\<exists>n. \<not> m_new_ok E n"
    proof (rule ccontr)
      assume "\<nexists>n. \<not> m_new_ok E n"
      then have "plenty E = E" by (intro plenty_same) blast
      then show False using R(1) r(1) True by simp
    qed
    then show ?thesis using r(1) True by blast
  next
    case False
    then have "r = Inr v" "lhs' = s" using r(2) by (auto simp: short_def)
    then show ?thesis using r(1) R(2) t by blast
  qed
  have e: "set_binary_op ?P SET_EQUAL lhs rhs = Some (Inr (Truth (members E (the_set lhs) = members E (right_set lhs rhs))), lhs)"
    using a(2) by (simp add: set_binary_op_def set_equal_ok [OF l right_set_ok(1) [OF l a]] truth_value_def)
  show "set_binary_op E SET_EQUAL lhs rhs = Some (Inr (Truth True), lhs) \<longrightarrow>
      frozenset_hash E addr (the_set lhs) = frozenset_hash E addr (right_set lhs rhs)"
  proof
    assume "set_binary_op E SET_EQUAL lhs rhs = Some (Inr (Truth True), lhs)"
    then have "members E (the_set lhs) = members E (right_set lhs rhs)"
      using spared_binary_op [of E SET_EQUAL lhs rhs] unfolding e by (auto simp: spared_def short_def)
    then show "frozenset_hash E addr (the_set lhs) = frozenset_hash E addr (right_set lhs rhs)"
      using equal_hash [OF l right_set_ok(1) [OF l a], of addr] unfolding frozenset_hash_def plenty_simps by simp
  qed
qed

theorem set_operators_algebra_witness:
  "\<exists>v lhs'. set_binary_op ptr_env SET_INPLACE_XOR \<lparr>is_frozenset = False, the_set = small_set\<rparr> ArgSelf = Some (Inr v, lhs') \<and>
    members ptr_env (the_set lhs') = {}"
proof -
  have e: "elem_env_ok ptr_env" "\<forall>k. obj_equal ptr_env k k" "\<forall>n. m_new_ok ptr_env n" using ptr_env_plain unfolding plain_env_def by blast+
  show ?thesis
    using set_operators_algebra [OF e(1,2), of "\<lparr>is_frozenset = False, the_set = small_set\<rparr>" ArgSelf SET_INPLACE_XOR 0]
      small_set_inv e(3) by (auto simp: right_set_def)
qed

section \<open>Departures\<close>

text \<open>An iterable that yields an object twice toggles it twice, so that \<open>{a}.symmetric_difference([b, b])\<close> is
  \<open>{a}\<close> and not \<open>{a, b}\<close>.\<close>

definition roomy_set :: mp_set_t where
  "roomy_set = \<lparr>set_alloc = 4, set_used = 2, set_table = [MP_OBJ_NULL, MP_OBJ_NULL, 16, 24]\<rparr>"

lemma toggle_duplicates:
  "map_option (\<lambda>(r, s). (r, listed s)) (set_symmetric_difference_update ptr_env roomy_set (ArgIter [32, 32])) =
    Some (Inr True, [16, 24])"
  by code_simp

text \<open>The intersection of a frozen set with another collection is a set, while its union is a frozen set.\<close>

lemma intersection_thaws:
  assumes "set_intersect E self other = Some (Inr o1)" "other \<noteq> ArgSelf"
  shows "\<not> is_frozenset o1"
  using intersect_type [OF assms(1)] assms(2) by simp

lemma union_keeps_type:
  assumes "set_union E self other = Some (Inr o1)"
  shows "is_frozenset o1 = is_frozenset self"
  using assms unfolding set_union_def by (rule on_copy_type)

end
