(* ===== verification/GcTable.thy ===== *)
theory GcTable
  imports Prelude
begin

text \<open>
  The bit tables of \<open>py/gc.c\<close>: the allocation table packs a two-bit kind per block, four blocks to a
  byte, the finaliser table one bit per block.  The macros are modelled on the bytes; the lemmas say
  what each macro does to the kind of every block, which is all that the rest of the collector uses.
\<close>

section \<open>Allocation table\<close>

abbreviation AT_FREE :: u8 where "AT_FREE \<equiv> 0"
abbreviation AT_HEAD :: u8 where "AT_HEAD \<equiv> 1"
abbreviation AT_TAIL :: u8 where "AT_TAIL \<equiv> 2"
abbreviation AT_MARK :: u8 where "AT_MARK \<equiv> 3"

definition BLOCK_SHIFT :: "nat \<Rightarrow> nat" where
  "BLOCK_SHIFT block = 2 * (block mod 4)"

definition ATB_GET_KIND :: "bytes \<Rightarrow> nat \<Rightarrow> u8" where
  "ATB_GET_KIND t block = drop_bit (BLOCK_SHIFT block) (t ! (block div 4)) AND 3"

definition ATB_ANY_TO_FREE :: "bytes \<Rightarrow> nat \<Rightarrow> bytes" where
  "ATB_ANY_TO_FREE t block = t[block div 4 := t ! (block div 4) AND NOT (push_bit (BLOCK_SHIFT block) AT_MARK)]"

definition ATB_FREE_TO_HEAD :: "bytes \<Rightarrow> nat \<Rightarrow> bytes" where
  "ATB_FREE_TO_HEAD t block = t[block div 4 := t ! (block div 4) OR push_bit (BLOCK_SHIFT block) AT_HEAD]"

definition ATB_FREE_TO_TAIL :: "bytes \<Rightarrow> nat \<Rightarrow> bytes" where
  "ATB_FREE_TO_TAIL t block = t[block div 4 := t ! (block div 4) OR push_bit (BLOCK_SHIFT block) AT_TAIL]"

definition ATB_HEAD_TO_MARK :: "bytes \<Rightarrow> nat \<Rightarrow> bytes" where
  "ATB_HEAD_TO_MARK t block = t[block div 4 := t ! (block div 4) OR push_bit (BLOCK_SHIFT block) AT_MARK]"

definition ATB_MARK_TO_HEAD :: "bytes \<Rightarrow> nat \<Rightarrow> bytes" where
  "ATB_MARK_TO_HEAD t block = t[block div 4 := t ! (block div 4) AND NOT (push_bit (BLOCK_SHIFT block) AT_TAIL)]"

text \<open>\<open>ATB_0_IS_FREE\<close> to \<open>ATB_3_IS_FREE\<close>, with their masks.\<close>

definition ATB_MASK :: "nat \<Rightarrow> u8" where
  "ATB_MASK j = [0x03, 0x0c, 0x30, 0xc0] ! j"

definition ATB_IS_FREE :: "nat \<Rightarrow> u8 \<Rightarrow> bool" where
  "ATB_IS_FREE j a \<longleftrightarrow> a AND ATB_MASK j = 0"

section \<open>Finaliser table\<close>

definition FTB_GET :: "bytes \<Rightarrow> nat \<Rightarrow> bool" where
  "FTB_GET t block \<longleftrightarrow> drop_bit (block mod 8) (t ! (block div 8)) AND 1 \<noteq> 0"

definition FTB_SET :: "bytes \<Rightarrow> nat \<Rightarrow> bytes" where
  "FTB_SET t block = t[block div 8 := t ! (block div 8) OR push_bit (block mod 8) 1]"

definition FTB_CLEAR :: "bytes \<Rightarrow> nat \<Rightarrow> bytes" where
  "FTB_CLEAR t block = t[block div 8 := t ! (block div 8) AND NOT (push_bit (block mod 8) 1)]"

section \<open>Kinds\<close>

named_theorems kind_simps

definition two_bits :: "u8 \<Rightarrow> nat \<Rightarrow> u8" where
  "two_bits x i = of_bool (bit x (2 * i)) + 2 * of_bool (bit x (2 * i + 1))"


lemma kind_two_bits:
  assumes "b div 4 < length t"
  shows "ATB_GET_KIND t b = two_bits (t ! (b div 4)) (b mod 4)"
proof -
  have "(w AND 3 :: u8) = of_bool (bit w 0) + 2 * of_bool (bit w 1)" for w :: u8
  proof -
    have "w AND 3 = take_bit 2 w" by (simp add: take_bit_eq_mask mask_eq_exp_minus_1)
    also have "take_bit 2 w = of_bool (bit w 0) + 2 * of_bool (bit w 1)"
      by (simp add: numeral_2_eq_2 take_bit_Suc bit_0 bit_Suc mod_2_eq_odd)
    finally show ?thesis .
  qed
  from this [of "drop_bit (2 * (b mod 4)) (t ! (b div 4))"] show ?thesis
    by (simp add: ATB_GET_KIND_def BLOCK_SHIFT_def two_bits_def bit_drop_bit_eq)
qed

lemma two_bits_cases: "two_bits x i \<in> {AT_FREE, AT_HEAD, AT_TAIL, AT_MARK}"
  by (simp add: two_bits_def)

lemma kind_cases:
  assumes "b div 4 < length t"
  obtains "ATB_GET_KIND t b = AT_FREE" | "ATB_GET_KIND t b = AT_HEAD"
    | "ATB_GET_KIND t b = AT_TAIL" | "ATB_GET_KIND t b = AT_MARK"
  using two_bits_cases [of "t ! (b div 4)" "b mod 4"] kind_two_bits [OF assms] by auto

lemma two_bits_eq_iff:
  "two_bits x i = two_bits y j \<longleftrightarrow> bit x (2 * i) = bit y (2 * j) \<and> bit x (2 * i + 1) = bit y (2 * j + 1)"
  by (auto simp: two_bits_def split: if_splits)

text \<open>Changing only the two bits of a block leaves the kind of every other block.\<close>

lemma kind_update:
  assumes "b div 4 < length t" "b' div 4 < length t"
    and "\<And>n. n \<noteq> 2 * (b mod 4) \<Longrightarrow> n \<noteq> 2 * (b mod 4) + 1 \<Longrightarrow> bit y n = bit (t ! (b div 4)) n"
  shows "ATB_GET_KIND (t[b div 4 := y]) b' = (if b' = b then two_bits y (b mod 4) else ATB_GET_KIND t b')"
proof (cases "b' div 4 = b div 4")
  case True
  show ?thesis
  proof (cases "b' = b")
    case False
    then have ne: "b' mod 4 \<noteq> b mod 4" using True by (metis div_mult_mod_eq)
    have "2 * (b' mod 4) \<noteq> 2 * (b mod 4) + 1" "2 * (b' mod 4) + 1 \<noteq> 2 * (b mod 4)" by presburger+
    with ne have "two_bits y (b' mod 4) = two_bits (t ! (b div 4)) (b' mod 4)"
      using assms(3) by (simp add: two_bits_eq_iff)
    then show ?thesis using False True assms by (simp add: kind_two_bits)
  qed (use assms in \<open>simp add: kind_two_bits\<close>)
next
  case False
  then show ?thesis using assms by (auto simp: kind_two_bits)
qed

lemma bit_or_push:
  "bit (x OR push_bit s v :: u8) n \<longleftrightarrow> bit x n \<or> (s \<le> n \<and> n < 8 \<and> bit v (n - s))"
  by (auto simp: bit_or_iff bit_push_bit_iff)

lemma bit_and_not_push:
  "n < 8 \<Longrightarrow> bit (x AND NOT (push_bit s v) :: u8) n \<longleftrightarrow> bit x n \<and> \<not> (s \<le> n \<and> bit v (n - s))"
  by (auto simp: bit_and_iff bit_push_bit_iff bit_not_iff)

lemma bit_ge_8: "8 \<le> n \<Longrightarrow> \<not> bit (x :: u8) n"
  using bit_imp_le_length [of x n] by auto

lemma bits_of_kinds [simp]:
  "bit (1 :: u8) 0" "\<not> bit (1 :: u8) (Suc 0)" "\<not> bit (2 :: u8) 0" "bit (2 :: u8) (Suc 0)"
  "bit (3 :: u8) 0" "bit (3 :: u8) (Suc 0)"
  by (simp_all add: bit_0 bit_Suc)

lemma kind_bits_high: "2 \<le> n \<Longrightarrow> \<not> bit (1 :: u8) n \<and> \<not> bit (2 :: u8) n \<and> \<not> bit (3 :: u8) n"
proof -
  assume "2 \<le> n"
  then obtain m where "n = Suc (Suc m)" by (metis Suc_le_D numeral_2_eq_2 Suc_le_mono)
  then show ?thesis by (simp add: bit_Suc)
qed

lemma shifts:
  "2 * (b mod 4) < (8 :: nat)" "2 * (b mod 4) + 1 < (8 :: nat)" "Suc (2 * (b mod 4)) < (8 :: nat)"
  by presburger+

lemma set_bits_other:
  assumes "v \<in> {1, 2, 3 :: u8}" "n \<noteq> 2 * (b mod 4)" "n \<noteq> 2 * (b mod 4) + 1"
  shows "bit (x OR push_bit (BLOCK_SHIFT b) v) n = bit x n" "bit (x AND NOT (push_bit (BLOCK_SHIFT b) v)) n = bit x n"
proof -
  have "\<not> (2 * (b mod 4) \<le> n \<and> bit v (n - 2 * (b mod 4)))"
    using assms kind_bits_high [of "n - 2 * (b mod 4)"] by (cases "2 \<le> n - 2 * (b mod 4)") auto
  then show "bit (x OR push_bit (BLOCK_SHIFT b) v) n = bit x n" "bit (x AND NOT (push_bit (BLOCK_SHIFT b) v)) n = bit x n"
    by (cases "n < 8"; auto simp: bit_or_push bit_and_not_push BLOCK_SHIFT_def bit_ge_8 not_less)+
qed

text \<open>What each macro does to the kinds: \<open>v\<close> is or-ed in, or cleared.\<close>

lemma kind_or:
  assumes "b div 4 < length t" "b' div 4 < length t" "v \<in> {1, 2, 3 :: u8}"
  shows "ATB_GET_KIND (t[b div 4 := t ! (b div 4) OR push_bit (BLOCK_SHIFT b) v]) b' =
    (if b' = b then of_bool (bit (ATB_GET_KIND t b) 0 \<or> bit v 0) + 2 * of_bool (bit (ATB_GET_KIND t b) 1 \<or> bit v 1)
     else ATB_GET_KIND t b')"
proof -
  have "bit (two_bits x i) 0 = bit x (2 * i)" "bit (two_bits x i) 1 = bit x (2 * i + 1)" for x :: u8 and i
    by (auto simp: two_bits_def)
  moreover have "two_bits (x OR push_bit (BLOCK_SHIFT b) v) (b mod 4) =
      of_bool (bit x (2 * (b mod 4)) \<or> bit v 0) + 2 * of_bool (bit x (2 * (b mod 4) + 1) \<or> bit v 1)" for x :: u8
    using shifts [of b] by (simp add: two_bits_def bit_or_push BLOCK_SHIFT_def)
  moreover have "ATB_GET_KIND (t[b div 4 := t ! (b div 4) OR push_bit (BLOCK_SHIFT b) v]) b' =
      (if b' = b then two_bits (t ! (b div 4) OR push_bit (BLOCK_SHIFT b) v) (b mod 4) else ATB_GET_KIND t b')"
    by (rule kind_update [OF assms(1,2)]) (rule set_bits_other(1) [OF assms(3)])
  ultimately show ?thesis by (simp add: kind_two_bits [OF assms(1)])
qed

lemma kind_clear:
  assumes "b div 4 < length t" "b' div 4 < length t" "v \<in> {1, 2, 3 :: u8}"
  shows "ATB_GET_KIND (t[b div 4 := t ! (b div 4) AND NOT (push_bit (BLOCK_SHIFT b) v)]) b' =
    (if b' = b then of_bool (bit (ATB_GET_KIND t b) 0 \<and> \<not> bit v 0) + 2 * of_bool (bit (ATB_GET_KIND t b) 1 \<and> \<not> bit v 1)
     else ATB_GET_KIND t b')"
proof -
  have "bit (two_bits x i) 0 = bit x (2 * i)" "bit (two_bits x i) 1 = bit x (2 * i + 1)" for x :: u8 and i
    by (auto simp: two_bits_def)
  moreover have "two_bits (x AND NOT (push_bit (BLOCK_SHIFT b) v)) (b mod 4) =
      of_bool (bit x (2 * (b mod 4)) \<and> \<not> bit v 0) + 2 * of_bool (bit x (2 * (b mod 4) + 1) \<and> \<not> bit v 1)" for x :: u8
    using shifts [of b] by (simp add: two_bits_def bit_and_not_push BLOCK_SHIFT_def)
  moreover have "ATB_GET_KIND (t[b div 4 := t ! (b div 4) AND NOT (push_bit (BLOCK_SHIFT b) v)]) b' =
      (if b' = b then two_bits (t ! (b div 4) AND NOT (push_bit (BLOCK_SHIFT b) v)) (b mod 4) else ATB_GET_KIND t b')"
    by (rule kind_update [OF assms(1,2)]) (rule set_bits_other(2) [OF assms(3)])
  ultimately show ?thesis by (simp add: kind_two_bits [OF assms(1)])
qed

lemma kind_any_to_free [kind_simps]:
  "b div 4 < length t \<Longrightarrow> b' div 4 < length t \<Longrightarrow>
   ATB_GET_KIND (ATB_ANY_TO_FREE t b) b' = (if b' = b then AT_FREE else ATB_GET_KIND t b')"
  by (simp add: ATB_ANY_TO_FREE_def kind_clear)

lemma kind_free_to_head [kind_simps]:
  "b div 4 < length t \<Longrightarrow> b' div 4 < length t \<Longrightarrow> ATB_GET_KIND t b = AT_FREE \<Longrightarrow>
   ATB_GET_KIND (ATB_FREE_TO_HEAD t b) b' = (if b' = b then AT_HEAD else ATB_GET_KIND t b')"
  by (simp add: ATB_FREE_TO_HEAD_def kind_or del: push_bit_of_1)

lemma kind_free_to_tail [kind_simps]:
  "b div 4 < length t \<Longrightarrow> b' div 4 < length t \<Longrightarrow> ATB_GET_KIND t b = AT_FREE \<Longrightarrow>
   ATB_GET_KIND (ATB_FREE_TO_TAIL t b) b' = (if b' = b then AT_TAIL else ATB_GET_KIND t b')"
  by (simp add: ATB_FREE_TO_TAIL_def kind_or)

lemma kind_head_to_mark [kind_simps]:
  "b div 4 < length t \<Longrightarrow> b' div 4 < length t \<Longrightarrow>
   ATB_GET_KIND (ATB_HEAD_TO_MARK t b) b' = (if b' = b then AT_MARK else ATB_GET_KIND t b')"
  by (simp add: ATB_HEAD_TO_MARK_def kind_or)

lemma kind_mark_to_head [kind_simps]:
  "b div 4 < length t \<Longrightarrow> b' div 4 < length t \<Longrightarrow> ATB_GET_KIND t b = AT_MARK \<Longrightarrow>
   ATB_GET_KIND (ATB_MARK_TO_HEAD t b) b' = (if b' = b then AT_HEAD else ATB_GET_KIND t b')"
  by (simp add: ATB_MARK_TO_HEAD_def kind_clear)

lemma length_atb [simp]:
  "length (ATB_ANY_TO_FREE t b) = length t" "length (ATB_FREE_TO_HEAD t b) = length t"
  "length (ATB_FREE_TO_TAIL t b) = length t" "length (ATB_HEAD_TO_MARK t b) = length t"
  "length (ATB_MARK_TO_HEAD t b) = length t" "length (FTB_SET f b) = length f" "length (FTB_CLEAR f b) = length f"
  by (simp_all add: ATB_ANY_TO_FREE_def ATB_FREE_TO_HEAD_def ATB_FREE_TO_TAIL_def ATB_HEAD_TO_MARK_def
      ATB_MARK_TO_HEAD_def FTB_SET_def FTB_CLEAR_def)

text \<open>The masked tests of \<open>gc_alloc\<close> are tests of the kind.\<close>

lemma is_free_iff:
  assumes "i < length t" "j < 4"
  shows "ATB_IS_FREE j (t ! i) \<longleftrightarrow> ATB_GET_KIND t (4 * i + j) = AT_FREE"
proof -
  have m: "ATB_MASK j = push_bit (2 * j) 3"
  proof -
    have "j = 0 \<or> j = 1 \<or> j = 2 \<or> j = 3" using assms(2) by linarith
    then show ?thesis by (auto simp: ATB_MASK_def push_bit_eq_mult)
  qed
  have "t ! i AND ATB_MASK j = 0 \<longleftrightarrow> \<not> bit (t ! i) (2 * j) \<and> \<not> bit (t ! i) (2 * j + 1)"
  proof
    assume "t ! i AND ATB_MASK j = 0"
    then have "\<not> bit (t ! i AND ATB_MASK j) n" for n by simp
    from this [of "2 * j"] this [of "2 * j + 1"] show "\<not> bit (t ! i) (2 * j) \<and> \<not> bit (t ! i) (2 * j + 1)"
      using assms(2) by (simp add: m bit_and_iff bit_push_bit_iff)
  next
    assume a: "\<not> bit (t ! i) (2 * j) \<and> \<not> bit (t ! i) (2 * j + 1)"
    show "t ! i AND ATB_MASK j = 0"
    proof (rule bit_eqI)
      fix n
      show "bit (t ! i AND ATB_MASK j) n = bit 0 n"
      proof (cases "n = 2 * j \<or> n = 2 * j + 1")
        case False
        then have "2 * j \<le> n \<Longrightarrow> 2 \<le> n - 2 * j" by linarith
        then show ?thesis using kind_bits_high [of "n - 2 * j"] by (auto simp: m bit_and_iff bit_push_bit_iff)
      qed (use a in \<open>auto simp: bit_and_iff\<close>)
    qed
  qed
  moreover have "(4 * i + j) div 4 = i" "(4 * i + j) mod 4 = j" using assms(2) by simp_all
  ultimately show ?thesis
    using assms(1) by (auto simp: ATB_IS_FREE_def kind_two_bits two_bits_def)
qed

text \<open>The finaliser bits.\<close>

lemma ftb_get_bit: "FTB_GET t b \<longleftrightarrow> bit (t ! (b div 8)) (b mod 8)"
  by (simp add: FTB_GET_def and_one_eq mod_2_eq_odd bit_iff_odd_drop_bit)

lemma bit_one_iff: "bit (1 :: u8) n \<longleftrightarrow> n = 0"
  by (cases n) (simp_all add: bit_0 bit_Suc)

lemma div_mod_eq: "a div k = b div k \<Longrightarrow> a mod k = b mod k \<Longrightarrow> a = (b :: nat)"
  by (metis div_mult_mod_eq)

lemma ftb_set: "b div 8 < length t \<Longrightarrow> FTB_GET (FTB_SET t b) b' \<longleftrightarrow> b' = b \<or> FTB_GET t b'"
  by (cases "b' div 8 = b div 8")
    (auto simp: ftb_get_bit FTB_SET_def bit_or_push bit_one_iff simp del: push_bit_of_1 dest: div_mod_eq)

lemma ftb_clear: "b div 8 < length t \<Longrightarrow> FTB_GET (FTB_CLEAR t b) b' \<longleftrightarrow> b' \<noteq> b \<and> FTB_GET t b'"
  by (cases "b' div 8 = b div 8")
    (auto simp: ftb_get_bit FTB_CLEAR_def bit_and_not_push bit_one_iff simp del: push_bit_of_1 dest: div_mod_eq)

end
