(* ===== verification/Gc.thy ===== *)
theory Gc
  imports GcTable
begin

text \<open>
  The garbage-collected heap of \<open>py/gc.c\<close> with one area: set-up, allocation, freeing, reallocation,
  and the mark-and-sweep collection with its bounded mark stack.  The record \<open>gc\<close> holds the area and
  the collector's fields of \<open>mp_state_mem_t\<close>; memory is the byte memory of the prelude.  What lies
  outside is the record \<open>gc_env\<close>: the words that the port hands to \<open>gc_collect_root\<close> (root
  pointers, stack and registers) and what calling an object's \<open>__del__\<close> does to the heap.
\<close>

section \<open>State\<close>

record gc =
  gc_alloc_table :: bytes             \<comment> \<open>with the gap byte behind it\<close>
  gc_alloc_table_byte_len :: nat
  gc_finaliser_table :: bytes
  gc_finaliser_table_start :: u32
  gc_pool_start :: u32
  gc_pool_end :: u32
  gc_last_free_atb_index :: nat
  gc_last_used_block :: nat
  gc_stack_overflow :: bool
  gc_lock_depth :: u16
  gc_auto_collect_enabled :: bool
  gc_alloc_amount :: u32
  gc_alloc_threshold :: u32
  gc_mem :: mem

record gc_env =
  root_sections :: "u32 list list"    \<comment> \<open>the arguments of the calls of \<open>gc_collect_root\<close>\<close>
  run_del :: "nat \<Rightarrow> gc \<Rightarrow> gc"        \<comment> \<open>look up and call \<open>__del__\<close> of the object in this block\<close>

definition BYTES_PER_BLOCK :: u32 where "BYTES_PER_BLOCK = 16"
definition MICROPY_ALLOC_GC_STACK_SIZE :: nat where "MICROPY_ALLOC_GC_STACK_SIZE = 64"
definition GC_COLLECT_FLAG :: u16 where "GC_COLLECT_FLAG = 1"

text \<open>\<open>BLOCKS_PER_ATB\<close> blocks per table byte.\<close>

abbreviation gc_num_blocks :: "gc \<Rightarrow> nat" where
  "gc_num_blocks s \<equiv> 4 * gc_alloc_table_byte_len s"

definition gc_kind :: "gc \<Rightarrow> nat \<Rightarrow> u8" where
  "gc_kind s b = (if b div 4 < length (gc_alloc_table s) then ATB_GET_KIND (gc_alloc_table s) b else AT_FREE)"

definition VERIFY_PTR :: "gc \<Rightarrow> u32 \<Rightarrow> bool" where
  "VERIFY_PTR s ptr \<longleftrightarrow> ptr AND (BYTES_PER_BLOCK - 1) = 0 \<and> gc_pool_start s \<le> ptr \<and> ptr < gc_pool_end s"

definition BLOCK_FROM_PTR :: "gc \<Rightarrow> u32 \<Rightarrow> nat" where
  "BLOCK_FROM_PTR s ptr = unat ((ptr - gc_pool_start s) div BYTES_PER_BLOCK)"

definition PTR_FROM_BLOCK :: "gc \<Rightarrow> nat \<Rightarrow> u32" where
  "PTR_FROM_BLOCK s block = of_nat block * BYTES_PER_BLOCK + gc_pool_start s"

text \<open>A pointer-sized load, little endian.\<close>

definition load32 :: "mem \<Rightarrow> u32 \<Rightarrow> u32" where
  "load32 m a = ucast (m a) OR push_bit 8 (ucast (m (a + 1))) OR push_bit 16 (ucast (m (a + 2))) OR push_bit 24 (ucast (m (a + 3)))"

definition mem_zero :: "mem \<Rightarrow> u32 \<Rightarrow> nat \<Rightarrow> mem" where
  "mem_zero m a n = mem_write m a (replicate n 0)"

section \<open>Set-up and locking\<close>

text \<open>\<open>gc_setup_area\<close>: the sizes of the three parts of the area, then tables cleared.\<close>

definition gc_atb_len :: "nat \<Rightarrow> nat" where
  "gc_atb_len total_byte_len = (total_byte_len - 1) * 8 div (8 + 8 * 4 div 8 + 8 * 4 * 16)"

definition gc_ftb_len :: "nat \<Rightarrow> nat" where
  "gc_ftb_len a = (a * 4 + 8 - 1) div 8"

definition gc_setup_area :: "gc \<Rightarrow> u32 \<Rightarrow> u32 \<Rightarrow> gc" where
  "gc_setup_area s start end_ptr =
     (let a = gc_atb_len (unat (end_ptr - start)); f = gc_ftb_len a
      in s\<lparr>gc_alloc_table_byte_len := a,
           gc_alloc_table := replicate (a + 1) 0,
           gc_finaliser_table := replicate f 0,
           gc_finaliser_table_start := start + of_nat a + 1,
           gc_pool_start := end_ptr - of_nat (a * 4) * BYTES_PER_BLOCK,
           gc_pool_end := end_ptr,
           gc_last_free_atb_index := 0,
           gc_last_used_block := 0\<rparr>)"

definition gc_init :: "gc \<Rightarrow> u32 \<Rightarrow> u32 \<Rightarrow> gc" where
  "gc_init s start end_ptr =
     (gc_setup_area s start (end_ptr AND NOT (BYTES_PER_BLOCK - 1)))
       \<lparr>gc_lock_depth := 0, gc_auto_collect_enabled := True, gc_alloc_threshold := - 1, gc_alloc_amount := 0\<rparr>"

definition gc_lock :: "gc \<Rightarrow> gc" where "gc_lock s = s\<lparr>gc_lock_depth := gc_lock_depth s + 2\<rparr>"
definition gc_unlock :: "gc \<Rightarrow> gc" where "gc_unlock s = s\<lparr>gc_lock_depth := gc_lock_depth s - 2\<rparr>"
definition gc_is_locked :: "gc \<Rightarrow> bool" where "gc_is_locked s \<longleftrightarrow> gc_lock_depth s \<noteq> 0"

section \<open>Marking\<close>

text \<open>The length of the chain that starts at a block.  The gap byte is free, so the run of tails ends
  inside the table.\<close>

function count_tails :: "gc \<Rightarrow> nat \<Rightarrow> nat" where
  "count_tails s b =
     (if b div 4 < length (gc_alloc_table s) \<and> gc_kind s b = AT_TAIL then Suc (count_tails s (b + 1)) else 0)"
  by pat_completeness auto
termination
  by (relation "measure (\<lambda>(s, b). 4 * length (gc_alloc_table s) - b)") (simp, simp, linarith)

declare count_tails.simps [simp del]

definition chain_length :: "gc \<Rightarrow> nat \<Rightarrow> nat" where
  "chain_length s block = 1 + count_tails s (block + 1)"

definition chain_words :: "gc \<Rightarrow> nat \<Rightarrow> u32 list" where
  "chain_words s block =
     map (\<lambda>i. load32 (gc_mem s) (PTR_FROM_BLOCK s block + 4 * of_nat i)) [0 ..< chain_length s block * 4]"

text \<open>One word of a block: an unmarked head is marked and pushed, or the overflow flag is set when
  the stack is full.  A valid pointer has its block in the table.\<close>

fun mark_word :: "gc \<times> nat list \<Rightarrow> u32 \<Rightarrow> gc \<times> nat list" where
  "mark_word (s, stack) ptr =
     (if \<not> VERIFY_PTR s ptr then (s, stack)
      else
        let b = BLOCK_FROM_PTR s ptr in
        if gc_kind s b \<noteq> AT_HEAD then (s, stack)
        else
          let s1 = s\<lparr>gc_alloc_table := ATB_HEAD_TO_MARK (gc_alloc_table s) b\<rparr> in
          if length stack < MICROPY_ALLOC_GC_STACK_SIZE then (s1, b # stack)
          else (s1\<lparr>gc_stack_overflow := True\<rparr>, stack))"

definition unmarked :: "gc \<Rightarrow> nat" where
  "unmarked s = card {b. b < 4 * length (gc_alloc_table s) \<and> gc_kind s b = AT_HEAD}"

lemma gc_kind_head_in_table: "gc_kind s b = AT_HEAD \<Longrightarrow> b div 4 < length (gc_alloc_table s)"
  by (simp add: gc_kind_def split: if_splits)

lemma gc_kind_head_to_mark:
  assumes "gc_kind s b = AT_HEAD"
  shows "gc_kind (s\<lparr>gc_alloc_table := ATB_HEAD_TO_MARK (gc_alloc_table s) b\<rparr>) b' = (if b' = b then AT_MARK else gc_kind s b')"
proof (cases "b' div 4 < length (gc_alloc_table s)")
  case True
  then show ?thesis
    using kind_head_to_mark [OF gc_kind_head_in_table [OF assms] True] by (simp add: gc_kind_def)
next
  case False
  then have "b' \<noteq> b" using gc_kind_head_in_table [OF assms] by auto
  with False show ?thesis by (simp add: gc_kind_def)
qed

lemma gc_kind_flag [simp]: "gc_kind (s\<lparr>gc_stack_overflow := x\<rparr>) b = gc_kind s b"
  by (simp add: gc_kind_def)

lemma unmarked_flag [simp]: "unmarked (s\<lparr>gc_stack_overflow := x\<rparr>) = unmarked s"
  by (simp add: unmarked_def)

lemma unmarked_mark:
  assumes "gc_kind s b = AT_HEAD"
  shows "Suc (unmarked (s\<lparr>gc_alloc_table := ATB_HEAD_TO_MARK (gc_alloc_table s) b\<rparr>)) = unmarked s"
proof -
  let ?H = "{b. b < 4 * length (gc_alloc_table s) \<and> gc_kind s b = AT_HEAD}"
  let ?s = "s\<lparr>gc_alloc_table := ATB_HEAD_TO_MARK (gc_alloc_table s) b\<rparr>"
  have "b < 4 * length (gc_alloc_table s)" using gc_kind_head_in_table [OF assms] by linarith
  then have b: "b \<in> ?H" using assms by simp
  have "{x. x < 4 * length (gc_alloc_table ?s) \<and> gc_kind ?s x = AT_HEAD} = ?H - {b}"
    unfolding gc_kind_head_to_mark [OF assms] by (auto split: if_splits)
  then have "unmarked ?s = card (?H - {b})" by (simp only: unmarked_def)
  moreover have "unmarked s = card ?H" by (simp only: unmarked_def)
  moreover have "finite ?H" by simp
  ultimately show ?thesis using b card_Suc_Diff1 [of ?H b] by simp
qed

lemma mark_word_measure:
  "2 * unmarked (fst (mark_word x p)) + length (snd (mark_word x p)) \<le> 2 * unmarked (fst x) + length (snd x)"
proof (cases x)
  case (Pair s stack)
  then show ?thesis
    using unmarked_mark [of s "BLOCK_FROM_PTR s p"] by (auto simp: Let_def)
qed

lemma mark_words_measure:
  "2 * unmarked (fst (foldl mark_word x ps)) + length (snd (foldl mark_word x ps)) \<le> 2 * unmarked (fst x) + length (snd x)"
proof (induction ps arbitrary: x)
  case (Cons p ps)
  from Cons.IH [of "mark_word x p"] mark_word_measure [of x p] show ?case by simp
qed simp

text \<open>\<open>gc_mark_subtree\<close>: the stack holds the marked blocks whose words are still to be looked at.\<close>

function mark_loop :: "gc \<Rightarrow> nat list \<Rightarrow> nat \<Rightarrow> gc" where
  "mark_loop s stack block =
     (case foldl mark_word (s, stack) (chain_words s block) of
        (s', []) \<Rightarrow> s'
      | (s', b # stack') \<Rightarrow> mark_loop s' stack' b)"
  by pat_completeness auto
termination
proof (relation "measure (\<lambda>(s, stack, b). 2 * unmarked s + length stack)", goal_cases)
  case 1
  then show ?case by simp
next
  case (2 s stack block x s' b stack')
  then have "foldl mark_word (s, stack) (chain_words s block) = (x, b # stack')" by simp
  then show ?case using mark_words_measure [of "(s, stack)" "chain_words s block"] by simp
qed

declare mark_loop.simps [simp del]

definition gc_mark_subtree :: "gc \<Rightarrow> nat \<Rightarrow> gc" where
  "gc_mark_subtree s block = mark_loop s [] block"

definition gc_collect_root :: "gc \<Rightarrow> u32 list \<Rightarrow> gc" where
  "gc_collect_root s ptrs =
     foldl (\<lambda>s ptr.
        if \<not> VERIFY_PTR s ptr then s
        else let b = BLOCK_FROM_PTR s ptr
             in if gc_kind s b = AT_HEAD
                then gc_mark_subtree (s\<lparr>gc_alloc_table := ATB_HEAD_TO_MARK (gc_alloc_table s) b\<rparr>) b
                else s) s ptrs"

text \<open>After an overflow the whole table is scanned for marked blocks, as often as it takes.\<close>

definition overflow_pass :: "gc \<Rightarrow> gc" where
  "overflow_pass s =
     foldl (\<lambda>s b. if gc_kind s b = AT_MARK then gc_mark_subtree s b else s)
       (s\<lparr>gc_stack_overflow := False\<rparr>) [0 ..< gc_num_blocks s]"

text \<open>The flag goes up only when a head has been marked.\<close>

lemma mark_word_flag:
  "gc_stack_overflow (fst (mark_word x p)) \<Longrightarrow> gc_stack_overflow (fst x) \<or> unmarked (fst (mark_word x p)) < unmarked (fst x)"
proof (cases x)
  case (Pair s stack)
  then show "gc_stack_overflow (fst (mark_word x p)) \<Longrightarrow> ?thesis"
    using unmarked_mark [of s "BLOCK_FROM_PTR s p"] by (auto simp: Let_def split: if_splits)
qed

lemma mark_word_le: "unmarked (fst (mark_word x p)) \<le> unmarked (fst x)"
proof (cases x)
  case (Pair s stack)
  then show ?thesis
    using unmarked_mark [of s "BLOCK_FROM_PTR s p"] by (auto simp: Let_def)
qed

lemma mark_words_flag:
  "unmarked (fst (foldl mark_word x ps)) \<le> unmarked (fst x) \<and>
   (gc_stack_overflow (fst (foldl mark_word x ps)) \<longrightarrow>
      gc_stack_overflow (fst x) \<or> unmarked (fst (foldl mark_word x ps)) < unmarked (fst x))"
proof (induction ps arbitrary: x)
  case (Cons p ps)
  from Cons.IH [of "mark_word x p"] mark_word_flag [of x p] mark_word_le [of x p] show ?case by auto
qed simp

lemma mark_loop_flag:
  "unmarked (mark_loop s stack b) \<le> unmarked s \<and>
   (gc_stack_overflow (mark_loop s stack b) \<longrightarrow> gc_stack_overflow s \<or> unmarked (mark_loop s stack b) < unmarked s)"
proof (induction s stack b rule: mark_loop.induct)
  case (1 s stack block)
  obtain s' st' where f: "foldl mark_word (s, stack) (chain_words s block) = (s', st')" by fastforce
  have m: "unmarked s' \<le> unmarked s \<and> (gc_stack_overflow s' \<longrightarrow> gc_stack_overflow s \<or> unmarked s' < unmarked s)"
    using mark_words_flag [of "(s, stack)" "chain_words s block"] f by simp
  show ?case
  proof (cases st')
    case Nil
    then show ?thesis using f m by (simp add: mark_loop.simps [of s stack block])
  next
    case (Cons b st)
    have "mark_loop s stack block = mark_loop s' st b"
      using f Cons by (simp add: mark_loop.simps [of s stack block])
    with "1.IH" [OF f [symmetric] Cons] m show ?thesis by auto
  qed
qed

lemma overflow_pass_flag:
  "gc_stack_overflow (overflow_pass s) \<Longrightarrow> unmarked (overflow_pass s) < unmarked s"
  "unmarked (overflow_pass s) \<le> unmarked s"
proof -
  let ?f = "\<lambda>s b. if gc_kind s b = AT_MARK then gc_mark_subtree s b else s"
  have "unmarked (foldl ?f s bs) \<le> unmarked s \<and>
      (gc_stack_overflow (foldl ?f s bs) \<longrightarrow> gc_stack_overflow s \<or> unmarked (foldl ?f s bs) < unmarked s)" for s bs
  proof (induction bs arbitrary: s)
    case (Cons b bs)
    from Cons.IH [of "?f s b"] mark_loop_flag [of s "[]" b] show ?case
      by (auto simp: gc_mark_subtree_def)
  qed simp
  from this [of "s\<lparr>gc_stack_overflow := False\<rparr>" "[0 ..< gc_num_blocks s]"]
  show "gc_stack_overflow (overflow_pass s) \<Longrightarrow> unmarked (overflow_pass s) < unmarked s"
    "unmarked (overflow_pass s) \<le> unmarked s"
    by (auto simp: overflow_pass_def)
qed

function gc_deal_with_stack_overflow :: "gc \<Rightarrow> gc" where
  "gc_deal_with_stack_overflow s =
     (if gc_stack_overflow s then gc_deal_with_stack_overflow (overflow_pass s) else s)"
  by pat_completeness auto
termination
proof (relation "measure (\<lambda>s. 2 * unmarked s + (if gc_stack_overflow s then 1 else 0))", goal_cases)
  case (2 s)
  then show ?case using overflow_pass_flag [of s] by auto
qed simp

declare gc_deal_with_stack_overflow.simps [simp del]

section \<open>Finalisers\<close>

text \<open>The finaliser table is indexed up to \<open>gc_last_used_block / 8\<close> inclusive, which can be one byte
  behind it; what is read there is the byte of memory that follows, and the kind of a block behind
  the allocation table is read out of the finaliser table.\<close>

definition gc_ftb_byte :: "gc \<Rightarrow> nat \<Rightarrow> u8" where
  "gc_ftb_byte s i =
     (if i < length (gc_finaliser_table s) then gc_finaliser_table s ! i
      else gc_mem s (gc_finaliser_table_start s + of_nat i))"

definition gc_kind_beyond :: "gc \<Rightarrow> nat \<Rightarrow> u8" where
  "gc_kind_beyond s b =
     (if b div 4 < length (gc_alloc_table s) then ATB_GET_KIND (gc_alloc_table s) b
      else drop_bit (BLOCK_SHIFT b) (gc_ftb_byte s (b div 4 - length (gc_alloc_table s))) AND 3)"

text \<open>One bit: a head that is to be freed and has a type has its \<open>__del__\<close> called, then the bit is
  cleared.\<close>

definition finalise_block :: "gc_env \<Rightarrow> gc \<Rightarrow> nat \<Rightarrow> gc" where
  "finalise_block env s block =
     (if gc_kind_beyond s block = AT_HEAD then
        let s1 = (if load32 (gc_mem s) (PTR_FROM_BLOCK s block) \<noteq> 0 then run_del env block s else s)
        in s1\<lparr>gc_finaliser_table := FTB_CLEAR (gc_finaliser_table s1) block\<rparr>
      else s)"

text \<open>The loop over the bits of a byte read before it starts.\<close>

fun finalise_bits :: "gc_env \<Rightarrow> gc \<Rightarrow> u8 \<Rightarrow> nat \<Rightarrow> nat \<Rightarrow> gc" where
  "finalise_bits env s ftb block 0 = s"
| "finalise_bits env s ftb block (Suc k) =
     (if ftb = 0 then s
      else finalise_bits env (if ftb AND 1 \<noteq> 0 then finalise_block env s block else s) (drop_bit 1 ftb) (block + 1) k)"

definition gc_sweep_run_finalisers :: "gc_env \<Rightarrow> gc \<Rightarrow> gc" where
  "gc_sweep_run_finalisers env s =
     foldl (\<lambda>s i. finalise_bits env s (gc_ftb_byte s i) (8 * i) 8) s [0 ..< gc_last_used_block s div 8 + 1]"

section \<open>Sweeping\<close>

text \<open>One block of the sweep: the state carries \<open>free_tail\<close> and \<open>last_used_block\<close>.\<close>

fun sweep_block :: "gc \<times> bool \<times> nat \<Rightarrow> nat \<Rightarrow> gc \<times> bool \<times> nat" where
  "sweep_block (s, free_tail, last_used) b =
     (if gc_kind s b = AT_HEAD then
        (s\<lparr>gc_alloc_table := ATB_ANY_TO_FREE (gc_alloc_table s) b\<rparr>, True, last_used)
      else if gc_kind s b = AT_TAIL then
        (if free_tail then (s\<lparr>gc_alloc_table := ATB_ANY_TO_FREE (gc_alloc_table s) b\<rparr>, free_tail, last_used)
         else (s, free_tail, b))
      else if gc_kind s b = AT_MARK then
        (s\<lparr>gc_alloc_table := ATB_MARK_TO_HEAD (gc_alloc_table s) b\<rparr>, False, b)
      else (s, free_tail, last_used))"

definition gc_sweep_free_blocks :: "gc \<Rightarrow> gc" where
  "gc_sweep_free_blocks s =
     (case foldl sweep_block (s, False, 0) [0 ..< gc_last_used_block s + 1] of
        (s', _, last_used) \<Rightarrow> s'\<lparr>gc_last_used_block := last_used\<rparr>)"

section \<open>Collection\<close>

definition gc_collect_start_common :: "gc \<Rightarrow> gc" where
  "gc_collect_start_common s = s\<lparr>gc_lock_depth := gc_lock_depth s OR GC_COLLECT_FLAG, gc_stack_overflow := False\<rparr>"

definition gc_collect_start :: "gc \<Rightarrow> gc" where
  "gc_collect_start s = (gc_collect_start_common s)\<lparr>gc_alloc_amount := 0\<rparr>"

definition gc_collect_end :: "gc_env \<Rightarrow> gc \<Rightarrow> gc" where
  "gc_collect_end env s =
     (let s1 = gc_sweep_free_blocks (gc_sweep_run_finalisers env (gc_deal_with_stack_overflow s))
      in s1\<lparr>gc_last_free_atb_index := 0, gc_lock_depth := gc_lock_depth s1 AND NOT GC_COLLECT_FLAG\<rparr>)"

text \<open>\<open>gc_collect\<close> of the port: start, the root sections, end.\<close>

definition gc_collect :: "gc_env \<Rightarrow> gc \<Rightarrow> gc" where
  "gc_collect env s = gc_collect_end env (foldl gc_collect_root (gc_collect_start s) (root_sections env))"

definition gc_sweep_all :: "gc_env \<Rightarrow> gc \<Rightarrow> gc" where
  "gc_sweep_all env s = gc_collect_end env (gc_collect_start_common s)"

section \<open>Allocation\<close>

text \<open>The search for a run of free blocks: the four tests of a table byte, then byte after byte.  A
  hit is the last block of the run with the length of the run.\<close>

fun scan_byte :: "nat \<Rightarrow> u8 \<Rightarrow> nat \<Rightarrow> nat list \<Rightarrow> nat \<Rightarrow> (nat \<times> nat) + nat" where
  "scan_byte n_blocks a i [] n_free = Inr n_free"
| "scan_byte n_blocks a i (j # js) n_free =
     (if ATB_IS_FREE j a then
        (if n_free + 1 \<ge> n_blocks then Inl (i * 4 + j, n_free + 1) else scan_byte n_blocks a i js (n_free + 1))
      else scan_byte n_blocks a i js 0)"

fun scan_table :: "bytes \<Rightarrow> nat \<Rightarrow> nat \<Rightarrow> nat \<Rightarrow> nat \<Rightarrow> (nat \<times> nat) option" where
  "scan_table t n_blocks i 0 n_free = None"
| "scan_table t n_blocks i (Suc k) n_free =
     (case scan_byte n_blocks (t ! i) i [0, 1, 2, 3] n_free of
        Inl r \<Rightarrow> Some r
      | Inr n_free' \<Rightarrow> scan_table t n_blocks (i + 1) k n_free')"

definition find_run :: "gc \<Rightarrow> nat \<Rightarrow> (nat \<times> nat) option" where
  "find_run s n_blocks =
     scan_table (gc_alloc_table s) n_blocks (gc_last_free_atb_index s)
       (gc_alloc_table_byte_len s - gc_last_free_atb_index s) 0"

text \<open>From the label \<open>found\<close> on: the run is marked head and tails, cleared, and entered in the
  finaliser table.\<close>

definition take_run :: "gc \<Rightarrow> nat \<Rightarrow> nat \<Rightarrow> nat \<Rightarrow> bool \<Rightarrow> u32 \<times> gc" where
  "take_run s end_block n_free n_blocks has_finaliser =
     (let start_block = end_block + 1 - n_free;
          s1 = s\<lparr>gc_last_free_atb_index := (if n_free = 1 then (end_block + 1) div 4 else gc_last_free_atb_index s),
                 gc_last_used_block := max (gc_last_used_block s) end_block,
                 gc_alloc_table :=
                   foldl ATB_FREE_TO_TAIL (ATB_FREE_TO_HEAD (gc_alloc_table s) start_block) [start_block + 1 ..< end_block + 1],
                 gc_alloc_amount := gc_alloc_amount s + of_nat n_blocks\<rparr>;
          ret_ptr = PTR_FROM_BLOCK s start_block;
          s2 = s1\<lparr>gc_mem := mem_zero (gc_mem s1) ret_ptr ((end_block + 1 - start_block) * 16)\<rparr>;
          s3 = (if has_finaliser
                then s2\<lparr>gc_mem := mem_zero (gc_mem s2) ret_ptr 4,
                        gc_finaliser_table := FTB_SET (gc_finaliser_table s2) start_block\<rparr>
                else s2)
      in (ret_ptr, s3))"

definition blocks_needed :: "u32 \<Rightarrow> nat" where
  "blocks_needed n_bytes = unat (((n_bytes + BYTES_PER_BLOCK - 1) AND NOT (BYTES_PER_BLOCK - 1)) div BYTES_PER_BLOCK)"

definition gc_alloc :: "gc_env \<Rightarrow> gc \<Rightarrow> u32 \<Rightarrow> bool \<Rightarrow> u32 \<times> gc" where
  "gc_alloc env s n_bytes has_finaliser =
     (let n_blocks = blocks_needed n_bytes in
      if n_blocks = 0 then (0, s)
      else if gc_lock_depth s > 0 then (0, s)
      else
        let collected0 = (\<not> gc_auto_collect_enabled s);
            over = (\<not> collected0 \<and> gc_alloc_amount s \<ge> gc_alloc_threshold s);
            s0 = (if over then gc_collect env s else s);
            collected = (collected0 \<or> over)
        in case find_run s0 n_blocks of
             Some (i, n_free) \<Rightarrow> take_run s0 i n_free n_blocks has_finaliser
           | None \<Rightarrow>
               (if collected then (0, s0)
                else
                  let s1 = gc_collect env s0
                  in case find_run s1 n_blocks of
                       Some (i, n_free) \<Rightarrow> take_run s1 i n_free n_blocks has_finaliser
                     | None \<Rightarrow> (0, s1)))"

section \<open>Freeing and resizing\<close>

function free_loop :: "gc \<Rightarrow> nat \<Rightarrow> gc" where
  "free_loop s block =
     (let s1 = s\<lparr>gc_alloc_table := ATB_ANY_TO_FREE (gc_alloc_table s) block\<rparr>
      in if (block + 1) div 4 < length (gc_alloc_table s) \<and> gc_kind s1 (block + 1) = AT_TAIL
         then free_loop s1 (block + 1) else s1)"
  by pat_completeness auto
termination
  by (relation "measure (\<lambda>(s, b). 4 * length (gc_alloc_table s) - b)") (simp, simp, linarith)

declare free_loop.simps [simp del]

definition gc_free :: "gc \<Rightarrow> u32 \<Rightarrow> gc" where
  "gc_free s ptr =
     (if gc_lock_depth s AND NOT GC_COLLECT_FLAG \<noteq> 0 then s
      else if ptr = 0 then s
      else
        let block = BLOCK_FROM_PTR s ptr;
            s1 = s\<lparr>gc_finaliser_table := FTB_CLEAR (gc_finaliser_table s) block,
                   gc_last_free_atb_index :=
                     (if block div 4 < gc_last_free_atb_index s then block div 4 else gc_last_free_atb_index s)\<rparr>
        in free_loop s1 block)"

definition gc_nbytes :: "gc \<Rightarrow> u32 \<Rightarrow> nat" where
  "gc_nbytes s ptr =
     (if VERIFY_PTR s ptr then
        let block = BLOCK_FROM_PTR s ptr
        in if gc_kind s block = AT_HEAD then chain_length s block * 16 else 0
      else 0)"

text \<open>The loop of \<open>gc_realloc\<close> that counts the blocks of the chain and the free ones behind it.\<close>

function realloc_count :: "gc \<Rightarrow> nat \<Rightarrow> nat \<Rightarrow> nat \<Rightarrow> nat \<Rightarrow> nat \<times> nat" where
  "realloc_count s new_blocks bl n_blocks n_free =
     (if bl < gc_num_blocks s then
        (if gc_kind s bl = AT_TAIL then realloc_count s new_blocks (bl + 1) (n_blocks + 1) n_free
         else if gc_kind s bl = AT_FREE then
           (if n_blocks + (n_free + 1) \<ge> new_blocks then (n_blocks, n_free + 1)
            else realloc_count s new_blocks (bl + 1) n_blocks (n_free + 1))
         else (n_blocks, n_free))
      else (n_blocks, n_free))"
  by pat_completeness auto
termination
  by (relation "measure (\<lambda>(s, _, bl, _, _). gc_num_blocks s - bl)") auto

declare realloc_count.simps [simp del]

definition gc_realloc :: "gc_env \<Rightarrow> gc \<Rightarrow> u32 \<Rightarrow> u32 \<Rightarrow> bool \<Rightarrow> u32 \<times> gc" where
  "gc_realloc env s ptr_in n_bytes allow_move =
     (if ptr_in = 0 then gc_alloc env s n_bytes False
      else if n_bytes = 0 then (0, gc_free s ptr_in)
      else if gc_lock_depth s > 0 then (0, s)
      else
        let block = BLOCK_FROM_PTR s ptr_in;
            new_blocks = unat ((n_bytes + BYTES_PER_BLOCK - 1) div BYTES_PER_BLOCK);
            (n_blocks, n_free) = realloc_count s new_blocks (block + 1) 1 0
        in if new_blocks = n_blocks then (ptr_in, s)
           else if new_blocks < n_blocks then
             (ptr_in, s\<lparr>gc_alloc_table := foldl ATB_ANY_TO_FREE (gc_alloc_table s) [block + new_blocks ..< block + n_blocks],
                        gc_last_free_atb_index :=
                          (if (block + new_blocks) div 4 < gc_last_free_atb_index s then (block + new_blocks) div 4
                           else gc_last_free_atb_index s)\<rparr>)
           else if new_blocks \<le> n_blocks + n_free then
             (ptr_in, s\<lparr>gc_alloc_table := foldl ATB_FREE_TO_TAIL (gc_alloc_table s) [block + n_blocks ..< block + new_blocks],
                        gc_last_used_block := max (gc_last_used_block s) (block + new_blocks),
                        gc_mem := mem_zero (gc_mem s) (ptr_in + of_nat n_blocks * BYTES_PER_BLOCK) ((new_blocks - n_blocks) * 16)\<rparr>)
           else if \<not> allow_move then (0, s)
           else
             case gc_alloc env s n_bytes (FTB_GET (gc_finaliser_table s) block) of
               (ptr_out, s1) \<Rightarrow>
                 (if ptr_out = 0 then (0, s1)
                  else (ptr_out,
                    gc_free (s1\<lparr>gc_mem := mem_write (gc_mem s1) ptr_out (mem_read (gc_mem s1) ptr_in (n_blocks * 16))\<rparr>) ptr_in)))"

end
