(* ===== verification/GcMark.thy ===== *)
theory GcMark
  imports Gc
begin

text \<open>
  The mark phase is exact: after tracing the roots and dealing with stack overflow, the marked blocks
  are the heads that are reachable from the roots through pointers stored in live blocks, whatever
  the depth of the data and however often the 64-entry stack overflows.
\<close>

section \<open>Reachability\<close>

definition is_obj :: "gc \<Rightarrow> nat \<Rightarrow> bool" where
  "is_obj s b \<longleftrightarrow> gc_kind s b = AT_HEAD \<or> gc_kind s b = AT_MARK"

text \<open>A word refers to a block when it is a block address in the pool and a head is there.\<close>

definition refers :: "gc \<Rightarrow> u32 \<Rightarrow> nat \<Rightarrow> bool" where
  "refers s p b \<longleftrightarrow> VERIFY_PTR s p \<and> BLOCK_FROM_PTR s p = b \<and> is_obj s b"

definition children :: "gc \<Rightarrow> nat \<Rightarrow> nat set" where
  "children s b = {c. \<exists>p \<in> set (chain_words s b). refers s p c}"

inductive_set reach :: "gc \<Rightarrow> u32 set \<Rightarrow> nat set" for s :: gc and R :: "u32 set" where
  root: "p \<in> R \<Longrightarrow> refers s p b \<Longrightarrow> b \<in> reach s R"
| child: "b \<in> reach s R \<Longrightarrow> c \<in> children s b \<Longrightarrow> c \<in> reach s R"

definition marked :: "gc \<Rightarrow> nat set" where
  "marked s = {b. gc_kind s b = AT_MARK}"

text \<open>What marking leaves alone.\<close>

definition marks_only :: "gc \<Rightarrow> gc \<Rightarrow> bool" where
  "marks_only s s' \<longleftrightarrow>
     (\<exists>t f. s' = s\<lparr>gc_alloc_table := t, gc_stack_overflow := f\<rparr> \<and> length t = length (gc_alloc_table s)) \<and>
     (\<forall>b. gc_kind s' b = gc_kind s b \<or> gc_kind s b = AT_HEAD \<and> gc_kind s' b = AT_MARK)"

named_theorems mark_frame

lemma marks_only_refl [intro, simp]: "marks_only s s"
  unfolding marks_only_def by (rule conjI, rule exI [of _ "gc_alloc_table s"], rule exI [of _ "gc_stack_overflow s"]) auto

lemma marks_only_fields:
  assumes "marks_only s s'"
  shows "gc_mem s' = gc_mem s" "gc_pool_start s' = gc_pool_start s" "gc_pool_end s' = gc_pool_end s"
    "gc_alloc_table_byte_len s' = gc_alloc_table_byte_len s" "length (gc_alloc_table s') = length (gc_alloc_table s)"
  using assms by (auto simp: marks_only_def)

lemma marks_only_trans:
  assumes "marks_only s s'" "marks_only s' s''"
  shows "marks_only s s''"
proof -
  from assms(1) obtain t f where 1: "s' = s\<lparr>gc_alloc_table := t, gc_stack_overflow := f\<rparr>" "length t = length (gc_alloc_table s)"
    by (auto simp: marks_only_def)
  from assms(2) obtain t' f' where 2: "s'' = s'\<lparr>gc_alloc_table := t', gc_stack_overflow := f'\<rparr>" "length t' = length (gc_alloc_table s')"
    by (auto simp: marks_only_def)
  have "s'' = s\<lparr>gc_alloc_table := t', gc_stack_overflow := f'\<rparr>" using 1 2 by simp
  moreover have "length t' = length (gc_alloc_table s)" using 1 2 by simp
  moreover have "\<forall>b. gc_kind s'' b = gc_kind s b \<or> gc_kind s b = AT_HEAD \<and> gc_kind s'' b = AT_MARK"
    using assms unfolding marks_only_def by metis
  ultimately show ?thesis unfolding marks_only_def by blast
qed

lemma marks_only_flag: "marks_only s (s\<lparr>gc_stack_overflow := f\<rparr>)"
  unfolding marks_only_def by (rule conjI, rule exI [of _ "gc_alloc_table s"], rule exI [of _ f]) auto

lemma marks_only_mark:
  assumes "gc_kind s b = AT_HEAD"
  shows "marks_only s (s\<lparr>gc_alloc_table := ATB_HEAD_TO_MARK (gc_alloc_table s) b\<rparr>)"
  unfolding marks_only_def
  by (rule conjI, rule exI [of _ "ATB_HEAD_TO_MARK (gc_alloc_table s) b"], rule exI [of _ "gc_stack_overflow s"])
    (use assms in \<open>auto simp: gc_kind_head_to_mark [OF assms]\<close>)

lemma marks_only_kind:
  "marks_only s s' \<Longrightarrow> gc_kind s' b = gc_kind s b \<or> gc_kind s b = AT_HEAD \<and> gc_kind s' b = AT_MARK"
  by (simp add: marks_only_def)

lemma is_obj_frame [mark_frame]: "marks_only s s' \<Longrightarrow> is_obj s' b = is_obj s b"
  using marks_only_kind [of s s' b] by (auto simp: is_obj_def)

lemma tail_frame: "marks_only s s' \<Longrightarrow> gc_kind s' b = AT_TAIL \<longleftrightarrow> gc_kind s b = AT_TAIL"
  using marks_only_kind [of s s' b] by auto

lemma verify_frame [mark_frame]: "marks_only s s' \<Longrightarrow> VERIFY_PTR s' p = VERIFY_PTR s p"
  by (simp add: VERIFY_PTR_def marks_only_fields)

lemma block_frame [mark_frame]: "marks_only s s' \<Longrightarrow> BLOCK_FROM_PTR s' p = BLOCK_FROM_PTR s p"
  by (simp add: BLOCK_FROM_PTR_def marks_only_fields)

lemma refers_frame [mark_frame]: "marks_only s s' \<Longrightarrow> refers s' p b = refers s p b"
  by (simp add: refers_def mark_frame)

lemma count_tails_frame: "marks_only s s' \<Longrightarrow> count_tails s' b = count_tails s b"
proof (induction s b rule: count_tails.induct)
  case (1 s b)
  then show ?case
    by (subst count_tails.simps, subst (2) count_tails.simps) (simp add: tail_frame marks_only_fields)
qed

lemma chain_words_frame [mark_frame]: "marks_only s s' \<Longrightarrow> chain_words s' b = chain_words s b"
  by (simp add: chain_words_def chain_length_def count_tails_frame PTR_FROM_BLOCK_def marks_only_fields)

lemma children_frame [mark_frame]: "marks_only s s' \<Longrightarrow> children s' b = children s b"
  by (simp add: children_def mark_frame)

lemma marked_mono: "marks_only s s' \<Longrightarrow> marked s \<subseteq> marked s'"
proof
  fix b assume "marks_only s s'" "b \<in> marked s"
  then show "b \<in> marked s'" using marks_only_kind [of s s' b] by (auto simp: marked_def)
qed

section \<open>One block\<close>

definition pushed :: "gc \<times> nat list \<Rightarrow> gc \<times> nat list \<Rightarrow> u32 set \<Rightarrow> bool" where
  "pushed x x' P \<longleftrightarrow>
     marks_only (fst x) (fst x') \<and>
     (\<forall>p \<in> P. \<forall>b. refers (fst x) p b \<longrightarrow> b \<in> marked (fst x')) \<and>
     (\<forall>b \<in> marked (fst x') - marked (fst x). (\<exists>p \<in> P. refers (fst x) p b) \<and> (b \<in> set (snd x') \<or> gc_stack_overflow (fst x'))) \<and>
     set (snd x) \<subseteq> set (snd x') \<and> set (snd x') \<subseteq> set (snd x) \<union> marked (fst x') \<and>
     (gc_stack_overflow (fst x) \<longrightarrow> gc_stack_overflow (fst x'))"

lemma mark_word_pushed: "pushed (s, st) (mark_word (s, st) p) {p}"
proof (cases "VERIFY_PTR s p \<and> gc_kind s (BLOCK_FROM_PTR s p) = AT_HEAD")
  case True
  let ?b = "BLOCK_FROM_PTR s p"
  let ?s = "s\<lparr>gc_alloc_table := ATB_HEAD_TO_MARK (gc_alloc_table s) ?b\<rparr>"
  have k: "gc_kind s ?b = AT_HEAD" using True by simp
  have m: "marked ?s = insert ?b (marked s)"
    by (auto simp: marked_def gc_kind_head_to_mark [OF k] split: if_splits)
  have mo: "marks_only s ?s" by (rule marks_only_mark [OF k])
  have mo': "marks_only s (?s\<lparr>gc_stack_overflow := True\<rparr>)" by (rule marks_only_trans [OF mo marks_only_flag])
  have m': "marked (?s\<lparr>gc_stack_overflow := True\<rparr>) = marked ?s" by (simp add: marked_def)
  have r: "refers s p c \<longleftrightarrow> c = ?b" for c using True by (auto simp: refers_def is_obj_def)
  show ?thesis
  proof (cases "length st < MICROPY_ALLOC_GC_STACK_SIZE")
    case True
    then have "mark_word (s, st) p = (?s, ?b # st)" using \<open>VERIFY_PTR s p \<and> _\<close> by (simp add: Let_def)
    then show ?thesis unfolding pushed_def using mo by (simp add: r m) blast
  next
    case False
    then have "mark_word (s, st) p = (?s\<lparr>gc_stack_overflow := True\<rparr>, st)" using \<open>VERIFY_PTR s p \<and> _\<close> by (simp add: Let_def)
    then show ?thesis unfolding pushed_def using mo' by (simp add: r m m') blast
  qed
next
  case False
  then have "mark_word (s, st) p = (s, st)" by (auto simp: Let_def)
  moreover have "refers s p b \<Longrightarrow> b \<in> marked s" for b using False by (auto simp: refers_def is_obj_def marked_def)
  ultimately show ?thesis by (auto simp: pushed_def)
qed

lemma pushed_trans:
  assumes "pushed x y P" "pushed y z Q"
  shows "pushed x z (P \<union> Q)"
proof -
  have m: "marks_only (fst x) (fst y)" "marks_only (fst y) (fst z)" using assms by (simp_all add: pushed_def)
  note mono = marked_mono [OF m(2)]
  have r: "refers (fst y) p b = refers (fst x) p b" for p b by (rule refers_frame [OF m(1)])
  show ?thesis
    unfolding pushed_def
  proof (intro conjI)
    show "marks_only (fst x) (fst z)" by (rule marks_only_trans [OF m])
    show "\<forall>p \<in> P \<union> Q. \<forall>b. refers (fst x) p b \<longrightarrow> b \<in> marked (fst z)"
      using assms mono r unfolding pushed_def by blast
    show "\<forall>b \<in> marked (fst z) - marked (fst x). (\<exists>p \<in> P \<union> Q. refers (fst x) p b) \<and> (b \<in> set (snd z) \<or> gc_stack_overflow (fst z))"
    proof
      fix b assume b: "b \<in> marked (fst z) - marked (fst x)"
      show "(\<exists>p \<in> P \<union> Q. refers (fst x) p b) \<and> (b \<in> set (snd z) \<or> gc_stack_overflow (fst z))"
      proof (cases "b \<in> marked (fst y)")
        case True
        then show ?thesis using assms b unfolding pushed_def by blast
      next
        case False
        then show ?thesis using assms(2) b r unfolding pushed_def by blast
      qed
    qed
    show "set (snd x) \<subseteq> set (snd z)" "gc_stack_overflow (fst x) \<longrightarrow> gc_stack_overflow (fst z)"
      using assms unfolding pushed_def by blast+
    show "set (snd z) \<subseteq> set (snd x) \<union> marked (fst z)"
      using assms mono unfolding pushed_def by blast
  qed
qed

lemma mark_words_pushed: "pushed x (foldl mark_word x ps) (set ps)"
proof (induction ps arbitrary: x)
  case Nil
  then show ?case by (auto simp: pushed_def)
next
  case (Cons p ps)
  obtain s st where x: "x = (s, st)" by (cases x)
  have "pushed x (foldl mark_word (mark_word x p) ps) ({p} \<union> set ps)"
    using pushed_trans [OF mark_word_pushed [of s st p] Cons.IH [of "mark_word (s, st) p"]] unfolding x .
  then show ?case by simp
qed

section \<open>A subtree\<close>

text \<open>\<open>traced s s' B\<close>: marking went from \<open>s\<close> to \<open>s'\<close>, and unless the stack overflowed, the blocks \<open>B\<close>
  and all newly marked ones have their children marked.\<close>

definition traced :: "gc \<Rightarrow> gc \<Rightarrow> nat set \<Rightarrow> bool" where
  "traced s s' B \<longleftrightarrow>
     marks_only s s' \<and> (gc_stack_overflow s \<longrightarrow> gc_stack_overflow s') \<and>
     (gc_stack_overflow s' \<or> (\<forall>b \<in> B \<union> (marked s' - marked s). children s b \<subseteq> marked s'))"

text \<open>A set that contains what is to be traced and is closed under children bounds the marks.\<close>

definition closed_in :: "gc \<Rightarrow> nat set \<Rightarrow> bool" where
  "closed_in s X \<longleftrightarrow> (\<forall>b \<in> X. children s b \<subseteq> X)"

lemma mark_loop_traced:
  "traced s (mark_loop s st block) (insert block (set st)) \<and>
   (\<forall>X. closed_in s X \<longrightarrow> marked s \<subseteq> X \<longrightarrow> insert block (set st) \<subseteq> X \<longrightarrow> marked (mark_loop s st block) \<subseteq> X)"
proof (induction s st block rule: mark_loop.induct)
  case (1 s st block)
  obtain s1 st1 where f: "foldl mark_word (s, st) (chain_words s block) = (s1, st1)" by fastforce
  have p: "pushed (s, st) (s1, st1) (set (chain_words s block))"
    using mark_words_pushed [of "(s, st)" "chain_words s block"] f by simp
  have mo: "marks_only s s1" and ovf: "gc_stack_overflow s \<longrightarrow> gc_stack_overflow s1"
    and chd: "children s block \<subseteq> marked s1" and st: "set st \<subseteq> set st1" "set st1 \<subseteq> set st \<union> marked s1"
    and new: "\<forall>b \<in> marked s1 - marked s. b \<in> children s block \<and> (b \<in> set st1 \<or> gc_stack_overflow s1)"
    using p by (auto simp: pushed_def children_def)
  have bnd: "marked s1 \<subseteq> X" if "closed_in s X" "marked s \<subseteq> X" "insert block (set st) \<subseteq> X" for X
    using that new by (auto simp: closed_in_def)
  show ?case
  proof (cases st1)
    case Nil
    then have e: "mark_loop s st block = s1" using f by (simp add: mark_loop.simps [of s st block])
    show ?thesis unfolding e traced_def using mo ovf chd st new Nil bnd by auto
  next
    case (Cons b st2)
    have e: "mark_loop s st block = mark_loop s1 st2 b" using f Cons by (simp add: mark_loop.simps [of s st block])
    let ?s = "mark_loop s1 st2 b"
    note IH = "1.IH" [OF f [symmetric] Cons]
    have t: "traced s1 ?s (set st1)" using IH Cons by simp
    have mo2: "marks_only s1 ?s" using t by (simp add: traced_def)
    note mono = marked_mono [OF mo2]
    have ch1: "children s1 c = children s c" for c by (rule children_frame [OF mo])
    have "traced s ?s (insert block (set st))"
      unfolding traced_def
    proof (intro conjI)
      show "marks_only s ?s" by (rule marks_only_trans [OF mo mo2])
      show "gc_stack_overflow s \<longrightarrow> gc_stack_overflow ?s" using ovf t by (simp add: traced_def)
      show "gc_stack_overflow ?s \<or> (\<forall>c \<in> insert block (set st) \<union> (marked ?s - marked s). children s c \<subseteq> marked ?s)"
      proof (rule disjCI)
        assume "\<not> (\<forall>c \<in> insert block (set st) \<union> (marked ?s - marked s). children s c \<subseteq> marked ?s)"
        then obtain c where c: "c \<in> insert block (set st) \<union> (marked ?s - marked s)" "\<not> children s c \<subseteq> marked ?s" by blast
        show "gc_stack_overflow ?s"
        proof (rule ccontr)
          assume no: "\<not> gc_stack_overflow ?s"
          then have no1: "\<not> gc_stack_overflow s1" using t by (auto simp: traced_def)
          have cl: "\<forall>c \<in> set st1 \<union> (marked ?s - marked s1). children s c \<subseteq> marked ?s"
            using t no ch1 by (auto simp: traced_def)
          have "c \<in> insert block (set st1) \<union> (marked ?s - marked s1)" using c(1) st new no1 by auto
          then show False using c(2) cl chd mono by auto
        qed
      qed
    qed
    moreover have "marked ?s \<subseteq> X" if X: "closed_in s X" "marked s \<subseteq> X" "insert block (set st) \<subseteq> X" for X
    proof -
      have "closed_in s1 X" using X(1) ch1 by (simp add: closed_in_def)
      moreover have "set st1 \<subseteq> X" using st(2) bnd [OF X] X(3) by blast
      ultimately show ?thesis using IH bnd [OF X] Cons by simp
    qed
    ultimately show ?thesis unfolding e by blast
  qed
qed

section \<open>Roots and the overflow passes\<close>

lemma traced_trans:
  assumes "traced s s1 B" "traced s1 s2 C"
  shows "traced s s2 (B \<union> C)"
proof -
  have m: "marks_only s s1" "marks_only s1 s2" using assms by (simp_all add: traced_def)
  have ch: "children s1 c = children s c" for c by (rule children_frame [OF m(1)])
  have "(\<forall>b \<in> B \<union> C \<union> (marked s2 - marked s). children s b \<subseteq> marked s2)" if "\<not> gc_stack_overflow s2"
  proof
    fix b assume b: "b \<in> B \<union> C \<union> (marked s2 - marked s)"
    have "\<not> gc_stack_overflow s1" using that assms(2) by (auto simp: traced_def)
    then have 1: "\<forall>b \<in> B \<union> (marked s1 - marked s). children s b \<subseteq> marked s1" using assms(1) by (auto simp: traced_def)
    have 2: "\<forall>b \<in> C \<union> (marked s2 - marked s1). children s b \<subseteq> marked s2" using assms(2) that ch by (auto simp: traced_def)
    show "children s b \<subseteq> marked s2" using b 1 2 marked_mono [OF m(2)] by blast
  qed
  then show ?thesis
    unfolding traced_def using assms marks_only_trans [OF m] by (auto simp: traced_def)
qed

text \<open>One root: it is marked, traced, and bounded by any closed set that contains it.\<close>

definition root_step :: "gc \<Rightarrow> u32 \<Rightarrow> gc" where
  "root_step s ptr =
     (if \<not> VERIFY_PTR s ptr then s
      else let b = BLOCK_FROM_PTR s ptr
           in if gc_kind s b = AT_HEAD
              then gc_mark_subtree (s\<lparr>gc_alloc_table := ATB_HEAD_TO_MARK (gc_alloc_table s) b\<rparr>) b
              else s)"

lemma gc_collect_root_steps: "gc_collect_root s ptrs = foldl root_step s ptrs"
  unfolding gc_collect_root_def root_step_def [abs_def] ..

definition bounded :: "gc \<Rightarrow> gc \<Rightarrow> u32 set \<Rightarrow> bool" where
  "bounded s s' R \<longleftrightarrow>
     (\<forall>X. closed_in s X \<longrightarrow> marked s \<subseteq> X \<longrightarrow> (\<forall>p \<in> R. \<forall>b. refers s p b \<longrightarrow> b \<in> X) \<longrightarrow> marked s' \<subseteq> X)"

definition roots_in :: "gc \<Rightarrow> gc \<Rightarrow> u32 set \<Rightarrow> bool" where
  "roots_in s s' R \<longleftrightarrow> (\<forall>p \<in> R. \<forall>b. refers s p b \<longrightarrow> b \<in> marked s')"

lemma root_step_ok: "traced s (root_step s p) {} \<and> bounded s (root_step s p) {p} \<and> roots_in s (root_step s p) {p}"
proof (cases "VERIFY_PTR s p \<and> gc_kind s (BLOCK_FROM_PTR s p) = AT_HEAD")
  case True
  let ?b = "BLOCK_FROM_PTR s p"
  let ?s = "s\<lparr>gc_alloc_table := ATB_HEAD_TO_MARK (gc_alloc_table s) ?b\<rparr>"
  let ?r = "mark_loop ?s [] ?b"
  have k: "gc_kind s ?b = AT_HEAD" using True by simp
  have m: "marked ?s = insert ?b (marked s)"
    by (auto simp: marked_def gc_kind_head_to_mark [OF k] split: if_splits)
  have mo: "marks_only s ?s" by (rule marks_only_mark [OF k])
  have e: "root_step s p = ?r" using True by (simp add: root_step_def Let_def gc_mark_subtree_def)
  have l: "traced ?s ?r {?b}" "\<forall>X. closed_in ?s X \<longrightarrow> marked ?s \<subseteq> X \<longrightarrow> {?b} \<subseteq> X \<longrightarrow> marked ?r \<subseteq> X"
    using mark_loop_traced [of ?s "[]" ?b] by simp_all
  have ch: "children ?s c = children s c" for c by (rule children_frame [OF mo])
  have mo2: "marks_only ?s ?r" using l(1) by (simp add: traced_def)
  have r: "refers s p c \<longleftrightarrow> c = ?b" for c using True by (auto simp: refers_def is_obj_def)
  have "marked ?r - marked s = (if ?b \<in> marked s then {} else {?b}) \<union> (marked ?r - marked ?s)"
    using m marked_mono [OF mo2] by auto
  then have "traced s ?r {}"
    using l(1) ch marks_only_trans [OF mo mo2] by (auto simp: traced_def split: if_splits)
  moreover have "bounded s ?r {p}" using l(2) ch m r by (auto simp: bounded_def closed_in_def)
  moreover have "roots_in s ?r {p}" using r m marked_mono [OF mo2] by (auto simp: roots_in_def)
  ultimately show ?thesis unfolding e by simp
next
  case False
  then have "root_step s p = s" by (auto simp: root_step_def Let_def)
  moreover have "refers s p b \<Longrightarrow> b \<in> marked s" for b using False by (auto simp: refers_def is_obj_def marked_def)
  ultimately show ?thesis by (auto simp: traced_def bounded_def roots_in_def)
qed

lemma root_steps_ok:
  "traced s (foldl root_step s ps) {} \<and> bounded s (foldl root_step s ps) (set ps) \<and> roots_in s (foldl root_step s ps) (set ps)"
proof (induction ps arbitrary: s)
  case Nil
  then show ?case by (auto simp: traced_def bounded_def roots_in_def)
next
  case (Cons p ps)
  let ?s = "root_step s p" and ?r = "foldl root_step (root_step s p) ps"
  note 1 = root_step_ok [of s p] and 2 = Cons.IH [of ?s]
  have mo: "marks_only s ?s" "marks_only ?s ?r" using 1 2 by (simp_all add: traced_def)
  have fr: "refers ?s q b = refers s q b" "children ?s c = children s c" for q b c
    by (rule refers_frame [OF mo(1)], rule children_frame [OF mo(1)])
  have "traced s ?r ({} \<union> {})" using 1 2 by (blast intro: traced_trans)
  moreover have "bounded s ?r (set (p # ps))"
    using 1 2 fr unfolding bounded_def closed_in_def by simp
  moreover have "roots_in s ?r (set (p # ps))"
    using 1 2 fr marked_mono [OF mo(2)] by (auto simp: roots_in_def)
  ultimately show ?case by simp
qed

lemma sections_flat: "foldl gc_collect_root s ss = foldl root_step s (concat ss)"
  by (induction ss arbitrary: s) (simp_all add: gc_collect_root_steps)

text \<open>A pass over the table, up to block \<open>n\<close>.\<close>

definition pass_step :: "gc \<Rightarrow> nat \<Rightarrow> gc" where
  "pass_step s b = (if gc_kind s b = AT_MARK then gc_mark_subtree s b else s)"

lemma pass_steps_ok:
  "traced s (foldl pass_step s [0 ..< n]) {b. b < n \<and> b \<in> marked s} \<and> bounded s (foldl pass_step s [0 ..< n]) {} \<and>
   (gc_stack_overflow (foldl pass_step s [0 ..< n]) \<or>
    (\<forall>b < n. b \<in> marked (foldl pass_step s [0 ..< n]) \<longrightarrow> children s b \<subseteq> marked (foldl pass_step s [0 ..< n])))"
proof (induction n)
  case 0
  then show ?case by (auto simp: traced_def bounded_def)
next
  case (Suc n)
  let ?s = "foldl pass_step s [0 ..< n]"
  let ?r = "pass_step ?s n"
  have tr: "traced s ?s {b. b < n \<and> b \<in> marked s}" "bounded s ?s {}" using Suc.IH by auto
  have mo: "marks_only s ?s" using tr by (simp add: traced_def)
  have ch: "children ?s c = children s c" for c by (rule children_frame [OF mo])
  have l: "traced ?s ?r (if n \<in> marked ?s then {n} else {})"
      "\<forall>X. closed_in ?s X \<longrightarrow> marked ?s \<subseteq> X \<longrightarrow> marked ?r \<subseteq> X"
    using mark_loop_traced [of ?s "[]" n]
    by (auto simp: pass_step_def gc_mark_subtree_def traced_def marked_def)
  have mo2: "marks_only ?s ?r" using l(1) by (simp add: traced_def)
  note mono = marked_mono [OF mo2]
  have "traced s ?r ({b. b < n \<and> b \<in> marked s} \<union> (if n \<in> marked ?s then {n} else {}))"
    by (rule traced_trans [OF tr(1) l(1)])
  then have "traced s ?r {b. b < Suc n \<and> b \<in> marked s}"
    using marked_mono [OF mo] by (auto simp: traced_def less_Suc_eq split: if_splits)
  moreover have "bounded s ?r {}"
    using tr(2) l(2) ch by (auto simp: bounded_def closed_in_def)
  moreover have "gc_stack_overflow ?r \<or> (\<forall>b < Suc n. b \<in> marked ?r \<longrightarrow> children s b \<subseteq> marked ?r)"
  proof (rule disjCI)
    assume "\<not> (\<forall>b < Suc n. b \<in> marked ?r \<longrightarrow> children s b \<subseteq> marked ?r)"
    then obtain b where b: "b < Suc n" "b \<in> marked ?r" "\<not> children s b \<subseteq> marked ?r" by blast
    show "gc_stack_overflow ?r"
    proof (rule ccontr)
      assume no: "\<not> gc_stack_overflow ?r"
      then have no1: "\<not> gc_stack_overflow ?s" using l(1) by (auto simp: traced_def)
      have c1: "\<forall>c \<in> (if n \<in> marked ?s then {n} else {}) \<union> (marked ?r - marked ?s). children s c \<subseteq> marked ?r"
        using l(1) no ch by (auto simp: traced_def)
      have c2: "\<forall>b < n. b \<in> marked ?s \<longrightarrow> children s b \<subseteq> marked ?s" using Suc.IH no1 by blast
      show False
      proof (cases "b \<in> marked ?s")
        case True
        then show ?thesis using b c1 c2 mono by (cases "b = n") (auto simp: less_Suc_eq)
      next
        case False
        then show ?thesis using b c1 by blast
      qed
    qed
  qed
  ultimately show ?case by simp
qed

lemma overflow_pass_steps:
  "overflow_pass s = foldl pass_step (s\<lparr>gc_stack_overflow := False\<rparr>) [0 ..< gc_num_blocks s]"
  unfolding overflow_pass_def pass_step_def [abs_def] ..

text \<open>All marked blocks have their children marked.\<close>

definition all_traced :: "gc \<Rightarrow> bool" where
  "all_traced s \<longleftrightarrow> (\<forall>b \<in> marked s. children s b \<subseteq> marked s)"

lemma flag_frame:
  "marked (s\<lparr>gc_stack_overflow := f\<rparr>) = marked s" "children (s\<lparr>gc_stack_overflow := f\<rparr>) b = children s b"
  by (simp_all add: marked_def children_frame [OF marks_only_flag])

lemma overflow_pass_ok:
  assumes "\<forall>b \<in> marked s. b < gc_num_blocks s" "\<forall>b. is_obj s b \<longrightarrow> b < gc_num_blocks s"
  shows "marks_only s (overflow_pass s) \<and> bounded s (overflow_pass s) {} \<and>
     (gc_stack_overflow (overflow_pass s) \<or> all_traced (overflow_pass s))"
proof -
  let ?s = "s\<lparr>gc_stack_overflow := False\<rparr>" and ?r = "overflow_pass s"
  have ok: "traced ?s ?r {b. b < gc_num_blocks s \<and> b \<in> marked ?s}" "bounded ?s ?r {}"
    "gc_stack_overflow ?r \<or> (\<forall>b < gc_num_blocks s. b \<in> marked ?r \<longrightarrow> children ?s b \<subseteq> marked ?r)"
    using pass_steps_ok [of ?s "gc_num_blocks s"] unfolding overflow_pass_steps by auto
  have mo: "marks_only s ?r"
    using ok(1) marks_only_trans [OF marks_only_flag] by (auto simp: traced_def)
  have in_tab: "b \<in> marked ?r \<Longrightarrow> b < gc_num_blocks s" for b
    using is_obj_frame [OF mo, of b] assms(2) by (auto simp: marked_def is_obj_def)
  have "bounded s ?r {}" using ok(2) by (simp add: bounded_def closed_in_def flag_frame)
  moreover have "gc_stack_overflow ?r \<or> all_traced ?r"
    using ok(3) in_tab by (auto simp: all_traced_def children_frame [OF mo] flag_frame)
  ultimately show ?thesis using mo by blast
qed

lemma deal_with_overflow_ok:
  assumes "\<forall>b. is_obj s b \<longrightarrow> b < gc_num_blocks s" "gc_stack_overflow s \<or> all_traced s"
  shows "marks_only s (gc_deal_with_stack_overflow s) \<and> bounded s (gc_deal_with_stack_overflow s) {} \<and>
     all_traced (gc_deal_with_stack_overflow s)"
  using assms
proof (induction s rule: gc_deal_with_stack_overflow.induct)
  case (1 s)
  show ?case
  proof (cases "gc_stack_overflow s")
    case True
    let ?p = "overflow_pass s"
    have e: "gc_deal_with_stack_overflow s = gc_deal_with_stack_overflow ?p"
      using True by (subst gc_deal_with_stack_overflow.simps) simp
    have m: "\<forall>b \<in> marked s. b < gc_num_blocks s" using "1.prems"(1) by (auto simp: marked_def is_obj_def)
    note p = overflow_pass_ok [OF m "1.prems"(1)]
    then have mo: "marks_only s ?p" by simp
    have "\<forall>b. is_obj ?p b \<longrightarrow> b < gc_num_blocks ?p"
      using "1.prems"(1) by (simp add: is_obj_frame [OF mo] marks_only_fields [OF mo])
    from "1.IH" [OF True this] p have IH: "marks_only ?p (gc_deal_with_stack_overflow ?p)"
      "bounded ?p (gc_deal_with_stack_overflow ?p) {}" "all_traced (gc_deal_with_stack_overflow ?p)" by auto
    have "bounded s (gc_deal_with_stack_overflow ?p) {}"
      using p IH(2) by (auto simp: bounded_def closed_in_def children_frame [OF mo])
    then show ?thesis unfolding e using IH marks_only_trans [OF mo IH(1)] by blast
  next
    case False
    then have e: "gc_deal_with_stack_overflow s = s" by (subst gc_deal_with_stack_overflow.simps) simp
    show ?thesis unfolding e using "1.prems" False by (auto simp: bounded_def)
  qed
qed

section \<open>The mark phase\<close>

definition mark_phase :: "gc_env \<Rightarrow> gc \<Rightarrow> gc" where
  "mark_phase env s = gc_deal_with_stack_overflow (foldl gc_collect_root (gc_collect_start s) (root_sections env))"

lemma reach_closed: "closed_in s (reach s R)"
  by (auto simp: closed_in_def intro: reach.child)

lemma reach_frame:
  assumes "marks_only s s'"
  shows "reach s' R = reach s R"
proof -
  have *: "reach s1 R \<subseteq> reach s2 R" if f: "\<And>p b. refers s1 p b = refers s2 p b" "\<And>b. children s1 b = children s2 b" for s1 s2
  proof
    fix x assume "x \<in> reach s1 R"
    then show "x \<in> reach s2 R" by induction (use f in \<open>auto intro: reach.intros\<close>)
  qed
  show ?thesis using *[of s' s] *[of s s'] refers_frame [OF assms] children_frame [OF assms] by auto
qed

lemma start_frame:
  "gc_kind (gc_collect_start s) b = gc_kind s b" "marked (gc_collect_start s) = marked s"
  "is_obj (gc_collect_start s) b = is_obj s b" "VERIFY_PTR (gc_collect_start s) p = VERIFY_PTR s p"
  "BLOCK_FROM_PTR (gc_collect_start s) p = BLOCK_FROM_PTR s p" "refers (gc_collect_start s) p b = refers s p b"
  "gc_mem (gc_collect_start s) = gc_mem s" "gc_num_blocks (gc_collect_start s) = gc_num_blocks s"
  by (simp_all add: gc_collect_start_def gc_collect_start_common_def gc_kind_def marked_def is_obj_def VERIFY_PTR_def
      BLOCK_FROM_PTR_def refers_def)

lemma start_count_tails: "count_tails (gc_collect_start s) b = count_tails s b"
proof (induction s b rule: count_tails.induct)
  case (1 s b)
  have l: "length (gc_alloc_table (gc_collect_start s)) = length (gc_alloc_table s)"
    by (simp add: gc_collect_start_def gc_collect_start_common_def)
  from 1 show ?case by (subst count_tails.simps, subst (2) count_tails.simps) (simp add: start_frame l)
qed

lemma start_children: "children (gc_collect_start s) b = children s b"
proof -
  have "chain_words (gc_collect_start s) b = chain_words s b"
    unfolding chain_words_def chain_length_def start_count_tails
    by (simp add: PTR_FROM_BLOCK_def gc_collect_start_def gc_collect_start_common_def)
  then show ?thesis by (simp add: children_def start_frame)
qed

lemma start_reach: "reach (gc_collect_start s) R = reach s R"
proof -
  have "reach s1 R \<subseteq> reach s2 R" if f: "\<And>p b. refers s1 p b = refers s2 p b" "\<And>b. children s1 b = children s2 b" for s1 s2
  proof
    fix x assume "x \<in> reach s1 R"
    then show "x \<in> reach s2 R" by induction (use f in \<open>auto intro: reach.intros\<close>)
  qed
  from this [of "gc_collect_start s" s] this [of s "gc_collect_start s"] show ?thesis
    using start_frame(6) start_children by auto
qed

lemma mark_phase_exact:
  assumes "marked s = {}" "\<forall>b. is_obj s b \<longrightarrow> b < gc_num_blocks s"
  shows "marks_only (gc_collect_start s) (mark_phase env s) \<and>
     marked (mark_phase env s) = reach s (set (concat (root_sections env)))"
proof -
  let ?s = "gc_collect_start s" and ?R = "set (concat (root_sections env))"
  let ?r = "foldl root_step ?s (concat (root_sections env))"
  let ?d = "gc_deal_with_stack_overflow ?r"
  have e: "mark_phase env s = ?d" by (simp add: mark_phase_def sections_flat)
  have r: "traced ?s ?r {}" "bounded ?s ?r ?R" "roots_in ?s ?r ?R" using root_steps_ok by blast+
  have mo: "marks_only ?s ?r" using r(1) by (simp add: traced_def)
  have m0: "marked ?s = {}" using assms(1) by (simp add: start_frame)
  have in_tab: "\<forall>b. is_obj ?r b \<longrightarrow> b < gc_num_blocks ?r"
    using assms(2) by (simp add: is_obj_frame [OF mo] marks_only_fields [OF mo] start_frame)
  have "gc_stack_overflow ?r \<or> all_traced ?r"
    using r(1) m0 by (auto simp: traced_def all_traced_def children_frame [OF mo])
  note d = deal_with_overflow_ok [OF in_tab this]
  then have mo2: "marks_only ?r ?d" by simp
  have mo3: "marks_only ?s ?d" by (rule marks_only_trans [OF mo mo2])
  have "marked ?d \<subseteq> reach ?s ?R"
  proof -
    have "marked ?r \<subseteq> reach ?s ?R"
      using r(2) m0 reach_closed [of ?s ?R] unfolding bounded_def by (blast intro: reach.root)
    moreover have "closed_in ?r (reach ?s ?R)"
      using reach_closed [of ?s ?R] by (simp add: closed_in_def children_frame [OF mo])
    ultimately show ?thesis using d unfolding bounded_def by blast
  qed
  moreover have "reach ?s ?R \<subseteq> marked ?d"
  proof
    fix x assume "x \<in> reach ?s ?R"
    then show "x \<in> marked ?d"
    proof induction
      case (root p b)
      then show ?case using r(3) marked_mono [OF mo2] by (auto simp: roots_in_def)
    next
      case (child b c)
      then show ?case using d by (auto simp: all_traced_def children_frame [OF mo3])
    qed
  qed
  ultimately show ?thesis unfolding e using mo3 by (simp add: start_reach)
qed

end
