(* ===== verification/GcSweep.thy ===== *)
theory GcSweep
  imports GcMark
begin

text \<open>
  The sweep and the whole collection.  \<open>heap_shape\<close> is what holds of the tables at all times,
  \<open>gc_inv\<close> what holds between the calls of the collector.  A collection frees exactly the chains
  whose head is not reachable and keeps the others untouched.
\<close>

section \<open>Invariants\<close>

definition heap_shape :: "gc \<Rightarrow> bool" where
  "heap_shape s \<longleftrightarrow>
     length (gc_alloc_table s) = gc_alloc_table_byte_len s + 1 \<and>
     length (gc_finaliser_table s) = gc_ftb_len (gc_alloc_table_byte_len s) \<and>
     unat (gc_pool_end s) = unat (gc_pool_start s) + 64 * gc_alloc_table_byte_len s \<and>
     unat (gc_pool_start s) mod 16 = 0 \<and> gc_pool_start s \<noteq> 0 \<and>
     (\<forall>b \<ge> gc_num_blocks s. gc_kind s b = AT_FREE) \<and>
     (\<forall>b. gc_kind s b = AT_TAIL \<longrightarrow> b \<noteq> 0 \<and> gc_kind s (b - 1) \<noteq> AT_FREE) \<and>
     (\<forall>b. gc_kind s b \<noteq> AT_FREE \<longrightarrow> b \<le> gc_last_used_block s) \<and>
     gc_last_used_block s \<le> gc_num_blocks s"

definition gc_inv :: "gc \<Rightarrow> bool" where
  "gc_inv s \<longleftrightarrow> heap_shape s \<and> marked s = {} \<and> gc_lock_depth s AND GC_COLLECT_FLAG = 0 \<and>
     gc_last_free_atb_index s \<le> gc_alloc_table_byte_len s \<and>
     (\<forall>b < 4 * gc_last_free_atb_index s. gc_kind s b \<noteq> AT_FREE)"

lemma gc_kind_cases:
  obtains "gc_kind s b = AT_FREE" | "gc_kind s b = AT_HEAD" | "gc_kind s b = AT_TAIL" | "gc_kind s b = AT_MARK"
proof (cases "b div 4 < length (gc_alloc_table s)")
  case True
  then show ?thesis using that by (auto simp: gc_kind_def elim: kind_cases)
qed (use that in \<open>simp add: gc_kind_def\<close>)

lemma in_table: "heap_shape s \<Longrightarrow> b < 4 * gc_alloc_table_byte_len s + 4 \<Longrightarrow> b div 4 < length (gc_alloc_table s)"
  by (simp add: heap_shape_def)

lemma used_in_pool: "heap_shape s \<Longrightarrow> gc_kind s b \<noteq> AT_FREE \<Longrightarrow> b < gc_num_blocks s"
  by (meson heap_shape_def not_le)

section \<open>Sweeping\<close>

text \<open>\<open>free_tail\<close> before block \<open>b\<close>: the last head before it is unmarked.\<close>

primrec free_tail_at :: "gc \<Rightarrow> nat \<Rightarrow> bool" where
  "free_tail_at s 0 = False"
| "free_tail_at s (Suc b) =
     (if gc_kind s b = AT_HEAD then True else if gc_kind s b = AT_MARK then False else free_tail_at s b)"

definition swept_kind :: "gc \<Rightarrow> nat \<Rightarrow> u8" where
  "swept_kind s b =
     (if gc_kind s b = AT_HEAD then AT_FREE
      else if gc_kind s b = AT_TAIL \<and> free_tail_at s b then AT_FREE
      else if gc_kind s b = AT_MARK then AT_HEAD
      else gc_kind s b)"

lemma kind_set_table:
  "b div 4 < length (gc_alloc_table s) \<Longrightarrow> length t = length (gc_alloc_table s) \<Longrightarrow>
   gc_kind (s\<lparr>gc_alloc_table := t\<rparr>) b = ATB_GET_KIND t b"
  by (simp add: gc_kind_def)

lemma gc_kind_free:
  assumes "b div 4 < length (gc_alloc_table s)"
  shows "gc_kind (s\<lparr>gc_alloc_table := ATB_ANY_TO_FREE (gc_alloc_table s) b\<rparr>) b' = (if b' = b then AT_FREE else gc_kind s b')"
  using assms kind_any_to_free [OF assms, of b'] by (auto simp: gc_kind_def)

lemma gc_kind_mark_to_head:
  assumes "gc_kind s b = AT_MARK"
  shows "gc_kind (s\<lparr>gc_alloc_table := ATB_MARK_TO_HEAD (gc_alloc_table s) b\<rparr>) b' = (if b' = b then AT_HEAD else gc_kind s b')"
proof -
  have b: "b div 4 < length (gc_alloc_table s)" "ATB_GET_KIND (gc_alloc_table s) b = AT_MARK"
    using assms by (auto simp: gc_kind_def split: if_splits)
  show ?thesis using b kind_mark_to_head [OF b(1) _ b(2), of b'] by (auto simp: gc_kind_def)
qed

text \<open>The state after \<open>n\<close> blocks.\<close>

definition sweep_upto :: "gc \<Rightarrow> nat \<Rightarrow> gc \<times> bool \<times> nat \<Rightarrow> bool" where
  "sweep_upto s n r \<longleftrightarrow>
     (case r of (s', ft, lu) \<Rightarrow>
        (\<exists>t. s' = s\<lparr>gc_alloc_table := t\<rparr> \<and> length t = length (gc_alloc_table s)) \<and>
        (\<forall>b. gc_kind s' b = (if b < n then swept_kind s b else gc_kind s b)) \<and>
        ft = free_tail_at s n \<and>
        (\<forall>b < n. swept_kind s b \<noteq> AT_FREE \<longrightarrow> b \<le> lu) \<and> (lu = 0 \<or> lu < n))"

lemma sweep_step:
  assumes "sweep_upto s n r" "n div 4 < length (gc_alloc_table s)"
  shows "sweep_upto s (Suc n) (sweep_block r n)"
proof -
  obtain s' ft lu where r: "r = (s', ft, lu)" by (cases r)
  from assms(1) r obtain t where t: "s' = s\<lparr>gc_alloc_table := t\<rparr>" "length t = length (gc_alloc_table s)"
    and k: "\<And>b. gc_kind s' b = (if b < n then swept_kind s b else gc_kind s b)"
    and ft: "ft = free_tail_at s n" and lu: "\<forall>b < n. swept_kind s b \<noteq> AT_FREE \<longrightarrow> b \<le> lu" "lu = 0 \<or> lu < n"
    by (auto simp: sweep_upto_def)
  have kn: "gc_kind s' n = gc_kind s n" by (simp add: k)
  have n': "n div 4 < length (gc_alloc_table s')" using assms(2) t by simp
  have tab: "\<exists>t'. s'\<lparr>gc_alloc_table := f (gc_alloc_table s') n\<rparr> = s\<lparr>gc_alloc_table := t'\<rparr> \<and> length t' = length (gc_alloc_table s)"
    if "\<And>t b. length (f t b) = length t" for f :: "bytes \<Rightarrow> nat \<Rightarrow> bytes"
    using t that by (intro exI [of _ "f t n"]) simp
  show ?thesis
  proof (cases rule: gc_kind_cases [of s n])
    case 1
    then have sk: "swept_kind s n = AT_FREE" by (simp add: swept_kind_def)
    have "sweep_block r n = r" using 1 kn r by simp
    then show ?thesis using t k ft lu 1 sk r by (auto simp: sweep_upto_def less_Suc_eq)
  next
    case 2
    then have sk: "swept_kind s n = AT_FREE" by (simp add: swept_kind_def)
    have "sweep_block r n = (s'\<lparr>gc_alloc_table := ATB_ANY_TO_FREE (gc_alloc_table s') n\<rparr>, True, lu)" using 2 kn r by simp
    then show ?thesis
      using tab [of ATB_ANY_TO_FREE] gc_kind_free [OF n'] k lu 2 sk by (auto simp: sweep_upto_def less_Suc_eq)
  next
    case 3
    show ?thesis
    proof (cases ft)
      case True
      then have sk: "swept_kind s n = AT_FREE" using 3 ft by (simp add: swept_kind_def)
      have "sweep_block r n = (s'\<lparr>gc_alloc_table := ATB_ANY_TO_FREE (gc_alloc_table s') n\<rparr>, ft, lu)" using 3 kn r True by simp
      then show ?thesis
        using tab [of ATB_ANY_TO_FREE] gc_kind_free [OF n'] k lu 3 sk ft by (auto simp: sweep_upto_def less_Suc_eq)
    next
      case False
      then have sk: "swept_kind s n = AT_TAIL" using 3 ft by (simp add: swept_kind_def)
      have "sweep_block r n = (s', ft, n)" using 3 kn r False by simp
      then show ?thesis using t k lu 3 sk ft by (auto simp: sweep_upto_def less_Suc_eq)
    qed
  next
    case 4
    then have sk: "swept_kind s n = AT_HEAD" by (simp add: swept_kind_def)
    have "sweep_block r n = (s'\<lparr>gc_alloc_table := ATB_MARK_TO_HEAD (gc_alloc_table s') n\<rparr>, False, n)" using 4 kn r by simp
    moreover have "gc_kind s' n = AT_MARK" using 4 kn by simp
    ultimately show ?thesis
      using tab [of ATB_MARK_TO_HEAD] gc_kind_mark_to_head [of s' n] k lu 4 sk by (auto simp: sweep_upto_def less_Suc_eq)
  qed
qed

lemma sweep_steps:
  assumes "n \<le> 4 * length (gc_alloc_table s)"
  shows "sweep_upto s n (foldl sweep_block (s, False, 0) [0 ..< n])"
  using assms
proof (induction n)
  case 0
  show ?case by (simp add: sweep_upto_def) (metis gc.surjective gc.update_convs(1))
next
  case (Suc n)
  then have "n div 4 < length (gc_alloc_table s)" by linarith
  with Suc sweep_step show ?case by simp
qed

lemma sweep_ok:
  assumes "heap_shape s"
  shows "\<exists>t lu. gc_sweep_free_blocks s = s\<lparr>gc_alloc_table := t, gc_last_used_block := lu\<rparr> \<and>
     length t = length (gc_alloc_table s) \<and> (\<forall>b. gc_kind (gc_sweep_free_blocks s) b = swept_kind s b) \<and>
     (\<forall>b. swept_kind s b \<noteq> AT_FREE \<longrightarrow> b \<le> lu) \<and> lu \<le> gc_last_used_block s"
proof -
  let ?n = "gc_last_used_block s + 1"
  have n: "?n \<le> 4 * length (gc_alloc_table s)" using assms by (simp add: heap_shape_def)
  obtain s' ft lu where f: "foldl sweep_block (s, False, 0) [0 ..< ?n] = (s', ft, lu)" by (metis prod_cases3)
  from sweep_steps [OF n] f obtain t where t: "s' = s\<lparr>gc_alloc_table := t\<rparr>" "length t = length (gc_alloc_table s)"
    and k: "\<And>b. gc_kind s' b = (if b < ?n then swept_kind s b else gc_kind s b)"
    and lu: "\<forall>b < ?n. swept_kind s b \<noteq> AT_FREE \<longrightarrow> b \<le> lu" "lu = 0 \<or> lu < ?n"
    by (auto simp: sweep_upto_def)
  have out: "gc_kind s b = AT_FREE \<and> swept_kind s b = AT_FREE" if "\<not> b < ?n" for b
  proof -
    from assms have "gc_kind s b \<noteq> AT_FREE \<Longrightarrow> b \<le> gc_last_used_block s" by (simp add: heap_shape_def)
    with that have "gc_kind s b = AT_FREE" by fastforce
    then show ?thesis by (simp add: swept_kind_def)
  qed
  have e: "gc_sweep_free_blocks s = s'\<lparr>gc_last_used_block := lu\<rparr>"
    unfolding gc_sweep_free_blocks_def f by simp
  have "gc_kind (s'\<lparr>gc_last_used_block := lu\<rparr>) b = gc_kind s' b" for b by (simp add: gc_kind_def)
  then have "\<forall>b. gc_kind (gc_sweep_free_blocks s) b = swept_kind s b" using e k out by simp
  moreover have "\<forall>b. swept_kind s b \<noteq> AT_FREE \<longrightarrow> b \<le> lu" using lu(1) out by blast
  moreover have "lu \<le> gc_last_used_block s" using lu(2) by auto
  ultimately show ?thesis using e t by (intro exI [of _ t] exI [of _ lu]) simp
qed

section \<open>Chains\<close>

definition chain_blocks :: "gc \<Rightarrow> nat \<Rightarrow> nat set" where
  "chain_blocks s h = {h ..< h + chain_length s h}"

lemma count_tails_run:
  "(\<forall>j < count_tails s b. gc_kind s (b + j) = AT_TAIL) \<and>
   \<not> ((b + count_tails s b) div 4 < length (gc_alloc_table s) \<and> gc_kind s (b + count_tails s b) = AT_TAIL)"
proof (induction s b rule: count_tails.induct)
  case (1 s b)
  show ?case
  proof (cases "b div 4 < length (gc_alloc_table s) \<and> gc_kind s b = AT_TAIL")
    case True
    then have c: "count_tails s b = Suc (count_tails s (b + 1))" by (subst count_tails.simps) simp
    have "gc_kind s (b + j) = AT_TAIL" if "j < Suc (count_tails s (b + 1))" for j
      using "1.IH" [OF True] that True by (cases j) auto
    with "1.IH" [OF True] show ?thesis unfolding c by simp
  next
    case False
    then have c: "count_tails s b = 0" by (subst count_tails.simps) simp
    show ?thesis unfolding c using False by simp
  qed
qed

lemma chain_tails: "b \<in> chain_blocks s h \<Longrightarrow> b \<noteq> h \<Longrightarrow> gc_kind s b = AT_TAIL"
  using count_tails_run [of s "h + 1"]
  by (auto simp: chain_blocks_def chain_length_def dest!: spec [of _ "b - (h + 1)"])

lemma chain_end: "gc_kind s (h + chain_length s h) \<noteq> AT_TAIL"
  using count_tails_run [of s "h + 1"] by (auto simp: chain_length_def gc_kind_def split: if_splits)

text \<open>The run is determined by the kinds.\<close>

lemma chain_length_eqI:
  assumes "\<forall>j. 0 < j \<longrightarrow> j < n \<longrightarrow> gc_kind s (h + j) = AT_TAIL" "gc_kind s (h + n) \<noteq> AT_TAIL" "0 < n"
  shows "chain_length s h = n"
proof (rule linorder_cases)
  assume l: "chain_length s h < n"
  have "0 < chain_length s h" by (simp add: chain_length_def)
  with assms(1) l chain_end [of s h] show ?thesis by blast
next
  assume l: "n < chain_length s h"
  then have "h + n \<in> chain_blocks s h" "h + n \<noteq> h" using assms(3) by (simp_all add: chain_blocks_def)
  then show ?thesis using chain_tails assms(2) by blast
qed simp

lemma free_tail_in_chain:
  assumes "is_obj s h" "h + j \<in> chain_blocks s h" "0 < j"
  shows "free_tail_at s (h + j) \<longleftrightarrow> gc_kind s h = AT_HEAD"
  using assms(2,3)
proof (induction j)
  case (Suc j)
  show ?case
  proof (cases j)
    case 0
    then show ?thesis using assms(1) by (auto simp: is_obj_def)
  next
    case (Suc i)
    then have "h + j \<in> chain_blocks s h" "h + j \<noteq> h" using Suc.prems(1) by (simp_all add: chain_blocks_def)
    then have "gc_kind s (h + j) = AT_TAIL" by (rule chain_tails)
    with Suc.IH [OF \<open>h + j \<in> chain_blocks s h\<close>] Suc show ?thesis by simp
  qed
qed simp

lemma swept_chain:
  assumes "is_obj s h" "b \<in> chain_blocks s h"
  shows "swept_kind s b = (if gc_kind s h = AT_HEAD then AT_FREE else if b = h then AT_HEAD else AT_TAIL)"
proof (cases "b = h")
  case True
  then show ?thesis using assms(1) by (auto simp: swept_kind_def is_obj_def)
next
  case False
  define j where "j = b - h"
  have j: "b = h + j" "0 < j" using assms(2) False by (auto simp: chain_blocks_def j_def)
  have k: "gc_kind s b = AT_TAIL" by (rule chain_tails [OF assms(2) False])
  have "free_tail_at s b \<longleftrightarrow> gc_kind s h = AT_HEAD"
    using free_tail_in_chain [OF assms(1), of j] assms(2) j by simp
  then show ?thesis using k False by (simp add: swept_kind_def)
qed

text \<open>Every block in use belongs to the chain of a head.\<close>

lemma block_has_head:
  assumes "heap_shape s" "gc_kind s b \<noteq> AT_FREE"
  shows "\<exists>h. is_obj s h \<and> b \<in> chain_blocks s h"
  using assms(2)
proof (induction b rule: less_induct)
  case (less b)
  show ?case
  proof (cases "gc_kind s b = AT_TAIL")
    case True
    then have "b \<noteq> 0" "gc_kind s (b - 1) \<noteq> AT_FREE" using assms(1) by (auto simp: heap_shape_def)
    then obtain h where h: "is_obj s h" "b - 1 \<in> chain_blocks s h" using less.IH [of "b - 1"] by auto
    have "b < h + chain_length s h"
    proof (rule ccontr)
      assume "\<not> b < h + chain_length s h"
      then have "b = h + chain_length s h" using h(2) \<open>b \<noteq> 0\<close> by (auto simp: chain_blocks_def)
      then show False using chain_end [of s h] True by simp
    qed
    then show ?thesis using h \<open>b \<noteq> 0\<close> by (auto simp: chain_blocks_def intro!: exI [of _ h])
  next
    case False
    then have "is_obj s b" using less.prems by (auto simp: is_obj_def intro: gc_kind_cases [of s b])
    moreover have "b \<in> chain_blocks s b" by (simp add: chain_blocks_def chain_length_def)
    ultimately show ?thesis by blast
  qed
qed


section \<open>The state around the sweep\<close>

text \<open>\<open>same_tables s s'\<close>: only memory, flags and the finaliser bits differ.\<close>

definition same_tables :: "gc \<Rightarrow> gc \<Rightarrow> bool" where
  "same_tables s s' \<longleftrightarrow>
     gc_alloc_table s' = gc_alloc_table s \<and> gc_alloc_table_byte_len s' = gc_alloc_table_byte_len s \<and>
     gc_pool_start s' = gc_pool_start s \<and> gc_pool_end s' = gc_pool_end s \<and>
     gc_last_used_block s' = gc_last_used_block s \<and> gc_lock_depth s' = gc_lock_depth s \<and>
     length (gc_finaliser_table s') = length (gc_finaliser_table s) \<and>
     gc_auto_collect_enabled s' = gc_auto_collect_enabled s \<and> gc_alloc_amount s' = gc_alloc_amount s \<and>
     gc_alloc_threshold s' = gc_alloc_threshold s"

lemma same_tables_refl [simp, intro]: "same_tables s s" by (simp add: same_tables_def)

lemma same_tables_trans: "same_tables s s' \<Longrightarrow> same_tables s' s'' \<Longrightarrow> same_tables s s''"
  by (simp add: same_tables_def)

lemma same_tables_kind: "same_tables s s' \<Longrightarrow> gc_kind s' b = gc_kind s b"
  by (simp add: same_tables_def gc_kind_def)

lemma same_tables_shape: "same_tables s s' \<Longrightarrow> heap_shape s \<Longrightarrow> heap_shape s'"
  by (auto simp: heap_shape_def same_tables_kind) (simp_all add: same_tables_def)

text \<open>A finaliser that works on the memory of the program and leaves the collector's tables.\<close>

definition del_ok :: "gc_env \<Rightarrow> bool" where
  "del_ok env \<longleftrightarrow> (\<forall>b s. \<exists>m. run_del env b s = s\<lparr>gc_mem := m\<rparr>)"

lemma finalise_block_tables:
  assumes "del_ok env"
  shows "same_tables s (finalise_block env s b)"
proof -
  obtain m where "run_del env b s = s\<lparr>gc_mem := m\<rparr>" using assms by (auto simp: del_ok_def)
  then show ?thesis by (simp add: finalise_block_def same_tables_def Let_def)
qed

lemma finalise_bits_tables:
  "del_ok env \<Longrightarrow> same_tables s (finalise_bits env s x b k)"
proof (induction k arbitrary: s x b)
  case (Suc k)
  define s1 where "s1 = (if x AND 1 \<noteq> 0 then finalise_block env s b else s)"
  have 1: "same_tables s s1" using finalise_block_tables [OF Suc.prems] by (simp add: s1_def)
  have "finalise_bits env s x b (Suc k) = (if x = 0 then s else finalise_bits env s1 (drop_bit 1 x) (b + 1) k)"
    unfolding s1_def by (rule finalise_bits.simps)
  with same_tables_trans [OF 1 Suc.IH [OF Suc.prems], of "drop_bit 1 x" "b + 1"] same_tables_refl [of s] show ?case
    by (cases "x = 0") (simp_all only: if_True if_False simp_thms)
qed simp

lemma run_finalisers_tables:
  assumes "del_ok env"
  shows "same_tables s (gc_sweep_run_finalisers env s)"
proof -
  have "same_tables s (foldl (\<lambda>s i. finalise_bits env s (gc_ftb_byte s i) (8 * i) 8) s is)" for "is"
  proof (induction "is" arbitrary: s)
    case (Cons i "is")
    show ?case
      using same_tables_trans [OF finalise_bits_tables [OF assms] Cons.IH] by simp
  qed simp
  then show ?thesis unfolding gc_sweep_run_finalisers_def by blast
qed

section \<open>A collection\<close>

lemma obj_in_chain: "h \<in> chain_blocks s h"
  by (simp add: chain_blocks_def chain_length_def)

lemma chain_length_kinds:
  assumes "\<And>b. gc_kind s' b = AT_TAIL \<longleftrightarrow> gc_kind s b = AT_TAIL"
  shows "chain_length s' h = chain_length s h"
proof (rule chain_length_eqI)
  show "\<forall>j. 0 < j \<longrightarrow> j < chain_length s h \<longrightarrow> gc_kind s' (h + j) = AT_TAIL"
    using chain_tails [of _ s h] assms by (auto simp: chain_blocks_def)
  show "gc_kind s' (h + chain_length s h) \<noteq> AT_TAIL" using assms chain_end by simp
  show "0 < chain_length s h" by (simp add: chain_length_def)
qed

text \<open>The tables of \<open>s'\<close> describe \<open>s\<close> with exactly the chains of the heads outside \<open>R\<close> freed.\<close>

definition kept_chains :: "gc \<Rightarrow> gc \<Rightarrow> nat set \<Rightarrow> bool" where
  "kept_chains s s' R \<longleftrightarrow>
     (\<forall>h. is_obj s h \<longrightarrow> h \<in> R \<longrightarrow> gc_kind s' h = AT_HEAD \<and> chain_blocks s' h = chain_blocks s h) \<and>
     (\<forall>h. is_obj s h \<longrightarrow> h \<notin> R \<longrightarrow> (\<forall>b \<in> chain_blocks s h. gc_kind s' b = AT_FREE)) \<and>
     (\<forall>b. gc_kind s b = AT_FREE \<longrightarrow> gc_kind s' b = AT_FREE)"

lemma swept_end:
  assumes "is_obj s h"
  shows "swept_kind s (h + chain_length s h) \<noteq> AT_TAIL"
  using chain_end [of s h] by (auto simp: swept_kind_def)

lemma sweep_keeps_chains:
  assumes "heap_shape s"
  shows "kept_chains s (gc_sweep_free_blocks s) (marked s)"
proof -
  let ?r = "gc_sweep_free_blocks s"
  have k: "gc_kind ?r b = swept_kind s b" for b using sweep_ok [OF assms] by blast
  show ?thesis
    unfolding kept_chains_def
  proof (intro conjI allI impI ballI)
    fix h assume h: "is_obj s h" "h \<in> marked s"
    then have nh: "gc_kind s h \<noteq> AT_HEAD" by (simp add: marked_def)
    have "chain_length ?r h = chain_length s h"
    proof (rule chain_length_eqI)
      show "\<forall>j. 0 < j \<longrightarrow> j < chain_length s h \<longrightarrow> gc_kind ?r (h + j) = AT_TAIL"
        using swept_chain [OF h(1)] nh by (simp add: k chain_blocks_def)
      show "gc_kind ?r (h + chain_length s h) \<noteq> AT_TAIL" using swept_end [OF h(1)] by (simp add: k)
      show "0 < chain_length s h" by (simp add: chain_length_def)
    qed
    then show "chain_blocks ?r h = chain_blocks s h" by (simp add: chain_blocks_def)
    show "gc_kind ?r h = AT_HEAD" using swept_chain [OF h(1) obj_in_chain] nh k by simp
  next
    fix h b assume h: "is_obj s h" "h \<notin> marked s" "b \<in> chain_blocks s h"
    then have "gc_kind s h = AT_HEAD" by (auto simp: marked_def is_obj_def)
    then show "gc_kind ?r b = AT_FREE" using swept_chain [OF h(1,3)] k by simp
  next
    fix b assume "gc_kind s b = AT_FREE"
    then show "gc_kind ?r b = AT_FREE" by (simp add: k swept_kind_def)
  qed
qed

lemma sweep_shape:
  assumes "heap_shape s"
  shows "heap_shape (gc_sweep_free_blocks s) \<and> marked (gc_sweep_free_blocks s) = {}"
proof -
  let ?r = "gc_sweep_free_blocks s"
  obtain t lu where r: "?r = s\<lparr>gc_alloc_table := t, gc_last_used_block := lu\<rparr>" "length t = length (gc_alloc_table s)"
    "\<And>b. swept_kind s b \<noteq> AT_FREE \<Longrightarrow> b \<le> lu" "lu \<le> gc_last_used_block s"
    and k: "\<And>b. gc_kind ?r b = swept_kind s b" using sweep_ok [OF assms] by blast
  have nm: "marked ?r = {}" by (auto simp: marked_def k swept_kind_def)
  have tl: "b \<noteq> 0 \<and> swept_kind s (b - 1) \<noteq> AT_FREE" if "swept_kind s b = AT_TAIL" for b
  proof -
    have kb: "gc_kind s b = AT_TAIL" using that by (auto simp: swept_kind_def split: if_splits)
    then obtain h where h: "is_obj s h" "b \<in> chain_blocks s h" using block_has_head [OF assms, of b] by auto
    have nh: "gc_kind s h \<noteq> AT_HEAD" using swept_chain [OF h] that by auto
    have ne: "b \<noteq> h" using kb h(1) by (auto simp: is_obj_def)
    then have "b - 1 \<in> chain_blocks s h" "b \<noteq> 0" using h(2) by (auto simp: chain_blocks_def)
    then show ?thesis using swept_chain [OF h(1)] nh by simp
  qed
  have fr: "swept_kind s b = AT_FREE" if "gc_num_blocks s \<le> b" for b
    using assms that by (simp add: heap_shape_def swept_kind_def)
  have num: "gc_num_blocks ?r = gc_num_blocks s" using r(1) by simp
  have "heap_shape ?r"
    unfolding heap_shape_def num k
  proof (intro conjI)
    show "\<forall>b. swept_kind s b = AT_TAIL \<longrightarrow> b \<noteq> 0 \<and> swept_kind s (b - 1) \<noteq> AT_FREE" using tl by blast
    show "\<forall>b \<ge> gc_num_blocks s. swept_kind s b = AT_FREE" using fr by blast
    show "\<forall>b. swept_kind s b \<noteq> AT_FREE \<longrightarrow> b \<le> gc_last_used_block ?r" using r by simp
  qed (use assms r in \<open>auto simp: heap_shape_def\<close>)
  with nm show ?thesis by blast
qed

lemma flags_cleared:
  assumes "(d :: u16) AND GC_COLLECT_FLAG = 0"
  shows "(d OR GC_COLLECT_FLAG) AND NOT GC_COLLECT_FLAG = d"
proof (rule bit_eqI)
  fix n
  have "bit (d AND GC_COLLECT_FLAG) n = False" using assms by simp
  then show "bit ((d OR GC_COLLECT_FLAG) AND NOT GC_COLLECT_FLAG) n = bit d n"
    by (auto simp: bit_and_iff bit_or_iff bit_not_iff dest: bit_imp_le_length)
qed


lemma kept_chains_cong:
  assumes "kept_chains s s' R" "\<And>b. is_obj s0 b = is_obj s b" "\<And>b. gc_kind s0 b = AT_TAIL \<longleftrightarrow> gc_kind s b = AT_TAIL"
    and "\<And>b. gc_kind s0 b = AT_FREE \<longleftrightarrow> gc_kind s b = AT_FREE" "\<And>b. gc_kind s1 b = gc_kind s' b"
  shows "kept_chains s0 s1 R"
proof -
  have "chain_blocks s0 h = chain_blocks s h" "chain_blocks s1 h = chain_blocks s' h" for h
    using chain_length_kinds [of s0 s h] chain_length_kinds [of s1 s' h] assms by (simp_all add: chain_blocks_def)
  then show ?thesis using assms by (simp add: kept_chains_def)
qed

text \<open>Fields that a collection leaves as they are.\<close>

definition same_area :: "gc \<Rightarrow> gc \<Rightarrow> bool" where
  "same_area s s' \<longleftrightarrow>
     gc_pool_start s' = gc_pool_start s \<and> gc_pool_end s' = gc_pool_end s \<and>
     gc_alloc_table_byte_len s' = gc_alloc_table_byte_len s \<and> gc_lock_depth s' = gc_lock_depth s \<and>
     gc_auto_collect_enabled s' = gc_auto_collect_enabled s \<and> gc_alloc_threshold s' = gc_alloc_threshold s"

lemma same_area_refl [simp, intro]: "same_area s s" by (simp add: same_area_def)

lemma same_area_trans: "same_area s s' \<Longrightarrow> same_area s' s'' \<Longrightarrow> same_area s s''" by (simp add: same_area_def)

lemma marks_only_shape:
  assumes "marks_only s s'" "heap_shape s"
  shows "heap_shape s'"
proof -
  obtain t f where s': "s' = s\<lparr>gc_alloc_table := t, gc_stack_overflow := f\<rparr>" "length t = length (gc_alloc_table s)"
    using assms(1) by (auto simp: marks_only_def)
  have fr: "gc_kind s' b = AT_FREE \<longleftrightarrow> gc_kind s b = AT_FREE" for b using marks_only_kind [OF assms(1), of b] by auto
  have num: "gc_num_blocks s' = gc_num_blocks s" using s'(1) by simp
  show ?thesis
    unfolding heap_shape_def num fr tail_frame [OF assms(1)] using assms(2) s' by (simp add: heap_shape_def)
qed

lemma collect_ok:
  assumes "gc_inv s" "del_ok env"
  shows "gc_inv (gc_collect env s) \<and> same_area s (gc_collect env s) \<and> gc_alloc_amount (gc_collect env s) = 0 \<and>
    kept_chains s (gc_collect env s) (reach s (set (concat (root_sections env))))"
proof -
  let ?R = "reach s (set (concat (root_sections env)))"
  define a where "a = gc_collect_start s"
  define m where "m = mark_phase env s"
  define f where "f = gc_sweep_run_finalisers env m"
  define w where "w = gc_sweep_free_blocks f"
  have shape: "heap_shape s" "marked s = {}" and fl: "gc_lock_depth s AND GC_COLLECT_FLAG = 0"
    using assms(1) by (simp_all add: gc_inv_def)
  have r: "gc_collect env s = w\<lparr>gc_last_free_atb_index := 0, gc_lock_depth := gc_lock_depth w AND NOT GC_COLLECT_FLAG\<rparr>"
    by (simp add: gc_collect_def gc_collect_end_def w_def f_def m_def mark_phase_def Let_def)
  have "\<forall>b. is_obj s b \<longrightarrow> b < gc_num_blocks s"
    using used_in_pool [OF shape(1)] by (auto simp: is_obj_def)
  from mark_phase_exact [OF shape(2) this, of env]
  have mo: "marks_only a m" and R: "marked m = ?R" unfolding a_def m_def by blast+
  have ka: "gc_kind a b = gc_kind s b" for b by (simp add: a_def start_frame)
  have sa: "heap_shape a"
    using shape(1) unfolding heap_shape_def ka by (simp add: a_def gc_collect_start_def gc_collect_start_common_def)
  have sm: "heap_shape m" by (rule marks_only_shape [OF mo sa])
  have st: "same_tables m f" unfolding f_def by (rule run_finalisers_tables [OF assms(2)])
  have sf: "heap_shape f" by (rule same_tables_shape [OF st sm])
  note kf = same_tables_kind [OF st]
  have mf: "marked f = ?R" using R by (simp add: marked_def kf)
  have sw: "heap_shape w" "marked w = {}" using sweep_shape [OF sf] by (simp_all add: w_def)
  have kw: "kept_chains f w ?R" using sweep_keeps_chains [OF sf] by (simp add: w_def mf)
  have kr: "gc_kind (gc_collect env s) b = gc_kind w b" for b by (simp add: r gc_kind_def)
  have kc: "kept_chains s (gc_collect env s) ?R"
  proof (rule kept_chains_cong [OF kw])
    fix b
    show "is_obj s b = is_obj f b" using is_obj_frame [OF mo, of b] by (simp add: is_obj_def ka kf)
    show "(gc_kind s b = AT_TAIL) = (gc_kind f b = AT_TAIL)" using tail_frame [OF mo, of b] by (simp add: ka kf)
    show "(gc_kind s b = AT_FREE) = (gc_kind f b = AT_FREE)" using marks_only_kind [OF mo, of b] by (auto simp: ka kf)
  qed (rule kr)
  obtain t lu where wf: "w = f\<lparr>gc_alloc_table := t, gc_last_used_block := lu\<rparr>" using sweep_ok [OF sf] w_def by auto
  obtain t2 f2 where ma: "m = a\<lparr>gc_alloc_table := t2, gc_stack_overflow := f2\<rparr>" using mo by (auto simp: marks_only_def)
  have lock: "gc_lock_depth w = gc_lock_depth s OR GC_COLLECT_FLAG"
    using st by (simp add: wf ma same_tables_def a_def gc_collect_start_def gc_collect_start_common_def)
  have area: "same_area s (gc_collect env s)" and amount: "gc_alloc_amount (gc_collect env s) = 0"
    using st flags_cleared [OF fl]
    by (simp_all add: r lock same_area_def) (simp_all add: wf ma same_tables_def a_def gc_collect_start_def gc_collect_start_common_def)
  have "heap_shape (gc_collect env s)" using sw(1) unfolding heap_shape_def kr by (simp add: r)
  moreover have "marked (gc_collect env s) = {}" using sw(2) by (simp add: marked_def kr)
  ultimately have "gc_inv (gc_collect env s)" using fl area by (simp add: gc_inv_def same_area_def) (simp add: r)
  with area amount kc show ?thesis by blast
qed

end
