(* ===== verification/GcAlloc.thy ===== *)
theory GcAlloc
  imports GcSweep
begin

text \<open>
  Allocation, freeing and resizing.  The scan of the allocation table finds the first run of free
  blocks and misses none; taking the run makes a new chain of zeroed blocks without touching another;
  freeing gives back the blocks of one chain.
\<close>

section \<open>Addresses of blocks\<close>

lemma pool_bound: "heap_shape s \<Longrightarrow> unat (gc_pool_start s) + 16 * gc_num_blocks s < 2 ^ 32"
proof -
  assume "heap_shape s"
  then have "unat (gc_pool_start s) + 64 * gc_alloc_table_byte_len s = unat (gc_pool_end s)" by (simp add: heap_shape_def)
  also have "\<dots> < 2 ^ 32" using unsigned_less [of "gc_pool_end s"] by simp
  finally show ?thesis by simp
qed

lemma block_address:
  assumes "heap_shape s" "16 * b + i \<le> 16 * gc_num_blocks s"
  shows "unat (PTR_FROM_BLOCK s b + of_nat i) = unat (gc_pool_start s) + 16 * b + i"
proof -
  have "PTR_FROM_BLOCK s b + of_nat i = of_nat (unat (gc_pool_start s) + 16 * b + i)"
    by (simp add: PTR_FROM_BLOCK_def BYTES_PER_BLOCK_def mult.commute)
  moreover have "unat (gc_pool_start s) + 16 * b + i < 2 ^ 32" using pool_bound [OF assms(1)] assms(2) by linarith
  ultimately show ?thesis by (simp only: unat_of_nat take_bit_nat_eq_self_iff len_bit0 len_num1 mult_1_right Suc_eq_plus1) 
      (simp add: take_bit_nat_eq_self)
qed

lemma PTR_FROM_BLOCK_address:
  "heap_shape s \<Longrightarrow> b \<le> gc_num_blocks s \<Longrightarrow> unat (PTR_FROM_BLOCK s b) = unat (gc_pool_start s) + 16 * b"
  using block_address [of s b 0] by simp

lemma BLOCK_FROM_PTR_FROM_BLOCK:
  assumes "heap_shape s" "b < gc_num_blocks s"
  shows "BLOCK_FROM_PTR s (PTR_FROM_BLOCK s b) = b"
proof -
  have "PTR_FROM_BLOCK s b - gc_pool_start s = of_nat (16 * b)"
    by (simp add: PTR_FROM_BLOCK_def BYTES_PER_BLOCK_def mult.commute)
  moreover have "16 * b < 2 ^ 32" using pool_bound [OF assms(1)] assms(2) by linarith
  ultimately show ?thesis
    by (simp add: BLOCK_FROM_PTR_def BYTES_PER_BLOCK_def unat_div unat_of_nat take_bit_nat_eq_self del: of_nat_mult)
qed

lemma verify_iff:
  assumes "heap_shape s"
  shows "VERIFY_PTR s p \<longleftrightarrow> (\<exists>b < gc_num_blocks s. p = PTR_FROM_BLOCK s b)"
proof -
  have al: "p AND (BYTES_PER_BLOCK - 1) = 0 \<longleftrightarrow> unat p mod 16 = 0"
  proof -
    have "p AND 15 = take_bit 4 p" by (simp add: take_bit_eq_mask mask_eq_exp_minus_1)
    then have "unat (p AND 15) = unat p mod 16" by (simp add: take_bit_eq_mod unat_mod)
    then show ?thesis by (simp add: BYTES_PER_BLOCK_def unat_eq_0 [symmetric])
  qed
  have ps: "unat (gc_pool_start s) mod 16 = 0" and pe: "unat (gc_pool_end s) = unat (gc_pool_start s) + 64 * gc_alloc_table_byte_len s"
    using assms by (simp_all add: heap_shape_def)
  show ?thesis
  proof
    assume v: "VERIFY_PTR s p"
    define b where "b = (unat p - unat (gc_pool_start s)) div 16"
    have le: "unat (gc_pool_start s) \<le> unat p" "unat p < unat (gc_pool_end s)" "unat p mod 16 = 0"
      using v al by (simp_all add: VERIFY_PTR_def word_le_nat_alt word_less_nat_alt)
    have "(unat p - unat (gc_pool_start s)) mod 16 = 0" using le(3) ps by presburger
    then have p: "unat p = unat (gc_pool_start s) + 16 * b" using le(1) unfolding b_def by presburger
    then have b: "b < gc_num_blocks s" using le(2) pe by linarith
    then have "unat p = unat (PTR_FROM_BLOCK s b)" using p PTR_FROM_BLOCK_address [OF assms, of b] by simp
    then have "p = PTR_FROM_BLOCK s b" by (simp only: word_unat_eq_iff)
    with b show "\<exists>b < gc_num_blocks s. p = PTR_FROM_BLOCK s b" by blast
  next
    assume "\<exists>b < gc_num_blocks s. p = PTR_FROM_BLOCK s b"
    then obtain b where b: "b < gc_num_blocks s" "p = PTR_FROM_BLOCK s b" by blast
    then have "unat p = unat (gc_pool_start s) + 16 * b" using PTR_FROM_BLOCK_address [OF assms, of b] by simp
    moreover have "unat p mod 16 = 0" using calculation ps by presburger
    ultimately show "VERIFY_PTR s p"
      using b(1) pe al by (simp add: VERIFY_PTR_def word_le_nat_alt word_less_nat_alt)
  qed
qed

text \<open>The bytes of a block, and what a write of whole blocks does to them.\<close>

definition block_data :: "gc \<Rightarrow> nat \<Rightarrow> bytes" where
  "block_data s b = mem_read (gc_mem s) (PTR_FROM_BLOCK s b) 16"

lemma block_write_outside:
  assumes "heap_shape s" "c < gc_num_blocks s" "b + k \<le> gc_num_blocks s" "length bs \<le> 16 * k" "c < b \<or> b + k \<le> c" "i < 16"
  shows "mem_write m (PTR_FROM_BLOCK s b) bs (PTR_FROM_BLOCK s c + of_nat i) = m (PTR_FROM_BLOCK s c + of_nat i)"
proof -
  have c: "unat (PTR_FROM_BLOCK s c + of_nat i) = unat (gc_pool_start s) + 16 * c + i"
    by (rule block_address [OF assms(1)]) (use assms in linarith)
  have b: "unat (PTR_FROM_BLOCK s b) = unat (gc_pool_start s) + 16 * b"
    by (rule PTR_FROM_BLOCK_address [OF assms(1)]) (use assms in linarith)
  have bd: "unat (gc_pool_start s) + 16 * (b + k) < 4294967296"
    using pool_bound [OF assms(1)] assms(3) by simp
  have "\<not> unat (PTR_FROM_BLOCK s c + of_nat i - PTR_FROM_BLOCK s b) < length bs"
  proof (cases "c < b")
    case True
    have "PTR_FROM_BLOCK s c + of_nat i < PTR_FROM_BLOCK s b"
      using True assms(6) unfolding word_less_nat_alt c b by linarith
    then have "unat (PTR_FROM_BLOCK s c + of_nat i - PTR_FROM_BLOCK s b) = 2 ^ 32 + unat (PTR_FROM_BLOCK s c + of_nat i) - unat (PTR_FROM_BLOCK s b)"
      by (simp add: unat_sub_if_size word_size not_le word_less_nat_alt)
    then show ?thesis using c b bd assms(4) True by simp
  next
    case False
    then have "unat (PTR_FROM_BLOCK s c + of_nat i - PTR_FROM_BLOCK s b) = 16 * c + i - 16 * b"
      using c b assms(5) by (simp add: unat_sub word_le_nat_alt)
    then show ?thesis using assms(4,5) False by linarith
  qed
  then show ?thesis by (simp add: mem_write_def)
qed

lemma block_write_inside:
  assumes "heap_shape s" "b + k \<le> gc_num_blocks s" "length bs = 16 * k" "j < k" "i < 16"
  shows "mem_write m (PTR_FROM_BLOCK s b) bs (PTR_FROM_BLOCK s (b + j) + of_nat i) = bs ! (16 * j + i)"
proof -
  have "PTR_FROM_BLOCK s (b + j) + of_nat i - PTR_FROM_BLOCK s b = of_nat (16 * j + i)"
    by (simp add: PTR_FROM_BLOCK_def BYTES_PER_BLOCK_def algebra_simps)
  moreover have "16 * j + i < 2 ^ 32" using pool_bound [OF assms(1)] assms by linarith
  ultimately have "unat (PTR_FROM_BLOCK s (b + j) + of_nat i - PTR_FROM_BLOCK s b) = 16 * j + i"
    by (simp add: unat_of_nat take_bit_nat_eq_self del: of_nat_add of_nat_mult)
  then show ?thesis using assms by (simp add: mem_write_def)
qed


section \<open>The scan\<close>

definition free_run :: "gc \<Rightarrow> nat \<Rightarrow> nat \<Rightarrow> bool" where
  "free_run s b n \<longleftrightarrow> (\<forall>j < n. gc_kind s (b + j) = AT_FREE)"

definition no_run :: "gc \<Rightarrow> nat \<Rightarrow> nat \<Rightarrow> nat \<Rightarrow> bool" where
  "no_run s lo hi n \<longleftrightarrow> (\<forall>b. lo \<le> b \<longrightarrow> b + n \<le> hi \<longrightarrow> \<not> free_run s b n)"

text \<open>Before block \<open>p\<close>: no run of \<open>n\<close> found yet, and \<open>nf\<close> is the number of free blocks just before.\<close>

definition scanned :: "gc \<Rightarrow> nat \<Rightarrow> nat \<Rightarrow> nat \<Rightarrow> nat \<Rightarrow> bool" where
  "scanned s lo n p nf \<longleftrightarrow>
     nf < n \<and> lo + nf \<le> p \<and> free_run s (p - nf) nf \<and> (p - nf = lo \<or> gc_kind s (p - nf - 1) \<noteq> AT_FREE) \<and> no_run s lo p n"

definition hit :: "gc \<Rightarrow> nat \<Rightarrow> nat \<Rightarrow> nat \<times> nat \<Rightarrow> bool" where
  "hit s lo n r \<longleftrightarrow>
     (case r of (e, nf) \<Rightarrow> nf = n \<and> lo + n \<le> e + 1 \<and> free_run s (e + 1 - n) n \<and> no_run s lo e n)"

lemma scanned_free:
  assumes "scanned s lo n p nf" "gc_kind s p = AT_FREE"
  shows "if nf + 1 \<ge> n then hit s lo n (p, nf + 1) else scanned s lo n (p + 1) (nf + 1)"
proof -
  have s: "nf < n" "lo + nf \<le> p" "free_run s (p - nf) nf" "p - nf = lo \<or> gc_kind s (p - nf - 1) \<noteq> AT_FREE" "no_run s lo p n"
    using assms(1) by (auto simp: scanned_def)
  have fr: "free_run s (p - nf) (nf + 1)"
    unfolding free_run_def
  proof (intro allI impI)
    fix j assume "j < nf + 1"
    then show "gc_kind s (p - nf + j) = AT_FREE"
      using s(2,3) assms(2) by (cases "j = nf") (auto simp: free_run_def)
  qed
  show ?thesis
  proof (cases "nf + 1 \<ge> n")
    case True
    then have "n = nf + 1" using s(1) by simp
    with True s fr show ?thesis by (simp add: hit_def)
  next
    case False
    have "no_run s lo (p + 1) n"
      unfolding no_run_def
    proof (intro allI impI notI)
      fix b assume b: "lo \<le> b" "b + n \<le> p + 1" "free_run s b n"
      show False
      proof (cases "b + n \<le> p")
        case True
        then show ?thesis using s(5) b by (simp add: no_run_def)
      next
        case False
        then have e: "b + n = p + 1" using b(2) by simp
        then have lt: "b < p - nf" using \<open>\<not> nf + 1 \<ge> n\<close> s(2) by linarith
        then have "gc_kind s (p - nf - 1) \<noteq> AT_FREE" using s(4) b(1) by auto
        moreover have "p - nf - 1 = b + (p - nf - 1 - b)" "p - nf - 1 - b < n" using lt e by linarith+
        ultimately show ?thesis using b(3) unfolding free_run_def by metis
      qed
    qed
    with False s fr show ?thesis by (simp add: scanned_def)
  qed
qed

lemma scanned_used:
  assumes "scanned s lo n p nf" "gc_kind s p \<noteq> AT_FREE"
  shows "scanned s lo n (p + 1) 0"
proof -
  have s: "nf < n" "lo + nf \<le> p" "no_run s lo p n" using assms(1) by (auto simp: scanned_def)
  have "no_run s lo (p + 1) n"
    unfolding no_run_def
  proof (intro allI impI notI)
    fix b assume b: "lo \<le> b" "b + n \<le> p + 1" "free_run s b n"
    have "b + n \<noteq> p + 1"
    proof
      assume "b + n = p + 1"
      then have "p = b + (n - 1)" "n - 1 < n" using s(1) by linarith+
      then show False using b(3) assms(2) unfolding free_run_def by metis
    qed
    then show False using s(3) b by (simp add: no_run_def)
  qed
  with s assms(2) show ?thesis by (auto simp: scanned_def free_run_def)
qed

lemma scan_byte_ok:
  assumes "i < length (gc_alloc_table s)" "j \<le> 4" "scanned s lo n (4 * i + j) nf"
  shows "case scan_byte n (gc_alloc_table s ! i) i [j ..< 4] nf of
           Inl r \<Rightarrow> hit s lo n r \<and> fst r < 4 * (i + 1) | Inr nf' \<Rightarrow> scanned s lo n (4 * (i + 1)) nf'"
  using assms(2,3)
proof (induction "4 - j" arbitrary: j nf)
  case 0
  then show ?case by (simp add: add.commute)
next
  case (Suc k)
  then have j: "j < 4" by simp
  then have u: "[j ..< 4] = j # [Suc j ..< 4]" by (simp add: upt_conv_Cons)
  have k: "ATB_IS_FREE j (gc_alloc_table s ! i) \<longleftrightarrow> gc_kind s (4 * i + j) = AT_FREE"
    using is_free_iff [OF assms(1) j] assms(1) j by (simp add: gc_kind_def)
  have ih: "scanned s lo n (4 * i + Suc j) nf' \<Longrightarrow> case scan_byte n (gc_alloc_table s ! i) i [Suc j ..< 4] nf' of
           Inl r \<Rightarrow> hit s lo n r \<and> fst r < 4 * (i + 1) | Inr nf' \<Rightarrow> scanned s lo n (4 * (i + 1)) nf'" for nf'
    using Suc.hyps(1) [of "Suc j" nf'] Suc.hyps(2) j by simp
  show ?case
  proof (cases "gc_kind s (4 * i + j) = AT_FREE")
    case True
    show ?thesis
    proof (cases "nf + 1 \<ge> n")
      case h: True
      then have "hit s lo n (4 * i + j, nf + 1)" using scanned_free [OF Suc.prems(2) True] by simp
      then show ?thesis using True h j by (simp add: u k mult.commute)
    next
      case False
      then have "scanned s lo n (4 * i + Suc j) (nf + 1)" using scanned_free [OF Suc.prems(2) True] by simp
      from ih [OF this] show ?thesis using True False by (simp add: u k)
    qed
  next
    case False
    have "scanned s lo n (4 * i + Suc j) 0" using scanned_used [OF Suc.prems(2) False] by simp
    from ih [OF this] show ?thesis using False by (simp add: u k)
  qed
qed

lemma four_bits: "[0, 1, 2, 3] = [0 ..< 4 :: nat]"
  by (simp add: upt_rec numeral_eq_Suc)

lemma scan_table_ok:
  assumes "i + k \<le> length (gc_alloc_table s)" "scanned s lo n (4 * i) nf"
  shows "case scan_table (gc_alloc_table s) n i k nf of
           Some r \<Rightarrow> hit s lo n r \<and> fst r < 4 * (i + k) | None \<Rightarrow> no_run s lo (4 * (i + k)) n"
  using assms
proof (induction k arbitrary: i nf)
  case 0
  then show ?case by (simp add: scanned_def)
next
  case (Suc k)
  let ?b = "scan_byte n (gc_alloc_table s ! i) i [0, 1, 2, 3] nf"
  have "i < length (gc_alloc_table s)" using Suc.prems(1) by simp
  note b = scan_byte_ok [OF this _ , of 0 lo n nf, folded four_bits]
  show ?case
  proof (cases ?b)
    case (Inl r)
    then show ?thesis using b Suc.prems(2) by auto
  next
    case (Inr nf')
    then have "scanned s lo n (4 * (i + 1)) nf'" using b Suc.prems(2) by simp
    with Suc.IH [of "i + 1" nf'] Suc.prems(1) Inr show ?thesis by (auto simp del: scan_byte.simps split: option.splits)
  qed
qed

text \<open>\<open>find_run\<close> finds the first run of exactly \<open>n\<close> free blocks from the start of the scan on.\<close>

lemma find_run_ok:
  assumes "gc_inv s" "0 < n"
  shows "case find_run s n of
           Some r \<Rightarrow> hit s 0 n r \<and> fst r < gc_num_blocks s
         | None \<Rightarrow> no_run s 0 (gc_num_blocks s) n"
proof -
  let ?lo = "4 * gc_last_free_atb_index s"
  have i: "gc_last_free_atb_index s \<le> gc_alloc_table_byte_len s" "length (gc_alloc_table s) = gc_alloc_table_byte_len s + 1"
    and used: "\<And>b. b < ?lo \<Longrightarrow> gc_kind s b \<noteq> AT_FREE"
    using assms(1) by (auto simp: gc_inv_def heap_shape_def)
  have start: "scanned s ?lo n ?lo 0" using assms(2) by (auto simp: scanned_def free_run_def no_run_def)
  have low: "no_run s 0 hi n" if "no_run s ?lo hi n" for hi
    unfolding no_run_def
  proof (intro allI impI notI)
    fix b assume b: "b + n \<le> hi" "free_run s b n"
    have "gc_kind s b = AT_FREE" using b(2) assms(2) unfolding free_run_def by fastforce
    then have "?lo \<le> b" using used [of b] by (cases "?lo \<le> b") auto
    then show False using that b by (simp add: no_run_def)
  qed
  show ?thesis
    using scan_table_ok [OF _ start, of "gc_alloc_table_byte_len s - gc_last_free_atb_index s"] i
    by (auto simp: find_run_def hit_def split: option.splits intro: low)
qed


section \<open>Taking a run\<close>

lemma kind_in_table: "gc_kind s b \<noteq> AT_FREE \<Longrightarrow> b div 4 < length (gc_alloc_table s)"
  by (simp add: gc_kind_def split: if_splits)

definition with_table :: "gc \<Rightarrow> bytes \<Rightarrow> gc" where
  "with_table s t = s\<lparr>gc_alloc_table := t\<rparr>"

lemma with_table_simps [simp]:
  "gc_alloc_table (with_table s t) = t" "with_table (with_table s t) t' = with_table s t'"
  "gc_alloc_table_byte_len (with_table s t) = gc_alloc_table_byte_len s"
  by (simp_all add: with_table_def)

lemma with_table_id [simp]: "with_table s (gc_alloc_table s) = s"
  by (simp add: with_table_def)

text \<open>The kind of a block depends on the allocation table only.\<close>

lemma gc_kind_table: "gc_alloc_table s' = t \<Longrightarrow> gc_kind s' b = gc_kind (with_table s t) b"
  by (simp add: gc_kind_def)

lemma kinds_free_to_tail:
  assumes "\<And>b. a \<le> b \<Longrightarrow> b < c \<Longrightarrow> gc_kind (with_table s t) b = AT_FREE \<and> b div 4 < length t"
  shows "gc_kind (with_table s (foldl ATB_FREE_TO_TAIL t [a ..< c])) b =
     (if a \<le> b \<and> b < c then AT_TAIL else gc_kind (with_table s t) b) \<and>
     length (foldl ATB_FREE_TO_TAIL t [a ..< c]) = length t"
  using assms
proof (induction c arbitrary: b)
  case 0
  then show ?case by simp
next
  case (Suc c)
  show ?case
  proof (cases "a \<le> c")
    case True
    let ?t = "foldl ATB_FREE_TO_TAIL t [a ..< c]"
    have ih: "gc_kind (with_table s ?t) b' = (if a \<le> b' \<and> b' < c then AT_TAIL else gc_kind (with_table s t) b')"
      "length ?t = length t" for b' using Suc.IH [of b'] Suc.prems by auto
    have c: "c div 4 < length ?t" "ATB_GET_KIND ?t c = AT_FREE"
      using ih(1) [of c] ih(2) Suc.prems [of c] True by (auto simp: gc_kind_def)
    have "gc_kind (with_table s (ATB_FREE_TO_TAIL ?t c)) b = (if b = c then AT_TAIL else gc_kind (with_table s ?t) b)"
      using kind_free_to_tail [OF c(1) _ c(2), of b] c(1) by (auto simp: gc_kind_def)
    then show ?thesis using ih True by auto
  qed auto
qed

lemma kinds_any_to_free:
  assumes "\<And>b. a \<le> b \<Longrightarrow> b < c \<Longrightarrow> b div 4 < length t"
  shows "gc_kind (with_table s (foldl ATB_ANY_TO_FREE t [a ..< c])) b =
     (if a \<le> b \<and> b < c then AT_FREE else gc_kind (with_table s t) b) \<and>
     length (foldl ATB_ANY_TO_FREE t [a ..< c]) = length t"
  using assms
proof (induction c arbitrary: b)
  case 0
  then show ?case by simp
next
  case (Suc c)
  show ?case
  proof (cases "a \<le> c")
    case True
    let ?t = "foldl ATB_ANY_TO_FREE t [a ..< c]"
    have ih: "gc_kind (with_table s ?t) b' = (if a \<le> b' \<and> b' < c then AT_FREE else gc_kind (with_table s t) b')"
      "length ?t = length t" for b' using Suc.IH [of b'] Suc.prems by auto
    have c: "c div 4 < length ?t" using ih(2) Suc.prems [of c] True by simp
    have "gc_kind (with_table s (ATB_ANY_TO_FREE ?t c)) b = (if b = c then AT_FREE else gc_kind (with_table s ?t) b)"
      using kind_any_to_free [OF c, of b] c by (auto simp: gc_kind_def)
    then show ?thesis using ih True by auto
  qed auto
qed

lemma kinds_free_to_head:
  assumes "gc_kind s b = AT_FREE" "b div 4 < length (gc_alloc_table s)"
  shows "gc_kind (with_table s (ATB_FREE_TO_HEAD (gc_alloc_table s) b)) b' = (if b' = b then AT_HEAD else gc_kind s b')"
proof -
  have "ATB_GET_KIND (gc_alloc_table s) b = AT_FREE" using assms by (simp add: gc_kind_def)
  then show ?thesis using kind_free_to_head [OF assms(2), of b'] assms(2) by (auto simp: gc_kind_def)
qed

text \<open>An object keeps its chain when its blocks keep their kinds and no tail follows.\<close>

lemma chain_frame:
  assumes "\<And>b. b \<in> chain_blocks s h \<Longrightarrow> b \<noteq> h \<Longrightarrow> gc_kind s' b = AT_TAIL"
    and "gc_kind s' (h + chain_length s h) \<noteq> AT_TAIL"
  shows "chain_length s' h = chain_length s h \<and> chain_blocks s' h = chain_blocks s h"
proof -
  have l: "chain_length s' h = chain_length s h"
  proof (rule chain_length_eqI)
    show "\<forall>j. 0 < j \<longrightarrow> j < chain_length s h \<longrightarrow> gc_kind s' (h + j) = AT_TAIL"
      using assms(1) by (auto simp: chain_blocks_def)
  qed (use assms(2) in \<open>simp_all add: chain_length_def\<close>)
  then show ?thesis by (simp add: chain_blocks_def)
qed

text \<open>\<open>s'\<close> has one chain more than \<open>s\<close>: \<open>n\<close> blocks from \<open>h\<close>, where \<open>s\<close> was free.\<close>

definition adds_chain :: "gc \<Rightarrow> gc \<Rightarrow> nat \<Rightarrow> nat \<Rightarrow> bool" where
  "adds_chain s s' h n \<longleftrightarrow>
     0 < n \<and> h + n \<le> gc_num_blocks s \<and> free_run s h n \<and>
     (\<forall>b. gc_kind s' b = (if b = h then AT_HEAD else if h < b \<and> b < h + n then AT_TAIL else gc_kind s b))"

lemma free_run_iff: "free_run s h n \<longleftrightarrow> (\<forall>b. h \<le> b \<longrightarrow> b < h + n \<longrightarrow> gc_kind s b = AT_FREE)"
proof
  assume "free_run s h n"
  then show "\<forall>b. h \<le> b \<longrightarrow> b < h + n \<longrightarrow> gc_kind s b = AT_FREE"
    unfolding free_run_def by (metis le_Suc_ex nat_add_left_cancel_less)
qed (simp add: free_run_def)

lemma tail_has_pred: "heap_shape s \<Longrightarrow> gc_kind s b = AT_TAIL \<Longrightarrow> b \<noteq> 0 \<and> gc_kind s (b - 1) \<noteq> AT_FREE"
  by (simp add: heap_shape_def)

lemma in_chain_used: "is_obj s h \<Longrightarrow> b \<in> chain_blocks s h \<Longrightarrow> gc_kind s b \<noteq> AT_FREE"
  using chain_tails [of b s h] by (cases "b = h") (auto simp: is_obj_def)

lemma adds_chain_chains:
  assumes "heap_shape s" "adds_chain s s' h n"
  shows "chain_length s' h = n" "is_obj s' h" "\<And>b. is_obj s' b \<longleftrightarrow> b = h \<or> is_obj s b"
    "\<And>b. is_obj s b \<Longrightarrow> chain_length s' b = chain_length s b \<and> chain_blocks s' b \<inter> {h ..< h + n} = {}"
proof -
  have n: "0 < n" and fr: "\<And>b. h \<le> b \<Longrightarrow> b < h + n \<Longrightarrow> gc_kind s b = AT_FREE"
    and k: "\<And>b. gc_kind s' b = (if b = h then AT_HEAD else if h < b \<and> b < h + n then AT_TAIL else gc_kind s b)"
    using assms(2) by (auto simp: adds_chain_def free_run_iff)
  have fe: "gc_kind s (h + n) \<noteq> AT_TAIL"
    using tail_has_pred [OF assms(1), of "h + n"] fr [of "h + n - 1"] n by auto
  show "chain_length s' h = n"
    by (rule chain_length_eqI) (use n fe in \<open>auto simp: k\<close>)
  show "is_obj s' h" by (simp add: is_obj_def k)
  show "is_obj s' b \<longleftrightarrow> b = h \<or> is_obj s b" for b
    using fr [of b] by (auto simp: is_obj_def k)
  show "chain_length s' b = chain_length s b \<and> chain_blocks s' b \<inter> {h ..< h + n} = {}" if b: "is_obj s b" for b
  proof -
    have out: "c < h \<or> h + n \<le> c" if "c \<in> chain_blocks s b" for c
      using in_chain_used [OF b that] fr [of c] by linarith
    have last: "b + chain_length s b - 1 \<in> chain_blocks s b" by (auto simp: chain_blocks_def chain_length_def)
    have "chain_length s' b = chain_length s b \<and> chain_blocks s' b = chain_blocks s b"
    proof (rule chain_frame)
      fix c assume c: "c \<in> chain_blocks s b" "c \<noteq> b"
      show "gc_kind s' c = AT_TAIL" using chain_tails [OF c] out [OF c(1)] n by (auto simp: k)
    next
      have "\<not> (h < b + chain_length s b \<and> b + chain_length s b < h + n)"
        using out [OF last] by (auto simp: chain_length_def)
      then show "gc_kind s' (b + chain_length s b) \<noteq> AT_TAIL" using chain_end [of s b] by (simp add: k)
    qed
    then show ?thesis using out by fastforce
  qed
qed


lemma adds_chain_shape:
  assumes "heap_shape s" "adds_chain s s' h n" "same_area s s'"
    and "length (gc_alloc_table s') = length (gc_alloc_table s)" "length (gc_finaliser_table s') = length (gc_finaliser_table s)"
    and "gc_last_used_block s \<le> gc_last_used_block s'" "h + n \<le> gc_last_used_block s' + 1" "gc_last_used_block s' \<le> gc_num_blocks s"
  shows "heap_shape s'"
proof -
  have n: "0 < n" "h + n \<le> gc_num_blocks s"
    and k: "\<And>b. gc_kind s' b = (if b = h then AT_HEAD else if h < b \<and> b < h + n then AT_TAIL else gc_kind s b)"
    using assms(2) by (auto simp: adds_chain_def)
  have a: "gc_pool_start s' = gc_pool_start s" "gc_pool_end s' = gc_pool_end s"
    "gc_alloc_table_byte_len s' = gc_alloc_table_byte_len s" using assms(3) by (simp_all add: same_area_def)
  have sh: "\<And>b. gc_num_blocks s \<le> b \<Longrightarrow> gc_kind s b = AT_FREE"
    "\<And>b. gc_kind s b = AT_TAIL \<Longrightarrow> b \<noteq> 0 \<and> gc_kind s (b - 1) \<noteq> AT_FREE"
    "\<And>b. gc_kind s b \<noteq> AT_FREE \<Longrightarrow> b \<le> gc_last_used_block s"
    using assms(1) by (simp_all add: heap_shape_def)
  have 1: "\<forall>b \<ge> gc_num_blocks s. gc_kind s' b = AT_FREE" using n sh(1) by (simp add: k)
  have 2: "\<forall>b. gc_kind s' b = AT_TAIL \<longrightarrow> b \<noteq> 0 \<and> gc_kind s' (b - 1) \<noteq> AT_FREE"
  proof (intro allI impI)
    fix b assume t: "gc_kind s' b = AT_TAIL"
    show "b \<noteq> 0 \<and> gc_kind s' (b - 1) \<noteq> AT_FREE"
    proof (cases "h < b \<and> b < h + n")
      case True
      then show ?thesis by (auto simp: k)
    next
      case False
      then have "gc_kind s b = AT_TAIL" using t by (auto simp: k split: if_splits)
      from sh(2) [OF this] show ?thesis by (auto simp: k)
    qed
  qed
  have 3: "\<forall>b. gc_kind s' b \<noteq> AT_FREE \<longrightarrow> b \<le> gc_last_used_block s'"
  proof (intro allI impI)
    fix b assume u: "gc_kind s' b \<noteq> AT_FREE"
    show "b \<le> gc_last_used_block s'"
    proof (cases "h \<le> b \<and> b < h + n")
      case False
      then have "gc_kind s b \<noteq> AT_FREE" using u n(1) by (auto simp: k split: if_splits)
      from sh(3) [OF this] assms(6) show ?thesis by simp
    qed (use assms(7) in simp)
  qed
  show ?thesis using assms 1 2 3 unfolding heap_shape_def a by simp
qed

lemma mem_read_replicate: "(\<And>i. i < n \<Longrightarrow> m (a + of_nat i) = 0) \<Longrightarrow> mem_read m a n = replicate n 0"
  by (rule nth_equalityI) simp_all

lemma block_data_write:
  assumes "heap_shape s" "b + k \<le> gc_num_blocks s" "length bs = 16 * k" "c < gc_num_blocks s"
    and "gc_mem s' = mem_write (gc_mem s) (PTR_FROM_BLOCK s b) bs" "gc_pool_start s' = gc_pool_start s"
  shows "block_data s' c = (if b \<le> c \<and> c < b + k then take 16 (drop (16 * (c - b)) bs) else block_data s c)"
proof -
  have p: "PTR_FROM_BLOCK s' c = PTR_FROM_BLOCK s c" using assms(6) by (simp add: PTR_FROM_BLOCK_def)
  show ?thesis
  proof (cases "b \<le> c \<and> c < b + k")
    case True
    have "mem_read (gc_mem s') (PTR_FROM_BLOCK s c) 16 = take 16 (drop (16 * (c - b)) bs)"
    proof (rule nth_equalityI)
      have "16 * (c - b) + 16 \<le> 16 * k" using True by linarith
      then show "length (mem_read (gc_mem s') (PTR_FROM_BLOCK s c) 16) = length (take 16 (drop (16 * (c - b)) bs))"
        using assms(3) by simp
      fix i assume i: "i < length (mem_read (gc_mem s') (PTR_FROM_BLOCK s c) 16)"
      then have "i < 16" "16 * (c - b) + i < length bs" "c - b < k" using True assms(3) by auto
      then show "mem_read (gc_mem s') (PTR_FROM_BLOCK s c) 16 ! i = take 16 (drop (16 * (c - b)) bs) ! i"
        using block_write_inside [OF assms(1,2,3), of "c - b" i] True assms(5) by simp
    qed
    then show ?thesis using True p by (simp add: block_data_def)
  next
    case False
    have "mem_read (gc_mem s') (PTR_FROM_BLOCK s c) 16 = mem_read (gc_mem s) (PTR_FROM_BLOCK s c) 16"
    proof (rule mem_read_cong)
      fix i :: nat assume "i < 16"
      then show "gc_mem s' (PTR_FROM_BLOCK s c + of_nat i) = gc_mem s (PTR_FROM_BLOCK s c + of_nat i)"
        using block_write_outside [OF assms(1,4,2), of bs i] False assms(3,5) by auto
    qed
    then show ?thesis unfolding block_data_def p using False by auto
  qed
qed

lemma mem_zero_twice:
  assumes "k \<le> n"
  shows "mem_zero (mem_zero m a n) a k = mem_zero m a n"
  using assms by (auto simp: mem_zero_def mem_write_def)

lemma take_run_eq:
  assumes "h = e + 1 - n" "n \<le> e + 1" "0 < n"
  shows "take_run s e n n fin = (PTR_FROM_BLOCK s h,
    s\<lparr>gc_last_free_atb_index := (if n = 1 then (e + 1) div 4 else gc_last_free_atb_index s),
      gc_last_used_block := max (gc_last_used_block s) e,
      gc_alloc_table := foldl ATB_FREE_TO_TAIL (ATB_FREE_TO_HEAD (gc_alloc_table s) h) [h + 1 ..< e + 1],
      gc_alloc_amount := gc_alloc_amount s + of_nat n, gc_mem := mem_zero (gc_mem s) (PTR_FROM_BLOCK s h) (n * 16),
      gc_finaliser_table := (if fin then FTB_SET (gc_finaliser_table s) h else gc_finaliser_table s)\<rparr>)"
proof -
  have en: "e + 1 - h = n" using assms by simp
  have z: "mem_zero (mem_zero (gc_mem s) p (n * 16)) p 4 = mem_zero (gc_mem s) p (n * 16)" for p
    by (rule mem_zero_twice) (use assms(3) in simp)
  show ?thesis
    unfolding take_run_def Let_def assms(1) [symmetric] en by (cases fin) (simp_all add: z del: upt_Suc)
qed

lemma take_run_ok:
  assumes "gc_inv s" "hit s 0 n (e, nf)" "e < gc_num_blocks s" "0 < n" "take_run s e nf n fin = (p, s')"
  shows "p = PTR_FROM_BLOCK s (e + 1 - n) \<and> adds_chain s s' (e + 1 - n) n \<and> gc_inv s' \<and> same_area s s' \<and>
    (\<forall>b < gc_num_blocks s. block_data s' b = (if e + 1 - n \<le> b \<and> b < e + 1 then replicate 16 0 else block_data s b))"
proof -
  let ?h = "e + 1 - n"
  have sh: "heap_shape s" and nm: "marked s = {}" using assms(1) by (simp_all add: gc_inv_def)
  have nf: "nf = n" and n: "n \<le> e + 1" and fr: "free_run s ?h n" and first: "no_run s 0 e n"
    using assms(2) by (auto simp: hit_def)
  have free: "gc_kind s b = AT_FREE \<and> b div 4 < length (gc_alloc_table s)" if "?h \<le> b" "b < e + 1" for b
    using fr that n assms(3) in_table [OF sh, of b] by (simp add: free_run_iff)
  let ?t1 = "ATB_FREE_TO_HEAD (gc_alloc_table s) ?h"
  let ?t = "foldl ATB_FREE_TO_TAIL ?t1 [?h + 1 ..< e + 1]"
  have h: "gc_kind (with_table s ?t1) b = (if b = ?h then AT_HEAD else gc_kind s b)" for b
    by (rule kinds_free_to_head) (use free [of ?h] n assms(4) in auto)
  have t: "gc_kind (with_table s ?t) b = (if ?h + 1 \<le> b \<and> b < e + 1 then AT_TAIL else gc_kind (with_table s ?t1) b)"
    "length ?t = length (gc_alloc_table s)" for b
    using kinds_free_to_tail [of "?h + 1" "e + 1" s ?t1 b] h free by auto
  have k: "gc_kind (with_table s ?t) b = (if b = ?h then AT_HEAD else if ?h < b \<and> b < e + 1 then AT_TAIL else gc_kind s b)" for b
    unfolding t h by auto
  define z where "z = mem_zero (gc_mem s) (PTR_FROM_BLOCK s ?h) (n * 16)"
  define i' where "i' = (if n = 1 then (e + 1) div 4 else gc_last_free_atb_index s)"
  define f' where "f' = (if fin then FTB_SET (gc_finaliser_table s) ?h else gc_finaliser_table s)"
  have p: "p = PTR_FROM_BLOCK s ?h" and s': "s' = s\<lparr>gc_last_free_atb_index := i', gc_last_used_block := max (gc_last_used_block s) e,
      gc_alloc_table := ?t, gc_alloc_amount := gc_alloc_amount s + of_nat n, gc_mem := z, gc_finaliser_table := f'\<rparr>"
    using assms(5) unfolding nf take_run_eq [OF refl n assms(4)] i'_def f'_def z_def by blast+
  have ks: "gc_kind s' b = (if b = ?h then AT_HEAD else if ?h < b \<and> b < e + 1 then AT_TAIL else gc_kind s b)" for b
    unfolding k [symmetric] by (rule gc_kind_table) (simp add: s')
  have area: "same_area s s'" by (simp add: s' same_area_def)
  have ac: "adds_chain s s' ?h n"
    unfolding adds_chain_def using assms(3,4) n fr ks by simp
  have lu: "gc_last_used_block s \<le> gc_num_blocks s" using sh by (simp add: heap_shape_def)
  have shape: "heap_shape s'"
    by (rule adds_chain_shape [OF sh ac area]) (use t(2) n lu assms(3) in \<open>auto simp: s' f'_def\<close>)
  have nm': "marked s' = {}" using nm by (auto simp: marked_def ks)
  have idx: "i' \<le> gc_alloc_table_byte_len s \<and> (\<forall>b < 4 * i'. gc_kind s' b \<noteq> AT_FREE)"
  proof (cases "n = 1")
    case True
    have "gc_kind s' b \<noteq> AT_FREE" if "b < 4 * ((e + 1) div 4)" for b
    proof (cases "b = e")
      case False
      then have "b < e" using that by linarith
      then have "\<not> free_run s b 1" using first True by (auto simp: no_run_def)
      then show ?thesis using False True by (simp add: ks free_run_def)
    qed (use True in \<open>simp add: ks\<close>)
    moreover have "(e + 1) div 4 \<le> gc_alloc_table_byte_len s" using assms(3) by linarith
    ultimately show ?thesis using True by (simp add: i'_def)
  next
    case False
    then show ?thesis using assms(1) by (simp add: i'_def gc_inv_def ks)
  qed
  have inv: "gc_inv s'" using shape nm' idx assms(1) by (simp add: gc_inv_def) (simp add: s')
  have data: "block_data s' b = (if ?h \<le> b \<and> b < e + 1 then replicate 16 0 else block_data s b)" if "b < gc_num_blocks s" for b
  proof -
    have "block_data s' b = (if ?h \<le> b \<and> b < ?h + n then take 16 (drop (16 * (b - ?h)) (replicate (n * 16) 0)) else block_data s b)"
      by (rule block_data_write [OF sh _ _ that]) (use n assms(3) in \<open>simp_all add: s' z_def mem_zero_def\<close>)
    moreover have "n * 16 - 16 * (b - ?h) \<ge> 16" if "?h \<le> b \<and> b < ?h + n" using that by linarith
    ultimately show ?thesis using n by (simp add: min_def)
  qed
  show ?thesis using p ac inv area data by blast
qed


section \<open>Allocation\<close>

text \<open>A successful allocation adds a chain to the heap as it was, or as a collection left it; it fails
  only for nothing to allocate, a locked heap, or a heap that after collection has no run left.\<close>

lemma gc_alloc_cases:
  assumes "gc_inv s" "del_ok env" "gc_alloc env s n_bytes fin = (p, s')"
  obtains (null) "p = 0" "s' = s" "blocks_needed n_bytes = 0 \<or> gc_lock_depth s > 0"
  | (full) "p = 0" "s' = (if gc_auto_collect_enabled s then gc_collect env s else s)"
      "0 < blocks_needed n_bytes" "no_run s' 0 (gc_num_blocks s') (blocks_needed n_bytes)" "gc_inv s'"
  | (found) s0 h where "s0 = s \<or> s0 = gc_collect env s \<and> gc_auto_collect_enabled s" "gc_inv s0" "same_area s s0"
      "p = PTR_FROM_BLOCK s h" "adds_chain s0 s' h (blocks_needed n_bytes)"
      "gc_inv s'" "same_area s s'"
      "\<forall>b < gc_num_blocks s. block_data s' b = (if h \<le> b \<and> b < h + blocks_needed n_bytes then replicate 16 0 else block_data s0 b)"
proof -
  let ?n = "blocks_needed n_bytes"
  show ?thesis
  proof (cases "?n = 0 \<or> gc_lock_depth s > 0")
    case True
    then have "gc_alloc env s n_bytes fin = (0, s)" unfolding gc_alloc_def Let_def by (elim disjE) simp_all
    then show ?thesis using assms(3) null True by simp
  next
    case False
    then have n: "0 < ?n" by simp
    have c: "gc_inv (gc_collect env s)" "same_area s (gc_collect env s)" using collect_ok [OF assms(1,2)] by blast+
    have run: thesis if s0: "s0 = s \<or> s0 = gc_collect env s \<and> gc_auto_collect_enabled s"
      and f: "find_run s0 ?n = Some (e, nf)" and r: "take_run s0 e nf ?n fin = (p, s')" for s0 e nf
    proof -
      have i0: "gc_inv s0" "same_area s s0" using s0 assms(1) c by auto
      have hit: "hit s0 0 ?n (e, nf)" "e < gc_num_blocks s0" using find_run_ok [OF i0(1) n] f by simp_all
      then have le: "?n \<le> e + 1" by (simp add: hit_def)
      note t = take_run_ok [OF i0(1) hit n r]
      have eq: "e + 1 - ?n + ?n = e + 1" using le by simp
      have "gc_pool_start s0 = gc_pool_start s" "gc_num_blocks s0 = gc_num_blocks s" using i0(2) by (simp_all add: same_area_def)
      then show thesis
        using found [of s0 "e + 1 - ?n"] s0 i0 t same_area_trans [OF i0(2)] unfolding eq by (simp add: PTR_FROM_BLOCK_def)
    qed
    have no: thesis if "p = 0" "s' = (if gc_auto_collect_enabled s then gc_collect env s else s)" "find_run s' ?n = None"
    proof -
      have "gc_inv s'" using that(2) assms(1) c(1) by simp
      then show thesis using full [OF that(1,2) n] find_run_ok [of s' ?n] n that(3) by simp
    qed
    define over where "over \<longleftrightarrow> gc_auto_collect_enabled s \<and> gc_alloc_amount s \<ge> gc_alloc_threshold s"
    define s0 where "s0 = (if over then gc_collect env s else s)"
    have s0: "s0 = s \<or> s0 = gc_collect env s \<and> gc_auto_collect_enabled s" by (simp add: s0_def over_def)
    have e: "(case find_run s0 ?n of Some (i, n_free) \<Rightarrow> take_run s0 i n_free ?n fin
        | None \<Rightarrow> (if \<not> gc_auto_collect_enabled s \<or> over then (0, s0)
            else case find_run (gc_collect env s0) ?n of Some (i, n_free) \<Rightarrow> take_run (gc_collect env s0) i n_free ?n fin
              | None \<Rightarrow> (0, gc_collect env s0))) = (p, s')"
      using assms(3) False unfolding gc_alloc_def Let_def s0_def over_def de_Morgan_disj
      by (simp only: if_False not_not)
    show ?thesis
    proof (cases "find_run s0 ?n")
      case (Some r)
      then show ?thesis using e run [OF s0] by (cases r) simp
    next
      case None
      show ?thesis
      proof (cases "\<not> gc_auto_collect_enabled s \<or> over")
        case True
        then have "p = 0" "s' = s0" using e None by simp_all
        then show ?thesis using no None True by (auto simp: s0_def over_def)
      next
        case auto: False
        then have s: "s0 = s" by (simp add: s0_def)
        show ?thesis
        proof (cases "find_run (gc_collect env s) ?n")
          case None
          then show ?thesis using e auto \<open>find_run s0 ?n = None\<close> no by (simp add: s)
        next
          case (Some r)
          then show ?thesis using e auto None run [of "gc_collect env s"] by (cases r) (simp add: s)
        qed
      qed
    qed
  qed
qed

section \<open>Freeing\<close>

lemma gc_kind_any_to_free:
  "b div 4 < length t \<Longrightarrow> gc_kind (with_table s (ATB_ANY_TO_FREE t b)) c = (if c = b then AT_FREE else gc_kind (with_table s t) c)"
  using kind_any_to_free [of b t c] by (auto simp: gc_kind_def)

lemma count_tails_cong:
  assumes "\<And>c. b \<le> c \<Longrightarrow> gc_kind s' c = gc_kind s c" "length (gc_alloc_table s') = length (gc_alloc_table s)"
  shows "count_tails s' b = count_tails s b"
  using assms
proof (induction s b rule: count_tails.induct)
  case (1 s b)
  then show ?case by (subst count_tails.simps, subst (2) count_tails.simps) simp
qed

lemma free_loop_ok:
  assumes "b div 4 < length (gc_alloc_table s)"
  shows "\<exists>t. free_loop s b = with_table s t \<and> length t = length (gc_alloc_table s) \<and>
     (\<forall>c. gc_kind (free_loop s b) c = (if b \<le> c \<and> c < b + chain_length s b then AT_FREE else gc_kind s c))"
  using assms
proof (induction s b rule: free_loop.induct)
  case (1 s b)
  let ?s = "with_table s (ATB_ANY_TO_FREE (gc_alloc_table s) b)"
  have k: "gc_kind ?s c = (if c = b then AT_FREE else gc_kind s c)" for c
    using gc_kind_any_to_free [OF "1.prems", of s c] by simp
  have u: "s\<lparr>gc_alloc_table := ATB_ANY_TO_FREE (gc_alloc_table s) b\<rparr> = ?s" by (simp add: with_table_def)
  show ?case
  proof (cases "(b + 1) div 4 < length (gc_alloc_table s) \<and> gc_kind ?s (b + 1) = AT_TAIL")
    case True
    then have e: "free_loop s b = free_loop ?s (b + 1)" by (subst free_loop.simps) (simp add: u Let_def)
    have "(b + 1) div 4 < length (gc_alloc_table ?s)" using True by simp
    from "1.IH" [unfolded u, OF refl True this] obtain t where t: "free_loop ?s (b + 1) = with_table ?s t" "length t = length (gc_alloc_table s)"
      "\<And>c. gc_kind (free_loop ?s (b + 1)) c = (if b + 1 \<le> c \<and> c < b + 1 + chain_length ?s (b + 1) then AT_FREE else gc_kind ?s c)"
      by auto
    have "chain_length ?s (b + 1) = chain_length s (b + 1)"
      unfolding chain_length_def by (subst count_tails_cong [of "b + 1 + 1" ?s s]) (simp_all add: k)
    moreover have "chain_length s b = Suc (chain_length s (b + 1))"
      unfolding chain_length_def using True k [of "b + 1"] by (subst count_tails.simps) simp
    ultimately show ?thesis unfolding e using t by (intro exI [of _ t]) (auto simp: k)
  next
    case False
    then have e: "free_loop s b = ?s" by (subst free_loop.simps) (auto simp: u Let_def)
    have "chain_length s b = 1"
      unfolding chain_length_def using False k [of "b + 1"] by (subst count_tails.simps) auto
    then show ?thesis unfolding e by (intro exI [of _ "ATB_ANY_TO_FREE (gc_alloc_table s) b"]) (auto simp: k)
  qed
qed

text \<open>\<open>s'\<close> is \<open>s\<close> without the \<open>n\<close> blocks from \<open>h\<close> on.\<close>

definition drops_blocks :: "gc \<Rightarrow> gc \<Rightarrow> nat \<Rightarrow> nat \<Rightarrow> bool" where
  "drops_blocks s s' h n \<longleftrightarrow> (\<forall>b. gc_kind s' b = (if h \<le> b \<and> b < h + n then AT_FREE else gc_kind s b))"

lemma drops_blocks_shape:
  assumes "heap_shape s" "drops_blocks s s' h n" "gc_kind s (h + n) \<noteq> AT_TAIL" "same_area s s'"
    and "length (gc_alloc_table s') = length (gc_alloc_table s)" "length (gc_finaliser_table s') = length (gc_finaliser_table s)"
    and "gc_last_used_block s' = gc_last_used_block s"
  shows "heap_shape s'"
proof -
  have k: "gc_kind s' b = (if h \<le> b \<and> b < h + n then AT_FREE else gc_kind s b)" for b
    using assms(2) by (simp add: drops_blocks_def)
  have a: "gc_pool_start s' = gc_pool_start s" "gc_pool_end s' = gc_pool_end s"
    "gc_alloc_table_byte_len s' = gc_alloc_table_byte_len s" using assms(4) by (simp_all add: same_area_def)
  have 2: "\<forall>b. gc_kind s' b = AT_TAIL \<longrightarrow> b \<noteq> 0 \<and> gc_kind s' (b - 1) \<noteq> AT_FREE"
  proof (intro allI impI)
    fix b assume t: "gc_kind s' b = AT_TAIL"
    then have kb: "gc_kind s b = AT_TAIL" "\<not> (h \<le> b \<and> b < h + n)" by (auto simp: k split: if_splits)
    from tail_has_pred [OF assms(1) kb(1)] have p: "b \<noteq> 0" "gc_kind s (b - 1) \<noteq> AT_FREE" by simp_all
    have "b \<noteq> h + n" using kb(1) assms(3) by auto
    then have "\<not> (h \<le> b - 1 \<and> b - 1 < h + n)" using kb(2) p(1) by linarith
    then show "b \<noteq> 0 \<and> gc_kind s' (b - 1) \<noteq> AT_FREE" using p by (simp add: k)
  qed
  show ?thesis
    using assms(1,5,6,7) 2 unfolding heap_shape_def a by (simp add: k)
qed

text \<open>The start of the next scan stays below the first free block.\<close>

lemma index_lowered:
  assumes "gc_inv s" "drops_blocks s s' h n" "h < gc_num_blocks s"
    "gc_last_free_atb_index s' = (if h div 4 < gc_last_free_atb_index s then h div 4 else gc_last_free_atb_index s)"
    "gc_alloc_table_byte_len s' = gc_alloc_table_byte_len s"
  shows "gc_last_free_atb_index s' \<le> gc_alloc_table_byte_len s' \<and> (\<forall>b < 4 * gc_last_free_atb_index s'. gc_kind s' b \<noteq> AT_FREE)"
proof -
  have "\<forall>b < 4 * gc_last_free_atb_index s. gc_kind s b \<noteq> AT_FREE" "gc_last_free_atb_index s \<le> gc_alloc_table_byte_len s"
    using assms(1) by (simp_all add: gc_inv_def)
  moreover have "b < h" if "b < 4 * gc_last_free_atb_index s'" for b
    using that assms(4) by (auto split: if_splits)
  ultimately show ?thesis using assms(2,4,5) by (auto simp: drops_blocks_def)
qed

lemma drops_blocks_marked: "drops_blocks s s' h n \<Longrightarrow> marked s = {} \<Longrightarrow> marked s' = {}"
  by (auto simp: drops_blocks_def marked_def)

lemma gc_free_ok:
  assumes "gc_inv s" "gc_lock_depth s = 0" "gc_kind s h = AT_HEAD" "h < gc_num_blocks s"
  shows "drops_blocks s (gc_free s (PTR_FROM_BLOCK s h)) h (chain_length s h) \<and> gc_inv (gc_free s (PTR_FROM_BLOCK s h)) \<and>
    same_area s (gc_free s (PTR_FROM_BLOCK s h)) \<and> gc_mem (gc_free s (PTR_FROM_BLOCK s h)) = gc_mem s"
proof -
  have sh: "heap_shape s" and nm: "marked s = {}" using assms(1) by (simp_all add: gc_inv_def)
  define s1 where "s1 = s\<lparr>gc_finaliser_table := FTB_CLEAR (gc_finaliser_table s) h,
      gc_last_free_atb_index := (if h div 4 < gc_last_free_atb_index s then h div 4 else gc_last_free_atb_index s)\<rparr>"
  have k1: "gc_kind s1 b = gc_kind s b" for b by (simp add: s1_def gc_kind_def)
  have "unat (PTR_FROM_BLOCK s h) \<noteq> 0"
    using PTR_FROM_BLOCK_address [OF sh, of h] sh assms(4) by (simp add: heap_shape_def unat_eq_zero)
  then have "PTR_FROM_BLOCK s h \<noteq> 0" by auto
  then have e: "gc_free s (PTR_FROM_BLOCK s h) = free_loop s1 h"
    using assms(2) by (simp add: gc_free_def Let_def BLOCK_FROM_PTR_FROM_BLOCK [OF sh assms(4)] s1_def)
  have "h div 4 < length (gc_alloc_table s1)" using kind_in_table [of s h] assms(3) by (simp add: s1_def)
  from free_loop_ok [OF this] obtain t where t: "free_loop s1 h = with_table s1 t" "length t = length (gc_alloc_table s1)"
    and k: "\<And>c. gc_kind (free_loop s1 h) c = (if h \<le> c \<and> c < h + chain_length s1 h then AT_FREE else gc_kind s1 c)" by blast
  have l: "chain_length s1 h = chain_length s h" by (rule chain_length_kinds) (simp add: k1)
  have db: "drops_blocks s (free_loop s1 h) h (chain_length s h)"
    by (simp add: drops_blocks_def k k1 l)
  have area: "same_area s (free_loop s1 h)" unfolding t by (simp add: with_table_def s1_def same_area_def)
  have shape: "heap_shape (free_loop s1 h)"
    by (rule drops_blocks_shape [OF sh db chain_end area]) (use t(2) in \<open>simp_all add: t(1)\<close>, simp_all add: with_table_def s1_def)
  have f: "gc_last_free_atb_index (free_loop s1 h) = (if h div 4 < gc_last_free_atb_index s then h div 4 else gc_last_free_atb_index s)"
    "gc_alloc_table_byte_len (free_loop s1 h) = gc_alloc_table_byte_len s" "gc_lock_depth (free_loop s1 h) = gc_lock_depth s"
    "gc_mem (free_loop s1 h) = gc_mem s"
    unfolding t by (simp_all add: with_table_def s1_def)
  have "gc_inv (free_loop s1 h)"
    using shape drops_blocks_marked [OF db nm] index_lowered [OF assms(1) db assms(4) f(1,2)] assms(1)
    by (simp add: gc_inv_def f(3))
  then show ?thesis unfolding e using db area f(4) by blast
qed


section \<open>Resizing\<close>

lemma chain_in_pool:
  assumes "heap_shape s" "is_obj s h"
  shows "h + chain_length s h \<le> gc_num_blocks s"
proof -
  have "h + chain_length s h - 1 \<in> chain_blocks s h" by (auto simp: chain_blocks_def chain_length_def)
  then have "h + chain_length s h - 1 < gc_num_blocks s"
    using used_in_pool [OF assms(1)] in_chain_used [OF assms(2)] by blast
  then show ?thesis by simp
qed

lemma realloc_count_ok:
  assumes "heap_shape s" "is_obj s h" "free_run s (h + chain_length s h) nf" "h + chain_length s h + nf \<le> gc_num_blocks s"
    and "nf = 0 \<and> nb \<le> chain_length s h \<and> bl = h + nb \<and> 0 < nb \<or> nb = chain_length s h \<and> bl = h + chain_length s h + nf"
  shows "\<exists>nf'. realloc_count s new bl nb nf = (chain_length s h, nf') \<and> free_run s (h + chain_length s h) nf' \<and>
    h + chain_length s h + nf' \<le> gc_num_blocks s"
  using assms
proof (induction s new bl nb nf rule: realloc_count.induct)
  case (1 s new bl nb nf)
  let ?cl = "chain_length s h"
  show ?case
  proof (cases "nf = 0 \<and> nb < ?cl \<and> bl = h + nb \<and> 0 < nb")
    case True
    then have t: "gc_kind s bl = AT_TAIL" by (intro chain_tails [of _ s h]) (auto simp: chain_blocks_def)
    then have b: "bl < gc_num_blocks s" using used_in_pool [OF "1.prems"(1), of bl] by simp
    have "realloc_count s new bl nb nf = realloc_count s new (bl + 1) (nb + 1) nf"
      using b t by (subst realloc_count.simps) simp
    with "1.IH"(1) [OF b t] "1.prems" True show ?thesis by auto
  next
    case False
    then have e: "nb = ?cl" "bl = h + ?cl + nf" using "1.prems"(5) by auto
    have nt: "gc_kind s bl \<noteq> AT_TAIL"
    proof (cases nf)
      case 0
      then show ?thesis using chain_end [of s h] e by simp
    next
      case (Suc k)
      then have "gc_kind s (bl - 1) = AT_FREE" using "1.prems"(3) e by (simp add: free_run_def)
      then show ?thesis using tail_has_pred [OF "1.prems"(1), of bl] by auto
    qed
    show ?thesis
    proof (cases "bl < gc_num_blocks s \<and> gc_kind s bl = AT_FREE")
      case True
      have fr: "free_run s (h + ?cl) (nf + 1)" using "1.prems"(3) True e by (auto simp: free_run_def less_Suc_eq)
      have le: "h + ?cl + (nf + 1) \<le> gc_num_blocks s" using True e by simp
      show ?thesis
      proof (cases "nb + (nf + 1) \<ge> new")
        case stop: True
        then have "realloc_count s new bl nb nf = (nb, nf + 1)" using True nt by (subst realloc_count.simps) simp
        then show ?thesis using fr le e by simp
      next
        case go: False
        then have "realloc_count s new bl nb nf = realloc_count s new (bl + 1) nb (nf + 1)"
          using True nt by (subst realloc_count.simps) simp
        with "1.IH"(2) [OF _ nt _ go] True "1.prems"(1,2) fr le e show ?thesis by auto
      qed
    next
      case False
      then have "realloc_count s new bl nb nf = (nb, nf)" using nt by (subst realloc_count.simps) auto
      then show ?thesis using "1.prems" e by simp
    qed
  qed
qed

text \<open>\<open>s'\<close> has the chain of \<open>h\<close> extended by \<open>k\<close> blocks.\<close>

definition extends_chain :: "gc \<Rightarrow> gc \<Rightarrow> nat \<Rightarrow> nat \<Rightarrow> bool" where
  "extends_chain s s' h k \<longleftrightarrow>
     (let e = h + chain_length s h in
      e + k \<le> gc_num_blocks s \<and> free_run s e k \<and>
      (\<forall>b. gc_kind s' b = (if e \<le> b \<and> b < e + k then AT_TAIL else gc_kind s b)))"

lemma extends_chain_chains:
  assumes "heap_shape s" "is_obj s h" "extends_chain s s' h k"
  shows "chain_length s' h = chain_length s h + k" "\<And>b. is_obj s' b \<longleftrightarrow> is_obj s b"
    "\<And>b. is_obj s b \<Longrightarrow> b \<noteq> h \<Longrightarrow> chain_length s' b = chain_length s b"
proof -
  let ?e = "h + chain_length s h"
  have fr: "\<And>b. ?e \<le> b \<Longrightarrow> b < ?e + k \<Longrightarrow> gc_kind s b = AT_FREE"
    and kk: "\<And>b. gc_kind s' b = (if ?e \<le> b \<and> b < ?e + k then AT_TAIL else gc_kind s b)"
    using assms(3) by (auto simp: extends_chain_def Let_def free_run_iff)
  have fe: "gc_kind s (?e + k) \<noteq> AT_TAIL"
  proof (cases "k = 0")
    case True
    then show ?thesis using chain_end [of s h] by simp
  next
    case False
    then show ?thesis using tail_has_pred [OF assms(1), of "?e + k"] fr [of "?e + k - 1"] by auto
  qed
  show "chain_length s' h = chain_length s h + k"
  proof (rule chain_length_eqI)
    show "\<forall>j. 0 < j \<longrightarrow> j < chain_length s h + k \<longrightarrow> gc_kind s' (h + j) = AT_TAIL"
      using chain_tails [of _ s h] by (auto simp: kk chain_blocks_def)
    show "gc_kind s' (h + (chain_length s h + k)) \<noteq> AT_TAIL" using fe by (simp add: kk add.assoc)
    show "0 < chain_length s h + k" by (simp add: chain_length_def)
  qed
  show "is_obj s' b \<longleftrightarrow> is_obj s b" for b using fr [of b] by (auto simp: is_obj_def kk)
  show "chain_length s' b = chain_length s b" if b: "is_obj s b" "b \<noteq> h" for b
  proof -
    have out: "c < ?e \<or> ?e + k \<le> c" if "c \<in> chain_blocks s b" for c
      using in_chain_used [OF b(1) that] fr [of c] by linarith
    have last: "b + chain_length s b - 1 \<in> chain_blocks s b" by (auto simp: chain_blocks_def chain_length_def)
    have ne: "b + chain_length s b \<noteq> ?e"
    proof
      assume e: "b + chain_length s b = ?e"
      show False
      proof (cases "b < h")
        case True
        then have "h \<in> chain_blocks s b" "h \<noteq> b" using e by (auto simp: chain_blocks_def chain_length_def)
        then show False using chain_tails [of h s b] assms(2) by (auto simp: is_obj_def)
      next
        case False
        then have "b \<in> chain_blocks s h" using e b(2) by (auto simp: chain_blocks_def chain_length_def)
        then show False using chain_tails [of b s h] b by (auto simp: is_obj_def)
      qed
    qed
    have "chain_length s' b = chain_length s b \<and> chain_blocks s' b = chain_blocks s b"
    proof (rule chain_frame)
      fix c assume c: "c \<in> chain_blocks s b" "c \<noteq> b"
      show "gc_kind s' c = AT_TAIL" using chain_tails [OF c] out [OF c(1)] by (auto simp: kk)
    next
      have "\<not> (?e \<le> b + chain_length s b \<and> b + chain_length s b < ?e + k)"
        using out [OF last] ne by (auto simp: chain_length_def)
      then show "gc_kind s' (b + chain_length s b) \<noteq> AT_TAIL" using chain_end [of s b] by (simp add: kk)
    qed
    then show ?thesis by blast
  qed
qed

lemma blocks_needed_realloc: "unat ((n + BYTES_PER_BLOCK - 1) div BYTES_PER_BLOCK) = blocks_needed n"
proof -
  have d: "x div 16 = drop_bit 4 x" for x :: u32 by (simp add: drop_bit_eq_div)
  have "drop_bit 4 (x AND NOT 15) = drop_bit 4 x" for x :: u32
  proof -
    have m: "(15 :: u32) = mask 4" by (simp add: mask_eq_exp_minus_1)
    show ?thesis
      unfolding m
      by (rule bit_eqI) (auto simp only: bit_drop_bit_eq o_def bit_and_iff bit_not_iff bit_mask_iff possible_bit_word
          dest: bit_imp_le_length intro: impossible_bit)
  qed
  then show ?thesis by (simp add: blocks_needed_def BYTES_PER_BLOCK_def d)
qed

lemma blocks_needed_eq:
  assumes "unat n < 2 ^ 32 - 15"
  shows "blocks_needed n = (unat n + 15) div 16"
proof -
  have "unat (n + 15) = unat n + 15" using assms by (subst unat_add_lem [THEN iffD1]) simp_all
  moreover have "n + BYTES_PER_BLOCK - 1 = n + 15" by (simp add: BYTES_PER_BLOCK_def)
  moreover have "unat (x div 16) = unat x div 16" for x :: u32 by (simp add: unat_div)
  ultimately show ?thesis by (simp only: blocks_needed_realloc [symmetric] BYTES_PER_BLOCK_def)
qed

end
