(* ===== verification/GcResize.thy ===== *)
theory GcResize
  imports GcAlloc
begin

text \<open>
  \<open>gc_realloc\<close>, branch by branch: the same size, shrinking, growing into free blocks behind the object,
  refusing to move, and moving to a new chain.
\<close>

section \<open>In place\<close>

definition realloc_args :: "gc_env \<Rightarrow> gc \<Rightarrow> nat \<Rightarrow> bool" where
  "realloc_args env s h \<longleftrightarrow>
     gc_inv s \<and> del_ok env \<and> gc_lock_depth s = 0 \<and> gc_kind s h = AT_HEAD \<and> h < gc_num_blocks s"

lemma realloc_ptr:
  assumes "heap_shape s" "h < gc_num_blocks s"
  shows "PTR_FROM_BLOCK s h \<noteq> 0"
proof -
  have "unat (PTR_FROM_BLOCK s h) \<noteq> 0"
    using PTR_FROM_BLOCK_address [OF assms(1), of h] assms by (simp add: heap_shape_def unat_eq_zero)
  then show ?thesis by auto
qed

lemma realloc_shrink:
  assumes "realloc_args env s h" "n_bytes \<noteq> 0" "blocks_needed n_bytes < chain_length s h"
    and "gc_realloc env s (PTR_FROM_BLOCK s h) n_bytes move = (p, s')"
  shows "p = PTR_FROM_BLOCK s h \<and> gc_mem s' = gc_mem s \<and> same_area s s' \<and> gc_inv s' \<and>
    drops_blocks s s' (h + blocks_needed n_bytes) (chain_length s h - blocks_needed n_bytes)"
proof -
  let ?new = "blocks_needed n_bytes" and ?n = "chain_length s h"
  have a: "gc_inv s" "gc_lock_depth s = 0" "gc_kind s h = AT_HEAD" "h < gc_num_blocks s" "heap_shape s" "marked s = {}" "is_obj s h"
    using assms(1) by (simp_all add: realloc_args_def gc_inv_def is_obj_def)
  obtain nf where c: "realloc_count s ?new (h + 1) 1 0 = (?n, nf)"
    using realloc_count_ok [OF a(5,7), of 0 1 "h + 1" ?new] chain_in_pool [OF a(5,7)] by (auto simp: free_run_def chain_length_def)
  let ?lo = "h + ?new" and ?hi = "h + ?n"
  let ?t = "foldl ATB_ANY_TO_FREE (gc_alloc_table s) [?lo ..< ?hi]"
  have s': "p = PTR_FROM_BLOCK s h" "s' = s\<lparr>gc_alloc_table := ?t, gc_last_free_atb_index :=
      (if ?lo div 4 < gc_last_free_atb_index s then ?lo div 4 else gc_last_free_atb_index s)\<rparr>"
    using assms(2,3,4) c a(2) realloc_ptr [OF a(5,4)]
    by (simp_all add: gc_realloc_def Let_def BLOCK_FROM_PTR_FROM_BLOCK [OF a(5,4)] blocks_needed_realloc)
  have hi: "?hi \<le> gc_num_blocks s" by (rule chain_in_pool [OF a(5,7)])
  have k: "gc_kind (with_table s ?t) b = (if ?lo \<le> b \<and> b < ?hi then AT_FREE else gc_kind s b)" "length ?t = length (gc_alloc_table s)" for b
    using kinds_any_to_free [of ?lo ?hi "gc_alloc_table s" s b] in_table [OF a(5)] hi by auto
  have ks: "gc_kind s' b = gc_kind (with_table s ?t) b" for b by (rule gc_kind_table) (simp add: s')
  have db: "drops_blocks s s' ?lo (?n - ?new)" using assms(3) by (simp add: drops_blocks_def ks k)
  have area: "same_area s s'" by (simp add: s' same_area_def)
  have "heap_shape s'"
    by (rule drops_blocks_shape [OF a(5) db _ area]) (use chain_end [of s h] assms(3) k(2) in \<open>simp_all add: s'\<close>)
  moreover have "gc_last_free_atb_index s' \<le> gc_alloc_table_byte_len s' \<and> (\<forall>b < 4 * gc_last_free_atb_index s'. gc_kind s' b \<noteq> AT_FREE)"
    by (rule index_lowered [OF a(1) db]) (use hi assms(3) in \<open>simp_all add: s'\<close>)
  ultimately have "gc_inv s'"
    using drops_blocks_marked [OF db a(6)] a(1,2) area by (simp add: gc_inv_def same_area_def)
  then show ?thesis using db area by (simp add: s')
qed

text \<open>The blocks that are left make up the chain.\<close>

lemma shrunk_chain:
  assumes "heap_shape s" "drops_blocks s s' (h + m) (chain_length s h - m)" "0 < m" "m < chain_length s h" "is_obj s h"
  shows "chain_length s' h = m" "is_obj s' h"
    "\<And>b. is_obj s b \<Longrightarrow> b \<noteq> h \<Longrightarrow> is_obj s' b \<and> chain_length s' b = chain_length s b"
proof -
  have k: "gc_kind s' b = (if h + m \<le> b \<and> b < h + chain_length s h then AT_FREE else gc_kind s b)" for b
    using assms(2,4) by (simp add: drops_blocks_def)
  show "chain_length s' h = m"
  proof (rule chain_length_eqI)
    show "\<forall>j. 0 < j \<longrightarrow> j < m \<longrightarrow> gc_kind s' (h + j) = AT_TAIL"
      using chain_tails [of _ s h] assms(4) by (auto simp: k chain_blocks_def)
  qed (use assms(3,4) in \<open>simp_all add: k\<close>)
  show "is_obj s' h" using assms(3,5) by (simp add: is_obj_def k)
  show "is_obj s' b \<and> chain_length s' b = chain_length s b" if b: "is_obj s b" "b \<noteq> h" for b
  proof -
    have disj: "c \<notin> chain_blocks s h" if c: "c \<in> chain_blocks s b" for c
    proof
      assume ch: "c \<in> chain_blocks s h"
      show False
      proof (cases "b < h")
        case True
        then have "h \<in> chain_blocks s b" using c ch by (auto simp: chain_blocks_def)
        then show False using chain_tails [of h s b] True assms(5) by (auto simp: is_obj_def)
      next
        case False
        then have "b \<in> chain_blocks s h" using c ch b(2) by (auto simp: chain_blocks_def)
        then show False using chain_tails [of b s h] b by (auto simp: is_obj_def)
      qed
    qed
    then have kb: "gc_kind s' c = gc_kind s c" if "c \<in> chain_blocks s b" for c
      using that disj [OF that] by (auto simp: k chain_blocks_def)
    have "chain_length s' b = chain_length s b \<and> chain_blocks s' b = chain_blocks s b"
    proof (rule chain_frame)
      fix c assume "c \<in> chain_blocks s b" "c \<noteq> b"
      then show "gc_kind s' c = AT_TAIL" using kb chain_tails by simp
    next
      show "gc_kind s' (b + chain_length s b) \<noteq> AT_TAIL" using chain_end [of s b] by (simp add: k)
    qed
    then show ?thesis using kb [OF obj_in_chain] b(1) by (simp add: is_obj_def)
  qed
qed

lemma realloc_grow:
  assumes "realloc_args env s h" "n_bytes \<noteq> 0" "chain_length s h < blocks_needed n_bytes"
    and "gc_realloc env s (PTR_FROM_BLOCK s h) n_bytes False = (p, s')" "p \<noteq> 0"
  shows "p = PTR_FROM_BLOCK s h \<and> same_area s s' \<and> gc_inv s' \<and>
    extends_chain s s' h (blocks_needed n_bytes - chain_length s h) \<and>
    (\<forall>b < gc_num_blocks s. block_data s' b =
       (if h + chain_length s h \<le> b \<and> b < h + blocks_needed n_bytes then replicate 16 0 else block_data s b))"
proof -
  let ?new = "blocks_needed n_bytes" and ?n = "chain_length s h"
  have a: "gc_inv s" "gc_lock_depth s = 0" "gc_kind s h = AT_HEAD" "h < gc_num_blocks s" "heap_shape s" "marked s = {}" "is_obj s h"
    using assms(1) by (simp_all add: realloc_args_def gc_inv_def is_obj_def)
  obtain nf where c: "realloc_count s ?new (h + 1) 1 0 = (?n, nf)" and fr: "free_run s (h + ?n) nf" and le: "h + ?n + nf \<le> gc_num_blocks s"
    using realloc_count_ok [OF a(5,7), of 0 1 "h + 1" ?new] chain_in_pool [OF a(5,7)] by (auto simp: free_run_def chain_length_def)
  let ?lo = "h + ?n" and ?hi = "h + ?new"
  let ?t = "foldl ATB_FREE_TO_TAIL (gc_alloc_table s) [?lo ..< ?hi]"
  have e: "gc_realloc env s (PTR_FROM_BLOCK s h) n_bytes False =
      (if ?new \<le> ?n + nf then (PTR_FROM_BLOCK s h, s\<lparr>gc_alloc_table := ?t, gc_last_used_block := max (gc_last_used_block s) ?hi,
          gc_mem := mem_zero (gc_mem s) (PTR_FROM_BLOCK s h + of_nat ?n * BYTES_PER_BLOCK) ((?new - ?n) * 16)\<rparr>) else (0, s))"
    using assms(2,3) c a(2) realloc_ptr [OF a(5,4)]
    by (simp add: gc_realloc_def Let_def BLOCK_FROM_PTR_FROM_BLOCK [OF a(5,4)] blocks_needed_realloc)
  then have fits: "?new \<le> ?n + nf" using assms(4,5) by (simp split: if_splits)
  have pt: "PTR_FROM_BLOCK s h + of_nat ?n * BYTES_PER_BLOCK = PTR_FROM_BLOCK s ?lo"
    by (simp add: PTR_FROM_BLOCK_def algebra_simps)
  have s': "p = PTR_FROM_BLOCK s h" "s' = s\<lparr>gc_alloc_table := ?t, gc_last_used_block := max (gc_last_used_block s) ?hi,
      gc_mem := mem_zero (gc_mem s) (PTR_FROM_BLOCK s ?lo) ((?new - ?n) * 16)\<rparr>"
    using assms(4) e fits pt by simp_all
  have free: "gc_kind s b = AT_FREE" if "?lo \<le> b" "b < ?hi" for b using fr that fits by (simp add: free_run_iff)
  have hi: "?hi \<le> gc_num_blocks s" using fits le by simp
  have k: "gc_kind (with_table s ?t) b = (if ?lo \<le> b \<and> b < ?hi then AT_TAIL else gc_kind s b)" "length ?t = length (gc_alloc_table s)" for b
    using kinds_free_to_tail [of ?lo ?hi s "gc_alloc_table s" b] in_table [OF a(5)] hi free by auto
  have ks: "gc_kind s' b = (if ?lo \<le> b \<and> b < ?hi then AT_TAIL else gc_kind s b)" for b
    unfolding k(1) [symmetric] by (rule gc_kind_table) (simp add: s')
  have area: "same_area s s'" by (simp add: s' same_area_def)
  have ext: "extends_chain s s' h (?new - ?n)"
    using assms(3) hi fits free by (simp add: extends_chain_def Let_def ks free_run_iff)
  have sh: "\<And>b. gc_num_blocks s \<le> b \<Longrightarrow> gc_kind s b = AT_FREE"
    "\<And>b. gc_kind s b = AT_TAIL \<Longrightarrow> b \<noteq> 0 \<and> gc_kind s (b - 1) \<noteq> AT_FREE"
    "\<And>b. gc_kind s b \<noteq> AT_FREE \<Longrightarrow> b \<le> gc_last_used_block s" "gc_last_used_block s \<le> gc_num_blocks s"
    using a(5) by (simp_all add: heap_shape_def)
  have last: "gc_kind s (?lo - 1) \<noteq> AT_FREE"
    by (rule in_chain_used [OF a(7)]) (auto simp: chain_blocks_def chain_length_def)
  have 2: "\<forall>b. gc_kind s' b = AT_TAIL \<longrightarrow> b \<noteq> 0 \<and> gc_kind s' (b - 1) \<noteq> AT_FREE"
  proof (intro allI impI)
    fix b assume t: "gc_kind s' b = AT_TAIL"
    show "b \<noteq> 0 \<and> gc_kind s' (b - 1) \<noteq> AT_FREE"
    proof (cases "?lo \<le> b \<and> b < ?hi")
      case True
      then show ?thesis using last by (cases "b = ?lo") (auto simp: ks chain_length_def)
    next
      case False
      then have "gc_kind s b = AT_TAIL" using t by (auto simp: ks split: if_splits)
      from sh(2) [OF this] show ?thesis by (simp add: ks)
    qed
  qed
  have 1: "\<forall>b \<ge> gc_num_blocks s. gc_kind s' b = AT_FREE" using hi sh(1) by (simp add: ks)
  have 3: "\<forall>b. gc_kind s' b \<noteq> AT_FREE \<longrightarrow> b \<le> gc_last_used_block s'"
  proof -
    have "gc_last_used_block s' = max (gc_last_used_block s) ?hi" by (simp add: s'(2))
    then show ?thesis using sh(3) by (auto simp: ks le_max_iff_disj split: if_splits)
  qed
  have "heap_shape s'"
    using a(5) 1 2 3 k(2) sh(4) hi unfolding heap_shape_def by (simp add: s')
  moreover have "marked s' = {}" using a(6) by (auto simp: marked_def ks split: if_splits)
  ultimately have inv: "gc_inv s'" using a(1) by (simp add: gc_inv_def ks) (simp add: s')
  have data: "block_data s' b = (if ?lo \<le> b \<and> b < ?hi then replicate 16 0 else block_data s b)" if "b < gc_num_blocks s" for b
  proof -
    have "block_data s' b = (if ?lo \<le> b \<and> b < ?lo + (?new - ?n) then take 16 (drop (16 * (b - ?lo)) (replicate ((?new - ?n) * 16) 0)) else block_data s b)"
      by (rule block_data_write [OF a(5) _ _ that]) (use hi assms(3) in \<open>simp_all add: s' mem_zero_def\<close>)
    moreover have "(?new - ?n) * 16 - 16 * (b - ?lo) \<ge> 16" if "?lo \<le> b \<and> b < ?hi" using that by linarith
    ultimately show ?thesis using assms(3) by (simp add: min_def)
  qed
  show ?thesis using s'(1) area inv ext data by blast
qed


section \<open>Moving\<close>

lemma chain_data_split:
  assumes "j < n"
  shows "take 16 (drop (16 * j) (mem_read (gc_mem s) (PTR_FROM_BLOCK s h) (n * 16))) = block_data s (h + j)"
proof (rule nth_equalityI)
  have le: "16 * j + 16 \<le> n * 16" using assms by linarith
  then show "length (take 16 (drop (16 * j) (mem_read (gc_mem s) (PTR_FROM_BLOCK s h) (n * 16)))) = length (block_data s (h + j))"
    by (simp add: block_data_def)
  fix i assume "i < length (take 16 (drop (16 * j) (mem_read (gc_mem s) (PTR_FROM_BLOCK s h) (n * 16))))"
  then have i: "i < 16" by simp
  have "PTR_FROM_BLOCK s h + of_nat (16 * j + i) = PTR_FROM_BLOCK s (h + j) + of_nat i"
    by (simp add: PTR_FROM_BLOCK_def BYTES_PER_BLOCK_def algebra_simps)
  then show "take 16 (drop (16 * j) (mem_read (gc_mem s) (PTR_FROM_BLOCK s h) (n * 16))) ! i = block_data s (h + j) ! i"
    using i le by (simp add: block_data_def del: of_nat_add)
qed

lemma gc_inv_mem: "gc_inv s \<Longrightarrow> gc_inv (s\<lparr>gc_mem := m\<rparr>)"
proof -
  have k: "gc_kind (s\<lparr>gc_mem := m\<rparr>) b = gc_kind s b" for b by (simp add: gc_kind_def)
  show "gc_inv s \<Longrightarrow> gc_inv (s\<lparr>gc_mem := m\<rparr>)" by (simp add: gc_inv_def heap_shape_def marked_def k)
qed

text \<open>The state in which \<open>gc_realloc\<close> allocates the new chain keeps the old one, if that is reachable.\<close>

lemma kept_through:
  assumes "gc_inv s" "del_ok env" "gc_kind s h = AT_HEAD" "s0 = s \<or> s0 = gc_collect env s"
    and "h \<in> reach s (set (concat (root_sections env)))"
  shows "gc_kind s0 h = AT_HEAD \<and> chain_length s0 h = chain_length s h"
  using assms(4)
proof
  assume s0: "s0 = gc_collect env s"
  have "kept_chains s s0 (reach s (set (concat (root_sections env))))"
    unfolding s0 using collect_ok [OF assms(1,2)] by blast
  moreover have "is_obj s h" using assms(3) by (simp add: is_obj_def)
  ultimately have "gc_kind s0 h = AT_HEAD" "chain_blocks s0 h = chain_blocks s h"
    using assms(5) unfolding kept_chains_def by blast+
  moreover have "card (chain_blocks s0 h) = chain_length s0 h" "card (chain_blocks s h) = chain_length s h"
    by (simp_all add: chain_blocks_def)
  ultimately show ?thesis by metis
qed (use assms(3) in simp)

lemma realloc_same:
  assumes "realloc_args env s h" "blocks_needed n_bytes = chain_length s h" "n_bytes \<noteq> 0"
  shows "gc_realloc env s (PTR_FROM_BLOCK s h) n_bytes move = (PTR_FROM_BLOCK s h, s)"
proof -
  have a: "gc_lock_depth s = 0" "h < gc_num_blocks s" "heap_shape s" "is_obj s h"
    using assms(1) by (simp_all add: realloc_args_def gc_inv_def is_obj_def)
  obtain nf where c: "realloc_count s (blocks_needed n_bytes) (h + 1) 1 0 = (chain_length s h, nf)"
    using realloc_count_ok [OF a(3,4), of 0 1 "h + 1" "blocks_needed n_bytes"] chain_in_pool [OF a(3,4)]
    by (auto simp: free_run_def chain_length_def)
  show ?thesis
    using assms(2,3) c a(1) realloc_ptr [OF a(3,2)]
    by (simp add: gc_realloc_def Let_def BLOCK_FROM_PTR_FROM_BLOCK [OF a(3,2)] blocks_needed_realloc)
qed

text \<open>Whether the object can stay where it is does not depend on \<open>allow_move\<close>.\<close>

lemma realloc_fits:
  assumes "realloc_args env s h" "n_bytes \<noteq> 0" "fst (gc_realloc env s (PTR_FROM_BLOCK s h) n_bytes False) \<noteq> 0"
  shows "gc_realloc env s (PTR_FROM_BLOCK s h) n_bytes move = gc_realloc env s (PTR_FROM_BLOCK s h) n_bytes False"
proof -
  have a: "gc_lock_depth s = 0" "h < gc_num_blocks s" "heap_shape s"
    using assms(1) by (simp_all add: realloc_args_def gc_inv_def)
  show ?thesis
    using assms(2,3) a(1) realloc_ptr [OF a(3,2)] by (auto simp: gc_realloc_def Let_def split: prod.splits if_splits)
qed

lemma realloc_unfit:
  assumes "realloc_args env s h" "n_bytes \<noteq> 0" "fst (gc_realloc env s (PTR_FROM_BLOCK s h) n_bytes False) = 0"
  shows "gc_realloc env s (PTR_FROM_BLOCK s h) n_bytes False = (0, s)" "chain_length s h < blocks_needed n_bytes"
    "gc_realloc env s (PTR_FROM_BLOCK s h) n_bytes True =
      (case gc_alloc env s n_bytes (FTB_GET (gc_finaliser_table s) h) of (p1, s1) \<Rightarrow>
         if p1 = 0 then (0, s1)
         else (p1, gc_free (s1\<lparr>gc_mem := mem_write (gc_mem s1) p1 (mem_read (gc_mem s1) (PTR_FROM_BLOCK s h) (chain_length s h * 16))\<rparr>)
                (PTR_FROM_BLOCK s h)))"
proof -
  have a: "gc_lock_depth s = 0" "h < gc_num_blocks s" "heap_shape s" "is_obj s h"
    using assms(1) by (simp_all add: realloc_args_def gc_inv_def is_obj_def)
  obtain nf where c: "realloc_count s (blocks_needed n_bytes) (h + 1) 1 0 = (chain_length s h, nf)"
    using realloc_count_ok [OF a(3,4), of 0 1 "h + 1" "blocks_needed n_bytes"] chain_in_pool [OF a(3,4)]
    by (auto simp: free_run_def chain_length_def)
  note u = gc_realloc_def Let_def BLOCK_FROM_PTR_FROM_BLOCK [OF a(3,2)] blocks_needed_realloc
  have big: "\<not> blocks_needed n_bytes \<le> chain_length s h + nf"
    using assms(2,3) c a(1) realloc_ptr [OF a(3,2)] by (auto simp: u split: if_splits)
  then show "chain_length s h < blocks_needed n_bytes" by simp
  show "gc_realloc env s (PTR_FROM_BLOCK s h) n_bytes False = (0, s)"
    using assms(2) c a(1) realloc_ptr [OF a(3,2)] big by (simp add: u)
  show "gc_realloc env s (PTR_FROM_BLOCK s h) n_bytes True =
      (case gc_alloc env s n_bytes (FTB_GET (gc_finaliser_table s) h) of (p1, s1) \<Rightarrow>
         if p1 = 0 then (0, s1)
         else (p1, gc_free (s1\<lparr>gc_mem := mem_write (gc_mem s1) p1 (mem_read (gc_mem s1) (PTR_FROM_BLOCK s h) (chain_length s h * 16))\<rparr>)
                (PTR_FROM_BLOCK s h)))"
    using assms(2) c a(1) realloc_ptr [OF a(3,2)] big by (simp add: u)
qed

lemma realloc_move:
  assumes "realloc_args env s h" "n_bytes \<noteq> 0" "chain_length s h < blocks_needed n_bytes"
    and "h \<in> reach s (set (concat (root_sections env)))"
    and "gc_realloc env s (PTR_FROM_BLOCK s h) n_bytes True = (p, s')" "p \<noteq> 0" "fst (gc_realloc env s (PTR_FROM_BLOCK s h) n_bytes False) = 0"
  obtains s0 h' where "s0 = s \<or> s0 = gc_collect env s" "p = PTR_FROM_BLOCK s h'" "gc_inv s'" "same_area s s'"
    "is_obj s' h'" "chain_length s' h' = blocks_needed n_bytes"
    "\<forall>j < chain_length s h. block_data s' (h' + j) = block_data s0 (h + j)"
    "\<forall>b \<in> chain_blocks s h. gc_kind s' b = AT_FREE"
proof -
  let ?new = "blocks_needed n_bytes" and ?n = "chain_length s h"
  have a: "gc_inv s" "gc_lock_depth s = 0" "gc_kind s h = AT_HEAD" "h < gc_num_blocks s" "heap_shape s" "is_obj s h" "del_ok env"
    using assms(1) by (simp_all add: realloc_args_def gc_inv_def is_obj_def)
  let ?fin = "FTB_GET (gc_finaliser_table s) h" and ?q = "PTR_FROM_BLOCK s h"
  obtain p1 s1 where g: "gc_alloc env s n_bytes ?fin = (p1, s1)" by (metis surj_pair)
  have p1: "p1 \<noteq> 0" "p = p1" and s': "s' = gc_free (s1\<lparr>gc_mem := mem_write (gc_mem s1) p1 (mem_read (gc_mem s1) ?q (?n * 16))\<rparr>) ?q"
    using realloc_unfit(3) [OF assms(1,2,7)] assms(5,6) g by (auto split: if_splits)
  from a(1) a(7) g show ?thesis
  proof (cases rule: gc_alloc_cases)
    case (found s0 h')
    let ?s2 = "s1\<lparr>gc_mem := mem_write (gc_mem s1) p1 (mem_read (gc_mem s1) ?q (?n * 16))\<rparr>"
    have s0: "s0 = s \<or> s0 = gc_collect env s" using found(1) by blast
    have keep: "gc_kind s0 h = AT_HEAD" "chain_length s0 h = ?n" using kept_through [OF a(1,7,3) s0 assms(4)] by simp_all
    have sh0: "heap_shape s0" and sh1: "heap_shape s1" using found(2,6) by (simp_all add: gc_inv_def)
    have obj0: "is_obj s0 h" using keep by (simp add: is_obj_def)
    note ac = adds_chain_chains [OF sh0 found(5)]
    have ne: "h \<noteq> h'" using found(5) keep(1) by (auto simp: adds_chain_def free_run_iff)
    have k1: "gc_kind s1 h = AT_HEAD" using found(5) keep(1) ne by (auto simp: adds_chain_def free_run_iff)
    have l1: "chain_length s1 h = ?n" "chain_blocks s1 h \<inter> {h' ..< h' + ?new} = {}" using ac(4) [OF obj0] keep(2) by auto
    have num: "gc_num_blocks s1 = gc_num_blocks s" "gc_pool_start s1 = gc_pool_start s" "gc_lock_depth s1 = 0"
      "gc_num_blocks s0 = gc_num_blocks s"
      using found(3,7) a(2) by (simp_all add: same_area_def)
    have ptr: "PTR_FROM_BLOCK s1 b = PTR_FROM_BLOCK s b" "PTR_FROM_BLOCK ?s2 b = PTR_FROM_BLOCK s b" for b
      using num(2) by (simp_all add: PTR_FROM_BLOCK_def)
    have room: "h' + ?new \<le> gc_num_blocks s1" using found(5) num by (simp add: adds_chain_def)
    have k2: "gc_kind ?s2 b = gc_kind s1 b" for b by (simp add: gc_kind_def)
    have l2: "chain_length ?s2 b = chain_length s1 b" for b by (rule chain_length_kinds) (simp only: k2)
    have i2: "gc_inv ?s2" by (rule gc_inv_mem [OF found(6)])
    have k2h: "gc_kind ?s2 h = AT_HEAD" using k1 k2 by simp
    have f: "drops_blocks ?s2 s' h ?n \<and> gc_inv s' \<and> same_area ?s2 s' \<and> gc_mem s' = gc_mem ?s2"
      using gc_free_ok [OF i2 _ k2h] num a(4) l1(1) l2 unfolding s' ptr(2) by simp
    have data: "block_data s' (h' + j) = block_data s0 (h + j)" if j: "j < ?n" for j
    proof -
      have lt: "h' + j < gc_num_blocks s1" "h + j < gc_num_blocks s"
        using room assms(3) j chain_in_pool [OF a(5,6)] by simp_all
      have "block_data s' (h' + j) = (if h' \<le> h' + j \<and> h' + j < h' + ?n then take 16 (drop (16 * (h' + j - h')) (mem_read (gc_mem s1) ?q (?n * 16))) else block_data s1 (h' + j))"
        by (rule block_data_write [OF sh1 _ _ lt(1)])
          (use room assms(3) f p1(2) found(4) ptr in \<open>simp_all add: same_area_def\<close>)
      then have "block_data s' (h' + j) = block_data s1 (h + j)"
        using chain_data_split [OF j, of s1 h] j ptr(1) by simp
      moreover have "\<not> (h' \<le> h + j \<and> h + j < h' + ?new)" using l1 j by (auto simp: chain_blocks_def)
      ultimately show ?thesis using found(8) lt(2) by auto
    qed
    have kp: "gc_kind s' b = (if h \<le> b \<and> b < h + ?n then AT_FREE else gc_kind s1 b)" for b
      using f k2 by (simp add: drops_blocks_def)
    have new: "chain_length s1 h' = ?new" "is_obj s1 h'" using ac(1,2) by simp_all
    have out: "b \<in> chain_blocks s1 h' \<Longrightarrow> \<not> (h \<le> b \<and> b < h + ?n)" for b
      using l1 new(1) by (auto simp: chain_blocks_def)
    have "chain_length s' h' = chain_length s1 h' \<and> chain_blocks s' h' = chain_blocks s1 h'"
    proof (rule chain_frame)
      fix b assume "b \<in> chain_blocks s1 h'" "b \<noteq> h'"
      then show "gc_kind s' b = AT_TAIL" using out chain_tails kp by simp
    next
      show "gc_kind s' (h' + chain_length s1 h') \<noteq> AT_TAIL" using chain_end [of s1 h'] by (simp add: kp)
    qed
    then have len: "chain_length s' h' = ?new" using new(1) by simp
    have obj: "is_obj s' h'" using new(2) out [OF obj_in_chain] by (simp add: is_obj_def kp)
    have gone: "\<forall>b \<in> chain_blocks s h. gc_kind s' b = AT_FREE" by (simp add: kp chain_blocks_def)
    have area: "same_area s s'" using f found(7) by (simp add: same_area_def)
    have ph: "p = PTR_FROM_BLOCK s h'" using found(4) p1(2) by simp
    have inv: "gc_inv s'" using f by blast
    show ?thesis by (rule that [OF s0 ph inv area obj len _ gone]) (use data in blast)
  qed (use p1 in auto)
qed

text \<open>With a request whose size overflows when it is rounded up, the whole chain is given back and the
  pointer to it is returned.\<close>

lemma realloc_wraps:
  assumes "unat n_bytes \<ge> 2 ^ 32 - 15"
  shows "blocks_needed n_bytes = 0"
proof -
  have "unat (n_bytes + 15) = (unat n_bytes + 15) mod 4294967296" by (simp add: unat_word_ariths)
  moreover have "unat n_bytes < 4294967296" using unsigned_less [of n_bytes] by simp
  moreover have "unat n_bytes \<ge> 4294967281" using assms by simp
  ultimately have "unat (n_bytes + 15) < 16" by (simp add: le_mod_geq)
  moreover have "n_bytes + BYTES_PER_BLOCK - 1 = n_bytes + 15" by (simp add: BYTES_PER_BLOCK_def)
  moreover have "unat (x div 16) = unat x div 16" for x :: u32 by (simp add: unat_div)
  ultimately show ?thesis by (simp only: blocks_needed_realloc [symmetric] BYTES_PER_BLOCK_def div_less)
qed

end
