(* ===== verification/GcProps.thy ===== *)
theory GcProps
  imports GcResize
begin

text \<open>
  The properties of the collector, the contract of an allocator as a locale with its interpretation on
  \<open>gc_alloc\<close> and \<open>gc_free\<close>, and the steps of a program on the heap as an inductive relation.
\<close>

section \<open>A fresh heap\<close>

lemma kind_fresh: "gc_kind (s\<lparr>gc_alloc_table := replicate n 0\<rparr>) b = AT_FREE"
  by (simp add: gc_kind_def kind_two_bits two_bits_def)

lemma setup_fits:
  assumes "a = gc_atb_len t" "0 < t"
  shows "65 * a + 1 + gc_ftb_len a \<le> t"
proof -
  have "a = (t - 1) * 8 div 524" using assms(1) by (simp add: gc_atb_len_def)
  then have 1: "a * 524 \<le> (t - 1) * 8" by (simp only: div_times_less_eq_dividend)
  have 2: "gc_ftb_len a * 8 \<le> a * 4 + 8 - 1" unfolding gc_ftb_len_def by (rule div_times_less_eq_dividend)
  have 3: "(t - 1) * 8 + 8 = t * 8" using assms(2) by (cases t) simp_all
  have 4: "gc_ftb_len a * 8 \<le> a * 4 + 7" using 2 by simp
  have "8 * (65 * a + 1 + gc_ftb_len a) < 8 * (t + 1)" using 1 3 4 unfolding distrib_left by linarith
  then show ?thesis by simp
qed

lemma init_ok:
  assumes "e = end_ptr AND NOT (BYTES_PER_BLOCK - 1)" "unat start < unat e"
  shows "gc_inv (gc_init s start end_ptr) \<and> gc_lock_depth (gc_init s start end_ptr) = 0 \<and>
    gc_pool_end (gc_init s start end_ptr) = e \<and> (\<forall>b. gc_kind (gc_init s start end_ptr) b = AT_FREE) \<and>
    unat (gc_finaliser_table_start (gc_init s start end_ptr)) = unat start + length (gc_alloc_table (gc_init s start end_ptr)) \<and>
    unat (gc_finaliser_table_start (gc_init s start end_ptr)) + length (gc_finaliser_table (gc_init s start end_ptr))
      \<le> unat (gc_pool_start (gc_init s start end_ptr))"
proof -
  let ?s = "gc_init s start end_ptr"
  define t where "t = unat (e - start)"
  define a where "a = gc_atb_len t"
  have t: "t = unat e - unat start" using assms(2) by (simp add: t_def unat_sub word_le_nat_alt)
  have fits: "65 * a + 1 + gc_ftb_len a \<le> t" by (rule setup_fits) (use assms(2) t in \<open>simp_all add: a_def\<close>)
  have bd: "unat e < 4294967296" using unsigned_less [of e] by simp
  have e16: "unat e mod 16 = 0"
  proof -
    have m: "(15 :: u32) = mask 4" by (simp add: mask_eq_exp_minus_1)
    have "take_bit 4 e = 0"
      unfolding assms(1) by (rule bit_eqI) (simp add: BYTES_PER_BLOCK_def bit_take_bit_iff bit_and_iff bit_not_iff m bit_mask_iff)
    then have "unat (take_bit 4 e) = 0" by simp
    then show ?thesis by (simp add: take_bit_eq_mod unat_mod)
  qed
  have w: "unat (of_nat (a * 4) * BYTES_PER_BLOCK :: u32) = 64 * a"
  proof -
    have "(of_nat (a * 4) * BYTES_PER_BLOCK :: u32) = of_nat (64 * a)" by (simp add: BYTES_PER_BLOCK_def)
    moreover have "64 * a < 2 ^ 32" using fits t bd by simp
    ultimately show ?thesis by (simp add: unat_of_nat take_bit_nat_eq_self del: of_nat_mult)
  qed
  have ps: "unat (e - of_nat (a * 4) * BYTES_PER_BLOCK) = unat e - 64 * a"
    using w fits t by (simp add: unat_sub word_le_nat_alt)
  have fs: "unat (start + of_nat a + 1) = unat start + a + 1"
  proof -
    have "start + of_nat a + 1 = of_nat (unat start + a + 1)" by simp
    moreover have "unat start + a + 1 < 2 ^ 32" using fits t bd assms(2) by simp
    ultimately show ?thesis by (simp only: unat_of_nat take_bit_nat_eq_self len_bit0 len_num1 mult_1_right Suc_eq_plus1)
        (simp add: take_bit_nat_eq_self)
  qed
  have s: "?s = s\<lparr>gc_alloc_table_byte_len := a, gc_alloc_table := replicate (a + 1) 0,
      gc_finaliser_table := replicate (gc_ftb_len a) 0, gc_finaliser_table_start := start + of_nat a + 1,
      gc_pool_start := e - of_nat (a * 4) * BYTES_PER_BLOCK, gc_pool_end := e, gc_last_free_atb_index := 0,
      gc_last_used_block := 0, gc_lock_depth := 0, gc_auto_collect_enabled := True, gc_alloc_threshold := - 1,
      gc_alloc_amount := 0\<rparr>"
    unfolding gc_init_def gc_setup_area_def Let_def assms(1) [symmetric] t_def [symmetric] a_def [symmetric] by simp
  have k: "gc_kind ?s b = AT_FREE" for b
    by (simp add: s gc_kind_def kind_two_bits two_bits_def del: replicate_Suc)
  have "unat e = unat (e - of_nat (a * 4) * BYTES_PER_BLOCK) + 64 * a" using ps fits t by simp
  moreover have "unat (e - of_nat (a * 4) * BYTES_PER_BLOCK) mod 16 = 0"
    using ps e16 fits t by presburger
  moreover have "e - of_nat (a * 4) * BYTES_PER_BLOCK \<noteq> 0"
  proof
    assume "e - of_nat (a * 4) * BYTES_PER_BLOCK = 0"
    then have "unat e - 64 * a = 0" using ps by simp
    then show False using fits t by simp
  qed
  ultimately have "gc_inv ?s" unfolding gc_inv_def heap_shape_def marked_def k by (simp add: s)
  then show ?thesis using k ps fs fits t by (simp add: s)
qed

section \<open>Objects and their lifetimes\<close>

definition objects :: "gc \<Rightarrow> nat set" where
  "objects s = {h. is_obj s h}"

lemma inv_head: "gc_inv s \<Longrightarrow> is_obj s h \<Longrightarrow> gc_kind s h = AT_HEAD"
  by (auto simp: gc_inv_def is_obj_def marked_def)

lemma head_in_pool: "gc_inv s \<Longrightarrow> is_obj s h \<Longrightarrow> h < gc_num_blocks s"
  using used_in_pool [of s h] by (auto simp: gc_inv_def is_obj_def)

lemma chains_disjoint:
  assumes "is_obj s a" "is_obj s b" "a \<noteq> b"
  shows "chain_blocks s a \<inter> chain_blocks s b = {}"
proof -
  have *: "chain_blocks s x \<inter> chain_blocks s y = {}" if "is_obj s y" "x < y" for x y
  proof (rule ccontr)
    assume "chain_blocks s x \<inter> chain_blocks s y \<noteq> {}"
    then have "y \<in> chain_blocks s x" using that(2) by (auto simp: chain_blocks_def)
    then show False using chain_tails [of y s x] that by (auto simp: is_obj_def)
  qed
  show ?thesis using *[of b a] *[of a b] assms by (cases "a < b") auto
qed

text \<open>Dropping a whole chain leaves the other objects as they are.\<close>

lemma dropped_chain:
  assumes "drops_blocks s s' h (chain_length s h)" "is_obj s h"
  shows "objects s' = objects s - {h}"
    "\<And>b. is_obj s b \<Longrightarrow> b \<noteq> h \<Longrightarrow> chain_length s' b = chain_length s b"
proof -
  have k: "gc_kind s' b = (if b \<in> chain_blocks s h then AT_FREE else gc_kind s b)" for b
    using assms(1) by (simp add: drops_blocks_def chain_blocks_def)
  have "is_obj s' b \<longleftrightarrow> is_obj s b \<and> b \<noteq> h" for b
    using chain_tails [of b s h] obj_in_chain [of h s] by (auto simp: is_obj_def k)
  then show "objects s' = objects s - {h}" by (auto simp: objects_def)
  show "chain_length s' b = chain_length s b" if b: "is_obj s b" "b \<noteq> h" for b
  proof -
    have "chain_length s' b = chain_length s b \<and> chain_blocks s' b = chain_blocks s b"
    proof (rule chain_frame)
      fix c assume c: "c \<in> chain_blocks s b" "c \<noteq> b"
      then have "c \<notin> chain_blocks s h" using chains_disjoint [OF b(1) assms(2) b(2)] by blast
      then show "gc_kind s' c = AT_TAIL" using chain_tails [OF c] by (simp add: k)
    next
      show "gc_kind s' (b + chain_length s b) \<noteq> AT_TAIL" using chain_end [of s b] by (simp add: k)
    qed
    then show ?thesis by blast
  qed
qed

lemma chain_blocks_length: "chain_length s' b = chain_length s b \<longleftrightarrow> chain_blocks s' b = chain_blocks s b"
  by (auto simp: chain_blocks_def chain_length_def atLeastLessThan_eq_iff)

section \<open>The contract of an allocator\<close>

text \<open>What \<open>m_new\<close> and \<open>m_del\<close> rely on: an allocation keeps what is live and hands out blocks that nothing
  live uses; a release takes away exactly one object.\<close>

locale allocator =
  fixes ready :: "'s \<Rightarrow> bool"
    and objs :: "'s \<Rightarrow> 'o set"
    and blocks_of :: "'s \<Rightarrow> 'o \<Rightarrow> 'b set"
    and live :: "'s \<Rightarrow> 'o set"
    and alloc_obj :: "'s \<Rightarrow> 'o \<Rightarrow> 's \<Rightarrow> bool"
    and release :: "'s \<Rightarrow> 'o \<Rightarrow> 's"
  assumes live_objs: "ready s \<Longrightarrow> live s \<subseteq> objs s"
    and alloc_ready: "ready s \<Longrightarrow> alloc_obj s h s' \<Longrightarrow> ready s' \<and> h \<in> objs s' \<and> blocks_of s' h \<noteq> {}"
    and alloc_keeps: "ready s \<Longrightarrow> alloc_obj s h s' \<Longrightarrow> x \<in> live s \<Longrightarrow>
      x \<in> objs s' \<and> blocks_of s' x = blocks_of s x \<and> blocks_of s' h \<inter> blocks_of s x = {}"
    and release_ready: "ready s \<Longrightarrow> h \<in> objs s \<Longrightarrow> ready (release s h) \<and> objs (release s h) = objs s - {h}"
    and release_keeps: "ready s \<Longrightarrow> h \<in> objs s \<Longrightarrow> x \<in> objs s \<Longrightarrow> x \<noteq> h \<Longrightarrow> blocks_of (release s h) x = blocks_of s x"
begin

lemma alloc_is_new:
  assumes "ready s" "alloc_obj s h s'" "x \<in> live s" "blocks_of s x \<noteq> {}"
  shows "x \<noteq> h"
  using alloc_keeps [OF assms(1-3)] assms(4) by auto

lemma alloc_release:
  assumes "ready s" "alloc_obj s h s'" "x \<in> live s" "blocks_of s x \<noteq> {}"
  shows "ready (release s' h) \<and> h \<notin> objs (release s' h) \<and> x \<in> objs (release s' h) \<and> blocks_of (release s' h) x = blocks_of s x"
proof -
  have r: "ready s'" "h \<in> objs s'" using alloc_ready [OF assms(1,2)] by simp_all
  have x: "x \<in> objs s'" "blocks_of s' x = blocks_of s x" "x \<noteq> h"
    using alloc_keeps [OF assms(1-3)] alloc_is_new [OF assms] by simp_all
  show ?thesis using release_ready [OF r] release_keeps [OF r x(1,3)] x by simp
qed

end

section \<open>Allocation and release under the contract\<close>

definition gc_ready :: "gc_env \<Rightarrow> gc \<Rightarrow> bool" where
  "gc_ready env s \<longleftrightarrow> gc_inv s \<and> del_ok env \<and> gc_lock_depth s = 0"

definition gc_live :: "gc_env \<Rightarrow> gc \<Rightarrow> nat set" where
  "gc_live env s = reach s (set (concat (root_sections env)))"

definition gc_new :: "gc_env \<Rightarrow> u32 \<Rightarrow> bool \<Rightarrow> gc \<Rightarrow> nat \<Rightarrow> gc \<Rightarrow> bool" where
  "gc_new env n fin s h s' \<longleftrightarrow>
     (case gc_alloc env s n fin of (p, s1) \<Rightarrow> p \<noteq> 0 \<and> h = BLOCK_FROM_PTR s p \<and> s' = s1)"

definition gc_release :: "gc \<Rightarrow> nat \<Rightarrow> gc" where
  "gc_release s h = gc_free s (PTR_FROM_BLOCK s h)"

lemma reach_objs: "reach s R \<subseteq> objects s"
proof
  fix x assume "x \<in> reach s R"
  then show "x \<in> objects s" by induction (auto simp: refers_def children_def objects_def)
qed

text \<open>An allocation that succeeds, in terms of objects.\<close>

lemma gc_new_ok:
  assumes "gc_ready env s" "gc_new env n fin s h s'"
  shows "gc_ready env s' \<and> is_obj s' h \<and> chain_length s' h = blocks_needed n \<and> 0 < blocks_needed n \<and> same_area s s' \<and>
    (\<forall>x \<in> gc_live env s. is_obj s' x \<and> chain_length s' x = chain_length s x \<and> chain_blocks s' h \<inter> chain_blocks s x = {}) \<and>
    (\<forall>b \<in> chain_blocks s' h. block_data s' b = replicate 16 0)"
proof -
  have r: "gc_inv s" "del_ok env" "gc_lock_depth s = 0" using assms(1) by (simp_all add: gc_ready_def)
  obtain p where g: "gc_alloc env s n fin = (p, s')" and p: "p \<noteq> 0" and h: "h = BLOCK_FROM_PTR s p"
    using assms(2) by (auto simp: gc_new_def split: prod.splits)
  from r(1,2) g show ?thesis
  proof (cases rule: gc_alloc_cases)
    case (found s0 h')
    let ?n = "blocks_needed n"
    have sh: "heap_shape s" "heap_shape s0" using r(1) found(2) by (simp_all add: gc_inv_def)
    have num: "gc_num_blocks s0 = gc_num_blocks s" using found(3) by (simp add: same_area_def)
    have le: "0 < ?n" "h' + ?n \<le> gc_num_blocks s" using found(5) num by (simp_all add: adds_chain_def)
    then have hh: "h = h'" using BLOCK_FROM_PTR_FROM_BLOCK [OF sh(1), of h'] h found(4) by simp
    note ac = adds_chain_chains [OF sh(2) found(5)]
    have cb: "chain_blocks s' h = {h' ..< h' + ?n}" using ac(1) by (simp add: chain_blocks_def hh)
    have live: "is_obj s' x \<and> chain_length s' x = chain_length s x \<and> chain_blocks s' h \<inter> chain_blocks s x = {}"
      if x: "x \<in> gc_live env s" for x
    proof -
      have "is_obj s x" using reach_objs x by (auto simp: gc_live_def objects_def)
      then have "gc_kind s x = AT_HEAD" by (rule inv_head [OF r(1)])
      from kept_through [OF r(1,2) this _ x [unfolded gc_live_def], of s0] found(1)
      have 0: "gc_kind s0 x = AT_HEAD" "chain_length s0 x = chain_length s x" by auto
      then have o: "is_obj s0 x" by (simp add: is_obj_def)
      have "chain_length s' x = chain_length s x" using ac(4) [OF o] 0(2) by simp
      moreover have "chain_blocks s' x \<inter> {h' ..< h' + ?n} = {}" using ac(4) [OF o] by simp
      ultimately show ?thesis using ac(3) o cb by (auto simp: chain_blocks_def)
    qed
    have data: "block_data s' b = replicate 16 0" if "b \<in> chain_blocks s' h" for b
      using that found(8) le(2) unfolding cb by simp
    show ?thesis
      using ac(1,2) le(1) found(6,7) r live data unfolding hh by (simp add: gc_ready_def same_area_def)
  qed (use p in auto)
qed

lemma gc_release_ok:
  assumes "gc_ready env s" "is_obj s h"
  shows "gc_ready env (gc_release s h) \<and> drops_blocks s (gc_release s h) h (chain_length s h) \<and> same_area s (gc_release s h) \<and>
    gc_mem (gc_release s h) = gc_mem s"
proof -
  have r: "gc_inv s" "gc_lock_depth s = 0" using assms(1) by (simp_all add: gc_ready_def)
  note f = gc_free_ok [OF r inv_head [OF r(1) assms(2)] head_in_pool [OF r(1) assms(2)], folded gc_release_def]
  then show ?thesis using assms(1) by (simp add: gc_ready_def same_area_def)
qed

interpretation gca: allocator "gc_ready env" objects chain_blocks "gc_live env" "gc_new env n fin" gc_release
proof unfold_locales
  fix s h s' x
  show "gc_live env s \<subseteq> objects s" by (simp add: gc_live_def reach_objs)
  show "gc_ready env s \<Longrightarrow> gc_new env n fin s h s' \<Longrightarrow> gc_ready env s' \<and> h \<in> objects s' \<and> chain_blocks s' h \<noteq> {}"
    using gc_new_ok [of env s n fin h s'] obj_in_chain [of h s'] by (auto simp: objects_def)
  show "gc_ready env s \<Longrightarrow> gc_new env n fin s h s' \<Longrightarrow> x \<in> gc_live env s \<Longrightarrow>
      x \<in> objects s' \<and> chain_blocks s' x = chain_blocks s x \<and> chain_blocks s' h \<inter> chain_blocks s x = {}"
    using gc_new_ok [of env s n fin h s'] by (simp add: objects_def chain_blocks_length [symmetric])
  show "gc_ready env s \<Longrightarrow> h \<in> objects s \<Longrightarrow> gc_ready env (gc_release s h) \<and> objects (gc_release s h) = objects s - {h}"
    using gc_release_ok [of env s h] dropped_chain(1) [of s "gc_release s h" h] by (simp add: objects_def)
  show "gc_ready env s \<Longrightarrow> h \<in> objects s \<Longrightarrow> x \<in> objects s \<Longrightarrow> x \<noteq> h \<Longrightarrow> chain_blocks (gc_release s h) x = chain_blocks s x"
    using gc_release_ok [of env s h] dropped_chain(2) [of s "gc_release s h" h x]
    by (simp add: objects_def chain_blocks_length [symmetric])
qed


section \<open>Resizing in terms of objects\<close>

lemma nonzero_request: "0 < blocks_needed n \<Longrightarrow> n \<noteq> 0"
  by (auto simp: blocks_needed_def BYTES_PER_BLOCK_def)

lemma resize_ok:
  assumes "gc_ready env s" "is_obj s h" "h \<in> gc_live env s" "0 < blocks_needed n"
    and "gc_realloc env s (PTR_FROM_BLOCK s h) n move = (p, s')" "p \<noteq> 0"
  shows "\<exists>h' s0. p = PTR_FROM_BLOCK s h' \<and> gc_ready env s' \<and> is_obj s' h' \<and> chain_length s' h' = blocks_needed n \<and>
    (s0 = s \<or> s0 = gc_collect env s) \<and>
    (\<forall>j < min (chain_length s h) (blocks_needed n). block_data s' (h' + j) = block_data s0 (h + j)) \<and>
    (h' = h \<or> (\<forall>b \<in> chain_blocks s h. gc_kind s' b = AT_FREE))"
proof -
  let ?q = "PTR_FROM_BLOCK s h" and ?new = "blocks_needed n" and ?n = "chain_length s h"
  have n: "n \<noteq> 0" by (rule nonzero_request [OF assms(4)])
  have r: "gc_inv s" "del_ok env" "gc_lock_depth s = 0" "heap_shape s" using assms(1) by (simp_all add: gc_ready_def gc_inv_def)
  have args: "realloc_args env s h"
    using r inv_head [OF r(1) assms(2)] head_in_pool [OF r(1) assms(2)] by (simp add: realloc_args_def)
  have ready: "gc_ready env s'" if "gc_inv s'" "same_area s s'" using that r by (simp add: gc_ready_def same_area_def)
  show ?thesis
  proof (cases "fst (gc_realloc env s ?q n False) = 0")
    case True
    note lt = realloc_unfit(2) [OF args n True]
    have "move" using realloc_unfit(1) [OF args n True] assms(5,6) by (cases move) auto
    then have mv: "gc_realloc env s ?q n True = (p, s')" using assms(5) by simp
    have m: "min ?n ?new = ?n" using lt by simp
    obtain s0 h' where s0: "s0 = s \<or> s0 = gc_collect env s" "p = PTR_FROM_BLOCK s h'" "gc_inv s'" "same_area s s'"
      "is_obj s' h'" "chain_length s' h' = ?new" "\<forall>j < ?n. block_data s' (h' + j) = block_data s0 (h + j)"
      "\<forall>b \<in> chain_blocks s h. gc_kind s' b = AT_FREE"
      by (rule realloc_move [OF args n lt assms(3) [unfolded gc_live_def] mv assms(6) True])
    then show ?thesis unfolding m using ready [OF s0(3,4)] by blast
  next
    case False
    then have f: "gc_realloc env s ?q n False = (p, s')" using realloc_fits [OF args n False, of move] assms(5) by simp
    consider "?new = ?n" | "?new < ?n" | "?n < ?new" by linarith
    then show ?thesis
    proof cases
      case 1
      then show ?thesis using realloc_same [OF args 1 n, of False] f assms(1,2) by auto
    next
      case 2
      note k = realloc_shrink [OF args n 2 f]
      have d: "drops_blocks s s' (h + ?new) (?n - ?new)" using k by blast
      note c = shrunk_chain [OF r(4) d assms(4) 2 assms(2)]
      have "block_data s' b = block_data s b" for b
        using k by (simp add: block_data_def same_area_def PTR_FROM_BLOCK_def)
      then show ?thesis using k ready c by auto
    next
      case 3
      note k = realloc_grow [OF args n 3 f assms(6)]
      have e: "extends_chain s s' h (?new - ?n)" using k by blast
      note c = extends_chain_chains [OF r(4) assms(2) e]
      have "block_data s' (h + j) = block_data s (h + j)" if "j < ?n" for j
        using k that chain_in_pool [OF r(4) assms(2)] by simp
      then show ?thesis using k ready c assms(2) 3 by auto
    qed
  qed
qed

section \<open>The steps of a program\<close>

text \<open>What the interpreter does with the heap: every step may see other roots and other finalisers.\<close>

inductive gc_step :: "gc \<Rightarrow> gc \<Rightarrow> bool" where
  alloc: "del_ok env \<Longrightarrow> gc_alloc env s n fin = (p, s') \<Longrightarrow> gc_step s s'"
| free: "is_obj s h \<Longrightarrow> gc_step s (gc_free s (PTR_FROM_BLOCK s h))"
| realloc: "del_ok env \<Longrightarrow> is_obj s h \<Longrightarrow> h \<in> gc_live env s \<Longrightarrow>
    gc_realloc env s (PTR_FROM_BLOCK s h) n move = (p, s') \<Longrightarrow> gc_step s s'"
| collect: "del_ok env \<Longrightarrow> gc_lock_depth s = 0 \<Longrightarrow> gc_step s (gc_collect env s)"
| lock: "gc_step s (gc_lock s)"
| unlock: "gc_is_locked s \<Longrightarrow> gc_step s (gc_unlock s)"
| assign: "gc_step s (s\<lparr>gc_mem := m\<rparr>)"

lemma lock_flag: "(d :: u16) AND GC_COLLECT_FLAG = 0 \<longleftrightarrow> even d"
  by (simp add: GC_COLLECT_FLAG_def and_one_eq mod_2_eq_odd)

lemma gc_inv_lock:
  assumes "gc_inv s" "even d"
  shows "gc_inv (s\<lparr>gc_lock_depth := d\<rparr>)"
proof -
  have k: "gc_kind (s\<lparr>gc_lock_depth := d\<rparr>) b = gc_kind s b" for b by (simp add: gc_kind_def)
  show ?thesis using assms by (simp add: gc_inv_def heap_shape_def marked_def k lock_flag)
qed

lemma free_locked:
  assumes "gc_inv s" "gc_lock_depth s \<noteq> 0"
  shows "gc_free s p = s"
proof -
  have "gc_lock_depth s AND NOT GC_COLLECT_FLAG = (gc_lock_depth s OR GC_COLLECT_FLAG) AND NOT GC_COLLECT_FLAG"
    by (rule bit_eqI) (auto simp: bit_and_iff bit_or_iff bit_not_iff)
  also have "\<dots> = gc_lock_depth s" by (rule flags_cleared) (use assms(1) in \<open>simp add: gc_inv_def\<close>)
  finally show ?thesis using assms(2) by (simp add: gc_free_def)
qed

lemma free_inv: "gc_inv s \<Longrightarrow> is_obj s h \<Longrightarrow> gc_inv (gc_free s (PTR_FROM_BLOCK s h))"
  using gc_free_ok [OF _ _ inv_head head_in_pool, of s h] free_locked [of s] by (cases "gc_lock_depth s = 0") auto

lemma alloc_inv:
  assumes "gc_inv s" "del_ok env" "gc_alloc env s n fin = (p, s')"
  shows "gc_inv s'"
  using assms by (cases rule: gc_alloc_cases) (use assms(1) in simp_all)

lemma resize_inv:
  assumes "gc_inv s" "del_ok env" "is_obj s h" "h \<in> gc_live env s" "gc_realloc env s (PTR_FROM_BLOCK s h) n move = (p, s')"
  shows "gc_inv s'"
proof -
  let ?q = "PTR_FROM_BLOCK s h"
  have q: "?q \<noteq> 0" by (rule realloc_ptr) (use assms head_in_pool in \<open>auto simp: gc_inv_def\<close>)
  show ?thesis
  proof (cases "n = 0 \<or> gc_lock_depth s > 0")
    case True
    then have "gc_realloc env s ?q n move = (if n = 0 then (0, gc_free s ?q) else (0, s))"
      using q by (cases "n = 0") (simp_all add: gc_realloc_def)
    then have "s' = s \<or> s' = gc_free s ?q" using assms(5) by (auto split: if_splits)
    then show ?thesis using assms(1) free_inv [OF assms(1,3)] by auto
  next
    case False
    then have "gc_lock_depth s = 0" by (simp add: not_less)
    then have ready: "gc_ready env s" and n: "n \<noteq> 0" using assms(1,2) False by (simp_all add: gc_ready_def)
    have args: "realloc_args env s h"
      using ready inv_head [OF assms(1,3)] head_in_pool [OF assms(1,3)] by (simp add: realloc_args_def gc_ready_def)
    show ?thesis
    proof (cases "p = 0")
      case True
      then have f: "fst (gc_realloc env s ?q n False) = 0"
        using realloc_fits [OF args n, of move] assms(5) by (metis fst_conv)
      show ?thesis
      proof (cases move)
        case False
        then show ?thesis using realloc_unfit(1) [OF args n f] assms(1,5) by auto
      next
        case mv: True
        obtain p1 s1 where g: "gc_alloc env s n (FTB_GET (gc_finaliser_table s) h) = (p1, s1)" by (metis surj_pair)
        then have "s' = s1" using realloc_unfit(3) [OF args n f] mv True assms(5) by (auto split: if_splits)
        then show ?thesis using alloc_inv [OF assms(1,2) g] by simp
      qed
    next
      case False
      show ?thesis
      proof (cases "0 < blocks_needed n")
        case True
        then show ?thesis using resize_ok [OF ready assms(3,4) True assms(5) False] by (auto simp: gc_ready_def)
      next
        case none: False
        then have lt: "blocks_needed n < chain_length s h" by (simp add: chain_length_def)
        then show ?thesis using realloc_shrink [OF args n lt assms(5)] by blast
      qed
    qed
  qed
qed

lemma gc_step_inv:
  assumes "gc_step s s'" "gc_inv s"
  shows "gc_inv s'"
  using assms(1)
proof cases
  case (alloc env n fin p)
  then show ?thesis using alloc_inv [OF assms(2)] by blast
next
  case (free h)
  then show ?thesis using free_inv [OF assms(2)] by simp
next
  case (realloc env h n move p)
  then show ?thesis using resize_inv [OF assms(2)] by blast
next
  case (collect env)
  then show ?thesis using collect_ok [OF assms(2)] by simp
next
  case lock
  have "even (gc_lock_depth s)" using assms(2) by (simp add: gc_inv_def lock_flag)
  then show ?thesis unfolding lock gc_lock_def by (intro gc_inv_lock assms(2)) simp
next
  case unlock
  have "even (gc_lock_depth s)" using assms(2) by (simp add: gc_inv_def lock_flag)
  then show ?thesis unfolding unlock gc_unlock_def by (intro gc_inv_lock assms(2)) simp
next
  case (assign m)
  then show ?thesis using gc_inv_mem [OF assms(2)] by simp
qed


section \<open>Properties\<close>

text \<open>C1: a collection keeps every object that can be reached from the roots through pointers stored in
  live objects, with exactly its blocks, gives back every block of every other object, and frees
  nothing twice; however deep the data is and however often the mark stack overflows.\<close>

theorem gc_collect_exact:
  assumes "gc_inv s" "del_ok env"
  shows "kept_chains s (gc_collect env s) (reach s (set (concat (root_sections env))))"
  using collect_ok [OF assms] by blast

text \<open>C7: an allocation that succeeds returns the address of an object of exactly the blocks that the
  request needs, filled with zeros, which shares no block with anything that is reachable, and every
  reachable object keeps its blocks, also when the allocation had to collect first.\<close>

theorem gc_alloc_fresh:
  assumes "gc_ready env s" "gc_alloc env s n_bytes fin = (p, s')" "p \<noteq> 0"
  shows "\<exists>h. p = PTR_FROM_BLOCK s h \<and> gc_ready env s' \<and> is_obj s' h \<and> chain_length s' h = blocks_needed n_bytes \<and>
    (\<forall>b \<in> chain_blocks s' h. block_data s' b = replicate 16 0) \<and>
    (\<forall>x \<in> gc_live env s. is_obj s' x \<and> chain_length s' x = chain_length s x \<and> chain_blocks s' h \<inter> chain_blocks s x = {})"
proof -
  have new: "gc_new env n_bytes fin s (BLOCK_FROM_PTR s p) s'" using assms(2,3) by (simp add: gc_new_def)
  note ok = gc_new_ok [OF assms(1) new]
  have sh: "heap_shape s" "gc_inv s" "del_ok env" using assms(1) by (simp_all add: gc_ready_def gc_inv_def)
  from sh(2,3) assms(2) have "p = PTR_FROM_BLOCK s (BLOCK_FROM_PTR s p)"
  proof (cases rule: gc_alloc_cases)
    case (found s0 h)
    then have "h < gc_num_blocks s" by (simp add: adds_chain_def same_area_def)
    then show ?thesis using BLOCK_FROM_PTR_FROM_BLOCK [OF sh(1)] found(4) by simp
  qed (use assms(3) in auto)
  then show ?thesis using ok by blast
qed

text \<open>C25: \<open>gc_alloc\<close> fails in three cases only: the request is for no block (also one of \<open>0xFFFFFFF1\<close> bytes
  or more, whose count wraps) or the heap is locked, and then nothing has changed; automatic collection is
  disabled, and the pool as it is has no run of free blocks that is long enough; or it is enabled, and
  after the collection that was made there is no such run anywhere in the pool.\<close>

theorem gc_alloc_fails_only_when_full:
  assumes "gc_inv s" "del_ok env" "gc_alloc env s n_bytes fin = (0, s')"
  shows "if blocks_needed n_bytes = 0 \<or> gc_lock_depth s > 0 then s' = s
    else s' = (if gc_auto_collect_enabled s then gc_collect env s else s) \<and>
      no_run s' 0 (gc_num_blocks s') (blocks_needed n_bytes)"
proof -
  have null: "s' = s" if "blocks_needed n_bytes = 0 \<or> gc_lock_depth s > 0"
  proof -
    have "gc_alloc env s n_bytes fin = (0, s)" using that unfolding gc_alloc_def Let_def by (elim disjE) simp_all
    then show ?thesis using assms(3) by simp
  qed
  from assms show ?thesis
  proof (cases rule: gc_alloc_cases)
    case (found s0 h)
    then have "h < gc_num_blocks s" "heap_shape s" using assms(1) by (simp_all add: adds_chain_def same_area_def gc_inv_def)
    then show ?thesis using realloc_ptr [of s h] found(4) by simp
  qed (use null in auto)
qed

text \<open>C8: a reallocation that succeeds returns an object of exactly the blocks of the new size that
  begins with the data of the old one, whether it shrank, grew in place or moved; after a move
  the old blocks are free.\<close>

theorem gc_realloc_keeps_data:
  assumes "gc_ready env s" "is_obj s h" "h \<in> gc_live env s" "0 < blocks_needed n_bytes"
    and "gc_realloc env s (PTR_FROM_BLOCK s h) n_bytes allow_move = (p, s')" "p \<noteq> 0"
  shows "\<exists>h' s0. p = PTR_FROM_BLOCK s h' \<and> gc_ready env s' \<and> is_obj s' h' \<and> chain_length s' h' = blocks_needed n_bytes \<and>
    (s0 = s \<or> s0 = gc_collect env s) \<and>
    (\<forall>j < min (chain_length s h) (blocks_needed n_bytes). block_data s' (h' + j) = block_data s0 (h + j)) \<and>
    (h' = h \<or> (\<forall>b \<in> chain_blocks s h. gc_kind s' b = AT_FREE))"
  by (rule resize_ok [OF assms])

text \<open>A reallocation to a size of \<open>0xFFFFFFF1\<close> bytes or more does not fail: the block count wraps to
  zero, the whole object is given back, and the pointer to it is returned as a success.\<close>

lemma gc_realloc_overflow_frees:
  assumes "gc_ready env s" "is_obj s h" "unat n_bytes \<ge> 2 ^ 32 - 15"
  shows "fst (gc_realloc env s (PTR_FROM_BLOCK s h) n_bytes allow_move) = PTR_FROM_BLOCK s h \<and>
    (\<forall>b \<in> chain_blocks s h. gc_kind (snd (gc_realloc env s (PTR_FROM_BLOCK s h) n_bytes allow_move)) b = AT_FREE)"
proof -
  obtain p s' where g: "gc_realloc env s (PTR_FROM_BLOCK s h) n_bytes allow_move = (p, s')" by (metis surj_pair)
  have inv: "gc_inv s" using assms(1) by (simp add: gc_ready_def)
  have args: "realloc_args env s h"
    using assms(1) inv_head [OF inv assms(2)] head_in_pool [OF inv assms(2)] by (simp add: realloc_args_def gc_ready_def)
  have z: "blocks_needed n_bytes = 0" by (rule realloc_wraps [OF assms(3)])
  have "n_bytes \<noteq> 0" using assms(3) by auto
  from realloc_shrink [OF args this _ g] z show ?thesis
    by (simp add: g drops_blocks_def chain_blocks_def chain_length_def)
qed

text \<open>On an area with its start before its aligned end, \<open>gc_init\<close> makes a heap that satisfies the
  invariant, is entirely free and ends at the aligned end, with the two tables one after the other
  in front of the pool.\<close>

lemma gc_init_layout:
  assumes "unat start < unat (end_ptr AND NOT (BYTES_PER_BLOCK - 1))"
  shows "gc_inv (gc_init s start end_ptr) \<and> (\<forall>b. gc_kind (gc_init s start end_ptr) b = AT_FREE) \<and>
    gc_pool_end (gc_init s start end_ptr) = end_ptr AND NOT (BYTES_PER_BLOCK - 1) \<and>
    unat (gc_finaliser_table_start (gc_init s start end_ptr)) = unat start + length (gc_alloc_table (gc_init s start end_ptr)) \<and>
    unat (gc_finaliser_table_start (gc_init s start end_ptr)) + length (gc_finaliser_table (gc_init s start end_ptr))
      \<le> unat (gc_pool_start (gc_init s start end_ptr))"
  using init_ok [OF refl assms] by blast

text \<open>C10: in every state that a program reaches from an initialised heap by allocating, freeing,
  resizing, collecting, locking, unlocking and assigning to memory, the heap invariant holds: every
  tail block continues a chain, no mark is left over, nothing in use lies behind the last used block
  or below the start of the next scan that is free.\<close>

theorem gc_steps_keep_inv:
  assumes "unat start < unat (end_ptr AND NOT (BYTES_PER_BLOCK - 1))" "gc_step\<^sup>*\<^sup>* (gc_init s start end_ptr) s'"
  shows "gc_inv s'"
  using assms(2)
proof induction
  case base
  then show ?case using init_ok [OF refl assms(1)] by blast
next
  case (step s1 s2)
  then show ?case using gc_step_inv by blast
qed


section \<open>Witnesses\<close>

text \<open>A heap of twelve blocks, with two objects of two blocks and of one block.\<close>

definition blank_heap :: gc where
  "blank_heap = \<lparr>gc_alloc_table = [], gc_alloc_table_byte_len = 0, gc_finaliser_table = [], gc_finaliser_table_start = 0,
     gc_pool_start = 0, gc_pool_end = 0, gc_last_free_atb_index = 0, gc_last_used_block = 0, gc_stack_overflow = False,
     gc_lock_depth = 0, gc_auto_collect_enabled = False, gc_alloc_amount = 0, gc_alloc_threshold = 0, gc_mem = (\<lambda>_. 0)\<rparr>"

definition small_heap :: gc where
  "small_heap = gc_init blank_heap 0xF30 0x1005"

definition rooted :: "u32 list \<Rightarrow> gc_env" where
  "rooted ps = \<lparr>root_sections = [ps], run_del = (\<lambda>b s. s)\<rparr>"

definition two_objects :: gc where
  "two_objects = snd (gc_alloc (rooted []) (snd (gc_alloc (rooted []) small_heap 20 False)) 16 False)"

lemma rooted_ok: "del_ok (rooted ps)"
  unfolding del_ok_def
proof (intro allI)
  fix b s
  show "\<exists>m. run_del (rooted ps) b s = s\<lparr>gc_mem := m\<rparr>" by (rule exI [of _ "gc_mem s"]) (simp add: rooted_def)
qed

lemma small_inv: "gc_inv small_heap"
  unfolding small_heap_def by (rule init_ok [OF refl, THEN conjunct1]) (simp add: BYTES_PER_BLOCK_def)

lemma two_inv: "gc_inv two_objects"
  unfolding two_objects_def
  by (rule alloc_inv [OF alloc_inv [OF small_inv rooted_ok [of "[]"]] rooted_ok [of "[]"]]) (rule surjective_pairing)+

lemma two_ready: "gc_ready (rooted ps) two_objects"
  unfolding gc_ready_def by (intro conjI two_inv rooted_ok) code_simp

lemma two_first: "is_obj two_objects 0" "0 \<in> gc_live (rooted [0xF40]) two_objects"
proof -
  show o: "is_obj two_objects 0" by code_simp
  have "refers two_objects 0xF40 0" by code_simp
  then show "0 \<in> gc_live (rooted [0xF40]) two_objects"
    unfolding gc_live_def by (intro reach.root [of "0xF40"]) (simp_all add: rooted_def)
qed

lemma pair_split: "(fst x, snd x) = x" by simp

theorem gc_collect_exact_witness:
  "kept_chains two_objects (gc_collect (rooted [0xF60]) two_objects) (reach two_objects (set (concat (root_sections (rooted [0xF60]))))) \<and>
   map (gc_kind (gc_collect (rooted [0xF60]) two_objects)) [0, 1, 2, 3] = [AT_FREE, AT_FREE, AT_HEAD, AT_FREE]"
proof (intro conjI gc_collect_exact two_inv rooted_ok)
  show "map (gc_kind (gc_collect (rooted [0xF60]) two_objects)) [0, 1, 2, 3] = [AT_FREE, AT_FREE, AT_HEAD, AT_FREE]" by code_simp
qed

theorem gc_alloc_fresh_witness:
  "\<exists>h. fst (gc_alloc (rooted [0xF40]) two_objects 33 False) = PTR_FROM_BLOCK two_objects h \<and>
     chain_length (snd (gc_alloc (rooted [0xF40]) two_objects 33 False)) h = 3"
proof -
  have "fst (gc_alloc (rooted [0xF40]) two_objects 33 False) \<noteq> 0" "blocks_needed 33 = 3" by code_simp+
  with gc_alloc_fresh [OF two_ready, of "[0xF40]" 33 False] show ?thesis by (metis prod.collapse)
qed

theorem gc_alloc_fails_only_when_full_witness:
  "no_run (snd (gc_alloc (rooted [0xF40]) two_objects 192 False)) 0 12 12"
proof -
  have r: "fst (gc_alloc (rooted [0xF40]) two_objects 192 False) = 0" "gc_auto_collect_enabled two_objects" "blocks_needed 192 = 12"
    "gc_num_blocks (snd (gc_alloc (rooted [0xF40]) two_objects 192 False)) = 12" by code_simp+
  have "gc_alloc (rooted [0xF40]) two_objects 192 False = (0, snd (gc_alloc (rooted [0xF40]) two_objects 192 False))"
    using r(1) by (simp add: prod_eq_iff)
  note F = gc_alloc_fails_only_when_full [OF _ _ this]
  have t: "gc_inv two_objects" "del_ok (rooted [0xF40])" "\<not> (blocks_needed 192 = 0 \<or> gc_lock_depth two_objects > 0)"
    using two_ready [of "[0xF40]"] r(3) by (simp_all add: gc_ready_def)
  from F [OF t(1,2), unfolded if_not_P [OF t(3)], THEN conjunct2] show ?thesis unfolding r(3,4) .
qed

theorem gc_realloc_keeps_data_witness:
  "fst (gc_realloc (rooted [0xF40]) two_objects 0xF40 40 True) = PTR_FROM_BLOCK two_objects 3 \<and>
   (\<exists>h'. PTR_FROM_BLOCK two_objects 3 = PTR_FROM_BLOCK two_objects h' \<and>
     chain_length (snd (gc_realloc (rooted [0xF40]) two_objects 0xF40 40 True)) h' = 3)"
proof -
  have r: "PTR_FROM_BLOCK two_objects 0 = 0xF40" "blocks_needed 40 = 3"
    "fst (gc_realloc (rooted [0xF40]) two_objects 0xF40 40 True) = PTR_FROM_BLOCK two_objects 3" "PTR_FROM_BLOCK two_objects 3 \<noteq> 0"
    by code_simp+
  have "gc_realloc (rooted [0xF40]) two_objects (PTR_FROM_BLOCK two_objects 0) 40 True =
      (PTR_FROM_BLOCK two_objects 3, snd (gc_realloc (rooted [0xF40]) two_objects 0xF40 40 True))"
    using r(1,3) by (simp add: prod_eq_iff)
  from gc_realloc_keeps_data [OF two_ready two_first _ this r(4)] r(2,3) show ?thesis by auto
qed

theorem gc_realloc_overflow_frees_witness:
  "fst (gc_realloc (rooted []) two_objects (PTR_FROM_BLOCK two_objects 0) 0xFFFFFFF1 True) = PTR_FROM_BLOCK two_objects 0 \<and>
   gc_kind (snd (gc_realloc (rooted []) two_objects (PTR_FROM_BLOCK two_objects 0) 0xFFFFFFF1 True)) 0 = AT_FREE"
  using gc_realloc_overflow_frees [OF two_ready two_first(1), of "0xFFFFFFF1" "[]" True] obj_in_chain [of 0 two_objects] by simp

lemma gc_init_layout_witness:
  "gc_inv (gc_init blank_heap 0xF30 0x1005) \<and> gc_pool_end (gc_init blank_heap 0xF30 0x1005) = 0x1000"
proof -
  have "(0x1005 :: u32) AND NOT (BYTES_PER_BLOCK - 1) = 0x1000" by code_simp
  with gc_init_layout [of "0xF30" "0x1005" blank_heap] show ?thesis by simp
qed

theorem gc_steps_keep_inv_witness: "gc_inv (gc_free two_objects (PTR_FROM_BLOCK two_objects 0))"
proof (rule gc_steps_keep_inv)
  show "unat (0xF30 :: u32) < unat ((0x1005 :: u32) AND NOT (BYTES_PER_BLOCK - 1))" by (simp add: BYTES_PER_BLOCK_def)
  let ?one = "snd (gc_alloc (rooted []) small_heap 20 False)"
  have "gc_step small_heap ?one" by (rule gc_step.alloc [OF rooted_ok [of "[]"]]) (rule surjective_pairing)
  moreover have "gc_step ?one two_objects"
    unfolding two_objects_def by (rule gc_step.alloc [OF rooted_ok [of "[]"]]) (rule surjective_pairing)
  moreover have "gc_step two_objects (gc_free two_objects (PTR_FROM_BLOCK two_objects 0))" by (rule gc_step.free [OF two_first(1)])
  ultimately show "gc_step\<^sup>*\<^sup>* (gc_init blank_heap 0xF30 0x1005) (gc_free two_objects (PTR_FROM_BLOCK two_objects 0))"
    unfolding small_heap_def by (meson converse_rtranclp_into_rtranclp rtranclp.rtrancl_refl)
qed

end
