(* ===== verification/Mpn.thy ===== *)
theory Mpn
  imports Prelude
begin

text \<open>
  The natural-number layer of \<open>py/mpz.c\<close>: numbers are lists of 16-bit digits, least significant first,
  and a function returns the digits it leaves behind (their number is the C function's result).
  Carries are 32-bit words, so an overflow of \<open>mpz_dbl_dig_t\<close> would show; signed intermediates are
  integers wrapped to 32 bits by \<open>s32\<close>.
\<close>

section \<open>Digits\<close>

abbreviation DIG_SIZE :: nat where "DIG_SIZE \<equiv> 16"

definition DIG_MASK :: u32 where "DIG_MASK = 0xFFFF"
definition DIG_MSB :: u16 where "DIG_MSB = 0x8000"

text \<open>The value stored in an \<open>mpz_dbl_dig_signed_t\<close>, and the digit stored from a double digit.\<close>

definition s32 :: "int \<Rightarrow> int" where
  "s32 v = signed_take_bit 31 v"

definition dig :: "u32 \<Rightarrow> u16" where
  "dig c = ucast (c AND DIG_MASK)"

definition sdig :: "int \<Rightarrow> u16" where
  "sdig v = word_of_int (v AND 0xFFFF)"

fun strip_high :: "u16 list \<Rightarrow> u16 list" where
  "strip_high [] = []"
| "strip_high (d # ds) = (if d = 0 then strip_high ds else d # ds)"

definition mpn_remove_trailing_zeros :: "u16 list \<Rightarrow> u16 list" where
  "mpn_remove_trailing_zeros ds = rev (strip_high (rev ds))"

section \<open>Comparison\<close>

fun cmp_digits :: "u16 list \<Rightarrow> u16 list \<Rightarrow> int" where
  "cmp_digits (i # is) (j # js) =
     (let cmp = s32 (uint i - uint j)
      in if cmp < 0 then -1 else if cmp > 0 then 1 else cmp_digits is js)"
| "cmp_digits _ _ = 0"

definition mpn_cmp :: "u16 list \<Rightarrow> u16 list \<Rightarrow> int" where
  "mpn_cmp i j =
     (if length i < length j then -1
      else if length i > length j then 1
      else cmp_digits (rev i) (rev j))"

section \<open>Shifts\<close>

text \<open>From the high end: \<open>d\<close> holds the digit before in its upper half.\<close>

fun shl_loop :: "nat \<Rightarrow> u32 \<Rightarrow> u16 list \<Rightarrow> u16 list" where
  "shl_loop n_part d [] = [dig (drop_bit (DIG_SIZE - n_part) d)]"
| "shl_loop n_part d (j # js) =
     (let d1 = d OR ucast j
      in dig (drop_bit (DIG_SIZE - n_part) d1) # shl_loop n_part (push_bit DIG_SIZE d1) js)"

definition shl_whole :: "u32 \<Rightarrow> nat" where
  "shl_whole n = unat ((n + 15) div 16)"

definition mpn_shl :: "u16 list \<Rightarrow> u32 \<Rightarrow> u16 list" where
  "mpn_shl j n =
     (let n_part = (if n mod 16 = 0 then DIG_SIZE else unat (n mod 16))
      in mpn_remove_trailing_zeros
           (replicate (shl_whole n - 1) 0 @ rev (shl_loop n_part 0 (rev j))))"

fun shr_loop :: "nat \<Rightarrow> u16 list \<Rightarrow> u16 list" where
  "shr_loop n_part [] = []"
| "shr_loop n_part [j] = [dig (drop_bit n_part (ucast j))]"
| "shr_loop n_part (j # j1 # js) =
     dig (drop_bit n_part (ucast j OR push_bit DIG_SIZE (ucast j1))) # shr_loop n_part (j1 # js)"

definition mpn_shr :: "u16 list \<Rightarrow> u32 \<Rightarrow> u16 list" where
  "mpn_shr j n =
     (let n_whole = unat (n div 16); n_part = unat (n mod 16)
      in if n_whole \<ge> length j then []
         else let i = shr_loop n_part (drop n_whole j)
              in if last i = 0 then butlast i else i)"

section \<open>Addition and subtraction\<close>

fun add_loop :: "u32 \<Rightarrow> u16 list \<Rightarrow> u16 list \<Rightarrow> u16 list \<times> u32" where
  "add_loop carry (j # js) (k # ks) =
     (let c = carry + (ucast j + ucast k)
      in case add_loop (drop_bit DIG_SIZE c) js ks of (is, c') \<Rightarrow> (dig c # is, c'))"
| "add_loop carry (j # js) [] =
     (let c = carry + ucast j
      in case add_loop (drop_bit DIG_SIZE c) js [] of (is, c') \<Rightarrow> (dig c # is, c'))"
| "add_loop carry [] ks = ([], carry)"

definition mpn_add :: "u16 list \<Rightarrow> u16 list \<Rightarrow> u16 list" where
  "mpn_add j k = (case add_loop 0 j k of (is, carry) \<Rightarrow> if carry \<noteq> 0 then is @ [ucast carry] else is)"

fun sub_loop :: "int \<Rightarrow> u16 list \<Rightarrow> u16 list \<Rightarrow> u16 list" where
  "sub_loop borrow (j # js) (k # ks) =
     (let b = s32 (borrow + (uint j - uint k)) in sdig b # sub_loop (drop_bit DIG_SIZE b) js ks)"
| "sub_loop borrow (j # js) [] =
     (let b = s32 (borrow + uint j) in sdig b # sub_loop (drop_bit DIG_SIZE b) js [])"
| "sub_loop borrow [] ks = []"

definition mpn_sub :: "u16 list \<Rightarrow> u16 list \<Rightarrow> u16 list" where
  "mpn_sub j k = mpn_remove_trailing_zeros (sub_loop 0 j k)"

section \<open>Bitwise operations\<close>

definition mpn_and :: "u16 list \<Rightarrow> u16 list \<Rightarrow> u16 list" where
  "mpn_and j k = mpn_remove_trailing_zeros (map2 (AND) j k)"

definition mpn_or :: "u16 list \<Rightarrow> u16 list \<Rightarrow> u16 list" where
  "mpn_or j k = map2 (OR) j k @ drop (length k) j"

definition mpn_xor :: "u16 list \<Rightarrow> u16 list \<Rightarrow> u16 list" where
  "mpn_xor j k = mpn_remove_trailing_zeros (map2 (XOR) j k @ drop (length k) j)"

text \<open>The loop that the three operations on negative numbers share: \<open>jf\<close> and \<open>kf\<close> turn a digit into what
  is added to its carry, \<open>kpad\<close> is added where \<open>k\<close> has no digit left, and \<open>f\<close> combines the two carries
  into what is added to the carry of the result.\<close>

fun neg_loop :: "(u32 \<Rightarrow> u32 \<Rightarrow> u32) \<Rightarrow> (u16 \<Rightarrow> u32) \<Rightarrow> (u16 \<Rightarrow> u32) \<Rightarrow> u32 \<Rightarrow> u32 \<Rightarrow> u32 \<Rightarrow> u32 \<Rightarrow>
    u16 list \<Rightarrow> u16 list \<Rightarrow> u16 list \<times> u32" where
  "neg_loop f jf kf kpad carryi carryj carryk [] ks = ([], carryi)"
| "neg_loop f jf kf kpad carryi carryj carryk (j # js) ks =
     (let cj = carryj + jf j;
          ck = carryk + (case ks of k # _ \<Rightarrow> kf k | [] \<Rightarrow> kpad);
          ci = carryi + (f cj ck AND DIG_MASK)
      in case neg_loop f jf kf kpad (drop_bit DIG_SIZE ci) (drop_bit DIG_SIZE cj) (drop_bit DIG_SIZE ck) js (tl ks) of
           (is, c) \<Rightarrow> (dig ci # is, c))"

definition mask_of :: "u32 \<Rightarrow> u16" where
  "mask_of carry = (if carry = 0 then 0 else 0xFFFF)"

definition mpn_and_neg :: "u16 list \<Rightarrow> u16 list \<Rightarrow> u32 \<Rightarrow> u32 \<Rightarrow> u32 \<Rightarrow> u16 list" where
  "mpn_and_neg j k carryi carryj carryk =
     (let imask = mask_of carryi; jmask = mask_of carryj; kmask = mask_of carryk
      in case neg_loop (\<lambda>a b. (a AND b) XOR ucast imask) (\<lambda>d. ucast (d XOR jmask)) (\<lambda>d. ucast (d XOR kmask)) (ucast kmask)
             carryi carryj carryk j k of
           (is, c) \<Rightarrow> mpn_remove_trailing_zeros (if c \<noteq> 0 then is @ [ucast c] else is))"

definition mpn_or_neg :: "u16 list \<Rightarrow> u16 list \<Rightarrow> u32 \<Rightarrow> u32 \<Rightarrow> u16 list" where
  "mpn_or_neg j k carryj carryk =
     (let jmask = mask_of carryj; kmask = mask_of carryk
      in case neg_loop (\<lambda>a b. (a OR b) XOR DIG_MASK) (\<lambda>d. ucast (d XOR jmask)) (\<lambda>d. ucast (d XOR kmask)) (ucast kmask)
             1 carryj carryk j k of
           (is, c) \<Rightarrow> mpn_remove_trailing_zeros is)"

definition mpn_xor_neg :: "u16 list \<Rightarrow> u16 list \<Rightarrow> u32 \<Rightarrow> u32 \<Rightarrow> u32 \<Rightarrow> u16 list" where
  "mpn_xor_neg j k carryi carryj carryk =
     (case neg_loop (\<lambda>a b. a XOR b) (\<lambda>d. ucast d + DIG_MASK) (\<lambda>d. ucast d + DIG_MASK) DIG_MASK carryi carryj carryk j k of
        (is, c) \<Rightarrow> mpn_remove_trailing_zeros (if c \<noteq> 0 then is @ [ucast c] else is))"

section \<open>Multiplication\<close>

fun mul_dig_loop :: "u16 \<Rightarrow> u32 \<Rightarrow> u16 list \<Rightarrow> u16 list \<times> u32" where
  "mul_dig_loop dmul carry [] = ([], carry)"
| "mul_dig_loop dmul carry (i # is) =
     (let c = carry + ucast i * ucast dmul
      in case mul_dig_loop dmul (drop_bit DIG_SIZE c) is of (ds, c') \<Rightarrow> (dig c # ds, c'))"

definition mpn_mul_dig_add_dig :: "u16 list \<Rightarrow> u16 \<Rightarrow> u16 \<Rightarrow> u16 list" where
  "mpn_mul_dig_add_dig i dmul dadd =
     (case mul_dig_loop dmul (ucast dadd) i of (ds, carry) \<Rightarrow> if carry \<noteq> 0 then ds @ [ucast carry] else ds)"

text \<open>One row: \<open>j * k\<close> is added to the buffer; the carry digit overwrites the digit behind it.\<close>

fun mul_row :: "u16 \<Rightarrow> u32 \<Rightarrow> u16 list \<Rightarrow> u16 list \<Rightarrow> u16 list \<times> bool" where
  "mul_row k carry [] is = (if carry \<noteq> 0 then (ucast carry # tl is, True) else (is, False))"
| "mul_row k carry (j # js) [] = ([], False)"
| "mul_row k carry (j # js) (i # is) =
     (let c = carry + (ucast i + ucast j * ucast k)
      in case mul_row k (drop_bit DIG_SIZE c) js is of (ds, more) \<Rightarrow> (dig c # ds, more))"

text \<open>The rows, each one digit further into the buffer; with the number of digits in use at the end.\<close>

fun mul_rows :: "u16 list \<Rightarrow> u16 list \<Rightarrow> u16 list \<Rightarrow> u16 list \<times> nat" where
  "mul_rows j [] is = (is, 0)"
| "mul_rows j (k # ks) is =
     (case mul_row k 0 j is of (ds, more) \<Rightarrow>
        (case mul_rows j ks (tl ds) of (es, n) \<Rightarrow>
           (take 1 ds @ es, if ks = [] then length j + of_bool more else n + 1)))"

definition mpn_mul :: "u16 list \<Rightarrow> u16 list \<Rightarrow> u16 list \<Rightarrow> u16 list" where
  "mpn_mul buf j k = (case mul_rows j k buf of (ds, n) \<Rightarrow> take n ds)"

section \<open>Division\<close>

text \<open>Leading zeros of the leading digit, which is not zero in a normalised number, so that 16 rounds
  are enough.\<close>

fun norm_shift_loop :: "nat \<Rightarrow> u16 \<Rightarrow> nat" where
  "norm_shift_loop 0 d = 0"
| "norm_shift_loop (Suc rounds) d =
     (if d AND DIG_MSB = 0 then Suc (norm_shift_loop rounds (push_bit 1 d)) else 0)"

definition norm_shift_of :: "u16 \<Rightarrow> nat" where
  "norm_shift_of d = norm_shift_loop 16 d"

fun shl_num :: "nat \<Rightarrow> u16 \<Rightarrow> u16 list \<Rightarrow> u16 list" where
  "shl_num norm_shift carry [] = []"
| "shl_num norm_shift carry (n # num) =
     dig (push_bit norm_shift (ucast n) OR ucast carry)
     # shl_num norm_shift (ucast (drop_bit (DIG_SIZE - norm_shift) (ucast n :: u32))) num"

definition lead_digit :: "u16 list \<Rightarrow> nat \<Rightarrow> u32" where
  "lead_digit den norm_shift =
     (let l = push_bit norm_shift (ucast (last den))
      in if length den \<ge> 2 then l OR drop_bit (DIG_SIZE - norm_shift) (ucast (den ! (length den - 2))) else l)"

text \<open>\<open>num - quo * den\<close> over the digits of the window, with \<open>den\<close> shifted on the fly.\<close>

fun sub_mul :: "u32 \<Rightarrow> nat \<Rightarrow> u32 \<Rightarrow> int \<Rightarrow> u16 list \<Rightarrow> u16 list \<Rightarrow> u16 list \<times> int" where
  "sub_mul quo norm_shift d_norm borrow (n # num) (d # den) =
     (let d_norm1 = push_bit norm_shift (ucast d) OR drop_bit DIG_SIZE d_norm;
          x = quo * (d_norm1 AND DIG_MASK);
          low_digs = s32 ((borrow AND 0xFFFF) + uint n - uint (x AND DIG_MASK));
          borrow1 = s32 (drop_bit DIG_SIZE borrow - uint (drop_bit DIG_SIZE x) + drop_bit DIG_SIZE low_digs)
      in case sub_mul quo norm_shift d_norm1 borrow1 num den of (ds, b) \<Rightarrow> (sdig low_digs # ds, b))"
| "sub_mul quo norm_shift d_norm borrow _ _ = ([], borrow)"

fun add_den :: "nat \<Rightarrow> u32 \<Rightarrow> u32 \<Rightarrow> u16 list \<Rightarrow> u16 list \<Rightarrow> u16 list \<times> u32" where
  "add_den norm_shift d_norm carry (n # num) (d # den) =
     (let d_norm1 = push_bit norm_shift (ucast d) OR drop_bit DIG_SIZE d_norm;
          c = carry + (ucast n + (d_norm1 AND DIG_MASK))
      in case add_den norm_shift d_norm1 (drop_bit DIG_SIZE c) num den of (ds, c') \<Rightarrow> (dig c # ds, c'))"
| "add_den norm_shift d_norm carry _ _ = ([], carry)"

text \<open>The correction loop, which ends when the carries have cancelled the borrow.\<close>

partial_function (option) add_back :: "nat \<Rightarrow> u16 list \<Rightarrow> u32 \<Rightarrow> int \<Rightarrow> u16 list \<Rightarrow> (u32 \<times> u16 list) option" where
  "add_back norm_shift den quo borrow num =
     (if borrow = 0 then Some (quo, num)
      else case add_den norm_shift 0 0 num den of
        (num1, carry) \<Rightarrow> add_back norm_shift den (quo - 1) (s32 (borrow + uint carry)) num1)"

definition div_digit :: "u32 \<Rightarrow> nat \<Rightarrow> u16 list \<Rightarrow> u16 list \<Rightarrow> u16 \<Rightarrow> (u16 \<times> u16 list) option" where
  "div_digit lead norm_shift den num num_top =
     (let quo = (push_bit DIG_SIZE (ucast num_top) OR ucast (last num)) div lead
      in case sub_mul quo norm_shift 0 0 num den of
           (num1, borrow) \<Rightarrow> do {
             (quo1, num2) \<leftarrow> add_back norm_shift den quo (s32 (borrow + uint num_top)) num1;
             Some (dig quo1, num2) })"

text \<open>\<open>num\<close> is the window of as many digits as \<open>den\<close> has, \<open>num_top\<close> the digit above it, \<open>lows\<close> the digits
  below, highest first.  The quotient comes out highest digit first.\<close>

fun div_loop :: "u32 \<Rightarrow> nat \<Rightarrow> u16 list \<Rightarrow> u16 list \<Rightarrow> u16 \<Rightarrow> u16 list \<Rightarrow> (u16 list \<times> u16 list) option" where
  "div_loop lead norm_shift den num num_top [] = do {
     (q, num1) \<leftarrow> div_digit lead norm_shift den num num_top;
     Some ([q], num1) }"
| "div_loop lead norm_shift den num num_top (l # lows) = do {
     (q, num1) \<leftarrow> div_digit lead norm_shift den num num_top;
     (qs, r) \<leftarrow> div_loop lead norm_shift den (l # butlast num1) (last num1) lows;
     Some (q # qs, r) }"

fun shr_num :: "nat \<Rightarrow> u16 \<Rightarrow> u16 list \<Rightarrow> u16 list" where
  "shr_num norm_shift carry [] = []"
| "shr_num norm_shift carry (n # num) =
     dig (drop_bit norm_shift (ucast n) OR ucast carry)
     # shr_num norm_shift (ucast (push_bit (DIG_SIZE - norm_shift) (ucast n :: u32))) num"

text \<open>The quotient and what is left of the numerator; None would be a correction loop that never ends.\<close>

definition mpn_div :: "u16 list \<Rightarrow> u16 list \<Rightarrow> (u16 list \<times> u16 list) option" where
  "mpn_div num den =
     (let cmp = mpn_cmp num den
      in if cmp = 0 then Some ([1], [])
         else if cmp < 0 then Some ([], num)
         else
           let norm_shift = norm_shift_of (last den);
               num1 = shl_num norm_shift 0 (num @ [0]);
               lead = lead_digit den norm_shift;
               below = length num1 - 1 - length den
           in do {
             (qs, r) \<leftarrow> div_loop lead norm_shift den (take (length den) (drop below num1)) (last num1) (rev (take below num1));
             Some (mpn_remove_trailing_zeros (rev qs), mpn_remove_trailing_zeros (rev (shr_num norm_shift 0 (rev r)))) })"

declare add_back.simps [code]

end
