(* ===== verification/MpnCorrect.thy ===== *)
theory MpnCorrect
  imports Mpn
begin

text \<open>
  The digit functions compute on the numbers that the digits stand for: the value of a result is given
  for each function, and every result is normalised (its highest digit is not zero).
\<close>

named_theorems digit_simps

section \<open>Values\<close>

definition dval :: "u16 list \<Rightarrow> int" where
  "dval ds = horner_sum uint 65536 ds"

definition normalised :: "u16 list \<Rightarrow> bool" where
  "normalised ds \<longleftrightarrow> ds = [] \<or> last ds \<noteq> 0"

lemma dval_simps [simp]: "dval [] = 0" "dval (d # ds) = uint d + 65536 * dval ds"
  by (simp_all add: dval_def)

lemma dval_append: "dval (a @ b) = dval a + 65536 ^ length a * dval b"
  by (simp add: dval_def horner_sum_append)

lemma dval_zeros [simp]: "dval (replicate n 0) = 0"
  by (induction n) simp_all

lemma uint16: "0 \<le> uint (d :: u16)" "uint (d :: u16) < 65536"
  using uint_lt2p [of d] by simp_all

lemma uint32: "0 \<le> uint (d :: u32)" "uint (d :: u32) < 4294967296"
  using uint_lt2p [of d] by simp_all

lemma dval_nonneg [simp]: "0 \<le> dval ds"
  by (induction ds) simp_all

lemma dval_less: "dval ds < 65536 ^ length ds"
proof (induction ds)
  case (Cons d ds)
  have "dval ds + 1 \<le> 65536 ^ length ds" using Cons by linarith
  then have "65536 * (dval ds + 1) \<le> 65536 * 65536 ^ length ds" by simp
  then show ?case using uint16 [of d] by simp
qed simp

lemma dval_lower: "normalised ds \<Longrightarrow> ds \<noteq> [] \<Longrightarrow> 65536 ^ (length ds - 1) \<le> dval ds"
proof (induction ds)
  case (Cons d ds)
  show ?case
  proof (cases ds)
    case Nil
    then have "uint d \<noteq> 0" using Cons.prems by (simp add: normalised_def uint_0_iff)
    then have "1 \<le> uint d" using uint16(1) [of d] by linarith
    then show ?thesis using Nil by simp
  next
    case (Cons e es)
    then have "65536 ^ (length ds - 1) \<le> dval ds" using Cons.IH Cons.prems by (simp add: normalised_def)
    then have "65536 ^ length ds \<le> 65536 * dval ds" using Cons by simp
    then have "65536 ^ length ds \<le> uint d + 65536 * dval ds" using uint16 [of d] by linarith
    then show ?thesis by simp
  qed
qed simp

lemma dval_zero_iff:
  assumes "normalised ds"
  shows "dval ds = 0 \<longleftrightarrow> ds = []"
proof (cases "ds = []")
  case False
  have "(0 :: int) < 65536 ^ (length ds - 1)" by simp
  then show ?thesis using dval_lower [OF assms False] False by linarith
qed simp

lemma strip_high_split: "\<exists>n. ds = replicate n 0 @ strip_high ds"
proof (induction ds)
  case (Cons d ds)
  then obtain n where "ds = replicate n 0 @ strip_high ds" by blast
  then show ?case by (cases "d = 0") (auto intro: exI [of _ "Suc n"] exI [of _ 0])
qed simp

lemma strip_high_hd: "strip_high ds = [] \<or> hd (strip_high ds) \<noteq> 0"
  by (induction ds) simp_all

lemma dval_strip [simp]: "dval (mpn_remove_trailing_zeros ds) = dval ds"
proof -
  obtain n where "rev ds = replicate n 0 @ strip_high (rev ds)" using strip_high_split by blast
  then have "rev (rev ds) = rev (strip_high (rev ds)) @ rev (replicate n 0)" by (metis rev_append)
  then have "ds = mpn_remove_trailing_zeros ds @ replicate n 0"
    by (simp only: rev_rev_ident rev_replicate mpn_remove_trailing_zeros_def)
  then have "dval ds = dval (mpn_remove_trailing_zeros ds @ replicate n 0)" by (rule arg_cong)
  then show ?thesis by (simp add: dval_append)
qed

lemma normalised_strip [simp]: "normalised (mpn_remove_trailing_zeros ds)"
  using strip_high_hd [of "rev ds"]
  by (auto simp: normalised_def mpn_remove_trailing_zeros_def last_rev)

lemma strip_length: "length (mpn_remove_trailing_zeros ds) \<le> length ds"
proof -
  obtain n where "rev ds = replicate n 0 @ strip_high (rev ds)" using strip_high_split by blast
  then have "length (rev ds) = n + length (strip_high (rev ds))" by (metis length_append length_replicate)
  then show ?thesis by (simp add: mpn_remove_trailing_zeros_def)
qed

lemma normalised_Nil [simp]: "normalised []" by (simp add: normalised_def)

text \<open>A value below \<open>65536 ^ n\<close> has at most \<open>n\<close> normalised digits.\<close>

lemma normalised_length:
  assumes "normalised ds" "dval ds < 65536 ^ n"
  shows "length ds \<le> n"
proof (rule ccontr)
  assume "\<not> length ds \<le> n"
  then have n: "n \<le> length ds - 1" "ds \<noteq> []" by auto
  have "(65536 :: int) ^ n \<le> 65536 ^ (length ds - 1)" by (rule power_increasing) (use n in simp_all)
  then show False using dval_lower [OF assms(1) n(2)] assms(2) by linarith
qed

lemma dval_inj:
  "normalised a \<Longrightarrow> normalised b \<Longrightarrow> dval a = dval b \<Longrightarrow> a = b"
proof (induction a arbitrary: b)
  case Nil
  then show ?case using dval_zero_iff [of b] by simp
next
  case (Cons x xs)
  show ?case
  proof (cases b)
    case Nil
    then show ?thesis using dval_zero_iff [of "x # xs"] Cons.prems by simp
  next
    case b: (Cons y ys)
    have e: "uint x + 65536 * dval xs = uint y + 65536 * dval ys" using Cons.prems(3) b by simp
    have "uint z = (uint z + 65536 * v) mod 65536" for z :: u16 and v using uint16 [of z] by simp
    then have x: "uint x = uint y" using e by metis
    then have "dval xs = dval ys" using e by simp
    note x this
    moreover have "normalised xs" "normalised ys"
      using Cons.prems(1,2) b by (auto simp: normalised_def split: if_splits)
    ultimately show ?thesis using Cons.IH [of ys] b by (simp add: word_uint_eq_iff)
  qed
qed

section \<open>Digits and double digits\<close>

lemma uint_dig [digit_simps]: "uint (dig c) = uint c mod 65536"
proof -
  have "c AND DIG_MASK = take_bit 16 c" by (simp add: DIG_MASK_def take_bit_eq_mask mask_eq_exp_minus_1)
  then show ?thesis by (simp add: dig_def unsigned_ucast_eq unsigned_take_bit_eq take_bit_eq_mod uint_mod)
qed

lemma uint_shift [digit_simps]: "uint (drop_bit 16 (c :: u32)) = uint c div 65536"
  by (simp add: drop_bit_eq_div uint_div)

lemma uint_widen [digit_simps]: "uint (ucast (d :: u16) :: u32) = uint d"
proof -
  have "uint (ucast d :: u32) = take_bit 32 (uint d)" by (simp add: unsigned_ucast_eq)
  also have "\<dots> = uint d" using uint16 [of d] by (intro take_bit_int_eq_self) simp_all
  finally show ?thesis .
qed

lemma uint_narrow [digit_simps]: "uint (ucast (c :: u32) :: u16) = uint c mod 65536"
  by (simp add: unsigned_ucast_eq take_bit_eq_mod)

lemma uint_add32: "uint a + uint b < 4294967296 \<Longrightarrow> uint (a + b :: u32) = uint a + uint b"
  by (simp add: uint_word_ariths)

lemma uint_mult32: "uint a * uint b < 4294967296 \<Longrightarrow> uint (a * b :: u32) = uint a * uint b"
  by (simp add: uint_word_ariths)

lemma uint_mask [digit_simps]: "uint (c AND DIG_MASK) = uint c mod 65536"
proof -
  have "c AND DIG_MASK = take_bit 16 c" by (simp add: DIG_MASK_def take_bit_eq_mask mask_eq_exp_minus_1)
  then show ?thesis by (simp add: take_bit_eq_mod uint_mod)
qed

lemma s32_id: "- 2147483648 \<le> v \<Longrightarrow> v < 2147483648 \<Longrightarrow> s32 v = v"
  by (simp add: s32_def signed_take_bit_int_eq_self)

lemma uint_sdig [digit_simps]: "uint (sdig v) = v mod 65536"
proof -
  have "v AND 0xFFFF = take_bit 16 v" by (simp add: take_bit_eq_mask mask_eq_exp_minus_1)
  then show ?thesis by (simp add: sdig_def take_bit_eq_mod uint_word_of_int)
qed

lemma shift_int [digit_simps]: "drop_bit 16 (v :: int) = v div 65536"
  by (simp add: drop_bit_eq_div)

lemma mask_int [digit_simps]: "(v :: int) AND 0xFFFF = v mod 65536"
proof -
  have "v AND 0xFFFF = take_bit 16 v" by (simp add: take_bit_eq_mask mask_eq_exp_minus_1)
  then show ?thesis by (simp add: take_bit_eq_mod)
qed

section \<open>Comparison\<close>

lemma cmp_digits_ok:
  assumes "length a = length b"
  shows "cmp_digits (rev a) (rev b) = sgn (dval a - dval b)"
  using assms
proof (induction a arbitrary: b rule: rev_induct)
  case (snoc x xs)
  then obtain y ys where b: "b = ys @ [y]" "length ys = length xs" by (cases b rule: rev_cases) auto
  have s: "s32 (uint x - uint y) = uint x - uint y" using uint16 [of x] uint16 [of y] by (intro s32_id) linarith+
  have d: "dval (xs @ [x]) - dval b = dval xs - dval ys + 65536 ^ length xs * (uint x - uint y)"
    by (simp add: b dval_append algebra_simps)
  have lt: "dval xs < 65536 ^ length xs" "dval ys < 65536 ^ length xs" using dval_less [of xs] dval_less [of ys] b(2) by simp_all
  consider "uint x = uint y" | "uint x < uint y" | "uint x > uint y" by linarith
  then show ?case
  proof cases
    case 1
    then have "s32 (uint x - uint y) = 0" using s by simp
    then show ?thesis using 1 snoc.IH [of ys] b d by (simp add: Let_def)
  next
    case 2
    then have "65536 ^ length xs * (uint x - uint y) \<le> 65536 ^ length xs * (- 1 :: int)" by (intro mult_left_mono) simp_all
    then have "dval (xs @ [x]) - dval b < 0" unfolding d using lt dval_nonneg [of ys] by linarith
    then show ?thesis using 2 b by (simp add: s Let_def sgn_if)
  next
    case 3
    then have "65536 ^ length xs * 1 \<le> 65536 ^ length xs * (uint x - uint y)" by (intro mult_left_mono) simp_all
    then have "dval (xs @ [x]) - dval b > 0" unfolding d using lt dval_nonneg [of xs] by linarith
    then show ?thesis using 3 b by (simp add: s Let_def sgn_if)
  qed
qed simp

lemma dval_shorter:
  assumes "length a < length b" "normalised b"
  shows "dval a < dval b"
proof -
  have "(65536 :: int) ^ length a \<le> 65536 ^ (length b - 1)" by (rule power_increasing) (use assms in auto)
  moreover have "65536 ^ (length b - 1) \<le> dval b" by (rule dval_lower [OF assms(2)]) (use assms(1) in auto)
  ultimately show ?thesis using dval_less [of a] by linarith
qed

lemma mpn_cmp_ok:
  assumes "normalised a" "normalised b"
  shows "mpn_cmp a b = sgn (dval a - dval b)"
proof (rule linorder_cases [of "length a" "length b"])
  assume l: "length a < length b"
  then show ?thesis using dval_shorter [OF l assms(2)] by (simp add: mpn_cmp_def)
next
  assume l: "length a > length b"
  then show ?thesis using dval_shorter [OF l assms(1)] by (simp add: mpn_cmp_def)
qed (simp add: mpn_cmp_def cmp_digits_ok)

section \<open>Addition and subtraction\<close>

lemma split_digit: "x mod 65536 + 65536 * (y + x div 65536) = x + 65536 * (y :: int)"
  using mult_div_mod_eq [of 65536 x] by (simp add: distrib_left)

lemma carry_range: "v < 131072 \<Longrightarrow> v div 65536 \<le> (1 :: int)"
  using mult_div_mod_eq [of 65536 v] pos_mod_sign [of 65536 v] by linarith

lemma add_loop_ok:
  assumes "uint c \<le> 1" "length k \<le> length j" "add_loop c j k = (is, c')"
  shows "length is = length j \<and> uint c' \<le> 1 \<and> dval is + 65536 ^ length j * uint c' = dval j + dval k + uint c"
  using assms
proof (induction c j k arbitrary: "is" c' rule: add_loop.induct)
  case (1 c j js k ks)
  let ?c = "c + (ucast j + ucast k)"
  have s: "uint ?c = uint c + (uint j + uint k)"
    using uint16 [of j] uint16 [of k] "1.prems"(1) by (simp add: uint_add32 digit_simps)
  obtain is1 c1 where r: "add_loop (drop_bit 16 ?c) js ks = (is1, c1)" by (metis surj_pair)
  have le: "uint (drop_bit 16 ?c) \<le> 1"
    unfolding uint_shift s by (rule carry_range) (use uint16 [of j] uint16 [of k] "1.prems"(1) in linarith)
  have ih: "length is1 = length js" "uint c1 \<le> 1" "dval is1 + 65536 ^ length js * uint c1 = dval js + dval ks + uint (drop_bit 16 ?c)"
    using "1.IH" [OF refl le _ r] "1.prems"(2) by simp_all
  have e: "is = dig ?c # is1" "c' = c1" using "1.prems"(3) r by simp_all
  have "dval is + 65536 ^ length (j # js) * uint c' = uint ?c mod 65536 + 65536 * (dval is1 + 65536 ^ length js * uint c1)"
    unfolding e dval_simps uint_dig length_Cons power_Suc by (simp only: distrib_left mult.assoc add.assoc)
  also have "\<dots> = uint ?c + 65536 * (dval js + dval ks)"
    unfolding ih(3) uint_shift by (rule split_digit)
  finally show ?case using ih by (simp add: e s algebra_simps)
next
  case (2 c j js)
  let ?c = "c + ucast j"
  have s: "uint ?c = uint c + uint j" using uint16 [of j] "2.prems"(1) by (simp add: uint_add32 digit_simps)
  obtain is1 c1 where r: "add_loop (drop_bit 16 ?c) js [] = (is1, c1)" by (metis surj_pair)
  have le: "uint (drop_bit 16 ?c) \<le> 1"
    unfolding uint_shift s by (rule carry_range) (use uint16 [of j] "2.prems"(1) in linarith)
  have ih: "length is1 = length js" "uint c1 \<le> 1" "dval is1 + 65536 ^ length js * uint c1 = dval js + uint (drop_bit 16 ?c)"
    using "2.IH" [OF refl le _ r] by simp_all
  have e: "is = dig ?c # is1" "c' = c1" using "2.prems"(3) r by simp_all
  have "dval is + 65536 ^ length (j # js) * uint c' = uint ?c mod 65536 + 65536 * (dval is1 + 65536 ^ length js * uint c1)"
    unfolding e dval_simps uint_dig length_Cons power_Suc by (simp only: distrib_left mult.assoc add.assoc)
  also have "\<dots> = uint ?c + 65536 * dval js"
    unfolding ih(3) uint_shift by (rule split_digit)
  finally show ?case using ih by (simp add: e s algebra_simps)
qed simp

lemma mpn_add_ok:
  assumes "normalised j" "length k \<le> length j" "normalised k"
  shows "dval (mpn_add j k) = dval j + dval k" "normalised (mpn_add j k)" "length (mpn_add j k) \<le> length j + 1"
proof -
  obtain "is" c where r: "add_loop 0 j k = (is, c)" by (metis surj_pair)
  have ok: "length is = length j" "uint c \<le> 1" "dval is + 65536 ^ length j * uint c = dval j + dval k"
    using add_loop_ok [OF _ assms(2) r] by simp_all
  have c: "uint c mod 65536 = uint c" using ok(2) uint32 [of c] by simp
  show v: "dval (mpn_add j k) = dval j + dval k"
    using ok c by (auto simp: mpn_add_def r dval_append digit_simps)
  show "length (mpn_add j k) \<le> length j + 1" using ok(1) by (simp add: mpn_add_def r)
  show "normalised (mpn_add j k)"
  proof (cases "c = 0")
    case False
    then have "(ucast c :: u16) \<noteq> 0" using c by (simp add: word_uint_eq_iff digit_simps)
    then show ?thesis using False by (simp add: mpn_add_def r normalised_def)
  next
    case True
    show ?thesis
    proof (cases "j = []")
      case True
      then show ?thesis using r \<open>c = 0\<close> by (simp add: mpn_add_def normalised_def)
    next
      case False
      have "65536 ^ (length j - 1) \<le> dval is"
        using dval_lower [OF assms(1) False] ok(3) True dval_nonneg [of k] by (simp del: dval_nonneg)
      moreover have ne: "is \<noteq> []" using ok(1) False by auto
      moreover have "dval (butlast is) < 65536 ^ (length j - 1)" using dval_less [of "butlast is"] ok(1) by simp
      moreover have "dval is = dval (butlast is) + 65536 ^ (length j - 1) * uint (last is)"
        using arg_cong [OF append_butlast_last_id [OF ne], of dval] ok(1) by (simp add: dval_append)
      ultimately have "last is \<noteq> 0" by auto
      then show ?thesis using True by (simp add: mpn_add_def r normalised_def)
    qed
  qed
qed

lemma borrow_range:
  assumes "- 65536 \<le> v" "v < (65536 :: int)"
  shows "- 1 \<le> v div 65536" "v div 65536 \<le> 0"
proof -
  have "v = 65536 * (v div 65536) + v mod 65536" "0 \<le> v mod 65536" "v mod 65536 < 65536" by simp_all
  then show "- 1 \<le> v div 65536" "v div 65536 \<le> 0" using assms by linarith+
qed

lemma sub_loop_ok:
  assumes "- 1 \<le> b" "b \<le> 0" "length k \<le> length j"
  shows "length (sub_loop b j k) = length j \<and>
    (\<exists>b'. - 1 \<le> b' \<and> b' \<le> 0 \<and> dval (sub_loop b j k) + 65536 ^ length j * b' = dval j - dval k + b)"
  using assms
proof (induction b j k rule: sub_loop.induct)
  case (1 b j js k ks)
  let ?b = "b + (uint j - uint k)"
  have s: "s32 ?b = ?b" using uint16 [of j] uint16 [of k] "1.prems" by (intro s32_id) linarith+
  have le: "- 1 \<le> drop_bit 16 (s32 ?b)" "drop_bit 16 (s32 ?b) \<le> 0"
    unfolding s shift_int by (rule borrow_range; use uint16 [of j] uint16 [of k] "1.prems" in linarith)+
  then obtain b' where ih: "length (sub_loop (drop_bit 16 (s32 ?b)) js ks) = length js" "- 1 \<le> b'" "b' \<le> 0"
    "dval (sub_loop (drop_bit 16 (s32 ?b)) js ks) + 65536 ^ length js * b' = dval js - dval ks + drop_bit 16 (s32 ?b)"
    using "1.IH" [OF refl] "1.prems"(3) by auto
  have "dval (sub_loop b (j # js) (k # ks)) + 65536 ^ length (j # js) * b' =
      ?b mod 65536 + 65536 * (dval (sub_loop (drop_bit 16 (s32 ?b)) js ks) + 65536 ^ length js * b')"
    unfolding sub_loop.simps Let_def dval_simps uint_sdig s length_Cons power_Suc by (simp only: distrib_left mult.assoc add.assoc)
  also have "\<dots> = ?b + 65536 * (dval js - dval ks)"
    unfolding ih(4) unfolding shift_int s by (rule split_digit)
  finally have "dval (sub_loop b (j # js) (k # ks)) + 65536 ^ length (j # js) * b' = dval (j # js) - dval (k # ks) + b" by simp
  with ih(1-3) show ?case by (intro conjI exI [of _ b']) (simp_all add: Let_def)
next
  case (2 b j js)
  let ?b = "b + uint j"
  have s: "s32 ?b = ?b" using uint16 [of j] "2.prems" by (intro s32_id) linarith+
  have le: "- 1 \<le> drop_bit 16 (s32 ?b)" "drop_bit 16 (s32 ?b) \<le> 0"
    unfolding s shift_int by (rule borrow_range; use uint16 [of j] "2.prems" in linarith)+
  then obtain b' where ih: "length (sub_loop (drop_bit 16 (s32 ?b)) js []) = length js" "- 1 \<le> b'" "b' \<le> 0"
    "dval (sub_loop (drop_bit 16 (s32 ?b)) js []) + 65536 ^ length js * b' = dval js + drop_bit 16 (s32 ?b)"
    using "2.IH" [OF refl] by auto
  have "dval (sub_loop b (j # js) []) + 65536 ^ length (j # js) * b' =
      ?b mod 65536 + 65536 * (dval (sub_loop (drop_bit 16 (s32 ?b)) js []) + 65536 ^ length js * b')"
    unfolding sub_loop.simps Let_def dval_simps uint_sdig s length_Cons power_Suc by (simp only: distrib_left mult.assoc add.assoc)
  also have "\<dots> = ?b + 65536 * dval js"
    unfolding ih(4) unfolding shift_int s by (rule split_digit)
  finally have "dval (sub_loop b (j # js) []) + 65536 ^ length (j # js) * b' = dval (j # js) - dval [] + b" by simp
  with ih(1-3) show ?case by (intro conjI exI [of _ b']) (simp_all add: Let_def)
next
  case (3 b ks)
  then show ?case by simp
qed

lemma carry_is_zero:
  assumes "x + 65536 ^ n * b = (y :: int)" "0 \<le> x" "x < 65536 ^ n" "0 \<le> y" "b \<le> 0"
  shows "b = 0 \<and> x = y"
proof (cases "b = 0")
  case False
  then have "65536 ^ n * b \<le> 65536 ^ n * (- 1)" using assms(5) by (intro mult_left_mono) simp_all
  then show ?thesis using assms by linarith
qed (use assms in simp)

lemma mpn_sub_ok:
  assumes "length k \<le> length j" "dval k \<le> dval j"
  shows "dval (mpn_sub j k) = dval j - dval k" "normalised (mpn_sub j k)" "length (mpn_sub j k) \<le> length j"
proof -
  obtain b' where s: "length (sub_loop 0 j k) = length j" "- 1 \<le> b'" "b' \<le> 0" "dval (sub_loop 0 j k) + 65536 ^ length j * b' = dval j - dval k"
    using sub_loop_ok [of 0 k j] assms(1) by auto
  have "dval (sub_loop 0 j k) = dval j - dval k"
    using carry_is_zero [OF s(4)] dval_less [of "sub_loop 0 j k"] s(1,3) assms(2) by simp
  then show "dval (mpn_sub j k) = dval j - dval k" by (simp add: mpn_sub_def)
  show "normalised (mpn_sub j k)" by (simp add: mpn_sub_def)
  show "length (mpn_sub j k) \<le> length j" using strip_length [of "sub_loop 0 j k"] s(1) by (simp add: mpn_sub_def)
qed

end
