(* ===== verification/MpnOps.thy ===== *)
theory MpnOps
  imports MpnCorrect
begin

text \<open>Shifts, multiplication and the bitwise operations on digit lists.\<close>

section \<open>Normalised results by value\<close>

lemma normalisedI:
  assumes "ds \<noteq> [] \<Longrightarrow> 65536 ^ (length ds - 1) \<le> dval ds"
  shows "normalised ds"
proof (cases "ds = []")
  case False
  have e: "dval ds = dval (butlast ds) + 65536 ^ (length ds - 1) * uint (last ds)"
    using arg_cong [OF append_butlast_last_id [OF False], of dval] by (simp add: dval_append)
  have "dval (butlast ds) < 65536 ^ (length ds - 1)" using dval_less [of "butlast ds"] by simp
  then have "last ds \<noteq> 0" using e assms [OF False] by auto
  then show ?thesis by (simp add: normalised_def)
qed simp

section \<open>Shifts\<close>

lemma div_low_part: "0 \<le> a \<Longrightarrow> a < P \<Longrightarrow> (a + P * b) div P = (b :: int)"
  by simp

lemma dval_drop: "dval (drop k ds) = dval ds div 65536 ^ k"
proof (cases "k \<le> length ds")
  case True
  have e: "dval ds = dval (take k ds) + 65536 ^ k * dval (drop k ds)"
    using dval_append [of "take k ds" "drop k ds"] True by simp
  have "dval (take k ds) < 65536 ^ k" using dval_less [of "take k ds"] True by simp
  from div_low_part [OF dval_nonneg this, of "dval (drop k ds)"] show ?thesis unfolding e [symmetric] ..
next
  case False
  have "(65536 :: int) ^ length ds \<le> 65536 ^ k" by (rule power_increasing) (use False in simp_all)
  then have "dval ds < 65536 ^ k" using dval_less [of ds] by linarith
  then show ?thesis using False div_pos_pos_trivial [OF dval_nonneg, of ds "65536 ^ k"] by simp
qed

lemma uint_or_high: "uint (ucast (j :: u16) OR push_bit 16 (ucast (k :: u16)) :: u32) = uint j + 65536 * uint k"
proof -
  have "(ucast j :: u32) AND push_bit 16 (ucast k) = 0"
    by (rule bit_eqI) (auto simp: bit_and_iff bit_push_bit_iff bit_ucast_iff dest: bit_imp_le_length)
  then have "(ucast j :: u32) OR push_bit 16 (ucast k) = ucast j + push_bit 16 (ucast k)"
    by (simp add: disjunctive_add_eq_or)
  moreover have "uint (push_bit 16 (ucast k :: u32)) = 65536 * uint k"
  proof -
    have "push_bit 16 (ucast k :: u32) = ucast k * 65536" by (simp add: push_bit_eq_mult)
    moreover have "uint (ucast k * 65536 :: u32) = uint (ucast k :: u32) * uint (65536 :: u32)"
      by (rule uint_mult32) (use uint16 [of k] in \<open>simp add: uint_widen\<close>)
    ultimately show ?thesis by (simp add: uint_widen)
  qed
  ultimately show ?thesis using uint16 [of j] uint16 [of k] by (simp add: uint_add32 uint_widen)
qed

lemma uint_shift_n: "uint (drop_bit n (c :: u32)) = uint c div 2 ^ n"
proof -
  have tb: "take_bit 32 (uint c) = uint c" by (rule take_bit_int_eq_self) (use uint32 [of c] in simp_all)
  have "uint (drop_bit n c) = drop_bit n (take_bit 32 (uint c))" by (simp only: unsigned_drop_bit_eq len_bit0 len_num1) simp
  also have "\<dots> = drop_bit n (uint c)" unfolding tb ..
  also have "\<dots> = uint c div 2 ^ n" by (rule drop_bit_eq_div)
  finally show ?thesis .
qed

lemma two_powers: "m \<le> 16 \<Longrightarrow> (2 :: int) ^ m * 2 ^ (16 - m) = 65536"
  by (simp add: power_add [symmetric])

text \<open>One digit of a right shift: the bits come from the digit and the one above it.\<close>

lemma shr_digit:
  fixes j j1 V2 c q :: int
  assumes "65536 = c * q" "0 < c" "0 \<le> j" "j < 65536"
  shows "(j + 65536 * j1) div c mod 65536 + 65536 * ((j1 + 65536 * V2) div c) = (j + 65536 * (j1 + 65536 * V2)) div c"
proof -
  let ?T = "j + 65536 * (j1 + 65536 * V2)"
  have "?T = (j + 65536 * j1) + c * (65536 * q * V2)" using assms(1) by (simp add: algebra_simps)
  then have "?T div c = 65536 * q * V2 + (j + 65536 * j1) div c" using assms(2) by (simp only: div_mult_self2) 
  then have m: "?T div c mod 65536 = (j + 65536 * j1) div c mod 65536"
    by (simp add: mult.assoc)
  have "?T div c div 65536 = ?T div (c * 65536)" by (rule zdiv_zmult2_eq [symmetric]) simp
  also have "\<dots> = ?T div (65536 * c)" by (simp only: mult.commute [of c])
  also have "\<dots> = ?T div 65536 div c" by (rule zdiv_zmult2_eq) (use assms(2) in simp)
  also have "?T div 65536 = j1 + 65536 * V2" using assms(3,4) by (rule div_low_part)
  finally show ?thesis using m mod_mult_div_eq [of "?T div c" 65536] by simp
qed

lemma shr_loop_ok:
  assumes "np < 16"
  shows "length (shr_loop np j) = length j \<and> dval (shr_loop np j) = dval j div 2 ^ np"
  using assms
proof (induction np j rule: shr_loop.induct)
  case (2 np j)
  have "uint j div 2 ^ np \<le> uint j div 1" by (rule zdiv_mono2) (use uint16 [of j] in simp_all)
  then have "uint j div 2 ^ np < 65536" "0 \<le> uint j div 2 ^ np" using uint16 [of j] by (simp_all add: pos_imp_zdiv_nonneg_iff)
  then show ?case by (simp add: uint_dig uint_shift_n uint_widen)
next
  case (3 np j j1 js)
  have q: "(65536 :: int) = 2 ^ np * 2 ^ (16 - np)" using two_powers [of np] "3.prems" by simp
  have "dval (shr_loop np (j # j1 # js)) = (uint j + 65536 * uint j1) div 2 ^ np mod 65536 + 65536 * (dval (j1 # js) div 2 ^ np)"
    using "3.IH" [OF "3.prems"] by (simp only: shr_loop.simps dval_simps uint_dig uint_shift_n uint_or_high)
  also have "\<dots> = dval (j # j1 # js) div 2 ^ np"
    unfolding dval_simps(2) by (rule shr_digit [OF q]) (use uint16 [of j] in simp_all)
  finally show ?case using "3.IH" [OF "3.prems"] by simp
qed simp


lemma unat_div_mod: "int (unat (n div 16 :: u32)) = uint n div 16" "int (unat (n mod 16 :: u32)) = uint n mod 16"
  "unat (n mod 16 :: u32) < 16"
  by (simp_all add: unat_div unat_mod zdiv_int zmod_int)

lemma power_split: "(2 :: int) ^ (16 * a + b) = 65536 ^ a * 2 ^ b"
  by (simp add: power_add power_mult)

lemma shr_top:
  assumes "p \<le> 16"
  shows "65536 ^ m \<le> (65536 :: int) ^ Suc m div 2 ^ p"
proof -
  have "(65536 :: int) ^ Suc m = 65536 * 65536 ^ m" by simp
  also have "\<dots> = 2 ^ p * 2 ^ (16 - p) * 65536 ^ m" unfolding two_powers [OF assms] ..
  also have "\<dots> = 2 ^ p * (2 ^ (16 - p) * 65536 ^ m)" by (rule mult.assoc)
  finally have "(65536 :: int) ^ Suc m div 2 ^ p = 2 ^ p * (2 ^ (16 - p) * 65536 ^ m) div 2 ^ p" by (rule arg_cong)
  also have "\<dots> = 2 ^ (16 - p) * 65536 ^ m" by (rule nonzero_mult_div_cancel_left) simp
  finally have "(65536 :: int) ^ Suc m div 2 ^ p = 2 ^ (16 - p) * 65536 ^ m" .
  moreover have "1 * 65536 ^ m \<le> 2 ^ (16 - p) * (65536 :: int) ^ m" by (rule mult_right_mono) simp_all
  ultimately show ?thesis by simp
qed

lemma mpn_shr_ok:
  assumes "normalised j"
  shows "dval (mpn_shr j n) = dval j div 2 ^ unat n" "normalised (mpn_shr j n)" "length (mpn_shr j n) \<le> length j"
proof -
  define w where "w = unat (n div 16)"
  define p where "p = unat (n mod 16)"
  have p16: "p < 16" by (simp add: p_def unat_div_mod)
  have wp: "unat n = 16 * w + p" by (simp add: w_def p_def unat_div unat_mod)
  have div: "dval j div 2 ^ unat n = dval j div 65536 ^ w div 2 ^ p"
    unfolding wp power_split by (rule zdiv_zmult2_eq) simp
  have r: "mpn_shr j n = (if w \<ge> length j then []
      else let i = shr_loop p (drop w j) in if last i = 0 then butlast i else i)"
    by (simp add: mpn_shr_def w_def p_def Let_def)
  have "dval (mpn_shr j n) = dval j div 2 ^ unat n \<and> normalised (mpn_shr j n) \<and> length (mpn_shr j n) \<le> length j"
  proof (cases "w \<ge> length j")
    case True
    then have "dval j div 65536 ^ w = 0" using dval_drop [of w j] by simp
    then show ?thesis using True by (simp add: r div)
  next
    case False
    define ds where "ds = drop w j"
    let ?i = "shr_loop p ds"
    have i: "length ?i = length ds" "dval ?i = dval ds div 2 ^ p" using shr_loop_ok [OF p16] by simp_all
    have ne: "ds \<noteq> []" "normalised ds" "?i \<noteq> []" and le: "length ds \<le> length j"
      using False assms i(1) by (auto simp: normalised_def last_drop ds_def)
    have v: "dval ?i = dval j div 2 ^ unat n" unfolding i(2) div by (simp only: ds_def dval_drop)
    have r: "mpn_shr j n = (if last ?i = 0 then butlast ?i else ?i)" using False by (simp add: r Let_def ds_def)
    have last: "dval ?i = dval (butlast ?i) + 65536 ^ (length ds - 1) * uint (last ?i)"
      using arg_cong [OF append_butlast_last_id [OF ne(3)], of dval] i(1) by (simp add: dval_append)
    show ?thesis
    proof (cases "last ?i = 0")
      case True
      have "65536 ^ (length (butlast ?i) - 1) \<le> dval (butlast ?i)" if b: "butlast ?i \<noteq> []"
      proof -
        have "0 < length (butlast ?i)" using b by blast
        then have l2: "2 \<le> length ds" using i(1) by simp
        define m where "m = length ds - 2"
        have m: "length ds = Suc (Suc m)" using l2 by (simp add: m_def)
        have "65536 ^ Suc m \<le> dval ds" using dval_lower [OF ne(2,1)] unfolding m by simp
        then have "65536 ^ Suc m div 2 ^ p \<le> dval ds div 2 ^ p" by (rule zdiv_mono1) simp
        moreover have "65536 ^ m \<le> (65536 :: int) ^ Suc m div 2 ^ p" by (rule shr_top) (use p16 in simp)
        ultimately show ?thesis using last True i m by simp
      qed
      then have "normalised (butlast ?i)" by (rule normalisedI)
      then show ?thesis using True v last i(1) le by (simp add: r)
    next
      case l: False
      then have "normalised ?i" using ne by (simp add: normalised_def)
      then show ?thesis using l v i(1) le by (simp add: r)
    qed
  qed
  then show "dval (mpn_shr j n) = dval j div 2 ^ unat n" "normalised (mpn_shr j n)" "length (mpn_shr j n) \<le> length j" by simp_all
qed

text \<open>Left shifts.  The loop carries the digit above in the upper half of \<open>d\<close>.\<close>

lemma shl_digit:
  fixes p j v B c m :: int
  assumes "65536 = m * c" "0 < m" "0 < c" "0 \<le> v" "v < B" "0 \<le> j" "j < 65536"
  shows "(j * B + v) * m mod (B * 65536) + B * 65536 * ((p * 65536 + j) div c mod 65536) =
    (p * (B * 65536) + j * B + v) * m mod (B * 65536 * 65536)"
proof -
  have B: "0 < B" using assms(4,5) by linarith
  let ?Y = "(j * B + v) * m" and ?Z = "(p * (B * 65536) + j * B + v) * m"
  have Z: "?Z = ?Y + B * 65536 * (p * m)" by (simp add: algebra_simps)
  have yb: "?Y div B = j * m + v * m div B"
  proof -
    have "?Y = v * m + B * (j * m)" by (simp add: algebra_simps)
    then show ?thesis using B by (simp only: div_mult_self2)
  qed
  have vm: "0 \<le> v * m div B" "v * m div B < m"
  proof -
    show "0 \<le> v * m div B" using assms(2,4) B by (simp add: pos_imp_zdiv_nonneg_iff)
    have "v * m < B * m" using assms(2,5) by simp
    show "v * m div B < m"
    proof (rule ccontr)
      assume "\<not> v * m div B < m"
      then have "B * m \<le> B * (v * m div B)" using B by simp
      moreover have "v * m = B * (v * m div B) + v * m mod B" "0 \<le> v * m mod B" using B by simp_all
      ultimately show False using \<open>v * m < B * m\<close> by linarith
    qed
  qed
  have "?Y div (B * 65536) = ?Y div B div 65536" by (rule zdiv_zmult2_eq) simp
  also have "\<dots> = (j * m + v * m div B) div m div c"
    unfolding yb assms(1) by (rule zdiv_zmult2_eq) (use assms(3) in simp)
  also have "(j * m + v * m div B) div m = j" using vm by (simp add: div_add1_eq mult.commute)
  finally have y: "?Y div (B * 65536) = j div c" .
  have zd: "?Z div (B * 65536) = p * m + j div c"
  proof -
    have "B * 65536 \<noteq> 0" using B by simp
    from div_mult_self2 [OF this, of ?Y "p * m"] show ?thesis unfolding Z y .
  qed
  have "(p * 65536 + j) div c = p * m + j div c"
  proof -
    have "p * 65536 + j = j + c * (p * m)" unfolding assms(1) by (simp add: algebra_simps)
    then show ?thesis using assms(3) by (simp only: div_mult_self2)
  qed
  with zd have d: "?Z div (B * 65536) mod 65536 = (p * 65536 + j) div c mod 65536" by simp
  have "?Z mod (B * 65536) = ?Y mod (B * 65536)" unfolding Z by simp
  moreover have "?Z mod (B * 65536 * 65536) = B * 65536 * (?Z div (B * 65536) mod 65536) + ?Z mod (B * 65536)"
    by (rule zmod_zmult2_eq) simp
  ultimately show ?thesis unfolding d by simp
qed


lemma uint_shl: "n \<le> 16 \<Longrightarrow> uint (push_bit n (ucast (j :: u16)) :: u32) = uint j * 2 ^ n"
proof -
  assume n: "n \<le> 16"
  have le: "(2 :: int) ^ n \<le> 2 ^ 16" by (rule power_increasing) (use n in simp_all)
  have "uint j * 2 ^ n \<le> uint j * 2 ^ 16" by (rule mult_left_mono) (use le uint16 [of j] in simp_all)
  then have b: "uint j * 2 ^ n < 4294967296" "0 \<le> uint j * 2 ^ n" using uint16 [of j] by simp_all
  have "uint (push_bit n (ucast j :: u32)) = take_bit 32 (push_bit n (uint (ucast j :: u32)))"
    by (simp add: unsigned_push_bit_eq)
  also have "push_bit n (uint (ucast j :: u32)) = uint j * 2 ^ n" unfolding uint_widen by (rule push_bit_eq_mult)
  also have "take_bit 32 (uint j * 2 ^ n) = uint j * 2 ^ n" by (rule take_bit_int_eq_self) (use b in simp_all)
  finally show "uint (push_bit n (ucast j) :: u32) = uint j * 2 ^ n" .
qed

lemma or_high_swap: "uint (push_bit 16 (ucast (p :: u16)) OR ucast (j :: u16) :: u32) = uint p * 65536 + uint j"
  using uint_or_high [of j p] by (simp add: or.commute mult.commute)

lemma shl_loop_ok:
  assumes "1 \<le> m" "m \<le> 16"
  shows "length (shl_loop m (push_bit 16 (ucast p)) js) = length js + 1 \<and>
    dval (rev (shl_loop m (push_bit 16 (ucast p)) js)) =
      (uint (p :: u16) * 65536 ^ length js + dval (rev js)) * 2 ^ m mod (65536 ^ length js * 65536)"
proof (induction js arbitrary: p)
  case Nil
  have q: "(65536 :: int) = 2 ^ m * 2 ^ (16 - m)" using two_powers [OF assms(2)] by simp
  have "uint p * 65536 div 2 ^ (16 - m) = uint p * 2 ^ m"
  proof -
    have "uint p * 65536 = 2 ^ (16 - m) * (uint p * 2 ^ m)" unfolding q by (simp only: mult.left_commute mult.commute)
    then show ?thesis by (simp only: nonzero_mult_div_cancel_left power_eq_0_iff) simp
  qed
  then show ?case by (simp only: shl_loop.simps) (simp only: list.size rev.simps append_Nil dval_simps uint_dig uint_shift_n uint_shl [OF le_refl]; simp)
next
  case (Cons j js)
  have q: "(65536 :: int) = 2 ^ m * 2 ^ (16 - m)" using two_powers [OF assms(2)] by simp
  let ?d = "push_bit 16 (ucast p) OR ucast j :: u32"
  have nx: "push_bit 16 ?d = push_bit 16 (ucast j)"
    by (rule bit_eqI) (auto simp: bit_push_bit_iff bit_or_iff bit_ucast_iff)
  have e: "shl_loop m (push_bit 16 (ucast p)) (j # js) = dig (drop_bit (16 - m) ?d) # shl_loop m (push_bit 16 (ucast j)) js"
    by (simp add: Let_def nx)
  have "dval (rev (shl_loop m (push_bit 16 (ucast p)) (j # js))) =
      (uint j * 65536 ^ length js + dval (rev js)) * 2 ^ m mod (65536 ^ length js * 65536) +
      65536 ^ length js * 65536 * ((uint p * 65536 + uint j) div 2 ^ (16 - m) mod 65536)"
    unfolding e using Cons.IH [of j] by (simp add: dval_append uint_dig uint_shift_n or_high_swap del: shl_loop.simps drop_bit_or)
  also have "\<dots> = (uint p * (65536 ^ length js * 65536) + uint j * 65536 ^ length js + dval (rev js)) * 2 ^ m
      mod (65536 ^ length js * 65536 * 65536)"
    by (rule shl_digit [OF q]) (use dval_less [of "rev js"] uint16 [of j] in simp_all)
  finally show ?case unfolding e using Cons.IH [of j] by (simp add: dval_append mult.commute add.assoc add.commute add.left_commute del: shl_loop.simps)
qed


lemma mpn_shl_ok:
  assumes "normalised j" "0 < unat n" "unat n < 4294967281"
  shows "dval (mpn_shl j n) = dval j * 2 ^ unat n" "normalised (mpn_shl j n)" "length (mpn_shl j n) \<le> length j + shl_whole n"
proof -
  define w where "w = unat (n div 16)"
  define p where "p = unat (n mod 16)"
  have p16: "p < 16" by (simp add: p_def unat_div_mod)
  have wp: "unat n = 16 * w + p" by (simp add: w_def p_def unat_div unat_mod)
  note un = assms(3,2)
  have "unat (n + 15) = unat n + 15" by (subst unat_add_lem [THEN iffD1]) (use un in simp_all)
  then have sw: "shl_whole n = (unat n + 15) div 16" by (simp add: shl_whole_def unat_div)
  define m where "m = (if p = 0 then 16 else p)"
  have m: "1 \<le> m" "m \<le> 16" using p16 by (simp_all add: m_def)
  have whole: "shl_whole n = (if p = 0 then w else w + 1)"
  proof (cases "p = 0")
    case False
    then have "(16 * w + p + 15) div 16 = (16 * (w + 1) + (p - 1)) div 16" by simp
    also have "\<dots> = w + 1" by (rule div_nat_eqI) (use p16 in simp_all)
    finally show ?thesis using False by (simp add: sw wp)
  qed (simp add: sw wp)
  have sm: "1 \<le> shl_whole n" "unat n = 16 * (shl_whole n - 1) + m"
    using un(2) by (auto simp: whole wp m_def)
  have n0: "n mod 16 = 0 \<longleftrightarrow> p = 0" by (simp add: p_def unat_eq_zero)
  let ?out = "rev (shl_loop m 0 (rev j))"
  have r: "mpn_shl j n = mpn_remove_trailing_zeros (replicate (shl_whole n - 1) 0 @ ?out)"
    by (simp add: mpn_shl_def Let_def n0 m_def p_def)
  have l: "length ?out = length j + 1" "dval ?out = dval j * 2 ^ m mod (65536 ^ length j * 65536)"
    using shl_loop_ok [OF m, of 0 "rev j"] by simp_all
  have "dval j * 2 ^ m < 65536 ^ length j * 65536"
  proof -
    have pm: "(2 :: int) ^ m \<le> 65536" using power_increasing [of m 16 "2 :: int"] m(2) by simp
    have "dval j * 2 ^ m \<le> dval j * 65536" by (rule mult_left_mono [OF pm]) simp
    also have "\<dots> < 65536 ^ length j * 65536" using dval_less [of j] by simp
    finally show ?thesis .
  qed
  then have v: "dval ?out = dval j * 2 ^ m" by (simp add: l(2))
  have "dval (mpn_shl j n) = 65536 ^ (shl_whole n - 1) * (dval j * 2 ^ m)" by (simp add: r dval_append v)
  also have "\<dots> = dval j * 2 ^ unat n" unfolding sm(2) power_split by simp
  finally show "dval (mpn_shl j n) = dval j * 2 ^ unat n" .
  show "normalised (mpn_shl j n)" by (simp add: r)
  show "length (mpn_shl j n) \<le> length j + shl_whole n"
    using strip_length [of "replicate (shl_whole n - 1) 0 @ ?out"] l(1) sm(1) by (simp add: r)
qed

end
