(* ===== verification/MpnMul.thy ===== *)
theory MpnMul
  imports MpnOps
begin

text \<open>Multiplication, and the bitwise operations with their two's complement forms for negative numbers.\<close>

section \<open>Multiplication by a digit\<close>

lemma carry_mult:
  assumes "uint c \<le> 65535" "uint x \<le> 65535"
  shows "uint (c + (ucast (i :: u16) * ucast (j :: u16)) :: u32) = uint c + uint i * uint j"
    "uint (c + (x + ucast i * ucast j) :: u32) = uint c + (uint x + uint i * uint j)"
    "(uint c + (uint x + uint i * uint j)) div 65536 \<le> 65535" "(uint c + uint i * uint j) div 65536 \<le> 65535"
proof -
  have "uint i * uint j \<le> 65535 * 65535"
    by (rule mult_mono) (use uint16 [of i] uint16 [of j] in simp_all)
  then have b: "uint i * uint j \<le> 4294836225" by simp
  then have m: "uint (ucast i * ucast j :: u32) = uint i * uint j" by (subst uint_mult32) (simp_all add: uint_widen)
  then show "uint (c + (ucast i * ucast j) :: u32) = uint c + uint i * uint j"
    using b assms by (subst uint_add32) simp_all
  have x: "uint (x + ucast i * ucast j) = uint x + uint i * uint j" using m b assms by (subst uint_add32) simp_all
  then show "uint (c + (x + ucast i * ucast j) :: u32) = uint c + (uint x + uint i * uint j)"
    using b assms by (subst uint_add32) simp_all
  have "v div 65536 \<le> 65535" if "v \<le> 4294967295" for v :: int
    using zdiv_mono1 [OF that, of 65536] by simp
  then show "(uint c + (uint x + uint i * uint j)) div 65536 \<le> 65535" "(uint c + uint i * uint j) div 65536 \<le> 65535"
    using b assms uint32 [of x] by simp_all
qed

lemma mul_dig_loop_ok:
  assumes "uint c \<le> 65535" "mul_dig_loop k c i = (ds, c')"
  shows "length ds = length i \<and> uint c' \<le> 65535 \<and> dval ds + 65536 ^ length i * uint c' = dval i * uint k + uint c"
  using assms
proof (induction i arbitrary: c ds)
  case (Cons d i)
  let ?c = "c + ucast d * ucast k"
  have s: "uint ?c = uint c + uint d * uint k" "uint (drop_bit 16 ?c) \<le> 65535"
    using carry_mult [OF Cons.prems(1), of 0 d k] by (simp_all only: uint_shift uint_0_eq zero_le_numeral simp_thms)
  obtain ds1 where r: "mul_dig_loop k (drop_bit 16 ?c) i = (ds1, c')" "ds = dig ?c # ds1"
    using Cons.prems(2) by (auto simp: Let_def split: prod.splits)
  have ih: "length ds1 = length i" "uint c' \<le> 65535" "dval ds1 + 65536 ^ length i * uint c' = dval i * uint k + uint (drop_bit 16 ?c)"
    using Cons.IH [OF s(2) r(1)] by simp_all
  have "dval ds + 65536 ^ length (d # i) * uint c' = uint ?c mod 65536 + 65536 * (dval ds1 + 65536 ^ length i * uint c')"
    unfolding r(2) dval_simps uint_dig length_Cons power_Suc by (simp only: distrib_left mult.assoc add.assoc)
  also have "\<dots> = uint ?c + 65536 * (dval i * uint k)" unfolding ih(3) uint_shift by (rule split_digit)
  finally show ?case using ih r(2) by (simp add: s(1) algebra_simps)
qed simp

lemma mpn_mul_dig_add_dig_ok:
  assumes "normalised i" "dmul \<noteq> 0"
  shows "dval (mpn_mul_dig_add_dig i dmul dadd) = dval i * uint dmul + uint dadd"
    "normalised (mpn_mul_dig_add_dig i dmul dadd)" "length (mpn_mul_dig_add_dig i dmul dadd) \<le> length i + 1"
proof -
  obtain ds c where r: "mul_dig_loop dmul (ucast dadd) i = (ds, c)" by (metis surj_pair)
  have a: "uint (ucast dadd :: u32) \<le> 65535" using uint16 [of dadd] by (simp add: uint_widen)
  have ok: "length ds = length i" "uint c \<le> 65535" "dval ds + 65536 ^ length i * uint c = dval i * uint dmul + uint dadd"
    using mul_dig_loop_ok [OF a r] by (simp_all add: uint_widen)
  have c: "uint c mod 65536 = uint c" using ok(2) uint32 [of c] by simp
  show v: "dval (mpn_mul_dig_add_dig i dmul dadd) = dval i * uint dmul + uint dadd"
    using ok c by (auto simp: mpn_mul_dig_add_dig_def r dval_append uint_narrow)
  show "length (mpn_mul_dig_add_dig i dmul dadd) \<le> length i + 1" using ok(1) by (simp add: mpn_mul_dig_add_dig_def r)
  show "normalised (mpn_mul_dig_add_dig i dmul dadd)"
  proof (cases "c = 0")
    case False
    then have "(ucast c :: u16) \<noteq> 0" using c by (simp add: word_uint_eq_iff uint_narrow)
    then show ?thesis using False by (simp add: mpn_mul_dig_add_dig_def r normalised_def)
  next
    case True
    then have e: "mpn_mul_dig_add_dig i dmul dadd = ds" by (simp add: mpn_mul_dig_add_dig_def r)
    show ?thesis
    proof (rule normalisedI, unfold e)
      assume "ds \<noteq> []"
      then have "i \<noteq> []" using ok(1) by auto
      then have "65536 ^ (length i - 1) \<le> dval i" by (rule dval_lower [OF assms(1)])
      also have "dval i * 1 \<le> dval i * uint dmul"
      proof (rule mult_left_mono)
        have "uint dmul \<noteq> 0" using assms(2) by (simp add: word_uint_eq_iff)
        then show "1 \<le> uint dmul" using uint16(1) [of dmul] by linarith
      qed simp
      finally have "65536 ^ (length i - 1) \<le> dval i * uint dmul + uint dadd" using uint16(1) [of dadd] by linarith
      then show "65536 ^ (length ds - 1) \<le> dval ds" using v e ok(1) by simp
    qed
  qed
qed

section \<open>Multiplication\<close>

lemma mul_row_ok:
  assumes "uint c \<le> 65535" "length j < length is" "is ! length j = 0" "mul_row k c j is = (ds, more)"
  shows "length ds = length is \<and> dval ds = dval is + dval j * uint k + uint c \<and>
    (\<forall>i > length j. i < length is \<longrightarrow> ds ! i = is ! i) \<and> (more \<longleftrightarrow> ds ! length j \<noteq> 0)"
  using assms
proof (induction j arbitrary: c "is" ds)
  case Nil
  then obtain i is' where "is": "is = i # is'" by (cases "is") auto
  have i: "i = 0" using Nil.prems(3) "is" by simp
  have c: "uint c mod 65536 = uint c" using Nil.prems(1) uint32 [of c] by simp
  show ?case
  proof (cases "c = 0")
    case True
    then have "ds = is" "\<not> more" using Nil.prems(4) by simp_all
    then show ?thesis using True Nil.prems(3) by simp
  next
    case False
    then have z: "(ucast c :: u16) \<noteq> 0" using c by (simp add: word_uint_eq_iff uint_narrow)
    have ds: "ds = ucast c # is'" "more" using Nil.prems(4) False "is" by simp_all
    have "\<forall>n > 0. n < length is \<longrightarrow> ds ! n = is ! n" by (simp add: ds "is" nth_Cons')
    then show ?thesis using ds z c i "is" by (simp add: uint_narrow)
  qed
next
  case (Cons d j)
  obtain i is' where "is": "is = i # is'" using Cons.prems(2) by (cases "is") auto
  let ?c = "c + (ucast i + ucast d * ucast k)"
  have x: "uint (ucast i :: u32) \<le> 65535" using uint16 [of i] by (simp add: uint_widen)
  have s: "uint ?c = uint c + (uint i + uint d * uint k)" "uint (drop_bit 16 ?c) \<le> 65535"
    using carry_mult [OF Cons.prems(1) x, of d k] by (simp_all only: uint_shift uint_widen)
  obtain ds1 more1 where row: "mul_row k (drop_bit 16 ?c) j is' = (ds1, more1)" by (metis surj_pair)
  have r: "mul_row k (drop_bit 16 ?c) j is' = (ds1, more)" "ds = dig ?c # ds1"
    using Cons.prems(4) row unfolding "is" by (simp_all add: Let_def)
  have ih: "length ds1 = length is'" "dval ds1 = dval is' + dval j * uint k + uint (drop_bit 16 ?c)"
    "\<forall>i > length j. i < length is' \<longrightarrow> ds1 ! i = is' ! i" "more \<longleftrightarrow> ds1 ! length j \<noteq> 0"
    using Cons.IH [OF s(2) _ _ r(1)] Cons.prems(2,3) "is" by simp_all
  have "dval ds = uint ?c mod 65536 + 65536 * ((dval is' + dval j * uint k) + uint ?c div 65536)"
    unfolding r(2) dval_simps uint_dig ih(2) uint_shift ..
  also have "\<dots> = uint ?c + 65536 * (dval is' + dval j * uint k)" by (rule split_digit)
  finally have v: "dval ds = dval is + dval (d # j) * uint k + uint c" by (simp add: "is" s(1) algebra_simps)
  have "\<forall>n > length (d # j). n < length is \<longrightarrow> ds ! n = is ! n"
  proof (intro allI impI)
    fix n assume n: "length (d # j) < n" "n < length is"
    then obtain m where "n = Suc m" by (cases n) auto
    then show "ds ! n = is ! n" using ih(3) n r(2) "is" by simp
  qed
  then show ?case using v ih r(2) "is" by simp
qed

lemma dval_high_zero:
  assumes "\<forall>i \<ge> n. i < length ds \<longrightarrow> ds ! i = 0" "n \<le> length ds"
  shows "dval (take n ds) = dval ds"
proof -
  have "drop n ds = replicate (length ds - n) 0"
    by (rule nth_equalityI) (use assms in auto)
  then have "dval (drop n ds) = 0" by simp
  then show ?thesis using dval_append [of "take n ds" "drop n ds"] by simp
qed

lemma mul_rows_ok:
  assumes "length j + length ks \<le> length is" "\<forall>i \<ge> length j. i < length is \<longrightarrow> is ! i = 0" "mul_rows j ks is = (ds, n)"
  shows "length ds = length is \<and> dval ds = dval is + dval j * dval ks \<and>
    (ks \<noteq> [] \<longrightarrow> length j + length ks - 1 \<le> n \<and> n \<le> length j + length ks \<and>
      (\<forall>i \<ge> n. i < length is \<longrightarrow> ds ! i = 0) \<and> (n = length j + length ks \<longrightarrow> ds ! (n - 1) \<noteq> 0))"
  using assms
proof (induction ks arbitrary: "is" ds n)
  case (Cons k ks)
  obtain r more where row: "mul_row k 0 j is = (r, more)" by (metis surj_pair)
  have lt: "length j < length is" "is ! length j = 0" using Cons.prems(1,2) by simp_all
  have r: "length r = length is" "dval r = dval is + dval j * uint k" "\<And>i. length j < i \<Longrightarrow> i < length is \<Longrightarrow> r ! i = is ! i"
    "more \<longleftrightarrow> r ! length j \<noteq> 0"
    using mul_row_ok [OF _ lt row] by simp_all
  obtain d r' where r': "r = d # r'" using r(1) lt(1) by (cases r) auto
  obtain es m where rows: "mul_rows j ks r' = (es, m)" by (metis surj_pair)
  have e: "ds = d # es" "n = (if ks = [] then length j + of_bool more else m + 1)"
    using Cons.prems(3) row rows r' by (auto split: prod.splits)
  have zero: "\<forall>i \<ge> length j. i < length r' \<longrightarrow> r' ! i = 0"
  proof (intro allI impI)
    fix i assume "length j \<le> i" "i < length r'"
    then show "r' ! i = 0" using r(3) [of "Suc i"] r(1) r' Cons.prems(2) by simp
  qed
  have ih: "length es = length r'" "dval es = dval r' + dval j * dval ks"
    "ks \<noteq> [] \<Longrightarrow> length j + length ks - 1 \<le> m \<and> m \<le> length j + length ks \<and>
      (\<forall>i \<ge> m. i < length r' \<longrightarrow> es ! i = 0) \<and> (m = length j + length ks \<longrightarrow> es ! (m - 1) \<noteq> 0)"
    using Cons.IH [OF _ zero rows] Cons.prems(1) r(1) r' by simp_all
  have len: "length ds = length is" using ih(1) r(1) r' e by simp
  have v: "dval ds = dval is + dval j * dval (k # ks)"
    using ih(2) r(2) r' e by (simp add: algebra_simps)
  show ?case
  proof (cases "ks = []")
    case True
    then have es: "es = r'" using rows by simp
    have n: "n = length j + of_bool more" using e True by simp
    have z: "ds ! i = 0" if "n \<le> i" "i < length is" for i
      using that r(3) [of i] r(4) Cons.prems(2) e(1) es r' n by (cases "i = length j") (auto split: if_splits)
    show ?thesis using len v z n r(4) e(1) es r' True by auto
  next
    case False
    note i = ih(3) [OF False]
    have n: "n = Suc m" using e False by simp
    have z: "ds ! l = 0" if l: "n \<le> l" "l < length is" for l
    proof -
      obtain l' where "l = Suc l'" using l(1) n by (cases l) simp_all
      then show ?thesis using i l n e(1) r(1) r' by simp
    qed
    have t: "ds ! (n - 1) \<noteq> 0" if "n = length j + length (k # ks)"
    proof -
      have "m = length j + length ks" "0 < m" using that n False by auto
      then show ?thesis using i n e(1) False by (simp add: nth_Cons')
    qed
    show ?thesis using len v i n z t by auto
  qed
qed simp

lemma mpn_mul_ok:
  assumes "normalised j" "normalised k" "j \<noteq> []" "k \<noteq> []" "length j + length k \<le> n"
  shows "dval (mpn_mul (replicate n 0) j k) = dval j * dval k" "normalised (mpn_mul (replicate n 0) j k)"
    "length (mpn_mul (replicate n 0) j k) \<le> length j + length k" "mpn_mul (replicate n 0) j k \<noteq> []"
proof -
  obtain ds m where r: "mul_rows j k (replicate n 0) = (ds, m)" by (metis surj_pair)
  have ok: "length ds = n" "dval ds = dval j * dval k" "length j + length k - 1 \<le> m" "m \<le> length j + length k"
    "\<forall>i \<ge> m. i < length ds \<longrightarrow> ds ! i = 0" "m = length j + length k \<Longrightarrow> ds ! (m - 1) \<noteq> 0"
    using mul_rows_ok [OF _ _ r] assms(4,5) by auto
  have e: "mpn_mul (replicate n 0) j k = take m ds" by (simp add: mpn_mul_def r)
  have mn: "m \<le> length ds" using ok(1,4) assms(5) by simp
  have lj: "1 \<le> length j" "1 \<le> length k" using assms(3,4) by (simp_all add: Suc_le_eq)
  show v: "dval (mpn_mul (replicate n 0) j k) = dval j * dval k"
    unfolding e using dval_high_zero [OF ok(5) mn] ok(2) by simp
  show "length (mpn_mul (replicate n 0) j k) \<le> length j + length k" unfolding e using ok(4) by simp
  have m0: "0 < m" using ok(3) lj by linarith
  then show "mpn_mul (replicate n 0) j k \<noteq> []" unfolding e using mn by auto
  show "normalised (mpn_mul (replicate n 0) j k)"
  proof (cases "m = length j + length k")
    case True
    have "last (take m ds) = ds ! (m - 1)" using m0 mn by (cases ds) (auto simp: last_conv_nth min_def)
    then show ?thesis unfolding e using ok(6) [OF True] by (simp add: normalised_def)
  next
    case False
    then have m: "m - 1 = (length j - 1) + (length k - 1)" using ok(3,4) lj by linarith
    have "(65536 :: int) ^ (length j - 1) * 65536 ^ (length k - 1) \<le> dval j * dval k"
      by (rule mult_mono) (use dval_lower assms in simp_all)
    then have "65536 ^ (m - 1) \<le> dval (take m ds)" using v e unfolding m power_add by simp
    moreover have "length (take m ds) = m" using mn by simp
    ultimately show ?thesis unfolding e by (intro normalisedI) simp
  qed
qed

end
