(* ===== verification/MpnBits.thy ===== *)
theory MpnBits
  imports MpnMul
begin

text \<open>
  The bitwise operations.  An operation that works digit by digit is a locale: what the 32-bit
  operation does to the low digit, and that the integer operation splits at a digit boundary.  The
  loop over two's complement digits is correct for every such operation.
\<close>

section \<open>Splitting integers at a digit\<close>

lemma split_int: "(X :: int) = X mod 65536 + 65536 * (X div 65536)"
  by simp

lemma and_split: "(X AND Y) mod 65536 = (X mod 65536) AND (Y mod 65536)" "(X AND Y) div 65536 = (X div 65536) AND (Y div 65536 :: int)"
  using take_bit_and [of 16 X Y] drop_bit_and [of 16 X Y] by (simp_all add: take_bit_eq_mod drop_bit_eq_div)

lemma or_split: "(X OR Y) mod 65536 = (X mod 65536) OR (Y mod 65536)" "(X OR Y) div 65536 = (X div 65536) OR (Y div 65536 :: int)"
  using take_bit_or [of 16 X Y] drop_bit_or [of 16 X Y] by (simp_all add: take_bit_eq_mod drop_bit_eq_div)

lemma xor_split: "(X XOR Y) mod 65536 = (X mod 65536) XOR (Y mod 65536)" "(X XOR Y) div 65536 = (X div 65536) XOR (Y div 65536 :: int)"
  using take_bit_xor [of 16 X Y] drop_bit_xor [of 16 X Y] by (simp_all add: take_bit_eq_mod drop_bit_eq_div)

lemma mod_mult2_eq_int: "x mod (65536 * 65536 ^ n) = 65536 * (x div 65536 mod 65536 ^ n) + x mod (65536 :: int)"
  by (rule zmod_zmult2_eq) simp

lemma digit_parts: "0 \<le> a \<Longrightarrow> a < 65536 \<Longrightarrow> (a + 65536 * x) mod 65536 = a" "0 \<le> a \<Longrightarrow> a < 65536 \<Longrightarrow> (a + 65536 * x) div 65536 = (x :: int)"
  by simp_all

section \<open>Non-negative numbers\<close>

lemma uint_and16: "uint (a AND b :: u16) = uint a AND uint b" by (rule uint_and)
lemma uint_or16: "uint (a OR b :: u16) = uint a OR uint b" by (rule uint_or)
lemma uint_xor16: "uint (a XOR b :: u16) = uint a XOR uint b" by (rule uint_xor)

lemma dval_and: "dval (map2 (AND) j k) = dval j AND dval k"
proof (induction j k rule: list_induct2')
  case (4 x xs y ys)
  let ?X = "dval (x # xs)" and ?Y = "dval (y # ys)"
  have "dval (map2 (AND) (x # xs) (y # ys)) = (?X mod 65536 AND ?Y mod 65536) + 65536 * (?X div 65536 AND ?Y div 65536)"
    using 4 by (simp only: list.map zip_Cons_Cons split_conv dval_simps digit_parts uint16 uint_and16)
  then show ?case unfolding and_split [symmetric] using split_int [of "?X AND ?Y"] by simp
qed simp_all

lemma dval_or:
  assumes "length k \<le> length j"
  shows "dval (map2 (OR) j k @ drop (length k) j) = dval j OR dval k"
  using assms
proof (induction j k rule: list_induct2')
  case (4 x xs y ys)
  let ?X = "dval (x # xs)" and ?Y = "dval (y # ys)"
  have "dval (map2 (OR) (x # xs) (y # ys) @ drop (length (y # ys)) (x # xs)) =
      (?X mod 65536 OR ?Y mod 65536) + 65536 * (?X div 65536 OR ?Y div 65536)"
    using 4 by (simp only: list.map zip_Cons_Cons split_conv dval_simps digit_parts uint16 uint_or16 append_Cons
        list.size drop_Suc_Cons Suc_le_mono add_Suc_right add_0_right)
  then show ?case unfolding or_split [symmetric] using split_int [of "?X OR ?Y"] by simp
qed simp_all

lemma dval_xor:
  assumes "length k \<le> length j"
  shows "dval (map2 (XOR) j k @ drop (length k) j) = dval j XOR dval k"
  using assms
proof (induction j k rule: list_induct2')
  case (4 x xs y ys)
  let ?X = "dval (x # xs)" and ?Y = "dval (y # ys)"
  have "dval (map2 (XOR) (x # xs) (y # ys) @ drop (length (y # ys)) (x # xs)) =
      (?X mod 65536 XOR ?Y mod 65536) + 65536 * (?X div 65536 XOR ?Y div 65536)"
    using 4 by (simp only: list.map zip_Cons_Cons split_conv dval_simps digit_parts uint16 uint_xor16 append_Cons
        list.size drop_Suc_Cons Suc_le_mono add_Suc_right add_0_right)
  then show ?case unfolding xor_split [symmetric] using split_int [of "?X XOR ?Y"] by simp
qed simp_all

lemma mpn_and_ok: "dval (mpn_and j k) = dval j AND dval k" "normalised (mpn_and j k)" "length (mpn_and j k) \<le> length j"
  using strip_length [of "map2 (AND) j k"] by (simp_all add: mpn_and_def dval_and)

lemma mpn_xor_ok:
  assumes "length k \<le> length j"
  shows "dval (mpn_xor j k) = dval j XOR dval k" "normalised (mpn_xor j k)" "length (mpn_xor j k) \<le> length j"
  using strip_length [of "map2 (XOR) j k @ drop (length k) j"] assms by (simp_all add: mpn_xor_def dval_xor)

lemma mpn_or_ok:
  assumes "length k \<le> length j" "normalised j" "normalised k"
  shows "dval (mpn_or j k) = dval j OR dval k" "normalised (mpn_or j k)" "length (mpn_or j k) \<le> length j"
proof -
  have l: "length (mpn_or j k) = length j" using assms(1) by (simp add: mpn_or_def)
  show v: "dval (mpn_or j k) = dval j OR dval k" using assms(1) by (simp add: mpn_or_def dval_or)
  show "length (mpn_or j k) \<le> length j" using l by simp
  show "normalised (mpn_or j k)"
  proof (rule normalisedI)
    assume "mpn_or j k \<noteq> []"
    then have "j \<noteq> []" using l by auto
    then have "65536 ^ (length j - 1) \<le> dval j" by (rule dval_lower [OF assms(2)])
    also have "dval j \<le> dval j OR dval k" by (rule or_greater_eq) simp
    finally show "65536 ^ (length (mpn_or j k) - 1) \<le> dval (mpn_or j k)" using v l by simp
  qed
qed

section \<open>Operations digit by digit\<close>

locale digit_op =
  fixes op32 :: "u32 \<Rightarrow> u32 \<Rightarrow> u32"
    and OP :: "int \<Rightarrow> int \<Rightarrow> int"
  assumes low: "uint (op32 a b AND DIG_MASK) = OP (uint a) (uint b) mod 65536"
    and low_mod: "OP x y mod 65536 = OP (x mod 65536) (y mod 65536) mod 65536"
    and high: "OP x y div 65536 = OP (x div 65536) (y div 65536)"
begin

lemma loop_ok:
  assumes f: "\<And>d ds. f (d # ds) = uint (jf d) + 65536 * f ds" "\<And>d. uint (jf d) \<le> 131070"
    and g: "\<And>d ds. g (d # ds) = uint (kf d) + 65536 * g ds" "\<And>d. uint (kf d) \<le> 131070"
    and pad: "g [] = uint kpad + 65536 * g []" "uint kpad \<le> 131070"
    and c: "uint ci \<le> 1" "uint cj \<le> 1" "uint ck \<le> 1"
    and k: "length ks \<le> length js"
    and r: "neg_loop op32 jf kf kpad ci cj ck js ks = (ds, c')"
  shows "length ds = length js \<and> uint c' \<le> 1 \<and>
    dval ds + 65536 ^ length js * uint c' = OP (f js + uint cj) (g ks + uint ck) mod 65536 ^ length js + uint ci"
  using c k r
proof (induction js arbitrary: ks ci cj ck ds)
  case Nil
  then show ?case by simp
next
  case (Cons j js)
  let ?cj = "cj + jf j" and ?ka = "case ks of k # _ \<Rightarrow> kf k | [] \<Rightarrow> kpad"
  let ?ck = "ck + ?ka"
  let ?ci = "ci + (op32 ?cj ?ck AND DIG_MASK)"
  let ?A = "f (j # js) + uint cj" and ?B = "g ks + uint ck"
  have ka: "uint ?ka \<le> 131070" "g ks = uint ?ka + 65536 * g (tl ks)"
    using g pad by (cases ks; simp)+
  have sj: "uint ?cj = uint cj + uint (jf j)" using f(2) [of j] Cons.prems(2) by (intro uint_add32) linarith
  have sk: "uint ?ck = uint ck + uint ?ka" using ka(1) Cons.prems(3) by (intro uint_add32) linarith
  have lowb: "uint (op32 ?cj ?ck AND DIG_MASK) < 65536" unfolding low by simp
  have si: "uint ?ci = uint ci + uint (op32 ?cj ?ck AND DIG_MASK)" using lowb Cons.prems(1) by (intro uint_add32) linarith
  have cc: "uint (drop_bit 16 ?ci) \<le> 1" "uint (drop_bit 16 ?cj) \<le> 1" "uint (drop_bit 16 ?ck) \<le> 1"
    unfolding uint_shift si sj sk
    by (rule carry_range; use lowb f(2) [of j] ka(1) Cons.prems(1-3) in linarith)+
  obtain ds1 c1 where n: "neg_loop op32 jf kf kpad (drop_bit 16 ?ci) (drop_bit 16 ?cj) (drop_bit 16 ?ck) js (tl ks) = (ds1, c1)"
    by (metis surj_pair)
  have e: "ds = dig ?ci # ds1" "c' = c1" using Cons.prems(5) n by (simp_all add: Let_def)
  have A: "?A = uint ?cj + 65536 * f js" and B: "?B = uint ?ck + 65536 * g (tl ks)"
    unfolding f(1) sj sk ka(2) by simp_all
  have Ad: "?A div 65536 = f js + uint ?cj div 65536" "?A mod 65536 = uint ?cj mod 65536" unfolding A by simp_all
  have Bd: "?B div 65536 = g (tl ks) + uint ?ck div 65536" "?B mod 65536 = uint ?ck mod 65536" unfolding B by simp_all
  have lm: "OP ?A ?B mod 65536 = uint (op32 ?cj ?ck AND DIG_MASK)"
    by (simp only: low Ad(2) Bd(2) low_mod [of ?A ?B] low_mod [of "uint ?cj" "uint ?ck"])
  have hi: "OP ?A ?B div 65536 = OP (f js + uint (drop_bit 16 ?cj)) (g (tl ks) + uint (drop_bit 16 ?ck))"
    by (simp only: high Ad(1) Bd(1) uint_shift)
  have tl: "length (tl ks) \<le> length js" using Cons.prems(4) by (cases ks) simp_all
  have ih: "length ds1 = length js" "uint c1 \<le> 1"
    "dval ds1 + 65536 ^ length js * uint c1 = OP ?A ?B div 65536 mod 65536 ^ length js + uint (drop_bit 16 ?ci)"
    using Cons.IH [OF cc tl, of ds1] n e(2) unfolding hi by blast+
  have "dval ds + 65536 ^ length (j # js) * uint c' = uint ?ci mod 65536 + 65536 * (dval ds1 + 65536 ^ length js * uint c1)"
    unfolding e dval_simps uint_dig length_Cons power_Suc by (simp only: distrib_left mult.assoc add.assoc)
  also have "\<dots> = uint ?ci + 65536 * (OP ?A ?B div 65536 mod 65536 ^ length js)"
    unfolding ih(3) uint_shift by (rule split_digit)
  also have "\<dots> = OP ?A ?B mod 65536 ^ length (j # js) + uint ci"
    unfolding si lm [symmetric] by (simp only: length_Cons power_Suc mod_mult2_eq_int add_ac)
  finally show ?case using ih(1,2) e by simp
qed

end

end
