(* ===== verification/MpnNeg.thy ===== *)
theory MpnNeg
  imports MpnBits
begin

text \<open>
  The bitwise operations on negative numbers.  The digit loop runs on two's complement digits of both
  operands, made on the fly by a mask and a carry; its result is the magnitude of what the operation
  gives on the integers.
\<close>

section \<open>Complement\<close>

lemma not_split: "NOT X mod 65536 = NOT (X mod 65536) mod 65536" "NOT X div 65536 = NOT (X div 65536 :: int)"
proof -
  show "NOT X mod 65536 = NOT (X mod 65536) mod 65536"
    using take_bit_not_take_bit [of 16 X] by (simp add: take_bit_eq_mod)
  have arith: "- X - 1 = 65535 - r + 65536 * (- q - 1)" if "65536 * q + r = X" for q r
    using that by simp
  have "NOT X = 65535 - X mod 65536 + 65536 * NOT (X div 65536)"
    unfolding not_int_def by (rule arith [OF mult_div_mod_eq])
  then show "NOT X div 65536 = NOT (X div 65536)"
    using digit_parts(2) [of "65535 - X mod 65536" "NOT (X div 65536)"] pos_mod_sign [of 65536 X] pos_mod_bound [of 65536 X]
    by simp
qed

lemma xor_mask: "(X XOR 65535) mod 65536 = NOT X mod (65536 :: int)"
proof -
  have "take_bit 16 (X XOR mask 16) = take_bit 16 (NOT X)"
    by (rule bit_eqI) (auto simp: bit_take_bit_iff bit_xor_iff bit_not_iff bit_mask_iff)
  then show ?thesis by (simp add: take_bit_eq_mod mask_eq_exp_minus_1)
qed

section \<open>The four operations of the loop\<close>

interpretation and_op: digit_op "\<lambda>a b. (a AND b) XOR 0" "(AND)"
proof
  fix a b :: u32
  show "uint (((a AND b) XOR 0) AND DIG_MASK) = (uint a AND uint b) mod 65536"
    unfolding uint_mask by (simp only: uint_and xor.right_neutral)
qed (simp_all only: and_split mod_mod_trivial)

interpretation nand_op: digit_op "\<lambda>a b. (a AND b) XOR 0xFFFF" "\<lambda>x y. NOT (x AND y)"
proof
  fix a b :: u32
  show "uint (((a AND b) XOR 0xFFFF) AND DIG_MASK) = NOT (uint a AND uint b) mod 65536"
    unfolding uint_mask by (simp add: uint_xor uint_and xor_mask del: bit.de_Morgan_conj)
next
  fix x y :: int
  show "NOT (x AND y) mod 65536 = NOT (x mod 65536 AND y mod 65536) mod 65536"
    by (subst not_split(1)) (simp only: and_split)
  show "NOT (x AND y) div 65536 = NOT (x div 65536 AND y div 65536)"
    by (simp only: not_split(2) and_split)
qed

interpretation nor_op: digit_op "\<lambda>a b. (a OR b) XOR DIG_MASK" "\<lambda>x y. NOT (x OR y)"
proof
  fix a b :: u32
  show "uint (((a OR b) XOR DIG_MASK) AND DIG_MASK) = NOT (uint a OR uint b) mod 65536"
    unfolding uint_mask by (simp add: uint_xor uint_or xor_mask DIG_MASK_def del: bit.de_Morgan_disj)
next
  fix x y :: int
  show "NOT (x OR y) mod 65536 = NOT (x mod 65536 OR y mod 65536) mod 65536"
    by (subst not_split(1)) (simp only: or_split)
  show "NOT (x OR y) div 65536 = NOT (x div 65536 OR y div 65536)"
    by (simp only: not_split(2) or_split)
qed

interpretation xor_op: digit_op "\<lambda>a b. a XOR b" "(XOR)"
proof
  fix a b :: u32
  show "uint ((a XOR b) AND DIG_MASK) = (uint a XOR uint b) mod 65536"
    unfolding uint_mask by (simp only: uint_xor)
qed (simp_all only: xor_split mod_mod_trivial)

section \<open>Signed values\<close>

definition sval :: "bool \<Rightarrow> u16 list \<Rightarrow> int" where
  "sval neg ds = (if neg then - dval ds else dval ds)"

lemma sval_simps [simp]: "sval False ds = dval ds" "sval True ds = - dval ds"
  by (simp_all add: sval_def)

text \<open>What a mask adds up to over all digits; with the carry it is the signed value.\<close>

definition mval :: "bool \<Rightarrow> u16 list \<Rightarrow> int" where
  "mval neg ds = (if neg then NOT (dval ds) else dval ds)"

lemma mval_carry: "mval neg ds + uint (of_bool neg :: u32) = sval neg ds"
  by (simp add: mval_def sval_def not_int_def)

lemma mask_digit: "uint (ucast (d XOR mask_of (of_bool neg)) :: u32) = (if neg then 65535 - uint d else uint d)"
proof (cases neg)
  case True
  have m: "(0xFFFF :: u16) = - 1" by simp
  have "uint (d XOR 0xFFFF) = uint (NOT d)" unfolding m by simp
  also have "\<dots> = 65535 - uint d"
  proof -
    have "uint (NOT d) = NOT (uint d) mod 65536" by (simp add: unsigned_not_eq take_bit_eq_mod)
    also have "\<dots> = (65535 - uint d + 65536 * (- 1)) mod 65536"
      by (rule arg_cong [of _ _ "\<lambda>v. v mod 65536"]) (simp add: not_int_def)
    also have "\<dots> = 65535 - uint d" by (rule digit_parts) (use uint16 [of d] in linarith)+
    finally show ?thesis .
  qed
  finally show ?thesis using True by (simp add: mask_of_def uint_widen)
qed (simp add: mask_of_def uint_widen)

lemma mval_laws:
  "mval neg (d # ds) = uint (ucast (d XOR mask_of (of_bool neg)) :: u32) + 65536 * mval neg ds"
  "uint (ucast (d XOR mask_of (of_bool neg)) :: u32) \<le> 131070"
  "mval neg [] = uint (ucast (mask_of (of_bool neg)) :: u32) + 65536 * mval neg []"
  "uint (ucast (mask_of (of_bool neg)) :: u32) \<le> 131070"
  unfolding mask_digit using uint16 [of d] order_trans [OF _ uint16(1) [of d], of "- 65535"]
  by (auto simp: mval_def not_int_def mask_of_def)

lemma of_bool_le: "uint (of_bool b :: u32) \<le> 1"
  by simp

section \<open>The three operations\<close>

text \<open>The magnitude of a number that is negative only when both operands are, and the like: what the
  operation gives fits in the digits of the longer operand.\<close>

lemma digits_bound:
  assumes "length k \<le> length j"
  shows "dval j < 2 ^ (16 * length j)" "dval k < 2 ^ (16 * length j)"
proof -
  have "dval k < 65536 ^ length k" by (rule dval_less)
  also have "\<dots> \<le> 65536 ^ length j" by (rule power_increasing) (use assms in simp_all)
  finally show "dval k < 2 ^ (16 * length j)" by (simp add: power_mult)
  show "dval j < 2 ^ (16 * length j)" using dval_less [of j] by (simp add: power_mult)
qed

lemma power_digits: "(65536 :: int) ^ n = 2 ^ (16 * n)"
  by (simp add: power_mult)

lemma with_carry_ok:
  fixes c :: u32
  assumes "dval ds + 65536 ^ n * uint c = V" "length ds = n" "uint c \<le> 1"
  shows "dval (mpn_remove_trailing_zeros (if c \<noteq> 0 then ds @ [ucast c] else ds)) = V"
    "length (mpn_remove_trailing_zeros (if c \<noteq> 0 then ds @ [ucast c] else ds)) \<le> n + 1"
proof -
  have "uint c mod 65536 = uint c" using assms(3) uint32 [of c] by simp
  then show "dval (mpn_remove_trailing_zeros (if c \<noteq> 0 then ds @ [ucast c] else ds)) = V"
    using assms(1,2) by (auto simp: dval_append digit_simps)
  show "length (mpn_remove_trailing_zeros (if c \<noteq> 0 then ds @ [ucast c] else ds)) \<le> n + 1"
    using strip_length [of "if c \<noteq> 0 then ds @ [ucast c] else ds"] assms(2) by (auto split: if_splits)
qed

lemma or_below: "0 \<le> x \<Longrightarrow> x < 65536 ^ n \<Longrightarrow> y < 65536 ^ n \<Longrightarrow> x OR y < (65536 :: int) ^ n"
  unfolding power_digits by (rule OR_upper)

lemma xor_below: "0 \<le> x \<Longrightarrow> x < 65536 ^ n \<Longrightarrow> y < 65536 ^ n \<Longrightarrow> x XOR y < (65536 :: int) ^ n"
  unfolding power_digits by (rule XOR_upper)

lemma shorter_value: "length k \<le> length (j :: u16 list) \<Longrightarrow> dval k < 65536 ^ length j"
  using digits_bound(2) [of k j] by (simp only: power_digits)

text \<open>The complement of a signed value, for a negative one: one less than its magnitude.\<close>

lemma not_sval: "NOT (sval True ds) = dval ds - 1" "NOT (sval False ds) = - dval ds - 1"
  by (simp_all add: not_int_def)

lemma mpn_and_neg_ok:
  assumes l: "length k \<le> length j" and s: "jn \<or> kn" "jn \<longrightarrow> 0 < dval j" "kn \<longrightarrow> 0 < dval k"
  shows "sval (jn \<and> kn) (mpn_and_neg j k (of_bool (jn = kn)) (of_bool jn) (of_bool kn)) = sval jn j AND sval kn k \<and>
    normalised (mpn_and_neg j k (of_bool (jn = kn)) (of_bool jn) (of_bool kn)) \<and>
    length (mpn_and_neg j k (of_bool (jn = kn)) (of_bool jn) (of_bool kn)) \<le> length j + 1"
proof -
  let ?ci = "of_bool (jn = kn) :: u32" and ?P = "65536 ^ length j :: int"
  let ?f = "\<lambda>a b. (a AND b) XOR ucast (mask_of ?ci)"
  obtain ds c where r: "neg_loop ?f (\<lambda>d. ucast (d XOR mask_of (of_bool jn))) (\<lambda>d. ucast (d XOR mask_of (of_bool kn)))
      (ucast (mask_of (of_bool kn))) ?ci (of_bool jn) (of_bool kn) j k = (ds, c)"
    by (metis surj_pair)
  have i: "mpn_and_neg j k ?ci (of_bool jn) (of_bool kn) = mpn_remove_trailing_zeros (if c \<noteq> 0 then ds @ [ucast c] else ds)"
    using r by (simp add: mpn_and_neg_def)
  have b: "dval j < ?P" "dval k < ?P" using dval_less [of j] shorter_value [OF l] by simp_all
  have "length ds = length j \<and> uint c \<le> 1 \<and> dval ds + ?P * uint c =
      (if jn \<and> kn then - (sval jn j AND sval kn k) else sval jn j AND sval kn k)"
  proof (cases "jn \<and> kn")
    case True
    let ?V = "sval True j AND sval True k"
    have f: "?f = (\<lambda>a b. (a AND b) XOR 0xFFFF)" using True by (simp add: mask_of_def)
    have R: "length ds = length j \<and> uint c \<le> 1 \<and> dval ds + ?P * uint c = NOT (mval True j + uint (of_bool True :: u32) AND mval True k + uint (of_bool True :: u32)) mod ?P + uint (of_bool True :: u32)"
      by (rule nand_op.loop_ok [OF mval_laws(1,2) mval_laws(1,2) mval_laws(3,4) of_bool_le of_bool_le of_bool_le l])
        (use r [unfolded f] True in simp)
    have n: "NOT ?V = (dval j - 1) OR (dval k - 1)" using not_sval(1) by (simp only: bit.de_Morgan_conj)
    have "(dval j - 1) OR (dval k - 1) < ?P" by (rule or_below) (use s True b in simp_all)
    moreover have "0 \<le> (dval j - 1) OR (dval k - 1)" using s True by (simp add: or_nonnegative_int_iff)
    ultimately have "NOT ?V mod ?P = NOT ?V" unfolding n by (rule mod_pos_pos_trivial [rotated])
    then show ?thesis using R True unfolding mval_carry by (simp add: not_int_def)
  next
    case False
    then have c0: "?ci = of_bool False" using s(1) by auto
    have f: "?f = (\<lambda>a b. (a AND b) XOR 0)" using c0 by (simp add: mask_of_def)
    have R: "length ds = length j \<and> uint c \<le> 1 \<and> dval ds + ?P * uint c = (mval jn j + uint (of_bool jn :: u32) AND mval kn k + uint (of_bool kn :: u32)) mod ?P + uint (of_bool False :: u32)"
      by (rule and_op.loop_ok [OF mval_laws(1,2) mval_laws(1,2) mval_laws(3,4) of_bool_le of_bool_le of_bool_le l])
        (use r [unfolded f] c0 in simp)
    have "0 \<le> sval jn j AND sval kn k \<and> sval jn j AND sval kn k < ?P"
    proof (cases jn)
      case True
      then have "kn = False" using False by simp
      moreover have "sval True j AND dval k \<le> dval k" by (rule AND_upper2) simp
      ultimately show ?thesis using True b by simp
    next
      case j: False
      have "dval j AND sval True k \<le> dval j" by (rule AND_upper1) simp
      then show ?thesis using j s(1) b by simp
    qed
    then show ?thesis unfolding if_not_P [OF False] using R unfolding mval_carry by simp
  qed
  then show ?thesis
    unfolding i using with_carry_ok [of ds "length j" c] by (auto split: if_splits)
qed

lemma mpn_or_neg_ok:
  assumes l: "length k \<le> length j" and s: "jn \<or> kn" "jn \<longrightarrow> 0 < dval j" "kn \<longrightarrow> 0 < dval k"
  shows "sval True (mpn_or_neg j k (of_bool jn) (of_bool kn)) = sval jn j OR sval kn k \<and>
    normalised (mpn_or_neg j k (of_bool jn) (of_bool kn)) \<and> length (mpn_or_neg j k (of_bool jn) (of_bool kn)) \<le> length j"
proof -
  let ?P = "65536 ^ length j :: int" and ?V = "sval jn j OR sval kn k"
  obtain ds c where r: "neg_loop (\<lambda>a b. (a OR b) XOR DIG_MASK) (\<lambda>d. ucast (d XOR mask_of (of_bool jn)))
      (\<lambda>d. ucast (d XOR mask_of (of_bool kn))) (ucast (mask_of (of_bool kn))) 1 (of_bool jn) (of_bool kn) j k = (ds, c)"
    by (metis surj_pair)
  have i: "mpn_or_neg j k (of_bool jn) (of_bool kn) = mpn_remove_trailing_zeros ds"
    using r by (simp add: mpn_or_neg_def)
  have b: "dval j < ?P" "dval k < ?P" using dval_less [of j] shorter_value [OF l] by simp_all
  have R: "length ds = length j \<and> uint c \<le> 1 \<and> dval ds + ?P * uint c =
      NOT (mval jn j + uint (of_bool jn :: u32) OR mval kn k + uint (of_bool kn :: u32)) mod ?P + uint (1 :: u32)"
    by (rule nor_op.loop_ok [OF mval_laws(1,2) mval_laws(1,2) mval_laws(3,4) _ of_bool_le of_bool_le l]) (use r in simp_all)
  have n: "NOT ?V = NOT (sval jn j) AND NOT (sval kn k)" by (rule bit.de_Morgan_disj)
  have "0 \<le> NOT ?V \<and> NOT ?V < ?P - 1"
  proof (cases jn)
    case True
    have "NOT (sval jn j) = dval j - 1" "0 \<le> dval j - 1" using True s not_sval by simp_all
    moreover have "dval j - 1 AND NOT (sval kn k) \<le> dval j - 1" by (rule AND_upper1) fact
    ultimately show ?thesis unfolding n using b by simp
  next
    case False
    have "NOT (sval kn k) = dval k - 1" "0 \<le> dval k - 1" using False s not_sval by simp_all
    moreover have "NOT (sval jn j) AND dval k - 1 \<le> dval k - 1" by (rule AND_upper2) fact
    ultimately show ?thesis unfolding n using b by simp
  qed
  moreover from this have "NOT ?V mod ?P = NOT ?V" by (intro mod_pos_pos_trivial) simp_all
  ultimately have v: "dval ds + ?P * uint c = - ?V" "- ?V < ?P" using R unfolding mval_carry by (simp_all add: not_int_def)
  have "uint c = 0"
  proof (rule ccontr)
    assume "uint c \<noteq> 0"
    then have "uint c = 1" using R uint32 [of c] by linarith
    then show False using v dval_nonneg [of ds] by simp
  qed
  then show ?thesis unfolding i using v R strip_length [of ds] by simp
qed

text \<open>The exclusive or works on numbers one less, without complement.\<close>

definition pval :: "bool \<Rightarrow> u16 list \<Rightarrow> int" where
  "pval neg ds = dval ds - of_bool neg"

lemma pval_carry: "dval ds - 1 + uint (of_bool (\<not> neg) :: u32) = pval neg ds"
  by (simp add: pval_def)

lemma xor_laws:
  "dval (d # ds) - 1 = uint (ucast d + DIG_MASK) + 65536 * (dval ds - 1)"
  "uint (ucast (d :: u16) + DIG_MASK) \<le> 131070"
  "dval [] - 1 = uint DIG_MASK + 65536 * (dval [] - 1)" "uint DIG_MASK \<le> 131070"
proof -
  have u: "uint (ucast d + DIG_MASK) = uint d + 65535"
    using uint16 [of d] by (simp add: uint_add32 uint_widen DIG_MASK_def)
  show "dval (d # ds) - 1 = uint (ucast d + DIG_MASK) + 65536 * (dval ds - 1)" unfolding u by simp
  show "uint (ucast d + DIG_MASK) \<le> 131070" unfolding u using uint16 [of d] by simp
qed (simp_all add: DIG_MASK_def)

lemma pval_xor:
  assumes "jn \<noteq> kn"
  shows "(pval jn j XOR pval kn k) + 1 = - (sval jn j XOR sval kn k)"
proof -
  have "NOT (pval jn j XOR pval kn k) = sval jn j XOR sval kn k"
  proof (cases jn)
    case True
    have "sval True j = NOT (dval j - 1)" by (simp add: not_int_def)
    then show ?thesis using True assms by (simp add: pval_def)
  next
    case False
    have "sval True k = NOT (dval k - 1)" by (simp add: not_int_def)
    then show ?thesis using False assms by (simp add: pval_def)
  qed
  then show ?thesis unfolding not_int_def by linarith
qed

lemma mpn_xor_neg_ok:
  assumes l: "length k \<le> length j" and s: "jn \<or> kn" "jn \<longrightarrow> 0 < dval j" "kn \<longrightarrow> 0 < dval k"
  defines "i \<equiv> mpn_xor_neg j k (of_bool (jn \<noteq> kn)) (of_bool (\<not> jn)) (of_bool (\<not> kn))"
  shows "sval (jn \<noteq> kn) i = sval jn j XOR sval kn k \<and> normalised i \<and>
    length i \<le> length j + of_bool (jn \<noteq> kn)"
proof -
  let ?P = "65536 ^ length j :: int" and ?ci = "of_bool (jn \<noteq> kn) :: u32"
  let ?V = "pval jn j XOR pval kn k"
  obtain ds c where r: "neg_loop (\<lambda>a b. a XOR b) (\<lambda>d. ucast d + DIG_MASK) (\<lambda>d. ucast d + DIG_MASK) DIG_MASK
      ?ci (of_bool (\<not> jn)) (of_bool (\<not> kn)) j k = (ds, c)"
    by (metis surj_pair)
  have i: "i = mpn_remove_trailing_zeros (if c \<noteq> 0 then ds @ [ucast c] else ds)"
    using r by (simp add: mpn_xor_neg_def i_def)
  have b: "pval jn j < ?P" "pval kn k < ?P" "0 \<le> pval jn j" "0 \<le> pval kn k"
    using dval_less [of j] shorter_value [OF l] s by (auto simp: pval_def)
  have R: "length ds = length j \<and> uint c \<le> 1 \<and> dval ds + ?P * uint c =
      (dval j - 1 + uint (of_bool (\<not> jn) :: u32) XOR dval k - 1 + uint (of_bool (\<not> kn) :: u32)) mod ?P + uint ?ci"
    by (rule xor_op.loop_ok [OF xor_laws(1,2) xor_laws(1,2) xor_laws(3,4) of_bool_le of_bool_le of_bool_le l]) (rule r)
  have V: "0 \<le> ?V" "?V < ?P" using b xor_below by simp_all
  then have "?V mod ?P = ?V" by (rule mod_pos_pos_trivial)
  then have v: "dval ds + ?P * uint c = ?V + uint ?ci" using R unfolding pval_carry by simp
  show ?thesis
  proof (cases "jn = kn")
    case False
    then have e: "dval ds + ?P * uint c = - (sval jn j XOR sval kn k)" using v pval_xor [OF False, of j k] by simp
    have "sval True i = sval jn j XOR sval kn k \<and> length i \<le> length j + 1"
      unfolding i sval_simps using with_carry_ok [OF e] R by simp
    then show ?thesis using False by (simp add: i)
  next
    case True
    then have "uint c = 0" "dval ds = ?V"
    proof -
      show "uint c = 0"
      proof (rule ccontr)
        assume "uint c \<noteq> 0"
        then have "uint c = 1" using R uint32 [of c] by linarith
        then show False using v V True dval_nonneg [of ds] by simp
      qed
      then show "dval ds = ?V" using v True by simp
    qed
    moreover have "?V = sval jn j XOR sval kn k"
    proof -
      have t: "jn" "kn" using True s(1) by auto
      have "sval True j = NOT (dval j - 1)" "sval True k = NOT (dval k - 1)" by (simp_all add: not_int_def)
      then show ?thesis using t by (simp add: pval_def)
    qed
    moreover have "c = 0" using \<open>uint c = 0\<close> by (simp add: uint_0_iff)
    ultimately show ?thesis unfolding i using R strip_length [of ds] True by simp
  qed
qed

end
