(* ===== verification/MpnDiv.thy ===== *)
theory MpnDiv
  imports MpnNeg
begin

text \<open>
  Long division.  The denominator is shifted so that its leading bit is set, one digit at a time as it
  is read; a quotient digit is estimated from the two leading digits of the numerator and the leading
  digit of the denominator, and the estimate is at most two too large.  The correction loop ends, and
  the quotient and the remainder are those of the integers.
\<close>

section \<open>Shifting digit by digit\<close>

lemma div_below:
  fixes m q n :: int
  assumes "0 < q" "m < n * q"
  shows "m div q < n"
proof (rule ccontr)
  assume "\<not> m div q < n"
  then have "n * q \<le> m div q * q" using assms(1) by (intro mult_right_mono) simp_all
  also have "m div q * q \<le> m"
    using mult_div_mod_eq [of q m] pos_mod_sign [OF assms(1), of m] unfolding mult.commute [of "m div q"] by linarith
  finally show False using assms(2) by simp
qed

text \<open>Placing a small number below a shifted one.\<close>

lemma uint_or_low:
  fixes a b :: u32
  assumes "uint b < 2 ^ s" "uint a * 2 ^ s < 4294967296" "s \<le> 16"
  shows "uint (push_bit s a OR b) = uint a * 2 ^ s + uint b"
proof -
  have "push_bit s a AND b = 0"
  proof (rule bit_eqI)
    fix i
    have "\<not> bit b i" if "s \<le> i"
    proof -
      have "take_bit s (uint b) = uint b" by (rule take_bit_int_eq_self) (use assms(1) in simp_all)
      then have "bit (uint b) i = (i < s \<and> bit (uint b) i)" by (metis bit_take_bit_iff)
      then show ?thesis using that bit_imp_le_length [of b i] by (auto simp: bit_uint_iff)
    qed
    then show "bit (push_bit s a AND b) i = bit (0 :: u32) i" by (auto simp: bit_and_iff bit_push_bit_iff)
  qed
  then have o: "push_bit s a OR b = push_bit s a + b" by (simp add: disjunctive_add_eq_or)
  have m: "uint (push_bit s a) = uint a * 2 ^ s"
  proof -
    have "uint (push_bit s a) = take_bit 32 (push_bit s (uint a))" by (simp add: unsigned_push_bit_eq)
    also have "push_bit s (uint a) = uint a * 2 ^ s" by (rule push_bit_eq_mult)
    also have "take_bit 32 (uint a * 2 ^ s) = uint a * 2 ^ s" by (rule take_bit_int_eq_self) (use assms(2) in simp_all)
    finally show ?thesis .
  qed
  have "2 ^ s dvd uint a * 2 ^ s" "2 ^ s dvd (4294967296 :: int)"
  proof -
    have "(2 :: int) ^ s dvd 2 ^ 32" by (rule le_imp_power_dvd) (use assms(3) in simp)
    then show "2 ^ s dvd (4294967296 :: int)" by simp
  qed simp
  then obtain q where q: "4294967296 = 2 ^ s * (q :: int)" by (auto elim: dvdE)
  have "uint a * 2 ^ s + uint b < 4294967296"
  proof -
    have "uint a < q" using assms(2) unfolding q by (simp add: mult.commute)
    then have "uint a + 1 \<le> q" by simp
    then have "(uint a + 1) * 2 ^ s \<le> q * 2 ^ s" by (rule mult_right_mono) simp
    then show ?thesis using assms(1) unfolding q by (simp add: algebra_simps)
  qed
  then show ?thesis unfolding o m [symmetric] by (rule uint_add32)
qed

text \<open>One digit of a number that is shifted left: what is stored and what goes to the next digit.\<close>

definition shifted :: "nat \<Rightarrow> int \<Rightarrow> u16 \<Rightarrow> int" where
  "shifted s c d = uint d * 2 ^ s + c"

lemma shifted_range:
  assumes "0 \<le> c" "c < 2 ^ s" "s \<le> 15"
  shows "0 \<le> shifted s c d" "shifted s c d < 65536 * 2 ^ s" "shifted s c d < 4294967296"
    "0 \<le> shifted s c d div 65536" "shifted s c d div 65536 < 2 ^ s"
proof -
  have s15: "(2 :: int) ^ s \<le> 2 ^ 15" by (rule power_increasing) (use assms(3) in simp_all)
  show n: "0 \<le> shifted s c d" using assms(1) by (simp add: shifted_def)
  have "(uint d + 1) * 2 ^ s \<le> 65536 * 2 ^ s" by (rule mult_right_mono) (use uint16 [of d] in simp_all)
  then show l: "shifted s c d < 65536 * 2 ^ s" using assms(2) unfolding shifted_def distrib_right by linarith
  then show "shifted s c d < 4294967296" using s15 by simp
  show "0 \<le> shifted s c d div 65536" using n by (simp add: pos_imp_zdiv_nonneg_iff)
  show "shifted s c d div 65536 < 2 ^ s" by (rule div_below) (use l in \<open>simp_all add: mult.commute\<close>)
qed

lemma uint_shifted:
  fixes c :: u32
  assumes "uint c < 2 ^ s" "s \<le> 15"
  shows "uint (push_bit s (ucast d) OR c) = shifted s (uint c) d"
  unfolding shifted_def uint_widen [symmetric]
proof (rule uint_or_low [OF assms(1)])
  show "uint (ucast d :: u32) * 2 ^ s < 4294967296"
    using shifted_range(3) [OF _ assms, of d] uint32(1) [of c] unfolding shifted_def uint_widen by linarith
qed (use assms(2) in simp)

lemma shl_carry:
  fixes n :: u16
  assumes "s \<le> 15" "0 \<le> c" "c < 2 ^ s"
  shows "uint (ucast (drop_bit (16 - s) (ucast n :: u32)) :: u16) = shifted s c n div 65536"
proof -
  have q: "(65536 :: int) = 2 ^ s * 2 ^ (16 - s)" using two_powers [of s] assms(1) by simp
  have "shifted s c n div 65536 = shifted s c n div 2 ^ s div 2 ^ (16 - s)"
    unfolding q by (rule zdiv_zmult2_eq) simp
  also have "shifted s c n div 2 ^ s = uint n"
    using assms(2,3) by (simp add: shifted_def div_pos_pos_trivial)
  finally have e: "shifted s c n div 65536 = uint n div 2 ^ (16 - s)" .
  have "shifted s c n div 65536 < 65536" "0 \<le> shifted s c n div 65536"
    using shifted_range(4,5) [OF assms(2,3,1), of n] power_increasing [of s 16 "2 :: int"] assms(1) by simp_all
  then show ?thesis by (simp add: uint_narrow uint_shift_n uint_widen e)
qed

lemma shl_num_ok:
  assumes "s \<le> 15" "uint c < 2 ^ s"
  shows "length (shl_num s c num) = length num \<and>
    (\<exists>c'. 0 \<le> c' \<and> dval (shl_num s c num) + 65536 ^ length num * c' = dval num * 2 ^ s + uint c)"
  using assms(2)
proof (induction num arbitrary: c)
  case (Cons n num)
  let ?c = "ucast (drop_bit (16 - s) (ucast n :: u32)) :: u16" and ?S = "shifted s (uint c) n"
  have c: "0 \<le> uint c" by simp
  have w: "uint (push_bit s (ucast n) OR (ucast c :: u32)) = ?S"
    using uint_shifted [of "ucast c" s n] Cons.prems assms(1) by (simp add: uint_widen)
  have cn: "uint ?c = ?S div 65536" by (rule shl_carry [OF assms(1) c Cons.prems])
  then have cl: "uint ?c < 2 ^ s" using shifted_range(5) [OF c Cons.prems assms(1)] by simp
  obtain c' where ih: "length (shl_num s ?c num) = length num" "0 \<le> c'"
    "dval (shl_num s ?c num) + 65536 ^ length num * c' = dval num * 2 ^ s + uint ?c"
    using Cons.IH [OF cl] by blast
  have "dval (shl_num s c (n # num)) + 65536 ^ length (n # num) * c' =
      ?S mod 65536 + 65536 * (dval (shl_num s ?c num) + 65536 ^ length num * c')"
    unfolding shl_num.simps dval_simps uint_dig w length_Cons power_Suc by (simp only: distrib_left mult.assoc add.assoc)
  also have "\<dots> = ?S + 65536 * (dval num * 2 ^ s)"
    unfolding ih(3) cn by (rule split_digit)
  also have "\<dots> = dval (n # num) * 2 ^ s + uint c" by (simp add: shifted_def algebra_simps)
  finally show ?case using ih(1,2) by auto
qed (auto intro: exI [of _ "uint c"])

lemma small_carry: "x + P * c = (y :: int) \<Longrightarrow> 0 \<le> x \<Longrightarrow> 0 \<le> c \<Longrightarrow> 0 < P \<Longrightarrow> y < P \<Longrightarrow> c = 0"
proof (rule ccontr)
  assume a: "x + P * c = y" "0 \<le> x" "0 \<le> c" "0 < P" "y < P" "c \<noteq> 0"
  then have "P * 1 \<le> P * c" by (intro mult_left_mono) simp_all
  then show False using a by linarith
qed

lemma shl_num_whole:
  assumes "s \<le> 15"
  shows "length (shl_num s 0 (num @ [0])) = length num + 1 \<and> dval (shl_num s 0 (num @ [0])) = dval num * 2 ^ s"
proof -
  obtain c' where c: "length (shl_num s 0 (num @ [0])) = length (num @ [0])" "0 \<le> c'"
    "dval (shl_num s 0 (num @ [0])) + 65536 ^ length (num @ [0]) * c' = dval (num @ [0]) * 2 ^ s + uint (0 :: u16)"
    using shl_num_ok [OF assms, of 0 "num @ [0]"] by auto
  have "dval num * 2 ^ s < 65536 ^ length num * 2 ^ 16"
  proof (rule mult_strict_mono)
    show "(2 :: int) ^ s < 2 ^ 16" by (rule power_strict_increasing) (use assms in simp_all)
  qed (use dval_less [of num] in simp_all)
  then have "c' = 0" using c(3) by (intro small_carry [OF c(3) dval_nonneg c(2)]) (simp_all add: dval_append)
  then show ?thesis using c by (simp add: dval_append)
qed

text \<open>Shifting back, from the high end: \<open>c\<close> holds the bits that the digit above lost.\<close>

lemma dig_shr:
  assumes "s \<le> 15" "0 \<le> h" "h < 2 ^ s" "uint (c :: u16) = h * 2 ^ (16 - s)"
  shows "uint (dig (drop_bit s (ucast (n :: u16)) OR ucast c)) = (h * 65536 + uint n) div 2 ^ s"
proof -
  have q: "(65536 :: int) = 2 ^ (16 - s) * 2 ^ s" using two_powers [of s] assms(1) by (simp add: mult.commute)
  have small: "uint n div 2 ^ s < 2 ^ (16 - s)" by (rule div_below) (use uint16(2) [of n] q in simp_all)
  have m: "(h * 65536 + uint n) div 2 ^ s = h * 2 ^ (16 - s) + uint n div 2 ^ s"
    unfolding q mult.assoc [symmetric] by simp
  have hs: "h * 2 ^ (16 - s) < 65536" using uint16(2) [of c] assms(4) by simp
  have c: "(ucast c :: u32) = push_bit (16 - s) (word_of_int h)"
  proof -
    have hh: "take_bit 32 h = h"
      by (rule take_bit_int_eq_self) (use assms(1-3) power_increasing [of s 32 "2 :: int"] in simp_all)
    have "uint (push_bit (16 - s) (word_of_int h) :: u32) = take_bit 32 (push_bit (16 - s) (take_bit 32 h))"
      by (simp add: unsigned_push_bit_eq uint_word_of_int take_bit_eq_mod)
    also have "\<dots> = h * 2 ^ (16 - s)"
      unfolding hh push_bit_eq_mult by (rule take_bit_int_eq_self) (use hs assms(2) in simp_all)
    finally show ?thesis by (simp add: word_uint_eq_iff uint_widen assms(4))
  qed
  have hu: "uint (word_of_int h :: u32) = h"
    using assms(1-3) power_increasing [of s 16 "2 :: int"] by (simp add: uint_word_of_int)
  have "uint (push_bit (16 - s) (word_of_int h) OR drop_bit s (ucast n :: u32)) = h * 2 ^ (16 - s) + uint n div 2 ^ s"
    by (subst uint_or_low) (use small hs in \<open>simp_all add: hu uint_shift_n uint_widen\<close>)
  then have v: "uint (drop_bit s (ucast n) OR ucast c :: u32) = (h * 65536 + uint n) div 2 ^ s"
    unfolding c m by (simp add: or.commute)
  have "(h + 1) * 65536 \<le> 2 ^ s * 65536" by (rule mult_right_mono) (use assms(3) in simp_all)
  then have "h * 65536 + uint n < 65536 * 2 ^ s" using uint16 [of n] by (simp add: distrib_right)
  then have "(h * 65536 + uint n) div 2 ^ s < 65536" by (intro div_below) simp_all
  moreover have "0 \<le> (h * 65536 + uint n) div 2 ^ s" using assms(2) by (simp add: pos_imp_zdiv_nonneg_iff)
  ultimately show ?thesis unfolding uint_dig v by simp
qed

lemma shr_carry:
  assumes "s \<le> 15"
  shows "uint (ucast (push_bit (16 - s) (ucast (n :: u16) :: u32)) :: u16) = uint n mod 2 ^ s * 2 ^ (16 - s)"
proof -
  have q: "(65536 :: int) = 2 ^ s * 2 ^ (16 - s)" using two_powers [of s] assms by simp
  have "uint (push_bit (16 - s) (ucast n :: u32)) = uint n * 2 ^ (16 - s)" by (rule uint_shl) simp
  then show ?thesis unfolding uint_narrow by (simp only: q mult_mod_left)
qed

lemma shr_num_ok:
  assumes "s \<le> 15" "0 \<le> h" "h < 2 ^ s" "uint c = h * 2 ^ (16 - s)"
  shows "length (shr_num s c ds) = length ds \<and>
    dval (rev (shr_num s c ds)) = (h * 65536 ^ length ds + dval (rev ds)) div 2 ^ s"
  using assms(2-4)
proof (induction ds arbitrary: c h)
  case (Cons n num)
  let ?T = "h * 65536 + uint n" and ?c = "ucast (push_bit (16 - s) (ucast n :: u32)) :: u16"
  have q: "(65536 :: int) = 2 ^ s * 2 ^ (16 - s)" using two_powers [of s] assms(1) by simp
  have h1: "0 \<le> uint n mod 2 ^ s" "uint n mod 2 ^ s < 2 ^ s" by simp_all
  have ih: "length (shr_num s ?c num) = length num"
    "dval (rev (shr_num s ?c num)) = (uint n mod 2 ^ s * 65536 ^ length num + dval (rev num)) div 2 ^ s"
    using Cons.IH [OF h1 shr_carry [OF assms(1)]] by simp_all
  have alg: "a * (P * Q) + (m * P + v) = P * (a * Q + m) + v" for a P Q m v :: int by (simp add: algebra_simps)
  have T: "?T = 2 ^ s * (?T div 2 ^ s) + uint n mod 2 ^ s"
  proof -
    have "?T = uint n + 2 ^ s * (h * 2 ^ (16 - s))" unfolding q by (simp add: algebra_simps)
    then have "?T mod 2 ^ s = uint n mod 2 ^ s" by (simp only: mod_mult_self2)
    then show ?thesis by (metis mult_div_mod_eq)
  qed
  have "dval (rev (shr_num s c (n # num))) = dval (rev (shr_num s ?c num)) + 65536 ^ length num * (?T div 2 ^ s)"
    using dig_shr [OF assms(1) Cons.prems, of n] by (simp add: dval_append ih(1))
  also have "\<dots> = (2 ^ s * (65536 ^ length num * (?T div 2 ^ s)) + (uint n mod 2 ^ s * 65536 ^ length num + dval (rev num))) div 2 ^ s"
    unfolding ih(2) by (simp add: add.commute)
  also have "2 ^ s * (65536 ^ length num * (?T div 2 ^ s)) + (uint n mod 2 ^ s * 65536 ^ length num + dval (rev num)) =
      65536 ^ length num * ?T + dval (rev num)"
    unfolding alg T [symmetric] ..
  also have "\<dots> = h * 65536 ^ length (n # num) + dval (rev (n # num))" by (simp add: dval_append algebra_simps)
  finally show ?case using ih(1) by simp
qed simp

section \<open>The normalised denominator\<close>

lemma msb_digit: "d AND DIG_MSB = 0 \<longleftrightarrow> uint d < 32768"
proof -
  have "d AND DIG_MSB = 0 \<longleftrightarrow> \<not> bit d 15" using and_exp_eq_0_iff_not_bit [of d 15] by (simp add: DIG_MSB_def)
  also have "bit d 15 = bit (uint d) 15" by (simp add: bit_uint_iff)
  also have "\<dots> = odd (uint d div 32768)" by (simp add: bit_iff_odd)
  also have "(\<not> odd (uint d div 32768)) \<longleftrightarrow> uint d < 32768"
  proof -
    have "uint d div 32768 = 0 \<or> uint d div 32768 = 1"
    proof -
      have "uint d div 32768 < 2" by (rule div_below) (use uint16 [of d] in simp_all)
      moreover have "0 \<le> uint d div 32768" by (simp add: pos_imp_zdiv_nonneg_iff)
      ultimately show ?thesis by linarith
    qed
    then show ?thesis
    proof
      assume zero: "uint d div 32768 = 0"
      have "uint d < 32768"
        using mult_div_mod_eq [of 32768 "uint d"] pos_mod_bound [of 32768 "uint d"] unfolding zero by linarith
      then show ?thesis unfolding zero by simp
    next
      assume one: "uint d div 32768 = 1"
      have "32768 \<le> uint d"
        using mult_div_mod_eq [of 32768 "uint d"] pos_mod_sign [of 32768 "uint d"] unfolding one by linarith
      then have "\<not> uint d < 32768" by linarith
      then show ?thesis unfolding one by simp
    qed
  qed
  finally show ?thesis .
qed

lemma norm_shift_loop_ok:
  assumes "rounds \<le> 16" "2 ^ (16 - rounds) \<le> uint d"
  shows "norm_shift_loop rounds d < rounds \<and>
    32768 \<le> uint d * 2 ^ norm_shift_loop rounds d \<and> uint d * 2 ^ norm_shift_loop rounds d < 65536"
  using assms
proof (induction rounds arbitrary: d)
  case 0
  then show ?case using uint16 [of d] by simp
next
  case (Suc r)
  show ?case
  proof (cases "d AND DIG_MSB = 0")
    case False
    then show ?thesis using uint16 [of d] by (simp add: msb_digit)
  next
    case True
    then have l: "uint d < 32768" by (simp add: msb_digit)
    have "push_bit 1 d = d * 2" by (simp add: push_bit_eq_mult)
    then have u: "uint (push_bit 1 d) = 2 * uint d" using l by (simp add: uint_word_ariths)
    have "16 - r = Suc (16 - Suc r)" using Suc.prems(1) by simp
    then have "2 ^ (16 - r) \<le> uint (push_bit 1 d)" unfolding u using Suc.prems(2) by simp
    then show ?thesis using Suc.IH [of "push_bit 1 d"] Suc.prems(1) True u by (simp add: ac_simps)
  qed
qed

lemma norm_shift_ok:
  assumes "d \<noteq> 0"
  shows "norm_shift_of d \<le> 15" "32768 \<le> uint d * 2 ^ norm_shift_of d" "uint d * 2 ^ norm_shift_of d < 65536"
proof -
  have "1 \<le> uint d" using assms uint16(1) [of d] uint_0_iff [of d] by linarith
  then show "norm_shift_of d \<le> 15" "32768 \<le> uint d * 2 ^ norm_shift_of d" "uint d * 2 ^ norm_shift_of d < 65536"
    using norm_shift_loop_ok [of 16 d] by (simp_all add: norm_shift_of_def)
qed

text \<open>A shift that normalises \<open>den\<close>.\<close>

definition normalises :: "nat \<Rightarrow> u16 list \<Rightarrow> bool" where
  "normalises s den \<longleftrightarrow> den \<noteq> [] \<and> s \<le> 15 \<and> 32768 \<le> uint (last den) * 2 ^ s \<and> uint (last den) * 2 ^ s < 65536"

abbreviation shifted_den :: "nat \<Rightarrow> u16 list \<Rightarrow> int" where
  "shifted_den s den \<equiv> dval den * 2 ^ s"

lemma dval_last:
  assumes "ds \<noteq> []"
  shows "dval ds = dval (butlast ds) + 65536 ^ (length ds - 1) * uint (last ds)"
  using arg_cong [OF append_butlast_last_id [OF assms], of dval] by (simp add: dval_append)

lemma shifted_den_bounds:
  assumes "normalises s den"
  shows "0 < shifted_den s den" "shifted_den s den < 65536 ^ length den"
proof -
  let ?P = "65536 ^ (length den - 1) :: int"
  have n: "den \<noteq> []" "s \<le> 15" "32768 \<le> uint (last den) * 2 ^ s" "uint (last den) * 2 ^ s < 65536"
    using assms by (simp_all add: normalises_def)
  have P: "65536 ^ length den = 65536 * ?P" using n(1) by (cases den) simp_all
  have d: "dval den = dval (butlast den) + ?P * uint (last den)" by (rule dval_last [OF n(1)])
  have b: "dval (butlast den) < ?P" using dval_less [of "butlast den"] by simp
  have q: "(65536 :: int) = 2 ^ (16 - s) * 2 ^ s" using two_powers [of s] n(2) by (simp add: mult.commute)
  have "uint (last den) < 2 ^ (16 - s)" using n(4) unfolding q by simp
  then have "?P * (uint (last den) + 1) \<le> ?P * 2 ^ (16 - s)" by (intro mult_left_mono) simp_all
  then have "dval den < ?P * 2 ^ (16 - s)" using d b by (simp add: distrib_left)
  then have "shifted_den s den < ?P * 2 ^ (16 - s) * 2 ^ s" by (intro mult_strict_right_mono) simp_all
  then show "shifted_den s den < 65536 ^ length den" unfolding P by (subst q) (simp add: ac_simps)
  have "0 < uint (last den)" using n(3) by (cases "uint (last den) = 0") (simp_all add: order_less_le)
  then have "0 < dval den" using d dval_nonneg [of "butlast den"] by (simp add: add_nonneg_pos)
  then show "0 < shifted_den s den" by simp
qed

text \<open>The leading digit that is cached is the one of the shifted denominator.\<close>

lemma div_shift_low:
  fixes a b c :: int
  assumes "0 \<le> a" "a < c" "0 < c" "0 < m"
  shows "(b * c + a) div (c * m) = b div m"
proof -
  have "(b * c + a) div c = b" using assms by simp
  then show ?thesis using assms(3,4) by (simp add: zdiv_zmult2_eq)
qed

lemma lead_digit_ok:
  assumes "normalises s den"
  shows "uint (lead_digit den s) = shifted_den s den div 65536 ^ (length den - 1)"
    "32768 \<le> uint (lead_digit den s)"
proof -
  have n: "den \<noteq> []" "s \<le> 15" "32768 \<le> uint (last den) * 2 ^ s" "uint (last den) * 2 ^ s < 65536"
    using assms by (simp_all add: normalises_def)
  have q: "(65536 :: int) = 2 ^ s * 2 ^ (16 - s)" using two_powers [of s] n(2) by simp
  have l: "uint (push_bit s (ucast (last den)) :: u32) = uint (last den) * 2 ^ s" by (rule uint_shl) (use n(2) in simp)
  have "uint (lead_digit den s) = shifted_den s den div 65536 ^ (length den - 1) \<and> 32768 \<le> uint (lead_digit den s)"
  proof (cases "length den \<ge> 2")
    case False
    then obtain d where "den = [d]" using n(1) by (cases den; cases "tl den") auto
    then show ?thesis using l n(3) by (simp add: lead_digit_def)
  next
    case True
    let ?d2 = "den ! (length den - 2)" and ?P = "65536 ^ (length den - 2) :: int"
    define ds where "ds = butlast den"
    have ds: "ds \<noteq> []" "last ds = ?d2" "length ds = length den - 1"
      using True by (auto simp: ds_def last_conv_nth nth_butlast numeral_2_eq_2 simp flip: length_0_conv)
    let ?low = "dval (butlast ds)"
    have P1: "65536 ^ (length den - 1) = ?P * 65536"
      using True by (simp add: power_Suc2 [symmetric] Suc_diff_le numeral_2_eq_2 del: power_Suc)
    have "dval ds = ?low + ?P * uint ?d2" using dval_last [OF ds(1)] ds(2,3) by (simp add: numeral_2_eq_2)
    then have v: "dval den = (uint (last den) * 65536 + uint ?d2) * ?P + ?low"
      using dval_last [OF n(1)] P1 by (simp add: ds_def algebra_simps)
    have low: "0 \<le> ?low" "?low < ?P" using dval_less [of "butlast ds"] ds(3) by (simp_all add: numeral_2_eq_2)
    have sd: "shifted_den s den = (uint (last den) * 65536 + uint ?d2) * (?P * 2 ^ s) + ?low * 2 ^ s"
      unfolding v by (simp add: algebra_simps)
    have "?P * 65536 = (?P * 2 ^ s) * 2 ^ (16 - s)" by (subst q) (simp only: mult.assoc)
    then have "shifted_den s den div (?P * 65536) =
        ((uint (last den) * 65536 + uint ?d2) * (?P * 2 ^ s) + ?low * 2 ^ s) div ((?P * 2 ^ s) * 2 ^ (16 - s))"
      unfolding sd by (rule arg_cong)
    also have "((uint (last den) * 65536 + uint ?d2) * (?P * 2 ^ s) + ?low * 2 ^ s) div ((?P * 2 ^ s) * 2 ^ (16 - s)) =
        (uint (last den) * 65536 + uint ?d2) div 2 ^ (16 - s)"
      by (rule div_shift_low) (use low in simp_all)
    also have "\<dots> = (uint ?d2 + 2 ^ (16 - s) * (uint (last den) * 2 ^ s)) div 2 ^ (16 - s)"
      by (subst q) (simp add: ac_simps)
    also have "\<dots> = uint (last den) * 2 ^ s + uint ?d2 div 2 ^ (16 - s)" by simp
    finally have w: "shifted_den s den div 65536 ^ (length den - 1) = uint (last den) * 2 ^ s + uint ?d2 div 2 ^ (16 - s)"
      unfolding P1 .
    have "uint ?d2 div 2 ^ (16 - s) < 2 ^ s" by (rule div_below) (use uint16 [of ?d2] q in simp_all)
    then have "uint (lead_digit den s) = uint (last den) * 2 ^ s + uint ?d2 div 2 ^ (16 - s)"
      unfolding lead_digit_def Let_def using True n(2,4)
      by (simp add: uint_or_low uint_shift_n uint_widen)
    then show ?thesis unfolding w using n(3) by (simp add: pos_imp_zdiv_nonneg_iff add_increasing2)
  qed
  then show "uint (lead_digit den s) = shifted_den s den div 65536 ^ (length den - 1)" "32768 \<le> uint (lead_digit den s)"
    by simp_all
qed

section \<open>A quotient digit\<close>

text \<open>The shifted denominator, digit by digit, with the bits that come from the digit below.\<close>

lemma shifted_digits:
  "(dval (d # den) * 2 ^ s + c) mod 65536 ^ length (d # den) =
    shifted s c d mod 65536 + 65536 * ((dval den * 2 ^ s + shifted s c d div 65536) mod 65536 ^ length den)"
proof -
  have e: "dval (d # den) * 2 ^ s + c = shifted s c d + 65536 * (dval den * 2 ^ s)"
    by (simp add: shifted_def algebra_simps)
  have "(shifted s c d + 65536 * (dval den * 2 ^ s)) mod 65536 = shifted s c d mod 65536"
    "(shifted s c d + 65536 * (dval den * 2 ^ s)) div 65536 = dval den * 2 ^ s + shifted s c d div 65536" by simp_all
  then show ?thesis unfolding e length_Cons power_Suc mod_mult2_eq_int by (simp only: add_ac)
qed

lemma uint_d_norm:
  assumes "uint (d_norm :: u32) < 65536 * 2 ^ s" "s \<le> 15"
  shows "uint (push_bit s (ucast d) OR drop_bit 16 d_norm) = shifted s (uint d_norm div 65536) d"
    "uint (push_bit s (ucast d) OR drop_bit 16 d_norm) < 65536 * 2 ^ s"
proof -
  have c: "uint (drop_bit 16 d_norm) < 2 ^ s" unfolding uint_shift by (rule div_below) (use assms(1) in \<open>simp_all add: mult.commute\<close>)
  show "uint (push_bit s (ucast d) OR drop_bit 16 d_norm) = shifted s (uint d_norm div 65536) d"
    using uint_shifted [OF c assms(2), of d] unfolding uint_shift .
  then show "uint (push_bit s (ucast d) OR drop_bit 16 d_norm) < 65536 * 2 ^ s"
    using shifted_range(2) [OF _ c assms(2), of d] unfolding uint_shift by (simp add: pos_imp_zdiv_nonneg_iff)
qed

text \<open>One round of the multiply and subtract loop.\<close>

lemma sub_mul_step:
  fixes n x b :: int
  assumes "- 131072 \<le> b" "b \<le> 0" "0 \<le> n" "n < 65536" "0 \<le> x" "x < 4294967296"
  defines "low \<equiv> b mod 65536 + n - x mod 65536"
  defines "b1 \<equiv> b div 65536 - x div 65536 + low div 65536"
  shows "low mod 65536 + 65536 * b1 = n + b - x" "- 131072 \<le> b1" "b1 \<le> 0"
    "- 65536 \<le> low" "low < 131072" "- 65538 \<le> b1"
proof -
  have bm: "65536 * (b div 65536) + b mod 65536 = b" "0 \<le> b mod 65536" "b mod 65536 < 65536" by simp_all
  have xm: "65536 * (x div 65536) + x mod 65536 = x" "0 \<le> x mod 65536" "x mod 65536 < 65536" by simp_all
  have lm: "65536 * (low div 65536) + low mod 65536 = low" "0 \<le> low mod 65536" "low mod 65536 < 65536" by simp_all
  show l: "- 65536 \<le> low" "low < 131072" using bm xm assms(3,4) unfolding low_def by linarith+
  have "65536 * b1 = 65536 * (b div 65536) - 65536 * (x div 65536) + 65536 * (low div 65536)" by (simp add: b1_def algebra_simps)
  then show e: "low mod 65536 + 65536 * b1 = n + b - x" using bm(1) xm(1) lm(1) unfolding low_def by linarith
  have "65536 * b1 < 65536 * 1" using e lm(2) assms(2-5) by linarith
  then show "b1 \<le> 0" by linarith
  have "- 2 \<le> b div 65536" using bm assms(1) by linarith
  moreover have "x div 65536 \<le> 65535" using xm assms(6) by linarith
  moreover have "- 1 \<le> low div 65536" using lm l by linarith
  ultimately show "- 65538 \<le> b1" unfolding b1_def by linarith
  then show "- 131072 \<le> b1" by linarith
qed

lemma sub_mul_ok:
  assumes "s \<le> 15" "uint quo \<le> 65537"
    and "uint d_norm < 65536 * 2 ^ s" "- 131072 \<le> b" "b \<le> 0" "length num = length den"
    and "sub_mul quo s d_norm b num den = (ds, b')"
  shows "length ds = length num \<and> - 131072 \<le> b' \<and> b' \<le> 0 \<and>
    dval ds + 65536 ^ length num * b' =
      dval num + b - uint quo * ((dval den * 2 ^ s + uint d_norm div 65536) mod 65536 ^ length den)"
  using assms(3-)
proof (induction num arbitrary: den d_norm b ds)
  case Nil
  then show ?case by simp
next
  case (Cons n num)
  obtain d den' where den: "den = d # den'" "length num = length den'" using Cons.prems(4) by (cases den) simp_all
  let ?dn = "push_bit s (ucast d) OR drop_bit 16 d_norm"
  let ?x = "quo * (?dn AND DIG_MASK)" and ?S = "shifted s (uint d_norm div 65536) d"
  let ?low = "b mod 65536 + uint n - uint ?x mod 65536"
  let ?b = "b div 65536 - uint ?x div 65536 + ?low div 65536"
  let ?M = "(dval den' * 2 ^ s + uint ?dn div 65536) mod 65536 ^ length den'"
  have dn: "uint ?dn = ?S" "uint ?dn < 65536 * 2 ^ s" by (rule uint_d_norm [OF Cons.prems(1) assms(1)])+
  have m: "uint (?dn AND DIG_MASK) = ?S mod 65536" unfolding uint_mask dn(1) ..
  have "uint quo * (?S mod 65536) \<le> 65537 * 65535" by (rule mult_mono) (use assms(2) pos_mod_bound [of 65536 ?S] in simp_all)
  then have x: "uint ?x = uint quo * (?S mod 65536)" using m by (subst uint_mult32) simp_all
  note st = sub_mul_step [OF Cons.prems(2,3) uint16 [of n] uint32 [of ?x]]
  have s1: "s32 (b mod 65536 + uint n - uint ?x mod 65536) = ?low" using st(4,5) by (intro s32_id) linarith+
  have s2: "s32 (b div 65536 - uint ?x div 65536 + ?low div 65536) = ?b" using st(3,6) by (intro s32_id) linarith+
  obtain ds1 b1 where r: "sub_mul quo s ?dn ?b num den' = (ds1, b1)" by (metis surj_pair)
  have e: "ds = sdig ?low # ds1" "b' = b1"
    using Cons.prems(5) r unfolding den(1) sub_mul.simps Let_def digit_simps s1 s2 by simp_all
  have ih: "length ds1 = length num" "- 131072 \<le> b1" "b1 \<le> 0"
    "dval ds1 + 65536 ^ length num * b1 = dval num + ?b - uint quo * ?M"
    using Cons.IH [OF dn(2) st(2,3) den(2), of ds1] r e(2) by blast+
  have "dval ds + 65536 ^ length (n # num) * b' = ?low mod 65536 + 65536 * (dval ds1 + 65536 ^ length num * b1)"
    unfolding e dval_simps uint_sdig length_Cons power_Suc by (simp only: distrib_left mult.assoc add.assoc)
  also have "\<dots> = (?low mod 65536 + 65536 * ?b) + 65536 * dval num - uint quo * (65536 * ?M)"
    unfolding ih(4) by (simp only: distrib_left right_diff_distrib mult.left_commute [of 65536 "uint quo"])
  also have "\<dots> = dval (n # num) + b - (uint quo * (?S mod 65536) + uint quo * (65536 * ?M))"
    unfolding st(1) unfolding x dval_simps by simp
  also have "uint quo * (?S mod 65536) + uint quo * (65536 * ?M) =
      uint quo * ((dval den * 2 ^ s + uint d_norm div 65536) mod 65536 ^ length den)"
    unfolding den(1) shifted_digits dn(1) distrib_left ..
  finally show ?case using ih(1-3) e by simp
qed

lemma add_den_ok:
  assumes "s \<le> 15"
    and "uint d_norm < 65536 * 2 ^ s" "uint c \<le> 1" "length num = length den"
    and "add_den s d_norm c num den = (ds, c')"
  shows "length ds = length num \<and> uint c' \<le> 1 \<and>
    dval ds + 65536 ^ length num * uint c' =
      dval num + uint c + (dval den * 2 ^ s + uint d_norm div 65536) mod 65536 ^ length den"
  using assms(2-)
proof (induction num arbitrary: den d_norm c ds)
  case Nil
  then show ?case by simp
next
  case (Cons n num)
  obtain d den' where den: "den = d # den'" "length num = length den'" using Cons.prems(3) by (cases den) simp_all
  let ?dn = "push_bit s (ucast d) OR drop_bit 16 d_norm" and ?S = "shifted s (uint d_norm div 65536) d"
  let ?c = "c + (ucast n + (?dn AND DIG_MASK))"
  let ?M = "(dval den' * 2 ^ s + uint ?dn div 65536) mod 65536 ^ length den'"
  have dn: "uint ?dn = ?S" "uint ?dn < 65536 * 2 ^ s" by (rule uint_d_norm [OF Cons.prems(1) assms(1)])+
  have m: "uint (?dn AND DIG_MASK) = ?S mod 65536" unfolding uint_mask dn(1) ..
  have "uint (ucast n + (?dn AND DIG_MASK)) = uint n + ?S mod 65536"
    using uint16 [of n] pos_mod_bound [of 65536 ?S] by (subst uint_add32) (simp_all add: m uint_widen)
  then have c: "uint ?c = uint c + (uint n + ?S mod 65536)"
    using uint16 [of n] pos_mod_bound [of 65536 ?S] Cons.prems(2) by (subst uint_add32) simp_all
  have c1: "uint (drop_bit 16 ?c) \<le> 1"
    unfolding uint_shift c by (rule carry_range) (use uint16 [of n] pos_mod_bound [of 65536 ?S] Cons.prems(2) in linarith)
  obtain ds1 e1 where r: "add_den s ?dn (drop_bit 16 ?c) num den' = (ds1, e1)" by (metis surj_pair)
  have e: "ds = dig ?c # ds1" "c' = e1" using Cons.prems(4) r unfolding den(1) add_den.simps Let_def by simp_all
  have ih: "length ds1 = length num" "uint e1 \<le> 1"
    "dval ds1 + 65536 ^ length num * uint e1 = dval num + uint (drop_bit 16 ?c) + ?M"
    using Cons.IH [OF dn(2) c1 den(2), of ds1] r e(2) by blast+
  have "dval ds + 65536 ^ length (n # num) * uint c' = uint ?c mod 65536 + 65536 * (dval ds1 + 65536 ^ length num * uint e1)"
    unfolding e dval_simps uint_dig length_Cons power_Suc by (simp only: distrib_left mult.assoc add.assoc)
  also have "\<dots> = uint ?c mod 65536 + 65536 * ((dval num + ?M) + uint ?c div 65536)"
    unfolding ih(3) uint_shift by (simp only: add_ac)
  also have "\<dots> = uint ?c + 65536 * (dval num + ?M)" by (rule split_digit)
  also have "\<dots> = dval (n # num) + uint c + (?S mod 65536 + 65536 * ?M)" unfolding c dval_simps by simp
  also have "?S mod 65536 + 65536 * ?M = (dval den * 2 ^ s + uint d_norm div 65536) mod 65536 ^ length den"
    unfolding den(1) shifted_digits dn(1) ..
  finally show ?case using ih(1,2) e by simp
qed

text \<open>The correction loop runs once for each unit by which the estimate is too large.\<close>

lemma add_back_ok:
  assumes n: "normalises s den"
    and "length num = length den" "dval num + 65536 ^ length den * b = r - int m * shifted_den s den"
    and "0 \<le> r" "r < shifted_den s den" "- 1000000 \<le> b" "int m \<le> uint quo"
  shows "\<exists>num'. add_back s den quo b num = Some (quo - of_nat m, num') \<and> length num' = length den \<and> dval num' = r"
  using assms(2-)
proof (induction m arbitrary: num b quo)
  case 0
  let ?P = "65536 ^ length den :: int"
  have e: "dval num + ?P * b = r" using 0 by simp
  have "b = 0"
  proof (rule ccontr)
    assume "b \<noteq> 0"
    then consider "b \<le> - 1" | "1 \<le> b" by linarith
    then show False
    proof cases
      case 1
      then have "?P * b \<le> ?P * (- 1)" by (intro mult_left_mono) simp_all
      then show False using 0 dval_less [of num] by simp
    next
      case 2
      then have "?P * 1 \<le> ?P * b" by (intro mult_left_mono) simp_all
      then show False using e 0(4) shifted_den_bounds(2) [OF n] dval_nonneg [of num] by linarith
    qed
  qed
  then show ?case using 0 by (subst add_back.simps) simp
next
  case (Suc m)
  let ?D = "shifted_den s den" and ?P = "65536 ^ length den :: int"
  have s: "s \<le> 15" using n by (simp add: normalises_def)
  have "1 * ?D \<le> int (Suc m) * ?D" by (rule mult_right_mono) (use shifted_den_bounds(1) [OF n] in simp_all)
  then have "r - int (Suc m) * ?D < 0" using Suc.prems(4) by linarith
  then have "?P * b < 0" using Suc.prems(2) dval_nonneg [of num] by linarith
  then have b: "b < 0" by (simp add: mult_less_0_iff)
  obtain num1 c where a: "add_den s 0 0 num den = (num1, c)" by (metis surj_pair)
  have ok: "length num1 = length den" "uint c \<le> 1" "dval num1 + ?P * uint c = dval num + ?D"
    using add_den_ok [OF s _ _ Suc.prems(1) a] Suc.prems(1) shifted_den_bounds [OF n] by simp_all
  have sb: "s32 (b + uint c) = b + uint c" using b ok(2) Suc.prems(5) uint32(1) [of c] by (intro s32_id) linarith+
  have e: "dval num1 + ?P * (b + uint c) = r - int m * ?D"
    using ok(3) Suc.prems(2) by (simp add: algebra_simps)
  have "uint (quo - 1) = uint quo - 1" using Suc.prems(6) by (simp add: uint_sub_if')
  then have q: "int m \<le> uint (quo - 1)" using Suc.prems(6) by linarith
  have bc: "- 1000000 \<le> b + uint c" using Suc.prems(5) uint32(1) [of c] by linarith
  obtain num' where
    "add_back s den (quo - 1) (b + uint c) num1 = Some (quo - 1 - of_nat m, num')" "length num' = length den" "dval num' = r"
    using Suc.IH [OF ok(1) e Suc.prems(3,4) bc q] by blast
  then show ?case using b a sb by (subst add_back.simps) (simp add: algebra_simps)
qed

text \<open>The estimate: never too small, and at most two too large.\<close>

lemma estimate_ok:
  fixes W D P :: int
  assumes "0 < P" "0 < D" "0 \<le> W" "W < 65536 * D" "32768 \<le> D div P"
  shows "W div D \<le> W div P div (D div P)" "W div P div (D div P) \<le> 65537" "W div D < 65536" "0 \<le> W div D"
proof -
  have d: "P * (D div P) \<le> D" "D < P * (D div P) + P"
    using mult_div_mod_eq [of P D] pos_mod_sign [OF assms(1), of D] pos_mod_bound [OF assms(1), of D] by linarith+
  show q: "W div D < 65536" by (rule div_below) (use assms in simp_all)
  show q0: "0 \<le> W div D" using assms by (simp add: pos_imp_zdiv_nonneg_iff)
  have "W div D * (P * (D div P)) \<le> W div D * D" by (rule mult_left_mono [OF d(1) q0])
  also have "\<dots> \<le> W"
    using mult_div_mod_eq [of D W] pos_mod_sign [OF assms(2), of W] unfolding mult.commute [of "W div D"] by linarith
  finally have "W div D * (D div P) * P \<le> W" by (simp add: ac_simps)
  then have "W div D * (D div P) \<le> W div P" using zdiv_mono1 [OF _ assms(1), of "W div D * (D div P) * P" W] assms(1) by simp
  then have "W div D * (D div P) div (D div P) \<le> W div P div (D div P)" by (rule zdiv_mono1) (use assms(5) in simp)
  then show "W div D \<le> W div P div (D div P)" using assms(5) by simp
  have "W < (65536 * (D div P) + 65536) * P" using assms(4) d(2) by (simp add: algebra_simps)
  then have "W div P < 65536 * (D div P) + 65536" by (rule div_below [OF assms(1)])
  also have "\<dots> \<le> 65538 * (D div P)" using assms(5) by simp
  finally have u: "W div P < 65538 * (D div P)" .
  have "W div P div (D div P) < 65538" by (rule div_below [OF _ u]) (use assms(5) in simp)
  then show "W div P div (D div P) \<le> 65537" by simp
qed

definition window :: "u16 list \<Rightarrow> u16 \<Rightarrow> int" where
  "window num t = dval num + 65536 ^ length num * uint t"

lemma div_digit_ok:
  assumes n: "normalises s den" and l: "length num = length den"
    and w: "window num t < 65536 * shifted_den s den"
  shows "\<exists>q num'. div_digit (lead_digit den s) s den num t = Some (q, num') \<and> length num' = length den \<and>
    uint q = window num t div shifted_den s den \<and> dval num' = window num t mod shifted_den s den"
proof -
  let ?D = "shifted_den s den" and ?W = "window num t" and ?P = "65536 ^ (length den - 1) :: int"
  have s: "s \<le> 15" "den \<noteq> []" using n by (simp_all add: normalises_def)
  then have ne: "num \<noteq> []" using l by auto
  have PL: "65536 ^ length den = 65536 * ?P" using s(2) by (cases den) simp_all
  note D = shifted_den_bounds [OF n]
  note lead = lead_digit_ok [OF n]
  have W0: "0 \<le> ?W" by (simp add: window_def)
  note est = estimate_ok [OF _ D(1) W0 w lead(2) [unfolded lead(1)]]
  define quo where "quo = (push_bit 16 (ucast t) OR ucast (last num)) div lead_digit den s"
  have "?W div ?P = uint t * 65536 + uint (last num)"
  proof -
    have "?W = dval (butlast num) + ?P * (uint t * 65536 + uint (last num))"
      unfolding window_def l PL dval_last [OF ne] by (simp add: algebra_simps)
    then show ?thesis using div_low_part [OF dval_nonneg, of "butlast num" ?P] dval_less [of "butlast num"] l by simp
  qed
  then have quo: "uint quo = ?W div ?P div (?D div ?P)"
    unfolding quo_def by (simp add: uint_div or_high_swap lead(1))
  then have q: "uint quo \<le> 65537" "?W div ?D \<le> uint quo" "?W div ?D < 65536" "0 \<le> ?W div ?D" using est by simp_all
  define m where "m = nat (uint quo - ?W div ?D)"
  have m: "int m = uint quo - ?W div ?D" using q(2) by (simp add: m_def)
  obtain num1 b where sm: "sub_mul quo s 0 0 num den = (num1, b)" by (metis surj_pair)
  have ok: "length num1 = length den" "- 131072 \<le> b" "b \<le> 0" "dval num1 + 65536 ^ length den * b = dval num - uint quo * ?D"
    using sub_mul_ok [OF s(1) q(1) _ _ _ l sm] l D by simp_all
  have sb: "s32 (b + uint t) = b + uint t" using ok uint16 [of t] by (intro s32_id) linarith+
  have "dval num1 + 65536 ^ length den * (b + uint t) = ?W mod ?D - int m * ?D"
  proof -
    have "dval num1 + 65536 ^ length den * (b + uint t) = ?W - uint quo * ?D"
      using ok(4) l by (simp add: window_def algebra_simps)
    also have "\<dots> = ?W mod ?D - int m * ?D"
      using mult_div_mod_eq [of ?D ?W] unfolding m left_diff_distrib mult.commute [of ?D] by linarith
    finally show ?thesis .
  qed
  then obtain num' where ab: "add_back s den quo (b + uint t) num1 = Some (quo - of_nat m, num')" "length num' = length den"
    "dval num' = ?W mod ?D"
    using add_back_ok [OF n ok(1), of "b + uint t" "?W mod ?D" m quo] m q ok(2) uint16 [of t] D(1) by auto
  have "uint (quo - of_nat m) = ?W div ?D"
  proof -
    have "uint (of_nat m :: u32) = int m" using m q by (simp add: unsigned_of_nat take_bit_eq_mod)
    then show ?thesis using m q by (simp add: uint_sub_if')
  qed
  then have "uint (dig (quo - of_nat m)) = ?W div ?D" using q by (simp add: uint_dig)
  then show ?thesis using sm sb ab by (simp add: div_digit_def quo_def [symmetric])
qed

section \<open>The whole division\<close>

text \<open>The number that the digits of a window and the digits below it make up.\<close>

definition whole_num :: "u16 list \<Rightarrow> u16 \<Rightarrow> u16 list \<Rightarrow> int" where
  "whole_num num t lows = dval (rev lows) + 65536 ^ length lows * window num t"

lemma div_loop_ok:
  assumes n: "normalises s den"
    and "length num = length den" "window num t < 65536 * shifted_den s den"
  shows "\<exists>qs r. div_loop (lead_digit den s) s den num t lows = Some (qs, r) \<and>
    length qs = length lows + 1 \<and> length r = length den \<and>
    dval (rev qs) = whole_num num t lows div shifted_den s den \<and> dval r = whole_num num t lows mod shifted_den s den"
  using assms(2,3)
proof (induction lows arbitrary: num t)
  case Nil
  then show ?case using div_digit_ok [OF n, of num t] by (auto simp: whole_num_def)
next
  case (Cons l lows)
  let ?D = "shifted_den s den" and ?W = "window num t" and ?P = "65536 ^ length lows :: int"
  obtain q num1 where d: "div_digit (lead_digit den s) s den num t = Some (q, num1)" "length num1 = length den"
    "uint q = ?W div ?D" "dval num1 = ?W mod ?D"
    using div_digit_ok [OF n Cons.prems] by blast
  have ne: "num1 \<noteq> []" using d(2) n by (auto simp: normalises_def)
  have w: "window (l # butlast num1) (last num1) = uint l + 65536 * (?W mod ?D)"
  proof -
    have "window (l # butlast num1) (last num1) = uint l + 65536 * (dval (butlast num1) + 65536 ^ (length num1 - 1) * uint (last num1))"
      using ne by (cases num1) (simp_all add: window_def algebra_simps)
    then show ?thesis unfolding dval_last [OF ne, symmetric] d(4) .
  qed
  have "?W mod ?D < ?D" using shifted_den_bounds(1) [OF n] by simp
  then have wl: "window (l # butlast num1) (last num1) < 65536 * ?D" unfolding w using uint16 [of l] by linarith
  have ll: "length (l # butlast num1) = length den" using d(2) ne by (cases num1) auto
  obtain qs r where ih: "div_loop (lead_digit den s) s den (l # butlast num1) (last num1) lows = Some (qs, r)"
    "length qs = length lows + 1" "length r = length den"
    "dval (rev qs) = whole_num (l # butlast num1) (last num1) lows div ?D" "dval r = whole_num (l # butlast num1) (last num1) lows mod ?D"
    using Cons.IH [OF ll wl] by blast
  have e: "whole_num num t (l # lows) = whole_num (l # butlast num1) (last num1) lows + ?D * (65536 * ?P * (?W div ?D))"
  proof -
    have "?W = ?W mod ?D + ?D * (?W div ?D)" by simp
    then have "65536 * ?P * ?W = 65536 * ?P * (?W mod ?D + ?D * (?W div ?D))" by (rule arg_cong)
    then show ?thesis unfolding whole_num_def w by (simp add: dval_append algebra_simps)
  qed
  have D0: "?D \<noteq> 0" using shifted_den_bounds(1) [OF n] by linarith
  have "dval (rev (q # qs)) = whole_num num t (l # lows) div ?D"
    unfolding e div_mult_self2 [OF D0] using ih(2,4) d(3) by (simp add: dval_append algebra_simps)
  moreover have "dval r = whole_num num t (l # lows) mod ?D" unfolding e mod_mult_self2 ih(5) ..
  ultimately show ?case using d(1) ih(1-3) by simp
qed

theorem mpn_div_ok:
  assumes "normalised num" "normalised den" "den \<noteq> []"
  shows "\<exists>quo rem. mpn_div num den = Some (quo, rem) \<and> normalised quo \<and> normalised rem \<and>
    length quo \<le> length num + 1 \<and> length rem \<le> length num \<and>
    dval quo = dval num div dval den \<and> dval rem = dval num mod dval den"
proof -
  have c: "mpn_cmp num den = sgn (dval num - dval den)" by (rule mpn_cmp_ok [OF assms(1,2)])
  have den0: "0 < dval den" using dval_zero_iff [OF assms(2)] assms(3) dval_nonneg [of den] by linarith
  consider "dval num = dval den" | "dval num < dval den" | "dval num > dval den" by linarith
  then show ?thesis
  proof cases
    case 1
    then show ?thesis using c den0 by (simp add: mpn_div_def normalised_def)
  next
    case 2
    then show ?thesis using c assms(1) by (simp add: mpn_div_def)
  next
    case 3
    let ?s = "norm_shift_of (last den)"
    let ?num = "shl_num ?s 0 (num @ [0])" and ?L = "length den"
    let ?below = "length num - ?L" and ?D = "shifted_den ?s den"
    have n: "normalises ?s den"
      using norm_shift_ok [of "last den"] assms(2,3) by (simp add: normalised_def normalises_def)
    then have s: "?s \<le> 15" by (simp add: normalises_def)
    have num: "length ?num = length num + 1" "dval ?num = dval num * 2 ^ ?s" using shl_num_whole [OF s] by simp_all
    have Ll: "?L \<le> length num" using 3 dval_shorter [of num den] assms(2) by (cases "length num < ?L") auto
    define lo where "lo = take ?below ?num"
    define win where "win = take ?L (drop ?below ?num)"
    define t where "t = last ?num"
    have len: "length lo = ?below" "length win = ?L" using num(1) Ll by (simp_all add: lo_def win_def)
    have "?num = lo @ win @ [t]"
    proof -
      have ne: "?num \<noteq> []" using num(1) by auto
      have "drop ?below (butlast ?num) = take ?L (drop ?below ?num)"
        unfolding butlast_conv_take num(1) using Ll by (simp add: drop_take num(1))
      then have "butlast ?num = take ?below (butlast ?num) @ win" unfolding win_def by (metis append_take_drop_id)
      moreover have "take ?below (butlast ?num) = lo" unfolding lo_def butlast_conv_take num(1) using Ll by simp
      ultimately show ?thesis unfolding t_def using append_butlast_last_id [OF ne] by simp
    qed
    then have v: "dval num * 2 ^ ?s = dval lo + 65536 ^ ?below * window win t"
      using num(2) len by (simp add: dval_append window_def)
    have "window win t < 65536 * ?D"
    proof -
      have "65536 ^ ?below * window win t \<le> dval num * 2 ^ ?s" using v dval_nonneg [of lo] by linarith
      also have "\<dots> < 65536 ^ length num * 2 ^ ?s" by (rule mult_strict_right_mono [OF dval_less]) simp
      also have "\<dots> = 65536 ^ ?below * (65536 ^ ?L * 2 ^ ?s)" using Ll by (simp flip: power_add add: mult.assoc [symmetric])
      finally have "window win t < 65536 ^ ?L * 2 ^ ?s" by simp
      also have "\<dots> \<le> 65536 * dval den * 2 ^ ?s"
        by (rule mult_right_mono) (use dval_lower [OF assms(2,3)] assms(3) in \<open>cases den; simp\<close>)+
      finally show ?thesis by (simp add: mult.assoc)
    qed
    then obtain qs r where dl: "div_loop (lead_digit den ?s) ?s den win t (rev lo) = Some (qs, r)"
      "length qs = ?below + 1" "length r = ?L" "dval (rev qs) = dval num * 2 ^ ?s div ?D" "dval r = dval num * 2 ^ ?s mod ?D"
      using div_loop_ok [OF n len(2), of t "rev lo"] len(1) by (auto simp: v whole_num_def)
    have d: "mpn_div num den = Some (mpn_remove_trailing_zeros (rev qs), mpn_remove_trailing_zeros (rev (shr_num ?s 0 (rev r))))"
      using c 3 dl(1) num(1) unfolding mpn_div_def lo_def win_def t_def by (simp add: Let_def)
    have r: "length (shr_num ?s 0 (rev r)) = length r" "dval (rev (shr_num ?s 0 (rev r))) = dval r div 2 ^ ?s"
      using shr_num_ok [OF s, of 0 0 "rev r"] by simp_all
    have "dval num * 2 ^ ?s div ?D = dval num div dval den" by simp
    moreover have "dval num * 2 ^ ?s mod ?D div 2 ^ ?s = dval num mod dval den" unfolding mod_mult_mult2 by simp
    ultimately show ?thesis
      unfolding d using dl r strip_length [of "rev qs"] strip_length [of "rev (shr_num ?s 0 (rev r))"] Ll by simp
  qed
qed

end
