(* ===== verification/Mpz.thy ===== *)
theory Mpz
  imports MpnDiv
begin

text \<open>
  Model of the integers of py/mpz.c: sign, digit buffer and the operations on them.  The digits in use
  are a list, its length is the C field \<open>len\<close>; \<open>z_alloc\<close> is the number of digits that the buffer has
  room for.  \<open>mem n\<close> says whether the allocator has room for \<open>n\<close> digits; an operation gives None when it
  does not (\<open>m_renew\<close> raises MemoryError) or when an assertion of the code fails.  Where the C code
  compares its arguments or writes one that it reads later, the operation has a flag for the arguments
  that are the same object.
\<close>

section \<open>Integers and their buffers\<close>

record mpz_t =
  z_neg :: bool
  z_fixed_dig :: bool
  z_alloc :: nat
  z_dig :: "u16 list"

abbreviation z_len :: "mpz_t \<Rightarrow> nat" where "z_len z \<equiv> length (z_dig z)"

definition MIN_ALLOC :: nat where "MIN_ALLOC = 2"
definition MPZ_NUM_DIG_FOR_INT :: nat where "MPZ_NUM_DIG_FOR_INT = 2"
definition MPZ_NUM_DIG_FOR_LL :: nat where "MPZ_NUM_DIG_FOR_LL = 4"

definition mpz_init_zero :: mpz_t where
  "mpz_init_zero = \<lparr>z_neg = False, z_fixed_dig = False, z_alloc = 0, z_dig = []\<rparr>"

definition mpz_is_zero :: "mpz_t \<Rightarrow> bool" where
  "mpz_is_zero z = (z_len z = 0)"

definition mpz_is_neg :: "mpz_t \<Rightarrow> bool" where
  "mpz_is_neg z = z_neg z"

definition mpz_max_num_bits :: "mpz_t \<Rightarrow> nat" where
  "mpz_max_num_bits z = z_len z * DIG_SIZE"

definition mpz_need_dig :: "(nat \<Rightarrow> bool) \<Rightarrow> mpz_t \<Rightarrow> nat \<Rightarrow> mpz_t option" where
  "mpz_need_dig mem z need =
     (let need1 = (if need < MIN_ALLOC then MIN_ALLOC else need)
      in if z_alloc z < need1
         then if \<not> z_fixed_dig z \<and> mem need1 then Some (z\<lparr>z_alloc := need1\<rparr>) else None
         else Some z)"

definition mpz_clone :: "(nat \<Rightarrow> bool) \<Rightarrow> mpz_t \<Rightarrow> mpz_t option" where
  "mpz_clone mem src =
     (if z_alloc src \<noteq> 0 \<and> mem (z_alloc src) then Some (src\<lparr>z_fixed_dig := False\<rparr>) else None)"

definition mpz_set :: "(nat \<Rightarrow> bool) \<Rightarrow> mpz_t \<Rightarrow> mpz_t \<Rightarrow> mpz_t option" where
  "mpz_set mem dest src = do {
     d \<leftarrow> mpz_need_dig mem dest (z_len src);
     Some (d\<lparr>z_neg := z_neg src, z_dig := z_dig src\<rparr>) }"

section \<open>From machine integers, strings and bytes\<close>

text \<open>The loop \<open>while (uval > 0)\<close>, for \<open>int\<close> and for \<open>long long\<close>.\<close>

function word_digits :: "'a::len word \<Rightarrow> u16 list" where
  "word_digits v = (if v = 0 then [] else ucast v # word_digits (drop_bit DIG_SIZE v))"
  by auto
termination
proof (relation "measure unat")
  fix v :: "'a word"
  assume "v \<noteq> 0"
  then have "unat v div 2 ^ DIG_SIZE < unat v" by (intro div_less_dividend) (simp_all add: unat_gt_0)
  then show "(drop_bit DIG_SIZE v, v) \<in> measure unat" 
    unfolding in_measure unat_drop_bit_eq by (simp only: drop_bit_eq_div)
qed simp

declare word_digits.simps [simp del]

definition mpz_set_from_int :: "(nat \<Rightarrow> bool) \<Rightarrow> mpz_t \<Rightarrow> u32 \<Rightarrow> mpz_t option" where
  "mpz_set_from_int mem z val =
     (if val = 0 then Some (z\<lparr>z_neg := False, z_dig := []\<rparr>)
      else do {
        z1 \<leftarrow> mpz_need_dig mem z MPZ_NUM_DIG_FOR_INT;
        Some (z1\<lparr>z_neg := val <s 0, z_dig := word_digits (if val <s 0 then - val else val)\<rparr>) })"

definition mpz_set_from_ll :: "(nat \<Rightarrow> bool) \<Rightarrow> mpz_t \<Rightarrow> 64 word \<Rightarrow> bool \<Rightarrow> mpz_t option" where
  "mpz_set_from_ll mem z val is_signed = do {
     z1 \<leftarrow> mpz_need_dig mem z MPZ_NUM_DIG_FOR_LL;
     let ng = is_signed \<and> val <s 0;
     Some (z1\<lparr>z_neg := ng, z_dig := word_digits (if ng then - val else val)\<rparr>) }"

definition mpz_init_from_int :: "(nat \<Rightarrow> bool) \<Rightarrow> u32 \<Rightarrow> mpz_t option" where
  "mpz_init_from_int mem val = mpz_set_from_int mem mpz_init_zero val"

definition mpz_init_fixed_from_int :: "(nat \<Rightarrow> bool) \<Rightarrow> nat \<Rightarrow> u32 \<Rightarrow> mpz_t option" where
  "mpz_init_fixed_from_int mem n val =
     mpz_set_from_int mem \<lparr>z_neg = False, z_fixed_dig = True, z_alloc = n, z_dig = []\<rparr> val"

text \<open>The digit that a character stands for; a character of no digit ends the number.\<close>

definition digit_of_char :: "u8 \<Rightarrow> u32 option" where
  "digit_of_char c =
     (let v = ucast c :: u32
      in if 48 \<le> v \<and> v \<le> 57 then Some (v - 48)
         else if 65 \<le> v \<and> v \<le> 90 then Some (v - (65 - 10))
         else if 97 \<le> v \<and> v \<le> 122 then Some (v - (97 - 10))
         else None)"

fun str_digits :: "u32 \<Rightarrow> u16 list \<Rightarrow> bytes \<Rightarrow> u16 list \<times> nat" where
  "str_digits base ds [] = (ds, 0)"
| "str_digits base ds (c # cs) =
     (case digit_of_char c of
        None \<Rightarrow> (ds, 0)
      | Some v \<Rightarrow>
          if v \<ge> base then (ds, 0)
          else case str_digits base (mpn_mul_dig_add_dig ds (ucast base) (ucast v)) cs of (r, n) \<Rightarrow> (r, n + 1))"

definition mpz_set_from_str :: "(nat \<Rightarrow> bool) \<Rightarrow> mpz_t \<Rightarrow> bytes \<Rightarrow> bool \<Rightarrow> u32 \<Rightarrow> (mpz_t \<times> nat) option" where
  "mpz_set_from_str mem z str ng base =
     (if base > 36 then None
      else do {
        z1 \<leftarrow> mpz_need_dig mem z (length str * 8 div DIG_SIZE + 1);
        let (ds, n) = str_digits base [] str;
        Some (z1\<lparr>z_neg := ng, z_dig := ds\<rparr>, n) })"

text \<open>Two bytes make a digit, the lower one first.\<close>

fun byte_digits :: "bytes \<Rightarrow> u16 list" where
  "byte_digits [] = []"
| "byte_digits [b] = [ucast b]"
| "byte_digits (b # c # bs) = (ucast b OR push_bit 8 (ucast c)) # byte_digits bs"

definition mpz_set_from_bytes :: "(nat \<Rightarrow> bool) \<Rightarrow> mpz_t \<Rightarrow> bool \<Rightarrow> bytes \<Rightarrow> mpz_t option" where
  "mpz_set_from_bytes mem z big_endian buf = do {
     z1 \<leftarrow> mpz_need_dig mem z ((length buf * 8 + DIG_SIZE - 1) div DIG_SIZE);
     Some (z1\<lparr>z_neg := False,
       z_dig := mpn_remove_trailing_zeros (byte_digits (if big_endian then rev buf else buf))\<rparr>) }"

section \<open>Comparison, sign, complement\<close>

definition mpz_cmp :: "mpz_t \<Rightarrow> mpz_t \<Rightarrow> int" where
  "mpz_cmp z1 z2 =
     (let cmp = of_bool (z_neg z2) - of_bool (z_neg z1)
      in if cmp \<noteq> 0 then cmp
         else let cmp1 = mpn_cmp (z_dig z1) (z_dig z2) in if z_neg z1 then - cmp1 else cmp1)"

text \<open>\<open>same\<close>: \<open>dest\<close> and \<open>z\<close> are one object.\<close>

definition set_unless :: "(nat \<Rightarrow> bool) \<Rightarrow> bool \<Rightarrow> mpz_t \<Rightarrow> mpz_t \<Rightarrow> mpz_t option" where
  "set_unless mem same dest z = (if same then Some dest else mpz_set mem dest z)"

definition mpz_abs_inpl :: "(nat \<Rightarrow> bool) \<Rightarrow> bool \<Rightarrow> mpz_t \<Rightarrow> mpz_t \<Rightarrow> mpz_t option" where
  "mpz_abs_inpl mem same dest z = do {
     d \<leftarrow> set_unless mem same dest z;
     Some (d\<lparr>z_neg := False\<rparr>) }"

definition mpz_neg_inpl :: "(nat \<Rightarrow> bool) \<Rightarrow> bool \<Rightarrow> mpz_t \<Rightarrow> mpz_t \<Rightarrow> mpz_t option" where
  "mpz_neg_inpl mem same dest z = do {
     d \<leftarrow> set_unless mem same dest z;
     Some (if z_dig d \<noteq> [] then d\<lparr>z_neg := \<not> z_neg d\<rparr> else d) }"

definition mpz_not_inpl :: "(nat \<Rightarrow> bool) \<Rightarrow> bool \<Rightarrow> mpz_t \<Rightarrow> mpz_t \<Rightarrow> mpz_t option" where
  "mpz_not_inpl mem same dest z = do {
     d \<leftarrow> set_unless mem same dest z;
     if z_dig d = [] then do {
       d1 \<leftarrow> mpz_need_dig mem d 1;
       Some (d1\<lparr>z_dig := [1], z_neg := True\<rparr>) }
     else if z_neg d then Some (d\<lparr>z_neg := False, z_dig := mpn_sub (z_dig d) [1]\<rparr>)
     else do {
       d1 \<leftarrow> mpz_need_dig mem d (z_len d + 1);
       Some (d1\<lparr>z_dig := mpn_add (z_dig d1) [1], z_neg := True\<rparr>) } }"

section \<open>Shifts\<close>

definition mpz_shl_inpl :: "(nat \<Rightarrow> bool) \<Rightarrow> mpz_t \<Rightarrow> mpz_t \<Rightarrow> u32 \<Rightarrow> mpz_t option" where
  "mpz_shl_inpl mem dest lhs rhs =
     (if z_len lhs = 0 \<or> rhs = 0 then mpz_set mem dest lhs
      else do {
        d \<leftarrow> mpz_need_dig mem dest (z_len lhs + shl_whole rhs);
        Some (d\<lparr>z_dig := mpn_shl (z_dig lhs) rhs, z_neg := z_neg lhs\<rparr>) })"

text \<open>Whether a bit that is shifted out of \<open>ds\<close> is set.\<close>

definition shr_round_up :: "u16 list \<Rightarrow> u32 \<Rightarrow> bool" where
  "shr_round_up ds rhs =
     (let n_whole = unat (rhs div 16); n_part = unat (rhs mod 16)
      in list_ex (\<lambda>d. d \<noteq> 0) (take n_whole ds) \<or>
         n_whole < length ds \<and> ds ! n_whole AND (push_bit n_part 1 - 1) \<noteq> 0)"

text \<open>\<open>same\<close>: \<open>dest\<close> and \<open>lhs\<close> are one object, and the rounding test reads the digits of \<open>lhs\<close> when they
  have already been shifted.\<close>

definition mpz_shr_inpl :: "(nat \<Rightarrow> bool) \<Rightarrow> bool \<Rightarrow> mpz_t \<Rightarrow> mpz_t \<Rightarrow> u32 \<Rightarrow> mpz_t option" where
  "mpz_shr_inpl mem same dest lhs rhs =
     (if z_len lhs = 0 \<or> rhs = 0 then mpz_set mem dest lhs
      else do {
        d \<leftarrow> mpz_need_dig mem dest (z_len lhs);
        let ds = mpn_shr (z_dig lhs) rhs;
        let d1 = d\<lparr>z_dig := ds, z_neg := z_neg lhs\<rparr>;
        Some (if z_neg d1 \<and> shr_round_up (if same then ds else z_dig lhs) rhs
              then d1\<lparr>z_dig := if ds = [] then [1] else mpn_add ds [1]\<rparr>
              else d1) })"

section \<open>Addition and subtraction\<close>

text \<open>The operand with the larger magnitude goes first.\<close>

definition larger_first :: "mpz_t \<Rightarrow> mpz_t \<Rightarrow> mpz_t \<times> mpz_t" where
  "larger_first lhs rhs = (if mpn_cmp (z_dig lhs) (z_dig rhs) < 0 then (rhs, lhs) else (lhs, rhs))"

definition mpz_add_inpl :: "(nat \<Rightarrow> bool) \<Rightarrow> mpz_t \<Rightarrow> mpz_t \<Rightarrow> mpz_t \<Rightarrow> mpz_t option" where
  "mpz_add_inpl mem dest lhs0 rhs0 =
     (case larger_first lhs0 rhs0 of (lhs, rhs) \<Rightarrow> do {
        d \<leftarrow> (if z_neg lhs = z_neg rhs then do {
               d \<leftarrow> mpz_need_dig mem dest (z_len lhs + 1);
               Some (d\<lparr>z_dig := mpn_add (z_dig lhs) (z_dig rhs)\<rparr>) }
             else do {
               d \<leftarrow> mpz_need_dig mem dest (z_len lhs);
               Some (d\<lparr>z_dig := mpn_sub (z_dig lhs) (z_dig rhs)\<rparr>) });
        Some (d\<lparr>z_neg := z_neg lhs \<and> z_dig d \<noteq> []\<rparr>) })"

definition mpz_sub_inpl :: "(nat \<Rightarrow> bool) \<Rightarrow> mpz_t \<Rightarrow> mpz_t \<Rightarrow> mpz_t \<Rightarrow> mpz_t option" where
  "mpz_sub_inpl mem dest lhs0 rhs0 =
     (case larger_first lhs0 rhs0 of (lhs, rhs) \<Rightarrow> do {
        let swapped = mpn_cmp (z_dig lhs0) (z_dig rhs0) < 0;
        d \<leftarrow> (if z_neg lhs \<noteq> z_neg rhs then do {
               d \<leftarrow> mpz_need_dig mem dest (z_len lhs + 1);
               Some (d\<lparr>z_dig := mpn_add (z_dig lhs) (z_dig rhs)\<rparr>) }
             else do {
               d \<leftarrow> mpz_need_dig mem dest (z_len lhs);
               Some (d\<lparr>z_dig := mpn_sub (z_dig lhs) (z_dig rhs)\<rparr>) });
        Some (d\<lparr>z_neg := if z_dig d = [] then False else if swapped then \<not> z_neg lhs else z_neg lhs\<rparr>) })"

section \<open>Bitwise operations\<close>

definition longer_first :: "mpz_t \<Rightarrow> mpz_t \<Rightarrow> mpz_t \<times> mpz_t" where
  "longer_first lhs rhs = (if z_len lhs < z_len rhs then (rhs, lhs) else (lhs, rhs))"

definition mpz_and_inpl :: "(nat \<Rightarrow> bool) \<Rightarrow> mpz_t \<Rightarrow> mpz_t \<Rightarrow> mpz_t \<Rightarrow> mpz_t option" where
  "mpz_and_inpl mem dest lhs0 rhs0 =
     (case longer_first lhs0 rhs0 of (lhs, rhs) \<Rightarrow>
        if \<not> z_neg lhs \<and> \<not> z_neg rhs then do {
          d \<leftarrow> mpz_need_dig mem dest (z_len lhs);
          Some (d\<lparr>z_dig := mpn_and (z_dig lhs) (z_dig rhs), z_neg := False\<rparr>) }
        else do {
          d \<leftarrow> mpz_need_dig mem dest (z_len lhs + 1);
          Some (d\<lparr>z_dig := mpn_and_neg (z_dig lhs) (z_dig rhs)
                   (of_bool (z_neg lhs = z_neg rhs)) (of_bool (z_neg lhs)) (of_bool (z_neg rhs)),
                  z_neg := z_neg lhs \<and> z_neg rhs\<rparr>) })"

definition mpz_or_inpl :: "(nat \<Rightarrow> bool) \<Rightarrow> mpz_t \<Rightarrow> mpz_t \<Rightarrow> mpz_t \<Rightarrow> mpz_t option" where
  "mpz_or_inpl mem dest lhs0 rhs0 =
     (case longer_first lhs0 rhs0 of (lhs, rhs) \<Rightarrow>
        if \<not> z_neg lhs \<and> \<not> z_neg rhs then do {
          d \<leftarrow> mpz_need_dig mem dest (z_len lhs);
          Some (d\<lparr>z_dig := mpn_or (z_dig lhs) (z_dig rhs), z_neg := False\<rparr>) }
        else do {
          d \<leftarrow> mpz_need_dig mem dest (z_len lhs + 1);
          Some (d\<lparr>z_dig := mpn_or_neg (z_dig lhs) (z_dig rhs) (of_bool (z_neg lhs)) (of_bool (z_neg rhs)),
                  z_neg := True\<rparr>) })"

definition mpz_xor_inpl :: "(nat \<Rightarrow> bool) \<Rightarrow> mpz_t \<Rightarrow> mpz_t \<Rightarrow> mpz_t \<Rightarrow> mpz_t option" where
  "mpz_xor_inpl mem dest lhs0 rhs0 =
     (case longer_first lhs0 rhs0 of (lhs, rhs) \<Rightarrow>
        if z_neg lhs = z_neg rhs then do {
          d \<leftarrow> mpz_need_dig mem dest (z_len lhs);
          Some (d\<lparr>z_dig := if \<not> z_neg lhs then mpn_xor (z_dig lhs) (z_dig rhs)
                           else mpn_xor_neg (z_dig lhs) (z_dig rhs) 0 0 0,
                  z_neg := False\<rparr>) }
        else do {
          d \<leftarrow> mpz_need_dig mem dest (z_len lhs + 1);
          Some (d\<lparr>z_dig := mpn_xor_neg (z_dig lhs) (z_dig rhs) 1 (of_bool (\<not> z_neg lhs)) (of_bool (\<not> z_neg rhs)),
                  z_neg := True\<rparr>) })"

section \<open>Multiplication and division\<close>

text \<open>\<open>lsame\<close>, \<open>rsame\<close>: \<open>lhs\<close>, \<open>rhs\<close> is the object \<open>dest\<close>, and is copied before \<open>dest\<close> is cleared.\<close>

definition mpz_mul_inpl :: "(nat \<Rightarrow> bool) \<Rightarrow> bool \<Rightarrow> bool \<Rightarrow> mpz_t \<Rightarrow> mpz_t \<Rightarrow> mpz_t \<Rightarrow> mpz_t option" where
  "mpz_mul_inpl mem lsame rsame dest lhs0 rhs0 =
     (if z_len lhs0 = 0 \<or> z_len rhs0 = 0 then mpz_set_from_int mem dest 0
      else do {
        lhs \<leftarrow> (if lsame then mpz_clone mem lhs0 else Some lhs0);
        rhs \<leftarrow> (if lsame then Some (if rsame then lhs else rhs0)
                else if rsame then mpz_clone mem rhs0 else Some rhs0);
        d \<leftarrow> mpz_need_dig mem dest (z_len lhs + z_len rhs);
        Some (d\<lparr>z_dig := mpn_mul (replicate (z_alloc d) 0) (z_dig lhs) (z_dig rhs),
                z_neg := z_neg lhs \<noteq> z_neg rhs\<rparr>) })"

text \<open>"Check signs and do Python style modulo".\<close>

definition python_modulo :: "(nat \<Rightarrow> bool) \<Rightarrow> bool \<Rightarrow> mpz_t \<Rightarrow> mpz_t \<Rightarrow> mpz_t \<Rightarrow> (mpz_t \<times> mpz_t) option" where
  "python_modulo mem lneg quo rem rhs =
     (if lneg \<noteq> z_neg rhs then
        let quo1 = quo\<lparr>z_neg := z_dig quo \<noteq> []\<rparr>
        in if \<not> mpz_is_zero rem then do {
             mpzone \<leftarrow> mpz_init_from_int mem (- 1);
             quo2 \<leftarrow> mpz_add_inpl mem quo1 quo1 mpzone;
             rem2 \<leftarrow> mpz_add_inpl mem rem rem rhs;
             Some (quo2, rem2) }
           else Some (quo1, rem)
      else Some (quo, rem))"

text \<open>\<open>same\<close>: \<open>dest_rem\<close> and \<open>lhs\<close> are one object, and the sign of \<open>lhs\<close> is read when it is already that
  of the remainder.\<close>

definition mpz_divmod_inpl :: "(nat \<Rightarrow> bool) \<Rightarrow> bool \<Rightarrow> mpz_t \<Rightarrow> mpz_t \<Rightarrow> mpz_t \<Rightarrow> mpz_t \<Rightarrow> (mpz_t \<times> mpz_t) option" where
  "mpz_divmod_inpl mem same dest_quo dest_rem lhs rhs =
     (if mpz_is_zero rhs then None
      else do {
        quo \<leftarrow> mpz_need_dig mem dest_quo (z_len lhs + 1);
        rem0 \<leftarrow> mpz_need_dig mem dest_rem (z_len lhs + 1);
        rem1 \<leftarrow> mpz_set mem rem0 lhs;
        (qd, rd) \<leftarrow> mpn_div (z_dig rem1) (z_dig rhs);
        let rem = rem1\<lparr>z_dig := rd, z_neg := z_neg rem1 \<and> rd \<noteq> []\<rparr>;
        python_modulo mem (if same then z_neg rem else z_neg lhs) (quo\<lparr>z_neg := False, z_dig := qd\<rparr>) rem rhs })"

section \<open>Powers\<close>

lemma shr_one_value: "dval (mpn_shr n 1) = dval n div 2"
proof -
  let ?i = "shr_loop 1 n"
  have i: "length ?i = length n" "dval ?i = dval n div 2" using shr_loop_ok [of 1 n] by simp_all
  show ?thesis
  proof (cases "n = []")
    case False
    then have ne: "?i \<noteq> []" using i(1) by auto
    have "dval (butlast ?i) = dval ?i" if "last ?i = 0"
      using arg_cong [OF append_butlast_last_id [OF ne], of dval] that by (simp add: dval_append)
    then show ?thesis using False i by (simp add: mpn_shr_def Let_def)
  qed (simp add: mpn_shr_def)
qed

lemma shr_one_shorter: "n \<noteq> [] \<Longrightarrow> dval n = 0 \<Longrightarrow> length (mpn_shr n 1) < length n"
proof -
  assume n: "n \<noteq> []" "dval n = 0"
  have i: "length (shr_loop 1 n) = length n" "dval (shr_loop 1 n) = 0" using shr_loop_ok [of 1 n] n(2) by simp_all
  then have ne: "shr_loop 1 n \<noteq> []" using n(1) by auto
  have "uint (last (shr_loop 1 n)) = 0"
    using i(2) dval_nonneg [of "butlast (shr_loop 1 n)"] dval_last [OF ne] by (simp add: add_nonneg_eq_0_iff)
  then have "last (shr_loop 1 n) = 0" by (simp add: uint_0_iff)
  then show "length (mpn_shr n 1) < length n" using i(1) n(1) by (simp add: mpn_shr_def Let_def)
qed

function pow_loop :: "(nat \<Rightarrow> bool) \<Rightarrow> mpz_t \<Rightarrow> mpz_t \<Rightarrow> u16 list \<Rightarrow> mpz_t option" where
  "pow_loop mem dest x n =
     (if n = [] then Some dest
      else do {
        dest1 \<leftarrow> (if hd n AND 1 \<noteq> 0 then mpz_mul_inpl mem True False dest dest x else Some dest);
        let n1 = mpn_shr n 1;
        if n1 = [] then Some dest1
        else do {
          x1 \<leftarrow> mpz_mul_inpl mem True True x x x;
          pow_loop mem dest1 x1 n1 } })"
  by pat_completeness auto

termination
proof (relation "measures [\<lambda>(mem, dest, x, n). nat (dval n), \<lambda>(mem, dest, x, n). length n]")
  fix mem dest x n dest1 n1 x1
  assume n: "n \<noteq> []" "n1 = mpn_shr n 1"
  show "((mem, dest1, x1, n1), (mem, dest, x, n))
      \<in> measures [\<lambda>(mem, dest, x, n). nat (dval n), \<lambda>(mem, dest, x, n). length n]"
  proof (cases "dval n = 0")
    case True
    then show ?thesis using shr_one_shorter [OF n(1)] n(2) by (simp add: shr_one_value)
  next
    case False
    then have "0 < dval n" using dval_nonneg [of n] by linarith
    then have "dval n div 2 < dval n" by simp
    then show ?thesis using n(2) \<open>0 < dval n\<close> by (simp add: shr_one_value)
  qed
qed simp

declare pow_loop.simps [simp del]

definition mpz_pow_inpl :: "(nat \<Rightarrow> bool) \<Rightarrow> mpz_t \<Rightarrow> mpz_t \<Rightarrow> mpz_t \<Rightarrow> mpz_t option" where
  "mpz_pow_inpl mem dest lhs rhs =
     (if z_len lhs = 0 \<or> z_neg rhs then mpz_set_from_int mem dest 0
      else if z_len rhs = 0 then mpz_set_from_int mem dest 1
      else do {
        x \<leftarrow> mpz_clone mem lhs;
        n \<leftarrow> mpz_clone mem rhs;
        dest1 \<leftarrow> mpz_set_from_int mem dest 1;
        pow_loop mem dest1 x (z_dig n) })"

function pow3_loop :: "(nat \<Rightarrow> bool) \<Rightarrow> mpz_t \<Rightarrow> mpz_t \<Rightarrow> mpz_t \<Rightarrow> mpz_t \<Rightarrow> u16 list \<Rightarrow> mpz_t option" where
  "pow3_loop mem modulus quo dest x n =
     (if n = [] then Some dest
      else do {
        (quo1, dest1) \<leftarrow>
          (if hd n AND 1 \<noteq> 0 then do {
             d \<leftarrow> mpz_mul_inpl mem True False dest dest x;
             mpz_divmod_inpl mem True quo d d modulus }
           else Some (quo, dest));
        let n1 = mpn_shr n 1;
        if n1 = [] then Some dest1
        else do {
          x1 \<leftarrow> mpz_mul_inpl mem True True x x x;
          (quo2, x2) \<leftarrow> mpz_divmod_inpl mem True quo1 x1 x1 modulus;
          pow3_loop mem modulus quo2 dest1 x2 n1 } })"
  by pat_completeness auto

termination
proof (relation "measures [\<lambda>(mem, md, q, dest, x, n). nat (dval n), \<lambda>(mem, md, q, dest, x, n). length n]")
  fix mem md q dest x n p q1 dest1 n1 x1 p2 q2 x2
  assume n: "n \<noteq> []" "n1 = mpn_shr n 1"
  show "((mem, md, q2, dest1, x2, n1), (mem, md, q, dest, x, n))
      \<in> measures [\<lambda>(mem, md, q, dest, x, n). nat (dval n), \<lambda>(mem, md, q, dest, x, n). length n]"
  proof (cases "dval n = 0")
    case True
    then show ?thesis using shr_one_shorter [OF n(1)] n(2) by (simp add: shr_one_value)
  next
    case False
    then have "0 < dval n" using dval_nonneg [of n] by linarith
    then have "dval n div 2 < dval n" by simp
    then show ?thesis using n(2) \<open>0 < dval n\<close> by (simp add: shr_one_value)
  qed
qed simp

declare pow3_loop.simps [simp del]

definition mpz_pow3_inpl :: "(nat \<Rightarrow> bool) \<Rightarrow> mpz_t \<Rightarrow> mpz_t \<Rightarrow> mpz_t \<Rightarrow> mpz_t \<Rightarrow> mpz_t option" where
  "mpz_pow3_inpl mem dest lhs rhs modulus =
     (if z_len lhs = 0 \<or> z_neg rhs \<or> z_dig modulus = [1] then mpz_set_from_int mem dest 0
      else do {
        dest1 \<leftarrow> mpz_set_from_int mem dest 1;
        if z_len rhs = 0 then Some dest1
        else do {
          x \<leftarrow> mpz_clone mem lhs;
          n \<leftarrow> mpz_clone mem rhs;
          pow3_loop mem modulus mpz_init_zero dest1 x (z_dig n) } })"

section \<open>To machine integers, bytes and strings\<close>

fun hash_loop :: "u32 \<Rightarrow> u16 list \<Rightarrow> u32" where
  "hash_loop val [] = val"
| "hash_loop val (d # ds) = hash_loop (push_bit DIG_SIZE val OR ucast d) ds"

definition mpz_hash :: "mpz_t \<Rightarrow> u32" where
  "mpz_hash z = (let val = hash_loop 0 (rev (z_dig z)) in if z_neg z then - val else val)"

text \<open>The loop of the checked conversions: none of the bits that the shift drops may be set.\<close>

fun checked_loop :: "u32 \<Rightarrow> u32 \<Rightarrow> u16 list \<Rightarrow> u32 option" where
  "checked_loop limit val [] = Some val"
| "checked_loop limit val (d # ds) =
     (if val > limit then None else checked_loop limit (push_bit DIG_SIZE val OR ucast d) ds)"

definition MP_OBJ_WORD_MSBIT_HIGH :: u32 where "MP_OBJ_WORD_MSBIT_HIGH = 0x80000000"

definition mpz_as_int_checked :: "mpz_t \<Rightarrow> u32 option" where
  "mpz_as_int_checked i = do {
     val \<leftarrow> checked_loop (drop_bit DIG_SIZE (NOT MP_OBJ_WORD_MSBIT_HIGH)) 0 (rev (z_dig i));
     Some (if z_neg i then - val else val) }"

definition mpz_as_uint_checked :: "mpz_t \<Rightarrow> u32 option" where
  "mpz_as_uint_checked i =
     (if z_neg i then None
      else checked_loop (drop_bit (DIG_SIZE - 1) (NOT MP_OBJ_WORD_MSBIT_HIGH)) 0 (rev (z_dig i)))"

text \<open>One byte of \<open>mpz_as_bytes\<close>: the bytes written so far in the order of writing, the room left, the
  carry of the negation, and whether all is well.\<close>

type_synonym byte_state = "bytes \<times> nat \<times> u32 \<times> bool"

definition put_byte :: "bool \<Rightarrow> u32 \<Rightarrow> byte_state \<Rightarrow> byte_state" where
  "put_byte ng d st =
     (case st of (out, olen, carry, ok) \<Rightarrow>
        let val = ucast d :: u16;
            val1 = (if ng then (NOT val AND 0xFF) + ucast carry else val);
            carry1 = (if ng then ucast (drop_bit 8 val1) else carry)
        in if olen = 0 then (out, olen, carry1, ok \<and> (ucast val1 :: u8) = 0)
           else (out @ [ucast val1], olen - 1, carry1, ok))"

fun put_digits :: "bool \<Rightarrow> u32 \<Rightarrow> u16 list \<Rightarrow> byte_state \<Rightarrow> byte_state" where
  "put_digits ng d [] st = st"
| "put_digits ng d (z # zs) st =
     (let d1 = push_bit DIG_SIZE d OR ucast z;
          st1 = put_byte ng d1 st;
          st2 = put_byte ng (drop_bit 8 d1) st1
      in put_digits ng (drop_bit 8 (drop_bit 8 d1)) zs st2)"

definition mpz_as_bytes :: "mpz_t \<Rightarrow> bool \<Rightarrow> bool \<Rightarrow> nat \<Rightarrow> bytes \<times> bool" where
  "mpz_as_bytes z big_endian as_signed len =
     (case put_digits (z_neg z) 0 (z_dig z) ([], len, 1, True) of (out, olen, carry, ok) \<Rightarrow>
        let buf = out @ replicate olen (if z_neg z then 0xFF else 0);
            ok1 = (if as_signed \<and> olen = 0 \<and> len > 0
                   then ok \<and> (last out AND 0x80 \<noteq> 0) = z_neg z else ok)
        in (if big_endian then rev buf else buf, ok1))"

text \<open>Division of the digits, highest first, by a small number.\<close>

fun div_small :: "u32 \<Rightarrow> u32 \<Rightarrow> u16 list \<Rightarrow> u16 list \<times> u32" where
  "div_small base a [] = ([], a)"
| "div_small base a (d # ds) =
     (let a1 = push_bit DIG_SIZE a OR ucast d
      in case div_small base (a1 mod base) ds of (qs, r) \<Rightarrow> (ucast (a1 div base) # qs, r))"

definition char_of_digit :: "u8 \<Rightarrow> u32 \<Rightarrow> u8" where
  "char_of_digit base_char a =
     (let c = a + 48 in ucast (if c > 57 then c + (ucast base_char - 57 - 1) else c))"

text \<open>The characters from the last one on; \<open>n\<close> of them since the last separator.  None is a loop that does
  not end.\<close>

partial_function (option) str_loop :: "u32 \<Rightarrow> u8 \<Rightarrow> u8 \<Rightarrow> nat \<Rightarrow> nat \<Rightarrow> u16 list \<Rightarrow> bytes option" where
  "str_loop base base_char comma n_comma n ds =
     (case div_small base 0 ds of (qs, a) \<Rightarrow>
        let c = char_of_digit base_char a
        in if list_all (\<lambda>d. d = 0) qs then Some [c]
           else if comma \<noteq> 0 \<and> n + 1 = n_comma then do {
             cs \<leftarrow> str_loop base base_char comma n_comma 0 qs;
             Some (c # comma # cs) }
           else do {
             cs \<leftarrow> str_loop base base_char comma n_comma (n + 1) qs;
             Some (c # cs) })"

declare str_loop.simps [code]

definition mpz_as_str_inpl :: "(nat \<Rightarrow> bool) \<Rightarrow> mpz_t \<Rightarrow> u32 \<Rightarrow> bytes option \<Rightarrow> u8 \<Rightarrow> u8 \<Rightarrow> bytes option" where
  "mpz_as_str_inpl mem i base prefix base_char comma =
     (if \<not> (2 \<le> base \<and> base \<le> 32) then None
      else
        let pre = (case prefix of Some p \<Rightarrow> p | None \<Rightarrow> [])
        in if z_len i = 0 then Some (pre @ [48])
           else if mem (z_len i) then do {
             cs \<leftarrow> str_loop base base_char comma (if base = 10 then 3 else 4) 0 (rev (z_dig i));
             Some (rev (cs @ rev pre @ (if z_neg i then [45] else []))) }
           else None)"

end
