(* ===== verification/MpzCorrect.thy ===== *)
theory MpzCorrect
  imports Mpz
begin

text \<open>
  The operations on integers compute what they say: the invariant of an \<open>mpz_t\<close> and its value, and for
  each operation that the result is well formed and has the value of the operation on the integers.  The
  only way not to get a result is that memory runs out.
\<close>

named_theorems mpz_simps

section \<open>The invariant and the value\<close>

definition mpz_val :: "mpz_t \<Rightarrow> int" where
  "mpz_val z = sval (z_neg z) (z_dig z)"

definition mpz_ok :: "mpz_t \<Rightarrow> bool" where
  "mpz_ok z \<longleftrightarrow> normalised (z_dig z) \<and> (z_neg z \<longrightarrow> z_dig z \<noteq> []) \<and> z_len z \<le> z_alloc z"

text \<open>What an operation promises: a result with a property, unless memory runs out; for most of them an
  integer with the given value in a buffer of its own.\<close>

definition yields :: "(nat \<Rightarrow> bool) \<Rightarrow> ('a \<Rightarrow> bool) \<Rightarrow> 'a option \<Rightarrow> bool" where
  "yields mem P r = (case r of Some x \<Rightarrow> P x | None \<Rightarrow> \<exists>n. \<not> mem n)"

definition is_int :: "int \<Rightarrow> mpz_t \<Rightarrow> bool" where
  "is_int v z \<longleftrightarrow> mpz_ok z \<and> \<not> z_fixed_dig z \<and> mpz_val z = v"

abbreviation gives :: "(nat \<Rightarrow> bool) \<Rightarrow> int \<Rightarrow> mpz_t option \<Rightarrow> bool" where
  "gives mem v \<equiv> yields mem (is_int v)"

lemma yields_Some [simp]: "yields mem P (Some x) = P x"
  by (simp add: yields_def)

lemma is_intD: "is_int v z \<Longrightarrow> mpz_ok z" "is_int v z \<Longrightarrow> \<not> z_fixed_dig z" "is_int v z \<Longrightarrow> mpz_val z = v"
  by (simp_all add: is_int_def)

lemma is_intI: "mpz_ok z \<Longrightarrow> \<not> z_fixed_dig z \<Longrightarrow> mpz_val z = v \<Longrightarrow> is_int v z"
  by (simp add: is_int_def)

lemma yields_bind:
  assumes "yields mem P r" "\<And>x. P x \<Longrightarrow> yields mem Q (f x)"
  shows "yields mem Q (r \<bind> f)"
  using assms by (cases r) (simp_all add: yields_def)

lemma yields_bind_eq:
  assumes "yields mem P r" "\<And>x. r = Some x \<Longrightarrow> P x \<Longrightarrow> yields mem Q (f x)"
  shows "yields mem Q (r \<bind> f)"
  using assms by (cases r) (simp_all add: yields_def)

lemma yields_weaken: "yields mem P r \<Longrightarrow> (\<And>x. P x \<Longrightarrow> Q x) \<Longrightarrow> yields mem Q r"
  by (cases r) (simp_all add: yields_def)

lemma yields_need:
  assumes "\<not> z_fixed_dig dest"
    and "\<And>d. \<not> z_fixed_dig d \<Longrightarrow> need \<le> z_alloc d \<Longrightarrow> z_dig d = z_dig dest \<Longrightarrow> z_neg d = z_neg dest \<Longrightarrow>
      z_alloc dest \<le> z_alloc d \<Longrightarrow> yields mem P (f d)"
  shows "yields mem P (mpz_need_dig mem dest need \<bind> f)"
proof (cases "mpz_need_dig mem dest need")
  case None
  then show ?thesis using assms(1) by (auto simp: yields_def mpz_need_dig_def Let_def split: if_splits)
next
  case (Some d)
  then have "\<not> z_fixed_dig d" "need \<le> z_alloc d" "z_dig d = z_dig dest" "z_neg d = z_neg dest" "z_alloc dest \<le> z_alloc d"
    using assms(1) by (auto simp: mpz_need_dig_def Let_def split: if_splits)
  then show ?thesis using assms(2) Some by simp
qed

lemma yields_clone:
  assumes "mpz_ok z" "z_dig z \<noteq> []"
    and "\<And>c. mpz_ok c \<Longrightarrow> \<not> z_fixed_dig c \<Longrightarrow> z_dig c = z_dig z \<Longrightarrow> z_neg c = z_neg z \<Longrightarrow> yields mem P (f c)"
  shows "yields mem P (mpz_clone mem z \<bind> f)"
proof (cases "mpz_clone mem z")
  case None
  have "0 < z_len z" "z_len z \<le> z_alloc z" using assms(1,2) by (simp_all add: mpz_ok_def)
  then have "z_alloc z \<noteq> 0" by linarith
  then show ?thesis using None by (auto simp: yields_def mpz_clone_def split: if_splits)
next
  case (Some c)
  have "yields mem P (f (z\<lparr>z_fixed_dig := False\<rparr>))" by (rule assms(3)) (use assms(1) in \<open>simp_all add: mpz_ok_def\<close>)
  then show ?thesis using Some by (auto simp: mpz_clone_def split: if_splits)
qed

lemma mpz_ok_zero [simp]: "mpz_ok mpz_init_zero" "mpz_val mpz_init_zero = 0" "\<not> z_fixed_dig mpz_init_zero"
  by (simp_all add: mpz_ok_def mpz_val_def mpz_init_zero_def)

lemma mpz_val_zero_iff: "mpz_ok z \<Longrightarrow> mpz_val z = 0 \<longleftrightarrow> z_dig z = []"
  using dval_zero_iff [of "z_dig z"] by (simp add: mpz_ok_def mpz_val_def sval_def)

lemma mpz_neg_iff: "mpz_ok z \<Longrightarrow> z_neg z \<longleftrightarrow> mpz_val z < 0"
  using dval_zero_iff [of "z_dig z"] dval_nonneg [of "z_dig z"]
  by (auto simp: mpz_ok_def mpz_val_def sval_def simp del: dval_nonneg)

lemma abs_mpz_val: "\<bar>mpz_val z\<bar> = dval (z_dig z)"
  by (simp add: mpz_val_def sval_def)

lemma neg_pos: "mpz_ok z \<Longrightarrow> z_neg z \<longrightarrow> 0 < dval (z_dig z)"
  using dval_zero_iff [of "z_dig z"] dval_nonneg [of "z_dig z"] by (auto simp: mpz_ok_def order_less_le simp del: dval_nonneg)

text \<open>Equal values are equal digits and signs.\<close>

lemma mpz_val_inj:
  assumes "mpz_ok a" "mpz_ok b" "mpz_val a = mpz_val b"
  shows "z_dig a = z_dig b \<and> z_neg a = z_neg b"
proof -
  have "dval (z_dig a) = dval (z_dig b)" using assms(3) abs_mpz_val [of a] abs_mpz_val [of b] by simp
  then have "z_dig a = z_dig b" using dval_inj assms(1,2) by (simp add: mpz_ok_def)
  then show ?thesis using mpz_neg_iff [OF assms(1)] mpz_neg_iff [OF assms(2)] assms(3) by simp
qed

lemma gives_digits:
  assumes "\<not> z_fixed_dig d" "length ds \<le> z_alloc d" "normalised ds" "ng \<longrightarrow> ds \<noteq> []" "sval ng ds = v"
  shows "gives mem v (Some (d\<lparr>z_dig := ds, z_neg := ng\<rparr>))" "gives mem v (Some (d\<lparr>z_neg := ng, z_dig := ds\<rparr>))"
  using assms by (simp_all add: is_int_def mpz_ok_def mpz_val_def)

section \<open>Setting\<close>

lemma mpz_set_ok:
  assumes "mpz_ok src" "\<not> z_fixed_dig dest"
  shows "gives mem (mpz_val src) (mpz_set mem dest src)"
  unfolding mpz_set_def
  by (rule yields_need [OF assms(2)], rule gives_digits) (use assms(1) in \<open>simp_all add: mpz_ok_def mpz_val_def\<close>)

lemma word_digits_ok:
  fixes v :: "'a::len word"
  shows "normalised (word_digits v) \<and> dval (word_digits v) = uint v \<and> (word_digits v = [] \<longleftrightarrow> v = 0)"
proof (induction v rule: word_digits.induct)
  case (1 v)
  show ?case
  proof (cases "v = 0")
    case True
    then show ?thesis by (simp add: word_digits.simps)
  next
    case False
    let ?r = "word_digits (drop_bit DIG_SIZE v)"
    note ih = 1 [OF False]
    have u: "uint (drop_bit DIG_SIZE v) = uint v div 65536"
    proof -
      have "take_bit LENGTH('a) (uint v) = uint v" by (rule take_bit_int_eq_self) (use uint_lt2p [of v] in simp_all)
      then have "uint (drop_bit DIG_SIZE v) = drop_bit DIG_SIZE (uint v)" by (simp only: unsigned_drop_bit_eq)
      also have "\<dots> = uint v div 65536" by (simp add: drop_bit_eq_div)
      finally show ?thesis .
    qed
    have d: "uint (ucast v :: u16) = uint v mod 65536" by (simp add: unsigned_ucast_eq take_bit_eq_mod)
    have "dval (word_digits v) = uint v mod 65536 + 65536 * (uint v div 65536)"
      using ih False u d by (subst word_digits.simps) simp
    then have val: "dval (word_digits v) = uint v" by simp
    have "normalised (word_digits v)"
    proof (cases "?r = []")
      case True
      then have "uint v div 65536 = 0" using ih u by simp
      then have "(ucast v :: u16) \<noteq> 0" using d False by (metis add_0 mult_zero_right mult_div_mod_eq uint_0_iff)
      then show ?thesis using True False by (subst word_digits.simps) (simp add: normalised_def)
    next
      case ne: False
      then have "last ?r \<noteq> 0" using ih by (auto simp: normalised_def)
      then show ?thesis using ne False by (subst word_digits.simps) (simp add: normalised_def)
    qed
    then show ?thesis using val False by (subst (2) word_digits.simps) simp
  qed
qed

lemma word_digits_length:
  fixes v :: "'a::len word"
  assumes "LENGTH('a) \<le> 16 * n"
  shows "length (word_digits v) \<le> n"
proof (rule normalised_length)
  show "normalised (word_digits v)" using word_digits_ok [of v] by simp
  have "uint v < 2 ^ LENGTH('a)" by (rule uint_lt2p)
  also have "\<dots> \<le> 2 ^ (16 * n)" by (rule power_increasing) (use assms in simp_all)
  finally show "dval (word_digits v) < 65536 ^ n" using word_digits_ok [of v] by (simp add: power_mult)
qed

lemma sval_word:
  fixes v :: "'a::len word"
  shows "sval (v <s 0) (word_digits (if v <s 0 then - v else v)) = sint v"
proof -
  have p: "(2 :: int) ^ (LENGTH('a) - 1) < 2 ^ LENGTH('a)" by (rule power_strict_increasing) simp_all
  have r: "- (2 ^ (LENGTH('a) - 1)) \<le> sint v" "sint v < 2 ^ (LENGTH('a) - 1)"
    using sint_greater_eq [of v] sint_less [of v] by simp_all
  have w: "uint (word_of_int k :: 'a word) = k" if "0 \<le> k" "k < 2 ^ LENGTH('a)" for k
    using that by (simp add: uint_word_of_int)
  show ?thesis
  proof (cases "v <s 0")
    case True
    then have "sint v < 0" by (simp add: word_sless_alt)
    moreover have "- v = word_of_int (- sint v)" by simp
    ultimately have "uint (- v) = - sint v" using w [of "- sint v"] r p by simp
    then show ?thesis using True word_digits_ok [of "- v"] by simp
  next
    case False
    then have "0 \<le> sint v" by (simp add: word_sless_alt)
    moreover have "v = word_of_int (sint v)" by simp
    ultimately have "uint v = sint v" using w [of "sint v"] r p by simp
    then show ?thesis using False word_digits_ok [of v] by simp
  qed
qed

lemma mpz_set_from_int_ok:
  assumes "\<not> z_fixed_dig z"
  shows "gives mem (sint v) (mpz_set_from_int mem z v)"
proof (cases "v = 0")
  case True
  then show ?thesis using assms by (simp add: mpz_set_from_int_def is_int_def mpz_ok_def mpz_val_def)
next
  case False
  then show ?thesis
    unfolding mpz_set_from_int_def if_not_P [OF False]
    using word_digits_ok [of v] word_digits_ok [of "- v"] word_digits_length [of 2 v] word_digits_length [of 2 "- v"]
    by (intro yields_need [OF assms] gives_digits sval_word) (auto simp: MPZ_NUM_DIG_FOR_INT_def)
qed

section \<open>Comparison, sign, complement\<close>

lemma mpz_cmp_ok:
  assumes "mpz_ok a" "mpz_ok b"
  shows "mpz_cmp a b = sgn (mpz_val a - mpz_val b)"
proof -
  have c: "mpn_cmp (z_dig a) (z_dig b) = sgn (dval (z_dig a) - dval (z_dig b))"
    using assms by (intro mpn_cmp_ok) (simp_all add: mpz_ok_def)
  show ?thesis
    using neg_pos [OF assms(1)] neg_pos [OF assms(2)] dval_nonneg [of "z_dig a"] dval_nonneg [of "z_dig b"]
    by (auto simp: mpz_cmp_def c mpz_val_def sval_def Let_def sgn_if simp del: dval_nonneg)
qed

lemma set_unless_ok:
  assumes "mpz_ok z" "\<not> z_fixed_dig dest" "same \<longrightarrow> dest = z"
  shows "gives mem (mpz_val z) (set_unless mem same dest z)"
proof (cases same)
  case True
  then show ?thesis using assms by (simp add: set_unless_def is_int_def)
next
  case False
  then show ?thesis using mpz_set_ok [OF assms(1,2)] by (simp add: set_unless_def)
qed

lemma mpz_abs_ok:
  assumes "mpz_ok z" "\<not> z_fixed_dig dest" "same \<longrightarrow> dest = z"
  shows "gives mem \<bar>mpz_val z\<bar> (mpz_abs_inpl mem same dest z)"
  unfolding mpz_abs_inpl_def
  by (rule yields_bind [OF set_unless_ok [OF assms]], drule is_int_def [THEN iffD1])
     (simp add: is_int_def mpz_ok_def mpz_val_def [of "_\<lparr>z_neg := _\<rparr>"] flip: abs_mpz_val)

lemma mpz_neg_ok:
  assumes "mpz_ok z" "\<not> z_fixed_dig dest" "same \<longrightarrow> dest = z"
  shows "gives mem (- mpz_val z) (mpz_neg_inpl mem same dest z)"
  unfolding mpz_neg_inpl_def
  by (rule yields_bind [OF set_unless_ok [OF assms]], drule is_int_def [THEN iffD1])
     (auto simp: is_int_def mpz_ok_def mpz_val_def [of "_\<lparr>z_neg := _\<rparr>"] sval_def mpz_val_def split: if_splits)

lemma one_digit [simp]: "dval [1] = 1" "normalised [1]"
  by (simp_all add: normalised_def)

lemma length_by_value: "normalised ds \<Longrightarrow> 1 \<le> dval ds \<Longrightarrow> 1 \<le> length ds"
  by (cases ds) simp_all

lemma mpz_not_ok:
  assumes "mpz_ok z" "\<not> z_fixed_dig dest" "same \<longrightarrow> dest = z"
  shows "gives mem (NOT (mpz_val z)) (mpz_not_inpl mem same dest z)"
  unfolding mpz_not_inpl_def
proof (rule yields_bind [OF set_unless_ok [OF assms]])
  fix d
  assume "is_int (mpz_val z) d"
  then have d: "mpz_ok d" "\<not> z_fixed_dig d" "mpz_val d = mpz_val z" by (rule is_intD)+
  have nd: "normalised (z_dig d)" using d(1) by (simp add: mpz_ok_def)
  consider "z_dig d = []" | "z_dig d \<noteq> []" "z_neg d" | "z_dig d \<noteq> []" "\<not> z_neg d" by blast
  then show "gives mem (NOT (mpz_val z)) (if z_dig d = [] then do {
       d1 \<leftarrow> mpz_need_dig mem d 1;
       Some (d1\<lparr>z_dig := [1], z_neg := True\<rparr>) }
     else if z_neg d then Some (d\<lparr>z_neg := False, z_dig := mpn_sub (z_dig d) [1]\<rparr>)
     else do {
       d1 \<leftarrow> mpz_need_dig mem d (z_len d + 1);
       Some (d1\<lparr>z_dig := mpn_add (z_dig d1) [1], z_neg := True\<rparr>) })"
  proof cases
    case 1
    then have "mpz_val z = 0" using mpz_val_zero_iff [OF d(1)] d(3) by simp
    then show ?thesis unfolding if_P [OF 1]
      by (intro yields_need [OF d(2)] gives_digits) simp_all
  next
    case 2
    then have l: "length [1 :: u16] \<le> z_len d" "dval [1] \<le> dval (z_dig d)" using neg_pos [OF d(1)] by (cases "z_dig d"; simp)+
    note s = mpn_sub_ok [OF l]
    have "gives mem (NOT (mpz_val z)) (Some (d\<lparr>z_neg := False, z_dig := mpn_sub (z_dig d) [1]\<rparr>))"
      by (rule gives_digits) (use s d 2 in \<open>simp_all add: mpz_ok_def mpz_val_def not_int_def\<close>)
    then show ?thesis using 2 by simp
  next
    case 3
    then have l: "length [1 :: u16] \<le> z_len d" by (cases "z_dig d") simp_all
    note a = mpn_add_ok [OF nd l one_digit(2)]
    have ne: "mpn_add (z_dig d) [1] \<noteq> []" using a(1) dval_nonneg [of "z_dig d"] by (auto simp del: dval_nonneg)
    have "gives mem (NOT (mpz_val z)) (mpz_need_dig mem d (z_len d + 1) \<bind> (\<lambda>d1. Some (d1\<lparr>z_dig := mpn_add (z_dig d1) [1], z_neg := True\<rparr>)))"
      by (rule yields_need [OF d(2)], rule gives_digits)
        (use a ne d 3 in \<open>simp_all add: mpz_val_def not_int_def\<close>)
    then show ?thesis using 3 by simp
  qed
qed

section \<open>Addition and subtraction\<close>

lemma magnitude_length:
  assumes "normalised j" "normalised k" "dval k \<le> dval j"
  shows "length k \<le> length j"
  using dval_shorter [of j k] assms by (cases "length j < length k") auto

lemma larger_first_ok:
  assumes "mpz_ok a" "mpz_ok b" "larger_first a b = (l, r)"
  shows "mpz_ok l" "mpz_ok r" "dval (z_dig r) \<le> dval (z_dig l)" "z_len r \<le> z_len l"
    "(l, r) = (if dval (z_dig a) < dval (z_dig b) then (b, a) else (a, b))"
    "mpn_cmp (z_dig a) (z_dig b) < 0 \<longleftrightarrow> dval (z_dig a) < dval (z_dig b)"
proof -
  have c: "mpn_cmp (z_dig a) (z_dig b) = sgn (dval (z_dig a) - dval (z_dig b))"
    using assms by (intro mpn_cmp_ok) (simp_all add: mpz_ok_def)
  show cc: "mpn_cmp (z_dig a) (z_dig b) < 0 \<longleftrightarrow> dval (z_dig a) < dval (z_dig b)" unfolding c by (simp add: sgn_if)
  show e: "(l, r) = (if dval (z_dig a) < dval (z_dig b) then (b, a) else (a, b))"
    using assms(3) cc by (simp add: larger_first_def split: if_splits)
  then show ok: "mpz_ok l" "mpz_ok r" "dval (z_dig r) \<le> dval (z_dig l)" using assms(1,2) by (auto split: if_splits)
  then show "z_len r \<le> z_len l" by (intro magnitude_length) (simp_all add: mpz_ok_def)
qed

text \<open>The two branches that addition and subtraction share: the magnitudes are added or subtracted.\<close>

lemma magnitude_op_ok:
  assumes "mpz_ok l" "mpz_ok r" "dval (z_dig r) \<le> dval (z_dig l)" "z_len r \<le> z_len l" "\<not> z_fixed_dig dest"
    and "sval ng ds = v" "ng \<longrightarrow> ds \<noteq> []"
    and "ds = (if pl then mpn_add (z_dig l) (z_dig r) else mpn_sub (z_dig l) (z_dig r))" "f ds = ng"
  shows "gives mem v (do {
      d \<leftarrow> (if pl then do {
             d \<leftarrow> mpz_need_dig mem dest (z_len l + 1);
             Some (d\<lparr>z_dig := mpn_add (z_dig l) (z_dig r)\<rparr>) }
           else do {
             d \<leftarrow> mpz_need_dig mem dest (z_len l);
             Some (d\<lparr>z_dig := mpn_sub (z_dig l) (z_dig r)\<rparr>) });
      Some (d\<lparr>z_neg := f (z_dig d)\<rparr>) })"
proof -
  have n: "normalised (z_dig l)" "normalised (z_dig r)" using assms(1,2) by (simp_all add: mpz_ok_def)
  note a = mpn_add_ok [OF n(1) assms(4) n(2)] and s = mpn_sub_ok [OF assms(4,3)]
  show ?thesis
  proof (cases pl)
    case True
    have "gives mem v (mpz_need_dig mem dest (z_len l + 1) \<bind> (\<lambda>d. Some (d\<lparr>z_dig := ds, z_neg := ng\<rparr>)))"
      by (intro yields_need [OF assms(5)] gives_digits) (use assms(6-8) a True in simp_all)
    then show ?thesis using True assms(8,9) by simp
  next
    case False
    have "gives mem v (mpz_need_dig mem dest (z_len l) \<bind> (\<lambda>d. Some (d\<lparr>z_dig := ds, z_neg := ng\<rparr>)))"
      by (intro yields_need [OF assms(5)] gives_digits) (use assms(6-8) s False in simp_all)
    then show ?thesis using False assms(8,9) by simp
  qed
qed

lemma mpz_add_ok:
  assumes "mpz_ok a" "mpz_ok b" "\<not> z_fixed_dig dest"
  shows "gives mem (mpz_val a + mpz_val b) (mpz_add_inpl mem dest a b)"
proof -
  obtain l r where lr: "larger_first a b = (l, r)" by (metis surj_pair)
  note o = larger_first_ok [OF assms(1,2) lr]
  have n: "normalised (z_dig l)" "normalised (z_dig r)" using o(1,2) by (simp_all add: mpz_ok_def)
  let ?pl = "z_neg l = z_neg r"
  let ?ds = "if ?pl then mpn_add (z_dig l) (z_dig r) else mpn_sub (z_dig l) (z_dig r)"
  let ?f = "\<lambda>ds. z_neg l \<and> ds \<noteq> ([] :: u16 list)"
  note m = magnitude_op_ok [OF o(1-4) assms(3), where f = ?f and pl = ?pl and ds = ?ds and ng = "?f ?ds" and mem = mem]
  have v: "sval (?f ?ds) ?ds = mpz_val a + mpz_val b"
  proof -
    have e: "mpz_val a + mpz_val b = mpz_val l + mpz_val r" using o(5) by (simp split: if_splits)
    have z: "dval ?ds = (if ?pl then dval (z_dig l) + dval (z_dig r) else dval (z_dig l) - dval (z_dig r))"
      using mpn_add_ok(1) [OF n(1) o(4) n(2)] mpn_sub_ok(1) [OF o(4,3)] by simp
    have "sval (?f ds) ds = sval (z_neg l) ds" for ds by (simp add: sval_def)
    then show ?thesis unfolding e using z by (simp add: mpz_val_def sval_def split: if_splits)
  qed
  show ?thesis unfolding mpz_add_inpl_def lr prod.case by (rule m [OF v]) simp_all
qed

lemma mpz_sub_ok:
  assumes "mpz_ok a" "mpz_ok b" "\<not> z_fixed_dig dest"
  shows "gives mem (mpz_val a - mpz_val b) (mpz_sub_inpl mem dest a b)"
proof -
  obtain l r where lr: "larger_first a b = (l, r)" by (metis surj_pair)
  note o = larger_first_ok [OF assms(1,2) lr]
  have n: "normalised (z_dig l)" "normalised (z_dig r)" using o(1,2) by (simp_all add: mpz_ok_def)
  let ?pl = "z_neg l \<noteq> z_neg r" and ?sw = "mpn_cmp (z_dig a) (z_dig b) < 0"
  let ?ds = "if ?pl then mpn_add (z_dig l) (z_dig r) else mpn_sub (z_dig l) (z_dig r)"
  let ?f = "\<lambda>ds. if ds = ([] :: u16 list) then False else if ?sw then \<not> z_neg l else z_neg l"
  note m = magnitude_op_ok [OF o(1-4) assms(3), where f = ?f and pl = ?pl and ds = ?ds and ng = "?f ?ds" and mem = mem]
  have v: "sval (?f ?ds) ?ds = mpz_val a - mpz_val b"
  proof -
    have e: "mpz_val a - mpz_val b = (if ?sw then mpz_val r - mpz_val l else mpz_val l - mpz_val r)"
      using o(5,6) by (simp split: if_splits)
    have z: "dval ?ds = (if ?pl then dval (z_dig l) + dval (z_dig r) else dval (z_dig l) - dval (z_dig r))"
      using mpn_add_ok(1) [OF n(1) o(4) n(2)] mpn_sub_ok(1) [OF o(4,3)] by simp
    have "sval (?f ds) ds = sval (if ?sw then \<not> z_neg l else z_neg l) ds" for ds by (simp add: sval_def)
    then show ?thesis unfolding e using z by (simp add: mpz_val_def sval_def split: if_splits)
  qed
  show ?thesis unfolding mpz_sub_inpl_def lr prod.case Let_def by (rule m [OF v]) simp_all
qed

section \<open>Bitwise operations\<close>

lemma longer_first_ok:
  assumes "mpz_ok a" "mpz_ok b" "longer_first a b = (l, r)"
  shows "mpz_ok l" "mpz_ok r" "z_len r \<le> z_len l" "(l, r) = (a, b) \<or> (l, r) = (b, a)"
  using assms by (auto simp: longer_first_def split: if_splits)

lemma neg_nonempty: "sval True ds < 0 \<Longrightarrow> ds \<noteq> []"
  by auto

lemma mpz_and_ok:
  assumes "mpz_ok a" "mpz_ok b" "\<not> z_fixed_dig dest"
  shows "gives mem (mpz_val a AND mpz_val b) (mpz_and_inpl mem dest a b)"
proof -
  obtain l r where lr: "longer_first a b = (l, r)" by (metis surj_pair)
  note o = longer_first_ok [OF assms(1,2) lr]
  have e: "mpz_val a AND mpz_val b = mpz_val l AND mpz_val r" using o(4) by (auto simp: and.commute)
  show ?thesis
  proof (cases "\<not> z_neg l \<and> \<not> z_neg r")
    case True
    note x = mpn_and_ok [of "z_dig l" "z_dig r"]
    show ?thesis unfolding mpz_and_inpl_def lr prod.case if_P [OF True] e
      by (intro yields_need [OF assms(3)] gives_digits) (use x True in \<open>simp_all add: mpz_val_def\<close>)
  next
    case False
    then have s: "z_neg l \<or> z_neg r" by simp
    note x = mpn_and_neg_ok [OF o(3) s neg_pos [OF o(1)] neg_pos [OF o(2)]]
    have "mpn_and_neg (z_dig l) (z_dig r) (of_bool (z_neg l = z_neg r)) (of_bool (z_neg l)) (of_bool (z_neg r)) \<noteq> []"
      if "z_neg l \<and> z_neg r"
    proof (rule neg_nonempty)
      have "mpz_val l < 0" "mpz_val r < 0" using that mpz_neg_iff o(1,2) by simp_all
      then show "sval True (mpn_and_neg (z_dig l) (z_dig r) (of_bool (z_neg l = z_neg r)) (of_bool (z_neg l)) (of_bool (z_neg r))) < 0"
        using x that by (simp add: mpz_val_def)
    qed
    then show ?thesis unfolding mpz_and_inpl_def lr prod.case if_not_P [OF False] e
      by (intro yields_need [OF assms(3)] gives_digits) (use x in \<open>simp_all add: mpz_val_def\<close>)
  qed
qed

lemma mpz_or_ok:
  assumes "mpz_ok a" "mpz_ok b" "\<not> z_fixed_dig dest"
  shows "gives mem (mpz_val a OR mpz_val b) (mpz_or_inpl mem dest a b)"
proof -
  obtain l r where lr: "longer_first a b = (l, r)" by (metis surj_pair)
  note o = longer_first_ok [OF assms(1,2) lr]
  have n: "normalised (z_dig l)" "normalised (z_dig r)" using o(1,2) by (simp_all add: mpz_ok_def)
  have e: "mpz_val a OR mpz_val b = mpz_val l OR mpz_val r" using o(4) by (auto simp: or.commute)
  show ?thesis
  proof (cases "\<not> z_neg l \<and> \<not> z_neg r")
    case True
    note x = mpn_or_ok [OF o(3) n]
    show ?thesis unfolding mpz_or_inpl_def lr prod.case if_P [OF True] e
      by (intro yields_need [OF assms(3)] gives_digits) (use x True in \<open>simp_all add: mpz_val_def\<close>)
  next
    case False
    then have s: "z_neg l \<or> z_neg r" by simp
    note x = mpn_or_neg_ok [OF o(3) s neg_pos [OF o(1)] neg_pos [OF o(2)]]
    have "mpz_val l OR mpz_val r < 0" using s mpz_neg_iff [OF o(1)] mpz_neg_iff [OF o(2)] by auto
    then have "mpn_or_neg (z_dig l) (z_dig r) (of_bool (z_neg l)) (of_bool (z_neg r)) \<noteq> []"
      using x by (intro neg_nonempty) (simp add: mpz_val_def)
    then show ?thesis unfolding mpz_or_inpl_def lr prod.case if_not_P [OF False] e
      by (intro yields_need [OF assms(3)] gives_digits) (use x in \<open>simp_all add: mpz_val_def\<close>)
  qed
qed

lemma mpz_xor_ok:
  assumes "mpz_ok a" "mpz_ok b" "\<not> z_fixed_dig dest"
  shows "gives mem (mpz_val a XOR mpz_val b) (mpz_xor_inpl mem dest a b)"
proof -
  obtain l r where lr: "longer_first a b = (l, r)" by (metis surj_pair)
  note o = longer_first_ok [OF assms(1,2) lr]
  have e: "mpz_val a XOR mpz_val b = mpz_val l XOR mpz_val r" using o(4) by (auto simp: xor.commute)
  show ?thesis
  proof (cases "\<not> z_neg l \<and> \<not> z_neg r")
    case True
    note x = mpn_xor_ok [OF o(3)]
    have same: "z_neg l = z_neg r" using True by simp
    show ?thesis unfolding mpz_xor_inpl_def lr prod.case if_P [OF same] e
      by (intro yields_need [OF assms(3)] gives_digits) (use x True in \<open>simp_all add: mpz_val_def\<close>)
  next
    case False
    then have s: "z_neg l \<or> z_neg r" by simp
    note x = mpn_xor_neg_ok [OF o(3) s neg_pos [OF o(1)] neg_pos [OF o(2)]]
    show ?thesis
    proof (cases "z_neg l = z_neg r")
      case True
      then show ?thesis unfolding mpz_xor_inpl_def lr prod.case if_P [OF True] e
        by (intro yields_need [OF assms(3)] gives_digits) (use x s in \<open>simp_all add: mpz_val_def\<close>)
    next
      case ne: False
      have "mpz_val l XOR mpz_val r < 0" using ne mpz_neg_iff [OF o(1)] mpz_neg_iff [OF o(2)] by (auto simp: xor_negative_int_iff)
      then have "mpn_xor_neg (z_dig l) (z_dig r) 1 (of_bool (\<not> z_neg l)) (of_bool (\<not> z_neg r)) \<noteq> []"
        using x ne by (intro neg_nonempty) (simp add: mpz_val_def)
      then show ?thesis unfolding mpz_xor_inpl_def lr prod.case if_not_P [OF ne] e
        by (intro yields_need [OF assms(3)] gives_digits) (use x ne in \<open>simp_all add: mpz_val_def\<close>)
    qed
  qed
qed

end
