(* ===== verification/MpzArith.thy ===== *)
theory MpzArith
  imports MpzCorrect
begin

text \<open>
  Shifts, multiplication, division with the rounding of Python, and powers, on the values.
\<close>

section \<open>Shifts\<close>

lemma mpz_shl_ok:
  assumes "mpz_ok z" "\<not> z_fixed_dig dest" "unat n < 4294967281"
  shows "gives mem (mpz_val z * 2 ^ unat n) (mpz_shl_inpl mem dest z n)"
proof (cases "z_len z = 0 \<or> n = 0")
  case True
  have v: "mpz_val z * 2 ^ unat n = mpz_val z" using True by (auto simp: mpz_val_def sval_def)
  show ?thesis unfolding mpz_shl_inpl_def if_P [OF True] v by (rule mpz_set_ok [OF assms(1,2)])
next
  case False
  then have n: "0 < unat n" "z_dig z \<noteq> []" by (simp_all add: unat_gt_0)
  have nz: "normalised (z_dig z)" using assms(1) by (simp add: mpz_ok_def)
  note s = mpn_shl_ok [OF nz n(1) assms(3)]
  have "dval (mpn_shl (z_dig z) n) \<noteq> 0" using s(1) dval_zero_iff [OF nz] n(2) by simp
  then have "mpn_shl (z_dig z) n \<noteq> []" by auto
  then show ?thesis unfolding mpz_shl_inpl_def if_not_P [OF False]
    by (intro yields_need [OF assms(2)] gives_digits) (use s in \<open>simp_all add: mpz_val_def sval_def\<close>)
qed

text \<open>The rounding test: a bit that is shifted out is set.\<close>

lemma low_bits_set: "(d AND (push_bit p 1 - 1) \<noteq> (0 :: u16)) = (uint d mod 2 ^ p \<noteq> 0)"
proof -
  have m: "push_bit p 1 - 1 = (mask p :: u16)" by (simp add: mask_eq_exp_minus_1)
  show ?thesis unfolding m using and_mask_dvd [of p d] by (simp add: dvd_eq_mod_eq_0)
qed

lemma dval_zero_all: "dval ds = 0 \<longleftrightarrow> \<not> list_ex (\<lambda>d. d \<noteq> 0) ds"
proof (induction ds)
  case (Cons d ds)
  have "dval (d # ds) = 0 \<longleftrightarrow> uint d = 0 \<and> dval ds = 0"
    using uint16(1) [of d] dval_nonneg [of ds] by (simp add: add_nonneg_eq_0_iff del: dval_nonneg)
  then show ?case using Cons by (simp add: uint_0_iff)
qed simp

lemma mod_digit_power:
  fixes a b :: int
  assumes "0 \<le> a" "a < 65536 ^ w"
  shows "(a + 65536 ^ w * b) mod (65536 ^ w * 2 ^ p) = a + 65536 ^ w * (b mod 2 ^ p)"
proof -
  have "(a + 65536 ^ w * b) mod (65536 ^ w * 2 ^ p) = 65536 ^ w * ((a + 65536 ^ w * b) div 65536 ^ w mod 2 ^ p) + (a + 65536 ^ w * b) mod 65536 ^ w"
    by (rule zmod_zmult2_eq) simp
  then show ?thesis using assms by simp
qed

lemma shr_round_up_ok: "shr_round_up ds n \<longleftrightarrow> dval ds mod 2 ^ unat n \<noteq> 0"
proof -
  define w where "w = unat (n div 16)"
  define p where "p = unat (n mod 16)"
  have p16: "p < 16" by (simp add: p_def unat_div_mod)
  have wp: "unat n = 16 * w + p" by (simp add: w_def p_def unat_div unat_mod)
  have low: "0 \<le> dval (take w ds)" "dval (take w ds) < 65536 ^ w"
    using less_le_trans [OF dval_less [of "take w ds"] power_increasing [of "length (take w ds)" w "65536 :: int"]] by simp_all
  have r: "shr_round_up ds n \<longleftrightarrow> dval (take w ds) \<noteq> 0 \<or> w < length ds \<and> uint (ds ! w) mod 2 ^ p \<noteq> 0"
    by (simp only: shr_round_up_def Let_def w_def [symmetric] p_def [symmetric] low_bits_set dval_zero_all not_not)
  show ?thesis
  proof (cases "w < length ds")
    case False
    have "(65536 :: int) ^ w \<le> 65536 ^ w * 2 ^ p" by simp
    moreover have "dval ds < 65536 ^ w" using low(2) False by simp
    ultimately have "dval ds < 65536 ^ w * 2 ^ p" by linarith
    then have "dval ds mod 2 ^ unat n = dval ds" unfolding wp power_split by (intro mod_pos_pos_trivial) simp_all
    then show ?thesis using r False by simp
  next
    case True
    have h: "dval (drop w ds) = uint (ds ! w) + 65536 * dval (drop (Suc w) ds)"
      using Cons_nth_drop_Suc [OF True] by (metis dval_simps(2))
    have q: "(65536 :: int) = 2 ^ p * 2 ^ (16 - p)" using two_powers [of p] p16 by simp
    have "dval (drop w ds) mod 2 ^ p = uint (ds ! w) mod 2 ^ p" unfolding h by (subst q) (simp only: mult.assoc mod_mult_self2)
    moreover have "dval ds = dval (take w ds) + 65536 ^ w * dval (drop w ds)"
      using dval_append [of "take w ds" "drop w ds"] True by simp
    ultimately have "dval ds mod 2 ^ unat n = dval (take w ds) + 65536 ^ w * (uint (ds ! w) mod 2 ^ p)"
      unfolding wp power_split by (simp only: mod_digit_power [OF low])
    moreover have "0 \<le> uint (ds ! w) mod 2 ^ p" by simp
    ultimately show ?thesis using r True low(1)
      by (simp add: add_nonneg_eq_0_iff)
  qed
qed

lemma neg_div:
  fixes a c :: int
  assumes "0 < c"
  shows "- a div c = - (a div c + of_bool (a mod c \<noteq> 0))"
  using assms by (simp add: zdiv_zminus1_eq_if)

lemma mpz_shr_ok:
  assumes "mpz_ok z" "\<not> z_fixed_dig dest"
  shows "gives mem (mpz_val z div 2 ^ unat n) (mpz_shr_inpl mem False dest z n)"
proof (cases "z_len z = 0 \<or> n = 0")
  case True
  have v: "mpz_val z div 2 ^ unat n = mpz_val z" using True by (auto simp: mpz_val_def sval_def)
  show ?thesis unfolding mpz_shr_inpl_def if_P [OF True] v by (rule mpz_set_ok [OF assms(1,2)])
next
  case False
  then have n: "0 < unat n" "z_dig z \<noteq> []" by (simp_all add: unat_gt_0)
  have nz: "normalised (z_dig z)" using assms(1) by (simp add: mpz_ok_def)
  let ?i = "mpn_shr (z_dig z) n" and ?D = "dval (z_dig z)" and ?p = "2 ^ unat n :: int"
  let ?up = "z_neg z \<and> shr_round_up (z_dig z) n"
  let ?ds = "if ?up then if ?i = [] then [1] else mpn_add ?i [1] else ?i"
  note s = mpn_shr_ok [OF nz, of n]
  have add: "dval (if ?i = [] then [1] else mpn_add ?i [1]) = ?D div ?p + 1 \<and>
    normalised (if ?i = [] then [1] else mpn_add ?i [1])"
  proof (cases "?i = []")
    case True
    then have "?D div ?p = 0" using s(1) by simp
    then show ?thesis using True by simp
  next
    case False
    then have "length [1 :: u16] \<le> length ?i" by (cases ?i) simp_all
    then show ?thesis using mpn_add_ok [OF s(2) _ one_digit(2)] s(1) False by simp
  qed
  have ds: "normalised ?ds" "dval ?ds = ?D div ?p + of_bool ?up" using add s by simp_all
  have "dval ?ds < 65536 ^ z_len z"
  proof -
    have D1: "1 \<le> ?D" using dval_zero_iff [OF nz] dval_nonneg [of "z_dig z"] n(2) by (simp add: order_less_le del: dval_nonneg)
    have "(2 :: int) ^ 1 \<le> ?p" by (rule power_increasing) (use n(1) in simp_all)
    then have "?D div ?p \<le> ?D div 2" by (intro zdiv_mono2) simp_all
    then have "?D div ?p + 1 \<le> ?D" using D1 mult_div_mod_eq [of 2 ?D] pos_mod_sign [of 2 ?D] by linarith
    then show ?thesis using ds(2) dval_less [of "z_dig z"] by (simp split: if_splits)
  qed
  then have len: "length ?ds \<le> z_len z" by (rule normalised_length [OF ds(1)])
  have val: "sval (z_neg z) ?ds = mpz_val z div ?p"
  proof (cases "z_neg z")
    case True
    have "- dval ?ds = - ?D div ?p" unfolding ds(2) neg_div [of ?p ?D, simplified] using True by (simp add: shr_round_up_ok)
    then show ?thesis using True by (simp only: mpz_val_def sval_def if_True)
  next
    case False
    then show ?thesis unfolding mpz_val_def sval_def ds(2) by simp
  qed
  have ne: "z_neg z \<longrightarrow> ?ds \<noteq> []"
  proof
    assume ng: "z_neg z"
    then have "mpz_val z < 0" using mpz_neg_iff [OF assms(1)] by simp
    then have "mpz_val z div ?p < 0" by (simp add: pos_imp_zdiv_neg_iff)
    then have neg: "sval (z_neg z) ?ds < 0" unfolding val .
    show "?ds \<noteq> []"
    proof
      assume "?ds = []"
      then have "sval (z_neg z) ?ds = 0" by (simp only: sval_def dval_simps minus_zero if_cancel)
      then show False using neg by linarith
    qed
  qed
  have "gives mem (mpz_val z div ?p) (mpz_need_dig mem dest (z_len z) \<bind> (\<lambda>d. Some (d\<lparr>z_dig := ?ds, z_neg := z_neg z\<rparr>)))"
    by (intro yields_need [OF assms(2)] gives_digits) (use ds len val ne in \<open>simp_all del: if_split\<close>)
  moreover have "mpz_shr_inpl mem False dest z n = mpz_need_dig mem dest (z_len z) \<bind> (\<lambda>d. Some (d\<lparr>z_dig := ?ds, z_neg := z_neg z\<rparr>))"
    unfolding mpz_shr_inpl_def if_not_P [OF False] by (rule arg_cong [of _ _ "Option.bind _"], rule ext) (simp add: Let_def)
  ultimately show ?thesis by simp
qed

section \<open>Multiplication\<close>

lemma mpz_set_zero_ok: "\<not> z_fixed_dig dest \<Longrightarrow> gives mem 0 (mpz_set_from_int mem dest 0)"
  using mpz_set_from_int_ok [of dest mem 0] by simp

lemma yields_clone_if:
  assumes "mpz_ok z" "z_dig z \<noteq> []"
    and "\<And>c. mpz_ok c \<Longrightarrow> z_dig c = z_dig z \<Longrightarrow> z_neg c = z_neg z \<Longrightarrow> yields mem P (f c)"
  shows "yields mem P ((if b then mpz_clone mem z else Some z) \<bind> f)"
proof (cases b)
  case True
  have "yields mem P (mpz_clone mem z \<bind> f)" by (rule yields_clone [OF assms(1,2)]) (rule assms(3))
  then show ?thesis using True by simp
next
  case False
  then show ?thesis using assms(3) [OF assms(1)] by simp
qed

lemma sval_mult: "sval (a \<noteq> b) ds = sval a xs * sval b ys" if "dval ds = dval xs * dval ys"
  using that by (simp add: sval_def)

lemma mpz_mul_ok:
  assumes "mpz_ok a" "mpz_ok b" "\<not> z_fixed_dig dest" "ls \<longrightarrow> dest = a" "rs \<longrightarrow> dest = b"
  shows "gives mem (mpz_val a * mpz_val b) (mpz_mul_inpl mem ls rs dest a b)"
proof (cases "z_len a = 0 \<or> z_len b = 0")
  case True
  have v: "mpz_val a * mpz_val b = 0" using True by (auto simp: mpz_val_def sval_def)
  show ?thesis unfolding mpz_mul_inpl_def if_P [OF True] v by (rule mpz_set_zero_ok [OF assms(3)])
next
  case False
  then have ne: "z_dig a \<noteq> []" "z_dig b \<noteq> []" by simp_all
  have fin: "gives mem (mpz_val a * mpz_val b) (mpz_need_dig mem dest (z_len l + z_len r) \<bind>
      (\<lambda>d. Some (d\<lparr>z_dig := mpn_mul (replicate (z_alloc d) 0) (z_dig l) (z_dig r), z_neg := z_neg l \<noteq> z_neg r\<rparr>)))"
    if l: "z_dig l = z_dig a" "z_neg l = z_neg a" and r: "z_dig r = z_dig b" "z_neg r = z_neg b" for l r
  proof (rule yields_need [OF assms(3)])
    fix d :: mpz_t
    assume d: "\<not> z_fixed_dig d" "z_len l + z_len r \<le> z_alloc d"
    have n: "normalised (z_dig a)" "normalised (z_dig b)" using assms(1,2) by (simp_all add: mpz_ok_def)
    have le: "z_len a + z_len b \<le> z_alloc d" using d(2) l r by simp
    note m = mpn_mul_ok [OF n ne le]
    show "gives mem (mpz_val a * mpz_val b)
        (Some (d\<lparr>z_dig := mpn_mul (replicate (z_alloc d) 0) (z_dig l) (z_dig r), z_neg := z_neg l \<noteq> z_neg r\<rparr>))"
      unfolding l r by (rule gives_digits) (use d(1) m le sval_mult [OF m(1)] in \<open>simp_all add: mpz_val_def\<close>)
  qed
  show ?thesis unfolding mpz_mul_inpl_def if_not_P [OF False]
  proof (rule yields_clone_if [OF assms(1) ne(1)])
    fix l
    assume l: "mpz_ok l" "z_dig l = z_dig a" "z_neg l = z_neg a"
    show "gives mem (mpz_val a * mpz_val b) (do {
        rhs \<leftarrow> (if ls then Some (if rs then l else b) else if rs then mpz_clone mem b else Some b);
        d \<leftarrow> mpz_need_dig mem dest (z_len l + z_len rhs);
        Some (d\<lparr>z_dig := mpn_mul (replicate (z_alloc d) 0) (z_dig l) (z_dig rhs), z_neg := z_neg l \<noteq> z_neg rhs\<rparr>) })"
    proof (cases ls)
      case True
      have "z_dig (if rs then l else b) = z_dig b" "z_neg (if rs then l else b) = z_neg b"
        using True l assms(4,5) by auto
      from fin [OF l(2,3) this] show ?thesis using True by simp
    next
      case F: False
      show ?thesis unfolding if_not_P [OF F]
        by (rule yields_clone_if [OF assms(2) ne(2)]) (rule fin [OF l(2,3)])
    qed
  qed
qed

section \<open>Division\<close>

lemma mpz_set_is:
  assumes "mpz_ok src" "\<not> z_fixed_dig dest" "z_len src \<le> z_alloc dest" "2 \<le> z_alloc dest"
  shows "mpz_set mem dest src = Some (dest\<lparr>z_neg := z_neg src, z_dig := z_dig src\<rparr>)"
  using assms by (auto simp: mpz_set_def mpz_need_dig_def MIN_ALLOC_def Let_def)

lemma mpn_div_result:
  assumes "mpz_ok lhs" "mpz_ok rhs" "z_dig rhs \<noteq> []"
  obtains q r where "mpn_div (z_dig lhs) (z_dig rhs) = Some (q, r)" "normalised q" "normalised r"
    "length q \<le> z_len lhs + 1" "length r \<le> z_len lhs"
    "dval q = dval (z_dig lhs) div dval (z_dig rhs)" "dval r = dval (z_dig lhs) mod dval (z_dig rhs)"
  using mpn_div_ok [of "z_dig lhs" "z_dig rhs"] assms by (auto simp: mpz_ok_def)

text \<open>The signs of the quotient and the remainder of the magnitudes, corrected for rounding down.\<close>

lemma floor_division:
  fixes a b :: int
  assumes "0 \<le> a" "0 < b"
  shows "- a div - b = a div b" "- a mod - b = - (a mod b)"
    "a mod b \<noteq> 0 \<Longrightarrow> a div - b = - (a div b) - 1" "a mod b \<noteq> 0 \<Longrightarrow> a mod - b = a mod b - b"
    "a mod b \<noteq> 0 \<Longrightarrow> - a div b = - (a div b) - 1" "a mod b \<noteq> 0 \<Longrightarrow> - a mod b = b - a mod b"
    "a mod b = 0 \<Longrightarrow> a div - b = - (a div b)" "a mod b = 0 \<Longrightarrow> a mod - b = 0"
    "a mod b = 0 \<Longrightarrow> - a div b = - (a div b)" "a mod b = 0 \<Longrightarrow> - a mod b = 0"
  using assms less_imp_neq [OF pos_mod_bound [of b a]]
  by (auto simp: div_minus_right zdiv_zminus1_eq_if zmod_zminus1_eq_if zmod_zminus2_eq_if zdiv_zminus2_eq_if)

lemma is_int_digits:
  assumes "\<not> z_fixed_dig d" "length ds \<le> z_alloc d" "normalised ds" "ng \<longrightarrow> ds \<noteq> []" "sval ng ds = v"
  shows "is_int v (d\<lparr>z_dig := ds, z_neg := ng\<rparr>)" "is_int v (d\<lparr>z_neg := ng, z_dig := ds\<rparr>)"
  using gives_digits [OF assms] by simp_all

lemma mpz_minus_one_ok: "gives mem (- 1) (mpz_init_from_int mem (- 1))"
  using mpz_set_from_int_ok [of mpz_init_zero mem "- 1"] by (simp add: mpz_init_from_int_def)

definition divides_to :: "bool \<Rightarrow> int \<Rightarrow> int \<Rightarrow> mpz_t \<times> mpz_t \<Rightarrow> bool" where
  "divides_to same a b = (\<lambda>(q, r). is_int (a mod b) r \<and> mpz_ok q \<and> \<not> z_fixed_dig q \<and> (same \<or> mpz_val q = a div b))"

lemma python_modulo_ok:
  fixes A :: int
  assumes q: "is_int (A div dval (z_dig rhs)) quo" and r: "is_int (sval lneg (z_dig rem)) rem"
    and rd: "normalised (z_dig rem)" "dval (z_dig rem) = A mod dval (z_dig rhs)"
    and A: "0 \<le> A" and B: "mpz_ok rhs" "0 < dval (z_dig rhs)"
    and l: "lneg' = lneg \<or> same \<and> z_dig rem = []"
  shows "yields mem (divides_to same (if lneg then - A else A) (mpz_val rhs)) (python_modulo mem lneg' quo rem rhs)"
proof -
  let ?B = "dval (z_dig rhs)"
  have B': "mpz_val rhs = (if z_neg rhs then - ?B else ?B)" by (simp add: mpz_val_def sval_def)
  note fl = floor_division [OF A B(2)]
  have r0: "z_dig rem = [] \<longleftrightarrow> A mod ?B = 0" using dval_zero_iff [OF rd(1)] rd(2) by simp
  have rv: "mpz_val rem = (if lneg then - (A mod ?B) else A mod ?B)" using r rd(2) by (simp add: is_int_def sval_def)
  let ?quo1 = "quo\<lparr>z_neg := z_dig quo \<noteq> []\<rparr>"
  have q1: "is_int (- (A div ?B)) ?quo1"
  proof -
    have "0 \<le> A div ?B" using A B(2) by (simp add: pos_imp_zdiv_nonneg_iff)
    then have "\<not> z_neg quo" using q mpz_neg_iff [of quo] by (auto simp: is_int_def)
    then show ?thesis using q by (auto simp: is_int_def mpz_ok_def mpz_val_def sval_def)
  qed
  consider (same) "lneg' = z_neg rhs" | (zero) "lneg' \<noteq> z_neg rhs" "z_dig rem = []"
    | (mixed) "lneg' \<noteq> z_neg rhs" "z_dig rem \<noteq> []" by blast
  then show ?thesis
  proof cases
    case same
    have "same \<or> lneg = z_neg rhs" "z_dig rem \<noteq> [] \<longrightarrow> lneg = z_neg rhs" using l same by auto
    then show ?thesis using same q r rv r0 fl B'
      by (auto simp: python_modulo_def divides_to_def is_int_def)
  next
    case zero
    have "same \<or> lneg = lneg'" using l by auto
    then show ?thesis using zero q1 r rv r0 fl B'
      by (auto simp: python_modulo_def divides_to_def mpz_is_zero_def is_int_def)
  next
    case mixed
    then have ln: "lneg' = lneg" "A mod ?B \<noteq> 0" using l r0 by simp_all
    have "yields mem (divides_to same (if lneg then - A else A) (mpz_val rhs)) (do {
        mpzone \<leftarrow> mpz_init_from_int mem (- 1);
        quo2 \<leftarrow> mpz_add_inpl mem ?quo1 ?quo1 mpzone;
        rem2 \<leftarrow> mpz_add_inpl mem rem rem rhs;
        Some (quo2, rem2) })"
    proof (rule yields_bind [OF mpz_minus_one_ok])
      fix one
      assume one: "is_int (- 1) one"
      have "gives mem (mpz_val ?quo1 + mpz_val one) (mpz_add_inpl mem ?quo1 ?quo1 one)"
        by (rule mpz_add_ok) (use q1 one in \<open>simp_all add: is_int_def\<close>)
      then show "yields mem (divides_to same (if lneg then - A else A) (mpz_val rhs)) (do {
          quo2 \<leftarrow> mpz_add_inpl mem ?quo1 ?quo1 one;
          rem2 \<leftarrow> mpz_add_inpl mem rem rem rhs;
          Some (quo2, rem2) })"
      proof (rule yields_bind)
        fix quo2
        assume "is_int (mpz_val ?quo1 + mpz_val one) quo2"
        then have two: "is_int (- (A div ?B) - 1) quo2" using q1 one by (simp add: is_int_def)
        have "gives mem (mpz_val rem + mpz_val rhs) (mpz_add_inpl mem rem rem rhs)"
          by (rule mpz_add_ok) (use r B(1) in \<open>simp_all add: is_int_def\<close>)
        then show "yields mem (divides_to same (if lneg then - A else A) (mpz_val rhs)) (do {
            rem2 \<leftarrow> mpz_add_inpl mem rem rem rhs;
            Some (quo2, rem2) })"
        proof (rule yields_bind)
          fix rem2
          assume "is_int (mpz_val rem + mpz_val rhs) rem2"
          then show "yields mem (divides_to same (if lneg then - A else A) (mpz_val rhs)) (Some (quo2, rem2))"
            using two ln mixed(1) rv B' fl by (auto simp: divides_to_def is_int_def)
        qed
      qed
    qed
    then show ?thesis using mixed by (simp add: python_modulo_def mpz_is_zero_def Let_def)
  qed
qed

lemma mpz_divmod_ok:
  assumes a: "mpz_ok lhs" and b: "mpz_ok rhs" and ne: "mpz_val rhs \<noteq> 0"
    and d: "\<not> z_fixed_dig dq" "\<not> z_fixed_dig dr"
  shows "yields mem (divides_to same (mpz_val lhs) (mpz_val rhs)) (mpz_divmod_inpl mem same dq dr lhs rhs)"
proof -
  let ?A = "dval (z_dig lhs)" and ?B = "dval (z_dig rhs)"
  have rne: "z_dig rhs \<noteq> []" "\<not> mpz_is_zero rhs" using ne mpz_val_zero_iff [OF b] by (simp_all add: mpz_is_zero_def)
  then have B0: "0 < ?B" using dval_zero_iff [of "z_dig rhs"] b dval_nonneg [of "z_dig rhs"] by (simp add: mpz_ok_def order_less_le del: dval_nonneg)
  obtain q r where dv: "mpn_div (z_dig lhs) (z_dig rhs) = Some (q, r)" "normalised q" "normalised r"
    "length q \<le> z_len lhs + 1" "length r \<le> z_len lhs" "dval q = ?A div ?B" "dval r = ?A mod ?B"
    using mpn_div_result [OF a b rne(1)] .
  have v: "mpz_val lhs = (if z_neg lhs then - ?A else ?A)" by (simp add: mpz_val_def sval_def)
  show ?thesis unfolding mpz_divmod_inpl_def if_not_P [OF rne(2)]
  proof (rule yields_need [OF d(1)], rule yields_need [OF d(2)])
    fix quo r0 :: mpz_t
    assume q0: "\<not> z_fixed_dig quo" "z_len lhs + 1 \<le> z_alloc quo" and r0: "\<not> z_fixed_dig r0" "z_len lhs + 1 \<le> z_alloc r0"
    have s: "yields mem (\<lambda>r1. \<not> z_fixed_dig r1 \<and> z_len lhs \<le> z_alloc r1 \<and> z_dig r1 = z_dig lhs \<and> z_neg r1 = z_neg lhs) (mpz_set mem r0 lhs)"
      unfolding mpz_set_def by (rule yields_need [OF r0(1)]) simp
    show "yields mem (divides_to same (mpz_val lhs) (mpz_val rhs)) (do {
        rem1 \<leftarrow> mpz_set mem r0 lhs;
        (qd, rd) \<leftarrow> mpn_div (z_dig rem1) (z_dig rhs);
        let rem = rem1\<lparr>z_dig := rd, z_neg := z_neg rem1 \<and> rd \<noteq> []\<rparr>;
        python_modulo mem (if same then z_neg rem else z_neg lhs) (quo\<lparr>z_neg := False, z_dig := qd\<rparr>) rem rhs })"
    proof (rule yields_bind [OF s])
      fix r1 :: mpz_t
      assume r1: "\<not> z_fixed_dig r1 \<and> z_len lhs \<le> z_alloc r1 \<and> z_dig r1 = z_dig lhs \<and> z_neg r1 = z_neg lhs"
      then have r1d: "z_dig r1 = z_dig lhs" by simp
      let ?rem = "r1\<lparr>z_dig := r, z_neg := z_neg r1 \<and> r \<noteq> []\<rparr>"
      have Q: "is_int (?A div ?B) (quo\<lparr>z_neg := False, z_dig := q\<rparr>)"
        by (rule is_int_digits) (use q0 dv(2,4,6) in simp_all)
      have R: "is_int (sval (z_neg lhs) (z_dig ?rem)) ?rem"
        by (rule is_int_digits) (use r1 dv(3,5) in \<open>simp_all add: sval_def\<close>)
      have "yields mem (divides_to same (if z_neg lhs then - ?A else ?A) (mpz_val rhs))
          (python_modulo mem (if same then z_neg ?rem else z_neg lhs) (quo\<lparr>z_neg := False, z_dig := q\<rparr>) ?rem rhs)"
        by (rule python_modulo_ok [OF Q R]) (use dv B0 b r1 in auto)
      then show "yields mem (divides_to same (mpz_val lhs) (mpz_val rhs)) (do {
          (qd, rd) \<leftarrow> mpn_div (z_dig r1) (z_dig rhs);
          let rem = r1\<lparr>z_dig := rd, z_neg := z_neg r1 \<and> rd \<noteq> []\<rparr>;
          python_modulo mem (if same then z_neg rem else z_neg lhs) (quo\<lparr>z_neg := False, z_dig := qd\<rparr>) rem rhs })"
        by (simp only: r1d dv(1) Option.bind_lunit prod.case Let_def v)
    qed
  qed
qed

section \<open>Powers\<close>

lemma odd_digits: "n \<noteq> [] \<Longrightarrow> (hd n AND 1 \<noteq> 0) = odd (dval n)"
proof -
  assume "n \<noteq> []"
  then obtain d ds where n: "n = d # ds" by (cases n) simp_all
  have "(d AND 1 \<noteq> 0) = bit d 0" using and_exp_eq_0_iff_not_bit [of d 0] by simp
  also have "\<dots> = bit (uint d) 0" by (simp add: bit_uint_iff)
  also have "\<dots> = odd (uint d)" by (rule bit_0)
  finally show ?thesis by (simp add: n)
qed

definition digits_nat :: "u16 list \<Rightarrow> nat" where
  "digits_nat n = nat (dval n)"

lemma digits_nat_halves:
  "n \<noteq> [] \<Longrightarrow> digits_nat n = 2 * digits_nat (mpn_shr n 1) + of_bool (hd n AND 1 \<noteq> 0)"
  "digits_nat [] = 0"
proof -
  assume n: "n \<noteq> []"
  have "dval n = 2 * (dval n div 2) + of_bool (odd (dval n))" by (simp add: mod2_eq_if flip: mod_mult_div_eq)
  then have "nat (dval n) = nat (2 * (dval n div 2) + of_bool (odd (dval n)))" by simp
  also have "\<dots> = 2 * nat (dval n div 2) + of_bool (odd (dval n))"
    by (simp add: nat_add_distrib nat_mult_distrib pos_imp_zdiv_nonneg_iff)
  finally show "digits_nat n = 2 * digits_nat (mpn_shr n 1) + of_bool (hd n AND 1 \<noteq> 0)"
    unfolding digits_nat_def shr_one_value odd_digits [OF n] .
qed (simp add: digits_nat_def)

lemma square_power: "(x :: int) ^ (2 * e + of_bool b) = (if b then x else 1) * (x * x) ^ e"
  by (simp add: power_add power_mult power2_eq_square)

lemma pow_loop_ok:
  assumes "is_int D dest" "is_int X x"
  shows "gives mem (D * X ^ digits_nat n) (pow_loop mem dest x n)"
  using assms
proof (induction mem dest x n arbitrary: D X rule: pow_loop.induct)
  case (1 mem dest x n)
  note d = is_intD [OF "1.prems"(1)] and x = is_intD [OF "1.prems"(2)]
  show ?case
  proof (cases "n = []")
    case True
    then show ?thesis using "1.prems"(1) by (subst pow_loop.simps) (simp add: digits_nat_halves)
  next
    case False
    let ?odd = "hd n AND 1 \<noteq> 0" and ?n1 = "mpn_shr n 1"
    have e: "X ^ digits_nat n = (if ?odd then X else 1) * (X * X) ^ digits_nat ?n1"
      unfolding digits_nat_halves(1) [OF False] by (rule square_power)
    have m: "gives mem (D * (if ?odd then X else 1)) (if ?odd then mpz_mul_inpl mem True False dest dest x else Some dest)"
      using mpz_mul_ok [of dest x dest True False mem] d x "1.prems"(1) by simp
    have "gives mem (D * X ^ digits_nat n) (do {
        dest1 \<leftarrow> (if ?odd then mpz_mul_inpl mem True False dest dest x else Some dest);
        if ?n1 = [] then Some dest1
        else do {
          x1 \<leftarrow> mpz_mul_inpl mem True True x x x;
          pow_loop mem dest1 x1 ?n1 } })"
    proof (rule yields_bind_eq [OF m])
      fix dest1
      assume r1: "(if ?odd then mpz_mul_inpl mem True False dest dest x else Some dest) = Some dest1" and d1: "is_int (D * (if ?odd then X else 1)) dest1"
      show "gives mem (D * X ^ digits_nat n) (if ?n1 = [] then Some dest1
          else do { x1 \<leftarrow> mpz_mul_inpl mem True True x x x; pow_loop mem dest1 x1 ?n1 })"
      proof (cases "?n1 = []")
        case True
        then show ?thesis using d1 unfolding e by (simp add: digits_nat_halves)
      next
        case n1: False
        have sq: "gives mem (X * X) (mpz_mul_inpl mem True True x x x)"
          using mpz_mul_ok [of x x x True True mem] x by simp
        have "gives mem (D * X ^ digits_nat n) (mpz_mul_inpl mem True True x x x \<bind> (\<lambda>x1. pow_loop mem dest1 x1 ?n1))"
        proof (rule yields_bind_eq [OF sq])
          fix x1
          assume rx: "mpz_mul_inpl mem True True x x x = Some x1" and x1: "is_int (X * X) x1"
          show "gives mem (D * X ^ digits_nat n) (pow_loop mem dest1 x1 ?n1)"
            using "1.IH" [OF False r1 refl n1 rx d1 x1] unfolding e mult.assoc .
        qed
        then show ?thesis using n1 by simp
      qed
    qed
    then show ?thesis using False by (subst pow_loop.simps) (simp add: Let_def)
  qed
qed

lemma mpz_set_one_ok: "\<not> z_fixed_dig dest \<Longrightarrow> gives mem 1 (mpz_set_from_int mem dest 1)"
  using mpz_set_from_int_ok [of dest mem 1] by simp

lemma mpz_pow_ok:
  assumes "mpz_ok lhs" "mpz_ok rhs" "\<not> z_fixed_dig dest"
  shows "gives mem (if mpz_val lhs = 0 \<or> mpz_val rhs < 0 then 0 else mpz_val lhs ^ nat (mpz_val rhs))
    (mpz_pow_inpl mem dest lhs rhs)"
proof -
  let ?z = "z_len lhs = 0 \<or> z_neg rhs"
  have z: "?z \<longleftrightarrow> mpz_val lhs = 0 \<or> mpz_val rhs < 0"
    using mpz_val_zero_iff [OF assms(1)] mpz_neg_iff [OF assms(2)] by simp
  show ?thesis
  proof (cases ?z)
    case True
    then show ?thesis using mpz_set_zero_ok [OF assms(3)] z by (simp add: mpz_pow_inpl_def)
  next
    case False
    then have v: "mpz_val rhs = dval (z_dig rhs)" by (simp add: mpz_val_def)
    have l: "z_dig lhs \<noteq> []" using False by simp
    show ?thesis
    proof (cases "z_len rhs = 0")
      case True
      then show ?thesis using mpz_set_one_ok [OF assms(3)] z False v by (simp add: mpz_pow_inpl_def)
    next
      case r: False
      then have rne: "z_dig rhs \<noteq> []" by simp
      have "gives mem (mpz_val lhs ^ digits_nat (z_dig rhs)) (do {
          x \<leftarrow> mpz_clone mem lhs;
          n \<leftarrow> mpz_clone mem rhs;
          dest1 \<leftarrow> mpz_set_from_int mem dest 1;
          pow_loop mem dest1 x (z_dig n) })"
      proof (rule yields_clone [OF assms(1) l], rule yields_clone [OF assms(2) rne], rule yields_bind [OF mpz_set_one_ok [OF assms(3)]])
        fix x n dest1 :: mpz_t
        assume x: "mpz_ok x" "\<not> z_fixed_dig x" "z_dig x = z_dig lhs" "z_neg x = z_neg lhs" and n: "z_dig n = z_dig rhs"
          and d: "is_int 1 dest1"
        have "is_int (mpz_val lhs) x" using x by (simp add: is_int_def mpz_val_def)
        from pow_loop_ok [OF d this, of mem "z_dig n"]
        show "gives mem (mpz_val lhs ^ digits_nat (z_dig rhs)) (pow_loop mem dest1 x (z_dig n))" unfolding n by simp
      qed
      then show ?thesis using False z r v by (simp add: mpz_pow_inpl_def digits_nat_def)
    qed
  qed
qed

section \<open>Powers modulo a number\<close>

text \<open>What the loop computes: the product is reduced after every multiplication, so it is not reduced at
  all when the exponent is zero.\<close>

definition mod_power :: "int \<Rightarrow> int \<Rightarrow> nat \<Rightarrow> int \<Rightarrow> int" where
  "mod_power D X e M = (if e = 0 then D else D * X ^ e mod M)"

lemma mod_power_step:
  fixes D X M :: int
  shows "mod_power (if b then D * X mod M else D) (X * X mod M) e M = mod_power D X (2 * e + of_bool b) M"
proof (cases "e = 0")
  case True
  then show ?thesis by (simp add: mod_power_def)
next
  case False
  have p: "(X * X mod M) ^ e mod M = (X * X) ^ e mod M" by (rule power_mod)
  have "D1 mod M * (X * X mod M) ^ e mod M = D1 * (X * X) ^ e mod M" for D1
    using p by (metis mod_mult_cong mod_mod_trivial)
  moreover have "D1 * (X * X mod M) ^ e mod M = D1 * (X * X) ^ e mod M" for D1
    using p by (metis mod_mult_cong)
  ultimately show ?thesis using False by (simp add: mod_power_def square_power mult.assoc)
qed

lemma mod_power_last: "mod_power D X (of_bool b) M = (if b then D * X mod M else D)"
  by (simp add: mod_power_def)

lemma pow3_loop_ok:
  assumes "mpz_ok modulus" "mpz_val modulus \<noteq> 0" "mpz_ok quo" "\<not> z_fixed_dig quo" "is_int D dest" "is_int X x"
  shows "gives mem (mod_power D X (digits_nat n) (mpz_val modulus)) (pow3_loop mem modulus quo dest x n)"
  using assms
proof (induction mem modulus quo dest x n arbitrary: D X rule: pow3_loop.induct)
  case (1 mem modulus quo dest x n)
  note d = is_intD [OF "1.prems"(5)] and x = is_intD [OF "1.prems"(6)] and md = "1.prems"(1,2)
  let ?M = "mpz_val modulus"
  show ?case
  proof (cases "n = []")
    case True
    then show ?thesis using "1.prems"(5) by (subst pow3_loop.simps) (simp add: digits_nat_halves mod_power_def)
  next
    case False
    let ?odd = "hd n AND 1 \<noteq> 0" and ?n1 = "mpn_shr n 1"
    let ?V = "mod_power D X (digits_nat n) ?M"
    let ?D1 = "if ?odd then D * X mod ?M else D"
    let ?step = "if ?odd then do { d \<leftarrow> mpz_mul_inpl mem True False dest dest x; mpz_divmod_inpl mem True quo d d modulus }
        else Some (quo, dest)"
    have e: "?V = mod_power ?D1 (X * X mod ?M) (digits_nat ?n1) ?M"
      unfolding digits_nat_halves(1) [OF False] mod_power_step ..
    have m: "yields mem (\<lambda>(q, r). mpz_ok q \<and> \<not> z_fixed_dig q \<and> is_int ?D1 r) ?step"
    proof (cases ?odd)
      case True
      have "gives mem (D * X) (mpz_mul_inpl mem True False dest dest x)"
        using mpz_mul_ok [of dest x dest True False mem] d x by simp
      then have "yields mem (\<lambda>(q, r). mpz_ok q \<and> \<not> z_fixed_dig q \<and> is_int (D * X mod ?M) r)
          (mpz_mul_inpl mem True False dest dest x \<bind> (\<lambda>d. mpz_divmod_inpl mem True quo d d modulus))"
      proof (rule yields_bind)
        fix w
        assume w: "is_int (D * X) w"
        show "yields mem (\<lambda>(q, r). mpz_ok q \<and> \<not> z_fixed_dig q \<and> is_int (D * X mod ?M) r) (mpz_divmod_inpl mem True quo w w modulus)"
          by (rule yields_weaken [OF mpz_divmod_ok [OF is_intD(1) [OF w] md "1.prems"(4) is_intD(2) [OF w]]])
             (use is_intD(3) [OF w] in \<open>auto simp: divides_to_def\<close>)
      qed
      then show ?thesis using True by simp
    next
      case False
      then show ?thesis using "1.prems"(3-5) by simp
    qed
    have "gives mem ?V (?step \<bind> (\<lambda>(quo1, dest1). if ?n1 = [] then Some dest1
        else do {
          x1 \<leftarrow> mpz_mul_inpl mem True True x x x;
          (quo2, x2) \<leftarrow> mpz_divmod_inpl mem True quo1 x1 x1 modulus;
          pow3_loop mem modulus quo2 dest1 x2 ?n1 }))"
    proof (rule yields_bind_eq [OF m])
      fix p
      assume rp: "?step = Some p" and p: "(\<lambda>(q, r). mpz_ok q \<and> \<not> z_fixed_dig q \<and> is_int ?D1 r) p"
      obtain quo1 dest1 where pp: "p = (quo1, dest1)" by (metis surj_pair)
      have q1: "mpz_ok quo1" "\<not> z_fixed_dig quo1" and d1: "is_int ?D1 dest1" using p pp by simp_all
      have "gives mem ?V (if ?n1 = [] then Some dest1
        else do {
          x1 \<leftarrow> mpz_mul_inpl mem True True x x x;
          (quo2, x2) \<leftarrow> mpz_divmod_inpl mem True quo1 x1 x1 modulus;
          pow3_loop mem modulus quo2 dest1 x2 ?n1 })"
      proof (cases "?n1 = []")
        case True
        then show ?thesis using d1 unfolding e by (simp add: digits_nat_halves mod_power_def)
      next
        case n1: False
        have sq: "gives mem (X * X) (mpz_mul_inpl mem True True x x x)"
          using mpz_mul_ok [of x x x True True mem] x by simp
        have "gives mem ?V (mpz_mul_inpl mem True True x x x \<bind> (\<lambda>x1. mpz_divmod_inpl mem True quo1 x1 x1 modulus \<bind>
            (\<lambda>(quo2, x2). pow3_loop mem modulus quo2 dest1 x2 ?n1)))"
        proof (rule yields_bind_eq [OF sq])
          fix x1
          assume rx: "mpz_mul_inpl mem True True x x x = Some x1" and x1: "is_int (X * X) x1"
          show "gives mem ?V (mpz_divmod_inpl mem True quo1 x1 x1 modulus \<bind> (\<lambda>(quo2, x2). pow3_loop mem modulus quo2 dest1 x2 ?n1))"
          proof (rule yields_bind_eq [OF mpz_divmod_ok [OF is_intD(1) [OF x1] md q1(2) is_intD(2) [OF x1]]])
            fix p2
            assume r2: "mpz_divmod_inpl mem True quo1 x1 x1 modulus = Some p2" and p2: "divides_to True (mpz_val x1) ?M p2"
            obtain quo2 x2 where pp2: "p2 = (quo2, x2)" by (metis surj_pair)
            have q2: "mpz_ok quo2" "\<not> z_fixed_dig quo2" and x2: "is_int (X * X mod ?M) x2"
              using p2 pp2 is_intD(3) [OF x1] by (simp_all add: divides_to_def)
            have "gives mem ?V (pow3_loop mem modulus quo2 dest1 x2 ?n1)"
              using "1.IH" [OF False rp pp [symmetric] refl n1 rx r2 pp2 [symmetric] md q2 d1 x2] unfolding e .
            then show "gives mem ?V (case p2 of (quo2, x2) \<Rightarrow> pow3_loop mem modulus quo2 dest1 x2 ?n1)" using pp2 by simp
          qed
        qed
        then show ?thesis using n1 by simp
      qed
      then show "gives mem ?V (case p of (quo1, dest1) \<Rightarrow> if ?n1 = [] then Some dest1
        else do {
          x1 \<leftarrow> mpz_mul_inpl mem True True x x x;
          (quo2, x2) \<leftarrow> mpz_divmod_inpl mem True quo1 x1 x1 modulus;
          pow3_loop mem modulus quo2 dest1 x2 ?n1 })" using pp by simp
    qed
    then show ?thesis using False by (subst pow3_loop.simps) (simp add: Let_def)
  qed
qed

text \<open>The value of \<open>pow(lhs, rhs, mod)\<close> in the code.\<close>

definition pow3_value :: "int \<Rightarrow> int \<Rightarrow> int \<Rightarrow> int" where
  "pow3_value b e m = (if b = 0 \<or> e < 0 \<or> \<bar>m\<bar> = 1 then 0 else mod_power 1 b (nat e) m)"

lemma is_one: "mpz_ok z \<Longrightarrow> z_dig z = [1] \<longleftrightarrow> \<bar>mpz_val z\<bar> = 1"
  using dval_inj [of "z_dig z" "[1]"] unfolding abs_mpz_val by (auto simp: mpz_ok_def)

lemma mpz_pow3_ok:
  assumes "mpz_ok lhs" "mpz_ok rhs" "mpz_ok modulus" "mpz_val modulus \<noteq> 0" "\<not> z_fixed_dig dest"
  shows "gives mem (pow3_value (mpz_val lhs) (mpz_val rhs) (mpz_val modulus)) (mpz_pow3_inpl mem dest lhs rhs modulus)"
proof -
  let ?z = "z_len lhs = 0 \<or> z_neg rhs \<or> z_dig modulus = [1]"
  let ?v = "pow3_value (mpz_val lhs) (mpz_val rhs) (mpz_val modulus)"
  have z: "?z \<longleftrightarrow> mpz_val lhs = 0 \<or> mpz_val rhs < 0 \<or> \<bar>mpz_val modulus\<bar> = 1"
    using mpz_val_zero_iff [OF assms(1)] mpz_neg_iff [OF assms(2)] is_one [OF assms(3)] by simp
  show ?thesis
  proof (cases ?z)
    case True
    then have "?v = 0" using z by (auto simp: pow3_value_def)
    then show ?thesis using mpz_set_zero_ok [OF assms(5)] True by (simp add: mpz_pow3_inpl_def)
  next
    case False
    then have v: "mpz_val rhs = dval (z_dig rhs)" by (simp add: mpz_val_def)
    have val: "?v = mod_power 1 (mpz_val lhs) (digits_nat (z_dig rhs)) (mpz_val modulus)"
      using False z v by (auto simp: pow3_value_def digits_nat_def)
    have l: "z_dig lhs \<noteq> []" using False by simp
    have "gives mem ?v (do {
        dest1 \<leftarrow> mpz_set_from_int mem dest 1;
        if z_len rhs = 0 then Some dest1
        else do {
          x \<leftarrow> mpz_clone mem lhs;
          n \<leftarrow> mpz_clone mem rhs;
          pow3_loop mem modulus mpz_init_zero dest1 x (z_dig n) } })"
    proof (rule yields_bind [OF mpz_set_one_ok [OF assms(5)]])
      fix dest1
      assume d: "is_int 1 dest1"
      show "gives mem ?v (if z_len rhs = 0 then Some dest1 else do {
          x \<leftarrow> mpz_clone mem lhs;
          n \<leftarrow> mpz_clone mem rhs;
          pow3_loop mem modulus mpz_init_zero dest1 x (z_dig n) })"
      proof (cases "z_len rhs = 0")
        case True
        then show ?thesis unfolding val using d by (simp add: mod_power_def digits_nat_def)
      next
        case r: False
        then have rne: "z_dig rhs \<noteq> []" by simp
        have "gives mem ?v (do {
            x \<leftarrow> mpz_clone mem lhs;
            n \<leftarrow> mpz_clone mem rhs;
            pow3_loop mem modulus mpz_init_zero dest1 x (z_dig n) })"
        proof (rule yields_clone [OF assms(1) l], rule yields_clone [OF assms(2) rne])
          fix x n :: mpz_t
          assume x: "mpz_ok x" "\<not> z_fixed_dig x" "z_dig x = z_dig lhs" "z_neg x = z_neg lhs" and n: "z_dig n = z_dig rhs"
          have "is_int (mpz_val lhs) x" using x by (simp add: is_int_def mpz_val_def)
          from pow3_loop_ok [OF assms(3,4) mpz_ok_zero(1,3) d this, of mem "z_dig n"]
          show "gives mem ?v (pow3_loop mem modulus mpz_init_zero dest1 x (z_dig n))" unfolding val n .
        qed
        then show ?thesis using r by simp
      qed
    qed
    then show ?thesis unfolding mpz_pow3_inpl_def if_not_P [OF False] .
  qed
qed

end
