(* ===== verification/MpzConv.thy ===== *)
theory MpzConv
  imports MpzArith
begin

text \<open>
  Conversions: to machine integers and hashes, from and to bytes, from and to strings.
\<close>

section \<open>Machine integers\<close>

lemma next_digit: "push_bit 16 (val :: u32) OR ucast (d :: u16) = val * 65536 + ucast d"
proof -
  have "push_bit 16 val AND (ucast d :: u32) = 0"
    by (rule bit_eqI) (auto simp: bit_and_iff bit_push_bit_iff bit_ucast_iff dest: bit_imp_le_length)
  then have "push_bit 16 val OR ucast d = push_bit 16 val + (ucast d :: u32)" by (simp add: disjunctive_add_eq_or)
  then show ?thesis by (simp add: push_bit_eq_mult)
qed

lemma widen_int: "(ucast (d :: u16) :: u32) = word_of_int (uint d)"
proof -
  have "uint d mod 4294967296 = uint d" using uint16 [of d] by (intro mod_pos_pos_trivial) linarith+
  then show ?thesis by (simp add: word_uint_eq_iff uint_widen uint_word_of_int)
qed

lemma hash_loop_ok: "hash_loop val ds = val * 65536 ^ length ds + word_of_int (dval (rev ds))"
proof (induction ds arbitrary: val)
  case (Cons d ds)
  have "word_of_int (dval (rev (d # ds))) = word_of_int (dval (rev ds)) + (65536 :: u32) ^ length ds * ucast d"
    unfolding rev.simps dval_append widen_int length_rev
    by (simp only: dval_simps mult_zero_right add_0_right of_int_add of_int_mult of_int_power of_int_numeral)
  moreover have "(a * b + d') * P + w = a * (b * P) + (w + P * d')" for a b d' P w :: u32
    by (simp only: distrib_right mult.assoc mult.commute [of d'] add.assoc add.commute [of w])
  ultimately show ?case unfolding hash_loop.simps Cons.IH next_digit length_Cons power_Suc by (simp only:)
qed simp

lemma mpz_hash_ok: "mpz_hash z = word_of_int (mpz_val z)"
  by (simp add: mpz_hash_def hash_loop_ok mpz_val_def sval_def)

text \<open>The checked loop accepts the numbers below \<open>bound\<close> and no others.\<close>

lemma checked_loop_ok:
  assumes "bound = (uint limit + 1) * 65536" "uint limit \<le> 65535" "uint val < bound"
  shows "checked_loop limit val ds =
    (let v = uint val * 65536 ^ length ds + dval (rev ds) in if v < bound then Some (word_of_int v) else None)"
  using assms(3)
proof (induction ds arbitrary: val)
  case (Cons d ds)
  let ?P = "65536 ^ length ds :: int" and ?v = "uint val * 65536 ^ length (d # ds) + dval (rev (d # ds))"
  have v: "?v = (uint val * 65536 + uint d) * ?P + dval (rev ds)" by (simp add: dval_append algebra_simps)
  show ?case
  proof (cases "val > limit")
    case True
    then have "uint limit + 1 \<le> uint val" by (simp add: word_less_def)
    then have "bound \<le> uint val * 65536" unfolding assms(1) by (intro mult_right_mono) simp_all
    then have "bound \<le> uint val * 65536 + uint d" using uint16(1) [of d] by linarith
    also have "\<dots> \<le> (uint val * 65536 + uint d) * ?P" 
    proof -
      have "(uint val * 65536 + uint d) * 1 \<le> (uint val * 65536 + uint d) * ?P" by (rule mult_left_mono) simp_all
      then show ?thesis by simp
    qed
    finally have "\<not> ?v < bound" unfolding v using dval_nonneg [of "rev ds"] by linarith
    then show ?thesis using True by (simp add: Let_def del: length_Cons)
  next
    case False
    then have le: "uint val \<le> uint limit" unfolding word_less_def by linarith
    moreover have "a * 65536 + k < (b + 1) * 65536" if "a \<le> b" "k < 65536" for a b k :: int using that by simp
    ultimately have "uint val * 65536 + uint d < bound" using uint16(2) [of d] unfolding assms(1) by blast
    moreover have "uint (push_bit 16 val OR ucast d) = uint val * 65536 + uint d"
    proof -
      have "uint (push_bit 16 val OR ucast d) = uint val * 2 ^ 16 + uint (ucast d :: u32)"
        by (rule uint_or_low) (use le assms(2) uint16 [of d] in \<open>simp_all add: uint_widen\<close>)
      then show ?thesis by (simp add: uint_widen)
    qed
    ultimately show ?thesis using False Cons.IH [of "push_bit 16 val OR ucast d"] unfolding v by (simp add: Let_def)
  qed
qed simp

lemma mpz_as_int_checked_ok:
  "mpz_as_int_checked z = (if \<bar>mpz_val z\<bar> < 2147483648 then Some (word_of_int (mpz_val z)) else None)"
proof -
  have l: "drop_bit DIG_SIZE (NOT MP_OBJ_WORD_MSBIT_HIGH) = 0x7FFF" by (simp add: MP_OBJ_WORD_MSBIT_HIGH_def drop_bit_eq_div)
  show ?thesis
    unfolding mpz_as_int_checked_def l abs_mpz_val
    by (subst checked_loop_ok [of 2147483648]) (simp_all add: Let_def mpz_val_def sval_def)
qed

lemma mpz_as_uint_checked_ok:
  assumes "mpz_ok z"
  shows "mpz_as_uint_checked z =
    (if 0 \<le> mpz_val z \<and> mpz_val z < 4294967296 then Some (word_of_int (mpz_val z)) else None)"
proof -
  have l: "drop_bit (DIG_SIZE - 1) (NOT MP_OBJ_WORD_MSBIT_HIGH) = 0xFFFF" by (simp add: MP_OBJ_WORD_MSBIT_HIGH_def drop_bit_eq_div)
  show ?thesis
  proof (cases "z_neg z")
    case True
    then show ?thesis using mpz_neg_iff [OF assms] by (simp add: mpz_as_uint_checked_def)
  next
    case False
    show ?thesis
      unfolding mpz_as_uint_checked_def l if_not_P [OF False]
      by (subst checked_loop_ok [of 4294967296]) (use False in \<open>simp_all add: Let_def mpz_val_def\<close>)
  qed
qed

section \<open>Bytes\<close>

definition bytes_val :: "bytes \<Rightarrow> int" where
  "bytes_val bs = horner_sum uint 256 bs"

lemma bytes_val_simps [simp]: "bytes_val [] = 0" "bytes_val (b # bs) = uint b + 256 * bytes_val bs"
  by (simp_all add: bytes_val_def)

lemma bytes_val_append: "bytes_val (a @ b) = bytes_val a + 256 ^ length a * bytes_val b"
  by (simp add: bytes_val_def horner_sum_append)

lemma uint8: "0 \<le> uint (b :: u8)" "uint (b :: u8) < 256"
  using uint_lt2p [of b] by simp_all

lemma bytes_val_bounds: "0 \<le> bytes_val bs" "bytes_val bs < 256 ^ length bs"
proof -
  show "0 \<le> bytes_val bs" by (induction bs) simp_all
  show "bytes_val bs < 256 ^ length bs"
  proof (induction bs)
    case (Cons b bs)
    then have "256 * (bytes_val bs + 1) \<le> 256 * 256 ^ length bs" by simp
    then show ?case using uint8 [of b] by simp
  qed simp
qed

lemma uint_pair: "uint (ucast b OR push_bit 8 (ucast c) :: u16) = uint (b :: u8) + 256 * uint (c :: u8)"
proof -
  have "(ucast b :: u16) AND push_bit 8 (ucast c) = 0"
    by (rule bit_eqI) (auto simp: bit_and_iff bit_push_bit_iff bit_ucast_iff dest: bit_imp_le_length)
  then have o: "(ucast b :: u16) OR push_bit 8 (ucast c) = ucast b + ucast c * 256"
    by (simp add: disjunctive_add_eq_or push_bit_eq_mult)
  have u: "uint (ucast x :: u16) = uint x" for x :: u8
    using uint8 [of x] by (simp add: unsigned_ucast_eq take_bit_int_eq_self)
  have m: "uint (ucast c * 256 :: u16) = uint c * 256" using uint8 [of c] by (simp add: uint_word_ariths u)
  show ?thesis unfolding o using uint8 [of b] uint8 [of c] by (subst uint_plus_if') (simp add: u m)
qed

lemma byte_digits_ok: "dval (byte_digits bs) = bytes_val bs \<and> length (byte_digits bs) = (length bs + 1) div 2"
proof (induction bs rule: byte_digits.induct)
  case (2 b)
  then show ?case using uint8 [of b] by (simp add: unsigned_ucast_eq take_bit_int_eq_self)
next
  case (3 b c bs)
  then show ?case by (simp add: uint_pair)
qed simp

lemma mpz_set_from_bytes_ok:
  assumes "\<not> z_fixed_dig z"
  shows "gives mem (bytes_val (if big then rev buf else buf)) (mpz_set_from_bytes mem z big buf)"
proof -
  let ?b = "if big then rev buf else buf"
  have "length (mpn_remove_trailing_zeros (byte_digits ?b)) \<le> (length buf + 1) div 2"
    using strip_length [of "byte_digits ?b"] byte_digits_ok [of ?b] by (simp split: if_splits)
  moreover have "(length buf + 1) div 2 \<le> (length buf * 8 + DIG_SIZE - 1) div DIG_SIZE" by linarith
  ultimately have l: "length (mpn_remove_trailing_zeros (byte_digits ?b)) \<le> (length buf * 8 + DIG_SIZE - 1) div DIG_SIZE"
    by (rule order_trans)
  show ?thesis unfolding mpz_set_from_bytes_def
    by (intro yields_need [OF assms] gives_digits) (use l byte_digits_ok [of ?b] in \<open>simp_all del: if_split\<close>)
qed

text \<open>What one byte does to the state: \<open>x\<close> is the byte and \<open>c'\<close> the carry.\<close>

definition byte_out :: "bool \<Rightarrow> int \<Rightarrow> u32 \<Rightarrow> u8 \<Rightarrow> u32 \<Rightarrow> bool" where
  "byte_out ng b c x c' \<longleftrightarrow>
     (if ng then uint x + 256 * uint c' = 255 - b + uint c else uint x = b) \<and> uint c' \<le> 1"

lemma uint_byte: "uint (ucast (v :: u16) :: u8) = uint v mod 256"
  by (simp add: unsigned_ucast_eq take_bit_eq_mod)

lemma complement_byte: "uint (NOT (v :: u16) AND 0xFF) = 255 - uint v mod 256"
proof -
  have "uint (NOT v AND 0xFF) = NOT (uint v) mod 256"
  proof -
    have "NOT v AND 0xFF = take_bit 8 (NOT v)" by (simp add: take_bit_eq_mask mask_eq_exp_minus_1)
    then have "uint (NOT v AND 0xFF) = take_bit 8 (uint (NOT v))" by (simp add: unsigned_take_bit_eq)
    also have "\<dots> = take_bit 8 (NOT (uint v))" by (simp add: unsigned_not_eq)
    finally show ?thesis by (simp add: take_bit_eq_mod)
  qed
  also have "NOT (uint v) = 255 - uint v mod 256 + 256 * (- 1 - uint v div 256)"
    using mult_div_mod_eq [of 256 "uint v"] unfolding not_int_def right_diff_distrib by linarith
  also have "(255 - uint v mod 256 + 256 * (- 1 - uint v div 256)) mod 256 = 255 - uint v mod 256"
    using pos_mod_bound [of 256 "uint v"] pos_mod_sign [of 256 "uint v"] by (simp only: mod_mult_self2) simp
  finally show ?thesis .
qed

lemma put_byte_ok:
  assumes "uint c \<le> 1"
  shows "\<exists>x c'. put_byte ng d (out, olen, c, ok) = (out @ take olen [x], olen - 1, c', ok \<and> (olen = 0 \<longrightarrow> x = 0)) \<and>
    byte_out ng (uint d mod 256) c x c'"
proof -
  let ?v = "ucast d :: u16"
  have v: "uint ?v mod 256 = uint d mod 256" by (simp add: uint_narrow mod_mod_cancel)
  define v1 where "v1 = (if ng then (NOT ?v AND 0xFF) + ucast c else ?v)"
  define c1 where "c1 = (if ng then ucast (drop_bit 8 v1) else c)"
  have "byte_out ng (uint d mod 256) c (ucast v1) c1"
  proof (cases ng)
    case False
    then show ?thesis using assms by (simp add: byte_out_def v1_def c1_def uint_byte v)
  next
    case True
    have uc: "uint (ucast c :: u16) = uint c" using assms uint32 [of c] by (simp add: uint_narrow)
    have b: "0 \<le> uint d mod 256" "uint d mod 256 < 256" by simp_all
    have u: "uint v1 = 255 - uint d mod 256 + uint c"
      unfolding v1_def if_P [OF True] using b assms uint32 [of c]
      by (subst uint_plus_if') (simp add: complement_byte v uc)
    have s: "uint c1 = uint v1 div 256"
    proof -
      have "uint (drop_bit 8 v1) = uint v1 div 256" by (simp add: drop_bit_eq_div uint_div)
      then show ?thesis using True by (simp add: c1_def uint_widen)
    qed
    have "uint v1 < 512" unfolding u using b assms by linarith
    then have "uint v1 div 256 < 2" by (intro div_below) simp_all
    then have "uint c1 \<le> 1" unfolding s by linarith
    moreover have "uint (ucast v1 :: u8) + 256 * uint c1 = uint v1" unfolding uint_byte s by simp
    ultimately show ?thesis using True u by (simp add: byte_out_def)
  qed
  moreover have "put_byte ng d (out, olen, c, ok) = (out @ take olen [ucast v1], olen - 1, c1, ok \<and> (olen = 0 \<longrightarrow> (ucast v1 :: u8) = 0))"
    by (simp add: put_byte_def v1_def c1_def Let_def take_Cons')
  ultimately show ?thesis by blast
qed

lemma put_digits_ok:
  assumes "uint c \<le> 1"
  shows "\<exists>r c'. put_digits ng 0 ds (out, olen, c, ok) =
      (out @ take olen r, olen - length r, c', ok \<and> (\<forall>x \<in> set (drop olen r). x = 0)) \<and>
    length r = 2 * length ds \<and>
    (if ng then bytes_val r + 65536 ^ length ds * uint c' = 65536 ^ length ds - 1 - dval ds + uint c \<and> uint c' \<le> 1
     else bytes_val r = dval ds)"
  using assms
proof (induction ds arbitrary: out olen c ok)
  case Nil
  then show ?case by simp
next
  case (Cons d ds)
  let ?d = "push_bit 16 0 OR ucast d :: u32"
  have ud: "uint ?d = uint d" "?d = ucast d" by (simp_all add: uint_widen)
  obtain x c1 where b1: "put_byte ng ?d (out, olen, c, ok) = (out @ take olen [x], olen - 1, c1, ok \<and> (olen = 0 \<longrightarrow> x = 0))"
    "byte_out ng (uint d mod 256) c x c1"
    using put_byte_ok [OF Cons.prems, of ng ?d out olen ok] unfolding ud(1) by blast
  have c1: "uint c1 \<le> 1" using b1(2) by (simp add: byte_out_def)
  have hi: "uint (drop_bit 8 ?d) = uint d div 256" unfolding uint_shift_n ud(1) by simp
  have him: "uint d div 256 mod 256 = uint d div 256"
    using uint16 [of d] by (intro mod_pos_pos_trivial div_below) (simp_all add: pos_imp_zdiv_nonneg_iff)
  obtain y c2 where b2: "put_byte ng (drop_bit 8 ?d) (out @ take olen [x], olen - 1, c1, ok \<and> (olen = 0 \<longrightarrow> x = 0)) =
      ((out @ take olen [x]) @ take (olen - 1) [y], olen - 1 - 1, c2, (ok \<and> (olen = 0 \<longrightarrow> x = 0)) \<and> (olen - 1 = 0 \<longrightarrow> y = 0))"
    "byte_out ng (uint d div 256) c1 y c2"
    using put_byte_ok [OF c1, of ng "drop_bit 8 ?d" "out @ take olen [x]" "olen - 1" "ok \<and> (olen = 0 \<longrightarrow> x = 0)"]
    unfolding hi him by blast
  have c2: "uint c2 \<le> 1" using b2(2) by (simp add: byte_out_def)
  have z: "drop_bit 8 (drop_bit 8 ?d) = 0"
  proof -
    have "uint (drop_bit 8 (drop_bit 8 ?d)) = uint d div 65536"
      unfolding uint_shift_n ud(1) by (simp add: zdiv_zmult2_eq [symmetric])
    then show ?thesis using uint16 [of d] by (simp add: uint_0_iff)
  qed
  obtain r c' where ih: "put_digits ng 0 ds ((out @ take olen [x]) @ take (olen - 1) [y], olen - 1 - 1, c2, (ok \<and> (olen = 0 \<longrightarrow> x = 0)) \<and> (olen - 1 = 0 \<longrightarrow> y = 0)) =
      (((out @ take olen [x]) @ take (olen - 1) [y]) @ take (olen - 1 - 1) r, olen - 1 - 1 - length r, c',
       ((ok \<and> (olen = 0 \<longrightarrow> x = 0)) \<and> (olen - 1 = 0 \<longrightarrow> y = 0)) \<and> (\<forall>x \<in> set (drop (olen - 1 - 1) r). x = 0))"
    "length r = 2 * length ds"
    "if ng then bytes_val r + 65536 ^ length ds * uint c' = 65536 ^ length ds - 1 - dval ds + uint c2 \<and> uint c' \<le> 1
     else bytes_val r = dval ds"
    using Cons.IH [OF c2] by blast
  have dd: "uint d = uint d mod 256 + 256 * (uint d div 256)" by simp
  have val: "if ng then bytes_val (x # y # r) + 65536 ^ length (d # ds) * uint c' = 65536 ^ length (d # ds) - 1 - dval (d # ds) + uint c \<and> uint c' \<le> 1
     else bytes_val (x # y # r) = dval (d # ds)"
  proof (cases ng)
    case True
    have e: "X + 256 * (Y + 256 * R) + 65536 * P * C = 65536 * P - 1 - (L + 256 * H + 65536 * D) + A"
      if "X + 256 * B = 255 - L + A" "Y + 256 * E = 255 - H + B" "R + P * C = P - 1 - D + E"
      for X Y R P C L H D A B E :: int
      using that by (simp add: algebra_simps)
    have "uint x + 256 * uint c1 = 255 - uint d mod 256 + uint c" "uint y + 256 * uint c2 = 255 - uint d div 256 + uint c1"
      "bytes_val r + 65536 ^ length ds * uint c' = 65536 ^ length ds - 1 - dval ds + uint c2"
      using True b1(2) b2(2) ih(3) by (simp_all add: byte_out_def)
    from e [OF this] True ih(3) show ?thesis unfolding bytes_val_simps dval_simps length_Cons power_Suc using dd by simp
  next
    case False
    then show ?thesis using b1(2) b2(2) ih(3) dd by (simp add: byte_out_def)
  qed
  have "put_digits ng 0 (d # ds) (out, olen, c, ok) =
      (out @ take olen (x # y # r), olen - length (x # y # r), c', ok \<and> (\<forall>x \<in> set (drop olen (x # y # r)). x = 0))"
  proof -
    have "put_digits ng 0 (d # ds) (out, olen, c, ok) =
        put_digits ng 0 ds ((out @ take olen [x]) @ take (olen - 1) [y], olen - 1 - 1, c2, (ok \<and> (olen = 0 \<longrightarrow> x = 0)) \<and> (olen - 1 = 0 \<longrightarrow> y = 0))"
      by (simp only: put_digits.simps Let_def b1(1) b2(1) z)
    then show ?thesis unfolding ih(1) by (cases olen; cases "olen - 1") auto
  qed
  then show ?case using val ih(2) by (intro exI [of _ "x # y # r"] exI [of _ c']) simp
qed

lemma bytes_val_fill: "bytes_val (replicate k 0) = 0" "bytes_val (replicate k 0xFF) = 256 ^ k - 1"
  by (induction k) simp_all

lemma bytes_val_take: "bytes_val (take k bs) = bytes_val bs mod 256 ^ k" if "k \<le> length bs"
proof -
  have "bytes_val bs = bytes_val (take k bs) + 256 ^ k * bytes_val (drop k bs)"
    using bytes_val_append [of "take k bs" "drop k bs"] that by simp
  then show ?thesis using bytes_val_bounds [of "take k bs"] that by simp
qed

lemma bytes_val_zero: "bytes_val bs = 0 \<longleftrightarrow> (\<forall>x \<in> set bs. x = 0)"
proof (induction bs)
  case (Cons b bs)
  have "bytes_val (b # bs) = 0 \<longleftrightarrow> uint b = 0 \<and> bytes_val bs = 0"
    using bytes_val_bounds(1) [of bs] uint8(1) [of b] by (simp add: add_nonneg_eq_0_iff)
  then show ?case using Cons by (simp add: uint_0_iff)
qed simp

lemma bytes_val_drop_zero: "(\<forall>x \<in> set (drop k bs). x = 0) \<longleftrightarrow> bytes_val bs < 256 ^ k"
proof (cases "k \<le> length bs")
  case True
  have e: "bytes_val bs = bytes_val (take k bs) + 256 ^ k * bytes_val (drop k bs)"
    using bytes_val_append [of "take k bs" "drop k bs"] True by simp
  have t: "0 \<le> bytes_val (take k bs)" "bytes_val (take k bs) < 256 ^ k" using bytes_val_bounds [of "take k bs"] True by simp_all
  show ?thesis unfolding bytes_val_zero [symmetric]
  proof
    assume "bytes_val (drop k bs) = 0"
    then show "bytes_val bs < 256 ^ k" using e t by simp
  next
    assume l: "bytes_val bs < 256 ^ k"
    show "bytes_val (drop k bs) = 0"
      using small_carry [OF e [symmetric] t(1) bytes_val_bounds(1) _ l] by simp
  qed
next
  case False
  have "(256 :: int) ^ length bs \<le> 256 ^ k" by (rule power_increasing) (use False in simp_all)
  then have "bytes_val bs < 256 ^ k" using bytes_val_bounds(2) [of bs] by linarith
  then show ?thesis using False by simp
qed

lemma digits_bytes: "(65536 :: int) ^ n = 256 ^ (2 * n)"
  by (simp add: power_mult)

text \<open>The buffer holds the number modulo its size, in two's complement.\<close>

lemma buffer_ok:
  assumes "length r = 2 * length ds"
    and "if ng then bytes_val r = 65536 ^ length ds - dval ds \<and> 0 < dval ds else bytes_val r = dval ds"
  shows "bytes_val (take len r @ replicate (len - length r) (if ng then 0xFF else 0)) = sval ng ds mod 256 ^ len"
proof (cases "len \<le> length r")
  case True
  then have "bytes_val (take len r @ replicate (len - length r) (if ng then 0xFF else 0)) = bytes_val r mod 256 ^ len"
    by (simp add: bytes_val_take)
  also have "\<dots> = sval ng ds mod 256 ^ len"
  proof (cases ng)
    case ng: True
    have "(65536 :: int) ^ length ds = 256 ^ len * 256 ^ (length r - len)"
      unfolding digits_bytes assms(1) [symmetric] power_add [symmetric] using True by simp
    then have "bytes_val r = - dval ds + 256 ^ len * 256 ^ (length r - len)" using assms(2) ng by simp
    then have "bytes_val r mod 256 ^ len = - dval ds mod 256 ^ len" by (simp only: mod_mult_self2)
    then show ?thesis using ng by simp
  qed (use assms(2) in simp)
  finally show ?thesis .
next
  case False
  have l: "(256 :: int) ^ len = 256 ^ length r * 256 ^ (len - length r)"
    unfolding power_add [symmetric] using False by simp
  have P: "dval ds < 256 ^ length r" using dval_less [of ds] unfolding digits_bytes assms(1) [symmetric] .
  have le: "(256 :: int) ^ length r \<le> 256 ^ len" by (rule power_increasing) (use False in simp_all)
  have b: "bytes_val (take len r @ replicate (len - length r) (if ng then 0xFF else 0)) =
      bytes_val r + 256 ^ length r * bytes_val (replicate (len - length r) (if ng then 0xFF else 0))"
    using False by (simp add: bytes_val_append)
  show ?thesis
  proof (cases ng)
    case True
    have "bytes_val (take len r @ replicate (len - length r) (if ng then 0xFF else 0)) = 256 ^ len - dval ds"
      unfolding b using True assms(2) unfolding digits_bytes assms(1) [symmetric] l
      by (simp add: bytes_val_fill right_diff_distrib)
    also have "\<dots> = (256 ^ len - dval ds) mod 256 ^ len"
    proof (rule mod_pos_pos_trivial [symmetric])
      show "0 \<le> 256 ^ len - dval ds" using P le by linarith
      show "256 ^ len - dval ds < 256 ^ len" using True assms(2) by simp
    qed
    also have "\<dots> = - dval ds mod 256 ^ len" by simp
    finally show ?thesis using True by simp
  next
    case ng: False
    have "dval ds mod 256 ^ len = dval ds" by (rule mod_pos_pos_trivial) (use P le dval_nonneg [of ds] in linarith)+
    then show ?thesis unfolding b using ng assms(2) by (simp add: bytes_val_fill)
  qed
qed

lemma top_bit:
  assumes "bs \<noteq> []"
  shows "(last bs AND 0x80 \<noteq> 0) = (128 * 256 ^ (length bs - 1) \<le> bytes_val bs)"
proof -
  let ?P = "256 ^ (length bs - 1) :: int"
  have v: "bytes_val bs = bytes_val (butlast bs) + ?P * uint (last bs)"
    using arg_cong [OF append_butlast_last_id [OF assms], of bytes_val] by (simp add: bytes_val_append)
  have b: "0 \<le> bytes_val (butlast bs)" "bytes_val (butlast bs) < ?P" using bytes_val_bounds [of "butlast bs"] by simp_all
  have "(last bs AND 0x80 \<noteq> 0) = bit (last bs) 7" using and_exp_eq_0_iff_not_bit [of "last bs" 7] by simp
  also have "\<dots> = (128 \<le> uint (last bs))"
  proof -
    have "bit (last bs) 7 = bit (uint (last bs)) 7" by (simp add: bit_uint_iff)
    also have "\<dots> = odd (uint (last bs) div 128)" by (simp add: bit_iff_odd)
    also have "\<dots> = (128 \<le> uint (last bs))"
    proof (cases "128 \<le> uint (last bs)")
      case True
      have "uint (last bs) div 128 < 2" by (rule div_below) (use uint8 [of "last bs"] in simp_all)
      moreover have "1 \<le> uint (last bs) div 128" using zdiv_mono1 [OF True, of 128] by simp
      ultimately have "uint (last bs) div 128 = 1" by linarith
      then show ?thesis using True by simp
    next
      case False
      then have "uint (last bs) div 128 = 0" by (intro div_pos_pos_trivial) simp_all
      then show ?thesis using False by simp
    qed
    finally show ?thesis .
  qed
  also have "\<dots> = (128 * ?P \<le> bytes_val bs)"
  proof
    assume "128 \<le> uint (last bs)"
    then have "?P * 128 \<le> ?P * uint (last bs)" by (intro mult_left_mono) simp_all
    then show "128 * ?P \<le> bytes_val bs" using v b by linarith
  next
    assume l: "128 * ?P \<le> bytes_val bs"
    show "128 \<le> uint (last bs)"
    proof (rule ccontr)
      assume "\<not> 128 \<le> uint (last bs)"
      then have "?P * uint (last bs) \<le> ?P * 127" by (intro mult_left_mono) simp_all
      then show False using v b l by linarith
    qed
  qed
  finally show ?thesis .
qed

lemma mpz_as_bytes_shape:
  assumes "mpz_ok z"
  obtains r ok where
    "mpz_as_bytes z big sgd len =
      (let buf = take len r @ replicate (len - length r) (if z_neg z then 0xFF else 0)
       in (if big then rev buf else buf,
           if sgd \<and> len \<le> length r \<and> len > 0 then ok \<and> (last (take len r) AND 0x80 \<noteq> 0) = z_neg z else ok))"
    "ok \<longleftrightarrow> bytes_val r < 256 ^ len" "length r = 2 * z_len z"
    "if z_neg z then bytes_val r = 65536 ^ z_len z - dval (z_dig z) \<and> 0 < dval (z_dig z) else bytes_val r = dval (z_dig z)"
proof -
  let ?P = "65536 ^ z_len z :: int"
  obtain r c' where p: "put_digits (z_neg z) 0 (z_dig z) ([], len, 1, True) =
      ([] @ take len r, len - length r, c', True \<and> (\<forall>x \<in> set (drop len r). x = 0))"
    "length r = 2 * z_len z"
    "if z_neg z then bytes_val r + ?P * uint c' = ?P - 1 - dval (z_dig z) + uint (1 :: u32) \<and> uint c' \<le> 1
     else bytes_val r = dval (z_dig z)"
    using put_digits_ok [of 1 "z_neg z" "z_dig z" "[]" len True] by auto
  have v: "if z_neg z then bytes_val r = ?P - dval (z_dig z) \<and> 0 < dval (z_dig z) else bytes_val r = dval (z_dig z)"
  proof (cases "z_neg z")
    case True
    then have D: "0 < dval (z_dig z)" and e: "bytes_val r + ?P * uint c' = ?P - dval (z_dig z)"
      using p(3) neg_pos [OF assms] by simp_all
    have "uint c' = 0" by (rule small_carry [OF e bytes_val_bounds(1)]) (use D in simp_all)
    then show ?thesis using e D True by simp
  qed (use p(3) in simp)
  have "mpz_as_bytes z big sgd len =
      (let buf = take len r @ replicate (len - length r) (if z_neg z then 0xFF else 0)
       in (if big then rev buf else buf,
           if sgd \<and> len \<le> length r \<and> len > 0 then (\<forall>x \<in> set (drop len r). x = 0) \<and> (last (take len r) AND 0x80 \<noteq> 0) = z_neg z
           else (\<forall>x \<in> set (drop len r). x = 0)))"
    unfolding mpz_as_bytes_def p(1) by (simp add: Let_def)
  then show thesis by (rule that [OF _ bytes_val_drop_zero p(2) v])
qed

text \<open>What the buffer holds, for every number and every size; and whether the number is said to fit: for a
  number that is not negative, and for a negative one when there is room for all its digits.\<close>

lemma mpz_as_bytes_ok:
  assumes z: "mpz_ok z" and r: "mpz_as_bytes z big (z_neg z) len = (buf, ok)"
  shows "length buf = len \<and> bytes_val (if big then rev buf else buf) = mpz_val z mod 256 ^ len \<and>
    (0 \<le> mpz_val z \<longrightarrow> (ok \<longleftrightarrow> mpz_val z < 256 ^ len)) \<and>
    (mpz_val z < 0 \<and> 2 * z_len z \<le> len \<longrightarrow> (ok \<longleftrightarrow> - (128 * 256 ^ (len - 1)) \<le> mpz_val z))"
proof -
  let ?D = "dval (z_dig z)"
  obtain bs k where b: "mpz_as_bytes z big (z_neg z) len =
      (let buf = take len bs @ replicate (len - length bs) (if z_neg z then 0xFF else 0)
       in (if big then rev buf else buf,
           if z_neg z \<and> len \<le> length bs \<and> len > 0 then k \<and> (last (take len bs) AND 0x80 \<noteq> 0) = z_neg z else k))"
    "k \<longleftrightarrow> bytes_val bs < 256 ^ len" "length bs = 2 * z_len z"
    "if z_neg z then bytes_val bs = 65536 ^ z_len z - ?D \<and> 0 < ?D else bytes_val bs = ?D"
    using mpz_as_bytes_shape [OF z] .
  note bf = buffer_ok [OF b(3,4), of len]
  let ?X = "take len bs @ replicate (len - length bs) (if z_neg z then 0xFF else 0)"
  have e: "(if big then rev ?X else ?X) = buf" and
    ok: "(if z_neg z \<and> len \<le> length bs \<and> len > 0 then k \<and> (last (take len bs) AND 0x80 \<noteq> 0) = z_neg z else k) = ok"
    using r unfolding b(1) Let_def by (simp_all only: prod.inject)
  have buf: "(if big then rev buf else buf) = ?X" unfolding e [symmetric] by (cases big) simp_all
  have "length buf = length (if big then rev buf else buf)" by simp
  also have "\<dots> = len" unfolding buf by simp
  finally have l: "length buf = len" .
  have ng: "z_neg z \<longleftrightarrow> mpz_val z < 0" by (rule mpz_neg_iff [OF z])
  have pos: "0 \<le> mpz_val z \<longrightarrow> (ok \<longleftrightarrow> mpz_val z < 256 ^ len)"
  proof
    assume "0 \<le> mpz_val z"
    then have "\<not> z_neg z" using ng by simp
    then show "ok \<longleftrightarrow> mpz_val z < 256 ^ len" using ok b(2,4) by (simp add: mpz_val_def)
  qed
  have neg: "mpz_val z < 0 \<and> 2 * z_len z \<le> len \<longrightarrow> (ok \<longleftrightarrow> - (128 * 256 ^ (len - 1)) \<le> mpz_val z)"
  proof
    assume a: "mpz_val z < 0 \<and> 2 * z_len z \<le> len"
    then have n1: "z_neg z" using ng by simp
    then have n2: "mpz_val z = - ?D" by (simp add: mpz_val_def)
    note n = n1 n2
    have D: "bytes_val bs = 65536 ^ z_len z - ?D" "0 < ?D" using b(4) n1 by simp_all
    have ne: "0 < z_len z" using D(2) by (cases "z_dig z") simp_all
    then have len: "0 < len" using a by linarith
    have L: "(256 :: int) ^ len = 256 * 256 ^ (len - 1)" using len by (cases len) simp_all
    have lt: "bytes_val bs < 256 ^ len"
    proof -
      have "(256 :: int) ^ length bs \<le> 256 ^ len" by (rule power_increasing) (use a b(3) in simp_all)
      then show ?thesis using bytes_val_bounds(2) [of bs] by linarith
    qed
    show "ok \<longleftrightarrow> - (128 * 256 ^ (len - 1)) \<le> mpz_val z"
    proof (cases "len = length bs")
      case True
      then have ne: "bs \<noteq> []" using len by auto
      have P: "65536 ^ z_len z = (256 :: int) ^ len" unfolding digits_bytes b(3) [symmetric] True ..
      have "ok \<longleftrightarrow> 128 * 256 ^ (len - 1) \<le> bytes_val bs" using ok b(2) lt n(1) len top_bit [OF ne] True by simp
      then show ?thesis unfolding n(2) D(1) P L by linarith
    next
      case False
      then have le: "length bs < len" using a b(3) by simp
      have "?D < 256 ^ length bs" using dval_less [of "z_dig z"] unfolding digits_bytes b(3) .
      also have "\<dots> \<le> (256 :: int) ^ (len - 1)" by (rule power_increasing) (use le in simp_all)
      finally have "?D \<le> 128 * 256 ^ (len - 1)" using D(2) by linarith
      then show ?thesis using ok b(2) lt le n(2) by simp
    qed
  qed
  have "bytes_val (if big then rev buf else buf) = mpz_val z mod 256 ^ len" unfolding buf mpz_val_def by (rule bf)
  with l pos neg show ?thesis by (intro conjI)
qed

text \<open>A negative number with more digits than the buffer has room for is judged by its complement at the width
  of its digits; what is said to fit then never does.\<close>

lemma mpz_as_bytes_short:
  assumes z: "mpz_ok z" and r: "mpz_as_bytes z big (z_neg z) len = (buf, ok)" and n: "mpz_val z < 0" and l: "len < 2 * z_len z"
  shows "ok \<longleftrightarrow> 65536 ^ z_len z + mpz_val z < 256 ^ len \<and> 128 * 256 ^ (len - 1) \<le> mpz_val z mod 256 ^ len"
    and "ok \<Longrightarrow> mpz_val z < - (128 * 256 ^ (len - 1))"
proof -
  let ?D = "dval (z_dig z)"
  obtain bs k where b: "mpz_as_bytes z big (z_neg z) len =
      (let buf = take len bs @ replicate (len - length bs) (if z_neg z then 0xFF else 0)
       in (if big then rev buf else buf,
           if z_neg z \<and> len \<le> length bs \<and> len > 0 then k \<and> (last (take len bs) AND 0x80 \<noteq> 0) = z_neg z else k))"
    "k \<longleftrightarrow> bytes_val bs < 256 ^ len" "length bs = 2 * z_len z"
    "if z_neg z then bytes_val bs = 65536 ^ z_len z - ?D \<and> 0 < ?D else bytes_val bs = ?D"
    using mpz_as_bytes_shape [OF z] .
  have ng: "z_neg z" using n mpz_neg_iff [OF z] by simp
  have v: "mpz_val z = - ?D" "bytes_val bs = 65536 ^ z_len z + mpz_val z" using ng b(4) by (simp_all add: mpz_val_def)
  have ok: "(if len > 0 then k \<and> last (take len bs) AND 0x80 \<noteq> 0 else k) = ok"
  proof -
    have e: "z_neg z = True" using ng by simp
    have "(if z_neg z \<and> len \<le> length bs \<and> len > 0 then k \<and> (last (take len bs) AND 0x80 \<noteq> 0) = z_neg z else k) = ok"
      using r unfolding b(1) Let_def by (simp only: prod.inject)
    then show ?thesis unfolding e using l b(3) by (cases "0 < len") simp_all
  qed
  have low: "bytes_val (take len bs) = mpz_val z mod 256 ^ len"
    using buffer_ok [OF b(3,4), of len] l b(3) by (simp add: mpz_val_def)
  show *: "ok \<longleftrightarrow> 65536 ^ z_len z + mpz_val z < 256 ^ len \<and> 128 * 256 ^ (len - 1) \<le> mpz_val z mod 256 ^ len"
  proof (cases "len = 0")
    case True
    have "?D < 65536 ^ z_len z" by (rule dval_less)
    then show ?thesis using ok b(2) v True by simp
  next
    case False
    then have "take len bs \<noteq> []" using l b(3) by auto
    from top_bit [OF this] have "last (take len bs) AND 0x80 \<noteq> 0 \<longleftrightarrow> 128 * 256 ^ (len - 1) \<le> mpz_val z mod 256 ^ len"
      unfolding low using l b(3) by (simp add: min_def)
    then show ?thesis using ok b(2) v(2) False by simp
  qed
  assume ok
  then have c: "65536 ^ z_len z + mpz_val z < 256 ^ len" using * by simp
  have "(256 :: int) ^ Suc len \<le> 256 ^ (2 * z_len z)" by (rule power_increasing) (use l in simp_all)
  moreover have "(256 :: int) ^ (2 * z_len z) = 65536 ^ z_len z" by (simp add: power_mult)
  moreover have "(256 :: int) ^ (len - 1) \<le> 256 ^ len" by (rule power_increasing) simp_all
  moreover have "(0 :: int) < 256 ^ len" by simp
  ultimately show "mpz_val z < - (128 * 256 ^ (len - 1))" using c unfolding power_Suc by linarith
qed

section \<open>Strings\<close>

lemma div_small_ok:
  assumes "0 < uint base" "uint base \<le> 65535" "uint a < uint base"
  shows "length (fst (div_small base a ds)) = length ds \<and> uint (snd (div_small base a ds)) < uint base \<and>
    dval (rev (fst (div_small base a ds))) * uint base + uint (snd (div_small base a ds)) =
      uint a * 65536 ^ length ds + dval (rev ds)"
  using assms(3)
proof (induction ds arbitrary: a)
  case (Cons d ds)
  let ?B = "uint base" and ?a = "push_bit 16 a OR ucast d :: u32" and ?P = "65536 ^ length ds :: int"
  obtain qs r where n: "div_small base (?a mod base) ds = (qs, r)" by (metis surj_pair)
  have ua: "uint ?a = uint a * 65536 + uint d"
  proof -
    have "uint ?a = uint a * 2 ^ 16 + uint (ucast d :: u32)"
      by (rule uint_or_low) (use Cons.prems assms(2) uint16 [of d] in \<open>simp_all add: uint_widen\<close>)
    then show ?thesis by (simp add: uint_widen)
  qed
  have m: "uint (?a mod base) = uint ?a mod ?B" by (rule uint_mod)
  have ih: "length qs = length ds" "uint r < ?B" "dval (rev qs) * ?B + uint r = uint ?a mod ?B * ?P + dval (rev ds)"
    using Cons.IH [of "?a mod base"] assms(1) n unfolding m by simp_all
  have q: "uint (ucast (?a div base) :: u16) = uint ?a div ?B"
  proof -
    have "uint ?a < 65536 * ?B"
    proof -
      have "(uint a + 1) * 65536 \<le> ?B * 65536" by (rule mult_right_mono) (use Cons.prems in simp_all)
      then show ?thesis unfolding ua using uint16 [of d] by (simp add: distrib_right)
    qed
    then have "uint ?a div ?B < 65536" by (intro div_below) (use assms(1) in simp_all)
    moreover have "0 \<le> uint ?a div ?B" using assms(1) by (simp add: pos_imp_zdiv_nonneg_iff)
    ultimately show ?thesis by (simp add: uint_narrow uint_div)
  qed
  have "dval (rev (ucast (?a div base) # qs)) * ?B + uint r = ?P * (?B * (uint ?a div ?B)) + (dval (rev qs) * ?B + uint r)"
    using ih(1) q by (simp add: dval_append algebra_simps)
  also have "\<dots> = ?P * (?B * (uint ?a div ?B) + uint ?a mod ?B) + dval (rev ds)"
    unfolding ih(3) by (simp only: distrib_left add.assoc mult.commute [of "uint ?a mod ?B"])
  also have "\<dots> = uint a * 65536 ^ length (d # ds) + dval (rev (d # ds))"
    unfolding mult_div_mod_eq ua by (simp add: dval_append algebra_simps)
  finally show ?case using n ih(1,2) by (simp add: Let_def)
qed simp

text \<open>The characters of a number, the last one first.\<close>

definition chars_val :: "u32 \<Rightarrow> bytes \<Rightarrow> int option" where
  "chars_val base cs = foldr (\<lambda>c v. case (digit_of_char c, v) of
     (Some d, Some w) \<Rightarrow> if d < base then Some (uint d + uint base * w) else None | _ \<Rightarrow> None) cs (Some 0)"

lemma chars_val_simps [simp]:
  "chars_val base [] = Some 0"
  "chars_val base (c # cs) = (case (digit_of_char c, chars_val base cs) of
     (Some d, Some w) \<Rightarrow> if d < base then Some (uint d + uint base * w) else None | _ \<Rightarrow> None)"
  by (simp_all add: chars_val_def)

definition base_chars :: "u8 set" where
  "base_chars = {65, 97}"

lemma char_round_trip_all:
  "list_all (\<lambda>b. list_all (\<lambda>a. digit_of_char (char_of_digit b (word_of_int a)) = Some (word_of_int a)) [0..31]) [65, 97]"
  by code_simp

lemma char_round_trip:
  assumes "uint a < 32" "b \<in> base_chars"
  shows "digit_of_char (char_of_digit b a) = Some a"
proof -
  have "b \<in> set [65, 97]" using assms(2) by (simp add: base_chars_def)
  then have l: "list_all (\<lambda>a. digit_of_char (char_of_digit b (word_of_int a)) = Some (word_of_int a)) [0..31]"
    using char_round_trip_all unfolding list_all_iff by blast
  have "uint a \<in> set [0..31]" using assms(1) uint32(1) [of a] by simp
  then have "digit_of_char (char_of_digit b (word_of_int (uint a))) = Some (word_of_int (uint a))"
    using l unfolding list_all_iff by blast
  then show ?thesis by simp
qed

lemma all_zero_value: "list_all (\<lambda>d. d = 0) ds \<longleftrightarrow> dval (rev ds) = 0"
  by (simp add: dval_zero_all list_all_iff list_ex_iff)

lemma str_loop_ok:
  assumes "2 \<le> uint base" "uint base \<le> 32" "b \<in> base_chars"
  shows "\<exists>cs. str_loop base b 0 nc n ds = Some cs \<and> cs \<noteq> [] \<and> chars_val base cs = Some (dval (rev ds))"
proof (induction "nat (dval (rev ds))" arbitrary: n ds rule: less_induct)
  case less
  obtain qs a where d: "div_small base 0 ds = (qs, a)" by (metis surj_pair)
  have ok: "length qs = length ds" "uint a < uint base" "dval (rev qs) * uint base + uint a = dval (rev ds)"
    using div_small_ok [of base 0 ds] assms(1,2) d by auto
  have c: "digit_of_char (char_of_digit b a) = Some a" by (rule char_round_trip) (use ok(2) assms(2,3) in simp_all)
  have lt: "a < base" using ok(2) by (simp add: word_less_def)
  show ?case
  proof (cases "list_all (\<lambda>d. d = 0) qs")
    case True
    then have "dval (rev qs) = 0" using all_zero_value by blast
    then have "chars_val base [char_of_digit b a] = Some (dval (rev ds))" using c lt ok(3) by simp
    then show ?thesis using True by (subst str_loop.simps) (simp add: d Let_def)
  next
    case False
    have q: "0 < dval (rev qs)" using all_zero_value [of qs] False dval_nonneg [of "rev qs"] by linarith
    have "2 * dval (rev qs) \<le> dval (rev qs) * uint base" using q assms(1) by (simp add: mult.commute)
    then have "dval (rev qs) < dval (rev ds)" using ok(3) q uint32(1) [of a] by linarith
    then have "nat (dval (rev qs)) < nat (dval (rev ds))" using q by simp
    then obtain cs where cs: "str_loop base b 0 nc (n + 1) qs = Some cs" "chars_val base cs = Some (dval (rev qs))"
      using less.hyps by blast
    have "chars_val base (char_of_digit b a # cs) = Some (dval (rev ds))"
      using c lt cs(2) ok(3) by (simp add: mult.commute add.commute)
    then show ?thesis using False cs(1) by (subst str_loop.simps) (simp add: d Let_def)
  qed
qed

lemma chars_val_last:
  assumes "chars_val base (cs @ [c]) = Some v"
  shows "\<exists>d w. digit_of_char c = Some d \<and> d < base \<and> chars_val base cs = Some w \<and> v = w + uint base ^ length cs * uint d"
  using assms
proof (induction cs arbitrary: v)
  case Nil
  then show ?case by (auto split: option.splits if_splits)
next
  case (Cons x xs)
  then obtain y u where y: "digit_of_char x = Some y" "y < base" "chars_val base (xs @ [c]) = Some u" "v = uint y + uint base * u"
    by (auto split: option.splits if_splits)
  from Cons.IH [OF y(3)] obtain d w where
    d: "digit_of_char c = Some d" "d < base" "chars_val base xs = Some w" "u = w + uint base ^ length xs * uint d" by blast
  then show ?case using y by (simp add: algebra_simps)
qed

text \<open>Reading from the front: the value read so far moves up by one place for each character.\<close>

lemma str_digits_ok:
  assumes "normalised ds" "0 < uint base" "uint base \<le> 65535" "chars_val base (rev cs) = Some v"
  shows "snd (str_digits base ds cs) = length cs \<and> normalised (fst (str_digits base ds cs)) \<and>
    dval (fst (str_digits base ds cs)) = dval ds * uint base ^ length cs + v"
  using assms(1,4)
proof (induction cs arbitrary: ds v)
  case (Cons c cs)
  then obtain d w where d: "digit_of_char c = Some d" "d < base" "chars_val base (rev cs) = Some w"
    "v = w + uint base ^ length cs * uint d"
    using chars_val_last [of base "rev cs" c v] by auto
  let ?ds = "mpn_mul_dig_add_dig ds (ucast base) (ucast d)"
  have ub: "uint (ucast base :: u16) = uint base" using assms(2,3) by (simp add: uint_narrow)
  have "uint d < uint base" using d(2) by (simp add: word_less_def)
  then have ud: "uint (ucast d :: u16) = uint d" using assms(3) uint32(1) [of d] by (simp add: uint_narrow)
  have b0: "(ucast base :: u16) \<noteq> 0" using ub assms(2) by (auto simp flip: uint_0_iff)
  note m = mpn_mul_dig_add_dig_ok [OF Cons.prems(1) b0, of "ucast d"]
  have ih: "snd (str_digits base ?ds cs) = length cs" "normalised (fst (str_digits base ?ds cs))"
    "dval (fst (str_digits base ?ds cs)) = (dval ds * uint base + uint d) * uint base ^ length cs + w"
    using Cons.IH [OF m(2) d(3)] m(1) ub ud by simp_all
  have "str_digits base ds (c # cs) = (fst (str_digits base ?ds cs), snd (str_digits base ?ds cs) + 1)"
    using d(1,2) by (simp add: split_def not_le)
  then show ?case using ih d(4) by (simp add: algebra_simps)
qed simp

lemma chars_val_bounds:
  "chars_val base cs = Some v \<Longrightarrow> 0 \<le> v \<and> v < uint base ^ length cs"
proof (induction cs arbitrary: v)
  case (Cons c cs)
  then obtain d w where d: "d < base" "chars_val base cs = Some w" "v = uint d + uint base * w"
    by (auto split: option.splits if_splits)
  have w: "0 \<le> w" "w + 1 \<le> uint base ^ length cs" using Cons.IH [OF d(2)] by simp_all
  have "uint d < uint base" using d(1) by (simp add: word_less_def)
  moreover have "uint base * (w + 1) \<le> uint base * uint base ^ length cs" by (rule mult_left_mono [OF w(2)]) simp
  ultimately show ?case using d(3) w(1) by (simp add: distrib_left)
qed simp

lemma mpz_set_from_str_ok:
  assumes "\<not> z_fixed_dig z" "0 < uint base" "uint base \<le> 36" "chars_val base (rev cs) = Some v" "ng \<longrightarrow> v \<noteq> 0"
  shows "yields mem (\<lambda>(x, n). is_int (if ng then - v else v) x \<and> n = length cs) (mpz_set_from_str mem z cs ng base)"
proof -
  obtain ds n where r: "str_digits base [] cs = (ds, n)" by (metis surj_pair)
  have s: "n = length cs" "normalised ds" "dval ds = v"
    using str_digits_ok [OF normalised_Nil assms(2) _ assms(4)] assms(3) r by simp_all
  have le: "\<not> base > 36" using assms(3) by (simp add: word_less_def)
  have "v < uint base ^ length cs" using chars_val_bounds [OF assms(4)] by simp
  also have "\<dots> \<le> 256 ^ length cs" by (rule power_mono) (use assms(3) in simp_all)
  also have "\<dots> = (2 :: int) ^ (8 * length cs)" by (simp add: power_mult)
  also have "\<dots> \<le> 2 ^ (16 * (length cs * 8 div 16 + 1))" by (rule power_increasing) simp_all
  finally have "dval ds < 65536 ^ (length cs * 8 div 16 + 1)" unfolding s(3) power_digits .
  then have l: "length ds \<le> length cs * 8 div 16 + 1" by (rule normalised_length [OF s(2)])
  have ne: "ng \<longrightarrow> ds \<noteq> []" using assms(5) s(3) by auto
  show ?thesis unfolding mpz_set_from_str_def if_not_P [OF le] r Let_def prod.case
  proof (rule yields_need [OF assms(1)])
    fix d :: mpz_t
    assume d: "\<not> z_fixed_dig d" "length cs * 8 div DIG_SIZE + 1 \<le> z_alloc d"
    have "is_int (if ng then - v else v) (d\<lparr>z_neg := ng, z_dig := ds\<rparr>)"
      by (rule is_int_digits) (use d l s ne in \<open>simp_all add: sval_def\<close>)
    then show "yields mem (\<lambda>(x, n). is_int (if ng then - v else v) x \<and> n = length cs) (Some (d\<lparr>z_neg := ng, z_dig := ds\<rparr>, n))"
      using s(1) by simp
  qed
qed

text \<open>Printing: the characters without a sign, which read back as the magnitude.\<close>

lemma mpz_as_str_ok:
  assumes "mpz_ok z" "2 \<le> uint base" "uint base \<le> 32" "b \<in> base_chars" "mem (z_len z)"
  shows "\<exists>cs. mpz_as_str_inpl mem z base None b 0 = Some ((if z_neg z then [45] else []) @ cs) \<and>
    cs \<noteq> [] \<and> chars_val base (rev cs) = Some \<bar>mpz_val z\<bar>"
proof -
  have le: "2 \<le> base" "base \<le> 32" using assms(2,3) by (simp_all add: word_le_def)
  show ?thesis
  proof (cases "z_len z = 0")
    case True
    then have "\<not> z_neg z" using assms(1) by (auto simp: mpz_ok_def)
    moreover have "digit_of_char 48 = Some 0" by code_simp
    moreover have "0 < base" using assms(2) by (simp add: word_less_def)
    ultimately show ?thesis using True le by (intro exI [of _ "[48]"]) (simp add: mpz_as_str_inpl_def Let_def mpz_val_def)
  next
    case False
    obtain cs where cs: "str_loop base b 0 (if base = 10 then 3 else 4) 0 (rev (z_dig z)) = Some cs" "cs \<noteq> []"
      "chars_val base cs = Some (dval (z_dig z))"
      using str_loop_ok [OF assms(2-4), of "if base = 10 then 3 else 4" 0 "rev (z_dig z)"] by auto
    show ?thesis
      by (rule exI [of _ "rev cs"]) (use cs False le assms(5) in \<open>simp add: mpz_as_str_inpl_def Let_def abs_mpz_val\<close>)
  qed
qed

end
