(* ===== verification/IntObj.thy ===== *)
theory IntObj
  imports MpzConv "HOL-Library.Signed_Division"
begin

text \<open>
  Model of Python integers as objects: small integers in a tagged word and \<open>mp_obj_int_t\<close> with an
  \<open>mpz_t\<close> (py/objint_mpz.c), the arithmetic on small integers (py/smallint.c) and the integer part of
  \<open>mp_binary_op\<close> (py/runtime.c), which works in a machine word where it can and falls back to \<open>mpz\<close>.
  Of results that go through floats only the exception for a zero base is modelled.
\<close>

section \<open>Small integers\<close>

definition sdiv32 :: "u32 \<Rightarrow> u32 \<Rightarrow> u32" where
  "sdiv32 a b = word_of_int (sint a sdiv sint b)"

definition smod32 :: "u32 \<Rightarrow> u32 \<Rightarrow> u32" where
  "smod32 a b = word_of_int (sint a smod sint b)"

definition MP_SMALL_INT_FITS :: "u32 \<Rightarrow> bool" where
  "MP_SMALL_INT_FITS n = ((n XOR push_bit 1 n) AND MP_OBJ_WORD_MSBIT_HIGH = 0)"

definition MP_SMALL_INT_MIN :: u32 where
  "MP_SMALL_INT_MIN = signed_drop_bit 1 MP_OBJ_WORD_MSBIT_HIGH"

definition MP_SMALL_INT_MAX :: u32 where
  "MP_SMALL_INT_MAX = NOT MP_SMALL_INT_MIN"

definition MP_OBJ_NEW_SMALL_INT :: "u32 \<Rightarrow> u32" where
  "MP_OBJ_NEW_SMALL_INT small_int = push_bit 1 small_int OR 1"

definition MP_OBJ_SMALL_INT_VALUE :: "u32 \<Rightarrow> u32" where
  "MP_OBJ_SMALL_INT_VALUE obj = signed_drop_bit 1 obj"

definition mp_small_int_modulo :: "u32 \<Rightarrow> u32 \<Rightarrow> u32" where
  "mp_small_int_modulo dividend divisor =
     (let d = smod32 dividend divisor
      in if d <s 0 \<and> 0 <s divisor \<or> 0 <s d \<and> divisor <s 0 then d + divisor else d)"

definition mp_small_int_floor_divide :: "u32 \<Rightarrow> u32 \<Rightarrow> u32" where
  "mp_small_int_floor_divide num denom =
     (let num1 = (if 0 \<le>s num then if denom <s 0 then num + (- denom - 1) else num
                  else if 0 \<le>s denom then num + (- denom + 1) else num)
      in sdiv32 num1 denom)"

text \<open>\<open>__builtin_mul_overflow\<close> on \<open>mp_int_t\<close>; None is the overflow.\<close>

definition mp_mul_mp_int_t_overflow :: "u32 \<Rightarrow> u32 \<Rightarrow> u32 option" where
  "mp_mul_mp_int_t_overflow x y =
     (let p = sint x * sint y in if - 2147483648 \<le> p \<and> p < 2147483648 then Some (word_of_int p) else None)"

section \<open>Objects and results\<close>

text \<open>A small integer is given by its tagged word.\<close>

datatype pyint = SmallInt u32 | BigInt mpz_t

datatype int_exn = ZeroDivisionError | ValueError | OverflowError | MemoryError | TypeError

datatype int_result =
    ResInt pyint
  | ResPair pyint pyint
  | ResBool bool
  | ResFloat
  | Raise int_exn

datatype int_op =
    OP_OR | OP_XOR | OP_AND | OP_LSHIFT | OP_RSHIFT | OP_ADD | OP_SUBTRACT | OP_MULTIPLY
  | OP_FLOOR_DIVIDE | OP_TRUE_DIVIDE | OP_MODULO | OP_POWER | OP_DIVMOD
  | OP_LESS | OP_MORE | OP_LESS_EQUAL | OP_MORE_EQUAL | OP_EQUAL

definition new_small :: "u32 \<Rightarrow> pyint" where
  "new_small v = SmallInt (MP_OBJ_NEW_SMALL_INT v)"

definition or_no_memory :: "'a option \<Rightarrow> ('a \<Rightarrow> int_result) \<Rightarrow> int_result" where
  "or_no_memory r f = (case r of Some x \<Rightarrow> f x | None \<Rightarrow> Raise MemoryError)"

definition mp_obj_new_int_from_ll :: "(nat \<Rightarrow> bool) \<Rightarrow> 64 word \<Rightarrow> pyint option" where
  "mp_obj_new_int_from_ll mem val = map_option BigInt (mpz_set_from_ll mem mpz_init_zero val True)"

definition mp_obj_new_int_from_ull :: "(nat \<Rightarrow> bool) \<Rightarrow> 64 word \<Rightarrow> pyint option" where
  "mp_obj_new_int_from_ull mem val = map_option BigInt (mpz_set_from_ll mem mpz_init_zero val False)"

definition mp_obj_new_int :: "(nat \<Rightarrow> bool) \<Rightarrow> u32 \<Rightarrow> pyint option" where
  "mp_obj_new_int mem v =
     (if MP_SMALL_INT_FITS v then Some (new_small v) else mp_obj_new_int_from_ll mem (scast v))"

definition MP_SMALL_INT_POSITIVE_MASK :: u32 where
  "MP_SMALL_INT_POSITIVE_MASK = NOT (MP_OBJ_WORD_MSBIT_HIGH OR drop_bit 1 MP_OBJ_WORD_MSBIT_HIGH)"

definition mp_obj_new_int_from_uint :: "(nat \<Rightarrow> bool) \<Rightarrow> u32 \<Rightarrow> pyint option" where
  "mp_obj_new_int_from_uint mem v =
     (if v AND NOT MP_SMALL_INT_POSITIVE_MASK = 0 then Some (new_small v) else mp_obj_new_int_from_ull mem (ucast v))"

definition mp_obj_int_get_truncated :: "pyint \<Rightarrow> u32" where
  "mp_obj_int_get_truncated self = (case self of SmallInt w \<Rightarrow> MP_OBJ_SMALL_INT_VALUE w | BigInt z \<Rightarrow> mpz_hash z)"

text \<open>None is OverflowError.\<close>

definition mp_obj_int_get_checked :: "pyint \<Rightarrow> u32 option" where
  "mp_obj_int_get_checked self =
     (case self of SmallInt w \<Rightarrow> Some (MP_OBJ_SMALL_INT_VALUE w) | BigInt z \<Rightarrow> mpz_as_int_checked z)"

definition mp_obj_int_get_uint_checked :: "pyint \<Rightarrow> u32 option" where
  "mp_obj_int_get_uint_checked self =
     (case self of
        SmallInt w \<Rightarrow> if 0 \<le>s MP_OBJ_SMALL_INT_VALUE w then Some (MP_OBJ_SMALL_INT_VALUE w) else None
      | BigInt z \<Rightarrow> mpz_as_uint_checked z)"

definition mp_obj_int_sign :: "pyint \<Rightarrow> int" where
  "mp_obj_int_sign self =
     (case self of
        SmallInt w \<Rightarrow> let val = MP_OBJ_SMALL_INT_VALUE w in if val <s 0 then -1 else if 0 <s val then 1 else 0
      | BigInt z \<Rightarrow> if z_len z = 0 then 0 else if \<not> z_neg z then 1 else -1)"

section \<open>Powers in floats\<close>

text \<open>A float is a float of 32 bits, and only as much of it is modelled as decides about the exception of
  \<open>mp_obj_float_binary_op\<close>: its sign and, for the whole numbers that integers are converted to, its magnitude,
  rounded to 24 bits, halves to even.  None is the infinity.\<close>

fun bit_length :: "nat \<Rightarrow> nat" where
  "bit_length n = (if n = 0 then 0 else Suc (bit_length (n div 2)))"

definition to_single :: "nat \<Rightarrow> nat option" where
  "to_single n =
     (let e = bit_length n - 24;
          q = n div 2 ^ e;
          r = n mod 2 ^ e;
          m = (if 2 ^ e < 2 * r \<or> 2 * r = 2 ^ e \<and> odd q then q + 1 else q) * 2 ^ e
      in if m < 2 ^ 128 then Some m else None)"

definition mpz_as_float :: "mpz_t \<Rightarrow> bool \<times> nat option" where
  "mpz_as_float i =
     (z_neg i, fold (\<lambda>d val. Option.bind val (\<lambda>v. to_single (v * 0x10000 + unat d))) (rev (z_dig i)) (Some 0))"

definition mp_obj_get_float_maybe :: "pyint \<Rightarrow> bool \<times> nat option" where
  "mp_obj_get_float_maybe arg =
     (case arg of
        SmallInt w \<Rightarrow> (let v = sint (MP_OBJ_SMALL_INT_VALUE w) in (v < 0, to_single (nat \<bar>v\<bar>)))
      | BigInt z \<Rightarrow> mpz_as_float z)"

definition mp_obj_float_power :: "bool \<times> nat option \<Rightarrow> pyint \<Rightarrow> int_result" where
  "mp_obj_float_power lhs_val rhs_in =
     (case mp_obj_get_float_maybe rhs_in of
        (ng, rhs_val) \<Rightarrow>
          if snd lhs_val = Some 0 \<and> (ng \<and> rhs_val \<noteq> Some 0) \<and> rhs_val \<noteq> None then Raise ZeroDivisionError else ResFloat)"

section \<open>Operations on big integers\<close>

text \<open>The small operand is put into an \<open>mpz_t\<close> on the stack, with a fixed buffer.\<close>

definition mpz_operand :: "(nat \<Rightarrow> bool) \<Rightarrow> pyint \<Rightarrow> mpz_t option" where
  "mpz_operand mem x =
     (case x of
        SmallInt w \<Rightarrow> mpz_init_fixed_from_int mem MPZ_NUM_DIG_FOR_INT (MP_OBJ_SMALL_INT_VALUE w)
      | BigInt z \<Rightarrow> Some z)"

text \<open>The result becomes a small integer when it fits.\<close>

definition small_if_fits :: "mpz_t \<Rightarrow> pyint" where
  "small_if_fits res =
     (case mpz_as_int_checked res of
        Some v \<Rightarrow> if MP_SMALL_INT_FITS v then new_small v else BigInt res
      | None \<Rightarrow> BigInt res)"

definition int_res :: "mpz_t option \<Rightarrow> int_result" where
  "int_res r = or_no_memory r (\<lambda>z. ResInt (small_if_fits z))"

definition mpz_binary :: "(nat \<Rightarrow> bool) \<Rightarrow> int_op \<Rightarrow> mpz_t \<Rightarrow> mpz_t \<Rightarrow> pyint \<Rightarrow> int_result" where
  "mpz_binary mem op zlhs zrhs rhs_in =
     (let res = mpz_init_zero
      in case op of
        OP_ADD \<Rightarrow> int_res (mpz_add_inpl mem res zlhs zrhs)
      | OP_SUBTRACT \<Rightarrow> int_res (mpz_sub_inpl mem res zlhs zrhs)
      | OP_MULTIPLY \<Rightarrow> int_res (mpz_mul_inpl mem False False res zlhs zrhs)
      | OP_FLOOR_DIVIDE \<Rightarrow>
          if mpz_is_zero zrhs then Raise ZeroDivisionError
          else int_res (map_option fst (mpz_divmod_inpl mem False res mpz_init_zero zlhs zrhs))
      | OP_MODULO \<Rightarrow>
          if mpz_is_zero zrhs then Raise ZeroDivisionError
          else int_res (map_option snd (mpz_divmod_inpl mem False mpz_init_zero res zlhs zrhs))
      | OP_AND \<Rightarrow> int_res (mpz_and_inpl mem res zlhs zrhs)
      | OP_OR \<Rightarrow> int_res (mpz_or_inpl mem res zlhs zrhs)
      | OP_XOR \<Rightarrow> int_res (mpz_xor_inpl mem res zlhs zrhs)
      | OP_LSHIFT \<Rightarrow>
          (case mp_obj_int_get_checked rhs_in of
             None \<Rightarrow> Raise OverflowError
           | Some irhs \<Rightarrow> if irhs <s 0 then Raise ValueError else int_res (mpz_shl_inpl mem res zlhs irhs))
      | OP_RSHIFT \<Rightarrow>
          (case mp_obj_int_get_checked rhs_in of
             None \<Rightarrow> Raise OverflowError
           | Some irhs \<Rightarrow> if irhs <s 0 then Raise ValueError else int_res (mpz_shr_inpl mem False res zlhs irhs))
      | OP_POWER \<Rightarrow>
          if mpz_is_neg zrhs then mp_obj_float_power (mpz_as_float zlhs) rhs_in
          else int_res (mpz_pow_inpl mem res zlhs zrhs)
      | OP_DIVMOD \<Rightarrow>
          if mpz_is_zero zrhs then Raise ZeroDivisionError
          else or_no_memory (mpz_divmod_inpl mem False mpz_init_zero res zlhs zrhs)
                 (\<lambda>(quo, rem). ResPair (BigInt quo) (BigInt rem))
      | OP_TRUE_DIVIDE \<Rightarrow> if mpz_is_zero zrhs then Raise ZeroDivisionError else ResFloat
      | OP_LESS \<Rightarrow> ResBool (mpz_cmp zlhs zrhs < 0)
      | OP_MORE \<Rightarrow> ResBool (mpz_cmp zlhs zrhs > 0)
      | OP_LESS_EQUAL \<Rightarrow> ResBool (mpz_cmp zlhs zrhs \<le> 0)
      | OP_MORE_EQUAL \<Rightarrow> ResBool (mpz_cmp zlhs zrhs \<ge> 0)
      | OP_EQUAL \<Rightarrow> ResBool (mpz_cmp zlhs zrhs = 0))"

definition mp_obj_int_binary_op :: "(nat \<Rightarrow> bool) \<Rightarrow> int_op \<Rightarrow> pyint \<Rightarrow> pyint \<Rightarrow> int_result" where
  "mp_obj_int_binary_op mem op lhs_in rhs_in =
     or_no_memory (mpz_operand mem lhs_in) (\<lambda>zlhs.
     or_no_memory (mpz_operand mem rhs_in) (\<lambda>zrhs.
       mpz_binary mem op zlhs zrhs rhs_in))"

datatype int_unary = UNARY_BOOL | UNARY_HASH | UNARY_POSITIVE | UNARY_NEGATIVE | UNARY_INVERT | UNARY_ABS

text \<open>Only called for big integers.\<close>

definition mp_obj_int_unary_op :: "(nat \<Rightarrow> bool) \<Rightarrow> int_unary \<Rightarrow> mpz_t \<Rightarrow> int_result" where
  "mp_obj_int_unary_op mem op o_in =
     (case op of
        UNARY_BOOL \<Rightarrow> ResBool (\<not> mpz_is_zero o_in)
      | UNARY_HASH \<Rightarrow> ResInt (new_small (mpz_hash o_in))
      | UNARY_POSITIVE \<Rightarrow> ResInt (BigInt o_in)
      | UNARY_NEGATIVE \<Rightarrow> or_no_memory (mpz_neg_inpl mem False mpz_init_zero o_in) (\<lambda>z. ResInt (BigInt z))
      | UNARY_INVERT \<Rightarrow> or_no_memory (mpz_not_inpl mem False mpz_init_zero o_in) (\<lambda>z. ResInt (BigInt z))
      | UNARY_ABS \<Rightarrow>
          if \<not> z_neg o_in then ResInt (BigInt o_in)
          else or_no_memory (mpz_abs_inpl mem False mpz_init_zero o_in) (\<lambda>z. ResInt (BigInt z)))"

section \<open>Three-argument power, bytes\<close>

definition mp_mpz_for_int :: "(nat \<Rightarrow> bool) \<Rightarrow> pyint \<Rightarrow> mpz_t option" where
  "mp_mpz_for_int mem arg =
     (case arg of SmallInt w \<Rightarrow> mpz_init_from_int mem (MP_OBJ_SMALL_INT_VALUE w) | BigInt z \<Rightarrow> Some z)"

definition mp_obj_int_pow3 :: "(nat \<Rightarrow> bool) \<Rightarrow> pyint \<Rightarrow> pyint \<Rightarrow> pyint \<Rightarrow> int_result" where
  "mp_obj_int_pow3 mem base exponent modulus =
     (if modulus = new_small 0 then Raise ValueError
      else
        or_no_memory (mp_mpz_for_int mem base) (\<lambda>lhs.
        or_no_memory (mp_mpz_for_int mem exponent) (\<lambda>rhs.
        or_no_memory (mp_mpz_for_int mem modulus) (\<lambda>md.
        or_no_memory (mpz_pow3_inpl mem mpz_init_zero lhs rhs md) (\<lambda>res.
          ResInt (BigInt res))))))"

definition mp_obj_int_from_bytes_impl :: "(nat \<Rightarrow> bool) \<Rightarrow> bool \<Rightarrow> bytes \<Rightarrow> pyint option" where
  "mp_obj_int_from_bytes_impl mem big_endian buf = map_option BigInt (mpz_set_from_bytes mem mpz_init_zero big_endian buf)"

definition mp_obj_int_to_bytes_impl :: "mpz_t \<Rightarrow> bool \<Rightarrow> nat \<Rightarrow> bytes \<times> bool" where
  "mp_obj_int_to_bytes_impl self big_endian len = mpz_as_bytes self big_endian (z_neg self) len"

definition mp_obj_new_int_from_str_len :: "(nat \<Rightarrow> bool) \<Rightarrow> bytes \<Rightarrow> bool \<Rightarrow> u32 \<Rightarrow> (pyint \<times> nat) option" where
  "mp_obj_new_int_from_str_len mem str ng base =
     map_option (\<lambda>(z, n). (BigInt z, n)) (mpz_set_from_str mem mpz_init_zero str ng base)"

section \<open>The integer part of mp_binary_op\<close>

text \<open>The loop of \<open>**\<close>: None is an overflow of the machine word.\<close>

function small_pow_loop :: "u32 \<Rightarrow> u32 \<Rightarrow> int \<Rightarrow> u32 option" where
  "small_pow_loop ans lhs_val rhs_val =
     (if rhs_val > 0 then do {
        ans1 \<leftarrow> (if rhs_val mod 2 = 1 then mp_mul_mp_int_t_overflow ans lhs_val else Some ans);
        if rhs_val = 1 then Some ans1
        else do {
          sq \<leftarrow> mp_mul_mp_int_t_overflow lhs_val lhs_val;
          small_pow_loop ans1 sq (rhs_val div 2) } }
      else Some ans)"
  by pat_completeness auto
termination by (relation "measure (\<lambda>(a, b, n). nat n)") auto

declare small_pow_loop.simps [simp del]

text \<open>The fallback: the left operand as a big integer.\<close>

definition higher_precision :: "(nat \<Rightarrow> bool) \<Rightarrow> int_op \<Rightarrow> u32 \<Rightarrow> u32 \<Rightarrow> int_result" where
  "higher_precision mem op lhs rhs =
     or_no_memory (mp_obj_new_int_from_ll mem (scast (MP_OBJ_SMALL_INT_VALUE lhs))) (\<lambda>l.
       mp_obj_int_binary_op mem op l (SmallInt rhs))"

definition small_binary_op :: "(nat \<Rightarrow> bool) \<Rightarrow> int_op \<Rightarrow> u32 \<Rightarrow> u32 \<Rightarrow> int_result" where
  "small_binary_op mem op lhs rhs =
     (let lhs_val = MP_OBJ_SMALL_INT_VALUE lhs;
          rhs_val = MP_OBJ_SMALL_INT_VALUE rhs;
          finish = (\<lambda>v. or_no_memory (mp_obj_new_int mem v) ResInt)
      in case op of
        OP_OR \<Rightarrow> finish (lhs_val OR rhs_val)
      | OP_XOR \<Rightarrow> finish (lhs_val XOR rhs_val)
      | OP_AND \<Rightarrow> finish (lhs_val AND rhs_val)
      | OP_LSHIFT \<Rightarrow>
          if rhs_val <s 0 then Raise ValueError
          else if 32 \<le>s rhs_val \<or> signed_drop_bit (unat rhs_val) MP_SMALL_INT_MAX <s lhs_val
                  \<or> lhs_val <s signed_drop_bit (unat rhs_val) MP_SMALL_INT_MIN
               then higher_precision mem op lhs rhs
               else finish (push_bit (unat rhs_val) lhs_val)
      | OP_RSHIFT \<Rightarrow>
          if rhs_val <s 0 then Raise ValueError
          else finish (signed_drop_bit (unat (if 32 \<le>s rhs_val then 31 else rhs_val)) lhs_val)
      | OP_ADD \<Rightarrow> finish (lhs_val + rhs_val)
      | OP_SUBTRACT \<Rightarrow> finish (lhs_val - rhs_val)
      | OP_MULTIPLY \<Rightarrow>
          (case mp_mul_mp_int_t_overflow lhs_val rhs_val of
             None \<Rightarrow> higher_precision mem op lhs rhs
           | Some v \<Rightarrow> finish v)
      | OP_FLOOR_DIVIDE \<Rightarrow>
          if rhs_val = 0 then Raise ZeroDivisionError else finish (mp_small_int_floor_divide lhs_val rhs_val)
      | OP_TRUE_DIVIDE \<Rightarrow> if rhs_val = 0 then Raise ZeroDivisionError else ResFloat
      | OP_MODULO \<Rightarrow>
          if rhs_val = 0 then Raise ZeroDivisionError else finish (mp_small_int_modulo lhs_val rhs_val)
      | OP_POWER \<Rightarrow>
          if rhs_val <s 0 then mp_obj_float_power (mp_obj_get_float_maybe (SmallInt lhs)) (SmallInt rhs)
          else (case small_pow_loop 1 lhs_val (sint rhs_val) of
                  None \<Rightarrow> higher_precision mem op lhs rhs
                | Some v \<Rightarrow> finish v)
      | OP_DIVMOD \<Rightarrow>
          if rhs_val = 0 then Raise ZeroDivisionError
          else ResPair (new_small (mp_small_int_floor_divide lhs_val rhs_val))
                       (new_small (mp_small_int_modulo lhs_val rhs_val))
      | OP_LESS \<Rightarrow> ResBool (lhs_val <s rhs_val)
      | OP_MORE \<Rightarrow> ResBool (rhs_val <s lhs_val)
      | OP_LESS_EQUAL \<Rightarrow> ResBool (lhs_val \<le>s rhs_val)
      | OP_MORE_EQUAL \<Rightarrow> ResBool (rhs_val \<le>s lhs_val)
      | OP_EQUAL \<Rightarrow> Raise TypeError)"

text \<open>Equality of integers: equal words are the same object, different small integers are different
  numbers, and a small integer on the left of a big one changes sides.\<close>

definition mp_obj_equal_not_equal :: "(nat \<Rightarrow> bool) \<Rightarrow> pyint \<Rightarrow> pyint \<Rightarrow> int_result" where
  "mp_obj_equal_not_equal mem o1 o2 =
     (case (o1, o2) of
        (SmallInt a, SmallInt b) \<Rightarrow> ResBool (a = b)
      | (SmallInt _, BigInt _) \<Rightarrow> mp_obj_int_binary_op mem OP_EQUAL o2 o1
      | _ \<Rightarrow> mp_obj_int_binary_op mem OP_EQUAL o1 o2)"

definition mp_binary_op :: "(nat \<Rightarrow> bool) \<Rightarrow> int_op \<Rightarrow> pyint \<Rightarrow> pyint \<Rightarrow> int_result" where
  "mp_binary_op mem op lhs rhs =
     (if op = OP_EQUAL then mp_obj_equal_not_equal mem lhs rhs
      else case (lhs, rhs) of
        (SmallInt l, SmallInt r) \<Rightarrow> small_binary_op mem op l r
      | _ \<Rightarrow> mp_obj_int_binary_op mem op lhs rhs)"

end
