(* ===== verification/IntCorrect.thy ===== *)
theory IntCorrect
  imports IntObj
begin

text \<open>
  Arithmetic on Python integers is that of the integers: first the machine words of small integers,
  then the operations on big ones, then \<open>mp_binary_op\<close> with its fallback from one to the other.
\<close>

section \<open>Signed words\<close>

lemma sint_range: "- 2147483648 \<le> sint (v :: u32)" "sint (v :: u32) < 2147483648"
  using sint_greater_eq [of v] sint_less [of v] by simp_all

lemma sint_of: "- 2147483648 \<le> k \<Longrightarrow> k < 2147483648 \<Longrightarrow> sint (word_of_int k :: u32) = k"
  by (simp add: sint_sbintrunc' signed_take_bit_int_eq_self)

lemma word_sint: "(v :: u32) = word_of_int (sint v)"
  by simp

lemma sint_arith:
  fixes a b :: u32
  shows "- 2147483648 \<le> sint a + sint b \<Longrightarrow> sint a + sint b < 2147483648 \<Longrightarrow> sint (a + b) = sint a + sint b"
    "- 2147483648 \<le> sint a - sint b \<Longrightarrow> sint a - sint b < 2147483648 \<Longrightarrow> sint (a - b) = sint a - sint b"
    "- 2147483647 \<le> sint a \<Longrightarrow> sint (- a) = - sint a"
proof -
  show "- 2147483648 \<le> sint a + sint b \<Longrightarrow> sint a + sint b < 2147483648 \<Longrightarrow> sint (a + b) = sint a + sint b"
    using sint_of [of "sint a + sint b"] by simp
  show "- 2147483648 \<le> sint a - sint b \<Longrightarrow> sint a - sint b < 2147483648 \<Longrightarrow> sint (a - b) = sint a - sint b"
    using sint_of [of "sint a - sint b"] by simp
  show "- 2147483647 \<le> sint a \<Longrightarrow> sint (- a) = - sint a"
    using sint_of [of "- sint a"] sint_range [of a] by simp
qed

lemma sint_shr: "sint (signed_drop_bit n (v :: u32)) = sint v div 2 ^ n"
  by (simp add: sint_signed_drop_bit_eq drop_bit_eq_div)

lemma sint_shl:
  fixes v :: u32
  assumes "- 2147483648 \<le> sint v * 2 ^ n" "sint v * 2 ^ n < 2147483648"
  shows "sint (push_bit n v) = sint v * 2 ^ n"
proof -
  have "push_bit n v = word_of_int (sint v) * 2 ^ n" by (simp add: push_bit_eq_mult)
  also have "\<dots> = word_of_int (sint v * 2 ^ n)" by (simp only: of_int_mult of_int_power of_int_numeral)
  finally show ?thesis using sint_of [OF assms] by simp
qed

lemma msb_clear: "x AND MP_OBJ_WORD_MSBIT_HIGH = 0 \<longleftrightarrow> \<not> bit x 31"
  using and_exp_eq_0_iff_not_bit [of x 31] by (simp add: MP_OBJ_WORD_MSBIT_HIGH_def)

lemma fits_iff: "MP_SMALL_INT_FITS n \<longleftrightarrow> - 1073741824 \<le> sint n \<and> sint n < 1073741824"
proof -
  have b: "bit n 31 = odd (sint n div 2147483648)" "bit n 30 = odd (sint n div 1073741824)"
    using bit_sint_iff [of n 31] bit_sint_iff [of n 30] by (simp_all add: bit_iff_odd [of "sint n"])
  have "bit (n XOR push_bit 1 n) 31 \<longleftrightarrow> bit n 31 \<noteq> bit n 30"
    unfolding bit_xor_iff bit_push_bit_iff by simp
  then have f: "MP_SMALL_INT_FITS n \<longleftrightarrow> bit n 31 = bit n 30"
    unfolding MP_SMALL_INT_FITS_def msb_clear by simp
  have q: "sint n div k = m" if "k * m \<le> sint n" "sint n < k * m + k" for k m
    using that by (intro int_div_pos_eq [of _ _ _ "sint n - k * m"]) simp_all
  consider "sint n < - 1073741824" | "- 1073741824 \<le> sint n" "sint n < 0"
    | "0 \<le> sint n" "sint n < 1073741824" | "1073741824 \<le> sint n" by linarith
  then show ?thesis
  proof cases
    case 1
    then show ?thesis using q [of 2147483648 "- 1"] q [of 1073741824 "- 2"] sint_range [of n] by (simp add: f b)
  next
    case 2
    then show ?thesis using q [of 2147483648 "- 1"] q [of 1073741824 "- 1"] by (simp add: f b)
  next
    case 3
    then show ?thesis using q [of 2147483648 0] q [of 1073741824 0] by (simp add: f b)
  next
    case 4
    then show ?thesis using q [of 2147483648 0] q [of 1073741824 1] sint_range [of n] by (simp add: f b)
  qed
qed

section \<open>Small integers\<close>

lemma small_bounds: "sint MP_SMALL_INT_MIN = - 1073741824" "sint MP_SMALL_INT_MAX = 1073741823"
proof -
  have min: "MP_SMALL_INT_MIN = 0xC0000000" and max: "MP_SMALL_INT_MAX = 0x3FFFFFFF" by code_simp+
  show "sint MP_SMALL_INT_MIN = - 1073741824" unfolding min by simp
  show "sint MP_SMALL_INT_MAX = 1073741823" unfolding max by simp
qed

definition tagged :: "u32 \<Rightarrow> bool" where
  "tagged w = bit w 0"

lemma new_small_word: "MP_OBJ_NEW_SMALL_INT v = v * 2 + 1"
proof -
  have "push_bit k v AND (1 :: u32) = 0" if "0 < k" for k
    by (rule bit_eqI) (use that in \<open>auto simp: bit_and_iff bit_push_bit_iff bit_1_iff\<close>)
  from this [of 1] have "push_bit 1 v AND (1 :: u32) = 0" by (simp only: zero_less_one simp_thms)
  then have "push_bit 1 v OR 1 = push_bit 1 v + (1 :: u32)" by (rule disjunctive_add_eq_or [symmetric])
  then show ?thesis by (simp add: MP_OBJ_NEW_SMALL_INT_def push_bit_eq_mult)
qed

lemma tagged_new [simp]: "tagged (MP_OBJ_NEW_SMALL_INT v)"
  by (simp add: tagged_def MP_OBJ_NEW_SMALL_INT_def bit_or_iff)

lemma sint_value: "sint (MP_OBJ_SMALL_INT_VALUE w) = sint w div 2"
  by (simp add: MP_OBJ_SMALL_INT_VALUE_def sint_shr)

lemma value_range: "- 1073741824 \<le> sint (MP_OBJ_SMALL_INT_VALUE w)" "sint (MP_OBJ_SMALL_INT_VALUE w) < 1073741824"
  unfolding sint_value using sint_range [of w] mult_div_mod_eq [of 2 "sint w"] pos_mod_sign [of 2 "sint w"] pos_mod_bound [of 2 "sint w"]
  by linarith+

lemma value_new:
  assumes "MP_SMALL_INT_FITS v"
  shows "sint (MP_OBJ_SMALL_INT_VALUE (MP_OBJ_NEW_SMALL_INT v)) = sint v"
proof -
  have "v * 2 + 1 = word_of_int (sint v) * word_of_int 2 + word_of_int 1" by simp
  also have "\<dots> = word_of_int (sint v * 2 + 1)" by (simp only: of_int_mult of_int_add)
  finally have "sint (v * 2 + 1) = sint v * 2 + 1" using assms sint_of [of "sint v * 2 + 1"] by (simp add: fits_iff)
  then show ?thesis unfolding sint_value new_small_word by simp
qed

text \<open>Division of C, which truncates, and the corrections that make it round down.\<close>

lemma sint_sdiv32:
  assumes "\<bar>sint a\<bar> < 2147483648"
  shows "sint (sdiv32 a b) = sint a sdiv sint b"
proof -
  have "- \<bar>sint a\<bar> \<le> sint a sdiv sint b" "sint a sdiv sint b \<le> \<bar>sint a\<bar>" using sdiv_int_range [of "sint a" "sint b"] by simp_all
  then show ?thesis using assms unfolding sdiv32_def by (intro sint_of) linarith+
qed

lemma sint_smod32:
  assumes "sint b \<noteq> 0"
  shows "sint (smod32 a b) = sint a smod sint b"
proof -
  have "- \<bar>sint b\<bar> + 1 \<le> sint a smod sint b" "sint a smod sint b \<le> \<bar>sint b\<bar> - 1"
    using smod_int_range [OF assms, of "sint a"] by simp_all
  then show ?thesis using sint_range [of b] unfolding smod32_def by (intro sint_of) linarith+
qed

lemma ceil_div:
  fixes n b :: int
  assumes "0 < b"
  shows "(n + b - 1) div b = n div b + of_bool (n mod b \<noteq> 0)"
proof (cases "n mod b = 0")
  case True
  have "n + b - 1 = b * (n div b) + (b - 1)" using mult_div_mod_eq [of b n] True by linarith
  from int_div_pos_eq [OF this] show ?thesis using True assms by simp
next
  case False
  have "0 \<le> n mod b - 1" "n mod b - 1 < b" using False assms pos_mod_sign [of b n] pos_mod_bound [of b n] by linarith+
  moreover have "n + b - 1 = b * (n div b + 1) + (n mod b - 1)"
    using mult_div_mod_eq [of b n] unfolding distrib_left by linarith
  ultimately have "(n + b - 1) div b = n div b + 1" by (intro int_div_pos_eq)
  then show ?thesis using False by simp
qed

lemma div_negated:
  fixes n b :: int
  assumes "0 < b"
  shows "n div - b = - ((n + b - 1) div b)" "- n div b = - ((n + b - 1) div b)"
  unfolding ceil_div [OF assms] using assms by (simp_all add: zdiv_zminus1_eq_if zdiv_zminus2_eq_if)

lemma floor_divide_ok:
  assumes nz: "sint d \<noteq> 0" and r: "\<bar>sint n\<bar> \<le> 1073741824" "\<bar>sint d\<bar> \<le> 1073741824"
  shows "sint (mp_small_int_floor_divide n d) = sint n div sint d"
proof -
  let ?n = "sint n" and ?d = "sint d"
  consider (a) "0 \<le> ?n" "?d < 0" | (b) "0 \<le> ?n" "0 < ?d" | (c) "?n < 0" "0 < ?d" | (d) "?n < 0" "?d < 0"
    using nz by linarith
  then show ?thesis
  proof cases
    case a
    have m: "sint (- d - 1) = - ?d - 1" using r(2) a by (subst sint_arith(2)) (simp_all add: sint_arith(3))
    have s: "sint (n + (- d - 1)) = ?n + (- ?d - 1)" using r a by (subst sint_arith(1)) (simp_all add: m)
    have "sint (mp_small_int_floor_divide n d) = (?n + (- ?d - 1)) sdiv ?d"
      unfolding mp_small_int_floor_divide_def Let_def using a r
      by (simp add: word_sle_eq word_sless_alt sint_sdiv32 s)
    also have "\<dots> = - ((?n + - ?d - 1) div (- ?d))"
      using a by (cases "?n + - ?d - 1 = 0") (auto simp: signed_divide_int_def sgn_if abs_if add_diff_eq)
    also have "\<dots> = ?n div - (- ?d)" using div_negated(1) [of "- ?d" ?n] a by simp
    finally show ?thesis by simp
  next
    case b
    then have "sint (mp_small_int_floor_divide n d) = ?n sdiv ?d"
      unfolding mp_small_int_floor_divide_def Let_def using r by (simp add: word_sle_eq word_sless_alt sint_sdiv32)
    then show ?thesis using b by (simp add: signed_divide_int_def sgn_if)
  next
    case c
    have m: "sint (1 - d) = 1 - ?d" using r(2) c by (subst sint_arith(2)) simp_all
    have s: "sint (n + (1 - d)) = ?n + (1 - ?d)" using r c by (subst sint_arith(1)) (simp_all add: m)
    have "sint (mp_small_int_floor_divide n d) = (?n + (- ?d + 1)) sdiv ?d"
      unfolding mp_small_int_floor_divide_def Let_def using c r
      by (simp add: word_sle_eq word_sless_alt sint_sdiv32 s)
    also have "\<dots> = - ((- ?n + ?d - 1) div ?d)"
      using c by (auto simp: signed_divide_int_def sgn_if abs_if algebra_simps)
    also have "\<dots> = - (- ?n) div ?d" using div_negated(2) [of ?d "- ?n"] c by simp
    finally show ?thesis by simp
  next
    case d
    then have "sint (mp_small_int_floor_divide n d) = ?n sdiv ?d"
      unfolding mp_small_int_floor_divide_def Let_def using r by (simp add: word_sle_eq word_sless_alt sint_sdiv32)
    then show ?thesis using d by (simp add: signed_divide_int_def sgn_if)
  qed
qed

lemma smod_floor:
  fixes n d :: int
  assumes "d \<noteq> 0"
  shows "(if n smod d < 0 \<and> 0 < d \<or> 0 < n smod d \<and> d < 0 then n smod d + d else n smod d) = n mod d"
proof -
  consider (a) "0 \<le> n" "d < 0" | (b) "0 \<le> n" "0 < d" | (c) "n < 0" "0 < d" | (e) "n < 0" "d < 0"
    using assms by linarith
  then show ?thesis
  proof cases
    case a
    have s: "n smod d = n mod - d" using a by (auto simp: signed_modulo_int_def sgn_if)
    have "0 \<le> n mod - d" using a by (intro pos_mod_sign) simp
    then show ?thesis unfolding s using a zmod_zminus2_eq_if [of n "- d"] by (auto simp: order_less_le)
  next
    case b
    then have s: "n smod d = n mod d" by (auto simp: signed_modulo_int_def sgn_if)
    have "0 \<le> n mod d" using b by (intro pos_mod_sign)
    then have "\<not> n mod d < 0" by linarith
    then show ?thesis unfolding s using b by auto
  next
    case c
    have s: "n smod d = - (- n mod d)" using c by (auto simp: signed_modulo_int_def sgn_if)
    have "0 \<le> - n mod d" using c by (intro pos_mod_sign)
    then show ?thesis unfolding s using c zmod_zminus1_eq_if [of "- n" d] by (auto simp: order_less_le)
  next
    case e
    have s: "n smod d = - (- n mod - d)" using e by (auto simp: signed_modulo_int_def sgn_if)
    have "n mod d \<le> 0" using e by (intro neg_mod_sign)
    then have "\<not> 0 < n mod d" by linarith
    then show ?thesis using s e by auto
  qed
qed

lemma modulo_ok:
  assumes d: "sint d \<noteq> 0"
  shows "sint (mp_small_int_modulo n d) = sint n mod sint d"
proof -
  let ?n = "sint n" and ?d = "sint d" and ?m = "sint n smod sint d"
  have m: "sint (smod32 n d) = ?m" by (rule sint_smod32 [OF d])
  have r: "- \<bar>?d\<bar> + 1 \<le> ?m" "?m \<le> \<bar>?d\<bar> - 1" using smod_int_range [OF d, of ?n] by simp_all
  let ?c = "?m < 0 \<and> 0 < ?d \<or> 0 < ?m \<and> ?d < 0"
  have s: "?c \<Longrightarrow> sint (smod32 n d + d) = ?m + ?d"
    using r sint_range [of d] by (subst sint_arith(1)) (simp_all add: m, linarith+)
  have "sint (mp_small_int_modulo n d) = (if ?c then ?m + ?d else ?m)"
    using s by (simp add: mp_small_int_modulo_def Let_def word_sless_alt m)
  also have "\<dots> = ?n mod ?d"
    by (rule smod_floor [OF d])
  finally show ?thesis .
qed

section \<open>What the operations promise\<close>

definition int_val :: "pyint \<Rightarrow> int" where
  "int_val x = (case x of SmallInt w \<Rightarrow> sint (MP_OBJ_SMALL_INT_VALUE w) | BigInt z \<Rightarrow> mpz_val z)"

definition int_ok :: "pyint \<Rightarrow> bool" where
  "int_ok x = (case x of SmallInt w \<Rightarrow> tagged w | BigInt z \<Rightarrow> mpz_ok z \<and> \<not> z_fixed_dig z)"

lemma int_val_simps [simp]:
  "int_val (SmallInt w) = sint (MP_OBJ_SMALL_INT_VALUE w)" "int_val (BigInt z) = mpz_val z"
  "int_ok (SmallInt w) = tagged w" "int_ok (BigInt z) \<longleftrightarrow> mpz_ok z \<and> \<not> z_fixed_dig z"
  by (simp_all add: int_val_def int_ok_def)

lemma new_small_ok:
  assumes "- 1073741824 \<le> sint v" "sint v < 1073741824"
  shows "int_ok (new_small v)" "int_val (new_small v) = sint v"
  using value_new [of v] assms by (simp_all add: new_small_def fits_iff)

text \<open>The outcome of an operation on integers, as Python defines it; true division and powers with a
  negative exponent give floats, which are left open.\<close>

datatype outcome = PyInt int | PyPair int int | PyBool bool | PyFloat | PyRaise int_exn

definition py_binary :: "int_op \<Rightarrow> int \<Rightarrow> int \<Rightarrow> outcome" where
  "py_binary op a b =
     (case op of
        OP_OR \<Rightarrow> PyInt (a OR b)
      | OP_XOR \<Rightarrow> PyInt (a XOR b)
      | OP_AND \<Rightarrow> PyInt (a AND b)
      | OP_LSHIFT \<Rightarrow> if b < 0 then PyRaise ValueError else PyInt (a * 2 ^ nat b)
      | OP_RSHIFT \<Rightarrow> if b < 0 then PyRaise ValueError else PyInt (a div 2 ^ nat b)
      | OP_ADD \<Rightarrow> PyInt (a + b)
      | OP_SUBTRACT \<Rightarrow> PyInt (a - b)
      | OP_MULTIPLY \<Rightarrow> PyInt (a * b)
      | OP_FLOOR_DIVIDE \<Rightarrow> if b = 0 then PyRaise ZeroDivisionError else PyInt (a div b)
      | OP_TRUE_DIVIDE \<Rightarrow> if b = 0 then PyRaise ZeroDivisionError else PyFloat
      | OP_MODULO \<Rightarrow> if b = 0 then PyRaise ZeroDivisionError else PyInt (a mod b)
      | OP_POWER \<Rightarrow> if b < 0 then (if a = 0 then PyRaise ZeroDivisionError else PyFloat) else PyInt (a ^ nat b)
      | OP_DIVMOD \<Rightarrow> if b = 0 then PyRaise ZeroDivisionError else PyPair (a div b) (a mod b)
      | OP_LESS \<Rightarrow> PyBool (a < b)
      | OP_MORE \<Rightarrow> PyBool (a > b)
      | OP_LESS_EQUAL \<Rightarrow> PyBool (a \<le> b)
      | OP_MORE_EQUAL \<Rightarrow> PyBool (a \<ge> b)
      | OP_EQUAL \<Rightarrow> PyBool (a = b))"

text \<open>Where the code departs from that: a shift count that is no machine word raises OverflowError; zero to
  the power zero is zero when one of them is a big integer; zero to the power of a negative number whose
  float is infinite is left to the floats; and \<open>divmod\<close> of the least small integer by minus one keeps only
  the low bits of its quotient.\<close>

definition both_small :: "pyint \<Rightarrow> pyint \<Rightarrow> bool" where
  "both_small l r \<longleftrightarrow> (case (l, r) of (SmallInt _, SmallInt _) \<Rightarrow> True | _ \<Rightarrow> False)"

definition huge :: "pyint \<Rightarrow> bool" where
  "huge r \<longleftrightarrow> snd (mp_obj_get_float_maybe r) = None"

definition departure :: "int_op \<Rightarrow> pyint \<Rightarrow> pyint \<Rightarrow> outcome option" where
  "departure op l r =
     (if op \<in> {OP_LSHIFT, OP_RSHIFT} \<and> \<bar>int_val r\<bar> \<ge> 2147483648 then Some (PyRaise OverflowError)
      else if op = OP_POWER \<and> int_val l = 0 \<and> int_val r = 0 \<and> \<not> both_small l r then Some (PyInt 0)
      else if op = OP_POWER \<and> int_val l = 0 \<and> int_val r < 0 \<and> huge r then Some PyFloat
      else if op = OP_DIVMOD \<and> both_small l r \<and> int_val l = - 1073741824 \<and> int_val r = - 1
           then Some (PyPair (- 1073741824) 0)
      else None)"

definition int_outcome :: "int_op \<Rightarrow> pyint \<Rightarrow> pyint \<Rightarrow> outcome" where
  "int_outcome op l r = (case departure op l r of None \<Rightarrow> py_binary op (int_val l) (int_val r) | Some out \<Rightarrow> out)"

text \<open>The first and the third of them, on the numbers; the flag tells whether the float of the exponent is infinite.\<close>

definition limited :: "bool \<Rightarrow> int_op \<Rightarrow> int \<Rightarrow> int \<Rightarrow> outcome" where
  "limited h op a b =
     (if op \<in> {OP_LSHIFT, OP_RSHIFT} \<and> \<bar>b\<bar> \<ge> 2147483648 then PyRaise OverflowError
      else if op = OP_POWER \<and> a = 0 \<and> b < 0 \<and> h then PyFloat
      else py_binary op a b)"

text \<open>A result agrees with an outcome; MemoryError agrees with anything, but only if memory runs out.\<close>

definition agrees :: "(nat \<Rightarrow> bool) \<Rightarrow> outcome \<Rightarrow> int_result \<Rightarrow> bool" where
  "agrees mem out r =
     (case r of
        ResInt x \<Rightarrow> int_ok x \<and> out = PyInt (int_val x)
      | ResPair x y \<Rightarrow> int_ok x \<and> int_ok y \<and> out = PyPair (int_val x) (int_val y)
      | ResBool b \<Rightarrow> out = PyBool b
      | ResFloat \<Rightarrow> out = PyFloat
      | Raise e \<Rightarrow> if e = MemoryError then \<exists>n. \<not> mem n else out = PyRaise e)"

lemma agrees_simps [simp]:
  "agrees mem (PyInt v) (ResInt x) \<longleftrightarrow> int_ok x \<and> int_val x = v"
  "agrees mem (PyPair v w) (ResPair x y) \<longleftrightarrow> int_ok x \<and> int_ok y \<and> int_val x = v \<and> int_val y = w"
  "agrees mem (PyBool b) (ResBool c) \<longleftrightarrow> b = c"
  "agrees mem PyFloat ResFloat"
  "agrees mem (PyRaise e) (Raise e) \<longleftrightarrow> e \<noteq> MemoryError \<or> (\<exists>n. \<not> mem n)"
  by (auto simp: agrees_def)

lemma agrees_or_no_memory:
  assumes "yields mem P r" "\<And>x. P x \<Longrightarrow> agrees mem out (f x)"
  shows "agrees mem out (or_no_memory r f)"
  using assms by (cases r) (simp_all add: or_no_memory_def yields_def agrees_def)

section \<open>Making integers\<close>

lemma small_if_fits_ok:
  assumes "is_int v z"
  shows "int_ok (small_if_fits z)" "int_val (small_if_fits z) = v"
proof -
  have v: "mpz_val z = v" "mpz_ok z" "\<not> z_fixed_dig z" using is_intD [OF assms] by simp_all
  have "int_ok (small_if_fits z) \<and> int_val (small_if_fits z) = v"
  proof (cases "\<bar>v\<bar> < 2147483648 \<and> MP_SMALL_INT_FITS (word_of_int v)")
    case True
    then have s: "sint (word_of_int v :: u32) = v" by (intro sint_of) linarith+
    have f: "small_if_fits z = new_small (word_of_int v)"
      using True by (simp add: small_if_fits_def mpz_as_int_checked_ok v(1))
    show ?thesis unfolding f using new_small_ok [of "word_of_int v"] True s by (simp add: fits_iff)
  next
    case False
    then have "small_if_fits z = BigInt z" by (auto simp: small_if_fits_def mpz_as_int_checked_ok v(1))
    then show ?thesis using v by simp
  qed
  then show "int_ok (small_if_fits z)" "int_val (small_if_fits z) = v" by simp_all
qed

lemma int_res_ok: "gives mem v r \<Longrightarrow> agrees mem (PyInt v) (int_res r)"
  unfolding int_res_def by (rule agrees_or_no_memory, assumption) (simp add: small_if_fits_ok)

lemma mpz_set_from_ll_ok:
  assumes "\<not> z_fixed_dig z"
  shows "gives mem (sint v) (mpz_set_from_ll mem z v True)" "gives mem (uint v) (mpz_set_from_ll mem z v False)"
proof -
  note w = word_digits_ok [of v] word_digits_ok [of "- v"] word_digits_length [of 4 v] word_digits_length [of 4 "- v"]
  have ng: "v <s 0 \<longrightarrow> v \<noteq> 0" by (auto simp: word_sless_alt)
  show "gives mem (sint v) (mpz_set_from_ll mem z v True)"
    unfolding mpz_set_from_ll_def Let_def simp_thms
    by (intro yields_need [OF assms] gives_digits sval_word) (use w ng in \<open>auto simp: MPZ_NUM_DIG_FOR_LL_def\<close>)
  show "gives mem (uint v) (mpz_set_from_ll mem z v False)"
    unfolding mpz_set_from_ll_def Let_def
    by (intro yields_need [OF assms], simp only: simp_thms if_False, intro gives_digits)
       (use w in \<open>auto simp: MPZ_NUM_DIG_FOR_LL_def\<close>)
qed

lemma sint_scast64: "sint (scast (v :: u32) :: 64 word) = sint v"
proof -
  have "sint (scast v :: 64 word) = signed_take_bit 63 (sint v)" by (simp add: signed_scast_eq)
  also have "\<dots> = sint v" using sint_range [of v] by (intro signed_take_bit_int_eq_self) simp_all
  finally show ?thesis .
qed

definition gives_obj :: "(nat \<Rightarrow> bool) \<Rightarrow> int \<Rightarrow> pyint option \<Rightarrow> bool" where
  "gives_obj mem v = yields mem (\<lambda>x. int_ok x \<and> int_val x = v)"

lemma yields_map: "yields mem P (map_option f r) \<longleftrightarrow> yields mem (P \<circ> f) r"
  by (cases r) (simp_all add: yields_def)

lemma new_from_ll_ok: "gives_obj mem (sint v) (mp_obj_new_int_from_ll mem v)"
  unfolding gives_obj_def mp_obj_new_int_from_ll_def yields_map
  by (rule yields_weaken [OF mpz_set_from_ll_ok(1)]) (simp_all add: is_int_def)

lemma new_int_ok: "gives_obj mem (sint v) (mp_obj_new_int mem v)"
proof (cases "MP_SMALL_INT_FITS v")
  case True
  then show ?thesis using new_small_ok [of v] by (simp add: mp_obj_new_int_def gives_obj_def fits_iff)
next
  case False
  then show ?thesis using new_from_ll_ok [of mem "scast v"] by (simp add: mp_obj_new_int_def sint_scast64)
qed

lemma operand_ok:
  assumes "int_ok x"
  shows "\<exists>z. mpz_operand mem x = Some z \<and> mpz_ok z \<and> mpz_val z = int_val x"
proof (cases x)
  case (BigInt z)
  then show ?thesis using assms by (simp add: mpz_operand_def)
next
  case (SmallInt w)
  let ?v = "MP_OBJ_SMALL_INT_VALUE w"
  let ?d = "word_digits (if ?v <s 0 then - ?v else ?v)"
  show ?thesis
  proof (cases "?v = 0")
    case True
    then show ?thesis using SmallInt
      by (simp add: mpz_operand_def mpz_init_fixed_from_int_def mpz_set_from_int_def mpz_ok_def mpz_val_def)
  next
    case False
    have d: "normalised ?d" "length ?d \<le> 2" "?d \<noteq> []"
      using word_digits_ok [of "if ?v <s 0 then - ?v else ?v"] word_digits_length [of 2 "if ?v <s 0 then - ?v else ?v"] False
      by (simp_all split: if_splits)
    have e: "mpz_operand mem x = Some \<lparr>z_neg = ?v <s 0, z_fixed_dig = True, z_alloc = 2, z_dig = ?d\<rparr>"
      using False SmallInt
      by (simp add: mpz_operand_def mpz_init_fixed_from_int_def mpz_set_from_int_def mpz_need_dig_def MPZ_NUM_DIG_FOR_INT_def
          MIN_ALLOC_def Let_def)
    have v: "sval (?v <s 0) ?d = int_val x" using sval_word [of ?v] SmallInt by simp
    have "mpz_ok \<lparr>z_neg = ng, z_fixed_dig = True, z_alloc = 2, z_dig = ds\<rparr> \<and>
        mpz_val \<lparr>z_neg = ng, z_fixed_dig = True, z_alloc = 2, z_dig = ds\<rparr> = sval ng ds"
      if "normalised ds" "length ds \<le> 2" "ds \<noteq> []" for ng ds
      using that by (simp add: mpz_ok_def mpz_val_def)
    from this [OF d, of "?v <s 0"] show ?thesis unfolding e v by blast
  qed
qed

lemma get_checked_ok:
  "mp_obj_int_get_checked x = (if \<bar>int_val x\<bar> < 2147483648 then Some (word_of_int (int_val x)) else None)"
proof (cases x)
  case (SmallInt w)
  have "\<bar>sint (MP_OBJ_SMALL_INT_VALUE w)\<bar> < 2147483648" using value_range [of w] by linarith
  then show ?thesis using SmallInt by (simp add: mp_obj_int_get_checked_def)
qed (simp add: mp_obj_int_get_checked_def mpz_as_int_checked_ok)

section \<open>Operations on big integers\<close>

lemma nat_word: "0 \<le> b \<Longrightarrow> b < 2147483648 \<Longrightarrow> unat (word_of_int b :: u32) = nat b"
proof -
  assume "0 \<le> b" "b < 2147483648"
  then have "uint (word_of_int b :: u32) = b" by (simp add: uint_word_of_int)
  then show ?thesis unfolding nat_uint_eq [symmetric] by simp
qed

lemma divmod_parts_ok:
  assumes "mpz_ok a" "mpz_ok b" "mpz_val b \<noteq> 0"
  shows "gives mem (mpz_val a div mpz_val b) (map_option fst (mpz_divmod_inpl mem False mpz_init_zero mpz_init_zero a b))"
    "gives mem (mpz_val a mod mpz_val b) (map_option snd (mpz_divmod_inpl mem False mpz_init_zero mpz_init_zero a b))"
  unfolding yields_map
  by (rule yields_weaken [OF mpz_divmod_ok [OF assms mpz_ok_zero(3) mpz_ok_zero(3)]];
      auto simp: divides_to_def is_int_def)+

lemma limited_shift:
  "limited h OP_LSHIFT a b =
     (if \<bar>b\<bar> \<ge> 2147483648 then PyRaise OverflowError else if b < 0 then PyRaise ValueError else PyInt (a * 2 ^ nat b))"
  "limited h OP_RSHIFT a b =
     (if \<bar>b\<bar> \<ge> 2147483648 then PyRaise OverflowError else if b < 0 then PyRaise ValueError else PyInt (a div 2 ^ nat b))"
  by (simp_all add: limited_def py_binary_def)

declare bit_length.simps [simp del]

lemma bit_length_le: "0 < n \<Longrightarrow> 2 ^ (bit_length n - 1) \<le> n"
proof (induction n rule: less_induct)
  case (less n)
  show ?case
  proof (cases "n div 2 = 0")
    case True
    then show ?thesis using less.prems by (simp add: bit_length.simps [of n] bit_length.simps [of 0])
  next
    case False
    have "2 ^ (bit_length (n div 2) - 1) \<le> n div 2" by (rule less.IH) (use False less.prems in simp_all)
    moreover have "bit_length n - 1 = Suc (bit_length (n div 2) - 1)"
      using False less.prems by (simp add: bit_length.simps [of n] bit_length.simps [of "n div 2"])
    ultimately show ?thesis by simp
  qed
qed

lemma to_single_zero: "to_single n = Some 0 \<longleftrightarrow> n = 0"
proof (cases "n = 0")
  case True
  then show ?thesis by (simp add: to_single_def)
next
  case False
  let ?e = "bit_length n - 24"
  have "2 ^ ?e \<le> (2 :: nat) ^ (bit_length n - 1)" by (rule power_increasing) simp_all
  then have "2 ^ ?e \<le> n" using bit_length_le [of n] False by linarith
  then have "0 < n div 2 ^ ?e" by (simp add: div_greater_zero_iff)
  then show ?thesis using False by (simp add: to_single_def Let_def)
qed

lemma float_fold_zero:
  "fold (\<lambda>d val. Option.bind val (\<lambda>v. to_single (v * 0x10000 + unat d))) ds acc = Some 0 \<longleftrightarrow>
    acc = Some 0 \<and> (\<forall>d \<in> set ds. d = (0 :: 16 word))"
proof (induction ds arbitrary: acc)
  case (Cons d ds)
  have "Option.bind acc (\<lambda>v. to_single (v * 0x10000 + unat d)) = Some 0 \<longleftrightarrow> acc = Some 0 \<and> d = 0"
    by (cases acc) (auto simp: to_single_zero unat_eq_zero)
  then show ?case by (auto simp: Cons.IH)
qed simp

lemma float_zero:
  assumes "mpz_ok z"
  shows "snd (mpz_as_float z) = Some 0 \<longleftrightarrow> mpz_val z = 0"
proof -
  have "z_dig z = [] \<or> last (z_dig z) \<noteq> 0" using assms by (auto simp: mpz_ok_def normalised_def)
  then have "(\<forall>d \<in> set (z_dig z). d = 0) \<longleftrightarrow> z_dig z = []" using last_in_set [of "z_dig z"] by fastforce
  then show ?thesis using mpz_val_zero_iff [OF assms] by (simp add: mpz_as_float_def float_fold_zero)
qed

lemma float_power_ok:
  assumes "snd lhs_val = Some 0 \<longleftrightarrow> a = 0" "int_ok r" "int_val r < 0"
  shows "agrees mem (limited (huge r) OP_POWER a (int_val r)) (mp_obj_float_power lhs_val r)"
proof -
  have "snd (mp_obj_get_float_maybe r) \<noteq> Some 0"
  proof (cases r)
    case (BigInt z)
    then show ?thesis using assms(2,3) float_zero [of z] by (simp add: mp_obj_get_float_maybe_def)
  qed (use assms(3) in \<open>simp add: mp_obj_get_float_maybe_def Let_def to_single_zero\<close>)
  moreover have "fst (mp_obj_get_float_maybe r)"
  proof (cases r)
    case (BigInt z)
    then show ?thesis using assms(2,3) mpz_neg_iff [of z] by (simp add: mp_obj_get_float_maybe_def mpz_as_float_def)
  qed (use assms(3) in \<open>simp add: mp_obj_get_float_maybe_def Let_def\<close>)
  ultimately show ?thesis using assms(1,3)
    by (auto simp: mp_obj_float_power_def limited_def py_binary_def huge_def split: prod.splits)
qed

lemma mpz_binary_ok:
  assumes a: "mpz_ok a" and b: "mpz_ok b" and r: "int_ok rhs_in" "int_val rhs_in = mpz_val b"
    and pow: "op = OP_POWER \<longrightarrow> mpz_val a \<noteq> 0 \<or> mpz_val b \<noteq> 0"
  shows "agrees mem (limited (huge rhs_in) op (mpz_val a) (mpz_val b)) (mpz_binary mem op a b rhs_in)"
proof -
  have z: "mpz_is_zero b \<longleftrightarrow> mpz_val b = 0" using mpz_val_zero_iff [OF b] by (simp add: mpz_is_zero_def)
  have c: "mpz_cmp a b = sgn (mpz_val a - mpz_val b)" by (rule mpz_cmp_ok [OF a b])
  note zero = mpz_ok_zero(3)
  have shift: "agrees mem (if \<bar>mpz_val b\<bar> \<ge> 2147483648 then PyRaise OverflowError
        else if mpz_val b < 0 then PyRaise ValueError else PyInt v)
      (case mp_obj_int_get_checked rhs_in of None \<Rightarrow> Raise OverflowError
       | Some irhs \<Rightarrow> if irhs <s 0 then Raise ValueError else int_res (f irhs))"
    if g: "\<And>n. 0 \<le> mpz_val b \<Longrightarrow> unat n = nat (mpz_val b) \<Longrightarrow> unat n < 2147483648 \<Longrightarrow> gives mem v (f n)" for v f
  proof (cases "\<bar>mpz_val b\<bar> < 2147483648")
    case False
    then show ?thesis by (simp add: get_checked_ok r(2))
  next
    case True
    then have s: "sint (word_of_int (mpz_val b) :: u32) = mpz_val b" by (intro sint_of) linarith+
    show ?thesis
    proof (cases "mpz_val b < 0")
      case neg: True
      then show ?thesis using True s by (simp add: get_checked_ok r(2) word_sless_alt)
    next
      case False
      have n: "unat (word_of_int (mpz_val b) :: u32) = nat (mpz_val b)" using True False by (intro nat_word) linarith+
      have "gives mem v (f (word_of_int (mpz_val b)))" by (rule g) (use n True False in simp_all)
      then show ?thesis using True False s by (simp add: get_checked_ok r(2) word_sless_alt int_res_ok)
    qed
  qed
  show ?thesis
  proof (cases op)
    case OP_LSHIFT
    have "agrees mem (limited (huge rhs_in) OP_LSHIFT (mpz_val a) (mpz_val b)) (mpz_binary mem OP_LSHIFT a b rhs_in)"
      unfolding mpz_binary_def Let_def int_op.case limited_shift
    proof (rule shift)
      fix n :: u32
      assume "0 \<le> mpz_val b" "unat n = nat (mpz_val b)" "unat n < 2147483648"
      then show "gives mem (mpz_val a * 2 ^ nat (mpz_val b)) (mpz_shl_inpl mem mpz_init_zero a n)"
        using mpz_shl_ok [OF a zero, of n mem] by simp
    qed
    then show ?thesis using OP_LSHIFT by simp
  next
    case OP_RSHIFT
    have "agrees mem (limited (huge rhs_in) OP_RSHIFT (mpz_val a) (mpz_val b)) (mpz_binary mem OP_RSHIFT a b rhs_in)"
      unfolding mpz_binary_def Let_def int_op.case limited_shift
    proof (rule shift)
      fix n :: u32
      assume "0 \<le> mpz_val b" "unat n = nat (mpz_val b)" "unat n < 2147483648"
      then show "gives mem (mpz_val a div 2 ^ nat (mpz_val b)) (mpz_shr_inpl mem False mpz_init_zero a n)"
        using mpz_shr_ok [OF a zero, of mem n] by simp
    qed
    then show ?thesis using OP_RSHIFT by simp
  next
    case OP_DIVMOD
    have "agrees mem (PyPair (mpz_val a div mpz_val b) (mpz_val a mod mpz_val b))
        (or_no_memory (mpz_divmod_inpl mem False mpz_init_zero mpz_init_zero a b) (\<lambda>(quo, rem). ResPair (BigInt quo) (BigInt rem)))"
      if "mpz_val b \<noteq> 0"
      by (rule agrees_or_no_memory [OF mpz_divmod_ok [OF a b that zero zero]]) (auto simp: divides_to_def is_int_def)
    then show ?thesis using OP_DIVMOD z by (simp add: mpz_binary_def limited_def py_binary_def)
  next
    case OP_POWER
    have "agrees mem (PyInt (mpz_val a ^ nat (mpz_val b))) (int_res (mpz_pow_inpl mem mpz_init_zero a b))" if "0 \<le> mpz_val b"
    proof (rule int_res_ok)
      have "(if mpz_val a = 0 \<or> mpz_val b < 0 then 0 else mpz_val a ^ nat (mpz_val b)) = mpz_val a ^ nat (mpz_val b)"
        using that pow OP_POWER by (auto simp: zero_power)
      then show "gives mem (mpz_val a ^ nat (mpz_val b)) (mpz_pow_inpl mem mpz_init_zero a b)"
        using mpz_pow_ok [OF a b zero, of mem] by simp
    qed
    moreover have "agrees mem (limited (huge rhs_in) OP_POWER (mpz_val a) (mpz_val b)) (mp_obj_float_power (mpz_as_float a) rhs_in)"
      if "mpz_val b < 0"
      using float_power_ok [OF float_zero [OF a] r(1)] that by (simp add: r(2))
    ultimately show ?thesis using OP_POWER mpz_neg_iff [OF b] by (simp add: mpz_binary_def limited_def py_binary_def mpz_is_neg_def)
  next
    case OP_ADD
    then show ?thesis using int_res_ok [OF mpz_add_ok [OF a b zero]] by (simp add: mpz_binary_def limited_def py_binary_def)
  next
    case OP_SUBTRACT
    then show ?thesis using int_res_ok [OF mpz_sub_ok [OF a b zero]] by (simp add: mpz_binary_def limited_def py_binary_def)
  next
    case OP_MULTIPLY
    then show ?thesis using int_res_ok [OF mpz_mul_ok [OF a b zero]] by (simp add: mpz_binary_def limited_def py_binary_def)
  next
    case OP_OR
    then show ?thesis using int_res_ok [OF mpz_or_ok [OF a b zero]] by (simp add: mpz_binary_def limited_def py_binary_def)
  next
    case OP_XOR
    then show ?thesis using int_res_ok [OF mpz_xor_ok [OF a b zero]] by (simp add: mpz_binary_def limited_def py_binary_def)
  next
    case OP_AND
    then show ?thesis using int_res_ok [OF mpz_and_ok [OF a b zero]] by (simp add: mpz_binary_def limited_def py_binary_def)
  next
    case OP_FLOOR_DIVIDE
    then show ?thesis using int_res_ok [OF divmod_parts_ok(1) [OF a b]] z by (simp add: mpz_binary_def limited_def py_binary_def)
  next
    case OP_MODULO
    then show ?thesis using int_res_ok [OF divmod_parts_ok(2) [OF a b]] z by (simp add: mpz_binary_def limited_def py_binary_def)
  qed (use z c in \<open>simp_all add: mpz_binary_def limited_def py_binary_def sgn_if\<close>)
qed

theorem mp_obj_int_binary_op_ok:
  assumes "int_ok l" "int_ok r" "op = OP_POWER \<longrightarrow> int_val l \<noteq> 0 \<or> int_val r \<noteq> 0"
  shows "agrees mem (limited (huge r) op (int_val l) (int_val r)) (mp_obj_int_binary_op mem op l r)"
proof -
  obtain a where a: "mpz_operand mem l = Some a" "mpz_ok a" "mpz_val a = int_val l" using operand_ok [OF assms(1)] by blast
  obtain b where b: "mpz_operand mem r = Some b" "mpz_ok b" "mpz_val b = int_val r" using operand_ok [OF assms(2)] by blast
  have "agrees mem (limited (huge r) op (mpz_val a) (mpz_val b)) (mpz_binary mem op a b r)"
    by (rule mpz_binary_ok [OF a(2) b(2)]) (use a(3) b(3) assms(2,3) in simp_all)
  then show ?thesis using a b by (simp add: mp_obj_int_binary_op_def or_no_memory_def)
qed

section \<open>Operations on small integers\<close>

lemma finish_ok: "sint v = k \<Longrightarrow> agrees mem (PyInt k) (or_no_memory (mp_obj_new_int mem v) ResInt)"
  by (rule agrees_or_no_memory [OF new_int_ok [unfolded gives_obj_def]]) simp

lemma higher_precision_ok:
  assumes "tagged r" "op = OP_POWER \<longrightarrow> sint (MP_OBJ_SMALL_INT_VALUE l) \<noteq> 0 \<or> sint (MP_OBJ_SMALL_INT_VALUE r) \<noteq> 0"
  shows "agrees mem (limited (huge (SmallInt r)) op (sint (MP_OBJ_SMALL_INT_VALUE l)) (sint (MP_OBJ_SMALL_INT_VALUE r))) (higher_precision mem op l r)"
  unfolding higher_precision_def
proof (rule agrees_or_no_memory [OF new_from_ll_ok [unfolded gives_obj_def]])
  fix x
  assume x: "int_ok x \<and> int_val x = sint (scast (MP_OBJ_SMALL_INT_VALUE l) :: 64 word)"
  then show "agrees mem (limited (huge (SmallInt r)) op (sint (MP_OBJ_SMALL_INT_VALUE l)) (sint (MP_OBJ_SMALL_INT_VALUE r)))
      (mp_obj_int_binary_op mem op x (SmallInt r))"
    using mp_obj_int_binary_op_ok [of x "SmallInt r" op mem] assms by (simp add: sint_scast64)
qed

lemma mul_overflow_ok: "mp_mul_mp_int_t_overflow x y = Some v \<Longrightarrow> sint v = sint x * sint y"
  by (auto simp only: mp_mul_mp_int_t_overflow_def Let_def option.inject option.distinct sint_of split: if_splits)

lemma small_pow_loop_ok:
  "small_pow_loop ans b n = Some v \<Longrightarrow> 0 \<le> n \<Longrightarrow> sint v = sint ans * sint b ^ nat n"
proof (induction ans b n rule: small_pow_loop.induct)
  case (1 ans b n)
  show ?case
  proof (cases "n > 0")
    case False
    then have "small_pow_loop ans b n = Some ans" by (subst small_pow_loop.simps) simp
    then show ?thesis using "1.prems" False by simp
  next
    case True
    then obtain ans1 where a: "(if n mod 2 = 1 then mp_mul_mp_int_t_overflow ans b else Some ans) = Some ans1"
      using "1.prems"(1) by (subst (asm) small_pow_loop.simps) (auto split: Option.bind_splits)
    then have av: "sint ans1 = (if n mod 2 = 1 then sint ans * sint b else sint ans)"
      using mul_overflow_ok [of ans b ans1] by (simp split: if_splits)
    show ?thesis
    proof (cases "n = 1")
      case one: True
      then have "v = ans1" using "1.prems"(1) a by (subst (asm) small_pow_loop.simps) simp
      then show ?thesis using av one by simp
    next
      case False
      then obtain sq where sq: "mp_mul_mp_int_t_overflow b b = Some sq" "small_pow_loop ans1 sq (n div 2) = Some v"
        using "1.prems"(1) a True by (subst (asm) small_pow_loop.simps) (auto split: Option.bind_splits)
      have n2: "0 \<le> n div 2" using True by simp
      have "sint v = sint ans1 * (sint b * sint b) ^ nat (n div 2)"
        using "1.IH" [OF True a False sq(1) sq(2) n2] mul_overflow_ok [OF sq(1)] by simp
      moreover have "nat n = 2 * nat (n div 2) + of_bool (n mod 2 = 1)"
      proof -
        have "n = 2 * (n div 2) + n mod 2" by simp
        then have "nat n = nat (2 * (n div 2) + n mod 2)" by (rule arg_cong)
        then show ?thesis using n2 by (simp add: nat_add_distrib nat_mult_distrib mod2_eq_if split: if_splits)
      qed
      ultimately show ?thesis using av by (simp only: square_power) simp
    qed
  qed
qed

lemma quotient_range:
  fixes a b :: int
  assumes "b \<noteq> 0" "- 1073741824 \<le> a" "a < 1073741824" "\<not> (a = - 1073741824 \<and> b = - 1)"
  shows "- 1073741824 \<le> a div b" "a div b < 1073741824"
proof -
  have pos: "- K \<le> x div c \<and> x div c \<le> K \<and> (x < K \<or> 2 \<le> c \<longrightarrow> x div c < K)"
    if "1 \<le> c" "- K \<le> x" "x \<le> K" "2 \<le> K" for x c K :: int
  proof -
    note cK = that
    have low: "c * (x div c) \<le> x" "x < c * (x div c) + c"
      using mult_div_mod_eq [of c x] pos_mod_sign [of c x] pos_mod_bound [of c x] that(1) by linarith+
    have "- K \<le> x div c"
    proof (rule ccontr)
      assume "\<not> - K \<le> x div c"
      then have "c * (x div c + 1) \<le> 1 * (x div c + 1)" using that by (intro mult_right_mono_neg) linarith+
      then have "x < x div c + 1" using low(2) by (simp add: distrib_left)
      then show False using \<open>\<not> - K \<le> x div c\<close> that(2) by linarith
    qed
    moreover have "x div c \<le> K"
    proof (rule ccontr)
      assume "\<not> x div c \<le> K"
      then have "1 * (x div c) \<le> c * (x div c)" using that by (intro mult_right_mono) linarith+
      then show False using \<open>\<not> x div c \<le> K\<close> low(1) that(3) by linarith
    qed
    moreover have "x div c < K" if s: "x < K \<or> 2 \<le> c"
    proof (rule ccontr)
      assume n: "\<not> x div c < K"
      then have "1 * (x div c) \<le> c * (x div c)" using cK by (intro mult_right_mono) linarith+
      then have "\<not> x < K" using n low(1) by linarith
      then have "2 * (x div c) \<le> c * (x div c)" using s n cK by (intro mult_right_mono) linarith+
      then show False using n low(1) cK by linarith
    qed
    ultimately show ?thesis by blast
  qed
  have "- 1073741824 \<le> a div b \<and> a div b < 1073741824"
  proof (cases "b > 0")
    case True
    then show ?thesis using pos [of b 1073741824 a] assms by simp_all
  next
    case False
    have e: "a div b = - a div - b" by simp
    have "- a < 1073741824 \<or> 2 \<le> - b" using assms False by linarith
    then show ?thesis
      unfolding e using pos [of "- b" 1073741824 "- a"] assms False by simp
  qed
  then show "- 1073741824 \<le> a div b" "a div b < 1073741824" by simp_all
qed

lemma far_shift:
  fixes a :: int
  assumes "- 1073741824 \<le> a" "a < 1073741824" "31 \<le> n"
  shows "a div 2 ^ n = (if a < 0 then - 1 else 0)"
proof -
  have p: "(2147483648 :: int) \<le> 2 ^ n" using power_increasing [OF assms(3), of "2 :: int"] by simp
  show ?thesis
  proof (cases "a < 0")
    case True
    have "a = 2 ^ n * (- 1) + (a + 2 ^ n)" by simp
    from int_div_pos_eq [OF this] show ?thesis using True p assms by simp
  next
    case False
    then show ?thesis using p assms by (simp add: div_pos_pos_trivial)
  qed
qed

lemma shl_ok:
  fixes v :: u32
  assumes "r < 32" "- 1073741824 div 2 ^ r \<le> sint v" "sint v \<le> 1073741823 div 2 ^ r"
  shows "sint (push_bit r v) = sint v * 2 ^ r"
proof (rule sint_shl)
  let ?p = "2 ^ r :: int"
  have p: "0 < ?p" by simp
  have "sint v * ?p \<le> 1073741823 div ?p * ?p" by (rule mult_right_mono [OF assms(3)]) simp
  also have "\<dots> \<le> 1073741823"
    using mult_div_mod_eq [of ?p 1073741823] pos_mod_sign [OF p, of 1073741823] unfolding mult.commute [of _ ?p] by linarith
  finally show "sint v * ?p < 2147483648" by simp
  have low: "- 1073741824 div ?p * ?p \<le> sint v * ?p" by (rule mult_right_mono [OF assms(2)]) simp
  show "- 2147483648 \<le> sint v * ?p"
  proof (cases "r \<le> 30")
    case True
    have "?p \<le> 2 ^ 30" by (rule power_increasing) (use True in simp_all)
    then have "?p \<le> 1073741824" by simp
    moreover have "?p * (- 1073741824 div ?p) \<le> sint v * ?p" using low by (simp only: mult.commute)
    ultimately show ?thesis
      using mult_div_mod_eq [of ?p "- 1073741824"] pos_mod_bound [OF p, of "- 1073741824"] by linarith
  next
    case False
    then have "r = 31" using assms(1) by simp
    then show ?thesis using low by simp
  qed
qed

lemma sint_zero: "(v :: u32) = 0 \<longleftrightarrow> sint v = 0"
proof
  assume "sint v = 0"
  then have "word_of_int (sint v) = (0 :: u32)" by simp
  then show "v = 0" unfolding word_sint [symmetric] .
qed simp

lemma small_binary_op_ok:
  assumes l: "tagged l" and r: "tagged r"
    and d: "\<not> (op = OP_DIVMOD \<and> sint (MP_OBJ_SMALL_INT_VALUE l) = - 1073741824 \<and> sint (MP_OBJ_SMALL_INT_VALUE r) = - 1)"
    and e: "op \<noteq> OP_EQUAL"
  shows "agrees mem (limited (huge (SmallInt r)) op (sint (MP_OBJ_SMALL_INT_VALUE l)) (sint (MP_OBJ_SMALL_INT_VALUE r))) (small_binary_op mem op l r)"
proof -
  let ?l = "MP_OBJ_SMALL_INT_VALUE l" and ?r = "MP_OBJ_SMALL_INT_VALUE r"
  let ?a = "sint ?l" and ?b = "sint ?r"
  have a: "- 1073741824 \<le> ?a" "?a < 1073741824" and b: "- 1073741824 \<le> ?b" "?b < 1073741824"
    by (rule value_range)+
  have b31: "\<bar>?b\<bar> < 2147483648" using b by linarith
  have z: "?r = 0 \<longleftrightarrow> ?b = 0" by (rule sint_zero)
  have high: "op \<noteq> OP_POWER \<Longrightarrow> agrees mem (limited (huge (SmallInt r)) op ?a ?b) (higher_precision mem op l r)"
    by (rule higher_precision_ok [OF r]) simp
  have n: "unat ?r = nat ?b" if "0 \<le> ?b"
    using nat_word [OF that] b31 by simp
  show ?thesis
  proof (cases op)
    case OP_LSHIFT
    show ?thesis
    proof (cases "?b < 0")
      case True
      then show ?thesis using OP_LSHIFT b31 by (simp add: small_binary_op_def limited_def py_binary_def Let_def word_sless_alt)
    next
      case False
      let ?big = "32 \<le>s ?r \<or> signed_drop_bit (unat ?r) MP_SMALL_INT_MAX <s ?l \<or> ?l <s signed_drop_bit (unat ?r) MP_SMALL_INT_MIN"
      show ?thesis
      proof (cases ?big)
        case True
        then have "small_binary_op mem op l r = higher_precision mem op l r"
          using False OP_LSHIFT by (simp add: small_binary_op_def Let_def word_sless_alt)
        then show ?thesis using high OP_LSHIFT by simp
      next
        case small: False
        then have s: "?b < 32" "- 1073741824 div 2 ^ nat ?b \<le> ?a" "?a \<le> 1073741823 div 2 ^ nat ?b"
          using n False by (simp_all add: word_sle_eq word_sless_alt sint_shr small_bounds not_le not_less)
        have "sint (push_bit (nat ?b) ?l) = ?a * 2 ^ nat ?b" by (rule shl_ok) (use s False in simp_all)
        then have "agrees mem (PyInt (?a * 2 ^ nat ?b)) (or_no_memory (mp_obj_new_int mem (push_bit (nat ?b) ?l)) ResInt)"
          by (rule finish_ok)
        moreover have "small_binary_op mem op l r = or_no_memory (mp_obj_new_int mem (push_bit (nat ?b) ?l)) ResInt"
          unfolding OP_LSHIFT small_binary_op_def Let_def int_op.case if_not_P [OF small] using False n by (simp add: word_sless_alt)
        ultimately show ?thesis using OP_LSHIFT False b31 by (simp add: limited_def py_binary_def)
      qed
    qed
  next
    case OP_RSHIFT
    show ?thesis
    proof (cases "?b < 0")
      case True
      then show ?thesis using OP_RSHIFT b31 by (simp add: small_binary_op_def limited_def py_binary_def Let_def word_sless_alt)
    next
      case False
      let ?n = "unat (if 32 \<le>s ?r then 31 else ?r)"
      have "sint (signed_drop_bit ?n ?l) = ?a div 2 ^ nat ?b"
      proof (cases "32 \<le>s ?r")
        case True
        then have "31 \<le> nat ?b" by (simp add: word_sle_eq)
        then show ?thesis using True far_shift [OF a, of 31] far_shift [OF a, of "nat ?b"] by (simp add: sint_shr)
      next
        case s: False
        then show ?thesis using n False by (simp add: sint_shr)
      qed
      then have "agrees mem (PyInt (?a div 2 ^ nat ?b)) (or_no_memory (mp_obj_new_int mem (signed_drop_bit ?n ?l)) ResInt)"
        by (rule finish_ok)
      then show ?thesis using OP_RSHIFT False b31 by (simp add: small_binary_op_def limited_def py_binary_def Let_def word_sless_alt del: if_split)
    qed
  next
    case OP_MULTIPLY
    show ?thesis
    proof (cases "mp_mul_mp_int_t_overflow ?l ?r")
      case None
      then show ?thesis using high OP_MULTIPLY by (simp add: small_binary_op_def)
    next
      case (Some v)
      from finish_ok [OF mul_overflow_ok [OF Some]] show ?thesis
        using Some OP_MULTIPLY by (simp add: small_binary_op_def limited_def py_binary_def Let_def)
    qed
  next
    case OP_POWER
    show ?thesis
    proof (cases "?b < 0")
      case True
      have "snd (mp_obj_get_float_maybe (SmallInt l)) = Some 0 \<longleftrightarrow> ?a = 0"
        by (simp add: mp_obj_get_float_maybe_def Let_def to_single_zero)
      from float_power_ok [OF this, of "SmallInt r" mem] r True show ?thesis
        using OP_POWER by (simp add: small_binary_op_def Let_def word_sless_alt)
    next
      case False
      show ?thesis
      proof (cases "small_pow_loop 1 ?l ?b")
        case None
        have "?b \<noteq> 0"
        proof
          assume "?b = 0"
          then have "small_pow_loop 1 ?l ?b = Some 1" by (simp add: small_pow_loop.simps)
          then show False using None by simp
        qed
        then have "agrees mem (limited (huge (SmallInt r)) op ?a ?b) (higher_precision mem op l r)" by (intro higher_precision_ok [OF r]) simp
        then show ?thesis using None OP_POWER False by (simp add: small_binary_op_def Let_def word_sless_alt)
      next
        case (Some v)
        have "sint v = ?a ^ nat ?b" using small_pow_loop_ok [OF Some] False by simp
        from finish_ok [OF this] show ?thesis
          using Some OP_POWER False by (simp add: small_binary_op_def limited_def py_binary_def Let_def word_sless_alt)
      qed
    qed
  next
    case OP_FLOOR_DIVIDE
    have "sint (mp_small_int_floor_divide ?l ?r) = ?a div ?b" if "?b \<noteq> 0"
      by (rule floor_divide_ok [OF that]) (use a b in linarith)+
    then show ?thesis using OP_FLOOR_DIVIDE finish_ok z by (simp add: small_binary_op_def limited_def py_binary_def Let_def)
  next
    case OP_MODULO
    then show ?thesis using finish_ok [OF modulo_ok [of ?r ?l]] z by (simp add: small_binary_op_def limited_def py_binary_def Let_def)
  next
    case OP_DIVMOD
    show ?thesis
    proof (cases "?b = 0")
      case False
      have q: "sint (mp_small_int_floor_divide ?l ?r) = ?a div ?b"
        by (rule floor_divide_ok [OF False]) (use a b in linarith)+
      have qr: "- 1073741824 \<le> ?a div ?b" "?a div ?b < 1073741824"
        by (rule quotient_range [OF False a]; use d OP_DIVMOD in simp)+
      have m: "sint (mp_small_int_modulo ?l ?r) = ?a mod ?b" by (rule modulo_ok [OF False])
      have "\<bar>?a mod ?b\<bar> < \<bar>?b\<bar>" by (rule abs_mod_less [OF False])
      then have mr: "- 1073741824 \<le> ?a mod ?b" "?a mod ?b < 1073741824" using b by linarith+
      show ?thesis
        using False z OP_DIVMOD new_small_ok [of "mp_small_int_floor_divide ?l ?r"] new_small_ok [of "mp_small_int_modulo ?l ?r"]
          q qr m mr by (simp add: small_binary_op_def limited_def py_binary_def Let_def)
    qed (use z OP_DIVMOD in \<open>simp add: small_binary_op_def limited_def py_binary_def Let_def\<close>)
  next
    case OP_ADD
    have "sint (?l + ?r) = ?a + ?b" by (rule sint_arith) (use a b in linarith)+
    from finish_ok [OF this] show ?thesis using OP_ADD by (simp add: small_binary_op_def limited_def py_binary_def Let_def)
  next
    case OP_SUBTRACT
    have "sint (?l - ?r) = ?a - ?b" by (rule sint_arith) (use a b in linarith)+
    from finish_ok [OF this] show ?thesis using OP_SUBTRACT by (simp add: small_binary_op_def limited_def py_binary_def Let_def)
  next
    case OP_OR
    from finish_ok [OF signed_or_eq [of ?l ?r]] show ?thesis using OP_OR by (simp add: small_binary_op_def limited_def py_binary_def Let_def)
  next
    case OP_AND
    from finish_ok [OF signed_and_eq [of ?l ?r]] show ?thesis using OP_AND by (simp add: small_binary_op_def limited_def py_binary_def Let_def)
  next
    case OP_XOR
    from finish_ok [OF signed_xor_eq [of ?l ?r]] show ?thesis using OP_XOR by (simp add: small_binary_op_def limited_def py_binary_def Let_def)
  qed (use z e in \<open>simp_all add: small_binary_op_def limited_def py_binary_def Let_def word_sless_alt word_sle_eq\<close>)
qed

section \<open>Equality\<close>

lemma tagged_same:
  assumes "tagged v" "tagged w" "sint (MP_OBJ_SMALL_INT_VALUE v) = sint (MP_OBJ_SMALL_INT_VALUE w)"
  shows "v = w"
proof -
  have "sint x = 2 * (sint x div 2) + 1" if "tagged x" for x
  proof -
    have "odd (sint x)" using that bit_sint_iff [of x 0] by (simp add: tagged_def bit_0)
    then show ?thesis by (rule odd_two_times_div_two_succ [symmetric])
  qed
  from this [OF assms(1)] this [OF assms(2)] assms(3) have "sint v = sint w"
    unfolding sint_value by linarith
  then show ?thesis by (rule signed_word_eqI)
qed

lemma mp_obj_equal_not_equal_ok:
  assumes "int_ok l" "int_ok r"
  shows "agrees mem (PyBool (int_val l = int_val r)) (mp_obj_equal_not_equal mem l r)"
proof -
  have e: "agrees mem (PyBool (int_val x = int_val y)) (mp_obj_int_binary_op mem OP_EQUAL x y)"
    if "int_ok x" "int_ok y" for x y
    using mp_obj_int_binary_op_ok [OF that, of OP_EQUAL mem] by (simp add: limited_def py_binary_def)
  show ?thesis
  proof (cases l)
    case l: (SmallInt v)
    show ?thesis
    proof (cases r)
      case (SmallInt w)
      have "v = w \<longleftrightarrow> int_val l = int_val r"
        using assms l SmallInt tagged_same [of v w] by auto
      then show ?thesis using l SmallInt by (simp add: mp_obj_equal_not_equal_def)
    next
      case (BigInt z)
      then have "mp_obj_equal_not_equal mem l r = mp_obj_int_binary_op mem OP_EQUAL r l"
        using l by (simp add: mp_obj_equal_not_equal_def)
      moreover have "(int_val r = int_val l) = (int_val l = int_val r)" by (rule eq_commute)
      ultimately show ?thesis using e [OF assms(2,1)] by simp
    qed
  next
    case (BigInt z)
    then show ?thesis using e [OF assms] by (simp add: mp_obj_equal_not_equal_def)
  qed
qed

end
