(* ===== verification/IntProps.thy ===== *)
theory IntProps
  imports IntCorrect
begin

text \<open>
  The properties of integer arithmetic, from the digit loops up to the operators of Python, each with a
  concrete instance, and the places where the code departs from the integers.
\<close>

section \<open>Digits\<close>

text \<open>C12: long division of two normalised digit strings always ends, whatever the digits, and gives the
  quotient and the remainder of the numbers they stand for, again normalised: the estimate of each
  quotient digit never overflows, is never too small, and the correction loop stops exactly when the
  borrow is cancelled.\<close>

theorem mpn_div_exact:
  assumes "normalised num" "normalised den" "den \<noteq> []"
  shows "\<exists>quo rem. mpn_div num den = Some (quo, rem) \<and> normalised quo \<and> normalised rem \<and>
    dval quo = dval num div dval den \<and> dval rem = dval num mod dval den"
  using mpn_div_ok [OF assms] by blast

theorem mpn_div_exact_witness:
  "\<exists>quo rem. mpn_div [0, 0, 0x8000] [1, 0x8000] = Some (quo, rem) \<and> normalised quo \<and> normalised rem \<and>
    dval quo = dval [0, 0, 0x8000] div dval [1, 0x8000] \<and> dval rem = dval [0, 0, 0x8000] mod dval [1, 0x8000]"
  by (rule mpn_div_exact) (simp_all add: normalised_def)

section \<open>Big integers\<close>

text \<open>C14: the arithmetic, bitwise and shift operations on well-formed \<open>mpz_t\<close> values are exact: unless the
  allocator fails, each gives a well-formed value that is the sum, difference, product, and, or,
  exclusive or, complement, negation, absolute value, shifted value (rounding down) of its arguments.\<close>

theorem mpz_operations_exact:
  assumes "mpz_ok a" "mpz_ok b" "\<not> z_fixed_dig dest" "unat n < 2147483648"
  shows "gives mem (mpz_val a + mpz_val b) (mpz_add_inpl mem dest a b) \<and>
    gives mem (mpz_val a - mpz_val b) (mpz_sub_inpl mem dest a b) \<and>
    gives mem (mpz_val a * mpz_val b) (mpz_mul_inpl mem False False dest a b) \<and>
    gives mem (mpz_val a AND mpz_val b) (mpz_and_inpl mem dest a b) \<and>
    gives mem (mpz_val a OR mpz_val b) (mpz_or_inpl mem dest a b) \<and>
    gives mem (mpz_val a XOR mpz_val b) (mpz_xor_inpl mem dest a b) \<and>
    gives mem (NOT (mpz_val a)) (mpz_not_inpl mem False dest a) \<and>
    gives mem (- mpz_val a) (mpz_neg_inpl mem False dest a) \<and>
    gives mem \<bar>mpz_val a\<bar> (mpz_abs_inpl mem False dest a) \<and>
    gives mem (mpz_val a * 2 ^ unat n) (mpz_shl_inpl mem dest a n) \<and>
    gives mem (mpz_val a div 2 ^ unat n) (mpz_shr_inpl mem False dest a n)"
  using assms(4)
  by (intro conjI mpz_add_ok mpz_sub_ok mpz_mul_ok mpz_and_ok mpz_or_ok mpz_xor_ok mpz_not_ok mpz_neg_ok mpz_abs_ok
      mpz_shl_ok mpz_shr_ok assms(1-3)) simp_all

abbreviation (input) big :: "bool \<Rightarrow> u16 list \<Rightarrow> mpz_t" where
  "big ng ds \<equiv> \<lparr>z_neg = ng, z_fixed_dig = False, z_alloc = length ds, z_dig = ds\<rparr>"

abbreviation (input) memory :: "nat \<Rightarrow> bool" where
  "memory \<equiv> \<lambda>n. True"

theorem mpz_operations_exact_witness:
  "mpz_val (the (mpz_add_inpl memory mpz_init_zero (big True [5, 7]) (big False [0xFFFF]))) =
    mpz_val (big True [5, 7]) + mpz_val (big False [0xFFFF])"
  using mpz_operations_exact [of "big True [5, 7]" "big False [0xFFFF]" mpz_init_zero 3 memory]
  by (auto simp: mpz_ok_def normalised_def yields_def is_int_def split: option.splits)

text \<open>The three-argument power computes, unless the allocator fails, the power modulo the modulus with
  the sign of the modulus, when the base is not zero and the exponent is positive; a modulus of one,
  a negative exponent or a zero base gives zero, and a zero exponent gives one.\<close>

lemma mpz_pow3_value:
  assumes "mpz_ok b" "mpz_ok e" "mpz_ok m" "mpz_val m \<noteq> 0" "\<not> z_fixed_dig dest"
  shows "gives mem
    (if mpz_val b = 0 \<or> mpz_val e < 0 \<or> \<bar>mpz_val m\<bar> = 1 then 0
     else if mpz_val e = 0 then 1
     else mpz_val b ^ nat (mpz_val e) mod mpz_val m)
    (mpz_pow3_inpl mem dest b e m)"
proof -
  have "pow3_value (mpz_val b) (mpz_val e) (mpz_val m) =
    (if mpz_val b = 0 \<or> mpz_val e < 0 \<or> \<bar>mpz_val m\<bar> = 1 then 0
     else if mpz_val e = 0 then 1 else mpz_val b ^ nat (mpz_val e) mod mpz_val m)"
    by (auto simp: pow3_value_def mod_power_def)
  then show ?thesis using mpz_pow3_ok [OF assms, of mem] by simp
qed

lemma mpz_pow3_value_witness:
  "mpz_val (the (mpz_pow3_inpl memory mpz_init_zero (big True [3]) (big False [5]) (big False [7]))) = (- 3) ^ 5 mod 7"
  using mpz_pow3_value [of "big True [3]" "big False [5]" "big False [7]" mpz_init_zero memory]
  by (auto simp: mpz_ok_def normalised_def yields_def is_int_def mpz_val_def split: option.splits)

section \<open>Conversions\<close>

text \<open>C26: printing a number in any base from 2 to 32 ends and gives a sign and digits that
  \<open>mpz_set_from_str\<close> reads completely and back to the same number.\<close>

theorem str_round_trip:
  assumes "mpz_ok z" "mpz_val z \<noteq> 0" "2 \<le> uint base" "uint base \<le> 32" "b = 97 \<or> b = 65"
  shows "\<exists>cs. mpz_as_str_inpl memory z base None b 0 = Some ((if mpz_val z < 0 then [45] else []) @ cs) \<and>
    (\<exists>x. mpz_set_from_str memory mpz_init_zero cs (mpz_val z < 0) base = Some (x, length cs) \<and>
      mpz_ok x \<and> mpz_val x = mpz_val z)"
proof -
  have "b \<in> base_chars" using assms(5) by (auto simp: base_chars_def)
  then obtain cs where cs: "mpz_as_str_inpl memory z base None b 0 = Some ((if z_neg z then [45] else []) @ cs)"
    "chars_val base (rev cs) = Some \<bar>mpz_val z\<bar>"
    using mpz_as_str_ok [of z base b memory] assms(1,3,4) by blast
  have "yields memory (\<lambda>(x, n). is_int (if mpz_val z < 0 then - \<bar>mpz_val z\<bar> else \<bar>mpz_val z\<bar>) x \<and> n = length cs)
      (mpz_set_from_str memory mpz_init_zero cs (mpz_val z < 0) base)"
    by (rule mpz_set_from_str_ok [OF _ _ _ cs(2)]) (use assms(2-4) in simp_all)
  moreover have "(if mpz_val z < 0 then - \<bar>mpz_val z\<bar> else \<bar>mpz_val z\<bar>) = mpz_val z" by simp
  ultimately show ?thesis using cs(1) mpz_neg_iff [OF assms(1)]
    by (auto simp: yields_def is_int_def split: option.splits)
qed

theorem str_round_trip_witness:
  "\<exists>cs. mpz_as_str_inpl memory (big True [0x1234, 9]) 16 None 97 0 = Some ([45] @ cs) \<and>
    (\<exists>x. mpz_set_from_str memory mpz_init_zero cs True 16 = Some (x, length cs) \<and> mpz_ok x \<and> mpz_val x = - 594484)"
  using str_round_trip [of "big True [0x1234, 9]" 16 97] by (simp add: mpz_ok_def normalised_def mpz_val_def)

text \<open>C27: \<open>mpz_as_bytes\<close> fills the whole buffer with the number modulo \<open>256 ^ len\<close>, in two's complement
  and in the byte order asked for, and reading the bytes, which are taken as a number that is not negative,
  gives that back.  What it says of the number is exact when the number is not negative, and for a
  negative one when the buffer has room for all its digits, of two bytes each.  In a shorter buffer a
  negative number is judged by its complement at the width of its digits: one that fits is refused, and
  one that is accepted does not fit.\<close>

theorem bytes_conversion:
  assumes "mpz_ok z" "mp_obj_int_to_bytes_impl z big_endian len = (buf, ok)"
  shows "length buf = len \<and> bytes_val (if big_endian then rev buf else buf) = mpz_val z mod 256 ^ len \<and>
    gives mem (mpz_val z mod 256 ^ len) (mpz_set_from_bytes mem mpz_init_zero big_endian buf) \<and>
    ok = (if 0 \<le> mpz_val z then mpz_val z < 256 ^ len
          else if 2 * z_len z \<le> len then - (128 * 256 ^ (len - 1)) \<le> mpz_val z
          else 65536 ^ z_len z + mpz_val z < 256 ^ len \<and> 128 * 256 ^ (len - 1) \<le> mpz_val z mod 256 ^ len) \<and>
    (mpz_val z < 0 \<and> len < 2 * z_len z \<and> ok \<longrightarrow> mpz_val z < - (128 * 256 ^ (len - 1)))"
proof -
  note r = assms(2) [unfolded mp_obj_int_to_bytes_impl_def]
  have b: "length buf = len" "bytes_val (if big_endian then rev buf else buf) = mpz_val z mod 256 ^ len"
    "0 \<le> mpz_val z \<longrightarrow> (ok \<longleftrightarrow> mpz_val z < 256 ^ len)"
    "mpz_val z < 0 \<and> 2 * z_len z \<le> len \<longrightarrow> (ok \<longleftrightarrow> - (128 * 256 ^ (len - 1)) \<le> mpz_val z)"
    using mpz_as_bytes_ok [OF assms(1) r] by blast+
  have "gives mem (mpz_val z mod 256 ^ len) (mpz_set_from_bytes mem mpz_init_zero big_endian buf)"
    using mpz_set_from_bytes_ok [of mpz_init_zero mem big_endian buf] b(2) by simp
  moreover note mpz_as_bytes_short [OF assms(1) r]
  ultimately show ?thesis using b by (auto simp only: not_le not_less if_True if_False split: if_splits)
qed

theorem bytes_conversion_witness:
  "bytes_val [0, 0, 0, 0, 0x80] = mpz_val (big True [0, 0, 0x80]) mod 256 ^ 5 \<and>
    gives memory 0x8000000000 (mpz_set_from_bytes memory mpz_init_zero True [0x80, 0, 0, 0, 0])"
proof -
  have "mp_obj_int_to_bytes_impl (big True [0, 0, 0x80]) True 5 = ([0x80, 0, 0, 0, 0], False)" by code_simp
  from bytes_conversion [OF _ this, of memory] show ?thesis by (simp add: mpz_ok_def normalised_def mpz_val_def)
qed

text \<open>Conversions to machine words: the checked conversion to \<open>mp_int_t\<close> succeeds exactly for a
  magnitude below \<open>2 ^ 31\<close>, the one to \<open>mp_uint_t\<close> exactly for \<open>0 .. 2 ^ 32 - 1\<close>, both then give the number,
  and the hash and the truncating conversion give its low 32 bits in every case.\<close>

lemma machine_conversions:
  assumes "mpz_ok z"
  shows "(case mpz_as_int_checked z of Some v \<Rightarrow> \<bar>mpz_val z\<bar> < 2147483648 \<and> sint v = mpz_val z
      | None \<Rightarrow> \<bar>mpz_val z\<bar> \<ge> 2147483648) \<and>
    (case mpz_as_uint_checked z of Some v \<Rightarrow> uint v = mpz_val z
      | None \<Rightarrow> mpz_val z < 0 \<or> mpz_val z \<ge> 4294967296) \<and>
    uint (mp_obj_int_get_truncated (BigInt z)) = mpz_val z mod 4294967296"
proof (intro conjI)
  show "case mpz_as_int_checked z of Some v \<Rightarrow> \<bar>mpz_val z\<bar> < 2147483648 \<and> sint v = mpz_val z
      | None \<Rightarrow> \<bar>mpz_val z\<bar> \<ge> 2147483648"
  proof (cases "\<bar>mpz_val z\<bar> < 2147483648")
    case True
    then have "sint (word_of_int (mpz_val z) :: u32) = mpz_val z" by (intro sint_of) linarith+
    then show ?thesis using True by (simp add: mpz_as_int_checked_ok)
  qed (simp add: mpz_as_int_checked_ok)
  show "case mpz_as_uint_checked z of Some v \<Rightarrow> uint v = mpz_val z
      | None \<Rightarrow> mpz_val z < 0 \<or> mpz_val z \<ge> 4294967296"
    by (auto simp: mpz_as_uint_checked_ok [OF assms] uint_word_of_int)
  show "uint (mp_obj_int_get_truncated (BigInt z)) = mpz_val z mod 4294967296"
    by (simp add: mp_obj_int_get_truncated_def mpz_hash_ok uint_word_of_int)
qed

lemma machine_conversions_witness:
  "(case mpz_as_int_checked (big True [0, 0x8000]) of Some v \<Rightarrow> False | None \<Rightarrow> True) \<and>
    uint (mp_obj_int_get_truncated (BigInt (big True [0, 0x8000]))) = 2147483648"
  using machine_conversions [of "big True [0, 0x8000]"]
  by (simp add: mpz_ok_def normalised_def mpz_val_def split: option.splits)

section \<open>The operators of Python\<close>

lemma big_zero_power:
  assumes "int_ok l" "int_ok r" "int_val l = 0" "int_val r = 0" "\<not> both_small l r"
  shows "agrees mem (PyInt 0) (mp_binary_op mem OP_POWER l r)"
proof -
  obtain a where a: "mpz_operand mem l = Some a" "mpz_ok a" "mpz_val a = int_val l" using operand_ok [OF assms(1)] by blast
  obtain b where b: "mpz_operand mem r = Some b" "mpz_ok b" "mpz_val b = int_val r" using operand_ok [OF assms(2)] by blast
  have "mp_binary_op mem OP_POWER l r = int_res (mpz_pow_inpl mem mpz_init_zero a b)"
    using assms(4,5) a b mpz_neg_iff [OF b(2)]
    by (auto simp: mp_binary_op_def both_small_def mp_obj_int_binary_op_def or_no_memory_def mpz_binary_def mpz_is_neg_def
        split: pyint.splits)
  moreover have "gives mem 0 (mpz_pow_inpl mem mpz_init_zero a b)"
    using mpz_pow_ok [OF a(2) b(2) mpz_ok_zero(3), of mem] a(3) assms(3) by simp
  ultimately show ?thesis by (simp add: int_res_ok)
qed

lemma least_by_minus_one:
  assumes "int_ok l" "int_ok r" "both_small l r" "int_val l = - 1073741824" "int_val r = - 1"
  shows "mp_binary_op mem OP_DIVMOD l r = ResPair (new_small (- 1073741824)) (new_small 0)"
proof -
  obtain v w where vw: "l = SmallInt v" "r = SmallInt w" using assms(3) by (auto simp: both_small_def split: pyint.splits)
  have "MP_OBJ_SMALL_INT_VALUE v = - 1073741824" "MP_OBJ_SMALL_INT_VALUE w = - 1"
    using assms(4,5) vw by (simp_all add: signed_word_eqI)
  moreover have "mp_small_int_floor_divide (- 1073741824) (- 1) = 1073741824" "mp_small_int_modulo (- 1073741824) (- 1) = 0"
    "new_small 1073741824 = new_small (- 1073741824)" by code_simp+
  ultimately show ?thesis by (simp add: vw mp_binary_op_def small_binary_op_def Let_def)
qed

text \<open>C11: \<open>mp_binary_op\<close> on two integers, small or big in any combination, is the operation of Python on
  the numbers: it gives a well-formed object with the right value (or the right pair, truth value or
  exception), going through a machine word or through \<open>mpz\<close> as the values require, unless the allocator
  fails.  Of a result that is a float it is only said that it is one.  There are no other exceptions than
  the four of \<open>departure\<close>, for which the result is the one given there: shift counts of magnitude \<open>2 ^ 31\<close> or
  more raise OverflowError; \<open>0 ** 0\<close> is 0 when one of the zeros is a big integer; zero to the power of a
  negative number whose 32-bit float is infinite gives a float; \<open>divmod(-2**30, -1)\<close> of small integers is
  \<open>(-2**30, 0)\<close>.\<close>

theorem mp_binary_op_python:
  assumes "int_ok l" "int_ok r"
  shows "agrees mem (int_outcome op l r) (mp_binary_op mem op l r)"
proof (cases "op = OP_EQUAL")
  case True
  then show ?thesis using mp_obj_equal_not_equal_ok [OF assms(1,2), of mem]
    by (simp add: mp_binary_op_def int_outcome_def departure_def py_binary_def)
next
  case op: False
  consider (zero) "op = OP_POWER" "int_val l = 0" "int_val r = 0" "\<not> both_small l r"
    | (least) "op = OP_DIVMOD" "both_small l r" "int_val l = - 1073741824" "int_val r = - 1"
    | (other) "\<not> (op = OP_POWER \<and> int_val l = 0 \<and> int_val r = 0 \<and> \<not> both_small l r)"
      "\<not> (op = OP_DIVMOD \<and> both_small l r \<and> int_val l = - 1073741824 \<and> int_val r = - 1)" by blast
  then show ?thesis
  proof cases
    case zero
    then show ?thesis using big_zero_power [OF assms zero(2-4)] by (simp add: int_outcome_def departure_def)
  next
    case least
    have "int_ok (new_small (- 1073741824))" "int_val (new_small (- 1073741824)) = - 1073741824" "int_ok (new_small 0)" "int_val (new_small 0) = 0"
      using new_small_ok [of "- 1073741824"] new_small_ok [of 0] by simp_all
    then show ?thesis using least least_by_minus_one [OF assms least(2-4), of mem] by (simp add: int_outcome_def departure_def)
  next
    case other
    have out: "int_outcome op l r = limited (huge r) op (int_val l) (int_val r)"
      using other by (auto simp: int_outcome_def departure_def limited_def)
    show ?thesis
    proof (cases "both_small l r")
      case True
      then obtain v w where vw: "l = SmallInt v" "r = SmallInt w" by (auto simp: both_small_def split: pyint.splits)
      have "agrees mem (limited (huge (SmallInt w)) op (sint (MP_OBJ_SMALL_INT_VALUE v)) (sint (MP_OBJ_SMALL_INT_VALUE w))) (small_binary_op mem op v w)"
        by (rule small_binary_op_ok) (use assms op other(2) True vw in auto)
      then show ?thesis unfolding out using vw op by (simp add: mp_binary_op_def)
    next
      case False
      then have "mp_binary_op mem op l r = mp_obj_int_binary_op mem op l r"
        using op by (auto simp: mp_binary_op_def both_small_def split: pyint.splits)
      moreover have "agrees mem (limited (huge r) op (int_val l) (int_val r)) (mp_obj_int_binary_op mem op l r)"
        by (rule mp_obj_int_binary_op_ok [OF assms]) (use other(1) False in blast)
      ultimately show ?thesis unfolding out by simp
    qed
  qed
qed

theorem mp_binary_op_python_witness:
  "agrees memory (PyInt (- 5497558138881)) (mp_binary_op memory OP_FLOOR_DIVIDE (BigInt (big True [1, 0, 0x500])) (new_small 1))
    \<and> agrees memory (PyInt 1152921502459363329) (mp_binary_op memory OP_MULTIPLY (new_small 1073741823) (new_small 1073741823))
    \<and> agrees memory (PyRaise OverflowError) (mp_binary_op memory OP_RSHIFT (new_small 1) (BigInt (big False [0, 0, 0x100])))"
proof -
  have n: "int_ok (new_small 1)" "int_val (new_small 1) = 1" "int_ok (new_small 1073741823)" "int_val (new_small 1073741823) = 1073741823"
    using new_small_ok [of 1] new_small_ok [of 1073741823] by simp_all
  have b: "int_ok (BigInt (big True [1, 0, 0x500]))" "int_val (BigInt (big True [1, 0, 0x500])) = - 5497558138881"
      "int_ok (BigInt (big False [0, 0, 0x100]))" "int_val (BigInt (big False [0, 0, 0x100])) = 1099511627776"
    by (simp_all add: mpz_ok_def normalised_def mpz_val_def)
  have "agrees memory (int_outcome OP_FLOOR_DIVIDE (BigInt (big True [1, 0, 0x500])) (new_small 1))
      (mp_binary_op memory OP_FLOOR_DIVIDE (BigInt (big True [1, 0, 0x500])) (new_small 1))"
    by (rule mp_binary_op_python [OF b(1) n(1)])
  moreover have "agrees memory (int_outcome OP_MULTIPLY (new_small 1073741823) (new_small 1073741823))
      (mp_binary_op memory OP_MULTIPLY (new_small 1073741823) (new_small 1073741823))"
    by (rule mp_binary_op_python [OF n(3) n(3)])
  moreover have "agrees memory (int_outcome OP_RSHIFT (new_small 1) (BigInt (big False [0, 0, 0x100])))
      (mp_binary_op memory OP_RSHIFT (new_small 1) (BigInt (big False [0, 0, 0x100])))"
    by (rule mp_binary_op_python [OF n(1) b(3)])
  ultimately show ?thesis unfolding int_outcome_def departure_def b n py_binary_def by simp
qed

section \<open>Departures from the integers\<close>

text \<open>\<open>divmod(-2**30, -1)\<close> stores a quotient that is no small integer as one: it comes out as \<open>-2**30\<close>.\<close>

lemma divmod_least_by_minus_one:
  "mp_binary_op memory OP_DIVMOD (new_small (- 1073741824)) (new_small (- 1)) =
    ResPair (new_small (- 1073741824)) (new_small 0)"
  by code_simp

text \<open>The remainder of a \<open>divmod\<close> of big integers stays a big integer, also when it is zero; and a zero that
  is a big integer, raised to the power zero, gives zero.\<close>

lemma divmod_keeps_big_zero:
  "mp_binary_op memory OP_DIVMOD (BigInt (big False [0, 0, 8])) (BigInt (big False [0, 0, 4])) =
    ResPair (BigInt \<lparr>z_neg = False, z_fixed_dig = False, z_alloc = 4, z_dig = [2]\<rparr>)
      (BigInt \<lparr>z_neg = False, z_fixed_dig = False, z_alloc = 4, z_dig = []\<rparr>)"
  by code_simp

lemma big_zero_power_zero:
  "mp_binary_op memory OP_POWER (BigInt \<lparr>z_neg = False, z_fixed_dig = False, z_alloc = 4, z_dig = []\<rparr>) (new_small 0) =
    ResInt (new_small 0)"
  by code_simp

text \<open>\<open>pow(0, 0, 5)\<close> gives zero, and \<open>pow(5, 0, -3)\<close> gives one.\<close>

lemma pow3_zero_exponent:
  "mp_obj_int_pow3 memory (new_small 0) (new_small 0) (new_small 5) = ResInt (BigInt mpz_init_zero)"
  "(case mp_obj_int_pow3 memory (new_small 5) (new_small 0) (new_small (- 3)) of ResInt x \<Rightarrow> int_val x = 1 | _ \<Rightarrow> False)"
  by code_simp+

text \<open>The number \<open>-2**39\<close> fits in five bytes and is refused, because the byte above them is checked for
  zero and not for the sign; and \<open>-(2**48 - 2**39)\<close> does not fit and is accepted, as \<open>-2**39\<close>.\<close>

lemma to_bytes_negative:
  "mp_obj_int_to_bytes_impl (big True [0, 0, 0x80]) False 5 = ([0, 0, 0, 0, 0x80], False)"
  "mp_obj_int_to_bytes_impl (big True [0, 0, 0xFF80]) False 5 = ([0, 0, 0, 0, 0x80], True)"
  by code_simp+

text \<open>Shifting \<open>-5\<close> right by one in place gives \<open>-2\<close> instead of \<open>-3\<close>: the rounding test reads the digits
  that the shift has already overwritten.\<close>

lemma shr_in_place:
  "map_option mpz_val (mpz_shr_inpl memory True (big True [5]) (big True [5]) 1) = Some (- 2)"
  "map_option mpz_val (mpz_shr_inpl memory False mpz_init_zero (big True [5]) 1) = Some (- 3)"
  by code_simp+

end
