(* ===== verification/Sequence.thy ===== *)
theory Sequence
  imports Objects IntCorrect
begin

text \<open>
  What the sequence types share: an index or slice argument read as a machine integer (\<open>py/obj.c\<close>), the
  resolution of slices (\<open>py/objslice.c\<close>), and comparing, searching and counting in arrays of objects
  (\<open>py/sequence.c\<close>).  Comparing two objects may run user code; its answers are parameters.  A signed
  machine integer is its value; no sum here leaves the range, since a sequence has fewer than \<open>2 ^ 30\<close>
  elements.
\<close>

section \<open>Integer arguments\<close>

text \<open>\<open>OtherArg\<close> carries what the object answers to \<open>MP_UNARY_OP_INT_MAYBE\<close>.\<close>

datatype int_arg = NoneArg | BoolArg bool | IntArg pyint | OtherArg "pyint option"

datatype seq_exn =
    IndexError | TypeError | ValueError | OverflowError | MemoryError | NotImplementedError | RuntimeError
  | BadAccess   \<comment> \<open>an access outside an array\<close>

definition get_checked :: "pyint \<Rightarrow> seq_exn + int option" where
  "get_checked x = (case mp_obj_int_get_checked x of None \<Rightarrow> Inl OverflowError | Some v \<Rightarrow> Inr (Some (sint v)))"

definition mp_obj_get_int_maybe :: "int_arg \<Rightarrow> seq_exn + int option" where
  "mp_obj_get_int_maybe arg =
     (case arg of
        BoolArg b \<Rightarrow> Inr (Some (if b then 1 else 0))
      | IntArg x \<Rightarrow> get_checked x
      | OtherArg (Some x) \<Rightarrow> get_checked x
      | _ \<Rightarrow> Inr None)"

definition mp_obj_get_int :: "int_arg \<Rightarrow> seq_exn + int" where
  "mp_obj_get_int arg =
     (case mp_obj_get_int_maybe arg of
        Inl err \<Rightarrow> Inl err
      | Inr None \<Rightarrow> Inl TypeError
      | Inr (Some v) \<Rightarrow> Inr v)"

definition mp_get_index :: "nat \<Rightarrow> int_arg \<Rightarrow> bool \<Rightarrow> seq_exn + nat" where
  "mp_get_index len index is_slice =
     (case mp_obj_get_int_maybe index of
        Inl err \<Rightarrow> Inl err
      | Inr None \<Rightarrow> Inl TypeError
      | Inr (Some i0) \<Rightarrow>
          let i = (if i0 < 0 then i0 + int len else i0)
          in if is_slice then Inr (if i < 0 then 0 else if i > int len then len else nat i)
             else if i < 0 \<or> i \<ge> int len then Inl IndexError
             else Inr (nat i))"

section \<open>Slices\<close>

record mp_obj_slice_t =
  slice_start :: int_arg
  slice_stop :: int_arg
  slice_step :: int_arg

record mp_bound_slice_t =
  start :: int
  stop :: int
  step :: int

text \<open>A bound of the slice: the default, or the value counted from the end when it is negative and
  moved into the limits.\<close>

definition slice_bound :: "int_arg \<Rightarrow> int \<Rightarrow> int \<Rightarrow> int \<Rightarrow> int \<Rightarrow> seq_exn + int" where
  "slice_bound arg dflt n lo hi =
     (if arg = NoneArg then Inr dflt
      else case mp_obj_get_int arg of
        Inl err \<Rightarrow> Inl err
      | Inr v \<Rightarrow> Inr (min hi (max (if v < 0 then v + n else v) lo)))"

definition mp_obj_slice_indices :: "mp_obj_slice_t \<Rightarrow> int \<Rightarrow> seq_exn + mp_bound_slice_t" where
  "mp_obj_slice_indices self n =
     (case (if slice_step self = NoneArg then Inr 1 else mp_obj_get_int (slice_step self)) of
        Inl err \<Rightarrow> Inl err
      | Inr st \<Rightarrow>
          if st = 0 then Inl ValueError
          else
            let bounds = (if st > 0 then
                   (slice_bound (slice_start self) 0 n 0 n, slice_bound (slice_stop self) n n 0 n)
                 else
                   (slice_bound (slice_start self) (n - 1) n (- 1) (n - 1),
                    slice_bound (slice_stop self) (- 1) n (- 1) (n - 1)))
            in case bounds of
                 (Inl err, _) \<Rightarrow> Inl err
               | (_, Inl err) \<Rightarrow> Inl err
               | (Inr a, Inr b) \<Rightarrow> Inr \<lparr>start = a, stop = b, step = st\<rparr>)"

text \<open>The result says whether the slice is a contiguous range.\<close>

definition mp_seq_get_fast_slice_indexes :: "nat \<Rightarrow> mp_obj_slice_t \<Rightarrow> seq_exn + bool \<times> mp_bound_slice_t" where
  "mp_seq_get_fast_slice_indexes len sl =
     (case mp_obj_slice_indices sl (int len) of
        Inl err \<Rightarrow> Inl err
      | Inr ix0 \<Rightarrow>
          let ix1 = (if step ix0 < 0 then ix0\<lparr>stop := stop ix0 + 1\<rparr> else ix0);
              ix = (if step ix1 > 0 \<and> start ix1 > stop ix1 then ix1\<lparr>stop := start ix1\<rparr>
                    else if step ix1 < 0 \<and> start ix1 < stop ix1 then ix1\<lparr>stop := start ix1 + 1\<rparr>
                    else ix1)
          in Inr (step ix = 1, ix))"

definition slice_indices :: "mp_obj_slice_t \<Rightarrow> int_arg \<Rightarrow> seq_exn + mp_bound_slice_t" where
  "slice_indices self length_obj =
     (case mp_obj_get_int length_obj of Inl err \<Rightarrow> Inl err | Inr n \<Rightarrow> mp_obj_slice_indices self n)"

section \<open>Comparing\<close>

text \<open>The bounds of two arrays are those of the lists.  \<open>eq\<close> is \<open>mp_obj_equal\<close>, and \<open>rel op\<close> says
  whether \<open>mp_binary_op(op, \<dots>)\<close> gives True.\<close>

fun cmp_loop :: "(mp_obj_t \<Rightarrow> mp_obj_t \<Rightarrow> bool) \<Rightarrow> (int_op \<Rightarrow> mp_obj_t \<Rightarrow> mp_obj_t \<Rightarrow> bool) \<Rightarrow> int_op \<Rightarrow>
    mp_obj_t list \<Rightarrow> mp_obj_t list \<Rightarrow> bool option" where
  "cmp_loop eq rel op (x # xs) (y # ys) =
     (if eq x y then cmp_loop eq rel op xs ys
      else if op = OP_EQUAL then Some False
      else Some (rel op x y))"
| "cmp_loop eq rel op _ _ = None"

text \<open>Less-than is greater-than with the operands swapped.\<close>

definition swap_op :: "int_op \<Rightarrow> 'a \<Rightarrow> 'a \<Rightarrow> int_op \<times> 'a \<times> 'a" where
  "swap_op op a b =
     (if op = OP_LESS \<or> op = OP_LESS_EQUAL then (if op = OP_LESS then OP_MORE else OP_MORE_EQUAL, b, a) else (op, a, b))"

text \<open>After a tie in all the common elements, with the lengths left.\<close>

definition cmp_tie :: "int_op \<Rightarrow> nat \<Rightarrow> nat \<Rightarrow> bool" where
  "cmp_tie op len1 len2 =
     (if len1 \<noteq> len2 then (if len1 < len2 then False else True) else if op = OP_MORE then False else True)"

definition mp_seq_cmp_objs :: "(mp_obj_t \<Rightarrow> mp_obj_t \<Rightarrow> bool) \<Rightarrow> (int_op \<Rightarrow> mp_obj_t \<Rightarrow> mp_obj_t \<Rightarrow> bool) \<Rightarrow> int_op \<Rightarrow>
    mp_obj_t list \<Rightarrow> mp_obj_t list \<Rightarrow> bool" where
  "mp_seq_cmp_objs eq rel op items1 items2 =
     (if op = OP_EQUAL \<and> length items1 \<noteq> length items2 then False
      else
        let (op1, i1, i2) = swap_op op items1 items2
        in case cmp_loop eq rel op1 i1 i2 of
             Some decided \<Rightarrow> decided
           | None \<Rightarrow> cmp_tie op1 (length i1) (length i2))"

fun memcmp :: "bytes \<Rightarrow> bytes \<Rightarrow> int" where
  "memcmp (x # xs) (y # ys) = (if x = y then memcmp xs ys else uint x - uint y)"
| "memcmp _ _ = 0"

definition mp_seq_cmp_bytes :: "int_op \<Rightarrow> bytes \<Rightarrow> bytes \<Rightarrow> bool" where
  "mp_seq_cmp_bytes op data1 data2 =
     (if op = OP_EQUAL \<and> length data1 \<noteq> length data2 then False
      else
        let (op1, d1, d2) = swap_op op data1 data2;
            res = memcmp d1 d2
        in if op1 = OP_EQUAL then res = 0
           else if res < 0 then False
           else if res > 0 then True
           else cmp_tie op1 (length d1) (length d2))"

section \<open>Searching, counting and repeating\<close>

fun index_loop :: "(mp_obj_t \<Rightarrow> mp_obj_t \<Rightarrow> bool) \<Rightarrow> mp_obj_t list \<Rightarrow> mp_obj_t \<Rightarrow> nat \<Rightarrow> nat \<Rightarrow> nat option" where
  "index_loop eq items v i 0 = None"
| "index_loop eq items v i (Suc n) = (if eq (items ! i) v then Some i else index_loop eq items v (Suc i) n)"

text \<open>The arguments are the value and up to two bounds.\<close>

definition mp_seq_index_obj :: "(mp_obj_t \<Rightarrow> mp_obj_t \<Rightarrow> bool) \<Rightarrow> mp_obj_t list \<Rightarrow> mp_obj_t \<Rightarrow> int_arg option \<Rightarrow> int_arg option \<Rightarrow>
    seq_exn + nat" where
  "mp_seq_index_obj eq items v arg2 arg3 =
     (case (case arg2 of None \<Rightarrow> Inr 0 | Some a \<Rightarrow> mp_get_index (length items) a True) of
        Inl err \<Rightarrow> Inl err
      | Inr i \<Rightarrow>
          (case (case arg3 of None \<Rightarrow> Inr (length items) | Some b \<Rightarrow> mp_get_index (length items) b True) of
             Inl err \<Rightarrow> Inl err
           | Inr j \<Rightarrow> (case index_loop eq items v i (j - i) of None \<Rightarrow> Inl ValueError | Some k \<Rightarrow> Inr k)))"

definition mp_seq_count_obj :: "(mp_obj_t \<Rightarrow> mp_obj_t \<Rightarrow> bool) \<Rightarrow> mp_obj_t list \<Rightarrow> mp_obj_t \<Rightarrow> nat" where
  "mp_seq_count_obj eq items v = fold (\<lambda>x count. if eq x v then count + 1 else count) items 0"

text \<open>Writing a number of copies of the items one after the other to \<open>dest\<close>, from \<open>off\<close> on.\<close>

fun mp_seq_multiply :: "mp_obj_t list \<Rightarrow> nat \<Rightarrow> mp_obj_t list \<Rightarrow> nat \<Rightarrow> seq_exn + mp_obj_t list" where
  "mp_seq_multiply items 0 dest off = Inr dest"
| "mp_seq_multiply items (Suc k) dest off =
     (if off + length items \<le> length dest
      then mp_seq_multiply items k (buf_write dest off items) (off + length items)
      else Inl BadAccess)"

end
