(* ===== verification/ListObj.thy ===== *)
theory ListObj
  imports Sequence
begin

text \<open>
  The \<open>list\<close> objects of \<open>py/objlist.c\<close>, all but \<open>sort\<close>.  A list is an array of \<open>alloc\<close> words of which
  the first \<open>len\<close> are its elements; an operation runs on the list and leaves it, also when it raises.
  An argument may be the list itself.  Which sizes in bytes the allocator grants, and what it leaves in
  fresh words, is the record \<open>list_env\<close>.  The size of an allocation wraps around at \<open>2 ^ 32\<close> bytes.
\<close>

section \<open>State\<close>

abbreviation LIST_MIN_ALLOC :: nat where "LIST_MIN_ALLOC \<equiv> 4"

record mp_obj_list_t =
  alloc :: nat
  len :: nat
  items :: "mp_obj_t list"

record list_env =
  grants :: "nat \<Rightarrow> bool"
  junk :: "nat \<Rightarrow> mp_obj_t"
  item_equal :: "mp_obj_t \<Rightarrow> mp_obj_t \<Rightarrow> bool"                 \<comment> \<open>\<open>mp_obj_equal\<close>\<close>
  item_rel :: "int_op \<Rightarrow> mp_obj_t \<Rightarrow> mp_obj_t \<Rightarrow> bool"         \<comment> \<open>\<open>mp_binary_op(op, \<dots>) == mp_const_true\<close>\<close>

text \<open>An argument that is no list or tuple is known by the integer it may stand for and by what it
  yields when it is iterated, if it can be.\<close>

datatype list_arg = ArgSelf | ArgList "mp_obj_t list" | ArgTuple "mp_obj_t list" | ArgOther int_arg "mp_obj_t list option"

type_synonym 'a list_result = "(seq_exn + 'a) \<times> mp_obj_list_t"

definition seq_then :: "'a list_result \<Rightarrow> ('a \<Rightarrow> mp_obj_list_t \<Rightarrow> 'b list_result) \<Rightarrow> 'b list_result" where
  "seq_then r k = (case r of (Inl err, s) \<Rightarrow> (Inl err, s) | (Inr x, s) \<Rightarrow> k x s)"

lemma seq_then_simps [simp]: "seq_then (Inl err, s) k = (Inl err, s)" "seq_then (Inr x, s) k = k x s"
  by (simp_all add: seq_then_def)

section \<open>Memory\<close>

definition size_bytes :: "nat \<Rightarrow> nat" where
  "size_bytes n = 4 * n mod 2 ^ 32"

definition m_new :: "list_env \<Rightarrow> nat \<Rightarrow> mp_obj_t list option" where
  "m_new E n =
     (if size_bytes n = 0 \<or> grants E (size_bytes n) then Some (map (junk E) [0..<size_bytes n div 4]) else None)"

definition m_renew :: "list_env \<Rightarrow> nat \<Rightarrow> mp_obj_list_t \<Rightarrow> unit list_result" where
  "m_renew E n self =
     (if size_bytes n = 0 \<or> grants E (size_bytes n)
      then (Inr (), self\<lparr>items := take (size_bytes n div 4) (items self) @ map (junk E) [length (items self)..<size_bytes n div 4]\<rparr>)
      else (Inl MemoryError, self))"

definition put_items :: "nat \<Rightarrow> mp_obj_t list \<Rightarrow> mp_obj_list_t \<Rightarrow> unit list_result" where
  "put_items off xs self =
     (if off + length xs \<le> length (items self) then (Inr (), self\<lparr>items := buf_write (items self) off xs\<rparr>)
      else (Inl BadAccess, self))"

definition get_items :: "nat \<Rightarrow> nat \<Rightarrow> mp_obj_list_t \<Rightarrow> mp_obj_t list list_result" where
  "get_items off n self =
     (if off + n \<le> length (items self) then (Inr (buf_read (items self) off n), self) else (Inl BadAccess, self))"

definition mp_seq_clear :: "nat \<Rightarrow> nat \<Rightarrow> mp_obj_list_t \<Rightarrow> unit list_result" where
  "mp_seq_clear n alloc_len self =
     (if n \<le> alloc_len then put_items n (replicate (alloc_len - n) MP_OBJ_NULL) self else (Inl BadAccess, self))"

text \<open>\<open>memmove\<close> inside the array.\<close>

definition move_items :: "nat \<Rightarrow> nat \<Rightarrow> nat \<Rightarrow> mp_obj_list_t \<Rightarrow> unit list_result" where
  "move_items dest src n self = seq_then (get_items src n self) (put_items dest)"

section \<open>Making lists\<close>

definition mp_obj_list_init :: "list_env \<Rightarrow> nat \<Rightarrow> seq_exn + mp_obj_list_t" where
  "mp_obj_list_init E n =
     (let al = (if n < LIST_MIN_ALLOC then LIST_MIN_ALLOC else n)
      in case m_new E al of
           None \<Rightarrow> Inl MemoryError
         | Some its \<Rightarrow>
             (case mp_seq_clear n al \<lparr>alloc = al, len = n, items = its\<rparr> of
                (Inl err, _) \<Rightarrow> Inl err
              | (Inr _, o1) \<Rightarrow> Inr o1))"

definition list_new :: "list_env \<Rightarrow> nat \<Rightarrow> seq_exn + mp_obj_list_t" where
  "list_new E n = (if grants E 16 then mp_obj_list_init E n else Inl MemoryError)"

text \<open>A new list that is filled.\<close>

definition filled_list :: "list_env \<Rightarrow> nat \<Rightarrow> (mp_obj_list_t \<Rightarrow> unit list_result) \<Rightarrow> seq_exn + mp_obj_list_t" where
  "filled_list E n fill =
     (case list_new E n of
        Inl err \<Rightarrow> Inl err
      | Inr o1 \<Rightarrow> (case fill o1 of (Inl err, _) \<Rightarrow> Inl err | (Inr _, o2) \<Rightarrow> Inr o2))"

text \<open>None is the null pointer for the items.\<close>

definition mp_obj_new_list :: "list_env \<Rightarrow> nat \<Rightarrow> mp_obj_t list option \<Rightarrow> seq_exn + mp_obj_list_t" where
  "mp_obj_new_list E n xs =
     filled_list E n (\<lambda>o1. case xs of
         None \<Rightarrow> (Inr (), o1)
       | Some ys \<Rightarrow> if n \<le> length ys then put_items 0 (take n ys) o1 else (Inl BadAccess, o1))"

section \<open>Adding elements\<close>

definition mp_obj_list_append :: "list_env \<Rightarrow> mp_obj_t \<Rightarrow> mp_obj_list_t \<Rightarrow> unit list_result" where
  "mp_obj_list_append E arg self =
     seq_then
       (if len self \<ge> alloc self then
          seq_then (m_renew E (alloc self * 2) self) (\<lambda>_ s.
            let s1 = s\<lparr>alloc := alloc s * 2\<rparr> in mp_seq_clear (len s1 + 1) (alloc s1) s1)
        else (Inr (), self))
       (\<lambda>_ s. seq_then (put_items (len s) [arg] s) (\<lambda>_ s. (Inr (), s\<lparr>len := len s + 1\<rparr>)))"

fun list_extend_from_iter :: "list_env \<Rightarrow> mp_obj_t list \<Rightarrow> mp_obj_list_t \<Rightarrow> unit list_result" where
  "list_extend_from_iter E [] self = (Inr (), self)"
| "list_extend_from_iter E (x # xs) self = seq_then (mp_obj_list_append E x self) (\<lambda>_. list_extend_from_iter E xs)"

definition iterate :: "list_env \<Rightarrow> mp_obj_t list option \<Rightarrow> mp_obj_list_t \<Rightarrow> unit list_result" where
  "iterate E ys self = (case ys of None \<Rightarrow> (Inl TypeError, self) | Some xs \<Rightarrow> list_extend_from_iter E xs self)"

definition mp_obj_list_make_new :: "list_env \<Rightarrow> mp_obj_t list option option \<Rightarrow> seq_exn + mp_obj_list_t" where
  "mp_obj_list_make_new E args =
     (case mp_obj_new_list E 0 None of
        Inl err \<Rightarrow> Inl err
      | Inr o1 \<Rightarrow>
          (case args of
             None \<Rightarrow> Inr o1
           | Some ys \<Rightarrow> (case iterate E ys o1 of (Inl err, _) \<Rightarrow> Inl err | (Inr _, o2) \<Rightarrow> Inr o2)))"

text \<open>Extending by a list; the array of the argument is read after the list has been moved.\<close>

definition extend_by :: "list_env \<Rightarrow> nat \<Rightarrow> (mp_obj_list_t \<Rightarrow> mp_obj_t list list_result) \<Rightarrow> mp_obj_list_t \<Rightarrow> unit list_result" where
  "extend_by E arg_len arg_items self =
     seq_then
       (if len self + arg_len > alloc self then
          seq_then (m_renew E (len self + arg_len + 4) self) (\<lambda>_ s.
            let s1 = s\<lparr>alloc := len s + arg_len + 4\<rparr> in mp_seq_clear (len s1 + arg_len) (alloc s1) s1)
        else (Inr (), self))
       (\<lambda>_ s. seq_then (arg_items s) (\<lambda>xs s.
          seq_then (put_items (len s) xs s) (\<lambda>_ s. (Inr (), s\<lparr>len := len s + arg_len\<rparr>))))"

definition list_extend :: "list_env \<Rightarrow> list_arg \<Rightarrow> mp_obj_list_t \<Rightarrow> unit list_result" where
  "list_extend E arg self =
     (case arg of
        ArgSelf \<Rightarrow> extend_by E (len self) (\<lambda>s. get_items 0 (len s) s) self
      | ArgList xs \<Rightarrow> extend_by E (length xs) (\<lambda>s. (Inr xs, s)) self
      | ArgTuple xs \<Rightarrow> list_extend_from_iter E xs self
      | ArgOther _ ys \<Rightarrow> iterate E ys self)"

text \<open>The index of \<open>insert\<close> is an object that is taken for a small integer without a test.\<close>

fun shift_up :: "nat \<Rightarrow> nat \<Rightarrow> mp_obj_list_t \<Rightarrow> unit list_result" where
  "shift_up index 0 self = (Inr (), self)"
| "shift_up index (Suc n) self =
     seq_then (get_items (index + n) 1 self) (\<lambda>x s.
       seq_then (put_items (index + n + 1) x s) (\<lambda>_. shift_up index n))"

definition list_insert :: "list_env \<Rightarrow> u32 \<Rightarrow> mp_obj_t \<Rightarrow> mp_obj_t \<Rightarrow> mp_obj_list_t \<Rightarrow> unit list_result" where
  "list_insert E idx obj none self =
     (let i0 = sint (MP_OBJ_SMALL_INT_VALUE idx);
          i1 = (if i0 < 0 then i0 + int (len self) else i0);
          i2 = (if i1 < 0 then 0 else i1);
          index = nat (if i2 > int (len self) then int (len self) else i2)
      in seq_then (mp_obj_list_append E none self) (\<lambda>_ s.
           seq_then (shift_up index (len s - 1 - index) s) (\<lambda>_. put_items index [obj])))"

section \<open>Removing elements\<close>

definition list_pop :: "list_env \<Rightarrow> int_arg option \<Rightarrow> mp_obj_list_t \<Rightarrow> mp_obj_t list_result" where
  "list_pop E arg self =
     (if len self = 0 then (Inl IndexError, self)
      else case (case arg of None \<Rightarrow> mp_get_index (len self) (IntArg (new_small (- 1))) False
                           | Some a \<Rightarrow> mp_get_index (len self) a False) of
        Inl err \<Rightarrow> (Inl err, self)
      | Inr index \<Rightarrow>
          seq_then (get_items index 1 self) (\<lambda>ret s0.
            let s = s0\<lparr>len := len s0 - 1\<rparr>
            in seq_then (move_items index (index + 1) (len s - index) s) (\<lambda>_ s.
               seq_then (put_items (len s) [MP_OBJ_NULL] s) (\<lambda>_ s.
               seq_then
                 (if alloc s > LIST_MIN_ALLOC \<and> alloc s > 2 * len s
                  then seq_then (m_renew E (alloc s div 2) s) (\<lambda>_ s. (Inr (), s\<lparr>alloc := alloc s div 2\<rparr>))
                  else (Inr (), s)) (\<lambda>_ s. (Inr (hd ret), s))))))"

definition list_clear :: "list_env \<Rightarrow> mp_obj_list_t \<Rightarrow> unit list_result" where
  "list_clear E self =
     seq_then (m_renew E LIST_MIN_ALLOC (self\<lparr>len := 0\<rparr>)) (\<lambda>_ s.
       let s1 = s\<lparr>alloc := LIST_MIN_ALLOC\<rparr> in mp_seq_clear 0 (alloc s1) s1)"

section \<open>Searching and reordering\<close>

definition elems :: "mp_obj_list_t \<Rightarrow> mp_obj_t list" where
  "elems self = take (len self) (items self)"

definition list_count :: "list_env \<Rightarrow> mp_obj_t \<Rightarrow> mp_obj_list_t \<Rightarrow> nat" where
  "list_count E v self = mp_seq_count_obj (item_equal E) (elems self) v"

definition list_index :: "list_env \<Rightarrow> mp_obj_t \<Rightarrow> int_arg option \<Rightarrow> int_arg option \<Rightarrow> mp_obj_list_t \<Rightarrow> seq_exn + nat" where
  "list_index E v arg2 arg3 self = mp_seq_index_obj (item_equal E) (elems self) v arg2 arg3"

definition mp_obj_list_remove :: "list_env \<Rightarrow> mp_obj_t \<Rightarrow> mp_obj_list_t \<Rightarrow> unit list_result" where
  "mp_obj_list_remove E v self =
     (case list_index E v None None self of
        Inl err \<Rightarrow> (Inl err, self)
      | Inr i \<Rightarrow> seq_then (list_pop E (Some (IntArg (new_small (of_nat i)))) self) (\<lambda>_ s. (Inr (), s)))"

definition list_copy :: "list_env \<Rightarrow> mp_obj_list_t \<Rightarrow> seq_exn + mp_obj_list_t" where
  "list_copy E self = mp_obj_new_list E (len self) (Some (items self))"

fun reverse_loop :: "nat \<Rightarrow> nat \<Rightarrow> mp_obj_list_t \<Rightarrow> unit list_result" where
  "reverse_loop i 0 self = (Inr (), self)"
| "reverse_loop i (Suc n) self =
     seq_then (get_items i 1 self) (\<lambda>a s.
       seq_then (get_items (len s - i - 1) 1 s) (\<lambda>b s.
       seq_then (put_items i b s) (\<lambda>_ s.
       seq_then (put_items (len s - i - 1) a s) (\<lambda>_. reverse_loop (i + 1) n))))"

definition list_reverse :: "mp_obj_list_t \<Rightarrow> unit list_result" where
  "list_reverse self = reverse_loop 0 (len self div 2) self"

section \<open>Subscripts\<close>

definition mp_obj_list_store :: "int_arg \<Rightarrow> mp_obj_t \<Rightarrow> mp_obj_list_t \<Rightarrow> unit list_result" where
  "mp_obj_list_store index v self =
     (case mp_get_index (len self) index False of
        Inl err \<Rightarrow> (Inl err, self)
      | Inr i \<Rightarrow> put_items i [v] self)"

text \<open>An element by element copy of the items \<open>start\<close>, \<open>start + step\<close>, \dots; the sum is that of the
  machine.  None is a loop that does not end.\<close>

definition mp_int_add :: "int \<Rightarrow> int \<Rightarrow> int" where
  "mp_int_add a b = sint (word_of_int (a + b) :: u32)"

partial_function (option) extract_loop :: "list_env \<Rightarrow> mp_obj_t list \<Rightarrow> mp_bound_slice_t \<Rightarrow> int \<Rightarrow> mp_obj_list_t \<Rightarrow>
    unit list_result option" where
  "extract_loop E seq ix i res =
     (if (if step ix < 0 then i \<ge> stop ix else i < stop ix) then
        (if i < 0 \<or> i \<ge> int (length seq) then Some (Inl BadAccess, res)
         else
           (case mp_obj_list_append E (seq ! nat i) res of
              (Inl err, res1) \<Rightarrow> Some (Inl err, res1)
            | (Inr _, res1) \<Rightarrow> extract_loop E seq ix (mp_int_add i (step ix)) res1))
      else Some (Inr (), res))"

definition mp_seq_extract_slice :: "list_env \<Rightarrow> mp_obj_t list \<Rightarrow> mp_bound_slice_t \<Rightarrow> (seq_exn + mp_obj_list_t) option" where
  "mp_seq_extract_slice E seq indexes =
     (case mp_obj_new_list E 0 None of
        Inl err \<Rightarrow> Some (Inl err)
      | Inr res \<Rightarrow>
          map_option (\<lambda>r. case r of (Inl err, _) \<Rightarrow> Inl err | (Inr _, res1) \<Rightarrow> Inr res1)
            (extract_loop E seq indexes (start indexes) res))"

definition list_load_slice :: "list_env \<Rightarrow> mp_obj_slice_t \<Rightarrow> mp_obj_list_t \<Rightarrow> (seq_exn + mp_obj_list_t) option" where
  "list_load_slice E index self =
     (case mp_seq_get_fast_slice_indexes (len self) index of
        Inl err \<Rightarrow> Some (Inl err)
      | Inr (fast, ix) \<Rightarrow>
          if \<not> fast then mp_seq_extract_slice E (items self) ix
          else Some (let n = nat (stop ix - start ix)
                     in filled_list E n (put_items 0 (buf_read (items self) (nat (start ix)) n))))"

text \<open>The array of a value that is stored into a slice.  The items of the list itself were read before the
  array was moved; the freed block still holds them, and the elements in front of the end of the slice
  are not yet overwritten when they are read.\<close>

definition list_store_slice :: "list_env \<Rightarrow> mp_obj_slice_t \<Rightarrow> list_arg \<Rightarrow> mp_obj_list_t \<Rightarrow> unit list_result" where
  "list_store_slice E index v self =
     (case mp_seq_get_fast_slice_indexes (len self) index of
        Inl err \<Rightarrow> (Inl err, self)
      | Inr (fast, ix) \<Rightarrow>
          if \<not> fast then (Inl NotImplementedError, self)
          else case (case v of ArgSelf \<Rightarrow> Some (len self) | ArgList xs \<Rightarrow> Some (length xs) | ArgTuple xs \<Rightarrow> Some (length xs)
                           | ArgOther _ _ \<Rightarrow> None) of
            None \<Rightarrow> (Inl TypeError, self)
          | Some value_len \<Rightarrow>
              let beg = nat (start ix); fin = nat (stop ix);
                  len_adj = int value_len - (stop ix - start ix);
                  new_len = nat (int (len self) + len_adj);
                  value_items = (\<lambda>s. case v of ArgSelf \<Rightarrow> get_items 0 value_len s | ArgList xs \<Rightarrow> (Inr xs, s)
                                   | ArgTuple xs \<Rightarrow> (Inr xs, s) | ArgOther _ _ \<Rightarrow> (Inl TypeError, s))
              in seq_then
                   (if len_adj > 0 then
                      seq_then
                        (if new_len > alloc self
                         then seq_then (m_renew E new_len self) (\<lambda>_ s. (Inr (), s\<lparr>alloc := new_len\<rparr>))
                         else (Inr (), self)) (\<lambda>_ s.
                      seq_then (move_items (beg + value_len) fin (new_len - (beg + value_len)) s) (\<lambda>_ s.
                      seq_then (value_items s) (put_items beg)))
                    else
                      seq_then (value_items self) (\<lambda>xs s.
                      seq_then (put_items beg xs s) (\<lambda>_ s.
                      seq_then (move_items (beg + value_len) fin (len self - fin) s) (\<lambda>_ s.
                        mp_seq_clear new_len (len self) s))))
                   (\<lambda>_ s. (Inr (), s\<lparr>len := new_len\<rparr>)))"

datatype subscr_index = SliceIndex mp_obj_slice_t | ItemIndex int_arg
datatype subscr_value = DeleteItem | LoadItem | StoreItem list_arg mp_obj_t   \<comment> \<open>as an array and as an object\<close>
datatype subscr_result = NoneRes | ObjRes mp_obj_t | NewList mp_obj_list_t

definition list_subscr :: "list_env \<Rightarrow> subscr_index \<Rightarrow> subscr_value \<Rightarrow> mp_obj_list_t \<Rightarrow> subscr_result list_result option" where
  "list_subscr E index v self =
     (case index of
        SliceIndex sl \<Rightarrow>
          (case v of
             LoadItem \<Rightarrow> map_option (\<lambda>r. case r of Inl err \<Rightarrow> (Inl err, self) | Inr l \<Rightarrow> (Inr (NewList l), self)) (list_load_slice E sl self)
           | DeleteItem \<Rightarrow> Some (seq_then (list_store_slice E sl (ArgTuple []) self) (\<lambda>_ s. (Inr NoneRes, s)))
           | StoreItem a _ \<Rightarrow> Some (seq_then (list_store_slice E sl a self) (\<lambda>_ s. (Inr NoneRes, s))))
      | ItemIndex i \<Rightarrow>
          Some (case v of
             DeleteItem \<Rightarrow> seq_then (list_pop E (Some i) self) (\<lambda>_ s. (Inr NoneRes, s))
           | LoadItem \<Rightarrow>
               (case mp_get_index (len self) i False of
                  Inl err \<Rightarrow> (Inl err, self)
                | Inr k \<Rightarrow> seq_then (get_items k 1 self) (\<lambda>x s. (Inr (ObjRes (hd x)), s)))
           | StoreItem _ x \<Rightarrow> seq_then (mp_obj_list_store i x self) (\<lambda>_ s. (Inr NoneRes, s))))"

section \<open>Operators\<close>

datatype list_op_result = OpList mp_obj_list_t | OpSelf | OpBool bool | OpNotSupported

definition new_result :: "seq_exn + mp_obj_list_t \<Rightarrow> mp_obj_list_t \<Rightarrow> list_op_result list_result" where
  "new_result r self = (case r of Inl err \<Rightarrow> (Inl err, self) | Inr l \<Rightarrow> (Inr (OpList l), self))"

text \<open>The elements of an operand that is a list.\<close>

definition list_operand :: "list_arg \<Rightarrow> mp_obj_list_t \<Rightarrow> mp_obj_t list option" where
  "list_operand rhs self = (case rhs of ArgSelf \<Rightarrow> Some (elems self) | ArgList xs \<Rightarrow> Some xs | _ \<Rightarrow> None)"

definition int_operand :: "list_arg \<Rightarrow> int_arg" where
  "int_operand rhs = (case rhs of ArgOther n _ \<Rightarrow> n | _ \<Rightarrow> OtherArg None)"

datatype list_op = LIST_ADD | LIST_INPLACE_ADD | LIST_MULTIPLY | LIST_CMP int_op | LIST_OTHER

definition list_binary_op :: "list_env \<Rightarrow> list_op \<Rightarrow> list_arg \<Rightarrow> mp_obj_list_t \<Rightarrow> list_op_result list_result" where
  "list_binary_op E op rhs self =
     (case op of
        LIST_ADD \<Rightarrow>
          (case list_operand rhs self of
             None \<Rightarrow> (Inr OpNotSupported, self)
           | Some p \<Rightarrow> new_result (filled_list E (len self + length p) (\<lambda>s.
               seq_then (put_items 0 (elems self) s) (\<lambda>_. put_items (len self) p))) self)
      | LIST_INPLACE_ADD \<Rightarrow> seq_then (list_extend E rhs self) (\<lambda>_ s. (Inr OpSelf, s))
      | LIST_MULTIPLY \<Rightarrow>
          (case mp_obj_get_int_maybe (int_operand rhs) of
             Inl err \<Rightarrow> (Inl err, self)
           | Inr None \<Rightarrow> (Inr OpNotSupported, self)
           | Inr (Some n0) \<Rightarrow>
               let n = nat (if n0 < 0 then 0 else n0)
               in new_result (filled_list E (len self * n mod 2 ^ 32) (\<lambda>s.
                    case mp_seq_multiply (elems self) n (items s) 0 of
                      Inl err \<Rightarrow> (Inl err, s)
                    | Inr its \<Rightarrow> (Inr (), s\<lparr>items := its\<rparr>))) self)
      | LIST_CMP cmp \<Rightarrow>
          (case list_operand rhs self of
             None \<Rightarrow> (Inr (if cmp = OP_EQUAL then OpBool False else OpNotSupported), self)
           | Some p \<Rightarrow> (Inr (OpBool (mp_seq_cmp_objs (item_equal E) (item_rel E) cmp (elems self) p)), self))
      | LIST_OTHER \<Rightarrow> (Inr OpNotSupported, self))"

datatype list_uop = LIST_BOOL | LIST_LEN | LIST_OTHER_UNARY
datatype list_uop_result = TruthValue bool | LengthObj mp_obj_t | UnaryNotSupported

definition list_unary_op :: "list_uop \<Rightarrow> mp_obj_list_t \<Rightarrow> list_uop_result" where
  "list_unary_op op self =
     (case op of
        LIST_BOOL \<Rightarrow> TruthValue (len self \<noteq> 0)
      | LIST_LEN \<Rightarrow> LengthObj (MP_OBJ_NEW_SMALL_INT (of_nat (len self)))
      | LIST_OTHER_UNARY \<Rightarrow> UnaryNotSupported)"

section \<open>For callers in C\<close>

definition mp_obj_list_get :: "mp_obj_list_t \<Rightarrow> nat \<times> mp_obj_t list" where
  "mp_obj_list_get self = (len self, items self)"

text \<open>The caller is trusted; what is cut off stays in the array.\<close>

definition mp_obj_list_set_len :: "nat \<Rightarrow> mp_obj_list_t \<Rightarrow> mp_obj_list_t" where
  "mp_obj_list_set_len n self = self\<lparr>len := n\<rparr>"

section \<open>Iteration\<close>

definition list_it_iternext :: "mp_obj_list_t \<Rightarrow> nat \<Rightarrow> seq_exn + (mp_obj_t \<times> nat) option" where
  "list_it_iternext l cur =
     (if cur < len l
      then (case get_items cur 1 l of (Inl err, _) \<Rightarrow> Inl err | (Inr x, _) \<Rightarrow> Inr (Some (hd x, cur + 1)))
      else Inr None)"

end
