(* ===== verification/ListCorrect.thy ===== *)
theory ListCorrect
  imports ListObj
begin

text \<open>
  List objects as lists: \<open>list_ok\<close> is their invariant, with the words behind the last element cleared so
  that the collector finds no stale pointer there, and \<open>elems\<close> the list they stand for.  Every operation
  does what the operation of Python does on that list, or raises \<open>MemoryError\<close>.
\<close>

section \<open>The invariant\<close>

definition max_items :: nat where "max_items = 0x10000000"

text \<open>No block is larger than a quarter of the address space.\<close>

definition bounded :: "list_env \<Rightarrow> bool" where
  "bounded E \<longleftrightarrow> (\<forall>n. grants E n \<longrightarrow> n \<le> 4 * max_items)"

definition list_shape :: "mp_obj_list_t \<Rightarrow> bool" where
  "list_shape l \<longleftrightarrow> alloc l = length (items l) \<and> len l \<le> alloc l \<and> 2 \<le> alloc l \<and> alloc l \<le> max_items"

definition no_stale :: "mp_obj_list_t \<Rightarrow> bool" where
  "no_stale l \<longleftrightarrow> (\<forall>i. len l \<le> i \<longrightarrow> i < length (items l) \<longrightarrow> items l ! i = MP_OBJ_NULL)"

definition list_ok :: "mp_obj_list_t \<Rightarrow> bool" where
  "list_ok l \<longleftrightarrow> list_shape l \<and> no_stale l"

lemma list_okD: "list_ok l \<Longrightarrow> alloc l = length (items l)" "list_ok l \<Longrightarrow> len l \<le> alloc l" "list_ok l \<Longrightarrow> 2 \<le> alloc l"
  "list_ok l \<Longrightarrow> alloc l \<le> max_items" "list_ok l \<Longrightarrow> list_shape l" "list_ok l \<Longrightarrow> len l \<le> length (items l)"
  by (auto simp: list_ok_def list_shape_def)

lemma list_ok_layout: "list_ok l \<longleftrightarrow> alloc l = length (items l) \<and> 2 \<le> alloc l \<and> alloc l \<le> max_items \<and> len l \<le> alloc l \<and>
    items l = elems l @ replicate (alloc l - len l) MP_OBJ_NULL"
proof (cases "alloc l = length (items l) \<and> len l \<le> length (items l)")
  case True
  have d: "drop (len l) (items l) = replicate (alloc l - len l) MP_OBJ_NULL \<longleftrightarrow> no_stale l"
  proof
    assume e: "drop (len l) (items l) = replicate (alloc l - len l) MP_OBJ_NULL"
    show "no_stale l" unfolding no_stale_def
    proof (intro allI impI)
      fix i assume i: "len l \<le> i" "i < length (items l)"
      then have "items l ! i = drop (len l) (items l) ! (i - len l)" by simp
      also have "\<dots> = MP_OBJ_NULL" unfolding e using i True by simp
      finally show "items l ! i = MP_OBJ_NULL" .
    qed
  next
    assume "no_stale l"
    then show "drop (len l) (items l) = replicate (alloc l - len l) MP_OBJ_NULL"
      using True by (intro nth_equalityI) (simp_all add: no_stale_def)
  qed
  have "items l = elems l @ drop (len l) (items l)" by (simp add: elems_def)
  then have "items l = elems l @ replicate (alloc l - len l) MP_OBJ_NULL \<longleftrightarrow> no_stale l"
    unfolding d [symmetric] by (metis same_append_eq)
  then show ?thesis using True unfolding list_ok_def list_shape_def by metis
next
  case False
  then show ?thesis unfolding list_ok_def list_shape_def by metis
qed

text \<open>The list with the elements \<open>xs\<close> and room for \<open>a\<close>.\<close>

definition mk_list :: "nat \<Rightarrow> mp_obj_t list \<Rightarrow> mp_obj_list_t" where
  "mk_list a xs = \<lparr>alloc = a, len = length xs, items = xs @ replicate (a - length xs) MP_OBJ_NULL\<rparr>"

lemma mk_list_simps [simp]: "alloc (mk_list a xs) = a" "len (mk_list a xs) = length xs"
    "items (mk_list a xs) = xs @ replicate (a - length xs) MP_OBJ_NULL" "elems (mk_list a xs) = xs"
  by (simp_all add: mk_list_def elems_def)

lemma mk_list_ok: "list_ok (mk_list a xs) \<longleftrightarrow> 2 \<le> a \<and> a \<le> max_items \<and> length xs \<le> a"
  by (auto simp: list_ok_layout)

lemma list_ok_mk:
  assumes "list_ok l"
  shows "l = mk_list (alloc l) (elems l)" "length (elems l) \<le> alloc l"
proof -
  have n: "length (elems l) = len l" using list_okD(6) [OF assms] by (simp add: elems_def)
  have "items l = elems l @ replicate (alloc l - length (elems l)) MP_OBJ_NULL"
    using assms unfolding n list_ok_layout by blast
  then show "l = mk_list (alloc l) (elems l)"
    using n unfolding mk_list_def by (intro mp_obj_list_t.equality) simp_all
  show "length (elems l) \<le> alloc l" using n list_okD(2) [OF assms] by simp
qed

lemma list_okE:
  assumes "list_ok l"
  obtains a xs where "l = mk_list a xs" "2 \<le> a" "a \<le> max_items" "length xs \<le> a" "elems l = xs"
  using that [OF list_ok_mk(1) [OF assms] list_okD(3,4) [OF assms] list_ok_mk(2) [OF assms] refl] .

text \<open>What an operation gives: its value and the elements, unless memory runs out.\<close>

definition gives :: "'a list_result \<Rightarrow> 'a \<Rightarrow> mp_obj_t list \<Rightarrow> bool" where
  "gives r x ys \<longleftrightarrow>
     (\<exists>s. r = (Inr x, s) \<and> list_ok s \<and> elems s = ys) \<or> (\<exists>s. r = (Inl MemoryError, s) \<and> list_shape s)"

definition makes :: "seq_exn + mp_obj_list_t \<Rightarrow> mp_obj_t list \<Rightarrow> bool" where
  "makes r ys \<longleftrightarrow> (\<exists>s. r = Inr s \<and> list_ok s \<and> elems s = ys) \<or> r = Inl MemoryError"

lemma gives_mk: "2 \<le> a \<Longrightarrow> a \<le> max_items \<Longrightarrow> length ys \<le> a \<Longrightarrow> gives (Inr x, mk_list a ys) x ys"
  by (simp add: gives_def mk_list_ok)

lemma gives_no_memory: "list_ok s \<Longrightarrow> gives (Inl MemoryError, s) x ys"
  by (simp add: gives_def list_okD)

lemma gives_then:
  assumes "gives r x ys" "\<And>s. list_ok s \<Longrightarrow> elems s = ys \<Longrightarrow> gives (k x s) y zs"
  shows "gives (seq_then r k) y zs"
  using assms unfolding gives_def by force

section \<open>Memory\<close>

lemma buf_write_mid: "n = length xs \<Longrightarrow> length ys = length zs \<Longrightarrow> buf_write (xs @ ys @ ws) n zs = xs @ zs @ ws"
  by (simp add: buf_write_def)

lemma size_bytes_small: "n < 0x40000000 \<Longrightarrow> size_bytes n = 4 * n"
  by (simp add: size_bytes_def)

lemma renew_ok:
  assumes "bounded E" "0 < n" "n < 0x40000000"
  shows "m_renew E n s = (Inl MemoryError, s) \<or>
    n \<le> max_items \<and> m_renew E n s = (Inr (), s\<lparr>items := take n (items s) @ map (junk E) [length (items s)..<n]\<rparr>)"
proof -
  have "grants E (4 * n) \<Longrightarrow> n \<le> max_items" using assms(1) by (auto simp: bounded_def)
  then show ?thesis using assms(2,3) by (simp add: m_renew_def size_bytes_small)
qed

text \<open>Clearing what is behind the elements and the \<open>k\<close> that are to come.\<close>

lemma clear_items_ok:
  assumes "length its = n" "take (length xs) its = xs" "length xs + k \<le> n"
  shows "\<exists>fill. length fill = k \<and> mp_seq_clear (length xs + k) n \<lparr>alloc = n, len = length xs, items = its\<rparr> =
      (Inr (), \<lparr>alloc = n, len = length xs, items = xs @ fill @ replicate (n - length xs - k) MP_OBJ_NULL\<rparr>)"
proof -
  let ?fill = "take k (drop (length xs) its)" and ?rest = "drop k (drop (length xs) its)"
  have "its = xs @ ?fill @ ?rest" using assms(2) by (metis append_take_drop_id)
  moreover have "length ?fill = k" "length ?rest = n - length xs - k" using assms(1,3) by simp_all
  ultimately obtain fill rest where f: "its = xs @ fill @ rest" "length fill = k" "length rest = n - length xs - k" by metis
  have "buf_write its (length xs + k) (replicate (n - (length xs + k)) MP_OBJ_NULL) = xs @ fill @ replicate (n - length xs - k) MP_OBJ_NULL"
    unfolding f(1) using f(2,3) buf_write_mid [of "length xs + k" "xs @ fill" rest "replicate (n - (length xs + k)) MP_OBJ_NULL" "[]"]
    by simp
  then show ?thesis using f(2) assms(1,3) by (simp add: mp_seq_clear_def put_items_def)
qed

lemma put_new:
  assumes "length fill = length ys" "length xs + length ys \<le> n"
  shows "put_items (length xs) ys \<lparr>alloc = n, len = length xs, items = xs @ fill @ replicate (n - length xs - length ys) MP_OBJ_NULL\<rparr> =
     (Inr (), \<lparr>alloc = n, len = length xs, items = xs @ ys @ replicate (n - length (xs @ ys)) MP_OBJ_NULL\<rparr>)"
  using assms buf_write_mid [of "length xs" xs fill ys] by (simp add: put_items_def)

lemma put_spare:
  assumes "length xs + length ys \<le> n"
  shows "put_items (length xs) ys (mk_list n xs) =
     (Inr (), \<lparr>alloc = n, len = length xs, items = xs @ ys @ replicate (n - length (xs @ ys)) MP_OBJ_NULL\<rparr>)"
proof -
  have "replicate (n - length xs) MP_OBJ_NULL = replicate (length ys) MP_OBJ_NULL @ replicate (n - length xs - length ys) MP_OBJ_NULL"
    using assms by (simp flip: replicate_add)
  then show ?thesis using put_new [of "replicate (length ys) MP_OBJ_NULL" ys xs n] assms by (simp add: mk_list_def)
qed

text \<open>Making room for \<open>k\<close> more elements, which are then stored.\<close>

lemma room_ok:
  assumes "bounded E" "length xs \<le> a" "a \<le> n" "length xs + k \<le> n" "0 < n" "n < 0x40000000"
  shows "m_renew E n (mk_list a xs) = (Inl MemoryError, mk_list a xs) \<or>
    (\<exists>its fill. m_renew E n (mk_list a xs) = (Inr (), (mk_list a xs)\<lparr>items := its\<rparr>) \<and> n \<le> max_items \<and> length fill = k \<and>
      mp_seq_clear (length xs + k) n \<lparr>alloc = n, len = length xs, items = its\<rparr> =
        (Inr (), \<lparr>alloc = n, len = length xs, items = xs @ fill @ replicate (n - length xs - k) MP_OBJ_NULL\<rparr>))"
proof -
  let ?its = "take n (items (mk_list a xs)) @ map (junk E) [length (items (mk_list a xs))..<n]"
  have "length ?its = n" "take (length xs) ?its = xs" using assms(2,3) by simp_all
  from clear_items_ok [OF this assms(4)] renew_ok [OF assms(1,5,6), of "mk_list a xs"] show ?thesis by blast
qed

lemma append_ok:
  assumes "bounded E" "list_ok l"
  shows "mp_obj_list_append E x l = (Inl MemoryError, l) \<or>
    (\<exists>a. mp_obj_list_append E x l = (Inr (), mk_list a (elems l @ [x])) \<and> list_ok (mk_list a (elems l @ [x])))"
proof -
  obtain a xs where l: "l = mk_list a xs" "2 \<le> a" "a \<le> max_items" "length xs \<le> a" "elems l = xs"
    using assms(2) by (rule list_okE)
  show ?thesis
  proof (cases "length xs < a")
    case True
    then have "mp_obj_list_append E x l = (Inr (), mk_list a (xs @ [x]))"
      using put_spare [of xs "[x]" a] unfolding l(1) by (simp add: mp_obj_list_append_def mk_list_def)
    then show ?thesis using l True by (auto simp: mk_list_ok)
  next
    case False
    have n: "length xs + 1 \<le> a * 2" "0 < a * 2" "a * 2 < 0x40000000" using False l by (auto simp: max_items_def)
    have "a \<le> a * 2" by simp
    from room_ok [OF assms(1) l(4) this n] show ?thesis
    proof (elim disjE exE conjE)
      fix its fill assume R: "m_renew E (a * 2) (mk_list a xs) = (Inr (), (mk_list a xs)\<lparr>items := its\<rparr>)" "a * 2 \<le> max_items"
        "length fill = 1" "mp_seq_clear (length xs + 1) (a * 2) \<lparr>alloc = a * 2, len = length xs, items = its\<rparr> =
          (Inr (), \<lparr>alloc = a * 2, len = length xs, items = xs @ fill @ replicate (a * 2 - length xs - 1) MP_OBJ_NULL\<rparr>)"
      have "mp_obj_list_append E x l = (Inr (), mk_list (a * 2) (xs @ [x]))"
        using False R(1,4) put_new [of fill "[x]" xs "a * 2"] R(3) n(1) unfolding l(1)
        by (simp add: mp_obj_list_append_def mk_list_def)
      then show ?thesis using l R(2) n(1) by (auto simp: mk_list_ok)
    qed (use False l(1) in \<open>simp_all add: mp_obj_list_append_def\<close>)
  qed
qed

lemma append_gives: "bounded E \<Longrightarrow> list_ok l \<Longrightarrow> gives (mp_obj_list_append E x l) () (elems l @ [x])"
  using append_ok [of E l x] by (auto simp: gives_def list_okD)

section \<open>Adding elements\<close>

lemma extend_iter_gives:
  "bounded E \<Longrightarrow> list_ok l \<Longrightarrow> gives (list_extend_from_iter E xs l) () (elems l @ xs)"
proof (induction xs arbitrary: l)
  case Nil
  then show ?case by (simp add: gives_def)
next
  case (Cons x xs)
  have "gives (list_extend_from_iter E xs s) () (elems l @ x # xs)" if "list_ok s" "elems s = elems l @ [x]" for s
    using Cons.IH [OF Cons.prems(1) that(1)] that(2) by simp
  then have "gives (seq_then (mp_obj_list_append E x l) (\<lambda>_. list_extend_from_iter E xs)) () (elems l @ x # xs)"
    by (intro gives_then [OF append_gives [OF Cons.prems]]) simp_all
  then show ?case by simp
qed

lemma extend_by_gives:
  assumes "bounded E" "list_ok l" "length ys = k" "k \<le> max_items"
    and "\<And>s rest. items s = elems l @ rest \<Longrightarrow> len s = length (elems l) \<Longrightarrow> src s = (Inr ys, s)"
  shows "gives (extend_by E k src l) () (elems l @ ys)"
proof -
  obtain a xs where l: "l = mk_list a xs" "2 \<le> a" "a \<le> max_items" "length xs \<le> a" "elems l = xs"
    using assms(2) by (rule list_okE)
  have src: "src \<lparr>alloc = n, len = length xs, items = xs @ rest\<rparr> = (Inr ys, \<lparr>alloc = n, len = length xs, items = xs @ rest\<rparr>)" for n rest
    using assms(5) [of "\<lparr>alloc = n, len = length xs, items = xs @ rest\<rparr>" rest] l(5) by simp
  show ?thesis
  proof (cases "length xs + k \<le> a")
    case True
    have "extend_by E k src l = (Inr (), mk_list a (xs @ ys))"
      using True put_spare [of xs ys a] src [of a] assms(3) unfolding l(1) by (simp add: extend_by_def mk_list_def)
    then show ?thesis using l True assms(3) by (simp add: gives_mk)
  next
    case False
    let ?n = "length xs + k + 4"
    have n: "a \<le> ?n" "length xs + k \<le> ?n" "0 < ?n" "?n < 0x40000000" using False l(3,4) assms(4) by (auto simp: max_items_def)
    from room_ok [OF assms(1) l(4) n] show ?thesis
    proof (elim disjE exE conjE)
      fix its fill assume R: "m_renew E ?n (mk_list a xs) = (Inr (), (mk_list a xs)\<lparr>items := its\<rparr>)" "?n \<le> max_items"
        "length fill = k" "mp_seq_clear (length xs + k) ?n \<lparr>alloc = ?n, len = length xs, items = its\<rparr> =
          (Inr (), \<lparr>alloc = ?n, len = length xs, items = xs @ fill @ replicate (?n - length xs - k) MP_OBJ_NULL\<rparr>)"
      have "extend_by E k src l = (Inr (), mk_list ?n (xs @ ys))"
        using False R(1,4) put_new [of fill ys xs ?n] R(3) src [of ?n] assms(3) unfolding l(1)
        by (simp add: extend_by_def mk_list_def)
      then show ?thesis using l R(2) assms(3) by (simp add: gives_mk)
    qed (use False assms(2) l(1) in \<open>simp_all add: extend_by_def gives_no_memory\<close>)
  qed
qed

text \<open>The elements an argument stands for, when it can be iterated.\<close>

definition arg_elems :: "list_arg \<Rightarrow> mp_obj_t list \<Rightarrow> mp_obj_t list option" where
  "arg_elems arg xs = (case arg of ArgSelf \<Rightarrow> Some xs | ArgList ys \<Rightarrow> Some ys | ArgTuple ys \<Rightarrow> Some ys | ArgOther _ ys \<Rightarrow> ys)"

definition arg_fits :: "list_arg \<Rightarrow> bool" where
  "arg_fits arg \<longleftrightarrow> (case arg of ArgList ys \<Rightarrow> length ys \<le> max_items | ArgTuple ys \<Rightarrow> length ys \<le> max_items | _ \<Rightarrow> True)"

lemma list_extend_gives:
  assumes "bounded E" "list_ok l" "arg_elems arg (elems l) = Some ys" "arg_fits arg"
  shows "gives (list_extend E arg l) () (elems l @ ys)"
proof (cases arg)
  case ArgSelf
  have n: "length (elems l) = len l" "len l \<le> max_items" using list_okD [OF assms(2)] by (simp_all add: elems_def)
  have "get_items 0 (len s) s = (Inr (elems l), s)" if "items s = elems l @ rest" "len s = length (elems l)" for s rest
    using that by (simp add: get_items_def buf_read_def)
  then show ?thesis using extend_by_gives [OF assms(1,2) n] assms(3) ArgSelf by (simp add: list_extend_def arg_elems_def)
next
  case (ArgList xs)
  then show ?thesis using extend_by_gives [OF assms(1,2), of xs "length xs" "\<lambda>s. (Inr xs, s)"] assms(3,4)
    by (simp add: list_extend_def arg_elems_def arg_fits_def)
qed (use assms extend_iter_gives [OF assms(1,2)] in \<open>simp_all add: list_extend_def iterate_def arg_elems_def\<close>)

lemma list_extend_type: "arg_elems arg xs = None \<Longrightarrow> list_extend E arg l = (Inl TypeError, l)"
  by (cases arg) (simp_all add: arg_elems_def list_extend_def iterate_def)

section \<open>Moving elements\<close>

lemma get_one: "k < length (items s) \<Longrightarrow> get_items k 1 s = (Inr [items s ! k], s)"
  by (simp add: get_items_def buf_read_def take_Suc_conv_app_nth hd_drop_conv_nth take_Suc)

lemma put_one: "k < length (items s) \<Longrightarrow> put_items k [x] s = (Inr (), s\<lparr>items := (items s)[k := x]\<rparr>)"
  by (simp add: put_items_def buf_write_def upd_conv_take_nth_drop)

lemma shift_up_ok:
  assumes "index + n < length (items s)"
  shows "shift_up index n s =
    (Inr (), s\<lparr>items := take (index + 1) (items s) @ take n (drop index (items s)) @ drop (index + n + 1) (items s)\<rparr>)"
  using assms
proof (induction n arbitrary: s)
  case 0
  then show ?case by simp
next
  case (Suc n)
  let ?xs = "items s" and ?k = "index + n"
  let ?s = "s\<lparr>items := ?xs[?k + 1 := ?xs ! ?k]\<rparr>"
  have k: "?k < length ?xs" "?k + 1 < length ?xs" using Suc.prems by simp_all
  have "shift_up index (Suc n) s = shift_up index n ?s"
    using get_one [OF k(1)] put_one [OF k(2)] by simp
  also have "\<dots> = (Inr (), ?s\<lparr>items := take (index + 1) (items ?s) @ take n (drop index (items ?s)) @ drop (index + n + 1) (items ?s)\<rparr>)"
    by (rule Suc.IH) (use k in simp)
  also have "take (index + 1) (items ?s) @ take n (drop index (items ?s)) @ drop (index + n + 1) (items ?s) =
      take (index + 1) ?xs @ take (Suc n) (drop index ?xs) @ drop (index + Suc n + 1) ?xs"
  proof -
    have "drop (?k + 1) (?xs[?k + 1 := ?xs ! ?k]) = ?xs ! ?k # drop (?k + 2) ?xs"
      using k(2) by (simp add: drop_update_swap Cons_nth_drop_Suc [symmetric])
    moreover have "take (Suc n) (drop index ?xs) = take n (drop index ?xs) @ [?xs ! ?k]"
      using k(1) by (simp add: take_Suc_conv_app_nth)
    ultimately show ?thesis by (simp add: drop_update_swap)
  qed
  finally show ?case by simp
qed

definition clamp :: "int \<Rightarrow> nat \<Rightarrow> nat" where
  "clamp i n = nat (min (int n) (max 0 (if i < 0 then i + int n else i)))"

lemma list_insert_gives:
  fixes idx :: u32
  assumes "bounded E" "list_ok l"
  defines "k \<equiv> clamp (sint (MP_OBJ_SMALL_INT_VALUE idx)) (length (elems l))"
  shows "gives (list_insert E idx x none l) () (take k (elems l) @ x # drop k (elems l))"
proof -
  obtain a xs where l: "l = mk_list a xs" "2 \<le> a" "a \<le> max_items" "length xs \<le> a" "elems l = xs"
    using assms(2) by (rule list_okE)
  let ?v = "sint (MP_OBJ_SMALL_INT_VALUE idx)"
  let ?tail = "\<lambda>s. seq_then (shift_up k (len s - 1 - k) s) (\<lambda>_. put_items k [x])"
  have k: "k \<le> length xs" unfolding k_def clamp_def l(5) by simp
  have "nat (if (if (if ?v < 0 then ?v + int (len l) else ?v) < 0 then 0 else (if ?v < 0 then ?v + int (len l) else ?v)) > int (len l)
      then int (len l) else (if (if ?v < 0 then ?v + int (len l) else ?v) < 0 then 0 else (if ?v < 0 then ?v + int (len l) else ?v))) = k"
    unfolding k_def clamp_def l(1) by (auto simp: min_def max_def)
  then have run: "list_insert E idx x none l = seq_then (mp_obj_list_append E none l) (\<lambda>_. ?tail)"
    unfolding list_insert_def Let_def by simp
  have "?tail (mk_list n (xs @ [none])) = (Inr (), mk_list n (take k xs @ x # drop k xs))" if "length xs + 1 \<le> n" for n
  proof -
    let ?its = "xs @ none # replicate (n - length xs - 1) MP_OBJ_NULL"
    have i: "items (mk_list n (xs @ [none])) = ?its" by simp
    have "shift_up k (length xs - k) (mk_list n (xs @ [none])) =
        (Inr (), (mk_list n (xs @ [none]))\<lparr>items := take (k + 1) ?its @ take (length xs - k) (drop k ?its) @ drop (length xs + 1) ?its\<rparr>)"
      using shift_up_ok [of k "length xs - k" "mk_list n (xs @ [none])"] k that unfolding i by simp
    moreover have "(take (k + 1) ?its @ take (length xs - k) (drop k ?its) @ drop (length xs + 1) ?its)[k := x] =
        take k xs @ x # drop k xs @ replicate (n - length xs - 1) MP_OBJ_NULL"
    proof -
      have "take k ?its = take k xs" "k < length ?its" using k by simp_all
      then have "take (k + 1) ?its = take k xs @ [?its ! k]"
        using take_Suc_conv_app_nth [of k ?its] by (simp only: Suc_eq_plus1)
      moreover have "take (length xs - k) (drop k ?its) = drop k xs" "drop (length xs + 1) ?its = replicate (n - length xs - 1) MP_OBJ_NULL"
        using k by simp_all
      moreover have "length (take k xs) = k" using k by simp
      ultimately show ?thesis
        using list_update_length [of "take k xs" "?its ! k" "drop k xs @ replicate (n - length xs - 1) MP_OBJ_NULL" x]
        by (simp only: append_assoc append_Cons append_Nil)
    qed
    ultimately show ?thesis using k that by (simp add: put_one mk_list_def)
  qed
  moreover have "mp_obj_list_append E none l = (Inl MemoryError, l) \<or>
      (\<exists>n. mp_obj_list_append E none l = (Inr (), mk_list n (xs @ [none])) \<and> list_ok (mk_list n (xs @ [none])))"
    using append_ok [OF assms(1,2)] unfolding l(5) .
  ultimately show ?thesis using k assms(2) unfolding run l(5) by (auto simp: gives_no_memory mk_list_ok gives_mk)
qed

section \<open>Indices\<close>

text \<open>An argument as an integer, if it is one that fits a machine word.\<close>

definition arg_int :: "int_arg \<Rightarrow> seq_exn + int option" where
  "arg_int arg =
     (let fit = (\<lambda>x. if \<bar>int_val x\<bar> < 2 ^ 31 then Inr (Some (int_val x)) else Inl OverflowError)
      in case arg of
           BoolArg b \<Rightarrow> Inr (Some (if b then 1 else 0))
         | IntArg x \<Rightarrow> fit x
         | OtherArg (Some x) \<Rightarrow> fit x
         | _ \<Rightarrow> Inr None)"

lemma get_int_maybe_ok: "mp_obj_get_int_maybe arg = arg_int arg"
proof -
  have "get_checked x = (if \<bar>int_val x\<bar> < 2 ^ 31 then Inr (Some (int_val x)) else Inl OverflowError)" for x
  proof (cases "\<bar>int_val x\<bar> < 2147483648")
    case True
    then have "sint (word_of_int (int_val x) :: u32) = int_val x"
      by (subst sint_sbintrunc') (simp add: signed_take_bit_int_eq_self)
    then show ?thesis using True by (simp add: get_checked_def get_checked_ok)
  qed (simp add: get_checked_def get_checked_ok)
  then show ?thesis by (simp add: mp_obj_get_int_maybe_def arg_int_def Let_def split: int_arg.splits option.splits)
qed

lemma arg_int_bounds: "arg_int arg = Inr (Some i) \<Longrightarrow> \<bar>i\<bar> < 0x80000000"
  by (auto simp: arg_int_def Let_def split: int_arg.splits option.splits if_splits)

definition py_index :: "nat \<Rightarrow> int_arg \<Rightarrow> seq_exn + nat" where
  "py_index n arg =
     (case arg_int arg of
        Inl err \<Rightarrow> Inl err
      | Inr None \<Rightarrow> Inl TypeError
      | Inr (Some i) \<Rightarrow> if - int n \<le> i \<and> i < int n then Inr (nat (i mod int n)) else Inl IndexError)"

lemma get_index_ok: "mp_get_index n arg False = py_index n arg"
proof (cases "arg_int arg")
  case (Inr v)
  show ?thesis
  proof (cases v)
    case (Some i)
    have "i < 0 \<Longrightarrow> - int n \<le> i \<Longrightarrow> i mod int n = i + int n"
      using mod_pos_pos_trivial [of "i + int n" "int n"] by simp
    then show ?thesis using Inr Some
      by (auto simp: mp_get_index_def py_index_def get_int_maybe_ok Let_def mod_pos_pos_trivial)
  qed (simp add: Inr mp_get_index_def py_index_def get_int_maybe_ok)
qed (simp add: mp_get_index_def py_index_def get_int_maybe_ok)

lemma py_index_bound: "py_index n arg = Inr k \<Longrightarrow> k < n"
  by (auto simp: py_index_def nat_less_iff split: sum.splits option.splits if_splits)

lemma py_index_last: "0 < n \<Longrightarrow> py_index n (IntArg (new_small (- 1))) = Inr (n - 1)"
  using mod_pos_pos_trivial [of "int n - 1" "int n"] minus_mod_self2 [of "- 1" "int n"]
  by (simp add: py_index_def arg_int_def Let_def new_small_ok zmod_minus1 nat_diff_distrib)

section \<open>Removing elements\<close>

definition py_pop :: "int_arg option \<Rightarrow> mp_obj_t list \<Rightarrow> seq_exn + mp_obj_t \<times> mp_obj_t list" where
  "py_pop arg xs =
     (if xs = [] then Inl IndexError
      else case (case arg of None \<Rightarrow> Inr (length xs - 1) | Some a \<Rightarrow> py_index (length xs) a) of
        Inl err \<Rightarrow> Inl err
      | Inr k \<Rightarrow> Inr (xs ! k, take k xs @ drop (k + 1) xs))"

lemma buf_write_twice:
  "n + length xs + length ys \<le> length b \<Longrightarrow>
   buf_write (buf_write b (n + length xs) ys) n xs = take n b @ xs @ ys @ drop (n + length xs + length ys) b"
  by (simp add: buf_write_def min_def)

lemma take_pad: "length ys \<le> m \<Longrightarrow> m \<le> n \<Longrightarrow> take m (ys @ replicate (n - length ys) z) = ys @ replicate (m - length ys) z"
  by (simp add: min_def)

lemma list_pop_gives:
  assumes "bounded E" "list_ok l"
  shows "case py_pop arg (elems l) of
      Inl err \<Rightarrow> list_pop E arg l = (Inl err, l)
    | Inr (x, ys) \<Rightarrow> gives (list_pop E arg l) x ys"
proof -
  obtain a xs where l: "l = mk_list a xs" "2 \<le> a" "a \<le> max_items" "length xs \<le> a" "elems l = xs"
    using assms(2) by (rule list_okE)
  define idx where "idx = (case arg of None \<Rightarrow> Inr (length xs - 1) | Some b \<Rightarrow> py_index (length xs) b)"
  show ?thesis
  proof (cases "xs = []")
    case True
    then show ?thesis using l by (simp add: py_pop_def list_pop_def)
  next
    case False
    then have i: "(case arg of None \<Rightarrow> mp_get_index (len l) (IntArg (new_small (- 1))) False
        | Some b \<Rightarrow> mp_get_index (len l) b False) = idx"
      using l py_index_last [of "length xs"] by (simp add: idx_def get_index_ok split: option.split)
    show ?thesis
    proof (cases idx)
      case (Inl err)
      then show ?thesis using False l(1) unfolding py_pop_def list_pop_def i l(5) idx_def [symmetric] by simp
    next
      case (Inr k)
      have k: "k < length xs" using Inr False py_index_bound by (auto simp: idx_def split: option.splits)
      let ?its = "xs @ replicate (a - length xs) MP_OBJ_NULL" and ?n = "length xs - 1"
      let ?ys = "take k xs @ drop (k + 1) xs"
      let ?s0 = "\<lparr>alloc = a, len = ?n, items = ?its\<rparr>"
      have ys: "length ?ys = ?n" using k by simp
      have ok: "list_ok (mk_list a ?ys)" unfolding mk_list_ok ys using l(2-4) by linarith
      have get: "get_items k 1 l = (Inr [xs ! k], l)" using get_one [of k l] k l(1,4) by (simp add: nth_append)
      have mv: "move_items k (k + 1) (?n - k) ?s0 = (Inr (), ?s0\<lparr>items := ?ys @ drop ?n ?its\<rparr>)"
      proof -
        have "get_items (k + 1) (?n - k) ?s0 = (Inr (drop (k + 1) xs), ?s0)"
          using k l(4) by (simp add: get_items_def buf_read_def)
        moreover have "buf_write ?its k (drop (k + 1) xs) = ?ys @ drop ?n ?its"
          using k by (simp add: buf_write_def)
        ultimately show ?thesis using k l(4) by (simp add: move_items_def put_items_def)
      qed
      have "drop ?n ?its = last xs # replicate (a - length xs) MP_OBJ_NULL"
        using False k by (simp add: append_butlast_last_id [symmetric] drop_Suc last_drop
            Cons_nth_drop_Suc [symmetric] last_conv_nth)
      then have put: "put_items ?n [MP_OBJ_NULL] (?s0\<lparr>items := ?ys @ drop ?n ?its\<rparr>) = (Inr (), mk_list a ?ys)"
        using ys k l(4) buf_write_mid [of ?n ?ys "[last xs]" "[MP_OBJ_NULL]" "replicate (a - length xs) MP_OBJ_NULL"]
        by (simp add: put_items_def mk_list_def Suc_diff_le [symmetric] flip: replicate_Suc)
      have shr: "take (a div 2) (?ys @ replicate (a - ?n) MP_OBJ_NULL) = ?ys @ replicate (a div 2 - ?n) MP_OBJ_NULL" if "a > 2 * ?n"
        using take_pad [of ?ys "a div 2" a] that unfolding ys by simp
      let ?tail = "seq_then (if alloc (mk_list a ?ys) > LIST_MIN_ALLOC \<and> alloc (mk_list a ?ys) > 2 * len (mk_list a ?ys)
          then seq_then (m_renew E (alloc (mk_list a ?ys) div 2) (mk_list a ?ys)) (\<lambda>_ s. (Inr (), s\<lparr>alloc := alloc s div 2\<rparr>))
          else (Inr (), mk_list a ?ys)) (\<lambda>_ s. (Inr (xs ! k), s))"
      have run: "list_pop E arg l = ?tail"
        using False l(1) get mv put unfolding list_pop_def i Inr by (simp add: mk_list_def Let_def)
      have "gives ?tail (xs ! k) ?ys"
      proof (cases "a > 4 \<and> a > 2 * ?n")
        case True
        have "0 < a div 2" "a div 2 < 0x40000000" using True l(3) by (auto simp: max_items_def)
        from renew_ok [OF assms(1) this, of "mk_list a ?ys"] show ?thesis
        proof
          assume r: "a div 2 \<le> max_items \<and> m_renew E (a div 2) (mk_list a ?ys) = (Inr (), (mk_list a ?ys)\<lparr>items :=
            take (a div 2) (items (mk_list a ?ys)) @ map (junk E) [length (items (mk_list a ?ys))..<a div 2]\<rparr>)"
          have "?tail = (Inr (xs ! k), mk_list (a div 2) ?ys)"
            using r True ys shr by (simp add: mk_list_def del: take_append)
          moreover have "length ?ys \<le> a div 2" "2 \<le> a div 2" using True unfolding ys by linarith+
          ultimately show ?thesis using r by (simp only: gives_mk)
        next
          assume "m_renew E (a div 2) (mk_list a ?ys) = (Inl MemoryError, mk_list a ?ys)"
          then have e: "?tail = (Inl MemoryError, mk_list a ?ys)" using True ys by simp
          show ?thesis unfolding e by (rule gives_no_memory [OF ok])
        qed
      next
        case False
        then have e: "?tail = (Inr (xs ! k), mk_list a ?ys)" using ys by (cases "4 < a") simp_all
        show ?thesis unfolding e gives_def using ok by simp
      qed
      then show ?thesis using False Inr unfolding run l(5) py_pop_def idx_def [symmetric] by simp
    qed
  qed
qed

lemma list_clear_gives:
  assumes "bounded E" "list_ok l"
  shows "gives (list_clear E l) () []"
proof -
  obtain a xs where l: "l = mk_list a xs" "2 \<le> a" "a \<le> max_items" "length xs \<le> a"
    using assms(2) by (rule list_okE)
  let ?l = "l\<lparr>len := 0\<rparr>"
  have four: "0 < (4 :: nat)" "(4 :: nat) < 0x40000000" by simp_all
  from renew_ok [OF assms(1) four, of ?l] show ?thesis
  proof
    assume "m_renew E 4 ?l = (Inl MemoryError, ?l)"
    then have "list_clear E l = (Inl MemoryError, ?l)" by (simp add: list_clear_def)
    then show ?thesis using l by (simp add: gives_def list_shape_def)
  next
    assume r: "4 \<le> max_items \<and> m_renew E 4 ?l = (Inr (), ?l\<lparr>items := take 4 (items ?l) @ map (junk E) [length (items ?l)..<4]\<rparr>)"
    have "length (take 4 (items ?l) @ map (junk E) [length (items ?l)..<4]) = 4" by simp
    from clear_items_ok [OF this, of "[]" 0] r l have "list_clear E l = (Inr (), mk_list 4 [])"
      by (simp add: list_clear_def mk_list_def)
    then show ?thesis using r by (simp add: gives_mk)
  qed
qed

section \<open>Reversing and storing\<close>

lemma mirror_index:
  fixes i n j L :: nat
  assumes "2 * (i + n + 1) \<le> L"
  defines "inner \<equiv> i + 1 \<le> j \<and> j < i + 1 + n \<or> L - (i + 1) - n \<le> j \<and> j < L - (i + 1)"
    and "outer \<equiv> i \<le> j \<and> j < i + Suc n \<or> L - i - Suc n \<le> j \<and> j < L - i"
  shows "j = i \<Longrightarrow> \<not> inner \<and> outer \<and> L - 1 - j = L - i - 1"
    and "j = L - i - 1 \<Longrightarrow> \<not> inner \<and> outer \<and> L - 1 - j = i"
    and "j \<noteq> i \<Longrightarrow> j \<noteq> L - i - 1 \<Longrightarrow> inner = outer \<and> (inner \<longrightarrow> L - 1 - j \<noteq> i \<and> L - 1 - j \<noteq> L - i - 1)"
  using assms(1) unfolding inner_def outer_def by auto

lemma reverse_loop_ok:
  assumes "len s \<le> length (items s)" "i + n \<le> len s div 2"
  shows "\<exists>ys. reverse_loop i n s = (Inr (), s\<lparr>items := ys\<rparr>) \<and> length ys = length (items s) \<and>
    (\<forall>j < length ys. ys ! j = (if i \<le> j \<and> j < i + n \<or> len s - i - n \<le> j \<and> j < len s - i then items s ! (len s - 1 - j) else items s ! j))"
  using assms
proof (induction n arbitrary: i s)
  case 0
  then show ?case by (auto intro!: exI [of _ "items s"])
next
  case (Suc n)
  let ?m = "len s - i - 1" and ?xs = "items s"
  let ?s = "s\<lparr>items := ?xs[i := ?xs ! ?m, ?m := ?xs ! i]\<rparr>"
  have b: "i < length ?xs" "?m < length ?xs" "i < ?m" using Suc.prems by auto
  have step: "reverse_loop i (Suc n) s = reverse_loop (i + 1) n ?s"
    using get_one [of i s] get_one [of ?m s] put_one [of i s "?xs ! ?m"] put_one [of ?m "s\<lparr>items := ?xs[i := ?xs ! ?m]\<rparr>" "?xs ! i"] b
    by simp
  have "len ?s \<le> length (items ?s)" "i + 1 + n \<le> len ?s div 2" using Suc.prems by simp_all
  from Suc.IH [OF this] obtain ys where Y: "reverse_loop (i + 1) n ?s = (Inr (), ?s\<lparr>items := ys\<rparr>)" "length ys = length (items ?s)"
    "\<And>j. j < length ys \<Longrightarrow> ys ! j = (if i + 1 \<le> j \<and> j < i + 1 + n \<or> len ?s - (i + 1) - n \<le> j \<and> j < len ?s - (i + 1)
      then items ?s ! (len ?s - 1 - j) else items ?s ! j)" by blast
  have "ys ! j = (if i \<le> j \<and> j < i + Suc n \<or> len s - i - Suc n \<le> j \<and> j < len s - i then ?xs ! (len s - 1 - j) else ?xs ! j)"
    if "j < length ys" for j
  proof -
    let ?p = "len s - 1 - j" and ?in = "i + 1 \<le> j \<and> j < i + 1 + n \<or> len s - (i + 1) - n \<le> j \<and> j < len s - (i + 1)"
    have y: "ys ! j = (if ?in then items ?s ! ?p else items ?s ! j)" using Y(3) [OF that] by simp
    have at: "items ?s ! q = (if q = ?m then ?xs ! i else if q = i then ?xs ! ?m else ?xs ! q)" for q
      using b by (simp add: nth_list_update)
    have m: "2 * (i + n + 1) \<le> len s" using Suc.prems(2) by simp
    consider "j = i" | "j = ?m" | "j \<noteq> i" "j \<noteq> ?m" by blast
    then show ?thesis
    proof cases
      case 1
      from mirror_index(1) [OF m 1] show ?thesis using y at [of j] 1 b(3) by simp
    next
      case 2
      from mirror_index(2) [OF m 2] have c: "\<not> ?in" "i \<le> j \<and> j < i + Suc n \<or> len s - i - Suc n \<le> j \<and> j < len s - i" "?p = i" by blast+
      show ?thesis unfolding y if_not_P [OF c(1)] if_P [OF c(2)] c(3) using at [of j] 2 by simp
    next
      case 3
      from mirror_index(3) [OF m 3] show ?thesis using y at [of j] at [of ?p] 3 by (cases ?in) (simp_all only: if_True if_False simp_thms)
    qed
  qed
  then show ?case using step Y(1,2) by (intro exI [of _ ys]) simp
qed

lemma list_reverse_ok:
  assumes "list_ok l"
  shows "list_reverse l = (Inr (), mk_list (alloc l) (rev (elems l)))"
proof -
  obtain a xs where l: "l = mk_list a xs" "length xs \<le> a" using assms by (rule list_okE)
  let ?z = "replicate (a - length xs) MP_OBJ_NULL"
  have b: "len l \<le> length (items l)" "0 + len l div 2 \<le> len l div 2" using l by simp_all
  from reverse_loop_ok [OF this] l obtain ys where Y: "reverse_loop 0 (length xs div 2) l = (Inr (), l\<lparr>items := ys\<rparr>)" "length ys = a"
    "\<And>j. j < a \<Longrightarrow> ys ! j = (if j < length xs div 2 \<or> length xs - length xs div 2 \<le> j \<and> j < length xs
      then (xs @ ?z) ! (length xs - 1 - j) else (xs @ ?z) ! j)" by auto
  have "ys = rev xs @ ?z"
  proof (rule nth_equalityI)
    fix j assume "j < length ys"
    then have j: "j < a" using Y(2) by simp
    have "j = length xs - 1 - j" if "\<not> j < length xs div 2" "j < length xs - length xs div 2" using that by presburger
    then show "ys ! j = (rev xs @ ?z) ! j"
      using Y(3) [OF j] by (cases "j < length xs") (auto simp: nth_append rev_nth not_le not_less)
  qed (use Y(2) l(2) in simp)
  then show ?thesis using Y(1) l by (simp add: list_reverse_def mk_list_def elems_def)
qed

lemma list_store_ok:
  assumes "list_ok l"
  shows "mp_obj_list_store i x l =
    (case py_index (length (elems l)) i of Inl err \<Rightarrow> (Inl err, l) | Inr k \<Rightarrow> (Inr (), mk_list (alloc l) ((elems l)[k := x])))"
proof -
  obtain a xs where l: "l = mk_list a xs" "length xs \<le> a" using assms by (rule list_okE)
  show ?thesis
  proof (cases "py_index (length xs) i")
    case (Inr k)
    then show ?thesis using py_index_bound [OF Inr] l put_one [of k l x]
      by (simp add: mp_obj_list_store_def get_index_ok list_update_append mk_list_def elems_def)
  qed (simp add: l mp_obj_list_store_def get_index_ok)
qed

end
