(* ===== verification/ListSlice.thy ===== *)
theory ListSlice
  imports ListCorrect
begin

text \<open>
  Slices: which indices a slice selects is said once for all steps, by the arithmetic progression inside
  the sequence, and the code agrees as long as its index does not overflow.
\<close>

section \<open>The reference\<close>

definition slice_val :: "int_arg \<Rightarrow> seq_exn + int option" where
  "slice_val arg =
     (if arg = NoneArg then Inr None
      else case arg_int arg of
        Inl err \<Rightarrow> Inl err
      | Inr None \<Rightarrow> Inl TypeError
      | Inr (Some v) \<Rightarrow> Inr (Some v))"

definition slice_args :: "mp_obj_slice_t \<Rightarrow> seq_exn + int option \<times> int option \<times> int" where
  "slice_args sl =
     (case slice_val (slice_step sl) of
        Inl err \<Rightarrow> Inl err
      | Inr s \<Rightarrow>
          let k = (case s of None \<Rightarrow> 1 | Some k \<Rightarrow> k)
          in if k = 0 then Inl ValueError
             else case slice_val (slice_start sl) of
               Inl err \<Rightarrow> Inl err
             | Inr a \<Rightarrow> (case slice_val (slice_stop sl) of Inl err \<Rightarrow> Inl err | Inr b \<Rightarrow> Inr (a, b, k)))"

text \<open>A bound counted from the front.\<close>

definition from_front :: "nat \<Rightarrow> int \<Rightarrow> int option \<Rightarrow> int" where
  "from_front n dflt v = (case v of None \<Rightarrow> dflt | Some i \<Rightarrow> if i < 0 then i + int n else i)"

definition up_from :: "int \<Rightarrow> int \<Rightarrow> int \<Rightarrow> nat \<Rightarrow> nat list" where
  "up_from lo hi k n = filter (\<lambda>j. lo \<le> int j \<and> int j < hi \<and> (int j - lo) mod k = 0) [0..<n]"

definition down_from :: "int \<Rightarrow> int \<Rightarrow> int \<Rightarrow> nat \<Rightarrow> nat list" where
  "down_from hi lo k n = rev (filter (\<lambda>j. lo < int j \<and> int j \<le> hi \<and> (hi - int j) mod k = 0) [0..<n])"

definition py_slice :: "int option \<Rightarrow> int option \<Rightarrow> int \<Rightarrow> 'a list \<Rightarrow> 'a list" where
  "py_slice a b k xs =
     (let n = length xs
      in map (nth xs)
        (if k > 0 then up_from (max 0 (from_front n 0 a)) (from_front n (int n) b) k n
         else down_from (min (int n - 1) (from_front n (int n - 1) a)) (from_front n (- 1) b) (- k) n))"

text \<open>The part of the list that a slice with step 1 stands for.\<close>

definition py_part :: "int option \<Rightarrow> int option \<Rightarrow> nat \<Rightarrow> nat \<times> nat" where
  "py_part a b n =
     (let i = nat (min (int n) (max 0 (from_front n 0 a)))
      in (i, max i (nat (min (int n) (max 0 (from_front n (int n) b))))))"

section \<open>Bounds\<close>

lemma slice_bound_ok:
  "slice_bound arg dflt (int n) lo hi =
     (case slice_val arg of Inl err \<Rightarrow> Inl err | Inr v \<Rightarrow> Inr (case v of None \<Rightarrow> dflt | Some _ \<Rightarrow> min hi (max (from_front n dflt v) lo)))"
  by (auto simp: slice_bound_def slice_val_def mp_obj_get_int_def get_int_maybe_ok from_front_def split: sum.splits option.splits)

definition bound_slice :: "nat \<Rightarrow> int option \<Rightarrow> int option \<Rightarrow> int \<Rightarrow> mp_bound_slice_t" where
  "bound_slice n a b k =
     (if k > 0 then \<lparr>start = min (int n) (max (from_front n 0 a) 0), stop = min (int n) (max (from_front n (int n) b) 0), step = k\<rparr>
      else \<lparr>start = min (int n - 1) (max (from_front n (int n - 1) a) (- 1)),
            stop = min (int n - 1) (max (from_front n (- 1) b) (- 1)), step = k\<rparr>)"

lemma slice_indices_ok:
  "mp_obj_slice_indices sl (int n) =
     (case slice_args sl of Inl err \<Rightarrow> Inl err | Inr (a, b, k) \<Rightarrow> Inr (bound_slice n a b k))"
proof -
  define st where "st = (if slice_step sl = NoneArg then Inr 1 else mp_obj_get_int (slice_step sl))"
  have s: "st = (case slice_val (slice_step sl) of Inl err \<Rightarrow> Inl err | Inr s \<Rightarrow> Inr (case s of None \<Rightarrow> 1 | Some k \<Rightarrow> k))"
    by (auto simp: st_def slice_val_def mp_obj_get_int_def get_int_maybe_ok split: sum.splits option.splits)
  show ?thesis
  proof (cases "slice_val (slice_step sl)")
    case (Inl err)
    then show ?thesis using s unfolding mp_obj_slice_indices_def st_def [symmetric] by (simp add: slice_args_def)
  next
    case (Inr v)
    define k where "k = (case v of None \<Rightarrow> 1 | Some k \<Rightarrow> k)"
    have k: "st = Inr k" using s Inr by (simp add: k_def)
    show ?thesis
    proof (cases "k = 0")
      case True
      then show ?thesis using k Inr unfolding mp_obj_slice_indices_def st_def [symmetric] by (simp add: slice_args_def k_def [symmetric])
    next
      case False
      have args: "slice_args sl = (case slice_val (slice_start sl) of
               Inl err \<Rightarrow> Inl err
             | Inr a \<Rightarrow> (case slice_val (slice_stop sl) of Inl err \<Rightarrow> Inl err | Inr b \<Rightarrow> Inr (a, b, k)))"
        using Inr False by (simp add: slice_args_def k_def [symmetric])
      show ?thesis using False k unfolding mp_obj_slice_indices_def st_def [symmetric] args slice_bound_ok
        by (cases "slice_val (slice_start sl)"; cases "slice_val (slice_stop sl)")
          (auto simp: bound_slice_def from_front_def split: option.splits)
    qed
  qed
qed

definition fast_slice :: "nat \<Rightarrow> int option \<Rightarrow> int option \<Rightarrow> int \<Rightarrow> mp_bound_slice_t" where
  "fast_slice n a b k =
     (let ix = bound_slice n a b k
      in if k > 0 then ix\<lparr>stop := max (start ix) (stop ix)\<rparr>
         else ix\<lparr>stop := (if start ix < stop ix + 1 then start ix + 1 else stop ix + 1)\<rparr>)"

lemma slice_args_step: "slice_args sl = Inr (a, b, k) \<Longrightarrow> k \<noteq> 0"
  by (auto simp: slice_args_def Let_def split: sum.splits if_splits)

lemma fast_indexes_ok:
  "mp_seq_get_fast_slice_indexes n sl =
     (case slice_args sl of Inl err \<Rightarrow> Inl err | Inr (a, b, k) \<Rightarrow> Inr (k = 1, fast_slice n a b k))"
proof (cases "slice_args sl")
  case (Inr p)
  obtain a b k where p: "p = (a, b, k)" by (cases p)
  define ix where "ix = bound_slice n a b k"
  have k: "k \<noteq> 0" using slice_args_step [of sl a b k] Inr p by simp
  have st: "step ix = k" by (simp add: ix_def bound_slice_def)
  have run: "mp_obj_slice_indices sl (int n) = Inr ix" by (simp add: slice_indices_ok Inr p ix_def)
  have fast: "fast_slice n a b k = (if k > 0 then ix\<lparr>stop := max (start ix) (stop ix)\<rparr>
         else ix\<lparr>stop := (if start ix < stop ix + 1 then start ix + 1 else stop ix + 1)\<rparr>)"
    by (simp add: fast_slice_def ix_def Let_def)
  show ?thesis
  proof (cases "k > 0")
    case True
    then show ?thesis unfolding mp_seq_get_fast_slice_indexes_def run Inr p
      by (cases "start ix > stop ix") (simp_all add: fast st Let_def max_def)
  next
    case False
    then have "k < 0" using k by simp
    then show ?thesis unfolding mp_seq_get_fast_slice_indexes_def run Inr p
      by (cases "start ix < stop ix + 1") (simp_all add: fast st Let_def)
  qed
qed (simp add: mp_seq_get_fast_slice_indexes_def slice_indices_ok)

lemma fast_part:
  assumes "py_part a b n = (i, j)"
  shows "start (fast_slice n a b 1) = int i \<and> stop (fast_slice n a b 1) = int j \<and> i \<le> j \<and> j \<le> n"
proof -
  define s where "s = min (int n) (max (from_front n 0 a) 0)"
  define t where "t = min (int n) (max (from_front n (int n) b) 0)"
  have "0 \<le> s" "s \<le> int n" "0 \<le> t" "t \<le> int n" by (simp_all add: s_def t_def)
  moreover have "i = nat s" "j = max i (nat t)" using assms by (auto simp: py_part_def Let_def s_def t_def max.commute)
  moreover have "start (fast_slice n a b 1) = s" "stop (fast_slice n a b 1) = max s t"
    by (simp_all add: fast_slice_def bound_slice_def s_def t_def Let_def)
  ultimately show ?thesis by auto
qed

section \<open>The loop over a slice\<close>

lemma up_from_step:
  assumes "0 \<le> lo" "lo < hi" "lo < int n" "0 < k"
  shows "up_from lo hi k n = nat lo # up_from (lo + k) hi k n"
proof -
  let ?P = "\<lambda>lo j. lo \<le> int j \<and> int j < hi \<and> (int j - lo) mod k = 0"
  have s: "[0..<n] = [0..<nat lo] @ nat lo # [Suc (nat lo)..<n]"
    using assms upt_add_eq_append [of 0 "nat lo" "n - nat lo"] by (simp add: upt_conv_Cons)
  have e: "filter (?P l) [0..<nat lo] = []" if "lo \<le> l" for l using that by (auto simp: filter_empty_conv)
  have "?P lo j \<longleftrightarrow> ?P (lo + k) j" if "j \<in> set [Suc (nat lo)..<n]" for j
  proof -
    have j: "lo < int j" using that assms(1) by auto
    have m: "(int j - (lo + k)) mod k = (int j - lo) mod k" using minus_mod_self2 [of "int j - lo" k] by (simp add: diff_diff_eq)
    have "lo + k \<le> int j" if "(int j - lo) mod k = 0"
    proof (rule ccontr)
      assume "\<not> lo + k \<le> int j"
      then have "(int j - lo) mod k = int j - lo" using j by simp
      then show False using that j by simp
    qed
    then show ?thesis using m j by auto
  qed
  then have "filter (?P lo) [Suc (nat lo)..<n] = filter (?P (lo + k)) [Suc (nat lo)..<n]" by (intro filter_cong) auto
  moreover have "\<not> ?P (lo + k) (nat lo)" "?P lo (nat lo)" using assms by simp_all
  ultimately show ?thesis using e [of lo] e [of "lo + k"] assms(4) unfolding up_from_def s by simp
qed

lemma down_from_step:
  assumes "0 \<le> hi" "lo < hi" "hi < int n" "0 < k"
  shows "down_from hi lo k n = nat hi # down_from (hi - k) lo k n"
proof -
  let ?P = "\<lambda>hi j. lo < int j \<and> int j \<le> hi \<and> (hi - int j) mod k = 0"
  have s: "[0..<n] = [0..<nat hi] @ nat hi # [Suc (nat hi)..<n]"
    using assms upt_add_eq_append [of 0 "nat hi" "n - nat hi"] by (simp add: upt_conv_Cons)
  have e: "filter (?P h) [Suc (nat hi)..<n] = []" if "h \<le> hi" for h using that assms(1) by (auto simp: filter_empty_conv)
  have "?P hi j \<longleftrightarrow> ?P (hi - k) j" if "j \<in> set [0..<nat hi]" for j
  proof -
    have j: "int j < hi" using that assms(1) by auto
    have m: "((hi - k) - int j) mod k = (hi - int j) mod k" using minus_mod_self2 [of "hi - int j" k] by (simp add: algebra_simps)
    have "int j \<le> hi - k" if "(hi - int j) mod k = 0"
    proof (rule ccontr)
      assume "\<not> int j \<le> hi - k"
      then have "(hi - int j) mod k = hi - int j" using j by simp
      then show False using that j by simp
    qed
    then show ?thesis using m j by auto
  qed
  then have "filter (?P hi) [0..<nat hi] = filter (?P (hi - k)) [0..<nat hi]" by (intro filter_cong) auto
  moreover have "\<not> ?P (hi - k) (nat hi)" "?P hi (nat hi)" using assms by simp_all
  ultimately show ?thesis using e [of hi] e [of "hi - k"] assms(4) unfolding down_from_def s by simp
qed

lemma up_from_end: "hi \<le> lo \<or> int n \<le> lo \<Longrightarrow> up_from lo hi k n = []"
  by (auto simp: up_from_def filter_empty_conv)

lemma down_from_end: "hi \<le> lo \<or> hi < 0 \<Longrightarrow> down_from hi lo k n = []"
  by (auto simp: down_from_def filter_empty_conv)

lemma mp_int_add_exact: "- 2147483648 \<le> a + b \<Longrightarrow> a + b < 2147483648 \<Longrightarrow> mp_int_add a b = a + b"
  using sint_of [of "a + b"] by (simp only: mp_int_add_def)

text \<open>The loop appends the items with the indices that are left.\<close>

lemma extract_up:
  assumes "bounded E" "list_ok res" "0 < step ix" "0 \<le> i" "stop ix \<le> int (length seq)" "stop ix + step ix \<le> 0x80000000"
  shows "\<exists>r. extract_loop E seq ix i res = Some r \<and>
    gives r () (elems res @ map (nth seq) (up_from i (stop ix) (step ix) (length seq)))"
  using assms
proof (induction "nat (stop ix - i)" arbitrary: i res rule: less_induct)
  case less
  show ?case
  proof (cases "i < stop ix")
    case False
    then have "extract_loop E seq ix i res = Some (Inr (), res)" using less.prems by (subst extract_loop.simps) simp
    then show ?thesis using less.prems False by (simp add: up_from_end gives_def)
  next
    case True
    have idx: "up_from i (stop ix) (step ix) (length seq) = nat i # up_from (i + step ix) (stop ix) (step ix) (length seq)"
      by (rule up_from_step) (use less.prems True in auto)
    have next_i: "mp_int_add i (step ix) = i + step ix" using less.prems True by (intro mp_int_add_exact) auto
    have run: "extract_loop E seq ix i res = (case mp_obj_list_append E (seq ! nat i) res of
              (Inl err, res1) \<Rightarrow> Some (Inl err, res1)
            | (Inr _, res1) \<Rightarrow> extract_loop E seq ix (mp_int_add i (step ix)) res1)"
      using less.prems True by (subst extract_loop.simps) simp
    from append_gives [OF less.prems(1,2), of "seq ! nat i"] consider
        s where "mp_obj_list_append E (seq ! nat i) res = (Inr (), s)" "list_ok s" "elems s = elems res @ [seq ! nat i]"
      | s where "mp_obj_list_append E (seq ! nat i) res = (Inl MemoryError, s)" "list_shape s"
      unfolding gives_def by blast
    then show ?thesis
    proof cases
      case 1
      have "\<exists>r. extract_loop E seq ix (i + step ix) s = Some r \<and>
        gives r () (elems s @ map (nth seq) (up_from (i + step ix) (stop ix) (step ix) (length seq)))"
        by (rule less.hyps) (use less.prems True 1(2) in auto)
      then show ?thesis using 1(1,3) unfolding run idx next_i by simp
    qed (simp add: run gives_def)
  qed
qed

lemma extract_down:
  assumes "bounded E" "list_ok res" "step ix < 0" "- 0x80000000 \<le> step ix" "i < int (length seq)" "0 \<le> stop ix" "length seq \<le> max_items"
  shows "\<exists>r. extract_loop E seq ix i res = Some r \<and>
    gives r () (elems res @ map (nth seq) (down_from i (stop ix - 1) (- step ix) (length seq)))"
  using assms
proof (induction "nat (i - stop ix + 1)" arbitrary: i res rule: less_induct)
  case less
  show ?case
  proof (cases "i \<ge> stop ix")
    case False
    then have "extract_loop E seq ix i res = Some (Inr (), res)" using less.prems by (subst extract_loop.simps) simp
    then show ?thesis using less.prems False by (simp add: down_from_end gives_def)
  next
    case True
    have "down_from i (stop ix - 1) (- step ix) (length seq) = nat i # down_from (i - (- step ix)) (stop ix - 1) (- step ix) (length seq)"
      by (rule down_from_step) (use less.prems True in auto)
    then have idx: "down_from i (stop ix - 1) (- step ix) (length seq) = nat i # down_from (i + step ix) (stop ix - 1) (- step ix) (length seq)"
      by simp
    have next_i: "mp_int_add i (step ix) = i + step ix"
      using less.prems True by (intro mp_int_add_exact) (auto simp: max_items_def)
    have run: "extract_loop E seq ix i res = (case mp_obj_list_append E (seq ! nat i) res of
              (Inl err, res1) \<Rightarrow> Some (Inl err, res1)
            | (Inr _, res1) \<Rightarrow> extract_loop E seq ix (mp_int_add i (step ix)) res1)"
      using less.prems True by (subst extract_loop.simps) simp
    from append_gives [OF less.prems(1,2), of "seq ! nat i"] consider
        s where "mp_obj_list_append E (seq ! nat i) res = (Inr (), s)" "list_ok s" "elems s = elems res @ [seq ! nat i]"
      | s where "mp_obj_list_append E (seq ! nat i) res = (Inl MemoryError, s)" "list_shape s"
      unfolding gives_def by blast
    then show ?thesis
    proof cases
      case 1
      have "\<exists>r. extract_loop E seq ix (i + step ix) s = Some r \<and>
        gives r () (elems s @ map (nth seq) (down_from (i + step ix) (stop ix - 1) (- step ix) (length seq)))"
        by (rule less.hyps) (use less.prems True 1(2) in auto)
      then show ?thesis using 1(1,3) unfolding run idx next_i by simp
    qed (simp add: run gives_def)
  qed
qed

section \<open>New lists\<close>

lemma list_new_ok:
  assumes "bounded E" "n \<le> 0x20000000"
  shows "list_new E n = Inl MemoryError \<or>
    (\<exists>a fill. list_new E n = Inr \<lparr>alloc = a, len = n, items = fill @ replicate (a - n) MP_OBJ_NULL\<rparr> \<and> length fill = n \<and>
       n \<le> a \<and> 2 \<le> a \<and> a \<le> max_items)"
proof -
  define a where "a = (if n < LIST_MIN_ALLOC then LIST_MIN_ALLOC else n)"
  have a: "n \<le> a" "4 \<le> a" "a < 0x40000000" using assms(2) by (auto simp: a_def)
  let ?its = "map (junk E) [0..<a]"
  have sb: "size_bytes a = 4 * a" using a(3) by (rule size_bytes_small)
  have big: "grants E (4 * a) \<Longrightarrow> a \<le> max_items" using assms(1) by (auto simp: bounded_def)
  have "buf_write ?its n (replicate (a - n) MP_OBJ_NULL) = take n ?its @ replicate (a - n) MP_OBJ_NULL"
    using a(1) by (simp add: buf_write_def)
  then have clear: "mp_seq_clear n a \<lparr>alloc = a, len = n, items = ?its\<rparr> =
      (Inr (), \<lparr>alloc = a, len = n, items = take n ?its @ replicate (a - n) MP_OBJ_NULL\<rparr>)"
    using a(1) by (simp add: mp_seq_clear_def put_items_def)
  have run: "list_new E n = (if grants E 16 \<and> grants E (4 * a)
      then Inr \<lparr>alloc = a, len = n, items = take n ?its @ replicate (a - n) MP_OBJ_NULL\<rparr> else Inl MemoryError)"
    using a(2) clear unfolding list_new_def mp_obj_list_init_def a_def [symmetric] m_new_def sb Let_def by simp
  have "length (take n ?its) = n" using a(1) by simp
  then show ?thesis using run big a(1,2) by (cases "grants E 16 \<and> grants E (4 * a)") (force+)
qed

lemma filled_ok:
  assumes "bounded E" "length ys = n" "n \<le> 0x20000000"
    and "\<And>a fill. length fill = n \<Longrightarrow> n \<le> a \<Longrightarrow> fill_in \<lparr>alloc = a, len = n, items = fill @ replicate (a - n) MP_OBJ_NULL\<rparr> = (Inr (), mk_list a ys)"
  shows "makes (filled_list E n fill_in) ys"
  using list_new_ok [OF assms(1,3)]
proof (elim disjE exE conjE)
  fix a fill assume "list_new E n = Inr \<lparr>alloc = a, len = n, items = fill @ replicate (a - n) MP_OBJ_NULL\<rparr>" "length fill = n"
    "n \<le> a" "2 \<le> a" "a \<le> max_items"
  then show ?thesis using assms(2,4) by (simp add: filled_list_def makes_def mk_list_ok)
qed (simp add: filled_list_def makes_def)

lemma put_all:
  "length ys = n \<Longrightarrow> length fill = n \<Longrightarrow> n \<le> a \<Longrightarrow>
   put_items 0 ys \<lparr>alloc = a, len = n, items = fill @ replicate (a - n) MP_OBJ_NULL\<rparr> = (Inr (), mk_list a ys)"
  by (simp add: put_items_def mk_list_def buf_write_def)

lemma new_empty:
  assumes "bounded E"
  shows "mp_obj_new_list E 0 None = Inl MemoryError \<or> (\<exists>s. mp_obj_new_list E 0 None = Inr s \<and> list_ok s \<and> elems s = [])"
proof -
  have "makes (mp_obj_new_list E 0 None) []"
    unfolding mp_obj_new_list_def by (rule filled_ok [OF assms]) (simp_all add: mk_list_def)
  then show ?thesis unfolding makes_def by blast
qed

lemma list_copy_makes: "bounded E \<Longrightarrow> list_ok l \<Longrightarrow> makes (list_copy E l) (elems l)"
  unfolding list_copy_def mp_obj_new_list_def using list_okD [of l]
  by (intro filled_ok) (auto simp: elems_def max_items_def put_all)

end
