(* ===== verification/ListMore.thy ===== *)
theory ListMore
  imports ListSlice
begin

text \<open>Slices of lists, and the operators: what they make, in terms of the elements.\<close>

section \<open>Loading a slice\<close>

lemma up_from_clip:
  assumes "s = min (int n) (max a 0)" "t = max s (min (int n) (max b 0))"
  shows "up_from s t k n = up_from (max 0 a) b k n"
proof (cases "a \<le> int n")
  case True
  then have s: "s = max 0 a" using assms(1) by simp
  have "int j < t \<longleftrightarrow> int j < b" if "s \<le> int j" "j < n" for j
  proof -
    have "int j < t \<longleftrightarrow> int j < min (int n) (max b 0)" using assms(2) that(1) by linarith
    also have "\<dots> \<longleftrightarrow> int j < b" using that(2) by linarith
    finally show ?thesis .
  qed
  then show ?thesis unfolding s [symmetric] up_from_def by (intro filter_cong) auto
next
  case False
  then have "s = int n" using assms(1) by simp
  then show ?thesis using False by (simp add: up_from_end)
qed

lemma down_from_clip:
  assumes "s = min (int n - 1) (max a (- 1))" "t = min (int n - 1) (max b (- 1)) + 1"
  shows "down_from s ((if s < t then s + 1 else t) - 1) k n = down_from (min (int n - 1) a) b k n"
proof (cases "0 \<le> a")
  case True
  then have s: "s = min (int n - 1) a" using assms(1) by simp
  have "filter (\<lambda>j. (if s < t then s + 1 else t) - 1 < int j \<and> int j \<le> s \<and> (s - int j) mod k = 0) [0..<n] =
      filter (\<lambda>j. b < int j \<and> int j \<le> s \<and> (s - int j) mod k = 0) [0..<n]"
  proof (rule filter_cong)
    fix j assume "j \<in> set [0..<n]"
    then have j: "int j < int n" by simp
    have "(if s < t then s + 1 else t) - 1 < int j \<longleftrightarrow> b < int j" if "int j \<le> s"
    proof (cases "s < t")
      case True
      show ?thesis unfolding if_P [OF True] using that True assms(2) by linarith
    next
      case False
      show ?thesis unfolding if_not_P [OF False] using that j False assms(2) by linarith
    qed
    then show "((if s < t then s + 1 else t) - 1 < int j \<and> int j \<le> s \<and> (s - int j) mod k = 0) =
        (b < int j \<and> int j \<le> s \<and> (s - int j) mod k = 0)" by blast
  qed (rule refl)
  then show ?thesis unfolding down_from_def s [symmetric] by (rule arg_cong)
next
  case False
  then have "s < 0" "min (int n - 1) a < 0" using assms(1) by simp_all
  then show ?thesis by (simp add: down_from_end)
qed

lemma up_from_len: "hi \<le> int n \<Longrightarrow> n \<le> m \<Longrightarrow> up_from lo hi k m = up_from lo hi k n"
proof -
  assume h: "hi \<le> int n" "n \<le> m"
  have "[0..<m] = [0..<n] @ [n..<m]" using h(2) upt_add_eq_append [of 0 n "m - n"] by simp
  then show ?thesis using h(1) by (auto simp: up_from_def filter_empty_conv)
qed

lemma down_from_len: "hi < int n \<Longrightarrow> n \<le> m \<Longrightarrow> down_from hi lo k m = down_from hi lo k n"
proof -
  assume h: "hi < int n" "n \<le> m"
  have "[0..<m] = [0..<n] @ [n..<m]" using h(2) upt_add_eq_append [of 0 n "m - n"] by simp
  then show ?thesis using h(1) by (auto simp: down_from_def filter_empty_conv)
qed

lemma progression_range: "set (up_from lo hi k n) \<subseteq> {..<n}" "set (down_from hi lo k n) \<subseteq> {..<n}"
  by (auto simp: up_from_def down_from_def)

lemma up_from_one: "up_from (int i) hi 1 n = [i..<min n (nat hi)]"
proof -
  have "sorted (up_from (int i) hi 1 n)" "distinct (up_from (int i) hi 1 n)"
    using sorted_wrt_filter [of "(\<le>)" "[0..<n]"] by (simp_all add: up_from_def)
  moreover have "set (up_from (int i) hi 1 n) = set [i..<min n (nat hi)]" by (auto simp: up_from_def)
  ultimately show ?thesis by (intro sorted_distinct_set_unique) simp_all
qed

lemma py_slice_part:
  assumes "py_part a b (length xs) = (i, j)"
  shows "py_slice a b 1 xs = take (j - i) (drop i xs)"
proof -
  let ?A = "from_front (length xs) 0 a" and ?B = "from_front (length xs) (int (length xs)) b"
  have i: "i = nat (min (int (length xs)) (max 0 ?A))" and j: "j = max i (nat (min (int (length xs)) (max 0 ?B)))"
    using assms by (auto simp: py_part_def Let_def)
  have ij: "i \<le> j" "j \<le> length xs" using fast_part [OF assms] by blast+
  have ii: "int i = min (int (length xs)) (max ?A 0)" unfolding i by linarith
  have jj: "int j = max (int i) (min (int (length xs)) (max ?B 0))" unfolding j by linarith
  have "py_slice a b 1 xs = map (nth xs) (up_from (max 0 ?A) ?B 1 (length xs))" by (simp add: py_slice_def Let_def)
  also have "up_from (max 0 ?A) ?B 1 (length xs) = up_from (int i) (int j) 1 (length xs)"
    by (rule up_from_clip [OF ii jj, symmetric])
  also have "\<dots> = [i..<j]" using ij by (simp add: up_from_one)
  also have "map (nth xs) [i..<j] = take (j - i) (drop i xs)" using ij by (intro nth_equalityI) auto
  finally show ?thesis .
qed

lemma fast_up_from:
  assumes "k > 0" "bound_slice n a b k = \<lparr>start = x, stop = y, step = k\<rparr>"
  shows "start (fast_slice n a b k) = x" "stop (fast_slice n a b k) = max x y"
  unfolding fast_slice_def assms(2) if_P [OF assms(1)] Let_def by simp_all

lemma bound_up:
  "k > 0 \<Longrightarrow> bound_slice n a b k = \<lparr>start = min (int n) (max (from_front n 0 a) 0),
     stop = min (int n) (max (from_front n (int n) b) 0), step = k\<rparr>"
  unfolding bound_slice_def by (rule if_P)

lemmas fast_up = fast_up_from [OF _ bound_up]

lemma fast_down_from:
  assumes "\<not> k > 0" "bound_slice n a b k = \<lparr>start = x, stop = y, step = k\<rparr>"
  shows "start (fast_slice n a b k) = x" "stop (fast_slice n a b k) = (if x < y + 1 then x + 1 else y + 1)"
  unfolding fast_slice_def assms(2) if_not_P [OF assms(1)] Let_def by simp_all

lemma bound_down:
  "\<not> k > 0 \<Longrightarrow> bound_slice n a b k = \<lparr>start = min (int n - 1) (max (from_front n (int n - 1) a) (- 1)),
     stop = min (int n - 1) (max (from_front n (- 1) b) (- 1)), step = k\<rparr>"
  unfolding bound_slice_def by (rule if_not_P)

lemmas fast_down = fast_down_from [OF _ bound_down]

lemma extract_makes:
  assumes "bounded E" "list_ok l" "k \<noteq> 0" "- 0x80000000 \<le> k" "k + int (len l) \<le> 0x80000000"
  shows "\<exists>r. mp_seq_extract_slice E (items l) (fast_slice (len l) a b k) = Some r \<and> makes r (py_slice a b k (elems l))"
proof -
  let ?n = "len l" and ?ix = "fast_slice (len l) a b k"
  define ps where "ps = (if k > 0 then up_from (start ?ix) (stop ?ix) k ?n else down_from (start ?ix) (stop ?ix - 1) (- k) ?n)"
  have st: "step ?ix = k" by (simp add: fast_slice_def bound_slice_def Let_def)
  note n = list_okD [OF assms(2)]
  have len: "length (elems l) = ?n" using n(6) by (simp add: elems_def)
  have py: "py_slice a b k (elems l) = map (nth (elems l)) ps"
  proof (cases "k > 0")
    case True
    have "up_from (start ?ix) (stop ?ix) k ?n = up_from (max 0 (from_front ?n 0 a)) (from_front ?n (int ?n) b) k ?n"
      unfolding fast_up [OF True True] by (rule up_from_clip) (rule refl)+
    then show ?thesis using True by (simp add: py_slice_def ps_def len Let_def)
  next
    case False
    let ?s = "min (int ?n - 1) (max (from_front ?n (int ?n - 1) a) (- 1))" and ?t = "min (int ?n - 1) (max (from_front ?n (- 1) b) (- 1)) + 1"
    have "down_from (start ?ix) (stop ?ix - 1) (- k) ?n = down_from ?s ((if ?s < ?t then ?s + 1 else ?t) - 1) (- k) ?n"
      unfolding fast_down [OF False False] ..
    also have "\<dots> = down_from (min (int ?n - 1) (from_front ?n (int ?n - 1) a)) (from_front ?n (- 1) b) (- k) ?n"
      by (rule down_from_clip) (rule refl)+
    finally show ?thesis using False by (simp add: py_slice_def ps_def len Let_def)
  qed
  have range: "set ps \<subseteq> {..<?n}" using progression_range by (simp add: ps_def)
  then have same: "map (nth (items l)) ps = map (nth (elems l)) ps" by (intro map_cong) (auto simp: elems_def)
  have loop: "\<exists>r. extract_loop E (items l) ?ix (start ?ix) res = Some r \<and> gives r () (elems res @ map (nth (items l)) ps)"
    if "list_ok res" for res
  proof (cases "k > 0")
    case True
    have i: "0 \<le> start ?ix" "stop ?ix \<le> int ?n" unfolding fast_up [OF True True] by linarith+
    have "ps = up_from (start ?ix) (stop ?ix) k (length (items l))" using True up_from_len [OF i(2) n(6)] by (simp add: ps_def)
    then show ?thesis using extract_up [OF assms(1) that, of ?ix "start ?ix" "items l"] i n(6) True assms(5) by (simp add: st)
  next
    case False
    have i: "start ?ix < int ?n" "0 \<le> stop ?ix" unfolding fast_down [OF False False] by (linarith, simp only: if_split, linarith)
    have "ps = down_from (start ?ix) (stop ?ix - 1) (- k) (length (items l))" using False down_from_len [OF i(1) n(6)] by (simp add: ps_def)
    then show ?thesis using extract_down [OF assms(1) that, of ?ix "start ?ix" "items l"] i n False assms(3,4) by (simp add: st)
  qed
  show ?thesis using new_empty [OF assms(1)]
  proof
    assume "mp_obj_new_list E 0 None = Inl MemoryError"
    then show ?thesis by (simp add: mp_seq_extract_slice_def makes_def)
  next
    assume "\<exists>s. mp_obj_new_list E 0 None = Inr s \<and> list_ok s \<and> elems s = []"
    then obtain s where s: "mp_obj_new_list E 0 None = Inr s" "list_ok s" "elems s = []" by blast
    from loop [OF s(2)] s(3) obtain r where r: "extract_loop E (items l) ?ix (start ?ix) s = Some r" "gives r () (map (nth (items l)) ps)"
      by auto
    have "mp_seq_extract_slice E (items l) ?ix = Some (case r of (Inl err, _) \<Rightarrow> Inl err | (Inr _, res1) \<Rightarrow> Inr res1)"
      using s(1) r(1) by (simp add: mp_seq_extract_slice_def)
    moreover have "makes (case r of (Inl err, _) \<Rightarrow> Inl err | (Inr _, res1) \<Rightarrow> Inr res1) (map (nth (items l)) ps)"
      using r(2) by (auto simp: gives_def makes_def)
    ultimately show ?thesis unfolding py same by blast
  qed
qed

lemma load_slice_makes:
  assumes "bounded E" "list_ok l" "slice_args sl = Inr (a, b, k)" "- 0x80000000 \<le> k" "k + int (len l) \<le> 0x80000000"
  shows "\<exists>r. list_load_slice E sl l = Some r \<and> makes r (py_slice a b k (elems l))"
proof (cases "k = 1")
  case False
  have "k \<noteq> 0" by (rule slice_args_step [OF assms(3)])
  from extract_makes [OF assms(1,2) this assms(4,5), of a b] show ?thesis
    using False by (simp add: list_load_slice_def fast_indexes_ok assms(3))
next
  case True
  obtain i j where p: "py_part a b (len l) = (i, j)" by (cases "py_part a b (len l)")
  note f = fast_part [OF p] and n = list_okD [OF assms(2)]
  have len: "length (elems l) = len l" using n(6) by (simp add: elems_def)
  have d: "nat (int j - int i) = j - i" by simp
  have read: "buf_read (items l) i (j - i) = take (j - i) (drop i (elems l))"
    using f n(6) by (simp add: buf_read_def elems_def drop_take min_absorb1 diff_le_mono)
  have "length (take (j - i) (drop i (elems l))) = j - i" "j - i \<le> 0x20000000" using f n len by (auto simp: max_items_def)
  from filled_ok [OF assms(1) this, of "put_items 0 (take (j - i) (drop i (elems l)))"] put_all [OF this(1)]
  have "makes (filled_list E (j - i) (put_items 0 (take (j - i) (drop i (elems l))))) (py_slice a b 1 (elems l))"
    using py_slice_part [of a b "elems l" i j] p len by simp
  then show ?thesis using True f by (simp add: list_load_slice_def fast_indexes_ok assms(3) Let_def read d)
qed

section \<open>Storing into a slice\<close>

definition array_elems :: "list_arg \<Rightarrow> mp_obj_t list \<Rightarrow> mp_obj_t list option" where
  "array_elems v xs = (case v of ArgSelf \<Rightarrow> Some xs | ArgList ys \<Rightarrow> Some ys | ArgTuple ys \<Rightarrow> Some ys | ArgOther _ _ \<Rightarrow> None)"

definition store_part :: "nat \<Rightarrow> nat \<Rightarrow> 'a list \<Rightarrow> 'a list \<Rightarrow> 'a list" where
  "store_part i j ys xs = take i xs @ ys @ drop j xs"

lemma move_ok:
  "src + n \<le> length (items s) \<Longrightarrow> dest + n \<le> length (items s) \<Longrightarrow>
   move_items dest src n s = (Inr (), s\<lparr>items := buf_write (items s) dest (buf_read (items s) src n)\<rparr>)"
  by (simp add: move_items_def get_items_def put_items_def buf_read_def)

lemma grow_slice:
  assumes "i \<le> j" "j \<le> length xs" "j - i < length ys" "rest_len = length xs - j"
    and "items s = xs @ rest" "length xs + length ys - (j - i) \<le> length (items s)"
    and "\<And>s'. take (length xs) (items s') = xs \<or> v \<noteq> ArgSelf \<Longrightarrow> length (items s') = length (items s) \<Longrightarrow> src s' = (Inr ys, s')"
    and "v = ArgSelf \<Longrightarrow> ys = xs"
  shows "seq_then (move_items (i + length ys) j rest_len s) (\<lambda>_ s. seq_then (src s) (put_items i)) =
     (Inr (), s\<lparr>items := store_part i j ys xs @ drop (length xs + length ys - (j - i)) (items s)\<rparr>)"
proof -
  let ?b = "items s" and ?n = "length xs + length ys - (j - i)"
  let ?b1 = "buf_write ?b (i + length ys) (drop j xs)"
  have read: "buf_read ?b j rest_len = drop j xs" using assms(2,4,5) by (simp add: buf_read_def)
  have n: "i + length ys + (length xs - j) = ?n" using assms(1-3) by simp
  have mv: "move_items (i + length ys) j rest_len s = (Inr (), s\<lparr>items := ?b1\<rparr>)"
    using move_ok [of j rest_len s "i + length ys"] assms(2,4,5,6) n read by simp
  have l1: "length ?b1 = length ?b" using assms(4-6) n by (intro length_buf_write) simp
  have keep: "take (length xs) ?b1 = xs \<or> v \<noteq> ArgSelf"
    using assms(5,8) by (cases "v = ArgSelf") (simp_all add: buf_write_def)
  have src: "src (s\<lparr>items := ?b1\<rparr>) = (Inr ys, s\<lparr>items := ?b1\<rparr>)" by (rule assms(7)) (use keep l1 in simp_all)
  have "buf_write ?b1 i ys = take i ?b @ ys @ drop j xs @ drop ?n ?b"
    using buf_write_twice [of i ys "drop j xs" ?b] n assms(6) by simp
  moreover have "take i ?b = take i xs" using assms(1,2,5) by simp
  moreover have "i + length ys \<le> length ?b" using assms(6) n by simp
  ultimately show ?thesis using mv src l1 by (simp add: put_items_def store_part_def)
qed

lemma shrink_slice:
  assumes "i \<le> j" "j \<le> length xs" "length ys \<le> j - i" "l = mk_list a xs" "length xs \<le> a"
  defines "n \<equiv> length xs + length ys - (j - i)"
  shows "seq_then (put_items i ys l) (\<lambda>_ s. seq_then (move_items (i + length ys) j (length xs - j) s) (\<lambda>_ s. mp_seq_clear n (length xs) s)) =
     (Inr (), l\<lparr>items := store_part i j ys xs @ replicate (a - n) MP_OBJ_NULL\<rparr>)"
proof -
  let ?z = "replicate (a - length xs) MP_OBJ_NULL"
  let ?b = "xs @ ?z" and ?C = "drop j xs"
  have il: "items l = ?b" "length ?b = a" using assms(4,5) by simp_all
  let ?b1 = "buf_write ?b i ys"
  have b1: "?b1 = take i xs @ ys @ drop (i + length ys) xs @ ?z" using assms(1-3) by (simp add: buf_write_def)
  have l1: "length ?b1 = a" using il(2) assms(1-3) by (simp add: b1)
  have read: "buf_read ?b1 j (length xs - j) = ?C"
  proof -
    have "drop j ?b1 = ?C @ ?z" using assms(1-3) by (simp add: b1)
    then show ?thesis using assms(2) by (simp add: buf_read_def)
  qed
  let ?b2 = "buf_write ?b1 (i + length ys) ?C"
  have n: "i + length ys + (length xs - j) = n" using assms(1-3) by (simp add: n_def)
  have b2: "?b2 = store_part i j ys xs @ drop n xs @ ?z"
    using assms(1-3) n by (simp add: buf_write_def b1 store_part_def)
  have l2: "length (store_part i j ys xs) = n" "length (drop n xs) = length xs - n" "n \<le> length xs"
    using assms(1-3) n by (simp_all add: store_part_def)
  have "buf_write ?b2 n (replicate (length xs - n) MP_OBJ_NULL) = store_part i j ys xs @ replicate (length xs - n) MP_OBJ_NULL @ ?z"
    unfolding b2 using l2 by (intro buf_write_mid) simp_all
  also have "replicate (length xs - n) MP_OBJ_NULL @ ?z = replicate (a - n) MP_OBJ_NULL"
    using l2(3) assms(5) by (simp flip: replicate_add)
  finally have clear: "buf_write ?b2 n (replicate (length xs - n) MP_OBJ_NULL) = store_part i j ys xs @ replicate (a - n) MP_OBJ_NULL" .
  have put: "put_items i ys l = (Inr (), l\<lparr>items := ?b1\<rparr>)" using il assms(1-3,5) by (simp add: put_items_def)
  have mv: "move_items (i + length ys) j (length xs - j) (l\<lparr>items := ?b1\<rparr>) = (Inr (), l\<lparr>items := ?b2\<rparr>)"
    using move_ok [of j "length xs - j" "l\<lparr>items := ?b1\<rparr>" "i + length ys"] l1 read assms(1-3,5) n l2(3) by simp
  have "length ?b2 = a" using l2 assms(5) by (simp add: b2)
  then show ?thesis using put mv clear l2(3) assms(5) by (simp add: mp_seq_clear_def put_items_def)
qed

end
