(* ===== verification/ListOps.thy ===== *)
theory ListOps
  imports ListMore
begin

text \<open>Storing into slices, the operators, and comparing, in terms of the elements.\<close>

section \<open>Storing into a slice\<close>

lemma store_slice_gives:
  assumes "bounded E" "list_ok l" "slice_args sl = Inr (a, b, 1)" "py_part a b (len l) = (i, j)"
    and "array_elems v (elems l) = Some ys" "arg_fits v"
  shows "gives (list_store_slice E sl v l) () (store_part i j ys (elems l))"
proof -
  obtain al xs where l: "l = mk_list al xs" "2 \<le> al" "al \<le> max_items" "length xs \<le> al" "elems l = xs"
    using assms(2) by (rule list_okE)
  have f: "start (fast_slice (length xs) a b 1) = int i" "stop (fast_slice (length xs) a b 1) = int j" and ij: "i \<le> j" "j \<le> length xs"
    using fast_part [OF assms(4)] l(1) by simp_all
  let ?m = "length ys" and ?n = "length xs + length ys - (j - i)"
  define src where "src = (\<lambda>s. case v of ArgSelf \<Rightarrow> get_items 0 ?m s | ArgList xs \<Rightarrow> (Inr xs, s)
      | ArgTuple xs \<Rightarrow> (Inr xs, s) | ArgOther _ _ \<Rightarrow> (Inl TypeError, s))"
  have m: "(case v of ArgSelf \<Rightarrow> Some (len l) | ArgList xs \<Rightarrow> Some (length xs) | ArgTuple xs \<Rightarrow> Some (length xs) | ArgOther _ _ \<Rightarrow> None) = Some ?m"
    using assms(5) l by (cases v) (auto simp: array_elems_def)
  have self: "v = ArgSelf \<Longrightarrow> ys = xs" using assms(5) l(5) by (simp add: array_elems_def)
  have fits: "?m \<le> max_items" using assms(5,6) l by (cases v) (auto simp: array_elems_def arg_fits_def)
  have src: "src s = (Inr ys, s)" if "take (length xs) (items s) = xs \<or> v \<noteq> ArgSelf" "length xs \<le> length (items s)" for s
    using that assms(5) self by (cases v) (auto simp: src_def array_elems_def get_items_def buf_read_def)
  have adj: "int ?m - (int j - int i) > 0 \<longleftrightarrow> j - i < ?m" "nat (int (length xs) + (int ?m - (int j - int i))) = ?n"
    using ij by auto
  let ?grow = "seq_then (if ?n > al then seq_then (m_renew E ?n l) (\<lambda>_ s. (Inr (), s\<lparr>alloc := ?n\<rparr>)) else (Inr (), l))
      (\<lambda>_ s. seq_then (move_items (i + ?m) j (?n - (i + ?m)) s) (\<lambda>_ s. seq_then (src s) (put_items i)))"
  let ?shrink = "seq_then (src l) (\<lambda>xs' s. seq_then (put_items i xs' s) (\<lambda>_ s.
      seq_then (move_items (i + ?m) j (length xs - j) s) (\<lambda>_ s. mp_seq_clear ?n (length xs) s)))"
  have run: "list_store_slice E sl v l = seq_then (if j - i < ?m then ?grow else ?shrink) (\<lambda>_ s. (Inr (), s\<lparr>len := ?n\<rparr>))"
    unfolding list_store_slice_def m using l(1) f adj
    by (simp add: fast_indexes_ok assms(3) Let_def src_def [symmetric])
  have len_part: "length (store_part i j ys xs) = ?n" using ij by (simp add: store_part_def)
  show ?thesis
  proof (cases "j - i < ?m")
    case False
    have "src l = (Inr ys, l)" using src l(1,4) by simp
    then have "?shrink = (Inr (), l\<lparr>items := store_part i j ys xs @ replicate (al - ?n) MP_OBJ_NULL\<rparr>)"
      using shrink_slice [OF ij _ l(1,4), of ys] False by simp
    then have "list_store_slice E sl v l = (Inr (), mk_list al (store_part i j ys xs))"
      using False l(1) len_part unfolding run by (simp add: mk_list_def)
    then show ?thesis using False l(2-5) len_part ij by (simp add: gives_mk)
  next
    case True
    have d: "?n - (i + ?m) = length xs - j" using ij True by simp
    have grow: "seq_then (move_items (i + ?m) j (?n - (i + ?m)) s) (\<lambda>_ s. seq_then (src s) (put_items i)) =
        (Inr (), s\<lparr>items := store_part i j ys xs @ drop ?n (items s)\<rparr>)"
      if "items s = xs @ rest" "?n \<le> length (items s)" for s rest
      unfolding d
    proof (rule grow_slice [OF ij True refl that])
      show "src s' = (Inr ys, s')" if "take (length xs) (items s') = xs \<or> v \<noteq> ArgSelf" "length (items s') = length (items s)" for s'
        by (rule src) (use that \<open>items s = xs @ rest\<close> in simp_all)
    qed (rule self)
    show ?thesis
    proof (cases "?n > al")
      case False
      have "?grow = (Inr (), l\<lparr>items := store_part i j ys xs @ replicate (al - ?n) MP_OBJ_NULL\<rparr>)"
        using grow [of l] False l(1,4) True by simp
      then have "list_store_slice E sl v l = (Inr (), mk_list al (store_part i j ys xs))"
        using True l(1) len_part unfolding run by (simp add: mk_list_def)
      then show ?thesis using False l(2-5) len_part by (simp add: gives_mk)
    next
      case big: True
      have n: "0 < ?n" "?n < 0x40000000" using big l(3,4) fits ij by (auto simp: max_items_def)
      let ?its = "take ?n (items l) @ map (junk E) [length (items l)..<?n]"
      from renew_ok [OF assms(1) n, of l] show ?thesis
      proof (elim disjE conjE)
        assume "m_renew E ?n l = (Inl MemoryError, l)"
        then have "list_store_slice E sl v l = (Inl MemoryError, l)" using True big unfolding run by simp
        then show ?thesis using assms(2) by (simp add: gives_no_memory)
      next
        assume r: "?n \<le> max_items" "m_renew E ?n l = (Inr (), l\<lparr>items := ?its\<rparr>)"
        have its: "\<exists>rest. ?its = xs @ rest" "length ?its = ?n" using big l(1,4) by auto
        then obtain rest where rest: "?its = xs @ rest" by blast
        have "?grow = (Inr (), (l\<lparr>items := ?its, alloc := ?n\<rparr>)\<lparr>items := store_part i j ys xs\<rparr>)"
          using grow [of "l\<lparr>items := ?its, alloc := ?n\<rparr>" rest] rest its(2) big r(2) by simp
        then have "list_store_slice E sl v l = (Inr (), mk_list ?n (store_part i j ys xs))"
          using True l(1) len_part unfolding run by (simp add: mk_list_def)
        then show ?thesis using r(1) l(2,5) len_part big by (simp add: gives_mk)
      qed
    qed
  qed
qed

lemma store_slice_errors:
  assumes "list_ok l"
  shows "slice_args sl = Inl err \<Longrightarrow> list_store_slice E sl v l = (Inl err, l)"
    "slice_args sl = Inr (a, b, k) \<Longrightarrow> k \<noteq> 1 \<Longrightarrow> list_store_slice E sl v l = (Inl NotImplementedError, l)"
    "slice_args sl = Inr (a, b, 1) \<Longrightarrow> array_elems v xs = None \<Longrightarrow> list_store_slice E sl v l = (Inl TypeError, l)"
  by (simp_all add: list_store_slice_def fast_indexes_ok array_elems_def split: list_arg.splits)

section \<open>Adding and multiplying\<close>

lemma list_add_makes:
  assumes "bounded E" "list_ok l" "length p \<le> max_items"
  shows "makes (filled_list E (len l + length p) (\<lambda>s. seq_then (put_items 0 (elems l) s) (\<lambda>_. put_items (len l) p))) (elems l @ p)"
proof (rule filled_ok [OF assms(1)])
  have n: "length (elems l) = len l" "len l \<le> max_items" using list_okD [OF assms(2)] by (simp_all add: elems_def)
  show "length (elems l @ p) = len l + length p" "len l + length p \<le> 0x20000000" using n assms(3) by (simp_all add: max_items_def)
  fix a and fill :: "mp_obj_t list" assume f: "length fill = len l + length p" "len l + length p \<le> a"
  let ?s = "\<lparr>alloc = a, len = len l + length p, items = fill @ replicate (a - (len l + length p)) MP_OBJ_NULL\<rparr>"
  have "buf_write (items ?s) 0 (elems l) = elems l @ drop (len l) fill @ replicate (a - (len l + length p)) MP_OBJ_NULL"
    using n f by (simp add: buf_write_def)
  moreover have "buf_write (elems l @ drop (len l) fill @ replicate (a - (len l + length p)) MP_OBJ_NULL) (len l) p =
      elems l @ p @ replicate (a - (len l + length p)) MP_OBJ_NULL"
    using n f by (intro buf_write_mid) simp_all
  ultimately show "seq_then (put_items 0 (elems l) ?s) (\<lambda>_. put_items (len l) p) = (Inr (), mk_list a (elems l @ p))"
    using n f by (simp add: put_items_def mk_list_def)
qed

lemma seq_multiply_ok:
  "off + length xs * k \<le> length dest \<Longrightarrow>
   mp_seq_multiply xs k dest off = Inr (buf_write dest off (concat (replicate k xs)))"
proof (induction k arbitrary: dest off)
  case 0
  then show ?case by (simp add: buf_write_Nil)
next
  case (Suc k)
  have e: "off + length xs \<le> length dest" "off + length xs + length xs * k \<le> length (buf_write dest off xs)"
    using Suc.prems by (simp_all add: length_buf_write)
  have "buf_write (buf_write dest off xs) (off + length xs) (concat (replicate k xs)) = buf_write dest off (xs @ concat (replicate k xs))"
    using Suc.prems by (intro buf_write_append) (simp add: length_concat sum_list_replicate mult.commute)
  then show ?case using Suc.IH [OF e(2)] e(1) by simp
qed

lemma list_multiply_makes:
  assumes "bounded E" "list_ok l" "len l * n \<le> 0x20000000"
  shows "makes (filled_list E (len l * n mod 2 ^ 32) (\<lambda>s. case mp_seq_multiply (elems l) n (items s) 0 of
      Inl err \<Rightarrow> (Inl err, s) | Inr its \<Rightarrow> (Inr (), s\<lparr>items := its\<rparr>))) (concat (replicate n (elems l)))"
proof -
  have n: "length (elems l) = len l" using list_okD [OF assms(2)] by (simp add: elems_def)
  have m: "len l * n mod 2 ^ 32 = len l * n" using assms(3) by simp
  have len: "length (concat (replicate n (elems l))) = len l * n" using n by (simp add: length_concat sum_list_replicate mult.commute)
  show ?thesis unfolding m
  proof (rule filled_ok [OF assms(1) len assms(3)])
    fix a and fill :: "mp_obj_t list" assume f: "length fill = len l * n" "len l * n \<le> a"
    let ?its = "fill @ replicate (a - len l * n) MP_OBJ_NULL"
    have "mp_seq_multiply (elems l) n ?its 0 = Inr (buf_write ?its 0 (concat (replicate n (elems l))))"
      using n f by (intro seq_multiply_ok) simp
    moreover have "buf_write ?its 0 (concat (replicate n (elems l))) = concat (replicate n (elems l)) @ replicate (a - len l * n) MP_OBJ_NULL"
      using len f by (simp add: buf_write_def)
    ultimately show "(case mp_seq_multiply (elems l) n (items \<lparr>alloc = a, len = len l * n, items = ?its\<rparr>) 0 of
      Inl err \<Rightarrow> (Inl err, \<lparr>alloc = a, len = len l * n, items = ?its\<rparr>)
      | Inr its \<Rightarrow> (Inr (), \<lparr>alloc = a, len = len l * n, items = ?its\<rparr>\<lparr>items := its\<rparr>)) = (Inr (), mk_list a (concat (replicate n (elems l))))"
      using len by (simp add: mk_list_def)
  qed
qed

section \<open>Searching and comparing\<close>

lemma seq_count_ok: "mp_seq_count_obj eq xs v = length (filter (\<lambda>x. eq x v) xs)"
proof -
  have "fold (\<lambda>x count. if eq x v then count + 1 else count) xs n = n + length (filter (\<lambda>x. eq x v) xs)" for n
    by (induction xs arbitrary: n) auto
  then show ?thesis by (simp add: mp_seq_count_obj_def)
qed

lemma index_loop_ok:
  "index_loop eq xs v i n = (if \<exists>k. i \<le> k \<and> k < i + n \<and> eq (xs ! k) v then Some (LEAST k. i \<le> k \<and> eq (xs ! k) v) else None)"
proof (induction n arbitrary: i)
  case (Suc n)
  show ?case
  proof (cases "eq (xs ! i) v")
    case True
    then have "(LEAST k. i \<le> k \<and> eq (xs ! k) v) = i" by (intro Least_equality) auto
    moreover have "\<exists>k. i \<le> k \<and> k < i + Suc n \<and> eq (xs ! k) v" by (rule exI [of _ i]) (simp add: True)
    ultimately show ?thesis using True by simp
  next
    case False
    have p: "(i \<le> k \<and> eq (xs ! k) v) = (Suc i \<le> k \<and> eq (xs ! k) v)" for k using False by (cases "k = i") auto
    have "(\<exists>k. i \<le> k \<and> k < i + Suc n \<and> eq (xs ! k) v) = (\<exists>k. Suc i \<le> k \<and> k < Suc i + n \<and> eq (xs ! k) v)"
      using p by (metis add_Suc_shift)
    then show ?thesis unfolding index_loop.simps if_not_P [OF False] Suc.IH [of "Suc i"] by (simp only: p)
  qed
qed simp

text \<open>Comparing is lexicographic when the elements are compared by a value.\<close>

definition compares :: "(mp_obj_t \<Rightarrow> mp_obj_t \<Rightarrow> bool) \<Rightarrow> (int_op \<Rightarrow> mp_obj_t \<Rightarrow> mp_obj_t \<Rightarrow> bool) \<Rightarrow> (mp_obj_t \<Rightarrow> 'a::linorder) \<Rightarrow> bool" where
  "compares eq rel val \<longleftrightarrow>
     (\<forall>x y. eq x y = (val x = val y)) \<and> (\<forall>x y. rel OP_MORE x y = (val y < val x)) \<and> (\<forall>x y. rel OP_MORE_EQUAL x y = (val y \<le> val x))"

definition lex_op :: "int_op \<Rightarrow> 'a::linorder list \<Rightarrow> 'a list \<Rightarrow> bool" where
  "lex_op op xs ys =
     (case op of
        OP_LESS \<Rightarrow> ord_class.lexordp xs ys | OP_MORE \<Rightarrow> ord_class.lexordp ys xs
      | OP_LESS_EQUAL \<Rightarrow> \<not> ord_class.lexordp ys xs | OP_MORE_EQUAL \<Rightarrow> \<not> ord_class.lexordp xs ys
      | _ \<Rightarrow> xs = ys)"

text \<open>The loop and the tie at its end, in one.\<close>

definition cmp_result :: "(mp_obj_t \<Rightarrow> mp_obj_t \<Rightarrow> bool) \<Rightarrow> (int_op \<Rightarrow> mp_obj_t \<Rightarrow> mp_obj_t \<Rightarrow> bool) \<Rightarrow> int_op \<Rightarrow>
    mp_obj_t list \<Rightarrow> mp_obj_t list \<Rightarrow> bool" where
  "cmp_result eq rel op xs ys =
     (case cmp_loop eq rel op xs ys of Some d \<Rightarrow> d | None \<Rightarrow> cmp_tie op (length xs) (length ys))"

lemma cmp_result_simps:
  "cmp_result eq rel op (x # xs) (y # ys) =
     (if eq x y then cmp_result eq rel op xs ys else if op = OP_EQUAL then False else rel op x y)"
  "cmp_result eq rel op [] ys = cmp_tie op 0 (length ys)" "cmp_result eq rel op xs [] = cmp_tie op (length xs) 0"
proof -
  have tie: "cmp_tie op (length (x # xs)) (length (y # ys)) = cmp_tie op (length xs) (length ys)" for op
    by (simp add: cmp_tie_def)
  show "cmp_result eq rel op (x # xs) (y # ys) =
     (if eq x y then cmp_result eq rel op xs ys else if op = OP_EQUAL then False else rel op x y)"
    unfolding cmp_result_def tie by simp
  show "cmp_result eq rel op xs [] = cmp_tie op (length xs) 0" by (cases xs) (simp_all add: cmp_result_def)
qed (simp add: cmp_result_def)

lemma cmp_result_more:
  assumes "compares eq rel val" "op = OP_MORE \<or> op = OP_MORE_EQUAL"
  shows "cmp_result eq rel op xs ys = lex_op op (map val xs) (map val ys)"
proof (induction xs ys rule: list_induct2')
  case (4 x xs y ys)
  then show ?case using assms by (auto simp: cmp_result_simps compares_def lex_op_def)
qed (use assms(2) in \<open>auto simp: cmp_result_simps cmp_tie_def lex_op_def\<close>)

lemma cmp_result_equal:
  assumes "compares eq rel val" "length xs = length ys"
  shows "cmp_result eq rel OP_EQUAL xs ys = (map val xs = map val ys)"
  using assms(2,1) by (induction xs ys rule: list_induct2) (auto simp: cmp_result_simps cmp_tie_def compares_def)

lemma cmp_objs_ok:
  assumes "compares eq rel val" "op \<in> {OP_LESS, OP_LESS_EQUAL, OP_MORE, OP_MORE_EQUAL, OP_EQUAL}"
  shows "mp_seq_cmp_objs eq rel op xs ys = lex_op op (map val xs) (map val ys)"
proof -
  have c: "mp_seq_cmp_objs eq rel op xs ys = (if op = OP_EQUAL \<and> length xs \<noteq> length ys then False
      else case swap_op op xs ys of (op1, as, bs) \<Rightarrow> cmp_result eq rel op1 as bs)"
    by (simp add: mp_seq_cmp_objs_def cmp_result_def)
  show ?thesis
  proof (cases "op = OP_EQUAL")
    case True
    then show ?thesis using cmp_result_equal [OF assms(1), of xs ys] map_eq_imp_length_eq [of val xs val ys]
      unfolding c by (cases "length xs = length ys") (auto simp: swap_op_def lex_op_def)
  next
    case False
    have m: "cmp_result eq rel OP_MORE as bs = lex_op OP_MORE (map val as) (map val bs)"
      "cmp_result eq rel OP_MORE_EQUAL as bs = lex_op OP_MORE_EQUAL (map val as) (map val bs)" for as bs
      using cmp_result_more [OF assms(1)] by simp_all
    show ?thesis using assms(2) False unfolding c by (auto simp: swap_op_def m) (simp_all add: lex_op_def)
  qed
qed

end
