(* ===== verification/ListSort.thy ===== *)
theory ListSort
  imports ListObj "HOL-Library.Multiset"
begin

text \<open>
  Sorting a list, \<open>mp_quicksort\<close> of \<open>py/objlist.c\<close>.  As in the code, the range to sort lies behind the
  position \<open>head\<close>, which may be one in front of the array, and ends with \<open>tail\<close>.  What \<open>mp_binary_op\<close>
  answers to less-than and the key function are parameters; the C stack has room for a number of calls.
\<close>

section \<open>The code\<close>

record sort_env =
  less_result :: "mp_obj_t \<Rightarrow> mp_obj_t \<Rightarrow> mp_obj_t"   \<comment> \<open>\<open>mp_binary_op(MP_BINARY_OP_LESS, \<dots>)\<close>\<close>
  key_fn :: "(mp_obj_t \<Rightarrow> mp_obj_t) option"
  binop_less_result :: mp_obj_t

definition key_of :: "sort_env \<Rightarrow> mp_obj_t \<Rightarrow> mp_obj_t" where
  "key_of C x = (case key_fn C of None \<Rightarrow> x | Some f \<Rightarrow> f x)"

text \<open>The two inner loops.\<close>

function scan_up :: "(mp_obj_t \<Rightarrow> bool) \<Rightarrow> mp_obj_t list \<Rightarrow> int \<Rightarrow> int \<Rightarrow> int" where
  "scan_up goes_on xs h t =
     (let h1 = h + 1 in if h1 < t \<and> goes_on (xs ! nat h1) then scan_up goes_on xs h1 t else h1)"
  by pat_completeness auto
termination by (relation "measure (\<lambda>(_, _, h, t). nat (t - h))") auto

function scan_down :: "(mp_obj_t \<Rightarrow> bool) \<Rightarrow> mp_obj_t list \<Rightarrow> int \<Rightarrow> int \<Rightarrow> int" where
  "scan_down goes_on xs h t =
     (let t1 = t - 1 in if h < t1 \<and> goes_on (xs ! nat t1) then scan_down goes_on xs h t1 else t1)"
  by pat_completeness auto
termination by (relation "measure (\<lambda>(_, _, h, t). nat (t - h))") auto

declare scan_up.simps [simp del] scan_down.simps [simp del]

lemma scan_up_ok:
  "h < scan_up P xs h t \<and> (h < t \<longrightarrow> scan_up P xs h t \<le> t) \<and> (\<forall>p. h < p \<and> p < scan_up P xs h t \<longrightarrow> P (xs ! nat p)) \<and>
   (scan_up P xs h t < t \<longrightarrow> \<not> P (xs ! nat (scan_up P xs h t)))"
proof (induction P xs h t rule: scan_up.induct)
  case (1 P xs h t)
  show ?case
  proof (cases "h + 1 < t \<and> P (xs ! nat (h + 1))")
    case True
    have e: "scan_up P xs h t = scan_up P xs (h + 1) t" using True by (subst scan_up.simps) (simp add: Let_def)
    note IH = "1.IH" [OF refl True]
    show ?thesis unfolding e
    proof (intro conjI)
      show "h < scan_up P xs (h + 1) t" using IH by linarith
      show "h < t \<longrightarrow> scan_up P xs (h + 1) t \<le> t" using IH True by blast
      show "\<forall>q. h < q \<and> q < scan_up P xs (h + 1) t \<longrightarrow> P (xs ! nat q)"
      proof (intro allI impI)
        fix q assume "h < q \<and> q < scan_up P xs (h + 1) t"
        then show "P (xs ! nat q)" using IH True by (cases "q = h + 1") auto
      qed
      show "scan_up P xs (h + 1) t < t \<longrightarrow> \<not> P (xs ! nat (scan_up P xs (h + 1) t))" using IH by blast
    qed
  next
    case False
    then have e: "scan_up P xs h t = h + 1" by (subst scan_up.simps) (auto simp: Let_def)
    show ?thesis unfolding e using False by auto
  qed
qed

lemma scan_down_ok:
  "scan_down P xs h t < t \<and> (h < t \<longrightarrow> h \<le> scan_down P xs h t) \<and> (h = t \<longrightarrow> scan_down P xs h t = t - 1) \<and>
   (\<forall>p. scan_down P xs h t < p \<and> p < t \<longrightarrow> P (xs ! nat p)) \<and>
   (h < scan_down P xs h t \<longrightarrow> \<not> P (xs ! nat (scan_down P xs h t)))"
proof (induction P xs h t rule: scan_down.induct)
  case (1 P xs h t)
  show ?case
  proof (cases "h < t - 1 \<and> P (xs ! nat (t - 1))")
    case True
    have e: "scan_down P xs h t = scan_down P xs h (t - 1)" using True by (subst scan_down.simps) (simp add: Let_def)
    note IH = "1.IH" [OF refl True]
    show ?thesis unfolding e
    proof (intro conjI)
      show "scan_down P xs h (t - 1) < t" using IH by linarith
      show "h < t \<longrightarrow> h \<le> scan_down P xs h (t - 1)" using IH True by blast
      show "h = t \<longrightarrow> scan_down P xs h (t - 1) = t - 1" using True by simp
      show "\<forall>q. scan_down P xs h (t - 1) < q \<and> q < t \<longrightarrow> P (xs ! nat q)"
      proof (intro allI impI)
        fix q assume "scan_down P xs h (t - 1) < q \<and> q < t"
        then show "P (xs ! nat q)" using IH True by (cases "q = t - 1") auto
      qed
      show "h < scan_down P xs h (t - 1) \<longrightarrow> \<not> P (xs ! nat (scan_down P xs h (t - 1)))" using IH by blast
    qed
  next
    case False
    then have e: "scan_down P xs h t = t - 1" by (subst scan_down.simps) (auto simp: Let_def)
    show ?thesis unfolding e using False by auto
  qed
qed

definition swap_items :: "int \<Rightarrow> int \<Rightarrow> mp_obj_t list \<Rightarrow> mp_obj_t list" where
  "swap_items h t xs = xs[nat h := xs ! nat t, nat t := xs ! nat h]"

function partition_loop :: "sort_env \<Rightarrow> mp_obj_t \<Rightarrow> mp_obj_t list \<Rightarrow> int \<Rightarrow> int \<Rightarrow> mp_obj_t list \<times> int \<times> int" where
  "partition_loop C v xs h t =
     (let h1 = scan_up (\<lambda>x. less_result C (key_of C x) v = binop_less_result C) xs h t;
          t1 = scan_down (\<lambda>x. less_result C v (key_of C x) = binop_less_result C) xs h1 t
      in if h1 \<ge> t1 then (xs, h1, t1) else partition_loop C v (swap_items h1 t1 xs) h1 t1)"
  by pat_completeness auto
termination
proof (relation "measure (\<lambda>(_, _, _, h, t). nat (t - h))", goal_cases)
  case (2 C v xs h t h1 t1)
  have "h < h1" "t1 < t" using 2(1,2) scan_up_ok scan_down_ok by blast+
  then show ?case using 2(3) by simp
qed simp

declare partition_loop.simps [simp del]

lemma partition_loop_shrinks: "(ys, h', t') = partition_loop C v xs h t \<Longrightarrow> h < h' \<and> t' < t"
proof (induction C v xs h t rule: partition_loop.induct)
  case (1 C v xs h t)
  define h1 where "h1 = scan_up (\<lambda>x. less_result C (key_of C x) v = binop_less_result C) xs h t"
  define t1 where "t1 = scan_down (\<lambda>x. less_result C v (key_of C x) = binop_less_result C) xs h1 t"
  have s: "h < h1" "t1 < t" unfolding h1_def t1_def using scan_up_ok scan_down_ok by blast+
  have e: "partition_loop C v xs h t = (if h1 \<ge> t1 then (xs, h1, t1) else partition_loop C v (swap_items h1 t1 xs) h1 t1)"
    unfolding h1_def t1_def by (subst partition_loop.simps) (simp add: Let_def)
  show ?case
  proof (cases "h1 \<ge> t1")
    case True
    then show ?thesis using e s 1(2) by simp
  next
    case False
    then show ?thesis using "1.IH" [OF h1_def t1_def False] e s 1(2) by simp
  qed
qed

type_synonym sort_result = "(seq_exn + unit) \<times> mp_obj_t list"

text \<open>The outer loop; \<open>stack\<close> is how many more calls the stack has room for.\<close>

function quicksort_loop :: "sort_env \<Rightarrow> nat \<Rightarrow> mp_obj_t list \<Rightarrow> int \<Rightarrow> int \<Rightarrow> sort_result" where
  "quicksort_loop C stack xs head tail =
     (if tail - head > 1 then
        let v = key_of C (xs ! nat tail);
            p = partition_loop C v xs head tail;
            h = fst (snd p);
            t = snd (snd p);
            ys = swap_items h tail (fst p)
        in if t - head < tail - h
           then (case (if stack = 0 then (Inl RuntimeError, ys) else quicksort_loop C (stack - 1) ys head t) of
                   (Inl err, zs) \<Rightarrow> (Inl err, zs)
                 | (Inr _, zs) \<Rightarrow> quicksort_loop C stack zs h tail)
           else (case (if stack = 0 then (Inl RuntimeError, ys) else quicksort_loop C (stack - 1) ys h tail) of
                   (Inl err, zs) \<Rightarrow> (Inl err, zs)
                 | (Inr _, zs) \<Rightarrow> quicksort_loop C stack zs head t)
      else (Inr (), xs))"
  by pat_completeness auto
termination
proof -
  have s: "head < fst (snd p) \<and> snd (snd p) < tail" if "p = partition_loop C v xs head tail" for C v xs head tail p
    using partition_loop_shrinks [of "fst p" "fst (snd p)" "snd (snd p)" C v xs head tail] that by simp
  have m: "nat (t - head) < nat (tail - head)" "nat (tail - h) < nat (tail - head)"
    if "p = partition_loop C v xs head tail" "h = fst (snd p)" "t = snd (snd p)" "1 < tail - head" for C v xs head tail p h t
    using s [OF that(1)] that(2-4) by simp_all
  show ?thesis
  proof (relation "measure (\<lambda>(_, _, _, head, tail). nat (tail - head))", goal_cases)
    case (2 C stack xs head tail v p h t) show ?case using m(1) [OF 2(3-5) 2(1)] by simp next
    case (3 C stack xs head tail v p h t) show ?case using m(2) [OF 3(3-5) 3(1)] by simp next
    case (4 C stack xs head tail v p h t) show ?case using m(2) [OF 4(3-5) 4(1)] by simp next
    case (5 C stack xs head tail v p h t) show ?case using m(1) [OF 5(3-5) 5(1)] by simp
  qed simp
qed

declare quicksort_loop.simps [simp del]

definition mp_quicksort :: "sort_env \<Rightarrow> nat \<Rightarrow> mp_obj_t list \<Rightarrow> int \<Rightarrow> int \<Rightarrow> sort_result" where
  "mp_quicksort C stack xs head tail =
     (if stack = 0 then (Inl RuntimeError, xs) else quicksort_loop C (stack - 1) xs head tail)"

text \<open>The arguments are the key function, if it is not None, and whether to reverse.\<close>

definition MP_OBJ_NEW_IMMEDIATE_OBJ :: "u32 \<Rightarrow> mp_obj_t" where
  "MP_OBJ_NEW_IMMEDIATE_OBJ val = push_bit 3 val OR 6"

definition mp_const_false :: mp_obj_t where "mp_const_false = MP_OBJ_NEW_IMMEDIATE_OBJ 1"
definition mp_const_true :: mp_obj_t where "mp_const_true = MP_OBJ_NEW_IMMEDIATE_OBJ 3"

definition mp_obj_list_sort :: "(mp_obj_t \<Rightarrow> mp_obj_t \<Rightarrow> mp_obj_t) \<Rightarrow> (mp_obj_t \<Rightarrow> mp_obj_t) option \<Rightarrow> bool \<Rightarrow> nat \<Rightarrow>
    mp_obj_list_t \<Rightarrow> unit list_result" where
  "mp_obj_list_sort lt key reverse stack self =
     (if len self > 1 then
        (case mp_quicksort \<lparr>less_result = lt, key_fn = key, binop_less_result = (if reverse then mp_const_false else mp_const_true)\<rparr>
            stack (items self) (- 1) (int (len self) - 1) of
           (r, its) \<Rightarrow> (r, self\<lparr>items := its\<rparr>))
      else (Inr (), self))"

end
