(* ===== verification/ListSorted.thy ===== *)
theory ListSorted
  imports ListSort
begin

text \<open>
  Sorting sorts: the partition splits the range at its pivot, the order of the two recursive calls bounds
  the depth of the stack by the logarithm of the length, and the result is a permutation in order.
  What is needed of the comparison is the locale \<open>sort_order\<close>, with an instance for each direction.
\<close>

section \<open>Rearranging a range\<close>

text \<open>The range of positions \<open>p\<close> with \<open>lo < p \<le> hi\<close> is permuted and all else stays.\<close>

definition rearr :: "int \<Rightarrow> int \<Rightarrow> 'a list \<Rightarrow> 'a list \<Rightarrow> bool" where
  "rearr lo hi xs ys \<longleftrightarrow> length ys = length xs \<and> mset ys = mset xs \<and>
     (\<forall>p. 0 \<le> p \<and> p < int (length xs) \<and> (p \<le> lo \<or> hi < p) \<longrightarrow> ys ! nat p = xs ! nat p)"

lemma rearr_refl [simp]: "rearr lo hi xs xs"
  by (simp add: rearr_def)

lemma rearr_trans: "rearr lo hi xs ys \<Longrightarrow> rearr lo hi ys zs \<Longrightarrow> rearr lo hi xs zs"
  by (simp add: rearr_def)

lemma rearr_mono: "rearr lo hi xs ys \<Longrightarrow> lo' \<le> lo \<Longrightarrow> hi \<le> hi' \<Longrightarrow> rearr lo' hi' xs ys"
  by (auto simp: rearr_def)

lemma rearr_length: "rearr lo hi xs ys \<Longrightarrow> length ys = length xs"
  by (simp add: rearr_def)

lemma rearr_outside: "rearr lo hi xs ys \<Longrightarrow> 0 \<le> p \<Longrightarrow> p < int (length xs) \<Longrightarrow> p \<le> lo \<or> hi < p \<Longrightarrow> ys ! nat p = xs ! nat p"
  by (simp add: rearr_def)

lemma rearr_all:
  assumes "rearr lo hi xs ys" "- 1 \<le> lo" "hi < int (length xs)" "\<forall>p. lo < p \<and> p \<le> hi \<longrightarrow> Q (xs ! nat p)"
  shows "\<forall>p. lo < p \<and> p \<le> hi \<longrightarrow> Q (ys ! nat p)"
proof (cases "lo < hi")
  case True
  define a where "a = nat (lo + 1)"
  define b where "b = nat (hi + 1)"
  have ab: "a \<le> b" "b \<le> length xs" using True assms(2,3) by (auto simp: a_def b_def)
  note len = rearr_length [OF assms(1)]
  have "take a ys = take a xs"
    using ab len by (intro nth_equalityI) (auto simp: a_def intro: rearr_outside [OF assms(1), of "int _", simplified])
  moreover have "drop b ys = drop b xs"
  proof (rule nth_equalityI)
    fix i assume "i < length (drop b ys)"
    then have "b + i < length xs" using ab len by simp
    moreover have "hi < int (b + i)" by (simp add: b_def)
    ultimately have "ys ! (b + i) = xs ! (b + i)" using rearr_outside [OF assms(1), of "int (b + i)"] by (simp del: of_nat_add)
    then show "drop b ys ! i = drop b xs ! i" using \<open>b + i < length xs\<close> len by simp
  qed (simp add: len)
  moreover have split: "zs = take a zs @ take (b - a) (drop a zs) @ drop b zs" for zs :: "'a list"
    using ab by (metis append_take_drop_id drop_drop le_add_diff_inverse2)
  ultimately have "mset (take (b - a) (drop a ys)) = mset (take (b - a) (drop a xs))"
    using assms(1) split [of xs] split [of ys] unfolding rearr_def
    by (metis add_left_cancel add_right_cancel mset_append)
  then have s: "set (take (b - a) (drop a ys)) = set (take (b - a) (drop a xs))" by (metis set_mset_mset)
  show ?thesis
  proof (intro allI impI)
    fix p assume p: "lo < p \<and> p \<le> hi"
    then have i: "nat p = a + (nat p - a)" "nat p - a < b - a" using assms(2) by (auto simp: a_def b_def)
    have "ys ! nat p \<in> set (take (b - a) (drop a ys))"
      unfolding in_set_conv_nth using i ab len by (intro exI [of _ "nat p - a"]) auto
    then obtain j where "j < b - a" "ys ! nat p = xs ! (a + j)"
      unfolding s in_set_conv_nth using ab by auto
    moreover have "lo < int (a + j) \<and> int (a + j) \<le> hi" using calculation(1) assms(2) True by (auto simp: a_def b_def)
    ultimately show "Q (ys ! nat p)" using assms(4) by (metis nat_int)
  qed
next
  case False
  then have "\<not> (lo < p \<and> p \<le> hi)" for p by simp
  then show ?thesis by blast
qed

lemma rearr_swap:
  assumes "lo < h" "h \<le> hi" "lo < t" "t \<le> hi" "- 1 \<le> lo" "hi < int (length xs)"
  shows "rearr lo hi xs (swap_items h t xs)"
proof -
  have "nat h < length xs" "nat t < length xs" using assms by auto
  then have "mset (swap_items h t xs) = mset xs" using mset_swap [of "nat t" xs "nat h"] by (simp add: swap_items_def)
  then show ?thesis using assms by (auto simp: rearr_def swap_items_def nth_list_update)
qed

lemma swap_at:
  assumes "0 \<le> h" "0 \<le> t" "h < int (length xs)" "t < int (length xs)" "0 \<le> p"
  shows "swap_items h t xs ! nat p = (if p = h then xs ! nat t else if p = t then xs ! nat h else xs ! nat p)"
proof -
  have "nat h < length xs" "nat t < length xs" using assms by auto
  then show ?thesis using assms by (auto simp: swap_items_def nth_list_update)
qed

text \<open>Other ranges, which contain the permuted one or lie beside it.\<close>

lemma rearr_range:
  assumes "rearr lo hi xs ys" "- 1 \<le> a" "b < int (length xs)" "a \<le> lo \<and> hi \<le> b \<or> b \<le> lo \<or> hi \<le> a"
    and "\<forall>p. a < p \<and> p \<le> b \<longrightarrow> Q (xs ! nat p)"
  shows "\<forall>p. a < p \<and> p \<le> b \<longrightarrow> Q (ys ! nat p)"
proof (cases "a \<le> lo \<and> hi \<le> b")
  case True
  then have "rearr a b xs ys" using rearr_mono [OF assms(1)] by blast
  then show ?thesis by (rule rearr_all [OF _ assms(2,3,5)])
next
  case False
  have "ys ! nat p = xs ! nat p" if "a < p" "p \<le> b" for p
    by (rule rearr_outside [OF assms(1)]) (use that False assms(2-4) in auto)
  then show ?thesis using assms(5) by simp
qed

section \<open>Any answers: a rearrangement, and how deep the stack gets\<close>

lemma partition_rearr:
  "partition_loop C v xs h t = (ys, h', t') \<Longrightarrow> head \<le> h \<Longrightarrow> h < t \<Longrightarrow> t \<le> tail \<Longrightarrow> - 1 \<le> head \<Longrightarrow> tail < int (length xs) \<Longrightarrow>
   rearr head (tail - 1) xs ys \<and> h < h' \<and> h' \<le> tail \<and> t' < tail \<and> t' \<le> h' \<and> h' \<le> t' + 1"
proof (induction C v xs h t rule: partition_loop.induct)
  case (1 C v xs h t)
  define h1 where "h1 = scan_up (\<lambda>x. less_result C (key_of C x) v = binop_less_result C) xs h t"
  define t1 where "t1 = scan_down (\<lambda>x. less_result C v (key_of C x) = binop_less_result C) xs h1 t"
  note up = scan_up_ok [of h "\<lambda>x. less_result C (key_of C x) v = binop_less_result C" xs t, folded h1_def]
  note down = scan_down_ok [of "\<lambda>x. less_result C v (key_of C x) = binop_less_result C" xs h1 t, folded t1_def]
  have s: "h < h1" "h1 \<le> t" using up "1.prems"(3) by simp_all
  have d: "t1 < t" "h1 < t \<longrightarrow> h1 \<le> t1" "h1 = t \<longrightarrow> t1 = t - 1" using down by simp_all
  have e: "partition_loop C v xs h t = (if h1 \<ge> t1 then (xs, h1, t1) else partition_loop C v (swap_items h1 t1 xs) h1 t1)"
    unfolding h1_def t1_def by (subst partition_loop.simps) (simp add: Let_def)
  show ?case
  proof (cases "h1 \<ge> t1")
    case True
    then have "ys = xs" "h' = h1" "t' = t1" using e "1.prems"(1) by simp_all
    moreover have "h1 \<le> t1 + 1" using s d by (cases "h1 = t") simp_all
    ultimately show ?thesis using s d "1.prems"(2-4) True by simp
  next
    case False
    have sw: "rearr head (tail - 1) xs (swap_items h1 t1 xs)"
      by (rule rearr_swap) (use s d False "1.prems"(2-6) in linarith)+
    have "rearr head (tail - 1) (swap_items h1 t1 xs) ys \<and> h1 < h' \<and> h' \<le> tail \<and> t' < tail \<and> t' \<le> h' \<and> h' \<le> t' + 1"
    proof (rule "1.IH" [OF h1_def t1_def False])
      show "partition_loop C v (swap_items h1 t1 xs) h1 t1 = (ys, h', t')" using e False "1.prems"(1) by simp
      show "tail < int (length (swap_items h1 t1 xs))" using "1.prems"(6) rearr_length [OF sw] by simp
    qed (use s d False "1.prems"(2-6) in linarith)+
    then show ?thesis using rearr_trans [OF sw] s(1) by (meson order.strict_trans)
  qed
qed

text \<open>One round of the outer loop, with its two halves in the order in which they are sorted.\<close>

lemma quicksort_round:
  assumes "tail - head > 1" "- 1 \<le> head" "tail < int (length xs)"
  obtains ys zs h t where "partition_loop C (key_of C (xs ! nat tail)) xs head tail = (ys, h, t)" "zs = swap_items h tail ys"
    "rearr head tail xs zs" "head < h" "h \<le> tail" "t < tail" "t \<le> h" "h \<le> t + 1" "length ys = length xs"
    "rearr head (tail - 1) xs ys"
    "quicksort_loop C stack xs head tail =
      (let (lo1, hi1, lo2, hi2) = (if t - head < tail - h then (head, t, h, tail) else (h, tail, head, t))
       in case (if stack = 0 then (Inl RuntimeError, zs) else quicksort_loop C (stack - 1) zs lo1 hi1) of
            (Inl err, ws) \<Rightarrow> (Inl err, ws)
          | (Inr _, ws) \<Rightarrow> quicksort_loop C stack ws lo2 hi2)"
proof -
  obtain ys h t where p: "partition_loop C (key_of C (xs ! nat tail)) xs head tail = (ys, h, t)" by (metis prod_cases3)
  let ?zs = "swap_items h tail ys"
  have r: "rearr head (tail - 1) xs ys \<and> head < h \<and> h \<le> tail \<and> t < tail \<and> t \<le> h \<and> h \<le> t + 1"
    by (rule partition_rearr [OF p]) (use assms in auto)
  then have l: "length ys = length xs" using rearr_length by blast
  have "rearr head tail ys ?zs" by (rule rearr_swap) (use r assms l in auto)
  moreover have "rearr head tail xs ys" by (rule rearr_mono [of head "tail - 1"]) (use r in simp_all)
  ultimately have z: "rearr head tail xs ?zs" using rearr_trans by blast
  have run: "quicksort_loop C stack xs head tail =
      (let (lo1, hi1, lo2, hi2) = (if t - head < tail - h then (head, t, h, tail) else (h, tail, head, t))
       in case (if stack = 0 then (Inl RuntimeError, ?zs) else quicksort_loop C (stack - 1) ?zs lo1 hi1) of
            (Inl err, ws) \<Rightarrow> (Inl err, ws)
          | (Inr _, ws) \<Rightarrow> quicksort_loop C stack ws lo2 hi2)"
    unfolding quicksort_loop.simps [of C stack xs head tail] Let_def p fst_conv snd_conv using assms(1) by simp
  show ?thesis by (rule that [OF p refl z _ _ _ _ _ l _ run]) (use r in auto)
qed

lemma quicksort_idle: "tail - head \<le> 1 \<Longrightarrow> quicksort_loop C stack xs head tail = (Inr (), xs)"
  by (subst quicksort_loop.simps) simp

text \<open>A range shorter than \<open>2 ^ (stack + 1)\<close> never runs out of stack.\<close>

lemma quicksort_rearr:
  assumes "- 1 \<le> head" "tail < int (length xs)"
  shows "\<exists>r ys. quicksort_loop C stack xs head tail = (r, ys) \<and> rearr head tail xs ys \<and>
    (r = Inr () \<or> r = Inl RuntimeError) \<and> (tail - head < 2 ^ (stack + 1) \<longrightarrow> r = Inr ())"
  using assms
proof (induction "nat (tail - head)" arbitrary: stack xs head tail rule: less_induct)
  case less
  show ?case
  proof (cases "tail - head > 1")
    case False
    then show ?thesis by (simp add: quicksort_idle)
  next
    case True
    obtain ys zs h t where R: "zs = swap_items h tail ys" "rearr head tail xs zs" "head < h" "h \<le> tail" "t < tail" "t \<le> h" "h \<le> t + 1"
      "quicksort_loop C stack xs head tail =
      (let (lo1, hi1, lo2, hi2) = (if t - head < tail - h then (head, t, h, tail) else (h, tail, head, t))
       in case (if stack = 0 then (Inl RuntimeError, zs) else quicksort_loop C (stack - 1) zs lo1 hi1) of
            (Inl err, ws) \<Rightarrow> (Inl err, ws)
          | (Inr _, ws) \<Rightarrow> quicksort_loop C stack ws lo2 hi2)"
      by (rule quicksort_round [OF True less.prems])
    obtain lo1 hi1 lo2 hi2 where parts: "(if t - head < tail - h then (head, t, h, tail) else (h, tail, head, t)) = (lo1, hi1, lo2, hi2)"
      by (metis prod_cases4)
    have b: "head \<le> lo1" "hi1 \<le> tail" "head \<le> lo2" "hi2 \<le> tail" "nat (hi1 - lo1) < nat (tail - head)" "nat (hi2 - lo2) < nat (tail - head)"
      "2 * (hi1 - lo1) \<le> tail - head" "hi2 - lo2 < tail - head"
      using parts R(3-7) True by (auto split: if_splits)
    have lz: "length zs = length xs" by (rule rearr_length [OF R(2)])
    show ?thesis
    proof (cases "stack = 0")
      case True
      then have "quicksort_loop C stack xs head tail = (Inl RuntimeError, zs)" using R(8) parts by simp
      then show ?thesis using R(2) \<open>tail - head > 1\<close> True by simp
    next
      case False
      have "\<exists>r ws. quicksort_loop C (stack - 1) zs lo1 hi1 = (r, ws) \<and> rearr lo1 hi1 zs ws \<and>
          (r = Inr () \<or> r = Inl RuntimeError) \<and> (hi1 - lo1 < 2 ^ (stack - 1 + 1) \<longrightarrow> r = Inr ())"
        by (rule less.hyps) (use b less.prems lz in auto)
      then obtain r1 ws where W: "quicksort_loop C (stack - 1) zs lo1 hi1 = (r1, ws)" "rearr lo1 hi1 zs ws"
        "r1 = Inr () \<or> r1 = Inl RuntimeError" "hi1 - lo1 < 2 ^ stack \<Longrightarrow> r1 = Inr ()" using False by auto
      have rw: "rearr head tail xs ws" by (rule rearr_trans [OF R(2) rearr_mono [OF W(2) b(1,2)]])
      have run: "quicksort_loop C stack xs head tail = (case (r1, ws) of (Inl err, ws) \<Rightarrow> (Inl err, ws)
          | (Inr _, ws) \<Rightarrow> quicksort_loop C stack ws lo2 hi2)" using R(8) parts W(1) False by simp
      have small: "hi1 - lo1 < 2 ^ stack" if "tail - head < 2 ^ (stack + 1)" using that b(7) by simp
      show ?thesis
      proof (cases "r1 = Inr ()")
        case True
        have "\<exists>r us. quicksort_loop C stack ws lo2 hi2 = (r, us) \<and> rearr lo2 hi2 ws us \<and>
            (r = Inr () \<or> r = Inl RuntimeError) \<and> (hi2 - lo2 < 2 ^ (stack + 1) \<longrightarrow> r = Inr ())"
          by (rule less.hyps) (use b less.prems rearr_length [OF rw] in auto)
        then obtain r us where U: "quicksort_loop C stack ws lo2 hi2 = (r, us)" "rearr lo2 hi2 ws us"
          "r = Inr () \<or> r = Inl RuntimeError" "hi2 - lo2 < 2 ^ (stack + 1) \<longrightarrow> r = Inr ()" by blast
        have "rearr head tail xs us" by (rule rearr_trans [OF rw rearr_mono [OF U(2) b(3,4)]])
        then show ?thesis using run True U b(8) by auto
      next
        case False
        then show ?thesis using run rw W(3,4) small by auto
      qed
    qed
  qed
qed

section \<open>In order\<close>

text \<open>What sorting needs of the answers: \<open>L a b\<close> says that the scan goes on over \<open>a\<close> on the left of the
  pivot \<open>b\<close>, or over \<open>b\<close> on the right of \<open>a\<close>.\<close>

locale sort_order =
  fixes L :: "mp_obj_t \<Rightarrow> mp_obj_t \<Rightarrow> bool" and le :: "mp_obj_t \<Rightarrow> mp_obj_t \<Rightarrow> bool"
  assumes goes_on: "L a b \<Longrightarrow> le a b"
    and stops: "\<not> L a b \<Longrightarrow> le b a"
    and trans: "le a b \<Longrightarrow> le b c \<Longrightarrow> le a c"

definition answers :: "sort_env \<Rightarrow> (mp_obj_t \<Rightarrow> mp_obj_t \<Rightarrow> bool) \<Rightarrow> bool" where
  "answers C L \<longleftrightarrow> (\<forall>a b. (less_result C (key_of C a) (key_of C b) = binop_less_result C) = L a b)"

definition ordered_range :: "(mp_obj_t \<Rightarrow> mp_obj_t \<Rightarrow> bool) \<Rightarrow> int \<Rightarrow> int \<Rightarrow> mp_obj_t list \<Rightarrow> bool" where
  "ordered_range le lo hi xs \<longleftrightarrow> (\<forall>p q. lo < p \<and> p < q \<and> q \<le> hi \<longrightarrow> le (xs ! nat p) (xs ! nat q))"

lemma ordered_beside:
  assumes "rearr lo hi xs ys" "ordered_range le a b xs" "- 1 \<le> a" "b < int (length xs)" "b \<le> lo \<or> hi \<le> a"
  shows "ordered_range le a b ys"
proof -
  have "ys ! nat p = xs ! nat p" if "a < p" "p \<le> b" for p
    by (rule rearr_outside [OF assms(1)]) (use that assms(3-5) in auto)
  then show ?thesis using assms(2) by (simp add: ordered_range_def)
qed

context sort_order
begin

lemma refl_le: "le a a"
  using goes_on stops by blast

text \<open>The invariant of the partition: what lies to the left of \<open>h\<close> is at most the pivot, what lies to the
  right of \<open>t\<close> at least.\<close>

lemma partition_splits:
  "partition_loop C (key_of C v) xs h t = (ys, h', t') \<Longrightarrow> answers C L \<Longrightarrow> head \<le> h \<Longrightarrow> h < t \<Longrightarrow> t \<le> tail \<Longrightarrow> - 1 \<le> head \<Longrightarrow>
   tail < int (length xs) \<Longrightarrow> \<forall>p. head < p \<and> p \<le> h \<longrightarrow> le (xs ! nat p) v \<Longrightarrow> \<forall>p. t \<le> p \<and> p < tail \<longrightarrow> le v (xs ! nat p) \<Longrightarrow>
   (\<forall>p. head < p \<and> p < h' \<longrightarrow> le (ys ! nat p) v) \<and> (\<forall>p. h' \<le> p \<and> p < tail \<longrightarrow> le v (ys ! nat p))"
proof (induction C "key_of C v" xs h t rule: partition_loop.induct)
  case (1 C xs h t)
  define h1 where "h1 = scan_up (\<lambda>x. less_result C (key_of C x) (key_of C v) = binop_less_result C) xs h t"
  define t1 where "t1 = scan_down (\<lambda>x. less_result C (key_of C v) (key_of C x) = binop_less_result C) xs h1 t"
  have A: "less_result C (key_of C a) (key_of C b) = binop_less_result C \<longleftrightarrow> L a b" for a b
    using "1.prems"(2) by (simp add: answers_def)
  note up = scan_up_ok [of h "\<lambda>x. less_result C (key_of C x) (key_of C v) = binop_less_result C" xs t, folded h1_def, unfolded A]
  note down = scan_down_ok [of "\<lambda>x. less_result C (key_of C v) (key_of C x) = binop_less_result C" xs h1 t, folded t1_def, unfolded A]
  have s: "h < h1" "h1 \<le> t" using up "1.prems"(4) by simp_all
  have d: "t1 < t" "h1 < t \<longrightarrow> h1 \<le> t1" "h1 = t \<longrightarrow> t1 = t - 1" using down by simp_all
  have e: "partition_loop C (key_of C v) xs h t = (if h1 \<ge> t1 then (xs, h1, t1) else partition_loop C (key_of C v) (swap_items h1 t1 xs) h1 t1)"
    unfolding h1_def t1_def by (subst partition_loop.simps) (simp add: Let_def)
  have left: "le (xs ! nat p) v" if "head < p" "p < h1" for p
    using that "1.prems"(8) up goes_on by (cases "p \<le> h") (simp_all add: not_le)
  have right: "le v (xs ! nat p)" if "t1 < p" "p < tail" for p
    using that "1.prems"(9) down goes_on by (cases "t \<le> p") (simp_all add: not_le)
  have at_h: "le v (xs ! nat h1)" if "h1 < t" using up stops that by blast
  show ?case
  proof (cases "h1 \<ge> t1")
    case True
    then have r: "ys = xs" "h' = h1" using e "1.prems"(1) by simp_all
    have "le v (xs ! nat p)" if p: "h1 \<le> p" "p < tail" for p
    proof (cases "t1 < p")
      case False
      then have "p = h1" "h1 < t" using p True d by simp_all
      then show ?thesis using at_h by simp
    qed (use right p in simp)
    then show ?thesis using r left by simp
  next
    case False
    let ?zs = "swap_items h1 t1 xs"
    have b: "0 \<le> h1" "0 \<le> t1" "h1 < int (length xs)" "t1 < int (length xs)" using s d False "1.prems"(3-7) by linarith+
    note z = swap_at [OF b]
    have at_t: "le (xs ! nat t1) v" using down stops False by simp
    show ?thesis
    proof (rule "1.hyps" [OF h1_def t1_def False])
      show "partition_loop C (key_of C v) ?zs h1 t1 = (ys, h', t')" using e False "1.prems"(1) by simp
      show "tail < int (length ?zs)" using "1.prems"(7) by (simp add: swap_items_def)
      show "\<forall>p. head < p \<and> p \<le> h1 \<longrightarrow> le (?zs ! nat p) v"
      proof (intro allI impI)
        fix p assume p: "head < p \<and> p \<le> h1"
        then have "0 \<le> p" using "1.prems"(6) by simp
        then show "le (?zs ! nat p) v" using p z [of p] False at_t left [of p] by (cases "p = h1") auto
      qed
      show "\<forall>p. t1 \<le> p \<and> p < tail \<longrightarrow> le v (?zs ! nat p)"
      proof (intro allI impI)
        fix p assume p: "t1 \<le> p \<and> p < tail"
        then have "0 \<le> p" using b(2) by simp
        moreover have "le v (xs ! nat h1)" using at_h False d by linarith
        ultimately show "le v (?zs ! nat p)" using p z [of p] False right [of p] by (cases "p = t1") auto
      qed
    qed (use s d False "1.prems"(2-6) in \<open>linarith | assumption\<close>)+
  qed
qed

lemma ordered_join:
  assumes "head < h" "h \<le> tail" "t \<le> h" "h \<le> t + 1" "\<forall>p. head < p \<and> p \<le> h \<longrightarrow> le (xs ! nat p) v" "\<forall>p. h < p \<and> p \<le> tail \<longrightarrow> le v (xs ! nat p)"
    and "ordered_range le head t xs" "ordered_range le h tail xs" "t < h \<Longrightarrow> xs ! nat h = v"
  shows "ordered_range le head tail xs"
  unfolding ordered_range_def
proof (intro allI impI)
  fix p q assume pq: "head < p \<and> p < q \<and> q \<le> tail"
  consider "q \<le> t" | "h < p" | "p \<le> h" "h < q" | "p \<le> h" "q = h" "t < h" using pq assms(3,4) by linarith
  then show "le (xs ! nat p) (xs ! nat q)"
  proof cases
    case 3
    then show ?thesis using trans assms(5,6) pq by blast
  next
    case 4
    then show ?thesis using assms(5,9) pq by simp
  qed (use assms(7,8) pq in \<open>auto simp: ordered_range_def\<close>)
qed

lemma quicksort_sorts:
  assumes "answers C L" "- 1 \<le> head" "tail < int (length xs)" "quicksort_loop C stack xs head tail = (Inr (), ys)"
  shows "ordered_range le head tail ys"
  using assms(2-4)
proof (induction "nat (tail - head)" arbitrary: stack xs ys head tail rule: less_induct)
  case less
  show ?case
  proof (cases "tail - head > 1")
    case False
    then have "\<not> (head < p \<and> p < q \<and> q \<le> tail)" for p q by linarith
    then show ?thesis unfolding ordered_range_def by blast
  next
    case True
    define v where "v = xs ! nat tail"
    obtain us zs h t where R: "partition_loop C (key_of C (xs ! nat tail)) xs head tail = (us, h, t)" "zs = swap_items h tail us"
      "rearr head tail xs zs" "head < h" "h \<le> tail" "t < tail" "t \<le> h" "h \<le> t + 1" "length us = length xs" "rearr head (tail - 1) xs us"
      "quicksort_loop C stack xs head tail =
      (let (lo1, hi1, lo2, hi2) = (if t - head < tail - h then (head, t, h, tail) else (h, tail, head, t))
       in case (if stack = 0 then (Inl RuntimeError, zs) else quicksort_loop C (stack - 1) zs lo1 hi1) of
            (Inl err, ws) \<Rightarrow> (Inl err, ws)
          | (Inr _, ws) \<Rightarrow> quicksort_loop C stack ws lo2 hi2)"
      by (rule quicksort_round [OF True less.prems(1,2)])
    have split: "(\<forall>p. head < p \<and> p < h \<longrightarrow> le (us ! nat p) v) \<and> (\<forall>p. h \<le> p \<and> p < tail \<longrightarrow> le v (us ! nat p))"
      by (rule partition_splits [OF R(1) [folded v_def] assms(1)]) (use True less.prems in auto)
    have b: "0 \<le> h" "0 \<le> tail" "h < int (length us)" "tail < int (length us)" using R(4-9) less.prems by linarith+
    note z = swap_at [OF b, folded R(2)]
    have last: "us ! nat tail = v" using rearr_outside [OF R(10), of tail] b R(9) by (simp add: v_def)
    have zl: "\<forall>p. head < p \<and> p \<le> h \<longrightarrow> le (zs ! nat p) v"
    proof (intro allI impI)
      fix p assume p: "head < p \<and> p \<le> h"
      then have "0 \<le> p" using less.prems(1) by simp
      then show "le (zs ! nat p) v" using z [of p] p split last refl_le R(5) by (cases "p = h") auto
    qed
    have zr: "\<forall>p. h < p \<and> p \<le> tail \<longrightarrow> le v (zs ! nat p)"
    proof (intro allI impI)
      fix p assume p: "h < p \<and> p \<le> tail"
      then have "0 \<le> p" using b(1) by simp
      then show "le v (zs ! nat p)" using z [of p] p split last by (cases "p = tail") auto
    qed
    have zh: "zs ! nat h = v" using z [of h] b(1) last by simp
    have lz: "length zs = length xs" by (rule rearr_length [OF R(3)])
    obtain lo1 hi1 lo2 hi2 where parts: "(if t - head < tail - h then (head, t, h, tail) else (h, tail, head, t)) = (lo1, hi1, lo2, hi2)"
      by (metis prod_cases4)
    then have halves: "(lo1, hi1, lo2, hi2) = (head, t, h, tail) \<or> (lo1, hi1, lo2, hi2) = (h, tail, head, t)" by (auto split: if_splits)
    then have b12: "- 1 \<le> lo1" "hi1 < int (length zs)" "- 1 \<le> lo2" "hi2 < int (length zs)" "hi1 \<le> lo2 \<or> hi2 \<le> lo1"
      "nat (hi1 - lo1) < nat (tail - head)" "nat (hi2 - lo2) < nat (tail - head)"
      using R(4-8) less.prems(1,2) lz True by auto
    have run: "quicksort_loop C stack xs head tail =
        (case (if stack = 0 then (Inl RuntimeError, zs) else quicksort_loop C (stack - 1) zs lo1 hi1) of
            (Inl err, ws) \<Rightarrow> (Inl err, ws)
          | (Inr _, ws) \<Rightarrow> quicksort_loop C stack ws lo2 hi2)" unfolding R(11) parts Let_def by simp
    have "stack \<noteq> 0"
    proof
      assume "stack = 0"
      then show False using run less.prems(3) by simp
    qed
    obtain r1 ws where W0: "quicksort_loop C (stack - 1) zs lo1 hi1 = (r1, ws)" by (metis surj_pair)
    have run': "quicksort_loop C stack xs head tail = (case (r1, ws) of (Inl err, ws) \<Rightarrow> (Inl err, ws)
          | (Inr _, ws) \<Rightarrow> quicksort_loop C stack ws lo2 hi2)"
      using run W0 \<open>stack \<noteq> 0\<close> by simp
    have W: "quicksort_loop C (stack - 1) zs lo1 hi1 = (Inr (), ws)" "quicksort_loop C stack ws lo2 hi2 = (Inr (), ys)"
      using run' less.prems(3) W0 by (cases r1; simp)+
    have r1: "rearr lo1 hi1 zs ws" using quicksort_rearr [OF b12(1,2), of C "stack - 1"] W(1) by simp
    have lw: "length ws = length zs" by (rule rearr_length [OF r1])
    have r2: "rearr lo2 hi2 ws ys" using quicksort_rearr [OF b12(3), of hi2 ws C stack] W(2) b12(4) lw by simp
    have o1: "ordered_range le lo1 hi1 ws" by (rule less.hyps [OF b12(6,1,2) W(1)])
    have o2: "ordered_range le lo2 hi2 ys" by (rule less.hyps [OF b12(7,3) _ W(2)]) (use b12(4) lw in simp)
    have o1': "ordered_range le lo1 hi1 ys"
      by (rule ordered_beside [OF r2 o1 b12(1)]) (use b12(2,5) lw in auto)
    have both: "\<forall>p. a < p \<and> p \<le> b \<longrightarrow> Q (ys ! nat p)"
      if "\<forall>p. a < p \<and> p \<le> b \<longrightarrow> Q (zs ! nat p)" "(a, b) = (head, h) \<or> (a, b) = (h, tail)" for a b Q
    proof -
      have ab: "- 1 \<le> a" "b < int (length zs)" "b < int (length ws)"
        "a \<le> lo1 \<and> hi1 \<le> b \<or> b \<le> lo1 \<or> hi1 \<le> a" "a \<le> lo2 \<and> hi2 \<le> b \<or> b \<le> lo2 \<or> hi2 \<le> a"
        using that(2) halves R(4-8) less.prems(1,2) lz lw by auto
      show ?thesis by (rule rearr_range [OF r2 ab(1,3,5) rearr_range [OF r1 ab(1,2,4) that(1)]])
    qed
    have mid: "ys ! nat h = v" if "t < h"
      using rearr_outside [OF r1, of h] rearr_outside [OF r2, of h] halves that b(1) R(4,5,9) less.prems(2) lz lw zh by auto
    show ?thesis
    proof (rule ordered_join [OF R(4,5,7,8)])
      show "\<forall>p. head < p \<and> p \<le> h \<longrightarrow> le (ys ! nat p) v" by (rule both [OF zl]) simp
      show "\<forall>p. h < p \<and> p \<le> tail \<longrightarrow> le v (ys ! nat p)" by (rule both [OF zr]) simp
      show "ordered_range le head t ys" "ordered_range le h tail ys" using halves o1' o2 by auto
    qed (rule mid)
  qed
qed

end

interpretation ascending: sort_order "\<lambda>a b. rank a < rank b" "\<lambda>a b. rank a \<le> rank b"
  for rank :: "mp_obj_t \<Rightarrow> 'a::linorder"
  by unfold_locales auto

interpretation descending: sort_order "\<lambda>a b. \<not> rank a < rank b" "\<lambda>a b. rank b \<le> rank a"
  for rank :: "mp_obj_t \<Rightarrow> 'a::linorder"
  by unfold_locales auto

end
