(* ===== verification/ListProps.thy ===== *)
theory ListProps
  imports ListOps ListSorted
begin

text \<open>
  The properties of lists: any sequence of calls does what the same calls do to a list of Python, what a
  slice selects, sorting, and the order of lists.
\<close>

section \<open>Sequences of calls\<close>

datatype list_call =
    Append mp_obj_t | Extend list_arg | Insert u32 mp_obj_t | Pop "int_arg option" | Remove mp_obj_t | Clear | Reverse
  | Subscript subscr_index subscr_value

definition no_value :: "'a list_result \<Rightarrow> subscr_result list_result" where
  "no_value r = seq_then r (\<lambda>_ s. (Inr NoneRes, s))"

definition call_list :: "list_env \<Rightarrow> mp_obj_t \<Rightarrow> list_call \<Rightarrow> mp_obj_list_t \<Rightarrow> subscr_result list_result option" where
  "call_list E none c l =
     (case c of
        Append x \<Rightarrow> Some (no_value (mp_obj_list_append E x l))
      | Extend a \<Rightarrow> Some (no_value (list_extend E a l))
      | Insert i x \<Rightarrow> Some (no_value (list_insert E i x none l))
      | Pop a \<Rightarrow> Some (seq_then (list_pop E a l) (\<lambda>x s. (Inr (ObjRes x), s)))
      | Remove v \<Rightarrow> Some (no_value (mp_obj_list_remove E v l))
      | Clear \<Rightarrow> Some (no_value (list_clear E l))
      | Reverse \<Rightarrow> Some (no_value (list_reverse l))
      | Subscript i v \<Rightarrow> list_subscr E i v l)"

text \<open>A sequence of calls, up to the first that runs out of memory.\<close>

fun call_lists :: "list_env \<Rightarrow> mp_obj_t \<Rightarrow> list_call list \<Rightarrow> mp_obj_list_t \<Rightarrow> ((seq_exn + subscr_result) list \<times> mp_obj_list_t) option" where
  "call_lists E none [] l = Some ([], l)"
| "call_lists E none (c # cs) l =
     (case call_list E none c l of
        None \<Rightarrow> None
      | Some (r, s) \<Rightarrow>
          if r = Inl MemoryError then Some ([r], s)
          else map_option (\<lambda>(rs, t). (r # rs, t)) (call_lists E none cs s))"

text \<open>The same on the list of the elements.\<close>

datatype py_value = PyNone | PyObj mp_obj_t | PyList "mp_obj_t list"

type_synonym py_outcome = "(seq_exn + py_value) \<times> mp_obj_t list"

fun py_remove :: "(mp_obj_t \<Rightarrow> mp_obj_t \<Rightarrow> bool) \<Rightarrow> mp_obj_t \<Rightarrow> mp_obj_t list \<Rightarrow> mp_obj_t list option" where
  "py_remove eq v [] = None"
| "py_remove eq v (x # xs) = (if eq x v then Some xs else map_option (Cons x) (py_remove eq v xs))"

text \<open>The positions that a slice selects, in the order of the slice.\<close>

definition slice_positions :: "int option \<Rightarrow> int option \<Rightarrow> int \<Rightarrow> 'a list \<Rightarrow> nat list" where
  "slice_positions lo hi k xs = py_slice lo hi k [0..<length xs]"

definition py_store_slice :: "mp_obj_slice_t \<Rightarrow> list_arg \<Rightarrow> mp_obj_t list \<Rightarrow> py_outcome" where
  "py_store_slice sl a xs =
     (case slice_args sl of
        Inl err \<Rightarrow> (Inl err, xs)
      | Inr (lo, hi, k) \<Rightarrow>
          (case arg_elems a xs of
             None \<Rightarrow> (Inl TypeError, xs)
           | Some ys \<Rightarrow>
               if k = 1 then let (i, j) = py_part lo hi (length xs) in (Inr PyNone, take i xs @ ys @ drop j xs)
               else let ps = slice_positions lo hi k xs
                    in if length ys \<noteq> length ps then (Inl ValueError, xs)
                       else (Inr PyNone, foldl (\<lambda>zs (p, y). zs[p := y]) xs (zip ps ys))))"

definition py_delete_slice :: "mp_obj_slice_t \<Rightarrow> mp_obj_t list \<Rightarrow> py_outcome" where
  "py_delete_slice sl xs =
     (case slice_args sl of
        Inl err \<Rightarrow> (Inl err, xs)
      | Inr (lo, hi, k) \<Rightarrow> (Inr PyNone, map (nth xs) (filter (\<lambda>p. p \<notin> set (slice_positions lo hi k xs)) [0..<length xs])))"

definition py_subscr :: "subscr_index \<Rightarrow> subscr_value \<Rightarrow> mp_obj_t list \<Rightarrow> py_outcome" where
  "py_subscr index v xs =
     (case index of
        SliceIndex sl \<Rightarrow>
          (case v of
             LoadItem \<Rightarrow> (case slice_args sl of Inl err \<Rightarrow> (Inl err, xs) | Inr (lo, hi, k) \<Rightarrow> (Inr (PyList (py_slice lo hi k xs)), xs))
           | DeleteItem \<Rightarrow> py_delete_slice sl xs
           | StoreItem a _ \<Rightarrow> py_store_slice sl a xs)
      | ItemIndex i \<Rightarrow>
          (case v of
             LoadItem \<Rightarrow> (case py_index (length xs) i of Inl err \<Rightarrow> (Inl err, xs) | Inr k \<Rightarrow> (Inr (PyObj (xs ! k)), xs))
           | DeleteItem \<Rightarrow> (case py_pop (Some i) xs of Inl err \<Rightarrow> (Inl err, xs) | Inr (_, ys) \<Rightarrow> (Inr PyNone, ys))
           | StoreItem _ x \<Rightarrow> (case py_index (length xs) i of Inl err \<Rightarrow> (Inl err, xs) | Inr k \<Rightarrow> (Inr PyNone, xs[k := x]))))"

definition py_call :: "(mp_obj_t \<Rightarrow> mp_obj_t \<Rightarrow> bool) \<Rightarrow> list_call \<Rightarrow> mp_obj_t list \<Rightarrow> py_outcome" where
  "py_call eq c xs =
     (case c of
        Append x \<Rightarrow> (Inr PyNone, xs @ [x])
      | Extend a \<Rightarrow> (case arg_elems a xs of None \<Rightarrow> (Inl TypeError, xs) | Some ys \<Rightarrow> (Inr PyNone, xs @ ys))
      | Insert i x \<Rightarrow> let k = clamp (sint (MP_OBJ_SMALL_INT_VALUE i)) (length xs) in (Inr PyNone, take k xs @ x # drop k xs)
      | Pop a \<Rightarrow> (case py_pop a xs of Inl err \<Rightarrow> (Inl err, xs) | Inr (x, ys) \<Rightarrow> (Inr (PyObj x), ys))
      | Remove v \<Rightarrow> (case py_remove eq v xs of None \<Rightarrow> (Inl ValueError, xs) | Some ys \<Rightarrow> (Inr PyNone, ys))
      | Clear \<Rightarrow> (Inr PyNone, [])
      | Reverse \<Rightarrow> (Inr PyNone, rev xs)
      | Subscript i v \<Rightarrow> py_subscr i v xs)"

text \<open>What the documented differences (\<open>tests/cpydiff/types_list_*\<close>) leave out: storing to and deleting a
  slice with a step, and storing a slice from an iterable that is no list or tuple.\<close>

definition unsupported :: "list_call \<Rightarrow> seq_exn option" where
  "unsupported c =
     (case c of
        Subscript (SliceIndex sl) v \<Rightarrow>
          (case slice_args sl of
             Inl _ \<Rightarrow> None
           | Inr (_, _, k) \<Rightarrow>
               (case v of
                  LoadItem \<Rightarrow> None
                | DeleteItem \<Rightarrow> if k = 1 then None else Some NotImplementedError
                | StoreItem a _ \<Rightarrow> if k \<noteq> 1 then Some NotImplementedError
                                 else (case a of ArgOther _ _ \<Rightarrow> Some TypeError | _ \<Rightarrow> None)))
      | _ \<Rightarrow> None)"

definition expected :: "(mp_obj_t \<Rightarrow> mp_obj_t \<Rightarrow> bool) \<Rightarrow> list_call \<Rightarrow> mp_obj_t list \<Rightarrow> py_outcome" where
  "expected eq c xs = (case unsupported c of None \<Rightarrow> py_call eq c xs | Some err \<Rightarrow> (Inl err, xs))"

fun expected_run :: "(mp_obj_t \<Rightarrow> mp_obj_t \<Rightarrow> bool) \<Rightarrow> list_call list \<Rightarrow> mp_obj_t list \<Rightarrow> (seq_exn + py_value) list \<times> mp_obj_t list" where
  "expected_run eq [] xs = ([], xs)"
| "expected_run eq (c # cs) xs =
     (case expected eq c xs of (r, ys) \<Rightarrow> (case expected_run eq cs ys of (rs, zs) \<Rightarrow> (r # rs, zs)))"

text \<open>The calls that are compared: integer arguments are machine integers, the position of \<open>insert\<close> is a
  small integer, \<open>pop\<close> and the deletion of an item have an integer, arrays in arguments can exist, and the
  step of a slice that is read is one that its index cannot overflow with.\<close>

definition machine_int :: "int_arg \<Rightarrow> bool" where
  "machine_int a \<longleftrightarrow> arg_int a \<noteq> Inl OverflowError"

definition is_int :: "int_arg \<Rightarrow> bool" where
  "is_int a \<longleftrightarrow> (case arg_int a of Inr (Some _) \<Rightarrow> True | _ \<Rightarrow> False)"

definition machine_slice :: "mp_obj_slice_t \<Rightarrow> bool" where
  "machine_slice sl \<longleftrightarrow> machine_int (slice_start sl) \<and> machine_int (slice_stop sl) \<and> machine_int (slice_step sl)"

definition call_fits :: "list_call \<Rightarrow> bool" where
  "call_fits c \<longleftrightarrow>
     (case c of
        Extend a \<Rightarrow> arg_fits a
      | Insert i _ \<Rightarrow> i AND 1 = 1
      | Pop (Some a) \<Rightarrow> is_int a
      | Subscript (ItemIndex a) v \<Rightarrow> (case v of DeleteItem \<Rightarrow> is_int a | _ \<Rightarrow> machine_int a)
      | Subscript (SliceIndex sl) LoadItem \<Rightarrow> machine_slice sl \<and> (case slice_args sl of Inl _ \<Rightarrow> True | Inr (_, _, k) \<Rightarrow> k \<le> 0x70000000)
      | Subscript (SliceIndex sl) DeleteItem \<Rightarrow> machine_slice sl
      | Subscript (SliceIndex sl) (StoreItem a _) \<Rightarrow> machine_slice sl \<and> arg_fits a
      | _ \<Rightarrow> True)"

fun py_of :: "subscr_result \<Rightarrow> py_value" where
  "py_of NoneRes = PyNone" | "py_of (ObjRes x) = PyObj x" | "py_of (NewList l) = PyList (elems l)"

definition outcome :: "seq_exn + subscr_result \<Rightarrow> seq_exn + py_value" where
  "outcome r = map_sum id py_of r"

lemma outcome_simps [simp]: "outcome (Inl err) = Inl err" "outcome (Inr v) = Inr (py_of v)"
  by (simp_all add: outcome_def)

text \<open>One call list_agrees, or runs out of memory.\<close>

definition list_agrees :: "subscr_result list_result option \<Rightarrow> py_outcome \<Rightarrow> bool" where
  "list_agrees r p \<longleftrightarrow>
     (\<exists>v s. r = Some (v, s) \<and> (v = Inl MemoryError \<and> list_shape s \<or> outcome v = fst p \<and> list_ok s \<and> elems s = snd p))"

lemma agrees_error: "list_ok l \<Longrightarrow> list_agrees (Some (Inl err, l)) (Inl err, elems l)"
  by (simp add: list_agrees_def)

lemma agrees_gives: "gives r x ys \<Longrightarrow> outcome (Inr (f x)) = v \<Longrightarrow> list_agrees (Some (seq_then r (\<lambda>x s. (Inr (f x), s)))) (v, ys)"
  by (auto simp: gives_def list_agrees_def)

lemma agrees_none: "gives r x ys \<Longrightarrow> list_agrees (Some (no_value r)) (Inr PyNone, ys)"
  unfolding no_value_def by (rule agrees_gives) simp_all

lemma no_value_error [simp]: "no_value (Inl err, l) = (Inl err, l)"
  by (simp add: no_value_def)

lemma remove_ok:
  "i + n = length xs \<Longrightarrow>
   (case index_loop eq xs v i n of
      None \<Rightarrow> py_remove eq v (drop i xs) = None
    | Some k \<Rightarrow> i \<le> k \<and> k < length xs \<and> py_remove eq v (drop i xs) = Some (take (k - i) (drop i xs) @ drop (k + 1) xs))"
proof (induction n arbitrary: i)
  case (Suc n)
  have d: "drop i xs = xs ! i # drop (Suc i) xs" using Suc.prems by (simp add: Cons_nth_drop_Suc)
  show ?case
  proof (cases "eq (xs ! i) v")
    case False
    have "Suc i + n = length xs" using Suc.prems by simp
    from Suc.IH [OF this] show ?thesis using False d by (auto simp: Suc_diff_le take_Cons' split: option.splits)
  qed (use d Suc.prems in simp)
qed simp

lemma list_remove_agrees:
  assumes "bounded E" "list_ok l"
  shows "list_agrees (Some (no_value (mp_obj_list_remove E v l)))
    (case py_remove (item_equal E) v (elems l) of None \<Rightarrow> (Inl ValueError, elems l) | Some ys \<Rightarrow> (Inr PyNone, ys))"
proof (cases "index_loop (item_equal E) (elems l) v 0 (length (elems l))")
  case None
  then show ?thesis using remove_ok [of 0 "length (elems l)" "elems l" "item_equal E" v] assms(2)
    by (simp add: mp_obj_list_remove_def list_index_def mp_seq_index_obj_def agrees_error)
next
  case (Some k)
  then have k: "k < length (elems l)" and r: "py_remove (item_equal E) v (elems l) = Some (take k (elems l) @ drop (k + 1) (elems l))"
    using remove_ok [of 0 "length (elems l)" "elems l" "item_equal E" v] by simp_all
  have n: "length (elems l) \<le> max_items" using list_okD(2,4,6) [OF assms(2)] by (simp add: elems_def)
  have "sint (of_nat k :: u32) = int k"
    using sint_of [of "int k"] k n by (simp add: max_items_def)
  then have "int_val (new_small (of_nat k)) = int k" using k n by (subst new_small_ok) (simp_all add: max_items_def)
  then have "py_index (length (elems l)) (IntArg (new_small (of_nat k))) = Inr k"
    using k n by (simp add: py_index_def arg_int_def Let_def max_items_def)
  then have "py_pop (Some (IntArg (new_small (of_nat k)))) (elems l) = Inr (elems l ! k, take k (elems l) @ drop (k + 1) (elems l))"
    using k by (auto simp: py_pop_def)
  then have "gives (list_pop E (Some (IntArg (new_small (of_nat k)))) l) (elems l ! k) (take k (elems l) @ drop (k + 1) (elems l))"
    using list_pop_gives [OF assms, of "Some (IntArg (new_small (of_nat k)))"] by simp
  then have "gives (mp_obj_list_remove E v l) () (take k (elems l) @ drop (k + 1) (elems l))"
    using Some by (auto simp: mp_obj_list_remove_def list_index_def mp_seq_index_obj_def gives_def)
  then show ?thesis unfolding r option.case by (rule agrees_none)
qed

lemmas expected_defs = expected_def unsupported_def py_call_def py_subscr_def

lemma array_elems_arg:
  "array_elems a xs = Some ys \<Longrightarrow> arg_elems a xs = Some ys \<and> (\<forall>f zs. a \<noteq> ArgOther f zs)"
  "array_elems a xs = None \<Longrightarrow> \<exists>f zs. a = ArgOther f zs"
  by (cases a; simp add: array_elems_def arg_elems_def)+

lemma slice_error_agrees:
  assumes "slice_args sl = Inl err" "list_ok l"
  shows "list_agrees (Some (no_value (list_store_slice E sl a l))) (Inl err, elems l)"
  using assms by (simp add: store_slice_errors agrees_error)

lemma slice_step_agrees:
  assumes "slice_args sl = Inr (lo, hi, k)" "k \<noteq> 1" "list_ok l"
  shows "list_agrees (Some (no_value (list_store_slice E sl a l))) (Inl NotImplementedError, elems l)"
  using assms by (simp add: store_slice_errors(2) [OF assms(3,1)] agrees_error)

lemma store_agrees:
  assumes "bounded E" "list_ok l" "arg_fits a"
  shows "list_agrees (Some (no_value (list_store_slice E sl a l))) (expected eq (Subscript (SliceIndex sl) (StoreItem a x)) (elems l))"
proof (cases "slice_args sl")
  case (Inl err)
  then show ?thesis using slice_error_agrees [OF Inl assms(2)] by (simp add: expected_defs py_store_slice_def)
next
  case (Inr p)
  obtain lo hi k where p: "slice_args sl = Inr (lo, hi, k)" using Inr by (cases p) simp
  show ?thesis
  proof (cases "k = 1")
    case False
    then show ?thesis using p slice_step_agrees [OF p False assms(2)] by (simp add: expected_defs)
  next
    case True
    note p' = p [unfolded True]
    show ?thesis
    proof (cases "array_elems a (elems l)")
      case None
      then obtain f zs where "a = ArgOther f zs" using array_elems_arg(2) by blast
      then show ?thesis using p' assms(2) store_slice_errors(3) [OF assms(2) p' None] by (simp add: expected_defs agrees_error)
    next
      case (Some ys)
      obtain i j where ij: "py_part lo hi (len l) = (i, j)" by (cases "py_part lo hi (len l)")
      have n: "length (elems l) = len l" using list_okD [OF assms(2)] by (simp add: elems_def)
      have "list_agrees (Some (no_value (list_store_slice E sl a l))) (Inr PyNone, store_part i j ys (elems l))"
        by (rule agrees_none) (rule store_slice_gives [OF assms(1,2) p' ij Some assms(3)])
      then show ?thesis using p' array_elems_arg(1) [OF Some] ij n
        by (cases a) (simp_all add: expected_defs py_store_slice_def store_part_def)
    qed
  qed
qed

lemma delete_part:
  assumes "py_part lo hi (length xs) = (i, j)"
  shows "map (nth xs) (filter (\<lambda>p. p \<notin> set (slice_positions lo hi 1 xs)) [0..<length xs]) = take i xs @ drop j xs"
proof -
  let ?n = "length xs"
  have ij: "i \<le> j" "j \<le> ?n" using fast_part [OF assms] by blast+
  have "slice_positions lo hi 1 xs = take (j - i) (drop i [0..<?n])"
    unfolding slice_positions_def by (rule py_slice_part) (simp add: assms)
  also have "\<dots> = [i..<j]" using ij by (intro nth_equalityI) auto
  finally have s: "set (slice_positions lo hi 1 xs) = {i..<j}" by simp
  have "[0..<?n] = [0..<i] @ [i..<j] @ [j..<?n]" using ij upt_add_eq_append [of 0 i "j - i"] upt_add_eq_append [of 0 j "?n - j"] by simp
  then have "filter (\<lambda>p. p \<notin> {i..<j}) [0..<?n] = [0..<i] @ [j..<?n]"
    by (auto simp: filter_empty_conv filter_id_conv)
  moreover have "map (nth xs) [0..<i] = take i xs" "map (nth xs) [j..<?n] = drop j xs" using ij by (auto intro: nth_equalityI)
  ultimately show ?thesis unfolding s by simp
qed

lemma delete_agrees:
  assumes "bounded E" "list_ok l"
  shows "list_agrees (Some (no_value (list_store_slice E sl (ArgTuple []) l))) (expected eq (Subscript (SliceIndex sl) DeleteItem) (elems l))"
proof (cases "slice_args sl")
  case (Inl err)
  then show ?thesis using slice_error_agrees [OF Inl assms(2)] by (simp add: expected_defs py_delete_slice_def)
next
  case (Inr p)
  obtain lo hi k where p: "slice_args sl = Inr (lo, hi, k)" using Inr by (cases p) simp
  show ?thesis
  proof (cases "k = 1")
    case False
    then show ?thesis using p slice_step_agrees [OF p False assms(2)] by (simp add: expected_defs)
  next
    case True
    note p' = p [unfolded True]
    obtain i j where ij: "py_part lo hi (len l) = (i, j)" by (cases "py_part lo hi (len l)")
    have n: "length (elems l) = len l" using list_okD [OF assms(2)] by (simp add: elems_def)
    have d: "arg_fits (ArgTuple [])" "array_elems (ArgTuple []) (elems l) = Some []" by (simp_all add: arg_fits_def array_elems_def)
    have "list_agrees (Some (no_value (list_store_slice E sl (ArgTuple []) l))) (Inr PyNone, store_part i j [] (elems l))"
      by (rule agrees_none) (rule store_slice_gives [OF assms p' ij d(2,1)])
    then show ?thesis using p' delete_part [of lo hi "elems l" i j] ij n
      by (simp add: expected_defs py_delete_slice_def store_part_def)
  qed
qed

lemma slice_args_range: "slice_args sl = Inr (lo, hi, k) \<Longrightarrow> \<bar>k\<bar> < 0x80000000"
proof -
  assume "slice_args sl = Inr (lo, hi, k)"
  then obtain s where s: "slice_val (slice_step sl) = Inr s" "k = (case s of None \<Rightarrow> 1 | Some k \<Rightarrow> k)"
    by (auto simp: slice_args_def Let_def split: sum.splits if_splits)
  then show ?thesis using arg_int_bounds [of "slice_step sl"]
    by (cases s) (auto simp: slice_val_def split: if_splits sum.splits option.splits)
qed

lemma load_agrees:
  assumes "bounded E" "list_ok l" "call_fits (Subscript (SliceIndex sl) LoadItem)"
  shows "list_agrees (list_subscr E (SliceIndex sl) LoadItem l) (expected eq (Subscript (SliceIndex sl) LoadItem) (elems l))"
proof (cases "slice_args sl")
  case (Inl err)
  then show ?thesis using assms(2) by (simp add: list_subscr_def list_load_slice_def fast_indexes_ok expected_defs agrees_error)
next
  case (Inr p)
  obtain lo hi k where p: "slice_args sl = Inr (lo, hi, k)" using Inr by (cases p) simp
  have "- 0x80000000 \<le> k" "k + int (len l) \<le> 0x80000000"
    using slice_args_range [OF p] assms(3) p list_okD(2,4) [OF assms(2)] by (simp_all add: call_fits_def max_items_def)
  from load_slice_makes [OF assms(1,2) p this] show ?thesis
    using p assms(2) by (auto simp: list_subscr_def expected_defs makes_def list_agrees_def list_okD)
qed

lemma item_agrees:
  assumes "bounded E" "list_ok l"
  shows "list_agrees (list_subscr E (ItemIndex i) v l) (py_subscr (ItemIndex i) v (elems l))"
proof -
  have n: "length (elems l) = len l" using list_okD [OF assms(2)] by (simp add: elems_def)
  show ?thesis
  proof (cases v)
    case DeleteItem
    show ?thesis
    proof (cases "py_pop (Some i) (elems l)")
      case (Inl err)
      then show ?thesis using list_pop_gives [OF assms, of "Some i"] assms(2) DeleteItem
        by (simp add: list_subscr_def py_subscr_def agrees_error)
    next
      case (Inr p)
      then show ?thesis using list_pop_gives [OF assms, of "Some i"] DeleteItem
        by (cases p) (auto simp: list_subscr_def py_subscr_def no_value_def dest: agrees_none)
    qed
  next
    case LoadItem
    show ?thesis
    proof (cases "py_index (length (elems l)) i")
      case (Inr k)
      have k: "k < len l" using py_index_bound [OF Inr] n by simp
      have kl: "k < length (items l)" using k list_okD(6) [OF assms(2)] by simp
      have "elems l ! k = items l ! k" using k by (simp add: elems_def)
      then show ?thesis using Inr LoadItem n get_one [OF kl] assms(2)
        by (simp add: list_subscr_def py_subscr_def get_index_ok list_agrees_def)
    qed (simp add: LoadItem list_subscr_def py_subscr_def get_index_ok n agrees_error [OF assms(2)])
  next
    case (StoreItem a x)
    show ?thesis
    proof (cases "py_index (length (elems l)) i")
      case (Inr k)
      have "list_ok (mk_list (alloc l) ((elems l)[k := x]))"
        using list_okD [OF assms(2)] n by (simp add: mk_list_ok)
      then show ?thesis using Inr StoreItem by (simp add: list_subscr_def py_subscr_def list_store_ok [OF assms(2)] list_agrees_def)
    qed (simp add: StoreItem list_subscr_def py_subscr_def list_store_ok [OF assms(2)] agrees_error [OF assms(2)])
  qed
qed

lemma call_agrees:
  assumes "bounded E" "list_ok l" "call_fits c"
  shows "list_agrees (call_list E none c l) (expected (item_equal E) c (elems l))"
proof (cases c)
  case (Append x)
  then show ?thesis using agrees_none [OF append_gives [OF assms(1,2)]] by (simp add: call_list_def expected_defs)
next
  case (Extend a)
  show ?thesis
  proof (cases "arg_elems a (elems l)")
    case None
    then show ?thesis using Extend assms(2) list_extend_type [OF None, of E l] by (simp add: call_list_def expected_defs agrees_error)
  next
    case (Some ys)
    then show ?thesis using Extend assms(3) agrees_none [OF list_extend_gives [OF assms(1,2) Some]]
      by (simp add: call_list_def expected_defs call_fits_def)
  qed
next
  case (Insert i x)
  then show ?thesis using agrees_none [OF list_insert_gives [OF assms(1,2), of i x none]] by (simp add: call_list_def expected_defs Let_def)
next
  case (Pop a)
  show ?thesis
  proof (cases "py_pop a (elems l)")
    case (Inl err)
    then show ?thesis using list_pop_gives [OF assms(1,2), of a] Pop assms(2) by (simp add: call_list_def expected_defs agrees_error)
  next
    case (Inr p)
    obtain x ys where p: "p = (x, ys)" by (cases p)
    then have "gives (list_pop E a l) x ys" using list_pop_gives [OF assms(1,2), of a] Inr by simp
    from agrees_gives [OF this, of ObjRes] show ?thesis using Pop Inr p by (simp add: call_list_def expected_defs)
  qed
next
  case (Remove v)
  then show ?thesis using list_remove_agrees [OF assms(1,2)] by (simp add: call_list_def expected_defs)
next
  case Clear
  then show ?thesis using agrees_none [OF list_clear_gives [OF assms(1,2)]] by (simp add: call_list_def expected_defs)
next
  case Reverse
  have "list_ok (mk_list (alloc l) (rev (elems l)))" using list_okD [OF assms(2)] list_ok_mk(2) [OF assms(2)] by (simp add: mk_list_ok)
  then show ?thesis using Reverse by (simp add: call_list_def expected_defs list_reverse_ok [OF assms(2)] no_value_def list_agrees_def)
next
  case (Subscript i v)
  show ?thesis
  proof (cases i)
    case (SliceIndex sl)
    show ?thesis
    proof (cases v)
      case LoadItem
      then show ?thesis using load_agrees [OF assms(1,2), of sl "item_equal E"] assms(3) Subscript SliceIndex by (simp add: call_list_def)
    next
      case DeleteItem
      then show ?thesis using delete_agrees [OF assms(1,2), of sl "item_equal E"] Subscript SliceIndex
        by (simp add: call_list_def list_subscr_def no_value_def)
    next
      case (StoreItem a x)
      have "arg_fits a" using assms(3) Subscript SliceIndex StoreItem by (simp add: call_fits_def)
      from store_agrees [OF assms(1,2) this, of sl "item_equal E" x] show ?thesis using Subscript SliceIndex StoreItem
        by (simp add: call_list_def list_subscr_def no_value_def)
    qed
  next
    case (ItemIndex k)
    then show ?thesis using item_agrees [OF assms(1,2)] Subscript by (simp add: call_list_def expected_defs)
  qed
qed

text \<open>C5: from a well-formed list any sequence of calls of the methods and subscripts of a list always
  ends, and does what the same calls do to a list of Python: it gives the same results, errors included,
  and the list that is left has the same elements and is well formed again, with no stale pointer behind
  its last element.  The documented differences are part of the expected outcome: storing to or deleting a
  slice with a step raises NotImplementedError, and storing a slice from an iterable that is no list or
  tuple raises TypeError; both leave the list alone.  The calls compared are those with integer arguments
  in the range of machine integers, a small integer as the position of an insertion, and a step of at most
  \<open>0x70000000\<close> in a slice that is read.  The allocator is any that grants no array of more than \<open>2 ^ 28\<close>
  elements, and the comparison ends with the first call that runs out of memory: up to there the
  results are the same, and the array is still as large as it claims.\<close>

theorem list_calls_refine:
  assumes "bounded E" "list_ok l" "\<forall>c \<in> set cs. call_fits c"
  shows "\<exists>rs s. call_lists E none cs l = Some (rs, s) \<and>
    (if Inl MemoryError \<in> set rs
     then list_shape s \<and> (\<exists>n. map outcome rs = take n (fst (expected_run (item_equal E) cs (elems l))) @ [Inl MemoryError])
     else list_ok s \<and> (map outcome rs, elems s) = expected_run (item_equal E) cs (elems l))"
  using assms(2,3)
proof (induction cs arbitrary: l)
  case (Cons c cs)
  obtain r ys where p: "expected (item_equal E) c (elems l) = (r, ys)" by fastforce
  obtain qs zs where q: "expected_run (item_equal E) cs ys = (qs, zs)" by fastforce
  have "list_agrees (call_list E none c l) (r, ys)" using call_agrees [OF assms(1) Cons.prems(1), of c none] Cons.prems(2) p by simp
  then obtain v s where v: "call_list E none c l = Some (v, s)" "v = Inl MemoryError \<and> list_shape s \<or> outcome v = r \<and> list_ok s \<and> elems s = ys"
    by (auto simp: list_agrees_def)
  show ?case
  proof (cases "v = Inl MemoryError")
    case True
    moreover have "list_shape s" using v(2) by (auto simp: list_okD)
    ultimately show ?thesis using v(1) by (auto intro: exI [of _ 0])
  next
    case False
    then have s: "outcome v = r" "list_ok s" "elems s = ys" using v(2) by simp_all
    have "\<forall>c \<in> set cs. call_fits c" using Cons.prems(2) by simp
    note Cons.IH [OF s(2) this, unfolded s(3) q fst_conv]
    then obtain rs t where R: "call_lists E none cs s = Some (rs, t)"
      "if Inl MemoryError \<in> set rs then list_shape t \<and> (\<exists>n. map outcome rs = take n qs @ [Inl MemoryError])
       else list_ok t \<and> (map outcome rs, elems t) = (qs, zs)" by blast
    have run: "call_lists E none (c # cs) l = Some (v # rs, t)" using v(1) R(1) False by simp
    have py: "expected_run (item_equal E) (c # cs) (elems l) = (r # qs, zs)" using p q by simp
    show ?thesis
    proof (cases "Inl MemoryError \<in> set rs")
      case True
      then obtain n where "map outcome rs = take n qs @ [Inl MemoryError]" using R(2) by auto
      then have "map outcome (v # rs) = take (Suc n) (r # qs) @ [Inl MemoryError]" using s(1) by simp
      then have "\<exists>n. map outcome (v # rs) = take n (r # qs) @ [Inl MemoryError]" by blast
      moreover have "list_shape t" "Inl MemoryError \<in> set (v # rs)" using R(2) True by simp_all
      ultimately show ?thesis unfolding py fst_conv using run
        by (intro exI [of _ "v # rs"] exI [of _ t]) (simp only: if_True simp_thms)
    next
      case False
      then show ?thesis using run py R(2) s(1) \<open>v \<noteq> Inl MemoryError\<close> by simp
    qed
  qed
qed simp

definition small_heap :: list_env where
  "small_heap = \<lparr>grants = (\<lambda>n. n \<le> 64), junk = (\<lambda>_. 9), item_equal = (=), item_rel = (\<lambda>_ _ _. False)\<rparr>"

lemma small_heap_bounded: "bounded small_heap"
  by (simp add: bounded_def small_heap_def max_items_def)

lemma replicate_small: "replicate 2 x = [x, x]" "replicate 3 x = [x, x, x]" "replicate 4 x = [x, x, x, x]"
  by (simp_all add: numeral_eq_Suc)

lemmas call_evaluate = call_list_def no_value_def mp_obj_list_append_def list_insert_def list_pop_def mp_obj_list_remove_def
  list_index_def mp_seq_index_obj_def list_reverse_def m_renew_def size_bytes_def mp_seq_clear_def put_items_def get_items_def
  move_items_def buf_read_def buf_write_def elems_def mk_list_def get_index_ok py_index_def arg_int_def new_small_ok
  small_heap_def Let_def replicate_small

theorem list_calls_refine_witness:
  "\<exists>rs s. call_lists small_heap 6 [Append 7, Insert 3 9, Pop None, Remove 5, Reverse] (mk_list 2 [3, 5]) = Some (rs, s) \<and>
    list_ok s \<and> map outcome rs = [Inr PyNone, Inr PyNone, Inr (PyObj 7), Inr PyNone, Inr PyNone] \<and> elems s = [9, 3]"
proof -
  let ?cs = "[Append 7, Insert 3 9, Pop None, Remove 5, Reverse]" and ?l = "mk_list 2 [3, 5]"
  have odd: "(3 :: u32) AND 1 = 1" by code_simp
  have ok: "list_ok ?l" "\<forall>c \<in> set ?cs. call_fits c" by (simp_all add: mk_list_ok max_items_def call_fits_def odd)
  have idx: "sint (MP_OBJ_SMALL_INT_VALUE 3) = 1" by (simp add: MP_OBJ_SMALL_INT_VALUE_def)
  have c: "call_list small_heap 6 (Append 7) ?l = Some (Inr NoneRes, mk_list 4 [3, 5, 7])" by (simp add: call_evaluate)
  have c2: "call_list small_heap 6 (Insert 3 9) (mk_list 4 [3, 5, 7]) = Some (Inr NoneRes, mk_list 4 [3, 9, 5, 7])"
     by (simp add: call_evaluate idx)
  have c3: "call_list small_heap 6 (Pop None) (mk_list 4 [3, 9, 5, 7]) = Some (Inr (ObjRes 7), mk_list 4 [3, 9, 5])"
     by (simp add: call_evaluate)
  have c4: "call_list small_heap 6 (Remove 5) (mk_list 4 [3, 9, 5]) = Some (Inr NoneRes, mk_list 4 [3, 9])"
     by (simp add: call_evaluate)
  have c5: "call_list small_heap 6 Reverse (mk_list 4 [3, 9]) = Some (Inr NoneRes, mk_list 4 [9, 3])"
     by (simp add: call_evaluate)
  have py: "expected_run (item_equal small_heap) ?cs [3, 5] =
      ([Inr PyNone, Inr PyNone, Inr (PyObj 7), Inr PyNone, Inr PyNone], [9, 3])"
    by (simp add: expected_def unsupported_def py_call_def py_pop_def clamp_def idx small_heap_def)
  have run: "call_lists small_heap 6 ?cs ?l = Some ([Inr NoneRes, Inr NoneRes, Inr (ObjRes 7), Inr NoneRes, Inr NoneRes], mk_list 4 [9, 3])"
    by (simp add: c c2 c3 c4 c5)
  from list_calls_refine [OF small_heap_bounded ok, of 6] show ?thesis unfolding mk_list_simps(4) py run by simp
qed

section \<open>Sorting\<close>

definition sort_answers :: "(mp_obj_t \<Rightarrow> mp_obj_t \<Rightarrow> mp_obj_t) \<Rightarrow> (mp_obj_t \<Rightarrow> mp_obj_t) option \<Rightarrow> bool \<Rightarrow> sort_env" where
  "sort_answers lt key down = \<lparr>less_result = lt, key_fn = key, binop_less_result = (if down then mp_const_false else mp_const_true)\<rparr>"

definition sort_key :: "(mp_obj_t \<Rightarrow> mp_obj_t) option \<Rightarrow> mp_obj_t \<Rightarrow> mp_obj_t" where
  "sort_key key x = (case key of None \<Rightarrow> x | Some f \<Rightarrow> f x)"

lemma sort_answers_key [simp]: "key_of (sort_answers lt key down) = sort_key key"
  by (simp add: fun_eq_iff key_of_def sort_key_def sort_answers_def)

lemma sort_run:
  assumes "0 < stack" "1 < len self"
  shows "mp_obj_list_sort lt key down stack self =
    (case quicksort_loop (sort_answers lt key down) (stack - 1) (items self) (- 1) (int (len self) - 1) of
       (r, its) \<Rightarrow> (r, self\<lparr>items := its\<rparr>))"
  using assms by (simp add: mp_obj_list_sort_def mp_quicksort_def sort_answers_def)

lemma rearr_take:
  assumes "rearr (- 1) (int n - 1) xs ys" "n \<le> length xs"
  shows "mset (take n ys) = mset (take n xs)" "drop n ys = drop n xs"
proof -
  have l: "length ys = length xs" by (rule rearr_length [OF assms(1)])
  show d: "drop n ys = drop n xs"
  proof (rule nth_equalityI)
    fix i assume "i < length (drop n ys)"
    then have i: "n + i < length xs" using l by simp
    have "ys ! nat (int (n + i)) = xs ! nat (int (n + i))" by (rule rearr_outside [OF assms(1)]) (use i in simp_all)
    then have "ys ! (n + i) = xs ! (n + i)" by (simp only: nat_int)
    then show "drop n ys ! i = drop n xs ! i" using i l by simp
  qed (simp add: l)
  have "mset ys = mset xs" using assms(1) by (simp add: rearr_def)
  then have "mset (take n ys @ drop n ys) = mset (take n xs @ drop n xs)" by simp
  then show "mset (take n ys) = mset (take n xs)" unfolding d by (simp del: append_take_drop_id)
qed

lemma ordered_take:
  assumes "ordered_range le (- 1) (int n - 1) ys"
  shows "sorted_wrt le (take n ys)"
  unfolding sorted_wrt_iff_nth_less
proof (intro allI impI)
  fix i j assume ij: "i < j" "j < length (take n ys)"
  have "- 1 < int i \<and> int i < int j \<and> int j \<le> int n - 1" using ij by simp
  then have "le (ys ! nat (int i)) (ys ! nat (int j))" using assms unfolding ordered_range_def by blast
  then show "le (take n ys ! i) (take n ys ! j)" using ij by simp
qed

lemma sort_rearranges:
  assumes "0 < stack" "len self \<le> length (items self)"
  shows "\<exists>r ys. mp_obj_list_sort lt key down stack self = (r, self\<lparr>items := ys\<rparr>) \<and>
    mset (take (len self) ys) = mset (elems self) \<and> drop (len self) ys = drop (len self) (items self) \<and>
    (r = Inr () \<or> r = Inl RuntimeError) \<and> (len self < 2 ^ stack \<longrightarrow> r = Inr ())"
proof (cases "1 < len self")
  case False
  then show ?thesis by (auto simp: mp_obj_list_sort_def elems_def intro!: exI [of _ "items self"])
next
  case True
  have b: "- 1 \<le> (- 1 :: int)" "int (len self) - 1 < int (length (items self))" using assms(2) True by simp_all
  have pow: "int (len self) - 1 - - 1 < 2 ^ (stack - 1 + 1) \<longleftrightarrow> len self < 2 ^ stack"
  proof -
    have "(2 :: int) ^ (stack - 1 + 1) = int (2 ^ stack)" using assms(1) by simp
    then show ?thesis by linarith
  qed
  from quicksort_rearr [OF b, of "sort_answers lt key down" "stack - 1"] obtain r ys where Q:
    "quicksort_loop (sort_answers lt key down) (stack - 1) (items self) (- 1) (int (len self) - 1) = (r, ys)"
    "rearr (- 1) (int (len self) - 1) (items self) ys" "r = Inr () \<or> r = Inl RuntimeError" "len self < 2 ^ stack \<longrightarrow> r = Inr ()"
    unfolding pow by blast
  have "mp_obj_list_sort lt key down stack self = (r, self\<lparr>items := ys\<rparr>)"
    unfolding sort_run [OF assms(1) True] Q(1) by simp
  moreover note rearr_take [OF Q(2) assms(2), folded elems_def]
  ultimately show ?thesis using Q(3,4) by blast
qed

text \<open>C21: sorting always ends, whatever the objects answer to less-than, also when the answers contradict
  each other: the elements are rearranged, nothing behind them is read or written, and the one possible
  error is an exhausted stack.  That cannot happen when the stack has room for more calls than the
  logarithm of the length, since the smaller half is sorted by the recursive call.\<close>

theorem list_sort_ends:
  assumes "0 < stack" "len self \<le> length (items self)"
  shows "\<exists>r ys. mp_obj_list_sort lt key down stack self = (r, self\<lparr>items := ys\<rparr>) \<and>
    mset (take (len self) ys) = mset (elems self) \<and> drop (len self) ys = drop (len self) (items self) \<and>
    (if len self < 2 ^ stack then r = Inr () else r \<in> {Inr (), Inl RuntimeError})"
proof -
  from sort_rearranges [OF assms, of lt key down] obtain r ys where
    R: "mp_obj_list_sort lt key down stack self = (r, self\<lparr>items := ys\<rparr>)"
      "mset (take (len self) ys) = mset (elems self)" "drop (len self) ys = drop (len self) (items self)"
    and r: "r = Inr () \<or> r = Inl RuntimeError" "len self < 2 ^ stack \<longrightarrow> r = Inr ()" by blast
  have "if len self < 2 ^ stack then r = Inr () else r \<in> {Inr (), Inl RuntimeError}" using r by simp
  with R show ?thesis by blast
qed

theorem list_sort_ends_witness:
  "\<exists>r ys. mp_obj_list_sort (\<lambda>_ _. mp_const_true) None False 2 (mk_list 4 [7, 3, 5]) = (r, (mk_list 4 [7, 3, 5])\<lparr>items := ys\<rparr>) \<and>
    mset (take 3 ys) = {#7, 3, 5#} \<and> r = Inr ()"
proof -
  have "0 < (2 :: nat)" "len (mk_list 4 [7, 3, 5]) \<le> length (items (mk_list 4 [7, 3, 5]))" by simp_all
  from list_sort_ends [OF this, of "\<lambda>_ _. mp_const_true" None False] obtain r ys where
    R: "mp_obj_list_sort (\<lambda>_ _. mp_const_true) None False 2 (mk_list 4 [7, 3, 5]) = (r, (mk_list 4 [7, 3, 5])\<lparr>items := ys\<rparr>)"
      "mset (take (len (mk_list 4 [7, 3, 5])) ys) = mset (elems (mk_list 4 [7, 3, 5]))"
      "if len (mk_list 4 [7, 3, 5]) < 2 ^ 2 then r = Inr () else r \<in> {Inr (), Inl RuntimeError}" by blast
  have "mset (take 3 ys) = {#7, 3, 5#}" "r = Inr ()" using R(2,3) unfolding mk_list_simps by (simp_all add: numeral_3_eq_3)
  with R(1) show ?thesis by blast
qed

lemma sorts_by:
  assumes "0 < stack" "list_ok l" "len l < 2 ^ stack"
    and "\<And>xs ys. quicksort_loop (sort_answers lt key down) (stack - 1) xs (- 1) (int (len l) - 1) = (Inr (), ys) \<Longrightarrow>
      length xs = length (items l) \<Longrightarrow> 1 < len l \<Longrightarrow> ordered_range le (- 1) (int (len l) - 1) ys"
  shows "\<exists>s. mp_obj_list_sort lt key down stack l = (Inr (), s) \<and> list_ok s \<and> mset (elems s) = mset (elems l) \<and> sorted_wrt le (elems s)"
proof -
  note n = list_okD [OF assms(2)]
  from sort_rearranges [OF assms(1) n(6), of lt key down] assms(3) obtain ys where Y:
    "mp_obj_list_sort lt key down stack l = (Inr (), l\<lparr>items := ys\<rparr>)" "mset (take (len l) ys) = mset (elems l)"
    "drop (len l) ys = drop (len l) (items l)" by blast
  have len: "length ys = length (items l)"
  proof -
    have "length (take (len l) ys) = length (elems l)" using Y(2) by (metis size_mset)
    then have "length (take (len l) ys @ drop (len l) ys) = length (take (len l) (items l) @ drop (len l) (items l))"
      using Y(3) by (simp only: length_append elems_def)
    then show ?thesis by simp
  qed
  have "list_ok (l\<lparr>items := ys\<rparr>)"
  proof -
    have "items l = elems l @ replicate (alloc l - len l) MP_OBJ_NULL" using assms(2) unfolding list_ok_layout by blast
    then have "drop (len l) (items l) = replicate (alloc l - len l) MP_OBJ_NULL" using n(6) by (metis append_eq_conv_conj elems_def length_take min_absorb2)
    then have "ys = take (len l) ys @ replicate (alloc l - len l) MP_OBJ_NULL" using Y(3) by (metis append_take_drop_id)
    then show ?thesis unfolding list_ok_layout using n len by (simp add: elems_def)
  qed
  moreover have "sorted_wrt le (elems (l\<lparr>items := ys\<rparr>))"
  proof (cases "1 < len l")
    case True
    obtain r its where q: "quicksort_loop (sort_answers lt key down) (stack - 1) (items l) (- 1) (int (len l) - 1) = (r, its)"
      by (metis surj_pair)
    have e: "r = Inr ()" "l\<lparr>items := its\<rparr> = l\<lparr>items := ys\<rparr>" using Y(1) unfolding sort_run [OF assms(1) True] q by simp_all
    have "items (l\<lparr>items := its\<rparr>) = items (l\<lparr>items := ys\<rparr>)" unfolding e(2) ..
    then have "its = ys" by simp
    from ordered_take [OF assms(4) [OF q [unfolded e(1) \<open>its = ys\<close>] refl True]] show ?thesis by (simp add: elems_def)
  next
    case False
    then have "length (elems (l\<lparr>items := ys\<rparr>)) \<le> 1" by (simp add: elems_def)
    then show ?thesis by (cases "elems (l\<lparr>items := ys\<rparr>)" rule: list.exhaust) auto
  qed
  ultimately show ?thesis using Y(1,2) by (simp add: elems_def)
qed

text \<open>C9: when the answers to less-than are those of a linear order on the keys, \<open>sort\<close> leaves a
  well-formed list with the same elements in ascending order of their keys, and with \<open>reverse\<close> in
  descending order, given stack for the logarithm of the length.\<close>

theorem list_sort_sorts:
  fixes rank :: "mp_obj_t \<Rightarrow> 'a::linorder"
  assumes "0 < stack" "list_ok l" "len l < 2 ^ stack"
    and "\<And>a b. lt a b = (if rank a < rank b then mp_const_true else mp_const_false)"
  shows "\<exists>s. mp_obj_list_sort lt key down stack l = (Inr (), s) \<and> list_ok s \<and> mset (elems s) = mset (elems l) \<and>
    sorted_wrt (\<lambda>a b. if down then rank (sort_key key b) \<le> rank (sort_key key a)
                      else rank (sort_key key a) \<le> rank (sort_key key b)) (elems s)"
proof (rule sorts_by [OF assms(1-3)])
  let ?C = "sort_answers lt key down"
  let ?rank = "\<lambda>x. rank (sort_key key x)"
  fix xs ys assume q: "quicksort_loop ?C (stack - 1) xs (- 1) (int (len l) - 1) = (Inr (), ys)" "length xs = length (items l)" "1 < len l"
  have tf: "mp_const_true \<noteq> mp_const_false" "mp_const_false \<noteq> mp_const_true"
    by (simp_all add: mp_const_true_def mp_const_false_def MP_OBJ_NEW_IMMEDIATE_OBJ_def)
  have b: "- 1 \<le> (- 1 :: int)" "int (len l) - 1 < int (length xs)" using list_okD(6) [OF assms(2)] q(2,3) by simp_all
  show "ordered_range (\<lambda>a b. if down then ?rank b \<le> ?rank a else ?rank a \<le> ?rank b) (- 1) (int (len l) - 1) ys"
  proof (cases down)
    case True
    have a: "answers ?C (\<lambda>a b. \<not> ?rank a < ?rank b)"
      using True tf by (simp add: answers_def) (simp add: sort_answers_def assms(4))
    show ?thesis using descending.quicksort_sorts [OF a b q(1)] True by simp
  next
    case False
    have a: "answers ?C (\<lambda>a b. ?rank a < ?rank b)"
      using False tf by (simp add: answers_def) (simp add: sort_answers_def assms(4))
    show ?thesis using ascending.quicksort_sorts [OF a b q(1)] False by simp
  qed
qed

theorem list_sort_sorts_witness:
  "\<exists>s. mp_obj_list_sort (\<lambda>a b. if a < b then mp_const_true else mp_const_false) None True 2 (mk_list 4 [5, 7, 3]) = (Inr (), s) \<and>
    list_ok s \<and> mset (elems s) = {#3, 5, 7#} \<and> sorted_wrt (\<lambda>a b. b \<le> a) (elems s)"
proof -
  have l: "0 < (2 :: nat)" "list_ok (mk_list 4 [5, 7, 3])" "len (mk_list 4 [5, 7, 3]) < 2 ^ 2" by (simp_all add: mk_list_ok max_items_def)
  show ?thesis
    using list_sort_sorts [OF l, of "\<lambda>a b. if a < b then mp_const_true else mp_const_false" id None True]
    by (simp add: sort_key_def add_mset_commute)
qed

section \<open>The order of lists\<close>

text \<open>C30: when the elements are compared by a value, lists are equal when the values are, and ordered
  lexicographically, shorter before longer, in all four directions; the list itself is left alone.  With
  anything but a list a list is not equal, and the order is left to the other operand.\<close>

theorem list_compare_lexicographic:
  assumes "compares (item_equal E) (item_rel E) val" "op \<in> {OP_LESS, OP_LESS_EQUAL, OP_MORE, OP_MORE_EQUAL, OP_EQUAL}"
  shows "list_binary_op E (LIST_CMP op) rhs l =
    (Inr (case list_operand rhs l of
            Some p \<Rightarrow> OpBool (lex_op op (map val (elems l)) (map val p))
          | None \<Rightarrow> if op = OP_EQUAL then OpBool False else OpNotSupported), l)"
  by (cases "list_operand rhs l") (simp_all add: list_binary_op_def cmp_objs_ok [OF assms])

definition by_address :: list_env where
  "by_address = small_heap\<lparr>item_rel := (\<lambda>op a b. case op of OP_MORE \<Rightarrow> b < a | OP_MORE_EQUAL \<Rightarrow> b \<le> a | _ \<Rightarrow> False)\<rparr>"

theorem list_compare_lexicographic_witness:
  "list_binary_op by_address (LIST_CMP OP_LESS) (ArgList [3, 7]) (mk_list 4 [3, 5, 9]) = (Inr (OpBool True), mk_list 4 [3, 5, 9])"
proof -
  have "compares (item_equal by_address) (item_rel by_address) unat"
    by (simp add: compares_def by_address_def small_heap_def word_less_nat_alt word_le_nat_alt word_unat_eq_iff)
  from list_compare_lexicographic [OF this, of OP_LESS "ArgList [3, 7]" "mk_list 4 [3, 5, 9]"] show ?thesis
    by (simp add: list_operand_def lex_op_def)
qed

section \<open>Overflow\<close>

lemma new_empty_list: "mp_obj_new_list E 0 None = (if grants E 16 then Inr (mk_list 4 []) else Inl MemoryError)"
  by (simp add: mp_obj_new_list_def filled_list_def list_new_def mp_obj_list_init_def m_new_def size_bytes_def
      mp_seq_clear_def put_items_def mk_list_def buf_write_def)

text \<open>C37: the index of a slice with a step is a machine integer that is not protected from overflow: when
  the start of a slice is inside the list, not at its front, and the step takes the sum beyond the
  largest machine integer, the loop goes on with a negative index and reads in front of the array.\<close>

theorem slice_step_overflow_reads:
  assumes "list_ok l" "slice_args sl = Inr (Some i, None, k)" "0 < i" "i < int (len l)" "0x80000000 \<le> i + k"
  shows "list_load_slice E sl l = Some (Inl (if grants E 16 then BadAccess else MemoryError))"
proof -
  let ?ix = "fast_slice (len l) (Some i) None k" and ?x = "items l ! nat i"
  have k: "0 < k" "k \<noteq> 1" "k < 0x80000000" using assms(3-5) list_okD(2,4) [OF assms(1)] slice_args_range [OF assms(2)]
    by (simp_all add: max_items_def)
  have ix: "start ?ix = i" "stop ?ix = int (len l)" "step ?ix = k"
    using k(1) assms(3,4) by (simp_all add: fast_slice_def bound_slice_def from_front_def Let_def)
  have n: "len l \<le> length (items l)" by (rule list_okD(6) [OF assms(1)])
  have "mp_int_add i k = sint (word_of_int (i + k - 0x100000000) :: u32)"
    unfolding mp_int_add_def by (rule arg_cong [of _ _ sint]) (simp add: word_of_int_eq_iff take_bit_eq_mod minus_mod_self2)
  also have "\<dots> = i + k - 0x100000000"
    using sint_of [of "i + k - 0x100000000"] assms(3-5) k(3) list_okD(2,4) [OF assms(1)] by (simp add: max_items_def)
  finally have wrap: "mp_int_add i k < 0" using k(3) assms(4) list_okD(2,4) [OF assms(1)] by (simp add: max_items_def)
  have app: "mp_obj_list_append E ?x (mk_list 4 []) = (Inr (), mk_list 4 [?x])"
    using put_spare [of "[]" "[?x]" 4] by (simp add: mp_obj_list_append_def mk_list_def)
  have "extract_loop E (items l) ?ix i (mk_list 4 []) = extract_loop E (items l) ?ix (mp_int_add i k) (mk_list 4 [?x])"
    using assms(3,4) n k(1) by (subst extract_loop.simps) (simp add: ix app)
  also have "\<dots> = Some (Inl BadAccess, mk_list 4 [?x])"
    using wrap k(1) by (subst extract_loop.simps) (simp add: ix)
  finally show ?thesis using k(2)
    by (simp add: list_load_slice_def fast_indexes_ok assms(2) mp_seq_extract_slice_def new_empty_list ix)
qed

theorem slice_step_overflow_reads_witness:
  "list_load_slice small_heap \<lparr>slice_start = BoolArg True, slice_stop = NoneArg,
     slice_step = IntArg (BigInt \<lparr>z_neg = False, z_fixed_dig = False, z_alloc = 2, z_dig = [0xFFFF, 0x7FFF]\<rparr>)\<rparr> (mk_list 4 [3, 5]) =
   Some (Inl BadAccess)" (is "list_load_slice _ ?sl ?l = _")
proof -
  have sl: "slice_args ?sl = Inr (Some 1, None, 0x7FFFFFFF)"
    by (simp add: slice_args_def slice_val_def arg_int_def mpz_val_def)
  have l: "list_ok ?l" "0 < (1 :: int)" "(1 :: int) < int (len ?l)" "(0x80000000 :: int) \<le> 1 + 0x7FFFFFFF"
    by (simp_all add: mk_list_ok max_items_def)
  from slice_step_overflow_reads [OF l(1) sl l(2-4), of small_heap] show ?thesis by (simp add: small_heap_def)
qed

text \<open>The copies of a list end behind the array when it is shorter than they are.\<close>

lemma multiply_behind:
  "off \<le> length dest \<Longrightarrow> length dest < off + length xs * k \<Longrightarrow> mp_seq_multiply xs k dest off = Inl BadAccess"
proof (induction k arbitrary: dest off)
  case (Suc k)
  show ?case
  proof (cases "off + length xs \<le> length dest")
    case True
    then have "length (buf_write dest off xs) = length dest" by (simp add: length_buf_write)
    then have "mp_seq_multiply xs k (buf_write dest off xs) (off + length xs) = Inl BadAccess"
      using Suc.prems True by (intro Suc.IH) (simp_all add: algebra_simps)
    then show ?thesis using True by simp
  qed simp
qed simp

text \<open>C38: the size of a product is computed in machine words and not checked: when it has \<open>2 ^ 30\<close> elements
  or more, the array that is allocated, if the allocator grants the remainder of the size, is shorter
  than what is written to it, and the copies of the elements overwrite what lies behind.\<close>

theorem list_multiply_overflow_writes:
  assumes "list_ok l" "arg_int n = Inr (Some k)" "0x40000000 \<le> int (len l) * k"
  defines "bytes \<equiv> size_bytes (max LIST_MIN_ALLOC (len l * nat k mod 2 ^ 32))"
  shows "list_binary_op E LIST_MULTIPLY (ArgOther n ys) l =
    (Inl (if grants E 16 \<and> (bytes = 0 \<or> grants E bytes) then BadAccess else MemoryError), l)"
proof -
  let ?m = "len l * nat k mod 2 ^ 32"
  have k: "0 < k" using assms(3) mult_nonneg_nonpos [of "int (len l)" k] by (cases "0 < k") simp_all
  have big: "0x40000000 \<le> len l * nat k" using assms(3) k by (simp flip: of_nat_le_iff [where 'a = int])
  have n: "length (elems l) = len l" using list_okD(6) [OF assms(1)] by (simp add: elems_def)
  have al: "(if ?m < LIST_MIN_ALLOC then LIST_MIN_ALLOC else ?m) = max LIST_MIN_ALLOC ?m" by simp
  let ?fill = "\<lambda>s. case mp_seq_multiply (elems l) (nat k) (items s) 0 of Inl err \<Rightarrow> (Inl err, s) | Inr its \<Rightarrow> (Inr (), s\<lparr>items := its\<rparr>)"
  have short: "?fill s = (Inl BadAccess, s)" if "length (items s) < 0x40000000" for s
    using multiply_behind [of 0 "items s" "elems l" "nat k"] that big n by simp
  have "filled_list E ?m ?fill = Inl (if grants E 16 \<and> (bytes = 0 \<or> grants E bytes) then BadAccess else MemoryError)"
  proof (cases "grants E 16 \<and> (bytes = 0 \<or> grants E bytes)")
    case True
    let ?its = "map (junk E) [0..<bytes div 4]"
    have its: "length ?its < 0x40000000" by (simp add: bytes_def size_bytes_def less_mult_imp_div_less)
    have new: "list_new E ?m = (case mp_seq_clear ?m (max LIST_MIN_ALLOC ?m) \<lparr>alloc = max LIST_MIN_ALLOC ?m, len = ?m, items = ?its\<rparr> of
        (Inl err, _) \<Rightarrow> Inl err | (Inr _, o1) \<Rightarrow> Inr o1)"
      unfolding list_new_def mp_obj_list_init_def Let_def al m_new_def bytes_def [symmetric] using True by simp
    show ?thesis
    proof (cases "mp_seq_clear ?m (max LIST_MIN_ALLOC ?m) \<lparr>alloc = max LIST_MIN_ALLOC ?m, len = ?m, items = ?its\<rparr>")
      case (Pair r s)
      have nw: "list_new E ?m = (case r of Inl err \<Rightarrow> Inl err | Inr _ \<Rightarrow> Inr s)" unfolding new Pair by (simp split: sum.split)
      have "r = Inl BadAccess \<or> r = Inr () \<and> length (items s) < 0x40000000"
        using its Pair by (auto simp: mp_seq_clear_def put_items_def length_buf_write split: if_splits)
      then show ?thesis
      proof
        assume "r = Inr () \<and> length (items s) < 0x40000000"
        then show ?thesis unfolding filled_list_def nw if_P [OF True] using short [of s] by simp
      next
        assume "r = Inl BadAccess"
        then show ?thesis unfolding filled_list_def nw if_P [OF True] by simp
      qed
    qed
  next
    case False
    then have "list_new E ?m = Inl MemoryError"
      unfolding list_new_def mp_obj_list_init_def Let_def al m_new_def bytes_def [symmetric] by auto
    then show ?thesis using False by (simp add: filled_list_def)
  qed
  then show ?thesis using k
    by (simp add: list_binary_op_def int_operand_def get_int_maybe_ok assms(2) new_result_def)
qed

theorem list_multiply_overflow_writes_witness:
  "list_binary_op small_heap LIST_MULTIPLY (ArgOther (IntArg (new_small 0x20000000)) None) (mk_list 8 [1, 3, 5, 7, 9, 11, 13, 15]) =
     (Inl BadAccess, mk_list 8 [1, 3, 5, 7, 9, 11, 13, 15])"
proof -
  have k: "arg_int (IntArg (new_small 0x20000000)) = Inr (Some 0x20000000)" using new_small_ok [of "0x20000000"] by (simp add: arg_int_def)
  have l: "list_ok (mk_list 8 [1, 3, 5, 7, 9, 11, 13, 15])"
    "0x40000000 \<le> int (len (mk_list 8 [1, 3, 5, 7, 9, 11, 13, 15])) * 0x20000000" by (simp_all add: mk_list_ok max_items_def)
  from list_multiply_overflow_writes [OF l(1) k l(2), of small_heap None] show ?thesis by (simp add: small_heap_def size_bytes_def)
qed

text \<open>\<open>insert\<close> takes its index for a small integer without a test, and the bits of True read as one are 15: so
  \<open>l.insert(True, x)\<close> does not insert at position 1.\<close>

lemma insert_at_true:
  assumes "bounded E" "list_ok l" "15 \<le> len l"
  shows "gives (list_insert E mp_const_true x none l) () (take 15 (elems l) @ x # drop 15 (elems l))"
proof -
  have "sint (MP_OBJ_SMALL_INT_VALUE mp_const_true) = 15"
    by (simp add: MP_OBJ_SMALL_INT_VALUE_def mp_const_true_def MP_OBJ_NEW_IMMEDIATE_OBJ_def)
  then have "clamp (sint (MP_OBJ_SMALL_INT_VALUE mp_const_true)) (length (elems l)) = 15"
    using assms(3) list_okD(6) [OF assms(2)] by (simp add: clamp_def elems_def)
  then show ?thesis using list_insert_gives [OF assms(1,2), of mp_const_true x none] by simp
qed

end
