(* ===== verification/Qstr.thy ===== *)
theory Qstr
  imports Prelude
begin

text \<open>
  Interned strings, \<open>py/qstr.c\<close>.  A qstr is the position of a string in a chain of pools, the newest
  first here as in the code; the two oldest are in ROM and one of them is sorted.  The characters of new
  strings are kept one behind the other in chunks of memory.  A pointer to characters is one into ROM, with
  what lies there, or an offset into a chunk.  What the allocator grants and what fresh memory holds is
  the record \<open>qstr_env\<close>.  The arrays of a pool are lists of their used part.
\<close>

section \<open>State\<close>

datatype char_ptr = RomPtr bytes | ChunkPtr nat nat

record qstr_pool_t =
  total_prev_len :: nat
  is_sorted :: bool
  pool_alloc :: nat
  hashes :: "u16 list"
  lengths :: "u8 list"
  qstrs :: "char_ptr list"

abbreviation pool_len :: "qstr_pool_t \<Rightarrow> nat" where "pool_len p \<equiv> length (qstrs p)"

record qstr_state =
  pools :: "qstr_pool_t list"
  chunks :: "bytes list"
  qstr_last_chunk :: "nat option"
  qstr_last_alloc :: nat
  qstr_last_used :: nat

record qstr_env =
  pool_granted :: "nat \<Rightarrow> bool"
  chunk_granted :: "nat \<Rightarrow> bool"
  resize_granted :: "nat \<Rightarrow> nat \<Rightarrow> bool"   \<comment> \<open>of a chunk, in place\<close>
  fresh_byte :: "nat \<Rightarrow> u8"
  fresh_bit :: bool                        \<comment> \<open>what \<open>is_sorted\<close> holds in a new pool\<close>

datatype qstr_exn = NameTooLong | QstrMemoryError | QstrBadAccess

type_synonym 'a qstr_result = "(qstr_exn + 'a) \<times> qstr_state"

abbreviation (input) MP_QSTRnull :: nat where "MP_QSTRnull \<equiv> 0"
abbreviation (input) MP_QSTR_empty :: nat where "MP_QSTR_empty \<equiv> 1"   \<comment> \<open>\<open>MP_QSTR_\<close>, the empty string\<close>

definition MICROPY_ALLOC_QSTR_ENTRIES_INIT :: nat where "MICROPY_ALLOC_QSTR_ENTRIES_INIT = 10"
definition MICROPY_ALLOC_QSTR_CHUNK_INIT :: nat where "MICROPY_ALLOC_QSTR_CHUNK_INIT = 128"

text \<open>The characters from a pointer on.\<close>

definition at_ptr :: "qstr_state \<Rightarrow> char_ptr \<Rightarrow> bytes" where
  "at_ptr st p = (case p of RomPtr bs \<Rightarrow> bs | ChunkPtr c off \<Rightarrow> if c < length (chunks st) then drop off (chunks st ! c) else [])"

section \<open>The hash\<close>

definition qstr_compute_hash :: "bytes \<Rightarrow> u32" where
  "qstr_compute_hash data =
     (let hash = fold (\<lambda>b h. (push_bit 5 h + h) XOR ucast b) data 5381 AND 0xFFFF
      in if hash = 0 then 1 else hash)"

section \<open>Searching\<close>

text \<open>\<open>None\<close> is a comparison that reads behind the memory of the second string.\<close>

fun strncmp :: "bytes \<Rightarrow> bytes \<Rightarrow> int option" where
  "strncmp [] q = Some 0"
| "strncmp (x # xs) [] = None"
| "strncmp (x # xs) (y # ys) = (if x \<noteq> y then Some (uint x - uint y) else if x = 0 then Some 0 else strncmp xs ys)"

function bisect :: "qstr_state \<Rightarrow> qstr_pool_t \<Rightarrow> bytes \<Rightarrow> nat \<Rightarrow> nat \<Rightarrow> (nat \<times> nat) option" where
  "bisect st pool str low high =
     (if high - low > 1 then
        let mid = (low + high) div 2
        in if mid \<ge> pool_len pool then None
           else case strncmp str (at_ptr st (qstrs pool ! mid)) of
             None \<Rightarrow> None
           | Some cmp \<Rightarrow> if cmp \<le> 0 then bisect st pool str low mid else bisect st pool str mid high
      else Some (low, high))"
  by pat_completeness auto
termination by (relation "measure (\<lambda>(_, _, _, low, high). high - low)") auto

declare bisect.simps [simp del]

text \<open>The last argument is the number of positions that are left.\<close>

fun qstr_scan :: "qstr_state \<Rightarrow> qstr_pool_t \<Rightarrow> bytes \<Rightarrow> u32 \<Rightarrow> nat \<Rightarrow> nat \<Rightarrow> qstr_exn + nat option" where
  "qstr_scan st pool str str_hash at 0 = Inr None"
| "qstr_scan st pool str str_hash at (Suc n) =
     (if at \<ge> pool_len pool then Inl QstrBadAccess
      else if ucast (hashes pool ! at) = str_hash \<and> unat (lengths pool ! at) = length str
      then (if length str > length (at_ptr st (qstrs pool ! at)) then Inl QstrBadAccess
            else if take (length str) (at_ptr st (qstrs pool ! at)) = str then Inr (Some at)
            else qstr_scan st pool str str_hash (at + 1) n)
      else qstr_scan st pool str str_hash (at + 1) n)"

text \<open>The bound \<open>pool->len - 1\<close> and its successor wrap around in an empty pool.\<close>

fun find_in :: "qstr_state \<Rightarrow> bytes \<Rightarrow> u32 \<Rightarrow> qstr_pool_t list \<Rightarrow> qstr_exn + nat" where
  "find_in st str str_hash [] = Inr MP_QSTRnull"
| "find_in st str str_hash (pool # prev) =
     (let high = (if pool_len pool = 0 then 2 ^ 32 - 1 else pool_len pool - 1)
      in case (if is_sorted pool then bisect st pool str 0 high else Some (0, high)) of
           None \<Rightarrow> Inl QstrBadAccess
         | Some (low, high) \<Rightarrow>
             (case qstr_scan st pool str str_hash low ((high + 1) mod 2 ^ 32 - low) of
                Inl err \<Rightarrow> Inl err
              | Inr (Some at) \<Rightarrow> Inr (total_prev_len pool + at)
              | Inr None \<Rightarrow> find_in st str str_hash prev))"

definition qstr_find_strn :: "qstr_state \<Rightarrow> bytes \<Rightarrow> qstr_exn + nat" where
  "qstr_find_strn st str = (if length str = 0 then Inr MP_QSTR_empty else find_in st str (qstr_compute_hash str) (pools st))"

section \<open>Looking up\<close>

text \<open>The pool of a qstr and the position in it.\<close>

fun find_qstr :: "qstr_pool_t list \<Rightarrow> nat \<Rightarrow> (qstr_pool_t \<times> nat) option" where
  "find_qstr [] q = None"
| "find_qstr (pool # prev) q =
     (if q < total_prev_len pool then find_qstr prev q
      else if q - total_prev_len pool < pool_len pool then Some (pool, q - total_prev_len pool) else None)"

definition qstr_hash :: "qstr_state \<Rightarrow> nat \<Rightarrow> u32 option" where
  "qstr_hash st q = map_option (\<lambda>(pool, at). ucast (hashes pool ! at)) (find_qstr (pools st) q)"

definition qstr_len :: "qstr_state \<Rightarrow> nat \<Rightarrow> nat option" where
  "qstr_len st q = map_option (\<lambda>(pool, at). unat (lengths pool ! at)) (find_qstr (pools st) q)"

definition qstr_str :: "qstr_state \<Rightarrow> nat \<Rightarrow> char_ptr option" where
  "qstr_str st q = map_option (\<lambda>(pool, at). qstrs pool ! at) (find_qstr (pools st) q)"

definition qstr_data :: "qstr_state \<Rightarrow> nat \<Rightarrow> (char_ptr \<times> nat) option" where
  "qstr_data st q = map_option (\<lambda>(pool, at). (qstrs pool ! at, unat (lengths pool ! at))) (find_qstr (pools st) q)"

section \<open>Adding\<close>

text \<open>Six words, then a pointer, a hash and a length for each entry.\<close>

definition pool_size :: "nat \<Rightarrow> nat" where
  "pool_size new_alloc = 24 + (4 + 2 + 1) * new_alloc"

definition qstr_add :: "qstr_env \<Rightarrow> nat \<Rightarrow> char_ptr \<Rightarrow> u32 \<Rightarrow> qstr_state \<Rightarrow> nat qstr_result" where
  "qstr_add E len q_ptr hash st =
     (let full = (case pools st of [] \<Rightarrow> True | last_pool # _ \<Rightarrow> pool_len last_pool \<ge> pool_alloc last_pool);
          new_alloc = max MICROPY_ALLOC_QSTR_ENTRIES_INIT (pool_alloc (hd (pools st)) * 2)
      in if full \<and> \<not> pool_granted E (pool_size new_alloc)
         then (Inl QstrMemoryError, st\<lparr>qstr_last_chunk := None\<rparr>)
         else
           let new_pool = \<lparr>total_prev_len = total_prev_len (hd (pools st)) + pool_len (hd (pools st)), is_sorted = fresh_bit E,
                           pool_alloc = new_alloc, hashes = [], lengths = [], qstrs = []\<rparr>;
               ps = (if full then new_pool # pools st else pools st);
               last_pool = hd ps;
               at = pool_len last_pool;
               last_pool1 = last_pool\<lparr>hashes := hashes last_pool @ [ucast hash], lengths := lengths last_pool @ [of_nat len],
                                     qstrs := qstrs last_pool @ [q_ptr]\<rparr>
           in (Inr (total_prev_len last_pool + at), st\<lparr>pools := last_pool1 # tl ps\<rparr>))"

text \<open>Room for \<open>n_bytes\<close> more in the last chunk: it is grown in place, or given up and cut to what is used.\<close>

definition grow_chunk :: "qstr_env \<Rightarrow> nat \<Rightarrow> qstr_state \<Rightarrow> qstr_state" where
  "grow_chunk E n_bytes st =
     (case qstr_last_chunk st of
        None \<Rightarrow> st
      | Some c \<Rightarrow>
          if qstr_last_used st + n_bytes > qstr_last_alloc st
          then (if resize_granted E c (qstr_last_alloc st + n_bytes)
                then st\<lparr>chunks := (chunks st)[c := chunks st ! c @ map (fresh_byte E) [qstr_last_alloc st..<qstr_last_alloc st + n_bytes]],
                        qstr_last_alloc := qstr_last_alloc st + n_bytes\<rparr>
                else st\<lparr>chunks := (if resize_granted E c (qstr_last_used st)
                                  then (chunks st)[c := take (qstr_last_used st) (chunks st ! c)] else chunks st),
                        qstr_last_chunk := None\<rparr>)
          else st)"

definition add_chunk :: "qstr_env \<Rightarrow> nat \<Rightarrow> qstr_state \<Rightarrow> qstr_state" where
  "add_chunk E al st =
     st\<lparr>chunks := chunks st @ [map (fresh_byte E) [0..<al]], qstr_last_chunk := Some (length (chunks st)),
        qstr_last_alloc := al, qstr_last_used := 0\<rparr>"

definition need_chunk :: "qstr_env \<Rightarrow> nat \<Rightarrow> qstr_state \<Rightarrow> unit qstr_result" where
  "need_chunk E n_bytes st =
     (case qstr_last_chunk st of
        Some _ \<Rightarrow> (Inr (), st)
      | None \<Rightarrow>
          let al = (if n_bytes < MICROPY_ALLOC_QSTR_CHUNK_INIT then MICROPY_ALLOC_QSTR_CHUNK_INIT else n_bytes)
          in if chunk_granted E al then (Inr (), add_chunk E al st)
             else if chunk_granted E n_bytes then (Inr (), add_chunk E n_bytes st)
             else (Inl QstrMemoryError, st))"

text \<open>The characters and their terminator go behind what is used.\<close>

definition store_chars :: "bytes \<Rightarrow> qstr_state \<Rightarrow> char_ptr qstr_result" where
  "store_chars str st =
     (case qstr_last_chunk st of
        None \<Rightarrow> (Inl QstrBadAccess, st)
      | Some c \<Rightarrow>
          let off = qstr_last_used st
          in if c < length (chunks st) \<and> off + length str + 1 \<le> length (chunks st ! c)
             then (Inr (ChunkPtr c off),
                   st\<lparr>qstr_last_used := off + (length str + 1), chunks := (chunks st)[c := buf_write (chunks st ! c) off (str @ [0])]\<rparr>)
             else (Inl QstrBadAccess, st\<lparr>qstr_last_used := off + (length str + 1)\<rparr>))"

text \<open>\<open>mem\<close> is what lies at the pointer \<open>str\<close>.\<close>

definition qstr_from_strn_helper :: "qstr_env \<Rightarrow> bytes \<Rightarrow> nat \<Rightarrow> bool \<Rightarrow> qstr_state \<Rightarrow> nat qstr_result" where
  "qstr_from_strn_helper E mem len data_is_static st =
     (if len > length mem then (Inl QstrBadAccess, st)
      else
        let str = take len mem
        in case qstr_find_strn st str of
             Inl err \<Rightarrow> (Inl err, st)
           | Inr q \<Rightarrow>
               if q \<noteq> MP_QSTRnull then (Inr q, st)
               else if len \<ge> 256 then (Inl NameTooLong, st)
               else if data_is_static then qstr_add E len (RomPtr mem) (qstr_compute_hash str) st
               else
                 (case need_chunk E (len + 1) (grow_chunk E (len + 1) st) of
                    (Inl err, st1) \<Rightarrow> (Inl err, st1)
                  | (Inr _, st1) \<Rightarrow>
                      (case store_chars str st1 of
                         (Inl err, st2) \<Rightarrow> (Inl err, st2)
                       | (Inr q_ptr, st2) \<Rightarrow> qstr_add E len q_ptr (qstr_compute_hash str) st2)))"

definition qstr_from_strn :: "qstr_env \<Rightarrow> bytes \<Rightarrow> nat \<Rightarrow> qstr_state \<Rightarrow> nat qstr_result" where
  "qstr_from_strn E mem len = qstr_from_strn_helper E mem len False"

definition qstr_from_strn_static :: "qstr_env \<Rightarrow> bytes \<Rightarrow> nat \<Rightarrow> qstr_state \<Rightarrow> nat qstr_result" where
  "qstr_from_strn_static E mem len = qstr_from_strn_helper E mem len True"

definition qstr_from_str :: "qstr_env \<Rightarrow> bytes \<Rightarrow> qstr_state \<Rightarrow> nat qstr_result" where
  "qstr_from_str E mem = qstr_from_strn E mem (length (takeWhile (\<lambda>b. b \<noteq> 0) mem))"

section \<open>Starting, and statistics\<close>

text \<open>The pools in ROM are generated; the last chunk is none.\<close>

definition qstr_init :: "qstr_pool_t list \<Rightarrow> qstr_state" where
  "qstr_init rom_pools = \<lparr>pools = rom_pools, chunks = [], qstr_last_chunk = None, qstr_last_alloc = 0, qstr_last_used = 0\<rparr>"

text \<open>The pools in front of those in ROM, of which there are \<open>n_rom\<close>; \<open>nbytes\<close> is \<open>gc_nbytes\<close> of a pool.\<close>

definition qstr_pool_info :: "nat \<Rightarrow> (qstr_pool_t \<Rightarrow> nat) \<Rightarrow> qstr_state \<Rightarrow> nat \<times> nat \<times> nat \<times> nat" where
  "qstr_pool_info n_rom nbytes st =
     (let ps = take (length (pools st) - n_rom) (pools st);
          (n_pool, n_qstr, n_str_data_bytes, n_total_bytes) =
            fold (\<lambda>pool (a, b, c, d).
                (a + 1, b + pool_len pool, c + sum_list (map (\<lambda>l. unat l + 1) (lengths pool)), d + nbytes pool)) ps (0, 0, 0, 0)
      in (n_pool, n_qstr, n_str_data_bytes, n_total_bytes + n_str_data_bytes))"

end
