(* ===== verification/QstrCorrect.thy ===== *)
theory QstrCorrect
  imports Qstr
begin

text \<open>
  The pools as one list of strings, \<open>names\<close>, in which a qstr is a position.  The invariant says that all
  pointers lead to terminated strings in memory that is not written any more, that no string is there
  twice, and that the pools marked as sorted are.
\<close>

section \<open>Strings in memory\<close>

text \<open>The part of a chunk that stays as it is.\<close>

definition keep :: "qstr_state \<Rightarrow> nat \<Rightarrow> nat" where
  "keep st c = (if qstr_last_chunk st = Some c then qstr_last_used st else length (chunks st ! c))"

definition mem_ok :: "qstr_state \<Rightarrow> bool" where
  "mem_ok st \<longleftrightarrow> (\<forall>c. qstr_last_chunk st = Some c \<longrightarrow>
     c < length (chunks st) \<and> length (chunks st ! c) = qstr_last_alloc st \<and> qstr_last_used st \<le> qstr_last_alloc st)"

definition ptr_ok :: "qstr_state \<Rightarrow> char_ptr \<Rightarrow> nat \<Rightarrow> bool" where
  "ptr_ok st p n \<longleftrightarrow>
     (case p of
        RomPtr bs \<Rightarrow> n < length bs \<and> bs ! n = 0
      | ChunkPtr c off \<Rightarrow> c < length (chunks st) \<and> off + n < keep st c \<and> chunks st ! c ! (off + n) = 0)"

lemma keep_le: "mem_ok st \<Longrightarrow> keep st c \<le> length (chunks st ! c)"
  by (auto simp: keep_def mem_ok_def)

lemma ptr_text:
  assumes "mem_ok st" "ptr_ok st p n"
  shows "n < length (at_ptr st p)" "at_ptr st p ! n = 0"
proof -
  have "n < length (at_ptr st p) \<and> at_ptr st p ! n = 0"
  proof (cases p)
    case (ChunkPtr c off)
    then have c: "c < length (chunks st)" "off + n < keep st c" "chunks st ! c ! (off + n) = 0" using assms(2) by (simp_all add: ptr_ok_def)
    then have "off + n < length (chunks st ! c)" using keep_le [OF assms(1), of c] by linarith
    then show ?thesis using ChunkPtr c by (simp add: at_ptr_def)
  qed (use assms(2) in \<open>simp add: ptr_ok_def at_ptr_def\<close>)
  then show "n < length (at_ptr st p)" "at_ptr st p ! n = 0" by simp_all
qed

text \<open>Memory that is only added to.\<close>

definition grows :: "qstr_state \<Rightarrow> qstr_state \<Rightarrow> bool" where
  "grows st st' \<longleftrightarrow> mem_ok st' \<and> pools st' = pools st \<and> length (chunks st) \<le> length (chunks st') \<and>
     (\<forall>c < length (chunks st). keep st c \<le> keep st' c \<and> take (keep st c) (chunks st' ! c) = take (keep st c) (chunks st ! c))"

lemma grows_refl: "mem_ok st \<Longrightarrow> grows st st"
  by (simp add: grows_def)

lemma grows_trans:
  assumes "grows st st'" "grows st' st''"
  shows "grows st st''"
proof -
  have "take (keep st c) (chunks st'' ! c) = take (keep st c) (chunks st ! c)" if c: "c < length (chunks st)" for c
  proof -
    have k: "keep st c \<le> keep st' c" and c': "c < length (chunks st')" using assms(1) c by (auto simp: grows_def)
    have "take (keep st' c) (chunks st'' ! c) = take (keep st' c) (chunks st' ! c)" using assms(2) c' by (simp add: grows_def)
    then have "take (keep st c) (take (keep st' c) (chunks st'' ! c)) = take (keep st c) (take (keep st' c) (chunks st' ! c))" by simp
    then have "take (keep st c) (chunks st'' ! c) = take (keep st c) (chunks st' ! c)" using k by (simp add: min_absorb1)
    then show ?thesis using assms(1) c by (simp add: grows_def)
  qed
  then show ?thesis using assms unfolding grows_def by (metis le_trans less_le_trans)
qed

lemma grows_ptr:
  assumes "mem_ok st" "grows st st'" "ptr_ok st p n"
  shows "ptr_ok st' p n" "take n (at_ptr st' p) = take n (at_ptr st p)"
proof -
  have both: "ptr_ok st' p n \<and> take n (at_ptr st' p) = take n (at_ptr st p)"
  proof (cases p)
    case (ChunkPtr c off)
    then have c: "c < length (chunks st)" "off + n < keep st c" "chunks st ! c ! (off + n) = 0" using assms(3) by (simp_all add: ptr_ok_def)
    have g: "c < length (chunks st')" "keep st c \<le> keep st' c" "take (keep st c) (chunks st' ! c) = take (keep st c) (chunks st ! c)"
      using assms(2) c(1) by (auto simp: grows_def)
    have "chunks st' ! c ! (off + n) = chunks st ! c ! (off + n)" using g(3) c(2) by (metis nth_take)
    moreover have "take n (drop off (take (keep st c) (chunks st' ! c))) = take n (drop off (take (keep st c) (chunks st ! c)))"
      using g(3) by simp
    then have "take n (drop off (chunks st' ! c)) = take n (drop off (chunks st ! c))"
      using c(2) by (simp add: drop_take min_absorb1)
    ultimately show ?thesis using ChunkPtr c g by (simp add: ptr_ok_def at_ptr_def)
  qed (use assms(3) in \<open>simp add: ptr_ok_def at_ptr_def\<close>)
  show "ptr_ok st' p n" "take n (at_ptr st' p) = take n (at_ptr st p)" using both by simp_all
qed

section \<open>The list of names\<close>

definition text_at :: "qstr_state \<Rightarrow> qstr_pool_t \<Rightarrow> nat \<Rightarrow> bytes" where
  "text_at st p i = take (unat (lengths p ! i)) (at_ptr st (qstrs p ! i))"

definition pool_texts :: "qstr_state \<Rightarrow> qstr_pool_t \<Rightarrow> bytes list" where
  "pool_texts st p = map (text_at st p) [0..<pool_len p]"

fun interned :: "qstr_state \<Rightarrow> qstr_pool_t list \<Rightarrow> bytes list" where
  "interned st [] = []"
| "interned st (p # ps) = interned st ps @ pool_texts st p"

definition entry_ok :: "qstr_state \<Rightarrow> qstr_pool_t \<Rightarrow> nat \<Rightarrow> bool" where
  "entry_ok st p i \<longleftrightarrow> ptr_ok st (qstrs p ! i) (unat (lengths p ! i)) \<and>
     (text_at st p i \<noteq> [] \<longrightarrow> ucast (hashes p ! i) = qstr_compute_hash (text_at st p i))"

definition pool_ok :: "qstr_state \<Rightarrow> qstr_pool_t \<Rightarrow> bool" where
  "pool_ok st p \<longleftrightarrow> 0 < pool_len p \<and> pool_len p < 2 ^ 31 \<and> pool_alloc p < 2 ^ 31 \<and>
     length (hashes p) = pool_len p \<and> length (lengths p) = pool_len p \<and> (\<forall>i < pool_len p. entry_ok st p i) \<and>
     (is_sorted p \<longrightarrow> pool_alloc p \<le> pool_len p \<and> (\<forall>t \<in> set (pool_texts st p). 0 \<notin> set t) \<and> sorted_wrt ord_class.lexordp (pool_texts st p))"

fun levels_ok :: "qstr_state \<Rightarrow> qstr_pool_t list \<Rightarrow> bool" where
  "levels_ok st [] = True"
| "levels_ok st (p # ps) \<longleftrightarrow> pool_ok st p \<and> total_prev_len p = length (interned st ps) \<and> levels_ok st ps"

definition names :: "qstr_state \<Rightarrow> bytes list" where
  "names st = interned st (pools st)"

definition names_ok :: "bytes list \<Rightarrow> bool" where
  "names_ok ns \<longleftrightarrow> 2 \<le> length ns \<and> ns ! 0 = [] \<and> ns ! 1 = [] \<and> (\<forall>i. 2 \<le> i \<longrightarrow> i < length ns \<longrightarrow> ns ! i \<noteq> []) \<and> distinct (tl ns)"

definition qstr_inv :: "qstr_state \<Rightarrow> bool" where
  "qstr_inv st \<longleftrightarrow> mem_ok st \<and> levels_ok st (pools st) \<and> names_ok (names st)"

lemma nth_pool_texts [simp]: "i < pool_len p \<Longrightarrow> pool_texts st p ! i = text_at st p i"
  by (simp add: pool_texts_def)

lemma length_pool_texts [simp]: "length (pool_texts st p) = pool_len p"
  by (simp add: pool_texts_def)

lemma text_length:
  assumes "mem_ok st" "entry_ok st p i"
  shows "length (text_at st p i) = unat (lengths p ! i)"
    "\<exists>rest. at_ptr st (qstrs p ! i) = text_at st p i @ 0 # rest"
proof -
  let ?n = "unat (lengths p ! i)" and ?q = "at_ptr st (qstrs p ! i)"
  have t: "?n < length ?q" "?q ! ?n = 0" using ptr_text [OF assms(1)] assms(2) by (auto simp: entry_ok_def)
  show "length (text_at st p i) = ?n" using t(1) by (simp add: text_at_def)
  have "?q = take ?n ?q @ ?q ! ?n # drop (Suc ?n) ?q" using t(1) by (simp add: id_take_nth_drop [symmetric])
  then show "\<exists>rest. ?q = text_at st p i @ 0 # rest" unfolding t(2) text_at_def by blast
qed

text \<open>What only adds memory keeps all of this.\<close>

lemma grows_text:
  assumes "mem_ok st" "grows st st'" "entry_ok st p i"
  shows "text_at st' p i = text_at st p i" "entry_ok st' p i"
proof -
  show t: "text_at st' p i = text_at st p i"
    using grows_ptr(2) [OF assms(1,2)] assms(3) by (simp add: text_at_def entry_ok_def)
  show "entry_ok st' p i" using grows_ptr(1) [OF assms(1,2)] assms(3) t by (simp add: entry_ok_def)
qed

lemma grows_pool:
  assumes "mem_ok st" "grows st st'" "pool_ok st p"
  shows "pool_texts st' p = pool_texts st p" "pool_ok st' p"
proof -
  have e: "entry_ok st p i" if "i < pool_len p" for i using assms(3) that by (simp add: pool_ok_def)
  show t: "pool_texts st' p = pool_texts st p"
    by (rule nth_equalityI) (simp_all add: grows_text(1) [OF assms(1,2) e])
  show "pool_ok st' p" using assms(3) grows_text(2) [OF assms(1,2) e] by (simp add: pool_ok_def t)
qed

lemma grows_levels:
  "mem_ok st \<Longrightarrow> grows st st' \<Longrightarrow> levels_ok st ps \<Longrightarrow> interned st' ps = interned st ps \<and> levels_ok st' ps"
  by (induction ps) (simp_all add: grows_pool)

lemma grows_inv: "qstr_inv st \<Longrightarrow> grows st st' \<Longrightarrow> qstr_inv st' \<and> names st' = names st"
  using grows_levels [of st st' "pools st"] by (simp add: qstr_inv_def names_def grows_def)

section \<open>Comparing\<close>

lemma strncmp_ends: "\<exists>c. strncmp s (q @ 0 # rest) = Some c"
proof (induction s arbitrary: q)
  case (Cons x s)
  show ?case using Cons by (cases q) auto
qed simp

lemma strncmp_order:
  "0 \<notin> set s \<Longrightarrow> 0 \<notin> set q \<Longrightarrow> strncmp s (q @ 0 # rest) = Some c \<Longrightarrow> 0 < c \<longleftrightarrow> ord_class.lexordp q s"
proof (induction s arbitrary: q)
  case Nil
  then show ?case by simp
next
  case (Cons x s)
  show ?case
  proof (cases q)
    case Nil
    have "0 < uint x" using Cons.prems(1) by (simp add: word_neq_0_conv word_less_def)
    then show ?thesis using Cons.prems Nil by auto
  next
    case (Cons y q')
    show ?thesis
    proof (cases "x = y")
      case True
      then show ?thesis using Cons.IH [of q'] Cons.prems Cons by auto
    next
      case False
      then have "c = uint x - uint y" using Cons.prems(3) Cons by simp
      then show ?thesis using False Cons by (auto simp: word_less_def word_uint_eq_iff)
    qed
  qed
qed

section \<open>Searching\<close>

text \<open>The bounds of the binary search always enclose the string, when the pool has it.\<close>

lemma sorted_texts:
  assumes "pool_ok st p" "is_sorted p" "i < j" "j < pool_len p"
  shows "ord_class.lexordp (text_at st p i) (text_at st p j)"
  using sorted_wrt_nth_less [of ord_class.lexordp "pool_texts st p" i j] assms by (simp add: pool_ok_def)

lemma bisect_ok:
  assumes "mem_ok st" "pool_ok st p" "is_sorted p"
  shows "low \<le> high \<Longrightarrow> high < pool_len p \<Longrightarrow>
    \<exists>l h. bisect st p s low high = Some (l, h) \<and> low \<le> l \<and> l \<le> h \<and> h \<le> high \<and>
      (\<forall>k. low \<le> k \<and> k \<le> high \<and> text_at st p k = s \<longrightarrow> l \<le> k \<and> k \<le> h)"
proof (induction "high - low" arbitrary: low high rule: less_induct)
  case less
  show ?case
  proof (cases "high - low > 1")
    case False
    then show ?thesis using less.prems by (auto simp: bisect.simps [of st p s low high])
  next
    case True
    let ?mid = "(low + high) div 2"
    have m: "low < ?mid" "?mid < high" "?mid < pool_len p" using True less.prems by auto
    have e: "entry_ok st p ?mid" using assms(2) m(3) by (simp add: pool_ok_def)
    obtain rest where q: "at_ptr st (qstrs p ! ?mid) = text_at st p ?mid @ 0 # rest" using text_length(2) [OF assms(1) e] by blast
    obtain c where c: "strncmp s (at_ptr st (qstrs p ! ?mid)) = Some c" using strncmp_ends unfolding q by blast
    have nz: "0 \<notin> set (text_at st p k)" if "k < pool_len p" for k
    proof -
      have "text_at st p k \<in> set (pool_texts st p)" using that by (auto simp: pool_texts_def)
      then show ?thesis using assms(2,3) by (simp add: pool_ok_def)
    qed
    have side: "if c \<le> 0 then k \<le> ?mid else ?mid \<le> k" if k: "k < pool_len p" "text_at st p k = s" for k
    proof -
      have "0 < c \<longleftrightarrow> ord_class.lexordp (text_at st p ?mid) (text_at st p k)"
        using strncmp_order [OF nz [OF k(1)] nz [OF m(3)], of rest c] c k(2) unfolding q by simp
      moreover have "\<not> ord_class.lexordp (text_at st p ?mid) (text_at st p k)" if "k < ?mid"
        using sorted_texts [OF assms(2,3) that m(3)] lexordp_antisym by blast
      moreover have "ord_class.lexordp (text_at st p ?mid) (text_at st p k)" if "?mid < k"
        using sorted_texts [OF assms(2,3) that k(1)] .
      ultimately show ?thesis by (cases "k < ?mid"; cases "?mid < k") auto
    qed
    have run: "bisect st p s low high = (if c \<le> 0 then bisect st p s low ?mid else bisect st p s ?mid high)"
      using True m(3) c by (subst bisect.simps) (simp add: Let_def)
    show ?thesis
    proof (cases "c \<le> 0")
      case True
      have "?mid - low < high - low" "low \<le> ?mid" using m by linarith+
      from less.hyps [OF this m(3)] obtain l h where R: "bisect st p s low ?mid = Some (l, h)" "low \<le> l" "l \<le> h" "h \<le> ?mid"
        "\<forall>k. low \<le> k \<and> k \<le> ?mid \<and> text_at st p k = s \<longrightarrow> l \<le> k \<and> k \<le> h" by blast
      have "k \<le> ?mid" if "k \<le> high" "text_at st p k = s" for k using side [of k] that less.prems(2) True by simp
      then show ?thesis using run True R m by (intro exI [of _ l] exI [of _ h]) simp
    next
      case False
      have "high - ?mid < high - low" "?mid \<le> high" using m by linarith+
      from less.hyps [OF this less.prems(2)] obtain l h where R: "bisect st p s ?mid high = Some (l, h)" "?mid \<le> l" "l \<le> h" "h \<le> high"
        "\<forall>k. ?mid \<le> k \<and> k \<le> high \<and> text_at st p k = s \<longrightarrow> l \<le> k \<and> k \<le> h" by blast
      have "?mid \<le> k" if "k \<le> high" "text_at st p k = s" for k using side [of k] that less.prems(2) False by simp
      then show ?thesis using run False R m by (intro exI [of _ l] exI [of _ h]) simp
    qed
  qed
qed

lemma scan_ok:
  assumes "mem_ok st" "pool_ok st p" "s \<noteq> []"
  shows "at + n \<le> pool_len p \<Longrightarrow>
    (\<exists>k. qstr_scan st p s (qstr_compute_hash s) at n = Inr (Some k) \<and> at \<le> k \<and> k < at + n \<and> text_at st p k = s) \<or>
    qstr_scan st p s (qstr_compute_hash s) at n = Inr None \<and> (\<forall>k. at \<le> k \<and> k < at + n \<longrightarrow> text_at st p k \<noteq> s)"
proof (induction n arbitrary: at)
  case (Suc n)
  have at: "at < pool_len p" using Suc.prems by simp
  have e: "entry_ok st p at" using assms(2) at by (simp add: pool_ok_def)
  note len = text_length(1) [OF assms(1) e]
  have room: "unat (lengths p ! at) < length (at_ptr st (qstrs p ! at))"
    using ptr_text(1) [OF assms(1)] e by (auto simp: entry_ok_def)
  let ?match = "ucast (hashes p ! at) = qstr_compute_hash s \<and> unat (lengths p ! at) = length s"
  have run: "qstr_scan st p s (qstr_compute_hash s) at (Suc n) =
      (if text_at st p at = s then Inr (Some at) else qstr_scan st p s (qstr_compute_hash s) (at + 1) n)"
  proof (cases ?match)
    case True
    then have "take (length s) (at_ptr st (qstrs p ! at)) = text_at st p at" by (simp add: text_at_def)
    then show ?thesis using True at room by simp
  next
    case False
    then have "text_at st p at \<noteq> s" using e assms(3) len by (auto simp: entry_ok_def)
    then show ?thesis using False at by auto
  qed
  show ?case
  proof (cases "text_at st p at = s")
    case True
    then show ?thesis using run by auto
  next
    case False
    have "at + 1 + n \<le> pool_len p" using Suc.prems by simp
    from Suc.IH [OF this] show ?thesis
    proof
      assume "\<exists>k. qstr_scan st p s (qstr_compute_hash s) (at + 1) n = Inr (Some k) \<and> at + 1 \<le> k \<and> k < at + 1 + n \<and> text_at st p k = s"
      then show ?thesis unfolding run if_not_P [OF False] by fastforce
    next
      assume none: "qstr_scan st p s (qstr_compute_hash s) (at + 1) n = Inr None \<and> (\<forall>k. at + 1 \<le> k \<and> k < at + 1 + n \<longrightarrow> text_at st p k \<noteq> s)"
      have "text_at st p k \<noteq> s" if "at \<le> k" "k < at + Suc n" for k
        using none False that by (cases "k = at") auto
      then show ?thesis unfolding run if_not_P [OF False] using none by blast
    qed
  qed
qed auto

text \<open>One pool.\<close>

lemma search_pool:
  assumes "mem_ok st" "pool_ok st p" "s \<noteq> []"
  defines "high \<equiv> (if pool_len p = 0 then 2 ^ 32 - 1 else pool_len p - 1)"
  shows "\<exists>l h r. (if is_sorted p then bisect st p s 0 high else Some (0, high)) = Some (l, h) \<and>
    qstr_scan st p s (qstr_compute_hash s) l ((h + 1) mod 2 ^ 32 - l) = Inr r \<and>
    (case r of Some k \<Rightarrow> k < pool_len p \<and> text_at st p k = s | None \<Rightarrow> s \<notin> set (pool_texts st p))"
proof -
  have n: "0 < pool_len p" "pool_len p < 2 ^ 31" using assms(2) by (simp_all add: pool_ok_def)
  have high: "high = pool_len p - 1" using n by (simp add: high_def)
  have in_pool: "s \<in> set (pool_texts st p) \<longleftrightarrow> (\<exists>k \<le> high. text_at st p k = s)"
  proof -
    have "x < pool_len p \<longleftrightarrow> x \<le> high" for x using n(1) high by linarith
    then have "{0..<pool_len p} = {..high}" by (simp only: set_eq_iff atLeastLessThan_iff atMost_iff le0 simp_thms)
    then have "set (pool_texts st p) = text_at st p ` {..high}" by (simp add: pool_texts_def)
    then show ?thesis unfolding \<open>set (pool_texts st p) = _\<close> image_iff Bex_def atMost_iff by metis
  qed
  have "\<exists>l h. (if is_sorted p then bisect st p s 0 high else Some (0, high)) = Some (l, h) \<and> l \<le> h \<and> h \<le> high \<and>
      (\<forall>k. k \<le> high \<and> text_at st p k = s \<longrightarrow> l \<le> k \<and> k \<le> h)"
  proof (cases "is_sorted p")
    case True
    have "0 \<le> high" "high < pool_len p" using n(1) high by simp_all
    from bisect_ok [OF assms(1,2) True this, of s] show ?thesis unfolding if_P [OF True] by blast
  next
    case False
    then show ?thesis by (intro exI [of _ 0] exI [of _ high]) simp
  qed
  then obtain l h where b: "(if is_sorted p then bisect st p s 0 high else Some (0, high)) = Some (l, h)" "l \<le> h" "h \<le> high"
    "\<forall>k. k \<le> high \<and> text_at st p k = s \<longrightarrow> l \<le> k \<and> k \<le> h" by blast
  have w: "(h + 1) mod 2 ^ 32 - l = h + 1 - l" using b(3) n high by simp
  have "l + (h + 1 - l) \<le> pool_len p" using b(2,3) high n(1) by linarith
  from scan_ok [OF assms(1-3) this] show ?thesis
  proof
    assume "\<exists>k. qstr_scan st p s (qstr_compute_hash s) l (h + 1 - l) = Inr (Some k) \<and> l \<le> k \<and> k < l + (h + 1 - l) \<and> text_at st p k = s"
    then obtain k where k: "qstr_scan st p s (qstr_compute_hash s) l (h + 1 - l) = Inr (Some k)" "k < l + (h + 1 - l)" "text_at st p k = s" by blast
    have "k < pool_len p" using k(2) b(2,3) high n(1) by linarith
    then show ?thesis unfolding b(1) using w k by (intro exI [of _ l] exI [of _ h] exI [of _ "Some k"]) simp
  next
    assume none: "qstr_scan st p s (qstr_compute_hash s) l (h + 1 - l) = Inr None \<and>
        (\<forall>k. l \<le> k \<and> k < l + (h + 1 - l) \<longrightarrow> text_at st p k \<noteq> s)"
    have "s \<notin> set (pool_texts st p)" unfolding in_pool
    proof
      assume "\<exists>k \<le> high. text_at st p k = s"
      then obtain k where k: "k \<le> high" "text_at st p k = s" by blast
      then have "l \<le> k" "k \<le> h" using b(4) by blast+
      then have "l \<le> k \<and> k < l + (h + 1 - l)" by linarith
      then show False using none k(2) by blast
    qed
    then show ?thesis unfolding b(1) using w none by (intro exI [of _ l] exI [of _ h] exI [of _ None]) simp
  qed
qed

lemma find_in_ok:
  assumes "mem_ok st" "s \<noteq> []"
  shows "levels_ok st ps \<Longrightarrow> \<exists>q. find_in st s (qstr_compute_hash s) ps = Inr q \<and>
    (if s \<in> set (interned st ps) then q < length (interned st ps) \<and> interned st ps ! q = s else q = 0)"
proof (induction ps)
  case (Cons p ps)
  have p: "pool_ok st p" "total_prev_len p = length (interned st ps)" "levels_ok st ps" using Cons.prems by simp_all
  from search_pool [OF assms(1) p(1) assms(2)] obtain l h r where S:
    "(if is_sorted p then bisect st p s 0 (if pool_len p = 0 then 2 ^ 32 - 1 else pool_len p - 1)
      else Some (0, if pool_len p = 0 then 2 ^ 32 - 1 else pool_len p - 1)) = Some (l, h)"
    "qstr_scan st p s (qstr_compute_hash s) l ((h + 1) mod 2 ^ 32 - l) = Inr r"
    "case r of Some k \<Rightarrow> k < pool_len p \<and> text_at st p k = s | None \<Rightarrow> s \<notin> set (pool_texts st p)" by blast
  have run: "find_in st s (qstr_compute_hash s) (p # ps) =
      (case r of Some at \<Rightarrow> Inr (total_prev_len p + at) | None \<Rightarrow> find_in st s (qstr_compute_hash s) ps)"
    unfolding find_in.simps Let_def S(1) option.case prod.case S(2) sum.case by (cases r) simp_all
  show ?case
  proof (cases r)
    case (Some k)
    then have k: "k < pool_len p" "text_at st p k = s" using S(3) by simp_all
    then have "s \<in> set (pool_texts st p)" by (auto simp: pool_texts_def)
    then show ?thesis unfolding run Some using k p(2) by (simp add: nth_append)
  next
    case None
    from Cons.IH [OF p(3)] obtain q where q: "find_in st s (qstr_compute_hash s) ps = Inr q"
      "if s \<in> set (interned st ps) then q < length (interned st ps) \<and> interned st ps ! q = s else q = 0" by blast
    have "s \<notin> set (pool_texts st p)" using S(3) None by simp
    then show ?thesis unfolding run None option.case interned.simps using q
      by (cases "s \<in> set (interned st ps)") (simp_all add: nth_append)
  qed
qed simp

text \<open>Where a string is.\<close>

lemma find_ok:
  assumes "qstr_inv st"
  shows "\<exists>q. qstr_find_strn st s = Inr q \<and>
    (if s \<in> set (names st) then 0 < q \<and> q < length (names st) \<and> names st ! q = s else q = MP_QSTRnull)"
proof (cases "s = []")
  case True
  have "[] \<in> set (names st)" "names st ! 1 = []" "1 < length (names st)"
    using assms by (auto simp: qstr_inv_def names_ok_def) (metis nth_mem Suc_le_lessD less_trans zero_less_one one_add_one plus_1_eq_Suc lessI)
  then show ?thesis using True by (simp add: qstr_find_strn_def)
next
  case False
  have i: "mem_ok st" "levels_ok st (pools st)" "names_ok (names st)" using assms by (simp_all add: qstr_inv_def)
  from find_in_ok [OF i(1) False i(2)] obtain q where q: "find_in st s (qstr_compute_hash s) (pools st) = Inr q"
    "if s \<in> set (names st) then q < length (names st) \<and> names st ! q = s else q = 0" unfolding names_def by blast
  have "q \<noteq> 0" if "names st ! q = s" using that i(3) False by (cases "q = 0") (auto simp: names_ok_def)
  then show ?thesis using q False by (auto simp: qstr_find_strn_def)
qed

lemma find_qstr_ok:
  "levels_ok st ps \<Longrightarrow> q < length (interned st ps) \<Longrightarrow>
   \<exists>p at. find_qstr ps q = Some (p, at) \<and> pool_ok st p \<and> at < pool_len p \<and> interned st ps ! q = text_at st p at"
proof (induction ps)
  case (Cons p ps)
  show ?case
  proof (cases "q < total_prev_len p")
    case False
    then have "q - total_prev_len p < pool_len p" using Cons.prems by simp
    then show ?thesis using False Cons.prems by (auto simp: nth_append)
  qed (use Cons in \<open>simp add: nth_append\<close>)
qed simp

section \<open>Adding\<close>

text \<open>The allocator clears the memory of a new pool, and grants no more than the address space holds.\<close>

definition pools_cleared :: "qstr_env \<Rightarrow> bool" where
  "pools_cleared E \<longleftrightarrow> \<not> fresh_bit E \<and> (\<forall>n. pool_granted E n \<longrightarrow> n < 2 ^ 31)"

lemma grow_chunk_ok:
  assumes "mem_ok st"
  shows "grows st (grow_chunk E n st)"
    "qstr_last_chunk (grow_chunk E n st) \<noteq> None \<Longrightarrow> qstr_last_used (grow_chunk E n st) + n \<le> qstr_last_alloc (grow_chunk E n st)"
proof -
  have "grows st (grow_chunk E n st) \<and> (\<forall>c. qstr_last_chunk (grow_chunk E n st) = Some c \<longrightarrow>
      qstr_last_used (grow_chunk E n st) + n \<le> qstr_last_alloc (grow_chunk E n st))"
  proof (cases "qstr_last_chunk st")
    case None
    then show ?thesis using assms by (simp add: grow_chunk_def grows_refl)
  next
    case (Some c)
    then have m: "c < length (chunks st)" "length (chunks st ! c) = qstr_last_alloc st" "qstr_last_used st \<le> qstr_last_alloc st"
      using assms by (simp_all add: mem_ok_def)
    have at: "(chunks st)[c := bs] ! d = (if d = c then bs else chunks st ! d)" for d bs using m(1) by (simp add: nth_list_update)
    consider "qstr_last_used st + n \<le> qstr_last_alloc st"
      | "\<not> qstr_last_used st + n \<le> qstr_last_alloc st" "resize_granted E c (qstr_last_alloc st + n)"
      | "\<not> qstr_last_used st + n \<le> qstr_last_alloc st" "\<not> resize_granted E c (qstr_last_alloc st + n)" by blast
    then show ?thesis
    proof cases
      case 1
      then show ?thesis using assms Some by (simp add: grow_chunk_def grows_refl)
    next
      case 2
      then show ?thesis using Some m by (simp add: grow_chunk_def grows_def mem_ok_def keep_def at)
    next
      case 3
      let ?st = "st\<lparr>chunks := (if resize_granted E c (qstr_last_used st) then (chunks st)[c := take (qstr_last_used st) (chunks st ! c)] else chunks st),
          qstr_last_chunk := None\<rparr>"
      have "grow_chunk E n st = ?st" using 3 Some by (simp add: grow_chunk_def)
      moreover have "grows st ?st" using Some m by (cases "resize_granted E c (qstr_last_used st)") (simp_all add: grows_def mem_ok_def keep_def at)
      ultimately show ?thesis by simp
    qed
  qed
  then show "grows st (grow_chunk E n st)"
    "qstr_last_chunk (grow_chunk E n st) \<noteq> None \<Longrightarrow> qstr_last_used (grow_chunk E n st) + n \<le> qstr_last_alloc (grow_chunk E n st)" by blast+
qed

lemma add_chunk_ok: "qstr_last_chunk st = None \<Longrightarrow> grows st (add_chunk E al st)"
  by (simp add: grows_def add_chunk_def mem_ok_def keep_def nth_append)

lemma need_chunk_ok:
  assumes "mem_ok st" "qstr_last_chunk st \<noteq> None \<Longrightarrow> qstr_last_used st + n \<le> qstr_last_alloc st"
  shows "need_chunk E n st = (Inl QstrMemoryError, st) \<or>
    (\<exists>st' c. need_chunk E n st = (Inr (), st') \<and> grows st st' \<and> qstr_last_chunk st' = Some c \<and> qstr_last_used st' + n \<le> qstr_last_alloc st')"
proof (cases "qstr_last_chunk st")
  case None
  have new: "grows st (add_chunk E al st) \<and> qstr_last_chunk (add_chunk E al st) = Some (length (chunks st)) \<and>
      qstr_last_used (add_chunk E al st) + n \<le> qstr_last_alloc (add_chunk E al st)" if "n \<le> al" for al
    using add_chunk_ok [OF None] that by (simp add: add_chunk_def)
  let ?al = "if n < MICROPY_ALLOC_QSTR_CHUNK_INIT then MICROPY_ALLOC_QSTR_CHUNK_INIT else n"
  have "n \<le> ?al" by simp
  have run: "need_chunk E n st = (if chunk_granted E ?al then (Inr (), add_chunk E ?al st)
      else if chunk_granted E n then (Inr (), add_chunk E n st) else (Inl QstrMemoryError, st))"
    by (simp add: need_chunk_def None Let_def)
  show ?thesis
  proof (cases "chunk_granted E ?al")
    case True
    then show ?thesis unfolding run using new [OF \<open>n \<le> ?al\<close>] by (metis (no_types))
  next
    case False
    then show ?thesis unfolding run if_not_P [OF False] using new [OF le_refl] by (cases "chunk_granted E n") auto
  qed
next
  case (Some c)
  then show ?thesis using assms by (auto simp: need_chunk_def grows_refl)
qed

lemma store_chars_ok:
  assumes "mem_ok st" "qstr_last_chunk st = Some c" "qstr_last_used st + (length s + 1) \<le> qstr_last_alloc st"
  shows "\<exists>p st'. store_chars s st = (Inr p, st') \<and> grows st st' \<and> ptr_ok st' p (length s) \<and> take (length s) (at_ptr st' p) = s"
proof -
  let ?off = "qstr_last_used st" and ?b = "chunks st ! c"
  let ?b' = "buf_write ?b ?off (s @ [0])"
  let ?st = "st\<lparr>qstr_last_used := ?off + (length s + 1), chunks := (chunks st)[c := ?b']\<rparr>"
  have m: "c < length (chunks st)" "length ?b = qstr_last_alloc st" using assms(1,2) by (simp_all add: mem_ok_def)
  have room: "?off + length (s @ [0]) \<le> length ?b" using assms(3) m(2) by simp
  have b': "?b' = take ?off ?b @ s @ 0 # drop (?off + length s + 1) ?b" using room by (simp add: buf_write_def)
  have len: "length ?b' = length ?b" using room by (simp add: length_buf_write)
  have at: "(chunks st)[c := ?b'] ! d = (if d = c then ?b' else chunks st ! d)" for d using m(1) by (simp add: nth_list_update)
  have run: "store_chars s st = (Inr (ChunkPtr c ?off), ?st)" using assms(2) m room by (simp add: store_chars_def Let_def)
  have mem: "mem_ok ?st" using assms(2,3) m len by (simp add: mem_ok_def)
  have off: "length (take ?off ?b) = ?off" using room by simp
  have keep: "keep st d \<le> keep ?st d \<and> take (keep st d) ((chunks st)[c := ?b'] ! d) = take (keep st d) (chunks st ! d)" if "d < length (chunks st)" for d
  proof (cases "d = c")
    case True
    then have "keep st d = ?off" "keep ?st d = ?off + (length s + 1)" using assms(2) by (simp_all add: keep_def)
    moreover have "take ?off ?b' = take ?off ?b" unfolding b' using off by (metis append_eq_conv_conj)
    ultimately show ?thesis using True at [of d] by simp
  next
    case False
    then show ?thesis using at [of d] assms(2) by (simp add: keep_def)
  qed
  have "grows st ?st" using mem keep by (simp add: grows_def)
  moreover have "drop ?off ?b' = s @ 0 # drop (?off + length s + 1) ?b" unfolding b' using off by (metis append_eq_conv_conj)
  then have "at_ptr ?st (ChunkPtr c ?off) = s @ 0 # drop (?off + length s + 1) ?b" using m(1) by (simp add: at_ptr_def)
  moreover have "?b' ! (?off + length s) = 0" unfolding b' using off by (simp add: nth_append)
  then have "ptr_ok ?st (ChunkPtr c ?off) (length s)" using m(1) assms(2) by (simp add: ptr_ok_def keep_def)
  ultimately show ?thesis using run by simp
qed

text \<open>A pool with one more string.\<close>

lemma pool_add_ok:
  assumes "mem_ok st" "p = p0\<lparr>hashes := hashes p0 @ [ucast (qstr_compute_hash s)], lengths := lengths p0 @ [of_nat (length s)], qstrs := qstrs p0 @ [q]\<rparr>"
    and "pool_len p0 = 0 \<and> hashes p0 = [] \<and> lengths p0 = [] \<or> pool_ok st p0"
    and "\<not> is_sorted p0" "pool_len p0 < pool_alloc p0" "pool_alloc p0 < 2 ^ 31"
    and "ptr_ok st q (length s)" "take (length s) (at_ptr st q) = s" "length s < 256"
  shows "pool_ok st p" "pool_texts st p = pool_texts st p0 @ [s]"
proof -
  have l: "length (hashes p0) = pool_len p0" "length (lengths p0) = pool_len p0" using assms(3) by (auto simp: pool_ok_def)
  have n: "pool_len p = Suc (pool_len p0)" by (simp add: assms(2))
  have u: "unat (of_nat (length s) :: u8) = length s" using assms(9) by (simp add: unat_of_nat)
  have old: "text_at st p i = text_at st p0 i" "qstrs p ! i = qstrs p0 ! i" "lengths p ! i = lengths p0 ! i" "hashes p ! i = hashes p0 ! i"
    if "i < pool_len p0" for i using that l by (simp_all add: assms(2) text_at_def nth_append)
  have new: "text_at st p (pool_len p0) = s" using l u assms(8) by (simp add: text_at_def assms(2) nth_append)
  show t: "pool_texts st p = pool_texts st p0 @ [s]"
  proof (rule nth_equalityI)
    fix i assume "i < length (pool_texts st p)"
    then have "i < pool_len p0 \<or> i = pool_len p0" using n by auto
    then show "pool_texts st p ! i = (pool_texts st p0 @ [s]) ! i" using n old(1) new by (auto simp: nth_append)
  qed (simp add: n)
  have hash: "ucast (ucast (qstr_compute_hash s) :: u16) = qstr_compute_hash s"
  proof -
    let ?h = "fold (\<lambda>b h. (push_bit 5 h + h) XOR ucast b) s 5381 AND 0xFFFF :: u32"
    have "?h \<le> 0xFFFF" by (rule word_and_le1)
    then have "unat ?h < 0x10000" by (simp add: word_le_nat_alt)
    then have "unat (qstr_compute_hash s) < 0x10000" by (simp add: qstr_compute_hash_def Let_def)
    then show ?thesis by (simp add: word_unat_eq_iff unsigned_ucast_eq unsigned_take_bit_eq take_bit_nat_eq_self)
  qed
  have e: "entry_ok st p i" if "i < pool_len p" for i
  proof (cases "i < pool_len p0")
    case True
    then have "entry_ok st p0 i" using assms(3) by (auto simp: pool_ok_def)
    then show ?thesis using old [OF True] by (simp add: entry_ok_def)
  next
    case False
    then have i: "i = pool_len p0" using that n by simp
    show ?thesis unfolding i entry_ok_def new using l u assms(7) hash by (simp add: assms(2) nth_append)
  qed
  show "pool_ok st p" unfolding pool_ok_def using e n l assms(4-6) by (simp add: assms(2))
qed

lemma names_snoc: "names_ok ns \<Longrightarrow> s \<noteq> [] \<Longrightarrow> s \<notin> set ns \<Longrightarrow> names_ok (ns @ [s])"
  by (cases ns) (auto simp: names_ok_def nth_append)

lemma levels_cong:
  "mem_ok st \<Longrightarrow> mem_ok st' \<Longrightarrow> chunks st' = chunks st \<Longrightarrow> qstr_last_chunk st' = qstr_last_chunk st \<Longrightarrow>
   qstr_last_used st' = qstr_last_used st \<Longrightarrow> pool_ok st' p = pool_ok st p \<and> pool_texts st' p = pool_texts st p \<and>
   interned st' ps = interned st ps \<and> levels_ok st' ps = levels_ok st ps"
proof -
  assume a: "mem_ok st" "mem_ok st'" "chunks st' = chunks st" "qstr_last_chunk st' = qstr_last_chunk st" "qstr_last_used st' = qstr_last_used st"
  have t: "text_at st' p = text_at st p" for p by (simp add: fun_eq_iff text_at_def at_ptr_def a(3) split: char_ptr.split)
  have k: "ptr_ok st' q n = ptr_ok st q n" for q n by (simp add: ptr_ok_def keep_def a(3-5) split: char_ptr.split)
  have pt: "pool_texts st' p = pool_texts st p" "pool_ok st' p = pool_ok st p" for p
    by (simp_all add: pool_texts_def pool_ok_def entry_ok_def t k)
  have "interned st' ps = interned st ps" for ps by (induction ps) (simp_all add: pt)
  moreover from this have "levels_ok st' ps = levels_ok st ps" by (induction ps) (simp_all add: pt)
  ultimately show ?thesis using pt by simp
qed

text \<open>A new string behind the others, or nothing changes but for the last chunk.\<close>

definition added :: "nat qstr_result \<Rightarrow> bytes \<Rightarrow> qstr_state \<Rightarrow> bool" where
  "added r s st \<longleftrightarrow> (\<exists>st'. qstr_inv st' \<and>
     (r = (Inr (length (names st)), st') \<and> names st' = names st @ [s] \<or> r = (Inl QstrMemoryError, st') \<and> names st' = names st))"

lemma addedI: "r = (Inr k, st') \<Longrightarrow> k = length (names st) \<Longrightarrow> qstr_inv st' \<Longrightarrow> names st' = names st @ [s] \<Longrightarrow> added r s st"
  by (auto simp: added_def)

lemma qstr_add_ok:
  assumes "pools_cleared E" "qstr_inv st" "ptr_ok st q (length s)" "take (length s) (at_ptr st q) = s" "length s < 256"
    and "s \<noteq> []" "s \<notin> set (names st)"
  shows "added (qstr_add E (length s) q (qstr_compute_hash s) st) s st"
proof -
  have i: "mem_ok st" "levels_ok st (pools st)" "names_ok (names st)" using assms(2) by (simp_all add: qstr_inv_def)
  have "pools st \<noteq> []" using i(3) by (auto simp: names_ok_def names_def)
  then obtain p0 ps where ps: "pools st = p0 # ps" by (cases "pools st") auto
  have p0: "pool_ok st p0" "total_prev_len p0 = length (interned st ps)" "levels_ok st ps" using i(2) ps by simp_all
  let ?full = "pool_len p0 \<ge> pool_alloc p0" and ?na = "max MICROPY_ALLOC_QSTR_ENTRIES_INIT (pool_alloc p0 * 2)"
  let ?new = "\<lparr>total_prev_len = total_prev_len p0 + pool_len p0, is_sorted = fresh_bit E, pool_alloc = ?na, hashes = [], lengths = [], qstrs = []\<rparr>"
  let ?with = "\<lambda>p. p\<lparr>hashes := hashes p @ [ucast (qstr_compute_hash s)], lengths := lengths p @ [of_nat (length s)], qstrs := qstrs p @ [q]\<rparr>"
  show ?thesis
  proof (cases "?full \<and> \<not> pool_granted E (pool_size ?na)")
    case True
    let ?st = "st\<lparr>qstr_last_chunk := None\<rparr>"
    have run: "qstr_add E (length s) q (qstr_compute_hash s) st = (Inl QstrMemoryError, ?st)"
      using True by (simp add: qstr_add_def ps Let_def)
    have "grows st ?st" using i(1) by (auto simp: grows_def mem_ok_def keep_def)
    from grows_inv [OF assms(2) this] show ?thesis unfolding added_def run by blast
  next
    case False
    show ?thesis
    proof (cases ?full)
      case True
      let ?st = "st\<lparr>pools := ?with ?new # p0 # ps\<rparr>"
      have run: "qstr_add E (length s) q (qstr_compute_hash s) st = (Inr (total_prev_len p0 + pool_len p0), ?st)"
        using True False by (simp add: qstr_add_def ps Let_def)
      have na: "0 < ?na" "?na < 2 ^ 31" "\<not> fresh_bit E"
        using True False assms(1) by (auto simp: pools_cleared_def pool_size_def MICROPY_ALLOC_QSTR_ENTRIES_INIT_def)
      have ok: "pool_ok st (?with ?new)" "pool_texts st (?with ?new) = pool_texts st ?new @ [s]"
        by (rule pool_add_ok [OF i(1) refl _ _ _ _ assms(3-5)]; use na in simp)+
      have c: "mem_ok ?st" using i(1) by (simp add: mem_ok_def)
      note cong = levels_cong [OF i(1) c]
      have t: "names ?st = names st @ [s]" using cong [of "?with ?new" "p0 # ps"] ok(2) by (simp add: names_def ps pool_texts_def)
      have lv: "levels_ok ?st (pools ?st)" using cong [of "?with ?new" "p0 # ps"] ok(1) p0 by (simp add: ps)
      have n: "total_prev_len p0 + pool_len p0 = length (names st)" using p0(2) by (simp add: names_def ps)
      have inv: "qstr_inv ?st" unfolding qstr_inv_def t by (intro conjI c lv names_snoc [OF i(3) assms(6,7)])
      show ?thesis by (rule addedI [OF run n inv t])
    next
      case room: False
      let ?st = "st\<lparr>pools := ?with p0 # ps\<rparr>"
      have run: "qstr_add E (length s) q (qstr_compute_hash s) st = (Inr (total_prev_len p0 + pool_len p0), ?st)"
        using room by (simp add: qstr_add_def ps Let_def)
      have srt: "\<not> is_sorted p0" using p0(1) room by (auto simp: pool_ok_def)
      have ok: "pool_ok st (?with p0)" "pool_texts st (?with p0) = pool_texts st p0 @ [s]"
        by (rule pool_add_ok [OF i(1) refl _ srt _ _ assms(3-5)]; use p0(1) room in \<open>simp add: pool_ok_def\<close>)+
      have c: "mem_ok ?st" using i(1) by (simp add: mem_ok_def)
      note cong = levels_cong [OF i(1) c]
      have t: "names ?st = names st @ [s]" using cong [of "?with p0" ps] ok(2) by (simp add: names_def ps)
      have lv: "levels_ok ?st (pools ?st)" using cong [of "?with p0" ps] ok(1) p0 by (simp add: ps)
      have n: "total_prev_len p0 + pool_len p0 = length (names st)" using p0(2) by (simp add: names_def ps)
      have inv: "qstr_inv ?st" unfolding qstr_inv_def t by (intro conjI c lv names_snoc [OF i(3) assms(6,7)])
      show ?thesis by (rule addedI [OF run n inv t])
    qed
  qed
qed

end
