(* ===== verification/QstrProps.thy ===== *)
theory QstrProps
  imports QstrCorrect
begin

text \<open>
  The properties of interned strings: interning is exact, and a qstr stands for its string for good.
\<close>

section \<open>One string\<close>

lemma added_grows:
  assumes "qstr_inv st" "grows st st1" "added r s st1"
  shows "added r s st"
  using assms(3) grows_inv [OF assms(1,2)] by (auto simp: added_def)

lemma no_memory_added: "qstr_inv st \<Longrightarrow> grows st st1 \<Longrightarrow> added (Inl QstrMemoryError, st1) s st"
  using grows_inv [of st st1] by (auto simp: added_def)

text \<open>C18: interning a string that is known gives its qstr and changes nothing; a string that is not known
  is refused when it is longer than 255 bytes, and otherwise becomes the next qstr behind all others,
  unless memory runs out, in which case no qstr is added or changed.  In every case the pools and the
  memory of the strings stay well formed; also when a chunk cannot be grown in place and is cut.\<close>

theorem qstr_intern_exact:
  assumes "pools_cleared E" "qstr_inv st" "len \<le> length mem" "static \<Longrightarrow> len < length mem \<and> mem ! len = 0"
  defines "s \<equiv> take len mem" and "r \<equiv> qstr_from_strn_helper E mem len static st"
  shows "if s \<in> set (names st) then \<exists>q. r = (Inr q, st) \<and> 0 < q \<and> q < length (names st) \<and> names st ! q = s
    else if len \<ge> 256 then r = (Inl NameTooLong, st)
    else added r s st"
proof -
  have n: "length s = len" using assms(3) by (simp add: s_def)
  from find_ok [OF assms(2), of s] obtain q where q: "qstr_find_strn st s = Inr q"
    "if s \<in> set (names st) then 0 < q \<and> q < length (names st) \<and> names st ! q = s else q = MP_QSTRnull" by blast
  show ?thesis
  proof (cases "s \<in> set (names st)")
    case True
    then have "r = (Inr q, st)" using q assms(3) by (simp add: r_def qstr_from_strn_helper_def s_def [symmetric] Let_def)
    then show ?thesis using True q(2) by simp
  next
    case False
    then have q0: "q = 0" using q(2) by simp
    have nil: "s \<noteq> []"
    proof
      assume "s = []"
      then show False using q(1) q0 by (simp add: qstr_find_strn_def)
    qed
    have m: "mem_ok st" using assms(2) by (simp add: qstr_inv_def)
    let ?hash = "qstr_compute_hash s" and ?g = "grow_chunk E (len + 1) st"
    have run: "r = (if len \<ge> 256 then (Inl NameTooLong, st) else if static then qstr_add E len (RomPtr mem) ?hash st
        else (case need_chunk E (len + 1) ?g of (Inl err, st1) \<Rightarrow> (Inl err, st1)
              | (Inr _, st1) \<Rightarrow> (case store_chars s st1 of (Inl err, st2) \<Rightarrow> (Inl err, st2)
                  | (Inr q_ptr, st2) \<Rightarrow> qstr_add E len q_ptr ?hash st2)))"
      using assms(3) q(1) q0 by (simp add: r_def qstr_from_strn_helper_def s_def [symmetric] Let_def)
    have "added r s st" if short: "\<not> len \<ge> 256"
    proof (cases static)
      case True
      then have "ptr_ok st (RomPtr mem) len" "take len (at_ptr st (RomPtr mem)) = s" using assms(4) by (simp_all add: ptr_ok_def at_ptr_def s_def)
      then have "added (qstr_add E (length s) (RomPtr mem) ?hash st) s st"
        unfolding n [symmetric] using n short by (intro qstr_add_ok [OF assms(1,2) _ _ _ nil False]) simp_all
      then show ?thesis using run True short n by simp
    next
      case dynamic: False
      note g = grow_chunk_ok [OF m, of E "len + 1"]
      have mg: "mem_ok ?g" using g(1) by (simp add: grows_def)
      have "need_chunk E (len + 1) ?g = (Inl QstrMemoryError, ?g) \<or> (\<exists>st' c. need_chunk E (len + 1) ?g = (Inr (), st') \<and>
          grows ?g st' \<and> qstr_last_chunk st' = Some c \<and> qstr_last_used st' + (len + 1) \<le> qstr_last_alloc st')"
        by (rule need_chunk_ok [OF mg]) (rule g(2))
      then show ?thesis
      proof (elim disjE exE conjE)
        assume "need_chunk E (len + 1) ?g = (Inl QstrMemoryError, ?g)"
        then have "r = (Inl QstrMemoryError, ?g)" using run dynamic short by simp
        then show ?thesis using no_memory_added [OF assms(2) g(1)] by simp
      next
        fix st1 c assume c: "need_chunk E (len + 1) ?g = (Inr (), st1)" "grows ?g st1" "qstr_last_chunk st1 = Some c"
          "qstr_last_used st1 + (len + 1) \<le> qstr_last_alloc st1"
        have m1: "mem_ok st1" using c(2) by (simp add: grows_def)
        from store_chars_ok [OF m1 c(3), of s] c(4) n obtain p st2 where S: "store_chars s st1 = (Inr p, st2)" "grows st1 st2"
          "ptr_ok st2 p (length s)" "take (length s) (at_ptr st2 p) = s" by auto
        have all: "grows st st2" by (rule grows_trans [OF grows_trans [OF g(1) c(2)] S(2)])
        note inv = grows_inv [OF assms(2) all]
        have "added (qstr_add E (length s) p ?hash st2) s st2"
          using inv False short n by (intro qstr_add_ok [OF assms(1) _ S(3,4) _ nil]) simp_all
        then have "added (qstr_add E (length s) p ?hash st2) s st" by (rule added_grows [OF assms(2) all])
        moreover have "r = qstr_add E (length s) p ?hash st2" using run dynamic short c(1) S(1) n by simp
        ultimately show ?thesis by simp
      qed
    qed
    then show ?thesis using False run by simp
  qed
qed

section \<open>Reading back\<close>

definition qstr_chars :: "qstr_state \<Rightarrow> nat \<Rightarrow> bytes option" where
  "qstr_chars st q = map_option (\<lambda>(p, n). take n (at_ptr st p)) (qstr_data st q)"

lemma lookup_ok:
  assumes "qstr_inv st" "q < length (names st)"
  shows "qstr_chars st q = Some (names st ! q)" "qstr_len st q = Some (length (names st ! q))"
    "names st ! q \<noteq> [] \<Longrightarrow> qstr_hash st q = Some (qstr_compute_hash (names st ! q))"
proof -
  have i: "mem_ok st" "levels_ok st (pools st)" using assms(1) by (simp_all add: qstr_inv_def)
  from find_qstr_ok [OF i(2), of q] assms(2) obtain p at where p: "find_qstr (pools st) q = Some (p, at)" "pool_ok st p" "at < pool_len p"
    "names st ! q = text_at st p at" by (auto simp: names_def)
  have e: "entry_ok st p at" using p(2,3) by (simp add: pool_ok_def)
  show "qstr_chars st q = Some (names st ! q)" using p by (simp add: qstr_chars_def qstr_data_def text_at_def)
  show "qstr_len st q = Some (length (names st ! q))" using p text_length(1) [OF i(1) e] by (simp add: qstr_len_def)
  show "names st ! q \<noteq> [] \<Longrightarrow> qstr_hash st q = Some (qstr_compute_hash (names st ! q))"
    using p e by (simp add: qstr_hash_def entry_ok_def)
qed

text \<open>A sequence of strings, each with the allocator as it is at that time.\<close>

fun intern_all :: "(qstr_env \<times> bytes) list \<Rightarrow> qstr_state \<Rightarrow> (qstr_exn + nat) list \<times> qstr_state" where
  "intern_all [] st = ([], st)"
| "intern_all ((E, s) # calls) st =
     (case qstr_from_strn E s (length s) st of (r, st1) \<Rightarrow> (case intern_all calls st1 of (rs, st2) \<Rightarrow> (r # rs, st2)))"

lemma intern_step:
  assumes "pools_cleared E" "qstr_inv st" "qstr_from_strn E s (length s) st = (r, st1)"
  shows "qstr_inv st1 \<and> (\<exists>new. names st1 = names st @ new) \<and>
    (\<forall>q. r = Inr q \<longrightarrow> 0 < q \<and> q < length (names st1) \<and> names st1 ! q = s)"
proof -
  have ne: "0 < length (names st)" using assms(2) by (cases "names st") (simp_all add: qstr_inv_def names_ok_def)
  from qstr_intern_exact [OF assms(1,2), of "length s" s False] assms(3) show ?thesis
    using assms(2) ne by (cases "s \<in> set (names st)"; cases "256 \<le> length s") (auto simp: qstr_from_strn_def added_def)
qed

text \<open>C6: a qstr stands for its string for good.  Whatever strings are interned one after the other, whether
  allocations fail or not, two of them get the same qstr exactly when they are the same string; every qstr
  that was given out reads back as its string, with its length and its hash; and every qstr that was there
  before still stands for the string that it did.\<close>

theorem qstrs_identify:
  assumes "qstr_inv st" "\<forall>(E, s) \<in> set calls. pools_cleared E"
  shows "\<exists>rs st'. intern_all calls st = (rs, st') \<and> length rs = length calls \<and> qstr_inv st' \<and>
    (\<forall>i < length calls. \<forall>p. rs ! i = Inr p \<longrightarrow>
       qstr_chars st' p = Some (snd (calls ! i)) \<and> qstr_len st' p = Some (length (snd (calls ! i))) \<and>
       (snd (calls ! i) \<noteq> [] \<longrightarrow> qstr_hash st' p = Some (qstr_compute_hash (snd (calls ! i)))) \<and>
       (\<forall>j < length calls. \<forall>q. rs ! j = Inr q \<longrightarrow> (p = q \<longleftrightarrow> snd (calls ! i) = snd (calls ! j)))) \<and>
    (\<forall>q < length (names st). qstr_chars st' q = Some (names st ! q))"
proof -
  have "\<exists>rs st' new. intern_all calls st = (rs, st') \<and> length rs = length calls \<and> qstr_inv st' \<and> names st' = names st @ new \<and>
    (\<forall>i < length calls. \<forall>p. rs ! i = Inr p \<longrightarrow> 0 < p \<and> p < length (names st') \<and> names st' ! p = snd (calls ! i))"
    using assms
  proof (induction calls arbitrary: st)
    case (Cons call calls)
    obtain E s where call: "call = (E, s)" by (cases call)
    obtain r st1 where r: "qstr_from_strn E s (length s) st = (r, st1)" by fastforce
    have E: "pools_cleared E" using Cons.prems(2) call by simp
    from intern_step [OF E Cons.prems(1) r] obtain new1 where S: "qstr_inv st1" "names st1 = names st @ new1"
      "\<And>q. r = Inr q \<Longrightarrow> 0 < q \<and> q < length (names st1) \<and> names st1 ! q = s" by blast
    have "\<forall>(E, s) \<in> set calls. pools_cleared E" using Cons.prems(2) by simp
    from Cons.IH [OF S(1) this] obtain rs st' new2 where R: "intern_all calls st1 = (rs, st')" "length rs = length calls"
      "qstr_inv st'" "names st' = names st1 @ new2"
      "\<forall>i < length calls. \<forall>p. rs ! i = Inr p \<longrightarrow> 0 < p \<and> p < length (names st') \<and> names st' ! p = snd (calls ! i)" by blast
    have "(r # rs) ! i = Inr p \<longrightarrow> 0 < p \<and> p < length (names st') \<and> names st' ! p = snd ((call # calls) ! i)"
      if "i < length (call # calls)" for i p
    proof (cases i)
      case 0
      then show ?thesis using S(3) [of p] R(4) call by (auto simp: nth_append)
    next
      case (Suc k)
      then show ?thesis using R(5) that by simp
    qed
    then show ?case using call r R(1-4) S(2) by (intro exI [of _ "r # rs"] exI [of _ st'] exI [of _ "new1 @ new2"]) simp
  qed simp
  then obtain rs st' new where R: "intern_all calls st = (rs, st')" "length rs = length calls" "qstr_inv st'" "names st' = names st @ new"
    "\<And>i p. i < length calls \<Longrightarrow> rs ! i = Inr p \<Longrightarrow> 0 < p \<and> p < length (names st') \<and> names st' ! p = snd (calls ! i)" by blast
  have one: "p = q \<longleftrightarrow> names st' ! p = names st' ! q" if "0 < p" "p < length (names st')" "0 < q" "q < length (names st')" for p q
  proof -
    have d: "distinct (tl (names st'))" using R(3) by (simp add: qstr_inv_def names_ok_def)
    have "tl (names st') ! (p - 1) = names st' ! p" "tl (names st') ! (q - 1) = names st' ! q" using that by (simp_all add: nth_tl)
    then have "names st' ! p = names st' ! q \<longleftrightarrow> p - 1 = q - 1" using nth_eq_iff_index_eq [OF d, of "p - 1" "q - 1"] that by simp
    then show ?thesis using that by linarith
  qed
  have each: "qstr_chars st' p = Some (snd (calls ! i)) \<and> qstr_len st' p = Some (length (snd (calls ! i))) \<and>
       (snd (calls ! i) \<noteq> [] \<longrightarrow> qstr_hash st' p = Some (qstr_compute_hash (snd (calls ! i)))) \<and>
       (\<forall>j < length calls. \<forall>q. rs ! j = Inr q \<longrightarrow> (p = q \<longleftrightarrow> snd (calls ! i) = snd (calls ! j)))"
    if i: "i < length calls" "rs ! i = Inr p" for i p
  proof -
    note p = R(5) [OF i]
    have "p = q \<longleftrightarrow> snd (calls ! i) = snd (calls ! j)" if "j < length calls" "rs ! j = Inr q" for j q
      using one [of p q] p R(5) [OF that] by simp
    then show ?thesis using lookup_ok [OF R(3), of p] p by simp
  qed
  have "qstr_chars st' q = Some (names st ! q)" if "q < length (names st)" for q
    using lookup_ok(1) [OF R(3), of q] that R(4) by (simp add: nth_append)
  with R(1-3) each show ?thesis by blast
qed

text \<open>Two pools in ROM as the build makes them, the second sorted.\<close>

definition rom_pools :: "qstr_pool_t list" where
  "rom_pools =
     [\<lparr>total_prev_len = 3, is_sorted = True, pool_alloc = 2, hashes = [0xB5C4, 0xB5C7], lengths = [1, 1], qstrs = [RomPtr [97, 0], RomPtr [98, 0]]\<rparr>,
      \<lparr>total_prev_len = 0, is_sorted = False, pool_alloc = 10, hashes = [0, 0x1505, 0xB5C6],
       lengths = [0, 0, 1], qstrs = [RomPtr [0], RomPtr [0], RomPtr [99, 0]]\<rparr>]"

lemma rom_inv: "qstr_inv (qstr_init rom_pools)" "names (qstr_init rom_pools) = [[], [], [99], [97], [98]]"
proof -
  let ?st = "qstr_init rom_pools"
  have h: "qstr_compute_hash [97] = 0xB5C4" "qstr_compute_hash [98] = 0xB5C7" "qstr_compute_hash [99] = 0xB5C6"
    by (simp_all add: qstr_compute_hash_def)
  show names: "names ?st = [[], [], [99], [97], [98]]"
    by (simp add: names_def qstr_init_def rom_pools_def pool_texts_def text_at_def at_ptr_def upt_rec)
  have e0: "entry_ok ?st (rom_pools ! 0) i" if "i < 2" for i
    using that h by (auto simp: less_2_cases_iff rom_pools_def entry_ok_def ptr_ok_def text_at_def at_ptr_def)
  have e1: "entry_ok ?st (rom_pools ! 1) i" if "i < 3" for i
    using that h by (auto simp: numeral_3_eq_3 less_Suc_eq rom_pools_def entry_ok_def ptr_ok_def text_at_def at_ptr_def)
  have t: "pool_texts ?st (rom_pools ! 0) = [[97], [98]]" "pool_texts ?st (rom_pools ! 1) = [[], [], [99]]"
    by (simp_all add: rom_pools_def pool_texts_def text_at_def at_ptr_def upt_rec)
  have "pool_ok ?st (rom_pools ! 0)" "pool_ok ?st (rom_pools ! 1)"
    unfolding pool_ok_def t using e0 e1 by (simp_all add: rom_pools_def)
  moreover have "pools ?st = [rom_pools ! 0, rom_pools ! 1]" by (simp add: qstr_init_def rom_pools_def)
  moreover have "total_prev_len (rom_pools ! 0) = 3" "total_prev_len (rom_pools ! 1) = 0" by (simp_all add: rom_pools_def)
  ultimately have "levels_ok ?st (pools ?st)" using t by simp
  moreover have "names_ok [[], [], [99], [97], [98 :: u8]]"
    unfolding names_ok_def by (auto simp: numeral_eq_Suc less_Suc_eq)
  ultimately show "qstr_inv ?st" unfolding qstr_inv_def names by (simp add: mem_ok_def qstr_init_def)
qed

definition tight_env :: qstr_env where
  "tight_env = \<lparr>pool_granted = (\<lambda>n. n \<le> 500), chunk_granted = (\<lambda>n. n \<le> 4), resize_granted = (\<lambda>_ _. False),
     fresh_byte = (\<lambda>_. 0), fresh_bit = False\<rparr>"

lemma tight_env_cleared: "pools_cleared tight_env"
  by (simp add: pools_cleared_def tight_env_def)

lemma bisect_two: "bisect st p s 0 (Suc 0) = Some (0, Suc 0)"
  by (subst bisect.simps) simp

lemmas qstr_scan_numeral = qstr_scan.simps(2) [where n = "pred_numeral k" for k, folded numeral_eq_Suc]

lemma intern_known:
  "qstr_from_strn tight_env [97] (Suc 0) (qstr_init rom_pools) = (Inr 3, qstr_init rom_pools)"
  "qstr_from_strn tight_env [98] (Suc 0) (qstr_init rom_pools) = (Inr 4, qstr_init rom_pools)"
  by (simp_all add: qstr_from_strn_def qstr_from_strn_helper_def qstr_find_strn_def qstr_compute_hash_def qstr_init_def rom_pools_def
      bisect_two at_ptr_def Let_def qstr_scan_numeral)

lemma intern_fresh: "fst (qstr_from_strn tight_env [122] (Suc 0) (qstr_init rom_pools)) = Inr 5"
  by (simp add: qstr_from_strn_def qstr_from_strn_helper_def qstr_find_strn_def qstr_compute_hash_def qstr_init_def rom_pools_def
      bisect_two at_ptr_def Let_def qstr_scan_numeral grow_chunk_def need_chunk_def add_chunk_def store_chars_def qstr_add_def
      tight_env_def buf_write_def MICROPY_ALLOC_QSTR_CHUNK_INIT_def MICROPY_ALLOC_QSTR_ENTRIES_INIT_def pool_size_def)

theorem qstr_intern_exact_witness:
  "\<exists>st'. qstr_inv st' \<and> names st' = [[], [], [99], [97], [98], [122]] \<and>
    qstr_from_strn_helper tight_env [122] 1 False (qstr_init rom_pools) = (Inr 5, st')"
proof -
  have "(1 :: nat) \<le> length [122 :: u8]" by simp
  from qstr_intern_exact [OF tight_env_cleared rom_inv(1) this, of False]
  have "added (qstr_from_strn_helper tight_env [122] 1 False (qstr_init rom_pools)) [122] (qstr_init rom_pools)"
    by (simp add: rom_inv(2))
  then show ?thesis using intern_fresh by (auto simp: added_def rom_inv(2) qstr_from_strn_def)
qed

theorem qstrs_identify_witness:
  "\<exists>rs st'. intern_all [(tight_env, [122]), (tight_env, [97])] (qstr_init rom_pools) = (rs, st') \<and> qstr_inv st' \<and>
    rs ! 0 = Inr 5 \<and> qstr_chars st' 5 = Some [122] \<and> qstr_hash st' 5 = Some (qstr_compute_hash [122]) \<and> qstr_chars st' 3 = Some [97]"
proof -
  let ?calls = "[(tight_env, [122 :: u8]), (tight_env, [97 :: u8])]" and ?st = "qstr_init rom_pools"
  have "\<forall>(E, s) \<in> set ?calls. pools_cleared E" using tight_env_cleared by simp
  from qstrs_identify [OF rom_inv(1) this] obtain rs st' where run: "intern_all ?calls ?st = (rs, st')" and inv: "qstr_inv st'" and
    R: "\<forall>i < length ?calls. \<forall>p. rs ! i = Inr p \<longrightarrow>
       qstr_chars st' p = Some (snd (?calls ! i)) \<and> qstr_len st' p = Some (length (snd (?calls ! i))) \<and>
       (snd (?calls ! i) \<noteq> [] \<longrightarrow> qstr_hash st' p = Some (qstr_compute_hash (snd (?calls ! i)))) \<and>
       (\<forall>j < length ?calls. \<forall>q. rs ! j = Inr q \<longrightarrow> (p = q \<longleftrightarrow> snd (?calls ! i) = snd (?calls ! j)))"
    "\<forall>q < length (names ?st). qstr_chars st' q = Some (names ?st ! q)" by blast
  have r0: "rs ! 0 = Inr 5" using run intern_fresh by (auto split: prod.splits)
  have "0 < length ?calls" "3 < length (names ?st)" by (simp_all add: rom_inv(2))
  then show ?thesis using run inv r0 R(1) [rule_format, of 0 5] R(2) [rule_format, of 3] by (simp add: rom_inv(2))
qed

end
