(* ===== verification/PairHeap.thy ===== *)
theory PairHeap
  imports Prelude
begin

text \<open>
  The pairing heap of \<open>py/pairheap.c\<close> and \<open>py/pairheap.h\<close>, on nodes in a store: every node has a
  pointer to its first and to its last child, and \<open>next\<close>, whose lowest bit tells a sibling from the
  parent of the last child.  The less-than operation reads the elements that the nodes are part of; it
  is a parameter.  The loops follow pointers, so they are \<open>partial_function\<close>s, whose None means that
  they do not end.
\<close>

section \<open>Nodes\<close>

record mp_pairheap_t =
  child :: u32
  child_last :: u32
  nxt :: u32

type_synonym ph_store = "u32 \<Rightarrow> mp_pairheap_t"
type_synonym mp_pairheap_lt_t = "u32 \<Rightarrow> u32 \<Rightarrow> bool"

definition NEXT_MAKE_RIGHTMOST_PARENT :: "u32 \<Rightarrow> u32" where
  "NEXT_MAKE_RIGHTMOST_PARENT parent = parent OR 1"

definition NEXT_IS_RIGHTMOST_PARENT :: "u32 \<Rightarrow> bool" where
  "NEXT_IS_RIGHTMOST_PARENT nx \<longleftrightarrow> nx AND 1 \<noteq> 0"

definition NEXT_GET_RIGHTMOST_PARENT :: "u32 \<Rightarrow> u32" where
  "NEXT_GET_RIGHTMOST_PARENT nx = nx AND NOT 1"

definition set_child :: "u32 \<Rightarrow> u32 \<Rightarrow> ph_store \<Rightarrow> ph_store" where
  "set_child p v s = s(p := (s p)\<lparr>child := v\<rparr>)"

definition set_child_last :: "u32 \<Rightarrow> u32 \<Rightarrow> ph_store \<Rightarrow> ph_store" where
  "set_child_last p v s = s(p := (s p)\<lparr>child_last := v\<rparr>)"

definition set_next :: "u32 \<Rightarrow> u32 \<Rightarrow> ph_store \<Rightarrow> ph_store" where
  "set_next p v s = s(p := (s p)\<lparr>nxt := v\<rparr>)"

section \<open>Core functions\<close>

definition mp_pairheap_meld :: "mp_pairheap_lt_t \<Rightarrow> u32 \<Rightarrow> u32 \<Rightarrow> ph_store \<Rightarrow> u32 \<times> ph_store" where
  "mp_pairheap_meld lt heap1 heap2 s =
     (if heap1 = 0 then (heap2, s)
      else if heap2 = 0 then (heap1, s)
      else if lt heap1 heap2 then
        let s1 = (if child (s heap1) = 0 then set_child heap1 heap2 s
                  else set_next (child_last (s heap1)) heap2 s);
            s2 = set_child_last heap1 heap2 s1
        in (heap1, set_next heap2 (NEXT_MAKE_RIGHTMOST_PARENT heap1) s2)
      else
        let s1 = set_next heap1 (child (s heap2)) s;
            s2 = set_child heap2 heap1 s1
        in (heap2, if nxt (s2 heap1) = 0
                   then set_next heap1 (NEXT_MAKE_RIGHTMOST_PARENT heap2) (set_child_last heap2 heap1 s2)
                   else s2))"

text \<open>The loop of \<open>mp_pairheap_pairing\<close>.\<close>

partial_function (option) pairing_loop :: "mp_pairheap_lt_t \<Rightarrow> u32 \<Rightarrow> u32 \<Rightarrow> ph_store \<Rightarrow> (u32 \<times> ph_store) option" where
  "pairing_loop lt c heap s =
     (if NEXT_IS_RIGHTMOST_PARENT c then Some (heap, s)
      else
        let n1 = c;
            c1 = nxt (s n1);
            s1 = set_next n1 0 s
        in if \<not> NEXT_IS_RIGHTMOST_PARENT c1 then
             let n2 = c1;
                 c2 = nxt (s1 n2);
                 s2 = set_next n2 0 s1
             in case mp_pairheap_meld lt n1 n2 s2 of
                  (m, s3) \<Rightarrow> (case mp_pairheap_meld lt heap m s3 of (h, s4) \<Rightarrow> pairing_loop lt c2 h s4)
           else (case mp_pairheap_meld lt heap n1 s1 of (h, s2) \<Rightarrow> pairing_loop lt c1 h s2))"

definition mp_pairheap_pairing :: "mp_pairheap_lt_t \<Rightarrow> u32 \<Rightarrow> ph_store \<Rightarrow> (u32 \<times> ph_store) option" where
  "mp_pairheap_pairing lt c s =
     (if c = 0 then Some (0, s)
      else map_option (\<lambda>(heap, s1). (heap, set_next heap 0 s1)) (pairing_loop lt c 0 s))"

text \<open>The walks of \<open>mp_pairheap_delete\<close>: to the last sibling, and to the sibling before the node.\<close>

partial_function (option) last_sibling :: "u32 \<Rightarrow> ph_store \<Rightarrow> u32 option" where
  "last_sibling p s = (if NEXT_IS_RIGHTMOST_PARENT (nxt (s p)) then Some p else last_sibling (nxt (s p)) s)"

partial_function (option) sibling_before :: "u32 \<Rightarrow> u32 \<Rightarrow> ph_store \<Rightarrow> u32 option" where
  "sibling_before node n s = (if node = nxt (s n) then Some n else sibling_before node (nxt (s n)) s)"

text \<open>The last steps of a deletion: the node that stands for the deleted one gets its \<open>next\<close>.\<close>

definition relink :: "u32 \<Rightarrow> u32 \<Rightarrow> u32 \<Rightarrow> ph_store \<Rightarrow> ph_store" where
  "relink parent node nx s =
     (let s1 = set_next node nx s
      in if NEXT_IS_RIGHTMOST_PARENT nx then set_child_last parent node s1 else s1)"

definition mp_pairheap_delete :: "mp_pairheap_lt_t \<Rightarrow> u32 \<Rightarrow> u32 \<Rightarrow> ph_store \<Rightarrow> (u32 \<times> ph_store) option" where
  "mp_pairheap_delete lt heap node s =
     (if node = heap then mp_pairheap_pairing lt (child (s heap)) (set_child node 0 s)
      else if nxt (s node) = 0 then Some (heap, s)
      else do {
        lastp \<leftarrow> last_sibling node s;
        let parent = NEXT_GET_RIGHTMOST_PARENT (nxt (s lastp));
        let c = child (s node);
        let nx = nxt (s node);
        if node = child (s parent) \<and> c = 0 then
          Some (heap, set_next node 0
            (set_child parent (if NEXT_IS_RIGHTMOST_PARENT nx then 0 else nx) s))
        else if node = child (s parent) then do {
          (n1, s1) \<leftarrow> mp_pairheap_pairing lt c (set_next node 0 (set_child node 0 s));
          Some (heap, relink parent n1 nx (set_child parent n1 s1)) }
        else do {
          n \<leftarrow> sibling_before node (child (s parent)) s;
          (n1, s1) \<leftarrow> mp_pairheap_pairing lt c (set_next node 0 (set_child node 0 s));
          if n1 = 0 then Some (heap, relink parent n nx s1)
          else Some (heap, relink parent n1 nx (set_next n n1 s1)) } })"

section \<open>Operations of the header\<close>

definition mp_pairheap_new :: u32 where "mp_pairheap_new = 0"

definition mp_pairheap_init_node :: "u32 \<Rightarrow> ph_store \<Rightarrow> ph_store" where
  "mp_pairheap_init_node node s = set_next node 0 (set_child node 0 s)"

definition mp_pairheap_is_empty :: "u32 \<Rightarrow> bool" where
  "mp_pairheap_is_empty heap \<longleftrightarrow> heap = 0"

definition mp_pairheap_peek :: "u32 \<Rightarrow> u32" where
  "mp_pairheap_peek heap = heap"

definition mp_pairheap_push :: "mp_pairheap_lt_t \<Rightarrow> u32 \<Rightarrow> u32 \<Rightarrow> ph_store \<Rightarrow> u32 \<times> ph_store" where
  "mp_pairheap_push lt heap node s = mp_pairheap_meld lt node heap s"

definition mp_pairheap_pop :: "mp_pairheap_lt_t \<Rightarrow> u32 \<Rightarrow> ph_store \<Rightarrow> (u32 \<times> ph_store) option" where
  "mp_pairheap_pop lt heap s = mp_pairheap_pairing lt (child (s heap)) (set_child heap 0 s)"

end
