(* ===== verification/PairTree.thy ===== *)
theory PairTree
  imports Main "HOL-Library.Multiset"
begin

text \<open>
  The pairing heap as a tree, and what it means as a queue.  A tree stands for the list of its elements
  sorted by key, where elements with equal keys keep the order in which they came: \<open>listing\<close> lists a
  tree so that among equal keys the older ones come first, and the queue is that list sorted.  Melding,
  pairing and deleting on trees do on that list what they should.
\<close>

datatype 'a htree = HNode (root: 'a) (kids: "'a htree list")

section \<open>Stable sorting\<close>

text \<open>Lists with the same elements of every key, in the same order, are the same once sorted.\<close>

definition same_order :: "('a \<Rightarrow> int) \<Rightarrow> 'a list \<Rightarrow> 'a list \<Rightarrow> bool" where
  "same_order key xs ys \<longleftrightarrow> (\<forall>k. filter (\<lambda>x. key x = k) xs = filter (\<lambda>x. key x = k) ys)"

lemma same_order_refl [simp]: "same_order key xs xs"
  by (simp add: same_order_def)

lemma same_order_sym: "same_order key xs ys \<Longrightarrow> same_order key ys xs"
  by (simp add: same_order_def)

lemma same_order_trans [trans]: "same_order key xs ys \<Longrightarrow> same_order key ys zs \<Longrightarrow> same_order key xs zs"
  by (simp add: same_order_def)

lemma same_order_append: "same_order key xs ys \<Longrightarrow> same_order key vs ws \<Longrightarrow> same_order key (xs @ vs) (ys @ ws)"
  by (simp add: same_order_def)

lemma same_order_Cons: "same_order key xs ys \<Longrightarrow> same_order key (x # xs) (x # ys)"
  by (simp add: same_order_def)

lemma same_order_filter: "same_order key xs ys \<Longrightarrow> same_order key (filter P xs) (filter P ys)"
proof -
  have swap: "filter (\<lambda>x. key x = k) (filter P zs) = filter P (filter (\<lambda>x. key x = k) zs)" for k zs
    by (induction zs) auto
  show "same_order key xs ys \<Longrightarrow> same_order key (filter P xs) (filter P ys)"
    unfolding same_order_def swap by simp
qed

lemma same_order_mset:
  assumes "same_order key xs ys"
  shows "mset xs = mset ys"
proof (rule multiset_eqI)
  fix x
  have c: "count (mset zs) x = length (filter ((=) x) (filter (\<lambda>y. key y = key x) zs))" for zs
    by (induction zs) auto
  show "count (mset xs) x = count (mset ys) x"
    unfolding c using assms by (simp add: same_order_def)
qed

lemma same_order_set: "same_order key xs ys \<Longrightarrow> set xs = set ys"
  using same_order_mset by (metis set_mset_mset)

lemma sort_same_order: "same_order key xs (sort_key key xs)"
  by (simp add: same_order_def sort_key_stable)

lemma same_order_sort:
  assumes "same_order key xs ys"
  shows "sort_key key xs = sort_key key ys"
proof (rule properties_for_sort_key)
  show "mset (sort_key key ys) = mset xs" using same_order_mset [OF assms] by simp
  show "filter (\<lambda>x. key k = key x) (sort_key key ys) = filter (\<lambda>x. key k = key x) xs" if "k \<in> set (sort_key key ys)" for k
    using assms sort_key_stable [of key "key k" ys] by (simp add: same_order_def eq_commute [of "key k"])
qed simp

lemma sort_append_sorted:
  fixes key :: "'a \<Rightarrow> int"
  shows "sort_key key (sort_key key xs @ ys) = sort_key key (xs @ ys)"
  by (rule same_order_sort [OF same_order_append [OF same_order_sym [OF sort_same_order] same_order_refl]])

lemma sort_min_first:
  assumes "\<forall>x \<in> set xs. key p \<le> key x"
  shows "sort_key key (p # xs) = p # sort_key key xs"
proof -
  have "insort_key key p ys = p # ys" if "\<forall>x \<in> set ys. key p \<le> key x" for ys
    using that by (cases ys) auto
  then show ?thesis using assms by simp
qed

section \<open>Trees\<close>

primrec listing :: "'a htree \<Rightarrow> 'a list" where
  "listing (HNode p cs) = p # concat (rev (map listing cs))"

definition listings :: "'a htree list \<Rightarrow> 'a list" where
  "listings ts = concat (rev (map listing ts))"

lemma listings_simps [simp]:
  "listings [] = []" "listings (t # ts) = listings ts @ listing t" "listings (ts @ us) = listings us @ listings ts"
  by (simp_all add: listings_def)

lemma listing_node: "listing (HNode p cs) = p # listings cs"
  by (simp add: listings_def)

lemma root_in_listing [simp]: "root t \<in> set (listing t)"
  by (cases t) simp

lemma set_listings: "set (listings ts) = (\<Union>t \<in> set ts. set (listing t))"
  by (induction ts) auto

text \<open>The heap order.\<close>

fun ordered :: "('a \<Rightarrow> int) \<Rightarrow> 'a htree \<Rightarrow> bool" where
  "ordered key (HNode p cs) = (\<forall>c \<in> set cs. key p \<le> key (root c) \<and> ordered key c)"

lemma ordered_min: "ordered key t \<Longrightarrow> x \<in> set (listing t) \<Longrightarrow> key (root t) \<le> key x"
proof (induction t)
  case (HNode p cs)
  show ?case
  proof (cases "x = p")
    case False
    then obtain c where "c \<in> set cs" "x \<in> set (listing c)" using HNode.prems(2) by auto
    with HNode show ?thesis by fastforce
  qed simp
qed

lemma ordered_listings: "ordered key (HNode p cs) \<Longrightarrow> x \<in> set (listings cs) \<Longrightarrow> key p \<le> key x"
  using ordered_min [of key "HNode p cs" x] by (simp add: listings_def)

text \<open>The less-than operation compares keys, on the elements concerned.\<close>

definition keyed :: "('a \<Rightarrow> 'a \<Rightarrow> bool) \<Rightarrow> ('a \<Rightarrow> int) \<Rightarrow> 'a set \<Rightarrow> bool" where
  "keyed lt key A \<longleftrightarrow> (\<forall>a \<in> A. \<forall>b \<in> A. lt a b = (key a < key b))"

lemma keyed_sub: "keyed lt key A \<Longrightarrow> B \<subseteq> A \<Longrightarrow> keyed lt key B"
  unfolding keyed_def by blast

section \<open>Melding and pairing\<close>

fun meld_tree :: "('a \<Rightarrow> 'a \<Rightarrow> bool) \<Rightarrow> 'a htree \<Rightarrow> 'a htree \<Rightarrow> 'a htree" where
  "meld_tree lt (HNode p cs) (HNode q ds) =
     (if lt p q then HNode p (cs @ [HNode q ds]) else HNode q (HNode p cs # ds))"

lemma meld_tree_ok:
  assumes "keyed lt key (set (listing a) \<union> set (listing b))" "ordered key a" "ordered key b"
  shows "ordered key (meld_tree lt a b)" "same_order key (listing (meld_tree lt a b)) (listing b @ listing a)"
    "root (meld_tree lt a b) \<in> {root a, root b}"
proof -
  obtain p cs where a: "a = HNode p cs" by (cases a)
  obtain q ds where b: "b = HNode q ds" by (cases b)
  have lt: "lt p q = (key p < key q)" using assms(1) by (simp add: keyed_def a b)
  show "ordered key (meld_tree lt a b)" using assms(2,3) lt by (auto simp: a b)
  show "root (meld_tree lt a b) \<in> {root a, root b}" by (simp add: a b)
  show "same_order key (listing (meld_tree lt a b)) (listing b @ listing a)"
  proof (cases "lt p q")
    case True
    have "\<forall>y \<in> set (listing b). key p < key y"
      using True lt ordered_min [OF assms(3)] b by fastforce
    then have "filter (\<lambda>x. key x = key p) (listing b) = []" by (auto simp: filter_empty_conv)
    then have "same_order key (p # listing b) (listing b @ [p])"
      by (auto simp: same_order_def)
    then have "same_order key ((p # listing b) @ listings cs) ((listing b @ [p]) @ listings cs)"
      by (rule same_order_append) simp
    then show ?thesis using True by (simp add: a b listing_node del: listing.simps)
  qed (simp add: a b listing_node del: listing.simps)
qed

lemma listing_meld: "mset (listing (meld_tree lt a b)) = mset (listing a) + mset (listing b)"
  by (cases a; cases b) (simp add: listing_node del: listing.simps)

fun meld_opt :: "('a \<Rightarrow> 'a \<Rightarrow> bool) \<Rightarrow> 'a htree option \<Rightarrow> 'a htree \<Rightarrow> 'a htree" where
  "meld_opt lt None t = t"
| "meld_opt lt (Some h) t = meld_tree lt h t"

fun pair_all :: "('a \<Rightarrow> 'a \<Rightarrow> bool) \<Rightarrow> 'a htree option \<Rightarrow> 'a htree list \<Rightarrow> 'a htree option" where
  "pair_all lt heap [] = heap"
| "pair_all lt heap [a] = Some (meld_opt lt heap a)"
| "pair_all lt heap (a # b # ts) = pair_all lt (Some (meld_opt lt heap (meld_tree lt a b))) ts"

definition opt_trees :: "'a htree option \<Rightarrow> 'a htree list" where
  "opt_trees h = (case h of None \<Rightarrow> [] | Some t \<Rightarrow> [t])"

lemma opt_trees_simps [simp]: "opt_trees None = []" "opt_trees (Some t) = [t]"
  by (simp_all add: opt_trees_def)

lemma meld_opt_ok:
  assumes "keyed lt key (set (listings (opt_trees h)) \<union> set (listing t))" "ordered key t" "\<forall>u \<in> set (opt_trees h). ordered key u"
  shows "ordered key (meld_opt lt h t)" "same_order key (listing (meld_opt lt h t)) (listing t @ listings (opt_trees h))"
proof -
  show "ordered key (meld_opt lt h t)" using assms meld_tree_ok(1) by (cases h) auto
  show "same_order key (listing (meld_opt lt h t)) (listing t @ listings (opt_trees h))"
    using assms meld_tree_ok(2) by (cases h) auto
qed

lemma pair_all_ok:
  assumes "keyed lt key (set (listings (opt_trees h)) \<union> set (listings ts))"
    and "\<forall>t \<in> set ts. ordered key t" "\<forall>u \<in> set (opt_trees h). ordered key u"
  shows "(\<forall>u \<in> set (opt_trees (pair_all lt h ts)). ordered key u) \<and>
    same_order key (listings (opt_trees (pair_all lt h ts))) (listings ts @ listings (opt_trees h))"
  using assms
proof (induction lt h ts rule: pair_all.induct)
  case (2 lt h a)
  then show ?case using meld_opt_ok [of lt key h a] by simp
next
  case (3 lt h a b ts)
  let ?m = "meld_tree lt a b" and ?h = "meld_opt lt h (meld_tree lt a b)"
  have ab: "keyed lt key (set (listing a) \<union> set (listing b))"
    by (rule keyed_sub [OF 3(2)]) auto
  have m: "ordered key ?m" "same_order key (listing ?m) (listing b @ listing a)"
    using meld_tree_ok [OF ab] 3(3) by simp_all
  have "keyed lt key (set (listings (opt_trees h)) \<union> set (listing ?m))"
    by (rule keyed_sub [OF 3(2)]) (auto simp: same_order_set [OF m(2)])
  note hh = meld_opt_ok [OF this m(1) 3(4)]
  have lh: "same_order key (listing ?h) ((listing b @ listing a) @ listings (opt_trees h))"
    using hh(2) same_order_append [OF m(2) same_order_refl] by (rule same_order_trans)
  have "keyed lt key (set (listings (opt_trees (Some ?h))) \<union> set (listings ts))"
    by (rule keyed_sub [OF 3(2)]) (auto simp: same_order_set [OF lh])
  with 3(1) 3(3) hh(1) have IH: "\<forall>u \<in> set (opt_trees (pair_all lt (Some ?h) ts)). ordered key u"
      "same_order key (listings (opt_trees (pair_all lt (Some ?h) ts))) (listings ts @ listing ?h)"
    by simp_all
  have "same_order key (listings ts @ listing ?h) (listings ts @ (listing b @ listing a) @ listings (opt_trees h))"
    by (rule same_order_append [OF same_order_refl lh])
  with IH show ?case using same_order_trans by fastforce
qed simp

section \<open>Deleting\<close>

fun del_tree :: "('a \<Rightarrow> 'a \<Rightarrow> bool) \<Rightarrow> 'a \<Rightarrow> 'a htree \<Rightarrow> 'a htree" where
  "del_tree lt x (HNode p cs) =
     HNode p (concat (map (\<lambda>c. if root c = x then opt_trees (pair_all lt None (kids c)) else [del_tree lt x c]) cs))"

lemma root_del [simp]: "root (del_tree lt x t) = root t"
  by (cases t) simp

lemma del_absent: "x \<notin> set (listing t) \<Longrightarrow> del_tree lt x t = t"
proof (induction t)
  case (HNode p cs)
  have "(if root c = x then opt_trees (pair_all lt None (kids c)) else [del_tree lt x c]) = [c]" if c: "c \<in> set cs" for c
  proof -
    have "x \<notin> set (listing c)" using HNode.prems c by auto
    then show ?thesis using HNode.IH [OF c] by auto
  qed
  then have "map (\<lambda>c. if root c = x then opt_trees (pair_all lt None (kids c)) else [del_tree lt x c]) cs = map (\<lambda>c. [c]) cs"
    by simp
  then show ?case by (simp del: map_eq_conv)
qed

lemma distinct_sub: "distinct (listings cs) \<Longrightarrow> c \<in> set cs \<Longrightarrow> distinct (listing c)"
  by (induction cs) auto

lemma distinct_kids: "distinct (listing (HNode p cs)) \<Longrightarrow> p \<notin> set (listings cs) \<and> distinct (listings cs)"
  by (simp add: listing_node del: listing.simps)

lemma lift_kids:
  assumes "keyed lt key (set (listing (HNode x ks)))" "ordered key (HNode x ks)"
  shows "\<forall>u \<in> set (opt_trees (pair_all lt None ks)). key x \<le> key (root u) \<and> ordered key u"
    "same_order key (listings (opt_trees (pair_all lt None ks))) (listings ks)"
proof -
  have "keyed lt key (set (listings (opt_trees None)) \<union> set (listings ks))"
    by (rule keyed_sub [OF assms(1)]) (auto simp: listings_def)
  from pair_all_ok [OF this] assms(2)
  have pa: "\<forall>u \<in> set (opt_trees (pair_all lt None ks)). ordered key u"
    "same_order key (listings (opt_trees (pair_all lt None ks))) (listings ks)" by simp_all
  then show "same_order key (listings (opt_trees (pair_all lt None ks))) (listings ks)" by simp
  have "key x \<le> key (root u)" if "u \<in> set (opt_trees (pair_all lt None ks))" for u
  proof -
    have "root u \<in> set (listings (opt_trees (pair_all lt None ks)))"
      unfolding set_listings using that root_in_listing [of u] by blast
    then have "root u \<in> set (listings ks)" using same_order_set [OF pa(2)] by simp
    then show ?thesis using ordered_listings [OF assms(2)] by simp
  qed
  with pa(1) show "\<forall>u \<in> set (opt_trees (pair_all lt None ks)). key x \<le> key (root u) \<and> ordered key u" by simp
qed

text \<open>What stands in the list of children for the child \<open>c\<close>.\<close>

definition del_kid :: "('a \<Rightarrow> 'a \<Rightarrow> bool) \<Rightarrow> 'a \<Rightarrow> 'a htree \<Rightarrow> 'a htree list" where
  "del_kid lt x c = (if root c = x then opt_trees (pair_all lt None (kids c)) else [del_tree lt x c])"

lemma del_tree_kids: "del_tree lt x (HNode p cs) = HNode p (concat (map (del_kid lt x) cs))"
  by (simp add: del_kid_def [abs_def])

lemma del_order:
  assumes "\<forall>c \<in> set cs. same_order key (listings (del_kid lt x c)) (filter (\<lambda>y. y \<noteq> x) (listing c))"
  shows "same_order key (listings (concat (map (del_kid lt x) cs))) (filter (\<lambda>y. y \<noteq> x) (listings cs))"
  using assms
proof (induction cs)
  case (Cons c cs)
  have "same_order key (listings (concat (map (del_kid lt x) cs)) @ listings (del_kid lt x c))
      (filter (\<lambda>y. y \<noteq> x) (listings cs) @ filter (\<lambda>y. y \<noteq> x) (listing c))"
    by (rule same_order_append) (use Cons in simp_all)
  then show ?case by (simp only: list.map concat.simps listings_simps filter_append)
qed simp

lemma del_kid_top:
  assumes "keyed lt key (set (listing c))" "ordered key c" "distinct (listing c)" "root c = x" "key p \<le> key (root c)"
  shows "(\<forall>u \<in> set (del_kid lt x c). key p \<le> key (root u) \<and> ordered key u) \<and>
    same_order key (listings (del_kid lt x c)) (filter (\<lambda>y. y \<noteq> x) (listing c))"
proof -
  obtain ks where c: "c = HNode x ks" using assms(4) by (cases c) simp
  have "x \<notin> set (listings ks)" using distinct_kids [of x ks] assms(3) unfolding c by blast
  then have f: "filter (\<lambda>y. y \<noteq> x) (listing c) = listings ks"
    unfolding c listing_node by (auto simp: filter_id_conv)
  have lk: "\<forall>u \<in> set (opt_trees (pair_all lt None ks)). key x \<le> key (root u) \<and> ordered key u"
    "same_order key (listings (opt_trees (pair_all lt None ks))) (listings ks)"
    using lift_kids [of lt key x ks] assms(1,2) unfolding c by blast+
  have e: "del_kid lt x c = opt_trees (pair_all lt None ks)" by (simp add: del_kid_def c)
  have "key p \<le> key x" using assms(5) c by simp
  then show ?thesis unfolding f e using lk by fastforce
qed

lemma del_tree_ok:
  assumes "keyed lt key (set (listing t))" "ordered key t" "distinct (listing t)" "root t \<noteq> x"
  shows "ordered key (del_tree lt x t) \<and> same_order key (listing (del_tree lt x t)) (filter (\<lambda>y. y \<noteq> x) (listing t))"
  using assms
proof (induction t)
  case (HNode p cs)
  have one: "(\<forall>u \<in> set (del_kid lt x c). key p \<le> key (root u) \<and> ordered key u) \<and>
      same_order key (listings (del_kid lt x c)) (filter (\<lambda>y. y \<noteq> x) (listing c))" if c: "c \<in> set cs" for c
  proof -
    have sub: "set (listing c) \<subseteq> set (listing (HNode p cs))" using c by auto
    have k: "keyed lt key (set (listing c))" by (rule keyed_sub [OF HNode.prems(1) sub])
    have o: "ordered key c" "key p \<le> key (root c)" using HNode.prems(2) c by simp_all
    have d: "distinct (listing c)"
      by (rule distinct_sub [OF conjunct2 [OF distinct_kids [OF HNode.prems(3)]] c])
    show ?thesis
    proof (cases "root c = x")
      case False
      then show ?thesis using HNode.IH [OF c k o(1) d False] o(2) by (simp add: del_kid_def)
    qed (rule del_kid_top [OF k o(1) d _ o(2)])
  qed
  have "p \<noteq> x" using HNode.prems(4) by simp
  moreover have "same_order key (p # listings (concat (map (del_kid lt x) cs))) (p # filter (\<lambda>y. y \<noteq> x) (listings cs))"
    by (rule same_order_Cons [OF del_order]) (use one in blast)
  moreover have "\<forall>u \<in> set (concat (map (del_kid lt x) cs)). key p \<le> key (root u) \<and> ordered key u"
    unfolding set_concat set_map using one by blast
  ultimately show ?case
    by (simp only: del_tree_kids ordered.simps listing_node filter.simps if_True) simp
qed

section \<open>The queue\<close>

definition queue_of :: "('a \<Rightarrow> int) \<Rightarrow> 'a htree option \<Rightarrow> 'a list" where
  "queue_of key h = sort_key key (listings (opt_trees h))"

lemma queue_set: "set (queue_of key h) = set (listings (opt_trees h))"
  by (simp add: queue_of_def)

lemma queue_push:
  assumes "keyed lt key (insert x (set (queue_of key h)))" "\<forall>u \<in> set (opt_trees h). ordered key u"
  shows "ordered key (case h of None \<Rightarrow> HNode x [] | Some t \<Rightarrow> meld_tree lt (HNode x []) t)"
    "queue_of key (Some (case h of None \<Rightarrow> HNode x [] | Some t \<Rightarrow> meld_tree lt (HNode x []) t)) =
      sort_key key (queue_of key h @ [x])"
proof -
  have q: "sort_key key (queue_of key h @ [x]) = sort_key key (listings (opt_trees h) @ [x])"
    by (simp add: queue_of_def sort_append_sorted)
  show "ordered key (case h of None \<Rightarrow> HNode x [] | Some t \<Rightarrow> meld_tree lt (HNode x []) t)"
    using assms meld_tree_ok(1) [of lt key "HNode x []"] by (auto simp: queue_set split: option.splits)
  show "queue_of key (Some (case h of None \<Rightarrow> HNode x [] | Some t \<Rightarrow> meld_tree lt (HNode x []) t)) =
      sort_key key (queue_of key h @ [x])"
  proof (cases h)
    case (Some t)
    have "keyed lt key (set (listing (HNode x [])) \<union> set (listing t))"
      using assms(1) Some by (simp add: queue_set)
    from meld_tree_ok(2) [OF this] assms(2) Some
    have "same_order key (listing (meld_tree lt (HNode x []) t)) (listing t @ [x])" by simp
    then show ?thesis unfolding q using Some same_order_sort by (simp add: queue_of_def)
  qed (simp add: queue_of_def)
qed

lemma queue_pop:
  assumes "keyed lt key (set (queue_of key (Some t)))" "ordered key t"
  shows "queue_of key (Some t) = root t # queue_of key (pair_all lt None (kids t))"
    "\<forall>u \<in> set (opt_trees (pair_all lt None (kids t))). ordered key u"
proof -
  obtain p cs where t: "t = HNode p cs" by (cases t)
  have "keyed lt key (set (listings (opt_trees None)) \<union> set (listings cs))"
    by (rule keyed_sub [OF assms(1)]) (auto simp: queue_set t listings_def)
  note pair = pair_all_ok [OF this]
  have pa: "\<forall>u \<in> set (opt_trees (pair_all lt None cs)). ordered key u"
    "same_order key (listings (opt_trees (pair_all lt None cs))) (listings cs)"
    using pair assms(2) t by simp_all
  show "\<forall>u \<in> set (opt_trees (pair_all lt None (kids t))). ordered key u" using pa(1) t by simp
  have "sort_key key (p # listings cs) = p # sort_key key (listings cs)"
    by (rule sort_min_first) (use ordered_listings [of key p cs] assms(2) t in simp)
  then show "queue_of key (Some t) = root t # queue_of key (pair_all lt None (kids t))"
    using same_order_sort [OF pa(2)] by (simp add: queue_of_def t listing_node del: listing.simps)
qed

lemma queue_delete:
  assumes "keyed lt key (set (queue_of key (Some t)))" "ordered key t" "distinct (listing t)" "root t \<noteq> x"
  shows "queue_of key (Some (del_tree lt x t)) = filter (\<lambda>y. y \<noteq> x) (queue_of key (Some t))"
    "ordered key (del_tree lt x t)"
proof -
  have "keyed lt key (set (listing t))" using assms(1) by (simp add: queue_set)
  from del_tree_ok [OF this assms(2-4)]
  show "queue_of key (Some (del_tree lt x t)) = filter (\<lambda>y. y \<noteq> x) (queue_of key (Some t))"
    "ordered key (del_tree lt x t)"
    using same_order_sort by (auto simp: queue_of_def filter_sort)
qed

lemma queue_sorted: "sorted (map key (queue_of key h))"
  by (simp add: queue_of_def)

end
