(* ===== verification/PairRep.thy ===== *)
theory PairRep
  imports PairHeap PairTree
begin

text \<open>
  The pairing heap in the store stands for a tree: \<open>tree_ok\<close> follows the pointers of a node through its
  children.  Each operation on the store is the operation on the tree, changes only the nodes of the
  trees it is given, and its loops end.
\<close>

named_theorems ph_defs

lemmas [ph_defs] = set_child_def set_child_last_def set_next_def

section \<open>Trees in the store\<close>

text \<open>Addresses of nodes are not null and are aligned, so the lowest bit of a pointer is free.\<close>

definition node_addr :: "u32 \<Rightarrow> bool" where
  "node_addr p \<longleftrightarrow> p \<noteq> 0 \<and> p AND 1 = 0"

lemma parent_tag [simp]: "NEXT_IS_RIGHTMOST_PARENT (NEXT_MAKE_RIGHTMOST_PARENT p)"
proof -
  have "bit ((p OR 1) AND 1) 0" by (simp add: bit_simps)
  then have "(p OR 1) AND 1 \<noteq> 0" by auto
  then show ?thesis by (simp add: NEXT_IS_RIGHTMOST_PARENT_def NEXT_MAKE_RIGHTMOST_PARENT_def)
qed

lemma parent_tag_nonzero [simp]: "NEXT_MAKE_RIGHTMOST_PARENT p \<noteq> 0"
  using parent_tag [of p] by (auto simp: NEXT_IS_RIGHTMOST_PARENT_def)

lemma parent_of_tag: "node_addr p \<Longrightarrow> NEXT_GET_RIGHTMOST_PARENT (NEXT_MAKE_RIGHTMOST_PARENT p) = p"
proof -
  assume "node_addr p"
  then have "p AND 1 = 0" by (simp add: node_addr_def)
  then have "\<not> bit (p AND 1) 0" by (simp only: bit_0_eq) simp
  then have "\<not> bit p 0" by (simp add: bit_and_iff)
  then show "NEXT_GET_RIGHTMOST_PARENT (NEXT_MAKE_RIGHTMOST_PARENT p) = p"
    unfolding NEXT_GET_RIGHTMOST_PARENT_def NEXT_MAKE_RIGHTMOST_PARENT_def
    by (intro bit_word_eqI) (auto simp: bit_simps intro!: gr0I)
qed

lemma node_no_tag: "node_addr p \<Longrightarrow> \<not> NEXT_IS_RIGHTMOST_PARENT p"
  by (simp add: node_addr_def NEXT_IS_RIGHTMOST_PARENT_def)

lemma node_nonzero: "node_addr p \<Longrightarrow> p \<noteq> 0"
  by (simp add: node_addr_def)

definition first :: "u32 htree list \<Rightarrow> u32 \<Rightarrow> u32" where
  "first ts e = (case ts of [] \<Rightarrow> e | t # _ \<Rightarrow> root t)"

lemma first_simps [simp]: "first [] e = e" "first (t # ts) e = root t" "first (ts @ us) e = first ts (first us e)"
  by (simp_all add: first_def split: list.splits)

fun tree_ok :: "ph_store \<Rightarrow> u32 htree \<Rightarrow> bool"
and trees_ok :: "ph_store \<Rightarrow> u32 \<Rightarrow> u32 htree list \<Rightarrow> bool" where
  "tree_ok s (HNode p cs) \<longleftrightarrow> child (s p) = first cs 0 \<and> (cs \<noteq> [] \<longrightarrow> child_last (s p) = root (last cs)) \<and>
     trees_ok s (NEXT_MAKE_RIGHTMOST_PARENT p) cs"
| "trees_ok s e [] \<longleftrightarrow> True"
| "trees_ok s e (t # ts) \<longleftrightarrow> tree_ok s t \<and> nxt (s (root t)) = first ts e \<and> trees_ok s e ts"

lemma trees_ok_append: "trees_ok s e (ts @ us) \<longleftrightarrow> trees_ok s (first us e) ts \<and> trees_ok s e us"
  by (induction ts) (auto)

text \<open>The heap of an operation: a tree at the top, or none.\<close>

definition top_of :: "u32 htree option \<Rightarrow> u32" where
  "top_of h = (case h of None \<Rightarrow> 0 | Some t \<Rightarrow> root t)"

lemma top_of_simps [simp]: "top_of None = 0" "top_of (Some t) = root t"
  by (simp_all add: top_of_def)

definition heap_ok :: "ph_store \<Rightarrow> u32 htree option \<Rightarrow> bool" where
  "heap_ok s h \<longleftrightarrow> (case h of None \<Rightarrow> True | Some t \<Rightarrow> tree_ok s t \<and> nxt (s (root t)) = 0)"

lemma heap_ok_simps [simp]:
  "heap_ok s None" "heap_ok s (Some t) \<longleftrightarrow> tree_ok s t \<and> nxt (s (root t)) = 0"
  by (simp_all add: heap_ok_def)

definition nodes_ok :: "u32 list \<Rightarrow> bool" where
  "nodes_ok xs \<longleftrightarrow> distinct xs \<and> (\<forall>a \<in> set xs. node_addr a)"

lemma nodes_ok_append: "nodes_ok (xs @ ys) \<longleftrightarrow> nodes_ok xs \<and> nodes_ok ys \<and> set xs \<inter> set ys = {}"
  by (auto simp: nodes_ok_def)

lemma nodes_ok_Cons: "nodes_ok (x # ys) \<longleftrightarrow> node_addr x \<and> nodes_ok ys \<and> x \<notin> set ys"
  by (auto simp: nodes_ok_def)

lemma nodes_ok_Nil [simp]: "nodes_ok []"
  by (simp add: nodes_ok_def)

lemma nodes_ok_root: "nodes_ok (listing t) \<Longrightarrow> node_addr (root t)"
  by (simp add: nodes_ok_def)

section \<open>Frames\<close>

lemma kids_in: "c \<in> set cs \<Longrightarrow> set (listing c) \<subseteq> set (listings cs)"
  by (auto simp: set_listings)

lemma roots_in: "c \<in> set cs \<Longrightarrow> root c \<in> set (listings cs)"
  using kids_in root_in_listing by (rule subsetD)

lemma frame:
  "\<forall>a \<in> set (listings (kids t)). s' a = s a \<Longrightarrow> child (s' (root t)) = child (s (root t)) \<Longrightarrow>
    child_last (s' (root t)) = child_last (s (root t)) \<Longrightarrow> tree_ok s' t = tree_ok s t"
  "\<forall>a \<in> set (listings ts). s' a = s a \<Longrightarrow> trees_ok s' e ts = trees_ok s e ts"
proof (induction s t and s e ts rule: tree_ok_trees_ok.induct)
  case (3 s e t ts)
  obtain p cs where t: "t = HNode p cs" by (cases t)
  have "\<forall>a \<in> set (listings (kids t)). s' a = s a" "s' (root t) = s (root t)" "\<forall>a \<in> set (listings ts). s' a = s a"
    using "3.prems" unfolding listings_simps t listing_node by auto
  with "3.IH" show ?case by simp
qed auto

lemmas trees_frame = frame(2)

lemma tree_frame:
  assumes "\<forall>a \<in> set (listing t). s' a = s a"
  shows "tree_ok s' t = tree_ok s t"
proof -
  obtain p cs where t: "t = HNode p cs" by (cases t)
  show ?thesis by (rule frame(1)) (use assms in \<open>simp_all add: t listing_node del: listing.simps\<close>)
qed

definition same_off :: "u32 set \<Rightarrow> ph_store \<Rightarrow> ph_store \<Rightarrow> bool" where
  "same_off A s s' \<longleftrightarrow> (\<forall>a. a \<notin> A \<longrightarrow> s' a = s a)"

lemma same_off_refl [simp]: "same_off A s s"
  by (simp add: same_off_def)

lemma same_offD: "same_off A s s' \<Longrightarrow> a \<notin> A \<Longrightarrow> s' a = s a"
  by (simp add: same_off_def)

lemma same_off_trans: "same_off A s s' \<Longrightarrow> same_off B s' s'' \<Longrightarrow> A \<subseteq> C \<Longrightarrow> B \<subseteq> C \<Longrightarrow> same_off C s s''"
  unfolding same_off_def by (metis subsetD)

lemma same_off_mono: "same_off A s s' \<Longrightarrow> A \<subseteq> C \<Longrightarrow> same_off C s s'"
  by (auto simp: same_off_def)

lemma tree_off: "same_off A s s' \<Longrightarrow> A \<inter> set (listing t) = {} \<Longrightarrow> tree_ok s' t = tree_ok s t"
  by (rule tree_frame) (auto simp: same_off_def)

lemma trees_off: "same_off A s s' \<Longrightarrow> A \<inter> set (listings ts) = {} \<Longrightarrow> trees_ok s' e ts = trees_ok s e ts"
  by (rule trees_frame) (auto simp: same_off_def)

section \<open>Melding\<close>

lemma meld_refines:
  assumes "tree_ok s a" "tree_ok s b" "nodes_ok (listing a @ listing b)"
  shows "\<exists>s'. mp_pairheap_meld lt (root a) (root b) s = (root (meld_tree lt a b), s') \<and>
    tree_ok s' (meld_tree lt a b) \<and> nxt (s' (root (meld_tree lt a b))) = nxt (s (root (meld_tree lt a b))) \<and>
    same_off (set (listing a) \<union> set (listing b)) s s'"
proof -
  obtain p cs where a: "a = HNode p cs" by (cases a)
  obtain q ds where b: "b = HNode q ds" by (cases b)
  have n: "node_addr p" "node_addr q" "nodes_ok (listings cs)" "nodes_ok (listings ds)" "p \<noteq> q"
    "p \<notin> set (listings cs)" "p \<notin> set (listings ds)" "q \<notin> set (listings cs)" "q \<notin> set (listings ds)"
    "set (listings cs) \<inter> set (listings ds) = {}"
    using assms(3) unfolding a b listing_node nodes_ok_append nodes_ok_Cons by auto
  note nz = node_nonzero [OF n(1)] node_nonzero [OF n(2)]
  have A: "child (s p) = first cs 0" "cs \<noteq> [] \<Longrightarrow> child_last (s p) = root (last cs)" "trees_ok s (NEXT_MAKE_RIGHTMOST_PARENT p) cs"
    and B: "child (s q) = first ds 0" "ds \<noteq> [] \<Longrightarrow> child_last (s q) = root (last ds)" "trees_ok s (NEXT_MAKE_RIGHTMOST_PARENT q) ds"
    using assms(1,2) by (simp_all add: a b)
  have off: "root t \<noteq> p \<and> root t \<noteq> q" if "t \<in> set cs \<union> set ds" for t
    using that n(6-9) roots_in [of t cs] roots_in [of t ds] by blast
  show ?thesis
  proof (cases "lt p q")
    case True
    show ?thesis
    proof (cases cs rule: rev_cases)
      case Nil
      let ?s = "set_next q (NEXT_MAKE_RIGHTMOST_PARENT p) (set_child_last p q (set_child p q s))"
      have "trees_ok ?s (NEXT_MAKE_RIGHTMOST_PARENT q) ds"
        using B(3) by (subst trees_frame) (use n in \<open>auto simp: ph_defs\<close>)
      then have "tree_ok ?s (HNode p [HNode q ds])"
        using n(5) B by (auto simp: ph_defs)
      then show ?thesis
        using True Nil A(1) n(5) nz by (auto simp: a b mp_pairheap_meld_def ph_defs same_off_def)
    next
      case (snoc ini l)
      let ?l = "root l"
      let ?s = "set_next q (NEXT_MAKE_RIGHTMOST_PARENT p) (set_child_last p q (set_next ?l q s))"
      have l: "?l \<noteq> p" "?l \<noteq> q" using off [of l] snoc by simp_all
      have ll: "?l \<notin> set (listings ini)" "?l \<notin> set (listings (kids l))" "?l \<notin> set (listings ds)"
        "set (listings (kids l)) \<subseteq> set (listings cs)" "set (listings ini) \<subseteq> set (listings cs)"
        using n(3,10) unfolding snoc by (cases l; auto simp: nodes_ok_append nodes_ok_Cons listing_node simp del: listing.simps)+
      have fr: "same_off {p, q, ?l} s ?s" by (simp add: ph_defs same_off_def)
      have "trees_ok ?s (NEXT_MAKE_RIGHTMOST_PARENT q) ds"
        using B(3) trees_off [OF fr, of ds] n ll by simp
      moreover have "trees_ok ?s ?l ini" "tree_ok ?s l"
      proof -
        have "trees_ok s ?l ini" "tree_ok s l" using A(3) unfolding snoc trees_ok_append by simp_all
        have "p \<notin> set (listings ini)" "q \<notin> set (listings ini)" "p \<notin> set (listings (kids l))" "q \<notin> set (listings (kids l))"
          using n ll by blast+
        then show "trees_ok ?s ?l ini" using \<open>trees_ok s ?l ini\<close> trees_off [OF fr, of ini] ll by simp
        show "tree_ok ?s l" using \<open>tree_ok s l\<close>
        proof (subst frame(1))
          show "\<forall>a \<in> set (listings (kids l)). ?s a = s a"
            using ll \<open>p \<notin> set (listings (kids l))\<close> \<open>q \<notin> set (listings (kids l))\<close> by (auto simp: ph_defs)
        qed (use l in \<open>simp_all add: ph_defs\<close>)
      qed
      moreover have "nxt (?s ?l) = q" "nxt (?s q) = NEXT_MAKE_RIGHTMOST_PARENT p" "child (?s p) = child (s p)"
        "child_last (?s p) = q" "child (?s q) = child (s q)" "child_last (?s q) = child_last (s q)" "nxt (?s p) = nxt (s p)"
        using l n(5) by (auto simp: ph_defs)
      ultimately have "tree_ok ?s (HNode p (cs @ [HNode q ds]))" "nxt (?s p) = nxt (s p)"
        using A(1) B by (simp_all add: snoc trees_ok_append)
      moreover have "same_off (set (listing a) \<union> set (listing b)) s ?s"
        using fr roots_in [of l cs] snoc unfolding same_off_def a b listing_node by auto
      moreover have "child (s p) \<noteq> 0"
      proof -
        have "node_addr (first cs 0)" using n(3) snoc by (cases ini) (auto simp: nodes_ok_def)
        then show ?thesis using A(1) node_nonzero by metis
      qed
      moreover have "child_last (s p) = ?l" using A(2) snoc by simp
      ultimately show ?thesis
        using True nz by (simp add: a b mp_pairheap_meld_def)
    qed
  next
    case False
    let ?s2 = "set_child q p (set_next p (child (s q)) s)"
    let ?s = "if ds = [] then set_next p (NEXT_MAKE_RIGHTMOST_PARENT q) (set_child_last q p ?s2) else ?s2"
    have fr: "same_off {p, q} s ?s" by (simp add: ph_defs same_off_def)
    have "child (s q) = 0 \<longleftrightarrow> ds = []"
    proof (cases ds)
      case (Cons d ds')
      then have "node_addr (root d)" using n(4) by (simp add: nodes_ok_def)
      then show ?thesis using B(1) Cons node_nonzero by auto
    qed (use B in simp)
    then have "mp_pairheap_meld lt p q s = (q, ?s)"
      using False nz n(5) by (simp add: mp_pairheap_meld_def) (simp add: ph_defs)
    moreover have "trees_ok ?s (NEXT_MAKE_RIGHTMOST_PARENT p) cs" "trees_ok ?s (NEXT_MAKE_RIGHTMOST_PARENT q) ds"
      using A(3) B(3) trees_off [OF fr, of cs] trees_off [OF fr, of ds] n by simp_all
    moreover have "child (?s p) = child (s p)" "child_last (?s p) = child_last (s p)" "child (?s q) = p"
      "child_last (?s q) = (if ds = [] then p else child_last (s q))" "nxt (?s q) = nxt (s q)"
      "nxt (?s p) = (if ds = [] then NEXT_MAKE_RIGHTMOST_PARENT q else child (s q))"
      using n(5) by (auto simp: ph_defs)
    ultimately show ?thesis
      using False A B fr by (cases ds) (auto simp: a b same_off_def)
  qed
qed

lemma nodes_ok_mset: "mset xs = mset ys \<Longrightarrow> nodes_ok xs = nodes_ok ys"
  unfolding nodes_ok_def using mset_eq_imp_distinct_iff mset_eq_setD by metis

lemma listing_meld_opt: "mset (listing (meld_opt lt h t)) = mset (listings (opt_trees h) @ listing t)"
  by (cases h) (simp_all add: listing_meld)

lemma set_meld_opt: "set (listing (meld_opt lt h t)) = set (listings (opt_trees h)) \<union> set (listing t)"
  using mset_eq_setD [OF listing_meld_opt] by simp

lemma set_meld: "set (listing (meld_tree lt a b)) = set (listing a) \<union> set (listing b)"
  using set_meld_opt [of lt "Some a" b] by simp

lemma root_meld: "root (meld_tree lt a b) = root a \<or> root (meld_tree lt a b) = root b"
  by (cases a; cases b) simp

lemma meld_opt_refines:
  assumes "heap_ok s h" "tree_ok s t" "nxt (s (root t)) = 0" "nodes_ok (listings (opt_trees h) @ listing t)"
  shows "\<exists>s'. mp_pairheap_meld lt (top_of h) (root t) s = (root (meld_opt lt h t), s') \<and>
    heap_ok s' (Some (meld_opt lt h t)) \<and> same_off (set (listings (opt_trees h)) \<union> set (listing t)) s s'"
proof (cases h)
  case None
  then show ?thesis using assms by (simp add: mp_pairheap_meld_def)
next
  case (Some u)
  have "nxt (s (root (meld_tree lt u t))) = 0"
    using assms Some by (cases u; cases t) simp
  then show ?thesis using meld_refines [of s u t lt] assms Some by auto
qed

lemma clear_next:
  assumes "tree_ok s t" "nodes_ok (listing t)"
  shows "tree_ok (set_next (root t) v s) t"
proof -
  obtain p cs where t: "t = HNode p cs" by (cases t)
  have "p \<notin> set (listings cs)" using assms(2) by (simp add: t listing_node nodes_ok_Cons del: listing.simps)
  then have "tree_ok (set_next (root t) v s) t = tree_ok s t"
    by (intro frame(1)) (auto simp: t ph_defs)
  with assms(1) show ?thesis by simp
qed

section \<open>Pairing\<close>

lemma set_next_off [simp]: "same_off {p} s (set_next p v s)" "nxt (set_next p v s p) = v"
  by (simp_all add: same_off_def set_next_def)

lemma pair_all_mset: "mset (listings (opt_trees (pair_all lt h ts))) = mset (listings (opt_trees h) @ listings ts)"
  by (induction lt h ts rule: pair_all.induct) (simp_all add: listing_meld_opt listing_meld)

lemma pair_all_set: "set (listings (opt_trees (pair_all lt h ts))) = set (listings (opt_trees h)) \<union> set (listings ts)"
  using mset_eq_setD [OF pair_all_mset] by simp

lemma heap_off: "same_off A s s' \<Longrightarrow> A \<inter> set (listings (opt_trees h)) = {} \<Longrightarrow> heap_ok s' h = heap_ok s h"
proof (cases h)
  case (Some t)
  assume *: "same_off A s s'" "A \<inter> set (listings (opt_trees h)) = {}"
  then have "root t \<notin> A" using root_in_listing [of t] Some by auto
  then show ?thesis using * Some same_offD [OF *(1)] by (simp add: tree_off)
qed simp

lemma pairing_loop_refines:
  assumes "NEXT_IS_RIGHTMOST_PARENT e" "trees_ok s e ts" "heap_ok s h" "nodes_ok (listings (opt_trees h) @ listings ts)"
  shows "\<exists>s'. pairing_loop lt (first ts e) (top_of h) s = Some (top_of (pair_all lt h ts), s') \<and>
    heap_ok s' (pair_all lt h ts) \<and> same_off (set (listings (opt_trees h)) \<union> set (listings ts)) s s'"
  using assms
proof (induction lt h ts arbitrary: s rule: pair_all.induct)
  case (1 lt h)
  then show ?case by (subst pairing_loop.simps) simp
next
  case (2 lt h a)
  let ?s1 = "set_next (root a) 0 s"
  have n: "nodes_ok (listing a)" "nodes_ok (listings (opt_trees h) @ listing a)" "root a \<notin> set (listings (opt_trees h))"
    using 2(4) root_in_listing [of a] by (auto simp: nodes_ok_append)
  have tag: "\<not> NEXT_IS_RIGHTMOST_PARENT (root a)" by (rule node_no_tag [OF nodes_ok_root [OF n(1)]])
  have "tree_ok ?s1 a" using clear_next [of s a 0] 2(2) n(1) by simp
  moreover have "heap_ok ?s1 h" using heap_off [OF set_next_off(1), of "root a" h 0 s] n(3) 2(3) by simp
  ultimately obtain s2 where s2: "mp_pairheap_meld lt (top_of h) (root a) ?s1 = (root (meld_opt lt h a), s2)"
    "heap_ok s2 (Some (meld_opt lt h a))" "same_off (set (listings (opt_trees h)) \<union> set (listing a)) ?s1 s2"
    using meld_opt_refines [of ?s1 h a lt] n(2) by auto
  have "pairing_loop lt (first [a] e) (top_of h) s = pairing_loop lt e (root (meld_opt lt h a)) s2"
    by (subst pairing_loop.simps) (use tag 2(1,2) s2(1) in \<open>simp add: Let_def\<close>)
  also have "\<dots> = Some (root (meld_opt lt h a), s2)"
    by (subst pairing_loop.simps) (simp add: 2(1))
  finally show ?case using s2(2) same_off_trans [OF set_next_off(1) s2(3)] by simp
next
  case (3 lt h a b ts)
  let ?s1 = "set_next (root a) 0 s" and ?m = "meld_tree lt a b"
  let ?s2 = "set_next (root b) 0 ?s1" and ?h = "meld_opt lt h (meld_tree lt a b)"
  have n: "nodes_ok (listing a)" "nodes_ok (listing b)" "nodes_ok (listing a @ listing b)" "set (listing b) \<inter> set (listing a) = {}" "{root a, root b} \<inter> set (listings (opt_trees h)) = {}"
    "(set (listing a) \<union> set (listing b)) \<inter> set (listings (opt_trees h)) = {}"
    "(set (listings (opt_trees h)) \<union> set (listing a) \<union> set (listing b)) \<inter> set (listings ts) = {}"
    using 3(5) root_in_listing [of a] root_in_listing [of b] by (auto simp: nodes_ok_append)
  have ab: "root a \<noteq> root b" "root a \<notin> set (listing b)" "root b \<notin> set (listing a)"
    using n(4) root_in_listing [of a] root_in_listing [of b] by (metis IntI empty_iff)+
  note tags = node_no_tag [OF nodes_ok_root [OF n(1)]] node_no_tag [OF nodes_ok_root [OF n(2)]]
  have s2off: "same_off {root a, root b} s ?s2" by (simp add: same_off_def set_next_def)
  have ta: "tree_ok ?s2 a"
    using tree_off [OF set_next_off(1), of "root b" a 0 ?s1] ab(3) clear_next [of s a 0] 3(3) n(1) by simp
  have tb: "tree_ok ?s2 b"
    using clear_next [of ?s1 b 0] tree_off [OF set_next_off(1), of "root a" b 0 s] n(2) ab(2) 3(3) by simp
  have "nxt (?s2 (root a)) = 0" "nxt (?s2 (root b)) = 0" using ab(1) by (simp_all add: set_next_def)
  then have z: "nxt (?s2 (root ?m)) = 0" using root_meld [of lt a b] by metis
  obtain s3 where s3: "mp_pairheap_meld lt (root a) (root b) ?s2 = (root ?m, s3)" "tree_ok s3 ?m"
    "nxt (s3 (root ?m)) = 0" "same_off (set (listing a) \<union> set (listing b)) ?s2 s3"
    using meld_refines [OF ta tb n(3), of lt] unfolding z by blast
  have s3off: "same_off (set (listing a) \<union> set (listing b)) s s3"
    by (rule same_off_trans [OF s2off s3(4)]) auto
  have "heap_ok s3 h" using heap_off [OF s3off n(6)] 3(4) by simp
  moreover have "nodes_ok (listings (opt_trees h) @ listing ?m)"
    using 3(5) n(6) nodes_ok_mset [of "listing ?m" "listing a @ listing b"]
    by (auto simp: nodes_ok_append set_meld listing_meld n(3))
  ultimately obtain s4 where s4: "mp_pairheap_meld lt (top_of h) (root ?m) s3 = (root ?h, s4)"
    "heap_ok s4 (Some ?h)" "same_off (set (listings (opt_trees h)) \<union> set (listing ?m)) s3 s4"
    using meld_opt_refines [of s3 h ?m lt] s3(2,3) by auto
  have s4off: "same_off (set (listings (opt_trees h)) \<union> set (listing a) \<union> set (listing b)) s s4"
    by (rule same_off_trans [OF s3off s4(3)]) (auto simp: set_meld)
  have "trees_ok s4 e ts" using trees_off [OF s4off n(7)] 3(3) by simp
  moreover have "nodes_ok (listings (opt_trees (Some ?h)) @ listings ts)"
    using 3(5) nodes_ok_mset [of "listings (opt_trees (Some ?h)) @ listings ts" "listings (opt_trees h) @ listings (a # b # ts)"]
    by (simp add: listing_meld_opt listing_meld)
  ultimately obtain s' where s': "pairing_loop lt (first ts e) (root ?h) s4 = Some (top_of (pair_all lt (Some ?h) ts), s')"
    "heap_ok s' (pair_all lt (Some ?h) ts)" "same_off (set (listings (opt_trees (Some ?h))) \<union> set (listings ts)) s4 s'"
    using 3(1) [of s4] 3(2) s4(2) by auto
  have "nxt (s (root a)) = root b" "nxt (?s1 (root b)) = first ts e" using 3(3) ab(1) by (auto simp: set_next_def)
  then have "pairing_loop lt (first (a # b # ts) e) (top_of h) s = pairing_loop lt (first ts e) (root ?h) s4"
    by (subst pairing_loop.simps) (use tags s3(1) s4(1) in \<open>simp add: Let_def\<close>)
  moreover have "same_off (set (listings (opt_trees h)) \<union> set (listings (a # b # ts))) s s'"
    by (rule same_off_trans [OF s4off s'(3)]) (auto simp: set_meld_opt set_meld)
  ultimately show ?case using s'(1,2) by simp
qed

lemma set_next_id: "nxt (s p) = v \<Longrightarrow> set_next p v s = s"
  by (cases "s p") (auto simp: set_next_def fun_eq_iff)

lemma pairing_refines:
  assumes "trees_ok s (NEXT_MAKE_RIGHTMOST_PARENT p) ts" "nodes_ok (listings ts)"
  shows "\<exists>s'. mp_pairheap_pairing lt (first ts 0) s = Some (top_of (pair_all lt None ts), s') \<and>
    heap_ok s' (pair_all lt None ts) \<and> same_off (set (listings ts)) s s'"
proof (cases ts)
  case Nil
  then show ?thesis by (simp add: mp_pairheap_pairing_def)
next
  case (Cons t us)
  then have f: "first ts 0 = first ts (NEXT_MAKE_RIGHTMOST_PARENT p)" "first ts 0 \<noteq> 0"
    using assms(2) by (auto simp: nodes_ok_def node_addr_def)
  obtain s1 where s1: "pairing_loop lt (first ts (NEXT_MAKE_RIGHTMOST_PARENT p)) 0 s = Some (top_of (pair_all lt None ts), s1)"
    "heap_ok s1 (pair_all lt None ts)" "same_off (set (listings ts)) s s1"
    using pairing_loop_refines [OF parent_tag assms(1), of None lt] assms(2) by auto
  have "pair_all lt None ts \<noteq> None"
  proof
    assume "pair_all lt None ts = None"
    then show False using pair_all_set [of lt None ts] root_in_listing [of t] Cons by simp
  qed
  then obtain u where u: "pair_all lt None ts = Some u" by blast
  then have "set_next (root u) 0 s1 = s1" using s1(2) by (simp add: set_next_id)
  then show ?thesis using s1 u f by (simp add: mp_pairheap_pairing_def)
qed

end
