(* ===== verification/PairDelete.thy ===== *)
theory PairDelete
  imports PairRep
begin

text \<open>
  Deleting from the pairing heap: the walks of \<open>mp_pairheap_delete\<close> find the parent and the sibling
  before the node, the three ways in which a node leaves the children of its parent put its paired
  children in its place, and the whole operation is \<open>del_tree\<close> on the tree of the heap.
\<close>

section \<open>Deleting\<close>

lemma nodes_ok_tl: "nodes_ok (listings (t # ts)) \<Longrightarrow> nodes_ok (listings ts)"
  by (simp add: nodes_ok_append)

lemma last_sibling_ok:
  "trees_ok s (NEXT_MAKE_RIGHTMOST_PARENT p) (t # ts) \<Longrightarrow> nodes_ok (listings (t # ts)) \<Longrightarrow>
    last_sibling (root t) s = Some (root (last (t # ts))) \<and>
    nxt (s (root (last (t # ts)))) = NEXT_MAKE_RIGHTMOST_PARENT p"
proof (induction ts arbitrary: t)
  case Nil
  then show ?case by (subst last_sibling.simps) simp
next
  case (Cons u ts)
  have n: "nxt (s (root t)) = root u" using Cons.prems(1) by simp
  have "nodes_ok (listing u)" using Cons.prems(2) by (simp add: nodes_ok_append)
  then have "\<not> NEXT_IS_RIGHTMOST_PARENT (root u)" by (intro node_no_tag nodes_ok_root)
  then have "last_sibling (root t) s = last_sibling (root u) s"
    by (subst last_sibling.simps) (simp add: n)
  moreover have "trees_ok s (NEXT_MAKE_RIGHTMOST_PARENT p) (u # ts)" "nodes_ok (listings (u # ts))"
    using Cons.prems(1) nodes_ok_tl [OF Cons.prems(2)] by simp_all
  ultimately show ?case using Cons.IH [of u] by simp
qed

lemma sibling_before_ok:
  "trees_ok s e (t # ts @ x # us) \<Longrightarrow> nodes_ok (listings (t # ts @ x # us)) \<Longrightarrow>
    sibling_before (root x) (root t) s = Some (root (last (t # ts)))"
proof (induction ts arbitrary: t)
  case Nil
  then show ?case by (subst sibling_before.simps) simp
next
  case (Cons u ts)
  have "root x \<in> set (listing x)" "root u \<in> set (listing u)" "set (listing x) \<inter> set (listing u) = {}"
    using Cons.prems(2) by (auto simp: nodes_ok_append)
  then have "root x \<noteq> root u" by (metis IntI empty_iff)
  then have "sibling_before (root x) (root t) s = sibling_before (root x) (root u) s"
    using Cons.prems(1) by (subst sibling_before.simps) simp
  moreover have "trees_ok s e (u # ts @ x # us)" "nodes_ok (listings (u # ts @ x # us))"
    using Cons.prems(1) nodes_ok_tl [OF Cons.prems(2)] by simp_all
  ultimately show ?case using Cons.IH [of u] by simp
qed

text \<open>The parent of the node gets the paired children in the place of the node.\<close>

lemma relink_ok:
  assumes "trees_ok s (root u) pre" "tree_ok s u" "trees_ok s (NEXT_MAKE_RIGHTMOST_PARENT p) post"
    and "child (s p) = first (pre @ [u]) 0" "post \<noteq> [] \<longrightarrow> child_last (s p) = root (last post)"
    and "nodes_ok (listing (HNode p (pre @ u # post)))"
  defines "s' \<equiv> relink p (root u) (first post (NEXT_MAKE_RIGHTMOST_PARENT p)) s"
  shows "tree_ok s' (HNode p (pre @ u # post))" "same_off (set (listing (HNode p (pre @ u # post)))) s s'"
    "nxt (s' p) = nxt (s p)"
proof -
  let ?e = "NEXT_MAKE_RIGHTMOST_PARENT p"
  have n: "nodes_ok (listing u)" "p \<notin> set (listing u)" "p \<notin> set (listings pre)" "p \<notin> set (listings post)" "p \<noteq> root u"
    "root u \<notin> set (listings pre)" "root u \<notin> set (listings post)" "root u \<notin> set (listings (kids u))" "p \<notin> set (listings (kids u))"
    using assms(6) unfolding listing_node listings_simps nodes_ok_append nodes_ok_Cons
    by (cases u; auto simp: listing_node nodes_ok_Cons simp del: listing.simps)+
  have rt: "NEXT_IS_RIGHTMOST_PARENT (first post ?e) \<longleftrightarrow> post = []"
  proof (cases post)
    case (Cons q qs)
    then have "nodes_ok (listing q)"
      using assms(6) unfolding listing_node by (simp add: nodes_ok_append nodes_ok_Cons)
    then show ?thesis using Cons by (simp add: node_no_tag [OF nodes_ok_root])
  qed simp
  have off: "same_off {p, root u} s s'"
    by (simp add: s'_def relink_def ph_defs same_off_def Let_def)
  have f: "child (s' p) = child (s p)" "child (s' (root u)) = child (s (root u))" "child_last (s' (root u)) = child_last (s (root u))"
    "nxt (s' (root u)) = first post ?e" "nxt (s' p) = nxt (s p)" "child_last (s' p) = (if post = [] then root u else child_last (s p))"
    using n(5) rt by (auto simp: s'_def relink_def ph_defs Let_def)
  show "nxt (s' p) = nxt (s p)" by (rule f)
  have "tree_ok s' u = tree_ok s u"
    by (rule frame(1)) (use n f off same_offD in \<open>auto simp: same_off_def\<close>)
  moreover have "trees_ok s' (root u) pre" "trees_ok s' ?e post"
    using assms(1,3) trees_off [OF off] n by simp_all
  ultimately show "tree_ok s' (HNode p (pre @ u # post))"
    using assms(2,4,5) f by (simp add: trees_ok_append)
  show "same_off (set (listing (HNode p (pre @ u # post)))) s s'"
    using off roots_in [of u "pre @ u # post"] unfolding same_off_def listing_node by auto
qed

definition located :: "ph_store \<Rightarrow> u32 \<Rightarrow> u32 htree list \<Rightarrow> u32 htree \<Rightarrow> u32 htree list \<Rightarrow> bool" where
  "located s p pre x post \<longleftrightarrow> tree_ok s (HNode p (pre @ x # post)) \<and> nodes_ok (listing (HNode p (pre @ x # post)))"

lemma located_nodes:
  assumes "located s p pre x post"
  shows "node_addr p" "node_addr (root x)" "p \<noteq> root x" "p \<notin> set (listings (kids x))" "p \<notin> set (listings pre)"
    "p \<notin> set (listings post)" "root x \<notin> set (listings (kids x))" "root x \<notin> set (listings pre)" "root x \<notin> set (listings post)"
    "nodes_ok (listings (kids x))" "nodes_ok (listings (pre @ x # post))" "nodes_ok (listings pre)" "nodes_ok (listings post)"
    "set (listings (kids x)) \<inter> set (listings pre) = {}" "set (listings (kids x)) \<inter> set (listings post) = {}"
    "set (listings post) \<inter> set (listings pre) = {}"
proof -
  obtain q cs where x: "x = HNode q cs" by (cases x)
  have n: "node_addr p \<and> nodes_ok (listings (pre @ x # post)) \<and> p \<notin> set (listings (pre @ x # post))"
    using assms unfolding located_def listing_node nodes_ok_Cons by blast
  then show "nodes_ok (listings (pre @ x # post))" "node_addr p" by blast+
  show "node_addr (root x)" "p \<noteq> root x" "p \<notin> set (listings (kids x))" "p \<notin> set (listings pre)"
    "p \<notin> set (listings post)" "root x \<notin> set (listings (kids x))" "root x \<notin> set (listings pre)" "root x \<notin> set (listings post)"
    "nodes_ok (listings (kids x))" "nodes_ok (listings pre)" "nodes_ok (listings post)"
    "set (listings (kids x)) \<inter> set (listings pre) = {}" "set (listings (kids x)) \<inter> set (listings post) = {}"
    "set (listings post) \<inter> set (listings pre) = {}"
    using n unfolding x listings_simps listing_node by (auto simp: nodes_ok_append nodes_ok_Cons)
qed

lemma located_store:
  assumes "located s p pre x post"
  shows "child (s p) = first pre (root x)" "post \<noteq> [] \<Longrightarrow> child_last (s p) = root (last post)"
    "trees_ok s (root x) pre" "trees_ok s (NEXT_MAKE_RIGHTMOST_PARENT p) post" "tree_ok s x"
    "nxt (s (root x)) = first post (NEXT_MAKE_RIGHTMOST_PARENT p)" "child (s (root x)) = first (kids x) 0"
    "trees_ok s (NEXT_MAKE_RIGHTMOST_PARENT (root x)) (kids x)"
    "NEXT_GET_RIGHTMOST_PARENT (nxt (s (root (last (x # post))))) = p" "last_sibling (root x) s = Some (root (last (x # post)))"
    "nxt (s (root x)) \<noteq> 0"
    "NEXT_IS_RIGHTMOST_PARENT (nxt (s (root x))) \<longleftrightarrow> post = []" "child (s (root x)) = 0 \<longleftrightarrow> kids x = []"
proof -
  have t: "tree_ok s (HNode p (pre @ x # post))" using assms by (simp add: located_def)
  show "child (s p) = first pre (root x)" "post \<noteq> [] \<Longrightarrow> child_last (s p) = root (last post)"
    "trees_ok s (root x) pre" "trees_ok s (NEXT_MAKE_RIGHTMOST_PARENT p) post" "tree_ok s x"
    and nx: "nxt (s (root x)) = first post (NEXT_MAKE_RIGHTMOST_PARENT p)"
    using t by (auto simp: trees_ok_append)
  then show c: "child (s (root x)) = first (kids x) 0" and "trees_ok s (NEXT_MAKE_RIGHTMOST_PARENT (root x)) (kids x)"
    by (cases x; simp)+
  have ls: "last_sibling (root x) s = Some (root (last (x # post))) \<and>
      nxt (s (root (last (x # post)))) = NEXT_MAKE_RIGHTMOST_PARENT p"
    by (rule last_sibling_ok) (use t located_nodes(11) [OF assms] in \<open>simp_all add: trees_ok_append nodes_ok_append Int_Un_distrib\<close>)
  then show "last_sibling (root x) s = Some (root (last (x # post)))"
    "NEXT_GET_RIGHTMOST_PARENT (nxt (s (root (last (x # post))))) = p"
    using parent_of_tag [OF located_nodes(1) [OF assms]] by simp_all
  show "NEXT_IS_RIGHTMOST_PARENT (nxt (s (root x))) \<longleftrightarrow> post = []" and "nxt (s (root x)) \<noteq> 0"
  proof -
    have "node_addr (root q)" if "q \<in> set post" for q
      using located_nodes(13) [OF assms] roots_in [OF that] by (simp add: nodes_ok_def)
    then show "NEXT_IS_RIGHTMOST_PARENT (nxt (s (root x))) \<longleftrightarrow> post = []" "nxt (s (root x)) \<noteq> 0"
      using nx node_no_tag node_nonzero by (cases post; auto)+
  qed
  have "node_addr (root q)" if "q \<in> set (kids x)" for q
    using located_nodes(10) [OF assms] roots_in [OF that] by (simp add: nodes_ok_def)
  then show "child (s (root x)) = 0 \<longleftrightarrow> kids x = []"
    using c node_nonzero by (cases "kids x") auto
qed

text \<open>Taking the node out and pairing its children.\<close>

lemma pair_kids:
  assumes "located s p pre x post"
  shows "\<exists>s2. mp_pairheap_pairing lt (child (s (root x))) (set_next (root x) 0 (set_child (root x) 0 s)) =
      Some (top_of (pair_all lt None (kids x)), s2) \<and> heap_ok s2 (pair_all lt None (kids x)) \<and>
    same_off (insert (root x) (set (listings (kids x)))) s s2 \<and> child (s2 (root x)) = 0 \<and> nxt (s2 (root x)) = 0"
proof -
  let ?s1 = "set_next (root x) 0 (set_child (root x) 0 s)"
  have off: "same_off {root x} s ?s1" by (simp add: same_off_def ph_defs)
  have "trees_ok ?s1 (NEXT_MAKE_RIGHTMOST_PARENT (root x)) (kids x)"
    using trees_off [OF off, of "kids x"] located_nodes(7) [OF assms] located_store(8) [OF assms] by simp
  from pairing_refines [OF this located_nodes(10) [OF assms], of lt]
  obtain s2 where s2: "mp_pairheap_pairing lt (first (kids x) 0) ?s1 = Some (top_of (pair_all lt None (kids x)), s2)"
    "heap_ok s2 (pair_all lt None (kids x))" "same_off (set (listings (kids x))) ?s1 s2" by blast
  have "same_off (insert (root x) (set (listings (kids x)))) s s2"
    by (rule same_off_trans [OF off s2(3)]) auto
  moreover have "child (s2 (root x)) = 0" "nxt (s2 (root x)) = 0"
    using same_offD [OF s2(3) located_nodes(7) [OF assms]] by (simp_all add: ph_defs)
  ultimately show ?thesis using s2 located_store(7) [OF assms] by simp
qed

lemma paired:
  assumes "nodes_ok (listings ts)" "ts \<noteq> []"
  obtains u where "pair_all lt None ts = Some u" "set (listing u) = set (listings ts)" "nodes_ok (listing u)" "root u \<noteq> 0"
proof -
  obtain t us where ts: "ts = t # us" using assms(2) by (cases ts) auto
  have "pair_all lt None ts \<noteq> None"
  proof
    assume "pair_all lt None ts = None"
    then show False using pair_all_set [of lt None ts] root_in_listing [of t] ts by simp
  qed
  then obtain u where u: "pair_all lt None ts = Some u" by blast
  have "nodes_ok (listing u)"
    using nodes_ok_mset [OF pair_all_mset [of lt None ts]] assms(1) u by simp
  then show thesis
    using that [OF u] pair_all_set [of lt None ts] u node_nonzero [OF nodes_ok_root [of u]] by simp
qed

text \<open>The three ways in which a node leaves the children of its parent.\<close>

definition unlinked :: "ph_store \<Rightarrow> u32 \<Rightarrow> u32 htree list \<Rightarrow> u32 htree \<Rightarrow> u32 htree list \<Rightarrow> u32 htree list \<Rightarrow> ph_store \<Rightarrow> bool" where
  "unlinked s p pre x post ks s' \<longleftrightarrow> tree_ok s' (HNode p (pre @ ks @ post)) \<and> nxt (s' p) = nxt (s p) \<and>
     same_off (set (listing (HNode p (pre @ x # post)))) s s' \<and> child (s' (root x)) = 0 \<and> nxt (s' (root x)) = 0"

lemma unlink_leaf:
  assumes "located s p [] x post" "kids x = []"
  defines "s' \<equiv> set_next (root x) 0 (set_child p (if post = [] then 0 else nxt (s (root x))) s)"
  shows "unlinked s p [] x post [] s'"
proof -
  note n = located_nodes [OF assms(1)] and st = located_store [OF assms(1)]
  have off: "same_off {p, root x} s s'" by (simp add: s'_def same_off_def ph_defs)
  have "trees_ok s' (NEXT_MAKE_RIGHTMOST_PARENT p) post"
    using st(4) trees_off [OF off] n(6,9) by simp
  moreover have "child (s' p) = first post 0" "child_last (s' p) = child_last (s p)" "nxt (s' p) = nxt (s p)"
    "nxt (s' (root x)) = 0" "child (s' (root x)) = 0"
    using n(3) st(6,7) assms(2) by (auto simp: s'_def ph_defs first_def split: list.splits)
  moreover have "same_off (set (listing (HNode p ([] @ x # post)))) s s'"
    using off root_in_listing [of x] unfolding same_off_def listing_node by auto
  ultimately show ?thesis using st(2) by (simp add: unlinked_def)
qed

lemma unlink_relink:
  assumes loc: "located s p pre x post"
    and old: "same_off (set (listing (HNode p (pre @ x # post)))) s s3" "child (s3 (root x)) = 0" "nxt (s3 (root x)) = 0"
      "nxt (s3 p) = nxt (s p)" "child_last (s3 p) = child_last (s p)" "trees_ok s3 (NEXT_MAKE_RIGHTMOST_PARENT p) post"
    and u: "trees_ok s3 (root u) pre'" "tree_ok s3 u" "child (s3 p) = first (pre' @ [u]) 0" "nodes_ok (listings (pre' @ [u]))"
      "set (listings (pre' @ [u])) \<subseteq> set (listings (pre @ [x])) - {root x}" "pre' @ [u] = pre @ ks"
  shows "unlinked s p pre x post ks (relink p (root u) (nxt (s (root x))) s3)"
proof -
  let ?s = "relink p (root u) (nxt (s (root x))) s3" and ?old = "set (listing (HNode p (pre @ x # post)))"
  note n = located_nodes [OF loc] and st = located_store [OF loc]
  have sub: "set (listings (pre' @ u # post)) \<subseteq> set (listings (pre @ x # post)) - {root x}"
    using u(5) n(9) by auto
  have ok: "nodes_ok (listing (HNode p (pre' @ u # post)))"
  proof -
    have "set (listings post) \<inter> set (listings (pre @ [x])) = {}"
      using n(11) by (auto simp: nodes_ok_append)
    then have "nodes_ok (listings ((pre' @ [u]) @ post))"
      using u(4,5) n(13) unfolding listings_simps(3) [of "pre' @ [u]" post] nodes_ok_append by blast
    moreover have "p \<notin> set (listings (pre' @ u # post))"
      using sub loc unfolding located_def listing_node nodes_ok_Cons by blast
    ultimately show ?thesis using n(1) unfolding listing_node nodes_ok_Cons by simp
  qed
  have e: "first post (NEXT_MAKE_RIGHTMOST_PARENT p) = nxt (s (root x))" using st(6) by simp
  have cl: "post \<noteq> [] \<longrightarrow> child_last (s3 p) = root (last post)" using st(2) old(5) by simp
  note r = relink_ok [OF u(1,2) old(6) u(3) cl ok, unfolded e]
  have "root u \<in> set (listings (pre' @ [u]))" by (rule roots_in) simp
  with u(5) have "root u \<in> set (listings (pre @ [x])) - {root x}" by (rule subsetD)
  then have "root x \<noteq> root u" by (metis Diff_iff singletonI)
  then have "?s (root x) = s3 (root x)"
    using n(3) by (simp add: relink_def ph_defs Let_def)
  moreover have "same_off ?old s ?s"
    by (rule same_off_trans [OF old(1) r(2)]) (use sub in \<open>auto simp: listing_node simp del: listing.simps\<close>)
  moreover have "pre' @ u # post = pre @ ks @ post" using u(6) by (metis append.assoc append_Cons append_Nil)
  then have "tree_ok ?s (HNode p (pre @ ks @ post))" using r(1) by (simp only:)
  ultimately show ?thesis using r(3) old(2-4) by (simp add: unlinked_def)
qed

lemma unlink_first:
  assumes "located s p [] x post" "pair_all lt None (kids x) = Some u" "heap_ok s2 (Some u)"
    and "same_off (insert (root x) (set (listings (kids x)))) s s2" "child (s2 (root x)) = 0" "nxt (s2 (root x)) = 0"
  shows "unlinked s p [] x post [u] (relink p (root u) (nxt (s (root x))) (set_child p (root u) s2))"
proof (rule unlink_relink [where pre' = "[]", OF assms(1)])
  let ?s = "set_child p (root u) s2"
  note n = located_nodes [OF assms(1)] and st = located_store [OF assms(1)]
  have us: "set (listing u) = set (listings (kids x))" "nodes_ok (listing u)"
    using pair_all_set [of lt None "kids x"] nodes_ok_mset [OF pair_all_mset [of lt None "kids x"]] assms(2) n(10) by simp_all
  have off: "same_off {p} s2 ?s" by (simp add: same_off_def ph_defs)
  have sp: "s2 p = s p" using same_offD [OF assms(4)] n(3,4) by simp
  show "tree_ok ?s u" using assms(3) tree_off [OF off, of u] us n(4) by simp
  show "child_last (?s p) = child_last (s p)" "nxt (?s p) = nxt (s p)" "child (?s p) = first ([] @ [u]) 0"
    using sp by (simp_all add: ph_defs)
  show "child (?s (root x)) = 0" "nxt (?s (root x)) = 0" using assms(5,6) n(3) by (simp_all add: ph_defs)
  have l: "listings (kids x) = listings (kids x)" "set (listing x) = insert (root x) (set (listings (kids x)))"
    by (cases x; simp add: listings_def)+
  show "set (listings ([] @ [u])) \<subseteq> set (listings ([] @ [x])) - {root x}" "nodes_ok (listings ([] @ [u]))"
    using us n(7) l by auto
  show "same_off (set (listing (HNode p ([] @ x # post)))) s ?s"
    by (rule same_off_trans [OF assms(4) off]) (use l in \<open>auto simp: listing_node simp del: listing.simps\<close>)
  have off2: "same_off (insert p (insert (root x) (set (listings (kids x))))) s ?s"
    by (rule same_off_trans [OF assms(4) off]) auto
  show "trees_ok ?s (NEXT_MAKE_RIGHTMOST_PARENT p) post"
    using st(4) trees_off [OF off2, of post] n(6,9,15) by simp
qed simp_all

lemma unlink_later:
  assumes "located s p (ini @ [l]) x post" "pair_all lt None (kids x) = h" "heap_ok s2 h"
    and "same_off (insert (root x) (set (listings (kids x)))) s s2" "child (s2 (root x)) = 0" "nxt (s2 (root x)) = 0"
  shows "unlinked s p (ini @ [l]) x post (opt_trees h) (case h of
      None \<Rightarrow> relink p (root l) (nxt (s (root x))) s2
    | Some u \<Rightarrow> relink p (root u) (nxt (s (root x))) (set_next (root l) (root u) s2))"
proof -
  let ?A = "insert (root x) (set (listings (kids x)))" and ?e = "NEXT_MAKE_RIGHTMOST_PARENT p"
  let ?old = "set (listing (HNode p ((ini @ [l]) @ x # post)))"
  note n = located_nodes [OF assms(1)] and st = located_store [OF assms(1)]
  have nl: "root l \<notin> set (listings ini)" "root l \<notin> set (listings (kids l))" "root l \<notin> set (listings post)"
    "root l \<noteq> p" "root l \<noteq> root x" "root l \<notin> set (listings (kids x))" "set (listings (kids l)) \<subseteq> set (listings (ini @ [l]))"
    "set (listings ini) \<subseteq> set (listings (ini @ [l]))"
    using n(5,8,12,14,16) by (cases l; auto simp: nodes_ok_append nodes_ok_Cons listing_node simp del: listing.simps)+
  have lx: "set (listing x) = insert (root x) (set (listings (kids x)))"
    by (cases x) (simp add: listings_def)
  have A: "?A \<subseteq> ?old" unfolding listing_node listings_simps using lx by auto
  have off: "same_off ?old s s2" by (rule same_off_mono [OF assms(4) A])
  have d: "?A \<inter> set (listings (ini @ [l])) = {}" "?A \<inter> set (listings post) = {}" "p \<notin> ?A" using n by simp_all
  have pre: "trees_ok s2 (root x) (ini @ [l])" "trees_ok s2 ?e post"
    using st(3,4) trees_off [OF assms(4) d(1)] trees_off [OF assms(4) d(2)] by simp_all
  have sp: "s2 p = s p" by (rule same_offD [OF assms(4) d(3)])
  have first: "first ini (root l) = child (s p)" using st(1) by simp
  show ?thesis
  proof (cases h)
    case None
    have "unlinked s p (ini @ [l]) x post [] (relink p (root l) (nxt (s (root x))) s2)"
    proof (rule unlink_relink [OF assms(1) off assms(5,6)])
      show "set (listings (ini @ [l])) \<subseteq> set (listings ((ini @ [l]) @ [x])) - {root x}"
        using n(8) by auto
    qed (use pre sp first n(12) in \<open>simp_all add: trees_ok_append\<close>)
    then show ?thesis using None by simp
  next
    case (Some u)
    let ?s = "set_next (root l) (root u) s2"
    have us: "set (listing u) = set (listings (kids x))" "nodes_ok (listing u)"
      using pair_all_set [of lt None "kids x"] nodes_ok_mset [OF pair_all_mset [of lt None "kids x"]] assms(2) Some n(10) by simp_all
    have offl: "same_off {root l} s2 ?s" by (rule set_next_off)
    have "unlinked s p (ini @ [l]) x post [u] (relink p (root u) (nxt (s (root x))) ?s)"
    proof (rule unlink_relink [where pre' = "ini @ [l]", OF assms(1)])
      show "same_off ?old s ?s"
        by (rule same_off_trans [OF off offl]) (auto simp: listing_node simp del: listing.simps)
      have "tree_ok ?s l = tree_ok s2 l" by (rule frame(1)) (use nl(2) in \<open>auto simp: ph_defs\<close>)
      then show "trees_ok ?s (root u) (ini @ [l])"
        using pre(1) trees_off [OF offl, of ini] nl(1) by (simp add: trees_ok_append)
      show "trees_ok ?s ?e post" using pre(2) trees_off [OF offl, of post] nl(3) by simp
      show "tree_ok ?s u" using assms(3) Some tree_off [OF offl, of u] us nl(6) by simp
      show "child (?s (root x)) = 0" "nxt (?s (root x)) = 0" using assms(5,6) nl(5) by (simp_all add: ph_defs)
      show "child_last (?s p) = child_last (s p)" "nxt (?s p) = nxt (s p)" "child (?s p) = first ((ini @ [l]) @ [u]) 0"
        using sp first nl(4) by (simp_all add: ph_defs)
      show "nodes_ok (listings ((ini @ [l]) @ [u]))" using us n(12,14) unfolding listings_simps(3) [of "ini @ [l]"] nodes_ok_append by simp
      show "set (listings ((ini @ [l]) @ [u])) \<subseteq> set (listings ((ini @ [l]) @ [x])) - {root x}"
        using us n(7,8) lx by auto
    qed simp
    then show ?thesis using Some by simp
  qed
qed

lemma delete_local:
  assumes "located s p pre x post" "heap \<noteq> root x"
  shows "\<exists>s'. mp_pairheap_delete lt heap (root x) s = Some (heap, s') \<and>
    unlinked s p pre x post (opt_trees (pair_all lt None (kids x))) s'"
proof -
  let ?h = "pair_all lt None (kids x)"
  note n = located_nodes [OF assms(1)] and st = located_store [OF assms(1)]
  obtain s2 where s2: "mp_pairheap_pairing lt (child (s (root x))) (set_next (root x) 0 (set_child (root x) 0 s)) = Some (top_of ?h, s2)"
    "heap_ok s2 ?h" "same_off (insert (root x) (set (listings (kids x)))) s s2" "child (s2 (root x)) = 0" "nxt (s2 (root x)) = 0"
    using pair_kids [OF assms(1)] by blast
  have start: "heap \<noteq> root x" "nxt (s (root x)) \<noteq> 0" "last_sibling (root x) s = Some (root (last (x # post)))"
    "NEXT_GET_RIGHTMOST_PARENT (nxt (s (root (last (x # post))))) = p"
    using assms(2) st by blast+
  show ?thesis
  proof (cases pre rule: rev_cases)
    case Nil
    then have c: "child (s p) = root x" using st(1) by simp
    show ?thesis
    proof (cases "kids x = []")
      case True
      have "mp_pairheap_delete lt heap (root x) s =
          Some (heap, set_next (root x) 0 (set_child p (if post = [] then 0 else nxt (s (root x))) s))"
        using start c True st(12,13) by (simp add: mp_pairheap_delete_def)
      then show ?thesis using unlink_leaf assms(1) True Nil by fastforce
    next
      case False
      obtain u where u: "?h = Some u" "root u \<noteq> 0" using paired [OF n(10) False] .
      have "mp_pairheap_delete lt heap (root x) s =
          Some (heap, relink p (root u) (nxt (s (root x))) (set_child p (root u) s2))"
        using start c False st(13) s2(1) u by (simp add: mp_pairheap_delete_def)
      then show ?thesis using unlink_first [of s p x post lt u s2] assms(1) Nil u s2(2-5) by simp
    qed
  next
    case (snoc ini l)
    have "pre \<noteq> []" using snoc by simp
    then obtain a as where a: "pre = a # as" by (cases pre) auto
    have "root (last pre) = root l" using snoc by simp
    note pre = a this [unfolded a]
    have c: "child (s p) = root a" "root a \<noteq> root x"
      using st(1) n(8) roots_in [of a pre] unfolding pre(1) by (simp, metis list.set_intros(1))
    have "trees_ok s (NEXT_MAKE_RIGHTMOST_PARENT p) (a # as @ x # post)" "nodes_ok (listings (a # as @ x # post))"
      using assms(1) n(11) pre by (simp_all add: located_def)
    from sibling_before_ok [OF this]
    have sb: "sibling_before (root x) (root a) s = Some (root l)" unfolding pre(2) .
    have "mp_pairheap_delete lt heap (root x) s = Some (heap, case ?h of
        None \<Rightarrow> relink p (root l) (nxt (s (root x))) s2
      | Some u \<Rightarrow> relink p (root u) (nxt (s (root x))) (set_next (root l) (root u) s2))"
    proof (cases "kids x = []")
      case True
      then show ?thesis using start c sb s2(1) by (simp add: mp_pairheap_delete_def)
    next
      case False
      obtain u where "?h = Some u" "root u \<noteq> 0" using paired [OF n(10) False] .
      then show ?thesis using start c sb s2(1) by (simp add: mp_pairheap_delete_def)
    qed
    then show ?thesis using unlink_later [of s p ini l x post lt ?h s2] assms(1) snoc s2(2-5) by simp
  qed
qed

text \<open>From the parent up to the top.\<close>

inductive subtree :: "'a htree \<Rightarrow> 'a htree \<Rightarrow> bool" where
  subtree_self: "subtree t t"
| subtree_kid: "c \<in> set cs \<Longrightarrow> subtree u c \<Longrightarrow> subtree u (HNode p cs)"

lemma find_parent:
  "x \<in> set (listing t) \<Longrightarrow> x \<noteq> root t \<Longrightarrow> \<exists>p pre tx post. subtree (HNode p (pre @ tx # post)) t \<and> root tx = x"
proof (induction t)
  case (HNode p cs)
  then obtain c where c: "c \<in> set cs" "x \<in> set (listing c)" by auto
  show ?case
  proof (cases "root c = x")
    case True
    obtain pre post where "cs = pre @ c # post" using split_list [OF c(1)] by blast
    then show ?thesis using True subtree_self by metis
  next
    case False
    then show ?thesis using HNode.IH [OF c] subtree_kid [OF c(1)] by metis
  qed
qed

lemma trees_ok_in: "trees_ok s e cs \<Longrightarrow> c \<in> set cs \<Longrightarrow> tree_ok s c"
  by (induction cs) auto

lemma nodes_ok_in: "nodes_ok (listings cs) \<Longrightarrow> c \<in> set cs \<Longrightarrow> nodes_ok (listing c)"
  by (induction cs) (auto simp: nodes_ok_append)

lemma subtree_ok:
  "subtree u t \<Longrightarrow> tree_ok s t \<Longrightarrow> nodes_ok (listing t) \<Longrightarrow>
    tree_ok s u \<and> nodes_ok (listing u) \<and> set (listing u) \<subseteq> set (listing t) \<and> set (listings (kids u)) \<subseteq> set (listings (kids t))"
proof (induction rule: subtree.induct)
  case (subtree_kid c cs u p)
  have "tree_ok s c" "nodes_ok (listing c)"
    using subtree_kid.prems subtree_kid.hyps(1) trees_ok_in nodes_ok_in unfolding listing_node nodes_ok_Cons by auto
  moreover have "set (listing c) \<subseteq> set (listings cs)" by (rule kids_in [OF subtree_kid.hyps(1)])
  moreover have "set (listings (kids c)) \<subseteq> set (listing c)" by (cases c) (auto simp: listings_def)
  ultimately show ?case using subtree_kid.IH unfolding listing_node by auto
qed simp

lemma del_kids_absent: "x \<notin> set (listings cs) \<Longrightarrow> concat (map (del_kid lt x) cs) = cs"
proof (induction cs)
  case (Cons c cs)
  have "x \<notin> set (listing c)" using Cons.prems by simp
  then have "del_kid lt x c = [c]" using del_absent [of x c lt] root_in_listing [of c] by (auto simp: del_kid_def)
  then show ?case using Cons by simp
qed simp

lemma del_tree_at:
  assumes "nodes_ok (listing (HNode p (pre @ x # post)))"
  shows "del_tree lt (root x) (HNode p (pre @ x # post)) = HNode p (pre @ opt_trees (pair_all lt None (kids x)) @ post)"
proof -
  have n: "nodes_ok (listings (pre @ x # post))"
    using assms unfolding listing_node nodes_ok_Cons by blast
  have "root x \<notin> set (listings pre)" "root x \<notin> set (listings post)"
    using n root_in_listing [of x] by (auto simp: nodes_ok_append simp del: root_in_listing)
  then have "concat (map (del_kid lt (root x)) pre) = pre" "concat (map (del_kid lt (root x)) post) = post"
    by (simp_all add: del_kids_absent)
  moreover have "del_kid lt (root x) x = opt_trees (pair_all lt None (kids x))" by (simp add: del_kid_def)
  ultimately show ?thesis unfolding del_tree_kids by simp
qed

lemma del_up:
  "subtree u t \<Longrightarrow> tree_ok s t \<Longrightarrow> nodes_ok (listing t) \<Longrightarrow> same_off (set (listing u)) s s' \<Longrightarrow>
    nxt (s' (root u)) = nxt (s (root u)) \<Longrightarrow> tree_ok s' (del_tree lt x u) \<Longrightarrow> x \<in> set (listings (kids u)) \<Longrightarrow>
    tree_ok s' (del_tree lt x t) \<and> nxt (s' (root t)) = nxt (s (root t))"
proof (induction rule: subtree.induct)
  case (subtree_kid c cs u p)
  obtain a b where cs: "cs = a @ c # b" using split_list [OF subtree_kid.hyps(1)] by blast
  have n: "p \<notin> set (listings cs)" "nodes_ok (listings cs)" "nodes_ok (listings (a @ c # b))"
    using subtree_kid.prems(2) cs unfolding listing_node nodes_ok_Cons by blast+
  note nc = nodes_ok_in [OF n(2) subtree_kid.hyps(1)]
  have tk: "trees_ok s (root c) a" "tree_ok s c" "nxt (s (root c)) = first b (NEXT_MAKE_RIGHTMOST_PARENT p)"
    "trees_ok s (NEXT_MAKE_RIGHTMOST_PARENT p) b" "child (s p) = first a (root c)"
    "child_last (s p) = root (last (c # b))"
    using subtree_kid.prems(1) by (auto simp: cs trees_ok_append)
  have sub: "set (listing u) \<subseteq> set (listing c)" "x \<in> set (listings (kids c))"
    using subtree_ok [OF subtree_kid.hyps(2) tk(2) nc] subtree_kid.prems(6) by blast+
  have IH: "tree_ok s' (del_tree lt x c)" "nxt (s' (root c)) = nxt (s (root c))"
    using subtree_kid.IH [OF tk(2) nc subtree_kid.prems(3-6)] by blast+
  have off: "same_off (set (listing c)) s s'"
    by (rule same_off_mono [OF subtree_kid.prems(3) sub(1)])
  have dis: "set (listing c) \<inter> set (listings a) = {}" "set (listing c) \<inter> set (listings b) = {}"
    using n(3) by (auto simp: nodes_ok_append)
  have xc: "x \<in> set (listing c)" "x \<noteq> root c"
    using sub(2) nc by (cases c; auto simp: listing_node nodes_ok_Cons simp del: listing.simps)+
  then have "concat (map (del_kid lt x) a) = a" "concat (map (del_kid lt x) b) = b"
    using del_kids_absent [of x a lt] del_kids_absent [of x b lt] dis by blast+
  moreover have "del_kid lt x c = [del_tree lt x c]" using xc(2) by (simp add: del_kid_def)
  ultimately have d: "del_tree lt x (HNode p cs) = HNode p (a @ del_tree lt x c # b)"
    unfolding del_tree_kids cs by simp
  have "p \<notin> set (listing c)" using n(1) kids_in [OF subtree_kid.hyps(1)] by blast
  then have sp: "s' p = s p" by (rule same_offD [OF off])
  have "trees_ok s' (root c) a" "trees_ok s' (NEXT_MAKE_RIGHTMOST_PARENT p) b"
    using tk(1,4) trees_off [OF off dis(1)] trees_off [OF off dis(2)] by simp_all
  then show ?case unfolding d using sp tk(3,5,6) IH by (simp add: trees_ok_append split: if_splits)
qed simp

lemma delete_refines:
  assumes "tree_ok s t" "nodes_ok (listing t)" "x \<in> set (listing t)" "x \<noteq> root t" "nxt (s (root t)) = 0"
  shows "\<exists>s'. mp_pairheap_delete lt (root t) x s = Some (root t, s') \<and> heap_ok s' (Some (del_tree lt x t)) \<and>
    same_off (set (listing t)) s s' \<and> child (s' x) = 0 \<and> nxt (s' x) = 0"
proof -
  obtain p pre tx post where f: "subtree (HNode p (pre @ tx # post)) t" "root tx = x"
    using find_parent [OF assms(3,4)] by blast
  let ?u = "HNode p (pre @ tx # post)"
  have u: "tree_ok s ?u" "nodes_ok (listing ?u)" "set (listing ?u) \<subseteq> set (listing t)"
    using subtree_ok [OF f(1) assms(1,2)] by blast+
  then have "located s p pre tx post" by (simp add: located_def del: tree_ok.simps)
  then obtain s' where s': "mp_pairheap_delete lt (root t) x s = Some (root t, s')"
    "unlinked s p pre tx post (opt_trees (pair_all lt None (kids tx))) s'"
    using delete_local [of s p pre tx post "root t" lt] assms(4) f(2) by auto
  have un: "tree_ok s' (del_tree lt x ?u)" "nxt (s' p) = nxt (s p)" "same_off (set (listing ?u)) s s'"
    "child (s' x) = 0" "nxt (s' x) = 0"
    using s'(2) del_tree_at [OF u(2), of lt] unfolding unlinked_def f(2) by metis+
  have "x \<in> set (listings (pre @ tx # post))" using roots_in [of tx "pre @ tx # post"] f(2) by simp
  then have "tree_ok s' (del_tree lt x t) \<and> nxt (s' (root t)) = nxt (s (root t))"
    by (intro del_up [OF f(1) assms(1,2) un(3) _ un(1)]) (simp_all only: htree.sel un(2))
  moreover have "same_off (set (listing t)) s s'"
    by (rule same_off_mono [OF un(3) u(3)])
  ultimately show ?thesis using s'(1) un(4,5) assms(5) by simp
qed

end
