(* ===== verification/PairQueue.thy ===== *)
theory PairQueue
  imports PairDelete
begin

text \<open>
  What the users of the pairing heap rely on: a heap in the store is a queue sorted by key, in which
  elements with equal keys keep the order in which they were pushed.  The interface is the locale
  \<open>stable_queue\<close>; the pairing heap is its instance.
\<close>

section \<open>The interface\<close>

text \<open>
  \<open>rep key s h q\<close>: the heap \<open>h\<close> in the store \<open>s\<close> holds the queue \<open>q\<close>.  \<open>fresh s x\<close>: the node \<open>x\<close> is
  ready to be pushed.  The less-than operation compares the keys of the elements concerned (\<open>keyed\<close>).
\<close>

locale stable_queue =
  fixes rep :: "('a \<Rightarrow> int) \<Rightarrow> 's \<Rightarrow> 'h \<Rightarrow> 'a list \<Rightarrow> bool"
    and fresh :: "'s \<Rightarrow> 'a \<Rightarrow> bool"
    and push :: "('a \<Rightarrow> 'a \<Rightarrow> bool) \<Rightarrow> 'h \<Rightarrow> 'a \<Rightarrow> 's \<Rightarrow> 'h \<times> 's"
    and pop :: "('a \<Rightarrow> 'a \<Rightarrow> bool) \<Rightarrow> 'h \<Rightarrow> 's \<Rightarrow> ('h \<times> 's) option"
    and delete :: "('a \<Rightarrow> 'a \<Rightarrow> bool) \<Rightarrow> 'h \<Rightarrow> 'a \<Rightarrow> 's \<Rightarrow> ('h \<times> 's) option"
  assumes rep_sorted: "rep key s h q \<Longrightarrow> distinct q \<and> sorted (map key q)"
    and rep_push: "rep key s h q \<Longrightarrow> keyed lt key (insert x (set q)) \<Longrightarrow> fresh s x \<Longrightarrow> x \<notin> set q \<Longrightarrow>
      \<exists>h' s'. push lt h x s = (h', s') \<and> rep key s' h' (sort_key key (q @ [x]))"
    and rep_pop: "rep key s h (x # q) \<Longrightarrow> keyed lt key (set (x # q)) \<Longrightarrow>
      \<exists>h' s'. pop lt h s = Some (h', s') \<and> rep key s' h' q \<and> fresh s' x"
    and rep_delete: "rep key s h q \<Longrightarrow> keyed lt key (set q) \<Longrightarrow> x \<in> set q \<Longrightarrow>
      \<exists>h' s'. delete lt h x s = Some (h', s') \<and> rep key s' h' (filter (\<lambda>y. y \<noteq> x) q) \<and> fresh s' x"
    and rep_delete_fresh: "rep key s h q \<Longrightarrow> x \<notin> set q \<Longrightarrow> fresh s x \<Longrightarrow> delete lt h x s = Some (h, s)"
begin

lemma delete_pushed:
  assumes "rep key s h q" "keyed lt key (insert x (set q))" "fresh s x" "x \<notin> set q"
  shows "\<exists>h1 s1 h2 s2. push lt h x s = (h1, s1) \<and> delete lt h1 x s1 = Some (h2, s2) \<and> rep key s2 h2 q \<and> fresh s2 x"
proof -
  obtain h1 s1 where p: "push lt h x s = (h1, s1)" "rep key s1 h1 (sort_key key (q @ [x]))"
    using rep_push [OF assms] by blast
  have "keyed lt key (set (sort_key key (q @ [x])))" using assms(2) by simp
  from rep_delete [OF p(2) this, of x] obtain h2 s2 where d: "delete lt h1 x s1 = Some (h2, s2)"
    "rep key s2 h2 (filter (\<lambda>y. y \<noteq> x) (sort_key key (q @ [x])))" "fresh s2 x" by auto
  have "filter (\<lambda>y. y \<noteq> x) (sort_key key (q @ [x])) = sort_key key (filter (\<lambda>y. y \<noteq> x) (q @ [x]))"
    by (rule filter_sort)
  also have "filter (\<lambda>y. y \<noteq> x) (q @ [x]) = q" using assms(4) by (simp add: filter_id_conv) metis
  also have "sort_key key q = q" using rep_sorted [OF assms(1)] by (simp add: sort_key_id_if_sorted)
  finally show ?thesis using p(1) d by auto
qed

lemma pop_oldest:
  assumes "rep key s h (x # q)" "y \<in> set q"
  shows "key x \<le> key y"
  using rep_sorted [OF assms(1)] assms(2) by auto

end

section \<open>The queue in a store\<close>

definition ph_queue :: "(u32 \<Rightarrow> int) \<Rightarrow> ph_store \<Rightarrow> u32 \<Rightarrow> u32 list \<Rightarrow> bool" where
  "ph_queue key s hp q \<longleftrightarrow> (\<exists>h. hp = top_of h \<and> heap_ok s h \<and> nodes_ok (listings (opt_trees h)) \<and>
     (\<forall>t \<in> set (opt_trees h). ordered key t) \<and> q = queue_of key h)"

definition ph_fresh :: "ph_store \<Rightarrow> u32 \<Rightarrow> bool" where
  "ph_fresh s x \<longleftrightarrow> node_addr x \<and> child (s x) = 0 \<and> nxt (s x) = 0"

lemma queue_of_node: "ordered key t \<Longrightarrow> \<exists>q. queue_of key (Some t) = root t # q"
proof -
  assume o: "ordered key t"
  obtain p cs where t: "t = HNode p cs" by (cases t)
  have "sort_key key (p # listings cs) = p # sort_key key (listings cs)"
    by (rule sort_min_first) (use ordered_listings [of key p cs] o t in simp)
  then show ?thesis by (simp add: queue_of_def t listing_node del: listing.simps)
qed

lemma ph_queue_nil [simp]: "ph_queue key s 0 []"
  unfolding ph_queue_def by (rule exI [of _ None]) (simp add: queue_of_def)

lemma ph_queue_top: "ph_queue key s hp q \<Longrightarrow> hp = (case q of [] \<Rightarrow> 0 | x # _ \<Rightarrow> x)"
proof -
  assume "ph_queue key s hp q"
  then obtain h where h: "hp = top_of h" "\<forall>t \<in> set (opt_trees h). ordered key t" "q = queue_of key h"
    unfolding ph_queue_def by blast
  show ?thesis
  proof (cases h)
    case (Some t)
    then obtain q' where "queue_of key (Some t) = root t # q'" using queue_of_node h(2) by fastforce
    then show ?thesis using h Some by simp
  qed (use h in \<open>simp add: queue_of_def\<close>)
qed

lemma ph_queue_nodes: "ph_queue key s hp q \<Longrightarrow> nodes_ok q \<and> sorted (map key q)"
proof -
  assume "ph_queue key s hp q"
  then obtain h where "nodes_ok (listings (opt_trees h))" "q = queue_of key h" unfolding ph_queue_def by blast
  then show ?thesis using nodes_ok_mset [of q "listings (opt_trees h)"] by (simp add: queue_of_def)
qed

lemma ph_queue_addr: "ph_queue key s hp q \<Longrightarrow> x \<in> set q \<Longrightarrow> node_addr x"
  using ph_queue_nodes by (auto simp: nodes_ok_def)

lemma ph_queue_empty: "ph_queue key s hp q \<Longrightarrow> hp = 0 \<longleftrightarrow> q = []"
  using ph_queue_top ph_queue_addr node_nonzero by (cases q) (fastforce+)

text \<open>Stores that agree on the nodes of the queue hold it alike.\<close>

lemma ph_queue_off:
  assumes "ph_queue key s hp q" "same_off A s s'" "A \<inter> set q = {}"
  shows "ph_queue key s' hp q"
proof -
  obtain h where h: "hp = top_of h" "heap_ok s h" "nodes_ok (listings (opt_trees h))"
    "\<forall>t \<in> set (opt_trees h). ordered key t" "q = queue_of key h" using assms(1) unfolding ph_queue_def by blast
  have "heap_ok s' h" using h(2) heap_off [OF assms(2)] assms(3) h(5) by (simp add: queue_set)
  with h show ?thesis unfolding ph_queue_def by blast
qed

text \<open>Only the order of the keys matters.\<close>

lemma sort_key_order:
  fixes key key' :: "'a \<Rightarrow> int"
  shows "\<forall>x \<in> set xs. \<forall>y \<in> set xs. (key x \<le> key y) = (key' x \<le> key' y) \<Longrightarrow> sort_key key xs = sort_key key' xs"
proof (induction xs)
  case (Cons x xs)
  have "insort_key key x ys = insort_key key' x ys" if "set ys \<subseteq> set xs" for ys
    using that Cons.prems by (induction ys) auto
  then show ?case using Cons by simp
qed simp

lemma ordered_order:
  "\<forall>x \<in> set (listing t). \<forall>y \<in> set (listing t). (key x \<le> key y) = (key' x \<le> key' y) \<Longrightarrow> ordered key t \<Longrightarrow> ordered key' t"
proof (induction t)
  case (HNode p cs)
  have "key' p \<le> key' (root c) \<and> ordered key' c" if c: "c \<in> set cs" for c
  proof -
    have s: "set (listing c) \<subseteq> set (listing (HNode p cs))" using c by auto
    have "root c \<in> set (listing (HNode p cs))" "p \<in> set (listing (HNode p cs))" using subsetD [OF s root_in_listing] by auto
    then have "key' p \<le> key' (root c)" using HNode.prems c by (metis ordered.simps)
    moreover have "ordered key' c" using HNode.IH [OF c] HNode.prems s c by (simp add: subset_eq)
    ultimately show ?thesis by simp
  qed
  then show ?case by simp
qed

lemma ph_queue_rekey:
  assumes "ph_queue key s hp q" "\<forall>x \<in> set q. \<forall>y \<in> set q. (key x \<le> key y) = (key' x \<le> key' y)"
  shows "ph_queue key' s hp q"
proof -
  obtain h where h: "hp = top_of h" "heap_ok s h" "nodes_ok (listings (opt_trees h))"
    "\<forall>t \<in> set (opt_trees h). ordered key t" "q = queue_of key h" using assms(1) unfolding ph_queue_def by blast
  have "set q = set (listings (opt_trees h))" using h(5) by (simp add: queue_set)
  then have "q = queue_of key' h" using h(5) sort_key_order [of "listings (opt_trees h)" key key'] assms(2)
    by (simp add: queue_of_def)
  moreover have "\<forall>t \<in> set (opt_trees h). ordered key' t"
    using h(4,5) assms(2) ordered_order [of _ key key'] by (cases h) (auto simp: queue_set)
  ultimately show ?thesis unfolding ph_queue_def using h by blast
qed

section \<open>The operations\<close>

lemma ph_push:
  assumes "ph_queue key s hp q" "keyed lt key (insert x (set q))" "ph_fresh s x" "x \<notin> set q"
  shows "\<exists>h' s'. mp_pairheap_push lt hp x s = (h', s') \<and> ph_queue key s' h' (sort_key key (q @ [x])) \<and>
    same_off (insert x (set q)) s s'"
proof -
  obtain h where h: "hp = top_of h" "heap_ok s h" "nodes_ok (listings (opt_trees h))"
    "\<forall>t \<in> set (opt_trees h). ordered key t" "q = queue_of key h" using assms(1) unfolding ph_queue_def by blast
  have x: "x \<noteq> 0" "tree_ok s (HNode x [])" "nxt (s x) = 0" "nodes_ok [x]"
    using assms(3) by (simp_all add: ph_fresh_def node_nonzero nodes_ok_def)
  have qs: "set q = set (listings (opt_trees h))" using h(5) by (simp add: queue_set)
  let ?t = "case h of None \<Rightarrow> HNode x [] | Some t \<Rightarrow> meld_tree lt (HNode x []) t"
  have qp: "ordered key ?t" "queue_of key (Some ?t) = sort_key key (q @ [x])"
    using queue_push [of lt key x h] assms(2) h(4,5) by simp_all
  have n: "nodes_ok (listing ?t)"
  proof -
    have "mset (listing ?t) = mset (x # listings (opt_trees h))" by (cases h) (simp_all add: listing_meld)
    then show ?thesis using nodes_ok_mset h(3) x(4) assms(4) qs by (metis append_Cons append_Nil nodes_ok_Cons)
  qed
  have "\<exists>s'. mp_pairheap_push lt hp x s = (root ?t, s') \<and> heap_ok s' (Some ?t) \<and> same_off (insert x (set q)) s s'"
  proof (cases h)
    case None
    then show ?thesis using h(1) x by (simp add: mp_pairheap_push_def mp_pairheap_meld_def)
  next
    case (Some t)
    have "nodes_ok (listings (opt_trees (Some (HNode x []))) @ listing t)"
      using h(3) Some x(4) assms(4) qs by (simp add: nodes_ok_Cons)
    then obtain s' where "mp_pairheap_meld lt x (root t) s = (root (meld_tree lt (HNode x []) t), s')"
      "heap_ok s' (Some (meld_tree lt (HNode x []) t))" "same_off (insert x (set (listing t))) s s'"
      using meld_opt_refines [of s "Some (HNode x [])" t lt] h(2) Some x by auto
    then show ?thesis using h(1) Some qs by (simp add: mp_pairheap_push_def)
  qed
  then obtain s' where s': "mp_pairheap_push lt hp x s = (root ?t, s')" "heap_ok s' (Some ?t)"
    "same_off (insert x (set q)) s s'" by blast
  have "ph_queue key s' (root ?t) (sort_key key (q @ [x]))"
    unfolding ph_queue_def by (rule exI [of _ "Some ?t"]) (use s'(2) qp n in simp)
  then show ?thesis using s'(1,3) by blast
qed

lemma ph_pop:
  assumes "ph_queue key s hp (x # q)" "keyed lt key (set (x # q))"
  shows "\<exists>h' s'. mp_pairheap_pop lt hp s = Some (h', s') \<and> ph_queue key s' h' q \<and> ph_fresh s' x \<and>
    same_off (set (x # q)) s s'"
proof -
  obtain h where h: "hp = top_of h" "heap_ok s h" "nodes_ok (listings (opt_trees h))"
    "\<forall>t \<in> set (opt_trees h). ordered key t" "x # q = queue_of key h" using assms(1) unfolding ph_queue_def by blast
  obtain t where t: "h = Some t" using h(5) by (cases h) (auto simp: queue_of_def)
  obtain p cs where pc: "t = HNode p cs" by (cases t)
  have k: "keyed lt key (set (queue_of key (Some t)))" using assms(2) h(5) t by simp
  have o: "ordered key t" using h(4) t by simp
  have q: "x = p" "q = queue_of key (pair_all lt None cs)" "\<forall>u \<in> set (opt_trees (pair_all lt None cs)). ordered key u"
    using queue_pop [OF k o] h(5) unfolding t pc htree.sel by simp_all
  have n: "node_addr p" "nodes_ok (listings cs)" "p \<notin> set (listings cs)"
    using h(3) t pc by (simp_all add: listing_node nodes_ok_Cons del: listing.simps)
  let ?s1 = "set_child p 0 s"
  have off: "same_off {p} s ?s1" by (simp add: same_off_def ph_defs)
  have st: "child (s p) = first cs 0" "trees_ok s (NEXT_MAKE_RIGHTMOST_PARENT p) cs" "nxt (s p) = 0"
    using h(2) t pc by simp_all
  have "trees_ok ?s1 (NEXT_MAKE_RIGHTMOST_PARENT p) cs" using st(2) trees_off [OF off] n(3) by simp
  from pairing_refines [OF this n(2), of lt] obtain s' where
    s': "mp_pairheap_pairing lt (first cs 0) ?s1 = Some (top_of (pair_all lt None cs), s')"
    "heap_ok s' (pair_all lt None cs)" "same_off (set (listings cs)) ?s1 s'" by blast
  have "mp_pairheap_pop lt hp s = Some (top_of (pair_all lt None cs), s')"
    using s'(1) st(1) h(1) t pc by (simp add: mp_pairheap_pop_def)
  moreover have "nodes_ok (listings (opt_trees (pair_all lt None cs)))"
    using nodes_ok_mset [OF pair_all_mset [of lt None cs]] n(2) by simp
  then have "ph_queue key s' (top_of (pair_all lt None cs)) q"
    unfolding ph_queue_def using s'(2) q by blast
  moreover have "ph_fresh s' x"
    using same_offD [OF s'(3) n(3)] n(1) st(3) q(1) by (simp add: ph_fresh_def ph_defs)
  moreover have "set (x # q) = insert p (set (listings cs))"
    unfolding q(1) q(2) using pair_all_set [of lt None cs] by (simp add: queue_set)
  then have "same_off (set (x # q)) s s'" using same_off_trans [OF off s'(3)] by blast
  ultimately show ?thesis by blast
qed

lemma ph_delete:
  assumes "ph_queue key s hp q" "keyed lt key (set q)" "x \<in> set q"
  shows "\<exists>h' s'. mp_pairheap_delete lt hp x s = Some (h', s') \<and> ph_queue key s' h' (filter (\<lambda>y. y \<noteq> x) q) \<and>
    ph_fresh s' x \<and> same_off (set q) s s'"
proof -
  obtain h where h: "hp = top_of h" "heap_ok s h" "nodes_ok (listings (opt_trees h))"
    "\<forall>t \<in> set (opt_trees h). ordered key t" "q = queue_of key h" using assms(1) unfolding ph_queue_def by blast
  obtain t where t: "h = Some t" using h(5) assms(3) by (cases h) (auto simp: queue_of_def)
  have tx: "x \<in> set (listing t)" using assms(3) h(5) t by (simp add: queue_set)
  show ?thesis
  proof (cases "x = hp")
    case True
    obtain q' where q': "q = x # q'" using ph_queue_top [OF assms(1)] True assms(3) by (cases q) auto
    then have "filter (\<lambda>y. y \<noteq> x) q = q'" using ph_queue_nodes [OF assms(1)] by (auto simp: nodes_ok_def filter_id_conv)
    moreover have "mp_pairheap_delete lt hp x s = mp_pairheap_pop lt hp s"
      using True by (simp add: mp_pairheap_delete_def mp_pairheap_pop_def)
    ultimately show ?thesis using ph_pop [of key s hp x q' lt] assms(1,2) q' by simp
  next
    case False
    have ok: "tree_ok s t" "nodes_ok (listing t)" "nxt (s (root t)) = 0" "ordered key t" "x \<noteq> root t"
      using h t False by simp_all
    obtain s' where s': "mp_pairheap_delete lt hp x s = Some (hp, s')" "heap_ok s' (Some (del_tree lt x t))"
      "same_off (set (listing t)) s s'" "child (s' x) = 0" "nxt (s' x) = 0"
      using delete_refines [OF ok(1,2) tx ok(5,3), of lt] h(1) t by auto
    have d: "distinct (listing t)" "node_addr x" using ok(2) tx by (simp_all add: nodes_ok_def)
    have k: "keyed lt key (set (queue_of key (Some t)))" using assms(2) h(5) t by simp
    have qd: "queue_of key (Some (del_tree lt x t)) = filter (\<lambda>y. y \<noteq> x) q" "ordered key (del_tree lt x t)"
      using queue_delete [OF k ok(4) d(1) ok(5) [symmetric]] h(5) t by simp_all
    have "keyed lt key (set (listing t))" using k by (simp add: queue_set)
    from del_tree_ok [OF this ok(4) d(1) ok(5) [symmetric]]
    have m: "mset (listing (del_tree lt x t)) = mset (filter (\<lambda>y. y \<noteq> x) (listing t))" by (blast dest: same_order_mset)
    have "nodes_ok (filter (\<lambda>y. y \<noteq> x) (listing t))" using ok(2) by (simp add: nodes_ok_def)
    then have "nodes_ok (listing (del_tree lt x t))" unfolding nodes_ok_mset [OF m] .
    then have "ph_queue key s' hp (filter (\<lambda>y. y \<noteq> x) q)"
      unfolding ph_queue_def by (intro exI [of _ "Some (del_tree lt x t)"]) (use s'(2) qd h(1) t in simp)
    moreover have "set q = set (listing t)" using h(5) t by (simp add: queue_set)
    ultimately show ?thesis using s' d(2) by (simp add: ph_fresh_def)
  qed
qed

lemma ph_delete_fresh:
  assumes "ph_queue key s hp q" "x \<notin> set q" "ph_fresh s x"
  shows "mp_pairheap_delete lt hp x s = Some (hp, s)"
proof -
  have "x \<noteq> hp"
    using ph_queue_top [OF assms(1)] assms(2,3) node_nonzero by (cases q) (auto simp: ph_fresh_def)
  then show ?thesis using assms(3) by (simp add: mp_pairheap_delete_def ph_fresh_def)
qed

interpretation ph: stable_queue ph_queue ph_fresh mp_pairheap_push mp_pairheap_pop mp_pairheap_delete
proof
  fix key :: "u32 \<Rightarrow> int" and s h x q lt
  show "ph_queue key s h q \<Longrightarrow> distinct q \<and> sorted (map key q)"
    using ph_queue_nodes by (auto simp: nodes_ok_def)
  show "ph_queue key s h q \<Longrightarrow> keyed lt key (insert x (set q)) \<Longrightarrow> ph_fresh s x \<Longrightarrow> x \<notin> set q \<Longrightarrow>
    \<exists>h' s'. mp_pairheap_push lt h x s = (h', s') \<and> ph_queue key s' h' (sort_key key (q @ [x]))"
    by (drule (3) ph_push) blast
  show "ph_queue key s h (x # q) \<Longrightarrow> keyed lt key (set (x # q)) \<Longrightarrow>
    \<exists>h' s'. mp_pairheap_pop lt h s = Some (h', s') \<and> ph_queue key s' h' q \<and> ph_fresh s' x"
    by (drule (1) ph_pop) blast
  show "ph_queue key s h q \<Longrightarrow> keyed lt key (set q) \<Longrightarrow> x \<in> set q \<Longrightarrow>
    \<exists>h' s'. mp_pairheap_delete lt h x s = Some (h', s') \<and> ph_queue key s' h' (filter (\<lambda>y. y \<noteq> x) q) \<and> ph_fresh s' x"
    by (drule (2) ph_delete) blast
  show "ph_queue key s h q \<Longrightarrow> x \<notin> set q \<Longrightarrow> ph_fresh s x \<Longrightarrow> mp_pairheap_delete lt h x s = Some (h, s)"
    by (rule ph_delete_fresh)
qed

end
