(* ===== verification/SoftTimer.thy ===== *)
theory SoftTimer
  imports PairQueue
begin

text \<open>
  The soft timers of \<open>shared/runtime/softtimer.c\<close> with the tick counter of the port
  (\<open>ports/renesas-ra/systick.c\<close>) and the timer objects of \<open>extmod/machine_timer.c\<close>.  The heap of the
  timers is the pairing heap; the entries are beside the nodes.  What a callback does is a parameter of
  the handler: \<open>run_c\<close> for a C function, \<open>dispatch_py\<close> for \<open>mp_irq_dispatch\<close>, which calls Python code
  and returns whether an exception came out of it.  The handler's loop is a \<open>partial_function\<close>: a
  periodic timer without a period keeps it running.
\<close>

section \<open>Entries\<close>

record soft_timer_entry_t =
  flags :: u16
  mode :: u16
  expiry_ms :: u32
  delta_ms :: u32
  callback :: u32

abbreviation SOFT_TIMER_FLAG_PY_CALLBACK :: u16 where "SOFT_TIMER_FLAG_PY_CALLBACK \<equiv> 1"
abbreviation SOFT_TIMER_FLAG_GC_ALLOCATED :: u16 where "SOFT_TIMER_FLAG_GC_ALLOCATED \<equiv> 2"
abbreviation SOFT_TIMER_FLAG_HARD_CALLBACK :: u16 where "SOFT_TIMER_FLAG_HARD_CALLBACK \<equiv> 4"
abbreviation SOFT_TIMER_MODE_ONE_SHOT :: u16 where "SOFT_TIMER_MODE_ONE_SHOT \<equiv> 1"
abbreviation SOFT_TIMER_MODE_PERIODIC :: u16 where "SOFT_TIMER_MODE_PERIODIC \<equiv> 2"

definition flag_set :: "u16 \<Rightarrow> u16 \<Rightarrow> bool" where
  "flag_set fl f \<longleftrightarrow> fl AND f \<noteq> 0"

type_synonym entries = "u32 \<Rightarrow> soft_timer_entry_t"

text \<open>The state: the nodes and the entries, the two variables of the module, the counter of milliseconds, and what the callbacks act on.\<close>

record 'w soft_timers =
  nodes :: ph_store
  entries :: entries
  soft_timer_heap :: u32
  soft_timer_next :: u32
  uwTick :: u32
  world :: 'w

record 'w soft_callbacks =
  run_c :: "u32 \<Rightarrow> u32 \<Rightarrow> 'w soft_timers \<Rightarrow> 'w soft_timers"
  dispatch_py :: "u32 \<Rightarrow> u32 \<Rightarrow> bool \<Rightarrow> 'w soft_timers \<Rightarrow> bool \<times> 'w soft_timers"

definition upd_entry :: "u32 \<Rightarrow> (soft_timer_entry_t \<Rightarrow> soft_timer_entry_t) \<Rightarrow> 'w soft_timers \<Rightarrow> 'w soft_timers" where
  "upd_entry e f st = st\<lparr>entries := (entries st)(e := f (entries st e))\<rparr>"

section \<open>Ticks\<close>

definition soft_timer_ticks_diff :: "u32 \<Rightarrow> u32 \<Rightarrow> int" where
  "soft_timer_ticks_diff t1 t0 = sint (t1 - t0)"

definition soft_timer_get_ms :: "'w soft_timers \<Rightarrow> u32" where
  "soft_timer_get_ms st = uwTick st"

definition soft_timer_schedule_at_ms :: "u32 \<Rightarrow> 'w soft_timers \<Rightarrow> 'w soft_timers" where
  "soft_timer_schedule_at_ms ticks_ms st =
     st\<lparr>soft_timer_next := if soft_timer_ticks_diff ticks_ms (uwTick st) \<le> 0 then uwTick st + 1 else ticks_ms\<rparr>"

definition soft_timer_lt :: "entries \<Rightarrow> u32 \<Rightarrow> u32 \<Rightarrow> bool" where
  "soft_timer_lt en e1 e2 \<longleftrightarrow> soft_timer_ticks_diff (expiry_ms (en e1)) (expiry_ms (en e2)) < 0"

section \<open>Operations\<close>

text \<open>The loops of \<open>soft_timer_deinit\<close> and \<open>soft_timer_gc_mark_all\<close>.\<close>

partial_function (option) deinit_loop :: "entries \<Rightarrow> u32 \<Rightarrow> u32 \<Rightarrow> ph_store \<Rightarrow> (u32 \<times> ph_store) option" where
  "deinit_loop en heap_from heap_to s =
     (if heap_from = 0 then Some (heap_to, s)
      else let entry = mp_pairheap_peek heap_from
        in do {
          (heap_from, s1) \<leftarrow> mp_pairheap_pop (soft_timer_lt en) heap_from s;
          if flag_set (flags (en entry)) SOFT_TIMER_FLAG_GC_ALLOCATED then deinit_loop en heap_from heap_to s1
          else (case mp_pairheap_push (soft_timer_lt en) heap_to entry s1 of
            (heap_to, s2) \<Rightarrow> deinit_loop en heap_from heap_to s2) })"

definition soft_timer_deinit :: "'w soft_timers \<Rightarrow> 'w soft_timers option" where
  "soft_timer_deinit st = do {
     (h, s) \<leftarrow> deinit_loop (entries st) (soft_timer_heap st) mp_pairheap_new (nodes st);
     Some (st\<lparr>nodes := s, soft_timer_heap := h\<rparr>) }"

partial_function (option) mark_loop ::
  "(u32 \<Rightarrow> 'w \<Rightarrow> 'w) \<Rightarrow> entries \<Rightarrow> u32 \<Rightarrow> u32 \<Rightarrow> ph_store \<Rightarrow> 'w \<Rightarrow> (u32 \<times> ph_store \<times> 'w) option" where
  "mark_loop collect_root en heap_from heap_to s w =
     (if heap_from = 0 then Some (heap_to, s, w)
      else let entry = mp_pairheap_peek heap_from
        in do {
          (heap_from, s1) \<leftarrow> mp_pairheap_pop (soft_timer_lt en) heap_from s;
          let w1 = (if flag_set (flags (en entry)) SOFT_TIMER_FLAG_GC_ALLOCATED then collect_root entry w else w);
          (case mp_pairheap_push (soft_timer_lt en) heap_to entry s1 of
            (heap_to, s2) \<Rightarrow> mark_loop collect_root en heap_from heap_to s2 w1) })"

definition soft_timer_gc_mark_all :: "(u32 \<Rightarrow> 'w \<Rightarrow> 'w) \<Rightarrow> 'w soft_timers \<Rightarrow> 'w soft_timers option" where
  "soft_timer_gc_mark_all collect_root st = do {
     (h, s, w) \<leftarrow> mark_loop collect_root (entries st) (soft_timer_heap st) mp_pairheap_new (nodes st) (world st);
     Some (st\<lparr>nodes := s, soft_timer_heap := h, world := w\<rparr>) }"

text \<open>The callback of an entry that is due.\<close>

definition fire :: "'w soft_callbacks \<Rightarrow> u32 \<Rightarrow> 'w soft_timers \<Rightarrow> 'w soft_timers" where
  "fire cb entry st =
     (let e = entries st entry in
      if flag_set (flags e) SOFT_TIMER_FLAG_PY_CALLBACK then
        (case dispatch_py cb (callback e) entry (flag_set (flags e) SOFT_TIMER_FLAG_HARD_CALLBACK) st of
          (uncaught, st1) \<Rightarrow>
            if uncaught then upd_entry entry (mode_update (\<lambda>_. SOFT_TIMER_MODE_ONE_SHOT)) st1 else st1)
      else if callback e \<noteq> 0 then run_c cb (callback e) entry st
      else st)"

partial_function (option) handler_loop ::
  "'w soft_callbacks \<Rightarrow> u32 \<Rightarrow> u32 \<Rightarrow> 'w soft_timers \<Rightarrow> (u32 \<times> 'w soft_timers) option" where
  "handler_loop cb ticks_ms heap st =
     (if heap \<noteq> 0 \<and> soft_timer_ticks_diff (expiry_ms (entries st heap)) ticks_ms \<le> 0 then do {
        let entry = heap;
        (heap, s1) \<leftarrow> mp_pairheap_pop (soft_timer_lt (entries st)) heap (nodes st);
        let st1 = fire cb entry (st\<lparr>nodes := s1\<rparr>);
        if mode (entries st1 entry) = SOFT_TIMER_MODE_PERIODIC then
          let st2 = upd_entry entry (\<lambda>e. e\<lparr>expiry_ms := expiry_ms e + delta_ms e\<rparr>) st1
          in (case mp_pairheap_push (soft_timer_lt (entries st2)) heap entry (nodes st2) of
            (heap, s2) \<Rightarrow> handler_loop cb ticks_ms heap (st2\<lparr>nodes := s2\<rparr>))
        else handler_loop cb ticks_ms heap st1 }
      else Some (heap, st))"

definition soft_timer_handler :: "'w soft_callbacks \<Rightarrow> 'w soft_timers \<Rightarrow> 'w soft_timers option" where
  "soft_timer_handler cb st = do {
     (heap, st1) \<leftarrow> handler_loop cb (soft_timer_get_ms st) (soft_timer_heap st) st;
     let st2 = st1\<lparr>soft_timer_heap := heap\<rparr>;
     Some (if heap \<noteq> 0 then soft_timer_schedule_at_ms (expiry_ms (entries st2 heap)) st2 else st2) }"

definition soft_timer_static_init :: "u32 \<Rightarrow> u16 \<Rightarrow> u32 \<Rightarrow> u32 \<Rightarrow> 'w soft_timers \<Rightarrow> 'w soft_timers" where
  "soft_timer_static_init entry md delta cb st =
     upd_entry entry (\<lambda>e. e\<lparr>flags := 0, mode := md, delta_ms := delta, callback := cb\<rparr>)
       (st\<lparr>nodes := mp_pairheap_init_node entry (nodes st)\<rparr>)"

definition soft_timer_insert :: "u32 \<Rightarrow> u32 \<Rightarrow> 'w soft_timers \<Rightarrow> 'w soft_timers" where
  "soft_timer_insert entry initial_delta_ms st =
     (let st1 = upd_entry entry (expiry_ms_update (\<lambda>_. soft_timer_get_ms st + initial_delta_ms))
            (st\<lparr>nodes := mp_pairheap_init_node entry (nodes st)\<rparr>);
          (h, s) = mp_pairheap_push (soft_timer_lt (entries st1)) (soft_timer_heap st1) entry (nodes st1);
          st2 = st1\<lparr>nodes := s, soft_timer_heap := h\<rparr>
      in if entry = h then soft_timer_schedule_at_ms (expiry_ms (entries st2 entry)) st2 else st2)"

definition soft_timer_remove :: "u32 \<Rightarrow> 'w soft_timers \<Rightarrow> 'w soft_timers option" where
  "soft_timer_remove entry st = do {
     (h, s) \<leftarrow> mp_pairheap_delete (soft_timer_lt (entries st)) (soft_timer_heap st) entry (nodes st);
     Some (st\<lparr>nodes := s, soft_timer_heap := h\<rparr>) }"

definition soft_timer_reinsert :: "u32 \<Rightarrow> u32 \<Rightarrow> 'w soft_timers \<Rightarrow> 'w soft_timers option" where
  "soft_timer_reinsert entry initial_delta_ms st =
     map_option (soft_timer_insert entry initial_delta_ms) (soft_timer_remove entry st)"

text \<open>
  What \<open>SysTick_Handler\<close> does for the timers, with the handler run when it is requested: nothing of
  the timers runs between, as they hold off the interrupt that runs the handler.  The other handlers of the
  tick, called through \<open>systick_dispatch_table\<close>, do not touch the timers and are left out.
\<close>

definition SysTick_Handler :: "'w soft_callbacks \<Rightarrow> 'w soft_timers \<Rightarrow> 'w soft_timers option" where
  "SysTick_Handler cb st =
     (let st1 = st\<lparr>uwTick := uwTick st + 1\<rparr>
      in if soft_timer_next st1 = uwTick st1 then soft_timer_handler cb st1 else Some st1)"

section \<open>Timer objects\<close>

text \<open>The arguments of \<open>machine_timer_init_helper\<close>, parsed; \<open>freq\<close> is the period that a frequency stands for (a float division).\<close>

record timer_args =
  arg_mode :: u32
  arg_callback :: "u32 option"
  arg_period :: u32
  arg_tick_hz :: u32
  arg_freq :: "u32 option"
  arg_hard :: bool

text \<open>A \<open>tick_hz\<close> of 0 is a division by zero, which C leaves undefined.\<close>

datatype timer_error = PeriodTooLarge | DivisionByZero | TimerDoesntExist

definition timer_delta :: "timer_args \<Rightarrow> u32 \<Rightarrow> timer_error + u32" where
  "timer_delta args old =
     (case (case arg_freq args of
             Some d \<Rightarrow> Inr (ucast d :: 64 word)
           | None \<Rightarrow>
               if arg_period args \<noteq> 0xffffffff then
                 if arg_tick_hz args = 0 then Inl DivisionByZero
                 else Inr ((scast (arg_period args) * 1000) div scast (arg_tick_hz args))
               else Inr (ucast old)) of
        Inl e \<Rightarrow> Inl e
      | Inr d \<Rightarrow> if d < 1 then Inr 1
                 else if d \<ge> 0x40000000 then Inl PeriodTooLarge
                 else Inr (ucast d))"

definition machine_timer_init_helper :: "u32 \<Rightarrow> u32 \<Rightarrow> timer_args \<Rightarrow> 'w soft_timers \<Rightarrow> timer_error option \<times> 'w soft_timers" where
  "machine_timer_init_helper mp_const_none self args st =
     (let st1 = upd_entry self (mode_update (\<lambda>_. ucast (arg_mode args))) st
      in case timer_delta args (delta_ms (entries st1 self)) of
           Inl e \<Rightarrow> (Some e, st1)
         | Inr d \<Rightarrow>
             let st2 = upd_entry self (\<lambda>e. e\<lparr>delta_ms := d,
                   callback := (case arg_callback args of Some c \<Rightarrow> c | None \<Rightarrow> callback e),
                   flags := (if arg_hard args then flags e OR SOFT_TIMER_FLAG_HARD_CALLBACK
                             else flags e AND NOT SOFT_TIMER_FLAG_HARD_CALLBACK)\<rparr>) st1
             in (None, if callback (entries st2 self) \<noteq> mp_const_none
                       then soft_timer_insert self (delta_ms (entries st2 self)) st2 else st2))"

definition machine_timer_init :: "u32 \<Rightarrow> u32 \<Rightarrow> timer_args \<Rightarrow> 'w soft_timers \<Rightarrow> (timer_error option \<times> 'w soft_timers) option" where
  "machine_timer_init mp_const_none self args st =
     map_option (machine_timer_init_helper mp_const_none self args) (soft_timer_remove self st)"

definition machine_timer_deinit :: "u32 \<Rightarrow> 'w soft_timers \<Rightarrow> 'w soft_timers option" where
  "machine_timer_deinit self st = soft_timer_remove self st"

text \<open>A new timer object at the address \<open>self\<close>, where the allocator has cleared the memory; \<open>tid\<close> is the first argument, if there is one, and \<open>args\<close> are the others.\<close>

definition machine_timer_make_new ::
  "u32 \<Rightarrow> u32 \<Rightarrow> int option \<Rightarrow> timer_args option \<Rightarrow> 'w soft_timers \<Rightarrow> timer_error option \<times> 'w soft_timers" where
  "machine_timer_make_new mp_const_none self tid args st =
     (let st1 = upd_entry self (\<lambda>_. \<lparr>flags = SOFT_TIMER_FLAG_PY_CALLBACK OR SOFT_TIMER_FLAG_GC_ALLOCATED, mode = 0,
              expiry_ms = 0, delta_ms = 1000, callback = mp_const_none\<rparr>)
            (st\<lparr>nodes := (nodes st)(self := \<lparr>child = 0, child_last = 0, nxt = 0\<rparr>)\<rparr>)
      in if (case tid of None \<Rightarrow> False | Some i \<Rightarrow> i \<noteq> -1) then (Some TimerDoesntExist, st1)
         else case args of None \<Rightarrow> (None, st1) | Some a \<Rightarrow> machine_timer_init_helper mp_const_none self a st1)"

end
