(* ===== verification/SoftTimerCorrect.thy ===== *)
theory SoftTimerCorrect
  imports SoftTimer
begin

text \<open>
  The soft timers as a queue of due times.  \<open>due\<close> is the signed distance of an expiry from now; within
  \<open>2 ^ 30\<close> milliseconds of now, which the limit on periods keeps, the wrapping comparison of the code
  is the order of these distances.  The handler calls the callbacks in the order of their due times,
  each as often as it is due, and ends.
\<close>

section \<open>Due times\<close>

abbreviation timer_range :: int where "timer_range \<equiv> 0x40000000"

definition due :: "u32 \<Rightarrow> entries \<Rightarrow> u32 \<Rightarrow> int" where
  "due now en e = soft_timer_ticks_diff (expiry_ms (en e)) now"

lemma sint32_bounds: "- 0x80000000 \<le> sint (w :: u32)" "sint (w :: u32) < 0x80000000"
  using sint_ge [of w] sint_lt [of w] by simp_all

lemma sint_exact: "- 0x80000000 \<le> i \<Longrightarrow> i < 0x80000000 \<Longrightarrow> sint (word_of_int i :: u32) = i"
  by (simp add: sint_sbintrunc' signed_take_bit_int_eq_self)

lemma sint_diff:
  fixes a b :: u32
  assumes "- 0x80000000 \<le> sint a - sint b" "sint a - sint b < 0x80000000"
  shows "sint (a - b) = sint a - sint b"
proof -
  have "a - b = word_of_int (sint a - sint b)" by simp
  then show ?thesis using sint_exact [OF assms] by simp
qed

lemma sint_sum:
  fixes a b :: u32
  assumes "- 0x80000000 \<le> sint a + sint b" "sint a + sint b < 0x80000000"
  shows "sint (a + b) = sint a + sint b"
proof -
  have "a + b = word_of_int (sint a + sint b)" by simp
  then show ?thesis using sint_exact [OF assms] by simp
qed

lemma sint_small: "uint (d :: u32) < 0x80000000 \<Longrightarrow> sint d = uint d"
  using sint_exact [of "uint d"] uint_ge_0 [of d] by simp

definition in_range :: "u32 \<Rightarrow> entries \<Rightarrow> u32 \<Rightarrow> bool" where
  "in_range now en e \<longleftrightarrow> - timer_range < due now en e \<and> due now en e < timer_range"

lemma keyed_due: "\<forall>e \<in> A. in_range now en e \<Longrightarrow> keyed (soft_timer_lt en) (due now en) A"
proof (unfold keyed_def, intro ballI)
  fix a b assume A: "\<forall>e \<in> A. in_range now en e" "a \<in> A" "b \<in> A"
  let ?x = "expiry_ms (en a) - now" and ?y = "expiry_ms (en b) - now"
  have r: "- timer_range < sint ?x" "sint ?x < timer_range" "- timer_range < sint ?y" "sint ?y < timer_range"
    using A unfolding in_range_def due_def soft_timer_ticks_diff_def by blast+
  have "expiry_ms (en a) - expiry_ms (en b) = ?x - ?y" by simp
  moreover have "sint (?x - ?y) = sint ?x - sint ?y" by (rule sint_diff) (use r in simp_all)
  ultimately show "soft_timer_lt en a b = (due now en a < due now en b)"
    by (simp only: soft_timer_lt_def due_def soft_timer_ticks_diff_def) linarith
qed

text \<open>A period that is neither 0 nor too long.\<close>

definition period_ok :: "soft_timer_entry_t \<Rightarrow> bool" where
  "period_ok e \<longleftrightarrow> (mode e = SOFT_TIMER_MODE_PERIODIC \<longrightarrow> 1 \<le> uint (delta_ms e) \<and> uint (delta_ms e) < timer_range)"

lemma due_advance:
  assumes "- timer_range < due now en e" "due now en e \<le> 0" "uint (delta_ms (en e)) < timer_range"
  shows "due now (en(e := (en e)\<lparr>expiry_ms := expiry_ms (en e) + delta_ms (en e)\<rparr>)) e = due now en e + uint (delta_ms (en e))"
proof -
  let ?d = "delta_ms (en e)" and ?x = "expiry_ms (en e) - now"
  have d: "sint ?d = uint ?d" by (rule sint_small) (use assms(3) in simp)
  have "0 \<le> uint ?d" by simp
  then have bounds: "- 0x80000000 \<le> sint ?x + sint ?d" "sint ?x + sint ?d < 0x80000000"
    using assms d unfolding due_def soft_timer_ticks_diff_def by linarith+
  have x: "expiry_ms (en e) + ?d - now = ?x + ?d" by simp
  have "sint (expiry_ms (en e) + ?d - now) = sint ?x + uint ?d"
    unfolding x sint_sum [OF bounds] d ..
  then show ?thesis by (simp add: due_def soft_timer_ticks_diff_def)
qed

text \<open>How often an entry that is due at \<open>k\<close> (from now) fires, with a period \<open>d\<close> or once.\<close>

definition firings :: "int \<Rightarrow> int \<Rightarrow> bool \<Rightarrow> nat" where
  "firings k d periodic = (if 0 < k then 0 else if periodic then nat (- k div d) + 1 else 1)"

lemma firings_later [simp]: "0 < k \<Longrightarrow> firings k d p = 0"
  by (simp add: firings_def)

lemma firings_once: "k \<le> 0 \<Longrightarrow> firings k d False = 1"
  by (simp add: firings_def)

lemma firings_again: "k \<le> 0 \<Longrightarrow> 1 \<le> d \<Longrightarrow> firings k d True = Suc (firings (k + d) d True)"
proof (cases "0 < k + d")
  case True
  assume "k \<le> 0" "1 \<le> d"
  then have "- k div d = 0" using True by (intro div_pos_pos_trivial) simp_all
  then show ?thesis using True \<open>k \<le> 0\<close> by (simp add: firings_def)
next
  case False
  assume k: "k \<le> 0" "1 \<le> d"
  have "- k = d + - (k + d)" by simp
  then have "- k div d = 1 + - (k + d) div d" using k(2) by (metis div_add_self1 less_numeral_extra(1) not_one_le_zero add.commute)
  moreover have "0 \<le> - (k + d) div d" using False k by (intro pos_imp_zdiv_nonneg_iff [THEN iffD2]) simp_all
  ultimately show ?thesis using False k by (simp add: firings_def nat_add_distrib)
qed

section \<open>The handler\<close>

text \<open>
  Callbacks that leave the timers alone: calling the one that is set for the entry \<open>e\<close> changes what it
  acts on (\<open>act\<close>), may take time, and may stop its own timer by making it a one-shot timer (\<open>stop\<close>), as
  the callback of \<open>ports/renesas-ra/uart.c\<close> does.
\<close>

type_synonym 'a per_call = "u16 \<times> u32 \<Rightarrow> u32 \<Rightarrow> 'a"

definition setting :: "soft_timer_entry_t \<Rightarrow> u16 \<times> u32" where
  "setting x = (flags x, callback x)"

definition steady :: "'w soft_callbacks \<Rightarrow> ('w \<Rightarrow> 'w) per_call \<Rightarrow> ('w \<Rightarrow> bool) per_call \<Rightarrow> bool" where
  "steady cb act stop \<longleftrightarrow> (\<forall>e st. \<exists>t. fire cb e st =
     upd_entry e (\<lambda>x. if stop (setting (entries st e)) e (world st) then x\<lparr>mode := SOFT_TIMER_MODE_ONE_SHOT\<rparr> else x)
       (st\<lparr>world := act (setting (entries st e)) e (world st), uwTick := t\<rparr>))"

definition never_stops :: "('w \<Rightarrow> bool) per_call \<Rightarrow> entries \<Rightarrow> u32 \<Rightarrow> bool" where
  "never_stops stop en e \<longleftrightarrow> (\<forall>w. \<not> stop (setting (en e)) e w)"

text \<open>The due times at which the entry \<open>e\<close> fired, in a log of pairs.\<close>

definition fired :: "u32 \<Rightarrow> (int \<times> u32) list \<Rightarrow> int list" where
  "fired e log = map fst (filter (\<lambda>p. snd p = e) log)"

lemma fired_Nil [simp]: "fired e [] = []"
  by (simp add: fired_def)

lemma fired_Cons [simp]: "fired e ((k, x) # log) = (if x = e then k # fired e log else fired e log)"
  by (simp add: fired_def)

definition due_times :: "int \<Rightarrow> int \<Rightarrow> nat \<Rightarrow> int list" where
  "due_times k d n = map (\<lambda>i. k + int i * d) [0..<n]"

lemma due_times_0 [simp]: "due_times k d 0 = []"
  by (simp add: due_times_def)

lemma due_times_Suc: "due_times k d (Suc n) = k # due_times (k + d) d n"
proof -
  have "[0..<Suc n] = 0 # map Suc [0..<n]" by (simp add: upt_conv_Cons map_Suc_upt del: upt_Suc)
  then show ?thesis by (simp add: due_times_def o_def algebra_simps del: upt_Suc)
qed

definition is_periodic :: "soft_timer_entry_t \<Rightarrow> bool" where
  "is_periodic e \<longleftrightarrow> mode e = SOFT_TIMER_MODE_PERIODIC"

text \<open>What a run of the handler did for the entry \<open>e\<close> of the queue: \<open>m\<close> calls.\<close>

definition entry_done ::
  "u32 \<Rightarrow> ('w \<Rightarrow> bool) per_call \<Rightarrow> entries \<Rightarrow> entries \<Rightarrow> u32 list \<Rightarrow> (int \<times> u32) list \<Rightarrow> u32 \<Rightarrow> bool" where
  "entry_done now stop en en' q' log e \<longleftrightarrow>
     (let k = due now en e; d = uint (delta_ms (en e)); n = firings k d (is_periodic (en e)) in
      \<exists>m \<le> n. fired e log = due_times k d m \<and> (never_stops stop en e \<longrightarrow> m = n) \<and>
        (e \<in> set q' \<longrightarrow> m = n \<and> due now en' e = k + int n * d \<and> en' e = (en e)\<lparr>expiry_ms := expiry_ms (en' e)\<rparr>) \<and>
        (never_stops stop en e \<longrightarrow> (e \<in> set q') = (0 < k \<or> is_periodic (en e))))"

definition timers_ready :: "u32 \<Rightarrow> entries \<Rightarrow> ph_store \<Rightarrow> u32 \<Rightarrow> u32 list \<Rightarrow> bool" where
  "timers_ready now en s h q \<longleftrightarrow> ph_queue (due now en) s h q \<and> (\<forall>e \<in> set q. in_range now en e \<and> period_ok (en e))"

definition late :: "int \<Rightarrow> nat" where
  "late k = (if k \<le> 0 then Suc (nat (- k)) else 0)"

definition lateness :: "u32 \<Rightarrow> entries \<Rightarrow> u32 list \<Rightarrow> nat" where
  "lateness now en q = sum_list (map (\<lambda>e. late (due now en e)) q)"

lemma handler_loop_idle:
  assumes "timers_ready now (entries st) (nodes st) h q" "q = [] \<or> 0 < due now (entries st) (hd q)"
  shows "handler_loop cb now h st = Some (h, st)"
proof -
  have "h = (case q of [] \<Rightarrow> 0 | x # _ \<Rightarrow> x)"
    using assms(1) unfolding timers_ready_def by (blast dest: ph_queue_top)
  then show ?thesis using assms(2)
    by (subst handler_loop.simps) (auto simp: due_def split: list.splits)
qed

lemma timers_ready_pop:
  assumes "timers_ready now en s h (x # q)"
  shows "\<exists>h1 s1. mp_pairheap_pop (soft_timer_lt en) h s = Some (h1, s1) \<and> timers_ready now en s1 h1 q \<and>
    ph_fresh s1 x \<and> same_off (set (x # q)) s s1 \<and> x \<notin> set q \<and> h = x \<and> x \<noteq> 0 \<and> in_range now en x \<and> period_ok (en x)"
proof -
  have q: "ph_queue (due now en) s h (x # q)" "\<forall>e \<in> set (x # q). in_range now en e \<and> period_ok (en e)"
    using assms by (simp_all add: timers_ready_def)
  have "keyed (soft_timer_lt en) (due now en) (set (x # q))" by (rule keyed_due) (use q in blast)
  from ph_pop [OF q(1) this] obtain h1 s1 where "mp_pairheap_pop (soft_timer_lt en) h s = Some (h1, s1)"
    "ph_queue (due now en) s1 h1 q" "ph_fresh s1 x" "same_off (set (x # q)) s s1" by blast
  moreover have "h = x" using ph_queue_top [OF q(1)] by simp
  moreover have "x \<notin> set q" using ph_queue_nodes [OF q(1)] by (simp add: nodes_ok_Cons)
  moreover have "x \<noteq> 0" using ph_queue_addr [OF q(1), of x] node_nonzero by simp
  ultimately show ?thesis using q(2) by (simp add: timers_ready_def)
qed

lemma ready_other:
  assumes "timers_ready now en s h q" "\<forall>e \<in> set q. en' e = en e"
  shows "timers_ready now en' s h q"
proof -
  have same: "due now en' e = due now en e" if "e \<in> set q" for e using that assms(2) by (simp add: due_def)
  have "ph_queue (due now en') s h q"
    by (rule ph_queue_rekey [of "due now en"]) (use assms(1) same in \<open>simp_all add: timers_ready_def\<close>)
  then show ?thesis using assms same by (simp add: timers_ready_def in_range_def)
qed

lemma timers_ready_push:
  assumes "timers_ready now en s h q" "ph_fresh s x" "x \<notin> set q" "in_range now en x" "period_ok (en x)"
  shows "\<exists>h1 s1. mp_pairheap_push (soft_timer_lt en) h x s = (h1, s1) \<and>
    timers_ready now en s1 h1 (sort_key (due now en) (q @ [x])) \<and> same_off (insert x (set q)) s s1"
proof -
  have q: "ph_queue (due now en) s h q" "\<forall>e \<in> set q. in_range now en e \<and> period_ok (en e)"
    using assms(1) by (simp_all add: timers_ready_def)
  have "keyed (soft_timer_lt en) (due now en) (insert x (set q))" by (rule keyed_due) (use q assms(4) in blast)
  from ph_push [OF q(1) this assms(2,3)] q(2) assms(4,5) show ?thesis by (auto simp: timers_ready_def)
qed

text \<open>Calling back changes no period and no callback, and makes no timer periodic.\<close>

definition same_period :: "soft_timer_entry_t \<Rightarrow> soft_timer_entry_t \<Rightarrow> bool" where
  "same_period x y \<longleftrightarrow> setting y = setting x \<and> delta_ms y = delta_ms x \<and> (mode y = mode x \<or> mode y = SOFT_TIMER_MODE_ONE_SHOT)"

lemma same_period_refl [simp]: "same_period x x"
  by (simp add: same_period_def)

lemma same_period_trans: "same_period x y \<Longrightarrow> same_period y z \<Longrightarrow> same_period x z"
  by (auto simp: same_period_def)

lemma same_period_ok: "same_period x y \<Longrightarrow> period_ok x \<Longrightarrow> period_ok y"
  by (auto simp: same_period_def period_ok_def)

text \<open>One turn of the loop, for a timer that ends and for one that goes on.\<close>

lemma handler_turn:
  assumes "timers_ready now (entries st) (nodes st) h (x # q)" "due now (entries st) x \<le> 0" "steady cb act stop"
  defines "again \<equiv> is_periodic (entries st x) \<and> \<not> stop (setting (entries st x)) x (world st)"
    and "en' \<equiv> (entries st)(x := (entries st x)\<lparr>expiry_ms := expiry_ms (entries st x) + delta_ms (entries st x)\<rparr>)"
  shows "\<exists>h1 st1. handler_loop cb now h st = handler_loop cb now h1 st1 \<and> world st1 = act (setting (entries st x)) x (world st) \<and>
    same_off (set (x # q)) (nodes st) (nodes st1) \<and> (\<forall>e. e \<noteq> x \<longrightarrow> entries st1 e = entries st e) \<and>
    same_period (entries st x) (entries st1 x) \<and>
    (if again then entries st1 = en' \<and> timers_ready now en' (nodes st1) h1 (sort_key (due now en') (q @ [x]))
     else ph_fresh (nodes st1) x \<and> timers_ready now (entries st1) (nodes st1) h1 q)"
proof -
  obtain h1 s1 where p: "mp_pairheap_pop (soft_timer_lt (entries st)) h (nodes st) = Some (h1, s1)"
    "timers_ready now (entries st) s1 h1 q" "ph_fresh s1 x" "same_off (set (x # q)) (nodes st) s1" "x \<notin> set q"
    "h = x" "x \<noteq> 0" "in_range now (entries st) x" "period_ok (entries st x)"
    using timers_ready_pop [OF assms(1)] by blast
  obtain t where t: "fire cb x (st\<lparr>nodes := s1\<rparr>) =
      upd_entry x (\<lambda>y. if stop (setting (entries st x)) x (world st) then y\<lparr>mode := SOFT_TIMER_MODE_ONE_SHOT\<rparr> else y)
        (st\<lparr>nodes := s1, world := act (setting (entries st x)) x (world st), uwTick := t\<rparr>)"
    using assms(3)[unfolded steady_def, rule_format, of x "st\<lparr>nodes := s1\<rparr>"] by auto
  let ?st1 = "fire cb x (st\<lparr>nodes := s1\<rparr>)"
  have f: "nodes ?st1 = s1" "world ?st1 = act (setting (entries st x)) x (world st)" "\<forall>e. e \<noteq> x \<longrightarrow> entries ?st1 e = entries st e"
    "entries ?st1 x = (if stop (setting (entries st x)) x (world st) then (entries st x)\<lparr>mode := SOFT_TIMER_MODE_ONE_SHOT\<rparr> else entries st x)"
    unfolding t by (simp_all add: upd_entry_def)
  have go: "h \<noteq> 0 \<and> soft_timer_ticks_diff (expiry_ms (entries st h)) now \<le> 0"
    using p(6,7) assms(2) by (simp add: due_def)
  have m: "mode (entries ?st1 x) = SOFT_TIMER_MODE_PERIODIC \<longleftrightarrow> again"
    using f(4) by (simp add: again_def is_periodic_def)
  show ?thesis
  proof (cases again)
    case False
    have "handler_loop cb now h st = handler_loop cb now h1 ?st1"
      by (subst handler_loop.simps) (use go p(1,6) m False in \<open>simp add: Let_def\<close>)
    moreover have "timers_ready now (entries ?st1) s1 h1 q"
      by (rule ready_other [OF p(2)]) (use f(3) p(5) in metis)
    moreover have "same_period (entries st x) (entries ?st1 x)" using f(4) by (simp add: same_period_def setting_def)
    ultimately show ?thesis using False f p(3,4) by (intro exI [of _ h1] exI [of _ ?st1]) simp
  next
    case True
    let ?st2 = "upd_entry x (\<lambda>e. e\<lparr>expiry_ms := expiry_ms e + delta_ms e\<rparr>) ?st1"
    have "entries ?st1 = entries st"
      using f(3,4) True by (auto simp: again_def fun_eq_iff)
    then have en: "entries ?st2 = en'" "nodes ?st2 = s1" "world ?st2 = act (setting (entries st x)) x (world st)"
      using f by (simp_all add: upd_entry_def en'_def)
    have d: "1 \<le> uint (delta_ms (entries st x))" "uint (delta_ms (entries st x)) < timer_range"
      using p(9) True by (simp_all add: period_ok_def again_def is_periodic_def)
    have "due now en' x = due now (entries st) x + uint (delta_ms (entries st x))"
      unfolding en'_def by (rule due_advance) (use p(8) assms(2) d in \<open>simp_all add: in_range_def\<close>)
    then have "in_range now en' x" using p(8) assms(2) d by (simp add: in_range_def)
    moreover have "period_ok (en' x)" using p(9) by (simp add: period_ok_def en'_def)
    moreover have "timers_ready now en' s1 h1 q"
      by (rule ready_other [OF p(2)]) (use p(5) in \<open>auto simp: en'_def\<close>)
    ultimately obtain h2 s2 where p2: "mp_pairheap_push (soft_timer_lt en') h1 x s1 = (h2, s2)"
      "timers_ready now en' s2 h2 (sort_key (due now en') (q @ [x]))" "same_off (insert x (set q)) s1 s2"
      using timers_ready_push p(3,5) by blast
    have "handler_loop cb now h st = handler_loop cb now h2 (?st2\<lparr>nodes := s2\<rparr>)"
      by (subst handler_loop.simps) (use go p(1,6) m True p2(1) en in \<open>simp add: Let_def\<close>)
    moreover have "same_off (set (x # q)) (nodes st) s2"
      by (rule same_off_trans [OF p(4) p2(3)]) auto
    ultimately show ?thesis
      using True en p2(2) by (intro exI [of _ h2] exI [of _ "?st2\<lparr>nodes := s2\<rparr>"]) (simp add: en'_def same_period_def setting_def)
  qed
qed

lemma late_less: "k \<le> 0 \<Longrightarrow> k < j \<Longrightarrow> late j < late k"
  by (simp add: late_def)

lemma lateness_perm: "mset xs = mset ys \<Longrightarrow> lateness now en xs = lateness now en ys"
  by (simp only: lateness_def sum_mset_sum_list [symmetric] mset_map)

lemma lateness_Cons: "lateness now en (x # q) = late (due now en x) + lateness now en q"
  by (simp add: lateness_def)

lemma lateness_cong: "\<forall>e \<in> set q. en' e = en e \<Longrightarrow> lateness now en' q = lateness now en q"
  unfolding lateness_def due_def by (intro arg_cong [of _ _ sum_list] map_cong) simp_all

text \<open>What is done for an entry over one turn and the rest of the loop.\<close>

lemma done_other:
  "entry_done now stop en1 en' q' log e \<Longrightarrow> en1 e = en e \<Longrightarrow> e \<noteq> x \<Longrightarrow> entry_done now stop en en' q' ((k, x) # log) e"
  by (simp add: entry_done_def due_def never_stops_def)

lemma done_once:
  assumes "e \<notin> set q'" "fired e log = []" "due now en e \<le> 0" "never_stops stop en e \<Longrightarrow> \<not> is_periodic (en e)"
  shows "entry_done now stop en en' q' ((due now en e, e) # log) e"
proof -
  have "firings (due now en e) (uint (delta_ms (en e))) (is_periodic (en e)) \<ge> 1"
    using assms(3) by (simp add: firings_def)
  moreover have "never_stops stop en e \<Longrightarrow> firings (due now en e) (uint (delta_ms (en e))) (is_periodic (en e)) = 1"
    using assms(3,4) firings_once by auto
  ultimately show ?thesis unfolding entry_done_def Let_def
    by (intro exI [of _ "Suc 0"]) (use assms in \<open>auto simp: due_times_Suc\<close>)
qed

lemma done_again:
  assumes "entry_done now stop en1 en' q' log e" "due now en e \<le> 0" "is_periodic (en e)"
    and "en1 e = (en e)\<lparr>expiry_ms := v\<rparr>" "due now en1 e = due now en e + uint (delta_ms (en e))" "1 \<le> uint (delta_ms (en e))"
  shows "entry_done now stop en en' q' ((due now en e, e) # log) e"
proof -
  let ?k = "due now en e" and ?d = "uint (delta_ms (en e))"
  have f: "firings ?k ?d True = Suc (firings (?k + ?d) ?d True)" by (rule firings_again [OF assms(2,6)])
  have p: "is_periodic (en1 e)" "delta_ms (en1 e) = delta_ms (en e)" "never_stops stop en1 e = never_stops stop en e"
    using assms(3,4) by (simp_all add: is_periodic_def never_stops_def setting_def)
  from assms(1) obtain m where m: "m \<le> firings (?k + ?d) ?d True" "fired e log = due_times (?k + ?d) ?d m"
    "never_stops stop en e \<longrightarrow> m = firings (?k + ?d) ?d True"
    "e \<in> set q' \<longrightarrow> m = firings (?k + ?d) ?d True \<and> due now en' e = ?k + ?d + int (firings (?k + ?d) ?d True) * ?d \<and>
      en' e = (en1 e)\<lparr>expiry_ms := expiry_ms (en' e)\<rparr>"
    "never_stops stop en e \<longrightarrow> e \<in> set q'"
    unfolding entry_done_def Let_def p(2,3) assms(5) using p(1) by auto
  have "en' e = (en e)\<lparr>expiry_ms := expiry_ms (en' e)\<rparr>" if "e \<in> set q'"
    using m(4) that unfolding assms(4) by (metis (no_types, lifting) soft_timer_entry_t.update_convs(3) soft_timer_entry_t.surjective soft_timer_entry_t.select_convs(1,2,3,4,5))
  then show ?thesis unfolding entry_done_def Let_def using m f assms(3)
    by (intro exI [of _ "Suc m"]) (auto simp: due_times_Suc algebra_simps)
qed

text \<open>What a run of the loop does: \<open>q'\<close> is the queue it leaves, \<open>log\<close> the callbacks in their order.\<close>

definition handled ::
  "u32 \<Rightarrow> ('w \<Rightarrow> 'w) per_call \<Rightarrow> ('w \<Rightarrow> bool) per_call \<Rightarrow> 'w soft_timers \<Rightarrow> u32 list \<Rightarrow> 'w soft_timers \<Rightarrow> u32 list \<Rightarrow>
    (int \<times> u32) list \<Rightarrow> bool" where
  "handled now act stop st q st' q' log \<longleftrightarrow>
     set q' \<subseteq> set q \<and> world st' = fold (\<lambda>p. act (setting (entries st (snd p))) (snd p)) log (world st) \<and> sorted (map fst log) \<and>
     (\<forall>p \<in> set log. snd p \<in> set q \<and> fst p \<le> 0 \<and> (\<exists>e \<in> set q. due now (entries st) e \<le> fst p)) \<and>
     (\<forall>e \<in> set q'. 0 < due now (entries st') e) \<and> same_off (set q) (nodes st) (nodes st') \<and>
     (\<forall>e \<in> set q - set q'. ph_fresh (nodes st') e) \<and> (\<forall>e. e \<notin> set q \<longrightarrow> entries st' e = entries st e) \<and>
     (\<forall>e. same_period (entries st e) (entries st' e)) \<and>
     (\<forall>e \<in> set q. entry_done now stop (entries st) (entries st') q' log e)"

lemma handled_idle:
  assumes "\<forall>e \<in> set q. 0 < due now (entries st) e"
  shows "handled now act stop st q st q []"
  using assms by (auto simp: handled_def entry_done_def Let_def)

lemma handled_turn:
  assumes h: "handled now act stop st1 q1 st' q' log"
    and q: "set q1 \<subseteq> set (x # q)" "\<forall>e \<in> set q. e \<in> set q1" "x \<notin> set q"
    and k: "due now (entries st) x \<le> 0" "\<forall>e \<in> set q. due now (entries st) x \<le> due now (entries st) e"
      "\<forall>e \<in> set q1. due now (entries st) x \<le> due now (entries st1) e"
    and st: "world st1 = act (setting (entries st x)) x (world st)" "same_off (set (x # q)) (nodes st) (nodes st1)"
      "\<forall>e. e \<noteq> x \<longrightarrow> entries st1 e = entries st e" "x \<notin> set q1 \<Longrightarrow> ph_fresh (nodes st1) x"
      "same_period (entries st x) (entries st1 x)"
    and x: "entry_done now stop (entries st) (entries st') q' ((due now (entries st) x, x) # log) x"
  shows "handled now act stop st (x # q) st' q' ((due now (entries st) x, x) # log)"
proof -
  let ?k = "due now (entries st) x"
  have H: "set q' \<subseteq> set q1" "world st' = fold (\<lambda>p. act (setting (entries st1 (snd p))) (snd p)) log (world st1)" "sorted (map fst log)"
    "\<forall>p \<in> set log. snd p \<in> set q1 \<and> fst p \<le> 0 \<and> (\<exists>e \<in> set q1. due now (entries st1) e \<le> fst p)"
    "\<forall>e \<in> set q'. 0 < due now (entries st') e" "same_off (set q1) (nodes st1) (nodes st')"
    "\<forall>e \<in> set q1 - set q'. ph_fresh (nodes st') e" "\<forall>e. e \<notin> set q1 \<longrightarrow> entries st' e = entries st1 e"
    "\<forall>e \<in> set q1. entry_done now stop (entries st1) (entries st') q' log e"
    "\<forall>e. same_period (entries st1 e) (entries st' e)"
    using h unfolding handled_def by blast+
  have low: "\<forall>p \<in> set log. ?k \<le> fst p" using H(4) k(3) by fastforce
  have fresh: "ph_fresh (nodes st') e" if e: "e \<in> set (x # q) - set q'" for e
  proof (cases "e \<in> set q1")
    case False
    then have "e = x" using e q(2) by auto
    then show ?thesis using st(4) False same_offD [OF H(6) False] by (simp add: ph_fresh_def)
  qed (use H(7) e in blast)
  have other: "entry_done now stop (entries st) (entries st') q' ((?k, x) # log) e" if "e \<in> set q" for e
    using that done_other H(9) q(2,3) st(3) by metis
  show ?thesis unfolding handled_def
  proof (intro conjI)
    show "set q' \<subseteq> set (x # q)" using H(1) q(1) by blast
    have "setting (entries st1 e) = setting (entries st e)" for e
      using st(3,5) by (cases "e = x") (simp_all add: same_period_def)
    then show "world st' = fold (\<lambda>p. act (setting (entries st (snd p))) (snd p)) ((?k, x) # log) (world st)"
      using H(2) st(1) by simp
    show "sorted (map fst ((?k, x) # log))" using H(3) low by simp
    show "\<forall>p \<in> set ((?k, x) # log). snd p \<in> set (x # q) \<and> fst p \<le> 0 \<and> (\<exists>e \<in> set (x # q). due now (entries st) e \<le> fst p)"
      using H(4) q(1) k(1) low by fastforce
    show "same_off (set (x # q)) (nodes st) (nodes st')" by (rule same_off_trans [OF st(2) H(6) order_refl q(1)])
    show "\<forall>e. e \<notin> set (x # q) \<longrightarrow> entries st' e = entries st e"
      using H(8) st(3) q(1) by (metis list.set_intros(1) subsetD)
    show "\<forall>e. same_period (entries st e) (entries st' e)"
      using H(10) st(3,5) same_period_trans by metis
  qed (use H(5) fresh other x in auto)
qed

lemma handler_loop_ok:
  assumes "timers_ready now (entries st) (nodes st) h q" "steady cb act stop"
  shows "\<exists>h' st' q' log. handler_loop cb now h st = Some (h', st') \<and>
    timers_ready now (entries st') (nodes st') h' q' \<and> handled now act stop st q st' q' log"
  using assms(1)
proof (induction "lateness now (entries st) q" arbitrary: st h q rule: less_induct)
  case less
  show ?case
  proof (cases "q = [] \<or> 0 < due now (entries st) (hd q)")
    case True
    have "sorted (map (due now (entries st)) q)"
      using less.prems ph_queue_nodes by (auto simp: timers_ready_def)
    then have "\<forall>e \<in> set q. 0 < due now (entries st) e" using True by (cases q) auto
    then show ?thesis using handler_loop_idle [OF less.prems True] less.prems handled_idle by blast
  next
    case False
    then obtain x r where q: "q = x # r" by (cases q) auto
    let ?k = "due now (entries st) x" and ?d = "uint (delta_ms (entries st x))"
    have k: "?k \<le> 0" using False q by simp
    have srt: "\<forall>e \<in> set r. ?k \<le> due now (entries st) e" and xr: "x \<notin> set r"
      using less.prems ph_queue_nodes unfolding timers_ready_def q by (fastforce simp: nodes_ok_Cons)+
    have rx: "in_range now (entries st) x" "period_ok (entries st x)" using less.prems by (simp_all add: timers_ready_def q)
    define again where "again = (is_periodic (entries st x) \<and> \<not> stop (setting (entries st x)) x (world st))"
    define en' where "en' = (entries st)(x := (entries st x)\<lparr>expiry_ms := expiry_ms (entries st x) + delta_ms (entries st x)\<rparr>)"
    obtain h1 st1 where turn: "handler_loop cb now h st = handler_loop cb now h1 st1" "world st1 = act (setting (entries st x)) x (world st)"
      "same_off (set (x # r)) (nodes st) (nodes st1)" "\<forall>e. e \<noteq> x \<longrightarrow> entries st1 e = entries st e"
      "same_period (entries st x) (entries st1 x)"
      "if again then entries st1 = en' \<and> timers_ready now en' (nodes st1) h1 (sort_key (due now en') (r @ [x]))
       else ph_fresh (nodes st1) x \<and> timers_ready now (entries st1) (nodes st1) h1 r"
      using handler_turn [OF less.prems [unfolded q] k assms(2)] unfolding again_def en'_def by blast
    have same: "\<forall>e \<in> set r. entries st1 e = entries st e" using turn(4) xr by metis
    then have dr: "\<forall>e \<in> set r. due now (entries st1) e = due now (entries st) e" by (simp add: due_def)
    show ?thesis
    proof (cases again)
      case go: False
      then have t: "timers_ready now (entries st1) (nodes st1) h1 r" "ph_fresh (nodes st1) x" using turn(6) by simp_all
      have "lateness now (entries st1) r < lateness now (entries st) q"
        using lateness_cong [OF same] k by (simp add: q lateness_Cons late_def)
      then obtain h' st' q' log where R: "handler_loop cb now h1 st1 = Some (h', st')"
        "timers_ready now (entries st') (nodes st') h' q'" "handled now act stop st1 r st' q' log"
        using less.hyps t(1) by blast
      have "x \<notin> set q'" "fired x log = []"
        using R(3) xr by (auto simp: handled_def fired_def filter_empty_conv)
      then have "entry_done now stop (entries st) (entries st') q' ((?k, x) # log) x"
        by (intro done_once) (use k go in \<open>simp_all add: again_def never_stops_def\<close>)
      then have "handled now act stop st q st' q' ((?k, x) # log)"
        unfolding q by (intro handled_turn [OF R(3)]) (use xr k srt dr turn t in auto)
      then show ?thesis using R turn(1) by auto
    next
      case go: True
      then have t: "entries st1 = en'" "timers_ready now en' (nodes st1) h1 (sort_key (due now en') (r @ [x]))"
        using turn(6) by simp_all
      have d: "1 \<le> ?d" "?d < timer_range" using rx(2) go by (simp_all add: period_ok_def again_def is_periodic_def)
      have dx: "due now en' x = ?k + ?d"
        unfolding en'_def by (rule due_advance) (use rx(1) k d in \<open>simp_all add: in_range_def\<close>)
      have "lateness now en' (sort_key (due now en') (r @ [x])) = lateness now en' (x # r)"
        by (rule lateness_perm) simp
      moreover have "late (?k + ?d) < late ?k" by (rule late_less) (use k d in simp_all)
      ultimately have "lateness now (entries st1) (sort_key (due now en') (r @ [x])) < lateness now (entries st) q"
        using lateness_cong [OF same] t(1) by (simp add: q lateness_Cons dx)
      then obtain h' st' q' log where R: "handler_loop cb now h1 st1 = Some (h', st')"
        "timers_ready now (entries st') (nodes st') h' q'" "handled now act stop st1 (sort_key (due now en') (r @ [x])) st' q' log"
        using less.hyps t by metis
      have ex: "entry_done now stop (entries st1) (entries st') q' log x"
        using R(3) by (simp add: handled_def)
      have "entry_done now stop (entries st) (entries st') q' ((?k, x) # log) x"
        by (rule done_again [OF ex]) (use k go d dx t(1) in \<open>auto simp: again_def en'_def\<close>)
      then have "handled now act stop st q st' q' ((?k, x) # log)"
        unfolding q by (intro handled_turn [OF R(3)]) (use xr k srt dr turn t(1) dx d in auto)
      then show ?thesis using R turn(1) by auto
    qed
  qed
qed

end
