(* ===== verification/TimerOps.thy ===== *)
theory TimerOps
  imports SoftTimerCorrect
begin

text \<open>
  Every operation on the soft timers keeps the invariant \<open>timers_ok\<close>: the heap holds a queue of due
  times, none of them past; the entries that are not in it can be inserted; and the tick at which the
  handler is requested comes no later than the first timer is due.  So every timer fires at its tick.
\<close>

section \<open>The invariant\<close>

definition armed :: "'w soft_timers \<Rightarrow> u32 list \<Rightarrow> bool" where
  "armed st q \<longleftrightarrow> (q \<noteq> [] \<longrightarrow> 0 < soft_timer_ticks_diff (soft_timer_next st) (uwTick st) \<and>
     soft_timer_ticks_diff (soft_timer_next st) (uwTick st) \<le> max 1 (due (uwTick st) (entries st) (hd q)))"

definition timers_held :: "u32 set \<Rightarrow> 'w soft_timers \<Rightarrow> u32 list \<Rightarrow> bool" where
  "timers_held U st q \<longleftrightarrow> timers_ready (uwTick st) (entries st) (nodes st) (soft_timer_heap st) q \<and> set q \<subseteq> U \<and>
     (\<forall>e \<in> U - set q. ph_fresh (nodes st) e) \<and> (\<forall>e \<in> U. period_ok (entries st e))"

definition timers_ok :: "u32 set \<Rightarrow> 'w soft_timers \<Rightarrow> u32 list \<Rightarrow> bool" where
  "timers_ok U st q \<longleftrightarrow> timers_held U st q \<and> (\<forall>e \<in> set q. 0 \<le> due (uwTick st) (entries st) e) \<and> armed st q"

lemma timers_ok_start:
  "soft_timer_heap st = mp_pairheap_new \<Longrightarrow> \<forall>e \<in> U. ph_fresh (nodes st) e \<and> period_ok (entries st e) \<Longrightarrow> timers_ok U st []"
  by (simp add: timers_ok_def timers_held_def timers_ready_def armed_def mp_pairheap_new_def)

lemma ready_sorted: "timers_ready now en s h q \<Longrightarrow> sorted (map (due now en) q) \<and> distinct q"
  using ph_queue_nodes by (auto simp: timers_ready_def nodes_ok_def)

lemma ready_hd:
  assumes "timers_ready now en s h q" "e \<in> set q"
  shows "due now en (hd q) \<le> due now en e"
  using ready_sorted [OF assms(1)] assms(2) by (cases q) auto

lemma ready_top: "timers_ready now en s h q \<Longrightarrow> h = (case q of [] \<Rightarrow> 0 | x # _ \<Rightarrow> x)"
  unfolding timers_ready_def by (blast dest: ph_queue_top)

text \<open>A later first timer keeps the request good.\<close>

lemma armed_later:
  assumes "armed st q" "q' \<noteq> [] \<Longrightarrow> q \<noteq> [] \<and> due (uwTick st) (entries st) (hd q) \<le> due (uwTick st) (entries st') (hd q')"
    and "soft_timer_next st' = soft_timer_next st" "uwTick st' = uwTick st"
  shows "armed st' q'"
  using assms unfolding armed_def by auto

section \<open>Requesting the handler\<close>

lemma ticks_diff_succ: "soft_timer_ticks_diff (t + 1) t = 1"
  by (simp add: soft_timer_ticks_diff_def)

lemma schedule_armed:
  "0 < soft_timer_ticks_diff (soft_timer_next (soft_timer_schedule_at_ms t st)) (uwTick st) \<and>
   soft_timer_ticks_diff (soft_timer_next (soft_timer_schedule_at_ms t st)) (uwTick st) \<le>
     max 1 (soft_timer_ticks_diff t (uwTick st))"
  by (simp add: soft_timer_schedule_at_ms_def ticks_diff_succ)

lemma schedule_simps [simp]:
  "nodes (soft_timer_schedule_at_ms t st) = nodes st" "entries (soft_timer_schedule_at_ms t st) = entries st"
  "soft_timer_heap (soft_timer_schedule_at_ms t st) = soft_timer_heap st"
  "uwTick (soft_timer_schedule_at_ms t st) = uwTick st" "world (soft_timer_schedule_at_ms t st) = world st"
  by (simp_all add: soft_timer_schedule_at_ms_def)

lemma upd_entry_simps [simp]:
  "nodes (upd_entry e f st) = nodes st" "entries (upd_entry e f st) = (entries st)(e := f (entries st e))"
  "soft_timer_heap (upd_entry e f st) = soft_timer_heap st" "soft_timer_next (upd_entry e f st) = soft_timer_next st"
  "uwTick (upd_entry e f st) = uwTick st" "world (upd_entry e f st) = world st"
  by (simp_all add: upd_entry_def)

section \<open>Inserting and removing\<close>

lemma soft_timer_insert_ok:
  assumes "timers_ok U st q" "e \<in> U" "e \<notin> set q" "uint d < timer_range"
  defines "en \<equiv> (entries st)(e := (entries st e)\<lparr>expiry_ms := uwTick st + d\<rparr>)"
  shows "timers_ok U (soft_timer_insert e d st) (sort_key (due (uwTick st) en) (q @ [e]))"
    "entries (soft_timer_insert e d st) = en" "due (uwTick st) en e = uint d"
    "uwTick (soft_timer_insert e d st) = uwTick st" "world (soft_timer_insert e d st) = world st"
proof -
  let ?now = "uwTick st" and ?s0 = "mp_pairheap_init_node e (nodes st)"
  have H: "timers_ready ?now (entries st) (nodes st) (soft_timer_heap st) q" "set q \<subseteq> U"
    "\<forall>x \<in> U - set q. ph_fresh (nodes st) x" "\<forall>x \<in> U. period_ok (entries st x)"
    "\<forall>x \<in> set q. 0 \<le> due ?now (entries st) x" "armed st q"
    using assms(1) by (simp_all add: timers_ok_def timers_held_def)
  show de: "due ?now en e = uint d"
    using assms(4) sint_small [of d] by (simp add: due_def soft_timer_ticks_diff_def en_def)
  have other: "\<forall>x. x \<noteq> e \<longrightarrow> en x = entries st x" by (simp add: en_def)
  have dq: "due ?now en x = due ?now (entries st) x" if "x \<in> set q" for x
  proof -
    have "x \<noteq> e" using that assms(3) by blast
    then show ?thesis using other by (simp add: due_def)
  qed
  have off0: "same_off {e} (nodes st) ?s0" by (simp add: mp_pairheap_init_node_def same_off_def ph_defs)
  have r0: "timers_ready ?now en ?s0 (soft_timer_heap st) q"
  proof -
    have "timers_ready ?now (entries st) ?s0 (soft_timer_heap st) q"
      using H(1) ph_queue_off [OF _ off0] assms(3) by (simp add: timers_ready_def)
    then show ?thesis by (rule ready_other) (use other assms(3) in metis)
  qed
  have fr: "ph_fresh ?s0 e"
    using H(3) assms(2,3) by (simp add: ph_fresh_def mp_pairheap_init_node_def ph_defs)
  have ir: "in_range ?now en e" using de assms(4) uint_ge_0 [of d] unfolding in_range_def by linarith
  have pk: "period_ok (en e)" using H(4) assms(2) by (simp add: period_ok_def en_def)
  define qs where "qs = sort_key (due ?now en) (q @ [e])"
  have sq: "set qs = insert e (set q)" by (simp add: qs_def)
  obtain h s where p: "mp_pairheap_push (soft_timer_lt en) (soft_timer_heap st) e ?s0 = (h, s)"
    "timers_ready ?now en s h qs" "same_off (insert e (set q)) ?s0 s"
    using timers_ready_push [OF r0 fr assms(3) ir pk] unfolding qs_def by blast
  let ?st = "upd_entry e (expiry_ms_update (\<lambda>_. ?now + d)) st\<lparr>nodes := s, soft_timer_heap := h\<rparr>"
  have ins: "soft_timer_insert e d st = (if e = h then soft_timer_schedule_at_ms (?now + d) ?st else ?st)"
    using p(1) by (simp add: soft_timer_insert_def soft_timer_get_ms_def upd_entry_def en_def Let_def)
  show "entries (soft_timer_insert e d st) = en" "uwTick (soft_timer_insert e d st) = uwTick st"
    "world (soft_timer_insert e d st) = world st"
    unfolding ins by (simp_all add: en_def)
  have off: "same_off (insert e (set q)) (nodes st) s"
    by (rule same_off_trans [OF off0 p(3)]) auto
  have "armed (soft_timer_insert e d st) qs"
  proof (cases "e = h")
    case True
    have "qs \<noteq> []" using sq by (metis insert_not_empty set_empty)
    then have "hd qs = e" using ready_top [OF p(2)] True by (cases qs) simp_all
    moreover have "due ?now en e = soft_timer_ticks_diff (?now + d) ?now" by (simp add: due_def en_def)
    moreover have "soft_timer_insert e d st = soft_timer_schedule_at_ms (?now + d) ?st" using ins True by simp
    ultimately show ?thesis
      using schedule_armed [of "?now + d" ?st] unfolding armed_def by (simp add: en_def)
  next
    case False
    show ?thesis
    proof (rule armed_later [OF H(6)])
      assume "qs \<noteq> []"
      then have hd: "hd qs = h" "hd qs \<in> set qs" using ready_top [OF p(2)] hd_in_set [of qs] by (cases qs; simp)+
      then have hq: "hd qs \<in> set q" using sq False by auto
      then have "due ?now (entries st) (hd q) \<le> due ?now (entries st) (hd qs)" using ready_hd [OF H(1)] by blast
      moreover have "due ?now en (hd qs) = due ?now (entries st) (hd qs)"
        using hd(1) False other by (simp add: due_def)
      ultimately show "q \<noteq> [] \<and> due ?now (entries st) (hd q) \<le> due ?now (entries (soft_timer_insert e d st)) (hd qs)"
        using hq False by (auto simp: ins en_def)
    qed (use False in \<open>simp_all add: ins\<close>)
  qed
  moreover have "\<forall>x \<in> U - set qs. ph_fresh s x"
    using H(3) same_offD [OF off] unfolding sq ph_fresh_def by auto
  moreover have "\<forall>x \<in> U. period_ok (en x)" using H(4) pk other by metis
  moreover have "\<forall>x \<in> set qs. 0 \<le> due ?now en x"
    using H(5) de uint_ge_0 [of d] dq unfolding sq by simp
  moreover have "nodes (soft_timer_insert e d st) = s" "soft_timer_heap (soft_timer_insert e d st) = h"
    "entries (soft_timer_insert e d st) = en" "uwTick (soft_timer_insert e d st) = ?now"
    unfolding ins by (simp_all add: en_def)
  ultimately show "timers_ok U (soft_timer_insert e d st) (sort_key (due ?now en) (q @ [e]))"
    using p(2) H(2) assms(2) unfolding qs_def [symmetric] timers_ok_def timers_held_def by (simp add: sq)
qed

lemma soft_timer_remove_ok:
  assumes "timers_ok U st q" "e \<in> U"
  shows "\<exists>st'. soft_timer_remove e st = Some st' \<and> timers_ok U st' (filter (\<lambda>x. x \<noteq> e) q) \<and>
    entries st' = entries st \<and> uwTick st' = uwTick st \<and> world st' = world st"
proof -
  let ?now = "uwTick st" and ?q = "filter (\<lambda>x. x \<noteq> e) q"
  have H: "timers_ready ?now (entries st) (nodes st) (soft_timer_heap st) q" "set q \<subseteq> U"
    "\<forall>x \<in> U - set q. ph_fresh (nodes st) x" "\<forall>x \<in> U. period_ok (entries st x)"
    "\<forall>x \<in> set q. 0 \<le> due ?now (entries st) x" "armed st q"
    using assms(1) by (simp_all add: timers_ok_def timers_held_def)
  have q: "ph_queue (due ?now (entries st)) (nodes st) (soft_timer_heap st) q" "\<forall>x \<in> set q. in_range ?now (entries st) x"
    using H(1) by (simp_all add: timers_ready_def)
  have "\<exists>h s. mp_pairheap_delete (soft_timer_lt (entries st)) (soft_timer_heap st) e (nodes st) = Some (h, s) \<and>
      ph_queue (due ?now (entries st)) s h ?q \<and> ph_fresh s e \<and> same_off (set q) (nodes st) s"
  proof (cases "e \<in> set q")
    case True
    then show ?thesis using ph_delete [OF q(1) keyed_due [OF q(2)] True] by blast
  next
    case False
    then have "?q = q" by (auto simp: filter_id_conv)
    moreover have "ph_fresh (nodes st) e" using H(3) False assms(2) by blast
    ultimately show ?thesis using ph_delete_fresh [OF q(1) False] q(1) by auto
  qed
  then obtain h s where d: "mp_pairheap_delete (soft_timer_lt (entries st)) (soft_timer_heap st) e (nodes st) = Some (h, s)"
    "ph_queue (due ?now (entries st)) s h ?q" "ph_fresh s e" "same_off (set q) (nodes st) s" by blast
  let ?st = "st\<lparr>nodes := s, soft_timer_heap := h\<rparr>"
  have "soft_timer_remove e st = Some ?st" using d(1) by (simp add: soft_timer_remove_def)
  moreover have "armed ?st ?q"
  proof (rule armed_later [OF H(6)])
    assume "?q \<noteq> []"
    then have "hd ?q \<in> set ?q" by (rule hd_in_set)
    then have "hd ?q \<in> set q" by auto
    then show "q \<noteq> [] \<and> due ?now (entries st) (hd q) \<le> due ?now (entries ?st) (hd ?q)"
      using ready_hd [OF H(1)] by auto
  qed simp_all
  moreover have "\<forall>x \<in> U - set ?q. ph_fresh s x"
  proof
    fix x assume x: "x \<in> U - set ?q"
    show "ph_fresh s x"
    proof (cases "x = e")
      case False
      then have "x \<notin> set q" using x by simp
      then show ?thesis using H(3) same_offD [OF d(4)] x by (simp add: ph_fresh_def)
    qed (use d(3) in simp)
  qed
  ultimately show ?thesis
    using H d(2) by (intro exI [of _ ?st]) (auto simp: timers_ok_def timers_held_def timers_ready_def)
qed

lemma soft_timer_reinsert_ok:
  assumes "timers_ok U st q" "e \<in> U" "uint d < timer_range"
  shows "\<exists>st' q'. soft_timer_reinsert e d st = Some st' \<and> timers_ok U st' q' \<and> set q' = insert e (set q) \<and>
    entries st' = (entries st)(e := (entries st e)\<lparr>expiry_ms := uwTick st + d\<rparr>) \<and> uwTick st' = uwTick st \<and> world st' = world st"
proof -
  obtain st1 where r: "soft_timer_remove e st = Some st1" "timers_ok U st1 (filter (\<lambda>x. x \<noteq> e) q)"
    "entries st1 = entries st" "uwTick st1 = uwTick st" "world st1 = world st"
    using soft_timer_remove_ok [OF assms(1,2)] by blast
  have "e \<notin> set (filter (\<lambda>x. x \<noteq> e) q)" by simp
  note i = soft_timer_insert_ok [OF r(2) assms(2) this assms(3), unfolded r(3-5)]
  have "soft_timer_reinsert e d st = Some (soft_timer_insert e d st1)" by (simp add: soft_timer_reinsert_def r(1))
  then show ?thesis using i by (intro exI conjI) (assumption | force)+
qed

section \<open>Moving the timers to another heap\<close>

lemma move_queue:
  fixes key :: "'a \<Rightarrow> int"
  shows "sort_key key (sort_key key (qt @ [x]) @ ys) = sort_key key (qt @ x # ys)"
  by (simp only: sort_append_sorted append.assoc append_Cons append_Nil)

lemma deinit_loop_ok:
  assumes "timers_ready now en s hf qf" "timers_ready now en s ht qt" "set qf \<inter> set qt = {}"
  shows "\<exists>h s'. deinit_loop en hf ht s = Some (h, s') \<and>
    timers_ready now en s' h (sort_key (due now en) (qt @ filter (\<lambda>e. \<not> flag_set (flags (en e)) SOFT_TIMER_FLAG_GC_ALLOCATED) qf)) \<and>
    same_off (set qf \<union> set qt) s s' \<and> (\<forall>e \<in> set qf. flag_set (flags (en e)) SOFT_TIMER_FLAG_GC_ALLOCATED \<longrightarrow> ph_fresh s' e)"
  using assms
proof (induction qf arbitrary: hf ht qt s)
  case Nil
  then have "hf = 0" "sort_key (due now en) qt = qt"
    using ready_top [OF Nil(1)] ready_sorted [OF Nil(2)] by (simp_all add: sort_key_id_if_sorted)
  then show ?case using Nil(2) by (subst deinit_loop.simps) simp
next
  case (Cons x qf)
  obtain hf1 s1 where p: "mp_pairheap_pop (soft_timer_lt en) hf s = Some (hf1, s1)" "timers_ready now en s1 hf1 qf"
    "ph_fresh s1 x" "same_off (set (x # qf)) s s1" "x \<notin> set qf" "hf = x" "x \<noteq> 0" "in_range now en x" "period_ok (en x)"
    using timers_ready_pop [OF Cons.prems(1)] by blast
  have xt: "x \<notin> set qt" "set qf \<inter> set qt = {}" "set (x # qf) \<inter> set qt = {}" using Cons.prems(3) by simp_all
  have ready_t: "timers_ready now en s1 ht qt"
    using Cons.prems(2) ph_queue_off [OF _ p(4) xt(3)] by (simp add: timers_ready_def)
  have start: "deinit_loop en hf ht s = (if flag_set (flags (en x)) SOFT_TIMER_FLAG_GC_ALLOCATED then deinit_loop en hf1 ht s1
      else case mp_pairheap_push (soft_timer_lt en) ht x s1 of (h, s2) \<Rightarrow> deinit_loop en hf1 h s2)"
    by (subst deinit_loop.simps) (use p(1,6,7) in \<open>simp add: mp_pairheap_peek_def Let_def\<close>)
  show ?case
  proof (cases "flag_set (flags (en x)) SOFT_TIMER_FLAG_GC_ALLOCATED")
    case True
    obtain h s' where IH: "deinit_loop en hf1 ht s1 = Some (h, s')"
      "timers_ready now en s' h (sort_key (due now en) (qt @ filter (\<lambda>e. \<not> flag_set (flags (en e)) SOFT_TIMER_FLAG_GC_ALLOCATED) qf))"
      "same_off (set qf \<union> set qt) s1 s'" "\<forall>e \<in> set qf. flag_set (flags (en e)) SOFT_TIMER_FLAG_GC_ALLOCATED \<longrightarrow> ph_fresh s' e"
      using Cons.IH [OF p(2) ready_t xt(2)] by blast
    have "ph_fresh s' x" using same_offD [OF IH(3), of x] p(3,5) xt(1) by (simp add: ph_fresh_def)
    moreover have "same_off (set (x # qf) \<union> set qt) s s'" by (rule same_off_trans [OF p(4) IH(3)]) auto
    ultimately show ?thesis using IH(1,2,4) True start by simp
  next
    case False
    obtain h2 s2 where w: "mp_pairheap_push (soft_timer_lt en) ht x s1 = (h2, s2)"
      "timers_ready now en s2 h2 (sort_key (due now en) (qt @ [x]))" "same_off (insert x (set qt)) s1 s2"
      using timers_ready_push [OF ready_t p(3) xt(1) p(8,9)] by blast
    have "insert x (set qt) \<inter> set qf = {}" using p(5) xt(2) by auto
    then have ready_f: "timers_ready now en s2 hf1 qf"
      using p(2) ph_queue_off [OF _ w(3)] by (simp add: timers_ready_def)
    have "set qf \<inter> set (sort_key (due now en) (qt @ [x])) = {}" using p(5) xt(2) by auto
    then obtain h s' where IH: "deinit_loop en hf1 h2 s2 = Some (h, s')"
      "timers_ready now en s' h (sort_key (due now en) (qt @ x # filter (\<lambda>e. \<not> flag_set (flags (en e)) SOFT_TIMER_FLAG_GC_ALLOCATED) qf))"
      "same_off (set qf \<union> insert x (set qt)) s2 s'" "\<forall>e \<in> set qf. flag_set (flags (en e)) SOFT_TIMER_FLAG_GC_ALLOCATED \<longrightarrow> ph_fresh s' e"
      using Cons.IH [OF ready_f w(2)] unfolding move_queue by auto
    have "same_off (set (x # qf) \<union> set qt) s s2" by (rule same_off_trans [OF p(4) w(3)]) auto
    then have "same_off (set (x # qf) \<union> set qt) s s'" by (rule same_off_trans [OF _ IH(3)]) auto
    then show ?thesis using IH(1,2,4) False start w(1) by simp
  qed
qed

lemma mark_loop_ok:
  assumes "timers_ready now en s hf qf" "timers_ready now en s ht qt" "set qf \<inter> set qt = {}"
  shows "\<exists>h s'. mark_loop collect_root en hf ht s w = Some (h, s', fold collect_root
      (filter (\<lambda>e. flag_set (flags (en e)) SOFT_TIMER_FLAG_GC_ALLOCATED) qf) w) \<and>
    timers_ready now en s' h (sort_key (due now en) (qt @ qf)) \<and> same_off (set qf \<union> set qt) s s'"
  using assms
proof (induction qf arbitrary: hf ht qt s w)
  case Nil
  then have "hf = 0" "sort_key (due now en) qt = qt"
    using ready_top [OF Nil(1)] ready_sorted [OF Nil(2)] by (simp_all add: sort_key_id_if_sorted)
  then show ?case using Nil(2) by (subst mark_loop.simps) simp
next
  case (Cons x qf)
  let ?w = "if flag_set (flags (en x)) SOFT_TIMER_FLAG_GC_ALLOCATED then collect_root x w else w"
  obtain hf1 s1 where p: "mp_pairheap_pop (soft_timer_lt en) hf s = Some (hf1, s1)" "timers_ready now en s1 hf1 qf"
    "ph_fresh s1 x" "same_off (set (x # qf)) s s1" "x \<notin> set qf" "hf = x" "x \<noteq> 0" "in_range now en x" "period_ok (en x)"
    using timers_ready_pop [OF Cons.prems(1)] by blast
  have xt: "x \<notin> set qt" "set qf \<inter> set qt = {}" "set (x # qf) \<inter> set qt = {}" using Cons.prems(3) by simp_all
  have ready_t: "timers_ready now en s1 ht qt"
    using Cons.prems(2) ph_queue_off [OF _ p(4) xt(3)] by (simp add: timers_ready_def)
  obtain h2 s2 where v: "mp_pairheap_push (soft_timer_lt en) ht x s1 = (h2, s2)"
    "timers_ready now en s2 h2 (sort_key (due now en) (qt @ [x]))" "same_off (insert x (set qt)) s1 s2"
    using timers_ready_push [OF ready_t p(3) xt(1) p(8,9)] by blast
  have "insert x (set qt) \<inter> set qf = {}" using p(5) xt(2) by auto
  then have ready_f: "timers_ready now en s2 hf1 qf"
    using p(2) ph_queue_off [OF _ v(3)] by (simp add: timers_ready_def)
  have "set qf \<inter> set (sort_key (due now en) (qt @ [x])) = {}" using p(5) xt(2) by auto
  then obtain h s' where IH: "mark_loop collect_root en hf1 h2 s2 ?w = Some (h, s', fold collect_root
      (filter (\<lambda>e. flag_set (flags (en e)) SOFT_TIMER_FLAG_GC_ALLOCATED) qf) ?w)"
    "timers_ready now en s' h (sort_key (due now en) (qt @ x # qf))" "same_off (set qf \<union> insert x (set qt)) s2 s'"
    using Cons.IH [OF ready_f v(2), of ?w] unfolding move_queue by auto
  have start: "mark_loop collect_root en hf ht s w = mark_loop collect_root en hf1 h2 s2 ?w"
    by (subst mark_loop.simps) (use p(1,6,7) v(1) in \<open>simp add: mp_pairheap_peek_def Let_def\<close>)
  have "same_off (set (x # qf) \<union> set qt) s s2" by (rule same_off_trans [OF p(4) v(3)]) auto
  then have "same_off (set (x # qf) \<union> set qt) s s'" by (rule same_off_trans [OF _ IH(3)]) auto
  then show ?case using IH start by simp
qed

text \<open>Deinitialising drops the timers on the garbage-collected heap; marking visits them and drops none.\<close>

lemma soft_timer_deinit_ok:
  assumes "timers_ok U st q"
  defines "q' \<equiv> filter (\<lambda>e. \<not> flag_set (flags (entries st e)) SOFT_TIMER_FLAG_GC_ALLOCATED) q"
  shows "\<exists>st'. soft_timer_deinit st = Some st' \<and> timers_ok U st' q' \<and>
    entries st' = entries st \<and> uwTick st' = uwTick st \<and> world st' = world st"
proof -
  let ?now = "uwTick st" and ?en = "entries st"
  have H: "timers_ready ?now ?en (nodes st) (soft_timer_heap st) q" "set q \<subseteq> U"
    "\<forall>x \<in> U - set q. ph_fresh (nodes st) x" "\<forall>x \<in> U. period_ok (entries st x)"
    "\<forall>x \<in> set q. 0 \<le> due ?now ?en x" "armed st q"
    using assms(1) by (simp_all add: timers_ok_def timers_held_def)
  have "timers_ready ?now ?en (nodes st) mp_pairheap_new []" by (simp add: timers_ready_def mp_pairheap_new_def)
  from deinit_loop_ok [OF H(1) this] obtain h s where d: "deinit_loop ?en (soft_timer_heap st) mp_pairheap_new (nodes st) = Some (h, s)"
    "timers_ready ?now ?en s h (sort_key (due ?now ?en) q')" "same_off (set q) (nodes st) s"
    "\<forall>e \<in> set q. flag_set (flags (?en e)) SOFT_TIMER_FLAG_GC_ALLOCATED \<longrightarrow> ph_fresh s e"
    unfolding q'_def by auto
  have "sorted (map (due ?now ?en) q')" unfolding q'_def using ready_sorted [OF H(1)] by (simp add: sorted_filter)
  then have sq: "sort_key (due ?now ?en) q' = q'" by (rule sort_key_id_if_sorted)
  let ?st = "st\<lparr>nodes := s, soft_timer_heap := h\<rparr>"
  have sub: "set q' \<subseteq> set q" by (auto simp: q'_def)
  have "armed ?st q'"
  proof (rule armed_later [OF H(6)])
    assume "q' \<noteq> []"
    then have "hd q' \<in> set q" using sub hd_in_set by blast
    then show "q \<noteq> [] \<and> due ?now ?en (hd q) \<le> due ?now (entries ?st) (hd q')"
      using ready_hd [OF H(1)] by auto
  qed simp_all
  moreover have "\<forall>x \<in> U - set q'. ph_fresh s x"
  proof
    fix x assume x: "x \<in> U - set q'"
    show "ph_fresh s x"
    proof (cases "x \<in> set q")
      case True
      then show ?thesis using d(4) x by (auto simp: q'_def)
    next
      case False
      then show ?thesis using H(3) same_offD [OF d(3)] x by (simp add: ph_fresh_def)
    qed
  qed
  ultimately have "timers_ok U ?st q'"
    using H sub d(2) unfolding sq by (auto simp: timers_ok_def timers_held_def)
  then show ?thesis using d(1) by (simp add: soft_timer_deinit_def)
qed

lemma soft_timer_gc_mark_all_ok:
  assumes "timers_ok U st q"
  shows "\<exists>st'. soft_timer_gc_mark_all collect_root st = Some st' \<and> timers_ok U st' q \<and>
    entries st' = entries st \<and> uwTick st' = uwTick st \<and>
    world st' = fold collect_root (filter (\<lambda>e. flag_set (flags (entries st e)) SOFT_TIMER_FLAG_GC_ALLOCATED) q) (world st)"
proof -
  let ?now = "uwTick st" and ?en = "entries st"
  let ?w = "fold collect_root (filter (\<lambda>e. flag_set (flags (?en e)) SOFT_TIMER_FLAG_GC_ALLOCATED) q) (world st)"
  have H: "timers_ready ?now ?en (nodes st) (soft_timer_heap st) q" "set q \<subseteq> U"
    "\<forall>x \<in> U - set q. ph_fresh (nodes st) x" "\<forall>x \<in> U. period_ok (entries st x)"
    "\<forall>x \<in> set q. 0 \<le> due ?now ?en x" "armed st q"
    using assms(1) by (simp_all add: timers_ok_def timers_held_def)
  have "timers_ready ?now ?en (nodes st) mp_pairheap_new []" by (simp add: timers_ready_def mp_pairheap_new_def)
  from mark_loop_ok [OF H(1) this, of collect_root "world st"]
  obtain h s where d: "mark_loop collect_root ?en (soft_timer_heap st) mp_pairheap_new (nodes st) (world st) = Some (h, s, ?w)"
    "timers_ready ?now ?en s h (sort_key (due ?now ?en) q)" "same_off (set q) (nodes st) s" by auto
  have sq: "sort_key (due ?now ?en) q = q" using ready_sorted [OF H(1)] by (simp add: sort_key_id_if_sorted)
  let ?st = "st\<lparr>nodes := s, soft_timer_heap := h, world := ?w\<rparr>"
  have "armed ?st q" by (rule armed_later [OF H(6)]) simp_all
  moreover have "\<forall>x \<in> U - set q. ph_fresh s x" using H(3) same_offD [OF d(3)] by (simp add: ph_fresh_def)
  ultimately have "timers_ok U ?st q"
    using H d(2) unfolding sq by (auto simp: timers_ok_def timers_held_def)
  then show ?thesis using d(1) by (simp add: soft_timer_gc_mark_all_def)
qed

section \<open>The tick\<close>

text \<open>Callbacks that take no time: then the handler ends in the tick in which it starts.\<close>

definition prompt :: "'w soft_callbacks \<Rightarrow> bool" where
  "prompt cb \<longleftrightarrow> (\<forall>e st. uwTick (fire cb e st) = uwTick st)"

lemma handler_loop_clock:
  fixes cb :: "'a soft_callbacks"
  assumes "handler_loop cb now h st = Some r" "prompt cb"
  shows "uwTick (snd r) = uwTick st"
proof -
  have "prompt cb \<longrightarrow> uwTick (snd r) = uwTick st"
  proof (rule handler_loop.raw_induct [where P = "\<lambda>cb now h st r. prompt cb \<longrightarrow> uwTick (snd r) = uwTick st", OF _ assms(1)])
    fix loop :: "'a soft_callbacks \<Rightarrow> u32 \<Rightarrow> u32 \<Rightarrow> 'a soft_timers \<Rightarrow> (u32 \<times> 'a soft_timers) option"
      and cb :: "'a soft_callbacks" and now h st r
    assume IH: "\<And>cb now h st r. loop cb now h st = Some r \<Longrightarrow> prompt cb \<longrightarrow> uwTick (snd r) = uwTick st"
    show "(if h \<noteq> 0 \<and> soft_timer_ticks_diff (expiry_ms (entries st h)) now \<le> 0 then do {
        let entry = h;
        (heap, s1) \<leftarrow> mp_pairheap_pop (soft_timer_lt (entries st)) h (nodes st);
        let st1 = fire cb entry (st\<lparr>nodes := s1\<rparr>);
        if mode (entries st1 entry) = SOFT_TIMER_MODE_PERIODIC then
          let st2 = upd_entry entry (\<lambda>e. e\<lparr>expiry_ms := expiry_ms e + delta_ms e\<rparr>) st1
          in (case mp_pairheap_push (soft_timer_lt (entries st2)) heap entry (nodes st2) of
            (heap, s2) \<Rightarrow> loop cb now heap (st2\<lparr>nodes := s2\<rparr>))
        else loop cb now heap st1 }
      else Some (h, st)) = Some r \<Longrightarrow> prompt cb \<longrightarrow> uwTick (snd r) = uwTick st"
      by (auto simp: prompt_def Let_def split: if_splits bind_splits prod.splits dest!: IH)
  qed
  with assms(2) show ?thesis by simp
qed

lemma soft_timer_handler_ok:
  assumes "timers_held U st q" "steady cb act stop"
  shows "\<exists>st' q' log. soft_timer_handler cb st = Some st' \<and> handled (uwTick st) act stop st q st' q' log \<and>
    timers_ready (uwTick st) (entries st') (nodes st') (soft_timer_heap st') q' \<and> armed st' q' \<and>
    (prompt cb \<longrightarrow> timers_ok U st' q' \<and> uwTick st' = uwTick st)"
proof -
  let ?now = "uwTick st"
  have H: "timers_ready ?now (entries st) (nodes st) (soft_timer_heap st) q" "set q \<subseteq> U"
    "\<forall>x \<in> U - set q. ph_fresh (nodes st) x" "\<forall>x \<in> U. period_ok (entries st x)"
    using assms(1) by (simp_all add: timers_held_def)
  obtain h st1 q' log where L: "handler_loop cb ?now (soft_timer_heap st) st = Some (h, st1)"
    "timers_ready ?now (entries st1) (nodes st1) h q'" "handled ?now act stop st q st1 q' log"
    using handler_loop_ok [OF H(1) assms(2)] by blast
  let ?st2 = "st1\<lparr>soft_timer_heap := h\<rparr>"
  let ?st' = "if h \<noteq> 0 then soft_timer_schedule_at_ms (expiry_ms (entries ?st2 h)) ?st2 else ?st2"
  have run: "soft_timer_handler cb st = Some ?st'"
    using L(1) by (simp add: soft_timer_handler_def soft_timer_get_ms_def Let_def)
  have same: "entries ?st' = entries st1" "nodes ?st' = nodes st1" "world ?st' = world st1" "uwTick ?st' = uwTick st1" "soft_timer_heap ?st' = h"
    by simp_all
  have D: "handled ?now act stop st q ?st' q' log"
    using L(3) unfolding handled_def same .
  have arm: "armed ?st' q'"
  proof (cases q')
    case (Cons x r)
    have "node_addr x" by (rule ph_queue_addr) (use L(2) Cons in \<open>auto simp: timers_ready_def\<close>)
    then have x: "h = x" "x \<noteq> 0" using ready_top [OF L(2)] Cons node_nonzero by simp_all
    then show ?thesis using Cons schedule_armed [of "expiry_ms (entries st1 x)" ?st2]
      by (simp add: armed_def due_def)
  qed (simp add: armed_def)
  have "\<forall>x \<in> U - set q'. ph_fresh (nodes st1) x"
    using D H(3) unfolding handled_def same same_off_def ph_fresh_def by (metis DiffD1 DiffD2 DiffI)
  moreover have "\<forall>x \<in> U. period_ok (entries st1 x)" using D H(4) same_period_ok unfolding handled_def same by blast
  moreover have "set q' \<subseteq> U" "\<forall>x \<in> set q'. 0 \<le> due ?now (entries st1) x"
    using D H(2) unfolding handled_def same by (auto simp: less_imp_le)
  ultimately have "timers_ok U ?st' q' \<and> uwTick ?st' = ?now" if "prompt cb"
    using L(2) arm handler_loop_clock [OF L(1) that] unfolding timers_ok_def timers_held_def same by simp
  moreover have "timers_ready ?now (entries ?st') (nodes ?st') (soft_timer_heap ?st') q'" using L(2) unfolding same .
  ultimately show ?thesis using run D arm by blast
qed

lemma due_tick: "- 0x80000000 < due now en e \<Longrightarrow> due (now + 1) en e = due now en e - 1"
proof -
  assume d: "- 0x80000000 < due now en e"
  let ?x = "expiry_ms (en e) - now"
  have x: "expiry_ms (en e) - (now + 1) = ?x - 1" by simp
  have s: "sint (?x - 1) = sint ?x - 1"
    using sint_diff [of ?x 1] d sint32_bounds [of ?x] by (simp add: due_def soft_timer_ticks_diff_def)
  show ?thesis unfolding due_def soft_timer_ticks_diff_def x s ..
qed

lemma held_tick:
  assumes "timers_ok U st q"
  shows "timers_held U (st\<lparr>uwTick := uwTick st + 1\<rparr>) q"
proof -
  let ?now = "uwTick st"
  have H: "timers_ready ?now (entries st) (nodes st) (soft_timer_heap st) q" "set q \<subseteq> U"
    "\<forall>x \<in> U - set q. ph_fresh (nodes st) x" "\<forall>x \<in> U. period_ok (entries st x)"
    "\<forall>x \<in> set q. 0 \<le> due ?now (entries st) x"
    using assms by (simp_all add: timers_ok_def timers_held_def)
  have d: "\<forall>x \<in> set q. due (?now + 1) (entries st) x = due ?now (entries st) x - 1"
    using H(5) due_tick [of ?now "entries st"] by fastforce
  have "ph_queue (due (?now + 1) (entries st)) (nodes st) (soft_timer_heap st) q"
    by (rule ph_queue_rekey [of "due ?now (entries st)"]) (use H(1) d in \<open>auto simp: timers_ready_def\<close>)
  moreover have "in_range (?now + 1) (entries st) x \<and> period_ok (entries st x)" if "x \<in> set q" for x
    using H(1,5) d that unfolding timers_ready_def in_range_def by fastforce
  ultimately show ?thesis using H by (simp add: timers_held_def timers_ready_def)
qed

lemma SysTick_ok:
  assumes "timers_ok U st q" "steady cb act stop"
  shows "\<exists>st' q' log. SysTick_Handler cb st = Some st' \<and>
    handled (uwTick st + 1) act stop (st\<lparr>uwTick := uwTick st + 1\<rparr>) q st' q' log \<and>
    timers_ready (uwTick st + 1) (entries st') (nodes st') (soft_timer_heap st') q' \<and> armed st' q' \<and>
    (prompt cb \<longrightarrow> timers_ok U st' q' \<and> uwTick st' = uwTick st + 1)"
proof (cases "soft_timer_next st = uwTick st + 1")
  case True
  then show ?thesis
    using soft_timer_handler_ok [OF held_tick [OF assms(1)] assms(2)] by (simp add: SysTick_Handler_def Let_def)
next
  case False
  let ?now = "uwTick st" and ?st = "st\<lparr>uwTick := uwTick st + 1\<rparr>"
  have H: "timers_ready ?now (entries st) (nodes st) (soft_timer_heap st) q" "armed st q"
    using assms(1) by (simp_all add: timers_ok_def timers_held_def)
  have run: "SysTick_Handler cb st = Some ?st" using False by (simp add: SysTick_Handler_def)
  have two: "soft_timer_ticks_diff (soft_timer_next st) (?now + 1) = soft_timer_ticks_diff (soft_timer_next st) ?now - 1 \<and>
      2 \<le> soft_timer_ticks_diff (soft_timer_next st) ?now" if "q \<noteq> []"
  proof -
    let ?x = "soft_timer_next st - ?now"
    have pos: "0 < sint ?x" using H(2) that by (simp add: armed_def soft_timer_ticks_diff_def)
    have "?x \<noteq> word_of_int 1" using False by (simp add: diff_eq_eq add.commute)
    moreover have "?x = word_of_int (sint ?x)" by simp
    ultimately have "sint ?x \<noteq> 1" by metis
    moreover have e: "soft_timer_next st - (?now + 1) = ?x - 1" by simp
    have s: "sint (?x - 1) = sint ?x - 1" using sint_diff [of ?x 1] pos sint32_bounds [of ?x] by simp
    ultimately show ?thesis using pos unfolding soft_timer_ticks_diff_def e s by simp
  qed
  have far: "2 \<le> due ?now (entries st) x" if "x \<in> set q" for x
  proof -
    have "q \<noteq> []" using that by auto
    then have "2 \<le> due ?now (entries st) (hd q)" using two H(2) by (auto simp: armed_def max_def split: if_splits)
    then show ?thesis using ready_hd [OF H(1) that] by simp
  qed
  then have d: "\<forall>x \<in> set q. due (?now + 1) (entries st) x = due ?now (entries st) x - 1"
    using due_tick [of ?now "entries st"] by fastforce
  have arm: "armed ?st q"
    using two H(2) d far unfolding armed_def by (auto simp: hd_in_set)
  then have "timers_ok U ?st q" using held_tick [OF assms(1)] d far by (fastforce simp: timers_ok_def)
  moreover have "timers_ready (?now + 1) (entries ?st) (nodes ?st) (soft_timer_heap ?st) q"
    using held_tick [OF assms(1)] by (simp add: timers_held_def)
  moreover have "handled (?now + 1) act stop ?st q ?st q []"
    by (rule handled_idle) (use d far in fastforce)
  ultimately show ?thesis using run arm by (intro exI [of _ ?st] exI [of _ q] exI [of _ "[]"]) simp
qed

section \<open>Timer objects\<close>

lemma timer_delta_ok:
  assumes "timer_delta args old = Inr d"
  shows "1 \<le> uint d" "uint d < timer_range"
proof -
  have "\<exists>w :: 64 word. d = (if w < 1 then 1 else ucast w) \<and> \<not> w \<ge> 0x40000000"
    using assms unfolding timer_delta_def by (auto split: sum.splits if_splits option.splits)
  then obtain w :: "64 word" where w: "d = (if w < 1 then 1 else ucast w)" "w < 0x40000000" by auto
  show "1 \<le> uint d" "uint d < timer_range"
  proof (atomize (full), cases "w < 1")
    case True
    then show "1 \<le> uint d \<and> uint d < timer_range" using w by simp
  next
    case False
    have b: "uint w < timer_range" "1 \<le> uint w"
      using w(2) False by (simp_all add: word_less_def)
    then have "uint (ucast w :: u32) = uint w"
      by (simp add: unsigned_ucast_eq take_bit_int_eq_self_iff)
    then show "1 \<le> uint d \<and> uint d < timer_range" using b w(1) False by simp
  qed
qed

lemma timers_ok_upd:
  assumes "timers_ok U st q" "e \<notin> set q" "period_ok (f (entries st e))"
  shows "timers_ok U (upd_entry e f st) q"
proof -
  let ?en = "(entries st)(e := f (entries st e))"
  have H: "timers_ready (uwTick st) (entries st) (nodes st) (soft_timer_heap st) q" "\<forall>x \<in> U. period_ok (entries st x)"
    using assms(1) by (simp_all add: timers_ok_def timers_held_def)
  have same: "?en x = entries st x" if "x \<in> set q" for x
  proof -
    have "x \<noteq> e" using that assms(2) by blast
    then show ?thesis by simp
  qed
  have d: "due (uwTick st) ?en x = due (uwTick st) (entries st) x" if "x \<in> set q" for x
    using same [OF that] by (simp add: due_def)
  have "timers_ready (uwTick st) ?en (nodes st) (soft_timer_heap st) q"
    by (rule ready_other [OF H(1)]) (use same in blast)
  moreover have "armed (upd_entry e f st) q"
    by (rule armed_later [of st q]) (use assms(1) d in \<open>auto simp: timers_ok_def hd_in_set simp del: fun_upd_apply\<close>)
  moreover have "\<forall>x \<in> U. period_ok (?en x)" using H(2) assms(3) by simp
  ultimately show ?thesis using assms(1) d by (simp add: timers_ok_def timers_held_def del: fun_upd_apply)
qed

definition delta_ok :: "soft_timer_entry_t \<Rightarrow> bool" where
  "delta_ok e \<longleftrightarrow> 1 \<le> uint (delta_ms e) \<and> uint (delta_ms e) < timer_range"

lemma delta_period_ok: "delta_ok e \<Longrightarrow> period_ok e"
  by (simp add: delta_ok_def period_ok_def)

text \<open>Initialising a timer object takes it out of the heap, checks the period and starts it.\<close>

lemma machine_timer_init_helper_ok:
  assumes "timers_ok U st q" "e \<in> U" "e \<notin> set q" "delta_ok (entries st e)"
  shows "\<exists>err st' q'. machine_timer_init_helper mp_const_none e args st = (err, st') \<and> timers_ok U st' q' \<and>
    set q' \<subseteq> insert e (set q) \<and> delta_ok (entries st' e) \<and> (\<forall>x. x \<noteq> e \<longrightarrow> entries st' x = entries st x) \<and>
    uwTick st' = uwTick st \<and> world st' = world st"
proof -
  let ?st1 = "upd_entry e (mode_update (\<lambda>_. ucast (arg_mode args))) st"
  have d1: "delta_ok (entries ?st1 e)" using assms(4) by (simp add: delta_ok_def)
  have ok1: "timers_ok U ?st1 q" by (rule timers_ok_upd [OF assms(1,3)]) (use d1 in \<open>simp add: delta_period_ok\<close>)
  show ?thesis
  proof (cases "timer_delta args (delta_ms (entries ?st1 e))")
    case (Inl err)
    then have "machine_timer_init_helper mp_const_none e args st = (Some err, ?st1)"
      by (simp add: machine_timer_init_helper_def Let_def)
    then show ?thesis using ok1 d1 by (intro exI [of _ "Some err"] exI [of _ ?st1] exI [of _ q]) auto
  next
    case (Inr d)
    define f :: "soft_timer_entry_t \<Rightarrow> soft_timer_entry_t" where "f = (\<lambda>x. x\<lparr>delta_ms := d,
      callback := (case arg_callback args of Some c \<Rightarrow> c | None \<Rightarrow> callback x),
      flags := (if arg_hard args then flags x OR SOFT_TIMER_FLAG_HARD_CALLBACK
                else flags x AND NOT SOFT_TIMER_FLAG_HARD_CALLBACK)\<rparr>)"
    let ?st2 = "upd_entry e f ?st1"
    note dk = timer_delta_ok [OF Inr]
    have d2: "delta_ok (entries ?st2 e)" using dk by (simp add: delta_ok_def f_def)
    have ok2: "timers_ok U ?st2 q" by (rule timers_ok_upd [OF ok1 assms(3)]) (use d2 in \<open>simp add: delta_period_ok\<close>)
    have dd: "delta_ms (entries ?st2 e) = d" by (simp add: f_def)
    let ?st' = "if callback (entries ?st2 e) \<noteq> mp_const_none then soft_timer_insert e d ?st2 else ?st2"
    have run: "machine_timer_init_helper mp_const_none e args st = (None, ?st')"
      using Inr dd unfolding machine_timer_init_helper_def Let_def f_def by simp
    note ins = soft_timer_insert_ok [OF ok2 assms(2,3) dk(2)]
    show ?thesis
    proof (cases "callback (entries ?st2 e) \<noteq> mp_const_none")
      case True
      have "delta_ok (entries (soft_timer_insert e d ?st2) e)" using d2 unfolding ins(2) by (simp add: delta_ok_def)
      then show ?thesis using run True ins unfolding ins(2)
        by (intro exI [of _ None] exI [of _ "soft_timer_insert e d ?st2"] exI [of _ "sort_key _ (q @ [e])"]) (auto simp: ins)
    next
      case False
      then show ?thesis using run ok2 d2 by (intro exI [of _ None] exI [of _ ?st2] exI [of _ q]) auto
    qed
  qed
qed

lemma machine_timer_init_ok:
  assumes "timers_ok U st q" "e \<in> U" "delta_ok (entries st e)"
  shows "\<exists>err st' q'. machine_timer_init mp_const_none e args st = Some (err, st') \<and> timers_ok U st' q' \<and>
    set q' \<subseteq> insert e (set q) \<and> delta_ok (entries st' e) \<and> (\<forall>x. x \<noteq> e \<longrightarrow> entries st' x = entries st x) \<and>
    uwTick st' = uwTick st \<and> world st' = world st"
proof -
  obtain st1 where r: "soft_timer_remove e st = Some st1" "timers_ok U st1 (filter (\<lambda>x. x \<noteq> e) q)"
    "entries st1 = entries st" "uwTick st1 = uwTick st" "world st1 = world st"
    using soft_timer_remove_ok [OF assms(1,2)] by blast
  have "e \<notin> set (filter (\<lambda>x. x \<noteq> e) q)" by simp
  from machine_timer_init_helper_ok [OF r(2) assms(2) this, of mp_const_none args, unfolded r(3), OF assms(3)]
  show ?thesis unfolding machine_timer_init_def using r by fastforce
qed

end
