(* ===== verification/TimerProps.thy ===== *)
theory TimerProps
  imports TimerOps
begin

text \<open>
  The properties of the pairing heap and of the soft timers, with their witnesses: the heap is a stable
  queue; every timer fires at its tick; runs of operations keep the timers' invariant; and what happens
  to a timer that is started while the handler runs.
\<close>

section \<open>The pairing heap\<close>

text \<open>C15: A pairing heap in the store is a queue sorted by key in which elements with equal keys keep
  their order: the top is its first element, pushing inserts after the elements with the same key,
  popping takes the first away, and deleting takes away the one node that is named and leaves the order
  of the others; a node that comes out of the heap is ready to be pushed again, and deleting a node that
  is not in it changes nothing.  All the loops end, and no other node is touched.\<close>

theorem pairheap_refines_queue:
  assumes "ph_queue key s hp q" "keyed lt key (insert x (set q))" "x \<in> set q \<or> ph_fresh s x"
  shows "mp_pairheap_is_empty hp = (q = []) \<and> (q \<noteq> [] \<longrightarrow> mp_pairheap_peek hp = hd q) \<and> distinct q \<and> sorted (map key q) \<and>
    (if x \<in> set q then
       (\<exists>hp' s'. mp_pairheap_delete lt hp x s = Some (hp', s') \<and> ph_queue key s' hp' (filter (\<lambda>y. y \<noteq> x) q) \<and>
         ph_fresh s' x \<and> same_off (set q) s s') \<and>
       (\<exists>hp' s'. mp_pairheap_pop lt hp s = Some (hp', s') \<and> ph_queue key s' hp' (tl q) \<and>
         ph_fresh s' (hd q) \<and> same_off (set q) s s')
     else
       mp_pairheap_delete lt hp x s = Some (hp, s) \<and>
       (\<exists>hp' s'. mp_pairheap_push lt hp x s = (hp', s') \<and> ph_queue key s' hp' (sort_key key (q @ [x])) \<and>
         same_off (insert x (set q)) s s'))"
proof -
  have q: "hp = 0 \<longleftrightarrow> q = []" "q \<noteq> [] \<longrightarrow> hp = hd q" "distinct q" "sorted (map key q)"
    using ph_queue_empty [OF assms(1)] ph_queue_top [OF assms(1)] ph.rep_sorted [OF assms(1)] by (auto split: list.splits)
  show ?thesis
  proof (cases "x \<in> set q")
    case True
    have k: "keyed lt key (set q)" by (rule keyed_sub [OF assms(2)]) blast
    obtain y r where r: "q = y # r" using True by (cases q) auto
    show ?thesis using q ph_delete [OF assms(1) k True] ph_pop [of key s hp y r lt] assms(1) k True r
      by (simp add: mp_pairheap_is_empty_def mp_pairheap_peek_def)
  next
    case False
    then have "ph_fresh s x" using assms(3) by blast
    then show ?thesis using q False ph_delete_fresh [OF assms(1) False] ph_push [OF assms(1,2) _ False]
      by (simp add: mp_pairheap_is_empty_def mp_pairheap_peek_def)
  qed
qed

definition blank_nodes :: ph_store where
  "blank_nodes = (\<lambda>_. \<lparr>child = 0, child_last = 0, nxt = 0\<rparr>)"

theorem pairheap_refines_queue_witness:
  "\<exists>hp s. mp_pairheap_push (\<lambda>a b. uint a < uint b) 0 8 blank_nodes = (hp, s) \<and>
     ph_queue uint s hp (sort_key uint [8]) \<and> mp_pairheap_delete (\<lambda>a b. uint a < uint b) 0 8 blank_nodes = Some (0, blank_nodes)"
proof -
  have f: "ph_fresh blank_nodes 8" by (simp add: ph_fresh_def blank_nodes_def node_addr_def)
  have k: "keyed (\<lambda>a b. uint a < uint b) uint (insert (8::u32) (set []))" by (simp add: keyed_def)
  have e: "(8 :: u32) \<in> set [] \<or> ph_fresh blank_nodes 8" using f by blast
  show ?thesis using pairheap_refines_queue [OF ph_queue_nil k e] by auto
qed

section \<open>Every timer fires at its tick\<close>


text \<open>A timer of one shot at the address 8 that is due at the tick 5, with a callback that counts.\<close>

definition tick_entries :: entries where
  "tick_entries = (\<lambda>_. \<lparr>flags = 0, mode = SOFT_TIMER_MODE_ONE_SHOT, expiry_ms = 5, delta_ms = 0, callback = 1\<rparr>)"

definition tick_start :: "nat soft_timers" where
  "tick_start = \<lparr>nodes = blank_nodes, entries = tick_entries, soft_timer_heap = 8, soft_timer_next = 5, uwTick = 4, world = 0\<rparr>"

definition count_call :: "(nat \<Rightarrow> nat) per_call" where
  "count_call s e w = (if flag_set (fst s) SOFT_TIMER_FLAG_PY_CALLBACK \<or> snd s \<noteq> 0 then Suc w else w)"

definition counting :: "nat soft_callbacks" where
  "counting = \<lparr>run_c = (\<lambda>_ _ st. st\<lparr>world := Suc (world st)\<rparr>), dispatch_py = (\<lambda>_ _ _ st. (False, st\<lparr>world := Suc (world st)\<rparr>))\<rparr>"

lemma counting_ok: "steady counting count_call (\<lambda>_ _ _. False)" "prompt counting"
proof -
  have "fire counting e st = upd_entry e (\<lambda>x. x) (st\<lparr>world := count_call (setting (entries st e)) e (world st), uwTick := uwTick st\<rparr>)" for e st
    by (simp add: counting_def count_call_def setting_def fire_def upd_entry_def Let_def)
  note f = this
  show "prompt counting" unfolding prompt_def by (simp add: f upd_entry_def)
  show "steady counting count_call (\<lambda>_ _ _. False)" unfolding steady_def
  proof (intro allI)
    fix e and st :: "nat soft_timers"
    show "\<exists>t. fire counting e st = upd_entry e
        (\<lambda>x. if False then x\<lparr>mode := SOFT_TIMER_MODE_ONE_SHOT\<rparr> else x)
        (st\<lparr>world := count_call (setting (entries st e)) e (world st), uwTick := t\<rparr>)"
      by (rule exI [of _ "uwTick st"]) (simp only: f if_False)
  qed
qed

lemma tick_start_ok: "timers_ok {8} tick_start [8]"
proof -
  have d: "due 4 tick_entries 8 = 1" by (simp add: due_def soft_timer_ticks_diff_def tick_entries_def)
  have n: "node_addr 8" by (simp add: node_addr_def)
  have "ph_queue (due 4 tick_entries) blank_nodes 8 [8]"
    unfolding ph_queue_def using n
    by (intro exI [of _ "Some (HNode 8 [])"]) (simp add: queue_of_def blank_nodes_def nodes_ok_def)
  then show ?thesis
    using d by (simp add: timers_ok_def timers_held_def timers_ready_def armed_def tick_start_def in_range_def period_ok_def
        tick_entries_def soft_timer_ticks_diff_def)
qed


section \<open>Runs of operations\<close>

datatype timer_event =
  Reinsert u32 u32 | Remove u32 | TimerInit u32 timer_args | Tick | Deinit | MarkAll

definition timer_step ::
  "'w soft_callbacks \<Rightarrow> (u32 \<Rightarrow> 'w \<Rightarrow> 'w) \<Rightarrow> u32 \<Rightarrow> timer_event \<Rightarrow> 'w soft_timers \<Rightarrow> 'w soft_timers option" where
  "timer_step cb collect_root mp_const_none ev st =
     (case ev of
        Reinsert e d \<Rightarrow> soft_timer_reinsert e d st
      | Remove e \<Rightarrow> soft_timer_remove e st
      | TimerInit e args \<Rightarrow> map_option snd (machine_timer_init mp_const_none e args st)
      | Tick \<Rightarrow> SysTick_Handler cb st
      | Deinit \<Rightarrow> soft_timer_deinit st
      | MarkAll \<Rightarrow> soft_timer_gc_mark_all collect_root st)"

primrec timer_run ::
  "'w soft_callbacks \<Rightarrow> (u32 \<Rightarrow> 'w \<Rightarrow> 'w) \<Rightarrow> u32 \<Rightarrow> timer_event list \<Rightarrow> 'w soft_timers \<Rightarrow> 'w soft_timers option" where
  "timer_run cb collect_root mp_const_none [] st = Some st"
| "timer_run cb collect_root mp_const_none (ev # evs) st =
     Option.bind (timer_step cb collect_root mp_const_none ev st) (timer_run cb collect_root mp_const_none evs)"

text \<open>The operations name entries of \<open>U\<close>, of which those of \<open>T\<close> are timer objects; delays are below \<open>2 ^ 30\<close>.\<close>

definition event_ok :: "u32 set \<Rightarrow> u32 set \<Rightarrow> timer_event \<Rightarrow> bool" where
  "event_ok U T ev \<longleftrightarrow>
     (case ev of Reinsert e d \<Rightarrow> e \<in> U \<and> uint d < timer_range | Remove e \<Rightarrow> e \<in> U | TimerInit e _ \<Rightarrow> e \<in> T | _ \<Rightarrow> True)"

definition timers_inv :: "u32 set \<Rightarrow> u32 set \<Rightarrow> 'w soft_timers \<Rightarrow> bool" where
  "timers_inv U T st \<longleftrightarrow> (\<exists>q. timers_ok U st q) \<and> T \<subseteq> U \<and> (\<forall>e \<in> T. delta_ok (entries st e))"

lemma timer_step_ok:
  assumes "timers_inv U T st" "steady cb act stop" "prompt cb" "event_ok U T ev"
  shows "\<exists>st'. timer_step cb collect_root mp_const_none ev st = Some st' \<and> timers_inv U T st'"
proof -
  obtain q where q: "timers_ok U st q" and T: "T \<subseteq> U" "\<forall>e \<in> T. delta_ok (entries st e)"
    using assms(1) unfolding timers_inv_def by blast
  show ?thesis
  proof (cases ev)
    case (Reinsert e d)
    then have e: "e \<in> U" "uint d < timer_range" using assms(4) by (simp_all add: event_ok_def)
    show ?thesis using soft_timer_reinsert_ok [OF q e] T unfolding timers_inv_def timer_step_def Reinsert timer_event.case
      by (auto simp: delta_ok_def)
  next
    case (Remove e)
    then have "e \<in> U" using assms(4) by (simp add: event_ok_def)
    then show ?thesis using soft_timer_remove_ok [OF q] T unfolding timers_inv_def timer_step_def Remove timer_event.case
      by metis
  next
    case (TimerInit e args)
    then have "e \<in> T" using assms(4) by (simp add: event_ok_def)
    then have "e \<in> U" "delta_ok (entries st e)" using T by blast+
    from machine_timer_init_ok [OF q this, of mp_const_none args] obtain err st' q' where
      m: "machine_timer_init mp_const_none e args st = Some (err, st')" "timers_ok U st' q'" "delta_ok (entries st' e)"
      "\<forall>x. x \<noteq> e \<longrightarrow> entries st' x = entries st x" by blast
    then have "\<forall>x \<in> T. delta_ok (entries st' x)" using T(2) by metis
    then show ?thesis using m(1,2) T(1) by (auto simp: timers_inv_def timer_step_def TimerInit)
  next
    case Tick
    obtain st' q' log where t: "SysTick_Handler cb st = Some st'" "timers_ok U st' q'"
      "handled (uwTick st + 1) act stop (st\<lparr>uwTick := uwTick st + 1\<rparr>) q st' q' log"
      using SysTick_ok [OF q assms(2)] assms(3) by blast
    then have "\<forall>x \<in> T. delta_ok (entries st' x)"
      using T(2) by (simp add: handled_def same_period_def delta_ok_def)
    then show ?thesis using t(1,2) T(1) by (auto simp: timers_inv_def timer_step_def Tick)
  next
    case Deinit
    then show ?thesis using soft_timer_deinit_ok [OF q] T unfolding timers_inv_def timer_step_def Deinit timer_event.case
      by metis
  next
    case MarkAll
    then show ?thesis using soft_timer_gc_mark_all_ok [OF q, of collect_root] T
      unfolding timers_inv_def timer_step_def MarkAll timer_event.case by metis
  qed
qed

text \<open>C23: Every sequence of operations on the soft timers (starting a timer with \<open>soft_timer_reinsert\<close> and
  a delay below \<open>2 ^ 30\<close>, stopping and initialising timers, ticks, deinitialising, marking for the garbage
  collector) ends and keeps their invariant: the heap is a sorted queue of timers none of which is
  overdue, the handler is requested in time for the first of them, timers out of the heap can be started,
  and timer objects have a period from 1 to 2^30 - 1.  The callbacks that the handler calls are supposed to
  touch no timer but their own and to end within the tick, as those do that are only scheduled; a
  callback that starts another timer loses it.\<close>

theorem soft_timers_invariant:
  assumes "timers_inv U T st" "steady cb act stop" "prompt cb" "list_all (event_ok U T) evs"
  shows "\<exists>st'. timer_run cb collect_root mp_const_none evs st = Some st' \<and> timers_inv U T st'"
  using assms
proof (induction evs arbitrary: st)
  case (Cons ev evs)
  then obtain st1 where "timer_step cb collect_root mp_const_none ev st = Some st1" "timers_inv U T st1"
    using timer_step_ok [OF Cons.prems(1-3), of ev collect_root mp_const_none] by auto
  then show ?case using Cons.IH [of st1] Cons.prems(2-4) by simp
qed simp

theorem soft_timers_invariant_witness:
  "\<exists>st'. timer_run counting (\<lambda>_ w. w) 0 [Reinsert 8 3, Tick, MarkAll, Remove 8, Tick, Deinit] tick_start = Some st' \<and>
     timers_inv {8} {} st'"
  by (rule soft_timers_invariant [OF _ counting_ok])
    (use tick_start_ok in \<open>auto simp: timers_inv_def event_ok_def\<close>)

section \<open>Starting a timer while the handler runs\<close>

lemma pop_single: "child (s h) = 0 \<Longrightarrow> mp_pairheap_pop lt h s = Some (0, set_child h 0 s)"
  by (simp add: mp_pairheap_pop_def mp_pairheap_pairing_def)

text \<open>The handler writes back the heap it has kept in a local variable, so a timer that a callback
  starts while the handler runs is not in the heap afterwards: here the callback of the only timer, which
  is due and fires once, starts another one, and after the handler the heap is empty.\<close>

lemma timer_started_in_callback_lost:
  assumes "soft_timer_heap st = x" "x \<noteq> 0" "child (nodes st x) = 0" "due (uwTick st) (entries st) x \<le> 0"
    and "mode (entries st x) = SOFT_TIMER_MODE_ONE_SHOT" "\<not> flag_set (flags (entries st x)) SOFT_TIMER_FLAG_PY_CALLBACK"
    and "callback (entries st x) \<noteq> 0" "run_c cb (callback (entries st x)) x = soft_timer_insert y d" "y \<noteq> x"
  shows "\<exists>st'. soft_timer_handler cb st = Some st' \<and> expiry_ms (entries st' y) = uwTick st + d \<and>
    mp_pairheap_is_empty (soft_timer_heap st')"
proof -
  let ?st0 = "st\<lparr>nodes := set_child x 0 (nodes st)\<rparr>"
  let ?st1 = "soft_timer_insert y d ?st0"
  have f: "fire cb x ?st0 = ?st1" using assms(6-8) by (simp add: fire_def)
  have en: "entries ?st1 = (entries st)(y := (entries st y)\<lparr>expiry_ms := uwTick st + d\<rparr>)"
    by (simp add: soft_timer_insert_def soft_timer_get_ms_def upd_entry_def Let_def split: prod.splits)
  have "mode (entries ?st1 x) \<noteq> SOFT_TIMER_MODE_PERIODIC" using en assms(5,9) by simp
  then have "handler_loop cb (uwTick st) x st = handler_loop cb (uwTick st) 0 ?st1"
    by (subst handler_loop.simps) (use assms(2,4) pop_single [of "nodes st" x] assms(3) f in \<open>simp add: due_def Let_def\<close>)
  also have "\<dots> = Some (0, ?st1)" by (subst handler_loop.simps) simp
  finally show ?thesis using assms(1) en
    by (simp add: soft_timer_handler_def soft_timer_get_ms_def mp_pairheap_is_empty_def)
qed

text \<open>The callback of the timer at 8, which is due now, starts the one at 16.\<close>

definition restarting :: "nat soft_callbacks" where
  "restarting = \<lparr>run_c = (\<lambda>_ _. soft_timer_insert 16 100), dispatch_py = (\<lambda>_ _ _ st. (False, st))\<rparr>"

theorem timer_started_in_callback_lost_witness:
  "\<exists>st'. soft_timer_handler restarting (tick_start\<lparr>uwTick := 5\<rparr>) = Some st' \<and> expiry_ms (entries st' 16) = 105 \<and>
    mp_pairheap_is_empty (soft_timer_heap st')"
  using timer_started_in_callback_lost [of "tick_start\<lparr>uwTick := 5\<rparr>" 8 restarting 16 100]
  by (simp add: tick_start_def tick_entries_def restarting_def blank_nodes_def due_def soft_timer_ticks_diff_def flag_set_def)

end
