(* ===== verification/Scheduler.thy ===== *)
theory Scheduler
  imports Prelude
begin

text \<open>
  The scheduler of \<open>py/scheduler.c\<close>: a list of statically allocated nodes with C callbacks, a ring of
  Python functions to call, the state that locks it, and the pending exception.  Calling a C callback
  (\<open>call_node\<close>) and calling a Python function with its exceptions printed (\<open>call_function\<close>) are
  parameters that may do anything to the state; the loop over the nodes is a \<open>partial_function\<close>.  The
  configuration is the one of the port: a ring of 8, static nodes, no threads.
\<close>

section \<open>State\<close>

abbreviation MICROPY_SCHEDULER_DEPTH :: nat where "MICROPY_SCHEDULER_DEPTH \<equiv> 8"
abbreviation MP_SCHED_IDLE :: "16 word" where "MP_SCHED_IDLE \<equiv> 1"
abbreviation MP_SCHED_LOCKED :: "16 word" where "MP_SCHED_LOCKED \<equiv> - 1"
abbreviation MP_SCHED_PENDING :: "16 word" where "MP_SCHED_PENDING \<equiv> 0"

record mp_sched_item_t =
  func :: u32
  arg :: u32

record mp_sched_node_t =
  node_callback :: u32
  node_next :: u32

record 'w sched =
  sched_state :: "16 word"
  sched_head :: u32
  sched_tail :: u32
  sched_nodes :: "u32 \<Rightarrow> mp_sched_node_t"
  sched_len :: u8
  sched_idx :: u8
  sched_queue :: "mp_sched_item_t list"
  mp_pending_exception :: u32
  sched_world :: 'w

record 'w sched_calls =
  call_node :: "u32 \<Rightarrow> u32 \<Rightarrow> 'w sched \<Rightarrow> 'w sched"
  call_function :: "u32 \<Rightarrow> u32 \<Rightarrow> 'w sched \<Rightarrow> 'w sched"

text \<open>The part of \<open>mp_init\<close> that is about the scheduler.\<close>

definition mp_init_sched :: "'w sched \<Rightarrow> 'w sched" where
  "mp_init_sched st =
     st\<lparr>mp_pending_exception := 0, sched_state := (if sched_head st \<noteq> 0 then MP_SCHED_PENDING else MP_SCHED_IDLE), sched_idx := 0, sched_len := 0\<rparr>"

section \<open>Operations\<close>

definition mp_sched_exception :: "u32 \<Rightarrow> 'w sched \<Rightarrow> 'w sched" where
  "mp_sched_exception exc st =
     (let st1 = st\<lparr>mp_pending_exception := exc\<rparr>
      in if sched_state st1 = MP_SCHED_IDLE then st1\<lparr>sched_state := MP_SCHED_PENDING\<rparr> else st1)"

definition mp_sched_keyboard_interrupt :: "u32 \<Rightarrow> 'w sched \<Rightarrow> 'w sched" where
  "mp_sched_keyboard_interrupt mp_kbd_exception st = mp_sched_exception mp_kbd_exception st"

definition IDX_MASK :: "u8 \<Rightarrow> u8" where
  "IDX_MASK i = i AND 7"

definition mp_sched_num_pending :: "'w sched \<Rightarrow> nat" where
  "mp_sched_num_pending st = unat (sched_len st)"

definition mp_sched_full :: "'w sched \<Rightarrow> bool" where
  "mp_sched_full st \<longleftrightarrow> mp_sched_num_pending st = MICROPY_SCHEDULER_DEPTH"

definition mp_sched_empty :: "'w sched \<Rightarrow> bool" where
  "mp_sched_empty st \<longleftrightarrow> mp_sched_num_pending st = 0"

definition mp_sched_lock :: "'w sched \<Rightarrow> 'w sched" where
  "mp_sched_lock st =
     st\<lparr>sched_state := if sint (sched_state st) < 0 then sched_state st - 1 else MP_SCHED_LOCKED\<rparr>"

definition mp_sched_unlock :: "'w sched \<Rightarrow> 'w sched" where
  "mp_sched_unlock st =
     (let st1 = st\<lparr>sched_state := sched_state st + 1\<rparr>
      in if sched_state st1 = 0 then
           st1\<lparr>sched_state := if mp_pending_exception st1 \<noteq> 0 \<or> sched_head st1 \<noteq> 0 \<or> mp_sched_num_pending st1 \<noteq> 0
                then MP_SCHED_PENDING else MP_SCHED_IDLE\<rparr>
         else st1)"

definition mp_sched_schedule :: "u32 \<Rightarrow> u32 \<Rightarrow> 'w sched \<Rightarrow> bool \<times> 'w sched" where
  "mp_sched_schedule function a st =
     (if \<not> mp_sched_full st then
        let st1 = (if sched_state st = MP_SCHED_IDLE then st\<lparr>sched_state := MP_SCHED_PENDING\<rparr> else st);
            iput = IDX_MASK (sched_idx st1 + sched_len st1);
            st2 = st1\<lparr>sched_len := sched_len st1 + 1\<rparr>
        in (True, st2\<lparr>sched_queue := (sched_queue st2)[unat iput := \<lparr>func = function, arg = a\<rparr>]\<rparr>)
      else (False, st))"

definition upd_node :: "u32 \<Rightarrow> (mp_sched_node_t \<Rightarrow> mp_sched_node_t) \<Rightarrow> 'w sched \<Rightarrow> 'w sched" where
  "upd_node n f st = st\<lparr>sched_nodes := (sched_nodes st)(n := f (sched_nodes st n))\<rparr>"

definition mp_sched_schedule_node :: "u32 \<Rightarrow> u32 \<Rightarrow> 'w sched \<Rightarrow> bool \<times> 'w sched" where
  "mp_sched_schedule_node node cb st =
     (if node_callback (sched_nodes st node) = 0 then
        let st1 = (if sched_state st = MP_SCHED_IDLE then st\<lparr>sched_state := MP_SCHED_PENDING\<rparr> else st);
            st2 = upd_node node (\<lambda>_. \<lparr>node_callback = cb, node_next = 0\<rparr>) st1;
            st3 = (if sched_tail st2 = 0 then st2\<lparr>sched_head := node\<rparr>
                   else upd_node (sched_tail st2) (node_next_update (\<lambda>_. node)) st2)
        in (True, st3\<lparr>sched_tail := node\<rparr>)
      else (False, st))"

section \<open>Running what is pending\<close>

partial_function (option) run_nodes :: "'w sched_calls \<Rightarrow> u32 \<Rightarrow> 'w sched \<Rightarrow> 'w sched option" where
  "run_nodes calls original_tail st =
     (let node = sched_head st;
          st1 = st\<lparr>sched_head := node_next (sched_nodes st node)\<rparr>;
          st2 = (if sched_head st1 = 0 then st1\<lparr>sched_tail := 0\<rparr> else st1);
          cb = node_callback (sched_nodes st2 node);
          st3 = upd_node node (node_callback_update (\<lambda>_. 0)) st2;
          st4 = call_node calls cb node st3
      in if node \<noteq> original_tail then run_nodes calls original_tail st4 else Some st4)"

definition mp_sched_run_pending :: "'w sched_calls \<Rightarrow> 'w sched \<Rightarrow> 'w sched option" where
  "mp_sched_run_pending calls st =
     (if sched_state st \<noteq> MP_SCHED_PENDING then Some st
      else do {
        let st1 = st\<lparr>sched_state := MP_SCHED_LOCKED\<rparr>;
        st2 \<leftarrow> (if sched_tail st1 \<noteq> 0 then run_nodes calls (sched_tail st1) st1 else Some st1);
        let st3 =
          (if \<not> mp_sched_empty st2 then
             let item = sched_queue st2 ! unat (sched_idx st2);
                 st4 = st2\<lparr>sched_idx := IDX_MASK (sched_idx st2 + 1), sched_len := sched_len st2 - 1\<rparr>
             in call_function calls (func item) (arg item) st4
           else st2);
        Some (mp_sched_unlock st3) })"

datatype mp_handle_pending_behaviour_t =
  MP_HANDLE_PENDING_CALLBACKS_ONLY | MP_HANDLE_PENDING_CALLBACKS_AND_EXCEPTIONS | MP_HANDLE_PENDING_CALLBACKS_AND_CLEAR_EXCEPTIONS

text \<open>The first component is the exception that is raised; then nothing else is done.\<close>

definition mp_handle_pending_internal ::
  "'w sched_calls \<Rightarrow> mp_handle_pending_behaviour_t \<Rightarrow> 'w sched \<Rightarrow> (u32 option \<times> 'w sched) option" where
  "mp_handle_pending_internal calls behavior st =
     (let handle_exceptions = (behavior \<noteq> MP_HANDLE_PENDING_CALLBACKS_ONLY);
          raise_exceptions = (behavior = MP_HANDLE_PENDING_CALLBACKS_AND_EXCEPTIONS);
          obj = mp_pending_exception st;
          st1 = (if handle_exceptions \<and> obj \<noteq> 0 then st\<lparr>mp_pending_exception := 0\<rparr> else st)
      in if handle_exceptions \<and> obj \<noteq> 0 \<and> raise_exceptions then Some (Some obj, st1)
         else if sched_state st1 = MP_SCHED_PENDING
              then map_option (\<lambda>st2. (None, st2)) (mp_sched_run_pending calls st1)
              else Some (None, st1))"

definition mp_handle_pending :: "'w sched_calls \<Rightarrow> bool \<Rightarrow> 'w sched \<Rightarrow> (u32 option \<times> 'w sched) option" where
  "mp_handle_pending calls raise_exc =
     mp_handle_pending_internal calls
       (if raise_exc then MP_HANDLE_PENDING_CALLBACKS_AND_EXCEPTIONS else MP_HANDLE_PENDING_CALLBACKS_AND_CLEAR_EXCEPTIONS)"

end
