(* ===== verification/SchedulerCorrect.thy ===== *)
theory SchedulerCorrect
  imports Scheduler
begin

text \<open>
  The scheduler as two queues: \<open>sched_holds st ns q\<close> says that the nodes \<open>ns\<close> (with their callbacks)
  and the Python calls \<open>q\<close> wait in this order, and that the scheduler is not idle while anything waits.
  Every operation keeps it, and running what is pending takes the nodes that wait and one Python call.
\<close>

section \<open>The queues in the state\<close>

definition first_node :: "(u32 \<times> u32) list \<Rightarrow> u32" where
  "first_node ns = (case ns of [] \<Rightarrow> 0 | p # _ \<Rightarrow> fst p)"

definition last_node :: "(u32 \<times> u32) list \<Rightarrow> u32" where
  "last_node ns = (if ns = [] then 0 else fst (last ns))"

lemma first_node_simps [simp]: "first_node [] = 0" "first_node (p # ns) = fst p"
  by (simp_all add: first_node_def)

lemma last_node_simps [simp]: "last_node [] = 0" "last_node (ns @ [p]) = fst p"
  by (simp_all add: last_node_def)

fun chain :: "(u32 \<Rightarrow> mp_sched_node_t) \<Rightarrow> (u32 \<times> u32) list \<Rightarrow> bool" where
  "chain s [] \<longleftrightarrow> True"
| "chain s ((n, c) # ns) \<longleftrightarrow> n \<noteq> 0 \<and> c \<noteq> 0 \<and> s n = \<lparr>node_callback = c, node_next = first_node ns\<rparr> \<and> chain s ns"

lemma chain_other: "n \<notin> fst ` set ns \<Longrightarrow> chain (s(n := v)) ns = chain s ns"
  by (induction s ns rule: chain.induct) auto

lemma chain_nonzero: "chain s ns \<Longrightarrow> p \<in> set ns \<Longrightarrow> fst p \<noteq> 0 \<and> snd p \<noteq> 0 \<and> node_callback (s (fst p)) = snd p"
  by (induction s ns rule: chain.induct) auto

lemma chain_snoc:
  assumes "chain s (ns @ [(m, d)])" "n \<noteq> 0" "c \<noteq> 0" "n \<notin> fst ` set (ns @ [(m, d)])" "distinct (map fst (ns @ [(m, d)]))"
  shows "chain (s(n := \<lparr>node_callback = c, node_next = 0\<rparr>, m := \<lparr>node_callback = d, node_next = n\<rparr>)) (ns @ [(m, d), (n, c)])"
  using assms
proof (induction ns)
  case (Cons p ns)
  obtain a b where p: "p = (a, b)" by (cases p)
  have "first_node (ns @ [(m, d)]) = first_node (ns @ [(m, d), (n, c)])" by (cases ns) simp_all
  then show ?case using Cons by (auto simp: p)
qed auto

definition ring_holds :: "'w sched \<Rightarrow> mp_sched_item_t list \<Rightarrow> bool" where
  "ring_holds st q \<longleftrightarrow> length (sched_queue st) = 8 \<and> unat (sched_idx st) < 8 \<and> unat (sched_len st) = length q \<and> length q \<le> 8 \<and>
     (\<forall>i < length q. sched_queue st ! ((unat (sched_idx st) + i) mod 8) = q ! i)"

definition nodes_hold :: "'w sched \<Rightarrow> (u32 \<times> u32) list \<Rightarrow> bool" where
  "nodes_hold st ns \<longleftrightarrow> chain (sched_nodes st) ns \<and> distinct (map fst ns) \<and> sched_head st = first_node ns \<and>
     sched_tail st = last_node ns \<and> (\<forall>n. n \<notin> fst ` set ns \<longrightarrow> node_callback (sched_nodes st n) = 0)"

definition sched_holds :: "'w sched \<Rightarrow> (u32 \<times> u32) list \<Rightarrow> mp_sched_item_t list \<Rightarrow> bool" where
  "sched_holds st ns q \<longleftrightarrow> nodes_hold st ns \<and> ring_holds st q \<and>
     (sched_state st = MP_SCHED_IDLE \<longrightarrow> ns = [] \<and> q = [] \<and> mp_pending_exception st = 0)"

lemma unat_IDX_MASK: "unat (IDX_MASK i) = unat i mod 8"
proof -
  have "i AND 7 = take_bit 3 i" by (simp add: take_bit_eq_mask mask_numeral)
  then have "unat (IDX_MASK i) = unat (take_bit 3 i)" by (simp only: IDX_MASK_def)
  also have "\<dots> = take_bit 3 (unat i)" by (rule unsigned_take_bit_eq)
  finally show ?thesis by (simp add: take_bit_eq_mod)
qed

lemma unat_small_sum: "unat (a :: u8) + unat b < 256 \<Longrightarrow> unat (a + b) = unat a + unat b"
  by (simp add: unat_word_ariths)

section \<open>Scheduling\<close>

lemma ring_push:
  assumes "ring_holds st q" "length q < 8"
  shows "ring_holds (st\<lparr>sched_len := sched_len st + 1,
     sched_queue := (sched_queue st)[unat (IDX_MASK (sched_idx st + sched_len st)) := x]\<rparr>) (q @ [x])"
proof -
  have r: "length (sched_queue st) = 8" "unat (sched_idx st) < 8" "unat (sched_len st) = length q"
    "\<forall>i < length q. sched_queue st ! ((unat (sched_idx st) + i) mod 8) = q ! i"
    using assms(1) by (simp_all add: ring_holds_def)
  have l: "unat (sched_len st + 1) = length q + 1"
    using unat_small_sum [of "sched_len st" 1] r(3) assms(2) by simp
  have i: "unat (IDX_MASK (sched_idx st + sched_len st)) = (unat (sched_idx st) + length q) mod 8"
    using unat_small_sum [of "sched_idx st" "sched_len st"] r(2,3) assms(2) by (simp add: unat_IDX_MASK)
  have ne: "(unat (sched_idx st) + length q) mod 8 \<noteq> (unat (sched_idx st) + j) mod 8" if "j < length q" for j
  proof
    assume "(unat (sched_idx st) + length q) mod 8 = (unat (sched_idx st) + j) mod 8"
    then have "8 dvd (unat (sched_idx st) + length q) - (unat (sched_idx st) + j)"
      using mod_eq_dvd_iff_nat [of "unat (sched_idx st) + j" "unat (sched_idx st) + length q" 8] that by simp
    then have "8 dvd length q - j" by simp
    then show False using that assms(2) by (auto dest!: dvd_imp_le)
  qed
  have "(sched_queue st)[(unat (sched_idx st) + length q) mod 8 := x] ! ((unat (sched_idx st) + j) mod 8) = (q @ [x]) ! j"
    if "j < Suc (length q)" for j
    using that r ne [of j] by (cases "j = length q") (simp_all add: nth_append)
  then show ?thesis
    using r l assms(2) unfolding ring_holds_def i by simp
qed

lemma ring_other: "ring_holds st q \<Longrightarrow> sched_queue st' = sched_queue st \<Longrightarrow> sched_idx st' = sched_idx st \<Longrightarrow>
    sched_len st' = sched_len st \<Longrightarrow> ring_holds st' q"
  by (simp add: ring_holds_def)

lemma nodes_other: "nodes_hold st ns \<Longrightarrow> sched_nodes st' = sched_nodes st \<Longrightarrow> sched_head st' = sched_head st \<Longrightarrow>
    sched_tail st' = sched_tail st \<Longrightarrow> nodes_hold st' ns"
  by (simp add: nodes_hold_def)

lemma mp_sched_schedule_ok:
  assumes "sched_holds st ns q"
  shows "if length q < MICROPY_SCHEDULER_DEPTH then
      fst (mp_sched_schedule f a st) \<and> sched_holds (snd (mp_sched_schedule f a st)) ns (q @ [\<lparr>func = f, arg = a\<rparr>])
    else mp_sched_schedule f a st = (False, st)"
proof (cases "length q < 8")
  case True
  have h: "nodes_hold st ns" "ring_holds st q" using assms by (simp_all add: sched_holds_def)
  let ?st1 = "if sched_state st = MP_SCHED_IDLE then st\<lparr>sched_state := MP_SCHED_PENDING\<rparr> else st"
  let ?st2 = "?st1\<lparr>sched_len := sched_len ?st1 + 1,
     sched_queue := (sched_queue ?st1)[unat (IDX_MASK (sched_idx ?st1 + sched_len ?st1)) := \<lparr>func = f, arg = a\<rparr>]\<rparr>"
  have "ring_holds ?st1 q" by (rule ring_other [OF h(2)]) simp_all
  then have r: "ring_holds ?st2 (q @ [\<lparr>func = f, arg = a\<rparr>])" by (rule ring_push) (rule True)
  have "nodes_hold ?st2 ns" by (rule nodes_other [OF h(1)]) simp_all
  moreover have "sched_state ?st2 \<noteq> MP_SCHED_IDLE" by simp
  moreover have "mp_sched_schedule f a st = (True, ?st2)"
    using h(2) True by (simp add: mp_sched_schedule_def mp_sched_full_def mp_sched_num_pending_def ring_holds_def Let_def)
  ultimately show ?thesis using True r unfolding sched_holds_def by simp
next
  case False
  then show ?thesis using assms
    by (simp add: sched_holds_def ring_holds_def mp_sched_schedule_def mp_sched_full_def mp_sched_num_pending_def)
qed

lemma nodes_push:
  assumes "nodes_hold st ns" "n \<noteq> 0" "c \<noteq> 0" "n \<notin> fst ` set ns"
  shows "nodes_hold ((if sched_tail (upd_node n (\<lambda>_. \<lparr>node_callback = c, node_next = 0\<rparr>) st) = 0
      then upd_node n (\<lambda>_. \<lparr>node_callback = c, node_next = 0\<rparr>) st\<lparr>sched_head := n\<rparr>
      else upd_node (sched_tail st) (node_next_update (\<lambda>_. n)) (upd_node n (\<lambda>_. \<lparr>node_callback = c, node_next = 0\<rparr>) st))
      \<lparr>sched_tail := n\<rparr>) (ns @ [(n, c)])"
proof (cases ns rule: rev_cases)
  case Nil
  then show ?thesis using assms by (auto simp: nodes_hold_def upd_node_def last_node_def)
next
  case (snoc ms p)
  obtain m d where p: "p = (m, d)" by (cases p)
  have h: "chain (sched_nodes st) ns" "distinct (map fst ns)" "sched_head st = first_node ns" "sched_tail st = m"
    "\<forall>k. k \<notin> fst ` set ns \<longrightarrow> node_callback (sched_nodes st k) = 0"
    using assms(1) by (simp_all add: nodes_hold_def snoc p)
  have m: "m \<noteq> 0" "m \<noteq> n" using chain_nonzero [OF h(1), of "(m, d)"] assms(4) by (auto simp: snoc p)
  have last: "sched_nodes st m = \<lparr>node_callback = d, node_next = 0\<rparr>"
    using h(1) unfolding snoc p by (induction ms) auto
  have s: "((sched_nodes st)(n := \<lparr>node_callback = c, node_next = 0\<rparr>))(m := (node_next_update (\<lambda>_. n))
      (((sched_nodes st)(n := \<lparr>node_callback = c, node_next = 0\<rparr>)) m)) =
    (sched_nodes st)(n := \<lparr>node_callback = c, node_next = 0\<rparr>, m := \<lparr>node_callback = d, node_next = n\<rparr>)"
    using m(2) last by simp
  have "chain ((sched_nodes st)(n := \<lparr>node_callback = c, node_next = 0\<rparr>, m := \<lparr>node_callback = d, node_next = n\<rparr>)) (ns @ [(n, c)])"
    using chain_snoc [of "sched_nodes st" ms m d n c] h(1,2) assms(2-4) by (simp add: snoc p)
  moreover have "first_node (ns @ [(n, c)]) = first_node ns" by (cases ns) (simp_all add: snoc)
  ultimately show ?thesis
    using h m assms(4) last by (auto simp: nodes_hold_def upd_node_def last_node_def s snoc p)
qed

lemma mp_sched_schedule_node_ok:
  assumes "sched_holds st ns q" "n \<noteq> 0" "c \<noteq> 0"
  shows "if n \<in> fst ` set ns then mp_sched_schedule_node n c st = (False, st)
    else fst (mp_sched_schedule_node n c st) \<and> sched_holds (snd (mp_sched_schedule_node n c st)) (ns @ [(n, c)]) q"
proof (cases "n \<in> fst ` set ns")
  case True
  then obtain p where p: "p \<in> set ns" "fst p = n" by auto
  have "chain (sched_nodes st) ns" using assms(1) by (simp add: sched_holds_def nodes_hold_def)
  from chain_nonzero [OF this p(1)] p(2) have "node_callback (sched_nodes st n) \<noteq> 0" by simp
  then show ?thesis using True by (simp add: mp_sched_schedule_node_def)
next
  case False
  let ?st1 = "if sched_state st = MP_SCHED_IDLE then st\<lparr>sched_state := MP_SCHED_PENDING\<rparr> else st"
  have h: "nodes_hold st ns" "ring_holds st q" using assms(1) by (simp_all add: sched_holds_def)
  have "nodes_hold ?st1 ns" by (rule nodes_other [OF h(1)]) simp_all
  note push = nodes_push [OF this assms(2,3) False]
  have cb: "node_callback (sched_nodes st n) = 0" using h(1) False by (simp add: nodes_hold_def)
  let ?st2 = "upd_node n (\<lambda>_. \<lparr>node_callback = c, node_next = 0\<rparr>) ?st1"
  let ?st3 = "(if sched_tail ?st2 = 0 then ?st2\<lparr>sched_head := n\<rparr> else upd_node (sched_tail ?st1) (node_next_update (\<lambda>_. n)) ?st2)
    \<lparr>sched_tail := n\<rparr>"
  have "sched_tail ?st2 = sched_tail ?st1" by (simp add: upd_node_def)
  then have run: "mp_sched_schedule_node n c st = (True, ?st3)"
    by (simp add: mp_sched_schedule_node_def cb Let_def)
  have "ring_holds ?st3 q" by (rule ring_other [OF h(2)]) (simp_all add: upd_node_def)
  moreover have "sched_state ?st3 \<noteq> MP_SCHED_IDLE" by (simp add: upd_node_def)
  ultimately show ?thesis unfolding sched_holds_def run using push False by simp
qed

section \<open>Locking and exceptions\<close>

lemma holds_state:
  assumes "sched_holds st ns q" "st' = st\<lparr>sched_state := v\<rparr>" "v = MP_SCHED_IDLE \<longrightarrow> ns = [] \<and> q = [] \<and> mp_pending_exception st = 0"
  shows "sched_holds st' ns q"
proof -
  have "nodes_hold st' ns" "ring_holds st' q"
    using nodes_other [of st ns st'] ring_other [of st q st'] assms(1,2) by (simp_all add: sched_holds_def)
  then show ?thesis using assms(2,3) by (simp add: sched_holds_def)
qed

lemma sint16_exact: "- 32768 \<le> i \<Longrightarrow> i < 32768 \<Longrightarrow> sint (word_of_int i :: 16 word) = i"
  by (simp add: sint_sbintrunc' signed_take_bit_int_eq_self)

lemma sint16_bounds: "- 32768 \<le> sint (w :: 16 word)" "sint (w :: 16 word) < 32768"
  using sint_ge [of w] sint_lt [of w] by simp_all

text \<open>A lock is one level deeper; below 32768 levels the counter does not wrap.\<close>

lemma mp_sched_lock_ok:
  assumes "sched_holds st ns q" "- 32768 < sint (sched_state st)"
  shows "sched_holds (mp_sched_lock st) ns q" "sint (sched_state (mp_sched_lock st)) = min (sint (sched_state st)) 0 - 1"
proof -
  let ?s = "sched_state st"
  show s: "sint (sched_state (mp_sched_lock st)) = min (sint ?s) 0 - 1"
  proof (cases "sint ?s < 0")
    case True
    have "?s - 1 = word_of_int (sint ?s - 1)" by simp
    then have "sint (?s - 1) = sint ?s - 1" using sint16_exact [of "sint ?s - 1"] assms(2) True by simp
    then show ?thesis using True by (simp add: mp_sched_lock_def)
  qed (simp add: mp_sched_lock_def)
  have "sched_state (mp_sched_lock st) \<noteq> MP_SCHED_IDLE"
  proof
    assume "sched_state (mp_sched_lock st) = MP_SCHED_IDLE"
    then show False using s by simp
  qed
  then show "sched_holds (mp_sched_lock st) ns q"
    by (intro holds_state [OF assms(1) refl [THEN trans, OF mp_sched_lock_def]]) (simp add: mp_sched_lock_def)
qed

lemma mp_sched_unlock_ok:
  assumes "sched_holds st ns q" "sint (sched_state st) < 0"
  shows "sched_holds (mp_sched_unlock st) ns q"
    "if sched_state st = MP_SCHED_LOCKED
     then sched_state (mp_sched_unlock st) = (if ns \<noteq> [] \<or> q \<noteq> [] \<or> mp_pending_exception st \<noteq> 0 then MP_SCHED_PENDING else MP_SCHED_IDLE)
     else sint (sched_state (mp_sched_unlock st)) = sint (sched_state st) + 1"
    "sched_world (mp_sched_unlock st) = sched_world st"
proof -
  let ?s = "sched_state st"
  have h: "nodes_hold st ns" "ring_holds st q" using assms(1) by (simp_all add: sched_holds_def)
  have zero: "?s + 1 = 0 \<longleftrightarrow> ?s = MP_SCHED_LOCKED" by (auto simp: add_eq_0_iff2)
  have some: "sched_head st \<noteq> 0 \<longleftrightarrow> ns \<noteq> []" "mp_sched_num_pending st \<noteq> 0 \<longleftrightarrow> q \<noteq> []"
  proof -
    show "sched_head st \<noteq> 0 \<longleftrightarrow> ns \<noteq> []"
      using h(1) chain_nonzero [of "sched_nodes st" ns] by (cases ns) (auto simp: nodes_hold_def)
    show "mp_sched_num_pending st \<noteq> 0 \<longleftrightarrow> q \<noteq> []" using h(2) by (auto simp: ring_holds_def mp_sched_num_pending_def)
  qed
  let ?v = "if ?s = MP_SCHED_LOCKED then (if mp_pending_exception st \<noteq> 0 \<or> ns \<noteq> [] \<or> q \<noteq> [] then MP_SCHED_PENDING else MP_SCHED_IDLE)
    else ?s + 1"
  have run: "mp_sched_unlock st = st\<lparr>sched_state := ?v\<rparr>"
    using zero some by (simp add: mp_sched_unlock_def Let_def mp_sched_num_pending_def)
  have up: "sint (?s + 1) = sint ?s + 1"
  proof -
    have "?s + 1 = word_of_int (sint ?s + 1)" by simp
    then show ?thesis using sint16_exact [of "sint ?s + 1"] sint16_bounds [of ?s] assms(2) by simp
  qed
  have idle: "?s + 1 \<noteq> MP_SCHED_IDLE"
  proof
    assume "?s + 1 = MP_SCHED_IDLE"
    then show False using assms(2) by simp
  qed
  show "sched_world (mp_sched_unlock st) = sched_world st" by (simp add: run)
  show "if ?s = MP_SCHED_LOCKED
     then sched_state (mp_sched_unlock st) = (if ns \<noteq> [] \<or> q \<noteq> [] \<or> mp_pending_exception st \<noteq> 0 then MP_SCHED_PENDING else MP_SCHED_IDLE)
     else sint (sched_state (mp_sched_unlock st)) = sint ?s + 1"
    using up by (simp add: run)
  show "sched_holds (mp_sched_unlock st) ns q"
    by (rule holds_state [OF assms(1) run]) (use idle in simp)
qed

lemma mp_sched_exception_ok:
  assumes "sched_holds st ns q"
  shows "sched_holds (mp_sched_exception exc st) ns q"
proof -
  have "nodes_hold (mp_sched_exception exc st) ns"
    by (rule nodes_other [of st]) (use assms in \<open>simp_all add: sched_holds_def mp_sched_exception_def Let_def\<close>)
  moreover have "ring_holds (mp_sched_exception exc st) q"
    by (rule ring_other [of st]) (use assms in \<open>simp_all add: sched_holds_def mp_sched_exception_def Let_def\<close>)
  ultimately show ?thesis by (simp add: sched_holds_def mp_sched_exception_def Let_def)
qed

section \<open>Running what is pending\<close>

text \<open>A call that may schedule more, and leaves what waits in its place: what it does to the rest of the world is \<open>act\<close>.\<close>

definition only_schedules :: "('w sched \<Rightarrow> 'w sched) \<Rightarrow> ('w \<Rightarrow> 'w) \<Rightarrow> bool" where
  "only_schedules f act \<longleftrightarrow> (\<forall>st ns q. sched_holds st ns q \<longrightarrow> sched_state st = MP_SCHED_LOCKED \<longrightarrow>
     sched_state (f st) = MP_SCHED_LOCKED \<and> sched_world (f st) = act (sched_world st) \<and>
     (\<exists>ns1 q1. sched_holds (f st) (ns @ ns1) (q @ q1)))"

lemma nodes_pop:
  assumes "nodes_hold st ((n, c) # r)"
  shows "nodes_hold (upd_node n (node_callback_update (\<lambda>_. 0))
     (if node_next (sched_nodes st n) = 0 then st\<lparr>sched_head := node_next (sched_nodes st n), sched_tail := 0\<rparr>
      else st\<lparr>sched_head := node_next (sched_nodes st n)\<rparr>)) r"
proof -
  have h: "chain (sched_nodes st) r" "n \<noteq> 0" "node_next (sched_nodes st n) = first_node r" "n \<notin> fst ` set r" "distinct (map fst r)"
    "sched_tail st = last_node ((n, c) # r)" "\<forall>m. m \<notin> fst ` set ((n, c) # r) \<longrightarrow> node_callback (sched_nodes st m) = 0"
    using assms by (auto simp: nodes_hold_def)
  have z: "first_node r = 0 \<longleftrightarrow> r = []" using chain_nonzero [OF h(1)] by (cases r) auto
  show ?thesis using h z chain_other [OF h(4)]
    by (auto simp: nodes_hold_def upd_node_def last_node_def split: if_splits)
qed

lemma run_nodes_ok:
  assumes "sched_holds st (xs @ ys) q" "xs \<noteq> []" "sched_state st = MP_SCHED_LOCKED"
    and "\<And>c n. only_schedules (call_node calls c n) (act c n)"
  shows "\<exists>st' ns1 q1. run_nodes calls (fst (last xs)) st = Some st' \<and> sched_holds st' (ys @ ns1) (q @ q1) \<and>
    sched_state st' = MP_SCHED_LOCKED \<and> sched_world st' = fold (\<lambda>p. act (snd p) (fst p)) xs (sched_world st)"
  using assms(1-3)
proof (induction xs arbitrary: st ys q)
  case (Cons p xs)
  obtain n c where p: "p = (n, c)" by (cases p)
  have h: "nodes_hold st ((n, c) # xs @ ys)" "ring_holds st q" using Cons.prems(1) by (simp_all add: sched_holds_def p)
  have n: "sched_head st = n" "node_callback (sched_nodes st n) = c" "n \<notin> fst ` set xs"
    using h(1) by (auto simp: nodes_hold_def)
  let ?st1 = "st\<lparr>sched_head := node_next (sched_nodes st n)\<rparr>"
  let ?st2 = "if node_next (sched_nodes st n) = 0 then st\<lparr>sched_head := node_next (sched_nodes st n), sched_tail := 0\<rparr> else ?st1"
  let ?st3 = "upd_node n (node_callback_update (\<lambda>_. 0)) ?st2"
  let ?st4 = "call_node calls c n ?st3"
  have "ring_holds ?st3 q" by (rule ring_other [OF h(2)]) (simp_all add: upd_node_def)
  then have h3: "sched_holds ?st3 (xs @ ys) q" "sched_state ?st3 = MP_SCHED_LOCKED" "sched_world ?st3 = sched_world st"
    using nodes_pop [OF h(1)] Cons.prems(3) by (simp_all add: sched_holds_def upd_node_def)
  obtain ns1 q1 where h4: "sched_state ?st4 = MP_SCHED_LOCKED" "sched_world ?st4 = act c n (sched_world st)"
    "sched_holds ?st4 ((xs @ ys) @ ns1) (q @ q1)"
    using assms(4)[of c n, unfolded only_schedules_def, rule_format, OF h3(1,2)] h3(3) by auto
  have run: "run_nodes calls t st = (if n \<noteq> t then run_nodes calls t ?st4 else Some ?st4)" for t
    by (subst run_nodes.simps) (use n in \<open>simp add: Let_def if_distrib [of sched_nodes] cong: if_cong\<close>)
  show ?case
  proof (cases "xs = []")
    case True
    then show ?thesis using run [of n] h4
      by (intro exI [of _ ?st4] exI [of _ ns1] exI [of _ q1]) (simp add: p)
  next
    case False
    then have "n \<noteq> fst (last xs)" using n(3) last_in_set by fastforce
    moreover have "sched_holds ?st4 (xs @ ys @ ns1) (q @ q1)" using h4(3) by simp
    from Cons.IH [OF this False h4(1)] obtain st' ns2 q2 where "run_nodes calls (fst (last xs)) ?st4 = Some st'"
      "sched_holds st' ((ys @ ns1) @ ns2) ((q @ q1) @ q2)" "sched_state st' = MP_SCHED_LOCKED"
      "sched_world st' = fold (\<lambda>p. act (snd p) (fst p)) xs (sched_world ?st4)" by blast
    ultimately show ?thesis using run False h4(2) by (intro exI [of _ st'] exI [of _ "ns1 @ ns2"] exI [of _ "q1 @ q2"]) (simp add: p)
  qed
qed simp

lemma ring_pop:
  assumes "ring_holds st (x # q)"
  shows "sched_queue st ! unat (sched_idx st) = x"
    "ring_holds (st\<lparr>sched_idx := IDX_MASK (sched_idx st + 1), sched_len := sched_len st - 1\<rparr>) q"
proof -
  have r: "length (sched_queue st) = 8" "unat (sched_idx st) < 8" "unat (sched_len st) = Suc (length q)" "length q < 8"
    "\<forall>i < Suc (length q). sched_queue st ! ((unat (sched_idx st) + i) mod 8) = (x # q) ! i"
    using assms by (simp_all add: ring_holds_def)
  show "sched_queue st ! unat (sched_idx st) = x" using r(2) spec [OF r(5), of 0] by simp
  have i: "unat (IDX_MASK (sched_idx st + 1)) = Suc (unat (sched_idx st)) mod 8"
    using unat_small_sum [of "sched_idx st" 1] r(2) by (simp add: unat_IDX_MASK)
  have l: "unat (sched_len st - 1) = length q"
    using r(3) by (simp add: unat_sub_if')
  have "sched_queue st ! ((Suc (unat (sched_idx st)) mod 8 + j) mod 8) = q ! j" if "j < length q" for j
  proof -
    have "(Suc (unat (sched_idx st)) mod 8 + j) mod 8 = (unat (sched_idx st) + Suc j) mod 8"
      by (simp add: mod_add_left_eq)
    then show ?thesis using spec [OF r(5), of "Suc j"] that by simp
  qed
  then show "ring_holds (st\<lparr>sched_idx := IDX_MASK (sched_idx st + 1), sched_len := sched_len st - 1\<rparr>) q"
    using r i l by (simp add: ring_holds_def)
qed

text \<open>What is left when the pending work has run: what was scheduled meanwhile, and all Python calls but the first.\<close>

lemma mp_sched_run_pending_ok:
  assumes "sched_holds st ns q" "sched_state st = MP_SCHED_PENDING"
    and "\<And>c n. only_schedules (call_node calls c n) (act c n)" "\<And>f a. only_schedules (call_function calls f a) (actf f a)"
  shows "\<exists>st' ns' q1 q2. mp_sched_run_pending calls st = Some st' \<and> sched_holds st' ns' (tl (q @ q1) @ q2) \<and>
    (sched_state st' = MP_SCHED_PENDING \<or> sched_state st' = MP_SCHED_IDLE) \<and>
    sched_world st' = (case q @ q1 of [] \<Rightarrow> id | x # _ \<Rightarrow> actf (func x) (arg x)) (fold (\<lambda>p. act (snd p) (fst p)) ns (sched_world st))"
proof -
  let ?w = "fold (\<lambda>p. act (snd p) (fst p)) ns (sched_world st)"
  let ?st1 = "st\<lparr>sched_state := MP_SCHED_LOCKED\<rparr>"
  have h1: "sched_holds ?st1 ns q" by (rule holds_state [OF assms(1) refl]) simp
  have tail: "sched_tail ?st1 = last_node ns" "last_node ns \<noteq> 0 \<longleftrightarrow> ns \<noteq> []"
  proof -
    have nh: "chain (sched_nodes st) ns" "sched_tail st = last_node ns" using assms(1) by (simp_all add: sched_holds_def nodes_hold_def)
    show "sched_tail ?st1 = last_node ns" using nh(2) by simp
    show "last_node ns \<noteq> 0 \<longleftrightarrow> ns \<noteq> []" using chain_nonzero [OF nh(1) last_in_set] by (auto simp: last_node_def)
  qed
  have "\<exists>st2 ns1 q1. (if sched_tail ?st1 \<noteq> 0 then run_nodes calls (sched_tail ?st1) ?st1 else Some ?st1) = Some st2 \<and>
      sched_holds st2 ns1 (q @ q1) \<and> sched_state st2 = MP_SCHED_LOCKED \<and> sched_world st2 = ?w"
  proof (cases "ns = []")
    case True
    then show ?thesis using tail h1 by (intro exI [of _ ?st1] exI [of _ "[]"]) simp
  next
    case False
    have "sched_holds ?st1 (ns @ []) q" using h1 by simp
    from run_nodes_ok [OF this False _ assms(3)] False tail show ?thesis by (auto simp: last_node_def)
  qed
  then obtain st2 ns1 q1 where s2: "(if sched_tail ?st1 \<noteq> 0 then run_nodes calls (sched_tail ?st1) ?st1 else Some ?st1) = Some st2"
    "sched_holds st2 ns1 (q @ q1)" "sched_state st2 = MP_SCHED_LOCKED" "sched_world st2 = ?w" by blast
  have neg: "sint MP_SCHED_LOCKED < 0" by simp
  have e: "mp_sched_empty st2 \<longleftrightarrow> q @ q1 = []"
    using s2(2) by (simp add: sched_holds_def ring_holds_def mp_sched_empty_def mp_sched_num_pending_def)
  show ?thesis
  proof (cases "q @ q1")
    case Nil
    have "mp_sched_run_pending calls st = Some (mp_sched_unlock st2)"
      using assms(2) s2(1) e Nil by (simp add: mp_sched_run_pending_def Let_def)
    then show ?thesis using mp_sched_unlock_ok [OF s2(2)] s2(3,4) Nil neg
      by (intro exI [of _ "mp_sched_unlock st2"] exI [of _ ns1] exI [of _ q1] exI [of _ "[]"]) (auto split: if_splits)
  next
    case (Cons x r)
    let ?st3 = "st2\<lparr>sched_idx := IDX_MASK (sched_idx st2 + 1), sched_len := sched_len st2 - 1\<rparr>"
    let ?st4 = "call_function calls (func x) (arg x) ?st3"
    have ring: "ring_holds st2 (x # r)" and nodes: "nodes_hold st2 ns1" using s2(2) Cons by (simp_all add: sched_holds_def)
    note pop = ring_pop [OF ring]
    have "nodes_hold ?st3 ns1" by (rule nodes_other [OF nodes]) simp_all
    then have h3: "sched_holds ?st3 ns1 r" "sched_state ?st3 = MP_SCHED_LOCKED" "sched_world ?st3 = ?w"
      using pop(2) s2(3,4) by (simp_all add: sched_holds_def)
    obtain ns2 q2 where h4: "sched_state ?st4 = MP_SCHED_LOCKED" "sched_world ?st4 = actf (func x) (arg x) ?w"
      "sched_holds ?st4 (ns1 @ ns2) (r @ q2)"
      using assms(4)[of "func x" "arg x", unfolded only_schedules_def, rule_format, OF h3(1,2)] h3(3) by auto
    have "mp_sched_run_pending calls st = Some (mp_sched_unlock ?st4)"
      using assms(2) s2(1) e Cons pop(1) by (simp add: mp_sched_run_pending_def Let_def)
    then show ?thesis using mp_sched_unlock_ok [OF h4(3)] h4(1,2) Cons neg
      by (intro exI [of _ "mp_sched_unlock ?st4"] exI [of _ "ns1 @ ns2"] exI [of _ q1] exI [of _ q2]) (auto split: if_splits)
  qed
qed

end
