(* ===== verification/SchedulerProps.thy ===== *)
theory SchedulerProps
  imports SchedulerCorrect
begin

text \<open>The property of the scheduler and its witness.\<close>

text \<open>C29: Handling what is pending always ends.  A pending exception is raised once and then nothing else
  is done; otherwise, unless the scheduler is locked, every C callback that was waiting is called, in the
  order in which they were scheduled, then at most one Python function, the oldest; what the calls
  schedule waits for the next time, nothing that waits is lost, and the scheduler is idle only when
  nothing waits.\<close>

theorem mp_handle_pending_order:
  assumes "sched_holds st ns q"
    and "\<And>c n. only_schedules (call_node calls c n) (act c n)" "\<And>f a. only_schedules (call_function calls f a) (actf f a)"
  shows "\<exists>r st' ns' q'. mp_handle_pending_internal calls b st = Some (r, st') \<and> sched_holds st' ns' q' \<and>
    (if b = MP_HANDLE_PENDING_CALLBACKS_AND_EXCEPTIONS \<and> mp_pending_exception st \<noteq> 0 then
       r = Some (mp_pending_exception st) \<and> mp_pending_exception st' = 0 \<and> ns' = ns \<and> q' = q \<and> sched_world st' = sched_world st
     else r = None \<and>
       (if sched_state st = MP_SCHED_PENDING then
          (\<exists>q1 q2. q' = tl (q @ q1) @ q2 \<and> sched_world st' = (case q @ q1 of [] \<Rightarrow> id | x # _ \<Rightarrow> actf (func x) (arg x))
             (fold (\<lambda>p. act (snd p) (fst p)) ns (sched_world st)))
        else ns' = ns \<and> q' = q \<and> sched_world st' = sched_world st))"
proof -
  define st1 where "st1 = (if b \<noteq> MP_HANDLE_PENDING_CALLBACKS_ONLY \<and> mp_pending_exception st \<noteq> 0
    then st\<lparr>mp_pending_exception := 0\<rparr> else st)"
  have h1: "sched_holds st1 ns q"
    using assms(1) nodes_other [of st ns st1] ring_other [of st q st1] by (simp add: sched_holds_def st1_def)
  have same: "sched_state st1 = sched_state st" "sched_world st1 = sched_world st" by (simp_all add: st1_def)
  show ?thesis
  proof (cases "b = MP_HANDLE_PENDING_CALLBACKS_AND_EXCEPTIONS \<and> mp_pending_exception st \<noteq> 0")
    case True
    then have "mp_handle_pending_internal calls b st = Some (Some (mp_pending_exception st), st1)" "mp_pending_exception st1 = 0"
      by (simp_all add: mp_handle_pending_internal_def Let_def st1_def)
    then show ?thesis using True h1 same
      by (intro exI [of _ "Some (mp_pending_exception st)"] exI [of _ st1] exI [of _ ns] exI [of _ q]) simp
  next
    case False
    have run: "mp_handle_pending_internal calls b st = (if sched_state st1 = MP_SCHED_PENDING
        then map_option (\<lambda>st2. (None, st2)) (mp_sched_run_pending calls st1) else Some (None, st1))"
      using False by (auto simp: mp_handle_pending_internal_def Let_def st1_def)
    show ?thesis
    proof (cases "sched_state st = MP_SCHED_PENDING")
      case True
      then have "sched_state st1 = MP_SCHED_PENDING" using same(1) by simp
      from mp_sched_run_pending_ok [OF h1 this assms(2,3)]
      obtain st' ns' q1 q2 where R: "mp_sched_run_pending calls st1 = Some st'" "sched_holds st' ns' (tl (q @ q1) @ q2)"
        "sched_world st' = (case q @ q1 of [] \<Rightarrow> id | x # _ \<Rightarrow> actf (func x) (arg x))
          (fold (\<lambda>p. act (snd p) (fst p)) ns (sched_world st1))" by blast
      have "mp_handle_pending_internal calls b st = Some (None, st')" using run R(1) True same(1) by simp
      then show ?thesis using R(2,3) True False unfolding same(2) if_not_P [OF False] if_P [OF True] by blast
    next
      case locked: False
      then have "mp_handle_pending_internal calls b st = Some (None, st1)" using run same(1) by simp
      then show ?thesis using h1 same(2) unfolding if_not_P [OF False] if_not_P [OF locked] by blast
    qed
  qed
qed

text \<open>One C callback, at the node 8, and one Python call wait; the world is a list of what was called.\<close>

definition logging :: "u32 list sched_calls" where
  "logging = \<lparr>call_node = (\<lambda>c n st. st\<lparr>sched_world := c # sched_world st\<rparr>),
     call_function = (\<lambda>f a st. st\<lparr>sched_world := f # sched_world st\<rparr>)\<rparr>"

definition two_waiting :: "u32 list sched" where
  "two_waiting = snd (mp_sched_schedule 4 5 (snd (mp_sched_schedule_node 8 3
     \<lparr>sched_state = MP_SCHED_IDLE, sched_head = 0, sched_tail = 0, sched_nodes = (\<lambda>_. \<lparr>node_callback = 0, node_next = 0\<rparr>),
      sched_len = 0, sched_idx = 6, sched_queue = replicate 8 \<lparr>func = 0, arg = 0\<rparr>, mp_pending_exception = 0, sched_world = []\<rparr>)))"

lemma logging_ok: "only_schedules (call_node logging c n) (\<lambda>w. c # w)" "only_schedules (call_function logging f a) (\<lambda>w. f # w)"
proof -
  have w: "sched_holds (st\<lparr>sched_world := w\<rparr>) ns q = sched_holds st ns q" for st :: "u32 list sched" and w ns q
    by (simp add: sched_holds_def nodes_hold_def ring_holds_def)
  show "only_schedules (call_node logging c n) (\<lambda>w. c # w)" "only_schedules (call_function logging f a) (\<lambda>w. f # w)"
    unfolding only_schedules_def logging_def by (auto simp: w intro!: exI [of _ "[]"])
qed

lemma two_waiting_ok: "sched_holds two_waiting [(8, 3)] [\<lparr>func = 4, arg = 5\<rparr>]"
proof -
  let ?s0 = "\<lparr>sched_state = MP_SCHED_IDLE, sched_head = 0, sched_tail = 0, sched_nodes = (\<lambda>_. \<lparr>node_callback = 0, node_next = 0\<rparr>),
      sched_len = 0, sched_idx = 6, sched_queue = replicate 8 \<lparr>func = 0, arg = 0\<rparr>, mp_pending_exception = 0, sched_world = []\<rparr> :: u32 list sched"
  have "sched_holds ?s0 [] []" by (simp add: sched_holds_def nodes_hold_def ring_holds_def)
  from mp_sched_schedule_node_ok [OF this, of 8 3]
  have "sched_holds (snd (mp_sched_schedule_node 8 3 ?s0)) [(8, 3)] []" by simp
  from mp_sched_schedule_ok [OF this, of 4 5] show ?thesis by (simp add: two_waiting_def)
qed

theorem mp_handle_pending_order_witness:
  "\<exists>st'. mp_handle_pending_internal logging MP_HANDLE_PENDING_CALLBACKS_AND_EXCEPTIONS two_waiting = Some (None, st') \<and>
     sched_world st' = [4, 3]"
proof -
  have s: "mp_pending_exception two_waiting = 0" "sched_state two_waiting = MP_SCHED_PENDING" "sched_world two_waiting = []"
    by (simp_all add: two_waiting_def mp_sched_schedule_def mp_sched_schedule_node_def upd_node_def Let_def mp_sched_full_def
        mp_sched_num_pending_def)
  from mp_handle_pending_order [OF two_waiting_ok logging_ok, of MP_HANDLE_PENDING_CALLBACKS_AND_EXCEPTIONS]
  obtain r st' q1 where r: "mp_handle_pending_internal logging MP_HANDLE_PENDING_CALLBACKS_AND_EXCEPTIONS two_waiting = Some (r, st')"
    "r = None" "sched_world st' = (case [\<lparr>func = 4, arg = 5\<rparr>] @ q1 of [] \<Rightarrow> id | x # _ \<Rightarrow> (\<lambda>w. func x # w))
      (fold (\<lambda>p w. snd p # w) [(8 :: u32, 3)] [])"
    unfolding s by (auto simp: case_prod_beta)
  then show ?thesis by simp
qed

end
