(* ===== verification/Asyncio.thy ===== *)
theory Asyncio
  imports PairQueue
begin

text \<open>
  The tasks and task queues of \<open>extmod/modasyncio.c\<close>.  The tasks are nodes of pairing heaps, one for
  each queue object, ordered by the tick at which they are to run.  Objects are known by their address;
  whether one is a task, a task queue or another object with a method \<open>remove\<close>, which is user code, is
  the record \<open>aio_env\<close>.  The wake-up time \<open>ph_key\<close> is a small integer, kept as its value.
\<close>

section \<open>State\<close>

abbreviation MICROPY_PY_TIME_TICKS_PERIOD :: u32 where "MICROPY_PY_TIME_TICKS_PERIOD \<equiv> 0x40000000"

record mp_obj_task_t =
  coro :: u32
  data :: u32
  task_state :: u32
  ph_key :: u32

record 'w aio =
  aio_nodes :: ph_store
  tasks :: "u32 \<Rightarrow> mp_obj_task_t"
  queues :: "u32 \<Rightarrow> u32"
  ticks_ms :: u32
  aio_world :: 'w

text \<open>The names that \<open>mp_asyncio_context\<close> binds, and the types of objects.\<close>

record 'w aio_env =
  is_task :: "u32 \<Rightarrow> bool"
  is_queue :: "u32 \<Rightarrow> bool"
  remove_method :: "u32 \<Rightarrow> (u32 \<Rightarrow> 'w aio \<Rightarrow> 'w aio) option"
  mp_const_none :: u32
  mp_const_true :: u32
  mp_const_false :: u32
  cur_task :: "u32 option"
  main_queue :: "u32 option"
  CancelledError :: "u32 option"

datatype aio_error = IndexError | RuntimeError | KeyError | Raise u32

definition upd_task :: "u32 \<Rightarrow> (mp_obj_task_t \<Rightarrow> mp_obj_task_t) \<Rightarrow> 'w aio \<Rightarrow> 'w aio" where
  "upd_task t f st = st\<lparr>tasks := (tasks st)(t := f (tasks st t))\<rparr>"

definition TASK_STATE_RUNNING_NOT_WAITED_ON :: "'w aio_env \<Rightarrow> u32" where
  "TASK_STATE_RUNNING_NOT_WAITED_ON E = mp_const_true E"

definition TASK_STATE_DONE_NOT_WAITED_ON :: "'w aio_env \<Rightarrow> u32" where
  "TASK_STATE_DONE_NOT_WAITED_ON E = mp_const_none E"

definition TASK_STATE_DONE_WAS_WAITED_ON :: "'w aio_env \<Rightarrow> u32" where
  "TASK_STATE_DONE_WAS_WAITED_ON E = mp_const_false E"

definition TASK_IS_DONE :: "'w aio_env \<Rightarrow> mp_obj_task_t \<Rightarrow> bool" where
  "TASK_IS_DONE E t \<longleftrightarrow> task_state t = TASK_STATE_DONE_NOT_WAITED_ON E \<or> task_state t = TASK_STATE_DONE_WAS_WAITED_ON E"

section \<open>Ticks\<close>

definition ticks :: "'w aio \<Rightarrow> u32" where
  "ticks st = ticks_ms st AND (MICROPY_PY_TIME_TICKS_PERIOD - 1)"

definition ticks_diff :: "u32 \<Rightarrow> u32 \<Rightarrow> int" where
  "ticks_diff t1 t0 = sint (((t1 - t0 + MICROPY_PY_TIME_TICKS_PERIOD div 2) AND (MICROPY_PY_TIME_TICKS_PERIOD - 1))
     - MICROPY_PY_TIME_TICKS_PERIOD div 2)"

text \<open>The difference, which is no object, is read as a small integer: it is shifted.\<close>

definition task_lt :: "(u32 \<Rightarrow> mp_obj_task_t) \<Rightarrow> u32 \<Rightarrow> u32 \<Rightarrow> bool" where
  "task_lt ts t1 t2 \<longleftrightarrow> ticks_diff (ph_key (ts t1)) (ph_key (ts t2)) div 2 < 0"

section \<open>Task queues\<close>

definition task_queue_make_new :: "u32 \<Rightarrow> 'w aio \<Rightarrow> 'w aio" where
  "task_queue_make_new self st = st\<lparr>queues := (queues st)(self := mp_pairheap_new)\<rparr>"

definition task_queue_peek :: "'w aio_env \<Rightarrow> u32 \<Rightarrow> 'w aio \<Rightarrow> u32" where
  "task_queue_peek E self st = (if queues st self = 0 then mp_const_none E else queues st self)"

definition task_queue_push :: "'w aio_env \<Rightarrow> u32 \<Rightarrow> u32 \<Rightarrow> u32 option \<Rightarrow> 'w aio \<Rightarrow> 'w aio" where
  "task_queue_push E self task key st =
     (let st1 = upd_task task (\<lambda>t. t\<lparr>data := mp_const_none E\<rparr>) st;
          st2 = upd_task task (\<lambda>t. t\<lparr>ph_key := (case key of None \<Rightarrow> ticks st1 | Some k \<Rightarrow> k)\<rparr>) st1;
          (h, s) = mp_pairheap_push (task_lt (tasks st2)) (queues st2 self) task (aio_nodes st2)
      in st2\<lparr>aio_nodes := s, queues := (queues st2)(self := h)\<rparr>)"

definition task_queue_pop :: "u32 \<Rightarrow> 'w aio \<Rightarrow> (aio_error + u32 \<times> 'w aio) option" where
  "task_queue_pop self st =
     (let head = mp_pairheap_peek (queues st self)
      in if head = 0 then Some (Inl IndexError)
         else do {
           (h, s) \<leftarrow> mp_pairheap_pop (task_lt (tasks st)) (queues st self) (aio_nodes st);
           Some (Inr (head, st\<lparr>aio_nodes := s, queues := (queues st)(self := h)\<rparr>)) })"

definition task_queue_remove :: "u32 \<Rightarrow> u32 \<Rightarrow> 'w aio \<Rightarrow> 'w aio option" where
  "task_queue_remove self task st = do {
     (h, s) \<leftarrow> mp_pairheap_delete (task_lt (tasks st)) (queues st self) task (aio_nodes st);
     Some (st\<lparr>aio_nodes := s, queues := (queues st)(self := h)\<rparr>) }"

section \<open>Tasks\<close>

definition task_make_new :: "'w aio_env \<Rightarrow> u32 \<Rightarrow> u32 \<Rightarrow> 'w aio \<Rightarrow> 'w aio" where
  "task_make_new E self co st =
     upd_task self (\<lambda>_. \<lparr>coro = co, data = mp_const_none E, task_state = TASK_STATE_RUNNING_NOT_WAITED_ON E, ph_key = 0\<rparr>)
       (st\<lparr>aio_nodes := mp_pairheap_init_node self (aio_nodes st)\<rparr>)"

definition task_done :: "'w aio_env \<Rightarrow> u32 \<Rightarrow> 'w aio \<Rightarrow> bool" where
  "task_done E self st = TASK_IS_DONE E (tasks st self)"

text \<open>The task at the end of the tasks that wait for one another; it is None when they wait in a circle.\<close>

partial_function (option) waits_on :: "'w aio_env \<Rightarrow> 'w aio \<Rightarrow> u32 \<Rightarrow> u32 option" where
  "waits_on E st self = (if is_task E (data (tasks st self)) then waits_on E st (data (tasks st self)) else Some self)"

text \<open>Calling the method \<open>remove\<close> of what the task waits for, if there is one.\<close>

definition call_remove :: "'w aio_env \<Rightarrow> u32 \<Rightarrow> u32 \<Rightarrow> 'w aio \<Rightarrow> 'w aio option option" where
  "call_remove E obj task st =
     (if is_queue E obj then Some (task_queue_remove obj task st)
      else map_option (\<lambda>f. Some (f task st)) (remove_method E obj))"

definition task_cancel :: "'w aio_env \<Rightarrow> u32 \<Rightarrow> 'w aio \<Rightarrow> ((aio_error + bool) \<times> 'w aio) option" where
  "task_cancel E self_in st =
     (if TASK_IS_DONE E (tasks st self_in) then Some (Inr False, st)
      else case cur_task E of None \<Rightarrow> Some (Inl KeyError, st)
      | Some cur \<Rightarrow>
        if self_in = cur then Some (Inl RuntimeError, st)
        else do {
          self \<leftarrow> waits_on E st self_in;
          (case main_queue E of None \<Rightarrow> Some (Inl KeyError, st)
           | Some q \<Rightarrow> do {
               st1 \<leftarrow> (case call_remove E (data (tasks st self)) self st of
                   Some r \<Rightarrow> map_option (task_queue_push E q self None) r
                 | None \<Rightarrow>
                     if ticks_diff (ph_key (tasks st self)) (ticks st) > 0
                     then map_option (task_queue_push E q self None) (task_queue_remove q self st)
                     else Some st);
               (case CancelledError E of None \<Rightarrow> Some (Inl KeyError, st1)
                | Some c \<Rightarrow> Some (Inr True, upd_task self (data_update (\<lambda>_. c)) st1)) }) })"

text \<open>Attributes: a load gives the value, if there is one, and a store says whether it was done.\<close>

datatype task_attr_name = MP_QSTR_coro | MP_QSTR_data | MP_QSTR_state | MP_QSTR_done | MP_QSTR_cancel | MP_QSTR_ph_key | MP_QSTR_other
datatype task_attr_value = Value u32 | TaskDoneMethod u32 | TaskCancelMethod u32

definition task_attr_load :: "task_attr_name \<Rightarrow> u32 \<Rightarrow> 'w aio \<Rightarrow> task_attr_value option" where
  "task_attr_load attr self st =
     (case attr of
        MP_QSTR_coro \<Rightarrow> Some (Value (coro (tasks st self)))
      | MP_QSTR_data \<Rightarrow> Some (Value (data (tasks st self)))
      | MP_QSTR_state \<Rightarrow> Some (Value (task_state (tasks st self)))
      | MP_QSTR_done \<Rightarrow> Some (TaskDoneMethod self)
      | MP_QSTR_cancel \<Rightarrow> Some (TaskCancelMethod self)
      | MP_QSTR_ph_key \<Rightarrow> Some (Value (ph_key (tasks st self)))
      | MP_QSTR_other \<Rightarrow> None)"

definition task_attr_store :: "task_attr_name \<Rightarrow> u32 \<Rightarrow> u32 \<Rightarrow> 'w aio \<Rightarrow> bool \<times> 'w aio" where
  "task_attr_store attr self v st =
     (case attr of
        MP_QSTR_data \<Rightarrow> (True, upd_task self (data_update (\<lambda>_. v)) st)
      | MP_QSTR_state \<Rightarrow> (True, upd_task self (task_state_update (\<lambda>_. v)) st)
      | _ \<Rightarrow> (False, st))"

text \<open>Waiting for a task: \<open>new_queue\<close> is the address of a queue object that is allocated when it is needed.\<close>

definition task_getiter :: "'w aio_env \<Rightarrow> u32 \<Rightarrow> u32 \<Rightarrow> 'w aio \<Rightarrow> aio_error + 'w aio" where
  "task_getiter E new_queue self st =
     (let s = task_state (tasks st self)
      in if TASK_IS_DONE E (tasks st self) then
           Inr (upd_task self (task_state_update (\<lambda>_. TASK_STATE_DONE_WAS_WAITED_ON E)) st)
         else if s = TASK_STATE_RUNNING_NOT_WAITED_ON E then
           Inr (upd_task self (task_state_update (\<lambda>_. new_queue)) (task_queue_make_new new_queue st))
         else if \<not> is_queue E s then Inl RuntimeError
         else Inr st)"

definition task_iternext :: "'w aio_env \<Rightarrow> u32 \<Rightarrow> 'w aio \<Rightarrow> aio_error + 'w aio" where
  "task_iternext E self st =
     (if TASK_IS_DONE E (tasks st self) then Inl (Raise (data (tasks st self)))
      else case cur_task E of None \<Rightarrow> Inl KeyError
      | Some cur \<Rightarrow>
          Inr (upd_task cur (data_update (\<lambda>_. self)) (task_queue_push E (task_state (tasks st self)) cur None st)))"

end
