(* ===== verification/AsyncioCorrect.thy ===== *)
theory AsyncioCorrect
  imports Asyncio
begin

text \<open>
  Task queues as sorted lists: \<open>aio_holds\<close> says which tasks wait in which queue object, in the order of
  their wake-up times.  Times wrap around; within a quarter of the period of a tick \<open>now\<close> the comparison
  of the code is the order of the distances from it (\<open>wake\<close>).  Pushing, popping and removing are those
  of the lists, each queue beside the others, and cancelling moves a task to the front.
\<close>

section \<open>Times\<close>

definition wake :: "u32 \<Rightarrow> (u32 \<Rightarrow> mp_obj_task_t) \<Rightarrow> u32 \<Rightarrow> int" where
  "wake now ts t = ticks_diff (ph_key (ts t)) now"

abbreviation quarter :: int where "quarter \<equiv> 0x10000000"

lemma uint_and_period: "uint (w AND (MICROPY_PY_TIME_TICKS_PERIOD - 1)) = uint w mod 0x40000000"
proof -
  have "w AND (MICROPY_PY_TIME_TICKS_PERIOD - 1) = take_bit 30 w" by (simp add: take_bit_eq_mask mask_numeral)
  then have "uint (w AND (MICROPY_PY_TIME_TICKS_PERIOD - 1)) = uint (take_bit 30 w)" by (simp only:)
  also have "\<dots> = take_bit 30 (uint w)" by (rule unsigned_take_bit_eq)
  finally show ?thesis by (simp add: take_bit_eq_mod)
qed

lemma ticks_diff_mod: "ticks_diff t1 t0 = (uint t1 - uint t0 + 0x20000000) mod 0x40000000 - 0x20000000"
proof -
  let ?w = "t1 - t0 + MICROPY_PY_TIME_TICKS_PERIOD div 2"
  have half: "(MICROPY_PY_TIME_TICKS_PERIOD div 2 :: u32) = 0x20000000" by simp
  note a = uint_and_period [of ?w]
  have w: "uint ?w mod 0x40000000 = (uint t1 - uint t0 + 0x20000000) mod 0x40000000"
  proof -
    have "uint ?w mod 0x40000000 = ((uint t1 - uint t0) mod 0x100000000 + 0x20000000) mod 0x40000000"
      unfolding half by (simp add: uint_word_ariths mod_mod_cancel)
    also have "\<dots> = (uint t1 - uint t0 + 0x20000000) mod 0x40000000"
      by (intro mod_add_cong) (simp_all add: mod_mod_cancel)
    finally show ?thesis .
  qed
  let ?m = "(uint t1 - uint t0 + 0x20000000) mod 0x40000000"
  have "?w AND (MICROPY_PY_TIME_TICKS_PERIOD - 1) = word_of_int ?m"
    using a w by (metis word_of_int_uint)
  then have "ticks_diff t1 t0 = sint (word_of_int (?m - 0x20000000) :: u32)"
    by (simp add: ticks_diff_def)
  also have "\<dots> = ?m - 0x20000000"
  proof -
    have "0 \<le> ?m" "?m < 0x40000000" by simp_all
    then show ?thesis by (subst sint_sbintrunc') (simp add: signed_take_bit_int_eq_self)
  qed
  finally show ?thesis .
qed

definition near :: "u32 \<Rightarrow> (u32 \<Rightarrow> mp_obj_task_t) \<Rightarrow> u32 \<Rightarrow> bool" where
  "near now ts t \<longleftrightarrow> - quarter \<le> wake now ts t \<and> wake now ts t < quarter"

lemma ticks_diff_near:
  assumes "- quarter \<le> ticks_diff a now" "ticks_diff a now < quarter" "- quarter \<le> ticks_diff b now" "ticks_diff b now < quarter"
  shows "ticks_diff a b = ticks_diff a now - ticks_diff b now"
proof -
  let ?x = "uint a - uint now + 0x20000000" and ?y = "uint b - uint now + 0x20000000"
  have "uint a - uint b + 0x20000000 = (?x - ?y) + 0x20000000" by simp
  also have "\<dots> mod 0x40000000 = ((?x mod 0x40000000 - ?y mod 0x40000000) + 0x20000000) mod 0x40000000"
    by (intro mod_add_cong) (simp_all only: mod_diff_eq)
  also have "\<dots> = (?x mod 0x40000000 - ?y mod 0x40000000) + 0x20000000"
    using assms unfolding ticks_diff_mod by (intro mod_pos_pos_trivial) linarith+
  finally show ?thesis unfolding ticks_diff_mod by linarith
qed

lemma keyed_wake: "\<forall>t \<in> A. near now ts t \<Longrightarrow> keyed (task_lt ts) (wake now ts) A"
proof (unfold keyed_def, intro ballI)
  fix a b assume A: "\<forall>t \<in> A. near now ts t" "a \<in> A" "b \<in> A"
  then have "ticks_diff (ph_key (ts a)) (ph_key (ts b)) = wake now ts a - wake now ts b"
    unfolding near_def wake_def by (intro ticks_diff_near) blast+
  moreover have "(i div 2 < 0) = (i < 0)" for i :: int by presburger
  ultimately show "task_lt ts a b = (wake now ts a < wake now ts b)" by (simp add: task_lt_def)
qed

lemma wake_now: "wake (ticks_ms st) (\<lambda>_. t\<lparr>ph_key := ticks st\<rparr>) x = 0"
proof -
  have u: "uint (ticks st) = uint (ticks_ms st) mod 0x40000000"
    unfolding ticks_def by (rule uint_and_period)
  have "(uint (ticks_ms st) mod 0x40000000 - uint (ticks_ms st) + 0x20000000) mod 0x40000000 =
      (uint (ticks_ms st) - uint (ticks_ms st) + 0x20000000) mod 0x40000000"
    by (intro mod_add_cong mod_diff_cong) simp_all
  then show ?thesis by (simp add: wake_def ticks_diff_mod u)
qed

section \<open>The queues\<close>

definition in_no_queue :: "u32 set \<Rightarrow> (u32 \<Rightarrow> u32 list) \<Rightarrow> u32 \<Rightarrow> bool" where
  "in_no_queue Q qs t \<longleftrightarrow> (\<forall>q \<in> Q. t \<notin> set (qs q))"

definition aio_holds :: "u32 \<Rightarrow> u32 set \<Rightarrow> u32 set \<Rightarrow> 'w aio \<Rightarrow> (u32 \<Rightarrow> u32 list) \<Rightarrow> bool" where
  "aio_holds now T Q st qs \<longleftrightarrow>
     (\<forall>q \<in> Q. ph_queue (wake now (tasks st)) (aio_nodes st) (queues st q) (qs q) \<and> set (qs q) \<subseteq> T \<and>
       (\<forall>t \<in> set (qs q). near now (tasks st) t)) \<and>
     (\<forall>p \<in> Q. \<forall>q \<in> Q. p \<noteq> q \<longrightarrow> set (qs p) \<inter> set (qs q) = {}) \<and>
     (\<forall>t \<in> T. in_no_queue Q qs t \<longrightarrow> ph_fresh (aio_nodes st) t)"

lemma aio_holdsD:
  assumes "aio_holds now T Q st qs" "q \<in> Q"
  shows "ph_queue (wake now (tasks st)) (aio_nodes st) (queues st q) (qs q)" "set (qs q) \<subseteq> T"
    "\<forall>t \<in> set (qs q). near now (tasks st) t"
  using assms by (simp_all add: aio_holds_def)

text \<open>An operation on one queue, which may take in a task that was in none.\<close>

lemma aio_step:
  assumes H: "aio_holds now T Q st qs" "q \<in> Q" "t \<in> T" "t \<in> set (qs q) \<or> in_no_queue Q qs t"
    and N: "ph_queue (wake now (tasks st)) s h l" "set l \<subseteq> insert t (set (qs q))" "\<forall>x \<in> set l. near now (tasks st) x"
      "same_off (insert t (set (qs q))) (aio_nodes st) s" "\<forall>x \<in> insert t (set (qs q)) - set l. ph_fresh s x"
  shows "aio_holds now T Q (st\<lparr>aio_nodes := s, queues := (queues st)(q := h)\<rparr>) (qs(q := l))"
proof -
  let ?A = "insert t (set (qs q))"
  have dis: "?A \<inter> set (qs p) = {}" if "p \<in> Q" "p \<noteq> q" for p
  proof -
    have "set (qs q) \<inter> set (qs p) = {}" using H(1,2) that unfolding aio_holds_def by metis
    moreover have "t \<notin> set (qs p)" using H(4) that(1) calculation unfolding in_no_queue_def by blast
    ultimately show ?thesis by simp
  qed
  have AT: "?A \<subseteq> T" using aio_holdsD(2) [OF H(1,2)] H(3) by blast
  have other: "ph_queue (wake now (tasks st)) s (queues st p) (qs p)" if "p \<in> Q" "p \<noteq> q" for p
    by (rule ph_queue_off [OF aio_holdsD(1) [OF H(1) that(1)] N(4) dis [OF that]])
  have fresh: "ph_fresh s x" if "x \<in> T" "in_no_queue Q (qs(q := l)) x" for x
  proof (cases "x \<in> ?A")
    case True
    have "x \<notin> set l" using that(2) H(2) unfolding in_no_queue_def by auto
    then show ?thesis using N(5) True by blast
  next
    case False
    have "x \<notin> set (qs p)" if p: "p \<in> Q" for p
      using \<open>in_no_queue Q (qs(q := l)) x\<close> False p unfolding in_no_queue_def by (cases "p = q") auto
    then have "in_no_queue Q qs x" unfolding in_no_queue_def by blast
    then have "ph_fresh (aio_nodes st) x" using H(1) that(1) by (simp add: aio_holds_def)
    then show ?thesis using same_offD [OF N(4) False] by (simp add: ph_fresh_def)
  qed
  have "\<forall>p \<in> Q. \<forall>r \<in> Q. p \<noteq> r \<longrightarrow> set ((qs(q := l)) p) \<inter> set ((qs(q := l)) r) = {}"
  proof (intro ballI impI)
    fix p r assume pr: "p \<in> Q" "r \<in> Q" "p \<noteq> r"
    show "set ((qs(q := l)) p) \<inter> set ((qs(q := l)) r) = {}"
    proof (cases "p = q \<or> r = q")
      case True
      then show ?thesis using dis pr N(2) by (cases "p = q") (auto simp: disjoint_iff)
    next
      case False
      then show ?thesis using H(1) pr by (simp add: aio_holds_def)
    qed
  qed
  moreover have "set l \<subseteq> T" using N(2) AT by blast
  ultimately show ?thesis
    using N(1,3) other fresh aio_holdsD(2,3) [OF H(1)] unfolding aio_holds_def by simp
qed

lemma aio_keys:
  assumes "aio_holds now T Q st qs" "\<forall>x. ph_key (ts x) = ph_key (tasks st x)"
  shows "aio_holds now T Q (st\<lparr>tasks := ts\<rparr>) qs"
proof -
  have "wake now ts = wake now (tasks st)" using assms(2) by (simp add: wake_def fun_eq_iff)
  then show ?thesis using assms(1) by (simp add: aio_holds_def near_def)
qed

lemma aio_idle_task:
  assumes "aio_holds now T Q st qs" "in_no_queue Q qs t"
  shows "aio_holds now T Q (upd_task t f st) qs"
proof -
  let ?ts = "tasks (upd_task t f st)"
  have same: "wake now ?ts x = wake now (tasks st) x" if "q \<in> Q" "x \<in> set (qs q)" for q x
    using assms(2) that by (auto simp: wake_def upd_task_def in_no_queue_def)
  have "ph_queue (wake now ?ts) (aio_nodes st) (queues st q) (qs q)" if "q \<in> Q" for q
    by (rule ph_queue_rekey [OF aio_holdsD(1) [OF assms(1) that]]) (simp add: same [OF that])
  moreover have "near now ?ts x" if "q \<in> Q" "x \<in> set (qs q)" for q x
    using aio_holdsD(3) [OF assms(1) that(1)] that same [OF that] by (simp add: near_def)
  ultimately show ?thesis using assms(1) by (simp add: aio_holds_def upd_task_def)
qed

section \<open>Pushing, popping and removing\<close>

definition pushed_task :: "'w aio_env \<Rightarrow> u32 option \<Rightarrow> 'w aio \<Rightarrow> mp_obj_task_t \<Rightarrow> mp_obj_task_t" where
  "pushed_task E key st x = x\<lparr>data := mp_const_none E, ph_key := (case key of None \<Rightarrow> ticks st | Some k \<Rightarrow> k)\<rparr>"

lemma task_queue_push_ok:
  assumes "aio_holds now T Q st qs" "q \<in> Q" "t \<in> T" "in_no_queue Q qs t"
    and "near now ((tasks st)(t := pushed_task E key st (tasks st t))) t"
  defines "ts \<equiv> (tasks st)(t := pushed_task E key st (tasks st t))"
  shows "aio_holds now T Q (task_queue_push E q t key st) (qs(q := sort_key (wake now ts) (qs q @ [t])))"
    "tasks (task_queue_push E q t key st) = ts" "ticks_ms (task_queue_push E q t key st) = ticks_ms st"
    "aio_world (task_queue_push E q t key st) = aio_world st"
proof -
  let ?st2 = "upd_task t (pushed_task E key st) st"
  have ts: "tasks ?st2 = ts" by (simp add: upd_task_def ts_def)
  have H2: "aio_holds now T Q ?st2 qs" by (rule aio_idle_task [OF assms(1,4)])
  have l: "\<forall>x \<in> insert t (set (qs q)). near now ts x"
    using aio_holdsD(3) [OF H2 assms(2)] assms(5) unfolding ts ts_def by blast
  have fr: "ph_fresh (aio_nodes ?st2) t" using H2 assms(3,4) by (simp add: aio_holds_def)
  have nt: "t \<notin> set (qs q)" using assms(2,4) by (simp add: in_no_queue_def)
  obtain h s where p: "mp_pairheap_push (task_lt ts) (queues ?st2 q) t (aio_nodes ?st2) = (h, s)"
    "ph_queue (wake now ts) s h (sort_key (wake now ts) (qs q @ [t]))" "same_off (insert t (set (qs q))) (aio_nodes ?st2) s"
    using ph_push [OF aio_holdsD(1) [OF H2 assms(2), unfolded ts] keyed_wake [OF l] fr nt] by blast
  have run: "task_queue_push E q t key st = ?st2\<lparr>aio_nodes := s, queues := (queues ?st2)(q := h)\<rparr>"
  proof -
    have tk: "ticks (upd_task t (\<lambda>t. t\<lparr>data := mp_const_none E\<rparr>) st) = ticks st" by (simp add: ticks_def upd_task_def)
    have "upd_task t (\<lambda>t. t\<lparr>ph_key := (case key of None \<Rightarrow> ticks st | Some k \<Rightarrow> k)\<rparr>)
        (upd_task t (\<lambda>t. t\<lparr>data := mp_const_none E\<rparr>) st) = ?st2"
      by (simp add: upd_task_def pushed_task_def)
    then show ?thesis using p(1) ts by (cases key) (simp_all add: task_queue_push_def tk Let_def)
  qed
  show "aio_holds now T Q (task_queue_push E q t key st) (qs(q := sort_key (wake now ts) (qs q @ [t])))"
    unfolding run by (rule aio_step [OF H2 assms(2,3)]) (use p l assms(4) ts in auto)
  show "tasks (task_queue_push E q t key st) = ts" "ticks_ms (task_queue_push E q t key st) = ticks_ms st"
    "aio_world (task_queue_push E q t key st) = aio_world st"
    unfolding run using ts by (simp_all add: upd_task_def)
qed

lemma task_queue_remove_ok:
  assumes "aio_holds now T Q st qs" "q \<in> Q" "t \<in> set (qs q)"
  shows "\<exists>st'. task_queue_remove q t st = Some st' \<and> aio_holds now T Q st' (qs(q := filter (\<lambda>x. x \<noteq> t) (qs q))) \<and>
    in_no_queue Q (qs(q := filter (\<lambda>x. x \<noteq> t) (qs q))) t \<and> tasks st' = tasks st \<and> ticks_ms st' = ticks_ms st \<and> aio_world st' = aio_world st"
proof -
  let ?l = "filter (\<lambda>x. x \<noteq> t) (qs q)"
  note D = aio_holdsD [OF assms(1,2)]
  obtain h s where d: "mp_pairheap_delete (task_lt (tasks st)) (queues st q) t (aio_nodes st) = Some (h, s)"
    "ph_queue (wake now (tasks st)) s h ?l" "ph_fresh s t" "same_off (set (qs q)) (aio_nodes st) s"
    using ph_delete [OF D(1) keyed_wake [OF D(3)] assms(3)] by blast
  have i: "insert t (set (qs q)) = set (qs q)" using assms(3) by blast
  have "aio_holds now T Q (st\<lparr>aio_nodes := s, queues := (queues st)(q := h)\<rparr>) (qs(q := ?l))"
    by (rule aio_step [OF assms(1,2), of t]) (use D d assms(3) i in auto)
  moreover have "in_no_queue Q (qs(q := ?l)) t"
    using assms unfolding aio_holds_def in_no_queue_def by (auto simp: disjoint_iff)
  ultimately show ?thesis using d(1) by (simp add: task_queue_remove_def)
qed

lemma task_queue_pop_ok:
  assumes "aio_holds now T Q st qs" "q \<in> Q"
  shows "case qs q of [] \<Rightarrow> task_queue_pop q st = Some (Inl IndexError)
    | t # l \<Rightarrow> \<exists>st'. task_queue_pop q st = Some (Inr (t, st')) \<and> aio_holds now T Q st' (qs(q := l)) \<and>
        tasks st' = tasks st \<and> (\<forall>x \<in> set l. wake now (tasks st) t \<le> wake now (tasks st) x)"
proof (cases "qs q")
  case Nil
  then show ?thesis using ph_queue_top [OF aio_holdsD(1) [OF assms]] by (simp add: task_queue_pop_def mp_pairheap_peek_def)
next
  case (Cons t l)
  note D = aio_holdsD [OF assms, unfolded Cons]
  have k: "keyed (task_lt (tasks st)) (wake now (tasks st)) (set (t # l))" by (rule keyed_wake [OF D(3)])
  obtain h s where d: "mp_pairheap_pop (task_lt (tasks st)) (queues st q) (aio_nodes st) = Some (h, s)"
    "ph_queue (wake now (tasks st)) s h l" "ph_fresh s t" "same_off (set (t # l)) (aio_nodes st) s"
    using ph_pop [OF D(1) k] by blast
  have hd: "queues st q = t" "t \<noteq> 0"
    using ph_queue_top [OF D(1)] ph_queue_addr [OF D(1), of t] node_nonzero by simp_all
  have "aio_holds now T Q (st\<lparr>aio_nodes := s, queues := (queues st)(q := h)\<rparr>) (qs(q := l))"
    by (rule aio_step [OF assms, of t]) (use D d Cons in auto)
  moreover have "\<forall>x \<in> set l. wake now (tasks st) t \<le> wake now (tasks st) x"
    using ph.pop_oldest [OF D(1)] by blast
  ultimately show ?thesis using d(1) hd Cons by (simp add: task_queue_pop_def mp_pairheap_peek_def)
qed

end
