(* ===== verification/AsyncioProps.thy ===== *)
theory AsyncioProps
  imports AsyncioCorrect
begin

text \<open>The properties of task queues and of cancelling a task, with their witnesses.\<close>

lemma ticks_diff_ticks: "ticks_diff t (ticks st) = ticks_diff t (ticks_ms st)"
proof -
  have "(uint t - uint (ticks st) + 0x20000000) mod 0x40000000 = (uint t - uint (ticks_ms st) + 0x20000000) mod 0x40000000"
    unfolding ticks_def uint_and_period by (intro mod_add_cong mod_diff_cong) simp_all
  then show ?thesis by (simp add: ticks_diff_mod)
qed

lemma pushed_now: "wake (ticks_ms st) ((tasks st)(t := pushed_task E None st x)) t = 0"
  using wake_now [of st x t] by (simp add: wake_def pushed_task_def)

text \<open>Pushing does not change the order of the others.\<close>

lemma pushed_others:
  assumes "aio_holds now T Q st qs" "q \<in> Q" "t \<notin> set (qs q)"
  shows "filter (\<lambda>x. x \<noteq> t) (sort_key (wake now ((tasks st)(t := y))) (qs q @ [t])) = qs q"
proof -
  let ?k = "wake now ((tasks st)(t := y))"
  have f: "filter (\<lambda>x. x \<noteq> t) (qs q @ [t]) = qs q"
    using assms(3) by (simp add: filter_id_conv) metis
  have m: "map ?k (qs q) = map (wake now (tasks st)) (qs q)" using assms(3) by (auto simp: wake_def)
  have "sorted (map ?k (qs q))"
    unfolding m using ph.rep_sorted [OF aio_holdsD(1) [OF assms(1,2)]] by blast
  then have "sort_key ?k (qs q) = qs q" by (rule sort_key_id_if_sorted)
  then show ?thesis unfolding filter_sort f .
qed

text \<open>Taking a task out of its queue and pushing it on the main queue, to run now.\<close>

lemma requeue:
  assumes "aio_holds (ticks_ms st) T Q st qs" "p \<in> Q" "t \<in> set (qs p)" "m \<in> Q"
  shows "\<exists>st1 qs'. map_option (task_queue_push E m t None) (task_queue_remove p t st) = Some st1 \<and>
    aio_holds (ticks_ms st) T Q st1 qs' \<and> t \<in> set (qs' m) \<and> (\<forall>q \<in> Q. q \<noteq> m \<longrightarrow> t \<notin> set (qs' q)) \<and>
    (\<forall>q \<in> Q. filter (\<lambda>x. x \<noteq> t) (qs' q) = filter (\<lambda>x. x \<noteq> t) (qs q)) \<and>
    tasks st1 = (tasks st)(t := pushed_task E None st (tasks st t)) \<and> wake (ticks_ms st) (tasks st1) t = 0"
proof -
  define r where "r = qs(p := filter (\<lambda>x. x \<noteq> t) (qs p))"
  have tT: "t \<in> T" using aio_holdsD(2) [OF assms(1,2)] assms(3) by blast
  obtain st0 where R: "task_queue_remove p t st = Some st0" "aio_holds (ticks_ms st) T Q st0 r" "in_no_queue Q r t"
    "tasks st0 = tasks st" "ticks_ms st0 = ticks_ms st"
    using task_queue_remove_ok [OF assms(1-3)] unfolding r_def by blast
  have tk: "pushed_task E None st0 = pushed_task E None st"
    using R(5) by (simp add: fun_eq_iff pushed_task_def ticks_def)
  have near: "near (ticks_ms st) ((tasks st0)(t := pushed_task E None st0 (tasks st0 t))) t"
    using pushed_now [of st t E "tasks st t"] unfolding near_def R(4) tk by simp
  note P = task_queue_push_ok [OF R(2) assms(4) tT R(3) near, unfolded R(4,5) tk]
  let ?k = "wake (ticks_ms st) ((tasks st)(t := pushed_task E None st (tasks st t)))"
  let ?l = "sort_key ?k (r m @ [t])"
  have tm: "t \<notin> set (r m)" using R(3) assms(4) unfolding in_no_queue_def by blast
  have f: "filter (\<lambda>x. x \<noteq> t) ?l = r m"
    using pushed_others [OF R(2) assms(4) tm] unfolding R(4) .
  have other: "filter (\<lambda>x. x \<noteq> t) (r q) = filter (\<lambda>x. x \<noteq> t) (qs q)" for q by (simp add: r_def)
  have rm: "filter (\<lambda>x. x \<noteq> t) (r m) = r m" using tm by (simp only: filter_id_conv) blast
  have "filter (\<lambda>x. x \<noteq> t) ((r(m := ?l)) q) = filter (\<lambda>x. x \<noteq> t) (qs q)" for q
    using f rm other [of m] other [of q] by (cases "q = m") (simp_all only: fun_upd_same fun_upd_other not_False_eq_True)
  moreover have "t \<in> set ((r(m := ?l)) m)" by simp
  moreover have "\<forall>q \<in> Q. q \<noteq> m \<longrightarrow> t \<notin> set ((r(m := ?l)) q)"
    using R(3) unfolding in_no_queue_def by simp
  ultimately show ?thesis using R(1) P pushed_now [of st t E "tasks st t"]
    by (intro exI [of _ "task_queue_push E m t None st0"] exI [of _ "r(m := ?l)"]) simp
qed

text \<open>The same, in the terms of the property.\<close>

definition due_first :: "'w aio \<Rightarrow> u32 set \<Rightarrow> u32 set \<Rightarrow> (u32 \<Rightarrow> u32 list) \<Rightarrow> u32 \<Rightarrow> u32 \<Rightarrow> 'w aio \<Rightarrow> (u32 \<Rightarrow> u32 list) \<Rightarrow> bool" where
  "due_first st T Q qs m t st' qs' \<longleftrightarrow> aio_holds (ticks_ms st) T Q st' qs' \<and>
    t \<in> set (qs' m) \<and> wake (ticks_ms st) (tasks st') t \<le> 0 \<and>
    (\<forall>q \<in> Q. filter (\<lambda>x. x \<noteq> t) (qs' q) = filter (\<lambda>x. x \<noteq> t) (qs q) \<and> (q \<noteq> m \<longrightarrow> t \<notin> set (qs' q))) \<and>
    (\<forall>x. x \<noteq> t \<longrightarrow> tasks st' x = tasks st x)"

lemma requeue_due:
  assumes "aio_holds (ticks_ms st) T Q st qs" "p \<in> Q" "t \<in> set (qs p)" "m \<in> Q"
  shows "\<exists>st1 qs'. map_option (task_queue_push E m t None) (task_queue_remove p t st) = Some st1 \<and> due_first st T Q qs m t st1 qs'"
proof -
  obtain st1 qs' where R: "map_option (task_queue_push E m t None) (task_queue_remove p t st) = Some st1"
    "aio_holds (ticks_ms st) T Q st1 qs'" "t \<in> set (qs' m)" "\<forall>q \<in> Q. q \<noteq> m \<longrightarrow> t \<notin> set (qs' q)"
    "\<forall>q \<in> Q. filter (\<lambda>x. x \<noteq> t) (qs' q) = filter (\<lambda>x. x \<noteq> t) (qs q)"
    "tasks st1 = (tasks st)(t := pushed_task E None st (tasks st t))" "wake (ticks_ms st) (tasks st1) t = 0"
    using requeue [OF assms, of E] by blast
  have "\<forall>x. x \<noteq> t \<longrightarrow> tasks st1 x = tasks st x" unfolding R(6) by simp
  moreover have "wake (ticks_ms st) (tasks st1) t \<le> 0" unfolding R(7) by simp
  ultimately have "due_first st T Q qs m t st1 qs'" using R(2-5) unfolding due_first_def by blast
  then show ?thesis using R(1) by blast
qed

text \<open>A task that is in no queue and is pushed on the main queue.\<close>

lemma push_due:
  assumes "aio_holds (ticks_ms st) T Q st qs" "in_no_queue Q qs t" "t \<in> T" "m \<in> Q"
  shows "\<exists>qs'. due_first st T Q qs m t (task_queue_push E m t None st) qs'"
proof -
  have near: "near (ticks_ms st) ((tasks st)(t := pushed_task E None st (tasks st t))) t"
    using pushed_now [of st t E "tasks st t"] unfolding near_def by simp
  note P = task_queue_push_ok [OF assms(1,4,3,2) near]
  let ?l = "sort_key (wake (ticks_ms st) ((tasks st)(t := pushed_task E None st (tasks st t)))) (qs m @ [t])"
  have tm: "t \<notin> set (qs q)" if "q \<in> Q" for q using assms(2) that unfolding in_no_queue_def by blast
  have f: "filter (\<lambda>x. x \<noteq> t) ?l = qs m" by (rule pushed_others [OF assms(1,4) tm [OF assms(4)]])
  have r: "filter (\<lambda>x. x \<noteq> t) (qs q) = qs q" if "q \<in> Q" for q using tm [OF that] by (simp only: filter_id_conv) blast
  have "filter (\<lambda>x. x \<noteq> t) ((qs(m := ?l)) q) = filter (\<lambda>x. x \<noteq> t) (qs q)" if "q \<in> Q" for q
    using f r [OF that] by (cases "q = m") simp_all
  then have "due_first st T Q qs m t (task_queue_push E m t None st) (qs(m := ?l))"
    unfolding due_first_def P(2) using P(1) tm pushed_now [of st t E "tasks st t"] by simp
  then show ?thesis by blast
qed

text \<open>Where the task is that is cancelled: in the queue object it waits in; with an object of another type
  that has a method \<open>remove\<close>, as those are of I/O polling and of \<open>gather\<close>, which touches neither tasks nor
  queues; in the main queue; or in none, as the running task, which is not due in the future.\<close>

definition cancel_place :: "'w aio_env \<Rightarrow> u32 set \<Rightarrow> (u32 \<Rightarrow> u32 list) \<Rightarrow> u32 \<Rightarrow> u32 \<Rightarrow> 'w aio \<Rightarrow> bool" where
  "cancel_place E Q qs m t st \<longleftrightarrow>
     (let d = data (tasks st t) in
      if is_queue E d then d \<in> Q \<and> t \<in> set (qs d)
      else case remove_method E d of
          Some f \<Rightarrow> in_no_queue Q qs t \<and> (\<exists>w. f t st = st\<lparr>aio_world := w\<rparr>)
        | None \<Rightarrow> t \<in> set (qs m) \<or> in_no_queue Q qs t \<and> wake (ticks_ms st) (tasks st) t \<le> 0)"

definition runs_now :: "'w aio_env \<Rightarrow> u32 set \<Rightarrow> (u32 \<Rightarrow> u32 list) \<Rightarrow> u32 \<Rightarrow> 'w aio \<Rightarrow> bool" where
  "runs_now E Q qs t st \<longleftrightarrow>
     \<not> is_queue E (data (tasks st t)) \<and> remove_method E (data (tasks st t)) = None \<and> in_no_queue Q qs t"

lemma cancel_moves:
  assumes H: "aio_holds (ticks_ms st) T Q st qs" and m: "m \<in> Q" "t \<in> T" and p: "cancel_place E Q qs m t st"
  shows "\<exists>st1 qs'. (case call_remove E (data (tasks st t)) t st of Some r \<Rightarrow> map_option (task_queue_push E m t None) r
     | None \<Rightarrow> if ticks_diff (ph_key (tasks st t)) (ticks st) > 0
         then map_option (task_queue_push E m t None) (task_queue_remove m t st) else Some st) = Some st1 \<and>
    (if runs_now E Q qs t st then st1 = st \<and> qs' = qs else due_first st T Q qs m t st1 qs')"
proof -
  let ?d = "data (tasks st t)" and ?now = "ticks_ms st"
  have late: "(ticks_diff (ph_key (tasks st t)) (ticks st) > 0) = (wake ?now (tasks st) t > 0)"
    by (simp add: wake_def ticks_diff_ticks)
  consider (queue) "is_queue E ?d" "?d \<in> Q" "t \<in> set (qs ?d)"
    | (other) f w where "\<not> is_queue E ?d" "remove_method E ?d = Some f" "in_no_queue Q qs t" "f t st = st\<lparr>aio_world := w\<rparr>"
    | (main) "\<not> is_queue E ?d" "remove_method E ?d = None" "t \<in> set (qs m)"
    | (none) "\<not> is_queue E ?d" "remove_method E ?d = None" "in_no_queue Q qs t" "wake ?now (tasks st) t \<le> 0"
    using p unfolding cancel_place_def Let_def by (auto split: if_splits option.splits)
  then show ?thesis
  proof cases
    case queue
    then show ?thesis using requeue_due [OF H queue(2,3) m(1), of E] by (simp add: call_remove_def runs_now_def)
  next
    case other
    let ?st = "st\<lparr>aio_world := w\<rparr>"
    have "aio_holds (ticks_ms ?st) T Q ?st qs" using H by (simp add: aio_holds_def)
    from push_due [OF this other(3) m(2,1), of E] have "\<exists>qs'. due_first st T Q qs m t (task_queue_push E m t None ?st) qs'"
      by (simp add: due_first_def)
    then show ?thesis using other by (simp add: call_remove_def runs_now_def)
  next
    case main
    have nr: "\<not> runs_now E Q qs t st" using main(3) m(1) unfolding runs_now_def in_no_queue_def by blast
    show ?thesis
    proof (cases "wake ?now (tasks st) t > 0")
      case True
      then show ?thesis using requeue_due [OF H m(1) main(3) m(1), of E] main nr late by (simp add: call_remove_def)
    next
      case False
      have "\<forall>q \<in> Q. q \<noteq> m \<longrightarrow> t \<notin> set (qs q)" using H m(1) main(3) unfolding aio_holds_def by blast
      then have "due_first st T Q qs m t st qs" using H main(3) False by (simp add: due_first_def)
      then show ?thesis using False main nr late by (intro exI [of _ st] exI [of _ qs]) (simp add: call_remove_def)
    qed
  next
    case none
    then show ?thesis using late by (intro exI [of _ st] exI [of _ qs]) (simp add: call_remove_def runs_now_def)
  qed
qed

text \<open>C31: Cancelling a task that has not ended and is not the running one cancels the task at the end of
  the chain of tasks it waits for, if that chain has an end: the task gets the exception CancelledError as
  its data.  When it is asleep in the main queue, or waits in a queue object or with an object whose
  \<open>remove\<close> leaves tasks and queues alone, it leaves that and is in the main queue, due no later than now;
  when it is the running task, which a task waits for that it cancels, nothing moves.  The order of all the
  other tasks in all queues is as before, and no other task changes.  The tasks in queues are due within
  \<open>2 ^ 28\<close> milliseconds of now.\<close>

theorem task_cancel_schedules:
  assumes "aio_holds (ticks_ms st) T Q st qs" "\<not> TASK_IS_DONE E (tasks st self)" "cur_task E = Some cur" "self \<noteq> cur"
    and "waits_on E st self = Some t" "t \<in> T" "main_queue E = Some m" "m \<in> Q" "CancelledError E = Some c"
    and "cancel_place E Q qs m t st"
  shows "\<exists>st' qs'. task_cancel E self st = Some (Inr True, st') \<and> aio_holds (ticks_ms st) T Q st' qs' \<and>
    data (tasks st' t) = c \<and> (\<forall>x. x \<noteq> t \<longrightarrow> tasks st' x = tasks st x) \<and>
    (if runs_now E Q qs t st then qs' = qs
     else t \<in> set (qs' m) \<and> wake (ticks_ms st) (tasks st') t \<le> 0 \<and>
       (\<forall>q \<in> Q. filter (\<lambda>x. x \<noteq> t) (qs' q) = filter (\<lambda>x. x \<noteq> t) (qs q) \<and> (q \<noteq> m \<longrightarrow> t \<notin> set (qs' q))))"
proof -
  obtain st1 qs' where M: "(case call_remove E (data (tasks st t)) t st of Some r \<Rightarrow> map_option (task_queue_push E m t None) r
     | None \<Rightarrow> if ticks_diff (ph_key (tasks st t)) (ticks st) > 0
         then map_option (task_queue_push E m t None) (task_queue_remove m t st) else Some st) = Some st1"
    "if runs_now E Q qs t st then st1 = st \<and> qs' = qs else due_first st T Q qs m t st1 qs'"
    using cancel_moves [OF assms(1,8,6,10)] by blast
  let ?st' = "upd_task t (data_update (\<lambda>_. c)) st1"
  have "task_cancel E self st = Some (Inr True, ?st')"
    using assms(2-5,7,9) M(1) by (simp add: task_cancel_def)
  moreover have "aio_holds (ticks_ms st) T Q st1 qs'" using M(2) assms(1) by (simp add: due_first_def split: if_splits)
  then have "aio_holds (ticks_ms st) T Q ?st' qs'"
    unfolding upd_task_def by (rule aio_keys) simp
  moreover have "wake (ticks_ms st) (tasks ?st') t = wake (ticks_ms st) (tasks st1) t" by (simp add: wake_def upd_task_def)
  ultimately show ?thesis using M(2) unfolding due_first_def
    by (intro exI [of _ ?st'] exI [of _ qs']) (auto simp: upd_task_def split: if_splits)
qed

text \<open>A task at 8 that sleeps until tick 50 in the main queue, at 100.\<close>

definition demo_env :: "unit aio_env" where
  "demo_env = \<lparr>is_task = (\<lambda>_. False), is_queue = (\<lambda>x. x = 100), remove_method = (\<lambda>_. None), mp_const_none = 1,
     mp_const_true = 2, mp_const_false = 3, cur_task = Some 16, main_queue = Some 100, CancelledError = Some 7\<rparr>"

definition demo_idle :: "unit aio" where
  "demo_idle = \<lparr>aio_nodes = (\<lambda>_. \<lparr>child = 0, child_last = 0, nxt = 0\<rparr>),
     tasks = (\<lambda>_. \<lparr>coro = 5, data = 1, task_state = 2, ph_key = 0\<rparr>), queues = (\<lambda>_. 0), ticks_ms = 0, aio_world = ()\<rparr>"

definition demo_asleep :: "unit aio" where
  "demo_asleep = task_queue_push demo_env 100 8 (Some 50) demo_idle"

lemma demo_asleep_ok:
  "aio_holds (ticks_ms demo_asleep) {8} {100} demo_asleep (\<lambda>q. if q = 100 then [8] else [])"
  "tasks demo_asleep 8 = \<lparr>coro = 5, data = 1, task_state = 2, ph_key = 50\<rparr>"
proof -
  have h: "aio_holds 0 {8} {100} demo_idle (\<lambda>_. [])"
    by (simp add: aio_holds_def demo_idle_def ph_fresh_def node_addr_def)
  have n: "near 0 ((tasks demo_idle)(8 := pushed_task demo_env (Some 50) demo_idle (tasks demo_idle 8))) 8"
    by (simp add: near_def wake_def pushed_task_def ticks_diff_def)
  note P = task_queue_push_ok [OF h _ _ _ n, of 100, folded demo_asleep_def, simplified in_no_queue_def, simplified]
  show "tasks demo_asleep 8 = \<lparr>coro = 5, data = 1, task_state = 2, ph_key = 50\<rparr>"
    unfolding P(2) by (simp add: pushed_task_def demo_idle_def demo_env_def)
  have t: "ticks_ms demo_asleep = 0" unfolding P(3) by (simp add: demo_idle_def)
  show "aio_holds (ticks_ms demo_asleep) {8} {100} demo_asleep (\<lambda>q. if q = 100 then [8] else [])"
    using P(1) unfolding t by (simp add: fun_upd_def)
qed

theorem task_cancel_schedules_witness:
  "\<exists>st' qs'. task_cancel demo_env 8 demo_asleep = Some (Inr True, st') \<and> (8 :: u32) \<in> set (qs' (100 :: u32)) \<and>
     wake 0 (tasks st') 8 \<le> 0 \<and> data (tasks st' 8) = 7"
proof -
  have now: "ticks_ms demo_asleep = 0"
    by (simp add: demo_asleep_def demo_idle_def task_queue_push_def upd_task_def Let_def split: prod.split)
  have nd: "\<not> TASK_IS_DONE demo_env (tasks demo_asleep 8)"
    by (simp add: demo_asleep_ok(2) TASK_IS_DONE_def TASK_STATE_DONE_NOT_WAITED_ON_def TASK_STATE_DONE_WAS_WAITED_ON_def demo_env_def)
  have w: "waits_on demo_env demo_asleep 8 = Some 8"
    by (subst waits_on.simps) (simp add: demo_env_def)
  have E: "cur_task demo_env = Some 16" "main_queue demo_env = Some 100" "CancelledError demo_env = Some 7"
    by (simp_all add: demo_env_def)
  have q: "cancel_place demo_env {100} (\<lambda>q. if q = 100 then [8] else []) 100 8 demo_asleep"
    by (simp add: cancel_place_def demo_asleep_ok(2) demo_env_def)
  have r: "\<not> runs_now demo_env {100} (\<lambda>q. if q = 100 then [8] else []) 8 demo_asleep" by (simp add: runs_now_def in_no_queue_def)
  show ?thesis
    using task_cancel_schedules [OF demo_asleep_ok(1) nd E(1) _ w _ E(2) _ E(3) q] r unfolding now by auto
qed

end
