(* ===== verification/Timeutils.thy ===== *)
theory Timeutils
  imports Prelude "HOL-Library.Signed_Division"
begin

text \<open>
  Dates, \<open>shared/timeutils/timeutils.c\<close>, as the port configures them
  (\<open>MICROPY_TIME_SUPPORT_Y1969_AND_BEFORE\<close>): times are signed 64-bit numbers of seconds since 1970 and the
  Gregorian leap years are computed from 1600 on.  A signed machine integer is its value, and
  \<open>mp_int\<close> brings the result of an operation back into 32 bits.  \<open>None\<close> is an access outside a table.
\<close>

section \<open>The code\<close>

type_synonym i64 = "64 word"

definition mp_int :: "int \<Rightarrow> int" where
  "mp_int a = sint (word_of_int a :: u32)"

definition PREV_LEAP_DAY :: u32 where "PREV_LEAP_DAY = 365 + 366 - (31 + 29)"
definition QC_BASE_DAY :: int where "QC_BASE_DAY = 134409"
definition QC_LEAP_YEAR :: u32 where "QC_LEAP_YEAR = 1600"
definition QC_LEAP_DAYS :: i64 where "QC_LEAP_DAYS = 89"
definition DAYS_PER_400Y :: int where "DAYS_PER_400Y = 365 * 400 + 97"
definition DAYS_PER_100Y :: int where "DAYS_PER_100Y = 365 * 100 + 24"
definition DAYS_PER_4Y :: int where "DAYS_PER_4Y = 365 * 4 + 1"

definition TIMEUTILS_SECONDS_1970_TO_2000 :: i64 where "TIMEUTILS_SECONDS_1970_TO_2000 = 946684800"

definition days_since_jan1 :: "u32 \<Rightarrow> u32 option" where
  "days_since_jan1 i =
     (let table = [0, 31, 59, 90, 120, 151, 181, 212, 243, 273, 304, 334, 365]
      in if unat i < length table then Some (table ! unat i) else None)"

definition timeutils_is_leap_year :: "u32 \<Rightarrow> bool" where
  "timeutils_is_leap_year year \<longleftrightarrow> (year mod 4 = 0 \<and> year mod 100 \<noteq> 0) \<or> year mod 400 = 0"

definition timeutils_days_in_month :: "u32 \<Rightarrow> u32 \<Rightarrow> u32 option" where
  "timeutils_days_in_month year month =
     do {
       a \<leftarrow> days_since_jan1 month;
       b \<leftarrow> days_since_jan1 (month - 1);
       let mdays = a - b;
       Some (if month = 2 \<and> timeutils_is_leap_year year then mdays + 1 else mdays)
     }"

definition timeutils_year_day :: "u32 \<Rightarrow> u32 \<Rightarrow> u32 \<Rightarrow> u32 option" where
  "timeutils_year_day year month date =
     do {
       a \<leftarrow> days_since_jan1 (month - 1);
       let yday = a + date;
       Some (if month \<ge> 3 \<and> timeutils_is_leap_year year then yday + 1 else yday)
     }"

record timeutils_struct_time_t =
  tm_year :: u16
  tm_mon :: u8
  tm_mday :: u8
  tm_hour :: u8
  tm_min :: u8
  tm_sec :: u8
  tm_wday :: u8
  tm_yday :: u16

text \<open>The months from March on; the result is the month and the days left.\<close>

definition month_lengths :: "int list" where
  "month_lengths = [31, 30, 31, 30, 31, 31, 30, 31, 30, 31, 31, 29]"

fun month_loop :: "int list \<Rightarrow> nat \<Rightarrow> int \<Rightarrow> (nat \<times> int) option" where
  "month_loop [] month days = None"
| "month_loop (n # ns) month days = (if n \<le> days then month_loop ns (month + 1) (days - n) else Some (month, days))"

definition timeutils_seconds_since_1970_to_struct_time :: "i64 \<Rightarrow> timeutils_struct_time_t option" where
  "timeutils_seconds_since_1970_to_struct_time t =
     (let days0 = mp_int (sint t sdiv 86400);
          seconds0 = sint t smod 86400;
          (days1, seconds) = (if seconds0 < 0 then (mp_int (days0 - 1), seconds0 + 86400) else (days0, seconds0));
          wday0 = mp_int (days1 + 3) smod 7;
          wday = (if wday0 < 0 then wday0 + 7 else wday0);
          days2 = mp_int (days1 + uint PREV_LEAP_DAY);
          days3 = mp_int (days2 + QC_BASE_DAY);
          qc_cycles = (word_of_int (days3 sdiv DAYS_PER_400Y) :: u32);
          days4 = days3 smod DAYS_PER_400Y;
          c0 = (word_of_int (days4 sdiv DAYS_PER_100Y) :: u32);
          c_cycles = (if c0 = 4 then c0 - 1 else c0);
          days5 = mp_int (days4 - uint (c_cycles * word_of_int DAYS_PER_100Y));
          q0 = (word_of_int (days5 sdiv DAYS_PER_4Y) :: u32);
          q_cycles = (if q0 = 25 then q0 - 1 else q0);
          days6 = mp_int (days5 - uint (q_cycles * word_of_int DAYS_PER_4Y));
          years0 = days6 sdiv 365;
          years = (if years0 = 4 then years0 - 1 else years0);
          days7 = mp_int (days6 - years * 365);
          year = (ucast (QC_LEAP_YEAR + word_of_int years + 4 * q_cycles + 100 * c_cycles + 400 * qc_cycles) :: u16)
      in do {
           (month, days) \<leftarrow> month_loop month_lengths 0 days7;
           let mon0 = (of_nat (month + 2) :: u8);
           let mon = (if mon0 \<ge> 12 then mon0 - 12 else mon0) + 1;
           let year1 = (if mon0 \<ge> 12 then year + 1 else year);
           let mday = (word_of_int (days + 1) :: u8);
           yday \<leftarrow> timeutils_year_day (ucast year1) (ucast mon) (ucast mday);
           Some \<lparr>tm_year = year1, tm_mon = mon, tm_mday = mday, tm_hour = word_of_int (seconds sdiv 3600),
                 tm_min = word_of_int (seconds sdiv 60 smod 60), tm_sec = word_of_int (seconds smod 60),
                 tm_wday = word_of_int wday, tm_yday = ucast yday\<rparr>
         })"

definition timeutils_seconds_since_1970 :: "u32 \<Rightarrow> u32 \<Rightarrow> u32 \<Rightarrow> u32 \<Rightarrow> u32 \<Rightarrow> u32 \<Rightarrow> i64 option" where
  "timeutils_seconds_since_1970 year month date hour minute second =
     do {
       yday \<leftarrow> timeutils_year_day year month date;
       let since = year - (QC_LEAP_YEAR + 1);
       let res = (word_of_int (mp_int (mp_int (sint year - 1970) * 365)) :: i64);
       let res = res + ucast (since div 4) - ucast (since div 100) + ucast (since div 400) - QC_LEAP_DAYS;
       let res = res + ucast (yday - 1);
       Some (res * 86400 + ucast (hour * 3600 + minute * 60 + second))
     }"

text \<open>Normalising a field into the range from 0 below \<open>k\<close>, with a carry.\<close>

definition carry_field :: "int \<Rightarrow> int \<Rightarrow> int \<Rightarrow> int \<times> int" where
  "carry_field high low k =
     (let high1 = mp_int (high + low sdiv k);
          low1 = low smod k
      in if low1 < 0 then (mp_int (high1 - 1), low1 + k) else (high1, low1))"

text \<open>The loops that move the day into its month.\<close>

partial_function (option) back_months :: "u32 \<Rightarrow> int \<Rightarrow> int \<Rightarrow> (u32 \<times> int \<times> int) option option" where
  "back_months year month mday =
     (if mday < 1 then
        (let month1 = month - 1;
             month2 = (if month1 = 0 then 12 else month1);
             year1 = (if month1 = 0 then year - 1 else year)
         in case timeutils_days_in_month year1 (word_of_int month2) of
              None \<Rightarrow> Some None
            | Some n \<Rightarrow> back_months year1 month2 (mp_int (mday + uint n)))
      else Some (Some (year, month, mday)))"

partial_function (option) on_months :: "u32 \<Rightarrow> int \<Rightarrow> int \<Rightarrow> (u32 \<times> int \<times> int) option option" where
  "on_months year month mday =
     (case timeutils_days_in_month year (word_of_int month) of
        None \<Rightarrow> Some None
      | Some n \<Rightarrow>
          if (word_of_int mday :: u32) > n then
            (if month + 1 = 13 then on_months (year + 1) 1 (mp_int (mday - uint n))
             else on_months year (month + 1) (mp_int (mday - uint n)))
          else Some (Some (year, month, mday)))"

text \<open>\<open>None\<close> at the outside is a loop that does not end.\<close>

definition timeutils_mktime_1970 :: "u32 \<Rightarrow> int \<Rightarrow> int \<Rightarrow> int \<Rightarrow> int \<Rightarrow> int \<Rightarrow> i64 option option" where
  "timeutils_mktime_1970 year month mday hours minutes seconds =
     (let (minutes1, seconds1) = carry_field minutes seconds 60;
          (hours1, minutes2) = carry_field hours minutes1 60;
          (mday1, hours2) = carry_field mday hours1 24;
          month1 = mp_int (month - 1);
          year1 = year + word_of_int (month1 sdiv 12);
          month2 = month1 smod 12;
          (month3, year2) = (if month2 < 0 then (month2 + 12, year1 - 1) else (month2, year1))
      in case back_months year2 (month3 + 1) mday1 of
           None \<Rightarrow> None
         | Some None \<Rightarrow> Some None
         | Some (Some (y, m, d)) \<Rightarrow>
             (case on_months y m d of
                None \<Rightarrow> None
              | Some None \<Rightarrow> Some None
              | Some (Some (y, m, d)) \<Rightarrow>
                  Some (timeutils_seconds_since_1970 y (word_of_int m) (word_of_int d) (word_of_int hours2) (word_of_int minutes2)
                    (word_of_int seconds1))))"

definition timeutils_calc_weekday :: "int \<Rightarrow> int \<Rightarrow> int \<Rightarrow> int" where
  "timeutils_calc_weekday y0 m d0 =
     (let d = d0 + (if m < 3 then y0 else y0 - 2);
          y = (if m < 3 then y0 - 1 else y0)
      in (((23 * m) sdiv 9 + d + 4 + y sdiv 4 - y sdiv 100 + y sdiv 400) + 6) smod 7)"

section \<open>The epoch of the port, 2000\<close>

definition timeutils_seconds_since_2000_to_struct_time :: "i64 \<Rightarrow> timeutils_struct_time_t option" where
  "timeutils_seconds_since_2000_to_struct_time t =
     timeutils_seconds_since_1970_to_struct_time (t + TIMEUTILS_SECONDS_1970_TO_2000)"

definition timeutils_seconds_since_2000 :: "u32 \<Rightarrow> u32 \<Rightarrow> u32 \<Rightarrow> u32 \<Rightarrow> u32 \<Rightarrow> u32 \<Rightarrow> i64 option" where
  "timeutils_seconds_since_2000 year month date hour minute second =
     map_option (\<lambda>s. s - TIMEUTILS_SECONDS_1970_TO_2000) (timeutils_seconds_since_1970 year month date hour minute second)"

definition timeutils_mktime_2000 :: "u32 \<Rightarrow> int \<Rightarrow> int \<Rightarrow> int \<Rightarrow> int \<Rightarrow> int \<Rightarrow> i64 option option" where
  "timeutils_mktime_2000 year month mday hours minutes seconds =
     map_option (map_option (\<lambda>s. s - TIMEUTILS_SECONDS_1970_TO_2000))
       (timeutils_mktime_1970 year month mday hours minutes seconds)"

definition timeutils_seconds_since_epoch_from_nanoseconds_since_1970 :: "i64 \<Rightarrow> i64" where
  "timeutils_seconds_since_epoch_from_nanoseconds_since_1970 ns =
     word_of_int (sint ns sdiv 1000000000) - TIMEUTILS_SECONDS_1970_TO_2000"

definition timeutils_seconds_since_epoch_to_nanoseconds_since_1970 :: "i64 \<Rightarrow> i64" where
  "timeutils_seconds_since_epoch_to_nanoseconds_since_1970 s = (s + TIMEUTILS_SECONDS_1970_TO_2000) * 1000000000"

definition timeutils_nanoseconds_since_epoch_to_nanoseconds_since_1970 :: "i64 \<Rightarrow> i64" where
  "timeutils_nanoseconds_since_epoch_to_nanoseconds_since_1970 ns = ns + TIMEUTILS_SECONDS_1970_TO_2000 * 1000000000"

section \<open>The module \<open>time\<close>, \<open>extmod/modtime.c\<close>\<close>

text \<open>The elements of a tuple are the integers that \<open>mp_obj_get_int\<close> reads from them.\<close>

datatype time_error = MktimeLength

definition time_localtime :: "i64 \<Rightarrow> int list option" where
  "time_localtime seconds =
     map_option (\<lambda>tm. [uint (tm_year tm), uint (tm_mon tm), uint (tm_mday tm), uint (tm_hour tm), uint (tm_min tm), uint (tm_sec tm),
         uint (tm_wday tm), uint (tm_yday tm)])
       (timeutils_seconds_since_2000_to_struct_time seconds)"

definition time_mktime :: "int list \<Rightarrow> time_error + i64 option option" where
  "time_mktime elem =
     (if length elem < 8 \<or> length elem > 9 then Inl MktimeLength
      else Inr (timeutils_mktime_2000 (word_of_int (elem ! 0)) (elem ! 1) (elem ! 2) (elem ! 3) (elem ! 4) (elem ! 5)))"

end
