(* ===== verification/TimeCorrect.thy ===== *)
theory TimeCorrect
  imports Timeutils
begin

text \<open>
  The calendar: the day after a day, by the Gregorian rule, is the reference.  The code computes the
  number of a day and, the other way, the date of a number; both are shown on integers first.
\<close>

section \<open>The calendar\<close>

definition leap_year :: "int \<Rightarrow> bool" where
  "leap_year y \<longleftrightarrow> 4 dvd y \<and> (\<not> 100 dvd y \<or> 400 dvd y)"

definition month_len :: "bool \<Rightarrow> nat \<Rightarrow> nat" where
  "month_len leap m = (if m = 2 then (if leap then 29 else 28) else if m = 4 \<or> m = 6 \<or> m = 9 \<or> m = 11 then 30 else 31)"

type_synonym date = "int \<times> nat \<times> nat"

definition next_day :: "date \<Rightarrow> date" where
  "next_day = (\<lambda>(y, m, d).
     if d < month_len (leap_year y) m then (y, m, d + 1) else if m < 12 then (y, m + 1, 1) else (y + 1, 1, 1))"

definition valid_date :: "date \<Rightarrow> bool" where
  "valid_date = (\<lambda>(y, m, d). 1 \<le> m \<and> m \<le> 12 \<and> 1 \<le> d \<and> d \<le> month_len (leap_year y) m)"

text \<open>Days of the year in front of a month, and the number of a day since 1970.\<close>

definition days_before :: "bool \<Rightarrow> nat \<Rightarrow> nat" where
  "days_before leap m = sum_list (map (month_len leap) [1..<m])"

definition year_start :: "int \<Rightarrow> int" where
  "year_start y = (y - 1970) * 365 + (y - 1601) div 4 - (y - 1601) div 100 + (y - 1601) div 400 - 89"

definition day_number :: "date \<Rightarrow> int" where
  "day_number = (\<lambda>(y, m, d). year_start y + int (days_before (leap_year y) m) + int d - 1)"

lemma month_cases:
  fixes m :: nat
  assumes "1 \<le> m" "m \<le> 12"
  shows "m = 1 \<or> m = 2 \<or> m = 3 \<or> m = 4 \<or> m = 5 \<or> m = 6 \<or> m = 7 \<or> m = 8 \<or> m = 9 \<or> m = 10 \<or> m = 11 \<or> m = 12"
  using assms by presburger

lemma days_before_simps [simp]:
  "days_before l 1 = 0" "days_before l (Suc 0) = 0" "days_before l 2 = 31" "days_before l 3 = (if l then 60 else 59)"
  "days_before l 4 = (if l then 91 else 90)" "days_before l 5 = (if l then 121 else 120)" "days_before l 6 = (if l then 152 else 151)"
  "days_before l 7 = (if l then 182 else 181)" "days_before l 8 = (if l then 213 else 212)" "days_before l 9 = (if l then 244 else 243)"
  "days_before l 10 = (if l then 274 else 273)" "days_before l 11 = (if l then 305 else 304)" "days_before l 12 = (if l then 335 else 334)"
  "days_before l 13 = (if l then 366 else 365)"
  by (simp_all add: days_before_def month_len_def upt_rec)

lemma days_before_Suc: "1 \<le> m \<Longrightarrow> days_before l (Suc m) = days_before l m + month_len l m"
  by (simp add: days_before_def)

lemma days_before_mono: "1 \<le> m \<Longrightarrow> m \<le> m' \<Longrightarrow> days_before l m \<le> days_before l m'"
proof (induction m' rule: nat_induct)
  case (Suc m')
  then show ?case by (cases "m = Suc m'") (simp_all add: days_before_Suc)
qed simp

lemma div_next:
  fixes x n :: int
  assumes "0 < n"
  shows "x div n = (x - 1) div n + (if n dvd x then 1 else 0)"
proof (cases "n dvd x")
  case True
  then obtain k where x: "x = n * k" by (elim dvdE)
  have "(x - 1) div n = k - 1" by (rule int_div_pos_eq [of _ _ _ "n - 1"]) (use assms in \<open>simp_all add: x algebra_simps\<close>)
  then show ?thesis using True assms by (simp add: x)
next
  case False
  have r: "x = n * (x div n) + x mod n" "0 \<le> x mod n" "x mod n < n" using assms by simp_all
  have "x mod n \<noteq> 0" using False by (simp add: dvd_eq_mod_eq_0)
  then have "(x - 1) div n = x div n" by (intro int_div_pos_eq [of _ _ _ "x mod n - 1"]) (use r in linarith)+
  then show ?thesis using False by simp
qed

text \<open>Years from March: the days from 1 March 1600 to 1 March of a year.\<close>

definition march_start :: "int \<Rightarrow> int" where
  "march_start y = 365 * y + y div 4 - y div 100 + y div 400"

lemma leap_since_1600: "leap_year y \<longleftrightarrow> 4 dvd (y - 1600) \<and> (\<not> 100 dvd (y - 1600) \<or> 400 dvd (y - 1600))"
proof -
  have "(k dvd y - 1600) = (k dvd y)" if "k dvd 1600" for k :: int using that dvd_diff_commute dvd_diff_left_iff by blast
  then show ?thesis by (simp add: leap_year_def)
qed

lemma leap_sum:
  "(b \<longrightarrow> a) \<and> (c \<longrightarrow> b) \<Longrightarrow> l = (a \<and> (\<not> b \<or> c)) \<Longrightarrow>
   (if l then 1 else 0) = (if a then 1 else 0) - (if b then 1 else 0) + (if c then 1 else (0 :: int))"
  by (cases a; cases b; cases c; simp)

lemma start_sum:
  fixes a b c d e f k s m :: int
  assumes "a - b + c + (if l then 1 else 0) = d - e + f" "s = (k - 370) * 365 + a - b + c - 89" "m = 365 * k + d - e + f"
  shows "s + (if l then 60 else 59) = m - 135080"
  using assms by (cases l) simp_all

lemma year_start_march: "year_start y + (if leap_year y then 60 else 59) = march_start (y - 1600) - 135080"
proof -
  define k where "k = y - 1600"
  have y: "y = 1600 + k" by (simp add: k_def)
  have d: "k div 4 = (k - 1) div 4 + (if 4 dvd k then 1 else 0)" "k div 100 = (k - 1) div 100 + (if 100 dvd k then 1 else 0)"
    "k div 400 = (k - 1) div 400 + (if 400 dvd k then 1 else 0)" by (rule div_next, simp)+
  have "(100 dvd k \<longrightarrow> 4 dvd k) \<and> (400 dvd k \<longrightarrow> 100 dvd k)" using dvd_trans [of 4 100 k] dvd_trans [of 100 400 k] by simp
  moreover have "leap_year y \<longleftrightarrow> 4 dvd k \<and> (\<not> 100 dvd k \<or> 400 dvd k)" using leap_since_1600 [of y] by (simp add: k_def)
  ultimately have "(if leap_year y then 1 else 0) = (if 4 dvd k then 1 else 0) - (if 100 dvd k then 1 else 0) + (if 400 dvd k then 1 else (0 :: int))"
    by (rule leap_sum)
  then have "(k - 1) div 4 - (k - 1) div 100 + (k - 1) div 400 + (if leap_year y then 1 else 0) = k div 4 - k div 100 + k div 400"
    unfolding d by linarith
  moreover have "year_start y = (k - 370) * 365 + (k - 1) div 4 - (k - 1) div 100 + (k - 1) div 400 - 89" by (simp add: year_start_def y)
  moreover have "march_start (y - 1600) = 365 * k + k div 4 - k div 100 + k div 400" by (simp add: march_start_def y)
  ultimately show ?thesis by (rule start_sum)
qed

lemma year_start_march_next: "year_start (y + 1) = march_start (y - 1600) - 134774"
  by (simp add: year_start_def march_start_def)

lemma year_start_Suc: "year_start (y + 1) = year_start y + (if leap_year y then 366 else 365)"
  using year_start_march [of y] year_start_march_next [of y] by (simp split: if_splits)

lemma next_day_number:
  assumes "valid_date x"
  shows "valid_date (next_day x)" "day_number (next_day x) = day_number x + 1"
proof -
  obtain y m d where x: "x = (y, m, d)" by (cases x)
  have v: "1 \<le> m" "m \<le> 12" "1 \<le> d" "d \<le> month_len (leap_year y) m" using assms by (simp_all add: x valid_date_def)
  have pos: "1 \<le> month_len l k" for l k by (simp add: month_len_def)
  have "valid_date (next_day x) \<and> day_number (next_day x) = day_number x + 1"
  proof (cases "d < month_len (leap_year y) m")
    case True
    then show ?thesis using v by (simp add: x next_day_def valid_date_def day_number_def)
  next
    case False
    then have d: "d = month_len (leap_year y) m" using v by simp
    show ?thesis
    proof (cases "m < 12")
      case True
      then show ?thesis using v d pos [of _ "Suc m"] by (simp add: x next_day_def valid_date_def day_number_def days_before_Suc)
    next
      case False
      then have m: "m = 12" using v by simp
      show ?thesis using v d m pos by (simp add: x next_day_def valid_date_def day_number_def month_len_def year_start_Suc)
    qed
  qed
  then show "valid_date (next_day x)" "day_number (next_day x) = day_number x + 1" by simp_all
qed

text \<open>The number determines the date.\<close>

lemma year_start_mono: "y \<le> y' \<Longrightarrow> year_start y \<le> year_start y'"
proof (induction y' rule: int_ge_induct)
  case (step y')
  then show ?case by (simp add: year_start_Suc)
qed simp

lemma day_in_slots:
  assumes "valid_date (y, m, d)"
  shows "day_number (y, m, d) = year_start y + int (days_before (leap_year y) m + (d - 1))"
    "days_before (leap_year y) m + (d - 1) < days_before (leap_year y) (Suc m)" "year_start y \<le> day_number (y, m, d)"
    "day_number (y, m, d) < year_start (y + 1)"
proof -
  have v: "1 \<le> m" "m \<le> 12" "1 \<le> d" "d \<le> month_len (leap_year y) m" using assms by (simp_all add: valid_date_def)
  show n: "day_number (y, m, d) = year_start y + int (days_before (leap_year y) m + (d - 1))" using v by (simp add: day_number_def)
  show s: "days_before (leap_year y) m + (d - 1) < days_before (leap_year y) (Suc m)" using v by (simp add: days_before_Suc)
  have "days_before (leap_year y) (Suc m) \<le> days_before (leap_year y) 13" using v by (intro days_before_mono) simp_all
  then show "year_start y \<le> day_number (y, m, d)" "day_number (y, m, d) < year_start (y + 1)"
    using s unfolding n year_start_Suc by (simp_all split: if_splits)
qed

lemma day_number_inj:
  assumes "valid_date x" "valid_date x'" "day_number x = day_number x'"
  shows "x = x'"
proof -
  obtain y m d where x: "x = (y, m, d)" by (cases x)
  obtain y' m' d' where x': "x' = (y', m', d')" by (cases x')
  note s = day_in_slots [OF assms(1) [unfolded x]] day_in_slots [OF assms(2) [unfolded x']]
  have v: "1 \<le> m" "1 \<le> d" "1 \<le> m'" "1 \<le> d'" using assms(1,2) by (simp_all add: x x' valid_date_def)
  have n: "day_number (y, m, d) = day_number (y', m', d')" using assms(3) x x' by simp
  have "\<not> y + 1 \<le> y'" using year_start_mono [of "y + 1" y'] s(4,7) n by linarith
  moreover have "\<not> y' + 1 \<le> y" using year_start_mono [of "y' + 1" y] s(3,8) n by linarith
  ultimately have y: "y = y'" by simp
  have e: "days_before (leap_year y) m + (d - 1) = days_before (leap_year y) m' + (d' - 1)" using s(1,5) n unfolding y by simp
  have "\<not> Suc m \<le> m'"
  proof
    assume "Suc m \<le> m'"
    then show False using days_before_mono [of "Suc m" m' "leap_year y"] s(2) e by simp
  qed
  moreover have "\<not> Suc m' \<le> m"
  proof
    assume "Suc m' \<le> m"
    then show False using days_before_mono [of "Suc m'" m "leap_year y"] s(6) [folded y] e by simp
  qed
  ultimately have m: "m = m'" by simp
  show ?thesis using e v unfolding x x' y m by simp
qed

lemma days_after:
  "valid_date x \<Longrightarrow> valid_date ((next_day ^^ n) x) \<and> day_number ((next_day ^^ n) x) = day_number x + int n"
proof (induction n)
  case (Suc n)
  then show ?case using next_day_number [of "(next_day ^^ n) x"] by simp
qed simp

section \<open>From the number of a day to its date\<close>

lemma month_loop_ok:
  "0 \<le> days \<Longrightarrow> days < sum_list ns \<Longrightarrow> \<exists>k e. month_loop ns month days = Some (month + k, e) \<and> k < length ns \<and>
     sum_list (take k ns) + e = days \<and> 0 \<le> e \<and> e < ns ! k"
proof (induction ns arbitrary: month days)
  case (Cons n ns)
  show ?case
  proof (cases "n \<le> days")
    case True
    have "0 \<le> days - n" "days - n < sum_list ns" using Cons.prems True by simp_all
    from Cons.IH [OF this, of "month + 1"] obtain k e where K: "month_loop ns (month + 1) (days - n) = Some (month + 1 + k, e)" "k < length ns"
      "sum_list (take k ns) + e = days - n" "0 \<le> e" "e < ns ! k" by blast
    then show ?thesis using True by (intro exI [of _ "Suc k"] exI [of _ e]) simp
  qed (use Cons.prems in auto)
qed simp

text \<open>Four hundred, one hundred, four and one year from March 1600.\<close>

definition capped :: "int \<Rightarrow> int \<Rightarrow> int \<Rightarrow> int" where
  "capped n m r = (if r div n = m + 1 then m else r div n)"

definition cycles :: "int \<Rightarrow> int \<times> int \<times> int \<times> int \<times> int" where
  "cycles n =
     (let qc = n div 146097; r = n mod 146097;
          c = capped 36524 3 r; r = r - c * 36524;
          q = capped 1461 24 r; r = r - q * 1461;
          yr = capped 365 3 r
      in (qc, c, q, yr, r - yr * 365))"

definition civil :: "int \<Rightarrow> date" where
  "civil n =
     (let (qc, c, q, yr, d) = cycles n; y = 1600 + yr + 4 * q + 100 * c + 400 * qc;
          (k, e) = the (month_loop month_lengths 0 d)
      in if k < 10 then (y, k + 3, nat e + 1) else (y + 1, k - 9, nat e + 1))"

lemma capped_div:
  fixes r n m :: int
  assumes "0 < n" "0 \<le> r" "r < (m + 2) * n" "0 \<le> m" "x = capped n m r"
  shows "0 \<le> x" "x \<le> m" "x * n \<le> r" "x = m \<or> r < (x + 1) * n"
proof -
  have r: "r = (r div n) * n + r mod n" "0 \<le> r mod n" "r mod n < n" "0 \<le> r div n" using assms(1,2) by (simp_all add: pos_imp_zdiv_nonneg_iff)
  have "r div n < m + 2"
  proof (rule ccontr)
    assume "\<not> ?thesis"
    then have "(m + 2) * n \<le> (r div n) * n" using assms(1) by (intro mult_right_mono) simp_all
    then show False using r assms(3) by linarith
  qed
  then show "0 \<le> x" "x \<le> m" using r(4) assms(4,5) by (simp_all add: capped_def)
  show "x * n \<le> r"
  proof -
    have "x * n \<le> (r div n) * n" using assms(1,5) by (intro mult_right_mono) (simp_all add: capped_def)
    then show ?thesis using r by linarith
  qed
  show "x = m \<or> r < (x + 1) * n"
  proof (cases "x = m")
    case False
    then have "x = r div n" using assms(5) by (simp add: capped_def split: if_splits)
    moreover have "r < (r div n) * n + n" using r(1,3) by linarith
    ultimately show ?thesis by (simp only: distrib_right mult_1_left simp_thms)
  qed simp
qed

lemma cycles_ok:
  assumes "0 \<le> n" "cycles n = (qc, c, q, yr, d)"
  shows "n = 146097 * qc + 36524 * c + 1461 * q + 365 * yr + d" "0 \<le> qc" "0 \<le> c" "c \<le> 3" "0 \<le> q" "q \<le> 24" "0 \<le> yr" "yr \<le> 3"
    "0 \<le> d" "d \<le> 365" "d = 365 \<Longrightarrow> yr = 3 \<and> (q \<noteq> 24 \<or> c = 3)"
proof -
  define r1 r2 r3 where r: "r1 = n mod 146097" "r2 = r1 - c * 36524" "r3 = r2 - q * 1461"
  have e: "qc = n div 146097" "c = capped 36524 3 r1" "q = capped 1461 24 r2" "yr = capped 365 3 r3" "d = r3 - yr * 365"
    using assms(2) unfolding cycles_def Let_def prod.inject r by blast+
  have 1: "n = 146097 * qc + r1" "0 \<le> r1" "r1 \<le> 146096" unfolding e(1) r(1) by simp_all
  have c: "0 \<le> c" "c \<le> 3" "c * 36524 \<le> r1" "c = 3 \<or> r1 < (c + 1) * 36524"
    using capped_div [of 36524 r1 3 c] 1 e(2) by simp_all
  have "c = 3 \<or> r2 \<le> 36523" using c(4) unfolding r(2) by auto
  moreover have "c = 3 \<Longrightarrow> r2 \<le> 36524" using 1(3) unfolding r(2) by linarith
  moreover have "0 \<le> r2" using c(3) unfolding r(2) by linarith
  ultimately have 2: "0 \<le> r2" "r2 \<le> 36524" "c = 3 \<or> r2 \<le> 36523" by auto
  have q: "0 \<le> q" "q \<le> 24" "q * 1461 \<le> r2" "q = 24 \<or> r2 < (q + 1) * 1461"
    using capped_div [of 1461 r2 24 q] 2 e(3) by simp_all
  have "q = 24 \<or> r3 \<le> 1460" using q(4) unfolding r(3) by auto
  moreover have "q = 24 \<Longrightarrow> r3 \<le> 1460" "q = 24 \<Longrightarrow> r2 \<le> 36523 \<Longrightarrow> r3 \<le> 1459" using 2(2) unfolding r(3) by linarith+
  moreover have "0 \<le> r3" using q(3) unfolding r(3) by linarith
  ultimately have 3: "0 \<le> r3" "r3 \<le> 1460" "q \<noteq> 24 \<or> c = 3 \<or> r3 \<le> 1459" using 2(3) by blast+
  have y: "0 \<le> yr" "yr \<le> 3" "yr * 365 \<le> r3" "yr = 3 \<or> r3 < (yr + 1) * 365"
    using capped_div [of 365 r3 3 yr] 3 e(4) by simp_all
  have "yr = 3 \<or> d \<le> 364" using y(4) unfolding e(5) by auto
  moreover have "yr = 3 \<Longrightarrow> d \<le> 365" "yr = 3 \<Longrightarrow> r3 \<le> 1459 \<Longrightarrow> d \<le> 364" using 3(2) unfolding e(5) by linarith+
  moreover have "0 \<le> d" using y(3) unfolding e(5) by linarith
  ultimately have 4: "0 \<le> d" "d \<le> 365" "yr = 3 \<or> d \<le> 364" "yr = 3 \<Longrightarrow> r3 \<le> 1459 \<Longrightarrow> d \<le> 364" by auto
  show "n = 146097 * qc + 36524 * c + 1461 * q + 365 * yr + d" using 1(1) r(2,3) e(5) by simp
  show "0 \<le> qc" using assms(1) e(1) by simp
  show "0 \<le> c" "c \<le> 3" "0 \<le> q" "q \<le> 24" "0 \<le> yr" "yr \<le> 3" "0 \<le> d" "d \<le> 365" using c q y 4 by simp_all
  show "d = 365 \<Longrightarrow> yr = 3 \<and> (q \<noteq> 24 \<or> c = 3)" using 3(3) 4(3,4) by auto
qed

lemma cycles_march:
  assumes "0 \<le> c" "c \<le> 3" "0 \<le> q" "q \<le> 24" "0 \<le> yr" "yr \<le> 3" "y = yr + 4 * q + 100 * c + 400 * qc"
  shows "march_start y = 146097 * qc + 36524 * c + 1461 * q + 365 * yr" "yr = 3 \<Longrightarrow> q \<noteq> 24 \<or> c = 3 \<Longrightarrow> leap_year (1600 + y + 1)"
proof -
  have "y div 4 = q + 25 * c + 100 * qc" by (rule int_div_pos_eq [of _ _ _ yr]) (use assms in simp_all)
  moreover have "y div 100 = c + 4 * qc" by (rule int_div_pos_eq [of _ _ _ "yr + 4 * q"]) (use assms in simp_all)
  moreover have "y div 400 = qc" by (rule int_div_pos_eq [of _ _ _ "yr + 4 * q + 100 * c"]) (use assms in simp_all)
  ultimately show "march_start y = 146097 * qc + 36524 * c + 1461 * q + 365 * yr" by (simp add: march_start_def assms(7))
  assume l: "yr = 3" "q \<noteq> 24 \<or> c = 3"
  have 4: "4 dvd y + 1" using l(1) unfolding assms(7) by presburger
  have "\<not> 100 dvd y + 1 \<or> 400 dvd y + 1"
  proof (cases "q = 24")
    case True
    then have "y + 1 = 400 * (qc + 1)" using l unfolding assms(7) by simp
    then show ?thesis by simp
  next
    case False
    have "(y + 1) mod 100 = 4 * (q + 1)" by (rule int_mod_pos_eq [of _ _ "c + 4 * qc"]) (use assms False l(1) in simp_all)
    then show ?thesis using assms(3) by (simp add: dvd_eq_mod_eq_0)
  qed
  then show "leap_year (1600 + y + 1)" using 4 leap_since_1600 [of "1600 + y + 1"] by (simp add: algebra_simps)
qed

lemma month_shift:
  "k < 10 \<Longrightarrow> int (days_before l (k + 3)) = sum_list (take k month_lengths) + 59 + (if l then 1 else 0) \<and>
     month_lengths ! k = int (month_len l (k + 3))"
proof -
  assume "k < 10"
  then have "k = 0 \<or> k = 1 \<or> k = 2 \<or> k = 3 \<or> k = 4 \<or> k = 5 \<or> k = 6 \<or> k = 7 \<or> k = 8 \<or> k = 9" by presburger
  then show ?thesis by (elim disjE) (simp_all add: month_lengths_def month_len_def)
qed

lemma civil_ok:
  assumes "0 \<le> n"
  shows "valid_date (civil n) \<and> day_number (civil n) = n - 135080"
proof -
  obtain qc c q yr d where C: "cycles n = (qc, c, q, yr, d)" by (metis prod_cases5)
  note c = cycles_ok [OF assms C]
  define z where "z = yr + 4 * q + 100 * c + 400 * qc"
  note m = cycles_march [OF c(3-8) z_def]
  have ms: "march_start z = n - d" using m(1) c(1) by simp
  have "d < sum_list month_lengths" using c(10) by (simp add: month_lengths_def)
  from month_loop_ok [OF c(9) this, of 0] obtain k e where K: "month_loop month_lengths 0 d = Some (k, e)" "k < 12"
    "sum_list (take k month_lengths) + e = d" "0 \<le> e" "e < month_lengths ! k" by (auto simp: month_lengths_def)
  have civ: "civil n = (if k < 10 then (1600 + z, k + 3, nat e + 1) else (1600 + z + 1, k - 9, nat e + 1))"
    unfolding civil_def Let_def C prod.case K(1) z_def by (simp add: algebra_simps)
  show ?thesis
  proof (cases "k < 10")
    case True
    let ?l = "leap_year (1600 + z)"
    note s = month_shift [OF True, of ?l]
    have "day_number (1600 + z, k + 3, nat e + 1) = year_start (1600 + z) + int (days_before ?l (k + 3)) + e"
      using K(4) by (simp add: day_number_def)
    then have "day_number (1600 + z, k + 3, nat e + 1) = n - 135080"
      using s year_start_march [of "1600 + z"] K(3) ms by (simp split: if_splits)
    moreover have "valid_date (1600 + z, k + 3, nat e + 1)" using s K(4,5) True by (simp add: valid_date_def nat_less_iff Suc_le_eq)
    ultimately show ?thesis using True civ by simp
  next
    case False
    let ?l = "leap_year (1600 + z + 1)"
    have k: "k = 10 \<or> k = 11" using K(2) False by presburger
    have s: "int (days_before ?l (k - 9)) + 306 = sum_list (take k month_lengths)" using k by (elim disjE) (simp_all add: month_lengths_def)
    have "day_number (1600 + z + 1, k - 9, nat e + 1) = year_start (1600 + z + 1) + int (days_before ?l (k - 9)) + e"
      using K(4) by (simp add: day_number_def)
    then have "day_number (1600 + z + 1, k - 9, nat e + 1) = n - 135080"
      using s year_start_march_next [of "1600 + z"] K(3) ms by simp
    moreover have "nat e + 1 \<le> month_len ?l (k - 9)"
    proof (cases "k = 10")
      case True
      then show ?thesis using K(4,5) by (simp add: month_lengths_def month_len_def nat_less_iff Suc_le_eq)
    next
      case False
      then have k: "k = 11" using k by simp
      have "d = 337 + e" using K(3) k by (simp add: month_lengths_def)
      then have "e = 28 \<Longrightarrow> ?l" using c(11) m(2) by simp
      then show ?thesis using K(4,5) k by (cases "e = 28") (auto simp: month_lengths_def month_len_def nat_less_iff Suc_le_eq)
    qed
    then have "valid_date (1600 + z + 1, k - 9, nat e + 1)" using k by (auto simp: valid_date_def)
    ultimately show ?thesis using False civ by simp
  qed
qed

lemma civil_next:
  assumes "0 \<le> n"
  shows "civil n = (next_day ^^ nat n) (1600, 3, 1)"
proof (rule day_number_inj)
  have v: "valid_date (1600, 3, 1)" "day_number (1600, 3, 1) = - 135080"
    by (simp_all add: valid_date_def month_len_def day_number_def year_start_def leap_year_def)
  show "valid_date (civil n)" "valid_date ((next_day ^^ nat n) (1600, 3, 1))" using civil_ok [OF assms] days_after [OF v(1)] by simp_all
  show "day_number (civil n) = day_number ((next_day ^^ nat n) (1600, 3, 1))" using civil_ok [OF assms] days_after [OF v(1)] v(2) assms by simp
qed

end
