(* ===== verification/TimeLink.thy ===== *)
theory TimeLink
  imports TimeCorrect
begin

text \<open>The functions of the code on machine integers are those of the calendar, inside the stated ranges.\<close>

section \<open>Machine integers\<close>

lemma mp_int_id [simp]: "- 2147483648 \<le> a \<Longrightarrow> a \<le> 2147483647 \<Longrightarrow> mp_int a = a"
  unfolding mp_int_def sint_sbintrunc' by (simp add: signed_take_bit_int_eq_self)

lemma sdiv_nonneg: "0 \<le> a \<Longrightarrow> 0 < k \<Longrightarrow> a sdiv k = a div k \<and> a smod k = a mod k" for a k :: int
  by (simp add: signed_divide_int_def signed_modulo_int_def minus_div_mult_eq_mod sgn_if)

lemma floor_split:
  fixes a k :: int
  assumes "0 < k"
  shows "a smod k < 0 \<Longrightarrow> a sdiv k = a div k + 1 \<and> a smod k = a mod k - k" "\<not> a smod k < 0 \<Longrightarrow> a sdiv k = a div k \<and> a smod k = a mod k"
proof -
  have "(a smod k < 0 \<longrightarrow> a sdiv k = a div k + 1 \<and> a smod k = a mod k - k) \<and> (\<not> a smod k < 0 \<longrightarrow> a sdiv k = a div k \<and> a smod k = a mod k)"
  proof (cases "0 \<le> a")
    case True
    then show ?thesis using sdiv_nonneg [of a k] assms by (simp add: not_less)
  next
    case False
    have q: "a sdiv k = - ((- a) div k)" using False assms by (simp add: signed_divide_int_def sgn_if)
    have m: "a smod k = - ((- a) mod k)" using False assms by (simp add: signed_modulo_int_def sgn_if)
    show ?thesis
    proof (cases "(- a) mod k = 0")
      case True
      then have "k dvd a" by (simp add: mod_eq_0_iff_dvd)
      then show ?thesis using q m True by (simp add: div_minus_right dvd_neg_div)
    next
      case False
      have "a div k = - ((- a) div k) - 1" using zdiv_zminus1_eq_if [of k "- a"] False assms by simp
      moreover have "a mod k = k - (- a) mod k" using zmod_zminus1_eq_if [of "- a" k] False assms by simp
      moreover have "0 < (- a) mod k" using pos_mod_sign [OF assms, of "- a"] False by linarith
      ultimately show ?thesis using q m assms by auto
    qed
  qed
  then show "a smod k < 0 \<Longrightarrow> a sdiv k = a div k + 1 \<and> a smod k = a mod k - k" "\<not> a smod k < 0 \<Longrightarrow> a sdiv k = a div k \<and> a smod k = a mod k"
    by simp_all
qed

lemma ucast_word_of_int:
  "ucast (word_of_int x :: u32) = (word_of_int x :: u16)" "ucast (word_of_int x :: u32) = (word_of_int x :: u8)"
  by (simp_all add: ucast_down_wi is_down)

lemma ucast_of_nat:
  "n < 65536 \<Longrightarrow> ucast (of_nat n :: u16) = (of_nat n :: u32)" "n < 256 \<Longrightarrow> ucast (of_nat n :: u8) = (of_nat n :: u32)"
  "n < 4294967296 \<Longrightarrow> ucast (of_nat n :: u32) = (of_nat n :: i64)"
  by (rule word_unat_eq_iff [THEN iffD2], simp add: unat_of_nat unsigned_ucast_eq unsigned_take_bit_eq take_bit_nat_eq_self)+

lemma uint_small: "0 \<le> a \<Longrightarrow> a < 4294967296 \<Longrightarrow> uint (word_of_int a :: u32) = a"
  by (simp add: uint_word_of_int)

lemma word_eq_small:
  "0 \<le> a \<Longrightarrow> a < 4294967296 \<Longrightarrow> ((word_of_int a :: u32) = 4) = (a = 4)" "0 \<le> a \<Longrightarrow> a < 4294967296 \<Longrightarrow> ((word_of_int a :: u32) = 25) = (a = 25)"
  using uint_small [of a] by (auto simp: word_uint_eq_iff)

section \<open>Leap years, the day of the year, the length of a month\<close>

lemma leap_word: "timeutils_is_leap_year y \<longleftrightarrow> leap_year (uint y)"
proof -
  have "(y mod k = 0) = (uint k dvd uint y)" for k :: u32 by (simp add: word_uint_eq_iff uint_mod_distrib dvd_eq_mod_eq_0)
  then have "timeutils_is_leap_year y \<longleftrightarrow> 4 dvd uint y \<and> \<not> 100 dvd uint y \<or> 400 dvd uint y" by (simp add: timeutils_is_leap_year_def)
  moreover have "400 dvd uint y \<Longrightarrow> 4 dvd uint y" by (rule dvd_trans [of 4 400]) simp_all
  ultimately show ?thesis by (auto simp: leap_year_def)
qed

lemma year_day_ok:
  assumes "1 \<le> m" "m \<le> 12"
  shows "timeutils_year_day y (of_nat m) d = Some (of_nat (days_before (leap_year (uint y)) m) + d)"
  using month_cases [OF assms] by (elim disjE) (simp_all add: timeutils_year_day_def days_since_jan1_def leap_word word_le_nat_alt)

lemma days_in_month_ok:
  assumes "1 \<le> m" "m \<le> 12"
  shows "timeutils_days_in_month y (of_nat m) = Some (of_nat (month_len (leap_year (uint y)) m))"
  using month_cases [OF assms] by (elim disjE) (simp_all add: timeutils_days_in_month_def days_since_jan1_def leap_word month_len_def)

section \<open>From seconds to a date\<close>

lemma div_mod_steps:
  fixes t :: int
  assumes "- 135080 \<le> t div 86400" "t div 86400 < 23000000"
  shows "(if t smod 86400 < 0 then (mp_int (mp_int (t sdiv 86400) - 1), t smod 86400 + 86400) else (mp_int (t sdiv 86400), t smod 86400)) =
    (t div 86400, t mod 86400)"
  using floor_split [of 86400 t] assms by (cases "t smod 86400 < 0") simp_all

lemma weekday_step:
  fixes d :: int
  shows "(if d smod 7 < 0 then d smod 7 + 7 else d smod 7) = d mod 7"
  using floor_split [of 7 d] by (cases "d smod 7 < 0") simp_all

lemma capped_word:
  assumes "0 \<le> r" "0 < n" "0 \<le> m" "r div n < 4294967296" "m + 1 = k" "k < 4294967296"
  shows "(if (word_of_int (r sdiv n) :: u32) = word_of_int k then word_of_int (r sdiv n) - 1 else word_of_int (r sdiv n)) =
    (word_of_int (capped n m r) :: u32)"
proof -
  have "0 \<le> r div n" using assms(1,2) by (simp add: pos_imp_zdiv_nonneg_iff)
  then have "((word_of_int (r div n) :: u32) = word_of_int k) = (r div n = k)"
    using assms(3-6) uint_small [of "r div n"] uint_small [of k] by (auto simp: word_uint_eq_iff)
  moreover have "(word_of_int (m + 1) :: u32) - 1 = word_of_int m" by simp
  ultimately show ?thesis using assms(5) sdiv_nonneg [OF assms(1,2)] by (simp add: capped_def)
qed

lemma sub_cycles:
  assumes "0 \<le> c" "0 \<le> n" "c * n < 4294967296" "0 \<le> r - c * n" "r - c * n \<le> 2147483647"
  shows "mp_int (r - uint ((word_of_int c :: u32) * word_of_int n)) = r - c * n"
proof -
  have "(word_of_int c :: u32) * word_of_int n = word_of_int (c * n)" by simp
  then have "uint ((word_of_int c :: u32) * word_of_int n) = c * n" using assms(1-3) uint_small [of "c * n"] by simp
  then show ?thesis using assms(4,5) by simp
qed

lemma month_part:
  assumes "k < 12"
  shows "(if (of_nat (k + 2) :: u8) \<ge> 12 then of_nat (k + 2) - 12 else of_nat (k + 2)) + 1 = (of_nat (if k < 10 then k + 3 else k - 9) :: u8)"
    "(of_nat (k + 2) :: u8) \<ge> 12 \<longleftrightarrow> \<not> k < 10"
proof -
  have k: "k = 0 \<or> k = 1 \<or> k = 2 \<or> k = 3 \<or> k = 4 \<or> k = 5 \<or> k = 6 \<or> k = 7 \<or> k = 8 \<or> k = 9 \<or> k = 10 \<or> k = 11" using assms by presburger
  then show "(if (of_nat (k + 2) :: u8) \<ge> 12 then of_nat (k + 2) - 12 else of_nat (k + 2)) + 1 = (of_nat (if k < 10 then k + 3 else k - 9) :: u8)"
    by (elim disjE) (simp_all add: word_le_nat_alt)
  show "(of_nat (k + 2) :: u8) \<ge> 12 \<longleftrightarrow> \<not> k < 10" using k by (elim disjE) (simp_all add: word_le_nat_alt)
qed

lemma let_step: "e = v \<Longrightarrow> f v = w \<Longrightarrow> Let e f = w"
  by simp

lemma let_step2: "e = (a, b) \<Longrightarrow> f a b = w \<Longrightarrow> Let e (\<lambda>(x, y). f x y) = w"
  by simp

lemma date_bounds:
  assumes "valid_date (y, m, d)"
  shows "1 \<le> m" "m \<le> 12" "1 \<le> d" "d \<le> 31" "days_before (leap_year y) m + d \<le> 366"
proof -
  show v: "1 \<le> m" "m \<le> 12" "1 \<le> d" using assms by (simp_all add: valid_date_def)
  show "d \<le> 31" using assms by (auto simp: valid_date_def month_len_def split: if_splits)
  have "days_before (leap_year y) (Suc m) \<le> days_before (leap_year y) 13" using v by (intro days_before_mono) simp_all
  then show "days_before (leap_year y) m + d \<le> 366" using day_in_slots(2) [OF assms] v by (simp split: if_splits)
qed

lemma ymd_words:
  assumes "0 \<le> y" "y < 65536" "valid_date (y, m, d)"
  shows "timeutils_year_day (ucast (word_of_int y :: u16)) (ucast (of_nat m :: u8)) (ucast (of_nat d :: u8)) =
    Some (of_nat (days_before (leap_year y) m + d))"
proof -
  have "word_of_int y = (of_nat (nat y) :: u16)" "(word_of_int y :: u32) = of_nat (nat y)" using assms(1) by simp_all
  then have "ucast (word_of_int y :: u16) = (word_of_int y :: u32)" using ucast_of_nat(1) [of "nat y"] assms(1,2) by simp
  then show ?thesis using year_day_ok [of m "word_of_int y" "of_nat d"] date_bounds [OF assms(3)] uint_small [of y] assms(1,2)
    by (simp add: ucast_of_nat)
qed

lemma struct_time_ok:
  fixes t :: i64
  defines "D \<equiv> sint t div 86400"
  defines "S \<equiv> sint t mod 86400"
  assumes "- 135080 \<le> D" "D < 23000000" "civil (D + 135080) = (y, m, d)"
  shows "timeutils_seconds_since_1970_to_struct_time t = Some \<lparr>tm_year = word_of_int y, tm_mon = of_nat m, tm_mday = of_nat d,
    tm_hour = word_of_int (S sdiv 3600), tm_min = word_of_int (S sdiv 60 smod 60), tm_sec = word_of_int (S smod 60),
    tm_wday = word_of_int ((D + 3) mod 7), tm_yday = of_nat (days_before (leap_year y) m + d)\<rparr>" (is "_ = Some ?tm")
proof -
  define n where "n = D + 135080"
  obtain qc c q yr e0 where C: "cycles n = (qc, c, q, yr, e0)" by (metis prod_cases5)
  define r1 r2 r3 where r: "r1 = n mod 146097" "r2 = r1 - c * 36524" "r3 = r2 - q * 1461"
  have n: "0 \<le> n" "n < 23135080" using assms(3,4) by (simp_all add: n_def)
  note c = cycles_ok [OF n(1) C]
  have e: "qc = n div 146097" "c = capped 36524 3 r1" "q = capped 1461 24 r2" "yr = capped 365 3 r3" "e0 = r3 - yr * 365"
    using C unfolding cycles_def Let_def prod.inject r by blast+
  have q1: "n = 146097 * qc + r1" "0 \<le> r1" "r1 \<le> 146096" unfolding e(1) r(1) by simp_all
  have b2: "0 \<le> r2" "r2 \<le> 146096" using q1 c(3-10) r(2,3) e(5) by linarith+
  have b3: "0 \<le> r3" "r3 \<le> 146096" using q1 c(3-10) r(2,3) e(5) by linarith+
  define z where "z = yr + 4 * q + 100 * c + 400 * qc"
  have "e0 < sum_list month_lengths" using c(10) by (simp add: month_lengths_def)
  from month_loop_ok [OF c(9) this, of 0] obtain k e' where K: "month_loop month_lengths 0 e0 = Some (k, e')" "k < 12"
    "0 \<le> e'" "e' < month_lengths ! k" by (auto simp: month_lengths_def)
  have civ: "civil n = (if k < 10 then 1600 + z else 1600 + z + 1, if k < 10 then k + 3 else k - 9, nat e' + 1)"
    unfolding civil_def Let_def C prod.case K(1) z_def by (simp add: algebra_simps)
  then have ymd: "y = (if k < 10 then 1600 + z else 1600 + z + 1)" "m = (if k < 10 then k + 3 else k - 9)" "d = nat e' + 1"
    using assms(5) by (simp_all add: n_def)
  have v: "valid_date (y, m, d)" using civil_ok [OF n(1)] assms(5) by (simp add: n_def)
  have zb: "0 \<le> z" "z < 63900" using c(1-10) n(2) unfolding z_def by linarith+
  have words:
    "mp_int (D + uint PREV_LEAP_DAY) = D + 671" "mp_int (D + 671 + QC_BASE_DAY) = n" "mp_int (D + 3) = D + 3"
    "(word_of_int (n sdiv DAYS_PER_400Y) :: u32) = word_of_int qc" "n smod DAYS_PER_400Y = r1"
    using assms(3,4) sdiv_nonneg [OF n(1), of 146097] by (simp_all add: PREV_LEAP_DAY_def QC_BASE_DAY_def DAYS_PER_400Y_def n_def e(1) r(1))
  have h: "r1 div 36524 < 4294967296" "r2 div 1461 < 4294967296" using q1(2,3) b2 by linarith+
  have caps:
    "(if (word_of_int (r1 sdiv DAYS_PER_100Y) :: u32) = 4 then word_of_int (r1 sdiv DAYS_PER_100Y) - 1 else word_of_int (r1 sdiv DAYS_PER_100Y)) = (word_of_int c :: u32)"
    "(if (word_of_int (r2 sdiv DAYS_PER_4Y) :: u32) = 25 then word_of_int (r2 sdiv DAYS_PER_4Y) - 1 else word_of_int (r2 sdiv DAYS_PER_4Y)) = (word_of_int q :: u32)"
  proof -
    have num: "(0 :: int) < 36524" "(0 :: int) < 1461" "(0 :: int) \<le> 3" "(0 :: int) \<le> 24" "(3 :: int) + 1 = 4" "(24 :: int) + 1 = 25"
      "(4 :: int) < 4294967296" "(25 :: int) < 4294967296" "DAYS_PER_100Y = 36524" "DAYS_PER_4Y = 1461"
      "(word_of_int 4 :: u32) = 4" "(word_of_int 25 :: u32) = 25" by (simp_all add: DAYS_PER_100Y_def DAYS_PER_4Y_def)
    show "(if (word_of_int (r1 sdiv DAYS_PER_100Y) :: u32) = 4 then word_of_int (r1 sdiv DAYS_PER_100Y) - 1 else word_of_int (r1 sdiv DAYS_PER_100Y)) = (word_of_int c :: u32)"
      unfolding num(9) e(2) by (rule capped_word [OF q1(2) num(1,3) h(1) num(5,7), unfolded num(11)])
    show "(if (word_of_int (r2 sdiv DAYS_PER_4Y) :: u32) = 25 then word_of_int (r2 sdiv DAYS_PER_4Y) - 1 else word_of_int (r2 sdiv DAYS_PER_4Y)) = (word_of_int q :: u32)"
      unfolding num(10) e(3) by (rule capped_word [OF b2(1) num(2,4) h(2) num(6,8), unfolded num(12)])
  qed
  have subs: "mp_int (r1 - uint ((word_of_int c :: u32) * word_of_int DAYS_PER_100Y)) = r2" "mp_int (r2 - uint ((word_of_int q :: u32) * word_of_int DAYS_PER_4Y)) = r3"
    "(if r3 sdiv 365 = 4 then r3 sdiv 365 - 1 else r3 sdiv 365) = yr" "mp_int (r3 - yr * 365) = e0"
    using sub_cycles [of c 36524 r1] sub_cycles [of q 1461 r2] c(3-10) b2 b3 sdiv_nonneg [OF b3(1), of 365] e(4,5)
    by (simp_all add: DAYS_PER_100Y_def DAYS_PER_4Y_def r(2,3) capped_def)
  have yw: "ucast (QC_LEAP_YEAR + word_of_int yr + 4 * word_of_int q + 100 * word_of_int c + 400 * word_of_int qc) = (word_of_int (1600 + z) :: u16)"
  proof -
    have "QC_LEAP_YEAR + word_of_int yr + 4 * word_of_int q + 100 * word_of_int c + 400 * word_of_int qc = word_of_int (1600 + z)"
      by (simp add: QC_LEAP_YEAR_def z_def)
    then show ?thesis by (simp only: ucast_word_of_int)
  qed
  have tail: "(if (of_nat (k + 2) :: u8) \<ge> 12 then (word_of_int (1600 + z) :: u16) + 1 else word_of_int (1600 + z)) = word_of_int y"
    "(word_of_int (e' + 1) :: u8) = of_nat d"
    unfolding month_part(2) [OF K(2)] ymd using K(3) by simp_all
  have yday: "timeutils_year_day (ucast (word_of_int y :: u16)) (ucast (of_nat m :: u8)) (ucast (of_nat d :: u8)) = Some (of_nat (days_before (leap_year y) m + d))"
    using zb by (intro ymd_words [OF _ _ v]) (simp_all add: ymd(1))
  have yu: "ucast (of_nat a :: u32) = (of_nat a :: u16)" for a using ucast_word_of_int(1) [of "int a"] by simp
  show ?thesis
    unfolding timeutils_seconds_since_1970_to_struct_time_def
    apply (rule let_step [OF refl])
    apply (rule let_step [OF refl])
    apply (rule let_step2 [OF div_mod_steps [OF assms(3,4) [unfolded D_def]]])
    unfolding D_def [symmetric] S_def [symmetric]
    apply (rule let_step [OF refl], rule let_step [OF weekday_step])
    apply (rule let_step [OF words(1)], rule let_step [OF words(2)], rule let_step [OF words(4)], rule let_step [OF words(5)])
    apply (rule let_step [OF refl], rule let_step [OF caps(1)], rule let_step [OF subs(1)])
    apply (rule let_step [OF refl], rule let_step [OF caps(2)], rule let_step [OF subs(2)])
    apply (rule let_step [OF refl], rule let_step [OF subs(3)], rule let_step [OF subs(4)], rule let_step [OF yw])
    unfolding K(1) bind.bind_lunit prod.case words(3)
    apply (rule let_step [OF refl], rule let_step [OF month_part(1) [OF K(2)]], rule let_step [OF tail(1)], rule let_step [OF tail(2)])
    unfolding ymd(2) [symmetric] yday bind.bind_lunit yu by (rule refl)
qed

end
