(* ===== verification/TimeMake.thy ===== *)
theory TimeMake
  imports TimeLink
begin

text \<open>From a date to seconds: the fields are carried over, the day moves into its month, and the days are counted.\<close>

section \<open>Counting the seconds\<close>

lemma sint_small32: "- 2147483648 \<le> a \<Longrightarrow> a < 2147483648 \<Longrightarrow> sint (word_of_int a :: u32) = a"
  unfolding sint_sbintrunc' by (simp add: signed_take_bit_int_eq_self)

lemma ucast64: "0 \<le> a \<Longrightarrow> a < 4294967296 \<Longrightarrow> ucast (word_of_int a :: u32) = (word_of_int a :: i64)"
  using ucast_of_nat(3) [of "nat a"] by simp

lemma word_div_small:
  assumes "0 \<le> a" "a < 4294967296" "0 < k" "k < 4294967296"
  shows "ucast ((word_of_int a :: u32) div word_of_int k) = (word_of_int (a div k) :: i64)"
proof -
  have "(word_of_int a :: u32) div word_of_int k = word_of_int (a div k)"
    using assms by (simp add: word_div_def uint_word_of_int)
  moreover have "0 \<le> a div k" "a div k \<le> a" using assms zdiv_mono2 [of a 1 k] by (simp_all add: pos_imp_zdiv_nonneg_iff)
  ultimately show ?thesis using ucast64 [of "a div k"] assms by simp
qed

definition month_day :: "int \<Rightarrow> nat \<Rightarrow> int \<Rightarrow> int" where
  "month_day y m d = year_start y + int (days_before (leap_year y) m) + d - 1"

lemma month_day_number: "day_number (y, m, d) = month_day y m (int d)"
  by (simp add: day_number_def month_day_def)

lemma seconds_since_ok:
  assumes "1601 \<le> y" "y < 5000000" "1 \<le> m" "m \<le> 12" "1 \<le> d" "d < 100000000"
  shows "timeutils_seconds_since_1970 (word_of_int y) (of_nat m) (word_of_int d) hour minute second =
    Some (word_of_int (86400 * month_day y m d) + ucast (hour * 3600 + minute * 60 + second))"
proof -
  define b where "b = days_before (leap_year y) m"
  have b: "b \<le> 335" using month_cases [OF assms(3,4)] unfolding b_def by (elim disjE) simp_all
  have yd: "timeutils_year_day (word_of_int y) (of_nat m) (word_of_int d) = Some (word_of_int (int b + d))"
    using year_day_ok [OF assms(3,4), of "word_of_int y" "word_of_int d"] uint_small [of y] assms(1,2) by (simp add: b_def)
  have since: "(word_of_int y :: u32) - (QC_LEAP_YEAR + 1) = word_of_int (y - 1601)" by (simp add: QC_LEAP_YEAR_def)
  have q: "ucast ((word_of_int (y - 1601) :: u32) div 4) = (word_of_int ((y - 1601) div 4) :: i64)"
    "ucast ((word_of_int (y - 1601) :: u32) div 100) = (word_of_int ((y - 1601) div 100) :: i64)"
    "ucast ((word_of_int (y - 1601) :: u32) div 400) = (word_of_int ((y - 1601) div 400) :: i64)"
    using word_div_small [of "y - 1601" 4] word_div_small [of "y - 1601" 100] word_div_small [of "y - 1601" 400] assms(1,2)
    by (simp_all only: of_int_numeral)
  have first: "mp_int (mp_int (sint (word_of_int y :: u32) - 1970) * 365) = (y - 1970) * 365" using sint_small32 [of y] assms(1,2) by simp
  have last: "ucast ((word_of_int (int b + d) :: u32) - 1) = (word_of_int (int b + d - 1) :: i64)"
    using ucast64 [of "int b + d - 1"] b assms(5,6) by simp
  show ?thesis
    unfolding timeutils_seconds_since_1970_def yd bind.bind_lunit Let_def since q first last
    by (simp add: month_day_def year_start_def b_def QC_LEAP_DAYS_def algebra_simps)
qed

section \<open>Normalising the fields\<close>

lemma carry_field_ok:
  assumes "k = 24 \<or> k = 60" "\<bar>high\<bar> \<le> 100000000" "\<bar>low\<bar> \<le> 100000000"
  shows "carry_field high low k = (high + low div k, low mod k)"
proof -
  have k: "0 < k" using assms(1) by auto
  have b: "\<bar>low div k\<bar> \<le> 100000000" unfolding abs_le_iff using assms(1,3) by (elim disjE; hypsubst; linarith)
  note f = floor_split [OF k, of low]
  show ?thesis
  proof (cases "low smod k < 0")
    case True
    then show ?thesis using f(1) b assms(2) by (simp add: carry_field_def Let_def)
  next
    case False
    then show ?thesis using f(2) b assms(2) by (simp add: carry_field_def Let_def)
  qed
qed

lemma month_day_Suc:
  "1 \<le> m \<Longrightarrow> m < 12 \<Longrightarrow> month_day y (Suc m) d = month_day y m (d + int (month_len (leap_year y) m))"
  "month_day (y + 1) 1 d = month_day y 12 (d + int (month_len (leap_year y) 12))"
  by (simp_all add: month_day_def days_before_Suc year_start_Suc month_len_def)

lemma month_len_bounds: "28 \<le> month_len l m" "month_len l m \<le> 31"
  by (simp_all add: month_len_def)

lemma from_1601:
  assumes "- 134774 \<le> month_day y m d" "d < 1" "1 \<le> m" "m \<le> 12"
  shows "1602 \<le> y \<or> 1601 \<le> y \<and> 1 < m"
proof (rule ccontr)
  assume "\<not> ?thesis"
  then consider "y \<le> 1600" | "y = 1601" "m = 1" using assms(3) by linarith
  then show False
  proof cases
    case 1
    have "year_start (y + 1) \<le> year_start 1601" using 1 by (intro year_start_mono) simp
    moreover have "days_before (leap_year y) m \<le> days_before (leap_year y) 13" using assms(3,4) by (intro days_before_mono) simp_all
    ultimately show False using assms(1,2) by (simp add: month_day_def year_start_Suc split: if_splits) (simp_all add: year_start_def)
  qed (use assms(1,2) in \<open>simp add: month_day_def year_start_def\<close>)
qed

lemma day_word:
  assumes "0 \<le> y" "y < 4294967296" "1 \<le> m" "m \<le> 12"
  shows "timeutils_days_in_month (word_of_int y) (word_of_int (int m)) = Some (of_nat (month_len (leap_year y) m))"
    "uint (of_nat (month_len l m) :: u32) = int (month_len l m)"
  using days_in_month_ok [OF assms(3,4), of "word_of_int y"] uint_small [OF assms(1,2)] month_len_bounds [of l m] uint_small [of "int (month_len l m)"]
  by simp_all

lemma back_months_ok:
  assumes "- 134774 \<le> month_day y m d" "1 \<le> m" "m \<le> 12" "0 \<le> y" "y < 5000000" "- 100000000 \<le> d" "d \<le> 100000000"
  shows "\<exists>y' m' d'. back_months (word_of_int y) (int m) d = Some (Some (word_of_int y', int m', d')) \<and> month_day y' m' d' = month_day y m d \<and>
    1 \<le> m' \<and> m' \<le> 12 \<and> 0 \<le> y' \<and> y' \<le> y \<and> 1 \<le> d' \<and> d' \<le> max d 31"
  using assms
proof (induction "nat (1 - d)" arbitrary: y m d rule: less_induct)
  case less
  show ?case
  proof (cases "d < 1")
    case False
    have "back_months (word_of_int y) (int m) d = Some (Some (word_of_int y, int m, d))"
      using False by (subst back_months.simps) simp
    then show ?thesis using less.prems False by (intro exI [of _ y] exI [of _ m] exI [of _ d]) simp
  next
    case True
    define y1 m1 where "y1 = (if m = 1 then y - 1 else y)" and "m1 = (if m = 1 then 12 else m - 1)"
    define n where "n = month_len (leap_year y1) m1"
    have y: "1602 \<le> y \<or> 1601 \<le> y \<and> 1 < m" by (rule from_1601 [OF less.prems(1) True less.prems(2,3)])
    have m1: "1 \<le> m1" "m1 \<le> 12" "0 \<le> y1" "y1 \<le> y" using less.prems(2,3) y by (auto simp: m1_def y1_def)
    have n: "28 \<le> n" "n \<le> 31" unfolding n_def by (rule month_len_bounds)+
    have same: "month_day y1 m1 (d + int n) = month_day y m d"
      using month_day_Suc(1) [of "m - 1" y d] month_day_Suc(2) [of "y - 1" d] less.prems(2,3) unfolding n_def y1_def m1_def by (cases "m = 1") simp_all
    have w: "timeutils_days_in_month (word_of_int y1) (word_of_int (int m1)) = Some (of_nat n)" "uint (of_nat n :: u32) = int n"
      unfolding n_def using day_word [of y1 m1] m1 less.prems(5) by simp_all
    have step: "back_months (word_of_int y) (int m) d = back_months (word_of_int y1) (int m1) (d + int n)"
    proof -
      have "(if int m - 1 = 0 then (12 :: int) else int m - 1) = int m1" "(if int m - 1 = 0 then (word_of_int y :: u32) - 1 else word_of_int y) = word_of_int y1"
        using less.prems(2) by (simp_all add: m1_def y1_def)
      moreover have "mp_int (d + int n) = d + int n" using less.prems(6) True n by simp
      ultimately show ?thesis by (subst back_months.simps) (simp only: Let_def True if_True w option.case)
    qed
    from less.hyps [of "d + int n" y1 m1] obtain y' m' d' where "back_months (word_of_int y1) (int m1) (d + int n) = Some (Some (word_of_int y', int m', d'))"
      "month_day y' m' d' = month_day y m d" "1 \<le> m'" "m' \<le> 12" "0 \<le> y'" "y' \<le> y1" "1 \<le> d'" "d' \<le> max (d + int n) 31"
      using same less.prems m1 n True by fastforce
    then show ?thesis using step m1(4) n True by (intro exI [of _ y'] exI [of _ m'] exI [of _ d']) auto
  qed
qed

lemma on_months_ok:
  assumes "1 \<le> m" "m \<le> 12" "0 \<le> y" "1 \<le> d" "d \<le> 100000000" "y + d < 1000000000"
  shows "\<exists>y' m' d'. on_months (word_of_int y) (int m) d = Some (Some (word_of_int y', int m', int d')) \<and> month_day y' m' (int d') = month_day y m d \<and>
    valid_date (y', m', d') \<and> 0 \<le> y' \<and> y' + int d' \<le> y + d"
  using assms
proof (induction "nat d" arbitrary: y m d rule: less_induct)
  case less
  define n where "n = month_len (leap_year y) m"
  have n: "28 \<le> n" "n \<le> 31" unfolding n_def by (rule month_len_bounds)+
  have w: "timeutils_days_in_month (word_of_int y) (word_of_int (int m)) = Some (of_nat n)" "uint (of_nat n :: u32) = int n"
    unfolding n_def using day_word [of y m] less.prems by simp_all
  have gt: "(of_nat n < (word_of_int d :: u32)) = (int n < d)" using w(2) uint_small [of d] less.prems(4,5) by (simp add: word_less_def)
  show ?case
  proof (cases "int n < d")
    case False
    have "on_months (word_of_int y) (int m) d = Some (Some (word_of_int y, int m, d))"
      by (subst on_months.simps) (simp only: w option.case gt False if_False)
    then show ?thesis using less.prems False by (intro exI [of _ y] exI [of _ m] exI [of _ "nat d"]) (auto simp: valid_date_def n_def)
  next
    case True
    define y1 m1 where "y1 = (if m = 12 then y + 1 else y)" and "m1 = (if m = 12 then 1 else m + 1)"
    have m1: "1 \<le> m1" "m1 \<le> 12" "0 \<le> y1" "y1 \<le> y + 1" using less.prems(1-3) by (auto simp: m1_def y1_def)
    have same: "month_day y1 m1 (d - int n) = month_day y m d"
      using month_day_Suc(1) [of m y "d - int n"] month_day_Suc(2) [of y "d - int n"] less.prems(1,2) unfolding n_def y1_def m1_def by (cases "m = 12") simp_all
    have step: "on_months (word_of_int y) (int m) d = on_months (word_of_int y1) (int m1) (d - int n)"
    proof -
      have "mp_int (d - int n) = d - int n" using less.prems(4,5) n by simp
      moreover have "(if int m + 1 = 13 then on_months ((word_of_int y :: u32) + 1) 1 e else on_months (word_of_int y) (int m + 1) e) =
        on_months (word_of_int y1) (int m1) e" for e by (simp add: m1_def y1_def algebra_simps)
      ultimately show ?thesis by (subst on_months.simps) (simp only: w option.case gt True if_True)
    qed
    from less.hyps [of "d - int n" m1 y1] obtain y' m' d' where "on_months (word_of_int y1) (int m1) (d - int n) = Some (Some (word_of_int y', int m', int d'))"
      "month_day y' m' (int d') = month_day y m d" "valid_date (y', m', d')" "0 \<le> y'" "y' + int d' \<le> y1 + (d - int n)"
      using same less.prems m1 n True by fastforce
    then show ?thesis using step m1(4) n by (intro exI [of _ y'] exI [of _ m'] exI [of _ d']) simp
  qed
qed

lemma carries:
  fixes h mi s :: int
  defines "mi1 \<equiv> mi + s div 60"
  defines "h1 \<equiv> h + mi1 div 60"
  shows "86400 * (h1 div 24) + (h1 mod 24 * 3600 + mi1 mod 60 * 60 + s mod 60) = 3600 * h + 60 * mi + s"
    "0 \<le> h1 mod 24 * 3600 + mi1 mod 60 * 60 + s mod 60" "h1 mod 24 * 3600 + mi1 mod 60 * 60 + s mod 60 < 86400"
proof -
  have d: "h1 = 24 * (h1 div 24) + h1 mod 24" "mi1 = 60 * (mi1 div 60) + mi1 mod 60" "s = 60 * (s div 60) + s mod 60" by simp_all
  then show "86400 * (h1 div 24) + (h1 mod 24 * 3600 + mi1 mod 60 * 60 + s mod 60) = 3600 * h + 60 * mi + s"
    using h1_def mi1_def by linarith
  have "0 \<le> h1 mod 24" "h1 mod 24 < 24" "0 \<le> mi1 mod 60" "mi1 mod 60 < 60" "0 \<le> s mod 60" "s mod 60 < 60" by simp_all
  then show "0 \<le> h1 mod 24 * 3600 + mi1 mod 60 * 60 + s mod 60" "h1 mod 24 * 3600 + mi1 mod 60 * 60 + s mod 60 < 86400" by linarith+
qed

lemma years_ok: "valid_date (y, m, d) \<Longrightarrow> - 134774 \<le> day_number (y, m, d) \<Longrightarrow> 1601 \<le> y"
proof (rule ccontr)
  assume a: "valid_date (y, m, d)" "- 134774 \<le> day_number (y, m, d)" "\<not> 1601 \<le> y"
  have "year_start (y + 1) \<le> year_start 1601" using a(3) by (intro year_start_mono) simp
  then show False using day_in_slots(4) [OF a(1)] a(2) by (simp add: year_start_def)
qed

lemma months_ok:
  assumes "- 134774 \<le> month_day y m d" "1 \<le> m" "m \<le> 12" "0 \<le> y" "y \<le> 2000000" "\<bar>d\<bar> \<le> 2000000"
  shows "\<exists>y' m' d' y2 m2 d2. back_months (word_of_int y) (int m) d = Some (Some (y2, m2, d2)) \<and>
    on_months y2 m2 d2 = Some (Some (word_of_int y', int m', int d')) \<and> day_number (y', m', d') = month_day y m d \<and>
    valid_date (y', m', d') \<and> 1601 \<le> y' \<and> y' < 5000000"
proof -
  from back_months_ok [OF assms(1-4)] obtain y2 m2 d2 where B: "back_months (word_of_int y) (int m) d = Some (Some (word_of_int y2, int m2, d2))"
    "month_day y2 m2 d2 = month_day y m d" "1 \<le> m2" "m2 \<le> 12" "0 \<le> y2" "y2 \<le> y" "1 \<le> d2" "d2 \<le> max d 31" using assms(5,6) by fastforce
  have d2: "d2 \<le> 2000031" using B(8) assms(6) by (simp add: max_def split: if_splits)
  from on_months_ok [OF B(3,4,5,7)] obtain y' m' d' where O: "on_months (word_of_int y2) (int m2) d2 = Some (Some (word_of_int y', int m', int d'))"
    "month_day y' m' (int d') = month_day y2 m2 d2" "valid_date (y', m', d')" "0 \<le> y'" "y' + int d' \<le> y2 + d2"
    using d2 B(6) assms(5) by fastforce
  have "1601 \<le> y'" using years_ok [OF O(3)] O(2) B(2) assms(1) by (simp add: month_day_number)
  moreover have "y' < 5000000" using O(5) B(6) d2 assms(5) by linarith
  ultimately show ?thesis using B(1,2) O(1-3)
    by (intro exI [of _ y'] exI [of _ m'] exI [of _ d'] exI [of _ "word_of_int y2"] exI [of _ "int m2"] exI [of _ d2]) (simp add: month_day_number)
qed

lemma mktime_ok:
  fixes year month mday h mi s :: int
  defines "Y \<equiv> year + (month - 1) div 12"
  defines "M \<equiv> nat ((month - 1) mod 12 + 1)"
  defines "u \<equiv> 86400 * month_day Y M mday + 3600 * h + 60 * mi + s"
  assumes "0 \<le> year" "year \<le> 1000000" "\<bar>month\<bar> \<le> 1000000" "\<bar>mday\<bar> \<le> 1000000" "\<bar>h\<bar> \<le> 1000000" "\<bar>mi\<bar> \<le> 1000000" "\<bar>s\<bar> \<le> 1000000"
    "0 \<le> Y" "- 134774 * 86400 \<le> u"
  shows "timeutils_mktime_1970 (word_of_int year) month mday h mi s = Some (Some (word_of_int u))"
proof -
  define mi1 where "mi1 = mi + s div 60"
  define h1 where "h1 = h + mi1 div 60"
  define mday1 where "mday1 = mday + h1 div 24"
  define r where "r = h1 mod 24 * 3600 + mi1 mod 60 * 60 + s mod 60"
  note c = carries [of h mi s, folded mi1_def, folded h1_def, folded r_def]
  have b: "\<bar>mi1\<bar> \<le> 1100000" "\<bar>h1\<bar> \<le> 1100000" "\<bar>mday1\<bar> \<le> 2000000"
    using assms(7-10) unfolding abs_le_iff mday1_def h1_def mi1_def by linarith+
  have carry: "carry_field mi s 60 = (mi1, s mod 60)" "carry_field h mi1 60 = (h1, mi1 mod 60)" "carry_field mday h1 24 = (mday1, h1 mod 24)"
  proof -
    show "carry_field mi s 60 = (mi1, s mod 60)" unfolding mi1_def by (rule carry_field_ok, simp) (use assms(9,10) in linarith)+
    show "carry_field h mi1 60 = (h1, mi1 mod 60)" unfolding h1_def by (rule carry_field_ok, simp) (use assms(8) b(1) in linarith)+
    show "carry_field mday h1 24 = (mday1, h1 mod 24)" unfolding mday1_def by (rule carry_field_ok, simp) (use assms(7) b(2) in linarith)+
  qed
  have month1: "mp_int (month - 1) = month - 1" using assms(6) by simp
  have ym: "(if (month - 1) smod 12 < 0 then ((month - 1) smod 12 + 12, (word_of_int year :: u32) + word_of_int ((month - 1) sdiv 12) - 1)
      else ((month - 1) smod 12, word_of_int year + word_of_int ((month - 1) sdiv 12))) = ((month - 1) mod 12, word_of_int Y)"
    using floor_split [of 12 "month - 1"] by (cases "(month - 1) smod 12 < 0") (simp_all add: Y_def)
  have M: "(month - 1) mod 12 + 1 = int M" "1 \<le> M" "M \<le> 12"
  proof -
    have "0 \<le> (month - 1) mod 12" "(month - 1) mod 12 < 12" by simp_all
    then show "(month - 1) mod 12 + 1 = int M" "1 \<le> M" "M \<le> 12" unfolding M_def by linarith+
  qed
  have u: "u = 86400 * month_day Y M mday1 + r" 
  proof -
    have "month_day Y M mday1 = month_day Y M mday + h1 div 24" by (simp add: month_day_def mday1_def)
    then show ?thesis using c(1) by (simp add: u_def)
  qed
  then have V: "- 134774 \<le> month_day Y M mday1" using c(3) assms(12) by linarith
  have Y: "Y \<le> 2000000" using assms(5,6) unfolding Y_def by linarith
  from months_ok [OF V M(2,3) assms(11) Y b(3)] obtain y' m' d' y2 m2 d2 where R:
    "back_months (word_of_int Y) (int M) mday1 = Some (Some (y2, m2, d2))" "on_months y2 m2 d2 = Some (Some (word_of_int y', int m', int d'))"
    "day_number (y', m', d') = month_day Y M mday1" "valid_date (y', m', d')" "1601 \<le> y'" "y' < 5000000" by blast
  note db = date_bounds [OF R(4)]
  have sec: "ucast ((word_of_int (h1 mod 24) :: u32) * 3600 + word_of_int (mi1 mod 60) * 60 + word_of_int (s mod 60)) = (word_of_int r :: i64)"
  proof -
    have "(word_of_int (h1 mod 24) :: u32) * 3600 + word_of_int (mi1 mod 60) * 60 + word_of_int (s mod 60) = word_of_int r" by (simp add: r_def)
    then show ?thesis using ucast64 [of r] c(2,3) by simp
  qed
  have "timeutils_seconds_since_1970 (word_of_int y') (word_of_int (int m')) (word_of_int (int d')) (word_of_int (h1 mod 24)) (word_of_int (mi1 mod 60))
      (word_of_int (s mod 60)) = Some (word_of_int u)"
    using seconds_since_ok [OF R(5,6) db(1,2), of "int d'" "word_of_int (h1 mod 24)" "word_of_int (mi1 mod 60)" "word_of_int (s mod 60)"] db(3,4) R(3)
    by (simp add: sec u month_day_number)
  then show ?thesis
    unfolding timeutils_mktime_1970_def Let_def carry prod.case month1 ym M(1) R(1,2) option.case by simp
qed

section \<open>The weekday from the date\<close>

lemma march_start_abs: "march_start (y - 1600) = 365 * y - 584000 + (y div 4 - y div 100 + y div 400) - 388"
proof -
  have "(y - 1600) div 4 = y div 4 - 400" "(y - 1600) div 100 = y div 100 - 16" "(y - 1600) div 400 = y div 400 - 4"
    using div_mult_self1 [of 4 y "- 400"] div_mult_self1 [of 100 y "- 16"] div_mult_self1 [of 400 y "- 4"] by simp_all
  then show ?thesis by (simp add: march_start_def)
qed

lemma smod7: "0 \<le> b \<Longrightarrow> a = b + 7 * k \<Longrightarrow> b smod 7 = a mod 7" for a b k :: int
  using sdiv_nonneg [of b 7] by simp

lemma calc_weekday_ok:
  assumes "1 \<le> y" "valid_date (y, m, d)"
  shows "timeutils_calc_weekday y (int m) (int d) = (day_number (y, m, d) + 3) mod 7"
proof -
  note b = date_bounds [OF assms(2)]
  have leaps: "0 \<le> x div 4 - x div 100 + x div 400" if "0 \<le> x" for x :: int
    using zdiv_mono2 [OF that, of 4 100] pos_imp_zdiv_nonneg_iff [of 400 x] that by simp
  have sd: "x sdiv 4 = x div 4" "x sdiv 100 = x div 100" "x sdiv 400 = x div 400" if "0 \<le> x" for x :: int
    using sdiv_nonneg [OF that] by simp_all
  define f where "f = (23 * int m) div 9"
  have f: "(23 * int m) sdiv 9 = f" "0 \<le> f" using sdiv_nonneg [of "23 * int m" 9] by (simp_all add: f_def)
  show ?thesis
  proof (cases "m < 3")
    case True
    define A where "A = (y - 1) div 4 - (y - 1) div 100 + (y - 1) div 400"
    have "year_start y = 365 * (y - 1) - 584000 + A - 388 - 134774"
      using year_start_march_next [of "y - 1"] march_start_abs [of "y - 1"] by (simp add: A_def)
    moreover have "m = 1 \<or> m = 2" using True b(1) by linarith
    ultimately have "\<exists>k. day_number (y, m, d) + 3 = f + (int d + y) + 4 + A + 6 + 7 * k"
      by (elim disjE) (intro exI [of _ "52 * y - 102791 + 4 * (int m - 1)"], simp add: day_number_def f_def)+
    moreover have "0 \<le> f + (int d + y) + 4 + A + 6" using f(2) leaps [of "y - 1"] assms(1) by (simp add: A_def)
    moreover have "timeutils_calc_weekday y (int m) (int d) = (f + (int d + y) + 4 + A + 6) smod 7"
      using True sd [of "y - 1"] assms(1) unfolding timeutils_calc_weekday_def Let_def f A_def by (simp add: algebra_simps)
    ultimately show ?thesis by (metis smod7)
  next
    case False
    define A where "A = y div 4 - y div 100 + y div 400"
    have "year_start y = 365 * y - 584000 + A - 388 - 135080 - (if leap_year y then 60 else 59)"
      using year_start_march [of y] march_start_abs [of y] by (simp add: A_def)
    moreover have "m = 3 \<or> m = 4 \<or> m = 5 \<or> m = 6 \<or> m = 7 \<or> m = 8 \<or> m = 9 \<or> m = 10 \<or> m = 11 \<or> m = 12" using False b(2) by presburger
    ultimately have "\<exists>k. day_number (y, m, d) + 3 = f + (int d + (y - 2)) + 4 + A + 6 + 7 * k"
      by (elim disjE) (intro exI [of _ "52 * y - 102783 + 4 * (int m - 3)"], simp add: day_number_def f_def)+
    moreover have "0 \<le> f + (int d + (y - 2)) + 4 + A + 6" using f(2) leaps [of y] assms(1) by (simp add: A_def)
    moreover have "timeutils_calc_weekday y (int m) (int d) = (f + (int d + (y - 2)) + 4 + A + 6) smod 7"
      using False sd [of y] assms(1) unfolding timeutils_calc_weekday_def Let_def f A_def by (simp add: algebra_simps)
    ultimately show ?thesis by (metis smod7)
  qed
qed

end
