(* ===== verification/TimeProps.thy ===== *)
theory TimeProps
  imports TimeMake
begin

text \<open>The module \<open>time\<close>: what \<open>localtime\<close> and \<open>mktime\<close> compute, that they are inverse, and the year 1600.\<close>

lemma sint_small64: "- 9223372036854775808 \<le> a \<Longrightarrow> a < 9223372036854775808 \<Longrightarrow> sint (word_of_int a :: i64) = a"
  unfolding sint_sbintrunc' by (simp add: signed_take_bit_int_eq_self)

lemma to_1970:
  fixes s :: i64
  assumes "- 11670912000 \<le> sint s + 946684800" "sint s + 946684800 < 1987200000000"
  shows "sint (s + TIMEUTILS_SECONDS_1970_TO_2000) = sint s + 946684800"
proof -
  have "s + TIMEUTILS_SECONDS_1970_TO_2000 = word_of_int (sint s + 946684800)" by (simp add: TIMEUTILS_SECONDS_1970_TO_2000_def)
  then show ?thesis using assms sint_small64 [of "sint s + 946684800"] by simp
qed

text \<open>The first day of the epoch, and years and days of dates the code can compute.\<close>

lemma epoch_date: "(next_day ^^ 135080) (1600, 3, 1) = (1970, 1, 1)" "(next_day ^^ nat 135080) (1600, 3, 1) = (1970, 1, 1)"
proof -
  have v: "valid_date (1600, 3, 1)" "valid_date (1970, 1, 1)" by (simp_all add: valid_date_def month_len_def)
  have n: "day_number (1600, 3, 1) = - 135080" "day_number (1970, 1, 1) = 0"
    by (simp_all add: day_number_def year_start_def leap_year_def)
  show "(next_day ^^ 135080) (1600, 3, 1) = (1970, 1, 1)"
    using day_number_inj [OF _ v(2)] days_after [OF v(1), of 135080] n by simp
  then show "(next_day ^^ nat 135080) (1600, 3, 1) = (1970, 1, 1)" by simp
qed

lemma year_bounds:
  assumes "valid_date (y, m, d)" "- 135080 \<le> day_number (y, m, d)" "day_number (y, m, d) < 23000000"
  shows "1600 \<le> y" "y < 65536"
proof -
  show "1600 \<le> y"
  proof (rule ccontr)
    assume "\<not> ?thesis"
    then have "year_start (y + 1) \<le> year_start 1600" by (intro year_start_mono) simp
    then show False using day_in_slots(4) [OF assms(1)] assms(2) by (simp add: year_start_def)
  qed
  show "y < 65536"
  proof (rule ccontr)
    assume "\<not> ?thesis"
    then have "year_start 65536 \<le> year_start y" by (intro year_start_mono) simp
    then show False using day_in_slots(3) [OF assms(1)] assms(3) by (simp add: year_start_def)
  qed
qed

definition broken_down :: "int \<Rightarrow> date \<Rightarrow> int list" where
  "broken_down u = (\<lambda>(y, m, d).
     [y, int m, int d, u mod 86400 div 3600, u mod 86400 div 60 mod 60, u mod 86400 mod 60, (u div 86400 + 3) mod 7,
      day_number (y, m, d) - day_number (y, 1, 1) + 1])"

lemma small_words:
  "0 \<le> a \<Longrightarrow> a < 256 \<Longrightarrow> uint (word_of_int a :: u8) = a" "0 \<le> a \<Longrightarrow> a < 65536 \<Longrightarrow> uint (word_of_int a :: u16) = a"
  by (simp_all add: uint_word_of_int)

lemma localtime_ok:
  fixes s :: i64
  assumes "- 11670912000 \<le> sint s + 946684800" "sint s + 946684800 < 1987200000000"
  shows "time_localtime s = Some (broken_down (sint s + 946684800) (civil ((sint s + 946684800) div 86400 + 135080)))"
proof -
  define u where "u = sint s + 946684800"
  have D: "- 135080 \<le> u div 86400" "u div 86400 < 23000000" using assms unfolding u_def by linarith+
  obtain y m d where C: "civil (u div 86400 + 135080) = (y, m, d)" by (metis prod_cases3)
  have v: "valid_date (y, m, d)" "day_number (y, m, d) = u div 86400" using civil_ok [of "u div 86400 + 135080"] D C by simp_all
  note b = date_bounds [OF v(1)] year_bounds [OF v(1)]
  define S where "S = u mod 86400"
  have S: "0 \<le> S" "S < 86400" "S sdiv 3600 = S div 3600" "S sdiv 60 smod 60 = S div 60 mod 60" "S smod 60 = S mod 60"
    using sdiv_nonneg [of S 3600] sdiv_nonneg [of S 60] sdiv_nonneg [of "S div 60" 60] by (simp_all add: S_def pos_imp_zdiv_nonneg_iff)
  have "S div 3600 < 24" using S(2) by linarith
  then have r: "0 \<le> S div 3600" "S div 3600 < 24" "0 \<le> S div 60 mod 60" "S div 60 mod 60 < 60" "0 \<le> S mod 60" "S mod 60 < 60"
    "0 \<le> (u div 86400 + 3) mod 7" "(u div 86400 + 3) mod 7 < 7" using S(1) by (simp_all add: pos_imp_zdiv_nonneg_iff)
  have yday: "day_number (y, m, d) - day_number (y, 1, 1) + 1 = int (days_before (leap_year y) m + d)" by (simp add: day_number_def)
  have tm: "timeutils_seconds_since_2000_to_struct_time s = Some \<lparr>tm_year = word_of_int y, tm_mon = of_nat m, tm_mday = of_nat d,
    tm_hour = word_of_int (S div 3600), tm_min = word_of_int (S div 60 mod 60), tm_sec = word_of_int (S mod 60),
    tm_wday = word_of_int ((u div 86400 + 3) mod 7), tm_yday = of_nat (days_before (leap_year y) m + d)\<rparr>"
    unfolding timeutils_seconds_since_2000_to_struct_time_def
    using struct_time_ok [of "s + TIMEUTILS_SECONDS_1970_TO_2000" y m d, unfolded to_1970 [OF assms], folded u_def, folded S_def, OF D C]
    unfolding S(3-5) .
  have y: "uint (word_of_int y :: u16) = y" using b D v(2) by (intro small_words) simp_all
  have md: "uint (of_nat m :: u8) = int m" "uint (of_nat d :: u8) = int d" using small_words(1) [of "int m"] small_words(1) [of "int d"] b by simp_all
  have n: "uint (of_nat (days_before (leap_year y) m + d) :: u16) = int (days_before (leap_year y) m + d)"
    using small_words(2) [of "int (days_before (leap_year y) m + d)"] b(5) by simp
  have hms: "uint (word_of_int (S div 3600) :: u8) = S div 3600" "uint (word_of_int (S div 60 mod 60) :: u8) = S div 60 mod 60"
    "uint (word_of_int (S mod 60) :: u8) = S mod 60" "uint (word_of_int ((u div 86400 + 3) mod 7) :: u8) = (u div 86400 + 3) mod 7"
    by (rule small_words(1); use r in linarith)+
  show ?thesis
    unfolding time_localtime_def tm u_def [symmetric] C broken_down_def prod.case yday S_def [symmetric]
    by (simp only: option.map timeutils_struct_time_t.select_convs y md n hms)
qed

section \<open>Properties\<close>

text \<open>C19: \<open>localtime\<close> of a second gives the date that the Gregorian calendar reaches by stepping day by day from
  1 March 1600, with the time of day, the weekday (Monday is 0, and 1 January 1970 was a Thursday) and
  the day of the year, for every second from that day on for more than sixty thousand years.\<close>

theorem localtime_calendar:
  assumes "- 11670912000 \<le> sint s + 946684800" "sint s + 946684800 < 1987200000000"
  shows "time_localtime s =
    Some (broken_down (sint s + 946684800) ((next_day ^^ nat ((sint s + 946684800) div 86400 + 135080)) (1600, 3, 1)))"
proof -
  have "0 \<le> (sint s + 946684800) div 86400 + 135080" using assms(1) by linarith
  from civil_next [OF this] show ?thesis using localtime_ok [OF assms] by simp
qed

lemma localtime_calendar_witness:
  "time_localtime (- 946684800 + 86399) = Some [1970, 1, 1, 23, 59, 59, 3, 1]"
proof -
  have "sint (- 946684800 + 86399 :: i64) = - 946598401" using sint_small64 [of "- 946598401"] by simp
  then show ?thesis using localtime_calendar [of "- 946684800 + 86399"] epoch_date(2) by (simp add: broken_down_def day_number_def)
qed

text \<open>C28: \<open>mktime\<close> takes fields out of their ranges, negative ones included, and gives the second that they denote:
  months are carried into the year, and days, hours, minutes and seconds are added up from the first
  of that month.  Its loops end, for any result from the year 1601 on.\<close>

theorem mktime_normalises:
  assumes "0 \<le> year" "year \<le> 1000000" "\<bar>month\<bar> \<le> 1000000" "\<bar>mday\<bar> \<le> 1000000" "\<bar>h\<bar> \<le> 1000000" "\<bar>mi\<bar> \<le> 1000000" "\<bar>s\<bar> \<le> 1000000"
    "year' = year + (month - 1) div 12" "month' = nat ((month - 1) mod 12 + 1)" "0 \<le> year'"
    "u = 86400 * (day_number (year', month', 1) + mday - 1) + 3600 * h + 60 * mi + s" "day_number (1601, 1, 1) * 86400 \<le> u"
    "length rest = 2 \<or> length rest = 3"
  shows "time_mktime ([year, month, mday, h, mi, s] @ rest) = Inr (Some (Some (word_of_int (u - 946684800))))"
proof -
  have u: "u = 86400 * month_day year' month' mday + 3600 * h + 60 * mi + s" using assms(11) by (simp add: day_number_def month_day_def)
  have "- 134774 * 86400 \<le> u" using assms(12) by (simp add: day_number_def year_start_def)
  then have "timeutils_mktime_1970 (word_of_int year) month mday h mi s = Some (Some (word_of_int u))"
    using mktime_ok [of year month mday h mi s] assms(1-10) u by simp
  then show ?thesis using assms(13) by (auto simp: time_mktime_def timeutils_mktime_2000_def TIMEUTILS_SECONDS_1970_TO_2000_def)
qed

lemma mktime_normalises_witness:
  "time_mktime ([1999, 14, 0, 25, - 61, 60] @ [0, 0]) = Inr (Some (Some (word_of_int (31 * 86400))))"
  using mktime_normalises [of 1999 14 0 25 "- 61" 60 2000 2 949363200 "[0, 0]"] by (simp add: day_number_def year_start_def leap_year_def)

text \<open>C20: \<open>mktime\<close> inverts \<open>localtime\<close>: for every second from 1 January 1601 on, in the range where the year
  fits into its 16 bits, the tuple of \<open>localtime\<close> is read back as that second.\<close>

theorem mktime_localtime:
  assumes "- 11644473600 \<le> sint s + 946684800" "sint s + 946684800 < 1987200000000"
  shows "\<exists>tuple. time_localtime s = Some tuple \<and> time_mktime tuple = Inr (Some (Some s))"
proof -
  define u where "u = sint s + 946684800"
  have D: "- 134774 \<le> u div 86400" "u div 86400 < 23000000" using assms unfolding u_def by linarith+
  obtain y m d where C: "civil (u div 86400 + 135080) = (y, m, d)" by (metis prod_cases3)
  have v: "valid_date (y, m, d)" "day_number (y, m, d) = u div 86400" using civil_ok [of "u div 86400 + 135080"] D C by simp_all
  note b = date_bounds [OF v(1)] year_bounds [OF v(1)]
  define S where "S = u mod 86400"
  have S: "0 \<le> S" "S < 86400" by (simp_all add: S_def)
  have "S div 3600 < 24" using S(2) by linarith
  then have r: "\<bar>S div 3600\<bar> \<le> 1000000" "\<bar>S div 60 mod 60\<bar> \<le> 1000000" "\<bar>S mod 60\<bar> \<le> 1000000"
    using S(1) pos_mod_bound [of 60 "S div 60"] pos_mod_bound [of 60 S] by (simp_all add: pos_imp_zdiv_nonneg_iff)
  have parts: "3600 * (S div 3600) + 60 * (S div 60 mod 60) + S mod 60 = S"
  proof -
    define q where "q = S div 60"
    have "60 * q + S mod 60 = S" "60 * (q div 60) + q mod 60 = q" by (simp_all add: q_def)
    moreover have "S div 3600 = q div 60" using zdiv_zmult2_eq [of 60 S 60] by (simp add: q_def)
    ultimately show ?thesis unfolding q_def [symmetric] by linarith
  qed
  have u: "86400 * month_day y m (int d) + 3600 * (S div 3600) + 60 * (S div 60 mod 60) + S mod 60 = u"
  proof -
    have "86400 * (u div 86400) + S = u" by (simp add: S_def)
    moreover have "month_day y m (int d) = u div 86400" using v(2) by (simp add: month_day_number)
    ultimately show ?thesis using parts by simp
  qed
  have m: "y + (int m - 1) div 12 = y" "nat ((int m - 1) mod 12 + 1) = m" using b(1,2) by simp_all
  have "timeutils_mktime_1970 (word_of_int y) (int m) (int d) (S div 3600) (S div 60 mod 60) (S mod 60) = Some (Some (word_of_int u))"
  proof -
    have "0 \<le> y" "y \<le> 1000000" "\<bar>int m\<bar> \<le> 1000000" "\<bar>int d\<bar> \<le> 1000000" using b D v(2) by simp_all
    moreover have "- 134774 * 86400 \<le> u" using assms(1) by (simp add: u_def)
    ultimately show ?thesis
      using mktime_ok [of y "int m" "int d" "S div 3600" "S div 60 mod 60" "S mod 60", unfolded m u] r by blast
  qed
  moreover have "word_of_int u - TIMEUTILS_SECONDS_1970_TO_2000 = s" by (simp add: u_def TIMEUTILS_SECONDS_1970_TO_2000_def)
  ultimately have "time_mktime (broken_down u (y, m, d)) = Inr (Some (Some s))"
    by (simp add: time_mktime_def broken_down_def timeutils_mktime_2000_def S_def numeral_eq_Suc)
  moreover have "time_localtime s = Some (broken_down u (y, m, d))" using localtime_ok assms C unfolding u_def by simp
  ultimately show ?thesis by blast
qed

lemma mktime_localtime_witness:
  "\<exists>tuple. time_localtime 0 = Some tuple \<and> time_mktime tuple = Inr (Some (Some 0))"
  using mktime_localtime [of 0] by simp

section \<open>The year 1600\<close>

lemma seconds_1600:
  assumes "1 \<le> m" "m \<le> 12" "1 \<le> d" "d < 100000000"
  shows "timeutils_seconds_since_1970 1600 (of_nat m) (word_of_int d) hour minute second =
    Some (word_of_int (86400 * (month_day 1600 m d + 1041529570)) + ucast (hour * 3600 + minute * 60 + second))"
proof -
  define b where "b = days_before (leap_year 1600) m"
  have b: "b \<le> 335" using month_cases [OF assms(1,2)] unfolding b_def by (elim disjE) simp_all
  have yd: "timeutils_year_day 1600 (of_nat m) (word_of_int d) = Some (word_of_int (int b + d))"
    using year_day_ok [OF assms(1,2), of 1600 "word_of_int d"] by (simp add: b_def)
  have since: "(1600 :: u32) - (QC_LEAP_YEAR + 1) = word_of_int 4294967295" by (simp add: QC_LEAP_YEAR_def)
  have q: "ucast ((word_of_int 4294967295 :: u32) div 4) = (word_of_int 1073741823 :: i64)"
    "ucast ((word_of_int 4294967295 :: u32) div 100) = (word_of_int 42949672 :: i64)"
    "ucast ((word_of_int 4294967295 :: u32) div 400) = (word_of_int 10737418 :: i64)"
    using word_div_small [of 4294967295 4] word_div_small [of 4294967295 100] word_div_small [of 4294967295 400] by simp_all
  have first: "mp_int (mp_int (sint (1600 :: u32) - 1970) * 365) = - 135050" using sint_small32 [of 1600] by simp
  have last: "ucast ((word_of_int (int b + d) :: u32) - 1) = (word_of_int (int b + d - 1) :: i64)"
    using ucast64 [of "int b + d - 1"] b assms(3,4) by simp
  show ?thesis
    unfolding timeutils_seconds_since_1970_def yd bind.bind_lunit Let_def since q first last
    by (simp add: month_day_def year_start_def b_def QC_LEAP_DAYS_def algebra_simps)
qed

lemma mktime_1600:
  assumes "valid_date (1600, m, d)" "0 \<le> h" "h < 24" "0 \<le> mi" "mi < 60" "0 \<le> s" "s < 60"
  shows "timeutils_mktime_1970 1600 (int m) (int d) h mi s =
    Some (Some (word_of_int (86400 * (day_number (1600, m, d) + 1041529570) + 3600 * h + 60 * mi + s)))"
proof -
  note b = date_bounds [OF assms(1)]
  have carry: "carry_field mi s 60 = (mi, s)" "carry_field h mi 60 = (h, mi)" "carry_field (int d) h 24 = (int d, h)"
    using carry_field_ok [of 60 mi s] carry_field_ok [of 60 h mi] carry_field_ok [of 24 "int d" h] assms b by simp_all
  have m: "mp_int (int m - 1) = int m - 1" "(int m - 1) sdiv 12 = 0" "(int m - 1) smod 12 = int m - 1"
    using sdiv_nonneg [of "int m - 1" 12] b by simp_all
  have len: "d \<le> month_len (leap_year 1600) m" using assms(1) by (simp add: valid_date_def)
  have bk: "back_months 1600 (int m) (int d) = Some (Some (1600, int m, int d))"
    using b by (subst back_months.simps) simp
  have w: "timeutils_days_in_month 1600 (word_of_int (int m)) = Some (of_nat (month_len (leap_year 1600) m))"
    using day_word(1) [of 1600 m] b by simp
  have "\<not> (word_of_int (int d) :: u32) > of_nat (month_len (leap_year 1600) m)"
    using day_word(2) [where l = "leap_year 1600" and m = m, OF order_refl] uint_small [of "int d"] b len by (simp add: word_less_def)
  then have on: "on_months 1600 (int m) (int d) = Some (Some (1600, int m, int d))"
    by (subst on_months.simps) (simp only: w option.case if_False)
  have sec: "ucast ((word_of_int h :: u32) * 3600 + word_of_int mi * 60 + word_of_int s) = (word_of_int (3600 * h + 60 * mi + s) :: i64)"
  proof -
    have "(word_of_int h :: u32) * 3600 + word_of_int mi * 60 + word_of_int s = word_of_int (3600 * h + 60 * mi + s)" by simp
    then show ?thesis using ucast64 [of "3600 * h + 60 * mi + s"] assms by (simp only:)
  qed
  have "timeutils_seconds_since_1970 1600 (word_of_int (int m)) (word_of_int (int d)) (word_of_int h) (word_of_int mi) (word_of_int s) =
    Some (word_of_int (86400 * (day_number (1600, m, d) + 1041529570) + 3600 * h + 60 * mi + s))"
    using seconds_1600 [OF b(1,2), of "int d" "word_of_int h" "word_of_int mi" "word_of_int s"] b sec by (simp add: month_day_number)
  moreover have "\<not> int m - 1 < 0" "int m - 1 + 1 = int m" using b by simp_all
  ultimately show ?thesis
    unfolding timeutils_mktime_1970_def Let_def carry prod.case m by (simp add: bk on)
qed

text \<open>Before 1 March 1600 all divisions round to zero, and the day of the year from March on is negative.\<close>

lemma small_sdiv: "- k < a \<Longrightarrow> a < k \<Longrightarrow> a sdiv k = 0 \<and> a smod k = a" for a k :: int
  by (cases "a < 0") (simp_all add: signed_divide_int_def signed_modulo_int_def sgn_if)

lemma broken_1600:
  fixes t :: i64
  defines "D \<equiv> sint t div 86400"
  defines "S \<equiv> sint t mod 86400"
  assumes "- 135140 \<le> D" "D \<le> - 135081"
  shows "\<exists>tm. timeutils_seconds_since_1970_to_struct_time t = Some tm \<and> tm_year tm = 1600 \<and> tm_mon tm = 3 \<and>
    tm_mday tm = word_of_int (D + 135081) \<and> tm_hour tm = word_of_int (S sdiv 3600) \<and> tm_min tm = word_of_int (S sdiv 60 smod 60) \<and>
    tm_sec tm = word_of_int (S smod 60)"
proof -
  define n where "n = D + 135080"
  have n: "- 60 \<le> n" "n \<le> - 1" using assms(3,4) by (simp_all add: n_def)
  have days: "(if sint t smod 86400 < 0 then (mp_int (mp_int (sint t sdiv 86400) - 1), sint t smod 86400 + 86400)
      else (mp_int (sint t sdiv 86400), sint t smod 86400)) = (D, S)"
    using floor_split [of 86400 "sint t"] assms(3,4) unfolding D_def S_def by (cases "sint t smod 86400 < 0") simp_all
  have words: "mp_int (D + uint PREV_LEAP_DAY) = D + 671" "mp_int (D + 671 + QC_BASE_DAY) = n"
    "(word_of_int (n sdiv DAYS_PER_400Y) :: u32) = 0" "n smod DAYS_PER_400Y = n"
    using n small_sdiv [of 146097 n] by (simp_all add: PREV_LEAP_DAY_def QC_BASE_DAY_def DAYS_PER_400Y_def n_def)
  have caps: "(if (word_of_int (n sdiv DAYS_PER_100Y) :: u32) = 4 then word_of_int (n sdiv DAYS_PER_100Y) - 1 else word_of_int (n sdiv DAYS_PER_100Y)) = (0 :: u32)"
    "mp_int (n - uint ((0 :: u32) * word_of_int DAYS_PER_100Y)) = n"
    "(if (word_of_int (n sdiv DAYS_PER_4Y) :: u32) = 25 then word_of_int (n sdiv DAYS_PER_4Y) - 1 else word_of_int (n sdiv DAYS_PER_4Y)) = (0 :: u32)"
    "mp_int (n - uint ((0 :: u32) * word_of_int DAYS_PER_4Y)) = n"
    "(if n sdiv 365 = 4 then n sdiv 365 - 1 else n sdiv 365) = 0" "mp_int (n - 0 * 365) = n"
    using n small_sdiv [of 36524 n] small_sdiv [of 1461 n] small_sdiv [of 365 n] by (simp_all add: DAYS_PER_100Y_def DAYS_PER_4Y_def)
  have yw: "ucast (QC_LEAP_YEAR + word_of_int 0 + 4 * (0 :: u32) + 100 * 0 + 400 * 0) = (1600 :: u16)" by (simp add: QC_LEAP_YEAR_def)
  have loop: "month_loop month_lengths 0 n = Some (0, n)" using n by (simp add: month_lengths_def)
  have mon: "(if (of_nat (0 + 2) :: u8) \<ge> 12 then of_nat (0 + 2) - 12 else of_nat (0 + 2)) + 1 = (3 :: u8)"
    "(if (of_nat (0 + 2) :: u8) \<ge> 12 then (1600 :: u16) + 1 else 1600) = 1600" by (simp_all add: word_le_nat_alt)
  have yday: "\<exists>yd. timeutils_year_day (ucast (1600 :: u16)) (ucast (3 :: u8)) x = Some yd" for x
    by (simp add: timeutils_year_day_def days_since_jan1_def Let_def)
  then obtain yd where yd: "timeutils_year_day (ucast (1600 :: u16)) (ucast (3 :: u8)) (ucast (word_of_int (n + 1) :: u8)) = Some yd" by blast
  have "timeutils_seconds_since_1970_to_struct_time t = Some \<lparr>tm_year = 1600, tm_mon = 3, tm_mday = word_of_int (n + 1),
    tm_hour = word_of_int (S sdiv 3600), tm_min = word_of_int (S sdiv 60 smod 60), tm_sec = word_of_int (S smod 60),
    tm_wday = word_of_int (mp_int (D + 3) mod 7), tm_yday = ucast yd\<rparr>"
    unfolding timeutils_seconds_since_1970_to_struct_time_def
    apply (rule let_step [OF refl], rule let_step [OF refl], rule let_step2 [OF days])
    apply (rule let_step [OF refl], rule let_step [OF weekday_step])
    apply (rule let_step [OF words(1)], rule let_step [OF words(2)], rule let_step [OF words(3)], rule let_step [OF words(4)])
    apply (rule let_step [OF refl], rule let_step [OF caps(1)], rule let_step [OF caps(2)])
    apply (rule let_step [OF refl], rule let_step [OF caps(3)], rule let_step [OF caps(4)])
    apply (rule let_step [OF refl], rule let_step [OF caps(5)], rule let_step [OF caps(6)], rule let_step [OF yw])
    unfolding loop bind.bind_lunit prod.case
    apply (rule let_step [OF refl], rule let_step [OF mon(1)], rule let_step [OF mon(2)], rule let_step [OF refl])
    unfolding yd bind.bind_lunit by (rule refl)
  then show ?thesis by (simp add: n_def)
qed

text \<open>C40: the year 1600, which the configuration counts among the supported ones, is not.  \<open>mktime\<close> of every second
  of that year is off by 1041529570 days, more than two million years, because the year 1601 is subtracted as an
  unsigned number; and \<open>localtime\<close> of every second of January and February gives the month March and a day that is
  not positive, modulo 256: 29 February becomes 0 March and 1 January becomes 197 March.\<close>

theorem timeutils_year_1600:
  assumes "valid_date (1600, m, d)" "0 \<le> h" "h < 24" "0 \<le> mi" "mi < 60" "0 \<le> s" "s < 60" "length rest = 2 \<or> length rest = 3"
    "u = 86400 * day_number (1600, m, d) + 3600 * h + 60 * mi + s"
  shows "time_mktime ([1600, int m, int d, h, mi, s] @ rest) = Inr (Some (Some (word_of_int (u + 86400 * 1041529570 - 946684800)))) \<and>
    (m \<le> 2 \<longrightarrow> (\<exists>tail. time_localtime (word_of_int (u - 946684800)) =
      Some ([1600, 3, (day_number (1600, m, d) + 135081) mod 256, h, mi, s] @ tail)))"
proof (intro conjI impI)
  have "86400 * (day_number (1600, m, d) + 1041529570) + 3600 * h + 60 * mi + s = u + 86400 * 1041529570"
    using assms(9) by (simp add: algebra_simps)
  then have "timeutils_mktime_1970 1600 (int m) (int d) h mi s = Some (Some (word_of_int (u + 86400 * 1041529570)))"
    using mktime_1600 [OF assms(1-7)] by (simp only:)
  then show "time_mktime ([1600, int m, int d, h, mi, s] @ rest) = Inr (Some (Some (word_of_int (u + 86400 * 1041529570 - 946684800))))"
    using assms(8) by (auto simp: time_mktime_def timeutils_mktime_2000_def TIMEUTILS_SECONDS_1970_TO_2000_def)
next
  assume m: "m \<le> 2"
  note b = date_bounds [OF assms(1)]
  define D where "D = day_number (1600, m, d)"
  define S where "S = 3600 * h + 60 * mi + s"
  have S: "0 \<le> S" "S < 86400" using assms(2-7) by (simp_all add: S_def)
  have len: "d \<le> month_len True m" using assms(1) by (simp add: valid_date_def leap_year_def)
  have "m = 1 \<or> m = 2" using b(1) m by linarith
  then have D: "- 135140 \<le> D" "D \<le> - 135081"
    using b(3) len unfolding D_def by (elim disjE; simp add: day_number_def year_start_def leap_year_def month_len_def)+
  have u: "u = 86400 * D + S" using assms(9) by (simp add: D_def S_def)
  have t: "sint (word_of_int u :: i64) = u" using u D S by (intro sint_small64) linarith+
  have parts: "u div 86400 = D" "u mod 86400 = S" using S unfolding u by simp_all
  obtain tm where tm: "timeutils_seconds_since_1970_to_struct_time (word_of_int u) = Some tm" "tm_year tm = 1600" "tm_mon tm = 3"
    "tm_mday tm = word_of_int (D + 135081)" "tm_hour tm = word_of_int (S sdiv 3600)" "tm_min tm = word_of_int (S sdiv 60 smod 60)"
    "tm_sec tm = word_of_int (S smod 60)" using broken_1600 [of "word_of_int u", unfolded t parts, OF D] by blast
  have q: "S sdiv 3600 = h" "S sdiv 60 = 60 * h + mi" "(60 * h + mi) smod 60 = mi" "S smod 60 = s"
  proof -
    have "S div 3600 = h" by (rule int_div_pos_eq [of _ _ _ "60 * mi + s"]) (use assms in \<open>simp_all add: S_def\<close>)
    moreover have "S div 60 = 60 * h + mi" by (rule int_div_pos_eq [of _ _ _ s]) (use assms in \<open>simp_all add: S_def\<close>)
    moreover have "S mod 60 = s" by (rule int_mod_pos_eq [of _ _ "60 * h + mi"]) (use assms in \<open>simp_all add: S_def\<close>)
    moreover have "(60 * h + mi) mod 60 = mi" using assms(4,5) by simp
    ultimately show "S sdiv 3600 = h" "S sdiv 60 = 60 * h + mi" "(60 * h + mi) smod 60 = mi" "S smod 60 = s"
      using sdiv_nonneg [OF S(1)] sdiv_nonneg [of "60 * h + mi" 60] assms(2,4) by simp_all
  qed
  have "word_of_int (u - 946684800) + TIMEUTILS_SECONDS_1970_TO_2000 = word_of_int u" by (simp add: TIMEUTILS_SECONDS_1970_TO_2000_def)
  moreover have day: "uint (word_of_int (D + 135081) :: u8) = (D + 135081) mod 256" unfolding uint_word_of_int by simp
  ultimately have "time_localtime (word_of_int (u - 946684800)) =
      Some ([1600, 3, (D + 135081) mod 256, h, mi, s] @ [uint (tm_wday tm), uint (tm_yday tm)])"
    using assms(2-7) small_words(1) [of h] small_words(1) [of mi] small_words(1) [of s]
    by (simp add: time_localtime_def timeutils_seconds_since_2000_to_struct_time_def tm q day del: of_int_add)
  then show "\<exists>tail. time_localtime (word_of_int (u - 946684800)) =
      Some ([1600, 3, (day_number (1600, m, d) + 135081) mod 256, h, mi, s] @ tail)" unfolding D_def by blast
qed

lemma timeutils_year_1600_witness:
  "time_mktime [1600, 2, 29, 12, 30, 15, 0, 0] = Inr (Some (Some (word_of_int (86400 * (1041529570 - 135081) + 45015 - 946684800)))) \<and>
   (\<exists>tail. time_localtime (word_of_int (45015 - 86400 * 135081 - 946684800)) = Some ([1600, 3, 0, 12, 30, 15] @ tail))"
proof -
  have "day_number (1600, 2, 29) = - 135081" "valid_date (1600, 2, 29)"
    by (simp_all add: day_number_def year_start_def leap_year_def valid_date_def month_len_def)
  then show ?thesis using timeutils_year_1600 [of 2 29 12 30 15 "[0, 0]" "45015 - 86400 * 135081"] by simp
qed

end
